(* ===== verification/Prelude.thy ===== *)
theory Prelude
  imports Main "HOL-Library.Word" "HOL-Library.Monad_Syntax" "HOL-Library.Char_ord"
    "HOL-Library.List_Lexorder" "HOL-Library.Product_Lexorder"
begin

text \<open>
  Shared ground of the development: the types every component uses for Rust's integers,
  strings and fallible results, and the generic lemmas on lists and options the component
  proofs rest on.

  \<^item> A Rust \<open>String\<close> is a list of Unicode scalar values, a \<open>nat\<close> each
    (\<open>ustring\<close>); \<open>ustr\<close> turns an ASCII literal into one. Names that the
    code only compares are plain \<open>string\<close>s.
  \<^item> A panic (an index out of range, an \<open>unwrap\<close> of \<open>None\<close>) is the value \<open>None\<close> of
    an \<open>option\<close>; a Rust \<open>Result\<close> is a sum with the error on the left.
  \<^item> \<open>usize\<close> and \<open>u32\<close> values that only count or name things are \<open>nat\<close>s.
\<close>

type_synonym i64 = "64 word"
type_synonym uchar = nat
type_synonym ustring = "uchar list"

definition ustr :: "string \<Rightarrow> ustring" where
  "ustr s = map of_char s"

named_theorems dist_simps \<open>equations of the edit-distance model\<close>
named_theorems ir_simps \<open>equations of the IR data model and its traversals\<close>

section \<open>Lists updated by index\<close>

text \<open>Rust's \<open>v[i] = x\<close> on a vector: out of range it panics.\<close>

definition vec_set :: "'a list \<Rightarrow> nat \<Rightarrow> 'a \<Rightarrow> 'a list option" where
  "vec_set xs i x = (if i < length xs then Some (xs[i := x]) else None)"

text \<open>Rust's \<open>v[i]\<close> as a value: out of range it panics.\<close>

definition vec_get :: "'a list \<Rightarrow> nat \<Rightarrow> 'a option" where
  "vec_get xs i = (if i < length xs then Some (xs ! i) else None)"

lemma vec_get_Some_iff: "vec_get xs i = Some x \<longleftrightarrow> i < length xs \<and> xs ! i = x"
  by (auto simp: vec_get_def)

lemma vec_get_in_range [simp]: "i < length xs \<Longrightarrow> vec_get xs i = Some (xs ! i)"
  by (simp add: vec_get_def)

lemma vec_set_in_range [simp]: "i < length xs \<Longrightarrow> vec_set xs i x = Some (xs[i := x])"
  by (simp add: vec_set_def)

lemma vec_set_Some_length: "vec_set xs i x = Some ys \<Longrightarrow> length ys = length xs"
  by (auto simp: vec_set_def split: if_splits)

section \<open>Options as fallible results\<close>

lemma bind_Some_iff: "Option.bind m f = Some y \<longleftrightarrow> (\<exists>x. m = Some x \<and> f x = Some y)"
  by (cases m) auto

text \<open>Running a fallible step over a list, left to right, with a state threaded through.\<close>

fun fold_opt :: "('s \<Rightarrow> 'a \<Rightarrow> 's option) \<Rightarrow> 's \<Rightarrow> 'a list \<Rightarrow> 's option" where
  "fold_opt f s [] = Some s"
| "fold_opt f s (x # xs) = Option.bind (f s x) (\<lambda>s'. fold_opt f s' xs)"

lemma fold_opt_append:
  "fold_opt f s (xs @ ys) = Option.bind (fold_opt f s xs) (\<lambda>s'. fold_opt f s' ys)"
  by (induction xs arbitrary: s) (auto simp: bind_assoc split: Option.bind_splits)

lemma fold_opt_total:
  assumes "\<And>s x. I s \<Longrightarrow> x \<in> set xs \<Longrightarrow> \<exists>s'. f s x = Some s' \<and> I s'"
    and "I s"
  shows "\<exists>s'. fold_opt f s xs = Some s' \<and> I s'"
  using assms
proof (induction xs arbitrary: s)
  case Nil
  then show ?case by simp
next
  case (Cons x xs)
  then obtain s' where "f s x = Some s'" and "I s'" by (meson list.set_intros(1))
  with Cons show ?case by fastforce
qed

section \<open>Enumerated lists\<close>

lemma enumerate_snoc: "enumerate n (xs @ [x]) = enumerate n xs @ [(n + length xs, x)]"
  by (induction xs arbitrary: n) auto

lemma set_enumerate_fst: "(i, x) \<in> set (enumerate n xs) \<Longrightarrow> n \<le> i \<and> i < n + length xs"
  by (induction xs arbitrary: n) force+

section \<open>Maxima of lists of variables\<close>

text \<open>
  The passes size their tables with a running maximum, \<open>bump v\<close> being
  \<open>max = max.max(v + 1)\<close>; the result is the least bound above every variable visited.
\<close>

definition bump :: "nat \<Rightarrow> nat \<Rightarrow> nat" where
  "bump m v = max m (v + 1)"

lemma foldl_bump_ge: "m \<le> foldl bump m vs"
proof (induction vs arbitrary: m)
  case (Cons x vs)
  have "m \<le> bump m x" by (simp add: bump_def)
  also have "\<dots> \<le> foldl bump (bump m x) vs" by (rule Cons.IH)
  finally show ?case by simp
qed simp

lemma foldl_bump_above: "v \<in> set vs \<Longrightarrow> v < foldl bump m vs"
proof (induction vs arbitrary: m)
  case Nil
  then show ?case by simp
next
  case (Cons x vs)
  have "x < bump m x" by (simp add: bump_def)
  also have "\<dots> \<le> foldl bump (bump m x) vs" by (rule foldl_bump_ge)
  finally show ?case using Cons by auto
qed

lemma foldl_bump_least: "m \<le> n \<Longrightarrow> (\<And>v. v \<in> set vs \<Longrightarrow> v < n) \<Longrightarrow> foldl bump m vs \<le> n"
proof (induction vs arbitrary: m)
  case (Cons x vs)
  then have "bump m x \<le> n" by (auto simp: bump_def Suc_le_eq)
  with Cons show ?case by simp
qed simp

section \<open>Numbers in decimal\<close>

text \<open>\<open>format!("{}")\<close> of an unsigned number.\<close>

fun decimal :: "nat \<Rightarrow> string" where
  "decimal n = (if n < 10 then [char_of (48 + n)] else decimal (n div 10) @ [char_of (48 + n mod 10)])"

declare decimal.simps [simp del]

lemma decimal_not_Nil [simp]: "decimal n \<noteq> []" "[] \<noteq> decimal n"
  by (subst decimal.simps; simp)+

lemma char_of_digit_inj: "i < 10 \<Longrightarrow> j < 10 \<Longrightarrow> char_of (48 + i) = (char_of (48 + j) :: char) \<longleftrightarrow> i = (j::nat)"
proof -
  assume "i < 10" "j < 10"
  then have "of_char (char_of (48 + i) :: char) = 48 + i" "of_char (char_of (48 + j) :: char) = 48 + j"
    by (simp_all add: of_char_of)
  then show ?thesis by (metis add_left_cancel)
qed

lemma decimal_inj: "decimal m = decimal n \<longleftrightarrow> m = n"
proof
  show "decimal m = decimal n \<Longrightarrow> m = n"
  proof (induction m arbitrary: n rule: decimal.induct)
    case (1 m)
    show ?case
    proof (cases "m < 10")
      case True
      show ?thesis
      proof (cases "n < 10")
        case True
        with 1 \<open>m < 10\<close> show ?thesis
          by (simp add: decimal.simps [of m] decimal.simps [of n] char_of_digit_inj)
      next
        case False
        with 1 \<open>m < 10\<close> show ?thesis by (simp add: decimal.simps [of m] decimal.simps [of n])
      qed
    next
      case False
      note m = this
      show ?thesis
      proof (cases "n < 10")
        case True
        with 1 m show ?thesis by (simp add: decimal.simps [of m] decimal.simps [of n])
      next
        case False
        with 1 m have "decimal (m div 10) = decimal (n div 10)" and "m mod 10 = n mod 10"
          by (simp_all add: decimal.simps [of m] decimal.simps [of n] char_of_digit_inj)
        with 1 m show ?thesis by (metis div_mult_mod_eq)
      qed
    qed
  qed
qed simp

end
