(* ===== verification/Suggest.thy ===== *)
theory Suggest
  imports Prelude
begin

text \<open>
  The "did you mean" component, \<open>compiler/src/suggest.rs\<close>: the Levenshtein distance over
  two rolling rows (\<open>edit_distance\<close>) and the choice of the closest candidate (\<open>closest\<close>).

  The specification of the distance is the alignment relation \<open>align\<close>; the rows are shown
  to hold its optimum for every pair of prefixes. The specification of \<open>closest\<close> is the
  minimum of the eligible candidates under the code's three-part key.
\<close>

section \<open>The code\<close>

text \<open>
  One inner loop of \<open>edit_distance\<close>, over the enumerated characters of \<open>b\<close>: each step
  writes \<open>curr[j + 1]\<close> from \<open>prev\<close> and the cell written before it.
\<close>

fun fill_row :: "nat list \<Rightarrow> uchar \<Rightarrow> (nat \<times> uchar) list \<Rightarrow> nat list \<Rightarrow> nat list" where
  "fill_row prev ac [] cur = cur"
| "fill_row prev ac ((j, bc) # rest) cur =
     (let cost = (if ac = bc then 0 else 1)
      in fill_row prev ac rest
           (cur[j + 1 := min (min (prev ! (j + 1) + 1) (cur ! j + 1)) (prev ! j + cost)]))"

text \<open>
  The outer loop, over the enumerated characters of \<open>a\<close>: \<open>curr[0] = i + 1\<close>, the inner
  loop, then the two rows are swapped.
\<close>

fun edit_rows :: "ustring \<Rightarrow> (nat \<times> uchar) list \<Rightarrow> nat list \<Rightarrow> nat list \<Rightarrow> nat list \<times> nat list"
where
  "edit_rows b [] prev cur = (prev, cur)"
| "edit_rows b ((i, ac) # rest) prev cur =
     edit_rows b rest (fill_row prev ac (enumerate 0 b) (cur[0 := i + 1])) prev"

definition edit_distance :: "ustring \<Rightarrow> ustring \<Rightarrow> nat" where
  "edit_distance a b =
     (if a = [] then length b
      else if b = [] then length a
      else fst (edit_rows b (enumerate 0 a) [0..<length b + 1] (replicate (length b + 1) 0))
             ! length b)"

text \<open>\<open>str::len\<close> counts UTF-8 bytes, \<open>chars().count()\<close> scalar values.\<close>

definition utf8_width :: "uchar \<Rightarrow> nat" where
  "utf8_width c = (if c < 0x80 then 1 else if c < 0x800 then 2 else if c < 0x10000 then 3 else 4)"

definition byte_len :: "ustring \<Rightarrow> nat" where
  "byte_len s = sum_list (map utf8_width s)"

definition threshold :: "ustring \<Rightarrow> nat" where
  "threshold target = max (length target div 3) 1"

text \<open>
  The key candidates are compared by; \<open>str\<close> order is the order of the scalar values
  (UTF-8 keeps it), and tuples compare lexicographically.
\<close>

definition candidate_key :: "nat \<times> ustring \<Rightarrow> nat \<times> nat \<times> ustring" where
  "candidate_key p = (fst p, byte_len (snd p), snd p)"

text \<open>One turn of the loop over the candidates.\<close>

definition closest_step ::
  "ustring \<Rightarrow> (nat \<times> ustring) option \<Rightarrow> ustring \<Rightarrow> (nat \<times> ustring) option" where
  "closest_step target best candidate =
     (if candidate = target then best
      else let distance = edit_distance target candidate
           in if distance > threshold target then best
              else case best of
                     None \<Rightarrow> Some (distance, candidate)
                   | Some b \<Rightarrow>
                       if candidate_key (distance, candidate) < candidate_key b
                       then Some (distance, candidate) else best)"

definition closest :: "ustring \<Rightarrow> ustring list \<Rightarrow> ustring option" where
  "closest target candidates = map_option snd (foldl (closest_step target) None candidates)"

section \<open>The distance is the least cost of an alignment\<close>

text \<open>
  \<open>align n a b\<close>: \<open>a\<close> can be turned into \<open>b\<close> at cost \<open>n\<close>, by inserting, deleting,
  substituting (cost 1 each) or keeping characters, left to right.
\<close>

inductive align :: "nat \<Rightarrow> 'c list \<Rightarrow> 'c list \<Rightarrow> bool" where
  align_Nil: "align 0 [] []"
| align_ins: "align n a b \<Longrightarrow> align (n + 1) a (b @ [y])"
| align_del: "align n a b \<Longrightarrow> align (n + 1) (a @ [x]) b"
| align_sub: "align n a b \<Longrightarrow> align (n + (if x = y then 0 else 1)) (a @ [x]) (b @ [y])"

text \<open>The recurrence both the rows and the alignments follow, on prefix lengths.\<close>

fun lev :: "'c list \<Rightarrow> 'c list \<Rightarrow> nat \<Rightarrow> nat \<Rightarrow> nat" where
  "lev a b 0 j = j"
| "lev a b i 0 = i"
| "lev a b (Suc i) (Suc j) =
     min (min (lev a b i (Suc j) + 1) (lev a b (Suc i) j + 1))
       (lev a b i j + (if a ! i = b ! j then 0 else 1))"

lemma lev_0_right [simp]: "lev a b i 0 = i"
  by (cases i) auto

lemma align_ins_many: "align n a b \<Longrightarrow> align (n + length ys) a (b @ ys)"
proof (induction ys rule: rev_induct)
  case Nil
  then show ?case by simp
next
  case (snoc y ys)
  then have "align (n + length ys + 1) a ((b @ ys) @ [y])" by (blast intro: align_ins)
  then show ?case by simp
qed

lemma align_del_many: "align n a b \<Longrightarrow> align (n + length xs) (a @ xs) b"
proof (induction xs rule: rev_induct)
  case Nil
  then show ?case by simp
next
  case (snoc x xs)
  then have "align (n + length xs + 1) ((a @ xs) @ [x]) b" by (blast intro: align_del)
  then show ?case by simp
qed

lemma align_lev:
  "i \<le> length a \<Longrightarrow> j \<le> length b \<Longrightarrow> align (lev a b i j) (take i a) (take j b)"
proof (induction a b i j rule: lev.induct)
  case (1 a b j)
  then show ?case using align_ins_many [OF align_Nil, of "take j b"] by simp
next
  case (2 a b i)
  then show ?case using align_del_many [OF align_Nil, of "take (Suc i) a"] by simp
next
  case (3 a b i j)
  then have ij: "take (Suc i) a = take i a @ [a ! i]" "take (Suc j) b = take j b @ [b ! j]"
    by (simp_all add: take_Suc_conv_app_nth)
  have "align (lev a b i (Suc j) + 1) (take i a @ [a ! i]) (take (Suc j) b)"
    using 3 by (intro align_del) simp
  moreover have "align (lev a b (Suc i) j + 1) (take (Suc i) a) (take j b @ [b ! j])"
    using 3 by (intro align_ins) simp
  moreover have "align (lev a b i j + (if a ! i = b ! j then 0 else 1))
      (take i a @ [a ! i]) (take j b @ [b ! j])"
    using 3 by (intro align_sub) simp
  ultimately show ?case using ij by (simp add: min_def)
qed

lemma lev_append: "i \<le> length a \<Longrightarrow> j \<le> length b \<Longrightarrow> lev (a @ xs) (b @ ys) i j = lev a b i j"
  by (induction a b i j rule: lev.induct) (auto simp: nth_append)

lemma lev_le_align: "align n a b \<Longrightarrow> lev a b (length a) (length b) \<le> n"
proof (induction rule: align.induct)
  case align_Nil
  then show ?case by simp
next
  case (align_ins n a b y)
  have "lev a (b @ [y]) (length a) (length b) = lev a b (length a) (length b)"
    using lev_append [of "length a" a "length b" b "[]" "[y]"] by simp
  with align_ins show ?case by (cases a) auto
next
  case (align_del n a b x)
  have "lev (a @ [x]) b (length a) (length b) = lev a b (length a) (length b)"
    using lev_append [of "length a" a "length b" b "[x]" "[]"] by simp
  with align_del show ?case by (cases b) auto
next
  case (align_sub n a b x y)
  have "lev (a @ [x]) (b @ [y]) (length a) (length b) = lev a b (length a) (length b)"
    by (rule lev_append) simp_all
  with align_sub show ?case by (auto simp: nth_append min_le_iff_disj)
qed

section \<open>The rows hold the recurrence\<close>

lemma length_fill_row [simp]: "length (fill_row prev ac js cur) = length cur"
  by (induction prev ac js cur rule: fill_row.induct) (auto simp: Let_def)

lemma fill_row_prefix:
  "length cur = length bs + 1 \<Longrightarrow> k \<le> length bs \<Longrightarrow>
   (\<And>j. j \<le> length bs \<Longrightarrow> prev ! j = lev a bs i j) \<Longrightarrow>
   (\<And>j. j \<le> k \<Longrightarrow> cur ! j = lev a bs (Suc i) j) \<Longrightarrow>
   j \<le> length bs \<Longrightarrow>
   fill_row prev (a ! i) (enumerate k (drop k bs)) cur ! j = lev a bs (Suc i) j"
proof (induction "length bs - k" arbitrary: k cur)
  case 0
  then show ?case by simp
next
  case (Suc m)
  then have k: "k < length bs" by simp
  let ?v = "min (min (prev ! (k + 1) + 1) (cur ! k + 1))
    (prev ! k + (if a ! i = bs ! k then 0 else 1))"
  have v: "?v = lev a bs (Suc i) (Suc k)" using Suc.prems k by simp
  have split: "enumerate k (drop k bs) = (k, bs ! k) # enumerate (Suc k) (drop (Suc k) bs)"
    using k by (simp flip: Cons_nth_drop_Suc)
  have "fill_row prev (a ! i) (enumerate (Suc k) (drop (Suc k) bs)) (cur[k + 1 := ?v]) ! j
      = lev a bs (Suc i) j"
  proof (rule Suc.hyps(1))
    fix j' assume j': "j' \<le> Suc k"
    show "(cur[k + 1 := ?v]) ! j' = lev a bs (Suc i) j'"
    proof (cases "j' = Suc k")
      case True
      then show ?thesis using v Suc.prems(1) k by simp
    next
      case False
      then show ?thesis using Suc.prems(4) [of j'] j' by simp
    qed
  qed (use Suc k in \<open>auto\<close>)
  then show ?case by (simp add: split Let_def)
qed

lemma fill_row_lev:
  assumes "length cur = length bs + 1" and "\<And>j. j \<le> length bs \<Longrightarrow> prev ! j = lev a bs i j"
    and "j \<le> length bs"
  shows "fill_row prev (a ! i) (enumerate 0 bs) (cur[0 := i + 1]) ! j = lev a bs (Suc i) j"
  using fill_row_prefix [of "cur[0 := i + 1]" bs 0 prev a i j] assms
  by (cases cur) auto

lemma edit_rows_lev:
  "length prev = length bs + 1 \<Longrightarrow> length cur = length bs + 1 \<Longrightarrow> i \<le> length a \<Longrightarrow>
   (\<And>j. j \<le> length bs \<Longrightarrow> prev ! j = lev a bs i j) \<Longrightarrow> j \<le> length bs \<Longrightarrow>
   fst (edit_rows bs (enumerate i (drop i a)) prev cur) ! j = lev a bs (length a) j"
proof (induction "length a - i" arbitrary: i prev cur)
  case 0
  then show ?case by simp
next
  case (Suc m)
  then have i: "i < length a" by simp
  have split: "enumerate i (drop i a) = (i, a ! i) # enumerate (Suc i) (drop (Suc i) a)"
    using i by (simp flip: Cons_nth_drop_Suc)
  have "fst (edit_rows bs (enumerate (Suc i) (drop (Suc i) a))
      (fill_row prev (a ! i) (enumerate 0 bs) (cur[0 := i + 1])) prev) ! j
      = lev a bs (length a) j"
    by (rule Suc.hyps(1)) (use Suc i fill_row_lev in \<open>auto\<close>)
  then show ?case by (simp add: split)
qed

lemma edit_distance_lev: "edit_distance a b = lev a b (length a) (length b)"
proof -
  have "fst (edit_rows b (enumerate 0 (drop 0 a)) [0..<length b + 1] (replicate (length b + 1) 0))
      ! length b = lev a b (length a) (length b)"
    by (rule edit_rows_lev) (auto simp: nth_append simp del: upt_Suc)
  then show ?thesis by (auto simp: edit_distance_def)
qed

lemma align_edit_distance: "align (edit_distance a b) a b"
  using align_lev [of "length a" a "length b" b] by (simp add: edit_distance_lev)

lemma edit_distance_le: "align n a b \<Longrightarrow> edit_distance a b \<le> n"
  by (simp add: edit_distance_lev lev_le_align)

lemma align_flip: "align n a b \<Longrightarrow> align n b a"
proof (induction rule: align.induct)
  case (align_sub n a b x y)
  then show ?case using align.align_sub [of n b a y x] by (simp add: eq_commute)
qed (use align_ins align_del in \<open>fastforce intro: align_Nil\<close>)+

lemma align_0_eq: "align n a b \<Longrightarrow> n = 0 \<Longrightarrow> a = b"
  by (induction rule: align.induct) (auto split: if_splits)

lemma align_refl: "align 0 a a"
proof (induction a rule: rev_induct)
  case (snoc x a)
  then show ?case using align_sub [of 0 a a x x] by simp
qed (simp add: align_Nil)

lemma align_length: "align n a b \<Longrightarrow> length a \<le> length b + n \<and> length b \<le> length a + n"
  by (induction rule: align.induct) auto

lemma edit_distance_sym: "edit_distance a b = edit_distance b a"
  by (meson align_edit_distance align_flip edit_distance_le antisym)

lemma edit_distance_0_iff: "edit_distance a b = 0 \<longleftrightarrow> a = b"
  using align_0_eq [OF align_edit_distance] edit_distance_le [OF align_refl] by auto

section \<open>The closest candidate is the least eligible one\<close>

definition eligible :: "ustring \<Rightarrow> ustring list \<Rightarrow> ustring set" where
  "eligible target cs =
     {c \<in> set cs. c \<noteq> target \<and> edit_distance target c \<le> threshold target}"

abbreviation dist_key :: "ustring \<Rightarrow> ustring \<Rightarrow> nat \<times> nat \<times> ustring" where
  "dist_key target c \<equiv> candidate_key (edit_distance target c, c)"

text \<open>What the loop's \<open>best\<close> holds after a set of candidates has been seen.\<close>

definition best_of :: "ustring \<Rightarrow> ustring set \<Rightarrow> (nat \<times> ustring) option \<Rightarrow> bool" where
  "best_of target E best \<longleftrightarrow>
     (case best of
        None \<Rightarrow> E = {}
      | Some (d, c) \<Rightarrow> c \<in> E \<and> d = edit_distance target c
          \<and> (\<forall>e \<in> E. dist_key target c \<le> dist_key target e))"

lemma eligible_snoc:
  "eligible t (cs @ [c]) =
     (if c \<noteq> t \<and> edit_distance t c \<le> threshold t then insert c (eligible t cs) else eligible t cs)"
  by (auto simp: eligible_def)

lemma best_of_step:
  "best_of t (eligible t cs) best \<Longrightarrow>
   best_of t (eligible t (cs @ [c])) (closest_step t best c)"
  by (cases best) (auto simp: best_of_def closest_step_def eligible_snoc Let_def not_less
      intro: order_trans less_imp_le)

lemma best_of_fold: "best_of t (eligible t cs) (foldl (closest_step t) None cs)"
proof (induction cs rule: rev_induct)
  case Nil
  then show ?case by (simp add: best_of_def eligible_def)
next
  case (snoc c cs)
  then show ?case using best_of_step by simp
qed

text \<open>
  C24. The two rolling rows compute the Levenshtein distance: \<open>edit_distance a b\<close> is the
  cost of some alignment of \<open>a\<close> with \<open>b\<close>, and the least cost of any.
\<close>

theorem edit_distance_optimal:
  "align (edit_distance a b) a b \<and> edit_distance a b = (LEAST n. align n a b)"
  by (auto intro!: align_edit_distance Least_equality [symmetric] edit_distance_le)

text \<open>
  C25. \<open>closest\<close> returns nothing exactly when no candidate other than the target lies
  within the threshold, and otherwise the candidate with the least (distance, byte length,
  text): whatever the order of the candidates, as the comment on it promises.
\<close>

theorem closest_least:
  "closest target cs =
     (if eligible target cs = {} then None
      else Some (snd (snd (Min (dist_key target ` eligible target cs)))))"
proof -
  let ?b = "foldl (closest_step target) None cs"
  have best: "best_of target (eligible target cs) ?b" by (rule best_of_fold)
  show ?thesis
  proof (cases ?b)
    case None
    with best show ?thesis by (simp add: best_of_def closest_def)
  next
    case (Some p)
    then obtain d c where b: "?b = Some (d, c)" by (cases p) auto
    with best have "dist_key target c = Min (dist_key target ` eligible target cs)"
      by (intro Min_eqI [symmetric]) (auto simp: best_of_def eligible_def)
    moreover have "eligible target cs \<noteq> {}" using best b by (auto simp: best_of_def)
    ultimately show ?thesis
      using b by (auto simp: closest_def candidate_key_def dest: arg_cong [where f = "snd \<circ> snd"])
  qed
qed

end
