(* ===== verification/Doc.thy ===== *)
theory Doc
  imports Prelude
begin

text \<open>
  The pretty-printer of \<open>formatter/src/doc.rs\<close>: the document type, its builders, the
  stack machine \<open>render\<close> and the look-ahead \<open>fits\<close>. A Rust \<open>Vec\<close> used as a stack is a
  list whose head is the top, so \<open>stack.pop()\<close> is the head and the reversed pushes of a
  \<open>Concat\<close> put its parts in order in front.

  The specification of a flat layout is \<open>flat_text\<close> and \<open>flattable\<close>; the specification
  of the look-ahead is \<open>first_line\<close>, the width up to the next line break.
\<close>

section \<open>Documents and their builders\<close>

datatype doc =
    Nil
  | Text ustring
  | HardLine
  | Line
  | SoftBreak
  | IfFlat doc doc
  | Nest nat doc
  | Concat "doc list"
  | Group doc

definition TAB_WIDTH_FOR_FIT :: nat where
  "TAB_WIDTH_FOR_FIT = 4"

definition nil :: doc where "nil = Nil"
definition text_doc :: "ustring \<Rightarrow> doc" where "text_doc s = Text s"
definition hardline :: doc where "hardline = HardLine"
definition line_doc :: doc where "line_doc = Line"
definition softbreak :: doc where "softbreak = SoftBreak"
definition if_flat :: "doc \<Rightarrow> doc \<Rightarrow> doc" where "if_flat flat broken = IfFlat flat broken"
definition nest :: "doc \<Rightarrow> doc" where "nest d = Nest 1 d"
definition concat_doc :: "doc list \<Rightarrow> doc" where "concat_doc parts = Concat parts"
definition group :: "doc \<Rightarrow> doc" where "group d = Group d"

lemmas builder_defs = nil_def text_doc_def hardline_def line_doc_def softbreak_def if_flat_def
  nest_def concat_doc_def group_def

text \<open>\<open>join\<close> pushes the separator before every item but the first.\<close>

fun join_loop :: "doc \<Rightarrow> (nat \<times> doc) list \<Rightarrow> doc list \<Rightarrow> doc list" where
  "join_loop sep [] out = out"
| "join_loop sep ((i, item) # items) out =
     join_loop sep items ((if i > 0 then out @ [sep] else out) @ [item])"

definition join :: "doc \<Rightarrow> doc list \<Rightarrow> doc" where
  "join sep items = concat_doc (join_loop sep (enumerate 0 items) [])"

datatype mode = Flat | Break

record item =
  indent :: nat
  mode :: mode
  doc :: doc

definition mk_item :: "nat \<Rightarrow> mode \<Rightarrow> doc \<Rightarrow> item" where
  "mk_item i m d = \<lparr>indent = i, mode = m, doc = d\<rparr>"

lemma mk_item_sel [simp]:
  "indent (mk_item i m d) = i" "mode (mk_item i m d) = m" "doc (mk_item i m d) = d"
  by (simp_all add: mk_item_def)

section \<open>The look-ahead and the printer\<close>

text \<open>The work left on a stack: every turn of either loop lowers it.\<close>

definition stack_size :: "item list \<Rightarrow> nat" where
  "stack_size st = sum_list (map (\<lambda>it. size (doc it)) st)"

lemma stack_size_simps [simp]:
  "stack_size [] = 0"
  "stack_size (it # st) = size (doc it) + stack_size st"
  "stack_size (map (mk_item i m) ps @ st) = sum_list (map size ps) + stack_size st"
  by (simp_all add: stack_size_def comp_def)

lemma sum_list_size_doc: "sum_list (map size ps) + length ps = size_list size (ps :: doc list)"
  by (induction ps) auto

function (sequential) fits :: "int \<Rightarrow> item list \<Rightarrow> bool" where
  "fits budget st =
     (if budget < 0 then False
      else case st of
        [] \<Rightarrow> True
      | it # st' \<Rightarrow>
          (case doc it of
             Nil \<Rightarrow> fits budget st'
           | Text s \<Rightarrow> fits (budget - int (length s)) st'
           | HardLine \<Rightarrow> (case mode it of Flat \<Rightarrow> False | Break \<Rightarrow> True)
           | Line \<Rightarrow> (case mode it of Flat \<Rightarrow> fits (budget - 1) st' | Break \<Rightarrow> True)
           | SoftBreak \<Rightarrow> (case mode it of Flat \<Rightarrow> fits budget st' | Break \<Rightarrow> True)
           | IfFlat flat broken \<Rightarrow>
               fits budget (mk_item (indent it) (mode it)
                 (case mode it of Flat \<Rightarrow> flat | Break \<Rightarrow> broken) # st')
           | Nest n inner \<Rightarrow> fits budget (mk_item (indent it + n) (mode it) inner # st')
           | Concat parts \<Rightarrow> fits budget (map (mk_item (indent it) (mode it)) parts @ st')
           | Group inner \<Rightarrow> fits budget (mk_item (indent it) (mode it) inner # st')))"
  by pat_completeness auto
termination
  by (relation "measure (\<lambda>(b, st). stack_size st + length st)")
    (auto simp: less_Suc_eq_le simp flip: sum_list_size_doc split: mode.splits)

declare fits.simps [simp del]

definition emit_newline :: "ustring \<Rightarrow> nat \<Rightarrow> ustring" where
  "emit_newline out i = out @ [10] @ replicate i 9"

text \<open>
  The body of \<open>render\<close>'s loop for the item just popped: the output, the column and the
  stack it leaves.
\<close>

definition render_item ::
  "nat \<Rightarrow> item \<Rightarrow> ustring \<Rightarrow> nat \<Rightarrow> item list \<Rightarrow> ustring \<times> nat \<times> item list" where
  "render_item width it out col st =
     (let newline = (emit_newline out (indent it), indent it * TAB_WIDTH_FOR_FIT, st)
      in case doc it of
           Nil \<Rightarrow> (out, col, st)
         | Text s \<Rightarrow> (out @ s, col + length s, st)
         | HardLine \<Rightarrow> newline
         | Line \<Rightarrow> (case mode it of Flat \<Rightarrow> (out @ [32], col + 1, st) | Break \<Rightarrow> newline)
         | SoftBreak \<Rightarrow> (case mode it of Flat \<Rightarrow> (out, col, st) | Break \<Rightarrow> newline)
         | IfFlat flat broken \<Rightarrow>
             (case mode it of
                Flat \<Rightarrow> (out, col, mk_item (indent it) (mode it) flat # st)
              | Break \<Rightarrow> (out, col, mk_item (indent it) (mode it) broken # st))
         | Nest n inner \<Rightarrow> (out, col, mk_item (indent it + n) (mode it) inner # st)
         | Concat parts \<Rightarrow> (out, col, map (mk_item (indent it) (mode it)) parts @ st)
         | Group inner \<Rightarrow>
             (let flat_item = mk_item (indent it) Flat inner;
                  remaining = int width - int col
              in if fits remaining (flat_item # st) then (out, col, flat_item # st)
                 else (out, col, mk_item (indent it) Break inner # st)))"

lemma render_item_decreases:
  "render_item w it out c st = (out', c', st') \<Longrightarrow>
   stack_size st' + length st' < stack_size (it # st) + length (it # st)"
  by (auto simp: render_item_def Let_def less_Suc_eq_le simp flip: sum_list_size_doc
      split: doc.splits mode.splits if_splits)

function (sequential) render_loop :: "nat \<Rightarrow> ustring \<Rightarrow> nat \<Rightarrow> item list \<Rightarrow> ustring" where
  "render_loop width out col [] = out"
| "render_loop width out col (it # st) =
     (case render_item width it out col st of (out', col', st') \<Rightarrow> render_loop width out' col' st')"
  by pat_completeness auto
termination
  by (relation "measure (\<lambda>(w, out, c, st). stack_size st + length st)")
    (auto dest: render_item_decreases simp del: stack_size_simps split: prod.splits)

declare render_loop.simps(2) [simp del]

definition render :: "doc \<Rightarrow> nat \<Rightarrow> ustring" where
  "render d width = render_loop width [] 0 [mk_item 0 Break d]"

section \<open>Flat layouts\<close>

text \<open>The text a document has on one line, and whether it can be laid out on one.\<close>

fun flat_text :: "doc \<Rightarrow> ustring" where
  "flat_text Nil = []"
| "flat_text (Text s) = s"
| "flat_text HardLine = []"
| "flat_text Line = [32]"
| "flat_text SoftBreak = []"
| "flat_text (IfFlat a b) = flat_text a"
| "flat_text (Nest n d) = flat_text d"
| "flat_text (Concat ds) = concat (map flat_text ds)"
| "flat_text (Group d) = flat_text d"

fun flattable :: "doc \<Rightarrow> bool" where
  "flattable HardLine = False"
| "flattable (IfFlat a b) = flattable a"
| "flattable (Nest n d) = flattable d"
| "flattable (Concat ds) = list_all flattable ds"
| "flattable (Group d) = flattable d"
| "flattable _ = True"

lemma fits_negative [simp]: "b < 0 \<Longrightarrow> \<not> fits b st"
  by (simp add: fits.simps)

lemma fits_flat_parts:
  assumes "\<And>d b i st. d \<in> set ds \<Longrightarrow>
    fits b (mk_item i Flat d # st) \<longleftrightarrow> flattable d \<and> fits (b - int (length (flat_text d))) st"
  shows "fits b (map (mk_item i Flat) ds @ st) \<longleftrightarrow>
    list_all flattable ds \<and> fits (b - int (length (concat (map flat_text ds)))) st"
  using assms
proof (induction ds arbitrary: b)
  case (Cons d ds)
  then have "fits b (mk_item i Flat d # (map (mk_item i Flat) ds @ st)) \<longleftrightarrow>
      flattable d \<and> fits (b - int (length (flat_text d))) (map (mk_item i Flat) ds @ st)"
    by (meson list.set_intros(1))
  with Cons show ?case by (simp add: algebra_simps)
qed simp

text \<open>A flat item in front: it must be flattable, and its text is taken off the budget.\<close>

lemma fits_flat:
  "fits b (mk_item i Flat d # st) \<longleftrightarrow> flattable d \<and> fits (b - int (length (flat_text d))) st"
proof (induction d arbitrary: b i st)
  case (Concat ds)
  have "fits b (mk_item i Flat (Concat ds) # st) \<longleftrightarrow>
      0 \<le> b \<and> fits b (map (mk_item i Flat) ds @ st)"
    by (subst fits.simps) auto
  also have "\<dots> \<longleftrightarrow> fits b (map (mk_item i Flat) ds @ st)" by (meson fits_negative not_le)
  also have "\<dots> \<longleftrightarrow> list_all flattable ds \<and> fits (b - int (length (concat (map flat_text ds)))) st"
    by (rule fits_flat_parts) (rule Concat.IH)
  finally show ?case by simp
qed (subst fits.simps, force)+

text \<open>
  Printing a flat item that fits: its text, in order, and on to the rest of the stack. The
  groups inside are probed again, and fit, since the outer look-ahead passed through them.
\<close>

lemma render_flat_parts:
  assumes "\<And>d i out c st. d \<in> set ds \<Longrightarrow> fits (int w - int c) (mk_item i Flat d # st) \<Longrightarrow>
      render_loop w out c (mk_item i Flat d # st)
        = render_loop w (out @ flat_text d) (c + length (flat_text d)) st"
    and "fits (int w - int c) (map (mk_item i Flat) ds @ st)"
  shows "render_loop w out c (map (mk_item i Flat) ds @ st)
    = render_loop w (out @ concat (map flat_text ds)) (c + length (concat (map flat_text ds))) st"
  using assms
proof (induction ds arbitrary: c out)
  case (Cons d ds)
  from Cons.prems(2) have f: "fits (int w - int c) (mk_item i Flat d # (map (mk_item i Flat) ds @ st))"
    by simp
  then have "fits (int w - int (c + length (flat_text d))) (map (mk_item i Flat) ds @ st)"
    by (simp add: fits_flat algebra_simps)
  then have "render_loop w (out @ flat_text d) (c + length (flat_text d))
        (map (mk_item i Flat) ds @ st)
      = render_loop w ((out @ flat_text d) @ concat (map flat_text ds))
        ((c + length (flat_text d)) + length (concat (map flat_text ds))) st"
    using Cons.prems(1) by (intro Cons.IH) auto
  with Cons.prems(1) [OF _ f, of out] show ?case by (simp add: add.assoc)
qed simp

lemma render_flat:
  "fits (int w - int c) (mk_item i Flat d # st) \<Longrightarrow>
   render_loop w out c (mk_item i Flat d # st)
     = render_loop w (out @ flat_text d) (c + length (flat_text d)) st"
proof (induction d arbitrary: i out c st)
  case (Concat ds)
  have step: "render_loop w out c (mk_item i Flat (Concat ds) # st)
      = render_loop w out c (map (mk_item i Flat) ds @ st)"
    by (simp add: render_loop.simps(2) render_item_def)
  have "fits (int w - int c) (map (mk_item i Flat) ds @ st)"
    using Concat.prems by (subst (asm) fits.simps) (auto split: if_splits)
  then show ?case using render_flat_parts Concat.IH by (simp add: step)
next
  case (Group d)
  then have "fits (int w - int c) (mk_item i Flat d # st)" by (simp add: fits_flat)
  with Group show ?case by (simp add: render_loop.simps(2) render_item_def)
qed (auto simp: render_loop.simps(2) render_item_def fits_flat)

section \<open>The look-ahead measures the first line\<close>

text \<open>
  How far a document runs before a line break, when every group keeps the mode of its
  surroundings: \<open>Runs n\<close> to its end, \<open>Ends n\<close> up to a break, \<open>Blocked\<close> at a hard break
  in flat mode.
\<close>

datatype reach = Runs nat | Ends nat | Blocked

fun further :: "nat \<Rightarrow> reach \<Rightarrow> reach" where
  "further n (Runs k) = Runs (n + k)"
| "further n (Ends k) = Ends (n + k)"
| "further n Blocked = Blocked"

fun seq :: "reach \<Rightarrow> reach \<Rightarrow> reach" where
  "seq (Runs n) r = further n r"
| "seq (Ends n) r = Ends n"
| "seq Blocked r = Blocked"

fun within :: "int \<Rightarrow> reach \<Rightarrow> bool" where
  "within b (Runs n) = (int n \<le> b)"
| "within b (Ends n) = (int n \<le> b)"
| "within b Blocked = False"

lemma seq_assoc: "seq (seq a b) c = seq a (seq b c)"
  by (cases a; cases b; cases c) auto

lemma seq_Runs_0 [simp]: "seq r (Runs 0) = r"
  by (cases r) auto

lemma further_0 [simp]: "further 0 r = r"
  by (cases r) auto

lemma within_further [simp]: "within b (further n r) \<longleftrightarrow> within (b - int n) r"
  by (cases r) auto

lemma within_negative: "within b r \<Longrightarrow> 0 \<le> b"
  by (cases r) auto

fun first_line :: "mode \<Rightarrow> doc \<Rightarrow> reach" where
  "first_line m Nil = Runs 0"
| "first_line m (Text s) = Runs (length s)"
| "first_line m HardLine = (if m = Flat then Blocked else Ends 0)"
| "first_line m Line = (if m = Flat then Runs 1 else Ends 0)"
| "first_line m SoftBreak = (if m = Flat then Runs 0 else Ends 0)"
| "first_line m (IfFlat a b) = first_line m (if m = Flat then a else b)"
| "first_line m (Nest n d) = first_line m d"
| "first_line m (Concat ds) = foldr seq (map (first_line m) ds) (Runs 0)"
| "first_line m (Group d) = first_line m d"

definition stack_line :: "item list \<Rightarrow> reach" where
  "stack_line st = foldr seq (map (\<lambda>it. first_line (mode it) (doc it)) st) (Runs 0)"

lemma stack_line_simps [simp]:
  "stack_line [] = Runs 0"
  "stack_line (it # st) = seq (first_line (mode it) (doc it)) (stack_line st)"
  by (simp_all add: stack_line_def)

lemma stack_line_parts [simp]:
  "stack_line (map (mk_item i m) ds @ st) = seq (first_line m (Concat ds)) (stack_line st)"
  by (induction ds) (auto simp: seq_assoc)

section \<open>What every turn of the printer keeps\<close>

text \<open>The ink of an output: its characters other than blanks, tabs and newlines.\<close>

definition ink :: "ustring \<Rightarrow> ustring" where
  "ink s = filter (\<lambda>c. c \<noteq> 32 \<and> c \<noteq> 9 \<and> c \<noteq> 10) s"

lemma ink_simps [simp]:
  "ink [] = []" "ink (xs @ ys) = ink xs @ ink ys" "ink [32] = []"
  by (simp_all add: ink_def)

lemma ink_newline [simp]: "ink (emit_newline out i) = ink out"
  by (simp add: ink_def emit_newline_def)

lemma ink_concat: "ink (concat xss) = concat (map ink xss)"
  by (induction xss) auto

text \<open>Documents whose \<open>IfFlat\<close> alternatives differ in white space only.\<close>

fun same_ink :: "doc \<Rightarrow> bool" where
  "same_ink (IfFlat a b) =
     (same_ink a \<and> same_ink b \<and> ink (flat_text a) = ink (flat_text b))"
| "same_ink (Nest n d) = same_ink d"
| "same_ink (Concat ds) = list_all same_ink ds"
| "same_ink (Group d) = same_ink d"
| "same_ink _ = True"

lemma render_item_ink:
  assumes "render_item w it out c st = (out', c', st')"
    and "\<forall>x \<in> set (it # st). same_ink (doc x)"
  shows "(\<forall>x \<in> set st'. same_ink (doc x)) \<and>
    ink out' @ concat (map (\<lambda>x. ink (flat_text (doc x))) st')
      = ink out @ concat (map (\<lambda>x. ink (flat_text (doc x))) (it # st))"
  using assms
  by (auto simp: render_item_def Let_def ink_concat comp_def list_all_iff
      split: doc.splits mode.splits if_splits)

lemma render_loop_ink:
  "\<forall>x \<in> set st. same_ink (doc x) \<Longrightarrow>
   ink (render_loop w out c st) = ink out @ concat (map (\<lambda>x. ink (flat_text (doc x))) st)"
proof (induction w out c st rule: render_loop.induct)
  case (2 w out c it st)
  obtain out' c' st' where r: "render_item w it out c st = (out', c', st')"
    by (cases "render_item w it out c st") auto
  from render_item_ink [OF r "2.prems"] have "\<forall>x \<in> set st'. same_ink (doc x)" and
    "ink out' @ concat (map (\<lambda>x. ink (flat_text (doc x))) st')
      = ink out @ concat (map (\<lambda>x. ink (flat_text (doc x))) (it # st))" by blast+
  with "2.IH" [OF r [symmetric] refl] r show ?case by (simp add: render_loop.simps(2))
qed simp

text \<open>
  The width of the line being written, as \<open>fits\<close> counts it: a tab is four columns, any
  other character one.
\<close>

definition line_width :: "ustring \<Rightarrow> nat" where
  "line_width out =
     sum_list (map (\<lambda>c. if c = 9 then TAB_WIDTH_FOR_FIT else 1) (takeWhile (\<lambda>c. c \<noteq> 10) (rev out)))"

text \<open>Documents whose texts hold no tab and no newline.\<close>

fun plain :: "doc \<Rightarrow> bool" where
  "plain (Text s) = (9 \<notin> set s \<and> 10 \<notin> set s)"
| "plain (IfFlat a b) = (plain a \<and> plain b)"
| "plain (Nest n d) = plain d"
| "plain (Concat ds) = list_all plain ds"
| "plain (Group d) = plain d"
| "plain _ = True"

lemma line_width_newline [simp]: "line_width (emit_newline out i) = i * TAB_WIDTH_FOR_FIT"
proof -
  have "takeWhile (\<lambda>c. c \<noteq> 10) (replicate i 9 @ 10 # rev out) = replicate i (9::nat)"
    by (induction i) auto
  then show ?thesis by (simp add: line_width_def emit_newline_def sum_list_replicate)
qed

lemma line_width_text:
  "9 \<notin> set s \<Longrightarrow> 10 \<notin> set s \<Longrightarrow> line_width (out @ s) = line_width out + length s"
proof (induction s arbitrary: out)
  case (Cons x s)
  have "line_width (out @ [x]) = line_width out + 1" using Cons.prems by (simp add: line_width_def)
  with Cons.IH [of "out @ [x]"] Cons.prems show ?case by simp
qed simp

text \<open>The states of the printing machine, from the document on.\<close>

inductive printing :: "nat \<Rightarrow> doc \<Rightarrow> ustring \<Rightarrow> nat \<Rightarrow> item list \<Rightarrow> bool" for w d where
  printing_init: "printing w d [] 0 [mk_item 0 Break d]"
| printing_step: "printing w d out c (it # st) \<Longrightarrow> render_item w it out c st = (out', c', st') \<Longrightarrow>
    printing w d out' c' st'"

lemma render_item_column:
  assumes "render_item w it out c st = (out', c', st')"
    and "\<forall>x \<in> set (it # st). plain (doc x)" and "c = line_width out"
  shows "(\<forall>x \<in> set st'. plain (doc x)) \<and> c' = line_width out'"
  using assms line_width_text [of "[32]" out]
  by (auto simp: render_item_def Let_def list_all_iff line_width_text
      split: doc.splits mode.splits if_splits)

section \<open>Properties\<close>


text \<open>
  C27. The look-ahead is exact: \<open>fits budget stack\<close> holds if and only if the text of the
  stack up to its first line break, groups taken in the mode around them, is within the
  budget and meets no hard line break in flat mode.
\<close>

theorem fits_first_line: "fits budget st \<longleftrightarrow> within budget (stack_line st)"
proof (induction budget st rule: fits.induct)
  case (1 budget st)
  show ?case
  proof (cases "budget < 0")
    case True
    then show ?thesis using within_negative by fastforce
  next
    case False
    show ?thesis
    proof (cases st)
      case Nil
      with False show ?thesis by (subst fits.simps) simp
    next
      case (Cons it st')
      with False 1 show ?thesis
        by (subst fits.simps) (auto split: doc.splits mode.splits)
    qed
  qed
qed

text \<open>
  C28. Where the two sides of every \<open>IfFlat\<close> of a document have the same characters other than
  white space, the width chooses white space only: the output's other characters are those of
  the flat text, in order, for every width. (An \<open>IfFlat\<close> with different texts, such as a trailing
  comma, is outside.)
\<close>

theorem render_keeps_ink: "same_ink d \<Longrightarrow> ink (render d width) = ink (flat_text d)"
  by (simp add: render_def render_loop_ink)

theorem render_keeps_ink_witness:
  "ink (render (Group (Concat [Text (ustr ''a''), IfFlat Line HardLine, Text (ustr ''b'')])) 1)
     = ustr ''ab''"
  using render_keeps_ink [of "Group (Concat [Text (ustr ''a''), IfFlat Line HardLine, Text (ustr ''b'')])" 1]
  by (simp add: ink_def ustr_def)

text \<open>
  The column the printer counts is the width of the line it is writing (a tab counting
  four), in every state it reaches from a document whose texts hold no tab or newline: so
  the budget it hands to \<open>fits\<close> is the room really left.
\<close>

theorem printing_column:
  assumes "printing w d out c st" and "plain d"
  shows "c = line_width out"
proof -
  from assms have "(\<forall>x \<in> set st. plain (doc x)) \<and> c = line_width out"
  proof (induction rule: printing.induct)
    case printing_init
    then show ?case by (simp add: line_width_def)
  next
    case (printing_step out c it st out' c' st')
    then show ?case using render_item_column by blast
  qed
  then show ?thesis by simp
qed

theorem printing_column_witness:
  "printing 4 (Nest 1 HardLine) [10, 9] 4 [] \<and> line_width [10, 9] = 4"
proof -
  have "printing 4 (Nest 1 HardLine) [] 0 [mk_item 0 Break (Nest 1 HardLine)]"
    by (rule printing_init)
  then have "printing 4 (Nest 1 HardLine) [] 0 [mk_item 1 Break HardLine]"
    by (rule printing_step) (simp add: render_item_def)
  then have p: "printing 4 (Nest 1 HardLine) [10, 9] 4 []"
    by (rule printing_step) (simp add: render_item_def emit_newline_def TAB_WIDTH_FOR_FIT_def)
  with printing_column [OF p] show ?thesis by simp
qed

end
