(* ===== verification/Tokens.thy ===== *)
theory Tokens
  imports Prelude "HOL-Library.Char_ord"
begin

text \<open>
  The tokens of compiler/src/tokens.rs. \<open>Token\<close> has 93 variants, 92 of which hold a span and
  nothing else; here they are grouped by kind (words, symbols, the rest), each group an
  enumeration of the source's variants, and a token is a group's member with its span.
  Bytes are HOL's 8-bit characters, and a byte string is a \<open>string\<close>.
\<close>

datatype keyword =
    BoolTrue | BoolFalse | Underscore
  | KeywordAlias | KeywordAnd | KeywordAs
  | KeywordBuiltin | KeywordDef | KeywordElse
  | KeywordEnum | KeywordFun | KeywordImplement
  | KeywordIf | KeywordIs | KeywordIn
  | KeywordDefer | KeywordLet | KeywordScope
  | KeywordManual | KeywordOpaque | KeywordOr
  | KeywordPublic | KeywordRemote | KeywordTrait
  | KeywordTry | KeywordUse | KeywordUsing
  | KeywordWhen | KeywordWhere | KeywordWhile

datatype symbol =
    And | Arrow | Backtick | Bang | BangEqual
  | Caret | Colon | Comma | Dot | Dollar
  | DoubleAnd | DoubleColon | DoubleDot | TripleDot | DoubleEqual
  | DoubleForwardSlash | DoubleLeftAngle | DoublePipe | DoublePlus | DoubleQuestion
  | DoubleRightAngle | TripleRightAngle | DoubleStar | Equal | ForwardSlash
  | LeftAngle | LeftAngleEqual | LeftBrace | LeftBracket | LeftParen
  | Minus | UnaryMinus | Percent | Pipe | PipeArrow
  | Plus | Question | RightAngle | RightAngleEqual | RightBrace
  | RightBracket | RightParen | Star | Tilde

datatype text_kind =
    BinaryDigits | BytesLiteral | Comment
  | DecimalDigits | DurationLiteral | HexDigits
  | Identifier | Indent | InterpolationEnd
  | InterpolationStart | LineBreak | LineBreakWithIndentDecrease
  | LineBreakWithIndentIncrease | OctalDigits | Outdent
  | Path | StringLiteral | TripleStringLiteral

datatype token =
    Word keyword nat nat
  | Sym symbol nat nat
  | Lit text_kind nat nat
  | Unexpected char nat nat

fun get_span :: "token \<Rightarrow> nat \<times> nat" where
  "get_span (Word _ a b) = (a, b)"
| "get_span (Sym _ a b) = (a, b)"
| "get_span (Lit _ a b) = (a, b)"
| "get_span (Unexpected _ a b) = (a, b)"

text \<open>\<open>end - start\<close> on \<open>usize\<close>: a panic where the span is reversed.\<close>

definition usize_sub :: "nat \<Rightarrow> nat \<Rightarrow> nat option" where
  "usize_sub a b = (if b \<le> a then Some (a - b) else None)"

definition token_length :: "token \<Rightarrow> nat option" where
  "token_length t = usize_sub (snd (get_span t)) (fst (get_span t))"

fun is_line_break :: "token \<Rightarrow> bool" where
  "is_line_break (Lit k _ _) =
     (k \<in> {LineBreak, LineBreakWithIndentIncrease, LineBreakWithIndentDecrease})"
| "is_line_break _ = False"

fun can_start_expression :: "token \<Rightarrow> bool" where
  "can_start_expression (Word k _ _) =
     (k \<in> {KeywordBuiltin, KeywordFun, KeywordIf, KeywordWhen, KeywordUsing,
      KeywordScope, KeywordManual, BoolTrue, BoolFalse})"
| "can_start_expression (Sym k _ _) =
     (k \<in> {LeftParen, LeftBracket, LeftBrace, Backtick, UnaryMinus})"
| "can_start_expression (Lit k _ _) =
     (k \<in> {Identifier, DecimalDigits, DurationLiteral, HexDigits, BinaryDigits,
      OctalDigits, StringLiteral, TripleStringLiteral, BytesLiteral})"
| "can_start_expression (Unexpected _ _ _) = False"

section \<open>Display\<close>

definition quoted :: "string \<Rightarrow> string" where
  "quoted s = ''a '' @ [CHR 0x27] @ s @ [CHR 0x27]"

definition keyword_named :: "string \<Rightarrow> string" where
  "keyword_named s = ''keyword `'' @ s @ ''`''"

fun display_word :: "keyword \<Rightarrow> string" where
  "display_word BoolTrue = ''`true`''"
| "display_word BoolFalse = ''`false`''"
| "display_word Underscore = quoted ''_''"
| "display_word KeywordAlias = keyword_named ''alias''"
| "display_word KeywordAnd = keyword_named ''and''"
| "display_word KeywordAs = keyword_named ''as''"
| "display_word KeywordBuiltin = keyword_named ''built-in''"
| "display_word KeywordDef = keyword_named ''def''"
| "display_word KeywordElse = keyword_named ''else''"
| "display_word KeywordEnum = keyword_named ''enum''"
| "display_word KeywordFun = keyword_named ''fun''"
| "display_word KeywordImplement = keyword_named ''implement''"
| "display_word KeywordIf = keyword_named ''if''"
| "display_word KeywordIs = keyword_named ''is''"
| "display_word KeywordIn = keyword_named ''in''"
| "display_word KeywordDefer = keyword_named ''defer''"
| "display_word KeywordLet = keyword_named ''let''"
| "display_word KeywordScope = keyword_named ''scope''"
| "display_word KeywordManual = keyword_named ''manual''"
| "display_word KeywordOpaque = keyword_named ''opaque''"
| "display_word KeywordOr = keyword_named ''or''"
| "display_word KeywordPublic = keyword_named ''public''"
| "display_word KeywordRemote = keyword_named ''remote''"
| "display_word KeywordTrait = keyword_named ''trait''"
| "display_word KeywordTry = keyword_named ''try''"
| "display_word KeywordUse = keyword_named ''use''"
| "display_word KeywordUsing = keyword_named ''using''"
| "display_word KeywordWhen = keyword_named ''when''"
| "display_word KeywordWhere = keyword_named ''where''"
| "display_word KeywordWhile = keyword_named ''while''"

fun display_symbol :: "symbol \<Rightarrow> string" where
  "display_symbol And = quoted ''&''"
| "display_symbol Arrow = quoted ''->''"
| "display_symbol Backtick = quoted ''`''"
| "display_symbol Bang = quoted ''!''"
| "display_symbol BangEqual = quoted ''!=''"
| "display_symbol Caret = quoted ''^''"
| "display_symbol Colon = quoted '':''"
| "display_symbol Comma = quoted '',''"
| "display_symbol Dot = quoted ''.''"
| "display_symbol Dollar = quoted ''$''"
| "display_symbol DoubleAnd = quoted ''&&''"
| "display_symbol DoubleColon = quoted ''::''"
| "display_symbol DoubleDot = quoted ''..''"
| "display_symbol TripleDot = quoted ''...''"
| "display_symbol DoubleEqual = quoted ''==''"
| "display_symbol DoubleForwardSlash = quoted ''//''"
| "display_symbol DoubleLeftAngle = quoted ''<<''"
| "display_symbol DoublePipe = quoted ''||''"
| "display_symbol DoublePlus = quoted ''++''"
| "display_symbol DoubleQuestion = quoted ''??''"
| "display_symbol DoubleRightAngle = quoted ''>>''"
| "display_symbol TripleRightAngle = quoted ''>>>''"
| "display_symbol DoubleStar = quoted ''**''"
| "display_symbol Equal = quoted ''=''"
| "display_symbol ForwardSlash = quoted ''/''"
| "display_symbol LeftAngle = quoted ''<''"
| "display_symbol LeftAngleEqual = quoted ''<=''"
| "display_symbol LeftBrace = quoted ''{''"
| "display_symbol LeftBracket = quoted ''[''"
| "display_symbol LeftParen = quoted ''(''"
| "display_symbol Minus = quoted ''-''"
| "display_symbol UnaryMinus = quoted ''-'' @ '' (prefix)''"
| "display_symbol Percent = quoted ''%''"
| "display_symbol Pipe = quoted ''|''"
| "display_symbol PipeArrow = quoted ''|>''"
| "display_symbol Plus = quoted ''+''"
| "display_symbol Question = quoted ''?''"
| "display_symbol RightAngle = quoted ''>''"
| "display_symbol RightAngleEqual = quoted ''>=''"
| "display_symbol RightBrace = quoted ''}''"
| "display_symbol RightBracket = quoted '']''"
| "display_symbol RightParen = quoted '')''"
| "display_symbol Star = quoted ''*''"
| "display_symbol Tilde = quoted ''~''"

fun display_text :: "text_kind \<Rightarrow> string" where
  "display_text BinaryDigits = ''binary digits (e.g. 0b101)''"
| "display_text BytesLiteral = ''a bytes literal''"
| "display_text Comment = ''a comment''"
| "display_text DecimalDigits = ''decimal digits (e.g. 47)''"
| "display_text DurationLiteral = ''a duration literal (e.g. 2m20s)''"
| "display_text HexDigits = ''hex digits (e.g. 0xf4c3)''"
| "display_text Identifier = ''an identifier''"
| "display_text Indent = ''an indent''"
| "display_text InterpolationEnd = quoted '')''"
| "display_text InterpolationStart = quoted ''$(''"
| "display_text LineBreak = ''a line break''"
| "display_text LineBreakWithIndentDecrease = ''a decrease in indent level''"
| "display_text LineBreakWithIndentIncrease = ''an increase in indent level''"
| "display_text OctalDigits = ''octal digits (e.g. 0o755)''"
| "display_text Outdent = ''an outdent''"
| "display_text Path = ''a path to a module or imported identifier (e.g. 'path/to/module')''"
| "display_text StringLiteral = ''a string''"
| "display_text TripleStringLiteral = ''a triple-quoted string''"

text \<open>
  \<open>String::from_utf8_lossy\<close> of one byte: the character itself below 128, the replacement
  character above. The text is a list of scalar values.
\<close>

definition lossy_char :: "char \<Rightarrow> uchar" where
  "lossy_char c = (if (of_char c :: nat) < 128 then of_char c else 0xFFFD)"

fun display_token :: "token \<Rightarrow> ustring" where
  "display_token (Word k _ _) = ustr (display_word k)"
| "display_token (Sym k _ _) = ustr (display_symbol k)"
| "display_token (Lit k _ _) = ustr (display_text k)"
| "display_token (Unexpected c _ _) = ustr [CHR 0x27] @ [lossy_char c] @ ustr [CHR 0x27]"

end
