(* ===== verification/Location.thy ===== *)
theory Location
  imports Prelude
begin

text \<open>
  Positions in a source file, from \<open>compiler/src/location.rs\<close>: a \<open>Point\<close> is a line
  and a byte column, a \<open>Range\<close> the span between two of them.
\<close>

record point =
  line :: nat
  col :: nat

record range =
  start :: point
  "end" :: point

definition point_at :: "nat \<Rightarrow> nat \<Rightarrow> point" where
  "point_at l c = \<lparr>line = l, col = c\<rparr>"

definition point_zero :: point where
  "point_zero = \<lparr>line = 0, col = 0\<rparr>"

definition between :: "point \<Rightarrow> point \<Rightarrow> range" where
  "between s e = \<lparr>start = s, end = e\<rparr>"

definition within_line :: "nat \<Rightarrow> nat \<Rightarrow> nat \<Rightarrow> range" where
  "within_line l start_col end_col =
     \<lparr>start = point_at l start_col, end = point_at l end_col\<rparr>"

definition collapsed :: "nat \<Rightarrow> nat \<Rightarrow> range" where
  "collapsed l c = \<lparr>start = point_at l c, end = point_at l c\<rparr>"

definition is_collapsed :: "range \<Rightarrow> bool" where
  "is_collapsed r \<longleftrightarrow> line (start r) = line (end r) \<and> col (start r) = col (end r)"

lemma is_collapsed_iff: "is_collapsed r \<longleftrightarrow> start r = end r"
  by (auto simp: is_collapsed_def intro!: point.equality)

lemma within_line_collapsed: "is_collapsed (within_line l a b) \<longleftrightarrow> a = b"
  by (simp add: is_collapsed_def within_line_def point_at_def)

end
