(* ===== verification/Tokenizer.thy ===== *)
theory Tokenizer
  imports Tokens Location
begin

text \<open>
  The tokenizer of compiler/src/tokenizer.rs: its state, one definition per branch of
  \<open>Iterator::next\<close>, and the loop. A panic (an index out of range, \<open>unwrap\<close> of nothing, a
  subtraction below zero, a comment that is not UTF-8) is \<open>None\<close>.

  A stack is a list with its top first. The source does not change and \<open>length\<close> is its length,
  so \<open>self.length\<close> is \<open>length (source t)\<close>.
\<close>

type_synonym byte = char

section \<open>Character classes\<close>

abbreviation code :: "byte \<Rightarrow> nat" where "code \<equiv> of_char"

definition is_ascii_whitespace :: "byte \<Rightarrow> bool" where
  "is_ascii_whitespace b \<longleftrightarrow> b = CHR 0x20 \<or> b = CHR 0x09 \<or> b = CHR 0x0A \<or> b = CHR 0x0C \<or> b = CHR 0x0D"

definition is_ascii_control :: "byte \<Rightarrow> bool" where
  "is_ascii_control b \<longleftrightarrow> code b < 32 \<or> code b = 127"

definition is_ascii_digit :: "byte \<Rightarrow> bool" where
  "is_ascii_digit b \<longleftrightarrow> 48 \<le> code b \<and> code b \<le> 57"

definition is_ascii_alphabetic :: "byte \<Rightarrow> bool" where
  "is_ascii_alphabetic b \<longleftrightarrow> 65 \<le> code b \<and> code b \<le> 90 \<or> 97 \<le> code b \<and> code b \<le> 122"

definition is_ascii_hexdigit :: "byte \<Rightarrow> bool" where
  "is_ascii_hexdigit b \<longleftrightarrow> 48 \<le> code b \<and> code b \<le> 57 \<or> 65 \<le> code b \<and> code b \<le> 70
     \<or> 97 \<le> code b \<and> code b \<le> 102"

definition is_identifier_char :: "byte \<Rightarrow> bool" where
  "is_identifier_char b \<longleftrightarrow> \<not> is_ascii_whitespace b \<and> \<not> is_ascii_control b
     \<and> b \<notin> set '':|.*/+=<>~!%&@^?#$(),;`[]{}''
     \<and> b \<noteq> CHR 0x5C \<and> b \<noteq> CHR 0x22 \<and> b \<noteq> CHR 0x27"

definition is_digit :: "byte \<Rightarrow> bool" where
  "is_digit b \<longleftrightarrow> 48 \<le> code b \<and> code b \<le> 57"

definition is_identifier_start_char :: "byte \<Rightarrow> bool" where
  "is_identifier_start_char b \<longleftrightarrow> (if is_digit b then False else is_identifier_char b)"

definition is_duration_unit_start :: "byte \<Rightarrow> bool" where
  "is_duration_unit_start b \<longleftrightarrow> b \<in> set ''numshd''"

definition is_indentation_char :: "byte \<Rightarrow> bool" where
  "is_indentation_char b \<longleftrightarrow> b = CHR 0x09 \<or> b = CHR 0x20"

definition is_ws_byte :: "byte \<Rightarrow> bool" where
  "is_ws_byte b \<longleftrightarrow> b = CHR 0x20 \<or> b = CHR 0x09 \<or> b = CHR 0x0D \<or> b = CHR 0x0A"

definition is_path_char :: "byte \<Rightarrow> bool" where
  "is_path_char b \<longleftrightarrow> b \<notin> set ''@?%*:<>'' \<and> b \<noteq> CHR 0x5C \<and> b \<noteq> CHR 0x22 \<and> \<not> is_ascii_whitespace b"

section \<open>State\<close>

datatype lex_error_kind =
    InvalidBinaryDigit | InvalidDecimalDigit | InvalidHexDigit | InvalidOctalDigit
  | UnclosedInterpolation | UnclosedString

record lex_error =
  err_range :: range
  err_kind :: lex_error_kind

record tokenizer =
  comments :: "nat \<rightharpoonup> string"
  source :: string
  index :: nat
  line :: nat
  line_start_offset :: nat
  expect_import_path :: bool
  string_stack :: "nat list"
  string_is_triple :: "bool list"
  interpolation_stack :: "nat list"
  interpolation_paren_depth :: "nat list"
  brace_depth :: int
  errors :: "lex_error list"
  next_token :: "token option"
  indent_level :: nat

definition from_source :: "string \<Rightarrow> tokenizer" where
  "from_source s =
     \<lparr>comments = Map.empty, source = s, index = 0, line = 0, line_start_offset = 0,
      expect_import_path = False, string_stack = [], string_is_triple = [],
      interpolation_stack = [], interpolation_paren_depth = [], brace_depth = 0, errors = [],
      next_token = None, indent_level = 0\<rparr>"

definition span_to_single_line_range :: "tokenizer \<Rightarrow> nat \<Rightarrow> nat \<Rightarrow> range option" where
  "span_to_single_line_range t a b =
     Option.bind (usize_sub a (line_start_offset t)) (\<lambda>c.
       Option.bind (usize_sub b (line_start_offset t)) (\<lambda>d. Some (within_line (line t) c d)))"

text \<open>The loop runs over the first \<open>offset\<close> bytes of the source, or all of it.\<close>

fun line_scan :: "string \<Rightarrow> nat \<Rightarrow> nat \<Rightarrow> nat \<Rightarrow> nat \<times> nat" where
  "line_scan [] i ln ls = (ln, ls)"
| "line_scan (b # bs) i ln ls =
     (if b = CHR 0x0A then line_scan bs (i + 1) (ln + 1) (i + 1) else line_scan bs (i + 1) ln ls)"

definition line_and_start_of :: "tokenizer \<Rightarrow> nat \<Rightarrow> nat \<times> nat" where
  "line_and_start_of t offset = line_scan (take offset (source t)) 0 0 0"

definition span_from :: "tokenizer \<Rightarrow> nat \<Rightarrow> nat \<Rightarrow> range option" where
  "span_from t a b =
     (case line_and_start_of t a of (ln, ls) \<Rightarrow>
        Option.bind (usize_sub a ls) (\<lambda>c.
          Option.bind (usize_sub b ls) (\<lambda>d. Some (within_line ln c d))))"

definition peek_byte :: "string \<Rightarrow> nat \<Rightarrow> byte option" where
  "peek_byte s i = (if i < length s then Some (s ! i) else None)"

text \<open>The length of the run of backslashes that ends just before position \<open>j\<close>.\<close>

fun backslashes :: "string \<Rightarrow> nat \<Rightarrow> nat" where
  "backslashes s 0 = 0"
| "backslashes s (Suc j) = (if s ! j = CHR 0x5C then Suc (backslashes s j) else 0)"

definition is_escaped :: "string \<Rightarrow> nat \<Rightarrow> bool" where
  "is_escaped s i \<longleftrightarrow> backslashes s i mod 2 = 1"

definition is_triple_quote :: "string \<Rightarrow> nat \<Rightarrow> bool" where
  "is_triple_quote s i \<longleftrightarrow>
     i + 2 < length s \<and> s ! i = CHR 0x22 \<and> s ! (i + 1) = CHR 0x22 \<and> s ! (i + 2) = CHR 0x22"

text \<open>\<open>while self.index < self.length && p(self.source[self.index]) { self.index += 1 }\<close>\<close>

function scan_while :: "(byte \<Rightarrow> bool) \<Rightarrow> string \<Rightarrow> nat \<Rightarrow> nat" where
  "scan_while p s i = (if i < length s \<and> p (s ! i) then scan_while p s (i + 1) else i)"
  by pat_completeness auto
termination by (relation "measure (\<lambda>(p, s, i). length s - i)") auto

declare scan_while.simps [simp del]

definition slice :: "string \<Rightarrow> nat \<Rightarrow> nat \<Rightarrow> string" where
  "slice s a b = take (b - a) (drop a s)"

section \<open>UTF-8\<close>

text \<open>
  \<open>String::from_utf8\<close> accepts exactly the well-formed byte sequences of the Unicode standard;
  the decoded string is not needed, so a comment is kept as its bytes.
\<close>

definition in_range :: "nat \<Rightarrow> nat \<Rightarrow> byte \<Rightarrow> bool" where
  "in_range lo hi b \<longleftrightarrow> lo \<le> code b \<and> code b \<le> hi"

abbreviation cont :: "byte \<Rightarrow> bool" where "cont \<equiv> in_range 0x80 0xBF"

fun utf8_valid :: "string \<Rightarrow> bool" where
  "utf8_valid [] = True"
| "utf8_valid (a # s) =
     (if code a < 0x80 then utf8_valid s
      else case s of
        [] \<Rightarrow> False
      | b # s1 \<Rightarrow>
          if in_range 0xC2 0xDF a then cont b \<and> utf8_valid s1
          else case s1 of
            [] \<Rightarrow> False
          | c # s2 \<Rightarrow>
              if in_range 0xE0 0xEF a
              then (if code a = 0xE0 then in_range 0xA0 0xBF b
                    else if code a = 0xED then in_range 0x80 0x9F b else cont b)
                   \<and> cont c \<and> utf8_valid s2
              else case s2 of
                [] \<Rightarrow> False
              | d # s3 \<Rightarrow>
                  in_range 0xF0 0xF4 a
                  \<and> (if code a = 0xF0 then in_range 0x90 0xBF b
                     else if code a = 0xF4 then in_range 0x80 0x8F b else cont b)
                  \<and> cont c \<and> cont d \<and> utf8_valid s3)"

declare utf8_valid.simps(2) [simp del]

definition read_string :: "string \<Rightarrow> nat \<Rightarrow> nat \<Rightarrow> string option" where
  "read_string s a b = (if utf8_valid (slice s a b) then Some (slice s a b) else None)"

section \<open>One turn of the main loop\<close>

text \<open>
  What a branch of the loop body does: return a token, \<open>continue\<close> the loop, or fall through to
  the branches below it.
\<close>

datatype turn = Emit token tokenizer | Continue tokenizer | Fall tokenizer

definition open_string :: "tokenizer \<Rightarrow> tokenizer" where
  "open_string t =
     (let triple = is_triple_quote (source t) (index t); i = index t + (if triple then 3 else 1)
      in t\<lparr>string_stack := i # string_stack t, string_is_triple := triple # string_is_triple t,
           index := i\<rparr>)"

definition string_token :: "bool \<Rightarrow> nat \<Rightarrow> nat \<Rightarrow> token" where
  "string_token triple a b = Lit (if triple then TripleStringLiteral else StringLiteral) a b"

definition string_closes :: "tokenizer \<Rightarrow> bool \<Rightarrow> bool" where
  "string_closes t in_triple \<longleftrightarrow>
     (if in_triple then is_triple_quote (source t) (index t)
      else backslashes (source t) (index t) mod 2 = 0)"

definition close_string :: "tokenizer \<Rightarrow> bool \<Rightarrow> turn option" where
  "close_string t in_triple =
     (case string_stack t of
        [] \<Rightarrow> None
      | a # rest \<Rightarrow>
          Some (Emit (string_token in_triple a (index t))
            (t\<lparr>string_stack := rest, string_is_triple := tl (string_is_triple t),
               index := index t + (if in_triple then 3 else 1)\<rparr>)))"

definition starts_interpolation :: "tokenizer \<Rightarrow> bool" where
  "starts_interpolation t \<longleftrightarrow>
     source t ! index t = CHR ''$'' \<and> index t + 1 < length (source t)
     \<and> source t ! (index t + 1) = CHR ''('' \<and> \<not> is_escaped (source t) (index t)"

definition start_interpolation :: "tokenizer \<Rightarrow> bool \<Rightarrow> turn option" where
  "start_interpolation t in_triple =
     (case string_stack t of
        [] \<Rightarrow> None
      | a # _ \<Rightarrow>
          Some (Emit (string_token in_triple a (index t))
            (t\<lparr>interpolation_stack := index t # interpolation_stack t,
               interpolation_paren_depth := 0 # interpolation_paren_depth t,
               index := index t + 2,
               next_token := Some (Lit InterpolationStart (index t + 1) (index t + 2))\<rparr>)))"

definition end_interpolation :: "tokenizer \<Rightarrow> turn" where
  "end_interpolation t =
     Emit (Lit InterpolationEnd (index t) (index t + 1))
       (t\<lparr>string_stack := (index t + 1) # tl (string_stack t),
          interpolation_stack := tl (interpolation_stack t),
          interpolation_paren_depth := tl (interpolation_paren_depth t),
          index := index t + 1\<rparr>)"

definition string_content :: "tokenizer \<Rightarrow> byte \<Rightarrow> tokenizer" where
  "string_content t b =
     (let t' = (if b = CHR 0x0A then t\<lparr>line := line t + 1, line_start_offset := index t + 1\<rparr> else t)
      in t'\<lparr>index := index t + 1\<rparr>)"

text \<open>The branches taken while a string is open, up to \<open>Fall\<close> inside an interpolation.\<close>

definition in_string :: "tokenizer \<Rightarrow> byte \<Rightarrow> turn option" where
  "in_string t b =
     (case string_is_triple t of
        [] \<Rightarrow> None
      | in_triple # _ \<Rightarrow>
          let strings = length (string_stack t); interpolations = length (interpolation_stack t)
          in if b = CHR 0x22 \<and> strings = interpolations then Some (Continue (open_string t))
             else if b = CHR 0x22 \<and> string_closes t in_triple then close_string t in_triple
             else if starts_interpolation t then start_interpolation t in_triple
             else if interpolations > 0 \<and> b = CHR '')'' \<and> strings = interpolations
             then (case interpolation_paren_depth t of
                     [] \<Rightarrow> None
                   | d # ds \<Rightarrow>
                       if d > 0 then Some (Fall (t\<lparr>interpolation_paren_depth := (d - 1) # ds\<rparr>))
                       else Some (end_interpolation t))
             else if strings > interpolations then Some (Continue (string_content t b))
             else Some (Fall t))"

section \<open>Bytes literals and paths\<close>

text \<open>The position of the closing quote; a backslash consumes the byte after it, if there is one.\<close>

function bytes_end :: "string \<Rightarrow> nat \<Rightarrow> nat option" where
  "bytes_end s i =
     (if i < length s
      then if s ! i = CHR 0x5C \<and> i + 1 < length s then bytes_end s (i + 2)
           else if s ! i = CHR 0x27 then Some i
           else bytes_end s (i + 1)
      else None)"
  by pat_completeness auto
termination by (relation "measure (\<lambda>(s, i). length s - i)") auto

declare bytes_end.simps [simp del]

definition lex_bytes :: "tokenizer \<Rightarrow> turn" where
  "lex_bytes t =
     (let content_start = index t + 1
      in case bytes_end (source t) content_start of
           Some e \<Rightarrow> Emit (Lit BytesLiteral content_start e) (t\<lparr>index := e + 1\<rparr>)
         | None \<Rightarrow> Emit (Lit BytesLiteral content_start (length (source t)))
                     (t\<lparr>index := length (source t)\<rparr>))"

definition lex_path :: "tokenizer \<Rightarrow> turn" where
  "lex_path t =
     (let e = scan_while is_path_char (source t) (index t)
      in Emit (Lit Path (index t) e) (t\<lparr>index := e, expect_import_path := False\<rparr>))"

section \<open>Line breaks, comments and words\<close>

definition lex_newline :: "tokenizer \<Rightarrow> turn" where
  "lex_newline t =
     (let ls = index t + 1; e = scan_while is_indentation_char (source t) ls; size = e - ls
      in Emit (Lit LineBreak (index t) ls)
           (t\<lparr>index := e, line := line t + 1, line_start_offset := ls,
              next_token :=
                (if indent_level t < size then Some (Lit Indent ls e)
                 else if indent_level t > size then Some (Lit Outdent ls e)
                 else next_token t),
              indent_level := size\<rparr>))"

definition not_newline :: "byte \<Rightarrow> bool" where "not_newline b \<longleftrightarrow> b \<noteq> CHR 0x0A"

definition lex_comment :: "tokenizer \<Rightarrow> turn option" where
  "lex_comment t =
     (let e = scan_while not_newline (source t) (index t)
      in Option.bind (read_string (source t) (index t + 1) e) (\<lambda>c.
           Some (Emit (Lit Comment (index t) e)
             (t\<lparr>index := e, comments := (comments t)(line t \<mapsto> c)\<rparr>))))"

definition keyword_table :: "(string \<times> keyword) list" where
  "keyword_table =
    [(''_'', Underscore),
     (''true'', BoolTrue),
     (''false'', BoolFalse),
     (''alias'', KeywordAlias),
     (''and'', KeywordAnd),
     (''as'', KeywordAs),
     (''built-in'', KeywordBuiltin),
     (''def'', KeywordDef),
     (''defer'', KeywordDefer),
     (''else'', KeywordElse),
     (''enum'', KeywordEnum),
     (''fun'', KeywordFun),
     (''if'', KeywordIf),
     (''implement'', KeywordImplement),
     (''in'', KeywordIn),
     (''is'', KeywordIs),
     (''let'', KeywordLet),
     (''manual'', KeywordManual),
     (''opaque'', KeywordOpaque),
     (''or'', KeywordOr),
     (''public'', KeywordPublic),
     (''remote'', KeywordRemote),
     (''scope'', KeywordScope),
     (''try'', KeywordTry),
     (''trait'', KeywordTrait),
     (''use'', KeywordUse),
     (''using'', KeywordUsing),
     (''when'', KeywordWhen),
     (''where'', KeywordWhere),
     (''while'', KeywordWhile)]"

definition word_token :: "string \<Rightarrow> nat \<Rightarrow> nat \<Rightarrow> token" where
  "word_token value a b =
     (case map_of keyword_table value of Some k \<Rightarrow> Word k a b | None \<Rightarrow> Lit Identifier a b)"

definition lex_word :: "tokenizer \<Rightarrow> turn" where
  "lex_word t =
     (let e = scan_while is_identifier_char (source t) (index t)
      in Emit (word_token (slice (source t) (index t) e) (index t) e) (t\<lparr>index := e\<rparr>))"

section \<open>Numbers\<close>

definition not_whitespace :: "byte \<Rightarrow> bool" where
  "not_whitespace b \<longleftrightarrow> \<not> is_ascii_whitespace b"

text \<open>A malformed number: skip to the next white space, note the error, emit nothing.\<close>

definition bad_digits :: "tokenizer \<Rightarrow> lex_error_kind \<Rightarrow> nat \<Rightarrow> turn option" where
  "bad_digits t k error_start =
     (let e = scan_while not_whitespace (source t) error_start
      in Option.bind (span_to_single_line_range t error_start e) (\<lambda>r.
           Some (Continue
             (t\<lparr>index := e, errors := errors t @ [\<lparr>err_range = r, err_kind = k\<rparr>]\<rparr>))))"

text \<open>
  The loop after a radix prefix runs over identifier characters and stops at the first that is
  no digit of the radix.
\<close>

definition lex_radix ::
    "tokenizer \<Rightarrow> (byte \<Rightarrow> bool) \<Rightarrow> text_kind \<Rightarrow> lex_error_kind \<Rightarrow> turn option" where
  "lex_radix t digit k err =
     (let e = scan_while (\<lambda>b. is_identifier_char b \<and> digit b) (source t) (index t + 2)
      in if e < length (source t) \<and> is_identifier_char (source t ! e) then bad_digits t err e
         else Some (Emit (Lit k (index t) e) (t\<lparr>index := e\<rparr>)))"

definition binary_digit :: "byte \<Rightarrow> bool" where
  "binary_digit b \<longleftrightarrow> b = CHR ''0'' \<or> b = CHR ''1''"

definition octal_digit :: "byte \<Rightarrow> bool" where
  "octal_digit b \<longleftrightarrow> \<not> (code b < 48 \<or> code b > 55)"

definition lex_decimal :: "tokenizer \<Rightarrow> turn option" where
  "lex_decimal t =
     (let s = source t; e = scan_while is_ascii_digit s (index t)
      in if e < length s \<and> is_duration_unit_start (s ! e)
         then let e' = scan_while (\<lambda>b. is_ascii_digit b \<or> is_ascii_alphabetic b) s e
              in Some (Emit (Lit DurationLiteral (index t) e') (t\<lparr>index := e'\<rparr>))
         else if e < length s \<and> is_identifier_char (s ! e) then bad_digits t InvalidDecimalDigit e
         else Some (Emit (Lit DecimalDigits (index t) e) (t\<lparr>index := e\<rparr>)))"

definition lex_number :: "tokenizer \<Rightarrow> byte \<Rightarrow> turn option" where
  "lex_number t b =
     (let m = peek_byte (source t) (index t + 1)
      in if b = CHR ''0'' \<and> (m = Some CHR ''b'' \<or> m = Some CHR ''B'')
         then lex_radix t binary_digit BinaryDigits InvalidBinaryDigit
         else if b = CHR ''0'' \<and> (m = Some CHR ''x'' \<or> m = Some CHR ''X'')
         then lex_radix t is_ascii_hexdigit HexDigits InvalidHexDigit
         else if b = CHR ''0'' \<and> (m = Some CHR ''o'' \<or> m = Some CHR ''O'')
         then lex_radix t octal_digit OctalDigits InvalidOctalDigit
         else lex_decimal t)"

section \<open>Symbols\<close>

text \<open>
  The symbol at position \<open>i\<close> and the number of bytes it takes. The brackets and braces are
  among them; what they do to the state is in \<open>lex_symbol\<close>.
\<close>

definition minus_symbol :: "string \<Rightarrow> nat \<Rightarrow> symbol \<times> nat" where
  "minus_symbol s i =
     (if peek_byte s (i + 1) = Some CHR ''>'' then (Arrow, 2)
      else if (i = 0 \<or> is_ws_byte (s ! (i - 1))) \<and> i + 1 < length s \<and> \<not> is_ws_byte (s ! (i + 1))
      then (UnaryMinus, 1)
      else (Minus, 1))"

definition dot_symbol :: "string \<Rightarrow> nat \<Rightarrow> symbol \<times> nat" where
  "dot_symbol s i =
     (if peek_byte s (i + 1) = Some CHR ''.''
      then if peek_byte s (i + 2) = Some CHR ''.'' then (TripleDot, 3) else (DoubleDot, 2)
      else (Dot, 1))"

definition right_angle_symbol :: "string \<Rightarrow> nat \<Rightarrow> symbol \<times> nat" where
  "right_angle_symbol s i =
     (if peek_byte s (i + 1) = Some CHR ''='' then (RightAngleEqual, 2)
      else if peek_byte s (i + 1) = Some CHR ''>''
      then if peek_byte s (i + 2) = Some CHR ''>'' then (TripleRightAngle, 3)
           else (DoubleRightAngle, 2)
      else (RightAngle, 1))"

definition one_or_two :: "string \<Rightarrow> nat \<Rightarrow> (byte \<times> symbol) list \<Rightarrow> symbol \<Rightarrow> symbol \<times> nat" where
  "one_or_two s i twos one =
     (case peek_byte s (i + 1) of
        None \<Rightarrow> (one, 1)
      | Some c \<Rightarrow> (case map_of twos c of Some k \<Rightarrow> (k, 2) | None \<Rightarrow> (one, 1)))"

definition single_symbols :: "(byte \<times> symbol) list" where
  "single_symbols =
    [(CHR ''('', LeftParen), (CHR '')'', RightParen), (CHR ''{'', LeftBrace), (CHR ''}'', RightBrace),
     (CHR ''['', LeftBracket), (CHR '']'', RightBracket), (CHR 0x60, Backtick),
     (CHR ''/'', ForwardSlash), (CHR 0x25, Percent), (CHR 0x5E, Caret), (CHR ''$'', Dollar),
     (CHR '','', Comma), (CHR 0x7E, Tilde)]"

definition double_symbols :: "(byte \<times> (byte \<times> symbol) list \<times> symbol) list" where
  "double_symbols =
    [(CHR ''+'', [(CHR ''+'', DoublePlus)], Plus),
     (CHR ''?'', [(CHR ''?'', DoubleQuestion)], Question),
     (CHR ''!'', [(CHR ''='', BangEqual)], Bang),
     (CHR ''='', [(CHR ''='', DoubleEqual)], Equal),
     (CHR ''*'', [(CHR ''*'', DoubleStar)], Star),
     (CHR ''&'', [(CHR ''&'', DoubleAnd)], And),
     (CHR ''|'', [(CHR ''|'', DoublePipe), (CHR ''>'', PipeArrow)], Pipe),
     (CHR '':'', [(CHR '':'', DoubleColon)], Colon),
     (CHR ''<'', [(CHR ''='', LeftAngleEqual), (CHR ''<'', DoubleLeftAngle)], LeftAngle)]"

definition symbol_at :: "string \<Rightarrow> nat \<Rightarrow> byte \<Rightarrow> (symbol \<times> nat) option" where
  "symbol_at s i b =
     (case map_of single_symbols b of
        Some k \<Rightarrow> Some (k, 1)
      | None \<Rightarrow>
          (case map_of double_symbols b of
             Some (twos, one) \<Rightarrow> Some (one_or_two s i twos one)
           | None \<Rightarrow>
               if b = CHR ''-'' then Some (minus_symbol s i)
               else if b = CHR ''.'' then Some (dot_symbol s i)
               else if b = CHR ''>'' then Some (right_angle_symbol s i)
               else None))"

definition count_symbol :: "symbol \<Rightarrow> tokenizer \<Rightarrow> tokenizer" where
  "count_symbol k t =
     (if k = LeftParen
      then case interpolation_paren_depth t of
             [] \<Rightarrow> t | d # ds \<Rightarrow> t\<lparr>interpolation_paren_depth := (d + 1) # ds\<rparr>
      else if k = LeftBrace then t\<lparr>brace_depth := brace_depth t + 1\<rparr>
      else if k = RightBrace then t\<lparr>brace_depth := brace_depth t - 1\<rparr>
      else t)"

section \<open>The loop\<close>

text \<open>The branches outside of string content: bytes literals, paths and the \<open>match\<close>.\<close>

definition lex_char :: "tokenizer \<Rightarrow> byte \<Rightarrow> turn option" where
  "lex_char t b =
     (if b = CHR 0x27 then Some (lex_bytes t)
      else if expect_import_path t \<and> is_path_char b then Some (lex_path t)
      else if b = CHR 0x20 \<or> b = CHR 0x0D \<or> b = CHR 0x09
      then Some (Continue (t\<lparr>index := index t + 1\<rparr>))
      else if b = CHR 0x0A then Some (lex_newline t)
      else case symbol_at (source t) (index t) b of
        Some (k, n) \<Rightarrow>
          Some (Emit (Sym k (index t) (index t + n)) ((count_symbol k t)\<lparr>index := index t + n\<rparr>))
      | None \<Rightarrow>
          if b = CHR ''#'' then lex_comment t
          else if is_identifier_start_char b then Some (lex_word t)
          else if is_digit b then lex_number t b
          else Some (Emit (Unexpected b (index t) (index t + 1)) (t\<lparr>index := index t + 1\<rparr>)))"

definition lex_step :: "tokenizer \<Rightarrow> turn option" where
  "lex_step t =
     (let b = source t ! index t
      in if string_stack t = [] \<and> b = CHR 0x22 then Some (Continue (open_string t))
         else if string_stack t \<noteq> []
         then Option.bind (in_string t b) (\<lambda>r.
                case r of Fall t' \<Rightarrow> lex_char t' b | _ \<Rightarrow> Some r)
         else lex_char t b)"

section \<open>After the loop, and the iterator\<close>

text \<open>
  The end of input: what is still open is popped and reported. The two reports of
  \<open>Iterator::next\<close>, one after the other.
\<close>

definition report_interpolation :: "tokenizer \<Rightarrow> tokenizer option" where
  "report_interpolation t =
     (case interpolation_stack t of
        [] \<Rightarrow> Some t
      | a # rest \<Rightarrow>
          Option.bind (span_from t a (index t)) (\<lambda>r.
            Some (t\<lparr>interpolation_stack := rest,
                    errors := errors t @ [\<lparr>err_range = r, err_kind = UnclosedInterpolation\<rparr>]\<rparr>)))"

definition report_string :: "tokenizer \<Rightarrow> tokenizer option" where
  "report_string t =
     (case string_stack t of
        [] \<Rightarrow> Some t
      | content_start # rest \<Rightarrow>
          let triple = (case string_is_triple t of [] \<Rightarrow> False | b # _ \<Rightarrow> b);
              quote_start = content_start - (if triple then 3 else 1)
          in Option.bind (span_from t quote_start (quote_start + 1)) (\<lambda>r.
               Some (t\<lparr>string_stack := rest, string_is_triple := tl (string_is_triple t),
                       errors := errors t @ [\<lparr>err_range = r, err_kind = UnclosedString\<rparr>]\<rparr>)))"

definition finish :: "tokenizer \<Rightarrow> tokenizer option" where
  "finish t = Option.bind (report_interpolation t) report_string"

section \<open>The branches as a relation\<close>

text \<open>
  What one turn does, branch by branch, with the token it emits, if any: \<open>char_step\<close> for
  \<open>lex_char\<close>, \<open>stepped\<close> for \<open>lex_step\<close>. Proofs go by cases on these relations.
\<close>

abbreviation here :: "tokenizer \<Rightarrow> byte" where "here t \<equiv> source t ! index t"

inductive number_end :: "tokenizer \<Rightarrow> text_kind \<Rightarrow> nat \<Rightarrow> bool" where
  radix: "\<lbrakk>here t = CHR ''0''; index t + 1 < length (source t);
      e = scan_while (\<lambda>b. is_identifier_char b \<and> digit b) (source t) (index t + 2);
      source t ! (index t + 1) = c;
      (c, digit, k) \<in> {(CHR ''b'', binary_digit, BinaryDigits), (CHR ''B'', binary_digit, BinaryDigits),
        (CHR ''x'', is_ascii_hexdigit, HexDigits), (CHR ''X'', is_ascii_hexdigit, HexDigits),
        (CHR ''o'', octal_digit, OctalDigits), (CHR ''O'', octal_digit, OctalDigits)}\<rbrakk>
    \<Longrightarrow> number_end t k e"
| decimal: "e = scan_while is_ascii_digit (source t) (index t) \<Longrightarrow> number_end t DecimalDigits e"

inductive char_step :: "tokenizer \<Rightarrow> token option \<Rightarrow> tokenizer \<Rightarrow> bool" where
  bytes: "\<lbrakk>here t = CHR 0x27; bytes_end (source t) (index t + 1) = Some e\<rbrakk>
    \<Longrightarrow> char_step t (Some (Lit BytesLiteral (index t + 1) e)) (t\<lparr>index := e + 1\<rparr>)"
| open_bytes: "\<lbrakk>here t = CHR 0x27; bytes_end (source t) (index t + 1) = None; e = length (source t)\<rbrakk>
    \<Longrightarrow> char_step t (Some (Lit BytesLiteral (index t + 1) e)) (t\<lparr>index := e\<rparr>)"
| path: "\<lbrakk>is_path_char (here t); e = scan_while is_path_char (source t) (index t); expect_import_path t\<rbrakk>
    \<Longrightarrow> char_step t (Some (Lit Path (index t) e)) (t\<lparr>index := e, expect_import_path := False\<rparr>)"
| blank: "here t \<in> {CHR 0x20, CHR 0x0D, CHR 0x09} \<Longrightarrow> char_step t None (t\<lparr>index := index t + 1\<rparr>)"
| newline: "\<lbrakk>here t = CHR 0x0A; lex_newline t = Emit k t'\<rbrakk> \<Longrightarrow> char_step t (Some k) t'"
| symbol: "symbol_at (source t) (index t) (here t) = Some (k, n)
    \<Longrightarrow> char_step t (Some (Sym k (index t) (index t + n))) ((count_symbol k t)\<lparr>index := index t + n\<rparr>)"
| comment: "\<lbrakk>here t = CHR ''#''; e = scan_while not_newline (source t) (index t);
      utf8_valid (slice (source t) (index t + 1) e); c = slice (source t) (index t + 1) e\<rbrakk>
    \<Longrightarrow> char_step t (Some (Lit Comment (index t) e)) (t\<lparr>index := e, comments := (comments t)(line t \<mapsto> c)\<rparr>)"
| word: "\<lbrakk>is_identifier_start_char (here t); e = scan_while is_identifier_char (source t) (index t)\<rbrakk>
    \<Longrightarrow> char_step t (Some (word_token (slice (source t) (index t) e) (index t) e)) (t\<lparr>index := e\<rparr>)"
| number: "\<lbrakk>is_digit (here t); number_end t k e; e < length (source t) \<longrightarrow> \<not> is_identifier_char (source t ! e)\<rbrakk>
    \<Longrightarrow> char_step t (Some (Lit k (index t) e)) (t\<lparr>index := e\<rparr>)"
| duration: "\<lbrakk>is_digit (here t); number_end t DecimalDigits i; i < length (source t);
      is_duration_unit_start (source t ! i);
      e = scan_while (\<lambda>b. is_ascii_digit b \<or> is_ascii_alphabetic b) (source t) i\<rbrakk>
    \<Longrightarrow> char_step t (Some (Lit DurationLiteral (index t) e)) (t\<lparr>index := e\<rparr>)"
| bad: "\<lbrakk>is_digit (here t); number_end t k i; i < length (source t); is_identifier_char (source t ! i);
      e = scan_while not_whitespace (source t) i; span_to_single_line_range t i e = Some r\<rbrakk>
    \<Longrightarrow> char_step t None (t\<lparr>index := e, errors := errors t @ [\<lparr>err_range = r, err_kind = err\<rparr>]\<rparr>)"
| unexpected: "\<lbrakk>here t \<noteq> CHR 0x0A; b = here t\<rbrakk>
    \<Longrightarrow> char_step t (Some (Unexpected b (index t) (index t + 1))) (t\<lparr>index := index t + 1\<rparr>)"

inductive stepped :: "tokenizer \<Rightarrow> token option \<Rightarrow> tokenizer \<Rightarrow> bool" where
  opens: "\<lbrakk>here t = CHR 0x22; string_stack t = [] \<or> length (string_stack t) = length (interpolation_stack t)\<rbrakk>
    \<Longrightarrow> stepped t None (open_string t)"
| closes: "\<lbrakk>here t = CHR 0x22; length (string_stack t) \<noteq> length (interpolation_stack t);
      string_is_triple t = tr # trs; string_stack t = a # rest; string_closes t tr\<rbrakk>
    \<Longrightarrow> stepped t (Some (string_token tr a (index t)))
         (t\<lparr>string_stack := rest, string_is_triple := trs, index := index t + (if tr then 3 else 1)\<rparr>)"
| starts: "\<lbrakk>string_is_triple t = tr # trs; string_stack t = a # rest; starts_interpolation t\<rbrakk>
    \<Longrightarrow> stepped t (Some (string_token tr a (index t)))
         (t\<lparr>interpolation_stack := index t # interpolation_stack t,
            interpolation_paren_depth := 0 # interpolation_paren_depth t, index := index t + 2,
            next_token := Some (Lit InterpolationStart (index t + 1) (index t + 2))\<rparr>)"
| ends: "\<lbrakk>here t = CHR '')''; string_stack t = a # rest; interpolation_stack t = i # is;
      length (string_stack t) = length (interpolation_stack t); interpolation_paren_depth t = 0 # ds\<rbrakk>
    \<Longrightarrow> stepped t (Some (Lit InterpolationEnd (index t) (index t + 1)))
         (t\<lparr>string_stack := (index t + 1) # rest, interpolation_stack := is,
            interpolation_paren_depth := ds, index := index t + 1\<rparr>)"
| content: "\<lbrakk>length (string_stack t) > length (interpolation_stack t); string_is_triple t = tr # trs;
      here t = CHR 0x22 \<longrightarrow> \<not> string_closes t tr; \<not> starts_interpolation t\<rbrakk>
    \<Longrightarrow> stepped t None (string_content t (here t))"
| code: "\<lbrakk>string_stack t = [] \<or> length (string_stack t) \<le> length (interpolation_stack t); char_step t k t'\<rbrakk>
    \<Longrightarrow> stepped t k t'"
| paren: "\<lbrakk>here t = CHR '')''; length (string_stack t) = length (interpolation_stack t);
      string_stack t \<noteq> []; interpolation_paren_depth t = Suc d # ds;
      char_step (t\<lparr>interpolation_paren_depth := d # ds\<rparr>) k t'\<rbrakk>
    \<Longrightarrow> stepped t k t'"

section \<open>Scanning\<close>

lemma scan_while_ge: "i \<le> scan_while p s i"
  by (induction p s i rule: scan_while.induct) (subst scan_while.simps, auto)

lemma scan_while_le: "i \<le> length s \<Longrightarrow> scan_while p s i \<le> length s"
  by (induction p s i rule: scan_while.induct) (subst scan_while.simps, auto)

lemma scan_while_all: "i \<le> j \<Longrightarrow> j < scan_while p s i \<Longrightarrow> p (s ! j)"
proof (induction p s i arbitrary: j rule: scan_while.induct)
  case (1 p s i)
  show ?case
  proof (cases "j = i")
    case True
    with 1(3) show ?thesis by (simp add: scan_while.simps [of p s i] split: if_splits)
  next
    case False
    with 1(2,3) have "i < length s \<and> p (s ! i)" "i + 1 \<le> j" "j < scan_while p s (i + 1)"
      by (auto simp: scan_while.simps [of p s i] split: if_splits)
    then show ?thesis by (rule 1(1))
  qed
qed

lemma scan_while_stop: "scan_while p s i < length s \<Longrightarrow> \<not> p (s ! scan_while p s i)"
proof (induction p s i rule: scan_while.induct)
  case (1 p s i)
  then show ?case by (subst scan_while.simps, subst (asm) (2) scan_while.simps) (auto split: if_splits)
qed

lemma scan_while_gt: "i < length s \<Longrightarrow> p (s ! i) \<Longrightarrow> i < scan_while p s i"
  by (subst scan_while.simps) (use scan_while_ge [of "i + 1" p s] in simp)

lemma bytes_end_Some: "bytes_end s i = Some e \<Longrightarrow> i \<le> e \<and> e < length s \<and> s ! e = CHR 0x27"
proof (induction s i rule: bytes_end.induct)
  case (1 s i)
  consider "i < length s" "s ! i = CHR 0x5C" "i + 1 < length s" "bytes_end s (i + 2) = Some e"
    | "i < length s" "\<not> (s ! i = CHR 0x5C \<and> i + 1 < length s)" "s ! i = CHR 0x27" "e = i"
    | "i < length s" "\<not> (s ! i = CHR 0x5C \<and> i + 1 < length s)" "s ! i \<noteq> CHR 0x27"
      "bytes_end s (i + 1) = Some e"
    using 1(3) by (simp only: bytes_end.simps [of s i]) (auto split: if_splits)
  then show ?case
  proof cases
    case 1
    then show ?thesis using "1.IH"(1) by simp
  next
    case 3
    then show ?thesis using "1.IH"(2) by simp
  qed simp
qed

lemma symbol_at_pos: "symbol_at s i b = Some (k, n) \<Longrightarrow> 0 < n"
  by (auto simp: symbol_at_def one_or_two_def minus_symbol_def dot_symbol_def right_angle_symbol_def
      split: option.splits if_splits prod.splits)

lemma symbol_at_le: "symbol_at s i b = Some (k, n) \<Longrightarrow> i < length s \<Longrightarrow> i + n \<le> length s"
  by (auto simp: symbol_at_def one_or_two_def minus_symbol_def dot_symbol_def right_angle_symbol_def
      peek_byte_def split: option.splits if_splits prod.splits)

lemma number_end_gt:
  "number_end t k e \<Longrightarrow> is_digit (here t) \<Longrightarrow> index t < length (source t)
     \<Longrightarrow> index t < e \<and> e \<le> length (source t)"
proof (induction rule: number_end.induct)
  case (radix t e digit c k)
  then show ?case
    using scan_while_ge [of "index t + 2" "\<lambda>b. is_identifier_char b \<and> digit b" "source t"]
      scan_while_le [of "index t + 2" "source t" "\<lambda>b. is_identifier_char b \<and> digit b"] by simp
next
  case (decimal e t)
  then have "is_ascii_digit (here t)" by (simp add: is_digit_def is_ascii_digit_def)
  with decimal show ?case using scan_while_gt scan_while_le by simp
qed

lemma char_step_gt:
  "char_step t k t' \<Longrightarrow> index t < length (source t)
     \<Longrightarrow> index t < index t' \<and> index t' \<le> length (source t) \<and> source t' = source t"
proof (induction rule: char_step.induct)
  case (newline t k t')
  then show ?case
    using scan_while_ge [of "Suc (index t)" is_indentation_char "source t"]
      scan_while_le [of "Suc (index t)" "source t" is_indentation_char] by (auto simp: lex_newline_def Let_def)
next
  case (symbol t k n)
  then show ?case using symbol_at_pos [OF symbol(1)] symbol_at_le [OF symbol(1,2)]
    by (auto simp: count_symbol_def split: list.splits)
next
  case (comment t e c)
  then have "not_newline (here t)" by (simp add: not_newline_def)
  with comment show ?case using scan_while_gt scan_while_le by simp
next
  case (word t e)
  then have "is_identifier_char (here t)" by (simp add: is_identifier_start_char_def split: if_splits)
  with word show ?case using scan_while_gt scan_while_le by simp
next
  case (number t k e)
  then show ?case using number_end_gt by simp
next
  case (duration t i e)
  then show ?case
    using number_end_gt [OF duration(2,1,6)] scan_while_ge [of i "\<lambda>b. is_ascii_digit b \<or> is_ascii_alphabetic b" "source t"]
      scan_while_le [of i "source t" "\<lambda>b. is_ascii_digit b \<or> is_ascii_alphabetic b"] by simp
next
  case (bad t k i e r err)
  then show ?case
    using number_end_gt [OF bad(2,1,7)] scan_while_ge [of i not_whitespace "source t"]
      scan_while_le [of i "source t" not_whitespace] by simp
qed (auto dest!: bytes_end_Some intro: scan_while_gt scan_while_le)

lemma stepped_gt:
  "stepped t k t' \<Longrightarrow> index t < length (source t)
     \<Longrightarrow> index t < index t' \<and> index t' \<le> length (source t) \<and> source t' = source t"
proof (induction rule: stepped.induct)
  case (paren t d ds k t')
  from char_step_gt [OF paren(5)] paren(6) show ?case by simp
next
  case (code t k t')
  from char_step_gt [OF code(2,3)] show ?case .
qed (auto simp: open_string_def Let_def is_triple_quote_def string_closes_def starts_interpolation_def
    string_content_def)

text \<open>A turn that is no \<open>Fall\<close> is a step of the relation.\<close>

fun does :: "(tokenizer \<Rightarrow> token option \<Rightarrow> tokenizer \<Rightarrow> bool) \<Rightarrow> tokenizer \<Rightarrow> turn \<Rightarrow> bool" where
  "does R t (Emit k t') \<longleftrightarrow> R t (Some k) t'"
| "does R t (Continue t') \<longleftrightarrow> R t None t'"
| "does R t (Fall t') \<longleftrightarrow> False"

lemma bad_digits_step:
  assumes "bad_digits t err i = Some r" and "is_digit (here t)" and "number_end t k i"
    and "i < length (source t)" and "is_identifier_char (source t ! i)"
  shows "does char_step t r"
  using assms(1) char_step.bad [OF assms(2-5) refl]
  by (auto simp: bad_digits_def Let_def bind_eq_Some_conv)

lemma lex_radix_step:
  assumes "lex_radix t digit k err = Some r" and "is_digit (here t)"
    and "number_end t k (scan_while (\<lambda>b. is_identifier_char b \<and> digit b) (source t) (index t + 2))"
  shows "does char_step t r"
  using assms(1) char_step.number [OF assms(2,3)] bad_digits_step [OF _ assms(2,3)]
  by (auto simp: lex_radix_def Let_def split: if_splits)

definition radixes :: "(byte \<times> (byte \<Rightarrow> bool) \<times> text_kind) set" where
  "radixes = {(CHR ''b'', binary_digit, BinaryDigits), (CHR ''B'', binary_digit, BinaryDigits),
    (CHR ''x'', is_ascii_hexdigit, HexDigits), (CHR ''X'', is_ascii_hexdigit, HexDigits),
    (CHR ''o'', octal_digit, OctalDigits), (CHR ''O'', octal_digit, OctalDigits)}"

lemma radixes_in:
  "m = CHR ''b'' \<or> m = CHR ''B'' \<Longrightarrow> (m, binary_digit, BinaryDigits) \<in> radixes"
  "m = CHR ''x'' \<or> m = CHR ''X'' \<Longrightarrow> (m, is_ascii_hexdigit, HexDigits) \<in> radixes"
  "m = CHR ''o'' \<or> m = CHR ''O'' \<Longrightarrow> (m, octal_digit, OctalDigits) \<in> radixes"
  by (auto simp: radixes_def)

lemma radix_end:
  assumes "here t = CHR ''0''" and "peek_byte (source t) (index t + 1) = Some c" and "(c, digit, k) \<in> radixes"
  shows "number_end t k (scan_while (\<lambda>b. is_identifier_char b \<and> digit b) (source t) (index t + 2))"
  using assms by (intro number_end.radix [OF assms(1) _ refl _ assms(3) [unfolded radixes_def]])
    (auto simp: peek_byte_def split: if_splits)

lemma lex_decimal_step:
  assumes "lex_decimal t = Some r" and "is_digit (here t)"
  shows "does char_step t r"
proof -
  note e = number_end.decimal [OF refl, of t]
  from assms(1) char_step.number [OF assms(2) e] char_step.duration [OF assms(2) e]
    bad_digits_step [OF _ assms(2) e]
  show ?thesis by (auto simp: lex_decimal_def Let_def split: if_splits)
qed

lemma lex_number_step:
  assumes "lex_number t b = Some r" and "is_digit b" and b: "here t = b"
  shows "does char_step t r"
proof -
  let ?m = "peek_byte (source t) (index t + 1)"
  note step = lex_radix_step [OF _ assms(2) [folded b] radix_end]
  consider c where "b = CHR ''0''" "?m = Some c" "c = CHR ''b'' \<or> c = CHR ''B''"
      "lex_radix t binary_digit BinaryDigits InvalidBinaryDigit = Some r"
    | c where "b = CHR ''0''" "?m = Some c" "c = CHR ''x'' \<or> c = CHR ''X''"
      "lex_radix t is_ascii_hexdigit HexDigits InvalidHexDigit = Some r"
    | c where "b = CHR ''0''" "?m = Some c" "c = CHR ''o'' \<or> c = CHR ''O''"
      "lex_radix t octal_digit OctalDigits InvalidOctalDigit = Some r"
    | "lex_decimal t = Some r"
    using assms(1) unfolding lex_number_def Let_def by (metis (no_types, lifting))
  then show ?thesis
  proof cases
    case 1 then show ?thesis using step b radixes_in(1) by metis
  next
    case 2 then show ?thesis using step b radixes_in(2) by metis
  next
    case 3 then show ?thesis using step b radixes_in(3) by metis
  next
    case 4 then show ?thesis using lex_decimal_step assms(2) b by simp
  qed
qed

lemma lex_char_step:
  assumes r: "lex_char t b = Some r" and b: "here t = b"
  shows "does char_step t r"
proof -
  note other = lex_number_step [OF _ _ b] char_step.newline [of t] lex_newline_def
  have bytes: "b = CHR 0x27 \<Longrightarrow> does char_step t (lex_bytes t)"
    using b by (auto simp: lex_bytes_def Let_def simp del: One_nat_def split: option.split
        intro: char_step.bytes char_step.open_bytes)
  have comment: "does char_step t r" if "b = CHR ''#''" and "lex_comment t = Some r"
    using b that char_step.comment [OF _ refl _ refl, of t]
    by (auto simp: lex_comment_def read_string_def Let_def bind_eq_Some_conv split: if_splits)
  have newline: "b = CHR 0x0A \<Longrightarrow> does char_step t (lex_newline t)"
    using b char_step.newline [of t] by (simp add: lex_newline_def Let_def)
  have number: "is_digit b \<Longrightarrow> lex_number t b = Some r \<Longrightarrow> does char_step t r"
    using lex_number_step [OF _ _ b] by blast
  show ?thesis
    using r bytes newline comment number char_step.path [of t, OF _ refl] char_step.blank [of t]
      char_step.symbol [of t] char_step.word [of t, OF _ refl] char_step.unexpected [of t, OF _ refl] b
    unfolding lex_char_def
    by (auto simp: lex_path_def lex_word_def Let_def simp del: One_nat_def split: if_splits option.splits)
qed

lemma in_string_step:
  assumes r: "in_string t (here t) = Some r" and "string_stack t \<noteq> []"
  shows "(case r of
       Fall t1 \<Rightarrow> (\<forall>k t'. char_step t1 k t' \<longrightarrow> stepped t k t') \<and> here t1 = here t
     | _ \<Rightarrow> does stepped t r)"
proof -
  obtain tr trs where tr: "string_is_triple t = tr # trs" using r by (auto simp: in_string_def split: list.splits)
  obtain a rest where a: "string_stack t = a # rest" using assms(2) by (cases "string_stack t") auto
  show ?thesis
  proof (cases "here t = CHR '')'' \<and> interpolation_stack t \<noteq> []
      \<and> length (string_stack t) = length (interpolation_stack t) \<and> \<not> starts_interpolation t")
    case True
    then obtain i "is" where i: "interpolation_stack t = i # is" by (cases "interpolation_stack t") auto
    have "in_string t (here t) =
        (case interpolation_paren_depth t of
           [] \<Rightarrow> None
         | d # ds \<Rightarrow> if d > 0 then Some (Fall (t\<lparr>interpolation_paren_depth := (d - 1) # ds\<rparr>))
                    else Some (end_interpolation t))"
      using True tr a by (simp add: in_string_def Let_def)
    with r obtain d ds where d: "interpolation_paren_depth t = d # ds"
      and r': "r = (if d > 0 then Fall (t\<lparr>interpolation_paren_depth := (d - 1) # ds\<rparr>) else end_interpolation t)"
      by (auto split: list.splits if_splits)
    from True have p: "here t = CHR '')''" "length (string_stack t) = length (interpolation_stack t)" by auto
    show ?thesis
    proof (cases d)
      case 0
      with stepped.ends [OF p(1) a i p(2)] d r' a i show ?thesis by (simp add: end_interpolation_def)
    next
      case (Suc d')
      with stepped.paren [OF p assms(2)] d r' show ?thesis by simp
    qed
  next
    case False
    with r tr a show ?thesis
      using stepped.closes [OF _ _ tr a] stepped.starts [OF tr a] stepped.opens [of t]
        stepped.content [OF _ tr] stepped.code [of t]
      by (auto simp: in_string_def close_string_def start_interpolation_def Let_def
          simp del: One_nat_def split: if_splits)
  qed
qed

lemma lex_step_step:
  assumes "lex_step t = Some r"
  shows "does stepped t r"
proof (cases "string_stack t = []")
  case True
  then show ?thesis
  proof (cases "here t = CHR 0x22")
    case True
    with \<open>string_stack t = []\<close> assms stepped.opens [of t] show ?thesis by (auto simp: lex_step_def Let_def)
  next
    case False
    with True assms have "lex_char t (here t) = Some r" by (simp add: lex_step_def Let_def)
    from lex_char_step [OF this refl] stepped.code [of t] True show ?thesis by (cases r) auto
  qed
next
  case False
  with assms obtain r0 where r0: "in_string t (here t) = Some r0"
    and r: "(case r0 of Fall t' \<Rightarrow> lex_char t' (here t) | _ \<Rightarrow> Some r0) = Some r"
    by (auto simp: lex_step_def Let_def bind_eq_Some_conv)
  note s = in_string_step [OF r0 False]
  show ?thesis
  proof (cases r0)
    case (Fall t1)
    with s have s: "\<And>k t'. char_step t1 k t' \<Longrightarrow> stepped t k t'" and h: "here t1 = here t" by auto
    from Fall r have "lex_char t1 (here t) = Some r" by simp
    from lex_char_step [OF this h] s show ?thesis by (cases r) auto
  qed (use s r in auto)
qed

section \<open>Iteration\<close>

text \<open>
  The loop ends in the code's two ways: with a token, or at the end of input, where the reports
  are made and \<open>None\<close> is returned. It stops because every turn moves the index on.
\<close>

function main_loop :: "tokenizer \<Rightarrow> (token option \<times> tokenizer) option" where
  "main_loop t =
     (if index t < length (source t)
      then case lex_step t of
             None \<Rightarrow> None
           | Some (Emit k t') \<Rightarrow> Some (Some k, t')
           | Some (Continue t') \<Rightarrow> main_loop t'
           | Some (Fall t') \<Rightarrow> None
      else map_option (Pair None) (finish t))"
  by pat_completeness auto
termination
  by (relation "measure (\<lambda>t. length (source t) - index t)")
    (use stepped_gt in \<open>fastforce dest!: lex_step_step\<close>)+

declare main_loop.simps [simp del]

definition next_step :: "tokenizer \<Rightarrow> (token option \<times> tokenizer) option" where
  "next_step t =
     (if index t \<ge> length (source t) then Some (None, t)
      else case next_token t of
             Some k \<Rightarrow> Some (Some k, t\<lparr>next_token := None\<rparr>)
           | None \<Rightarrow> main_loop t)"

lemma main_loop_gt:
  "main_loop t = Some (Some k, t') \<Longrightarrow> index t < index t' \<and> index t' \<le> length (source t) \<and> source t' = source t"
proof (induction t rule: main_loop.induct)
  case (1 t)
  from 1(2) have i: "index t < length (source t)"
    by (subst (asm) main_loop.simps) (auto split: if_splits)
  then obtain r where r: "lex_step t = Some r"
    using 1(2) by (subst (asm) main_loop.simps) (auto split: option.splits)
  note step = lex_step_step [OF r]
  show ?case
  proof (cases r)
    case (Emit x t1)
    with 1(2) r i have "x = k" "t1 = t'" by (simp_all add: main_loop.simps [of t])
    with step Emit stepped_gt [OF _ i] show ?thesis by simp
  next
    case (Continue t1)
    with 1(2) r i have "main_loop t1 = Some (Some k, t')" by (simp add: main_loop.simps [of t])
    from 1(1) [OF i r Continue this] step Continue stepped_gt [OF _ i, of None t1] show ?thesis by simp
  qed (use step in simp)
qed

definition pending :: "tokenizer \<Rightarrow> nat" where
  "pending t = 2 * (length (source t) - index t) + (if next_token t = None then 0 else 1)"

lemma next_step_less: "next_step t = Some (Some k, t') \<Longrightarrow> pending t' < pending t"
  by (auto simp: next_step_def pending_def split: if_splits option.splits dest!: main_loop_gt)

text \<open>\<open>tokenizer.collect()\<close>: the tokens up to the first \<open>None\<close>, and the state that is left.\<close>

function collect :: "tokenizer \<Rightarrow> (token list \<times> tokenizer) option" where
  "collect t =
     (case next_step t of
        None \<Rightarrow> None
      | Some (None, t') \<Rightarrow> Some ([], t')
      | Some (Some k, t') \<Rightarrow> map_option (apfst (Cons k)) (collect t'))"
  by pat_completeness auto
termination by (relation "measure pending") (auto dest: next_step_less)

declare collect.simps [simp del]

definition tokenize :: "string \<Rightarrow> (token list \<times> tokenizer) option" where
  "tokenize s = collect (from_source s)"

end
