(* ===== verification/TokenizerCorrect.thy ===== *)
theory TokenizerCorrect
  imports Tokenizer
begin

text \<open>
  Properties of the tokenizer. \<open>lexing s ts t\<close> holds when a run over source \<open>s\<close> can be in state
  \<open>t\<close> with the tokens \<open>ts\<close> emitted; \<open>collect\<close> ends in such a state (\<open>collect_lexing\<close>), so a
  property of the reachable states, proved by cases on the branches of a turn, is a property of
  the token stream.
\<close>

section \<open>Reachable states\<close>

inductive lexing :: "string \<Rightarrow> token list \<Rightarrow> tokenizer \<Rightarrow> bool" for s where
  start: "lexing s [] (from_source s)"
| take_pending: "\<lbrakk>lexing s ts t; index t < length s; next_token t = Some k\<rbrakk>
    \<Longrightarrow> lexing s (ts @ [k]) (t\<lparr>next_token := None\<rparr>)"
| emit: "\<lbrakk>lexing s ts t; index t < length s; next_token t = None; stepped t (Some k) t'\<rbrakk>
    \<Longrightarrow> lexing s (ts @ [k]) t'"
| skip: "\<lbrakk>lexing s ts t; index t < length s; next_token t = None; stepped t None t'\<rbrakk>
    \<Longrightarrow> lexing s ts t'"

lemma lexing_source: "lexing s ts t \<Longrightarrow> source t = s \<and> index t \<le> length s"
  by (induction rule: lexing.induct) (auto simp: from_source_def dest: stepped_gt)

lemma char_step_pending: "char_step t None t' \<Longrightarrow> next_token t' = next_token t"
  by (auto elim: char_step.cases)

lemma stepped_pending: "stepped t None t' \<Longrightarrow> next_token t' = next_token t"
  by (erule stepped.cases) (auto simp: open_string_def Let_def string_content_def dest: char_step_pending)

text \<open>A run of the loop stays among the reachable states.\<close>

lemma main_loop_lexing:
  "main_loop t = Some (out, t') \<Longrightarrow> lexing s ts t \<Longrightarrow> next_token t = None
     \<Longrightarrow> (case out of
           Some k \<Rightarrow> lexing s (ts @ [k]) t'
         | None \<Rightarrow> (\<exists>t0. lexing s ts t0 \<and> length s \<le> index t0 \<and> finish t0 = Some t'))"
proof (induction t rule: main_loop.induct)
  case (1 t)
  note src = lexing_source [OF 1(3)]
  show ?case
  proof (cases "index t < length (source t)")
    case False
    with 1(2) have "out = None" "finish t = Some t'" by (simp_all add: main_loop.simps [of t])
    with False src 1(3) show ?thesis by auto
  next
    case True
    with 1(2) obtain r where r: "lex_step t = Some r"
      by (auto simp: main_loop.simps [of t] split: option.splits)
    note step = lex_step_step [OF r]
    show ?thesis
    proof (cases r)
      case (Emit x t1)
      with 1(2) r True have "out = Some x" "t1 = t'" by (simp_all add: main_loop.simps [of t])
      with step Emit lexing.emit [OF 1(3) _ 1(4)] True src show ?thesis by simp
    next
      case (Continue t1)
      with 1(2) r True have m: "main_loop t1 = Some (out, t')" by (simp add: main_loop.simps [of t])
      from step Continue have s1: "stepped t None t1" by simp
      from lexing.skip [OF 1(3) _ 1(4) s1] True src have "lexing s ts t1" by simp
      from 1(1) [OF True r Continue m this] stepped_pending [OF s1] 1(4) show ?thesis by simp
    qed (use step in simp)
  qed
qed

definition ends :: "tokenizer \<Rightarrow> tokenizer \<Rightarrow> bool" where
  "ends t0 t \<longleftrightarrow> length (source t0) \<le> index t0 \<and> (t = t0 \<or> finish t0 = Some t)"

lemma collect_lexing:
  "collect t = Some (ks, t') \<Longrightarrow> lexing s ts t \<Longrightarrow> \<exists>t0. lexing s (ts @ ks) t0 \<and> ends t0 t'"
proof (induction t arbitrary: ks ts rule: collect.induct)
  case (1 t)
  note src = lexing_source [OF 1(3)]
  from 1(2) obtain out t1 where n: "next_step t = Some (out, t1)"
    by (subst (asm) collect.simps) (auto split: option.splits)
  have l: "case out of Some k \<Rightarrow> lexing s (ts @ [k]) t1 | None \<Rightarrow> \<exists>t0. lexing s ts t0 \<and> ends t0 t1"
    using n main_loop_lexing [OF _ 1(3), of out t1] lexing.take_pending [OF 1(3)] 1(3) lexing_source src
    by (auto simp: next_step_def ends_def split: if_splits option.splits)
  show ?case
  proof (cases out)
    case None
    with 1(2) n l show ?thesis by (subst (asm) collect.simps) simp
  next
    case (Some k)
    with 1(2) n obtain ks' where ks: "collect t1 = Some (ks', t')" "ks = k # ks'"
      by (subst (asm) collect.simps) (auto split: option.splits)
    from Some l have "lexing s (ts @ [k]) t1" by simp
    from 1(1) [OF n refl Some ks(1) this] ks(2) show ?thesis by simp
  qed
qed

lemma tokenize_lexing: "tokenize s = Some (ks, t) \<Longrightarrow> \<exists>t0. lexing s ks t0 \<and> ends t0 t"
  using collect_lexing [OF _ lexing.start] by (fastforce simp: tokenize_def)

section \<open>No panic\<close>

lemma utf8_split:
  "utf8_valid (xs @ c # ys) \<Longrightarrow> code c < 0x80 \<Longrightarrow> utf8_valid xs \<and> utf8_valid ys"
proof (induction xs rule: length_induct)
  case (1 xs)
  note valid = 1(2) and c = 1(3)
  have IH: "utf8_valid (zs @ c # ys) \<Longrightarrow> utf8_valid zs \<and> utf8_valid ys" if "length zs < length xs" for zs
    using 1(1) that c by blast
  have nc: "\<not> in_range lo hi c" if "0x80 \<le> lo" for lo hi using c that by (simp add: in_range_def)
  show ?case
  proof (cases xs)
    case Nil
    with valid c show ?thesis by (simp add: utf8_valid.simps(2))
  next
    case (Cons a xs1)
    show ?thesis
    proof (cases "code a < 0x80")
      case True
      with valid Cons IH [of xs1] show ?thesis by (simp add: utf8_valid.simps(2))
    next
      case False
      show ?thesis
      proof (cases xs1)
        case Nil
        with valid Cons False nc show ?thesis
          by (simp add: utf8_valid.simps(2) [of a] split: list.splits if_splits)
      next
        case b: (Cons b xs2)
        show ?thesis
        proof (cases "in_range 0xC2 0xDF a")
          case True
          with valid Cons b False IH [of xs2] show ?thesis by (simp add: utf8_valid.simps(2) [of a])
        next
          case two: False
          show ?thesis
          proof (cases xs2)
            case Nil
            with valid Cons b False two nc show ?thesis
              by (simp add: utf8_valid.simps(2) [of a] split: list.splits if_splits)
          next
            case d: (Cons d xs3)
            show ?thesis
            proof (cases "in_range 0xE0 0xEF a")
              case True
              with valid Cons b d False two IH [of xs3] show ?thesis by (simp add: utf8_valid.simps(2) [of a])
            next
              case three: False
              show ?thesis
              proof (cases xs3)
                case Nil
                with valid Cons b d False two three nc show ?thesis
                  by (simp add: utf8_valid.simps(2) [of a])
              next
                case (Cons e xs4)
                with valid \<open>xs = a # xs1\<close> b d False two three IH [of xs4] show ?thesis
                  by (simp add: utf8_valid.simps(2) [of a])
              qed
            qed
          qed
        qed
      qed
    qed
  qed
qed

lemma slice_split:
  assumes "i < length s" and "i < e" and "e \<le> length s"
  shows "s = take i s @ s ! i # slice s (i + 1) e @ drop e s"
proof -
  have "drop (i + 1) s = slice s (i + 1) e @ drop e s"
    using assms append_take_drop_id [of "e - (i + 1)" "drop (i + 1) s"] by (simp add: slice_def)
  with id_take_nth_drop [OF assms(1)] show ?thesis by simp
qed

text \<open>The text of a comment is well-formed where the whole source is.\<close>

lemma utf8_slice:
  assumes "utf8_valid s" and "i < length s" and "i < e" and "e \<le> length s" and "code (s ! i) < 0x80"
    and "e < length s \<Longrightarrow> code (s ! e) < 0x80"
  shows "utf8_valid (slice s (i + 1) e)"
proof -
  from assms(1) slice_split [OF assms(2-4)] utf8_split [of "take i s" "s ! i" "slice s (i + 1) e @ drop e s"] assms(5)
  have v: "utf8_valid (slice s (i + 1) e @ drop e s)" by simp
  show ?thesis
  proof (cases "e < length s")
    case True
    then have "drop e s = s ! e # drop (Suc e) s" by (rule Cons_nth_drop_Suc [symmetric])
    with v True utf8_split assms(6) show ?thesis by metis
  qed (use v in simp)
qed

lemma line_scan_le: "ls \<le> i \<Longrightarrow> snd (line_scan bs i ln ls) \<le> i + length bs"
proof (induction bs arbitrary: i ln ls)
  case (Cons b bs)
  from Cons(1) [of "Suc i" "Suc i" "Suc ln"] Cons(1) [of ls "Suc i" ln] Cons(2) show ?case by simp
qed simp

lemma line_start_le: "snd (line_and_start_of t i) \<le> i"
  using line_scan_le [of 0 0 "take i (source t)" 0] by (simp add: line_and_start_of_def)

lemma span_from_total: "a \<le> b \<Longrightarrow> \<exists>r. span_from t a b = Some r"
  using line_start_le [of t a] by (auto simp: span_from_def usize_sub_def split: prod.split)

text \<open>
  The shape of every reachable state: the stacks that belong together have the same height, and
  no recorded position lies ahead of the index.
\<close>

definition well_formed :: "tokenizer \<Rightarrow> bool" where
  "well_formed t \<longleftrightarrow> length (string_is_triple t) = length (string_stack t)
     \<and> length (interpolation_paren_depth t) = length (interpolation_stack t)
     \<and> line_start_offset t \<le> index t
     \<and> (\<forall>i \<in> set (interpolation_stack t). i \<le> index t)
     \<and> (\<forall>i \<in> set (string_stack t). i \<le> index t)
     \<and> \<not> expect_import_path t"

lemma well_formedD:
  "well_formed t \<Longrightarrow> length (string_is_triple t) = length (string_stack t)"
  "well_formed t \<Longrightarrow> length (interpolation_paren_depth t) = length (interpolation_stack t)"
  "well_formed t \<Longrightarrow> line_start_offset t \<le> index t"
  by (simp_all add: well_formed_def)

lemma wf_advance:
  assumes "well_formed t" and "index t \<le> index t'" and "line_start_offset t' \<le> index t'"
    and "string_is_triple t' = string_is_triple t" and "string_stack t' = string_stack t"
    and "length (interpolation_paren_depth t') = length (interpolation_paren_depth t)"
    and "interpolation_stack t' = interpolation_stack t" and "\<not> expect_import_path t'"
  shows "well_formed t'"
  using assms by (force simp: well_formed_def)

lemma count_symbol_frame [simp]:
  "string_is_triple (count_symbol k t) = string_is_triple t"
  "string_stack (count_symbol k t) = string_stack t"
  "interpolation_stack (count_symbol k t) = interpolation_stack t"
  "length (interpolation_paren_depth (count_symbol k t)) = length (interpolation_paren_depth t)"
  "line_start_offset (count_symbol k t) = line_start_offset t" "line (count_symbol k t) = line t"
  "index (count_symbol k t) = index t" "source (count_symbol k t) = source t"
  "next_token (count_symbol k t) = next_token t" "comments (count_symbol k t) = comments t"
  "expect_import_path (count_symbol k t) = expect_import_path t" "errors (count_symbol k t) = errors t"
  by (auto simp: count_symbol_def split: list.split)

lemma lex_newline_frame:
  assumes "lex_newline t = Emit k t'"
  shows "string_is_triple t' = string_is_triple t" and "string_stack t' = string_stack t"
    and "interpolation_paren_depth t' = interpolation_paren_depth t"
    and "interpolation_stack t' = interpolation_stack t"
    and "expect_import_path t' = expect_import_path t"
    and "k = Lit LineBreak (index t) (index t + 1)" and "comments t' = comments t"
    and "line t' = line t + 1" and "line_start_offset t' = index t + 1"
    and "index t' = scan_while is_indentation_char (source t) (index t + 1)"
    and "next_token t' \<in> {next_token t, Some (Lit Indent (index t + 1) (index t')),
           Some (Lit Outdent (index t + 1) (index t'))}"
  using assms by (auto simp: lex_newline_def Let_def)

lemma char_step_frame:
  assumes step: "char_step t k t'" and well_formed: "well_formed t" and i: "index t < length (source t)"
  shows "string_is_triple t' = string_is_triple t \<and> string_stack t' = string_stack t
    \<and> length (interpolation_paren_depth t') = length (interpolation_paren_depth t)
    \<and> interpolation_stack t' = interpolation_stack t \<and> \<not> expect_import_path t'
    \<and> line_start_offset t' \<le> index t'"
  using step
proof cases
  case (newline k)
  have "Suc (index t) \<le> index t'"
    using lex_newline_frame(10) [OF newline(3)] scan_while_ge by simp
  with lex_newline_frame [OF newline(3)] well_formed show ?thesis by (simp add: well_formed_def)
qed (use well_formed char_step_gt [OF step i] in \<open>simp_all add: well_formed_def\<close>)

lemma char_step_wf:
  assumes "char_step t k t'" and "well_formed t" and "index t < length (source t)"
  shows "well_formed t'"
  by (rule wf_advance [OF assms(2)]) (use char_step_frame [OF assms] char_step_gt [OF assms(1,3)] in auto)

lemma stepped_wf:
  assumes "stepped t k t'" and "well_formed t" and "index t < length (source t)"
  shows "well_formed t'"
  using assms
proof cases
  case opens
  with assms(2) show ?thesis by (force simp: well_formed_def open_string_def Let_def)
next
  case (closes tr trs a rest)
  with assms(2) show ?thesis by (force simp: well_formed_def)
next
  case (starts tr trs a rest)
  with assms(2) show ?thesis by (force simp: well_formed_def)
next
  case (ends a rest i "is" ds)
  with assms(2) show ?thesis by (force simp: well_formed_def)
next
  case content
  with assms(2) show ?thesis by (force simp: well_formed_def string_content_def Let_def)
next
  case code
  then show ?thesis using char_step_wf [OF code(2) assms(2,3)] by simp
next
  case (paren d ds)
  have "well_formed (t\<lparr>interpolation_paren_depth := d # ds\<rparr>)"
    using well_formedD(2) [OF assms(2)] paren(4) by (intro wf_advance [OF assms(2)]) (use assms(2) in \<open>simp_all add: well_formed_def\<close>)
  from char_step_wf [OF paren(5) this] assms(3) show ?thesis by simp
qed

lemma lexing_wf: "lexing s ts t \<Longrightarrow> well_formed t"
proof (induction rule: lexing.induct)
  case (take_pending ts t k)
  then show ?case by (simp add: well_formed_def)
next
  case (emit ts t k t')
  then show ?case using lexing_source stepped_wf by blast
next
  case (skip ts t t')
  then show ?case using lexing_source stepped_wf by blast
qed (simp add: from_source_def well_formed_def)

lemma bad_digits_total: "well_formed t \<Longrightarrow> index t \<le> i \<Longrightarrow> bad_digits t err i \<noteq> None"
  using scan_while_ge [of i not_whitespace "source t"]
  by (auto simp: bad_digits_def span_to_single_line_range_def usize_sub_def Let_def well_formed_def)

lemma lex_radix_total: "well_formed t \<Longrightarrow> lex_radix t digit k err \<noteq> None"
proof -
  assume well_formed: "well_formed t"
  have "index t + 2 \<le> scan_while (\<lambda>b. is_identifier_char b \<and> digit b) (source t) (index t + 2)"
    by (rule scan_while_ge)
  with bad_digits_total [OF well_formed] show ?thesis unfolding lex_radix_def Let_def by auto
qed

lemma lex_decimal_total: "well_formed t \<Longrightarrow> lex_decimal t \<noteq> None"
  using bad_digits_total [OF _ scan_while_ge] by (simp add: lex_decimal_def Let_def)

lemma lex_number_total: "well_formed t \<Longrightarrow> lex_number t b \<noteq> None"
  unfolding lex_number_def Let_def using lex_radix_total lex_decimal_total by presburger

lemma lex_comment_total:
  assumes "utf8_valid (source t)" and "index t < length (source t)" and "here t = CHR ''#''"
  shows "lex_comment t \<noteq> None"
proof -
  let ?e = "scan_while not_newline (source t) (index t)"
  have "index t < ?e" using assms(2,3) by (intro scan_while_gt) (simp_all add: not_newline_def)
  moreover have "?e \<le> length (source t)" using assms(2) by (simp add: scan_while_le)
  moreover have "code (source t ! ?e) < 0x80" if "?e < length (source t)"
    using scan_while_stop [OF that] by (simp add: not_newline_def)
  ultimately have "utf8_valid (slice (source t) (index t + 1) ?e)"
    using utf8_slice [OF assms(1,2)] assms(3) by simp
  then show ?thesis by (simp add: lex_comment_def read_string_def Let_def)
qed

lemma lex_char_total:
  "utf8_valid (source t) \<Longrightarrow> index t < length (source t) \<Longrightarrow> well_formed t \<Longrightarrow> here t = b \<Longrightarrow> lex_char t b \<noteq> None"
  using lex_comment_total [of t] lex_number_total [of t b]
  by (auto simp: lex_char_def split: option.split prod.split)

lemma in_string_total:
  assumes "well_formed t" and "string_stack t \<noteq> []"
  shows "\<exists>r. in_string t b = Some r \<and> (\<forall>t'. r = Fall t' \<longrightarrow> well_formed t' \<and> source t' = source t \<and> index t' = index t)"
proof -
  obtain a rest tr trs where a: "string_stack t = a # rest" "string_is_triple t = tr # trs"
    using well_formedD(1) [OF assms(1)] assms(2) by (cases "string_stack t"; cases "string_is_triple t") auto
  show ?thesis
  proof (cases "interpolation_stack t")
    case Nil
    with a assms(1) show ?thesis
      by (simp add: in_string_def close_string_def start_interpolation_def Let_def)
  next
    case (Cons i "is")
    then obtain d ds where d: "interpolation_paren_depth t = d # ds"
      using well_formedD(2) [OF assms(1)] by (cases "interpolation_paren_depth t") auto
    have "well_formed (t\<lparr>interpolation_paren_depth := (d - 1) # ds\<rparr>)" using assms(1) d by (simp add: well_formed_def)
    with a Cons d assms(1) show ?thesis
      by (simp add: in_string_def close_string_def start_interpolation_def end_interpolation_def Let_def)
  qed
qed

lemma lex_step_total:
  assumes "utf8_valid (source t)" and "index t < length (source t)" and "well_formed t"
  shows "lex_step t \<noteq> None"
proof (cases "string_stack t = []")
  case True
  with lex_char_total [OF assms refl] show ?thesis by (simp add: lex_step_def Let_def)
next
  case False
  from in_string_total [OF assms(3) False] obtain r where r: "in_string t (here t) = Some r"
    and f: "\<And>t'. r = Fall t' \<Longrightarrow> well_formed t' \<and> source t' = source t \<and> index t' = index t" by blast
  have "lex_char t' (here t) \<noteq> None" if "r = Fall t'" for t'
    using f [OF that] lex_char_total [of t' "here t"] assms(1,2) by simp
  with r False show ?thesis by (auto simp: lex_step_def Let_def split: turn.split)
qed

lemma report_string_total: "\<exists>t'. report_string t = Some t'"
proof (cases "string_stack t")
  case (Cons c rest)
  let ?q = "c - (if (case string_is_triple t of [] \<Rightarrow> False | b # _ \<Rightarrow> b) then 3 else 1)"
  obtain r where "span_from t ?q (?q + 1) = Some r" using span_from_total [of ?q "?q + 1" t] by auto
  with Cons show ?thesis by (simp add: report_string_def Let_def)
qed (simp add: report_string_def)

lemma finish_total: "well_formed t \<Longrightarrow> finish t \<noteq> None"
proof (cases "interpolation_stack t")
  case Nil
  then show ?thesis using report_string_total [of t] by (auto simp: finish_def report_interpolation_def)
next
  case (Cons a rest)
  assume "well_formed t"
  with Cons have "a \<le> index t" by (simp add: well_formed_def)
  from span_from_total [OF this, of t] Cons report_string_total
  show ?thesis by (auto simp: finish_def report_interpolation_def)
qed


lemma main_loop_total:
  "lexing s ts t \<Longrightarrow> next_token t = None \<Longrightarrow> utf8_valid s \<Longrightarrow> main_loop t \<noteq> None"
proof (induction t arbitrary: ts rule: main_loop.induct)
  case (1 t)
  note src = lexing_source [OF 1(2)] and well_formed = lexing_wf [OF 1(2)]
  show ?case
  proof (cases "index t < length (source t)")
    case False
    with finish_total [OF well_formed] show ?thesis by (simp add: main_loop.simps [of t])
  next
    case True
    with lex_step_total [OF _ True well_formed] 1(4) src obtain r where r: "lex_step t = Some r" by auto
    note step = lex_step_step [OF r]
    show ?thesis
    proof (cases r)
      case (Continue t1)
      with step have s1: "stepped t None t1" by simp
      from lexing.skip [OF 1(2) _ 1(3) s1] True src have "lexing s ts t1" by simp
      from 1(1) [OF True r Continue this _ 1(4)] stepped_pending [OF s1] 1(3) True r Continue
      show ?thesis by (simp add: main_loop.simps [of t])
    qed (use step True r in \<open>simp_all add: main_loop.simps [of t]\<close>)
  qed
qed

lemma collect_total:
  "lexing s ts t \<Longrightarrow> utf8_valid s \<Longrightarrow> \<exists>ks t'. collect t = Some (ks, t') \<and> length ks \<le> pending t"
proof (induction t arbitrary: ts rule: collect.induct)
  case (1 t)
  have "next_step t \<noteq> None"
    using main_loop_total [OF 1(2) _ 1(3)] by (auto simp: next_step_def split: option.split)
  then obtain out t1 where n: "next_step t = Some (out, t1)" by auto
  show ?case
  proof (cases out)
    case None
    with n show ?thesis by (simp add: collect.simps [of t])
  next
    case (Some k)
    have "lexing s (ts @ [k]) t1"
      using n Some main_loop_lexing [OF _ 1(2), of out t1] lexing.take_pending [OF 1(2)] lexing_source [OF 1(2)]
      by (auto simp: next_step_def split: if_splits option.splits)
    from 1(1) [OF n refl Some this 1(3)] n Some next_step_less [of t k t1]
    show ?thesis by (auto simp: collect.simps [of t])
  qed
qed

text \<open>
  C10. The tokenizer never panics and always stops: on every source that is well-formed UTF-8,
  collecting its tokens gives a list of at most two tokens per byte.
\<close>

theorem tokenize_total:
  assumes "utf8_valid s"
  shows "\<exists>ts t. tokenize s = Some (ts, t) \<and> length ts \<le> 2 * length s"
  using collect_total [OF lexing.start assms] by (simp add: tokenize_def pending_def from_source_def)

theorem tokenize_total_witness:
  "\<exists>ts t. tokenize ''let x = 5s # due'' = Some (ts, t) \<and> length ts \<le> 32"
proof -
  have "utf8_valid ''let x = 5s # due''" by code_simp
  from tokenize_total [OF this] show ?thesis by simp
qed

section \<open>Spans\<close>

definition first_of :: "token \<Rightarrow> nat" where "first_of k = fst (get_span k)"
definition end_of :: "token \<Rightarrow> nat" where "end_of k = snd (get_span k)"

lemma spans [simp]:
  "first_of (Word w a b) = a" "first_of (Sym y a b) = a" "first_of (Lit l a b) = a" "first_of (Unexpected c a b) = a"
  "end_of (Word w a b) = b" "end_of (Sym y a b) = b" "end_of (Lit l a b) = b" "end_of (Unexpected c a b) = b"
  "first_of (string_token tr a b) = a" "end_of (string_token tr a b) = b"
  "first_of (word_token v a b) = a" "end_of (word_token v a b) = b"
  by (simp_all add: first_of_def end_of_def string_token_def word_token_def split: option.split)

text \<open>Tokens from position \<open>e\<close> on, in order and without overlap.\<close>

fun in_order :: "nat \<Rightarrow> token list \<Rightarrow> bool" where
  "in_order e [] \<longleftrightarrow> True"
| "in_order e (k # ks) \<longleftrightarrow> e \<le> first_of k \<and> first_of k \<le> end_of k \<and> in_order (end_of k) ks"

fun last_end :: "nat \<Rightarrow> token list \<Rightarrow> nat" where
  "last_end e [] = e"
| "last_end e (k # ks) = last_end (end_of k) ks"

lemma in_order_snoc [simp]:
  "in_order e (ks @ [k]) \<longleftrightarrow> in_order e ks \<and> last_end e ks \<le> first_of k \<and> first_of k \<le> end_of k"
  "last_end e (ks @ [k]) = end_of k"
  by (induction ks arbitrary: e) auto

definition pending_in :: "nat \<Rightarrow> tokenizer \<Rightarrow> bool" where
  "pending_in e t \<longleftrightarrow> (case next_token t of None \<Rightarrow> True
     | Some p \<Rightarrow> e \<le> first_of p \<and> first_of p \<le> end_of p \<and> end_of p \<le> index t)"

lemma char_step_span:
  assumes step: "char_step t (Some k) t'" and i: "index t < length (source t)" and p: "next_token t = None"
  shows "index t \<le> first_of k" and "first_of k \<le> end_of k" and "end_of k \<le> index t'" and "pending_in (end_of k) t'"
proof -
  note gt = char_step_gt [OF step i]
  have "index t \<le> first_of k \<and> first_of k \<le> end_of k \<and> end_of k \<le> index t' \<and> pending_in (end_of k) t'"
    using step
  proof cases
    case (newline)
    have "Suc (index t) \<le> index t'" using lex_newline_frame(10) [OF newline(2)] scan_while_ge by simp
    with lex_newline_frame [OF newline(2)] p show ?thesis by (auto simp: pending_in_def)
  next
    case (bytes e)
    with bytes_end_Some p show ?thesis by (fastforce simp: pending_in_def)
  qed (use gt p in \<open>auto simp: pending_in_def\<close>)
  then show "index t \<le> first_of k" "first_of k \<le> end_of k" "end_of k \<le> index t'" "pending_in (end_of k) t'"
    by auto
qed

text \<open>
  In a good state an open string's content begins after every token emitted. A state where more
  interpolations than strings are open is lost: it never becomes good again.
\<close>

definition good :: "nat \<Rightarrow> tokenizer \<Rightarrow> bool" where
  "good e t \<longleftrightarrow> length (interpolation_stack t) \<le> length (string_stack t)
     \<and> length (string_stack t) \<le> length (interpolation_stack t) + 1 \<and> e \<le> index t
     \<and> (length (string_stack t) = length (interpolation_stack t) + 1 \<longrightarrow> e \<le> hd (string_stack t))
     \<and> (next_token t \<noteq> None \<longrightarrow> length (string_stack t) = length (interpolation_stack t))
     \<and> pending_in e t"

definition lost :: "tokenizer \<Rightarrow> bool" where
  "lost t \<longleftrightarrow> length (string_stack t) < length (interpolation_stack t) \<and> 2 \<le> length (interpolation_stack t)"

lemma stepped_lost: "stepped t k t' \<Longrightarrow> well_formed t \<Longrightarrow> index t < length (source t) \<Longrightarrow> lost t \<Longrightarrow> lost t'"
proof (induction rule: stepped.induct)
  case (code t k t')
  with char_step_frame [OF code(2,3,4)] show ?case by (simp add: lost_def)
qed (auto simp: lost_def open_string_def string_content_def Let_def)

lemma stepped_good:
  assumes step: "stepped t k t'" and well_formed: "well_formed t" and i: "index t < length (source t)" and p: "next_token t = None"
    and g: "good e t"
  shows "lost t' \<or> (case k of None \<Rightarrow> good e t'
    | Some x \<Rightarrow> e \<le> first_of x \<and> first_of x \<le> end_of x \<and> good (end_of x) t')"
  using step
proof cases
  case opens
  with g p show ?thesis by (auto simp: good_def open_string_def pending_in_def Let_def)
next
  case (closes tr trs a rest)
  with g p well_formed show ?thesis by (auto simp: good_def pending_in_def well_formed_def)
next
  case (starts tr trs a rest)
  show ?thesis
  proof (cases "length (string_stack t) = length (interpolation_stack t)")
    case True
    with starts show ?thesis by (simp add: lost_def)
  next
    case False
    with starts g p well_formed show ?thesis by (auto simp: good_def pending_in_def well_formed_def)
  qed
next
  case (ends a rest j "is" ds)
  with g p show ?thesis by (auto simp: good_def pending_in_def)
next
  case content
  with g p show ?thesis by (auto simp: good_def pending_in_def string_content_def Let_def)
next
  case code
  with g have "length (string_stack t) = length (interpolation_stack t)" by (auto simp: good_def)
  with g p char_step_frame [OF code(2) well_formed i] char_step_gt [OF code(2) i] char_step_span [OF _ i p, of _ t']
    char_step_pending [of t t'] code(2)
  show ?thesis by (cases k) (fastforce simp: good_def pending_in_def)+
next
  case (paren d ds)
  let ?u = "t\<lparr>interpolation_paren_depth := d # ds\<rparr>"
  have u: "well_formed ?u" using well_formedD(2) [OF well_formed] paren(4) by (intro wf_advance [OF well_formed]) (use well_formed in \<open>simp_all add: well_formed_def\<close>)
  have i': "index ?u < length (source ?u)" and p': "next_token ?u = None" using i p by auto
  with g p paren(2) char_step_frame [OF paren(5) u i'] char_step_gt [OF paren(5) i'] char_step_span [OF _ i' p', of _ t']
    char_step_pending [of ?u t'] paren(5)
  show ?thesis by (cases k) (fastforce simp: good_def pending_in_def)+
qed

lemma lexing_good:
  "lexing s ts t \<Longrightarrow> lost t \<or> in_order 0 ts \<and> good (last_end 0 ts) t"
proof (induction rule: lexing.induct)
  case start
  show ?case by (simp add: good_def pending_in_def from_source_def)
next
  case (take_pending ts t k)
  then show ?case by (auto simp: good_def pending_in_def lost_def)
next
  case (emit ts t k t')
  note src = lexing_source [OF emit(1)] and well_formed = lexing_wf [OF emit(1)]
  have i: "index t < length (source t)" using src emit(2) by simp
  from emit(5) stepped_lost [OF emit(4) well_formed i] stepped_good [OF emit(4) well_formed i emit(3)] show ?case by auto
next
  case (skip ts t t')
  note src = lexing_source [OF skip(1)] and well_formed = lexing_wf [OF skip(1)]
  have i: "index t < length (source t)" using src skip(2) by simp
  from skip(5) stepped_lost [OF skip(4) well_formed i] stepped_good [OF skip(4) well_formed i skip(3)] show ?case by auto
qed

lemma last_end_le: "good e t \<Longrightarrow> e \<le> index t" by (simp add: good_def)

lemma finish_lost: "finish t = Some t' \<Longrightarrow> lost t \<Longrightarrow> interpolation_stack t' \<noteq> []"
  by (cases "interpolation_stack t"; cases "string_stack t")
    (auto simp: finish_def report_interpolation_def report_string_def lost_def Let_def bind_eq_Some_conv)

text \<open>
  C30. Where every interpolation is closed, the tokens are in source order and do not overlap:
  each begins where the one before ends or later, and the last ends within the source.
\<close>

theorem tokens_in_order:
  assumes "tokenize s = Some (ts, t)" and "interpolation_stack t = []"
  shows "in_order 0 ts \<and> last_end 0 ts \<le> length s"
proof -
  obtain t0 where l: "lexing s ts t0" and e: "ends t0 t" using tokenize_lexing [OF assms(1)] by auto
  have "\<not> lost t0"
  proof
    assume "lost t0"
    with e assms(2) show False by (auto simp: ends_def lost_def dest: finish_lost)
  qed
  with lexing_good [OF l] lexing_source [OF l] show ?thesis by (auto dest: last_end_le)
qed

definition nested_example :: string where
  "nested_example = CHR 0x22 # ''a$(b '' @ CHR 0x22 # ''c'' @ CHR 0x22 # '')d'' @ [CHR 0x22]"

lemma nested_example_tokens:
  "map_option fst (tokenize nested_example) =
     Some [Lit StringLiteral 1 2, Lit InterpolationStart 3 4, Lit Identifier 4 5,
       Lit StringLiteral 7 8, Lit InterpolationEnd 9 10, Lit StringLiteral 10 11]"
  by code_simp

lemma nested_example_closed: "map_option (interpolation_stack \<circ> snd) (tokenize nested_example) = Some []"
  by code_simp

theorem tokens_in_order_witness:
  "\<exists>ts t. tokenize nested_example = Some (ts, t) \<and> length ts = 6 \<and> in_order 0 ts"
proof -
  obtain ts t where t: "tokenize nested_example = Some (ts, t)" using nested_example_tokens by auto
  with nested_example_closed nested_example_tokens have "interpolation_stack t = []" "length ts = 6" by auto
  from tokens_in_order [OF t this(1)] this(2) t show ?thesis by blast
qed

text \<open>
  A \<open>$(\<close> in the code of an interpolation is taken for the start of another one, and the text
  from the start of the string is emitted again: the tokens overlap.
\<close>

definition dollar_example :: string where
  "dollar_example = CHR 0x22 # ''a$($(b) c'' @ [CHR 0x22]"

lemma tokens_overlap: "map_option (in_order 0 \<circ> fst) (tokenize dollar_example) = Some False"
  by code_simp

text \<open>An interpolation the input ends in is reported after a blank, and not after a token.\<close>

lemma unclosed_silent:
  "map_option (errors \<circ> snd) (tokenize (CHR 0x22 # ''$(b'')) = Some []"
  "map_option (map err_kind \<circ> errors \<circ> snd) (tokenize (CHR 0x22 # ''$(b '')) = Some [UnclosedInterpolation, UnclosedString]"
  by code_simp+

text \<open>A comment that is not UTF-8 stops the compiler.\<close>

lemma comment_panics: "tokenize [CHR ''#'', CHR 0xFF] = None"
  by code_simp

section \<open>Lexemes\<close>

lemma slice_step: "a < b \<Longrightarrow> b \<le> length s \<Longrightarrow> slice s a b = s ! a # slice s (a + 1) b"
  by (simp add: slice_def take_Cons' Cons_nth_drop_Suc [symmetric])

lemma slice_nil [simp]: "slice s a a = []"
  by (simp add: slice_def)

lemma slice_shorts:
  "i < length s \<Longrightarrow> slice s i (Suc i) = [s ! i]"
  "Suc i < length s \<Longrightarrow> slice s i (Suc (Suc i)) = [s ! i, s ! Suc i]"
  "Suc (Suc i) < length s \<Longrightarrow> slice s i (Suc (Suc (Suc i))) = [s ! i, s ! Suc i, s ! Suc (Suc i)]"
  "Suc 0 < length s \<Longrightarrow> slice s 0 (Suc 0) = [s ! 0]"
  by (simp_all add: slice_step)

lemma slice_all:
  assumes "\<And>j. a \<le> j \<Longrightarrow> j < b \<Longrightarrow> p (s ! j)" and "b \<le> length s" and "c \<in> set (slice s a b)"
  shows "p c"
proof -
  from assms(3) obtain j where "j < length (slice s a b)" "c = slice s a b ! j" by (metis in_set_conv_nth)
  with assms(2) have "j < b - a" "c = s ! (a + j)" by (auto simp: slice_def)
  with assms(1) [of "a + j"] show ?thesis by simp
qed

lemma scan_slice: "i \<le> length s \<Longrightarrow> c \<in> set (slice s i (scan_while p s i)) \<Longrightarrow> p c"
  by (rule slice_all) (auto intro: scan_while_all scan_while_le)

text \<open>
  What the bytes of a span must be. Words and symbols are compared with the texts the
  diagnostics show for them (\<open>Display\<close>), where a keyword stands between backquotes and a symbol
  between quotes.
\<close>

definition word_spelt :: "keyword \<Rightarrow> string \<Rightarrow> bool" where
  "word_spelt w v \<longleftrightarrow> display_word w \<in> {keyword_named v, ''`'' @ v @ ''`'', quoted v}"

definition symbol_spelt :: "symbol \<Rightarrow> string \<Rightarrow> bool" where
  "symbol_spelt k v \<longleftrightarrow> display_symbol k \<in> {quoted v, quoted v @ '' (prefix)''}"

definition stops :: "(byte \<Rightarrow> bool) \<Rightarrow> string \<Rightarrow> nat \<Rightarrow> bool" where
  "stops p s b \<longleftrightarrow> (b < length s \<longrightarrow> \<not> p (s ! b))"

definition radix_text :: "byte list \<Rightarrow> (byte \<Rightarrow> bool) \<Rightarrow> string \<Rightarrow> bool" where
  "radix_text ms digit v \<longleftrightarrow>
     (\<exists>m ds. v = CHR ''0'' # m # ds \<and> m \<in> set ms \<and> (\<forall>c \<in> set ds. digit c))"

text \<open>
  A portion of a string begins after the opening quote (three for a block string) or after the parenthesis that
  closes an interpolation. It ends at the closing quote, before which an ordinary string has
  an even run of backslashes, or at the \<open>$(\<close> of an interpolation, again not escaped.
\<close>

definition escaped_at :: "string \<Rightarrow> nat \<Rightarrow> bool" where
  "escaped_at s j \<longleftrightarrow> odd (length (takeWhile (\<lambda>c. c = CHR 0x5C) (rev (take j s))))"

definition triple_at :: "string \<Rightarrow> nat \<Rightarrow> bool" where
  "triple_at s j \<longleftrightarrow> take 3 (drop j s) = [CHR 0x22, CHR 0x22, CHR 0x22]"

definition portion_begin :: "bool \<Rightarrow> string \<Rightarrow> nat \<Rightarrow> bool" where
  "portion_begin triple s a \<longleftrightarrow> 0 < a \<and> s ! (a - 1) = CHR '')''
     \<or> (if triple then 3 \<le> a \<and> triple_at s (a - 3) else 0 < a \<and> s ! (a - 1) = CHR 0x22 \<and> \<not> triple_at s (a - 1))"

definition portion_end :: "bool \<Rightarrow> string \<Rightarrow> nat \<Rightarrow> bool" where
  "portion_end triple s b \<longleftrightarrow> take 2 (drop b s) = ''$('' \<and> \<not> escaped_at s b
     \<or> (if triple then triple_at s b else b < length s \<and> s ! b = CHR 0x22 \<and> \<not> escaped_at s b)"

fun text_ok :: "text_kind \<Rightarrow> string \<Rightarrow> nat \<Rightarrow> nat \<Rightarrow> string \<Rightarrow> bool" where
  "text_ok Identifier s a b v \<longleftrightarrow>
     v \<noteq> [] \<and> is_identifier_start_char (hd v) \<and> (\<forall>c \<in> set v. is_identifier_char c)
     \<and> stops is_identifier_char s b \<and> (\<forall>w. \<not> word_spelt w v)"
| "text_ok DecimalDigits s a b v \<longleftrightarrow> v \<noteq> [] \<and> (\<forall>c \<in> set v. is_digit c) \<and> stops is_identifier_char s b"
| "text_ok BinaryDigits s a b v \<longleftrightarrow> radix_text ''bB'' binary_digit v \<and> stops is_identifier_char s b"
| "text_ok HexDigits s a b v \<longleftrightarrow> radix_text ''xX'' is_ascii_hexdigit v \<and> stops is_identifier_char s b"
| "text_ok OctalDigits s a b v \<longleftrightarrow> radix_text ''oO'' octal_digit v \<and> stops is_identifier_char s b"
| "text_ok DurationLiteral s a b v \<longleftrightarrow>
     v \<noteq> [] \<and> is_digit (hd v) \<and> (\<forall>c \<in> set v. is_ascii_digit c \<or> is_ascii_alphabetic c)"
| "text_ok Comment s a b v \<longleftrightarrow>
     v \<noteq> [] \<and> hd v = CHR ''#'' \<and> (\<forall>c \<in> set v. c \<noteq> CHR 0x0A) \<and> stops not_newline s b"
| "text_ok LineBreak s a b v \<longleftrightarrow> v = [CHR 0x0A]"
| "text_ok Indent s a b v \<longleftrightarrow>
     0 < a \<and> s ! (a - 1) = CHR 0x0A \<and> (\<forall>c \<in> set v. is_indentation_char c) \<and> stops is_indentation_char s b"
| "text_ok Outdent s a b v \<longleftrightarrow>
     0 < a \<and> s ! (a - 1) = CHR 0x0A \<and> (\<forall>c \<in> set v. is_indentation_char c) \<and> stops is_indentation_char s b"
| "text_ok InterpolationStart s a b v \<longleftrightarrow> v = ''('' \<and> 0 < a \<and> s ! (a - 1) = CHR ''$''"
| "text_ok InterpolationEnd s a b v \<longleftrightarrow> v = '')''"
| "text_ok StringLiteral s a b v \<longleftrightarrow> portion_begin False s a \<and> portion_end False s b"
| "text_ok TripleStringLiteral s a b v \<longleftrightarrow> portion_begin True s a \<and> portion_end True s b"
| "text_ok BytesLiteral s a b v \<longleftrightarrow>
     0 < a \<and> s ! (a - 1) = CHR 0x27 \<and> (b < length s \<longrightarrow> s ! b = CHR 0x27)"
| "text_ok Path s a b v \<longleftrightarrow> False"
| "text_ok LineBreakWithIndentIncrease s a b v \<longleftrightarrow> False"
| "text_ok LineBreakWithIndentDecrease s a b v \<longleftrightarrow> False"

fun lexeme_ok :: "string \<Rightarrow> token \<Rightarrow> bool" where
  "lexeme_ok s (Word w a b) \<longleftrightarrow> word_spelt w (slice s a b)"
| "lexeme_ok s (Sym k a b) \<longleftrightarrow> symbol_spelt k (slice s a b)"
| "lexeme_ok s (Lit l a b) \<longleftrightarrow> text_ok l s a b (slice s a b)"
| "lexeme_ok s (Unexpected c a b) \<longleftrightarrow> slice s a b = [c]"

text \<open>A portion that is whole reaches from its begin to the first place where a portion ends.\<close>

fun portion_whole :: "string \<Rightarrow> token \<Rightarrow> bool" where
  "portion_whole s (Lit StringLiteral a b) \<longleftrightarrow> a \<le> b \<and> (\<forall>j \<in> {a..<b}. \<not> portion_end False s j)"
| "portion_whole s (Lit TripleStringLiteral a b) \<longleftrightarrow> a \<le> b \<and> (\<forall>j \<in> {a..<b}. \<not> portion_end True s j)"
| "portion_whole s k \<longleftrightarrow> True"

lemma backslashes_run: "i \<le> length s \<Longrightarrow> backslashes s i = length (takeWhile (\<lambda>c. c = CHR 0x5C) (rev (take i s)))"
proof (induction i)
  case (Suc i)
  then show ?case by (simp add: take_Suc_conv_app_nth)
qed simp

lemma is_escaped_at: "i \<le> length s \<Longrightarrow> is_escaped s i = escaped_at s i"
  by (simp add: is_escaped_def escaped_at_def backslashes_run odd_iff_mod_2_eq_one)

lemma triple_quote_at: "is_triple_quote s i = triple_at s i"
proof (cases "i + 2 < length s")
  case True
  then have "take 3 (drop i s) = [s ! i, s ! (i + 1), s ! (i + 2)]"
    by (simp add: numeral_3_eq_3 take_Suc_conv_app_nth nth_append)
  with True show ?thesis by (simp add: is_triple_quote_def triple_at_def)
next
  case False
  then have "length (take 3 (drop i s)) < 3" by simp
  then have "take 3 (drop i s) \<noteq> [CHR 0x22, CHR 0x22, CHR 0x22]" by force
  with False show ?thesis by (simp add: is_triple_quote_def triple_at_def)
qed

lemma opens_at: "i < length s \<Longrightarrow> take 2 (drop i s) = ''$('' \<longleftrightarrow> s ! i = CHR ''$'' \<and> i + 1 < length s \<and> s ! (i + 1) = CHR ''(''"
proof (cases "i + 1 < length s")
  case True
  then have "take 2 (drop i s) = [s ! i, s ! (i + 1)]" by (simp add: numeral_2_eq_2 take_Suc_conv_app_nth nth_append)
  with True show ?thesis by simp
next
  case False
  then have "length (take 2 (drop i s)) < 2" by simp
  then have "take 2 (drop i s) \<noteq> ''$(''" by force
  with False show ?thesis by simp
qed

lemma portion_end_step:
  assumes "index t < length (source t)"
  shows "portion_end tr (source t) (index t) \<longleftrightarrow> starts_interpolation t \<or> here t = CHR 0x22 \<and> string_closes t tr"
  using assms is_escaped_at [of "index t" "source t"] triple_quote_at [of "source t" "index t"] opens_at [OF assms]
  unfolding portion_end_def starts_interpolation_def string_closes_def
  by (auto simp: is_escaped_def is_triple_quote_def)

lemma word_spelt_simps [simp]:
  "word_spelt w v \<longleftrightarrow> display_word w = keyword_named v \<or> display_word w = ''`'' @ v @ ''`'' \<or> display_word w = quoted v"
  by (auto simp: word_spelt_def)

lemma word_table: "map_of keyword_table v = Some w \<Longrightarrow> word_spelt w v"
  unfolding keyword_table_def by (auto split: if_splits)

lemma word_table_None: "map_of keyword_table v = None \<Longrightarrow> \<not> word_spelt w v"
  unfolding keyword_table_def
  by (cases w) (auto simp: keyword_named_def quoted_def split: if_splits dest: sym)

lemma symbol_table:
  "symbol_at s i (s ! i) = Some (k, n) \<Longrightarrow> i < length s \<Longrightarrow> symbol_spelt k (slice s i (i + n))"
  unfolding symbol_at_def single_symbols_def double_symbols_def
  by (auto simp: one_or_two_def minus_symbol_def dot_symbol_def right_angle_symbol_def peek_byte_def
      symbol_spelt_def slice_shorts numeral_2_eq_2 numeral_3_eq_3 split: if_splits option.splits)

lemma radix_lexeme:
  assumes "s ! i = CHR ''0''" and "i + 1 < length s" and "s ! (i + 1) \<in> set ms"
    and "e = scan_while (\<lambda>b. is_identifier_char b \<and> digit b) s (i + 2)"
  shows "radix_text ms digit (slice s i e)"
proof -
  let ?p = "\<lambda>b. is_identifier_char b \<and> digit b"
  have le: "i + 2 \<le> e" "e \<le> length s" using scan_while_ge scan_while_le assms(2,4) by auto
  then have "slice s i e = s ! i # s ! Suc i # slice s (Suc (Suc i)) e" by (simp add: slice_step)
  moreover have "digit c" if "c \<in> set (slice s (Suc (Suc i)) e)" for c
    using scan_slice [of "Suc (Suc i)" s c ?p] assms(2,4) that by simp
  ultimately show ?thesis using assms(1,3) by (simp add: radix_text_def)
qed

lemma number_lexeme:
  assumes "number_end t k e" and "is_digit (here t)" and "index t < length (source t)"
    and "stops is_identifier_char (source t) e"
  shows "text_ok k (source t) (index t) e (slice (source t) (index t) e)"
  using assms
proof cases
  case (radix digit c)
  have rt: "radix_text ms digit (slice (source t) (index t) e)" if "c \<in> set ms" for ms
    by (rule radix_lexeme [OF radix(1,2) _ radix(3)]) (use that radix(4) in simp)
  from radix(5) consider
      "c \<in> set ''bB''" "digit = binary_digit" "k = BinaryDigits"
    | "c \<in> set ''xX''" "digit = is_ascii_hexdigit" "k = HexDigits"
    | "c \<in> set ''oO''" "digit = octal_digit" "k = OctalDigits" by auto
  then show ?thesis using rt assms(4) by cases simp_all
next
  case decimal
  have "is_digit c" if "c \<in> set (slice (source t) (index t) e)" for c
    using scan_slice [of "index t" "source t" c is_ascii_digit] that decimal(2) assms(3)
    by (simp add: is_digit_def is_ascii_digit_def)
  with decimal slice_step [of "index t" e] number_end_gt [OF assms(1-3)] assms(4) show ?thesis by simp
qed

inductive_cases decimal_end: "number_end t DecimalDigits e"

lemma word_lexeme:
  assumes "is_identifier_start_char (s ! i)" and "i < length s" and "e = scan_while is_identifier_char s i"
  shows "lexeme_ok s (word_token (slice s i e) i e)"
proof -
  have c: "is_identifier_char (s ! i)" using assms(1) by (simp add: is_identifier_start_char_def split: if_splits)
  have "i < e" "e \<le> length s" using scan_while_gt [OF assms(2), of is_identifier_char] c scan_while_le assms by auto
  then have "slice s i e = s ! i # slice s (i + 1) e" by (rule slice_step)
  moreover have "is_identifier_char x" if "x \<in> set (slice s i e)" for x
    using scan_slice [of i s x is_identifier_char] that assms(2,3) by simp
  moreover have "stops is_identifier_char s e" using scan_while_stop assms(3) by (auto simp: stops_def)
  ultimately show ?thesis
    using assms(1) word_table [of "slice s i e"] word_table_None [of "slice s i e"]
    by (auto simp: word_token_def split: option.split)
qed

lemma comment_lexeme:
  assumes "s ! i = CHR ''#''" and "i < length s" and "e = scan_while not_newline s i"
  shows "text_ok Comment s i e (slice s i e)"
proof -
  have "not_newline (s ! i)" using assms(1) by (simp add: not_newline_def)
  then have "i < e" "e \<le> length s" using scan_while_gt [OF assms(2), of not_newline] scan_while_le assms by auto
  then have "slice s i e = s ! i # slice s (i + 1) e" by (rule slice_step)
  moreover have "not_newline x" if "x \<in> set (slice s i e)" for x
    using scan_slice [of i s x not_newline] that assms(2,3) by simp
  moreover have "stops not_newline s e" using scan_while_stop assms(3) by (auto simp: stops_def)
  ultimately show ?thesis using assms(1) by (auto simp: not_newline_def)
qed

lemma duration_lexeme:
  assumes "number_end t DecimalDigits i" and "is_digit (here t)" and "index t < length (source t)"
    and "e = scan_while (\<lambda>b. is_ascii_digit b \<or> is_ascii_alphabetic b) (source t) i"
  shows "text_ok DurationLiteral (source t) (index t) e (slice (source t) (index t) e)"
proof -
  let ?p = "\<lambda>b. is_ascii_digit b \<or> is_ascii_alphabetic b"
  have i: "i = scan_while is_ascii_digit (source t) (index t)" using assms(1) by (rule decimal_end)
  have gt: "index t < i" "i \<le> length (source t)" using number_end_gt [OF assms(1-3)] by auto
  have e: "i \<le> e" "e \<le> length (source t)" using scan_while_ge scan_while_le gt(2) assms(4) by auto
  have "?p (source t ! j)" if "index t \<le> j" "j < e" for j
    using scan_while_all [OF that(1), of is_ascii_digit "source t"] scan_while_all [of i j ?p "source t"]
      that i assms(4) by (cases "j < i") auto
  then have "?p c" if "c \<in> set (slice (source t) (index t) e)" for c
    by (rule slice_all [OF _ e(2) that])
  moreover have "slice (source t) (index t) e = here t # slice (source t) (index t + 1) e"
    using gt e by (intro slice_step) auto
  ultimately show ?thesis using assms(2) by auto
qed

lemma indent_lexeme:
  assumes "s ! i = CHR 0x0A" and "i < length s" and "e = scan_while is_indentation_char s (i + 1)"
  shows "text_ok Indent s (i + 1) e (slice s (i + 1) e)"
proof -
  have "is_indentation_char x" if "x \<in> set (slice s (i + 1) e)" for x
    using scan_slice [of "i + 1" s x is_indentation_char] that assms(2,3) by simp
  moreover have "stops is_indentation_char s e" using scan_while_stop assms(3) by (auto simp: stops_def)
  ultimately show ?thesis using assms(1) by simp
qed

lemma char_step_lexeme:
  assumes step: "char_step t (Some k) t'" and i: "index t < length (source t)" and p: "next_token t = None"
    and path: "\<not> expect_import_path t"
  shows "lexeme_ok (source t) k \<and> (\<forall>x. next_token t' = Some x \<longrightarrow> lexeme_ok (source t) x)"
  using step
proof cases
  case (bytes e)
  with bytes_end_Some p show ?thesis by fastforce
next
  case (newline)
  note f = lex_newline_frame [OF newline(2)]
  have "slice (source t) (index t) (index t + 1) = [CHR 0x0A]" using slice_shorts(1) [OF i] newline(1) by simp
  then have "lexeme_ok (source t) k" using f(6) by simp
  moreover from f(11) p consider "next_token t' = None"
    | "next_token t' = Some (Lit Indent (index t + 1) (index t'))"
    | "next_token t' = Some (Lit Outdent (index t + 1) (index t'))" by auto
  then have "\<forall>x. next_token t' = Some x \<longrightarrow> lexeme_ok (source t) x"
    using indent_lexeme [OF newline(1) i f(10)] by cases simp_all
  ultimately show ?thesis by blast
next
  case (symbol y n)
  with symbol_table [OF symbol(3) i] p show ?thesis by simp
next
  case (comment e c)
  with comment_lexeme [OF comment(3) i comment(4)] p show ?thesis by simp
next
  case (word e)
  with word_lexeme [OF word(3) i word(4)] p show ?thesis by simp
next
  case (number l e)
  with number_lexeme [OF number(4,3) i] p show ?thesis by (simp add: stops_def)
next
  case (duration j e)
  with duration_lexeme [OF duration(4,3) i duration(7)] p show ?thesis by simp
next
  case (unexpected)
  with slice_shorts(1) [OF i] p show ?thesis by simp
qed (use path p in simp_all)

text \<open>The recorded begins of the open strings are begins of portions.\<close>

definition begun :: "tokenizer \<Rightarrow> bool" where
  "begun t \<longleftrightarrow> list_all2 (\<lambda>tr a. portion_begin tr (source t) a) (string_is_triple t) (string_stack t)"

lemma stepped_begun:
  assumes step: "stepped t k t'" and wf: "well_formed t" and i: "index t < length (source t)" and b: "begun t"
  shows "begun t'"
  using step
proof cases
  case opens
  with b show ?thesis by (auto simp: begun_def open_string_def Let_def portion_begin_def triple_quote_at)
next
  case (ends a rest j "is" ds)
  with b show ?thesis by (cases "string_is_triple t") (auto simp: begun_def portion_begin_def)
next
  case content
  with b show ?thesis by (simp add: begun_def string_content_def Let_def)
next
  case code
  with b char_step_frame [OF code(2) wf i] char_step_gt [OF code(2) i] show ?thesis by (simp add: begun_def)
next
  case (paren d ds)
  let ?u = "t\<lparr>interpolation_paren_depth := d # ds\<rparr>"
  have u: "well_formed ?u" using wf paren(4) by (simp add: well_formed_def)
  have i': "index ?u < length (source ?u)" using i by simp
  with b char_step_frame [OF paren(5) u i'] char_step_gt [OF paren(5) i'] show ?thesis by (simp add: begun_def)
qed (use b in \<open>auto simp: begun_def\<close>)

lemma lexing_begun: "lexing s ts t \<Longrightarrow> begun t"
proof (induction rule: lexing.induct)
  case (emit ts t k t')
  with stepped_begun [OF emit(4) lexing_wf [OF emit(1)]] lexing_source [OF emit(1)] show ?case by simp
next
  case (skip ts t t')
  with stepped_begun [OF skip(4) lexing_wf [OF skip(1)]] lexing_source [OF skip(1)] show ?case by simp
qed (auto simp: begun_def from_source_def)

lemma stepped_lexeme:
  assumes step: "stepped t (Some k) t'" and wf: "well_formed t" and i: "index t < length (source t)"
    and p: "next_token t = None" and b: "begun t"
  shows "lexeme_ok (source t) k \<and> (\<forall>x. next_token t' = Some x \<longrightarrow> lexeme_ok (source t) x)"
  using step
proof cases
  case (closes tr trs a rest)
  with i p b portion_end_step [OF i, of tr] show ?thesis by (auto simp: string_token_def begun_def)
next
  case (starts tr trs a rest)
  then have "slice (source t) (index t + 1) (index t + 2) = ''(''" "here t = CHR ''$''"
    using slice_shorts(1) [of "Suc (index t)" "source t"] by (auto simp: starts_interpolation_def)
  with starts i p b portion_end_step [OF i, of tr] show ?thesis by (auto simp: string_token_def begun_def)
next
  case (ends a rest j "is" ds)
  with p slice_shorts(1) [OF i] show ?thesis by simp
next
  case code
  with char_step_lexeme i p wf show ?thesis by (simp add: well_formed_def)
next
  case (paren d ds)
  with char_step_lexeme [OF paren(5)] i p wf show ?thesis by (simp add: well_formed_def)
qed

lemma lexing_lexemes:
  "lexing s ts t \<Longrightarrow> (\<forall>k \<in> set ts. lexeme_ok s k) \<and> (\<forall>x. next_token t = Some x \<longrightarrow> lexeme_ok s x)"
proof (induction rule: lexing.induct)
  case (emit ts t k t')
  note src = lexing_source [OF emit(1)]
  with stepped_lexeme [OF emit(4) lexing_wf [OF emit(1)] _ emit(3) lexing_begun [OF emit(1)]] emit(2,5) show ?case by auto
next
  case (skip ts t t')
  with stepped_pending [OF skip(4)] show ?case by simp
qed (auto simp: from_source_def)

text \<open>While no interpolation is lost, no portion has ended between the begin of an open one and the index.\<close>

definition content_clean :: "tokenizer \<Rightarrow> bool" where
  "content_clean t \<longleftrightarrow> (length (string_stack t) = Suc (length (interpolation_stack t)) \<longrightarrow>
     (\<forall>j \<in> {hd (string_stack t)..<index t}. \<not> portion_end (hd (string_is_triple t)) (source t) j))"

lemma char_step_whole:
  assumes step: "char_step t k t'" and p: "next_token t = None"
  shows "(\<forall>x. k = Some x \<longrightarrow> portion_whole s x) \<and> (\<forall>x. next_token t' = Some x \<longrightarrow> portion_whole s x)"
  using step
proof cases
  case (newline)
  with lex_newline_frame [OF newline(3)] p show ?thesis by auto
next
  case (word e)
  with p show ?thesis by (simp add: word_token_def split: option.split)
next
  case (number l e)
  with p show ?thesis by (auto elim: number_end.cases)
qed (use p in auto)

lemma content_clean_step:
  assumes "stepped t k t'" and "well_formed t" and "index t < length (source t)" and "next_token t = None"
    and "good e t" and "content_clean t"
  shows "lost t' \<or> content_clean t' \<and> (\<forall>x. k = Some x \<longrightarrow> portion_whole (source t) x)
    \<and> (\<forall>x. next_token t' = Some x \<longrightarrow> portion_whole (source t) x)"
  using assms(1)
proof cases
  case opens
  with assms(4) show ?thesis by (auto simp: content_clean_def open_string_def Let_def)
next
  case (closes tr trs a rest)
  with assms(2,4-6) show ?thesis
    by (auto simp: content_clean_def good_def string_token_def well_formed_def)
next
  case (starts tr trs a rest)
  show ?thesis
  proof (cases "length (string_stack t) = length (interpolation_stack t)")
    case True
    with starts show ?thesis by (simp add: lost_def)
  next
    case False
    with starts assms(2,4-6) show ?thesis by (auto simp: content_clean_def good_def string_token_def well_formed_def)
  qed
next
  case (ends a rest j "is" ds)
  with assms(4) show ?thesis by (auto simp: content_clean_def)
next
  case (content tr trs)
  with assms(4,6) portion_end_step [OF assms(3), of tr] show ?thesis
    by (auto simp: content_clean_def string_content_def Let_def less_Suc_eq)
next
  case code
  with char_step_whole [OF code(2) assms(4)] char_step_frame [OF code(2) assms(2,3)] show ?thesis by (auto simp: content_clean_def)
next
  case (paren d ds)
  let ?u = "t\<lparr>interpolation_paren_depth := d # ds\<rparr>"
  have u: "well_formed ?u" using assms(2) paren(4) by (simp add: well_formed_def)
  have i': "index ?u < length (source ?u)" "next_token ?u = None" using assms(3,4) by simp_all
  with paren(2) char_step_whole [OF paren(5) i'(2)] char_step_frame [OF paren(5) u i'(1)] show ?thesis
    by (simp add: content_clean_def)
qed

lemma lexing_whole:
  "lexing s ts t \<Longrightarrow> lost t \<or> content_clean t \<and> (\<forall>k \<in> set ts. portion_whole s k) \<and> (\<forall>x. next_token t = Some x \<longrightarrow> portion_whole s x)"
proof (induction rule: lexing.induct)
  case (emit ts t k t')
  note src = lexing_source [OF emit(1)] and wf = lexing_wf [OF emit(1)]
  have i: "index t < length (source t)" using src emit(2) by simp
  from lexing_good [OF emit(1)] emit(5) stepped_lost [OF emit(4) wf i] content_clean_step [OF emit(4) wf i emit(3)] src
  show ?case by fastforce
next
  case (skip ts t t')
  note src = lexing_source [OF skip(1)] and wf = lexing_wf [OF skip(1)]
  have i: "index t < length (source t)" using src skip(2) by simp
  from lexing_good [OF skip(1)] skip(5) stepped_lost [OF skip(4) wf i] content_clean_step [OF skip(4) wf i skip(3)] src
  show ?case by fastforce
qed (auto simp: content_clean_def from_source_def lost_def)



end
