(* ===== verification/TokenizerLines.thy ===== *)
theory TokenizerLines
  imports TokenizerCorrect
begin

text \<open>
  The running line cursor of the tokenizer (\<open>line\<close>, \<open>line_start_offset\<close>) against the scan from
  the beginning that the error paths use (\<open>line_and_start_of\<close>), and the index of comments by line.
\<close>

section \<open>The scan\<close>

lemma line_scan_append:
  "line_scan (xs @ ys) i ln ls = (case line_scan xs i ln ls of (l, k) \<Rightarrow> line_scan ys (i + length xs) l k)"
  by (induction xs arbitrary: i ln ls) auto

lemma line_scan_flat: "CHR 0x0A \<notin> set ys \<Longrightarrow> line_scan ys i ln ls = (ln, ls)"
  by (induction ys arbitrary: i) auto

definition cursor :: "string \<Rightarrow> nat \<Rightarrow> nat \<times> nat" where
  "cursor s i = line_scan (take i s) 0 0 0"

lemma take_slice: "i \<le> j \<Longrightarrow> j \<le> length s \<Longrightarrow> take j s = take i s @ slice s i j"
  by (simp add: slice_def take_add [symmetric])

lemma cursor_0 [simp]: "cursor s 0 = (0, 0)"
  by (simp add: cursor_def)

lemma cursor_flat:
  assumes "i \<le> j" and "j \<le> length s" and "CHR 0x0A \<notin> set (slice s i j)"
  shows "cursor s j = cursor s i"
  using assms line_scan_append [of "take i s" "slice s i j"] line_scan_flat
  by (simp add: cursor_def take_slice [OF assms(1,2)] split: prod.split)

lemma cursor_Suc:
  assumes "i < length s"
  shows "cursor s (Suc i) = (if s ! i = CHR 0x0A then (fst (cursor s i) + 1, Suc i) else cursor s i)"
  using assms by (simp add: cursor_def take_Suc_conv_app_nth line_scan_append split: prod.split)

text \<open>The line number counts the line breaks before a position, and grows with it.\<close>

lemma cursor_mono: "i \<le> j \<Longrightarrow> fst (cursor s i) \<le> fst (cursor s j)"
proof (induction j)
  case (Suc j)
  show ?case
  proof (cases "i = Suc j")
    case False
    with Suc have "fst (cursor s i) \<le> fst (cursor s j)" by simp
    also have "\<dots> \<le> fst (cursor s (Suc j))"
    proof (cases "j < length s")
      case False
      then show ?thesis by (simp add: cursor_def)
    qed (simp add: cursor_Suc)
    finally show ?thesis .
  qed simp
qed simp

definition accurate :: "tokenizer \<Rightarrow> bool" where
  "accurate t \<longleftrightarrow> cursor (source t) (index t) = (line t, line_start_offset t)"

text \<open>A bytes literal that holds no line break.\<close>

fun one_line :: "string \<Rightarrow> token \<Rightarrow> bool" where
  "one_line s (Lit BytesLiteral a b) \<longleftrightarrow> CHR 0x0A \<notin> set (slice s a b)"
| "one_line s k \<longleftrightarrow> True"

lemma flat_step:
  assumes "accurate t" and "index t \<le> index t'" and "index t' \<le> length (source t)" and "source t' = source t"
    and "line t' = line t" and "line_start_offset t' = line_start_offset t"
    and "\<And>j. index t \<le> j \<Longrightarrow> j < index t' \<Longrightarrow> source t ! j \<noteq> CHR 0x0A"
  shows "accurate t'"
proof -
  have "CHR 0x0A \<notin> set (slice (source t) (index t) (index t'))"
    using slice_all [of "index t" "index t'" "\<lambda>c. c \<noteq> CHR 0x0A" "source t"] assms(3,7) by blast
  with cursor_flat [OF assms(2,3)] assms show ?thesis by (simp add: accurate_def)
qed

lemma scan_flat:
  assumes "\<And>c. p c \<Longrightarrow> c \<noteq> CHR 0x0A" and "i \<le> j" and "j < scan_while p s i"
  shows "s ! j \<noteq> CHR 0x0A"
  using scan_while_all [OF assms(2,3)] assms(1) by blast

lemma classes_flat:
  "is_identifier_char c \<Longrightarrow> c \<noteq> CHR 0x0A" "is_ascii_digit c \<Longrightarrow> c \<noteq> CHR 0x0A"
  "is_ascii_digit c \<or> is_ascii_alphabetic c \<Longrightarrow> c \<noteq> CHR 0x0A" "not_whitespace c \<Longrightarrow> c \<noteq> CHR 0x0A"
  "not_newline c \<Longrightarrow> c \<noteq> CHR 0x0A" "is_path_char c \<Longrightarrow> c \<noteq> CHR 0x0A" "is_indentation_char c \<Longrightarrow> c \<noteq> CHR 0x0A"
  by (auto simp: is_identifier_char_def is_ascii_digit_def is_ascii_alphabetic_def not_whitespace_def
      is_ascii_whitespace_def not_newline_def is_path_char_def is_indentation_char_def)

lemma slice_nth: "a \<le> j \<Longrightarrow> j < b \<Longrightarrow> b \<le> length s \<Longrightarrow> s ! j \<in> set (slice s a b)"
proof -
  assume j: "a \<le> j" "j < b" "b \<le> length s"
  then have "slice s a b ! (j - a) = s ! j" "j - a < length (slice s a b)" by (auto simp: slice_def)
  then show ?thesis by (metis nth_mem)
qed

lemma symbol_flat:
  assumes "symbol_at s i (s ! i) = Some (k, n)" and "i < length s" and "i \<le> j" and "j < i + n"
  shows "s ! j \<noteq> CHR 0x0A"
proof -
  have "symbol_spelt k (slice s i (i + n))" by (rule symbol_table [OF assms(1,2)])
  then have "set (slice s i (i + n)) \<subseteq> set (display_symbol k)" by (auto simp: symbol_spelt_def quoted_def)
  moreover have "CHR 0x0A \<notin> set (display_symbol k)" by (cases k) (simp_all add: quoted_def)
  ultimately show ?thesis using slice_nth [OF assms(3,4) symbol_at_le [OF assms(1,2)]] by force
qed

lemma number_end_flat:
  assumes "number_end t k e" and "index t \<le> j" and "j < e"
  shows "source t ! j \<noteq> CHR 0x0A"
  using assms
proof cases
  case (radix digit c)
  have "c \<noteq> CHR 0x0A" using radix(5) by auto
  moreover have "j = index t \<or> j = index t + 1 \<or> index t + 2 \<le> j" using assms(2) by auto
  ultimately show ?thesis
    using radix(1,4) scan_while_all [of "index t + 2" j _ "source t"] assms(3) radix(3) classes_flat(1)
    by fastforce
next
  case decimal
  with scan_while_all [OF assms(2), of is_ascii_digit "source t"] assms(3) classes_flat(2) show ?thesis by blast
qed

lemma char_step_accurate:
  assumes step: "char_step t k t'" and acc: "accurate t" and i: "index t < length (source t)"
    and one: "\<And>x. k = Some x \<Longrightarrow> one_line (source t) x"
  shows "accurate t'"
proof -
  note gt = char_step_gt [OF step i]
  have flat: "accurate t'" if "line t' = line t" "line_start_offset t' = line_start_offset t"
    "\<And>j. index t \<le> j \<Longrightarrow> j < index t' \<Longrightarrow> source t ! j \<noteq> CHR 0x0A"
    by (rule flat_step [OF acc]) (use gt that in auto)
  show ?thesis using step
  proof cases
    case (bytes e)
    have e: "index t + 1 \<le> e" "e < length (source t)" "source t ! e = CHR 0x27"
      using bytes_end_Some [OF bytes(4)] by auto
    have "source t ! j \<noteq> CHR 0x0A" if "index t \<le> j" "j < e + 1" for j
      using one [OF bytes(1)] slice_nth [of "index t + 1" j e "source t"] bytes(3) e that
      by (cases "j = index t"; cases "j = e") auto
    with bytes(2) show ?thesis by (intro flat) auto
  next
    case (open_bytes e)
    have "source t ! j \<noteq> CHR 0x0A" if "index t \<le> j" "j < e" for j
      using one [OF open_bytes(1)] slice_nth [of "index t + 1" j e "source t"] open_bytes(3,5) that
      by (cases "j = index t") auto
    with open_bytes(2) show ?thesis by (intro flat) auto
  next
    case (path e)
    with scan_flat [where p = is_path_char, OF classes_flat(6)] show ?thesis by (intro flat) auto
  next
    case blank
    then show ?thesis by (intro flat) (auto simp: less_Suc_eq_le dest: le_antisym)
  next
    case (newline)
    note f = lex_newline_frame [OF newline(3)]
    have "index t + 1 \<le> index t'" "index t' \<le> length (source t)" using f(10) scan_while_ge gt by auto
    moreover have "CHR 0x0A \<notin> set (slice (source t) (index t + 1) (index t'))"
      using scan_slice [of "index t + 1" "source t" "CHR 0x0A" is_indentation_char] f(10) i
        classes_flat(7) [of "CHR 0x0A"] by auto
    ultimately have "cursor (source t) (index t') = cursor (source t) (Suc (index t))"
      using cursor_flat by simp
    with cursor_Suc [OF i] newline(2) acc f gt show ?thesis by (simp add: accurate_def)
  next
    case (symbol y n)
    with symbol_flat [OF symbol(3) i] show ?thesis by (intro flat) auto
  next
    case (comment e c)
    with scan_flat [where p = not_newline, OF classes_flat(5)] show ?thesis by (intro flat) auto
  next
    case (word e)
    with scan_flat [where p = is_identifier_char, OF classes_flat(1)] show ?thesis by (intro flat) auto
  next
    case (number l e)
    with number_end_flat show ?thesis by (intro flat) auto
  next
    case (duration a e)
    have "source t ! j \<noteq> CHR 0x0A" if "index t \<le> j" "j < e" for j
      using number_end_flat [OF duration(4) that(1)] scan_flat [where p = "\<lambda>b. is_ascii_digit b \<or> is_ascii_alphabetic b" and i = a and j = j, OF classes_flat(3)] that(2) duration(7)
      by (cases "j < a") auto
    with duration(2) show ?thesis by (intro flat) auto
  next
    case (bad l a e r err)
    have "source t ! j \<noteq> CHR 0x0A" if "index t \<le> j" "j < e" for j
      using number_end_flat [OF bad(4) that(1)] scan_flat [where p = not_whitespace and i = a and j = j, OF classes_flat(4)] that(2) bad(7)
      by (cases "j < a") auto
    with bad(2) show ?thesis by (intro flat) auto
  next
    case unexpected
    then show ?thesis by (intro flat) (auto simp: less_Suc_eq_le dest: le_antisym)
  qed
qed


lemma stepped_accurate:
  assumes step: "stepped t k t'" and acc: "accurate t" and i: "index t < length (source t)"
    and one: "\<And>x. k = Some x \<Longrightarrow> one_line (source t) x"
  shows "accurate t'"
proof -
  note gt = stepped_gt [OF step i]
  have flat: "accurate t'" if "line t' = line t" "line_start_offset t' = line_start_offset t"
    "\<And>j. index t \<le> j \<Longrightarrow> j < index t' \<Longrightarrow> source t ! j \<noteq> CHR 0x0A"
    by (rule flat_step [OF acc]) (use gt that in auto)
  have triple: "source t ! j \<noteq> CHR 0x0A"
    if "is_triple_quote (source t) (index t)" "index t \<le> j" "j < index t + 3" for j
  proof -
    have "j = index t \<or> j = index t + 1 \<or> j = index t + 2" using that by auto
    with that(1) show ?thesis by (auto simp: is_triple_quote_def)
  qed
  have single: "source t ! j \<noteq> CHR 0x0A" if "here t \<noteq> CHR 0x0A" "index t \<le> j" "j < Suc (index t)" for j
    using that by (cases "j = index t") auto
  show ?thesis using step
  proof cases
    case opens
    with triple single show ?thesis by (intro flat) (auto simp: open_string_def Let_def split: if_splits)
  next
    case (closes tr trs a rest)
    with triple single show ?thesis by (intro flat) (auto simp: string_closes_def split: if_splits)
  next
    case (starts tr trs a rest)
    have "source t ! j \<noteq> CHR 0x0A" if "index t \<le> j" "j < index t + 2" for j
    proof -
      have "j = index t \<or> j = index t + 1" using that by auto
      with starts(5) show ?thesis by (auto simp: starts_interpolation_def)
    qed
    with starts show ?thesis by (intro flat) auto
  next
    case (ends a rest b "is" ds)
    with single show ?thesis by (intro flat) auto
  next
    case content
    with acc cursor_Suc [OF i] show ?thesis by (simp add: accurate_def string_content_def Let_def)
  next
    case code
    with char_step_accurate acc i one show ?thesis by blast
  next
    case (paren d ds)
    let ?u = "t\<lparr>interpolation_paren_depth := d # ds\<rparr>"
    have "accurate ?u" "index ?u < length (source ?u)" using acc i by (simp_all add: accurate_def)
    with char_step_accurate [OF paren(5)] one show ?thesis by simp
  qed
qed


section \<open>Comments\<close>

definition is_comment :: "token \<Rightarrow> bool" where
  "is_comment k \<longleftrightarrow> (\<exists>a b. k = Lit Comment a b)"

text \<open>A turn either emits a comment and files it under the running line, or touches no comment.\<close>

lemma char_step_comment:
  assumes "char_step t k t'"
  shows "(here t = CHR ''#'' \<and> index t' = scan_while not_newline (source t) (index t)
        \<and> k = Some (Lit Comment (index t) (index t'))
        \<and> comments t' = (comments t)(line t \<mapsto> slice (source t) (index t + 1) (index t')) \<and> line t' = line t)
     \<or> (comments t' = comments t \<and> (\<forall>x. k = Some x \<longrightarrow> \<not> is_comment x))"
  using assms
proof cases
  case (newline)
  with lex_newline_frame [OF newline(3)] show ?thesis by (auto simp: is_comment_def)
next
  case (number l e)
  have "l \<noteq> Comment" using number(4) by (auto elim: number_end.cases)
  with number show ?thesis by (simp add: is_comment_def)
qed (auto simp: is_comment_def word_token_def split: option.split)

lemma stepped_comment:
  assumes "stepped t k t'"
  shows "(here t = CHR ''#'' \<and> index t' = scan_while not_newline (source t) (index t)
        \<and> k = Some (Lit Comment (index t) (index t'))
        \<and> comments t' = (comments t)(line t \<mapsto> slice (source t) (index t + 1) (index t')) \<and> line t' = line t)
     \<or> (comments t' = comments t \<and> (\<forall>x. k = Some x \<longrightarrow> \<not> is_comment x))"
  using assms
proof cases
  case code
  then show ?thesis using char_step_comment by blast
next
  case (paren d ds)
  with char_step_comment [OF paren(5)] show ?thesis by simp
qed (auto simp: open_string_def string_content_def is_comment_def string_token_def Let_def)

definition filed :: "string \<Rightarrow> token list \<Rightarrow> tokenizer \<Rightarrow> bool" where
  "filed s ts t \<longleftrightarrow>
     (\<forall>l c. comments t l = Some c \<longleftrightarrow>
        (\<exists>a b. Lit Comment a b \<in> set ts \<and> fst (cursor s a) = l \<and> c = slice s (a + 1) b))
     \<and> (\<forall>a b. Lit Comment a b \<in> set ts \<longrightarrow>
          fst (cursor s a) \<le> line t \<and> (fst (cursor s a) = line t \<longrightarrow> stops not_newline s (index t)))"

lemma filed_keep:
  assumes "filed s ts t" and "comments t' = comments t" and "\<And>a b. Lit Comment a b \<in> set ts' \<longleftrightarrow> Lit Comment a b \<in> set ts"
    and "accurate t" and "accurate t'" and "source t = s" and "source t' = s"
    and "index t < index t'" and "index t < length s"
  shows "filed s ts' t'"
proof -
  have line: "line t = fst (cursor s (index t))" "line t' = fst (cursor s (index t'))"
    using assms(4-7) by (simp_all add: accurate_def)
  have le: "fst (cursor s (Suc (index t))) \<le> line t'" using cursor_mono [of "Suc (index t)" "index t'"] assms(8) line by simp
  have "fst (cursor s a) < line t'" if "Lit Comment a b \<in> set ts" "fst (cursor s a) = line t" for a b
    using assms(1,9) that le line cursor_Suc [OF assms(9)] by (auto simp: filed_def stops_def not_newline_def)
  moreover have "line t \<le> line t'" using cursor_mono [of "index t" "index t'"] assms(8) line by simp
  moreover have "fst (cursor s a) \<le> line t" if "Lit Comment a b \<in> set ts" for a b
    using assms(1) that unfolding filed_def by blast
  ultimately have "fst (cursor s a) < line t'" if "Lit Comment a b \<in> set ts" for a b
    using that by (metis le_neq_implies_less less_le_trans)
  then have "fst (cursor s a) \<le> line t' \<and> fst (cursor s a) \<noteq> line t'" if "Lit Comment a b \<in> set ts" for a b
    using that by force
  then show ?thesis using assms(1,2,3) unfolding filed_def by auto
qed

lemma filed_add:
  assumes f: "filed s ts t" and src: "source t = s" and acc: "accurate t" and h: "here t = CHR ''#''"
    and e: "index t' = scan_while not_newline s (index t)" and i: "index t < length s"
    and c: "comments t' = (comments t)(line t \<mapsto> slice s (index t + 1) (index t'))" and l: "line t' = line t"
  shows "filed s (ts @ [Lit Comment (index t) (index t')]) t'"
proof -
  have line: "fst (cursor s (index t)) = line t" using acc src by (simp add: accurate_def)
  have other: "fst (cursor s a) < line t" if "Lit Comment a b \<in> set ts" for a b
  proof -
    from f that have "fst (cursor s a) \<le> line t" "fst (cursor s a) = line t \<Longrightarrow> stops not_newline s (index t)"
      by (auto simp: filed_def)
    moreover have "\<not> stops not_newline s (index t)" using h i src by (simp add: stops_def not_newline_def)
    ultimately show ?thesis by (auto simp: le_less)
  qed
  have stop: "stops not_newline s (index t')" using scan_while_stop e by (auto simp: stops_def)
  show ?thesis
    unfolding filed_def
  proof (intro conjI allI)
    fix m x
    show "comments t' m = Some x \<longleftrightarrow>
        (\<exists>a b. Lit Comment a b \<in> set (ts @ [Lit Comment (index t) (index t')]) \<and> fst (cursor s a) = m \<and> x = slice s (a + 1) b)"
    proof (cases "m = line t")
      case True
      then show ?thesis using other line c by fastforce
    next
      case False
      then show ?thesis using f line c by (auto simp: filed_def)
    qed
  qed (use other stop line l in \<open>auto dest: less_imp_le\<close>)
qed


text \<open>The tokens that wait for the next call are markers, never comments or literals.\<close>

definition marker :: "token \<Rightarrow> bool" where
  "marker k \<longleftrightarrow> (\<exists>l a b. k = Lit l a b \<and> l \<in> {Indent, Outdent, InterpolationStart})"

lemma lexing_marker: "lexing s ts t \<Longrightarrow> next_token t = Some k \<Longrightarrow> marker k"
proof (induction arbitrary: k rule: lexing.induct)
  case (emit ts t x t')
  have char: "next_token u' = next_token u \<or> (\<exists>y. next_token u' = Some y \<and> marker y)"
    if "char_step u (Some x) u'" for u u'
    using that
  proof cases
    case (newline)
    with lex_newline_frame(11) [OF newline(2)] show ?thesis by (auto simp: marker_def)
  qed auto
  from emit(4) show ?case
  proof cases
    case (code)
    with char [OF code(2)] emit(3,6) show ?thesis by auto
  next
    case (paren d ds)
    with char [OF paren(5)] emit(3,6) show ?thesis by auto
  qed (use emit(3,6) in \<open>auto simp: marker_def\<close>)
next
  case (skip ts t t')
  with stepped_pending [OF skip(4)] show ?case by simp
qed (auto simp: from_source_def)

lemma marker_flat: "marker k \<Longrightarrow> one_line s k \<and> \<not> is_comment k"
  by (auto simp: marker_def is_comment_def)

lemma lexing_filed:
  "lexing s ts t \<Longrightarrow> \<forall>k \<in> set ts. one_line s k \<Longrightarrow> accurate t \<and> filed s ts t"
proof (induction rule: lexing.induct)
  case start
  show ?case by (simp add: accurate_def filed_def from_source_def)
next
  case (take_pending ts t k)
  then have "accurate t" "filed s ts t" by auto
  with marker_flat [OF lexing_marker [OF take_pending(1,3)]] show ?case
    by (auto simp: accurate_def filed_def is_comment_def)
next
  case (emit ts t k t')
  then have acc: "accurate t" and f: "filed s ts t" by auto
  note src = lexing_source [OF emit(1)]
  have i: "index t < length (source t)" using src emit(2) by simp
  note gt = stepped_gt [OF emit(4) i]
  have acc': "accurate t'" using stepped_accurate [OF emit(4) acc i] emit(6) src by simp
  from stepped_comment [OF emit(4)] show ?case
  proof
    assume "here t = CHR ''#'' \<and> index t' = scan_while not_newline (source t) (index t)
      \<and> Some k = Some (Lit Comment (index t) (index t'))
      \<and> comments t' = (comments t)(line t \<mapsto> slice (source t) (index t + 1) (index t')) \<and> line t' = line t"
    with filed_add [OF f _ acc _ _ emit(2)] src acc' show ?thesis by simp
  next
    assume c: "comments t' = comments t \<and> (\<forall>x. Some k = Some x \<longrightarrow> \<not> is_comment x)"
    then have "Lit Comment a b \<in> set (ts @ [k]) \<longleftrightarrow> Lit Comment a b \<in> set ts" for a b
      by (auto simp: is_comment_def)
    with filed_keep [OF f _ this acc acc'] c src gt emit(2) acc' show ?thesis by simp
  qed
next
  case (skip ts t t')
  then have acc: "accurate t" and f: "filed s ts t" by auto
  note src = lexing_source [OF skip(1)]
  have i: "index t < length (source t)" using src skip(2) by simp
  note gt = stepped_gt [OF skip(4) i]
  have acc': "accurate t'" using stepped_accurate [OF skip(4) acc i] by simp
  have "comments t' = comments t" using stepped_comment [OF skip(4)] by auto
  with filed_keep [OF f _ refl acc acc'] src gt skip(2) acc' show ?case by simp
qed

lemma report_frame:
  "report_interpolation t = Some t' \<Longrightarrow> comments t' = comments t \<and> source t' = source t \<and> line t' = line t
     \<and> line_start_offset t' = line_start_offset t \<and> index t' = index t"
  "report_string t = Some t' \<Longrightarrow> comments t' = comments t \<and> source t' = source t \<and> line t' = line t
     \<and> line_start_offset t' = line_start_offset t \<and> index t' = index t"
  by (cases "interpolation_stack t"; force simp: report_interpolation_def bind_eq_Some_conv)
    (cases "string_stack t"; force simp: report_string_def Let_def bind_eq_Some_conv)

lemma finish_frame:
  "finish t = Some t' \<Longrightarrow> comments t' = comments t \<and> source t' = source t \<and> line t' = line t
     \<and> line_start_offset t' = line_start_offset t \<and> index t' = index t"
  by (auto simp: finish_def bind_eq_Some_conv dest!: report_frame)

lemma tokenize_filed:
  assumes "tokenize s = Some (ts, t)" and "\<forall>k \<in> set ts. one_line s k"
  shows "source t = s \<and> index t = length s \<and> accurate t
    \<and> (\<forall>l c. comments t l = Some c \<longleftrightarrow>
         (\<exists>a b. Lit Comment a b \<in> set ts \<and> fst (cursor s a) = l \<and> c = slice s (a + 1) b))"
proof -
  obtain t0 where l: "lexing s ts t0" and e: "ends t0 t" using tokenize_lexing [OF assms(1)] by auto
  from e have same: "comments t = comments t0 \<and> source t = source t0 \<and> line t = line t0
     \<and> line_start_offset t = line_start_offset t0 \<and> index t = index t0"
    by (auto simp: ends_def dest: finish_frame)
  from lexing_filed [OF l assms(2)] lexing_source [OF l] e same show ?thesis
    by (auto simp: accurate_def filed_def ends_def)
qed

text \<open>
  C31. Where no bytes literal holds a line break, the running line cursor is exact: when the
  tokens are collected it is the line, and the offset of its start, that a scan from the
  beginning finds for the end of the source.
\<close>

theorem line_cursor_exact:
  assumes "tokenize s = Some (ts, t)" and "\<forall>k \<in> set ts. one_line s k"
  shows "line_and_start_of t (length s) = (line t, line_start_offset t)"
  using tokenize_filed [OF assms] by (auto simp: accurate_def cursor_def line_and_start_of_def)

definition commented :: string where
  "commented = ''x # one'' @ CHR 0x0A # ''  y '' @ [CHR 0x27, CHR ''z'', CHR 0x27] @ ''# two''"

lemma commented_tokens:
  "map_option (\<lambda>p. (\<forall>k \<in> set (fst p). one_line commented k) \<and> line (snd p) = 1 \<and> length (fst p) = 7) (tokenize commented) = Some True"
  by code_simp

theorem line_cursor_exact_witness:
  "\<exists>ts t. tokenize commented = Some (ts, t) \<and> line_and_start_of t (length commented) = (1, line_start_offset t)"
proof -
  obtain ts t where t: "tokenize commented = Some (ts, t)" and "\<forall>k \<in> set ts. one_line commented k" "line t = 1"
    using commented_tokens by fastforce
  from line_cursor_exact [OF this(1,2)] this(3) t show ?thesis by auto
qed

text \<open>
  C32. Where no bytes literal holds a line break, the comment index is exact: it holds a text for
  a line if and only if a comment token lies on that line, and the text is that token's, without
  the hash sign.
\<close>

theorem comments_by_line:
  assumes "tokenize s = Some (ts, t)" and "\<forall>k \<in> set ts. one_line s k"
  shows "comments t l = Some c \<longleftrightarrow>
    (\<exists>a b. Lit Comment a b \<in> set ts \<and> fst (line_and_start_of t a) = l \<and> c = slice s (a + 1) b)"
  using tokenize_filed [OF assms] by (simp add: cursor_def line_and_start_of_def)

theorem comments_by_line_witness:
  "\<exists>ts t. tokenize commented = Some (ts, t) \<and> comments t 1 = Some '' two''"
proof -
  have c: "map_option (\<lambda>p. (\<forall>k \<in> set (fst p). one_line commented k)
      \<and> Lit Comment 15 20 \<in> set (fst p)) (tokenize commented) = Some True" by code_simp
  then obtain ts t where t: "tokenize commented = Some (ts, t)"
    and o: "\<forall>k \<in> set ts. one_line commented k" and k: "Lit Comment 15 20 \<in> set ts"
    by (cases "tokenize commented") (simp, simp add: split_paired_all)
  have "source t = commented" using tokenize_filed [OF t o] by simp
  moreover have "fst (line_scan (take 15 commented) 0 0 0) = 1" "slice commented 16 20 = '' two''" by code_simp+
  ultimately have "Lit Comment 15 20 \<in> set ts \<and> fst (line_and_start_of t 15) = 1
      \<and> '' two'' = slice commented (15 + 1) 20" using k by (simp add: line_and_start_of_def)
  then have "comments t 1 = Some '' two''" using comments_by_line [OF t o, of 1 "'' two''"] by blast
  with t show ?thesis by blast
qed

text \<open>A line break in a bytes literal is not counted: the comment after it is filed one line early.\<close>

lemma bytes_line_lost:
  "map_option (\<lambda>p. (line (snd p), comments (snd p) 0)) (tokenize ([CHR 0x27, CHR 0x0A, CHR 0x27] @ ''#x'')) = Some (0, Some ''x'')"
  "fst (line_scan (take 3 ([CHR 0x27, CHR 0x0A, CHR 0x27] @ ''#x'')) 0 0 0) = 1"
  by code_simp+

end
