(* ===== verification/IrTypes.thy ===== *)
theory IrTypes
  imports Location
begin

text \<open>
  The mid-level IR of \<open>ir/src/types.rs\<close>: constants, atoms, rvalues, patterns, statements,
  functions and programs, with the record shapes and the dense constructor ids.

  \<open>VarId\<close>, \<open>FuncId\<close>, \<open>GlobalId\<close> and \<open>DeferId\<close> are wrappers of a \<open>u32\<close> that only names
  things: a \<open>nat\<close> here. \<open>Block\<close> is a wrapper of a statement list. A float constant is
  its 64 bits. A Rust \<open>HashMap\<close> with a key order that does not matter is an association
  list with distinct keys, or a map.
\<close>

section \<open>Identifiers, representations, constants and atoms\<close>

type_synonym var_id = nat
type_synonym func_id = nat
type_synonym global_id = nat
type_synonym defer_id = nat

datatype repr = Boxed | I64 | F64 | I32

datatype const =
    CUnit
  | CBool bool
  | CInt i64
  | CFloat "64 word"
  | CStr string
  | CBytes "8 word list"
  | CDuration i64

datatype atom = AVar var_id | AConst const

record record_shape =
  shape_fields :: "string list"
  field_reprs :: "repr list"

text \<open>The position of the first field of that name.\<close>

fun position :: "'a \<Rightarrow> 'a list \<Rightarrow> nat option" where
  "position x [] = None"
| "position x (y # ys) = (if y = x then Some 0 else map_option Suc (position x ys))"

definition slot_of :: "record_shape \<Rightarrow> string \<Rightarrow> nat option" where
  "slot_of sh f = position f (shape_fields sh)"

text \<open>
  \<open>repr_of\<close> indexes the parallel list of reprs: \<open>None\<close> is the panic where that list is shorter than
  the fields, \<open>Some None\<close> a field the shape does not have. \<open>shape_ok\<close> excludes the panic; the two
  places that build a shape, in \<open>ir/src/lower.rs\<close> and \<open>boxed_from_names\<close>, give it parallel lists.
\<close>

definition repr_of :: "record_shape \<Rightarrow> string \<Rightarrow> repr option option" where
  "repr_of sh f =
     (case slot_of sh f of None \<Rightarrow> Some None | Some i \<Rightarrow> map_option Some (vec_get (field_reprs sh) i))"

definition shape_ok :: "record_shape \<Rightarrow> bool" where
  "shape_ok sh \<longleftrightarrow> length (field_reprs sh) = length (shape_fields sh)"

definition boxed_from_names :: "string list \<Rightarrow> record_shape" where
  "boxed_from_names names =
     \<lparr>shape_fields = sort names, field_reprs = replicate (length names) Boxed\<rparr>"

lemma position_Some: "position x ys = Some i \<Longrightarrow> i < length ys \<and> ys ! i = x"
  by (induction ys arbitrary: i) (auto split: if_splits simp: nth_Cons')

lemma position_None: "position x ys = None \<longleftrightarrow> x \<notin> set ys"
  by (induction ys) auto

lemma boxed_from_names_ok: "shape_ok (boxed_from_names ns)"
  by (simp add: shape_ok_def boxed_from_names_def)

text \<open>The repr of a field of a shape with parallel lists.\<close>

definition known_repr :: "record_shape \<Rightarrow> string \<Rightarrow> repr option" where
  "known_repr sh f = map_option (\<lambda>i. field_reprs sh ! i) (slot_of sh f)"

lemma repr_of_ok: "shape_ok sh \<Longrightarrow> repr_of sh f = Some (known_repr sh f)"
  by (auto simp: repr_of_def known_repr_def slot_of_def shape_ok_def dest: position_Some split: option.split)

lemma repr_of_boxed_from_names: "n \<in> set ns \<Longrightarrow> repr_of (boxed_from_names ns) n = Some (Some Boxed)"
proof -
  assume "n \<in> set ns"
  then have "position n (sort ns) \<noteq> None" by (simp add: position_None)
  then obtain i where "position n (sort ns) = Some i" by blast
  with position_Some [OF this] show ?thesis
    by (simp add: repr_of_def slot_of_def boxed_from_names_def)
qed

section \<open>Operations\<close>

datatype bin_op =
    AddInt | SubInt | MulInt | DivInt | RemInt
  | AddFloat | SubFloat | MulFloat | DivFloat | RemFloat
  | Concat_op
  | And | Or
  | BitAnd | BitOr | BitXor | ShiftLeft | ShiftRight | ShiftRightUnsigned
  | Eq | Ne
  | EqI64 | NeI64 | EqF64 | NeF64
  | LtI64 | LtF64 | LeI64 | LeF64 | GtI64 | GtF64 | GeI64 | GeF64

datatype callee =
    Callee_Function func_id
  | Callee_Global global_id
  | Callee_Builtin string repr

datatype list_item = Elem atom | Spread atom

datatype rvalue =
    Use atom
  | Bin bin_op atom atom
  | Not atom
  | Call callee "atom list"
  | CallClosure atom "atom list"
  | TailCall atom "atom list"
  | TailCallDirect func_id "atom list"
  | GetDictMethod atom nat
  | MakeDict "atom list"
  | MakeClosure func_id "atom list"
  | MakeRecord "(string \<times> atom) list" "record_shape option"
  | RecordUpdate atom "(string \<times> atom) list" "record_shape option"
  | GetField atom string "record_shape option"
  | GetElement atom nat
  | MakeVariant string nat "atom list"
  | MakeVariantCtor string nat
  | Interpolate "atom list"
  | GetTag atom
  | GetPayload atom nat
  | MakeList "list_item list"
  | MakeTuple "atom list"
  | GlobalRef global_id
  | Builtin string
  | Await atom
  | Box atom
  | Unbox atom repr

section \<open>Patterns and statements\<close>

datatype list_rest = ListRest_Anon | ListRest_Bind var_id

datatype record_rest = Exact | Open | RecordRest_Bind var_id

datatype pattern =
    PWildcard
  | PBind var_id
  | PLiteral const
  | PVariant string nat "pattern list"
  | PTuple "pattern list"
  | PList "pattern list" "list_rest option"
  | PRecord "(string \<times> pattern) list" record_rest "record_shape option"

datatype stmt = Stmt (kind: stmt_kind) (stmt_range: range)
  and stmt_kind =
    Let var_id rvalue
  | If atom "stmt list" "stmt list"
  | Switch atom "(i64 \<times> stmt list) list" "stmt list"
  | Match atom "match_arm list"
  | Loop "stmt list"
  | Break_stmt
  | Continue_stmt
  | Return atom
  | Discard rvalue
  | RunDefer defer_id
  | PushDefer atom
  and match_arm = MatchArm (arm_pattern: pattern) (arm_body: "stmt list")

type_synonym block = "stmt list"

definition stmt_new :: "stmt_kind \<Rightarrow> range \<Rightarrow> stmt" where
  "stmt_new k r = Stmt k r"

definition synthetic :: "stmt_kind \<Rightarrow> stmt" where
  "synthetic k = Stmt k (collapsed 0 0)"

lemma stmt_new_sel [simp]: "kind (stmt_new k r) = k" "stmt_range (stmt_new k r) = r"
  by (simp_all add: stmt_new_def)

section \<open>Functions and programs\<close>

record ir_function =
  fn_name :: string
  fn_module :: string
  params :: "var_id list"
  captures :: "var_id list"
  is_async :: bool
  poll_fn :: "func_id option"
  body :: block
  var_reprs :: "repr list"
  param_reprs :: "repr list"
  ret_repr :: repr

datatype pre_eval =
    PreBuiltin string repr
  | PreConst const
  | MethodDict "pre_eval list"

datatype global_init = Thunk func_id | PreEvaluated pre_eval

type_synonym enum_table = "(string \<times> (string \<times> nat) list) list"

record ir_program =
  prog_functions :: "ir_function list"
  globals :: "global_init list"
  enums :: enum_table
  entry :: func_id
  test_suites :: "(string \<times> global_id) list"
  param_shapes :: "nat \<rightharpoonup> record_shape option list"
  extra_nominal :: "nat \<rightharpoonup> (nat \<times> record_shape) list"

section \<open>Constructor ids\<close>

definition ctor_count :: "enum_table \<Rightarrow> string \<Rightarrow> nat" where
  "ctor_count es k = (case map_of es k of None \<Rightarrow> 0 | Some vs \<Rightarrow> length vs)"

text \<open>The loop of \<open>global_ctor_id\<close> over the sorted keys, with the running base.\<close>

fun ctor_id_loop :: "enum_table \<Rightarrow> string \<Rightarrow> nat \<Rightarrow> nat \<Rightarrow> string list \<Rightarrow> nat option" where
  "ctor_id_loop es name tag base [] = None"
| "ctor_id_loop es name tag base (k # ks) =
     (let count = ctor_count es k
      in if k = name then (if tag < count then Some (base + tag) else None)
         else ctor_id_loop es name tag (base + count) ks)"

definition global_ctor_id :: "enum_table \<Rightarrow> string \<Rightarrow> nat \<Rightarrow> nat option" where
  "global_ctor_id es name tag = ctor_id_loop es name tag 0 (sort (map fst es))"

lemma ctor_id_loop_range:
  "ctor_id_loop es n t b ks = Some i \<Longrightarrow>
   b \<le> i \<and> i < b + sum_list (map (ctor_count es) ks) \<and> n \<in> set ks \<and> t < ctor_count es n"
proof (induction ks arbitrary: b)
  case (Cons k ks)
  show ?case
  proof (cases "k = n")
    case True
    with Cons.prems show ?thesis by (auto simp: Let_def split: if_splits)
  next
    case False
    with Cons.prems have "ctor_id_loop es n t (b + ctor_count es k) ks = Some i"
      by (simp add: Let_def)
    from Cons.IH [OF this] False show ?thesis by auto
  qed
qed simp

lemma ctor_id_loop_inj:
  "ctor_id_loop es n t b ks = Some i \<Longrightarrow> ctor_id_loop es n' t' b ks = Some i \<Longrightarrow> n = n' \<and> t = t'"
proof (induction ks arbitrary: b)
  case (Cons k ks)
  then show ?case
    by (auto simp: Let_def split: if_splits dest: ctor_id_loop_range)
qed simp

lemma ctor_id_loop_onto:
  "b \<le> i \<Longrightarrow> i < b + sum_list (map (ctor_count es) ks) \<Longrightarrow> distinct ks \<Longrightarrow>
   \<exists>n \<in> set ks. \<exists>t. ctor_id_loop es n t b ks = Some i"
proof (induction ks arbitrary: b)
  case (Cons k ks)
  show ?case
  proof (cases "i < b + ctor_count es k")
    case True
    with Cons.prems have "ctor_id_loop es k (i - b) b (k # ks) = Some i"
      by (auto simp: Let_def)
    then show ?thesis by (meson list.set_intros(1))
  next
    case False
    with Cons.prems have "\<exists>n \<in> set ks. \<exists>t. ctor_id_loop es n t (b + ctor_count es k) ks = Some i"
      by (intro Cons.IH) auto
    then obtain n t where "n \<in> set ks" "ctor_id_loop es n t (b + ctor_count es k) ks = Some i"
      by blast
    moreover from this Cons.prems have "n \<noteq> k" by auto
    ultimately have "ctor_id_loop es n t b (k # ks) = Some i" by (simp add: Let_def)
    with \<open>n \<in> set ks\<close> show ?thesis by auto
  qed
qed simp

definition ctor_total :: "enum_table \<Rightarrow> nat" where
  "ctor_total es = sum_list (map (length \<circ> snd) es)"

lemma ctor_total_sorted:
  "distinct (map fst es) \<Longrightarrow> sum_list (map (ctor_count es) (sort (map fst es))) = ctor_total es"
proof -
  assume d: "distinct (map fst es)"
  have "sum_list (map (ctor_count es) (sort (map fst es))) = sum_list (map (ctor_count es) (map fst es))"
    using d by (metis distinct_sort set_sort sum_list_distinct_conv_sum_set)
  also have "map (ctor_count es) (map fst es) = map (length \<circ> snd) es"
    using d by (auto simp: ctor_count_def)
  finally show ?thesis by (simp add: ctor_total_def)
qed

text \<open>
  C29. Constructor ids are globally unique: two constructors with the same id are the same
  constructor of the same enum.
\<close>

theorem global_ctor_id_unique:
  assumes "global_ctor_id es n t = Some i" and "global_ctor_id es n' t' = Some i"
  shows "n = n' \<and> t = t'"
  using assms by (auto simp: global_ctor_id_def dest: ctor_id_loop_inj)

theorem global_ctor_id_unique_witness:
  "global_ctor_id [(''b'', [(''x'', 0), (''y'', 1)]), (''a'', [(''z'', 2)])] ''b'' 1 = Some 2"
proof -
  let ?es = "[(''b'', [(''x'', 0), (''y'', 1)]), (''a'', [(''z'', 2)])]"
  have i: "global_ctor_id ?es ''b'' 1 = Some 2" by code_simp
  from global_ctor_id_unique [OF i i] i show ?thesis by simp
qed

text \<open>
  Constructor ids are dense: over a table with distinct enum names, the ids are exactly
  the numbers below the number of constructors, whatever order the table lists them in.
\<close>

theorem global_ctor_id_dense:
  assumes "distinct (map fst es)"
  shows "{i. \<exists>n t. global_ctor_id es n t = Some i} = {..<ctor_total es}"
  using assms ctor_id_loop_range [of es _ _ 0 "sort (map fst es)"]
    ctor_id_loop_onto [of 0 _ es "sort (map fst es)"]
  by (fastforce simp: global_ctor_id_def ctor_total_sorted)

theorem global_ctor_id_dense_witness:
  "{i. \<exists>n t. global_ctor_id [(''b'', [(''x'', 0)]), (''a'', [(''z'', 2)])] n t = Some i} = {..<2}"
  using global_ctor_id_dense [of "[(''b'', [(''x'', 0)]), (''a'', [(''z'', 2)])]"]
  by (simp add: ctor_total_def numeral_2_eq_2)

end
