(* ===== verification/IrSem.thy ===== *)
theory IrSem
  imports IrTypes
begin

text \<open>
  The reference semantics of the IR, as the comments of \<open>ir/src/types.rs\<close> describe its
  nodes: the specification the IR-to-IR passes are checked against. It is not a translation
  of a file of the program.

  \<^item> Control flow is concrete: blocks, \<open>If\<close>, \<open>Switch\<close>, \<open>Match\<close>, \<open>Loop\<close> (which iterates
    when its body ends or continues, and exits on \<open>Break\<close>), \<open>Return\<close>, calls of functions of
    the program and of closures, and the frame's cleanup stack, which \<open>PushDefer\<close> extends
    and \<open>Return\<close> runs from the last pushed on.
  \<^item> The other rvalues (arithmetic, containers, builtins, globals) are a parameter
    \<open>prim\<close>, a function of the rvalue, its operands' values and the world \<open>'w\<close>; \<open>None\<close> is a
    trap.
  \<^item> A run has fuel, spent by calls and loop iterations: \<open>Timeout\<close> is no result within it,
    \<open>Stuck\<close> a trap or a read of an unbound variable, \<open>Done\<close> a result.
\<close>

section \<open>Results\<close>

datatype 'a res = Timeout | Stuck | Done 'a

fun bind_res :: "'a res \<Rightarrow> ('a \<Rightarrow> 'b res) \<Rightarrow> 'b res" where
  "bind_res Timeout f = Timeout"
| "bind_res Stuck f = Stuck"
| "bind_res (Done x) f = f x"

definition or_stuck :: "'a option \<Rightarrow> 'a res" where
  "or_stuck m = (case m of None \<Rightarrow> Stuck | Some x \<Rightarrow> Done x)"

lemma or_stuck_simps [simp]: "or_stuck None = Stuck" "or_stuck (Some x) = Done x"
  by (simp_all add: or_stuck_def)

section \<open>Values and patterns\<close>

datatype val =
    VUnit
  | VBool bool
  | VInt i64
  | VFloat "64 word"
  | VStr string
  | VBytes "8 word list"
  | VDuration i64
  | VTuple "val list"
  | VList "val list"
  | VRecord "(string \<times> val) list"
  | VVariant nat "val list"
  | VClosure func_id "val list"
  | VOther nat

type_synonym env = "var_id \<rightharpoonup> val"
type_synonym bindings = "(var_id \<times> val) list"

fun const_val :: "const \<Rightarrow> val" where
  "const_val CUnit = VUnit"
| "const_val (CBool b) = VBool b"
| "const_val (CInt i) = VInt i"
| "const_val (CFloat x) = VFloat x"
| "const_val (CStr s) = VStr s"
| "const_val (CBytes b) = VBytes b"
| "const_val (CDuration d) = VDuration d"

text \<open>Equality of two floats given by their bits: not-a-number differs, the zeros agree.\<close>

definition f64_eq :: "64 word \<Rightarrow> 64 word \<Rightarrow> bool" where
  "f64_eq x y \<longleftrightarrow>
     (let mag = (\<lambda>z. and z 0x7FFFFFFFFFFFFFFF); nan = (\<lambda>z. 0x7FF0000000000000 < mag z)
      in \<not> nan x \<and> \<not> nan y \<and> (x = y \<or> mag x = 0 \<and> mag y = 0))"

text \<open>
  A literal test on a value of another type is the trap of a failed cast (\<open>None\<close>).
\<close>

fun lit_matches :: "const \<Rightarrow> val \<Rightarrow> bool option" where
  "lit_matches CUnit v = (case v of VUnit \<Rightarrow> Some True | _ \<Rightarrow> None)"
| "lit_matches (CBool a) v = (case v of VBool b \<Rightarrow> Some (a = b) | _ \<Rightarrow> None)"
| "lit_matches (CInt a) v = (case v of VInt b \<Rightarrow> Some (a = b) | _ \<Rightarrow> None)"
| "lit_matches (CFloat a) v = (case v of VFloat b \<Rightarrow> Some (f64_eq b a) | _ \<Rightarrow> None)"
| "lit_matches (CStr a) v = (case v of VStr b \<Rightarrow> Some (a = b) | _ \<Rightarrow> None)"
| "lit_matches (CBytes a) v = (case v of VBytes b \<Rightarrow> Some (a = b) | _ \<Rightarrow> None)"
| "lit_matches (CDuration a) v = (case v of VDuration b \<Rightarrow> Some (a = b) | _ \<Rightarrow> None)"

text \<open>
  The outcome of a match: a trap on a value of the wrong shape, a mismatch, or bindings.
  Sub-patterns are tried left to right and the first mismatch ends the test.
\<close>

datatype matched = Trap | Mismatch | Binds bindings

fun and_then :: "matched \<Rightarrow> (bindings \<Rightarrow> matched) \<Rightarrow> matched" where
  "and_then Trap f = Trap"
| "and_then Mismatch f = Mismatch"
| "and_then (Binds bs) f = f bs"

lemma and_then_cong [fundef_cong]:
  "m = m' \<Longrightarrow> (\<And>bs. m' = Binds bs \<Longrightarrow> f bs = g bs) \<Longrightarrow> and_then m f = and_then m' g"
  by (cases m') auto

fun match_pat :: "pattern \<Rightarrow> val \<Rightarrow> matched"
  and match_all :: "pattern list \<Rightarrow> val list \<Rightarrow> matched"
  and match_fields :: "(string \<times> pattern) list \<Rightarrow> (string \<times> val) list \<Rightarrow> matched" where
  "match_pat PWildcard v = Binds []"
| "match_pat (PBind x) v = Binds [(x, v)]"
| "match_pat (PLiteral c) v =
     (case lit_matches c v of
        None \<Rightarrow> Trap | Some True \<Rightarrow> Binds [] | Some False \<Rightarrow> Mismatch)"
| "match_pat (PVariant nm tag ps) v =
     (case v of
        VVariant t vs \<Rightarrow> if t = tag then match_all ps vs else Mismatch | _ \<Rightarrow> Trap)"
| "match_pat (PTuple ps) v = (case v of VTuple vs \<Rightarrow> match_all ps vs | _ \<Rightarrow> Trap)"
| "match_pat (PList ps rest) v =
     (case v of
        VList vs \<Rightarrow>
          (case rest of
             None \<Rightarrow> if length vs = length ps then match_all ps vs else Mismatch
           | Some r \<Rightarrow>
               if length vs < length ps then Mismatch
               else and_then (match_all ps (take (length ps) vs)) (\<lambda>bs.
                 case r of ListRest_Anon \<Rightarrow> Binds bs
                 | ListRest_Bind x \<Rightarrow> Binds (bs @ [(x, VList (drop (length ps) vs))])))
      | _ \<Rightarrow> Trap)"
| "match_pat (PRecord fs rest sh) v =
     (case v of
        VRecord vs \<Rightarrow>
          (case rest of
             Exact \<Rightarrow> if length vs = length fs then match_fields fs vs else Mismatch
           | Open \<Rightarrow> match_fields fs vs
           | RecordRest_Bind x \<Rightarrow>
               and_then (match_fields fs vs) (\<lambda>bs.
                 Binds ((x, VRecord (filter (\<lambda>p. fst p \<notin> fst ` set fs) vs)) # bs)))
      | _ \<Rightarrow> Trap)"
| "match_all [] vs = (if vs = [] then Binds [] else Trap)"
| "match_all (p # ps) vs =
     (case vs of [] \<Rightarrow> Trap
      | v # vs' \<Rightarrow> and_then (match_pat p v) (\<lambda>bs.
          and_then (match_all ps vs') (\<lambda>bs'. Binds (bs @ bs'))))"
| "match_fields [] vs = Binds []"
| "match_fields ((n, p) # fs) vs =
     (case map_of vs n of None \<Rightarrow> Trap
      | Some v \<Rightarrow> and_then (match_pat p v) (\<lambda>bs.
          and_then (match_fields fs vs) (\<lambda>bs'. Binds (bs @ bs'))))"

definition bind_all :: "env \<Rightarrow> bindings \<Rightarrow> env" where
  "bind_all e bs = e ++ map_of (rev bs)"

section \<open>Atoms and operands\<close>

fun eval_atom :: "env \<Rightarrow> atom \<Rightarrow> val option" where
  "eval_atom e (AVar x) = e x"
| "eval_atom e (AConst c) = Some (const_val c)"

fun eval_atoms :: "env \<Rightarrow> atom list \<Rightarrow> val list option" where
  "eval_atoms e [] = Some []"
| "eval_atoms e (a # as) =
     Option.bind (eval_atom e a) (\<lambda>v. Option.bind (eval_atoms e as) (\<lambda>vs. Some (v # vs)))"

fun item_atom :: "list_item \<Rightarrow> atom" where
  "item_atom (Elem a) = a"
| "item_atom (Spread a) = a"

fun operands :: "rvalue \<Rightarrow> atom list" where
  "operands (Use a) = [a]"
| "operands (Bin _ a b) = [a, b]"
| "operands (Not a) = [a]"
| "operands (Call _ as) = as"
| "operands (CallClosure c as) = c # as"
| "operands (TailCall c as) = c # as"
| "operands (TailCallDirect _ as) = as"
| "operands (GetDictMethod a _) = [a]"
| "operands (MakeDict as) = as"
| "operands (MakeClosure _ as) = as"
| "operands (MakeRecord fs _) = map snd fs"
| "operands (RecordUpdate b fs _) = b # map snd fs"
| "operands (GetField a _ _) = [a]"
| "operands (GetElement a _) = [a]"
| "operands (MakeVariant _ _ as) = as"
| "operands (MakeVariantCtor _ _) = []"
| "operands (Interpolate as) = as"
| "operands (GetTag a) = [a]"
| "operands (GetPayload a _) = [a]"
| "operands (MakeList its) = map item_atom its"
| "operands (MakeTuple as) = as"
| "operands (GlobalRef _) = []"
| "operands (Builtin _) = []"
| "operands (Await a) = [a]"
| "operands (Box a) = [a]"
| "operands (Unbox a _) = [a]"

lemma eval_atoms_Some:
  "eval_atoms e as = Some vs \<longleftrightarrow> list_all2 (\<lambda>a v. eval_atom e a = Some v) as vs"
  by (induction as arbitrary: vs) (auto simp: bind_Some_iff list_all2_Cons1)

section \<open>Runs\<close>

text \<open>How a block ends: with the frame (environment and cleanup stack) it leaves, or a value.\<close>

datatype outcome = Norm env "val list" | Brk env "val list" | Cont env "val list" | Ret val

type_synonym 'w prim = "rvalue \<Rightarrow> val list \<Rightarrow> 'w \<Rightarrow> (val \<times> 'w) option"

datatype callsite = Known func_id "val list" "val list" | Primitive "val list"

text \<open>What an rvalue asks for, once its operands have values.\<close>

definition dispatch_rv :: "rvalue \<Rightarrow> val list \<Rightarrow> callsite" where
  "dispatch_rv rv vs =
     (case rv of
        Call (Callee_Function f) _ \<Rightarrow> Known f vs []
      | TailCallDirect f _ \<Rightarrow> Known f vs []
      | CallClosure _ _ \<Rightarrow>
          (case vs of VClosure f caps # args \<Rightarrow> Known f args caps | _ \<Rightarrow> Primitive vs)
      | TailCall _ _ \<Rightarrow>
          (case vs of VClosure f caps # args \<Rightarrow> Known f args caps | _ \<Rightarrow> Primitive vs)
      | _ \<Rightarrow> Primitive vs)"

definition eval_prim :: "'w prim \<Rightarrow> rvalue \<Rightarrow> val list \<Rightarrow> 'w \<Rightarrow> (val \<times> 'w) option" where
  "eval_prim pr rv vs w =
     (case rv of
        Use _ \<Rightarrow> Some (hd vs, w)
      | MakeClosure f _ \<Rightarrow> Some (VClosure f vs, w)
      | _ \<Rightarrow> pr rv vs w)"

text \<open>The environment a function starts in, for arguments and captured values.\<close>

definition frame :: "ir_function \<Rightarrow> val list \<Rightarrow> val list \<Rightarrow> env option" where
  "frame f args caps =
     (if length args = length (params f) \<and> length caps = length (captures f)
      then Some (map_of (zip (params f) args) ++ map_of (zip (captures f) caps)) else None)"

fun switch_arm :: "(i64 \<times> block) list \<Rightarrow> block \<Rightarrow> i64 \<Rightarrow> block" where
  "switch_arm [] dflt k = dflt"
| "switch_arm ((i, b) # arms) dflt k = (if i = k then b else switch_arm arms dflt k)"

text \<open>
  The first arm whose pattern matches, with its bindings; \<open>Done None\<close> when control falls
  through every arm.
\<close>

fun match_arms :: "match_arm list \<Rightarrow> val \<Rightarrow> (bindings \<times> block) option res" where
  "match_arms [] v = Done None"
| "match_arms (MatchArm p b # arms) v =
     (case match_pat p v of
        Trap \<Rightarrow> Stuck | Binds bs \<Rightarrow> Done (Some (bs, b)) | Mismatch \<Rightarrow> match_arms arms v)"

lemma match_arms_not_Timeout [simp]: "match_arms arms v \<noteq> Timeout"
  by (induction arms v rule: match_arms.induct) (auto split: matched.splits)

lemma size_kind: "size (kind s) \<le> size s"
  by (cases s) simp

lemma switch_arm_size: "size_list size (switch_arm arms d k) \<le>
    size_list (size_prod (\<lambda>_. 0) (size_list size)) arms + size_list size d"
  by (induction arms d k rule: switch_arm.induct) auto

lemma match_arms_size:
  "match_arms arms v = Done (Some (bs, b)) \<Longrightarrow> size_list size b < size_list size arms"
  by (induction arms v rule: match_arms.induct) (auto split: matched.splits)

function (sequential)
    exec_block :: "ir_function list \<Rightarrow> 'w prim \<Rightarrow> nat \<Rightarrow> env \<Rightarrow> val list \<Rightarrow> 'w \<Rightarrow> block \<Rightarrow> (outcome \<times> 'w) res"
  and exec :: "ir_function list \<Rightarrow> 'w prim \<Rightarrow> nat \<Rightarrow> env \<Rightarrow> val list \<Rightarrow> 'w \<Rightarrow> stmt_kind \<Rightarrow> (outcome \<times> 'w) res"
  and run_rv :: "ir_function list \<Rightarrow> 'w prim \<Rightarrow> nat \<Rightarrow> env \<Rightarrow> 'w \<Rightarrow> rvalue \<Rightarrow> (val \<times> 'w) res"
  and run_defers :: "ir_function list \<Rightarrow> 'w prim \<Rightarrow> nat \<Rightarrow> 'w \<Rightarrow> val list \<Rightarrow> 'w res"
  and call :: "ir_function list \<Rightarrow> 'w prim \<Rightarrow> nat \<Rightarrow> 'w \<Rightarrow> func_id \<Rightarrow> val list \<Rightarrow> val list \<Rightarrow> (val \<times> 'w) res"
where
  "exec_block P pr n e ds w [] = Done (Norm e ds, w)"
| "exec_block P pr n e ds w (s # ss) =
     bind_res (exec P pr n e ds w (kind s)) (\<lambda>(r, w').
       case r of Norm e' ds' \<Rightarrow> exec_block P pr n e' ds' w' ss | _ \<Rightarrow> Done (r, w'))"
| "exec P pr n e ds w (Let x rv) =
     bind_res (run_rv P pr n e w rv) (\<lambda>(v, w'). Done (Norm (e(x \<mapsto> v)) ds, w'))"
| "exec P pr n e ds w (Discard rv) =
     bind_res (run_rv P pr n e w rv) (\<lambda>(v, w'). Done (Norm e ds, w'))"
| "exec P pr n e ds w (If c t f) =
     (case eval_atom e c of
        Some (VBool b) \<Rightarrow> exec_block P pr n e ds w (if b then t else f)
      | _ \<Rightarrow> Stuck)"
| "exec P pr n e ds w (Switch c arms dflt) =
     (case eval_atom e c of
        Some (VInt k) \<Rightarrow> exec_block P pr n e ds w (switch_arm arms dflt k)
      | _ \<Rightarrow> Stuck)"
| "exec P pr n e ds w (Match c arms) =
     (case eval_atom e c of
        None \<Rightarrow> Stuck
      | Some v \<Rightarrow>
          (case match_arms arms v of
             Done None \<Rightarrow> Done (Norm e ds, w)
           | Done (Some (bs, b)) \<Rightarrow> exec_block P pr n (bind_all e bs) ds w b
           | _ \<Rightarrow> Stuck))"
| "exec P pr n e ds w (Loop b) =
     (case n of
        0 \<Rightarrow> Timeout
      | Suc m \<Rightarrow>
          bind_res (exec_block P pr m e ds w b) (\<lambda>(r, w').
            case r of
              Norm e' ds' \<Rightarrow> exec P pr m e' ds' w' (Loop b)
            | Cont e' ds' \<Rightarrow> exec P pr m e' ds' w' (Loop b)
            | Brk e' ds' \<Rightarrow> Done (Norm e' ds', w')
            | Ret v \<Rightarrow> Done (Ret v, w')))"
| "exec P pr n e ds w Break_stmt = Done (Brk e ds, w)"
| "exec P pr n e ds w Continue_stmt = Done (Cont e ds, w)"
| "exec P pr n e ds w (Return a) =
     (case eval_atom e a of
        None \<Rightarrow> Stuck
      | Some v \<Rightarrow> bind_res (run_defers P pr n w ds) (\<lambda>w'. Done (Ret v, w')))"
| "exec P pr n e ds w (PushDefer a) =
     (case eval_atom e a of None \<Rightarrow> Stuck | Some d \<Rightarrow> Done (Norm e (d # ds), w))"
| "exec P pr n e ds w (RunDefer d) = Stuck"
| "run_rv P pr n e w rv =
     (case eval_atoms e (operands rv) of
        None \<Rightarrow> Stuck
      | Some vs \<Rightarrow>
          (case dispatch_rv rv vs of
             Known f args caps \<Rightarrow> call P pr n w f args caps
           | Primitive vs \<Rightarrow> or_stuck (eval_prim pr rv vs w)))"
| "run_defers P pr n w [] = Done w"
| "run_defers P pr n w (d # ds) =
     (case d of
        VClosure f caps \<Rightarrow>
          bind_res (call P pr n w f [] caps) (\<lambda>(v, w'). run_defers P pr n w' ds)
      | _ \<Rightarrow> Stuck)"
| "call P pr n w f args caps =
     (case n of
        0 \<Rightarrow> Timeout
      | Suc m \<Rightarrow>
          (if f < length P
           then case frame (P ! f) args caps of
                  None \<Rightarrow> Stuck
                | Some e \<Rightarrow>
                    bind_res (exec_block P pr m e [] w (body (P ! f))) (\<lambda>(r, w').
                      case r of Ret v \<Rightarrow> Done (v, w') | _ \<Rightarrow> Stuck)
           else Stuck))"
  by pat_completeness auto
termination
proof (relation "inv_image (less_than <*lex*> less_than <*lex*> less_than)
    (\<lambda>x. case x of
       Inl (Inl (P, pr, n, e, ds, w, b)) \<Rightarrow> (n, 3, size_list size b)
     | Inl (Inr (P, pr, n, e, ds, w, k)) \<Rightarrow> (n, 3, size k)
     | Inr (Inl (P, pr, n, e, w, rv)) \<Rightarrow> (n, 2, 0)
     | Inr (Inr (Inl (P, pr, n, w, ds))) \<Rightarrow> (n, 1, length ds)
     | Inr (Inr (Inr (P, pr, n, w, f, a, c))) \<Rightarrow> (n, 0, 0))", goal_cases)
  case 1
  then show ?case by (intro wf_inv_image wf_lex_prod wf_less_than)
qed (auto simp: less_Suc_eq_le le_SucI dest: match_arms_size
     intro: order_trans [OF switch_arm_size] order_trans [OF size_kind])

declare run_rv.simps [simp del] call.simps [simp del]

lemmas exec_Loop = exec.simps(6)
declare exec_Loop [simp del]

lemmas exec_induct = exec_block_exec_run_rv_run_defers_call.induct

text \<open>Running a function of the program: what the embedder of a compiled program does.\<close>

definition returns :: "ir_function list \<Rightarrow> 'w prim \<Rightarrow> func_id \<Rightarrow> val list \<Rightarrow> val list \<Rightarrow> 'w \<Rightarrow> val \<Rightarrow> 'w \<Rightarrow> bool"
where
  "returns P pr f args caps w v w' \<longleftrightarrow> (\<exists>n. call P pr n w f args caps = Done (v, w'))"

definition goes_wrong :: "ir_function list \<Rightarrow> 'w prim \<Rightarrow> func_id \<Rightarrow> val list \<Rightarrow> val list \<Rightarrow> 'w \<Rightarrow> bool"
where
  "goes_wrong P pr f args caps w \<longleftrightarrow> (\<exists>n. call P pr n w f args caps = Stuck)"

section \<open>More fuel keeps a result\<close>

lemma bind_res_not_Timeout: "bind_res r f \<noteq> Timeout \<Longrightarrow> r \<noteq> Timeout"
  by (cases r) auto

lemma more_fuel_step:
  "exec_block P pr n e ds w b \<noteq> Timeout \<Longrightarrow>
     exec_block P pr (Suc n) e ds w b = exec_block P pr n e ds w b"
  "exec P pr n e ds w k \<noteq> Timeout \<Longrightarrow> exec P pr (Suc n) e ds w k = exec P pr n e ds w k"
  "run_rv P pr n e w rv \<noteq> Timeout \<Longrightarrow> run_rv P pr (Suc n) e w rv = run_rv P pr n e w rv"
  "run_defers P pr n w ds \<noteq> Timeout \<Longrightarrow> run_defers P pr (Suc n) w ds = run_defers P pr n w ds"
  "call P pr n w f args caps \<noteq> Timeout \<Longrightarrow> call P pr (Suc n) w f args caps = call P pr n w f args caps"
proof (induction P pr n e ds w b and P pr n e ds w k and P pr n e w rv and P pr n w ds
    and P pr n w f args caps rule: exec_induct)
  case (2 P pr n e ds w s ss)
  then show ?case by (cases "exec P pr n e ds w (kind s)") (auto split: outcome.splits)
next
  case (3 P pr n e ds w x rv)
  then show ?case by (cases "run_rv P pr n e w rv") auto
next
  case (4 P pr n e ds w rv)
  then show ?case by (cases "run_rv P pr n e w rv") auto
next
  case (8 P pr n e ds w b)
  show ?case
  proof (cases n)
    case 0
    with "8.prems" show ?thesis by (simp add: exec_Loop)
  next
    case (Suc m)
    with 8 show ?thesis
      by (cases "exec_block P pr m e ds w b")
        (auto simp: exec_Loop [of P pr "Suc m" e ds w b] exec_Loop [of P pr "Suc (Suc m)" e ds w b]
          split: outcome.splits)
  qed
next
  case (11 P pr n e ds w a)
  then show ?case by (cases "eval_atom e a"; cases "run_defers P pr n w ds") auto
next
  case (14 P pr n e w rv)
  then show ?case
    by (auto simp: run_rv.simps split: option.splits callsite.splits)
next
  case (16 P pr n w d ds)
  then show ?case
  proof (cases d)
    case (VClosure f caps)
    with 16 show ?thesis by (cases "call P pr n w f [] caps") auto
  qed auto
next
  case (17 P pr n w f args caps)
  show ?case
  proof (cases n)
    case 0
    with "17.prems" show ?thesis by (simp add: call.simps)
  next
    case (Suc m)
    show ?thesis
    proof (cases "f < length P")
      case True
      show ?thesis
      proof (cases "frame (P ! f) args caps")
        case (Some e)
        with 17 Suc True show ?thesis
          by (cases "exec_block P pr m e [] w (body (P ! f))")
            (auto simp: call.simps [of P pr "Suc m"] call.simps [of P pr "Suc (Suc m)"])
      qed (simp add: Suc True call.simps)
    qed (simp add: Suc call.simps)
  qed
qed (auto split: option.splits val.splits res.splits)

lemma more_fuel:
  assumes "n \<le> m"
  shows "exec_block P pr n e ds w b \<noteq> Timeout \<Longrightarrow> exec_block P pr m e ds w b = exec_block P pr n e ds w b"
    and "exec P pr n e ds w k \<noteq> Timeout \<Longrightarrow> exec P pr m e ds w k = exec P pr n e ds w k"
    and "run_rv P pr n e w rv \<noteq> Timeout \<Longrightarrow> run_rv P pr m e w rv = run_rv P pr n e w rv"
    and "run_defers P pr n w ds \<noteq> Timeout \<Longrightarrow> run_defers P pr m w ds = run_defers P pr n w ds"
    and "call P pr n w f args caps \<noteq> Timeout \<Longrightarrow> call P pr m w f args caps = call P pr n w f args caps"
  using assms by (induction m rule: dec_induct) (auto simp: more_fuel_step)

text \<open>Two runs with a result have the same one.\<close>

lemma returns_unique: "returns P pr f a c w v w' \<Longrightarrow> returns P pr f a c w u w'' \<Longrightarrow> v = u \<and> w' = w''"
  unfolding returns_def by (metis more_fuel(5) nle_le prod.inject res.distinct(3) res.inject)

lemma returns_not_wrong: "returns P pr f a c w v w' \<Longrightarrow> \<not> goes_wrong P pr f a c w"
  unfolding returns_def goes_wrong_def by (metis more_fuel(5) nle_le res.distinct(1,3,5))

end
