(* ===== verification/Simplify.thy ===== *)
theory Simplify
  imports IrSem
begin

text \<open>
  The pass of \<open>ir/src/simplify.rs\<close>: a \<open>Match\<close> whose arms are boolean literals (or a
  wildcard) becomes a two-way \<open>If\<close>. The locale \<open>exact_pass\<close> is the contract of a pass that
  rewrites function bodies without changing any run, at any fuel; the pass is an instance.
\<close>

section \<open>The pass\<close>

definition is_bool_lit :: "pattern \<Rightarrow> bool \<Rightarrow> bool" where
  "is_bool_lit p want \<longleftrightarrow> (case p of PLiteral (CBool b) \<Rightarrow> b = want | _ \<Rightarrow> False)"

definition is_catch_all :: "pattern \<Rightarrow> bool" where
  "is_catch_all p \<longleftrightarrow> (case p of PWildcard \<Rightarrow> True | _ \<Rightarrow> False)"

text \<open>\<open>Inr\<close> is the code's \<open>Ok\<close>, \<open>Inl\<close> its \<open>Err\<close> with the pieces unchanged.\<close>

fun fold_one :: "atom \<Rightarrow> match_arm list \<Rightarrow> (atom \<times> match_arm list) + stmt_kind" where
  "fold_one subject [a0] =
     (if is_bool_lit (arm_pattern a0) True then Inr (If subject (arm_body a0) [])
      else Inl (subject, [a0]))"
| "fold_one subject [a0, a1] =
     (let p0 = arm_pattern a0; p1 = arm_pattern a1
      in if is_bool_lit p0 True \<and> (is_catch_all p1 \<or> is_bool_lit p1 False)
         then Inr (If subject (arm_body a0) (arm_body a1))
         else if is_bool_lit p0 False \<and> (is_catch_all p1 \<or> is_bool_lit p1 True)
         then Inr (If subject (arm_body a1) (arm_body a0))
         else Inl (subject, [a0, a1]))"
| "fold_one subject arms = Inl (subject, arms)"

fun fold_block :: "block \<Rightarrow> block"
  and fold_stmt :: "stmt_kind \<Rightarrow> stmt_kind"
  and fold_cases :: "(i64 \<times> block) list \<Rightarrow> (i64 \<times> block) list"
  and fold_arms :: "match_arm list \<Rightarrow> match_arm list" where
  "fold_block [] = []"
| "fold_block (Stmt k r # ss) = Stmt (fold_stmt k) r # fold_block ss"
| "fold_stmt (If c t e) = If c (fold_block t) (fold_block e)"
| "fold_stmt (Loop b) = Loop (fold_block b)"
| "fold_stmt (Switch c arms dflt) = Switch c (fold_cases arms) (fold_block dflt)"
| "fold_stmt (Match subject arms) =
     (case fold_one subject (fold_arms arms) of
        Inr folded \<Rightarrow> folded
      | Inl (subject', arms') \<Rightarrow> Match subject' arms')"
| "fold_stmt k = k"
| "fold_cases [] = []"
| "fold_cases ((i, b) # arms) = (i, fold_block b) # fold_cases arms"
| "fold_arms [] = []"
| "fold_arms (MatchArm p b # arms) = MatchArm p (fold_block b) # fold_arms arms"

definition fold_function :: "ir_function \<Rightarrow> ir_function" where
  "fold_function f = f\<lparr>body := fold_block (body f)\<rparr>"

definition fold_bool_matches :: "ir_program \<Rightarrow> ir_program" where
  "fold_bool_matches p = p\<lparr>prog_functions := map fold_function (prog_functions p)\<rparr>"

section \<open>Passes that change no run\<close>

text \<open>
  The contract: the rewritten function has the same frame, and its body runs as the original
  one does as long as the calls it makes agree. It is enough for the whole program.
\<close>

locale exact_pass =
  fixes tr :: "ir_function \<Rightarrow> ir_function"
  assumes same_params: "params (tr f) = params f"
    and same_captures: "captures (tr f) = captures f"
    and same_body: "(\<And>k w g args caps. k \<le> n \<Longrightarrow>
        call (map tr P) pr k w g args caps = call P pr k (w :: 'w) g args caps) \<Longrightarrow>
      exec_block (map tr P) pr n e ds w (body (tr f)) = exec_block P pr n e ds w (body f)"
begin

lemma same_frame: "frame (tr f) args caps = frame f args caps"
  by (simp add: frame_def same_params same_captures)

lemma same_call: "call (map tr P) pr n w g args caps = call P pr n (w :: 'w) g args caps"
proof (induction n arbitrary: w g args caps rule: less_induct)
  case (less n)
  show ?case
  proof (cases n)
    case 0
    then show ?thesis by (simp add: call.simps)
  next
    case (Suc m)
    have "exec_block (map tr P) pr m e [] w (body (tr f)) = exec_block P pr m e [] w (body f)" for e f
      by (rule same_body) (simp add: less.IH Suc)
    then show ?thesis
      by (simp add: Suc call.simps [of _ _ "Suc m"] same_frame split: option.splits)
  qed
qed

lemma same_returns: "returns (map tr P) pr g args caps (w :: 'w) = returns P pr g args caps w"
  by (simp add: returns_def fun_eq_iff same_call)

lemma same_goes_wrong: "goes_wrong (map tr P) pr g args caps (w :: 'w) = goes_wrong P pr g args caps w"
  by (simp add: goes_wrong_def same_call)

end

section \<open>The fold changes no run\<close>

lemma is_bool_lit_iff: "is_bool_lit p b \<longleftrightarrow> p = PLiteral (CBool b)"
  by (auto simp: is_bool_lit_def split: pattern.splits const.splits)

lemma is_catch_all_iff: "is_catch_all p \<longleftrightarrow> p = PWildcard"
  by (auto simp: is_catch_all_def split: pattern.splits)

lemma bind_all_Nil [simp]: "bind_all e [] = e"
  by (simp add: bind_all_def)

text \<open>One folded \<open>Match\<close> runs as the \<open>Match\<close> did.\<close>

lemma exec_fold_one:
  assumes "fold_one c arms = Inr k"
  shows "exec P pr n e ds w k = exec P pr n e ds w (Match c arms)"
  using assms
proof (induction c arms rule: fold_one.induct)
  case (1 c a0)
  then show ?case
    by (cases a0) (auto simp: is_bool_lit_iff split: if_splits option.splits val.splits)
next
  case (2 c a0 a1)
  then show ?case
    by (cases a0; cases a1)
      (auto simp: Let_def is_bool_lit_iff is_catch_all_iff
        split: if_splits option.splits val.splits)
qed simp_all

lemma fold_one_Inl: "fold_one c arms = Inl (c', arms') \<Longrightarrow> c' = c \<and> arms' = arms"
  by (induction c arms rule: fold_one.induct) (auto simp: Let_def split: if_splits)

lemma exec_fold_Match:
  "exec P pr n e ds w (fold_stmt (Match c arms)) = exec P pr n e ds w (Match c (fold_arms arms))"
  by (cases "fold_one c (fold_arms arms)") (auto simp: exec_fold_one dest: fold_one_Inl)

lemma switch_arm_fold: "switch_arm (fold_cases arms) (fold_block d) k = fold_block (switch_arm arms d k)"
  by (induction arms d k rule: switch_arm.induct) auto

lemma match_arms_fold:
  "match_arms (fold_arms arms) v =
     (case match_arms arms v of Done (Some (bs, b)) \<Rightarrow> Done (Some (bs, fold_block b)) | r \<Rightarrow> r)"
  by (induction arms v rule: match_arms.induct) (auto split: matched.splits)

lemma kind_fold_block: "fold_block (s # ss) = Stmt (fold_stmt (kind s)) (stmt_range s) # fold_block ss"
  by (cases s) simp

definition calls_agree :: "ir_function list \<Rightarrow> ir_function list \<Rightarrow> 'w prim \<Rightarrow> nat \<Rightarrow> bool" where
  "calls_agree P' P pr N \<longleftrightarrow>
     (\<forall>k \<le> N. \<forall>w g args caps. call P' pr k w g args caps = call P pr k w g args caps)"

lemma exec_fold:
  assumes "calls_agree P' P pr N"
  shows "n \<le> N \<Longrightarrow> exec_block P' pr n e ds w (fold_block b) = exec_block P pr n e ds w b"
    and "n \<le> N \<Longrightarrow> exec P' pr n e ds w (fold_stmt k) = exec P pr n e ds w k"
    and "n \<le> N \<Longrightarrow> run_rv P' pr n e w rv = run_rv P pr n e w rv"
    and "n \<le> N \<Longrightarrow> run_defers P' pr n w ds = run_defers P pr n w ds"
    and "n \<le> N \<Longrightarrow> call P' pr n w f args caps = call P pr n w f args caps"
  using assms
proof (induction P pr n e ds w b and P pr n e ds w k and P pr n e w rv and P pr n w ds
    and P pr n w f args caps rule: exec_induct)
  case (2 P pr n e ds w s ss)
  then show ?case
    by (cases "exec P pr n e ds w (kind s)") (auto simp: kind_fold_block split: outcome.splits)
next
  case (7 P pr n e ds w c arms)
  then show ?case
    unfolding exec_fold_Match
    by (auto simp: match_arms_fold split: option.splits res.splits)
next
  case (8 P pr n e ds w b)
  show ?case
  proof (cases n)
    case (Suc m)
    with 8 show ?thesis
      by (cases "exec_block P pr m e ds w b")
        (auto simp: exec_Loop [of _ pr "Suc m" e ds w] split: outcome.splits)
  qed (simp add: exec_Loop)
next
  case (14 P pr n e w rv)
  then show ?case by (simp add: run_rv.simps split: option.splits callsite.splits)
qed (auto simp: switch_arm_fold calls_agree_def split: option.splits val.splits)

interpretation bool_fold: exact_pass fold_function
proof
  fix n P pr e ds f and w :: 'a
  assume "\<And>k w g args caps. k \<le> n \<Longrightarrow>
    call (map fold_function P) pr k w g args caps = call P pr k (w :: 'a) g args caps"
  then have "calls_agree (map fold_function P) P pr n" by (simp add: calls_agree_def)
  from exec_fold(1) [OF this order_refl]
  show "exec_block (map fold_function P) pr n e ds w (body (fold_function f))
      = exec_block P pr n e ds w (body f)"
    by (simp add: fold_function_def)
qed (simp_all add: fold_function_def)

section \<open>One run of the pass is enough\<close>

text \<open>Code in which no \<open>Match\<close> is left for the pass to fold.\<close>

fun settled :: "block \<Rightarrow> bool"
  and settled_stmt :: "stmt_kind \<Rightarrow> bool"
  and settled_cases :: "(i64 \<times> block) list \<Rightarrow> bool"
  and settled_arms :: "match_arm list \<Rightarrow> bool" where
  "settled [] = True"
| "settled (Stmt k r # ss) = (settled_stmt k \<and> settled ss)"
| "settled_stmt (If c t e) = (settled t \<and> settled e)"
| "settled_stmt (Loop b) = settled b"
| "settled_stmt (Switch c arms dflt) = (settled_cases arms \<and> settled dflt)"
| "settled_stmt (Match c arms) = (fold_one c arms = Inl (c, arms) \<and> settled_arms arms)"
| "settled_stmt k = True"
| "settled_cases [] = True"
| "settled_cases ((i, b) # arms) = (settled b \<and> settled_cases arms)"
| "settled_arms [] = True"
| "settled_arms (MatchArm p b # arms) = (settled b \<and> settled_arms arms)"

lemma settled_fold_one: "fold_one c arms = Inr k \<Longrightarrow> settled_arms arms \<Longrightarrow> settled_stmt k"
proof (induction c arms rule: fold_one.induct)
  case (1 c a0)
  then show ?case by (cases a0) (auto split: if_splits)
next
  case (2 c a0 a1)
  then show ?case by (cases a0; cases a1) (auto simp: Let_def split: if_splits)
qed simp_all

lemma settled_fold:
  "settled (fold_block b)" "settled_stmt (fold_stmt k)"
  "settled_cases (fold_cases cs)" "settled_arms (fold_arms arms)"
proof (induction b and k and cs and arms rule: fold_block_fold_stmt_fold_cases_fold_arms.induct)
  case (6 c arms)
  show ?case
  proof (cases "fold_one c (fold_arms arms)")
    case (Inl x)
    with 6 fold_one_Inl [of c "fold_arms arms" "fst x" "snd x"] show ?thesis
      by (cases x) auto
  next
    case (Inr k)
    with 6 show ?thesis by (auto dest: settled_fold_one)
  qed
qed auto

lemma fold_settled:
  "settled b \<Longrightarrow> fold_block b = b" "settled_stmt k \<Longrightarrow> fold_stmt k = k"
  "settled_cases cs \<Longrightarrow> fold_cases cs = cs" "settled_arms arms \<Longrightarrow> fold_arms arms = arms"
  by (induction b and k and cs and arms rule: fold_block_fold_stmt_fold_cases_fold_arms.induct) auto

section \<open>Properties\<close>

text \<open>
  C18. Folding boolean matches changes no run: every call of every function of the program
  gives the same result, the same trap or the same exhaustion of fuel, at every fuel.
\<close>

theorem fold_bool_matches_correct:
  "call (prog_functions (fold_bool_matches p)) pr n w g args caps
     = call (prog_functions p) pr n w g args caps"
  by (simp add: fold_bool_matches_def bool_fold.same_call)

text \<open>
  The pass reaches its fixed point in one run: nothing foldable is left, and a second
  run changes nothing.
\<close>

lemma fold_bool_matches_idempotent:
  "fold_bool_matches (fold_bool_matches p) = fold_bool_matches p"
  by (simp add: fold_bool_matches_def fold_function_def fold_settled(1) settled_fold(1))

end
