(* ===== verification/IrRuns.thy ===== *)
theory IrRuns
  imports IrSem
begin

text \<open>
  Runs of the IR that reach a result, with the fuel hidden: \<open>runs_block\<close>, \<open>runs\<close>, \<open>evals\<close>
  and \<open>runs_defers\<close> say that some fuel is enough. Their rules compose runs statement by
  statement, as a big-step semantics does; \<open>env_le\<close> and \<open>out_match\<close> compare the frames of
  two programs run side by side.
\<close>

definition runs_block where
  "runs_block P pr e ds w b r w' \<longleftrightarrow> (\<exists>n. exec_block P pr n e ds w b = Done (r, w'))"

definition runs where
  "runs P pr e ds w k r w' \<longleftrightarrow> (\<exists>n. exec P pr n e ds w k = Done (r, w'))"

definition evals where
  "evals P pr e w rv v w' \<longleftrightarrow> (\<exists>n. run_rv P pr n e w rv = Done (v, w'))"

definition runs_defers where
  "runs_defers P pr w ds w' \<longleftrightarrow> (\<exists>n. run_defers P pr n w ds = Done w')"

lemmas runs_defs = runs_block_def runs_def evals_def runs_defers_def returns_def

lemma done_block: "exec_block P pr n e ds w b = Done x \<Longrightarrow> n \<le> m \<Longrightarrow> exec_block P pr m e ds w b = Done x"
  using more_fuel(1) [of n m P pr e ds w b] by simp

lemma done_exec: "exec P pr n e ds w k = Done x \<Longrightarrow> n \<le> m \<Longrightarrow> exec P pr m e ds w k = Done x"
  using more_fuel(2) [of n m P pr e ds w k] by simp

lemma done_rv: "run_rv P pr n e w rv = Done y \<Longrightarrow> n \<le> m \<Longrightarrow> run_rv P pr m e w rv = Done y"
  using more_fuel(3) [of n m P pr e w rv] by simp

lemma done_defers: "run_defers P pr n w ds = Done z \<Longrightarrow> n \<le> m \<Longrightarrow> run_defers P pr m w ds = Done z"
  using more_fuel(4) [of n m P pr w ds] by simp

lemma done_call:
  "call P pr n w f args caps = Done y \<Longrightarrow> n \<le> m \<Longrightarrow> call P pr m w f args caps = Done y"
  using more_fuel(5) [of n m P pr w f args caps] by simp

lemmas done_at = done_block done_exec done_rv done_defers done_call

lemma bind_res_Done: "bind_res m f = Done y \<longleftrightarrow> (\<exists>x. m = Done x \<and> f x = Done y)"
  by (cases m) auto

section \<open>Induction over a run of a block\<close>

text \<open>
  The induction rule of \<open>exec\<close> for one program, with the calls left out: what a property of
  blocks and statements needs.
\<close>

lemma exec_pair_induct [case_names Nil Cons Let Discard If Switch Match Loop Break Continue
    Return PushDefer RunDefer]:
  fixes A :: "nat \<Rightarrow> env \<Rightarrow> val list \<Rightarrow> 'w \<Rightarrow> block \<Rightarrow> bool"
    and B :: "nat \<Rightarrow> env \<Rightarrow> val list \<Rightarrow> 'w \<Rightarrow> stmt_kind \<Rightarrow> bool"
  assumes Nil: "\<And>n e ds w. A n e ds w []"
    and Cons: "\<And>n e ds w s ss. B n e ds w (kind s) \<Longrightarrow>
      (\<And>e' ds' w'. exec P pr n e ds w (kind s) = Done (Norm e' ds', w') \<Longrightarrow> A n e' ds' w' ss) \<Longrightarrow>
      A n e ds w (s # ss)"
    and Let: "\<And>n e ds w x rv. B n e ds w (Let x rv)"
    and Discard: "\<And>n e ds w rv. B n e ds w (Discard rv)"
    and If: "\<And>n e ds w c t f. (\<And>b. eval_atom e c = Some (VBool b) \<Longrightarrow> A n e ds w (if b then t else f)) \<Longrightarrow>
      B n e ds w (If c t f)"
    and Switch: "\<And>n e ds w c arms d.
      (\<And>k. eval_atom e c = Some (VInt k) \<Longrightarrow> A n e ds w (switch_arm arms d k)) \<Longrightarrow>
      B n e ds w (Switch c arms d)"
    and Match: "\<And>n e ds w c arms.
      (\<And>v bs b. eval_atom e c = Some v \<Longrightarrow> match_arms arms v = Done (Some (bs, b)) \<Longrightarrow>
         A n (bind_all e bs) ds w b) \<Longrightarrow>
      B n e ds w (Match c arms)"
    and Loop: "\<And>n e ds w b. (\<And>m. n = Suc m \<Longrightarrow> A m e ds w b) \<Longrightarrow>
      (\<And>m r e' ds' w'. n = Suc m \<Longrightarrow> exec_block P pr m e ds w b = Done (r, w') \<Longrightarrow>
         r = Norm e' ds' \<or> r = Cont e' ds' \<Longrightarrow> B m e' ds' w' (Loop b)) \<Longrightarrow>
      B n e ds w (Loop b)"
    and Break: "\<And>n e ds w. B n e ds w Break_stmt"
    and Continue: "\<And>n e ds w. B n e ds w Continue_stmt"
    and Return: "\<And>n e ds w a. B n e ds w (Return a)"
    and PushDefer: "\<And>n e ds w a. B n e ds w (PushDefer a)"
    and RunDefer: "\<And>n e ds w d. B n e ds w (RunDefer d)"
  shows "A n e ds w b" and "B n e ds w k"
proof -
  let ?A = "\<lambda>P' pr' n e ds w b. P' = P \<longrightarrow> pr' = pr \<longrightarrow> A n e ds w b"
  let ?B = "\<lambda>P' pr' n e ds w k. P' = P \<longrightarrow> pr' = pr \<longrightarrow> B n e ds w k"
  note rule = exec_induct [of ?A ?B "\<lambda>_ _ _ _ _ _. True" "\<lambda>_ _ _ _ _. True" "\<lambda>_ _ _ _ _ _ _. True"]
  have "?A P pr n e ds w b" and "?B P pr n e ds w k"
    by (rule rule; auto intro: assms)+
  then show "A n e ds w b" and "B n e ds w k" by simp_all
qed

section \<open>Composing runs\<close>

lemma runs_block_Nil [simp]: "runs_block P pr e ds w [] (Norm e ds) w"
  by (simp add: runs_block_def)

lemma runs_block_Nil_iff: "runs_block P pr e ds w [] r w' \<longleftrightarrow> r = Norm e ds \<and> w' = w"
  by (auto simp: runs_block_def)

lemma runs_block_Cons:
  assumes "runs P pr e ds w (kind s) (Norm e1 ds1) w1" and "runs_block P pr e1 ds1 w1 ss r w2"
  shows "runs_block P pr e ds w (s # ss) r w2"
proof -
  from assms obtain n m where "exec P pr n e ds w (kind s) = Done (Norm e1 ds1, w1)"
    and "exec_block P pr m e1 ds1 w1 ss = Done (r, w2)"
    by (auto simp: runs_defs)
  then have "exec P pr (max n m) e ds w (kind s) = Done (Norm e1 ds1, w1)"
    and "exec_block P pr (max n m) e1 ds1 w1 ss = Done (r, w2)"
    by (auto intro: done_at)
  then have "exec_block P pr (max n m) e ds w (s # ss) = Done (r, w2)" by simp
  then show ?thesis by (auto simp: runs_block_def)
qed

definition leaves :: "outcome \<Rightarrow> bool" where
  "leaves r \<longleftrightarrow> (case r of Norm _ _ \<Rightarrow> False | _ \<Rightarrow> True)"

lemma leaves_simps [simp]:
  "\<not> leaves (Norm e ds)" "leaves (Brk e ds)" "leaves (Cont e ds)" "leaves (Ret v)"
  by (simp_all add: leaves_def)

lemma runs_block_exit:
  "runs P pr e ds w (kind s) r w' \<Longrightarrow> leaves r \<Longrightarrow> runs_block P pr e ds w (s # ss) r w'"
  by (cases r) (fastforce simp: runs_defs bind_res_Done)+

lemma exec_block_append:
  "exec_block P pr n e ds w (xs @ ys) =
     bind_res (exec_block P pr n e ds w xs) (\<lambda>(r, w').
       case r of Norm e' ds' \<Rightarrow> exec_block P pr n e' ds' w' ys | _ \<Rightarrow> Done (r, w'))"
proof (induction xs arbitrary: e ds w)
  case (Cons s xs)
  then show ?case by (cases "exec P pr n e ds w (kind s)") (auto split: outcome.splits)
qed simp

lemma runs_block_append:
  assumes "runs_block P pr e ds w xs (Norm e1 ds1) w1" and "runs_block P pr e1 ds1 w1 ys r w2"
  shows "runs_block P pr e ds w (xs @ ys) r w2"
proof -
  from assms obtain n m where "exec_block P pr n e ds w xs = Done (Norm e1 ds1, w1)"
    and "exec_block P pr m e1 ds1 w1 ys = Done (r, w2)"
    by (auto simp: runs_defs)
  then have "exec_block P pr (max n m) e ds w xs = Done (Norm e1 ds1, w1)"
    and "exec_block P pr (max n m) e1 ds1 w1 ys = Done (r, w2)"
    by (auto intro: done_at)
  then have "exec_block P pr (max n m) e ds w (xs @ ys) = Done (r, w2)"
    by (simp add: exec_block_append)
  then show ?thesis by (auto simp: runs_block_def)
qed

lemma runs_block_append_exit:
  "runs_block P pr e ds w xs r w' \<Longrightarrow> leaves r \<Longrightarrow> runs_block P pr e ds w (xs @ ys) r w'"
  by (cases r) (fastforce simp: runs_block_def exec_block_append bind_res_Done)+

lemma runs_block_single: "runs P pr e ds w (kind s) r w' \<Longrightarrow> runs_block P pr e ds w [s] r w'"
proof (cases r)
  case (Norm e1 ds1)
  assume "runs P pr e ds w (kind s) r w'"
  with Norm show ?thesis using runs_block_Cons runs_block_Nil by metis
qed (auto intro: runs_block_exit)

lemma runs_Let: "evals P pr e w rv v w' \<Longrightarrow> runs P pr e ds w (Let x rv) (Norm (e(x \<mapsto> v)) ds) w'"
  by (auto simp: runs_defs bind_res_Done)

lemma runs_Let_Use:
  "eval_atom e a = Some v \<Longrightarrow> runs P pr e ds w (Let x (Use a)) (Norm (e(x \<mapsto> v)) ds) w"
  by (rule runs_Let) (auto simp: evals_def run_rv.simps dispatch_rv_def eval_prim_def)

lemma runs_Discard: "evals P pr e w rv v w' \<Longrightarrow> runs P pr e ds w (Discard rv) (Norm e ds) w'"
  by (auto simp: runs_defs bind_res_Done)

lemma runs_If:
  "eval_atom e c = Some (VBool b) \<Longrightarrow> runs_block P pr e ds w (if b then t else f) r w' \<Longrightarrow>
   runs P pr e ds w (If c t f) r w'"
  by (auto simp: runs_defs)

lemma runs_Switch:
  "eval_atom e c = Some (VInt k) \<Longrightarrow> runs_block P pr e ds w (switch_arm arms d k) r w' \<Longrightarrow>
   runs P pr e ds w (Switch c arms d) r w'"
  by (auto simp: runs_defs)

lemma runs_Match_none:
  "eval_atom e c = Some v \<Longrightarrow> match_arms arms v = Done None \<Longrightarrow>
   runs P pr e ds w (Match c arms) (Norm e ds) w"
  by (auto simp: runs_defs)

lemma runs_Match_some:
  "eval_atom e c = Some v \<Longrightarrow> match_arms arms v = Done (Some (bs, b)) \<Longrightarrow>
   runs_block P pr (bind_all e bs) ds w b r w' \<Longrightarrow> runs P pr e ds w (Match c arms) r w'"
  by (auto simp: runs_defs)

lemma runs_PushDefer:
  "eval_atom e a = Some d \<Longrightarrow> runs P pr e ds w (PushDefer a) (Norm e (d # ds)) w"
  by (auto simp: runs_defs)

lemma runs_Return:
  "eval_atom e a = Some v \<Longrightarrow> runs_defers P pr w ds w' \<Longrightarrow> runs P pr e ds w (Return a) (Ret v) w'"
  by (auto simp: runs_defs bind_res_Done)

lemma runs_Break: "runs P pr e ds w Break_stmt (Brk e ds) w"
  and runs_Continue: "runs P pr e ds w Continue_stmt (Cont e ds) w"
  by (auto simp: runs_defs)

lemma runs_Loop_exit:
  assumes "runs_block P pr e ds w b r w'" and "r = Brk e1 ds1 \<and> r' = Norm e1 ds1 \<or> r = Ret v \<and> r' = Ret v"
  shows "runs P pr e ds w (Loop b) r' w'"
proof -
  from assms(1) obtain n where "exec_block P pr n e ds w b = Done (r, w')" by (auto simp: runs_defs)
  with assms(2) have "exec P pr (Suc n) e ds w (Loop b) = Done (r', w')"
    by (auto simp: exec_Loop)
  then show ?thesis by (auto simp: runs_defs)
qed

lemma runs_Loop_next:
  assumes "runs_block P pr e ds w b r1 w1" and "r1 = Norm e1 ds1 \<or> r1 = Cont e1 ds1"
    and "runs P pr e1 ds1 w1 (Loop b) r w2"
  shows "runs P pr e ds w (Loop b) r w2"
proof -
  from assms obtain n m where "exec_block P pr n e ds w b = Done (r1, w1)"
    and "exec P pr m e1 ds1 w1 (Loop b) = Done (r, w2)"
    by (auto simp: runs_defs)
  then have "exec_block P pr (max n m) e ds w b = Done (r1, w1)"
    and "exec P pr (max n m) e1 ds1 w1 (Loop b) = Done (r, w2)"
    by (auto intro: done_at)
  with assms(2) have "exec P pr (Suc (max n m)) e ds w (Loop b) = Done (r, w2)"
    by (auto simp: exec_Loop [of P pr "Suc (max n m)" e ds w b])
  then show ?thesis by (auto simp: runs_defs)
qed

lemma runs_defers_Nil_iff [simp]: "runs_defers P pr w [] w' \<longleftrightarrow> w' = w"
  by (auto simp: runs_defers_def)

lemma runs_defers_Cons:
  assumes "returns P pr f [] caps w v w1" and "runs_defers P pr w1 ds w2"
  shows "runs_defers P pr w (VClosure f caps # ds) w2"
proof -
  from assms obtain n m where "call P pr n w f [] caps = Done (v, w1)"
    and "run_defers P pr m w1 ds = Done w2"
    by (auto simp: runs_defs)
  then have "call P pr (max n m) w f [] caps = Done (v, w1)"
    and "run_defers P pr (max n m) w1 ds = Done w2"
    by (auto intro: done_at)
  then have "run_defers P pr (max n m) w (VClosure f caps # ds) = Done w2" by simp
  then show ?thesis by (auto simp: runs_defs)
qed

lemma run_defers_append:
  "run_defers P pr n w (xs @ ys) =
     bind_res (run_defers P pr n w xs) (\<lambda>w'. run_defers P pr n w' ys)"
proof (induction xs arbitrary: w)
  case (Cons d xs)
  show ?case
  proof (cases d)
    case (VClosure f caps)
    with Cons show ?thesis by (cases "call P pr n w f [] caps") auto
  qed auto
qed simp

lemma runs_defers_append:
  assumes "runs_defers P pr w xs w1" and "runs_defers P pr w1 ys w2"
  shows "runs_defers P pr w (xs @ ys) w2"
proof -
  from assms obtain n m where "run_defers P pr n w xs = Done w1" and "run_defers P pr m w1 ys = Done w2"
    by (auto simp: runs_defs)
  then have "run_defers P pr (max n m) w xs = Done w1" and "run_defers P pr (max n m) w1 ys = Done w2"
    by (auto intro: done_at)
  then have "run_defers P pr (max n m) w (xs @ ys) = Done w2" by (simp add: run_defers_append)
  then show ?thesis by (auto simp: runs_defs)
qed

lemma evals_known:
  assumes "eval_atoms e (operands rv) = Some vs" and "dispatch_rv rv vs = Known f args caps"
    and "returns P pr f args caps w v w'"
  shows "evals P pr e w rv v w'"
  using assms by (auto simp: runs_defs run_rv.simps)

lemma evals_primitive:
  assumes "eval_atoms e (operands rv) = Some vs" and "dispatch_rv rv vs = Primitive us"
    and "eval_prim pr rv us w = Some (v, w')"
  shows "evals P pr e w rv v w'"
  using assms by (auto simp: runs_defs run_rv.simps)

lemma returnsI:
  assumes "f < length P" and "frame (P ! f) args caps = Some e"
    and "runs_block P pr e [] w (body (P ! f)) (Ret v) w'"
  shows "returns P pr f args caps w v w'"
proof -
  from assms(3) obtain n where "exec_block P pr n e [] w (body (P ! f)) = Done (Ret v, w')"
    by (auto simp: runs_defs)
  with assms have "call P pr (Suc n) w f args caps = Done (v, w')" by (simp add: call.simps)
  then show ?thesis by (auto simp: returns_def)
qed

lemma call_DoneE:
  assumes "call P pr n w f args caps = Done (v, w')"
  obtains m e where "n = Suc m" and "f < length P" and "frame (P ! f) args caps = Some e"
    and "exec_block P pr m e [] w (body (P ! f)) = Done (Ret v, w')"
proof (cases n)
  case (Suc m)
  with assms obtain e r w1 where e: "f < length P" "frame (P ! f) args caps = Some e"
    and r: "exec_block P pr m e [] w (body (P ! f)) = Done (r, w1)"
    "(case r of Ret v \<Rightarrow> Done (v, w1) | _ \<Rightarrow> Stuck) = Done (v, w')"
    by (auto simp: call.simps bind_res_Done split: if_splits option.splits)
  from r(2) have "r = Ret v" "w1 = w'" by (cases r; simp)+
  with that Suc e r(1) show ?thesis by blast
qed (use assms in \<open>simp add: call.simps\<close>)

section \<open>Frames compared\<close>

text \<open>
  \<open>e2\<close> binds every variable of \<open>V\<close> that \<open>e\<close> binds, to the same value.
\<close>

definition env_le :: "var_id set \<Rightarrow> env \<Rightarrow> env \<Rightarrow> bool" where
  "env_le V e e2 \<longleftrightarrow> (\<forall>x \<in> V. e x \<noteq> None \<longrightarrow> e2 x = e x)"

lemma env_le_refl [simp]: "env_le V e e"
  by (simp add: env_le_def)

lemma env_le_upd: "env_le V e e2 \<Longrightarrow> env_le V (e(x \<mapsto> v)) (e2(x \<mapsto> v))"
  by (simp add: env_le_def)

lemma env_le_fresh: "env_le V e e2 \<Longrightarrow> x \<notin> V \<Longrightarrow> env_le V e (e2(x \<mapsto> v))"
  by (auto simp: env_le_def)

lemma env_le_bind_all: "env_le V e e2 \<Longrightarrow> env_le V (bind_all e bs) (bind_all e2 bs)"
  by (auto simp: env_le_def bind_all_def map_add_def split: option.splits)

lemma env_le_atom:
  "env_le V e e2 \<Longrightarrow> (\<And>x. a = AVar x \<Longrightarrow> x \<in> V) \<Longrightarrow> eval_atom e a = Some v \<Longrightarrow>
   eval_atom e2 a = Some v"
  by (cases a) (auto simp: env_le_def)

text \<open>
  The outcome of one program against that of another whose frame is larger and whose cleanup
  stack has \<open>ds0\<close> below: when a value is returned, \<open>ds0\<close> has been run too, to \<open>w2\<close>.
\<close>

fun out_match where
  "out_match V ds0 w2 (Norm e1 ds1) w1 r' w' \<longleftrightarrow>
     (\<exists>e3. r' = Norm e3 (ds1 @ ds0) \<and> env_le V e1 e3 \<and> w' = w1)"
| "out_match V ds0 w2 (Brk e1 ds1) w1 r' w' \<longleftrightarrow>
     (\<exists>e3. r' = Brk e3 (ds1 @ ds0) \<and> env_le V e1 e3 \<and> w' = w1)"
| "out_match V ds0 w2 (Cont e1 ds1) w1 r' w' \<longleftrightarrow>
     (\<exists>e3. r' = Cont e3 (ds1 @ ds0) \<and> env_le V e1 e3 \<and> w' = w1)"
| "out_match V ds0 w2 (Ret v) w1 r' w' \<longleftrightarrow> r' = Ret v \<and> w' = w2"

lemma out_match_leaves: "out_match V ds0 w2 r w1 r' w' \<Longrightarrow> leaves r' = leaves r"
  by (cases r) auto

end
