(* ===== verification/Loopify.thy ===== *)
theory Loopify
  imports IrRuns
begin

text \<open>
  The pass of \<open>ir/src/loopify.rs\<close>: a function that ends in a dispatch (\<open>Match\<close> or \<open>If\<close>)
  whose branches return or tail-call the function itself becomes one \<open>Loop\<close> over its
  parameters. The pass is fallible in the model (\<open>None\<close> is the code's \<open>unreachable!\<close> or
  \<open>expect\<close>), and shown never to fail.
\<close>

section \<open>Variables of a function\<close>

fun lp_atom_var :: "atom \<Rightarrow> var_id list" where
  "lp_atom_var (AVar v) = [v]"
| "lp_atom_var (AConst c) = []"

definition lp_atom_vars :: "atom list \<Rightarrow> var_id list" where
  "lp_atom_vars as = concat (map lp_atom_var as)"

fun lp_rvalue_vars :: "rvalue \<Rightarrow> var_id list" where
  "lp_rvalue_vars (Use x) = lp_atom_var x"
| "lp_rvalue_vars (Not x) = lp_atom_var x"
| "lp_rvalue_vars (Box x) = lp_atom_var x"
| "lp_rvalue_vars (Unbox x _) = lp_atom_var x"
| "lp_rvalue_vars (Bin _ x y) = lp_atom_var x @ lp_atom_var y"
| "lp_rvalue_vars (Call _ args) = lp_atom_vars args"
| "lp_rvalue_vars (TailCallDirect _ args) = lp_atom_vars args"
| "lp_rvalue_vars (MakeDict args) = lp_atom_vars args"
| "lp_rvalue_vars (MakeTuple args) = lp_atom_vars args"
| "lp_rvalue_vars (Interpolate args) = lp_atom_vars args"
| "lp_rvalue_vars (MakeClosure _ args) = lp_atom_vars args"
| "lp_rvalue_vars (MakeVariant _ _ args) = lp_atom_vars args"
| "lp_rvalue_vars (CallClosure f args) = lp_atom_var f @ lp_atom_vars args"
| "lp_rvalue_vars (TailCall f args) = lp_atom_var f @ lp_atom_vars args"
| "lp_rvalue_vars (RecordUpdate base fs _) = lp_atom_var base @ lp_atom_vars (map snd fs)"
| "lp_rvalue_vars (MakeRecord fs _) = lp_atom_vars (map snd fs)"
| "lp_rvalue_vars (GetField x _ _) = lp_atom_var x"
| "lp_rvalue_vars (GetElement x _) = lp_atom_var x"
| "lp_rvalue_vars (GetTag x) = lp_atom_var x"
| "lp_rvalue_vars (GetPayload x _) = lp_atom_var x"
| "lp_rvalue_vars (GetDictMethod x _) = lp_atom_var x"
| "lp_rvalue_vars (Await x) = lp_atom_var x"
| "lp_rvalue_vars (MakeList items) = lp_atom_vars (map item_atom items)"
| "lp_rvalue_vars (GlobalRef _) = []"
| "lp_rvalue_vars (Builtin _) = []"
| "lp_rvalue_vars (MakeVariantCtor _ _) = []"

fun lp_pattern_vars :: "pattern \<Rightarrow> var_id list" where
  "lp_pattern_vars (PBind v) = [v]"
| "lp_pattern_vars (PVariant _ _ ps) = concat (map lp_pattern_vars ps)"
| "lp_pattern_vars (PTuple ps) = concat (map lp_pattern_vars ps)"
| "lp_pattern_vars (PList items rest) =
     concat (map lp_pattern_vars items)
       @ (case rest of Some (ListRest_Bind v) \<Rightarrow> [v] | _ \<Rightarrow> [])"
| "lp_pattern_vars (PRecord fs rest _) =
     concat (map (\<lambda>f. lp_pattern_vars (snd f)) fs)
       @ (case rest of RecordRest_Bind v \<Rightarrow> [v] | _ \<Rightarrow> [])"
| "lp_pattern_vars PWildcard = []"
| "lp_pattern_vars (PLiteral _) = []"

text \<open>The variables \<open>walk\<close> visits, in its order.\<close>

fun lp_block_vars :: "block \<Rightarrow> var_id list"
  and lp_stmt_vars :: "stmt_kind \<Rightarrow> var_id list"
  and lp_case_vars :: "(i64 \<times> block) list \<Rightarrow> var_id list"
  and lp_arm_vars :: "match_arm list \<Rightarrow> var_id list" where
  "lp_block_vars [] = []"
| "lp_block_vars (Stmt k r # ss) = lp_stmt_vars k @ lp_block_vars ss"
| "lp_stmt_vars (Let v rv) = v # lp_rvalue_vars rv"
| "lp_stmt_vars (Discard rv) = lp_rvalue_vars rv"
| "lp_stmt_vars (Return a) = lp_atom_var a"
| "lp_stmt_vars (PushDefer a) = lp_atom_var a"
| "lp_stmt_vars (If c t e) = lp_atom_var c @ lp_block_vars t @ lp_block_vars e"
| "lp_stmt_vars (Switch c arms dflt) = lp_atom_var c @ lp_case_vars arms @ lp_block_vars dflt"
| "lp_stmt_vars (Match c arms) = lp_atom_var c @ lp_arm_vars arms"
| "lp_stmt_vars (Loop b) = lp_block_vars b"
| "lp_stmt_vars Break_stmt = []"
| "lp_stmt_vars Continue_stmt = []"
| "lp_stmt_vars (RunDefer _) = []"
| "lp_case_vars [] = []"
| "lp_case_vars ((i, b) # arms) = lp_block_vars b @ lp_case_vars arms"
| "lp_arm_vars [] = []"
| "lp_arm_vars (MatchArm p b # arms) = lp_pattern_vars p @ lp_block_vars b @ lp_arm_vars arms"

definition next_var :: "ir_function \<Rightarrow> nat" where
  "next_var f = foldl bump 0 (params f @ captures f @ lp_block_vars (body f))"

section \<open>Recognising the shape\<close>

definition is_dispatch :: "stmt_kind \<Rightarrow> bool" where
  "is_dispatch k \<longleftrightarrow> (case k of Match _ _ \<Rightarrow> True | If _ _ _ \<Rightarrow> True | _ \<Rightarrow> False)"

definition is_return :: "stmt_kind \<Rightarrow> bool" where
  "is_return k \<longleftrightarrow> (case k of Return _ \<Rightarrow> True | _ \<Rightarrow> False)"

text \<open>
  The recursive terminator of \<open>check_block\<close>: the last two statements are
  \<open>Let(v, TailCallDirect(self, args)); Return(v)\<close> with an argument per parameter.
\<close>

definition recursive_end :: "func_id \<Rightarrow> block \<Rightarrow> nat \<Rightarrow> bool" where
  "recursive_end self_id b arity \<longleftrightarrow>
     length b \<ge> 2 \<and>
     (case kind (b ! (length b - 2)) of
        Let v (TailCallDirect c args) \<Rightarrow>
          (case kind (b ! (length b - 1)) of
             Return (AVar rv) \<Rightarrow> c = self_id \<and> rv = v \<and> length args = arity
           | _ \<Rightarrow> False)
      | _ \<Rightarrow> False)"

lemma size_kind_last: "b \<noteq> [] \<Longrightarrow> size (kind (last b)) < size_list size b"
  by (induction b) (auto simp: less_Suc_eq_le intro: order_trans [OF size_kind] less_imp_le)

function (sequential) check_dispatch :: "func_id \<Rightarrow> stmt_kind \<Rightarrow> nat \<Rightarrow> nat option"
  and check_arms :: "func_id \<Rightarrow> match_arm list \<Rightarrow> nat \<Rightarrow> nat option"
  and check_block :: "func_id \<Rightarrow> block \<Rightarrow> nat \<Rightarrow> nat option" where
  "check_dispatch self_id (If c t e) arity =
     Option.bind (check_block self_id t arity) (\<lambda>m.
       Option.bind (check_block self_id e arity) (\<lambda>n. Some (m + n)))"
| "check_dispatch self_id (Match c arms) arity =
     (if arms \<noteq> [] \<and> arm_pattern (last arms) = PWildcard
      then check_arms self_id arms arity else None)"
| "check_dispatch self_id k arity = None"
| "check_arms self_id [] arity = Some 0"
| "check_arms self_id (MatchArm p b # arms) arity =
     Option.bind (check_block self_id b arity) (\<lambda>m.
       Option.bind (check_arms self_id arms arity) (\<lambda>n. Some (m + n)))"
| "check_block self_id b arity =
     (if b = [] then None
      else if recursive_end self_id b arity then Some 1
      else if is_return (kind (last b)) then Some 0
      else if is_dispatch (kind (last b)) then check_dispatch self_id (kind (last b)) arity
      else None)"
  by pat_completeness auto
termination
  by (relation "measure (\<lambda>x. case x of
        Inl (self_id, k, arity) \<Rightarrow> size k
      | Inr (Inl (self_id, arms, arity)) \<Rightarrow> size_list size arms
      | Inr (Inr (self_id, b, arity)) \<Rightarrow> size_list size b)")
    (auto dest: size_kind_last)

declare check_block.simps [simp del]

fun count_self_tailcalls :: "func_id \<Rightarrow> block \<Rightarrow> nat"
  and count_stmt :: "func_id \<Rightarrow> stmt_kind \<Rightarrow> nat"
  and count_cases :: "func_id \<Rightarrow> (i64 \<times> block) list \<Rightarrow> nat"
  and count_arms :: "func_id \<Rightarrow> match_arm list \<Rightarrow> nat" where
  "count_self_tailcalls self_id [] = 0"
| "count_self_tailcalls self_id (Stmt k r # ss) =
     count_stmt self_id k + count_self_tailcalls self_id ss"
| "count_stmt self_id (Let v rv) =
     (case rv of TailCallDirect c args \<Rightarrow> if c = self_id then 1 else 0 | _ \<Rightarrow> 0)"
| "count_stmt self_id (If c t e) = count_self_tailcalls self_id t + count_self_tailcalls self_id e"
| "count_stmt self_id (Switch c arms dflt) =
     count_cases self_id arms + count_self_tailcalls self_id dflt"
| "count_stmt self_id (Match c arms) = count_arms self_id arms"
| "count_stmt self_id (Loop b) = count_self_tailcalls self_id b"
| "count_stmt self_id k = 0"
| "count_cases self_id [] = 0"
| "count_cases self_id ((i, b) # arms) = count_self_tailcalls self_id b + count_cases self_id arms"
| "count_arms self_id [] = 0"
| "count_arms self_id (MatchArm p b # arms) =
     count_self_tailcalls self_id b + count_arms self_id arms"

section \<open>The rewriting\<close>

text \<open>
  The two loops of \<open>emit_reassign\<close>: every argument that is not its own parameter is staged
  into a fresh temporary, then the temporaries are written into the parameters.
\<close>

fun stage_args :: "range \<Rightarrow> (var_id \<times> atom) list \<Rightarrow> nat \<Rightarrow> block \<times> var_id option list \<times> nat" where
  "stage_args r [] next = ([], [], next)"
| "stage_args r ((p, a) # pas) next =
     (if a = AVar p
      then case stage_args r pas next of (ss, ts, next') \<Rightarrow> (ss, None # ts, next')
      else case stage_args r pas (next + 1) of (ss, ts, next') \<Rightarrow>
        (stmt_new (Let next (Use a)) r # ss, Some next # ts, next'))"

fun write_params :: "range \<Rightarrow> (var_id \<times> var_id option) list \<Rightarrow> block" where
  "write_params r [] = []"
| "write_params r ((p, None) # pts) = write_params r pts"
| "write_params r ((p, Some t) # pts) = stmt_new (Let p (Use (AVar t))) r # write_params r pts"

definition emit_reassign :: "block \<Rightarrow> var_id list \<Rightarrow> atom list \<Rightarrow> nat \<Rightarrow> range \<Rightarrow> block \<times> nat" where
  "emit_reassign stmts ps args next r =
     (case stage_args r (zip ps args) next of (staged, temps, next') \<Rightarrow>
        (stmts @ staged @ write_params r (zip ps temps), next'))"

text \<open>The test \<open>transform_block\<close> repeats: it does not look at the returned atom or the arity.\<close>

definition is_rec :: "func_id \<Rightarrow> block \<Rightarrow> atom list option" where
  "is_rec self_id b =
     (if length b \<ge> 2 \<and> is_return (kind (b ! (length b - 1)))
      then case kind (b ! (length b - 2)) of
             Let _ (TailCallDirect c args) \<Rightarrow> if c = self_id then Some args else None
           | _ \<Rightarrow> None
      else None)"

function (sequential) transform_block ::
    "func_id \<Rightarrow> block \<Rightarrow> var_id list \<Rightarrow> var_id \<Rightarrow> nat \<Rightarrow> (block \<times> nat) option"
  and transform_arms ::
    "func_id \<Rightarrow> match_arm list \<Rightarrow> var_id list \<Rightarrow> var_id \<Rightarrow> nat \<Rightarrow> (match_arm list \<times> nat) option"
where
  "transform_block self_id b ps result next =
     (case is_rec self_id b of
        Some args \<Rightarrow>
          (let r = stmt_range (b ! (length b - 1));
               (stmts, next') = emit_reassign (take (length b - 2) b) ps args next r
           in Some (stmts @ [stmt_new Continue_stmt r], next'))
      | None \<Rightarrow>
          if b = [] then None
          else let stmts = butlast b; r = stmt_range (last b)
            in case kind (last b) of
                 Return a \<Rightarrow>
                   Some (stmts @ [stmt_new (Let result (Use a)) r, stmt_new Break_stmt r], next)
               | If c t e \<Rightarrow>
                   Option.bind (transform_block self_id t ps result next) (\<lambda>(t', next1).
                     Option.bind (transform_block self_id e ps result next1) (\<lambda>(e', next2).
                       Some (stmts @ [stmt_new (If c t' e') r], next2)))
               | Match c arms \<Rightarrow>
                   Option.bind (transform_arms self_id arms ps result next) (\<lambda>(arms', next').
                     Some (stmts @ [stmt_new (Match c arms') r], next'))
               | _ \<Rightarrow> None)"
| "transform_arms self_id [] ps result next = Some ([], next)"
| "transform_arms self_id (MatchArm p b # arms) ps result next =
     Option.bind (transform_block self_id b ps result next) (\<lambda>(b', next1).
       Option.bind (transform_arms self_id arms ps result next1) (\<lambda>(arms', next2).
         Some (MatchArm p b' # arms', next2)))"
  by pat_completeness auto
termination
  by (relation "measure (\<lambda>x. case x of
        Inl (self_id, b, ps, result, next) \<Rightarrow> size_list size b
      | Inr (self_id, arms, ps, result, next) \<Rightarrow> size_list size arms)")
    (auto dest: size_kind_last)

declare transform_block.simps [simp del]

text \<open>The position of the dispatch: before a trailing \<open>Return\<close>, or last.\<close>

definition dispatch_index :: "block \<Rightarrow> nat option" where
  "dispatch_index b =
     (let n = length b
      in if n = 0 then None
         else if n \<ge> 2 \<and> is_return (kind (b ! (n - 1))) \<and> is_dispatch (kind (b ! (n - 2)))
         then Some (n - 2)
         else if is_dispatch (kind (b ! (n - 1))) then Some (n - 1)
         else None)"

text \<open>
  \<open>loopify_fn\<close>: the function unchanged where the shape is not recognised, rewritten where
  it is.
\<close>

definition loopify_fn :: "func_id \<Rightarrow> ir_function \<Rightarrow> ir_function option" where
  "loopify_fn self_id f =
     (case dispatch_index (body f) of
        None \<Rightarrow> Some f
      | Some d \<Rightarrow>
          (case check_dispatch self_id (kind (body f ! d)) (length (params f)) of
             None \<Rightarrow> Some f
           | Some recognized \<Rightarrow>
               if recognized = 0 \<or> recognized \<noteq> count_self_tailcalls self_id (body f) then Some f
               else
                 let result = next_var f;
                     dispatch_stmt = body f ! d;
                     head = take d (body f);
                     r = stmt_range dispatch_stmt
                 in Option.bind
                      (transform_block self_id [dispatch_stmt] (params f) result (result + 1))
                      (\<lambda>(transformed, next).
                        Some (f\<lparr>body := [stmt_new (Loop (head @ transformed)) r,
                                       stmt_new (Return (AVar result)) r]\<rparr>))))"

fun loopify_all :: "nat \<Rightarrow> ir_function list \<Rightarrow> ir_function list option" where
  "loopify_all idx [] = Some []"
| "loopify_all idx (f # fs) =
     Option.bind (loopify_fn idx f) (\<lambda>f'.
       Option.bind (loopify_all (idx + 1) fs) (\<lambda>fs'. Some (f' # fs')))"

definition loopify :: "ir_program \<Rightarrow> ir_program option" where
  "loopify p = map_option (\<lambda>fs. p\<lparr>prog_functions := fs\<rparr>) (loopify_all 0 (prog_functions p))"

section \<open>Blocks run in a larger frame of a program whose calls agree\<close>

lemma lp_rvalue_vars_operands: "lp_rvalue_vars rv = lp_atom_vars (operands rv)"
  by (cases rv) (auto simp: lp_atom_vars_def)

lemma set_lp_atom_vars: "set (lp_atom_vars as) = {x. AVar x \<in> set as}"
proof -
  have "x \<in> set (lp_atom_var a) \<longleftrightarrow> a = AVar x" for x a by (cases a) auto
  then show ?thesis by (auto simp: lp_atom_vars_def)
qed

lemma eval_atoms_env_le:
  "env_le V e e2 \<Longrightarrow> set (lp_atom_vars as) \<subseteq> V \<Longrightarrow> eval_atoms e as = Some vs \<Longrightarrow>
   eval_atoms e2 as = Some vs"
proof (induction as arbitrary: vs)
  case (Cons a as)
  then obtain v us where v: "eval_atom e a = Some v" and us: "eval_atoms e as = Some us" "vs = v # us"
    by (auto simp: bind_Some_iff)
  from Cons.prems have "eval_atom e2 a = Some v"
    by (intro env_le_atom [OF Cons.prems(1) _ v]) (auto simp: set_lp_atom_vars)
  moreover from Cons us have "eval_atoms e2 as = Some us" by (auto simp: set_lp_atom_vars)
  ultimately show ?case using us by simp
qed simp

lemma switch_arm_vars:
  "set (lp_block_vars (switch_arm arms d k)) \<subseteq> set (lp_case_vars arms) \<union> set (lp_block_vars d)"
  by (induction arms d k rule: switch_arm.induct) auto

lemma match_arms_vars:
  "match_arms arms v = Done (Some (bs, b)) \<Longrightarrow> set (lp_block_vars b) \<subseteq> set (lp_arm_vars arms)"
  by (induction arms v rule: match_arms.induct) (auto split: matched.splits)

lemma kind_vars: "lp_block_vars (s # ss) = lp_stmt_vars (kind s) @ lp_block_vars ss"
  by (cases s) simp

text \<open>Every result of a call in \<open>P\<close>, with fuel at most \<open>N\<close>, is one of the same call in \<open>P'\<close>.\<close>

definition calls_sim :: "ir_function list \<Rightarrow> ir_function list \<Rightarrow> 'w prim \<Rightarrow> nat \<Rightarrow> bool" where
  "calls_sim P P' pr N \<longleftrightarrow>
     (\<forall>k \<le> N. \<forall>w g args caps v w'.
        call P pr k w g args caps = Done (v, w') \<longrightarrow> returns P' pr g args caps w v w')"

lemma calls_simD:
  "calls_sim P P' pr N \<Longrightarrow> k \<le> N \<Longrightarrow> call P pr k w g args caps = Done (v, w') \<Longrightarrow>
   returns P' pr g args caps w v w'"
  by (auto simp: calls_sim_def)

lemma evals_transport:
  assumes "calls_sim P P' pr N" and "n \<le> N" and "env_le V e e2"
    and "set (lp_rvalue_vars rv) \<subseteq> V" and "run_rv P pr n e w rv = Done (v, w')"
  shows "evals P' pr e2 w rv v w'"
proof -
  from assms(5) obtain vs where vs: "eval_atoms e (operands rv) = Some vs"
    by (auto simp: run_rv.simps split: option.splits)
  with assms(3,4) have vs2: "eval_atoms e2 (operands rv) = Some vs"
    by (auto simp: lp_rvalue_vars_operands intro: eval_atoms_env_le)
  show ?thesis
  proof (cases "dispatch_rv rv vs")
    case (Known f args caps)
    with assms vs have "returns P' pr f args caps w v w'"
      by (auto simp: run_rv.simps intro: calls_simD)
    with vs2 Known show ?thesis by (rule evals_known)
  next
    case (Primitive us)
    with assms(5) vs have "eval_prim pr rv us w = Some (v, w')"
      by (auto simp: run_rv.simps or_stuck_def split: option.splits)
    with vs2 Primitive show ?thesis by (rule evals_primitive)
  qed
qed

lemma defers_transport:
  assumes "calls_sim P P' pr N" and "n \<le> N" and "run_defers P pr n w ds = Done w'"
  shows "runs_defers P' pr w ds w'"
  using assms(3)
proof (induction ds arbitrary: w)
  case (Cons d ds)
  then obtain f caps v w1 where d: "d = VClosure f caps"
    and c: "call P pr n w f [] caps = Done (v, w1)" and r: "run_defers P pr n w1 ds = Done w'"
    by (cases d) (auto simp: bind_res_Done)
  from assms(1,2) c have "returns P' pr f [] caps w v w1" by (rule calls_simD)
  with Cons.IH [OF r] show ?case by (simp add: d runs_defers_Cons)
qed simp

lemma out_match_ret: "runs_defers P' pr w1 ds0 w2 \<Longrightarrow> out_match V ds0 w2 (Ret v) w1 (Ret v) w2"
  by simp

definition defers_end where
  "defers_end P' pr r w1 ds0 w2 \<longleftrightarrow> (leaves r \<and> (\<exists>v. r = Ret v) \<longrightarrow> runs_defers P' pr w1 ds0 w2)"

lemma defers_end_simps [simp]:
  "defers_end P' pr (Norm e ds) w1 ds0 w2" "defers_end P' pr (Brk e ds) w1 ds0 w2"
  "defers_end P' pr (Cont e ds) w1 ds0 w2"
  "defers_end P' pr (Ret v) w1 ds0 w2 \<longleftrightarrow> runs_defers P' pr w1 ds0 w2"
  by (auto simp: defers_end_def)

text \<open>
  The transport of a run from \<open>P\<close> to \<open>P'\<close>: the larger frame and the cleanups already on the
  stack change nothing but themselves.
\<close>

lemma transport:
  assumes "calls_sim P P' pr N"
  shows "exec_block P pr n e ds w b = Done (r, w1) \<Longrightarrow> n \<le> N \<Longrightarrow> set (lp_block_vars b) \<subseteq> V \<Longrightarrow>
      env_le V e e2 \<Longrightarrow> defers_end P' pr r w1 ds0 w2 \<Longrightarrow>
      \<exists>r' w'. out_match V ds0 w2 r w1 r' w' \<and> runs_block P' pr e2 (ds @ ds0) w b r' w'"
    and "exec P pr n e ds w k = Done (r, w1) \<Longrightarrow> n \<le> N \<Longrightarrow> set (lp_stmt_vars k) \<subseteq> V \<Longrightarrow>
      env_le V e e2 \<Longrightarrow> defers_end P' pr r w1 ds0 w2 \<Longrightarrow>
      \<exists>r' w'. out_match V ds0 w2 r w1 r' w' \<and> runs P' pr e2 (ds @ ds0) w k r' w'"
proof (induction n e ds w b and n e ds w k arbitrary: r w1 e2 and r w1 e2
    rule: exec_pair_induct [where P = P and pr = pr])
  case (Nil n e ds w)
  then show ?case by (auto simp: runs_block_Nil_iff)
next
  case (Cons n e ds w s ss)
  from Cons.prems(1) obtain r1 w3 where x: "exec P pr n e ds w (kind s) = Done (r1, w3)"
    by (cases "exec P pr n e ds w (kind s)") auto
  with Cons.prems(1)
  have k: "(case r1 of Norm e' ds' \<Rightarrow> exec_block P pr n e' ds' w3 ss | _ \<Rightarrow> Done (r1, w3)) = Done (r, w1)"
    by simp
  show ?case
  proof (cases "leaves r1")
    case True
    with k have "r1 = r" "w3 = w1" by (cases r1; simp)+
    with Cons x obtain r' w' where "out_match V ds0 w2 r w1 r' w'"
      "runs P' pr e2 (ds @ ds0) w (kind s) r' w'"
      by (fastforce simp: kind_vars)
    with True \<open>r1 = r\<close> show ?thesis by (metis out_match_leaves runs_block_exit)
  next
    case False
    then obtain e1 ds1 where r1: "r1 = Norm e1 ds1" by (cases r1) auto
    with Cons x obtain e3 where e3: "env_le V e1 e3"
      "runs P' pr e2 (ds @ ds0) w (kind s) (Norm e3 (ds1 @ ds0)) w3"
      by (fastforce simp: kind_vars)
    from k r1 have "exec_block P pr n e1 ds1 w3 ss = Done (r, w1)" by simp
    with Cons x r1 e3(1) obtain r' w' where "out_match V ds0 w2 r w1 r' w'"
      "runs_block P' pr e3 (ds1 @ ds0) w3 ss r' w'"
      by (fastforce simp: kind_vars)
    with e3(2) show ?thesis by (metis runs_block_Cons)
  qed
next
  case (Let n e ds w x rv)
  then obtain v where "run_rv P pr n e w rv = Done (v, w1)" and r: "r = Norm (e(x \<mapsto> v)) ds"
    by (auto simp: bind_res_Done)
  with Let have "evals P' pr e2 w rv v w1" by (auto intro: evals_transport [OF assms])
  with Let r show ?case by (auto intro!: exI runs_Let env_le_upd)
next
  case (Discard n e ds w rv)
  then obtain v where "run_rv P pr n e w rv = Done (v, w1)" and r: "r = Norm e ds"
    by (auto simp: bind_res_Done)
  with Discard have "evals P' pr e2 w rv v w1" by (auto intro: evals_transport [OF assms])
  with Discard r show ?case by (auto intro!: exI runs_Discard)
next
  case (If n e ds w c t f)
  then obtain b where c: "eval_atom e c = Some (VBool b)"
    and b: "exec_block P pr n e ds w (if b then t else f) = Done (r, w1)"
    by (auto split: option.splits val.splits)
  from If c have c2: "eval_atom e2 c = Some (VBool b)" by (auto intro: env_le_atom)
  have "set (lp_block_vars (if b then t else f)) \<subseteq> V" using If.prems by auto
  with If c b obtain r' w' where "out_match V ds0 w2 r w1 r' w'"
    "runs_block P' pr e2 (ds @ ds0) w (if b then t else f) r' w'" by blast
  with c2 show ?case by (blast intro: runs_If)
next
  case (Switch n e ds w c arms d)
  then obtain k where c: "eval_atom e c = Some (VInt k)"
    and b: "exec_block P pr n e ds w (switch_arm arms d k) = Done (r, w1)"
    by (auto split: option.splits val.splits)
  from Switch c have c2: "eval_atom e2 c = Some (VInt k)" by (auto intro: env_le_atom)
  have "set (lp_block_vars (switch_arm arms d k)) \<subseteq> V"
    using Switch.prems switch_arm_vars [of arms d k] by auto
  with Switch c b obtain r' w' where "out_match V ds0 w2 r w1 r' w'"
    "runs_block P' pr e2 (ds @ ds0) w (switch_arm arms d k) r' w'" by blast
  with c2 show ?case by (blast intro: runs_Switch)
next
  case (Match n e ds w c arms)
  then obtain v where c: "eval_atom e c = Some v" by (auto split: option.splits)
  with Match have c2: "eval_atom e2 c = Some v" by (auto intro: env_le_atom)
  from Match.prems(1) c have "match_arms arms v \<noteq> Stuck" by (auto split: res.splits)
  then consider "match_arms arms v = Done None"
    | bs b where "match_arms arms v = Done (Some (bs, b))"
    by (cases "match_arms arms v") (auto, metis option.exhaust surj_pair)
  then show ?case
  proof cases
    case 1
    with Match c c2 show ?thesis by (auto intro!: exI runs_Match_none)
  next
    case 2
    with Match c have b: "exec_block P pr n (bind_all e bs) ds w b = Done (r, w1)" by simp
    have "set (lp_block_vars b) \<subseteq> V" using Match.prems match_arms_vars [OF 2] by auto
    moreover have "env_le V (bind_all e bs) (bind_all e2 bs)" using Match by (simp add: env_le_bind_all)
    ultimately obtain r' w' where "out_match V ds0 w2 r w1 r' w'"
      "runs_block P' pr (bind_all e2 bs) (ds @ ds0) w b r' w'"
      using Match c 2 b by blast
    with c2 2 show ?thesis by (blast intro: runs_Match_some)
  qed
next
  case (Loop n e ds w b)
  from Loop.prems(1) obtain m where n: "n = Suc m" by (cases n) (auto simp: exec_Loop)
  with Loop.prems(1) obtain r1 w3 where x: "exec_block P pr m e ds w b = Done (r1, w3)"
    by (cases "exec_block P pr m e ds w b") (auto simp: exec_Loop)
  with n Loop.prems(1) have k: "(case r1 of Norm e' ds' \<Rightarrow> exec P pr m e' ds' w3 (Loop b)
      | Cont e' ds' \<Rightarrow> exec P pr m e' ds' w3 (Loop b)
      | Brk e' ds' \<Rightarrow> Done (Norm e' ds', w3) | Ret v \<Rightarrow> Done (Ret v, w3)) = Done (r, w1)"
    by (simp add: exec_Loop [of P pr "Suc m" e ds w b])
  from Loop.prems n have m: "m \<le> N" and V: "set (lp_block_vars b) \<subseteq> V" by auto
  have IH: "\<exists>r' w'. out_match V ds0 w2 r1 w3 r' w' \<and> runs_block P' pr e2 (ds @ ds0) w b r' w'"
    if "defers_end P' pr r1 w3 ds0 w2"
    by (rule Loop.IH(1) [OF n x m V Loop.prems(4) that])
  have again: "\<exists>r' w'. out_match V ds0 w2 r w1 r' w' \<and> runs P' pr e2 (ds @ ds0) w (Loop b) r' w'"
    if r1: "r1 = Norm e1 ds1 \<or> r1 = Cont e1 ds1" for e1 ds1
  proof -
    from IH r1 obtain e3 where e3: "env_le V e1 e3"
      "runs_block P' pr e2 (ds @ ds0) w b (Norm e3 (ds1 @ ds0)) w3
       \<or> runs_block P' pr e2 (ds @ ds0) w b (Cont e3 (ds1 @ ds0)) w3" by auto
    from k r1 have "exec P pr m e1 ds1 w3 (Loop b) = Done (r, w1)" by auto
    then obtain r' w' where "out_match V ds0 w2 r w1 r' w'" "runs P' pr e3 (ds1 @ ds0) w3 (Loop b) r' w'"
      using Loop.IH(2) [OF n x r1] m Loop.prems(3,5) e3(1) by blast
    with e3(2) show ?thesis by (blast intro: runs_Loop_next)
  qed
  show ?case
  proof (cases r1)
    case (Brk e1 ds1)
    with k IH show ?thesis by (fastforce intro: runs_Loop_exit)
  next
    case (Ret v)
    with k Loop.prems(5) have "defers_end P' pr r1 w3 ds0 w2" by auto
    with k IH Ret show ?thesis by (fastforce intro: runs_Loop_exit)
  qed (use again in blast)+
next
  case (Break n e ds w)
  then show ?case by (auto intro!: exI runs_Break)
next
  case (Continue n e ds w)
  then show ?case by (auto intro!: exI runs_Continue)
next
  case (Return n e ds w a)
  then obtain v where v: "eval_atom e a = Some v" and d: "run_defers P pr n w ds = Done w1"
    and r: "r = Ret v"
    by (auto simp: bind_res_Done split: option.splits)
  from Return v have "eval_atom e2 a = Some v" by (auto intro: env_le_atom)
  moreover have "runs_defers P' pr w (ds @ ds0) w2"
    using Return d r by (auto intro: runs_defers_append defers_transport [OF assms])
  ultimately show ?case using r by (auto intro!: exI runs_Return)
next
  case (PushDefer n e ds w a)
  then obtain d where d: "eval_atom e a = Some d" and r: "r = Norm e (d # ds)" "w1 = w"
    by (auto split: option.splits)
  from PushDefer d have "eval_atom e2 a = Some d" by (auto intro: env_le_atom)
  with PushDefer r show ?case using runs_PushDefer by fastforce
qed simp_all

section \<open>The parallel assignment\<close>

text \<open>The value a parameter is to get is staged: in its temporary, or already in itself.\<close>

definition staged :: "nat \<Rightarrow> env \<Rightarrow> var_id \<times> var_id option \<Rightarrow> val \<Rightarrow> bool" where
  "staged N e pt v \<longleftrightarrow>
     (case snd pt of None \<Rightarrow> e (fst pt) = Some v | Some t \<Rightarrow> N \<le> t \<and> e t = Some v)"

lemma staged_simps [simp]:
  "staged N e (p, None) v \<longleftrightarrow> e p = Some v"
  "staged N e (p, Some t) v \<longleftrightarrow> N \<le> t \<and> e t = Some v"
  by (simp_all add: staged_def)

lemma stage_args_runs:
  "stage_args r pas next = (ss, ts, next') \<Longrightarrow> N \<le> next \<Longrightarrow> fst ` set pas \<subseteq> {..<N} \<Longrightarrow>
   set (lp_atom_vars (map snd pas)) \<subseteq> {..<N} \<Longrightarrow>
   list_all2 (\<lambda>pa v. eval_atom e (snd pa) = Some v) pas vs \<Longrightarrow>
   next \<le> next' \<and> length ts = length pas \<and>
   (\<exists>e'. runs_block P pr e ds w ss (Norm e' ds) w \<and> (\<forall>x < next. e' x = e x)
      \<and> list_all2 (staged N e') (zip (map fst pas) ts) vs)"
proof (induction r pas "next" arbitrary: ss ts next' e vs rule: stage_args.induct)
  case (1 r "next")
  then show ?case by (auto simp: runs_block_Nil_iff)
next
  case (2 r p a pas "next")
  from "2.prems"(5) obtain v us where vs: "vs = v # us" and v: "eval_atom e a = Some v"
    and us: "list_all2 (\<lambda>pa v. eval_atom e (snd pa) = Some v) pas us"
    by (auto simp: list_all2_Cons1)
  from "2.prems"(3,4) have sub: "fst ` set pas \<subseteq> {..<N}" "set (lp_atom_vars (map snd pas)) \<subseteq> {..<N}"
    and p: "p < N" by (auto simp: lp_atom_vars_def)
  show ?case
  proof (cases "a = AVar p")
    case True
    obtain ss' ts' where rec: "stage_args r pas next = (ss', ts', next')"
      and ts: "ss = ss'" "ts = None # ts'"
      using "2.prems"(1) True by (auto split: prod.splits)
    from "2.IH"(1) [OF True rec "2.prems"(2) sub us] v True ts vs p "2.prems"(2)
    show ?thesis by auto
  next
    case False
    obtain ss' ts' where rec: "stage_args r pas (next + 1) = (ss', ts', next')"
      and ts: "ss = stmt_new (Let next (Use a)) r # ss'" "ts = Some next # ts'"
      using "2.prems"(1) False by (auto split: prod.splits)
    let ?e = "e(next \<mapsto> v)"
    have all: "list_all2 (\<lambda>pa v. eval_atom ?e (snd pa) = Some v) pas us"
      using us
    proof (rule list.rel_mono_strong)
      fix pa u assume "pa \<in> set pas" and u: "eval_atom e (snd pa) = Some u"
      then show "eval_atom ?e (snd pa) = Some u"
        using sub(2) "2.prems"(2) by (cases "snd pa") (force simp: set_lp_atom_vars)+
    qed
    from "2.prems"(2) have "N \<le> next + 1" by simp
    from "2.IH"(2) [OF False rec this sub all] obtain e' where
      e': "next + 1 \<le> next'" "length ts' = length pas" "runs_block P pr ?e ds w ss' (Norm e' ds) w"
        "\<forall>x < next + 1. e' x = ?e x" "list_all2 (staged N e') (zip (map fst pas) ts') us"
      by blast
    have "runs_block P pr e ds w ss (Norm e' ds) w"
      unfolding ts by (rule runs_block_Cons [OF _ e'(3)]) (simp add: runs_Let_Use v)
    with e' "2.prems"(2) show ?thesis by (auto simp: ts vs intro!: exI [of _ e'])
  qed
qed

lemma write_params_runs:
  "list_all2 (staged N e) pts vs \<Longrightarrow> distinct (map fst pts) \<Longrightarrow> fst ` set pts \<subseteq> {..<N} \<Longrightarrow>
   \<exists>e'. runs_block P pr e ds w (write_params r pts) (Norm e' ds) w
     \<and> list_all2 (\<lambda>pt v. e' (fst pt) = Some v) pts vs \<and> (\<forall>x. x \<notin> fst ` set pts \<longrightarrow> e' x = e x)"
proof (induction r pts arbitrary: e vs rule: write_params.induct)
  case (1 r)
  then show ?case by (auto simp: runs_block_Nil_iff)
next
  case (2 r p pts)
  then obtain v us where vs: "vs = v # us" "e p = Some v" "list_all2 (staged N e) pts us"
    by (auto simp: list_all2_Cons1)
  from 2 have "distinct (map fst pts)" "fst ` set pts \<subseteq> {..<N}" by simp_all
  from "2.IH" [OF vs(3) this] obtain e' where
    "runs_block P pr e ds w (write_params r pts) (Norm e' ds) w"
    "list_all2 (\<lambda>pt v. e' (fst pt) = Some v) pts us" "\<forall>x. x \<notin> fst ` set pts \<longrightarrow> e' x = e x"
    by blast
  with 2 vs show ?case by (intro exI [of _ e']) auto
next
  case (3 r p t pts)
  then obtain v us where vs: "vs = v # us" "e t = Some v" "list_all2 (staged N e) pts us"
    by (auto simp: list_all2_Cons1)
  let ?e = "e(p \<mapsto> v)"
  have st: "list_all2 (staged N ?e) pts us"
    using vs(3)
  proof (rule list.rel_mono_strong)
    fix pt u assume "pt \<in> set pts" and "staged N e pt u"
    with 3 show "staged N ?e pt u" by (auto simp: staged_def split: option.splits)
  qed
  from 3 have "distinct (map fst pts)" "fst ` set pts \<subseteq> {..<N}" by simp_all
  from "3.IH" [OF st this] obtain e' where
    e': "runs_block P pr ?e ds w (write_params r pts) (Norm e' ds) w"
    "list_all2 (\<lambda>pt v. e' (fst pt) = Some v) pts us" "\<forall>x. x \<notin> fst ` set pts \<longrightarrow> e' x = ?e x"
    by blast
  have "runs_block P pr e ds w (write_params r ((p, Some t) # pts)) (Norm e' ds) w"
    by (simp, rule runs_block_Cons [OF _ e'(1)]) (simp add: runs_Let_Use vs)
  with 3 vs e' show ?case by (intro exI [of _ e']) auto
qed

definition reassigned :: "var_id list \<Rightarrow> env \<Rightarrow> val list \<Rightarrow> bool" where
  "reassigned ps e vs \<longleftrightarrow> list_all2 (\<lambda>p v. e p = Some v) ps vs"

lemma emit_reassign_runs:
  assumes "emit_reassign stmts ps args next r = (b, next')" and "length args = length ps"
    and "distinct ps" and "set ps \<subseteq> {..<N}" and "set (lp_atom_vars args) \<subseteq> {..<N}" and "N \<le> next"
    and "eval_atoms e args = Some vs"
  shows "next \<le> next' \<and> (\<exists>tl e'. b = stmts @ tl \<and> runs_block P pr e ds w tl (Norm e' ds) w
    \<and> reassigned ps e' vs)"
proof -
  obtain ss ts where st: "stage_args r (zip ps args) next = (ss, ts, next')"
    and b: "b = stmts @ ss @ write_params r (zip ps ts)"
    using assms(1) by (auto simp: emit_reassign_def split: prod.splits)
  have "list_all2 (\<lambda>pa v. eval_atom e (snd pa) = Some v) (zip ps args) vs"
    using assms(2,7) by (auto simp: eval_atoms_Some list_all2_conv_all_nth)
  with stage_args_runs [OF st assms(6)] assms(2,4,5) obtain e1 where
    e1: "next \<le> next'" "length ts = length ps" "runs_block P pr e ds w ss (Norm e1 ds) w"
      "list_all2 (staged N e1) (zip ps ts) vs"
    by (fastforce dest: set_zip_leftD)
  from write_params_runs [OF e1(4)] assms(2,3,4) e1(2) obtain e2 where
    e2: "runs_block P pr e1 ds w (write_params r (zip ps ts)) (Norm e2 ds) w"
      "list_all2 (\<lambda>pt v. e2 (fst pt) = Some v) (zip ps ts) vs"
    by (fastforce dest: set_zip_leftD)
  have "reassigned ps e2 vs"
    using e2(2) e1(2) by (auto simp: reassigned_def list_all2_conv_all_nth)
  with e1(1) b runs_block_append [OF e1(3) e2(1)] show ?thesis by blast
qed

section \<open>What the dry run guarantees\<close>

lemma split_last_two:
  assumes "length b \<ge> 2"
  shows "\<exists>pre s1 s2. b = pre @ [s1, s2]"
proof -
  from assms obtain xs s2 where b: "b = xs @ [s2]" by (cases b rule: rev_cases) auto
  with assms obtain pre s1 where "xs = pre @ [s1]" by (cases xs rule: rev_cases) auto
  with b show ?thesis by simp
qed

lemma nth_last_two [simp]:
  "(pre @ [s1, s2]) ! (length (pre @ [s1, s2]) - 2) = s1"
  "(pre @ [s1, s2]) ! (length (pre @ [s1, s2]) - 1) = s2"
  by (simp_all add: nth_append)

lemma recursive_endE:
  assumes "recursive_end self_id b arity"
  obtains pre s1 s2 v args where "b = pre @ [s1, s2]" "kind s1 = Let v (TailCallDirect self_id args)"
    "kind s2 = Return (AVar v)" "length args = arity"
proof -
  from assms have "length b \<ge> 2" by (simp add: recursive_end_def)
  then obtain pre s1 s2 where b: "b = pre @ [s1, s2]" using split_last_two by blast
  have c: "case kind s1 of
      Let v (TailCallDirect c args) \<Rightarrow>
        (case kind s2 of Return (AVar rv) \<Rightarrow> c = self_id \<and> rv = v \<and> length args = arity | _ \<Rightarrow> False)
    | _ \<Rightarrow> False"
    using assms unfolding b recursive_end_def nth_last_two by simp
  then obtain v rv where s1: "kind s1 = Let v rv" by (cases "kind s1") auto
  with c obtain cl args where "rv = TailCallDirect cl args" by (cases rv) auto
  moreover from c s1 this obtain x where "kind s2 = Return (AVar x)"
    by (cases "kind s2") (auto split: atom.splits)
  ultimately show ?thesis using c s1 \<open>b = pre @ [s1, s2]\<close> that by auto
qed

lemma is_recE:
  assumes "is_rec self_id b = Some args"
  obtains pre s1 s2 v a where "b = pre @ [s1, s2]" "kind s1 = Let v (TailCallDirect self_id args)"
    "kind s2 = Return a"
proof -
  from assms have "length b \<ge> 2" by (simp add: is_rec_def split: if_splits)
  then obtain pre s1 s2 where b: "b = pre @ [s1, s2]" using split_last_two by blast
  have r: "is_return (kind s2)" and c: "(case kind s1 of
      Let _ (TailCallDirect c args) \<Rightarrow> if c = self_id then Some args else None | _ \<Rightarrow> None) = Some args"
    using assms unfolding b is_rec_def nth_last_two by (simp_all split: if_splits)
  from c obtain v rv where s1: "kind s1 = Let v rv" by (cases "kind s1") auto
  with c have "rv = TailCallDirect self_id args" by (cases rv) (auto split: if_splits)
  moreover from r obtain a where "kind s2 = Return a" by (cases "kind s2") (auto simp: is_return_def)
  ultimately show ?thesis using s1 \<open>b = pre @ [s1, s2]\<close> that by auto
qed

lemma is_recI:
  "kind s1 = Let v (TailCallDirect self_id args) \<Longrightarrow> kind s2 = Return a \<Longrightarrow>
   is_rec self_id (pre @ [s1, s2]) = Some args"
  by (simp add: is_rec_def is_return_def nth_append)

lemma count_append:
  "count_self_tailcalls i (xs @ ys) = count_self_tailcalls i xs + count_self_tailcalls i ys"
proof (induction xs)
  case (Cons s xs)
  then show ?case by (cases s) simp
qed simp

lemma count_Cons: "count_self_tailcalls i (s # ss) = count_stmt i (kind s) + count_self_tailcalls i ss"
  by (cases s) simp

lemma check_block_last:
  assumes "check_block i b ar = Some k" and "\<not> recursive_end i b ar"
  obtains pre s where "b = pre @ [s]" "is_return (kind s) \<and> k = 0
    \<or> \<not> is_return (kind s) \<and> is_dispatch (kind s) \<and> check_dispatch i (kind s) ar = Some k"
  using assms by (cases b rule: rev_cases) (auto simp: check_block.simps split: if_splits)

text \<open>The recognised terminators are self-tail-calls of the block.\<close>

lemma check_le_count:
  "check_dispatch i k ar = Some m \<Longrightarrow> m \<le> count_stmt i k"
  "check_arms i arms ar = Some m \<Longrightarrow> m \<le> count_arms i arms"
  "check_block i b ar = Some m \<Longrightarrow> m \<le> count_self_tailcalls i b"
proof (induction i k ar and i arms ar and i b ar arbitrary: m and m and m
    rule: check_dispatch_check_arms_check_block.induct)
  case (1 i c t e ar)
  then show ?case by (fastforce simp: bind_Some_iff intro: add_mono)
next
  case (5 i p b arms ar)
  then show ?case by (fastforce simp: bind_Some_iff intro: add_mono)
next
  case (6 i b ar)
  show ?case
  proof (cases "recursive_end i b ar")
    case True
    then obtain pre s1 s2 v args where "b = pre @ [s1, s2]" "kind s1 = Let v (TailCallDirect i args)"
      by (rule recursive_endE)
    with "6.prems" True show ?thesis by (simp add: count_append count_Cons check_block.simps)
  next
    case False
    with "6.prems" obtain pre s where b: "b = pre @ [s]" and s: "is_return (kind s) \<and> m = 0
      \<or> \<not> is_return (kind s) \<and> is_dispatch (kind s) \<and> check_dispatch i (kind s) ar = Some m"
      by (rule check_block_last)
    with "6.IH" False show ?thesis by (fastforce simp: count_append count_Cons)
  qed
qed (auto split: if_splits)

lemma is_dispatchE:
  assumes "is_dispatch k"
  obtains c t e where "k = If c t e" | c arms where "k = Match c arms"
  using assms by (auto simp: is_dispatch_def split: stmt_kind.splits)

lemma is_returnE:
  assumes "is_return k"
  obtains a where "k = Return a"
  using assms by (auto simp: is_return_def split: stmt_kind.splits)

lemma length_stage_args: "stage_args r pas n = (ss, ts, n') \<Longrightarrow> n \<le> n'"
  by (induction r pas n arbitrary: ss ts n' rule: stage_args.induct)
    (fastforce split: if_splits prod.splits)+

lemma emit_reassign_next: "emit_reassign st ps args n r = (b, n') \<Longrightarrow> n \<le> n'"
  by (auto simp: emit_reassign_def dest: length_stage_args split: prod.splits)

text \<open>A checked block is rewritten without a panic.\<close>

lemma transform_total:
  "check_dispatch i k ar = Some m \<Longrightarrow>
     (\<forall>c t e n. k = If c t e \<longrightarrow> (\<exists>t' n1. transform_block i t ps res n = Some (t', n1) \<and> n \<le> n1)
        \<and> (\<exists>e' n1. transform_block i e ps res n = Some (e', n1) \<and> n \<le> n1))
     \<and> (\<forall>c arms n. k = Match c arms \<longrightarrow> (\<exists>arms' n1. transform_arms i arms ps res n = Some (arms', n1) \<and> n \<le> n1))"
  "check_arms i arms ar = Some m \<Longrightarrow> \<exists>arms' n1. transform_arms i arms ps res n = Some (arms', n1) \<and> n \<le> n1"
  "check_block i b ar = Some m \<Longrightarrow> \<exists>b' n1. transform_block i b ps res n = Some (b', n1) \<and> n \<le> n1"
proof (induction i k ar and i arms ar and i b ar arbitrary: m and m n and m n
    rule: check_dispatch_check_arms_check_block.induct)
  case (1 i c t e ar)
  then show ?case by (fastforce simp: bind_Some_iff)
next
  case (2 i c arms ar)
  then show ?case by (auto split: if_splits)
next
  case (5 i p b arms ar)
  then obtain m1 m2 where "check_block i b ar = Some m1" "check_arms i arms ar = Some m2"
    by (auto simp: bind_Some_iff)
  with 5 obtain b' n1 arms' n2 where "transform_block i b ps res n = Some (b', n1)" "n \<le> n1"
    "transform_arms i arms ps res n1 = Some (arms', n2)" "n1 \<le> n2" by meson
  then show ?case by simp
next
  case (6 i b ar)
  show ?case
  proof (cases "is_rec i b")
    case (Some args)
    then show ?thesis
      by (subst transform_block.simps) (auto simp: Let_def split: prod.splits dest: emit_reassign_next)
  next
    case None
    have nr: "\<not> recursive_end i b ar"
      using None is_recI by (metis option.distinct(1) recursive_endE)
    with "6.prems" obtain pre s where b: "b = pre @ [s]" and s: "is_return (kind s) \<and> m = 0
      \<or> \<not> is_return (kind s) \<and> is_dispatch (kind s) \<and> check_dispatch i (kind s) ar = Some m"
      by (rule check_block_last)
    show ?thesis
    proof (cases "is_return (kind s)")
      case True
      then show ?thesis using None b
        by (subst transform_block.simps) (auto simp: Let_def elim!: is_returnE)
    next
      case False
      with s have d: "is_dispatch (kind s)" and c: "check_dispatch i (kind s) ar = Some m" by auto
      note IH = "6.IH" [of m, unfolded b, simplified, OF nr [unfolded b] False d c]
      from d show ?thesis
      proof (cases rule: is_dispatchE)
        case (1 c t e)
        with IH obtain t' n1 where t: "transform_block i t ps res n = Some (t', n1)" "n \<le> n1" by blast
        from 1 IH obtain e' n2 where "transform_block i e ps res n1 = Some (e', n2)" "n1 \<le> n2" by blast
        with None b 1 t show ?thesis by (subst transform_block.simps) (auto simp: Let_def)
      next
        case (2 c arms)
        with IH obtain arms' n1 where "transform_arms i arms ps res n = Some (arms', n1)" "n \<le> n1" by blast
        with None b 2 show ?thesis by (subst transform_block.simps) (auto simp: Let_def)
      qed
    qed
  qed
qed simp_all

end
