(* ===== verification/LoopifyCorrect.thy ===== *)
theory LoopifyCorrect
  imports Loopify
begin

text \<open>
  The correctness of the pass of \<open>ir/src/loopify.rs\<close>: one turn of the loop simulates one
  activation of the function, and a program keeps every result it has.
\<close>

section \<open>One turn of the loop\<close>

lemma transform_arms_mono:
  "transform_arms i arms ps res n = Some (arms', n1) \<Longrightarrow> check_arms i arms ar = Some k \<Longrightarrow> n \<le> n1"
  using transform_total(2) [of i arms ar k ps res n] by auto

lemma transform_block_mono:
  "transform_block i b ps res n = Some (b', n1) \<Longrightarrow> check_block i b ar = Some k \<Longrightarrow> n \<le> n1"
  using transform_total(3) [of i b ar k ps res n] by auto

text \<open>The arm a value selects is selected in the rewritten dispatch too, rewritten.\<close>

lemma chosen_arm:
  "transform_arms i arms ps res n = Some (arms', n') \<Longrightarrow> check_arms i arms ar = Some k \<Longrightarrow>
   count_arms i arms = k \<Longrightarrow> match_arms arms v = Done (Some (bs, b)) \<Longrightarrow>
   \<exists>b' m m' kb. match_arms arms' v = Done (Some (bs, b')) \<and> transform_block i b ps res m = Some (b', m')
     \<and> n \<le> m \<and> check_block i b ar = Some kb \<and> count_self_tailcalls i b = kb"
proof (induction arms arbitrary: n arms' k)
  case (Cons arm arms)
  obtain p b0 where arm: "arm = MatchArm p b0" by (cases arm)
  from Cons.prems(1) obtain b0' n1 arms1 where t: "transform_block i b0 ps res n = Some (b0', n1)"
    "transform_arms i arms ps res n1 = Some (arms1, n')" "arms' = MatchArm p b0' # arms1"
    by (auto simp: arm bind_Some_iff)
  from Cons.prems(2) obtain k0 k1 where k: "check_block i b0 ar = Some k0"
    "check_arms i arms ar = Some k1" "k = k0 + k1"
    by (auto simp: arm bind_Some_iff)
  from k(1,2) have "k0 \<le> count_self_tailcalls i b0" "k1 \<le> count_arms i arms"
    by (auto dest: check_le_count)
  with Cons.prems(3) k(3) have c: "count_self_tailcalls i b0 = k0" "count_arms i arms = k1"
    by (auto simp: arm)
  have "n \<le> n1" using t(1) k(1) by (rule transform_block_mono)
  show ?case
  proof (cases "match_pat p v")
    case Mismatch
    with Cons.prems(4) have "match_arms arms v = Done (Some (bs, b))" by (simp add: arm)
    from Cons.IH [OF t(2) k(2) c(2) this] \<open>n \<le> n1\<close> Mismatch t(3) show ?thesis
      by (fastforce intro: le_trans)
  next
    case (Binds bs')
    with Cons.prems(4) have "bs' = bs" "b0 = b" by (auto simp: arm)
    with Binds t k c show ?thesis by auto
  next
    case Trap
    with Cons.prems(4) show ?thesis by (simp add: arm)
  qed
qed simp

lemma match_arms_exhaustive:
  "arms \<noteq> [] \<Longrightarrow> arm_pattern (last arms) = PWildcard \<Longrightarrow> match_arms arms v \<noteq> Done None"
proof (induction arms)
  case (Cons arm arms)
  then show ?case by (cases arm) (auto split: matched.splits if_splits)
qed simp

lemma exec_block_snoc_Ret:
  assumes "exec_block P pr n e ds w (pre @ ss) = Done (Ret v, w1)"
  obtains "exec_block P pr n e ds w pre = Done (Ret v, w1)"
  | e1 ds1 w3 where "exec_block P pr n e ds w pre = Done (Norm e1 ds1, w3)"
      "exec_block P pr n e1 ds1 w3 ss = Done (Ret v, w1)"
proof -
  from assms obtain r w3 where r: "exec_block P pr n e ds w pre = Done (r, w3)"
    by (cases "exec_block P pr n e ds w pre") (auto simp: exec_block_append)
  with assms that show ?thesis by (cases r) (auto simp: exec_block_append)
qed

lemma exec_block_single_Ret:
  "exec_block P pr n e ds w [s] = Done (Ret v, w1) \<longleftrightarrow> exec P pr n e ds w (kind s) = Done (Ret v, w1)"
proof (cases "exec P pr n e ds w (kind s)")
  case (Done x)
  then show ?thesis by (cases x; cases "fst x") auto
qed simp_all

text \<open>
  What a rewritten branch does (its runs are \<open>R\<close>) where the original returned \<open>v\<close>: it
  returns it, or leaves it in \<open>res\<close> and breaks, or reassigns the parameters to the arguments
  of the self-call and continues.
\<close>

definition turn where
  "turn P P' pr n i ps res ds0 w2 v w1 R \<longleftrightarrow>
     R (Ret v) w2
   \<or> (\<exists>e3 ds3 w3. R (Brk e3 (ds3 @ ds0)) w3 \<and> e3 res = Some v \<and> runs_defers P' pr w3 ds3 w1)
   \<or> (\<exists>e3 ds3 w3 vs w4. R (Cont e3 (ds3 @ ds0)) w3 \<and> reassigned ps e3 vs
        \<and> call P pr n w3 i vs [] = Done (v, w4) \<and> runs_defers P' pr w4 ds3 w1)"

lemma turn_mono:
  "turn P P' pr n i ps res ds0 w2 v w1 R \<Longrightarrow> (\<And>r w. leaves r \<Longrightarrow> R r w \<Longrightarrow> R' r w) \<Longrightarrow>
   turn P P' pr n i ps res ds0 w2 v w1 R'"
  unfolding turn_def by (meson leaves_simps)

lemma transport_ret:
  assumes "calls_sim P P' pr N" and "exec_block P pr n e ds w b = Done (Ret v, w1)" and "n \<le> N"
    and "set (lp_block_vars b) \<subseteq> V" and "env_le V e e2" and "runs_defers P' pr w1 ds0 w2"
  shows "runs_block P' pr e2 (ds @ ds0) w b (Ret v) w2"
  using transport(1) [OF assms(1-5)] assms(6) by fastforce

lemma transport_norm:
  assumes "calls_sim P P' pr N" and "exec_block P pr n e ds w b = Done (Norm e1 ds1, w1)" and "n \<le> N"
    and "set (lp_block_vars b) \<subseteq> V" and "env_le V e e2"
  obtains e3 where "env_le V e1 e3" "runs_block P' pr e2 (ds @ ds0) w b (Norm e3 (ds1 @ ds0)) w1"
  using transport(1) [OF assms(1-5), of ds0] by fastforce

lemma lp_block_vars_append: "lp_block_vars (xs @ ys) = lp_block_vars xs @ lp_block_vars ys"
proof (induction xs)
  case (Cons s xs)
  then show ?case by (cases s) simp
qed simp

lemma turn_after:
  assumes "turn P P' pr n i ps res ds0 w2 v w1 (runs_block P' pr e3 (ds1 @ ds0) w3 ss)"
    and "runs_block P' pr e2 (ds @ ds0) w pre (Norm e3 (ds1 @ ds0)) w3"
  shows "turn P P' pr n i ps res ds0 w2 v w1 (runs_block P' pr e2 (ds @ ds0) w (pre @ ss))"
  using assms(1) by (rule turn_mono) (rule runs_block_append [OF assms(2)])

lemma turn_single:
  assumes "turn P P' pr n i ps res ds0 w2 v w1 (runs_block P' pr e ds w b)"
    and "\<And>r w'. leaves r \<Longrightarrow> runs_block P' pr e ds w b r w' \<Longrightarrow> runs P' pr e0 ds w (kind s) r w'"
  shows "turn P P' pr n i ps res ds0 w2 v w1 (runs_block P' pr e0 ds w [s])"
  using assms(1) by (rule turn_mono) (auto intro: runs_block_single assms(2))

text \<open>The recursive terminator.\<close>

lemma turn_recursive:
  assumes sim: "calls_sim P P' pr N" and n: "n \<le> N"
    and ps: "distinct ps" "set ps \<subseteq> {..<V}" and V: "V \<le> nx"
    and k: "kind s1 = Let x (TailCallDirect i args)" "kind s2 = Return (AVar x)" "length args = length ps"
    and vars: "set (lp_atom_vars args) \<subseteq> {..<V}"
    and x: "exec_block P pr n e1 ds1 w [s1, s2] = Done (Ret v, w1)"
    and le: "env_le {..<V} e1 e3"
    and em: "emit_reassign pre ps args nx r = (stmts, nx')"
    and run: "runs_block P' pr e2 (ds @ ds0) w0 pre (Norm e3 (ds1 @ ds0)) w"
  shows "turn P P' pr n i ps res ds0 w2 v w1
    (runs_block P' pr e2 (ds @ ds0) w0 (stmts @ [stmt_new Continue_stmt r]))"
proof -
  have rv: "run_rv P pr n e1 w (TailCallDirect i args) =
      (case eval_atoms e1 args of None \<Rightarrow> Stuck | Some vs \<Rightarrow> call P pr n w i vs [])"
    by (cases "eval_atoms e1 args")
      (simp_all add: run_rv.simps [of P pr n e1 w "TailCallDirect i args"] dispatch_rv_def)
  have two: "exec_block P pr n e1 ds1 w [s1, s2] =
      bind_res (run_rv P pr n e1 w (TailCallDirect i args)) (\<lambda>(u, w4).
        bind_res (run_defers P pr n w4 ds1) (\<lambda>w'. Done (Ret u, w')))"
    by (cases "run_rv P pr n e1 w (TailCallDirect i args)")
      (auto simp: k, case_tac "run_defers P pr n b ds1", simp_all)
  obtain u w4 where u1: "run_rv P pr n e1 w (TailCallDirect i args) = Done (u, w4)"
    using x unfolding two by (cases "run_rv P pr n e1 w (TailCallDirect i args)") auto
  obtain vs where vs: "eval_atoms e1 args = Some vs" and u: "call P pr n w i vs [] = Done (u, w4)"
    using u1 unfolding rv by (cases "eval_atoms e1 args") simp_all
  from x have "u = v" and d: "run_defers P pr n w4 ds1 = Done w1"
    unfolding two u1 by (simp_all add: bind_res_Done)
  have "eval_atoms e3 args = Some vs" using le vars vs by (rule eval_atoms_env_le)
  from emit_reassign_runs [OF em k(3) ps vars V this, where P = P' and pr = pr
      and ds = "ds1 @ ds0" and w = w] obtain tl e4 where
    t: "stmts = pre @ tl" "runs_block P' pr e3 (ds1 @ ds0) w tl (Norm e4 (ds1 @ ds0)) w"
      "reassigned ps e4 vs" by blast
  have "runs_block P' pr e2 (ds @ ds0) w0 (stmts @ [stmt_new Continue_stmt r]) (Cont e4 (ds1 @ ds0)) w"
    unfolding t(1) append_assoc
    by (rule runs_block_append [OF run], rule runs_block_append [OF t(2)], rule runs_block_single)
      (simp add: runs_Continue)
  with t(3) u \<open>u = v\<close> defers_transport [OF sim n d] show ?thesis
    unfolding turn_def by blast
qed

text \<open>The base terminator.\<close>

lemma turn_base:
  assumes sim: "calls_sim P P' pr N" and n: "n \<le> N"
    and k: "kind s = Return a" and vars: "set (lp_atom_var a) \<subseteq> {..<V}"
    and x: "exec_block P pr n e1 ds1 w [s] = Done (Ret v, w1)"
    and le: "env_le {..<V} e1 e3"
    and run: "runs_block P' pr e2 (ds @ ds0) w0 pre (Norm e3 (ds1 @ ds0)) w"
  shows "turn P P' pr n i ps res ds0 w2 v w1 (runs_block P' pr e2 (ds @ ds0) w0
    (pre @ [stmt_new (Let res (Use a)) r, stmt_new Break_stmt r]))"
proof -
  from x k have v: "eval_atom e1 a = Some v" and d: "run_defers P pr n w ds1 = Done w1"
    by (auto simp: exec_block_single_Ret bind_res_Done simp del: exec_block.simps split: option.splits)
  have "eval_atom e3 a = Some v" using le _ v by (rule env_le_atom) (use vars in auto)
  then have "runs_block P' pr e3 (ds1 @ ds0) w [stmt_new (Let res (Use a)) r, stmt_new Break_stmt r]
      (Brk (e3(res \<mapsto> v)) (ds1 @ ds0)) w"
    by (intro runs_block_Cons [OF _ runs_block_single, of _ _ _ _ _ _ "e3(res \<mapsto> v)" "ds1 @ ds0" w])
      (simp_all add: runs_Let_Use runs_Break)
  from runs_block_append [OF run this] defers_transport [OF sim n d] show ?thesis
    unfolding turn_def by fastforce
qed

lemma emit_reassign_prefix: "emit_reassign pre ps args n r = (stmts, n') \<Longrightarrow> \<exists>tl. stmts = pre @ tl"
  by (auto simp: emit_reassign_def split: prod.splits)

lemma turn_ret: "R (Ret v) w2 \<Longrightarrow> turn P P' pr n i ps res ds0 w2 v w1 R"
  by (simp add: turn_def)

lemma transform_block_rec:
  "is_rec i b = Some args \<Longrightarrow> transform_block i b ps res n = Some (b', n') \<Longrightarrow>
   \<exists>stmts. emit_reassign (take (length b - 2) b) ps args n (stmt_range (b ! (length b - 1))) = (stmts, n')
     \<and> b' = stmts @ [stmt_new Continue_stmt (stmt_range (b ! (length b - 1)))]"
  by (subst (asm) transform_block.simps) (auto simp: Let_def split: prod.splits)

text \<open>The three other ways a rewritten block ends.\<close>

lemma transform_block_snoc:
  assumes "is_rec i (pre @ [s]) = None"
  shows "kind s = Return a \<Longrightarrow> transform_block i (pre @ [s]) ps res n = Some (b', n') \<Longrightarrow>
      b' = pre @ [stmt_new (Let res (Use a)) (stmt_range s), stmt_new Break_stmt (stmt_range s)]"
    and "kind s = If c t e \<Longrightarrow> transform_block i (pre @ [s]) ps res n = Some (b', n') \<Longrightarrow>
      \<exists>t' e' n1. transform_block i t ps res n = Some (t', n1) \<and> transform_block i e ps res n1 = Some (e', n')
        \<and> b' = pre @ [stmt_new (If c t' e') (stmt_range s)]"
    and "kind s = Match c arms \<Longrightarrow> transform_block i (pre @ [s]) ps res n = Some (b', n') \<Longrightarrow>
      \<exists>arms'. transform_arms i arms ps res n = Some (arms', n')
        \<and> b' = pre @ [stmt_new (Match c arms') (stmt_range s)]"
  using assms by (subst (asm) transform_block.simps; auto simp: Let_def bind_Some_iff)+

text \<open>
  A block the dry run accepts, with all its self-calls recognised: the last statement of one
  that is not recursive, and the count of what precedes it.
\<close>

lemma accepted_last:
  assumes "check_block i b ar = Some k" and "count_self_tailcalls i b = k" and "is_rec i b = None"
  obtains pre s a where "b = pre @ [s]" "kind s = Return a" "k = 0"
  | pre s c t e where "b = pre @ [s]" "kind s = If c t e" "check_dispatch i (If c t e) ar = Some k"
      "count_stmt i (If c t e) = k"
  | pre s c arms where "b = pre @ [s]" "kind s = Match c arms" "check_dispatch i (Match c arms) ar = Some k"
      "count_stmt i (Match c arms) = k"
proof -
  have "\<not> recursive_end i b ar"
    using assms(3) is_recI by (metis option.distinct(1) recursive_endE)
  with assms(1) obtain pre s where b: "b = pre @ [s]" and s: "is_return (kind s) \<and> k = 0
      \<or> \<not> is_return (kind s) \<and> is_dispatch (kind s) \<and> check_dispatch i (kind s) ar = Some k"
    by (rule check_block_last)
  from s show ?thesis
  proof (elim disjE conjE)
    assume "is_return (kind s)" "k = 0"
    with b that(1) show ?thesis by (blast elim: is_returnE)
  next
    assume d: "is_dispatch (kind s)" and c: "check_dispatch i (kind s) ar = Some k"
    from c have "k \<le> count_stmt i (kind s)" by (rule check_le_count)
    with assms(2) have "count_stmt i (kind s) = k" by (simp add: b count_append count_Cons)
    with b c that(2,3) d show ?thesis by (metis is_dispatchE)
  qed
qed

lemma accepted_rec:
  assumes "check_block i b ar = Some k" and "count_self_tailcalls i b = k" and "is_rec i b = Some args"
  obtains pre s1 s2 v where "b = pre @ [s1, s2]" "kind s1 = Let v (TailCallDirect i args)"
    "kind s2 = Return (AVar v)" "length args = ar"
proof -
  from assms(3) obtain pre s1 s2 v a where b: "b = pre @ [s1, s2]"
    and k: "kind s1 = Let v (TailCallDirect i args)" "kind s2 = Return a" by (rule is_recE)
  have "recursive_end i b ar"
  proof (rule ccontr)
    assume "\<not> recursive_end i b ar"
    with assms(1) obtain pre' s where "b = pre' @ [s]" "is_return (kind s) \<and> k = 0
      \<or> \<not> is_return (kind s) \<and> is_dispatch (kind s) \<and> check_dispatch i (kind s) ar = Some k"
      by (rule check_block_last)
    with b k have "k = 0" by (auto simp: is_return_def)
    with assms(2) b k show False by (simp add: count_append count_Cons)
  qed
  then obtain pre' s1' s2' v' args' where "b = pre' @ [s1', s2']"
    "kind s1' = Let v' (TailCallDirect i args')" "kind s2' = Return (AVar v')" "length args' = ar"
    by (rule recursive_endE)
  with b k that show ?thesis by auto
qed

lemma exec_single_If:
  assumes "exec_block P pr n e ds w [s] = Done (Ret v, w1)" and "kind s = If c t f"
  obtains b where "eval_atom e c = Some (VBool b)"
    "exec_block P pr n e ds w (if b then t else f) = Done (Ret v, w1)"
  using assms by (auto simp: exec_block_single_Ret simp del: exec_block.simps split: option.splits val.splits)

lemma exec_single_Match:
  assumes "exec_block P pr n e ds w [s] = Done (Ret v, w1)" and "kind s = Match c arms"
  obtains u bs b where "eval_atom e c = Some u" "match_arms arms u = Done (Some (bs, b))"
    "exec_block P pr n (bind_all e bs) ds w b = Done (Ret v, w1)"
  using assms by (auto simp: exec_block_single_Ret simp del: exec_block.simps
      split: option.splits res.splits)

lemma branch_runs:
  assumes sim: "calls_sim P P' pr N" and n: "n \<le> N" and ps: "distinct ps" "set ps \<subseteq> {..<V}"
    and d0: "runs_defers P' pr w1 ds0 w2"
  shows "check_block i b (length ps) = Some k \<Longrightarrow> count_self_tailcalls i b = k \<Longrightarrow>
    transform_block i b ps res nx = Some (b', nx') \<Longrightarrow> V \<le> nx \<Longrightarrow> set (lp_block_vars b) \<subseteq> {..<V} \<Longrightarrow>
    exec_block P pr n e ds w b = Done (Ret v, w1) \<Longrightarrow> env_le {..<V} e e2 \<Longrightarrow>
    turn P P' pr n i ps res ds0 w2 v w1 (runs_block P' pr e2 (ds @ ds0) w b')"
proof (induction "size_list size b" arbitrary: b k nx b' nx' e ds w e2 rule: less_induct)
  case less
  note chk = less.prems(1) and cnt = less.prems(2) and tr = less.prems(3) and V = less.prems(4)
    and vars = less.prems(5) and x = less.prems(6) and le = less.prems(7)
  show ?case
  proof (cases "is_rec i b")
    case (Some args)
    with chk cnt obtain pre s1 s2 y where b: "b = pre @ [s1, s2]"
      "kind s1 = Let y (TailCallDirect i args)" "kind s2 = Return (AVar y)" "length args = length ps"
      by (rule accepted_rec)
    have "take (length b - 2) b = pre" by (simp add: b)
    with transform_block_rec [OF Some tr] obtain stmts where
      em: "emit_reassign pre ps args nx (stmt_range (b ! (length b - 1))) = (stmts, nx')"
      and b': "b' = stmts @ [stmt_new Continue_stmt (stmt_range (b ! (length b - 1)))]" by auto
    have av: "set (lp_atom_vars args) \<subseteq> {..<V}" and pv: "set (lp_block_vars pre) \<subseteq> {..<V}"
      using vars by (auto simp: b lp_block_vars_append kind_vars)
    from x [unfolded b(1)] show ?thesis
    proof (cases rule: exec_block_snoc_Ret)
      case 1
      obtain tl where "stmts = pre @ tl" using emit_reassign_prefix [OF em] by blast
      with transport_ret [OF sim 1 n pv le d0] show ?thesis
        by (auto simp: b' intro!: turn_ret runs_block_append_exit)
    next
      case (2 e1 ds1 w3)
      from transport_norm [OF sim 2(1) n pv le] obtain e3 where
        e3: "env_le {..<V} e1 e3" "runs_block P' pr e2 (ds @ ds0) w pre (Norm e3 (ds1 @ ds0)) w3" .
      show ?thesis unfolding b'
        by (rule turn_recursive [OF sim n ps V b(2,3,4) av 2(2) e3(1) em e3(2)])
    qed
  next
    case None
    have step: "turn P P' pr n i ps res ds0 w2 v w1 (runs_block P' pr e2 (ds @ ds0) w (pre @ tl))"
      if pre: "set (lp_block_vars pre) \<subseteq> {..<V}" "exec_block P pr n e ds w (pre @ [s]) = Done (Ret v, w1)"
        and go: "\<And>e1 ds1 w3 e3. exec_block P pr n e1 ds1 w3 [s] = Done (Ret v, w1) \<Longrightarrow>
          env_le {..<V} e1 e3 \<Longrightarrow> turn P P' pr n i ps res ds0 w2 v w1 (runs_block P' pr e3 (ds1 @ ds0) w3 tl)"
      for pre s tl
      using pre(2)
    proof (cases rule: exec_block_snoc_Ret)
      case 1
      from transport_ret [OF sim 1 n pre(1) le d0] show ?thesis
        by (auto intro!: turn_ret runs_block_append_exit)
    next
      case (2 e1 ds1 w3)
      from transport_norm [OF sim 2(1) n pre(1) le] obtain e3 where
        e3: "env_le {..<V} e1 e3" "runs_block P' pr e2 (ds @ ds0) w pre (Norm e3 (ds1 @ ds0)) w3" .
      from go [OF 2(2) e3(1)] e3(2) show ?thesis by (rule turn_after)
    qed
    from chk cnt None show ?thesis
    proof (cases rule: accepted_last)
      case (1 pre s a)
      from transform_block_snoc(1) [OF None [unfolded 1(1)] 1(2) tr [unfolded 1(1)]]
      have b': "b' = pre @ [stmt_new (Let res (Use a)) (stmt_range s), stmt_new Break_stmt (stmt_range s)]" .
      have "set (lp_atom_var a) \<subseteq> {..<V}" "set (lp_block_vars pre) \<subseteq> {..<V}"
        using vars 1 by (auto simp: lp_block_vars_append kind_vars)
      then show ?thesis unfolding b' using x [unfolded 1(1)]
        by (intro step) (auto intro: turn_base [OF sim n 1(2), where pre = "[]", simplified])
    next
      case (2 pre s c t f)
      from transform_block_snoc(2) [OF None [unfolded 2(1)] 2(2) tr [unfolded 2(1)]] obtain t' f' n1 where
        t': "transform_block i t ps res nx = Some (t', n1)" "transform_block i f ps res n1 = Some (f', nx')"
        "b' = pre @ [stmt_new (If c t' f') (stmt_range s)]" by blast
      from 2(3) obtain k1 k2 where k: "check_block i t (length ps) = Some k1"
        "check_block i f (length ps) = Some k2" "k = k1 + k2" by (auto simp: bind_Some_iff)
      with check_le_count(3) [OF k(1)] check_le_count(3) [OF k(2)] 2(4)
      have c: "count_self_tailcalls i t = k1" "count_self_tailcalls i f = k2" by auto
      have vs: "set (lp_atom_var c) \<subseteq> {..<V}" "set (lp_block_vars pre) \<subseteq> {..<V}"
        "set (lp_block_vars t) \<subseteq> {..<V}" "set (lp_block_vars f) \<subseteq> {..<V}"
        using vars 2 by (auto simp: lp_block_vars_append kind_vars)
      have sz: "size_list size t < size_list size b" "size_list size f < size_list size b"
        using 2(2) size_kind [of s] by (auto simp: 2(1))
      have "V \<le> n1" using V transform_block_mono [OF t'(1) k(1)] by simp
      show ?thesis unfolding t'(3)
      proof (rule step [OF vs(2) x [unfolded 2(1)]])
        fix e1 ds1 w3 e3
        assume x1: "exec_block P pr n e1 ds1 w3 [s] = Done (Ret v, w1)" and le1: "env_le {..<V} e1 e3"
        from x1 2(2) obtain bb where bb: "eval_atom e1 c = Some (VBool bb)"
          "exec_block P pr n e1 ds1 w3 (if bb then t else f) = Done (Ret v, w1)" by (rule exec_single_If)
        have c3: "eval_atom e3 c = Some (VBool bb)" using le1 _ bb(1) by (rule env_le_atom) (use vs(1) in auto)
        have "turn P P' pr n i ps res ds0 w2 v w1 (runs_block P' pr e3 (ds1 @ ds0) w3 (if bb then t' else f'))"
          using less.hyps [OF sz(1) k(1) c(1) t'(1) V vs(3) _ le1]
            less.hyps [OF sz(2) k(2) c(2) t'(2) \<open>V \<le> n1\<close> vs(4) _ le1] bb(2) by (cases bb) simp_all
        then show "turn P P' pr n i ps res ds0 w2 v w1
            (runs_block P' pr e3 (ds1 @ ds0) w3 [stmt_new (If c t' f') (stmt_range s)])"
          by (rule turn_single) (simp add: runs_If [OF c3])
      qed
    next
      case (3 pre s c arms)
      from transform_block_snoc(3) [OF None [unfolded 3(1)] 3(2) tr [unfolded 3(1)]] obtain arms' where
        a': "transform_arms i arms ps res nx = Some (arms', nx')"
        "b' = pre @ [stmt_new (Match c arms') (stmt_range s)]" by blast
      from 3(3,4) have ka: "check_arms i arms (length ps) = Some k" "count_arms i arms = k"
        by (auto split: if_splits)
      have vs: "set (lp_atom_var c) \<subseteq> {..<V}" "set (lp_block_vars pre) \<subseteq> {..<V}"
        "set (lp_arm_vars arms) \<subseteq> {..<V}"
        using vars 3 by (auto simp: lp_block_vars_append kind_vars)
      show ?thesis unfolding a'(2)
      proof (rule step [OF vs(2) x [unfolded 3(1)]])
        fix e1 ds1 w3 e3
        assume x1: "exec_block P pr n e1 ds1 w3 [s] = Done (Ret v, w1)" and le1: "env_le {..<V} e1 e3"
        from x1 3(2) obtain u bs bk where u: "eval_atom e1 c = Some u"
          "match_arms arms u = Done (Some (bs, bk))"
          "exec_block P pr n (bind_all e1 bs) ds1 w3 bk = Done (Ret v, w1)" by (rule exec_single_Match)
        have c3: "eval_atom e3 c = Some u" using le1 _ u(1) by (rule env_le_atom) (use vs(1) in auto)
        from chosen_arm [OF a'(1) ka u(2)] obtain bk' m m' kb where
          bk: "match_arms arms' u = Done (Some (bs, bk'))" "transform_block i bk ps res m = Some (bk', m')"
          "nx \<le> m" "check_block i bk (length ps) = Some kb" "count_self_tailcalls i bk = kb" by blast
        have "size_list size bk < size_list size b"
          using match_arms_size [OF u(2)] 3(2) size_kind [of s] by (simp add: 3(1))
        moreover have "V \<le> m" using V bk(3) by simp
        moreover have "set (lp_block_vars bk) \<subseteq> {..<V}" using match_arms_vars [OF u(2)] vs(3) by blast
        ultimately have "turn P P' pr n i ps res ds0 w2 v w1
            (runs_block P' pr (bind_all e3 bs) (ds1 @ ds0) w3 bk')"
          using less.hyps [OF _ bk(4,5,2) _ _ u(3) env_le_bind_all [OF le1]] by blast
        then show "turn P P' pr n i ps res ds0 w2 v w1
            (runs_block P' pr e3 (ds1 @ ds0) w3 [stmt_new (Match c arms') (stmt_range s)])"
          by (rule turn_single) (simp add: runs_Match_some [OF c3 bk(1)])
      qed
    qed
  qed
qed

section \<open>The loop against the recursion\<close>

lemma exec_snoc_leaves:
  assumes "exec_block P pr n e ds w (pre @ [s]) = Done (r, w1)"
    and "\<And>e ds w r w1. exec P pr n e ds w (kind s) = Done (r, w1) \<Longrightarrow> leaves r"
  shows "leaves r"
proof -
  from assms(1) obtain r1 w3 where r1: "exec_block P pr n e ds w pre = Done (r1, w3)"
    and k: "(case r1 of Norm e' ds' \<Rightarrow> exec_block P pr n e' ds' w3 [s] | _ \<Rightarrow> Done (r1, w3)) = Done (r, w1)"
    by (cases "exec_block P pr n e ds w pre") (auto simp: exec_block_append simp del: exec_block.simps)
  show ?thesis
  proof (cases r1)
    case (Norm e1 ds1)
    with k obtain r2 w4 where "exec P pr n e1 ds1 w3 (kind s) = Done (r2, w4)"
      by (cases "exec P pr n e1 ds1 w3 (kind s)") auto
    with assms(2) [OF this] k Norm show ?thesis by (cases r2) auto
  qed (use k in auto)
qed

lemma accepted_leaves:
  "check_dispatch i k ar = Some m \<Longrightarrow> exec P pr n e ds w k = Done (r, w1) \<Longrightarrow> leaves r"
  "check_arms i arms ar = Some m \<Longrightarrow> match_arms arms v = Done (Some (bs, b)) \<Longrightarrow>
     exec_block P pr n e ds w b = Done (r, w1) \<Longrightarrow> leaves r"
  "check_block i b ar = Some m \<Longrightarrow> exec_block P pr n e ds w b = Done (r, w1) \<Longrightarrow> leaves r"
proof (induction i k ar and i arms ar and i b ar arbitrary: m e ds w r w1 and m v bs b e ds w r w1
    and m e ds w r w1 rule: check_dispatch_check_arms_check_block.induct)
  case (1 i c t f ar)
  from "1.prems"(2) obtain bb where "exec_block P pr n e ds w (if bb then t else f) = Done (r, w1)"
    by (auto split: option.splits val.splits)
  with 1 show ?case by (cases bb) (auto simp: bind_Some_iff)
next
  case (2 i c arms ar)
  from "2.prems" have a: "arms \<noteq> []" "arm_pattern (last arms) = PWildcard" "check_arms i arms ar = Some m"
    by (auto split: if_splits)
  from "2.prems"(2) match_arms_exhaustive [OF a(1,2)] obtain u bs b where
    "match_arms arms u = Done (Some (bs, b))" "exec_block P pr n (bind_all e bs) ds w b = Done (r, w1)"
    by (auto split: option.splits res.splits)
  with "2.IH" [OF _ a(3)] a(1,2) show ?case by blast
next
  case (5 i p b0 arms ar)
  then show ?case by (auto simp: bind_Some_iff split: matched.splits)
next
  case (6 i b ar)
  have last: "leaves r" if "exec_block P pr n e ds w (pre @ [s]) = Done (r, w1)"
    and "\<And>e ds w r w1. exec P pr n e ds w (kind s) = Done (r, w1) \<Longrightarrow> leaves r" for pre s
    using that(1) by (rule exec_snoc_leaves) (use that(2) in blast)
  have ret: "leaves r'" if "exec P pr n e ds w (Return a) = Done (r', w1)" for e ds w r' w1 a
    using that by (auto simp: bind_res_Done split: option.splits)
  show ?case
  proof (cases "recursive_end i b ar")
    case True
    then obtain pre s1 s2 v args where "b = pre @ [s1, s2]" "kind s2 = Return (AVar v)"
      by (rule recursive_endE)
    with "6.prems"(2) have "exec_block P pr n e ds w ((pre @ [s1]) @ [s2]) = Done (r, w1)" by simp
    then show ?thesis by (rule last) (metis ret \<open>kind s2 = Return (AVar v)\<close>)
  next
    case False
    with "6.prems"(1) obtain pre s where b: "b = pre @ [s]" and s: "is_return (kind s) \<and> m = 0
      \<or> \<not> is_return (kind s) \<and> is_dispatch (kind s) \<and> check_dispatch i (kind s) ar = Some m"
      by (rule check_block_last)
    from s show ?thesis
    proof (elim disjE conjE)
      assume "is_return (kind s)"
      then show ?thesis using "6.prems"(2) unfolding b by (elim is_returnE) (rule last, auto intro: ret)
    next
      assume "\<not> is_return (kind s)" "is_dispatch (kind s)" "check_dispatch i (kind s) ar = Some m"
      with False b have "leaves r" if "exec P pr n e ds w (kind s) = Done (r, w1)" for e ds w r w1
        using "6.IH" that by (simp add: b)
      with "6.prems"(2) b show ?thesis using last by blast
    qed
  qed
qed simp_all

lemma dispatch_index_split:
  assumes "dispatch_index b = Some d"
  obtains tl where "b = take d b @ [b ! d] @ tl" "is_dispatch (kind (b ! d))"
proof -
  from assms have d: "d < length b" "is_dispatch (kind (b ! d))"
    by (auto simp: dispatch_index_def Let_def split: if_splits)
  from d(1) have "b = take d b @ [b ! d] @ drop (Suc d) b" by (simp add: id_take_nth_drop)
  with d(2) that show ?thesis by blast
qed

lemma next_var_above:
  "v \<in> set (params f) \<union> set (captures f) \<union> set (lp_block_vars (body f)) \<Longrightarrow> v < next_var f"
  unfolding next_var_def by (rule foldl_bump_above) auto

lemma frame_le_reassigned:
  assumes "frame f vs [] = Some e" and "reassigned (params f) e3 vs" and "distinct (params f)"
  shows "env_le V e e3"
proof -
  from assms(1) have e: "e = map_of (zip (params f) vs)" and l: "length vs = length (params f)"
    by (auto simp: frame_def split: if_splits)
  have "e3 x = Some v" if "map_of (zip (params f) vs) x = Some v" for x v
  proof -
    from that have "(x, v) \<in> set (zip (params f) vs)" by (rule map_of_SomeD)
    with assms(2) show ?thesis by (auto simp: reassigned_def list_all2_conv_all_nth in_set_zip)
  qed
  then show ?thesis by (auto simp: env_le_def e)
qed

text \<open>
  An activation of the function and the loop, from any frame that extends the activation's and
  with any cleanups below.
\<close>

lemma loop_simulates:
  assumes sim: "calls_sim P P' pr N" and f: "P ! i = f" and dp: "distinct (params f)"
    and d: "dispatch_index (body f) = Some d"
    and chk: "check_dispatch i (kind (body f ! d)) (length (params f)) = Some k"
    and cnt: "count_self_tailcalls i (body f) = k"
    and tr: "transform_block i [body f ! d] (params f) res (next_var f + 1) = Some (tb, nx')"
  shows "n \<le> N \<Longrightarrow> exec_block P pr n e [] w (body f) = Done (Ret v, w1) \<Longrightarrow>
    env_le {..<next_var f} e e2 \<Longrightarrow> runs_defers P' pr w1 ds0 w2 \<Longrightarrow>
    runs P' pr e2 ds0 w (Loop (take d (body f) @ tb)) (Ret v) w2
    \<or> (\<exists>e3 ds3 w3. runs P' pr e2 ds0 w (Loop (take d (body f) @ tb)) (Norm e3 ds3) w3
         \<and> e3 res = Some v \<and> runs_defers P' pr w3 ds3 w2)"
proof (induction n arbitrary: e w w1 e2 ds0 rule: less_induct)
  case (less n)
  let ?V = "{..<next_var f}" and ?hd = "take d (body f)" and ?lb = "take d (body f) @ tb"
  note n = less.prems(1) and x = less.prems(2) and le = less.prems(3) and d0 = less.prems(4)
  from d obtain tl where b: "body f = ?hd @ [body f ! d] @ tl" and disp: "is_dispatch (kind (body f ! d))"
    by (rule dispatch_index_split)
  have bv: "set (lp_block_vars (body f)) \<subseteq> ?V" using next_var_above [of _ f] by auto
  have "lp_block_vars (body f) = lp_block_vars ?hd @ lp_block_vars [body f ! d] @ lp_block_vars tl"
    using arg_cong [OF b, of lp_block_vars] by (simp only: lp_block_vars_append)
  with bv have hv: "set (lp_block_vars ?hd) \<subseteq> ?V" and dv: "set (lp_block_vars [body f ! d]) \<subseteq> ?V"
    by (simp_all only: set_append Un_subset_iff)
  have pv: "set (params f) \<subseteq> ?V" using next_var_above [of _ f] by auto
  have nr: "\<not> is_return (kind (body f ! d))"
    using disp by (auto simp: is_dispatch_def is_return_def split: stmt_kind.splits)
  have c1: "check_block i [body f ! d] (length (params f)) = Some k"
    using chk disp nr by (simp add: check_block.simps recursive_end_def)
  have c2: "count_self_tailcalls i [body f ! d] = k"
  proof (rule antisym)
    show "count_self_tailcalls i [body f ! d] \<le> k"
      using cnt arg_cong [OF b, of "count_self_tailcalls i"] by (simp only: count_append)
    show "k \<le> count_self_tailcalls i [body f ! d]"
      using check_le_count(1) [OF chk] by (simp add: count_Cons)
  qed
  have x': "exec_block P pr n e [] w (?hd @ [body f ! d] @ tl) = Done (Ret v, w1)"
    by (subst b [symmetric]) (rule x)
  have turn: "turn P P' pr n i (params f) res ds0 w2 v w1 (runs_block P' pr e2 ([] @ ds0) w ?lb)"
    using x'
  proof (cases rule: exec_block_snoc_Ret)
    case 1
    from transport_ret [OF sim 1 n hv le d0] show ?thesis
      by (auto intro!: turn_ret runs_block_append_exit)
  next
    case (2 e1 ds1 w3)
    from transport_norm [OF sim 2(1) n hv le] obtain e3 where
      e3: "env_le ?V e1 e3" "runs_block P' pr e2 ([] @ ds0) w ?hd (Norm e3 (ds1 @ ds0)) w3" .
    have "exec_block P pr n e1 ds1 w3 [body f ! d] = Done (Ret v, w1)"
      using 2(2)
    proof (cases rule: exec_block_snoc_Ret)
      case (2 e4 ds4 w4)
      with accepted_leaves(3) [OF c1] show ?thesis by fastforce
    qed
    from branch_runs [OF sim n dp pv d0 c1 c2 tr _ dv this e3(1)]
    have "turn P P' pr n i (params f) res ds0 w2 v w1 (runs_block P' pr e3 (ds1 @ ds0) w3 tb)" by simp
    then show ?thesis using e3(2) by (rule turn_after)
  qed
  then consider (ret) "runs_block P' pr e2 ds0 w ?lb (Ret v) w2"
    | (brk) e3 ds3 w3 where "runs_block P' pr e2 ds0 w ?lb (Brk e3 (ds3 @ ds0)) w3" "e3 res = Some v"
        "runs_defers P' pr w3 ds3 w1"
    | (cont) e3 ds3 w3 vs w4 where "runs_block P' pr e2 ds0 w ?lb (Cont e3 (ds3 @ ds0)) w3"
        "reassigned (params f) e3 vs" "call P pr n w3 i vs [] = Done (v, w4)"
        "runs_defers P' pr w4 ds3 w1"
    unfolding turn_def by auto
  then show ?case
  proof cases
    case ret
    then show ?thesis by (auto intro: runs_Loop_exit)
  next
    case brk
    with runs_Loop_exit [OF brk(1)] runs_defers_append [OF brk(3) d0] show ?thesis by blast
  next
    case cont
    from cont(3) obtain m e' where m: "n = Suc m" "frame f vs [] = Some e'"
      "exec_block P pr m e' [] w3 (body f) = Done (Ret v, w4)"
      by (rule call_DoneE) (simp add: f)
    have "env_le ?V e' e3" using m(2) cont(2) dp by (rule frame_le_reassigned)
    moreover have "runs_defers P' pr w4 (ds3 @ ds0) w2" using cont(4) d0 by (rule runs_defers_append)
    ultimately show ?thesis
      using less.IH [of m, OF _ _ m(3)] m(1) n runs_Loop_next [OF cont(1)] by (metis less_Suc_eq Suc_leD)
  qed
qed

section \<open>The whole program\<close>

lemma loopify_fn_cases:
  assumes "loopify_fn i f = Some f'"
  obtains "f' = f"
  | d k tb nx r where "dispatch_index (body f) = Some d"
      "check_dispatch i (kind (body f ! d)) (length (params f)) = Some k"
      "count_self_tailcalls i (body f) = k" "0 < k"
      "transform_block i [body f ! d] (params f) (next_var f) (next_var f + 1) = Some (tb, nx)"
      "f' = f\<lparr>body := [stmt_new (Loop (take d (body f) @ tb)) r,
                     stmt_new (Return (AVar (next_var f))) r]\<rparr>"
proof (cases "dispatch_index (body f)")
  case None
  with assms that(1) show ?thesis by (simp add: loopify_fn_def)
next
  case d: (Some d)
  show ?thesis
  proof (cases "check_dispatch i (kind (body f ! d)) (length (params f))")
    case None
    with assms d that(1) show ?thesis by (simp add: loopify_fn_def)
  next
    case k: (Some k)
    show ?thesis
    proof (cases "k = 0 \<or> k \<noteq> count_self_tailcalls i (body f)")
      case True
      with assms d k that(1) show ?thesis by (simp add: loopify_fn_def split: if_splits)
    next
      case False
      let ?t = "transform_block i [body f ! d] (params f) (next_var f) (next_var f + 1)"
      from False have c: "count_self_tailcalls i (body f) = k" "0 < k" by auto
      with assms d k obtain tb nx where t: "?t = Some (tb, nx)"
        by (cases ?t) (auto simp: loopify_fn_def Let_def)
      with assms d k c have "f' = f\<lparr>body := [stmt_new (Loop (take d (body f) @ tb)) (stmt_range (body f ! d)),
          stmt_new (Return (AVar (next_var f))) (stmt_range (body f ! d))]\<rparr>"
        by (simp add: loopify_fn_def Let_def)
      with d k c t that(2) show ?thesis by blast
    qed
  qed
qed

lemma loopify_all_nth:
  "loopify_all j fs = Some fs' \<Longrightarrow>
     length fs' = length fs \<and> (\<forall>i < length fs. loopify_fn (j + i) (fs ! i) = Some (fs' ! i))"
proof (induction fs arbitrary: j fs')
  case (Cons f fs)
  then obtain f' fs1 where "loopify_fn j f = Some f'" "loopify_all (j + 1) fs = Some fs1" "fs' = f' # fs1"
    by (auto simp: bind_Some_iff)
  with Cons.IH [of "j + 1" fs1] show ?case by (auto simp: nth_Cons split: nat.splits)
qed simp

lemma frame_body [simp]: "frame (f\<lparr>body := b\<rparr>) = frame f"
  by (simp add: frame_def fun_eq_iff)

lemma fn_simulates:
  assumes sim: "calls_sim P P' pr n" and all: "loopify_all 0 P = Some P'"
    and dp: "\<And>f. f \<in> set P \<Longrightarrow> distinct (params f)"
    and c: "call P pr (Suc n) w g args caps = Done (v, w1)"
  shows "returns P' pr g args caps w v w1"
proof -
  from c obtain e where g: "g < length P" "frame (P ! g) args caps = Some e"
    and x: "exec_block P pr n e [] w (body (P ! g)) = Done (Ret v, w1)"
    by (rule call_DoneE) simp
  from loopify_all_nth [OF all] g(1) have g': "g < length P'" and fn: "loopify_fn g (P ! g) = Some (P' ! g)"
    by auto
  from fn show ?thesis
  proof (cases rule: loopify_fn_cases)
    case 1
    have "runs_block P' pr e ([] @ []) w (body (P ! g)) (Ret v) w1"
      by (rule transport_ret [OF sim x order.refl subset_UNIV env_le_refl]) simp
    with 1 g g' show ?thesis by (intro returnsI) auto
  next
    case (2 d k tb nx r)
    let ?f = "P ! g"
    from g(1) have "distinct (params ?f)" by (simp add: dp)
    have "runs_defers P' pr w1 [] w1" by simp
    with loop_simulates [OF sim refl \<open>distinct (params ?f)\<close> 2(1-3,5) order.refl x env_le_refl]
    consider "runs P' pr e [] w (Loop (take d (body ?f) @ tb)) (Ret v) w1"
      | e3 ds3 w3 where "runs P' pr e [] w (Loop (take d (body ?f) @ tb)) (Norm e3 ds3) w3"
        "e3 (next_var ?f) = Some v" "runs_defers P' pr w3 ds3 w1"
      by blast
    then have "runs_block P' pr e [] w (body (P' ! g)) (Ret v) w1"
    proof cases
      case 1
      then show ?thesis by (simp add: 2(6) runs_block_exit)
    next
      case exit: (2 e3 ds3 w3)
      from exit(2,3) have "runs_block P' pr e3 ds3 w3 [stmt_new (Return (AVar (next_var ?f))) r] (Ret v) w1"
        by (intro runs_block_single) (simp add: runs_Return)
      with exit(1) show ?thesis by (simp add: 2(6) runs_block_Cons)
    qed
    with g g' show ?thesis by (intro returnsI) (simp_all add: 2(6))
  qed
qed

lemma loopify_calls_sim:
  assumes "loopify_all 0 P = Some P'" and "\<And>f. f \<in> set P \<Longrightarrow> distinct (params f)"
  shows "calls_sim P P' pr n"
proof (induction n)
  case 0
  then show ?case by (simp add: calls_sim_def call.simps)
next
  case (Suc n)
  then show ?case
    using fn_simulates [OF Suc assms] by (auto simp: calls_sim_def le_Suc_eq)
qed

lemma loopify_fn_total: "\<exists>f'. loopify_fn i f = Some f'"
proof (cases "dispatch_index (body f)")
  case (Some d)
  show ?thesis
  proof (cases "check_dispatch i (kind (body f ! d)) (length (params f))")
    case chk: (Some k)
    from Some have disp: "is_dispatch (kind (body f ! d))"
      by (auto simp: dispatch_index_def Let_def split: if_splits)
    then have "\<not> is_return (kind (body f ! d))"
      by (auto simp: is_dispatch_def is_return_def split: stmt_kind.splits)
    with chk disp have "check_block i [body f ! d] (length (params f)) = Some k"
      by (simp add: check_block.simps recursive_end_def)
    from transform_total(3) [OF this, of "params f" "next_var f" "next_var f + 1"] Some chk
    show ?thesis by (auto simp: loopify_fn_def Let_def)
  qed (simp add: Some loopify_fn_def)
qed (simp add: loopify_fn_def)

lemma loopify_all_total: "\<exists>fs'. loopify_all j fs = Some fs'"
proof (induction fs arbitrary: j)
  case (Cons f fs)
  obtain f' where "loopify_fn j f = Some f'" using loopify_fn_total by blast
  moreover obtain fs' where "loopify_all (j + 1) fs = Some fs'" using Cons.IH by blast
  ultimately show ?case by simp
qed simp

lemma loopify_fn_again:
  assumes "loopify_fn i f = Some f'"
  shows "loopify_fn i f' = Some f'"
  using assms
proof (cases rule: loopify_fn_cases)
  case (2 d k tb nx r)
  then have "dispatch_index (body f') = None" by (simp add: dispatch_index_def is_dispatch_def)
  then show ?thesis by (simp add: loopify_fn_def)
qed (use assms in simp)

lemma loopify_all_again: "loopify_all j fs = Some fs' \<Longrightarrow> loopify_all j fs' = Some fs'"
  by (induction fs arbitrary: j fs') (auto simp: bind_Some_iff loopify_fn_again)

lemma stage_args_count: "stage_args r pas n = (ss, ts, n') \<Longrightarrow> count_self_tailcalls i ss = 0"
  by (induction r pas n arbitrary: ss ts n' rule: stage_args.induct)
    (fastforce simp: count_Cons split: if_splits prod.splits)+

lemma write_params_count: "count_self_tailcalls i (write_params r pts) = 0"
  by (induction r pts rule: write_params.induct) (simp_all add: count_Cons)

lemma emit_reassign_count:
  "emit_reassign pre ps args n r = (stmts, n') \<Longrightarrow>
   count_self_tailcalls i stmts = count_self_tailcalls i pre"
  by (auto simp: emit_reassign_def count_append write_params_count stage_args_count split: prod.splits)

text \<open>The recognised self-calls are the ones the rewriting removes.\<close>

lemma transform_arms_count:
  assumes "\<And>b b' k n n'. b \<in> arm_body ` set arms \<Longrightarrow> check_block i b ar = Some k \<Longrightarrow>
      count_self_tailcalls i b = k \<Longrightarrow> transform_block i b ps res n = Some (b', n') \<Longrightarrow>
      count_self_tailcalls i b' = 0"
  shows "check_arms i arms ar = Some k \<Longrightarrow> count_arms i arms = k \<Longrightarrow>
    transform_arms i arms ps res n = Some (arms', n') \<Longrightarrow> count_arms i arms' = 0"
  using assms
proof (induction arms arbitrary: k n arms')
  case (Cons arm arms)
  obtain p b where arm: "arm = MatchArm p b" by (cases arm)
  from Cons.prems(1) obtain k0 k1 where k: "check_block i b ar = Some k0" "check_arms i arms ar = Some k1"
    "k = k0 + k1" by (auto simp: arm bind_Some_iff)
  from Cons.prems(3) obtain b' n1 arms1 where t: "transform_block i b ps res n = Some (b', n1)"
    "transform_arms i arms ps res n1 = Some (arms1, n')" "arms' = MatchArm p b' # arms1"
    by (auto simp: arm bind_Some_iff)
  from k(1,2) have "k0 \<le> count_self_tailcalls i b" "k1 \<le> count_arms i arms"
    by (auto dest: check_le_count)
  with Cons.prems(2) k(3) have c: "count_self_tailcalls i b = k0" "count_arms i arms = k1"
    by (auto simp: arm)
  have "count_self_tailcalls i b' = 0" using Cons.prems(4) [OF _ k(1) c(1) t(1)] by (simp add: arm)
  moreover have "count_arms i arms1 = 0"
    by (rule Cons.IH [OF k(2) c(2) t(2)]) (rule Cons.prems(4), auto)
  ultimately show ?case by (simp add: t(3))
qed simp

lemma transform_count:
  "check_block i b ar = Some k \<Longrightarrow> count_self_tailcalls i b = k \<Longrightarrow>
   transform_block i b ps res n = Some (b', n') \<Longrightarrow> count_self_tailcalls i b' = 0"
proof (induction "size_list size b" arbitrary: b k n b' n' rule: less_induct)
  case less
  note chk = less.prems(1) and cnt = less.prems(2) and tr = less.prems(3)
  show ?case
  proof (cases "is_rec i b")
    case (Some args)
    with chk cnt obtain pre s1 s2 y where b: "b = pre @ [s1, s2]"
      "kind s1 = Let y (TailCallDirect i args)" "kind s2 = Return (AVar y)" "length args = ar"
      by (rule accepted_rec)
    from chk Some b is_recI have "k = 1" by (simp add: check_block.simps recursive_end_def nth_append)
    with cnt have "count_self_tailcalls i pre = 0" by (simp add: b count_append count_Cons)
    with transform_block_rec [OF Some tr] show ?thesis
      by (auto simp: b(1) count_append count_Cons dest: emit_reassign_count [where i = i])
  next
    case None
    from chk cnt None show ?thesis
    proof (cases rule: accepted_last)
      case (1 pre s a)
      with transform_block_snoc(1) [OF None [unfolded 1(1)] 1(2) tr [unfolded 1(1)]] cnt
      show ?thesis by (simp add: count_append count_Cons)
    next
      case (2 pre s c t f)
      from transform_block_snoc(2) [OF None [unfolded 2(1)] 2(2) tr [unfolded 2(1)]] obtain t' f' n1 where
        t': "transform_block i t ps res n = Some (t', n1)" "transform_block i f ps res n1 = Some (f', n')"
        "b' = pre @ [stmt_new (If c t' f') (stmt_range s)]" by blast
      from 2(3) obtain k1 k2 where k: "check_block i t ar = Some k1" "check_block i f ar = Some k2"
        "k = k1 + k2" by (auto simp: bind_Some_iff)
      with check_le_count(3) [OF k(1)] check_le_count(3) [OF k(2)] 2(4)
      have c: "count_self_tailcalls i t = k1" "count_self_tailcalls i f = k2" by auto
      have sz: "size_list size t < size_list size b" "size_list size f < size_list size b"
        using 2(2) size_kind [of s] by (auto simp: 2(1))
      from less.hyps [OF sz(1) k(1) c(1) t'(1)] less.hyps [OF sz(2) k(2) c(2) t'(2)] cnt 2(2,4)
      show ?thesis by (simp add: 2(1) t'(3) count_append count_Cons)
    next
      case (3 pre s c arms)
      from transform_block_snoc(3) [OF None [unfolded 3(1)] 3(2) tr [unfolded 3(1)]] obtain arms' where
        a': "transform_arms i arms ps res n = Some (arms', n')"
        "b' = pre @ [stmt_new (Match c arms') (stmt_range s)]" by blast
      from 3(3,4) have ka: "check_arms i arms ar = Some k" "count_arms i arms = k"
        by (auto split: if_splits)
      have sz: "size_list size bk < size_list size b" if "bk \<in> arm_body ` set arms" for bk
      proof -
        from that have "size_list size bk < size_list size arms"
          by (induction arms) (auto, case_tac a, auto)
        then show ?thesis using 3(2) size_kind [of s] by (simp add: 3(1))
      qed
      have "count_arms i arms' = 0"
        by (rule transform_arms_count [OF _ ka a'(1)]) (rule less.hyps [OF sz])
      with cnt 3(2,4) show ?thesis by (simp add: 3(1) a'(2) count_append count_Cons)
    qed
  qed
qed

section \<open>Properties\<close>

text \<open>A program for the witnesses: \<open>f x y = if x then f (y, x) else y\<close>, with a dead epilogue.\<close>

definition swap_fn :: ir_function where
  "swap_fn = \<lparr>fn_name = ''f'', fn_module = ''m'', params = [0, 1], captures = [], is_async = False,
     poll_fn = None,
     body = [synthetic (If (AVar 0)
         [synthetic (Let 2 (TailCallDirect 0 [AVar 1, AVar 0])), synthetic (Return (AVar 2))]
         [synthetic (Return (AVar 1))]),
       synthetic (Return (AConst CUnit))],
     var_reprs = [], param_reprs = [], ret_repr = Boxed\<rparr>"

definition swap_program :: ir_program where
  "swap_program = \<lparr>prog_functions = [swap_fn], globals = [], enums = [], entry = 0, test_suites = [],
     param_shapes = Map.empty, extra_nominal = Map.empty\<rparr>"

lemma swap_loopified:
  obtains p' where "loopify swap_program = Some p'"
    "body (prog_functions p' ! 0) \<noteq> body (prog_functions swap_program ! 0)"
proof -
  have "case loopify_all 0 [swap_fn] of None \<Rightarrow> False | Some fs \<Rightarrow> body (fs ! 0) \<noteq> body swap_fn"
    by code_simp
  then obtain fs where "loopify_all 0 [swap_fn] = Some fs" "body (fs ! 0) \<noteq> body swap_fn"
    by (auto split: option.splits)
  moreover have "prog_functions swap_program = [swap_fn]" by (simp add: swap_program_def)
  ultimately show ?thesis
    by (intro that [of "swap_program\<lparr>prog_functions := fs\<rparr>"]) (simp_all add: loopify_def del: loopify_all.simps)
qed

text \<open>
  C5. Loopification is behaviour-preserving: every result a function of the program returns,
  with the world it leaves (cleanups run in the same order included), is returned by the same
  function of the rewritten program.
\<close>

theorem loopify_preserves_results:
  assumes "loopify p = Some p'" and "\<forall>f \<in> set (prog_functions p). distinct (params f)"
    and "returns (prog_functions p) pr g args caps w v w'"
  shows "returns (prog_functions p') pr g args caps w v w'"
  using assms loopify_calls_sim [of "prog_functions p" "prog_functions p'" pr]
  by (auto simp: loopify_def returns_def) (metis calls_simD order.refl returns_def)

theorem loopify_preserves_results_witness:
  "\<exists>p'. loopify swap_program = Some p' \<and> prog_functions p' \<noteq> prog_functions swap_program
     \<and> returns (prog_functions p') (\<lambda>_ _ _. None) 0 [VBool True, VBool False] [] () (VBool True) ()"
proof -
  obtain p' where p': "loopify swap_program = Some p'"
    "body (prog_functions p' ! 0) \<noteq> body (prog_functions swap_program ! 0)" by (rule swap_loopified)
  have d: "\<forall>f \<in> set (prog_functions swap_program). distinct (params f)" by code_simp
  have "call (prog_functions swap_program) (\<lambda>_ _ _. None) 3 () 0 [VBool True, VBool False] []
      = Done (VBool True, ())" by code_simp
  then have "returns (prog_functions swap_program) (\<lambda>_ _ _. None) 0 [VBool True, VBool False] []
      () (VBool True) ()" unfolding returns_def by blast
  from loopify_preserves_results [OF p'(1) d this] p' show ?thesis by auto
qed

text \<open>
  C22. Loopification never panics, changes nothing but bodies, and a second run changes nothing.
\<close>

theorem loopify_total:
  "\<exists>p'. loopify p = Some p' \<and> loopify p' = Some p'
     \<and> map (body_update (\<lambda>_. [])) (prog_functions p') = map (body_update (\<lambda>_. [])) (prog_functions p)"
proof -
  obtain fs where fs: "loopify_all 0 (prog_functions p) = Some fs" using loopify_all_total by blast
  have "map (body_update (\<lambda>_. [])) fs = map (body_update (\<lambda>_. [])) (prog_functions p)"
  proof (rule nth_equalityI)
    fix i assume "i < length (map (body_update (\<lambda>_. [])) fs)"
    with loopify_all_nth [OF fs] have i: "i < length fs" "length fs = length (prog_functions p)"
      and "loopify_fn i (prog_functions p ! i) = Some (fs ! i)" by auto
    from this(3) show "map (body_update (\<lambda>_. [])) fs ! i = map (body_update (\<lambda>_. [])) (prog_functions p) ! i"
      by (cases rule: loopify_fn_cases) (use i in simp_all)
  qed (use loopify_all_nth [OF fs] in simp)
  with fs loopify_all_again [OF fs] show ?thesis by (auto simp: loopify_def)
qed

text \<open>
  C23. A function the pass rewrites had a self-tail-call and has none left.
\<close>

theorem loopify_removes_self_calls:
  assumes "loopify p = Some p'" and "i < length (prog_functions p)"
    and "body (prog_functions p' ! i) \<noteq> body (prog_functions p ! i)"
  shows "0 < count_self_tailcalls i (body (prog_functions p ! i))
    \<and> count_self_tailcalls i (body (prog_functions p' ! i)) = 0"
proof -
  from assms(1) have all: "loopify_all 0 (prog_functions p) = Some (prog_functions p')"
    by (auto simp: loopify_def)
  let ?f = "prog_functions p ! i"
  from loopify_all_nth [OF all] assms(2) have "loopify_fn i ?f = Some (prog_functions p' ! i)" by auto
  then show ?thesis
  proof (cases rule: loopify_fn_cases)
    case (2 d k tb nx r)
    from 2(1) obtain tl where b: "body ?f = take d (body ?f) @ [body ?f ! d] @ tl"
      and disp: "is_dispatch (kind (body ?f ! d))" by (rule dispatch_index_split)
    have nr: "\<not> is_return (kind (body ?f ! d))"
      using disp by (auto simp: is_dispatch_def is_return_def split: stmt_kind.splits)
    have c1: "check_block i [body ?f ! d] (length (params ?f)) = Some k"
      using 2(2) disp nr by (simp add: check_block.simps recursive_end_def)
    have "count_self_tailcalls i (take d (body ?f)) + count_self_tailcalls i [body ?f ! d] \<le> k"
      using 2(3) arg_cong [OF b, of "count_self_tailcalls i"] by (simp only: count_append)
    with check_le_count(3) [OF c1]
    have z: "count_self_tailcalls i (take d (body ?f)) = 0" "count_self_tailcalls i [body ?f ! d] = k"
      by auto
    from transform_count [OF c1 z(2) 2(5)] z(1) 2(3,4) show ?thesis
      by (simp add: 2(6) count_Cons count_append)
  qed (use assms(3) in simp)
qed

theorem loopify_removes_self_calls_witness:
  "\<exists>p'. loopify swap_program = Some p'
     \<and> count_self_tailcalls 0 (body (prog_functions p' ! 0)) = 0"
proof -
  obtain p' where p': "loopify swap_program = Some p'"
    "body (prog_functions p' ! 0) \<noteq> body (prog_functions swap_program ! 0)" by (rule swap_loopified)
  have "0 < length (prog_functions swap_program)" by code_simp
  from loopify_removes_self_calls [OF p'(1) this p'(2)] p' show ?thesis by blast
qed

end
