(* ===== verification/Repr.thy ===== *)
theory Repr
  imports IrRuns
begin

text \<open>
  Representation analysis and coercion insertion, \<open>ir/src/repr.rs\<close>: a machine representation
  for every variable (\<open>infer_reprs\<close>, with the control-flow joins of \<open>find_join_vars\<close>), the
  rewriting that makes every operand carry the representation its consumer requires
  (\<open>insert_coercions\<close>), and the checker of that discipline (\<open>validate_reprs\<close>).

  An index into \<open>reprs\<close> or \<open>parent\<close> that the code would panic on is \<open>None\<close>. A \<open>HashMap\<close> of
  record shapes is a map, a \<open>HashSet\<close> of variables a set.
\<close>

section \<open>Call signatures\<close>

record sigs =
  table :: "(repr list \<times> repr) list"
  mono :: bool

definition uniform :: sigs where
  "uniform = \<lparr>table = [], mono = False\<rparr>"

definition from_program :: "ir_program \<Rightarrow> sigs" where
  "from_program p =
     \<lparr>table = map (\<lambda>f. (param_reprs f, ret_repr f)) (prog_functions p), mono = True\<rparr>"

definition sig_ret :: "sigs \<Rightarrow> func_id \<Rightarrow> repr" where
  "sig_ret sg fid = (case vec_get (table sg) fid of None \<Rightarrow> Boxed | Some (_, r) \<Rightarrow> r)"

definition sig_param :: "sigs \<Rightarrow> func_id \<Rightarrow> nat \<Rightarrow> repr" where
  "sig_param sg fid i =
     (case vec_get (table sg) fid of
        None \<Rightarrow> Boxed
      | Some (ps, _) \<Rightarrow> (case vec_get ps i of None \<Rightarrow> Boxed | Some r \<Rightarrow> r))"

definition seeds_params :: "sigs \<Rightarrow> bool" where
  "seeds_params sg = mono sg"

type_synonym nominal = "nat \<rightharpoonup> record_shape"

section \<open>Variables of a function\<close>

fun rp_atom_var :: "atom \<Rightarrow> var_id list" where
  "rp_atom_var (AVar v) = [v]"
| "rp_atom_var (AConst c) = []"

fun rp_rvalue_vars :: "rvalue \<Rightarrow> var_id list" where
  "rp_rvalue_vars (Use a) = rp_atom_var a"
| "rp_rvalue_vars (Not a) = rp_atom_var a"
| "rp_rvalue_vars (Box a) = rp_atom_var a"
| "rp_rvalue_vars (Unbox a _) = rp_atom_var a"
| "rp_rvalue_vars (Bin _ a b) = rp_atom_var a @ rp_atom_var b"
| "rp_rvalue_vars (Call _ args) = concat (map rp_atom_var args)"
| "rp_rvalue_vars (TailCallDirect _ args) = concat (map rp_atom_var args)"
| "rp_rvalue_vars (MakeDict args) = concat (map rp_atom_var args)"
| "rp_rvalue_vars (MakeTuple args) = concat (map rp_atom_var args)"
| "rp_rvalue_vars (Interpolate args) = concat (map rp_atom_var args)"
| "rp_rvalue_vars (MakeClosure _ args) = concat (map rp_atom_var args)"
| "rp_rvalue_vars (CallClosure c args) = rp_atom_var c @ concat (map rp_atom_var args)"
| "rp_rvalue_vars (TailCall c args) = rp_atom_var c @ concat (map rp_atom_var args)"
| "rp_rvalue_vars (MakeRecord fs _) = concat (map (\<lambda>(_, a). rp_atom_var a) fs)"
| "rp_rvalue_vars (RecordUpdate base fs _) =
     rp_atom_var base @ concat (map (\<lambda>(_, a). rp_atom_var a) fs)"
| "rp_rvalue_vars (MakeVariant _ _ payload) = concat (map rp_atom_var payload)"
| "rp_rvalue_vars (MakeList items) =
     concat (map (\<lambda>it. case it of Elem a \<Rightarrow> rp_atom_var a | Spread a \<Rightarrow> rp_atom_var a) items)"
| "rp_rvalue_vars (GetDictMethod a _) = rp_atom_var a"
| "rp_rvalue_vars (GetField a _ _) = rp_atom_var a"
| "rp_rvalue_vars (GetElement a _) = rp_atom_var a"
| "rp_rvalue_vars (GetTag a) = rp_atom_var a"
| "rp_rvalue_vars (GetPayload a _) = rp_atom_var a"
| "rp_rvalue_vars (Await a) = rp_atom_var a"
| "rp_rvalue_vars (MakeVariantCtor _ _) = []"
| "rp_rvalue_vars (GlobalRef _) = []"
| "rp_rvalue_vars (Builtin _) = []"

fun rp_pattern_vars :: "pattern \<Rightarrow> var_id list" where
  "rp_pattern_vars (PBind v) = [v]"
| "rp_pattern_vars (PVariant _ _ fs) = concat (map rp_pattern_vars fs)"
| "rp_pattern_vars (PTuple fs) = concat (map rp_pattern_vars fs)"
| "rp_pattern_vars (PList items rest) =
     concat (map rp_pattern_vars items)
       @ (case rest of Some (ListRest_Bind v) \<Rightarrow> [v] | _ \<Rightarrow> [])"
| "rp_pattern_vars (PRecord fs rest _) =
     concat (map (\<lambda>f. rp_pattern_vars (snd f)) fs)
       @ (case rest of RecordRest_Bind v \<Rightarrow> [v] | _ \<Rightarrow> [])"
| "rp_pattern_vars PWildcard = []"
| "rp_pattern_vars (PLiteral _) = []"

fun rp_block_vars :: "block \<Rightarrow> var_id list"
  and rp_stmt_vars :: "stmt_kind \<Rightarrow> var_id list"
  and rp_case_vars :: "(i64 \<times> block) list \<Rightarrow> var_id list"
  and rp_arm_vars :: "match_arm list \<Rightarrow> var_id list" where
  "rp_block_vars [] = []"
| "rp_block_vars (Stmt k r # ss) = rp_stmt_vars k @ rp_block_vars ss"
| "rp_stmt_vars (Let v rv) = v # rp_rvalue_vars rv"
| "rp_stmt_vars (Discard rv) = rp_rvalue_vars rv"
| "rp_stmt_vars (Return a) = rp_atom_var a"
| "rp_stmt_vars (PushDefer a) = rp_atom_var a"
| "rp_stmt_vars (If c t e) = rp_atom_var c @ rp_block_vars t @ rp_block_vars e"
| "rp_stmt_vars (Switch c arms dflt) = rp_atom_var c @ rp_case_vars arms @ rp_block_vars dflt"
| "rp_stmt_vars (Match c arms) = rp_atom_var c @ rp_arm_vars arms"
| "rp_stmt_vars (Loop b) = rp_block_vars b"
| "rp_stmt_vars Break_stmt = []"
| "rp_stmt_vars Continue_stmt = []"
| "rp_stmt_vars (RunDefer _) = []"
| "rp_case_vars [] = []"
| "rp_case_vars ((i, b) # arms) = rp_block_vars b @ rp_case_vars arms"
| "rp_arm_vars [] = []"
| "rp_arm_vars (MatchArm p b # arms) = rp_pattern_vars p @ rp_block_vars b @ rp_arm_vars arms"

definition var_upper_bound :: "ir_function \<Rightarrow> nat" where
  "var_upper_bound f = foldl bump 0 (params f @ captures f @ rp_block_vars (body f))"

section \<open>Join detection\<close>

text \<open>Every block has a number; \<open>parent\<close> holds the number of the block around it.\<close>

record join_walk =
  parent :: "nat option list"
  assigns :: "(var_id \<times> nat) list"
  uses :: "(var_id \<times> nat) list"

definition child_block :: "join_walk \<Rightarrow> nat \<Rightarrow> nat \<times> join_walk" where
  "child_block s p = (length (parent s), s\<lparr>parent := parent s @ [Some p]\<rparr>)"

definition push_assigns :: "var_id list \<Rightarrow> nat \<Rightarrow> join_walk \<Rightarrow> join_walk" where
  "push_assigns vs b s = s\<lparr>assigns := assigns s @ map (\<lambda>v. (v, b)) vs\<rparr>"

definition push_uses :: "var_id list \<Rightarrow> nat \<Rightarrow> join_walk \<Rightarrow> join_walk" where
  "push_uses vs b s = s\<lparr>uses := uses s @ map (\<lambda>v. (v, b)) vs\<rparr>"

fun walk_join :: "block \<Rightarrow> nat \<Rightarrow> join_walk \<Rightarrow> join_walk"
  and walk_join_stmt :: "stmt_kind \<Rightarrow> nat \<Rightarrow> join_walk \<Rightarrow> join_walk"
  and walk_join_cases :: "(i64 \<times> block) list \<Rightarrow> nat \<Rightarrow> join_walk \<Rightarrow> join_walk"
  and walk_join_arms :: "match_arm list \<Rightarrow> nat \<Rightarrow> join_walk \<Rightarrow> join_walk" where
  "walk_join [] blk s = s"
| "walk_join (Stmt k r # ss) blk s = walk_join ss blk (walk_join_stmt k blk s)"
| "walk_join_stmt (Let v rv) blk s = push_uses (rp_rvalue_vars rv) blk (push_assigns [v] blk s)"
| "walk_join_stmt (Discard rv) blk s = push_uses (rp_rvalue_vars rv) blk s"
| "walk_join_stmt (Return a) blk s = push_uses (rp_atom_var a) blk s"
| "walk_join_stmt (PushDefer a) blk s = push_uses (rp_atom_var a) blk s"
| "walk_join_stmt (If c t e) blk s =
     (let (tb, s1) = child_block (push_uses (rp_atom_var c) blk s) blk;
          (eb, s2) = child_block (walk_join t tb s1) blk
      in walk_join e eb s2)"
| "walk_join_stmt (Switch c arms dflt) blk s =
     (let (db, s1) = child_block (walk_join_cases arms blk (push_uses (rp_atom_var c) blk s)) blk
      in walk_join dflt db s1)"
| "walk_join_stmt (Match c arms) blk s = walk_join_arms arms blk (push_uses (rp_atom_var c) blk s)"
| "walk_join_stmt (Loop b) blk s = (let (cb, s1) = child_block s blk in walk_join b cb s1)"
| "walk_join_stmt Break_stmt blk s = s"
| "walk_join_stmt Continue_stmt blk s = s"
| "walk_join_stmt (RunDefer d) blk s = s"
| "walk_join_cases [] blk s = s"
| "walk_join_cases ((i, b) # arms) blk s =
     (let (cb, s1) = child_block s blk in walk_join_cases arms blk (walk_join b cb s1))"
| "walk_join_arms [] blk s = s"
| "walk_join_arms (MatchArm p b # arms) blk s =
     (let (ab, s1) = child_block s blk
      in walk_join_arms arms blk (walk_join b ab (push_assigns (rp_pattern_vars p) ab s1)))"

text \<open>
  The loop of \<open>is_ancestor\<close>; the fuel bounds its steps (\<open>None\<close> when it runs out, or on an
  index out of range).
\<close>

fun is_ancestor :: "nat \<Rightarrow> nat \<Rightarrow> nat \<Rightarrow> nat option list \<Rightarrow> bool option" where
  "is_ancestor fuel anc node ps =
     (if node = anc then Some True
      else case fuel of
        0 \<Rightarrow> None
      | Suc fuel' \<Rightarrow>
          Option.bind (vec_get ps node) (\<lambda>up.
            case up of Some p \<Rightarrow> is_ancestor fuel' anc p ps | None \<Rightarrow> Some False))"

declare is_ancestor.simps [simp del]

text \<open>Some block of the list is an ancestor: \<open>any\<close> stops at the first.\<close>

fun any_ancestor :: "nat list \<Rightarrow> nat \<Rightarrow> nat option list \<Rightarrow> bool option" where
  "any_ancestor [] ub ps = Some False"
| "any_ancestor (ab # blks) ub ps =
     Option.bind (is_ancestor (length ps) ab ub ps) (\<lambda>b.
       if b then Some True else any_ancestor blks ub ps)"

text \<open>The blocks that assign a variable (\<open>by_var\<close>).\<close>

definition by_var :: "(var_id \<times> nat) list \<Rightarrow> var_id \<Rightarrow> nat list" where
  "by_var as v = map snd (filter (\<lambda>a. fst a = v) as)"

definition find_join_vars :: "ir_function \<Rightarrow> nat set option" where
  "find_join_vars f =
     (let s = walk_join (body f) 0
                \<lparr>parent = [None], assigns = map (\<lambda>v. (v, 0)) (params f @ captures f), uses = []\<rparr>
      in fold_opt (\<lambda>joins (v, ub).
           Option.bind (any_ancestor (by_var (assigns s) v) ub (parent s)) (\<lambda>covered.
             Some (if covered then joins else insert v joins)))
         {} (uses s))"

section \<open>Representation of each binding\<close>

definition binop_result_repr :: "bin_op \<Rightarrow> repr" where
  "binop_result_repr op =
     (if op \<in> {AddInt, SubInt, MulInt, DivInt, RemInt} then I64
      else if op \<in> {BitAnd, BitOr, BitXor, ShiftLeft, ShiftRight, ShiftRightUnsigned} then I64
      else if op \<in> {AddFloat, SubFloat, MulFloat, DivFloat, RemFloat} then F64
      else if op = Concat_op then Boxed
      else I32)"

definition binop_operand_repr :: "bin_op \<Rightarrow> repr" where
  "binop_operand_repr op =
     (if op \<in> {AddInt, SubInt, MulInt, DivInt, RemInt, EqI64, NeI64, LtI64, LeI64, GtI64, GeI64}
      then I64
      else if op \<in> {BitAnd, BitOr, BitXor, ShiftLeft, ShiftRight, ShiftRightUnsigned} then I64
      else if op \<in> {AddFloat, SubFloat, MulFloat, DivFloat, RemFloat, EqF64, NeF64, LtF64, LeF64,
        GtF64, GeF64} then F64
      else if op \<in> {And, Or} then I32
      else Boxed)"

text \<open>The layout of a shape may panic (\<open>repr_of\<close>): \<open>None\<close>.\<close>

definition or_boxed :: "repr option \<Rightarrow> repr" where
  "or_boxed r = (case r of None \<Rightarrow> Boxed | Some r' \<Rightarrow> r')"

definition field_req_repr :: "record_shape option \<Rightarrow> string \<Rightarrow> repr option" where
  "field_req_repr shape name =
     (case shape of None \<Rightarrow> Some Boxed | Some s \<Rightarrow> map_option or_boxed (repr_of s name))"

fun const_repr :: "const \<Rightarrow> repr" where
  "const_repr (CInt _) = I64"
| "const_repr (CFloat _) = F64"
| "const_repr (CBool _) = I32"
| "const_repr CUnit = Boxed"
| "const_repr (CStr _) = Boxed"
| "const_repr (CBytes _) = Boxed"
| "const_repr (CDuration _) = Boxed"

fun atom_repr :: "atom \<Rightarrow> repr list \<Rightarrow> repr" where
  "atom_repr (AVar v) reprs = (case vec_get reprs v of None \<Rightarrow> Boxed | Some r \<Rightarrow> r)"
| "atom_repr (AConst c) reprs = const_repr c"

definition result_repr :: "rvalue \<Rightarrow> repr list \<Rightarrow> sigs \<Rightarrow> nominal \<Rightarrow> repr option" where
  "result_repr rv reprs sg nom =
     (case rv of
        Bin op _ _ \<Rightarrow> Some (binop_result_repr op)
      | Not _ \<Rightarrow> Some I32
      | Use a \<Rightarrow> Some (atom_repr a reprs)
      | Box _ \<Rightarrow> Some Boxed
      | Unbox _ r \<Rightarrow> Some r
      | Call (Callee_Function fid) _ \<Rightarrow> Some (sig_ret sg fid)
      | TailCallDirect fid _ \<Rightarrow> Some (sig_ret sg fid)
      | Call (Callee_Builtin _ ret) _ \<Rightarrow> Some ret
      | GetField (AVar v) name _ \<Rightarrow>
          (case nom v of None \<Rightarrow> Some Boxed | Some s \<Rightarrow> map_option or_boxed (repr_of s name))
      | _ \<Rightarrow> Some Boxed)"

text \<open>A \<open>Let\<close> of \<open>assign_block\<close>: the representation it settles on, with the joins merged so far.\<close>

definition assign_let ::
    "nat set \<Rightarrow> var_id \<Rightarrow> repr \<Rightarrow> repr list \<Rightarrow> nat set \<Rightarrow> (repr list \<times> nat set) option" where
  "assign_let joins v produced reprs merged =
     (if v \<in> joins then
        (if v \<notin> merged
         then Option.bind (vec_set reprs v produced) (\<lambda>reprs'. Some (reprs', insert v merged))
         else Option.bind (vec_get reprs v) (\<lambda>old.
                Option.bind (vec_set reprs v (if old = produced then produced else Boxed))
                  (\<lambda>reprs'. Some (reprs', merged))))
      else Option.bind (vec_set reprs v produced) (\<lambda>reprs'. Some (reprs', merged)))"

function (sequential)
    assign_block ::
    "nat set \<Rightarrow> sigs \<Rightarrow> nominal \<Rightarrow> block \<Rightarrow> repr list \<Rightarrow> nat set \<Rightarrow> (repr list \<times> nat set) option"
  and assign_stmt ::
    "nat set \<Rightarrow> sigs \<Rightarrow> nominal \<Rightarrow> stmt_kind \<Rightarrow> repr list \<Rightarrow> nat set \<Rightarrow> (repr list \<times> nat set) option"
  and assign_cases ::
    "nat set \<Rightarrow> sigs \<Rightarrow> nominal \<Rightarrow> (i64 \<times> block) list \<Rightarrow> repr list \<Rightarrow> nat set \<Rightarrow> (repr list \<times> nat set) option"
  and assign_arms ::
    "nat set \<Rightarrow> sigs \<Rightarrow> nominal \<Rightarrow> match_arm list \<Rightarrow> repr list \<Rightarrow> nat set \<Rightarrow> (repr list \<times> nat set) option"
where
  "assign_block js sg nom [] reprs merged = Some (reprs, merged)"
| "assign_block js sg nom (Stmt k r # ss) reprs merged =
     Option.bind (assign_stmt js sg nom k reprs merged) (\<lambda>(reprs', merged').
       assign_block js sg nom ss reprs' merged')"
| "assign_stmt js sg nom (Let v rv) reprs merged =
     Option.bind (result_repr rv reprs sg nom) (\<lambda>produced. assign_let js v produced reprs merged)"
| "assign_stmt js sg nom (If c t e) reprs merged =
     Option.bind (assign_block js sg nom t reprs merged) (\<lambda>(reprs', merged').
       assign_block js sg nom e reprs' merged')"
| "assign_stmt js sg nom (Switch c arms dflt) reprs merged =
     Option.bind (assign_cases js sg nom arms reprs merged) (\<lambda>(reprs', merged').
       assign_block js sg nom dflt reprs' merged')"
| "assign_stmt js sg nom (Match c arms) reprs merged = assign_arms js sg nom arms reprs merged"
| "assign_stmt js sg nom (Loop b) reprs merged = assign_block js sg nom b reprs merged"
| "assign_stmt js sg nom (Discard rv) reprs merged = Some (reprs, merged)"
| "assign_stmt js sg nom (Return a) reprs merged = Some (reprs, merged)"
| "assign_stmt js sg nom Break_stmt reprs merged = Some (reprs, merged)"
| "assign_stmt js sg nom Continue_stmt reprs merged = Some (reprs, merged)"
| "assign_stmt js sg nom (RunDefer d) reprs merged = Some (reprs, merged)"
| "assign_stmt js sg nom (PushDefer a) reprs merged = Some (reprs, merged)"
| "assign_cases js sg nom [] reprs merged = Some (reprs, merged)"
| "assign_cases js sg nom ((i, b) # arms) reprs merged =
     Option.bind (assign_block js sg nom b reprs merged) (\<lambda>(reprs', merged').
       assign_cases js sg nom arms reprs' merged')"
| "assign_arms js sg nom [] reprs merged = Some (reprs, merged)"
| "assign_arms js sg nom (MatchArm p b # arms) reprs merged =
     Option.bind (assign_block js sg nom b reprs merged) (\<lambda>(reprs', merged').
       assign_arms js sg nom arms reprs' merged')"
  by pat_completeness auto
termination
  by (relation "measure (\<lambda>x. case x of
        Inl (Inl (js, sg, nom, b, _)) \<Rightarrow> size_list size b
      | Inl (Inr (js, sg, nom, k, _)) \<Rightarrow> size k
      | Inr (Inl (js, sg, nom, arms, _)) \<Rightarrow> size_list (size_prod (\<lambda>_. 0) (size_list size)) arms
      | Inr (Inr (js, sg, nom, arms, _)) \<Rightarrow> size_list size arms)") auto

text \<open>The two loops over the parameters: the seeding and the final override.\<close>

fun seed_params :: "(var_id \<times> repr option) list \<Rightarrow> repr list \<Rightarrow> repr list option" where
  "seed_params [] reprs = Some reprs"
| "seed_params ((p, None) # prs) reprs = seed_params prs reprs"
| "seed_params ((p, Some r) # prs) reprs =
     Option.bind (vec_set reprs p r) (seed_params prs)"

definition infer_reprs :: "ir_function \<Rightarrow> sigs \<Rightarrow> nominal \<Rightarrow> repr list option" where
  "infer_reprs f sg nom =
     Option.bind (find_join_vars f) (\<lambda>joins.
       let reprs = replicate (var_upper_bound f) Boxed;
           recorded = map (\<lambda>(i, p). (p, vec_get (param_reprs f) i)) (enumerate 0 (params f));
           fixed = map (\<lambda>(p, r). (p, Some (if seeds_params sg
                     then (case r of None \<Rightarrow> Boxed | Some r \<Rightarrow> r) else Boxed))) recorded
       in Option.bind (if seeds_params sg then seed_params recorded reprs else Some reprs) (\<lambda>reprs1.
            Option.bind (assign_block joins sg nom (body f) reprs1 {}) (\<lambda>(reprs2, merged).
              seed_params fixed reprs2)))"

section \<open>Operand requirements\<close>

text \<open>
  The visitor \<open>for_each_required_operand\<close>: its callback may replace the operand and has a
  state of its own. \<open>visit_atoms\<close> is the visit of a sequence of operands.
\<close>

fun visit_atoms :: "(atom \<Rightarrow> repr \<Rightarrow> 's \<Rightarrow> atom \<times> 's) \<Rightarrow> (atom \<times> repr) list \<Rightarrow> 's \<Rightarrow> atom list \<times> 's"
where
  "visit_atoms g [] s = ([], s)"
| "visit_atoms g ((a, r) # as) s =
     (let (a', s1) = g a r s; (as', s2) = visit_atoms g as s1 in (a' # as', s2))"

definition all_boxed :: "atom list \<Rightarrow> (atom \<times> repr) list" where
  "all_boxed as = map (\<lambda>a. (a, Boxed)) as"

text \<open>The callback cannot stop the visit, so a panic on a later field is a panic of the whole.\<close>

definition visit_fields ::
    "(atom \<Rightarrow> repr \<Rightarrow> 's \<Rightarrow> atom \<times> 's) \<Rightarrow> record_shape option \<Rightarrow> (string \<times> atom) list \<Rightarrow> 's
      \<Rightarrow> ((string \<times> atom) list \<times> 's) option" where
  "visit_fields g shape fs s =
     Option.bind (those (map (\<lambda>(n, a). field_req_repr shape n) fs)) (\<lambda>rs.
       let (as, s') = visit_atoms g (zip (map snd fs) rs) s
       in Some (zip (map fst fs) as, s'))"

fun set_item :: "list_item \<Rightarrow> atom \<Rightarrow> list_item" where
  "set_item (Elem _) a = Elem a"
| "set_item (Spread _) a = Spread a"

definition visit_args ::
    "(atom \<Rightarrow> repr \<Rightarrow> 's \<Rightarrow> atom \<times> 's) \<Rightarrow> sigs \<Rightarrow> func_id \<Rightarrow> atom list \<Rightarrow> 's \<Rightarrow> atom list \<times> 's" where
  "visit_args g sg fid args s =
     visit_atoms g (map (\<lambda>(i, a). (a, sig_param sg fid i)) (enumerate 0 args)) s"

fun for_each_required_operand ::
    "(atom \<Rightarrow> repr \<Rightarrow> 's \<Rightarrow> atom \<times> 's) \<Rightarrow> sigs \<Rightarrow> record_shape option \<Rightarrow> rvalue \<Rightarrow> 's
      \<Rightarrow> (rvalue \<times> 's) option"
where
  "for_each_required_operand g sg shape (Bin op a b) s =
     (let r = binop_operand_repr op; (a', s1) = g a r s; (b', s2) = g b r s1 in Some (Bin op a' b', s2))"
| "for_each_required_operand g sg shape (Not a) s = (let (a', s1) = g a I32 s in Some (Not a', s1))"
| "for_each_required_operand g sg shape (CallClosure c args) s =
     (let (c', s1) = g c Boxed s; (args', s2) = visit_atoms g (all_boxed args) s1
      in Some (CallClosure c' args', s2))"
| "for_each_required_operand g sg shape (TailCall c args) s =
     (let (c', s1) = g c Boxed s; (args', s2) = visit_atoms g (all_boxed args) s1
      in Some (TailCall c' args', s2))"
| "for_each_required_operand g sg shape (Call (Callee_Function fid) args) s =
     (let (args', s1) = visit_args g sg fid args s in Some (Call (Callee_Function fid) args', s1))"
| "for_each_required_operand g sg shape (TailCallDirect fid args) s =
     (let (args', s1) = visit_args g sg fid args s in Some (TailCallDirect fid args', s1))"
| "for_each_required_operand g sg shape (Call c args) s =
     (let (args', s1) = visit_atoms g (all_boxed args) s in Some (Call c args', s1))"
| "for_each_required_operand g sg shape (MakeDict args) s =
     (let (args', s1) = visit_atoms g (all_boxed args) s in Some (MakeDict args', s1))"
| "for_each_required_operand g sg shape (MakeTuple args) s =
     (let (args', s1) = visit_atoms g (all_boxed args) s in Some (MakeTuple args', s1))"
| "for_each_required_operand g sg shape (Interpolate args) s =
     (let (args', s1) = visit_atoms g (all_boxed args) s in Some (Interpolate args', s1))"
| "for_each_required_operand g sg shape (MakeClosure f args) s =
     (let (args', s1) = visit_atoms g (all_boxed args) s in Some (MakeClosure f args', s1))"
| "for_each_required_operand g sg shape (MakeRecord fs sh) s =
     map_option (\<lambda>(fs', s1). (MakeRecord fs' sh, s1)) (visit_fields g shape fs s)"
| "for_each_required_operand g sg shape (RecordUpdate base fs sh) s =
     (let (base', s1) = g base Boxed s
      in map_option (\<lambda>(fs', s2). (RecordUpdate base' fs' sh, s2)) (visit_fields g shape fs s1))"
| "for_each_required_operand g sg shape (MakeVariant n t payload) s =
     (let (payload', s1) = visit_atoms g (all_boxed payload) s in Some (MakeVariant n t payload', s1))"
| "for_each_required_operand g sg shape (MakeList items) s =
     (let (as, s1) = visit_atoms g (all_boxed (map item_atom items)) s
      in Some (MakeList (map2 set_item items as), s1))"
| "for_each_required_operand g sg shape (GetDictMethod a i) s =
     (let (a', s1) = g a Boxed s in Some (GetDictMethod a' i, s1))"
| "for_each_required_operand g sg shape (GetField a n sh) s =
     (let (a', s1) = g a Boxed s in Some (GetField a' n sh, s1))"
| "for_each_required_operand g sg shape (GetElement a i) s =
     (let (a', s1) = g a Boxed s in Some (GetElement a' i, s1))"
| "for_each_required_operand g sg shape (GetTag a) s = (let (a', s1) = g a Boxed s in Some (GetTag a', s1))"
| "for_each_required_operand g sg shape (GetPayload a i) s =
     (let (a', s1) = g a Boxed s in Some (GetPayload a' i, s1))"
| "for_each_required_operand g sg shape (Await a) s = (let (a', s1) = g a Boxed s in Some (Await a', s1))"
| "for_each_required_operand g sg shape (Use a) s = Some (Use a, s)"
| "for_each_required_operand g sg shape (Box a) s = Some (Box a, s)"
| "for_each_required_operand g sg shape (Unbox a r) s = Some (Unbox a r, s)"
| "for_each_required_operand g sg shape (MakeVariantCtor n t) s = Some (MakeVariantCtor n t, s)"
| "for_each_required_operand g sg shape (GlobalRef i) s = Some (GlobalRef i, s)"
| "for_each_required_operand g sg shape (Builtin n) s = Some (Builtin n, s)"

section \<open>Coercion insertion\<close>

record coercer =
  co_sigs :: sigs
  self_ret :: repr
  co_nominal :: nominal

definition fresh :: "repr list \<Rightarrow> repr \<Rightarrow> var_id \<times> repr list" where
  "fresh reprs r = (length reprs, reprs @ [r])"

definition coerce :: "range \<Rightarrow> atom \<Rightarrow> repr \<Rightarrow> repr list \<times> block \<Rightarrow> atom \<times> repr list \<times> block" where
  "coerce rng a req = (\<lambda>(reprs, pre).
     let actual = atom_repr a reprs
     in if actual = req then (a, reprs, pre)
        else
          let (boxed, reprs1, pre1) =
                (if actual = Boxed then (a, reprs, pre)
                 else let (v, reprs1) = fresh reprs Boxed
                      in (AVar v, reprs1, pre @ [stmt_new (Let v (Box a)) rng]))
          in if req = Boxed then (boxed, reprs1, pre1)
             else let (v, reprs2) = fresh reprs1 req
                  in (AVar v, reprs2, pre1 @ [stmt_new (Let v (Unbox boxed req)) rng]))"

text \<open>The \<open>Let\<close> branch of \<open>Coercer::stmt\<close>.\<close>

definition coerce_let ::
    "coercer \<Rightarrow> range \<Rightarrow> var_id \<Rightarrow> rvalue \<Rightarrow> repr list \<Rightarrow> (block \<times> stmt_kind \<times> repr list) option" where
  "coerce_let c rng v rv reprs =
     (case rv of
        Use a \<Rightarrow>
          Option.bind (vec_get reprs v) (\<lambda>target.
            let (a', reprs', pre) = coerce rng a target (reprs, [])
            in Some (pre, Let v (Use a'), reprs'))
      | _ \<Rightarrow>
          Option.bind (for_each_required_operand (coerce rng) (co_sigs c) (co_nominal c v) rv (reprs, []))
            (\<lambda>(rv', reprs1, pre).
              Option.bind (result_repr rv' reprs1 (co_sigs c) (co_nominal c)) (\<lambda>natural.
                Option.bind (vec_get reprs1 v) (\<lambda>target.
                  if natural = target then Some (pre, Let v rv', reprs1)
                  else
                    let (tmp, reprs2) = fresh reprs1 natural;
                        (a', reprs3, pre') =
                          coerce rng (AVar tmp) target (reprs2, pre @ [stmt_new (Let tmp rv') rng])
                    in Some (pre', Let v (Use a'), reprs3)))))"

function (sequential)
    co_block :: "coercer \<Rightarrow> block \<Rightarrow> repr list \<Rightarrow> (block \<times> repr list) option"
  and co_stmt :: "coercer \<Rightarrow> range \<Rightarrow> stmt_kind \<Rightarrow> repr list \<Rightarrow> (block \<times> stmt_kind \<times> repr list) option"
  and co_cases :: "coercer \<Rightarrow> (i64 \<times> block) list \<Rightarrow> repr list \<Rightarrow> ((i64 \<times> block) list \<times> repr list) option"
  and co_arms :: "coercer \<Rightarrow> match_arm list \<Rightarrow> repr list \<Rightarrow> (match_arm list \<times> repr list) option"
where
  "co_block c [] reprs = Some ([], reprs)"
| "co_block c (Stmt k r # ss) reprs =
     Option.bind (co_stmt c r k reprs) (\<lambda>(pre, k', reprs1).
       Option.bind (co_block c ss reprs1) (\<lambda>(ss', reprs2).
         Some (pre @ stmt_new k' r # ss', reprs2)))"
| "co_stmt c r (Let v rv) reprs = coerce_let c r v rv reprs"
| "co_stmt c r (Discard rv) reprs =
     map_option (\<lambda>(rv', reprs1, pre). (pre, Discard rv', reprs1))
       (for_each_required_operand (coerce r) (co_sigs c) None rv (reprs, []))"
| "co_stmt c r (Return a) reprs =
     (let (a', reprs1, pre) = coerce r a (self_ret c) (reprs, []) in Some (pre, Return a', reprs1))"
| "co_stmt c r (PushDefer a) reprs =
     (let (a', reprs1, pre) = coerce r a Boxed (reprs, []) in Some (pre, PushDefer a', reprs1))"
| "co_stmt c r (If cond t e) reprs =
     (let (cond', reprs1, pre) = coerce r cond I32 (reprs, [])
      in Option.bind (co_block c t reprs1) (\<lambda>(t', reprs2).
           Option.bind (co_block c e reprs2) (\<lambda>(e', reprs3).
             Some (pre, If cond' t' e', reprs3))))"
| "co_stmt c r (Switch scr arms dflt) reprs =
     (let (scr', reprs1, pre) = coerce r scr Boxed (reprs, [])
      in Option.bind (co_cases c arms reprs1) (\<lambda>(arms', reprs2).
           Option.bind (co_block c dflt reprs2) (\<lambda>(dflt', reprs3).
             Some (pre, Switch scr' arms' dflt', reprs3))))"
| "co_stmt c r (Match subj arms) reprs =
     (let (subj', reprs1, pre) = coerce r subj Boxed (reprs, [])
      in Option.bind (co_arms c arms reprs1) (\<lambda>(arms', reprs2).
           Some (pre, Match subj' arms', reprs2)))"
| "co_stmt c r (Loop b) reprs =
     Option.bind (co_block c b reprs) (\<lambda>(b', reprs1). Some ([], Loop b', reprs1))"
| "co_stmt c r Break_stmt reprs = Some ([], Break_stmt, reprs)"
| "co_stmt c r Continue_stmt reprs = Some ([], Continue_stmt, reprs)"
| "co_stmt c r (RunDefer d) reprs = Some ([], RunDefer d, reprs)"
| "co_cases c [] reprs = Some ([], reprs)"
| "co_cases c ((i, b) # arms) reprs =
     Option.bind (co_block c b reprs) (\<lambda>(b', reprs1).
       Option.bind (co_cases c arms reprs1) (\<lambda>(arms', reprs2). Some ((i, b') # arms', reprs2)))"
| "co_arms c [] reprs = Some ([], reprs)"
| "co_arms c (MatchArm p b # arms) reprs =
     Option.bind (co_block c b reprs) (\<lambda>(b', reprs1).
       Option.bind (co_arms c arms reprs1) (\<lambda>(arms', reprs2). Some (MatchArm p b' # arms', reprs2)))"
  by pat_completeness auto
termination
  by (relation "measure (\<lambda>x. case x of
        Inl (Inl (c, b, _)) \<Rightarrow> size_list size b
      | Inl (Inr (c, r, k, _)) \<Rightarrow> size k
      | Inr (Inl (c, arms, _)) \<Rightarrow> size_list (size_prod (\<lambda>_. 0) (size_list size)) arms
      | Inr (Inr (c, arms, _)) \<Rightarrow> size_list size arms)") auto

definition own_ret :: "ir_function \<Rightarrow> sigs \<Rightarrow> repr" where
  "own_ret f sg = (if seeds_params sg then ret_repr f else Boxed)"

definition pad_reprs :: "repr list \<Rightarrow> nat \<Rightarrow> repr list" where
  "pad_reprs reprs n = (if length reprs < n then reprs @ replicate (n - length reprs) Boxed else reprs)"

definition insert_coercions :: "ir_function \<Rightarrow> sigs \<Rightarrow> nominal \<Rightarrow> ir_function option" where
  "insert_coercions f sg nom =
     Option.bind (if var_reprs f = [] then infer_reprs (f\<lparr>var_reprs := []\<rparr>) sg nom
                  else Some (var_reprs f)) (\<lambda>reprs.
       Option.bind (co_block \<lparr>co_sigs = sg, self_ret = own_ret f sg, co_nominal = nom\<rparr> (body f)
                      (pad_reprs reprs (var_upper_bound f))) (\<lambda>(b, reprs').
         Some (f\<lparr>body := b, var_reprs := reprs'\<rparr>)))"

section \<open>The checker\<close>

text \<open>
  A check gives \<open>Some None\<close> when it finds nothing, \<open>Some (Some e)\<close> for the first error \<open>e\<close>, and \<open>None\<close>
  is a panic in the layout of a shape.
\<close>

text \<open>What an error message reports.\<close>

datatype repr_error =
    Recorded string var_id repr repr
  | Operand string atom repr repr
  | Required string string atom repr repr

definition require :: "atom \<Rightarrow> repr \<Rightarrow> repr list \<Rightarrow> string \<Rightarrow> string \<Rightarrow> repr_error option option" where
  "require a req reprs fname ctx =
     (let actual = atom_repr a reprs
      in Some (if actual = req then None else Some (Required fname ctx a actual req)))"

definition check_rvalue ::
    "rvalue \<Rightarrow> repr list \<Rightarrow> string \<Rightarrow> sigs \<Rightarrow> record_shape option \<Rightarrow> repr_error option option" where
  "check_rvalue rv reprs fname sg shape =
     map_option snd (for_each_required_operand (\<lambda>a req err.
       let actual = atom_repr a reprs
       in (a, if err = None \<and> actual \<noteq> req then Some (Operand fname a actual req) else err))
       sg shape rv None)"

definition first_error :: "'e option option \<Rightarrow> 'e option option \<Rightarrow> 'e option option" where
  "first_error x y = Option.bind x (\<lambda>err. case err of None \<Rightarrow> y | Some e \<Rightarrow> Some (Some e))"

fun ck_block :: "repr list \<Rightarrow> string \<Rightarrow> coercer \<Rightarrow> block \<Rightarrow> repr_error option option"
  and ck_stmt :: "repr list \<Rightarrow> string \<Rightarrow> coercer \<Rightarrow> stmt_kind \<Rightarrow> repr_error option option"
  and ck_cases :: "repr list \<Rightarrow> string \<Rightarrow> coercer \<Rightarrow> (i64 \<times> block) list \<Rightarrow> repr_error option option"
  and ck_arms :: "repr list \<Rightarrow> string \<Rightarrow> coercer \<Rightarrow> match_arm list \<Rightarrow> repr_error option option"
where
  "ck_block reprs fn c [] = Some None"
| "ck_block reprs fn c (Stmt k r # ss) = first_error (ck_stmt reprs fn c k) (ck_block reprs fn c ss)"
| "ck_stmt reprs fn c (Let v rv) =
     (let got = atom_repr (AVar v) reprs
      in Option.bind (result_repr rv reprs (co_sigs c) (co_nominal c)) (\<lambda>want.
           if got \<noteq> want then Some (Some (Recorded fn v got want))
           else check_rvalue rv reprs fn (co_sigs c) (co_nominal c v)))"
| "ck_stmt reprs fn c (Discard rv) = check_rvalue rv reprs fn (co_sigs c) None"
| "ck_stmt reprs fn c (Return a) = require a (self_ret c) reprs fn ''return''"
| "ck_stmt reprs fn c (PushDefer a) = require a Boxed reprs fn ''defer''"
| "ck_stmt reprs fn c (If cond t e) =
     first_error (require cond I32 reprs fn ''if-cond'')
       (first_error (ck_block reprs fn c t) (ck_block reprs fn c e))"
| "ck_stmt reprs fn c (Switch scr arms dflt) =
     first_error (require scr Boxed reprs fn ''switch'')
       (first_error (ck_cases reprs fn c arms) (ck_block reprs fn c dflt))"
| "ck_stmt reprs fn c (Match subj arms) =
     first_error (require subj Boxed reprs fn ''match'') (ck_arms reprs fn c arms)"
| "ck_stmt reprs fn c (Loop b) = ck_block reprs fn c b"
| "ck_stmt reprs fn c Break_stmt = Some None"
| "ck_stmt reprs fn c Continue_stmt = Some None"
| "ck_stmt reprs fn c (RunDefer d) = Some None"
| "ck_cases reprs fn c [] = Some None"
| "ck_cases reprs fn c ((i, b) # arms) = first_error (ck_block reprs fn c b) (ck_cases reprs fn c arms)"
| "ck_arms reprs fn c [] = Some None"
| "ck_arms reprs fn c (MatchArm p b # arms) =
     first_error (ck_block reprs fn c b) (ck_arms reprs fn c arms)"

definition validate_reprs :: "ir_function \<Rightarrow> sigs \<Rightarrow> repr_error option option" where
  "validate_reprs f sg =
     ck_block (var_reprs f) (fn_name f)
       \<lparr>co_sigs = sg, self_ret = own_ret f sg, co_nominal = Map.empty\<rparr> (body f)"

end
