(* ===== verification/ReprInfer.thy ===== *)
theory ReprInfer
  imports Repr
begin

text \<open>
  The inference half of \<open>ir/src/repr.rs\<close>: join detection terminates, never indexes out of
  range, and finds exactly the variables that are free in the body when a block scopes what it
  assigns; inference then never panics and fixes the parameters to their signature.
\<close>

section \<open>The tree of blocks\<close>

definition tree_ok :: "nat option list \<Rightarrow> bool" where
  "tree_ok ps \<longleftrightarrow> (\<forall>i < length ps. \<forall>p. ps ! i = Some p \<longrightarrow> p < i)"

inductive anc :: "nat option list \<Rightarrow> nat \<Rightarrow> nat \<Rightarrow> bool" for ps where
  refl: "anc ps a a"
| up: "n < length ps \<Longrightarrow> ps ! n = Some p \<Longrightarrow> anc ps a p \<Longrightarrow> anc ps a n"

lemma anc_le: "anc ps a n \<Longrightarrow> tree_ok ps \<Longrightarrow> a \<le> n"
  by (induction rule: anc.induct) (fastforce simp: tree_ok_def)+

lemma is_ancestor_correct:
  "tree_ok ps \<Longrightarrow> node < length ps \<Longrightarrow> node < fuel \<Longrightarrow>
   is_ancestor fuel a node ps = Some (anc ps a node)"
proof (induction fuel a node ps rule: is_ancestor.induct)
  case (1 fuel a node ps)
  show ?case
  proof (cases "node = a")
    case True
    then show ?thesis by (simp add: is_ancestor.simps anc.refl)
  next
    case ne: False
    from "1.prems"(3) obtain m where fuel: "fuel = Suc m" by (cases fuel) auto
    show ?thesis
    proof (cases "ps ! node")
      case None
      with ne have "\<not> anc ps a node" by (auto elim: anc.cases)
      with ne fuel None "1.prems" show ?thesis by (simp add: is_ancestor.simps [of "Suc m"])
    next
      case (Some p)
      with "1.prems" have p: "p < node" by (simp add: tree_ok_def)
      from "1.IH" [OF ne fuel _ Some] p "1.prems" fuel Some
      have "is_ancestor m a p ps = Some (anc ps a p)" by simp
      moreover from ne Some "1.prems"(2) have "anc ps a node = anc ps a p"
        by (auto elim: anc.cases intro: anc.up)
      ultimately show ?thesis using ne fuel Some "1.prems" by (simp add: is_ancestor.simps [of "Suc m"])
    qed
  qed
qed

lemma any_ancestor_correct:
  "tree_ok ps \<Longrightarrow> ub < length ps \<Longrightarrow>
   any_ancestor blks ub ps = Some (\<exists>ab \<in> set blks. anc ps ab ub)"
  by (induction blks) (auto simp: is_ancestor_correct)

lemma anc_append:
  assumes "tree_ok ps"
  shows "n < length ps \<Longrightarrow> anc (ps @ ext) a n \<longleftrightarrow> anc ps a n"
proof (induction n rule: less_induct)
  case (less n)
  show ?case
  proof (cases "ps ! n")
    case None
    with less.prems show ?thesis by (auto simp: nth_append elim: anc.cases intro: anc.refl)
  next
    case (Some p)
    with assms less.prems have p: "p < n" "p < length ps" by (auto simp: tree_ok_def)
    have "anc (ps @ ext) a n \<longleftrightarrow> a = n \<or> anc (ps @ ext) a p"
      using Some less.prems by (auto simp: nth_append elim: anc.cases intro: anc.intros)
    also have "\<dots> \<longleftrightarrow> a = n \<or> anc ps a p" using less.IH [OF p] by simp
    also have "\<dots> \<longleftrightarrow> anc ps a n"
      using Some less.prems by (auto elim: anc.cases intro: anc.intros)
    finally show ?thesis .
  qed
qed

section \<open>What a join is\<close>

text \<open>
  The specification: the variables read in a block, or in the blocks inside it, that no block
  around the read assigns. An arm's block assigns its pattern's variables too.
\<close>

fun own_assigns :: "block \<Rightarrow> var_id set" where
  "own_assigns [] = {}"
| "own_assigns (Stmt k r # ss) = (case k of Let v _ \<Rightarrow> {v} | _ \<Rightarrow> {}) \<union> own_assigns ss"

fun free_stmts :: "block \<Rightarrow> var_id set"
  and free_stmt :: "stmt_kind \<Rightarrow> var_id set"
  and free_cases :: "(i64 \<times> block) list \<Rightarrow> var_id set"
  and free_arms :: "match_arm list \<Rightarrow> var_id set" where
  "free_stmts [] = {}"
| "free_stmts (Stmt k r # ss) = free_stmt k \<union> free_stmts ss"
| "free_stmt (Let v rv) = set (rp_rvalue_vars rv)"
| "free_stmt (Discard rv) = set (rp_rvalue_vars rv)"
| "free_stmt (Return a) = set (rp_atom_var a)"
| "free_stmt (PushDefer a) = set (rp_atom_var a)"
| "free_stmt (If c t e) =
     set (rp_atom_var c) \<union> (free_stmts t - own_assigns t) \<union> (free_stmts e - own_assigns e)"
| "free_stmt (Switch c arms d) =
     set (rp_atom_var c) \<union> free_cases arms \<union> (free_stmts d - own_assigns d)"
| "free_stmt (Match c arms) = set (rp_atom_var c) \<union> free_arms arms"
| "free_stmt (Loop b) = free_stmts b - own_assigns b"
| "free_stmt Break_stmt = {}"
| "free_stmt Continue_stmt = {}"
| "free_stmt (RunDefer d) = {}"
| "free_cases [] = {}"
| "free_cases ((i, b) # arms) = (free_stmts b - own_assigns b) \<union> free_cases arms"
| "free_arms [] = {}"
| "free_arms (MatchArm p b # arms) =
     (free_stmts b - own_assigns b - set (rp_pattern_vars p)) \<union> free_arms arms"

definition free_block :: "block \<Rightarrow> var_id set" where
  "free_block b = free_stmts b - own_assigns b"

section \<open>The walk\<close>

text \<open>
  The effect of walking something inside block \<open>blk\<close>, from \<open>s\<close> to \<open>s'\<close>: the blocks, the
  assignments \<open>A\<close> and the reads \<open>U\<close> it adds; \<open>own\<close> are the variables it assigns in \<open>blk\<close>
  itself, \<open>esc\<close> those it reads uncovered by the blocks it adds.
\<close>

definition walked :: "nat \<Rightarrow> join_walk \<Rightarrow> join_walk \<Rightarrow> var_id set \<Rightarrow> var_id set \<Rightarrow> bool" where
  "walked blk s s' own esc \<longleftrightarrow>
     (\<exists>ext A U. parent s' = parent s @ ext \<and> assigns s' = assigns s @ A \<and> uses s' = uses s @ U
        \<and> tree_ok (parent s')
        \<and> (\<forall>n. length (parent s) \<le> n \<longrightarrow> n < length (parent s') \<longrightarrow>
             anc (parent s') blk n \<and>
             (\<forall>a. anc (parent s') a n \<longrightarrow> length (parent s) \<le> a \<or> anc (parent s') a blk))
        \<and> (\<forall>(v, n) \<in> set A. (n = blk \<and> v \<in> own) \<or> (length (parent s) \<le> n \<and> n < length (parent s')))
        \<and> (\<forall>v \<in> own. (v, blk) \<in> set A)
        \<and> (\<forall>(v, n) \<in> set U. n = blk \<or> (length (parent s) \<le> n \<and> n < length (parent s')))
        \<and> {v. \<exists>n. (v, n) \<in> set U \<and> \<not> (\<exists>a. (v, a) \<in> set A \<and> length (parent s) \<le> a \<and> anc (parent s') a n)}
            = esc)"

lemma anc_trans: "anc ps b c \<Longrightarrow> anc ps a b \<Longrightarrow> anc ps a c"
  by (induction rule: anc.induct) (auto intro: anc.up)

lemma walkedI:
  assumes "parent s' = parent s @ ext" and "assigns s' = assigns s @ A" and "uses s' = uses s @ U"
    and "tree_ok (parent s')"
    and "{v. \<exists>n. (v, n) \<in> set U \<and> \<not> (\<exists>a. (v, a) \<in> set A \<and> length (parent s) \<le> a \<and> anc (parent s') a n)}
            = esc"
    and "\<And>n. length (parent s) \<le> n \<Longrightarrow> n < length (parent s') \<Longrightarrow> anc (parent s') blk n \<and>
             (\<forall>a. anc (parent s') a n \<longrightarrow> length (parent s) \<le> a \<or> anc (parent s') a blk)"
    and "\<And>v n. (v, n) \<in> set A \<Longrightarrow> (n = blk \<and> v \<in> own) \<or> (length (parent s) \<le> n \<and> n < length (parent s'))"
    and "\<And>v n. (v, n) \<in> set U \<Longrightarrow> n = blk \<or> (length (parent s) \<le> n \<and> n < length (parent s'))"
    and "\<And>v. v \<in> own \<Longrightarrow> (v, blk) \<in> set A"
  shows "walked blk s s' own esc"
proof -
  have "\<forall>(v, n) \<in> set A. (n = blk \<and> v \<in> own) \<or> (length (parent s) \<le> n \<and> n < length (parent s'))"
    "\<forall>(v, n) \<in> set U. n = blk \<or> (length (parent s) \<le> n \<and> n < length (parent s'))"
    using assms(7,8) by auto
  with assms(1-6,9) show ?thesis
    unfolding walked_def by (intro exI [of _ ext] exI [of _ A] exI [of _ U] conjI allI impI ballI) simp_all
qed

lemma walkedE:
  assumes "walked blk s s' own esc"
  obtains ext A U where "parent s' = parent s @ ext" "assigns s' = assigns s @ A" "uses s' = uses s @ U"
    "tree_ok (parent s')"
    "\<And>n. length (parent s) \<le> n \<Longrightarrow> n < length (parent s') \<Longrightarrow> anc (parent s') blk n \<and>
             (\<forall>a. anc (parent s') a n \<longrightarrow> length (parent s) \<le> a \<or> anc (parent s') a blk)"
    "\<And>v n. (v, n) \<in> set A \<Longrightarrow> (n = blk \<and> v \<in> own) \<or> (length (parent s) \<le> n \<and> n < length (parent s'))"
    "\<And>v. v \<in> own \<Longrightarrow> (v, blk) \<in> set A"
    "\<And>v n. (v, n) \<in> set U \<Longrightarrow> n = blk \<or> (length (parent s) \<le> n \<and> n < length (parent s'))"
    "{v. \<exists>n. (v, n) \<in> set U \<and> \<not> (\<exists>a. (v, a) \<in> set A \<and> length (parent s) \<le> a \<and> anc (parent s') a n)}
            = esc"
  using assms unfolding walked_def by blast

lemma walkedD:
  assumes "walked blk s s' own esc"
  shows "tree_ok (parent s')" and "length (parent s) \<le> length (parent s')"
  using assms by (auto simp: walked_def)

lemma walked_uses:
  "tree_ok (parent s) \<Longrightarrow> walked blk s (push_uses vs blk s) {} (set vs)"
  by (auto simp: walked_def push_uses_def)

lemma walked_assigns:
  "tree_ok (parent s) \<Longrightarrow> walked blk s (push_assigns vs blk s) (set vs) {}"
  by (auto simp: walked_def push_assigns_def)

lemma walked_nothing: "tree_ok (parent s) \<Longrightarrow> walked blk s s {} {}"
  by (auto simp: walked_def)

lemma walked_seq:
  assumes w1: "walked blk s s1 o1 e1" and w2: "walked blk s1 s2 o2 e2" and blk: "blk < length (parent s)"
  shows "walked blk s s2 (o1 \<union> o2) (e1 \<union> e2)"
proof -
  let ?l = "length (parent s)" and ?l1 = "length (parent s1)" and ?l2 = "length (parent s2)"
  let ?p1 = "parent s1" and ?p2 = "parent s2"
  from w1 obtain ext1 A1 U1 where
    1: "?p1 = parent s @ ext1" "assigns s1 = assigns s @ A1" "uses s1 = uses s @ U1" "tree_ok ?p1"
      "\<And>n. ?l \<le> n \<Longrightarrow> n < ?l1 \<Longrightarrow> anc ?p1 blk n \<and> (\<forall>a. anc ?p1 a n \<longrightarrow> ?l \<le> a \<or> anc ?p1 a blk)"
      "\<And>v n. (v, n) \<in> set A1 \<Longrightarrow> (n = blk \<and> v \<in> o1) \<or> (?l \<le> n \<and> n < ?l1)"
      "\<And>v. v \<in> o1 \<Longrightarrow> (v, blk) \<in> set A1"
      "\<And>v n. (v, n) \<in> set U1 \<Longrightarrow> n = blk \<or> (?l \<le> n \<and> n < ?l1)"
      "{v. \<exists>n. (v, n) \<in> set U1 \<and> \<not> (\<exists>a. (v, a) \<in> set A1 \<and> ?l \<le> a \<and> anc ?p1 a n)} = e1"
    by (rule walkedE) blast
  from w2 obtain ext2 A2 U2 where
    2: "?p2 = ?p1 @ ext2" "assigns s2 = assigns s1 @ A2" "uses s2 = uses s1 @ U2" "tree_ok ?p2"
      "\<And>n. ?l1 \<le> n \<Longrightarrow> n < ?l2 \<Longrightarrow> anc ?p2 blk n \<and> (\<forall>a. anc ?p2 a n \<longrightarrow> ?l1 \<le> a \<or> anc ?p2 a blk)"
      "\<And>v n. (v, n) \<in> set A2 \<Longrightarrow> (n = blk \<and> v \<in> o2) \<or> (?l1 \<le> n \<and> n < ?l2)"
      "\<And>v. v \<in> o2 \<Longrightarrow> (v, blk) \<in> set A2"
      "\<And>v n. (v, n) \<in> set U2 \<Longrightarrow> n = blk \<or> (?l1 \<le> n \<and> n < ?l2)"
      "{v. \<exists>n. (v, n) \<in> set U2 \<and> \<not> (\<exists>a. (v, a) \<in> set A2 \<and> ?l1 \<le> a \<and> anc ?p2 a n)} = e2"
    by (rule walkedE) blast
  have l: "?l \<le> ?l1" "?l1 \<le> ?l2" using 1(1) 2(1) by simp_all
  have same: "anc ?p2 a n \<longleftrightarrow> anc ?p1 a n" if "n < ?l1" for a n
    using anc_append [OF 1(4) that] 2(1) by simp
  have low: "a < ?l" if "anc ?p2 a blk" for a using anc_le [OF that 2(4)] blk by simp
  have c1: "(\<exists>a. (v, a) \<in> set (A1 @ A2) \<and> ?l \<le> a \<and> anc ?p2 a n) \<longleftrightarrow>
      (\<exists>a. (v, a) \<in> set A1 \<and> ?l \<le> a \<and> anc ?p1 a n)" if u: "(v, n) \<in> set U1" for v n
  proof -
    from 1(8) [OF u] blk l have n: "n < ?l1" by auto
    have False if "(v, a) \<in> set A2" "?l \<le> a" "anc ?p2 a n" for a
      using 2(6) [OF that(1)] that(2) anc_le [OF that(3) 2(4)] n blk by auto
    with same [OF n] show ?thesis by auto
  qed
  have c2: "(\<exists>a. (v, a) \<in> set (A1 @ A2) \<and> ?l \<le> a \<and> anc ?p2 a n) \<longleftrightarrow>
      (\<exists>a. (v, a) \<in> set A2 \<and> ?l1 \<le> a \<and> anc ?p2 a n)" if u: "(v, n) \<in> set U2" for v n
  proof -
    have no1: False if a: "(v, a) \<in> set A1" "?l \<le> a" "anc ?p2 a n" for a
    proof -
      from 1(6) [OF a(1)] a(2) blk have "a < ?l1" by auto
      with 2(8) [OF u] 2(5) [of n] a(2,3) low show False by fastforce
    qed
    have "?l1 \<le> a" if "(v, a) \<in> set A2" "?l \<le> a" for a using 2(6) [OF that(1)] that(2) blk by auto
    with no1 l show ?thesis by (auto intro: order_trans)
  qed
  have "{v. \<exists>n. (v, n) \<in> set (U1 @ U2) \<and> \<not> (\<exists>a. (v, a) \<in> set (A1 @ A2) \<and> ?l \<le> a \<and> anc ?p2 a n)}
      = e1 \<union> e2" (is "{v. \<exists>n. _ \<and> \<not> ?C v n} = _")
  proof -
    have "e1 = {v. \<exists>n. (v, n) \<in> set U1 \<and> \<not> ?C v n}"
      unfolding 1(9) [symmetric] by (simp only: c1 cong: conj_cong)
    moreover have "e2 = {v. \<exists>n. (v, n) \<in> set U2 \<and> \<not> ?C v n}"
      unfolding 2(9) [symmetric] by (simp only: c2 cong: conj_cong)
    ultimately show ?thesis by (simp add: set_eq_iff ex_disj_distrib conj_disj_distribR)
  qed
  moreover have "anc ?p2 blk n \<and> (\<forall>a. anc ?p2 a n \<longrightarrow> ?l \<le> a \<or> anc ?p2 a blk)"
    if "?l \<le> n" "n < ?l2" for n
  proof (cases "n < ?l1")
    case True
    with 1(5) [OF that(1) True] same blk l show ?thesis by (metis order_less_le_trans)
  next
    case False
    with 2(5) [of n] that l show ?thesis by (meson le_trans not_le_imp_less)
  qed
  moreover have "(n = blk \<and> v \<in> o1 \<union> o2) \<or> (?l \<le> n \<and> n < ?l2)" if "(v, n) \<in> set (A1 @ A2)" for v n
    using that 1(6) [of v n] 2(6) [of v n] l by auto
  moreover have "n = blk \<or> (?l \<le> n \<and> n < ?l2)" if "(v, n) \<in> set (U1 @ U2)" for v n
    using that 1(8) [of v n] 2(8) [of v n] l by auto
  moreover have "(v, blk) \<in> set (A1 @ A2)" if "v \<in> o1 \<union> o2" for v
    using that 1(7) 2(7) by auto
  ultimately show ?thesis
    by (rule walkedI [rotated 4]) (use 2(4) in \<open>simp_all add: 1(1-3) 2(1-3)\<close>)
qed

lemma walked_child:
  assumes c: "child_block s blk = (cb, s1)" and w: "walked cb s1 s2 own esc"
    and blk: "blk < length (parent s)" and ok: "tree_ok (parent s)"
  shows "walked blk s s2 {} (esc - own)"
proof -
  let ?l = "length (parent s)" and ?l1 = "length (parent s1)" and ?p2 = "parent s2"
  from c have s1: "cb = ?l" "parent s1 = parent s @ [Some blk]" "assigns s1 = assigns s" "uses s1 = uses s"
    by (auto simp: child_block_def)
  from w obtain ext A U where
    2: "?p2 = parent s1 @ ext" "assigns s2 = assigns s1 @ A" "uses s2 = uses s1 @ U" "tree_ok ?p2"
      "\<And>n. ?l1 \<le> n \<Longrightarrow> n < length ?p2 \<Longrightarrow> anc ?p2 cb n \<and> (\<forall>a. anc ?p2 a n \<longrightarrow> ?l1 \<le> a \<or> anc ?p2 a cb)"
      "\<And>v n. (v, n) \<in> set A \<Longrightarrow> (n = cb \<and> v \<in> own) \<or> (?l1 \<le> n \<and> n < length ?p2)"
      "\<And>v. v \<in> own \<Longrightarrow> (v, cb) \<in> set A"
      "\<And>v n. (v, n) \<in> set U \<Longrightarrow> n = cb \<or> (?l1 \<le> n \<and> n < length ?p2)"
      "{v. \<exists>n. (v, n) \<in> set U \<and> \<not> (\<exists>a. (v, a) \<in> set A \<and> ?l1 \<le> a \<and> anc ?p2 a n)} = esc"
    by (rule walkedE) blast
  have l1: "?l1 = Suc ?l" by (simp add: s1)
  have cb: "?p2 ! cb = Some blk" "cb < length ?p2" by (simp_all add: 2(1) s1 nth_append)
  have anc_cb: "anc ?p2 a cb \<longleftrightarrow> a = cb \<or> anc ?p2 a blk" for a
    using cb by (auto elim: anc.cases intro: anc.intros)
  have above: "anc ?p2 cb n" if "n = cb \<or> (?l1 \<le> n \<and> n < length ?p2)" for n
    using that 2(5) by (auto intro: anc.refl)
  have "{v. \<exists>n. (v, n) \<in> set U \<and> \<not> (\<exists>a. (v, a) \<in> set A \<and> ?l \<le> a \<and> anc ?p2 a n)} = esc - own"
  proof -
    have "(\<exists>a. (v, a) \<in> set A \<and> ?l \<le> a \<and> anc ?p2 a n) \<longleftrightarrow>
        v \<in> own \<or> (\<exists>a. (v, a) \<in> set A \<and> ?l1 \<le> a \<and> anc ?p2 a n)" if u: "(v, n) \<in> set U" for v n
    proof -
      have "v \<in> own \<or> ?l1 \<le> a" if "(v, a) \<in> set A" for a using 2(6) [OF that] by auto
      moreover have "v \<in> own \<Longrightarrow> (v, cb) \<in> set A \<and> ?l \<le> cb \<and> anc ?p2 cb n"
        using 2(7) above [OF 2(8) [OF u]] s1(1) by simp
      ultimately show ?thesis using l1 by (auto intro: Suc_leD)
    qed
    then show ?thesis unfolding 2(9) [symmetric] by blast
  qed
  moreover have "anc ?p2 blk n \<and> (\<forall>a. anc ?p2 a n \<longrightarrow> ?l \<le> a \<or> anc ?p2 a blk)"
    if n: "?l \<le> n" "n < length ?p2" for n
  proof -
    from n s1(1) l1 have n': "n = cb \<or> (?l1 \<le> n \<and> n < length ?p2)" by auto
    have "anc ?p2 blk cb" using anc_cb by (simp add: anc.refl)
    with above [OF n'] have "anc ?p2 blk n" by (rule anc_trans)
    moreover have "?l \<le> a \<or> anc ?p2 a blk" if "anc ?p2 a n" for a
      using n' that anc_cb 2(5) [of n] s1(1) l1 by (metis Suc_leD order_refl)
    ultimately show ?thesis by blast
  qed
  moreover have "(n = blk \<and> v \<in> {}) \<or> (?l \<le> n \<and> n < length ?p2)" if "(v, n) \<in> set A" for v n
    using 2(6) [OF that] s1(1) cb(2) l1 by auto
  moreover have "n = blk \<or> (?l \<le> n \<and> n < length ?p2)" if "(v, n) \<in> set U" for v n
    using 2(8) [OF that] s1(1) cb(2) l1 by auto
  ultimately show ?thesis
    by (rule walkedI [rotated 4, where ext = "Some blk # ext"]) (use 2(4) in \<open>simp_all add: 2(1-3) s1\<close>)
qed

lemma child_ok: "child_block s blk = (cb, s1) \<Longrightarrow> tree_ok (parent s) \<Longrightarrow> blk < length (parent s) \<Longrightarrow>
    tree_ok (parent s1) \<and> cb < length (parent s1)"
  by (auto simp: child_block_def tree_ok_def nth_append less_Suc_eq split: if_splits)

definition kind_assigns :: "stmt_kind \<Rightarrow> var_id set" where
  "kind_assigns k = (case k of Let v _ \<Rightarrow> {v} | _ \<Rightarrow> {})"

lemma kind_assigns_simps [simp]:
  "kind_assigns (Let v rv) = {v}" "kind_assigns (Discard rv) = {}" "kind_assigns (Return a) = {}"
  "kind_assigns (PushDefer a) = {}" "kind_assigns (If c t e) = {}" "kind_assigns (Switch c cs dflt) = {}"
  "kind_assigns (Match c arms) = {}" "kind_assigns (Loop b) = {}" "kind_assigns Break_stmt = {}"
  "kind_assigns Continue_stmt = {}" "kind_assigns (RunDefer d) = {}"
  by (simp_all add: kind_assigns_def)

lemma push_assigns_Nil [simp]: "push_assigns [] b s = s"
  by (simp add: push_assigns_def)

text \<open>A block walked as a child, after whatever its new block is given to assign.\<close>

definition walk_child :: "var_id list \<Rightarrow> block \<Rightarrow> nat \<Rightarrow> join_walk \<Rightarrow> join_walk" where
  "walk_child vs b blk s =
     (let (cb, s1) = child_block s blk in walk_join b cb (push_assigns vs cb s1))"

lemma walk_child_simps:
  "walk_join_stmt (If c t e) blk s = walk_child [] e blk (walk_child [] t blk (push_uses (rp_atom_var c) blk s))"
  "walk_join_stmt (Switch c cs dflt) blk s =
     walk_child [] dflt blk (walk_join_cases cs blk (push_uses (rp_atom_var c) blk s))"
  "walk_join_stmt (Loop b) blk s = walk_child [] b blk s"
  "walk_join_cases ((i, b) # cs) blk s = walk_join_cases cs blk (walk_child [] b blk s)"
  "walk_join_arms (MatchArm p b # arms) blk s =
     walk_join_arms arms blk (walk_child (rp_pattern_vars p) b blk s)"
  by (simp_all add: walk_child_def split: prod.splits)

lemma walked_walk_child:
  assumes ok: "tree_ok (parent s)" "blk < length (parent s)"
    and IH: "\<And>blk s. tree_ok (parent s) \<Longrightarrow> blk < length (parent s) \<Longrightarrow>
      walked blk s (walk_join b blk s) (own_assigns b) (free_stmts b)"
  shows "walked blk s (walk_child vs b blk s) {} (free_stmts b - own_assigns b - set vs)"
proof -
  obtain cb s1 where c: "child_block s blk = (cb, s1)" by (cases "child_block s blk")
  from child_ok [OF c ok] have ok1: "tree_ok (parent s1)" "cb < length (parent s1)" by auto
  have w: "walked cb s1 (push_assigns vs cb s1) (set vs) {}" using ok1(1) by (rule walked_assigns)
  have "walked cb (push_assigns vs cb s1) (walk_join b cb (push_assigns vs cb s1)) (own_assigns b) (free_stmts b)"
    using walkedD [OF w] ok1 by (intro IH) auto
  from walked_seq [OF w this ok1(2)]
  have "walked cb s1 (walk_join b cb (push_assigns vs cb s1)) (set vs \<union> own_assigns b) (free_stmts b)"
    by simp
  from walked_child [OF c this ok(2,1)] have "walked blk s (walk_child vs b blk s) {}
      (free_stmts b - (set vs \<union> own_assigns b))" by (simp add: walk_child_def c)
  moreover have "free_stmts b - (set vs \<union> own_assigns b) = free_stmts b - own_assigns b - set vs" by blast
  ultimately show ?thesis by simp
qed

text \<open>What follows a first part, started where that part ended.\<close>

lemma walked_then:
  assumes w: "walked blk s s1 o1 e1" and ok: "blk < length (parent s)"
    and "tree_ok (parent s1) \<Longrightarrow> blk < length (parent s1) \<Longrightarrow> walked blk s1 s2 o2 e2"
  shows "walked blk s s2 (o1 \<union> o2) (e1 \<union> e2)"
  by (rule walked_seq [OF w assms(3) ok]) (use walkedD [OF w] ok in simp_all)

lemma walk_join_walked:
  "tree_ok (parent s) \<Longrightarrow> blk < length (parent s) \<Longrightarrow>
     walked blk s (walk_join b blk s) (own_assigns b) (free_stmts b)"
  "tree_ok (parent s) \<Longrightarrow> blk < length (parent s) \<Longrightarrow>
     walked blk s (walk_join_stmt k blk s) (kind_assigns k) (free_stmt k)"
  "tree_ok (parent s) \<Longrightarrow> blk < length (parent s) \<Longrightarrow>
     walked blk s (walk_join_cases cs blk s) {} (free_cases cs)"
  "tree_ok (parent s) \<Longrightarrow> blk < length (parent s) \<Longrightarrow>
     walked blk s (walk_join_arms arms blk s) {} (free_arms arms)"
proof (induction b and k and cs and arms arbitrary: blk s and blk s and blk s and blk s
    rule: rp_block_vars_rp_stmt_vars_rp_case_vars_rp_arm_vars.induct)
  case (2 k r ss)
  then show ?case
    using walked_then [OF "2.IH"(1) [OF "2.prems"] "2.prems"(2) "2.IH"(2)]
    by (simp add: kind_assigns_def)
next
  case (3 v rv)
  then show ?case
    using walked_then [OF walked_assigns [OF "3.prems"(1), of blk "[v]"] "3.prems"(2) walked_uses]
    by simp
next
  case (7 c t e)
  then show ?case
    using walked_then [OF walked_then [OF walked_uses [OF "7.prems"(1)] "7.prems"(2)
          walked_walk_child [OF _ _ "7.IH"(1)]] "7.prems"(2) walked_walk_child [OF _ _ "7.IH"(2)],
        of "rp_atom_var c" "[]" "[]"]
    by (simp add: walk_child_simps del: walk_join_stmt.simps)
next
  case (8 c cs dflt)
  then show ?case
    using walked_then [OF walked_then [OF walked_uses [OF "8.prems"(1)] "8.prems"(2) "8.IH"(1)]
        "8.prems"(2) walked_walk_child [OF _ _ "8.IH"(2)], of "rp_atom_var c" "[]"]
    by (simp add: walk_child_simps del: walk_join_stmt.simps)
next
  case (9 c arms)
  then show ?case
    using walked_then [OF walked_uses [OF "9.prems"(1), of _ "rp_atom_var c"] "9.prems"(2) "9.IH"] by simp
next
  case (10 b)
  then show ?case
    using walked_walk_child [OF "10.prems" "10.IH", of "[]"]
    by (simp add: walk_child_simps del: walk_join_stmt.simps)
next
  case (15 i b cs)
  then show ?case
    using walked_then [OF walked_walk_child [OF "15.prems" "15.IH"(1), of "[]"] "15.prems"(2) "15.IH"(2)]
    by (simp add: walk_child_simps del: walk_join_cases.simps)
next
  case (17 p b arms)
  then show ?case
    using walked_then [OF walked_walk_child [OF "17.prems" "17.IH"(1), of "rp_pattern_vars p"]
        "17.prems"(2) "17.IH"(2)]
    by (simp add: walk_child_simps del: walk_join_arms.simps)
qed (simp_all add: walked_nothing walked_uses)

section \<open>Join detection is exact\<close>

lemma uncovered_fold:
  assumes "\<And>v ub. (v, ub) \<in> set us \<Longrightarrow> g v ub = Some (C v ub)"
  shows "fold_opt (\<lambda>js (v, ub). Option.bind (g v ub) (\<lambda>c. Some (if c then js else insert v js))) js us
    = Some (js \<union> {v. \<exists>ub. (v, ub) \<in> set us \<and> \<not> C v ub})"
  using assms
proof (induction us arbitrary: js)
  case (Cons u us)
  obtain v ub where u: "u = (v, ub)" by (cases u)
  with Cons.prems have g: "g v ub = Some (C v ub)" by simp
  have "js' \<union> {v. \<exists>ub. (v, ub) \<in> set us \<and> \<not> C v ub}
      = js \<union> {v. \<exists>ub. (v, ub) \<in> set (u # us) \<and> \<not> C v ub}"
    if "js' = (if C v ub then js else insert v js)" for js'
    using that by (auto simp: u)
  then show ?case using Cons g by (simp add: u)
qed simp

lemma by_var_set: "set (by_var as v) = {a. (v, a) \<in> set as}"
  by (force simp: by_var_def)

lemma find_join_vars_eq:
  "find_join_vars f = Some (free_block (body f) - set (params f) - set (captures f))"
proof -
  let ?ps = "params f @ captures f"
  define s0 :: join_walk where "s0 = \<lparr>parent = [None], assigns = map (\<lambda>v. (v, 0)) ?ps, uses = []\<rparr>"
  define s where "s = walk_join (body f) 0 s0"
  have s0: "parent s0 = [None]" "assigns s0 = map (\<lambda>v. (v, 0)) ?ps" "uses s0 = []"
    by (simp_all add: s0_def)
  have "tree_ok (parent s0)" "0 < length (parent s0)" by (simp_all add: tree_ok_def s0)
  from walk_join_walked(1) [OF this, of "body f", folded s_def] obtain ext A U where
    w: "parent s = parent s0 @ ext" "assigns s = assigns s0 @ A" "uses s = uses s0 @ U" "tree_ok (parent s)"
      "\<And>n. length (parent s0) \<le> n \<Longrightarrow> n < length (parent s) \<Longrightarrow> anc (parent s) 0 n \<and>
             (\<forall>a. anc (parent s) a n \<longrightarrow> length (parent s0) \<le> a \<or> anc (parent s) a 0)"
      "\<And>v n. (v, n) \<in> set A \<Longrightarrow> (n = 0 \<and> v \<in> own_assigns (body f))
         \<or> (length (parent s0) \<le> n \<and> n < length (parent s))"
      "\<And>v. v \<in> own_assigns (body f) \<Longrightarrow> (v, 0) \<in> set A"
      "\<And>v n. (v, n) \<in> set U \<Longrightarrow> n = 0 \<or> (length (parent s0) \<le> n \<and> n < length (parent s))"
      "{v. \<exists>n. (v, n) \<in> set U \<and> \<not> (\<exists>a. (v, a) \<in> set A \<and> length (parent s0) \<le> a \<and> anc (parent s) a n)}
        = free_stmts (body f)"
    by (rule walkedE) blast
  note w = w [unfolded s0 append_Nil list.size add_0 Nat.One_nat_def [symmetric]]
  let ?C = "\<lambda>v ub. \<exists>ab \<in> set (by_var (assigns s) v). anc (parent s) ab ub"
  have C: "?C v ub \<longleftrightarrow> v \<in> set ?ps \<or> v \<in> own_assigns (body f)
      \<or> (\<exists>a. (v, a) \<in> set A \<and> 1 \<le> a \<and> anc (parent s) a ub)" if u: "(v, ub) \<in> set U" for v ub
  proof -
    have root: "anc (parent s) 0 ub" using w(8) [OF u] w(5) by (auto intro: anc.refl)
    have "?C v ub \<longleftrightarrow> (\<exists>a. (v, a) \<in> set (assigns s) \<and> anc (parent s) a ub)"
      by (simp add: by_var_set)
    also have "\<dots> \<longleftrightarrow> v \<in> set ?ps \<or> (\<exists>a. (v, a) \<in> set A \<and> anc (parent s) a ub)"
    proof -
      have "(v, a) \<in> set (assigns s) \<longleftrightarrow> (v \<in> set ?ps \<and> a = 0) \<or> (v, a) \<in> set A" for a
        by (auto simp: w(2))
      with root show ?thesis by blast
    qed
    also have "(\<exists>a. (v, a) \<in> set A \<and> anc (parent s) a ub) \<longleftrightarrow> v \<in> own_assigns (body f)
        \<or> (\<exists>a. (v, a) \<in> set A \<and> 1 \<le> a \<and> anc (parent s) a ub)"
      using root w(6,7) by blast
    finally show ?thesis by blast
  qed
  have "fold_opt (\<lambda>joins (v, ub).
           Option.bind (any_ancestor (by_var (assigns s) v) ub (parent s)) (\<lambda>covered.
             Some (if covered then joins else insert v joins))) {} (uses s)
      = Some ({} \<union> {v. \<exists>ub. (v, ub) \<in> set (uses s) \<and> \<not> ?C v ub})"
  proof (rule uncovered_fold)
    fix v ub assume "(v, ub) \<in> set (uses s)"
    with w(3) w(8) [of v ub] w(1) have "ub < length (parent s)" by auto
    with w(4) show "any_ancestor (by_var (assigns s) v) ub (parent s) = Some (?C v ub)"
      by (rule any_ancestor_correct)
  qed
  also have "{} \<union> {v. \<exists>ub. (v, ub) \<in> set (uses s) \<and> \<not> ?C v ub}
      = free_block (body f) - set (params f) - set (captures f)"
    unfolding w(3) free_block_def w(9) [symmetric] by (simp only: C cong: conj_cong) auto
  finally show ?thesis
    by (simp add: find_join_vars_def Let_def s_def s0_def)
qed

section \<open>Inference\<close>

definition sized :: "(repr list \<times> 'm) option \<Rightarrow> nat \<Rightarrow> bool" where
  "sized x n \<longleftrightarrow> (\<exists>reprs m. x = Some (reprs, m) \<and> length reprs = n)"

lemma sized_Some [simp]: "sized (Some (reprs, m)) n \<longleftrightarrow> length reprs = n"
  by (simp add: sized_def)

lemma sized_bind:
  "sized x n \<Longrightarrow> (\<And>reprs m. length reprs = n \<Longrightarrow> sized (g reprs m) n) \<Longrightarrow>
   sized (Option.bind x (\<lambda>(reprs, m). g reprs m)) n"
  by (auto simp: sized_def)

lemma sized_let: "v < length reprs \<Longrightarrow> sized (assign_let js v r reprs m) (length reprs)"
  by (auto simp: assign_let_def)

text \<open>Where every shape has parallel lists, the layout does not panic.\<close>

definition shapes_ok :: "nominal \<Rightarrow> bool" where
  "shapes_ok nom \<longleftrightarrow> (\<forall>sh \<in> ran nom. shape_ok sh)"

lemma shapes_ok_empty [simp]: "shapes_ok Map.empty"
  by (simp add: shapes_ok_def)

lemma shapes_okD: "shapes_ok nom \<Longrightarrow> nom v = Some sh \<Longrightarrow> shape_ok sh"
  by (auto simp: shapes_ok_def intro: ranI)

definition field_req :: "record_shape option \<Rightarrow> string \<Rightarrow> repr" where
  "field_req shape name = or_boxed (Option.bind shape (\<lambda>s. known_repr s name))"

definition natural_repr :: "rvalue \<Rightarrow> repr list \<Rightarrow> sigs \<Rightarrow> nominal \<Rightarrow> repr" where
  "natural_repr rv reprs sg nom =
     (case rv of
        Bin op _ _ \<Rightarrow> binop_result_repr op
      | Not _ \<Rightarrow> I32
      | Use a \<Rightarrow> atom_repr a reprs
      | Box _ \<Rightarrow> Boxed
      | Unbox _ r \<Rightarrow> r
      | Call (Callee_Function fid) _ \<Rightarrow> sig_ret sg fid
      | TailCallDirect fid _ \<Rightarrow> sig_ret sg fid
      | Call (Callee_Builtin _ ret) _ \<Rightarrow> ret
      | GetField (AVar v) name _ \<Rightarrow> field_req (nom v) name
      | _ \<Rightarrow> Boxed)"

lemma field_req_ok: "(\<And>sh. shape = Some sh \<Longrightarrow> shape_ok sh) \<Longrightarrow> field_req_repr shape name = Some (field_req shape name)"
  by (simp add: field_req_repr_def field_req_def or_boxed_def repr_of_ok split: option.split)

lemma result_repr_ok: "shapes_ok nom \<Longrightarrow> result_repr rv reprs sg nom = Some (natural_repr rv reprs sg nom)"
  by (auto simp: result_repr_def natural_repr_def field_req_def or_boxed_def repr_of_ok shapes_okD
      split: rvalue.split callee.split atom.split option.split)

lemma assign_sized:
  assumes nom: "shapes_ok nom"
  shows "set (rp_block_vars b) \<subseteq> {..<length reprs} \<Longrightarrow> sized (assign_block js sg nom b reprs m) (length reprs)"
  "set (rp_stmt_vars k) \<subseteq> {..<length reprs} \<Longrightarrow> sized (assign_stmt js sg nom k reprs m) (length reprs)"
  "set (rp_case_vars cs) \<subseteq> {..<length reprs} \<Longrightarrow> sized (assign_cases js sg nom cs reprs m) (length reprs)"
  "set (rp_arm_vars arms) \<subseteq> {..<length reprs} \<Longrightarrow> sized (assign_arms js sg nom arms reprs m) (length reprs)"
proof (induction b and k and cs and arms arbitrary: reprs m and reprs m and reprs m and reprs m
    rule: rp_block_vars_rp_stmt_vars_rp_case_vars_rp_arm_vars.induct)
  case (2 k r ss)
  then show ?case by (simp, intro sized_bind) (simp_all, metis)
next
  case (7 c t e)
  then show ?case by (simp, intro sized_bind) (simp_all, metis)
next
  case (8 c cs d)
  then show ?case by (simp, intro sized_bind) (simp_all, metis)
next
  case (15 i b cs)
  then show ?case by (simp, intro sized_bind) (simp_all, metis)
next
  case (17 p b arms)
  then show ?case by (simp, intro sized_bind) (simp_all, metis)
qed (simp_all add: sized_let result_repr_ok [OF nom])

lemma seed_params_total:
  "fst ` set prs \<subseteq> {..<length reprs} \<Longrightarrow>
   \<exists>reprs'. seed_params prs reprs = Some reprs' \<and> length reprs' = length reprs"
proof (induction prs reprs rule: seed_params.induct)
  case (3 p r prs reprs)
  then show ?case by (auto simp: bind_Some_iff)
qed auto

text \<open>The last entry for a variable is the one that stays.\<close>

lemma seed_params_nth:
  "seed_params prs reprs = Some reprs' \<Longrightarrow> (\<forall>r. (q, Some r) \<in> set prs \<longrightarrow> r = rq) \<Longrightarrow>
   (q, Some rq) \<in> set prs \<or> q < length reprs \<and> reprs ! q = rq \<Longrightarrow> q < length reprs' \<and> reprs' ! q = rq"
proof (induction prs arbitrary: reprs)
  case (Cons pr prs)
  show ?case
  proof (cases "snd pr")
    case None
    with Cons show ?thesis by (cases pr) auto
  next
    case (Some r)
    then obtain p where pr: "pr = (p, Some r)" by (cases pr) simp
    with Cons.prems(1) have 1: "p < length reprs" "seed_params prs (reprs[p := r]) = Some reprs'"
      by (auto simp: bind_Some_iff vec_set_def split: if_splits)
    have "r = rq" if "p = q" using Cons.prems(2) pr that by simp
    with Cons.prems(3) pr 1(1)
    have "(q, Some rq) \<in> set prs \<or> q < length (reprs[p := r]) \<and> reprs[p := r] ! q = rq"
      by (cases "p = q") auto
    moreover have "\<forall>r. (q, Some r) \<in> set prs \<longrightarrow> r = rq" using Cons.prems(2) by simp
    ultimately show ?thesis using Cons.IH [OF 1(2)] by blast
  qed
qed auto

definition param_repr :: "ir_function \<Rightarrow> sigs \<Rightarrow> nat \<Rightarrow> repr" where
  "param_repr f sg i =
     (if seeds_params sg then case vec_get (param_reprs f) i of None \<Rightarrow> Boxed | Some r \<Rightarrow> r else Boxed)"

lemma var_upper_bound_above:
  "v \<in> set (params f) \<union> set (captures f) \<union> set (rp_block_vars (body f)) \<Longrightarrow> v < var_upper_bound f"
  unfolding var_upper_bound_def by (rule foldl_bump_above) auto

text \<open>Inference runs to the end; its last step writes the parameters' representations.\<close>

lemma infer_reprs_total:
  assumes nom: "shapes_ok nom"
  shows "\<exists>reprs reprs2. infer_reprs f sg nom = Some reprs \<and> length reprs = var_upper_bound f
     \<and> seed_params (map (\<lambda>(i, p). (p, Some (param_repr f sg i))) (enumerate 0 (params f))) reprs2 = Some reprs"
proof -
  let ?n = "var_upper_bound f"
  let ?rec = "map (\<lambda>(i, p). (p, vec_get (param_reprs f) i)) (enumerate 0 (params f))"
  let ?fix = "map (\<lambda>(p, r). (p, Some (if seeds_params sg
      then (case r of None \<Rightarrow> Boxed | Some r \<Rightarrow> r) else Boxed))) ?rec"
  have bound: "fst ` set ?rec \<subseteq> {..<?n}" "fst ` set ?fix \<subseteq> {..<?n}"
    using var_upper_bound_above [of _ f] by (auto simp: in_set_enumerate_eq)
  obtain reprs1 where 1: "(if seeds_params sg then seed_params ?rec (replicate ?n Boxed)
      else Some (replicate ?n Boxed)) = Some reprs1" "length reprs1 = ?n"
  proof (cases "seeds_params sg")
    case True
    from seed_params_total [of ?rec "replicate ?n Boxed"] bound(1) obtain r1 where
      "seed_params ?rec (replicate ?n Boxed) = Some r1" "length r1 = ?n"
      by (auto simp only: length_replicate)
    with True that show ?thesis by simp
  qed (use that in simp)
  obtain js where js: "find_join_vars f = Some js" by (simp add: find_join_vars_eq)
  have "set (rp_block_vars (body f)) \<subseteq> {..<length reprs1}" using var_upper_bound_above [of _ f] 1 by auto
  from assign_sized(1) [OF nom this, of js sg "{}"] obtain reprs2 m where
    2: "assign_block js sg nom (body f) reprs1 {} = Some (reprs2, m)" "length reprs2 = ?n"
    using 1(2) by (auto simp: sized_def)
  from seed_params_total [of ?fix reprs2] bound(2) 2(2) obtain reprs3 where
    3: "seed_params ?fix reprs2 = Some reprs3" "length reprs3 = ?n" by (auto simp only:)
  have "?fix = map (\<lambda>(i, p). (p, Some (param_repr f sg i))) (enumerate 0 (params f))"
    by (auto simp: param_repr_def)
  with 3(1) have "seed_params (map (\<lambda>(i, p). (p, Some (param_repr f sg i))) (enumerate 0 (params f))) reprs2
      = Some reprs3" by (simp only:)
  moreover have "infer_reprs f sg nom = Some reprs3"
    using js 1(1) 2(1) 3(1) by (simp add: infer_reprs_def Let_def)
  ultimately show ?thesis using 3(2) by blast
qed

text \<open>
  C19. Join detection is exact: it stops, never indexes out of range, and its result is the
  variables read in some block that neither that block nor one around it assigns.
\<close>

theorem find_join_vars_exact:
  "find_join_vars f = Some (free_block (body f) - set (params f) - set (captures f))"
  by (rule find_join_vars_eq)

text \<open>
  C20. Where every record shape of the nominal map has as many representations as fields, and the
  parameters are distinct, representation inference never panics, gives every variable of the
  function a representation, and gives each parameter the one of the function's signature,
  whatever the body assigns to it. (A shorter list of representations is an index out of range in
  \<open>RecordShape::repr_of\<close>.)
\<close>

theorem infer_reprs_signature:
  assumes "distinct (params f)" and "\<forall>sh \<in> ran nom. shape_ok sh"
  shows "\<exists>reprs. infer_reprs f sg nom = Some reprs \<and> length reprs = var_upper_bound f
    \<and> (\<forall>i < length (params f). reprs ! (params f ! i) = param_repr f sg i)"
proof -
  let ?ops = "map (\<lambda>(i, p). (p, Some (param_repr f sg i))) (enumerate 0 (params f))"
  have "shapes_ok nom" using assms(2) by (simp add: shapes_ok_def)
  from infer_reprs_total [OF this] obtain reprs reprs2 where r: "infer_reprs f sg nom = Some reprs"
    "length reprs = var_upper_bound f" "seed_params ?ops reprs2 = Some reprs" by blast
  have ent: "(p, Some r) \<in> set ?ops \<longleftrightarrow> (\<exists>i < length (params f). p = params f ! i \<and> r = param_repr f sg i)"
    for p r
  proof -
    have "(p, Some r) \<in> set ?ops \<longleftrightarrow>
        (\<exists>(i, p') \<in> set (enumerate 0 (params f)). p = p' \<and> r = param_repr f sg i)" by auto
    also have "\<dots> \<longleftrightarrow> (\<exists>i < length (params f). p = params f ! i \<and> r = param_repr f sg i)"
      by (auto simp: in_set_enumerate_eq)
    finally show ?thesis .
  qed
  have "reprs ! (params f ! i) = param_repr f sg i" if i: "i < length (params f)" for i
  proof -
    have "\<forall>r. (params f ! i, Some r) \<in> set ?ops \<longrightarrow> r = param_repr f sg i"
      unfolding ent using i assms(1) by (auto simp: nth_eq_iff_index_eq)
    moreover have "(params f ! i, Some (param_repr f sg i)) \<in> set ?ops" unfolding ent using i by blast
    ultimately show ?thesis using seed_params_nth [OF r(3)] by blast
  qed
  with r(1,2) show ?thesis by blast
qed

text \<open>A float read off a nominal record, and two parameters of other representations.\<close>

definition nominal_fn :: ir_function where
  "nominal_fn = \<lparr>fn_name = ''f'', fn_module = ''m'', params = [1, 0], captures = [], is_async = False, poll_fn = None,
     body = [synthetic (Let 0 (Use (AVar 2))), synthetic (Let 3 (GetField (AVar 2) ''x'' None))],
     var_reprs = [], param_reprs = [I64, F64], ret_repr = Boxed\<rparr>"

definition nominal_shape :: record_shape where
  "nominal_shape = \<lparr>shape_fields = [''x''], field_reprs = [F64]\<rparr>"

theorem infer_reprs_signature_witness:
  "\<exists>reprs. infer_reprs nominal_fn \<lparr>table = [], mono = True\<rparr> [2 \<mapsto> nominal_shape] = Some reprs \<and> reprs ! 0 = F64"
proof -
  have d: "distinct (params nominal_fn)" "\<forall>sh \<in> ran [2 \<mapsto> nominal_shape]. shape_ok sh"
    by (simp_all add: nominal_fn_def nominal_shape_def shape_ok_def)
  from infer_reprs_signature [OF d, of "\<lparr>table = [], mono = True\<rparr>"] obtain reprs where
    r: "infer_reprs nominal_fn \<lparr>table = [], mono = True\<rparr> [2 \<mapsto> nominal_shape] = Some reprs"
      "\<forall>i < length (params nominal_fn).
         reprs ! (params nominal_fn ! i) = param_repr nominal_fn \<lparr>table = [], mono = True\<rparr> i"
    by blast
  have p: "params nominal_fn = [1, 0]" "param_reprs nominal_fn = [I64, F64]" by (simp_all add: nominal_fn_def)
  have "1 < length (params nominal_fn)" by (simp add: p)
  with r(2) have "reprs ! (params nominal_fn ! 1) = param_repr nominal_fn \<lparr>table = [], mono = True\<rparr> 1" by blast
  then have "reprs ! 0 = F64" by (simp add: param_repr_def seeds_params_def p)
  with r(1) show ?thesis by blast
qed

text \<open>Without parallel lists the inference panics.\<close>

lemma infer_reprs_panics:
  "infer_reprs nominal_fn uniform [2 \<mapsto> nominal_shape\<lparr>field_reprs := []\<rparr>] = None"
  by code_simp

end
