(* ===== verification/ReprCoerce.thy ===== *)
theory ReprCoerce
  imports ReprInfer
begin

text \<open>
  The coercion half of \<open>ir/src/repr.rs\<close>: \<open>insert_coercions\<close> never panics, leaves a function
  the checker accepts, inserts nothing the second time, and changes no result of the program.
\<close>

section \<open>The visitor as a traversal of the required operands\<close>

definition required :: "sigs \<Rightarrow> record_shape option \<Rightarrow> rvalue \<Rightarrow> (atom \<times> repr) list" where
  "required sg shape rv =
     (case rv of
        Bin op a b \<Rightarrow> [(a, binop_operand_repr op), (b, binop_operand_repr op)]
      | Not a \<Rightarrow> [(a, I32)]
      | Call (Callee_Function fid) args \<Rightarrow> map (\<lambda>(i, a). (a, sig_param sg fid i)) (enumerate 0 args)
      | TailCallDirect fid args \<Rightarrow> map (\<lambda>(i, a). (a, sig_param sg fid i)) (enumerate 0 args)
      | MakeRecord fs _ \<Rightarrow> map (\<lambda>(n, a). (a, field_req shape n)) fs
      | RecordUpdate b fs _ \<Rightarrow> (b, Boxed) # map (\<lambda>(n, a). (a, field_req shape n)) fs
      | Use _ \<Rightarrow> [] | Box _ \<Rightarrow> [] | Unbox _ _ \<Rightarrow> []
      | _ \<Rightarrow> all_boxed (operands rv))"

fun with_operands :: "rvalue \<Rightarrow> atom list \<Rightarrow> rvalue" where
  "with_operands (Bin op a b) as = Bin op (as ! 0) (as ! 1)"
| "with_operands (Not a) as = Not (as ! 0)"
| "with_operands (Call c args) as = Call c as"
| "with_operands (TailCallDirect f args) as = TailCallDirect f as"
| "with_operands (CallClosure c args) as = CallClosure (hd as) (tl as)"
| "with_operands (TailCall c args) as = TailCall (hd as) (tl as)"
| "with_operands (MakeDict args) as = MakeDict as"
| "with_operands (MakeTuple args) as = MakeTuple as"
| "with_operands (Interpolate args) as = Interpolate as"
| "with_operands (MakeClosure f args) as = MakeClosure f as"
| "with_operands (MakeRecord fs sh) as = MakeRecord (zip (map fst fs) as) sh"
| "with_operands (RecordUpdate b fs sh) as = RecordUpdate (hd as) (zip (map fst fs) (tl as)) sh"
| "with_operands (MakeVariant n t args) as = MakeVariant n t as"
| "with_operands (MakeList items) as = MakeList (map2 set_item items as)"
| "with_operands (GetDictMethod a i) as = GetDictMethod (as ! 0) i"
| "with_operands (GetField a n sh) as = GetField (as ! 0) n sh"
| "with_operands (GetElement a i) as = GetElement (as ! 0) i"
| "with_operands (GetTag a) as = GetTag (as ! 0)"
| "with_operands (GetPayload a i) as = GetPayload (as ! 0) i"
| "with_operands (Await a) as = Await (as ! 0)"
| "with_operands rv as = rv"

lemma length_visit_atoms: "visit_atoms g ops s = (as, s') \<Longrightarrow> length as = length ops"
  by (induction g ops s arbitrary: as s' rule: visit_atoms.induct) (auto split: prod.splits)

definition shape_known :: "record_shape option \<Rightarrow> bool" where
  "shape_known shape \<longleftrightarrow> (\<forall>sh. shape = Some sh \<longrightarrow> shape_ok sh)"

lemma shape_known_None [simp]: "shape_known None"
  by (simp add: shape_known_def)

lemma shape_known_nominal: "shapes_ok nom \<Longrightarrow> shape_known (nom v)"
  by (simp add: shape_known_def shapes_okD)

lemma those_Some: "those (map (\<lambda>x. Some (g x)) xs) = Some (map g xs)"
  by (induction xs) auto

lemma visit_fields_known:
  assumes "shape_known shape"
  shows "visit_fields g shape fs s =
    (case visit_atoms g (map (\<lambda>(n, a). (a, field_req shape n)) fs) s of (as, s') \<Rightarrow> Some (zip (map fst fs) as, s'))"
proof -
  have "field_req_repr shape n = Some (field_req shape n)" for n
    using assms by (simp add: shape_known_def field_req_ok)
  then have eq: "(\<lambda>(n, a). field_req_repr shape n) = (\<lambda>p. Some (field_req shape (fst p)))"
    by (auto simp: fun_eq_iff)
  have "those (map (\<lambda>(n, a). field_req_repr shape n) fs) = Some (map (\<lambda>p. field_req shape (fst p)) fs)"
    unfolding eq by (rule those_Some)
  moreover have "zip (map snd fs) (map (\<lambda>p. field_req shape (fst p)) fs) = map (\<lambda>(n, a). (a, field_req shape n)) fs"
    by (induction fs) auto
  ultimately show ?thesis by (simp add: visit_fields_def split: prod.splits)
qed

definition visited ::
    "(atom \<Rightarrow> repr \<Rightarrow> 's \<Rightarrow> atom \<times> 's) \<Rightarrow> sigs \<Rightarrow> record_shape option \<Rightarrow> rvalue \<Rightarrow> 's \<Rightarrow> rvalue \<times> 's" where
  "visited g sg shape rv s =
     (case visit_atoms g (required sg shape rv) s of (as, s') \<Rightarrow> (with_operands rv as, s'))"

lemma visit_known:
  "shape_known shape \<Longrightarrow> for_each_required_operand g sg shape rv s = Some (visited g sg shape rv s)"
proof (cases rv)
  case (Call c args)
  then show ?thesis by (cases c) (auto simp: visited_def required_def visit_args_def split: prod.splits)
qed (auto simp: visited_def required_def visit_args_def visit_fields_known all_boxed_def Let_def split: prod.splits)

definition moves :: "rvalue \<Rightarrow> bool" where
  "moves rv \<longleftrightarrow> (case rv of Use _ \<Rightarrow> True | Box _ \<Rightarrow> True | Unbox _ _ \<Rightarrow> True | _ \<Rightarrow> False)"

lemma moves_required: "moves rv \<Longrightarrow> required sg shape rv = [] \<and> with_operands rv as = rv"
  by (cases rv) (auto simp: moves_def required_def)

lemma map_fst_required: "\<not> moves rv \<Longrightarrow> map fst (required sg shape rv) = operands rv"
proof (cases rv)
  case (Call c args)
  then show ?thesis
    by (cases c) (auto simp: required_def all_boxed_def comp_def case_prod_beta enumerate_eq_zip)
qed (auto simp: moves_def required_def all_boxed_def comp_def case_prod_beta enumerate_eq_zip)

lemma length_Suc_0: "length as = Suc 0 \<Longrightarrow> [as ! 0] = as"
  by (cases as) auto

lemma length_Suc_Suc_0: "length as = Suc (Suc 0) \<Longrightarrow> [as ! 0, as ! Suc 0] = as"
  by (cases as; cases "tl as") auto

lemma length_hd_tl: "length as = Suc n \<Longrightarrow> hd as # tl as = as"
  by (cases as) auto

lemma item_atom_set_item [simp]: "item_atom (set_item it a) = a"
  by (cases it) auto

lemma item_atoms_set_items:
  "length its = length as \<Longrightarrow> map (item_atom \<circ> (\<lambda>(x, y). set_item x y)) (zip its as) = as"
  by (induction its as rule: list_induct2) auto

lemma operands_with_operands:
  "\<not> moves rv \<Longrightarrow> length as = length (operands rv) \<Longrightarrow> operands (with_operands rv as) = as"
  by (cases rv)
    (auto simp: moves_def length_Suc_0 length_Suc_Suc_0 length_hd_tl item_atoms_set_items)

lemma moves_with_operands [simp]: "moves (with_operands rv as) = moves rv"
  by (cases rv) (auto simp: moves_def)

lemma required_with_operands:
  "\<not> moves rv \<Longrightarrow> length as = length (operands rv) \<Longrightarrow>
   required sg shape (with_operands rv as) = zip as (map snd (required sg shape rv))"
proof (cases rv)
  case (Call c args)
  then show "length as = length (operands rv) \<Longrightarrow> ?thesis"
    by (cases c) (auto simp: required_def all_boxed_def comp_def case_prod_beta enumerate_eq_zip
        intro!: nth_equalityI)
qed (auto simp: moves_def required_def all_boxed_def comp_def case_prod_beta enumerate_eq_zip
    length_Suc_conv nth_Cons split: nat.splits intro!: nth_equalityI)

section \<open>Blocks the checker accepts\<close>

definition atom_in :: "repr list \<Rightarrow> atom \<Rightarrow> bool" where
  "atom_in reprs a \<longleftrightarrow> set (rp_atom_var a) \<subseteq> {..<length reprs}"

lemma atom_in_simps [simp]: "atom_in reprs (AVar v) \<longleftrightarrow> v < length reprs" "atom_in reprs (AConst c)"
  by (simp_all add: atom_in_def)

lemma atom_in_append: "atom_in reprs a \<Longrightarrow> atom_in (reprs @ ext) a"
  by (cases a) auto

lemma atom_repr_append: "atom_in reprs a \<Longrightarrow> atom_repr a (reprs @ ext) = atom_repr a reprs"
  by (cases a) (auto simp: nth_append)

lemma rp_vars_operands: "rp_rvalue_vars rv = concat (map rp_atom_var (operands rv))"
  by (cases rv) (auto simp: comp_def case_prod_beta intro!: arg_cong [where f = concat] split: list_item.splits)

lemma rvalue_in: "set (rp_rvalue_vars rv) \<subseteq> {..<length reprs} \<longleftrightarrow> (\<forall>a \<in> set (operands rv). atom_in reprs a)"
  by (auto simp: rp_vars_operands atom_in_def)

text \<open>
  Checked now and however the table grows: variables in range, and no error reported.
\<close>

definition checked :: "coercer \<Rightarrow> repr list \<Rightarrow> block \<Rightarrow> bool" where
  "checked c reprs b \<longleftrightarrow> set (rp_block_vars b) \<subseteq> {..<length reprs}
     \<and> (\<forall>ext fn. ck_block (reprs @ ext) fn c b = Some None)"

definition checked_stmt :: "coercer \<Rightarrow> repr list \<Rightarrow> stmt_kind \<Rightarrow> bool" where
  "checked_stmt c reprs k \<longleftrightarrow> set (rp_stmt_vars k) \<subseteq> {..<length reprs}
     \<and> (\<forall>ext fn. ck_stmt (reprs @ ext) fn c k = Some None)"

definition checked_cases :: "coercer \<Rightarrow> repr list \<Rightarrow> (i64 \<times> block) list \<Rightarrow> bool" where
  "checked_cases c reprs cs \<longleftrightarrow> set (rp_case_vars cs) \<subseteq> {..<length reprs}
     \<and> (\<forall>ext fn. ck_cases (reprs @ ext) fn c cs = Some None)"

definition checked_arms :: "coercer \<Rightarrow> repr list \<Rightarrow> match_arm list \<Rightarrow> bool" where
  "checked_arms c reprs arms \<longleftrightarrow> set (rp_arm_vars arms) \<subseteq> {..<length reprs}
     \<and> (\<forall>ext fn. ck_arms (reprs @ ext) fn c arms = Some None)"

lemma checked_append_table:
  "checked c reprs b \<Longrightarrow> checked c (reprs @ ext) b"
  "checked_stmt c reprs k \<Longrightarrow> checked_stmt c (reprs @ ext) k"
  "checked_cases c reprs cs \<Longrightarrow> checked_cases c (reprs @ ext) cs"
  "checked_arms c reprs arms \<Longrightarrow> checked_arms c (reprs @ ext) arms"
  unfolding checked_def checked_stmt_def checked_cases_def checked_arms_def
  by (fastforce simp: append_assoc)+

lemma first_error_None [simp]: "first_error x y = Some None \<longleftrightarrow> x = Some None \<and> y = Some None"
  by (auto simp: first_error_def bind_eq_Some_conv split: option.splits)

lemma checked_Nil [simp]: "checked c reprs []"
  by (simp add: checked_def)

lemma checked_Cons: "checked c reprs (s # ss) \<longleftrightarrow> checked_stmt c reprs (kind s) \<and> checked c reprs ss"
  by (cases s) (auto simp: checked_def checked_stmt_def)

lemma checked_append: "checked c reprs (b1 @ b2) \<longleftrightarrow> checked c reprs b1 \<and> checked c reprs b2"
  by (induction b1) (auto simp: checked_Cons)

lemma snd_visit_atoms_Cons:
  "snd (visit_atoms g ((a, r) # ops) s) = snd (visit_atoms g ops (snd (g a r s)))"
  by (auto simp: Let_def split: prod.splits)

lemma check_rvalue_None:
  "shape_known shape \<Longrightarrow> check_rvalue rv reprs fn sg shape = Some None \<longleftrightarrow>
     (\<forall>(a, r) \<in> set (required sg shape rv). atom_repr a reprs = r)"
proof -
  let ?g = "\<lambda>a req err. let actual = atom_repr a reprs
       in (a, if err = None \<and> actual \<noteq> req then Some (Operand fn a actual req) else err)"
  have "snd (visit_atoms ?g ops err) = None \<longleftrightarrow> err = None \<and> (\<forall>(a, r) \<in> set ops. atom_repr a reprs = r)"
    for ops err
  proof (induction ops arbitrary: err)
    case (Cons op ops)
    then show ?case
      by (cases op) (auto simp: snd_visit_atoms_Cons Let_def simp del: visit_atoms.simps)
  qed simp
  from this [of "required sg shape rv" None] show "shape_known shape \<Longrightarrow> ?thesis"
    by (cases "visit_atoms ?g (required sg shape rv) None") (simp add: check_rvalue_def visit_known visited_def)
qed

text \<open>The requirements of an rvalue, whatever it is.\<close>

lemma required_in:
  "(a, r) \<in> set (required sg shape rv) \<Longrightarrow> a \<in> set (operands rv)"
proof (cases "moves rv")
  case False
  assume "(a, r) \<in> set (required sg shape rv)"
  then have "a \<in> set (map fst (required sg shape rv))" by force
  with map_fst_required [OF False] show ?thesis by metis
qed (simp add: moves_required)

lemma natural_repr_append:
  "set (rp_rvalue_vars rv) \<subseteq> {..<length reprs} \<Longrightarrow>
   natural_repr rv (reprs @ ext) sg nom = natural_repr rv reprs sg nom"
  by (cases rv) (auto simp: natural_repr_def atom_repr_append atom_in_def)

lemma checked_let:
  assumes "v < length reprs" and "\<forall>a \<in> set (operands rv). atom_in reprs a"
    and "reprs ! v = natural_repr rv reprs (co_sigs c) (co_nominal c)"
    and "\<forall>(a, r) \<in> set (required (co_sigs c) (co_nominal c v) rv). atom_repr a reprs = r"
    and nom: "shapes_ok (co_nominal c)"
  shows "checked_stmt c reprs (Let v rv)"
  using assms required_in
  by (fastforce simp: checked_stmt_def rvalue_in natural_repr_append Let_def nth_append atom_repr_append
      check_rvalue_None [OF shape_known_nominal [OF nom]] result_repr_ok [OF nom])

lemma checked_require:
  "atom_in reprs a \<Longrightarrow> atom_repr a reprs = r \<Longrightarrow> require a r (reprs @ ext) fn ctx = Some None"
  by (simp add: require_def atom_repr_append)

section \<open>What a coercion does to the table\<close>

lemma coerce_coerced:
  assumes "atom_in reprs a" and "coerce rng a req (reprs, pre) = (a', reprs', pre')"
    and nom: "shapes_ok (co_nominal c)"
  shows "\<exists>ext new. reprs' = reprs @ ext \<and> pre' = pre @ new \<and> atom_in reprs' a' \<and> atom_repr a' reprs' = req
    \<and> checked c reprs' new"
proof (cases "atom_repr a reprs = req")
  case True
  with assms show ?thesis by (intro exI [of _ "[]"]) (auto simp: coerce_def)
next
  case ne: False
  have box: "checked c (reprs @ [Boxed] @ ext) [stmt_new (Let (length reprs) (Box a)) rng]" for ext
    using assms(1) by (auto simp: checked_Cons intro!: checked_let simp: nom natural_repr_def required_def
        nth_append atom_in_append)
  have unbox: "checked c (rs @ [req]) [stmt_new (Let (length rs) (Unbox x req)) rng]" if "atom_in rs x" for rs x
    using that by (auto simp: checked_Cons intro!: checked_let simp: nom natural_repr_def required_def
        nth_append atom_in_append)
  show ?thesis
  proof (cases "atom_repr a reprs = Boxed")
    case True
    with assms ne have "a' = AVar (length reprs)" "reprs' = reprs @ [req]"
      "pre' = pre @ [stmt_new (Let (length reprs) (Unbox a req)) rng]"
      by (auto simp: coerce_def Let_def fresh_def split: if_splits)
    with unbox [OF assms(1)] show ?thesis by auto
  next
    case nb: False
    show ?thesis
    proof (cases "req = Boxed")
      case True
      with assms ne nb have "a' = AVar (length reprs)" "reprs' = reprs @ [Boxed]"
        "pre' = pre @ [stmt_new (Let (length reprs) (Box a)) rng]"
        by (auto simp: coerce_def Let_def fresh_def)
      with box [of "[]"] True show ?thesis by auto
    next
      case False
      let ?rs = "reprs @ [Boxed]"
      from False assms ne nb have r: "a' = AVar (Suc (length reprs))" "reprs' = ?rs @ [req]"
        "pre' = pre @ [stmt_new (Let (length reprs) (Box a)) rng,
          stmt_new (Let (Suc (length reprs)) (Unbox (AVar (length reprs)) req)) rng]"
        by (auto simp: coerce_def Let_def fresh_def)
      have "checked c (?rs @ [req]) [stmt_new (Let (length reprs) (Box a)) rng,
          stmt_new (Let (Suc (length reprs)) (Unbox (AVar (length reprs)) req)) rng]"
        using box [of "[req]"] unbox [of ?rs "AVar (length reprs)"] by (simp add: checked_Cons)
      with r show ?thesis by (intro exI [of _ "[Boxed, req]"]) (auto simp: nth_append)
    qed
  qed
qed

lemma visit_coerced:
  "\<forall>(a, r) \<in> set ops. atom_in reprs a \<Longrightarrow> visit_atoms (coerce rng) ops (reprs, pre) = (as, reprs', pre') \<Longrightarrow>
   shapes_ok (co_nominal c) \<Longrightarrow>
   \<exists>ext new. reprs' = reprs @ ext \<and> pre' = pre @ new \<and> checked c reprs' new
     \<and> list_all2 (\<lambda>(a, r) a'. atom_in reprs' a' \<and> atom_repr a' reprs' = r) ops as"
proof (induction ops arbitrary: reprs pre as)
  case (Cons op ops)
  obtain a r where op: "op = (a, r)" by (cases op)
  obtain a' reprs1 pre1 where 1: "coerce rng a r (reprs, pre) = (a', reprs1, pre1)"
    by (cases "coerce rng a r (reprs, pre)") auto
  obtain as1 where 2: "visit_atoms (coerce rng) ops (reprs1, pre1) = (as1, reprs', pre')" "as = a' # as1"
    using Cons.prems(2) op 1 by (auto split: prod.splits)
  from coerce_coerced [OF _ 1 Cons.prems(3)] Cons.prems(1) op obtain e1 n1 where
    3: "reprs1 = reprs @ e1" "pre1 = pre @ n1" "atom_in reprs1 a'" "atom_repr a' reprs1 = r"
      "checked c reprs1 n1" by auto
  have "\<forall>(a, r) \<in> set ops. atom_in reprs1 a" using Cons.prems(1) 3(1) by (auto intro: atom_in_append)
  from Cons.IH [OF this 2(1) Cons.prems(3)] obtain e2 n2 where
    4: "reprs' = reprs1 @ e2" "pre' = pre1 @ n2" "checked c reprs' n2"
      "list_all2 (\<lambda>(a, r) a'. atom_in reprs' a' \<and> atom_repr a' reprs' = r) ops as1" by blast
  have "checked c reprs' n1" "atom_in reprs' a'" "atom_repr a' reprs' = r"
    unfolding 4(1) using 3(3-5) by (simp_all only: checked_append_table atom_in_append atom_repr_append)
  with 4 2(2) op have "checked c reprs' (n1 @ n2)"
    "list_all2 (\<lambda>(a, r) a'. atom_in reprs' a' \<and> atom_repr a' reprs' = r) (op # ops) as"
    by (simp_all add: checked_append)
  moreover have "reprs' = reprs @ e1 @ e2" "pre' = pre @ n1 @ n2" using 3(1,2) 4(1,2) by simp_all
  ultimately show ?case by blast
qed auto

section \<open>Coercion insertion leaves a checked block\<close>

text \<open>Nominal variables are boxed variables of the function, and their shapes have parallel lists.\<close>

definition nominal_ok :: "nominal \<Rightarrow> repr list \<Rightarrow> bool" where
  "nominal_ok nom reprs \<longleftrightarrow> (\<forall>v \<in> dom nom. v < length reprs \<and> reprs ! v = Boxed) \<and> shapes_ok nom"

lemma nominal_ok_shapes: "nominal_ok nom reprs \<Longrightarrow> shapes_ok nom"
  by (simp add: nominal_ok_def)

lemma nominal_ok_append: "nominal_ok nom reprs \<Longrightarrow> nominal_ok nom (reprs @ ext)"
  by (simp add: nominal_ok_def nth_append trans_less_add1)

lemma nominal_ok_empty [simp]: "nominal_ok Map.empty reprs"
  by (simp add: nominal_ok_def)

lemma visit_rvalue_coerced:
  assumes "\<forall>a \<in> set (operands rv). atom_in reprs a"
    and "visited (coerce rng) sg shape rv (reprs, []) = (rv', reprs', new)"
    and nom: "shapes_ok (co_nominal c)"
  shows "\<exists>ext. reprs' = reprs @ ext \<and> checked c reprs' new \<and> (\<forall>a \<in> set (operands rv'). atom_in reprs' a)
    \<and> (\<forall>(a, r) \<in> set (required sg shape rv'). atom_repr a reprs' = r) \<and> (\<exists>as. rv' = with_operands rv as)"
proof -
  obtain as where v: "visit_atoms (coerce rng) (required sg shape rv) (reprs, []) = (as, reprs', new)"
    and rv': "rv' = with_operands rv as"
    using assms(2) by (auto simp: visited_def split: prod.splits)
  have "\<forall>(a, r) \<in> set (required sg shape rv). atom_in reprs a" using assms(1) required_in by fast
  from visit_coerced [OF this v nom] obtain ext where
    e: "reprs' = reprs @ ext" "checked c reprs' new"
      "list_all2 (\<lambda>(a, r) a'. atom_in reprs' a' \<and> atom_repr a' reprs' = r) (required sg shape rv) as" by auto
  show ?thesis
  proof (cases "moves rv")
    case True
    with assms(1) e rv' show ?thesis by (auto simp: moves_required atom_in_append)
  next
    case False
    from e(3) have l: "length as = length (required sg shape rv)" by (simp add: list_all2_lengthD)
    then have l2: "length as = length (operands rv)" using map_fst_required [OF False] by (metis length_map)
    have "\<forall>a \<in> set as. atom_in reprs' a" using e(3) by (auto simp: list_all2_conv_all_nth in_set_conv_nth case_prod_beta)
    moreover have "\<forall>(a, r) \<in> set (zip as (map snd (required sg shape rv))). atom_repr a reprs' = r"
      using e(3) by (auto simp: list_all2_conv_all_nth in_set_zip case_prod_beta)
    ultimately show ?thesis
      using e rv' operands_with_operands [OF False l2] required_with_operands [OF False l2] by auto
  qed
qed

text \<open>Only the construction and the update of a record look at the shape of what is bound.\<close>

lemma required_shape:
  "natural_repr rv reprs sg nom \<noteq> Boxed \<Longrightarrow> required sg shape rv = required sg shape' rv"
  by (cases rv) (auto simp: required_def natural_repr_def)

lemma coerce_let_checked:
  assumes nom: "nominal_ok (co_nominal c) reprs"
    and vars: "set (rp_stmt_vars (Let v rv)) \<subseteq> {..<length reprs}"
  shows "\<exists>pre k' ext. coerce_let c rng v rv reprs = Some (pre, k', reprs @ ext)
    \<and> checked c (reprs @ ext) pre \<and> checked_stmt c (reprs @ ext) k'"
proof (cases "\<exists>a. rv = Use a")
  case True
  note shapes = nominal_ok_shapes [OF nom]
  obtain a where rv: "rv = Use a" using True ..
  from vars have v: "v < length reprs" and a: "atom_in reprs a" by (auto simp: rv atom_in_def)
  obtain a' reprs' pre where co: "coerce rng a (reprs ! v) (reprs, []) = (a', reprs', pre)"
    by (cases "coerce rng a (reprs ! v) (reprs, [])") auto
  from coerce_coerced [OF a co shapes] obtain ext where
    e: "reprs' = reprs @ ext" "atom_in reprs' a'" "atom_repr a' reprs' = reprs ! v" "checked c reprs' pre" by auto
  have "checked_stmt c reprs' (Let v (Use a'))"
    using e v shapes by (intro checked_let) (auto simp: natural_repr_def required_def nth_append)
  with co v e(1,4) show ?thesis by (simp add: coerce_let_def rv)
next
  case False
  note shapes = nominal_ok_shapes [OF nom]
  from vars have v: "v < length reprs" and ops: "\<forall>a \<in> set (operands rv). atom_in reprs a"
    by (auto simp: rvalue_in)
  let ?sg = "co_sigs c" and ?nom = "co_nominal c"
  obtain rv' reprs1 new where vis:
    "visited (coerce rng) ?sg (?nom v) rv (reprs, []) = (rv', reprs1, new)"
    by (cases "visited (coerce rng) ?sg (?nom v) rv (reprs, [])") auto
  from visit_rvalue_coerced [OF ops vis shapes] obtain ext where
    1: "reprs1 = reprs @ ext" "checked c reprs1 new" "\<forall>a \<in> set (operands rv'). atom_in reprs1 a"
      "\<forall>(a, r) \<in> set (required ?sg (?nom v) rv'). atom_repr a reprs1 = r" by blast
  let ?natural = "natural_repr rv' reprs1 ?sg ?nom"
  from v 1(1) have v1: "v < length reprs1" "reprs1 ! v = reprs ! v" by (auto simp: nth_append)
  from False vis v1(1) have unfold: "coerce_let c rng v rv reprs =
      (if ?natural = reprs1 ! v then Some (new, Let v rv', reprs1)
       else case coerce rng (AVar (length reprs1)) (reprs1 ! v)
              (reprs1 @ [?natural], new @ [stmt_new (Let (length reprs1) rv') rng]) of
            (a', reprs3, pre') \<Rightarrow> Some (pre', Let v (Use a'), reprs3))"
    by (cases rv) (auto simp: coerce_let_def fresh_def Let_def visit_known [OF shape_known_nominal [OF shapes]]
        result_repr_ok [OF shapes] simp del: for_each_required_operand.simps)
  show ?thesis
  proof (cases "?natural = reprs1 ! v")
    case True
    have "checked_stmt c reprs1 (Let v rv')" using v1 1 True shapes by (intro checked_let) auto
    with unfold True 1(1,2) show ?thesis by auto
  next
    case ne: False
    let ?rs = "reprs1 @ [?natural]"
    obtain a' reprs3 pre' where co: "coerce rng (AVar (length reprs1)) (reprs1 ! v)
        (?rs, new @ [stmt_new (Let (length reprs1) rv') rng]) = (a', reprs3, pre')"
      by (cases "coerce rng (AVar (length reprs1)) (reprs1 ! v)
        (?rs, new @ [stmt_new (Let (length reprs1) rv') rng])") auto
    have "atom_in ?rs (AVar (length reprs1))" by simp
    from coerce_coerced [OF this co shapes] obtain e2 n2 where
      2: "reprs3 = ?rs @ e2" "pre' = (new @ [stmt_new (Let (length reprs1) rv') rng]) @ n2"
        "atom_in reprs3 a'" "atom_repr a' reprs3 = reprs1 ! v" "checked c reprs3 n2" by blast
    have nom_tmp: "?nom (length reprs1) = None"
      using nom 1(1) by (auto simp: nominal_ok_def dom_def)
    have "?nom v = None \<or> ?natural \<noteq> Boxed"
      using nom ne v1(2) by (auto simp: nominal_ok_def dom_def)
    then have "required ?sg (?nom (length reprs1)) rv' = required ?sg (?nom v) rv'"
      using nom_tmp required_shape by (metis (no_types))
    with 1(4) have "\<forall>(a, r) \<in> set (required ?sg (?nom (length reprs1)) rv'). atom_repr a ?rs = r"
      using 1(3) required_in by (fastforce simp: atom_repr_append)
    moreover have "set (rp_rvalue_vars rv') \<subseteq> {..<length reprs1}" using 1(3) by (simp add: rvalue_in)
    ultimately have "checked_stmt c ?rs (Let (length reprs1) rv')"
      using 1(3) shapes by (intro checked_let) (simp_all add: atom_in_append natural_repr_append)
    then have tmp: "checked c ?rs [stmt_new (Let (length reprs1) rv') rng]" by (simp add: checked_Cons)
    have "checked c reprs3 pre'"
      using checked_append_table(1) [OF checked_append_table(1) [OF 1(2), of "[?natural]"], of e2]
        checked_append_table(1) [OF tmp, of e2] 2(5)
      unfolding 2(2) 2(1) checked_append by blast
    moreover have "checked_stmt c reprs3 (Let v (Use a'))"
      using 2(1,3,4) v1 shapes by (intro checked_let) (auto simp: natural_repr_def required_def nth_append)
    moreover have "reprs3 = reprs @ ext @ [?natural] @ e2" using 2(1) 1(1) by simp
    ultimately show ?thesis using unfold ne co by auto
  qed
qed

text \<open>The outcome of a part of the pass: a grown table and something checked.\<close>

definition grows :: "(repr list \<Rightarrow> 'a \<Rightarrow> bool) \<Rightarrow> repr list \<Rightarrow> ('a \<times> repr list) option \<Rightarrow> bool" where
  "grows good reprs x \<longleftrightarrow> (\<exists>a ext. x = Some (a, reprs @ ext) \<and> good (reprs @ ext) a)"

definition grows2 :: "coercer \<Rightarrow> repr list \<Rightarrow> (block \<times> stmt_kind \<times> repr list) option \<Rightarrow> bool" where
  "grows2 c reprs x \<longleftrightarrow> (\<exists>pre k' ext. x = Some (pre, k', reprs @ ext)
     \<and> checked c (reprs @ ext) pre \<and> checked_stmt c (reprs @ ext) k')"

lemma growsE:
  assumes "grows good reprs x"
  obtains a ext where "x = Some (a, reprs @ ext)" "good (reprs @ ext) a"
  using assms by (auto simp: grows_def)

lemma coerce_head:
  assumes "set (rp_atom_var a) \<subseteq> {..<length reprs}" and nom: "shapes_ok (co_nominal c)"
  obtains a' ext new where "coerce rng a req (reprs, []) = (a', reprs @ ext, new)"
    "atom_in (reprs @ ext) a'" "atom_repr a' (reprs @ ext) = req" "checked c (reprs @ ext) new"
proof -
  obtain a' reprs' new where co: "coerce rng a req (reprs, []) = (a', reprs', new)"
    by (cases "coerce rng a req (reprs, [])") auto
  from assms(1) have "atom_in reprs a" by (simp add: atom_in_def)
  from coerce_coerced [OF this co nom] co that show ?thesis by auto
qed

lemma in_grown: "vs \<subseteq> {..<length reprs} \<Longrightarrow> vs \<subseteq> {..<length (reprs @ ext)}"
  by auto

text \<open>A later part of the pass, run with the table an earlier part left.\<close>

lemma grows_later:
  assumes "\<And>reprs. nominal_ok nom reprs \<Longrightarrow> vs \<subseteq> {..<length reprs} \<Longrightarrow> grows good reprs (x reprs)"
    and "nominal_ok nom reprs" and "vs \<subseteq> {..<length reprs}"
  obtains a e2 where "x (reprs @ ext) = Some (a, (reprs @ ext) @ e2)" "good ((reprs @ ext) @ e2) a"
  using assms(1) [OF nominal_ok_append [OF assms(2)] in_grown [OF assms(3)]] by (rule growsE)

lemma checked_atom:
  "atom_in reprs a \<Longrightarrow> atom_repr a reprs = r \<Longrightarrow>
   set (rp_atom_var a) \<subseteq> {..<length reprs} \<and> (\<forall>ext fn ctx. require a r (reprs @ ext) fn ctx = Some None)"
  by (simp add: checked_require) (simp add: atom_in_def)

lemma co_checked:
  "nominal_ok (co_nominal c) reprs \<Longrightarrow> set (rp_block_vars b) \<subseteq> {..<length reprs} \<Longrightarrow>
     grows (checked c) reprs (co_block c b reprs)"
  "nominal_ok (co_nominal c) reprs \<Longrightarrow> set (rp_stmt_vars k) \<subseteq> {..<length reprs} \<Longrightarrow>
     grows2 c reprs (co_stmt c rng k reprs)"
  "nominal_ok (co_nominal c) reprs \<Longrightarrow> set (rp_case_vars cs) \<subseteq> {..<length reprs} \<Longrightarrow>
     grows (checked_cases c) reprs (co_cases c cs reprs)"
  "nominal_ok (co_nominal c) reprs \<Longrightarrow> set (rp_arm_vars arms) \<subseteq> {..<length reprs} \<Longrightarrow>
     grows (checked_arms c) reprs (co_arms c arms reprs)"
proof (induction b and k and cs and arms arbitrary: reprs and reprs rng and reprs and reprs
    rule: rp_block_vars_rp_stmt_vars_rp_case_vars_rp_arm_vars.induct)
  case 1
  show ?case by (simp add: grows_def)
next
  case (2 k r ss)
  from "2.IH"(1) [of reprs r] "2.prems" obtain pre k' e1 where
    1: "co_stmt c r k reprs = Some (pre, k', reprs @ e1)" "checked c (reprs @ e1) pre"
      "checked_stmt c (reprs @ e1) k'" by (auto simp: grows2_def)
  have "set (rp_block_vars ss) \<subseteq> {..<length reprs}" using "2.prems"(2) by simp
  from grows_later [OF "2.IH"(2) "2.prems"(1) this] obtain ss' e2 where
    2: "co_block c ss (reprs @ e1) = Some (ss', (reprs @ e1) @ e2)" "checked c ((reprs @ e1) @ e2) ss'" .
  from 1(2,3) have "checked c ((reprs @ e1) @ e2) pre" "checked_stmt c ((reprs @ e1) @ e2) k'"
    by (simp_all only: checked_append_table)
  with 1(1) 2 show ?case by (simp add: grows_def checked_append checked_Cons)
next
  case (3 v rv)
  then show ?case using coerce_let_checked by (simp add: grows2_def)
next
  case (4 rv)
  then have ops: "\<forall>a \<in> set (operands rv). atom_in reprs a" by (simp add: rvalue_in)
  obtain rv' reprs1 new where vis:
    "visited (coerce rng) (co_sigs c) None rv (reprs, []) = (rv', reprs1, new)"
    by (cases "visited (coerce rng) (co_sigs c) None rv (reprs, [])") auto
  from visit_rvalue_coerced [OF ops vis nominal_ok_shapes [OF 4(1)]] obtain ext where
    1: "reprs1 = reprs @ ext" "checked c reprs1 new" "\<forall>a \<in> set (operands rv'). atom_in reprs1 a"
      "\<forall>(a, r) \<in> set (required (co_sigs c) None rv'). atom_repr a reprs1 = r" by blast
  have "checked_stmt c reprs1 (Discard rv')"
    using 1(3,4) required_in
    by (fastforce simp: checked_stmt_def rvalue_in check_rvalue_None atom_repr_append)
  with vis 1 show ?case by (auto simp: grows2_def visit_known)
next
  case (5 a)
  from "5.prems"(2) have "set (rp_atom_var a) \<subseteq> {..<length reprs}" by simp
  then obtain a' ext new where 1: "coerce rng a (self_ret c) (reprs, []) = (a', reprs @ ext, new)"
    "atom_in (reprs @ ext) a'" "atom_repr a' (reprs @ ext) = self_ret c" "checked c (reprs @ ext) new"
    by (rule coerce_head [OF _ nominal_ok_shapes [OF "5.prems"(1)]])
  from checked_atom [OF 1(2,3)] have "checked_stmt c (reprs @ ext) (Return a')"
    unfolding checked_stmt_def by simp
  with 1(1,4) show ?case by (simp add: grows2_def)
next
  case (6 a)
  from "6.prems"(2) have "set (rp_atom_var a) \<subseteq> {..<length reprs}" by simp
  then obtain a' ext new where 1: "coerce rng a (Boxed) (reprs, []) = (a', reprs @ ext, new)"
    "atom_in (reprs @ ext) a'" "atom_repr a' (reprs @ ext) = Boxed" "checked c (reprs @ ext) new"
    by (rule coerce_head [OF _ nominal_ok_shapes [OF "6.prems"(1)]])
  from checked_atom [OF 1(2,3)] have "checked_stmt c (reprs @ ext) (PushDefer a')"
    unfolding checked_stmt_def by simp
  with 1(1,4) show ?case by (simp add: grows2_def)
next
  case (7 a t e)
  from "7.prems"(2) have "set (rp_atom_var a) \<subseteq> {..<length reprs}" by simp
  then obtain a' e1 new where 1: "coerce rng a I32 (reprs, []) = (a', reprs @ e1, new)"
    "atom_in (reprs @ e1) a'" "atom_repr a' (reprs @ e1) = I32" "checked c (reprs @ e1) new"
    by (rule coerce_head [OF _ nominal_ok_shapes [OF "7.prems"(1)]])
  have t: "set (rp_block_vars t) \<subseteq> {..<length reprs}" and e: "set (rp_block_vars e) \<subseteq> {..<length reprs}"
    using "7.prems"(2) by simp_all
  from grows_later [OF "7.IH"(1) "7.prems"(1) t] obtain t' e2 where
    2: "co_block c t (reprs @ e1) = Some (t', (reprs @ e1) @ e2)" "checked c ((reprs @ e1) @ e2) t'" .
  let ?r2 = "(reprs @ e1) @ e2"
  from grows_later [OF "7.IH"(2) nominal_ok_append [OF "7.prems"(1)] in_grown [OF e]] obtain f' e3 where
    3: "co_block c e ?r2 = Some (f', ?r2 @ e3)" "checked c (?r2 @ e3) f'" .
  have g: "checked c (?r2 @ e3) new" "checked c (?r2 @ e3) t'"
    using 1(4) 2(2) by (simp_all only: checked_append_table)
  have "atom_in (?r2 @ e3) a'" "atom_repr a' (?r2 @ e3) = I32"
    using 1(2,3) by (simp_all only: atom_in_append atom_repr_append)
  from checked_atom [OF this] g(2) 3(2) have "checked_stmt c (?r2 @ e3) (If a' t' f')"
    unfolding checked_stmt_def checked_def by simp
  with g(1) 1(1) 2(1) 3(1) show ?case by (simp add: grows2_def)
next
  case (8 a cs d)
  from "8.prems"(2) have "set (rp_atom_var a) \<subseteq> {..<length reprs}" by simp
  then obtain a' e1 new where 1: "coerce rng a Boxed (reprs, []) = (a', reprs @ e1, new)"
    "atom_in (reprs @ e1) a'" "atom_repr a' (reprs @ e1) = Boxed" "checked c (reprs @ e1) new"
    by (rule coerce_head [OF _ nominal_ok_shapes [OF "8.prems"(1)]])
  have cs: "set (rp_case_vars cs) \<subseteq> {..<length reprs}" and d: "set (rp_block_vars d) \<subseteq> {..<length reprs}"
    using "8.prems"(2) by simp_all
  from grows_later [OF "8.IH"(1) "8.prems"(1) cs] obtain cs' e2 where
    2: "co_cases c cs (reprs @ e1) = Some (cs', (reprs @ e1) @ e2)" "checked_cases c ((reprs @ e1) @ e2) cs'" .
  let ?r2 = "(reprs @ e1) @ e2"
  from grows_later [OF "8.IH"(2) nominal_ok_append [OF "8.prems"(1)] in_grown [OF d]] obtain d' e3 where
    3: "co_block c d ?r2 = Some (d', ?r2 @ e3)" "checked c (?r2 @ e3) d'" .
  have g: "checked c (?r2 @ e3) new" "checked_cases c (?r2 @ e3) cs'"
    using 1(4) 2(2) by (simp_all only: checked_append_table)
  have "atom_in (?r2 @ e3) a'" "atom_repr a' (?r2 @ e3) = Boxed"
    using 1(2,3) by (simp_all only: atom_in_append atom_repr_append)
  from checked_atom [OF this] g(2) 3(2) have "checked_stmt c (?r2 @ e3) (Switch a' cs' d')"
    unfolding checked_stmt_def checked_cases_def checked_def by simp
  with g(1) 1(1) 2(1) 3(1) show ?case by (simp add: grows2_def)
next
  case (9 a arms)
  from "9.prems"(2) have "set (rp_atom_var a) \<subseteq> {..<length reprs}" by simp
  then obtain a' e1 new where 1: "coerce rng a Boxed (reprs, []) = (a', reprs @ e1, new)"
    "atom_in (reprs @ e1) a'" "atom_repr a' (reprs @ e1) = Boxed" "checked c (reprs @ e1) new"
    by (rule coerce_head [OF _ nominal_ok_shapes [OF "9.prems"(1)]])
  have arms: "set (rp_arm_vars arms) \<subseteq> {..<length reprs}" using "9.prems"(2) by simp
  from grows_later [OF "9.IH" "9.prems"(1) arms] obtain arms' e2 where
    2: "co_arms c arms (reprs @ e1) = Some (arms', (reprs @ e1) @ e2)" "checked_arms c ((reprs @ e1) @ e2) arms'" .
  let ?r2 = "(reprs @ e1) @ e2"
  have g: "checked c ?r2 new" using 1(4) by (simp only: checked_append_table)
  have "atom_in ?r2 a'" "atom_repr a' ?r2 = Boxed"
    using 1(2,3) by (simp_all only: atom_in_append atom_repr_append)
  from checked_atom [OF this] 2(2) have "checked_stmt c ?r2 (Match a' arms')"
    unfolding checked_stmt_def checked_arms_def by simp
  with g 1(1) 2(1) show ?case by (simp add: grows2_def)
next
  case (10 b)
  from "10.prems"(2) have "set (rp_block_vars b) \<subseteq> {..<length reprs}" by simp
  from "10.IH" [OF "10.prems"(1) this] obtain b' ext where
    "co_block c b reprs = Some (b', reprs @ ext)" "checked c (reprs @ ext) b'" by (rule growsE)
  then show ?case by (simp add: grows2_def checked_stmt_def checked_def)
next
  case 14
  show ?case by (simp add: grows_def checked_cases_def)
next
  case (15 i b cs)
  from "15.IH"(1) [of reprs] "15.prems" obtain b' e1 where
    1: "co_block c b reprs = Some (b', reprs @ e1)" "checked c (reprs @ e1) b'"
    by (auto elim!: growsE)
  have "set (rp_case_vars cs) \<subseteq> {..<length reprs}" using "15.prems"(2) by simp
  from grows_later [OF "15.IH"(2) "15.prems"(1) this] obtain cs' e2 where
    2: "co_cases c cs (reprs @ e1) = Some (cs', (reprs @ e1) @ e2)" "checked_cases c ((reprs @ e1) @ e2) cs'" .
  from 1(2) have "checked c ((reprs @ e1) @ e2) b'" by (simp only: checked_append_table)
  with 1(1) 2 show ?case by (simp add: grows_def checked_cases_def checked_def)
next
  case 16
  show ?case by (simp add: grows_def checked_arms_def)
next
  case (17 p b arms)
  from "17.IH"(1) [of reprs] "17.prems" obtain b' e1 where
    1: "co_block c b reprs = Some (b', reprs @ e1)" "checked c (reprs @ e1) b'"
    by (auto elim!: growsE)
  have "set (rp_arm_vars arms) \<subseteq> {..<length reprs}" using "17.prems"(2) by simp
  from grows_later [OF "17.IH"(2) "17.prems"(1) this] obtain arms' e2 where
    2: "co_arms c arms (reprs @ e1) = Some (arms', (reprs @ e1) @ e2)" "checked_arms c ((reprs @ e1) @ e2) arms'" .
  from 1(2) have "checked c ((reprs @ e1) @ e2) b'" by (simp only: checked_append_table)
  moreover have "set (rp_pattern_vars p) \<subseteq> {..<length ((reprs @ e1) @ e2)}"
    using "17.prems"(2) by auto
  ultimately show ?case using 1(1) 2 by (simp add: grows_def checked_arms_def checked_def)
qed (auto simp: grows2_def checked_stmt_def)

section \<open>A checked block is left as it is\<close>

lemma coerce_same: "atom_repr a reprs = req \<Longrightarrow> coerce rng a req (reprs, pre) = (a, reprs, pre)"
  by (simp add: coerce_def)

lemma visit_same:
  "\<forall>(a, r) \<in> set ops. atom_repr a reprs = r \<Longrightarrow>
   visit_atoms (coerce rng) ops (reprs, pre) = (map fst ops, reprs, pre)"
  by (induction ops) (auto simp: coerce_same)

lemma with_operands_same: "with_operands rv (operands rv) = rv"
proof -
  have "zip (map fst fs) (map snd fs) = fs" for fs :: "(string \<times> atom) list" by (simp add: zip_map_fst_snd)
  moreover have "map2 set_item its (map item_atom its) = its" for its
  proof (induction its)
    case (Cons it its)
    then show ?case by (cases it) auto
  qed simp
  ultimately show ?thesis by (cases rv) auto
qed

lemma visit_rvalue_same:
  assumes "check_rvalue rv reprs fn sg shape = Some None" and "shape_known shape"
  shows "visited (coerce rng) sg shape rv (reprs, pre) = (rv, reprs, pre)"
proof (cases "moves rv")
  case True
  then show ?thesis by (simp add: visited_def moves_required)
next
  case False
  from assms have "\<forall>(a, r) \<in> set (required sg shape rv). atom_repr a reprs = r"
    by (simp add: check_rvalue_None)
  from visit_same [OF this] show ?thesis
    by (simp add: visited_def map_fst_required [OF False] with_operands_same)
qed

lemma require_None [simp]: "require a r reprs fn ctx = Some None \<longleftrightarrow> atom_repr a reprs = r"
  by (simp add: require_def Let_def)

lemma coerce_let_same:
  assumes "ck_stmt reprs fn c (Let v rv) = Some None" and "v < length reprs" and nom: "shapes_ok (co_nominal c)"
  shows "coerce_let c rng v rv reprs = Some ([], Let v rv, reprs)"
proof -
  from assms have 1: "natural_repr rv reprs (co_sigs c) (co_nominal c) = reprs ! v"
    "check_rvalue rv reprs fn (co_sigs c) (co_nominal c v) = Some None"
    by (auto simp: Let_def result_repr_ok [OF nom] split: if_splits)
  show ?thesis
  proof (cases "\<exists>a. rv = Use a")
    case True
    with 1(1) assms(2) show ?thesis by (auto simp: coerce_let_def coerce_same natural_repr_def)
  next
    case False
    with visit_rvalue_same [OF 1(2) shape_known_nominal [OF nom]] 1(1) assms(2) show ?thesis
      by (cases rv) (simp_all add: coerce_let_def visit_known [OF shape_known_nominal [OF nom]] result_repr_ok [OF nom]
        del: for_each_required_operand.simps)
  qed
qed

lemma co_same:
  assumes nom: "shapes_ok (co_nominal c)"
  shows "ck_block reprs fn c b = Some None \<Longrightarrow> set (rp_block_vars b) \<subseteq> {..<length reprs} \<Longrightarrow>
     co_block c b reprs = Some (b, reprs)"
  "ck_stmt reprs fn c k = Some None \<Longrightarrow> set (rp_stmt_vars k) \<subseteq> {..<length reprs} \<Longrightarrow>
     co_stmt c rng k reprs = Some ([], k, reprs)"
  "ck_cases reprs fn c cs = Some None \<Longrightarrow> set (rp_case_vars cs) \<subseteq> {..<length reprs} \<Longrightarrow>
     co_cases c cs reprs = Some (cs, reprs)"
  "ck_arms reprs fn c arms = Some None \<Longrightarrow> set (rp_arm_vars arms) \<subseteq> {..<length reprs} \<Longrightarrow>
     co_arms c arms reprs = Some (arms, reprs)"
proof (induction b and k and cs and arms arbitrary: and rng
    rule: rp_block_vars_rp_stmt_vars_rp_case_vars_rp_arm_vars.induct)
  case (3 v rv)
  then show ?case by (simp del: ck_stmt.simps add: coerce_let_same nom)
next
  case (4 rv)
  then show ?case by (simp add: visit_known visit_rvalue_same)
qed (simp_all add: coerce_same stmt_new_def)

section \<open>The pass on a function\<close>

definition coercer_of :: "ir_function \<Rightarrow> sigs \<Rightarrow> nominal \<Rightarrow> coercer" where
  "coercer_of f sg nom = \<lparr>co_sigs = sg, self_ret = own_ret f sg, co_nominal = nom\<rparr>"

lemma pad_reprs_covers: "n \<le> length (pad_reprs reprs n)"
  by (simp add: pad_reprs_def)

lemma pad_reprs_same: "n \<le> length reprs \<Longrightarrow> pad_reprs reprs n = reprs"
  by (simp add: pad_reprs_def)

text \<open>The table the pass starts from: the recorded one, or an inferred one.\<close>

definition start_reprs :: "ir_function \<Rightarrow> sigs \<Rightarrow> nominal \<Rightarrow> repr list option" where
  "start_reprs f sg nom = (if var_reprs f = [] then infer_reprs (f\<lparr>var_reprs := []\<rparr>) sg nom
                           else Some (var_reprs f))"

lemma insert_coercions_checked:
  assumes "start_reprs f sg nom = Some reprs"
    and "nominal_ok nom (pad_reprs reprs (var_upper_bound f))"
  obtains b ext where
    "insert_coercions f sg nom =
       Some (f\<lparr>body := b, var_reprs := pad_reprs reprs (var_upper_bound f) @ ext\<rparr>)"
    "checked (coercer_of f sg nom) (pad_reprs reprs (var_upper_bound f) @ ext) b"
proof -
  let ?r = "pad_reprs reprs (var_upper_bound f)"
  have "set (rp_block_vars (body f)) \<subseteq> {..<length ?r}"
    using var_upper_bound_above [of _ f] pad_reprs_covers [of "var_upper_bound f" reprs]
    by (auto intro: less_le_trans)
  with assms(2) have "grows (checked (coercer_of f sg nom)) ?r (co_block (coercer_of f sg nom) (body f) ?r)"
    by (intro co_checked(1)) (simp_all add: coercer_of_def)
  then obtain b ext where "co_block (coercer_of f sg nom) (body f) ?r = Some (b, ?r @ ext)"
    "checked (coercer_of f sg nom) (?r @ ext) b" by (rule growsE)
  with assms(1) that show ?thesis
    by (simp add: insert_coercions_def start_reprs_def coercer_of_def split: if_splits)
qed

lemma infer_reprs_table [simp]: "infer_reprs (f\<lparr>var_reprs := rs\<rparr>) sg nom = infer_reprs f sg nom"
  by (simp add: infer_reprs_def find_join_vars_def var_upper_bound_def)

lemma own_ret_update [simp]:
  "own_ret (f\<lparr>body := b\<rparr>) sg = own_ret f sg" "own_ret (f\<lparr>var_reprs := r\<rparr>) sg = own_ret f sg"
  "own_ret (f\<lparr>body := b, var_reprs := r\<rparr>) sg = own_ret f sg"
  by (simp_all add: own_ret_def)

lemma start_reprs_total: "shapes_ok nom \<Longrightarrow> \<exists>reprs. start_reprs f sg nom = Some reprs"
  using infer_reprs_total [of nom f sg] by (auto simp: start_reprs_def)

lemma bound_of_coerced:
  "checked c reprs b \<Longrightarrow> var_upper_bound f \<le> length reprs \<Longrightarrow>
   var_upper_bound (f\<lparr>body := b, var_reprs := rs\<rparr>) \<le> length reprs"
  using var_upper_bound_above [of _ f]
  by (auto simp: var_upper_bound_def [of "f\<lparr>body := b, var_reprs := rs\<rparr>"] checked_def
      intro!: foldl_bump_least intro: less_le_trans)

text \<open>
  C17. Where no nominal record layout is in play (the empty map, which is also the one the
  readiness checker uses), coercion insertion makes any function ready for emission: it never
  panics, and the readiness checker then finds every operand and every binding in the
  representation it must have, whatever table of representations the function came with.
\<close>

theorem insert_coercions_valid:
  "\<exists>f'. insert_coercions f sg Map.empty = Some f' \<and> validate_reprs f' sg = Some None"
proof -
  obtain reprs where r: "start_reprs f sg Map.empty = Some reprs" using start_reprs_total [OF shapes_ok_empty] by blast
  obtain b ext where f': "insert_coercions f sg Map.empty =
      Some (f\<lparr>body := b, var_reprs := pad_reprs reprs (var_upper_bound f) @ ext\<rparr>)"
    "checked (coercer_of f sg Map.empty) (pad_reprs reprs (var_upper_bound f) @ ext) b"
    by (rule insert_coercions_checked [OF r nominal_ok_empty])
  let ?f = "f\<lparr>body := b, var_reprs := pad_reprs reprs (var_upper_bound f) @ ext\<rparr>"
  have "ck_block ((pad_reprs reprs (var_upper_bound f) @ ext) @ []) (fn_name f) (coercer_of f sg Map.empty) b = Some None"
    using f'(2) unfolding checked_def by blast
  then have "validate_reprs ?f sg = Some None"
    by (simp add: validate_reprs_def coercer_of_def)
  with f'(1) show ?thesis by blast
qed

text \<open>
  Coercion insertion is idempotent: run again, it inserts nothing and leaves the function
  as it is.
\<close>

theorem insert_coercions_idempotent:
  assumes "insert_coercions f sg Map.empty = Some f'"
  shows "insert_coercions f' sg Map.empty = Some f'"
proof -
  let ?n = "var_upper_bound f"
  obtain reprs where r: "start_reprs f sg Map.empty = Some reprs" using start_reprs_total [OF shapes_ok_empty] by blast
  let ?r = "pad_reprs reprs ?n"
  obtain b ext where "insert_coercions f sg Map.empty = Some (f\<lparr>body := b, var_reprs := ?r @ ext\<rparr>)"
    and chk: "checked (coercer_of f sg Map.empty) (?r @ ext) b"
    by (rule insert_coercions_checked [OF r nominal_ok_empty])
  with assms have f': "f' = f\<lparr>body := b, var_reprs := ?r @ ext\<rparr>" by simp
  have "?n \<le> length (?r @ ext)" using pad_reprs_covers [of ?n reprs] by (simp add: trans_le_add1)
  from bound_of_coerced [OF chk this] have n': "var_upper_bound f' \<le> length (?r @ ext)" by (simp add: f')
  have start: "start_reprs f' sg Map.empty = Some (?r @ ext)"
  proof (cases "?r @ ext = []")
    case True
    with n' infer_reprs_total [OF shapes_ok_empty, of f' sg] show ?thesis by (auto simp: start_reprs_def f')
  next
    case False
    then show ?thesis by (auto simp: start_reprs_def f')
  qed
  have c': "coercer_of f' sg Map.empty = coercer_of f sg Map.empty"
    by (simp add: coercer_of_def f')
  from chk have "ck_block ((?r @ ext) @ []) (fn_name f) (coercer_of f sg Map.empty) b = Some None"
    "set (rp_block_vars b) \<subseteq> {..<length (?r @ ext)}"
    unfolding checked_def by blast+
  then have "co_block (coercer_of f' sg Map.empty) b (?r @ ext) = Some (b, ?r @ ext)"
    unfolding c' by (intro co_same(1)) (simp_all add: coercer_of_def)
  with start n' show ?thesis
    by (simp add: insert_coercions_def start_reprs_def coercer_of_def pad_reprs_same f' split: if_splits)
qed

text \<open>A function for the witness: \<open>fun n { n - 1 }\<close>, its parameter boxed.\<close>

definition pred_fn :: ir_function where
  "pred_fn = \<lparr>fn_name = ''pred'', fn_module = ''m'', params = [0], captures = [], is_async = False,
     poll_fn = None,
     body = [synthetic (Let 1 (Bin SubInt (AVar 0) (AConst (CInt 1)))), synthetic (Return (AVar 1))],
     var_reprs = [], param_reprs = [], ret_repr = Boxed\<rparr>"

theorem insert_coercions_idempotent_witness:
  "\<exists>f'. insert_coercions pred_fn uniform Map.empty = Some f' \<and> length (body f') = 4
     \<and> insert_coercions f' uniform Map.empty = Some f'"
proof -
  have "map_option (\<lambda>f'. length (body f')) (insert_coercions pred_fn uniform Map.empty) = Some 4"
    by code_simp
  then obtain f' where f': "insert_coercions pred_fn uniform Map.empty = Some f'" "length (body f') = 4"
    by auto
  from insert_coercions_idempotent [OF f'(1)] f' show ?thesis by blast
qed

text \<open>
  C21. The step of the emission pipeline, with records laid out nominally: where the nominal
  variables are boxed variables of the function and their shapes have as many representations as
  fields, what inference and coercion insertion produce
  together passes the checker for that layout.
\<close>

theorem infer_then_coerce_nominal:
  assumes "\<forall>sh \<in> ran nom. shape_ok sh" and "infer_reprs f sg nom = Some reprs"
    and "\<forall>v \<in> dom nom. v < length reprs \<and> reprs ! v = Boxed"
  shows "\<exists>f'. insert_coercions (f\<lparr>var_reprs := reprs\<rparr>) sg nom = Some f'
    \<and> ck_block (var_reprs f') (fn_name f')
        \<lparr>co_sigs = sg, self_ret = own_ret f' sg, co_nominal = nom\<rparr> (body f') = Some None"
proof -
  let ?f = "f\<lparr>var_reprs := reprs\<rparr>"
  have start: "start_reprs ?f sg nom = Some reprs" using assms(2) by (simp add: start_reprs_def)
  have "nominal_ok nom reprs" using assms(1,3) by (simp add: nominal_ok_def shapes_ok_def)
  then have ok: "nominal_ok nom (pad_reprs reprs (var_upper_bound ?f))"
    by (simp add: pad_reprs_def nominal_ok_append)
  obtain b ext where f': "insert_coercions ?f sg nom =
      Some (?f\<lparr>body := b, var_reprs := pad_reprs reprs (var_upper_bound ?f) @ ext\<rparr>)"
    "checked (coercer_of ?f sg nom) (pad_reprs reprs (var_upper_bound ?f) @ ext) b"
    by (rule insert_coercions_checked [OF start ok])
  have "ck_block ((pad_reprs reprs (var_upper_bound ?f) @ ext) @ []) (fn_name f) (coercer_of ?f sg nom) b = Some None"
    using f'(2) unfolding checked_def by blast
  with f'(1) show ?thesis by (simp add: coercer_of_def)
qed

text \<open>\<open>fun x y { let p = { a: x, b: y }; p.a }\<close> with \<open>a\<close> stored as a raw float.\<close>

definition point_fn :: ir_function where
  "point_fn = \<lparr>fn_name = ''point'', fn_module = ''m'', params = [0, 1], captures = [], is_async = False,
     poll_fn = None,
     body = [synthetic (Let 2 (MakeRecord [(''a'', AVar 0), (''b'', AVar 1)] None)),
       synthetic (Let 3 (GetField (AVar 2) ''a'' None)), synthetic (Return (AVar 3))],
     var_reprs = [], param_reprs = [], ret_repr = Boxed\<rparr>"

definition point_nominal :: nominal where
  "point_nominal = [2 \<mapsto> \<lparr>shape_fields = [''a'', ''b''], field_reprs = [F64, Boxed]\<rparr>]"

theorem infer_then_coerce_nominal_witness:
  "\<exists>f'. insert_coercions (point_fn\<lparr>var_reprs := [Boxed, Boxed, Boxed, F64]\<rparr>) uniform point_nominal = Some f'
     \<and> ck_block (var_reprs f') (fn_name f')
         \<lparr>co_sigs = uniform, self_ret = own_ret f' uniform, co_nominal = point_nominal\<rparr> (body f') = Some None"
proof (rule infer_then_coerce_nominal)
  show "\<forall>sh \<in> ran point_nominal. shape_ok sh"
    by (simp add: point_nominal_def shape_ok_def)
  show "infer_reprs point_fn uniform point_nominal = Some [Boxed, Boxed, Boxed, F64]" by code_simp
  show "\<forall>v \<in> dom point_nominal. v < length [Boxed, Boxed, Boxed, F64] \<and> [Boxed, Boxed, Boxed, F64] ! v = Boxed"
    by (simp add: point_nominal_def)
qed

end
