(* ===== verification/Types.thy ===== *)
theory Types
  imports Prelude Location "HOL-Library.Char_ord" "HOL-Library.List_Lexorder" "HOL-Library.Multiset"
begin

text \<open>
  The analyzer's types: compiler/src/types/type.rs, scheme.rs and constraint.rs. A record label
  is a byte string, compared byte by byte as Rust compares \<open>str\<close>. A dispatch cell or sink, which
  the code shares by reference between the constraint and the syntax tree, is its address.
\<close>

section \<open>Types\<close>

datatype ty =
    TUnknown
  | TVar nat
  | TBool | TInt | TFloat | TInstant | TDuration | TString | TBytes | TNothing
  | TTuple "ty list"
  | TPartialTuple "(nat \<times> ty) list" "nat option"
  | TRecord "(string \<times> ty) list" "nat option"
  | TFun "ty list" ty
  | TEnum string "ty list"
  | TList ty
  | TDict ty ty
  | TRef ty

text \<open>The types without parts.\<close>

definition base_type :: "ty \<Rightarrow> bool" where
  "base_type t \<longleftrightarrow> t \<in> {TUnknown, TBool, TInt, TFloat, TInstant, TDuration, TString, TBytes, TNothing}"

definition partial_tuple :: "(nat \<times> ty) list \<Rightarrow> nat option \<Rightarrow> ty" where
  "partial_tuple fs rest =
     (if rest = None \<and> fs \<noteq> []
      then let gs = sort_key fst fs
           in if map fst gs = [0..<length gs] then TTuple (map snd gs) else TPartialTuple gs rest
      else TPartialTuple fs rest)"

fun contains_var :: "ty \<Rightarrow> nat \<Rightarrow> bool" where
  "contains_var (TVar n) v \<longleftrightarrow> v = n"
| "contains_var (TPartialTuple fs rest) v \<longleftrightarrow> (\<exists>p \<in> set fs. contains_var (snd p) v)"
| "contains_var (TEnum n ts) v \<longleftrightarrow> (\<exists>t \<in> set ts. contains_var t v)"
| "contains_var (TList t) v \<longleftrightarrow> contains_var t v"
| "contains_var (TDict k t) v \<longleftrightarrow> contains_var k v \<or> contains_var t v"
| "contains_var (TRef t) v \<longleftrightarrow> contains_var t v"
| "contains_var (TTuple ts) v \<longleftrightarrow> (\<exists>t \<in> set ts. contains_var t v)"
| "contains_var (TRecord fs rest) v \<longleftrightarrow> (\<exists>p \<in> set fs. contains_var (snd p) v)"
| "contains_var (TFun ts t) v \<longleftrightarrow> (\<exists>t \<in> set ts. contains_var t v) \<or> contains_var t v"
| "contains_var t v \<longleftrightarrow> False"

fun free_vars :: "ty \<Rightarrow> nat set" where
  "free_vars (TVar n) = {n}"
| "free_vars (TPartialTuple fs rest) = (\<Union>p \<in> set fs. free_vars (snd p))"
| "free_vars (TEnum n ts) = (\<Union>t \<in> set ts. free_vars t)"
| "free_vars (TList t) = free_vars t"
| "free_vars (TDict k t) = free_vars k \<union> free_vars t"
| "free_vars (TRef t) = free_vars t"
| "free_vars (TTuple ts) = (\<Union>t \<in> set ts. free_vars t)"
| "free_vars (TRecord fs rest) = (\<Union>p \<in> set fs. free_vars (snd p))"
| "free_vars (TFun ts t) = (\<Union>t \<in> set ts. free_vars t) \<union> free_vars t"
| "free_vars t = {}"

fun free_row_vars :: "ty \<Rightarrow> nat set" where
  "free_row_vars (TPartialTuple fs rest) = (\<Union>p \<in> set fs. free_row_vars (snd p)) \<union> set_option rest"
| "free_row_vars (TEnum n ts) = (\<Union>t \<in> set ts. free_row_vars t)"
| "free_row_vars (TList t) = free_row_vars t"
| "free_row_vars (TDict k t) = free_row_vars k \<union> free_row_vars t"
| "free_row_vars (TRef t) = free_row_vars t"
| "free_row_vars (TTuple ts) = (\<Union>t \<in> set ts. free_row_vars t)"
| "free_row_vars (TRecord fs rest) = (\<Union>p \<in> set fs. free_row_vars (snd p)) \<union> set_option rest"
| "free_row_vars (TFun ts t) = (\<Union>t \<in> set ts. free_row_vars t) \<union> free_row_vars t"
| "free_row_vars t = {}"

lemma contains_var_iff: "contains_var t v \<longleftrightarrow> v \<in> free_vars t"
  by (induction t v rule: contains_var.induct) auto

section \<open>Schemes and constraints\<close>

type_synonym dispatch_cell = nat
type_synonym dispatch_sink = nat

record constraint_reason =
  reason_range :: range

record class_constraint =
  class_name :: string
  class_ty :: ty
  class_reason :: constraint_reason
  class_cell :: dispatch_cell

datatype scheme =
    SVar nat
  | Forall "nat list" "nat list" "class_constraint list" ty

fun scheme_free_vars :: "scheme \<Rightarrow> nat set" where
  "scheme_free_vars (SVar n) = {}"
| "scheme_free_vars (Forall vs rvs cs t) = free_vars t - set vs"

fun scheme_free_row_vars :: "scheme \<Rightarrow> nat set" where
  "scheme_free_row_vars (SVar n) = {}"
| "scheme_free_row_vars (Forall vs rvs cs t) = free_row_vars t - set rvs"

datatype tconstraint =
    CEq ty ty constraint_reason
  | CGen scheme ty
  | CInst nat ty dispatch_sink range
  | CClass class_constraint

definition eq_constraint :: "ty \<Rightarrow> ty \<Rightarrow> tconstraint" where
  "eq_constraint a b = CEq a b \<lparr>reason_range = collapsed 0 0\<rparr>"

fun constraint_at :: "tconstraint \<Rightarrow> range \<Rightarrow> tconstraint" where
  "constraint_at (CEq a b rs) r = CEq a b \<lparr>reason_range = r\<rparr>"
| "constraint_at (CClass c) r = CClass (c\<lparr>class_reason := \<lparr>reason_range = r\<rparr>\<rparr>)"
| "constraint_at c r = c"

section \<open>Display\<close>

text \<open>
  The text of a type. The thread-local \<open>VAR_DISPLAY\<close> is a state that is threaded through and
  starts empty at the outermost call: the variables met so far, in order, so that the index of
  one is its position.
\<close>

fun nat_text :: "nat \<Rightarrow> string" where
  "nat_text n = (if n < 10 then [char_of (48 + n)] else nat_text (n div 10) @ [char_of (48 + n mod 10)])"

declare nat_text.simps [simp del]

fun joined :: "string \<Rightarrow> string list \<Rightarrow> string" where
  "joined sep [] = []"
| "joined sep [x] = x"
| "joined sep (x # xs) = x @ sep @ joined sep xs"

fun name_index :: "nat list \<Rightarrow> nat \<Rightarrow> nat option" where
  "name_index [] v = None"
| "name_index (n # ns) v = (if n = v then Some 0 else map_option Suc (name_index ns v))"

definition display_var_name :: "nat \<Rightarrow> nat list \<Rightarrow> string \<times> nat list" where
  "display_var_name v names =
     (let (i, names') =
        (case name_index names v of Some i \<Rightarrow> (i, names) | None \<Rightarrow> (length names, names @ [v]));
        letter = [char_of (97 + i mod 26)]
      in (if i div 26 = 0 then letter else letter @ nat_text (i div 26), names'))"

definition maybe_parens :: "string \<Rightarrow> string" where
  "maybe_parens s = (if CHR '' '' \<in> set s then ''('' @ s @ '')'' else s)"

text \<open>\<open>rsplit_once('.')\<close>: what follows the last dot.\<close>

definition bare_name :: "string \<Rightarrow> string" where
  "bare_name s = rev (takeWhile (\<lambda>c. c \<noteq> CHR ''.'') (rev s))"

definition fill_slots :: "(nat \<times> string) list \<Rightarrow> string list" where
  "fill_slots fs = fold (\<lambda>p xs. xs[fst p := snd p]) fs (replicate (Max (fst ` set fs) + 1) ''_'')"

lemma size_list_sort_key: "size_list f (sort_key k xs) = size_list f xs"
proof -
  have "sum_mset (image_mset f (mset (sort_key k xs))) = sum_mset (image_mset f (mset xs))" by simp
  then show ?thesis by (simp only: size_list_conv_sum_list sum_mset_sum_list [symmetric] mset_map length_sort)
qed

function (sequential) fmt :: "ty \<Rightarrow> nat list \<Rightarrow> string \<times> nat list"
  and fmt_args :: "ty list \<Rightarrow> nat list \<Rightarrow> string list \<times> nat list"
  and fmt_slots :: "(nat \<times> ty) list \<Rightarrow> nat list \<Rightarrow> (nat \<times> string) list \<times> nat list"
  and fmt_fields :: "(string \<times> ty) list \<Rightarrow> nat list \<Rightarrow> string list \<times> nat list" where
  "fmt (TVar v) ns = display_var_name v ns"
| "fmt (TEnum n ts) ns =
     (if ts = [] then (bare_name n, ns)
      else case fmt_args ts ns of (xs, ns') \<Rightarrow> (bare_name n @ '' '' @ joined '' '' xs, ns'))"
| "fmt (TFun ts t) ns =
     (case fmt_args ts ns of (xs, ns1) \<Rightarrow>
        case fmt t ns1 of (r, ns2) \<Rightarrow> (joined '' '' xs @ '' -> '' @ r, ns2))"
| "fmt (TPartialTuple fs rest) ns =
     (if fs = [] then (if rest = None then ''()'' else ''(...)'', ns)
      else case fmt_slots fs ns of (xs, ns') \<Rightarrow>
        (''('' @ joined '', '' (fill_slots xs) @ (if rest = None then '')'' else '', ...)''), ns'))"
| "fmt (TTuple ts) ns =
     (case fmt_args ts ns of (xs, ns') \<Rightarrow> (''('' @ joined '', '' xs @ '')'', ns'))"
| "fmt (TRecord fs rest) ns =
     (case fmt_fields (sort_key fst fs) ns of (xs, ns') \<Rightarrow>
        (if rest = None then ''{'' @ joined '', '' xs @ ''}''
         else if fs = [] then ''{...}'' else ''{'' @ joined '', '' xs @ '', ...}'', ns'))"
| "fmt (TList t) ns = (case fmt t ns of (x, ns') \<Rightarrow> (''list '' @ maybe_parens x, ns'))"
| "fmt (TDict k t) ns =
     (case fmt k ns of (x, ns1) \<Rightarrow> case fmt t ns1 of (y, ns2) \<Rightarrow>
        (''dict '' @ maybe_parens x @ '' '' @ maybe_parens y, ns2))"
| "fmt (TRef t) ns = (case fmt t ns of (x, ns') \<Rightarrow> (''ref '' @ maybe_parens x, ns'))"
| "fmt TUnknown ns = (''?'', ns)"
| "fmt TBool ns = (''bool'', ns)"
| "fmt TInt ns = (''int'', ns)"
| "fmt TFloat ns = (''float'', ns)"
| "fmt TString ns = (''string'', ns)"
| "fmt TBytes ns = (''bytes'', ns)"
| "fmt TInstant ns = (''instant'', ns)"
| "fmt TDuration ns = (''duration'', ns)"
| "fmt TNothing ns = (''nothing'', ns)"
| "fmt_args [] ns = ([], ns)"
| "fmt_args (t # ts) ns =
     (case fmt t ns of (x, ns1) \<Rightarrow> case fmt_args ts ns1 of (xs, ns2) \<Rightarrow> (maybe_parens x # xs, ns2))"
| "fmt_slots [] ns = ([], ns)"
| "fmt_slots ((i, t) # fs) ns =
     (case fmt t ns of (x, ns1) \<Rightarrow> case fmt_slots fs ns1 of (xs, ns2) \<Rightarrow> ((i, maybe_parens x) # xs, ns2))"
| "fmt_fields [] ns = ([], ns)"
| "fmt_fields ((l, t) # fs) ns =
     (case fmt t ns of (x, ns1) \<Rightarrow> case fmt_fields fs ns1 of (xs, ns2) \<Rightarrow> ((l @ '': '' @ x) # xs, ns2))"
  by pat_completeness auto
termination
  by (relation "measure (case_sum (case_sum (\<lambda>p. size (fst p)) (\<lambda>p. size_list size (fst p)))
      (case_sum (\<lambda>p. size_list (size_prod (\<lambda>_. 0) size) (fst p)) (\<lambda>p. size_list (size_prod (\<lambda>_. 0) size) (fst p))))")
    (auto simp: size_list_sort_key)

definition display_type :: "ty \<Rightarrow> string" where
  "display_type t = fst (fmt t [])"

text \<open>A consistent renaming of type variables (\<open>f\<close>) and row variables (\<open>g\<close>).\<close>

fun rename :: "(nat \<Rightarrow> nat) \<Rightarrow> (nat \<Rightarrow> nat) \<Rightarrow> ty \<Rightarrow> ty" where
  "rename f g (TVar n) = TVar (f n)"
| "rename f g (TPartialTuple fs rest) = TPartialTuple (map (\<lambda>p. (fst p, rename f g (snd p))) fs) (map_option g rest)"
| "rename f g (TEnum n ts) = TEnum n (map (rename f g) ts)"
| "rename f g (TList t) = TList (rename f g t)"
| "rename f g (TDict k t) = TDict (rename f g k) (rename f g t)"
| "rename f g (TRef t) = TRef (rename f g t)"
| "rename f g (TTuple ts) = TTuple (map (rename f g) ts)"
| "rename f g (TRecord fs rest) = TRecord (map (\<lambda>p. (fst p, rename f g (snd p))) fs) (map_option g rest)"
| "rename f g (TFun ts t) = TFun (map (rename f g) ts) (rename f g t)"
| "rename f g t = t"

lemma apsnd_eq [simp]: "(\<lambda>p. (fst p, h (snd p))) = apsnd h"
  by (rule ext) (simp add: apsnd_def map_prod_def split: prod.split)

lemma name_index_map: "inj_on f V \<Longrightarrow> v \<in> V \<Longrightarrow> set ns \<subseteq> V \<Longrightarrow> name_index (map f ns) (f v) = name_index ns v"
  by (induction ns) (auto dest: inj_onD)

lemma name_index_None: "name_index ns v = None \<longleftrightarrow> v \<notin> set ns"
  by (induction ns) auto

lemma display_var_name_map:
  assumes "inj_on f V" and "v \<in> V" and "set ns \<subseteq> V"
  shows "display_var_name (f v) (map f ns) = apsnd (map f) (display_var_name v ns)"
  by (auto simp: display_var_name_def name_index_map [OF assms] Let_def split: option.split)

lemma display_var_name_names: "set (snd (display_var_name v ns)) = insert v (set ns)"
  using name_index_None [of ns v] by (auto simp: display_var_name_def Let_def split: option.split)

definition free_all :: "ty list \<Rightarrow> nat set" where
  "free_all ts = (\<Union>t \<in> set ts. free_vars t)"

lemma free_all_simps [simp]:
  "free_all [] = {}" "free_all (t # ts) = free_vars t \<union> free_all ts"
  "(\<Union>t \<in> set ts. free_vars t) = free_all ts" "(\<Union>p \<in> set fs. free_vars (snd p)) = free_all (map snd fs)"
  "free_all (map snd (sort_key k fs)) = free_all (map snd fs)"
  by (simp_all add: free_all_def)

lemma fmt_names:
  "set (snd (fmt t ns)) = set ns \<union> free_vars t"
  "set (snd (fmt_args ts ns)) = set ns \<union> free_all ts"
  "set (snd (fmt_slots is ns)) = set ns \<union> free_all (map snd is)"
  "set (snd (fmt_fields ls ns)) = set ns \<union> free_all (map snd ls)"
  by (induction t ns and ts ns and "is" ns and ls ns rule: fmt_fmt_args_fmt_slots_fmt_fields.induct)
    (clarsimp simp: display_var_name_names Un_ac split: prod.splits if_splits)+

lemma sort_key_map_apsnd: "sort_key fst (map (apsnd h) fs) = map (apsnd h) (sort_key fst fs)"
proof -
  have ins: "insort_key fst (apsnd h x) (map (apsnd h) ys) = map (apsnd h) (insort_key fst x ys)" for x ys
    by (induction ys) auto
  show ?thesis by (induction fs) (simp_all add: sort_key_def ins del: apsnd_conv)
qed

text \<open>Renaming the variables renames the names met, and no text.\<close>

lemma fmt_rename:
  assumes inj: "inj_on f V"
  shows
  "set ns \<union> free_vars t \<subseteq> V \<Longrightarrow> fmt (rename f g t) (map f ns) = apsnd (map f) (fmt t ns)"
  "set ns \<union> free_all ts \<subseteq> V \<Longrightarrow> fmt_args (map (rename f g) ts) (map f ns) = apsnd (map f) (fmt_args ts ns)"
  "set ns \<union> free_all (map snd is) \<subseteq> V \<Longrightarrow>
     fmt_slots (map (apsnd (rename f g)) is) (map f ns) = apsnd (map f) (fmt_slots is ns)"
  "set ns \<union> free_all (map snd ls) \<subseteq> V \<Longrightarrow>
     fmt_fields (map (apsnd (rename f g)) ls) (map f ns) = apsnd (map f) (fmt_fields ls ns)"
proof (induction t ns and ts ns and "is" ns and ls ns rule: fmt_fmt_args_fmt_slots_fmt_fields.induct)
  case (1 v ns)
  then show ?case by (simp add: display_var_name_map [OF inj])
next
  case (3 ts t ns)
  then show ?case using fmt_names(2) [of ts ns] by (auto split: prod.splits)
next
  case (8 k t ns)
  then show ?case using fmt_names(1) [of k ns] by (auto split: prod.splits)
next
  case (20 t ts ns)
  then show ?case using fmt_names(1) [of t ns] by (auto split: prod.splits)
next
  case (22 i t fs ns)
  then show ?case using fmt_names(1) [of t ns] by (auto split: prod.splits)
next
  case (24 l t fs ns)
  then show ?case using fmt_names(1) [of t ns] by (auto split: prod.splits)
qed (auto simp: sort_key_map_apsnd split: prod.splits)

text \<open>
  What a type is shown as does not depend on the numbers of its variables: renaming its
  type variables apart, and its row variables in any way, leaves the text as it is.
\<close>

theorem display_type_rename:
  assumes "inj_on f (free_vars t)"
  shows "display_type (rename f g t) = display_type t"
  using fmt_rename(1) [OF assms, of "[]" t g] by (simp add: display_type_def)

theorem display_type_rename_witness:
  "display_type (rename (\<lambda>n. n + 7) (\<lambda>n. 0)
     (TFun [TVar 102, TRecord [(''x'', TVar 3)] (Some 9)] (TList (TVar 102)))) = ''a ({x: b, ...}) -> list a''"
proof -
  let ?t = "TFun [TVar 102, TRecord [(''x'', TVar 3)] (Some 9)] (TList (TVar 102))"
  have "display_type ?t = ''a ({x: b, ...}) -> list a''" by code_simp
  with display_type_rename [of "\<lambda>n. n + 7" ?t "\<lambda>n. 0"] show ?thesis by (simp add: inj_on_def)
qed

end
