(* ===== verification/Substitution.thy ===== *)
theory Substitution
  imports Types "HOL-Library.AList" "HOL-Library.Monad_Syntax"
begin

text \<open>
  Substitutions: compiler/src/types/substitution.rs. A hash map is a list of entries with
  distinct keys; the order of the entries stands for the order of iteration, which the code
  does not rely on. \<open>apply_to_type\<close> chases row variables in a loop and recurses into what it
  finds, so it may run forever on a cyclic substitution: it is a partial function, and \<open>None\<close>
  is a run that does not return.
\<close>

section \<open>Partial maps over lists\<close>

fun mapm :: "('a \<Rightarrow> 'b option) \<Rightarrow> 'a list \<Rightarrow> 'b list option" where
  "mapm f [] = Some []"
| "mapm f (x # xs) = Option.bind (f x) (\<lambda>y. Option.bind (mapm f xs) (\<lambda>ys. Some (y # ys)))"

definition mapm_snd :: "('a \<Rightarrow> 'b option) \<Rightarrow> ('k \<times> 'a) list \<Rightarrow> ('k \<times> 'b) list option" where
  "mapm_snd f = mapm (\<lambda>p. Option.bind (f (snd p)) (\<lambda>t. Some (fst p, t)))"

lemma mapm_mono [partial_function_mono]:
  assumes "\<And>x. mono_option (\<lambda>f. g f x)"
  shows "mono_option (\<lambda>f. mapm (g f) xs)"
proof (induction xs)
  case Nil show ?case by (simp add: option.const_mono)
next
  case (Cons x xs)
  show ?case unfolding mapm.simps by (intro bind_mono assms Cons option.const_mono)
qed

lemma mapm_snd_mono [partial_function_mono]:
  assumes "\<And>x. mono_option (\<lambda>f. g f x)"
  shows "mono_option (\<lambda>f. mapm_snd (g f) xs)"
  unfolding mapm_snd_def by (intro mapm_mono bind_mono assms option.const_mono)

lemma mapm_Some: "mapm f xs = Some ys \<longleftrightarrow> list_all2 (\<lambda>x y. f x = Some y) xs ys"
  by (induction xs arbitrary: ys) (auto simp: bind_eq_Some_conv list_all2_Cons1)

lemma mapm_snd_Some:
  "mapm_snd f xs = Some ys \<longleftrightarrow> list_all2 (\<lambda>x y. fst x = fst y \<and> f (snd x) = Some (snd y)) xs ys"
  unfolding mapm_snd_def mapm_Some
  by (intro iffI; erule list_all2_mono) (auto simp: bind_eq_Some_conv prod_eq_iff)

section \<open>Substitutions\<close>

record 'k row_sol =
  row_fields :: "('k \<times> ty) list"
  row_tail :: "nat option"

type_synonym row_solution = "string row_sol"
type_synonym tuple_row_solution = "nat row_sol"

record substitution =
  solutions :: "(nat \<times> ty) list"
  row_solutions :: "(nat \<times> row_solution) list"
  tuple_row_solutions :: "(nat \<times> tuple_row_solution) list"

definition empty_subst :: substitution where
  "empty_subst = \<lparr>solutions = [], row_solutions = [], tuple_row_solutions = []\<rparr>"

definition with_entry :: "nat \<Rightarrow> ty \<Rightarrow> substitution" where
  "with_entry k t = \<lparr>solutions = [(k, t)], row_solutions = [], tuple_row_solutions = []\<rparr>"

definition with_row_entry :: "nat \<Rightarrow> row_solution \<Rightarrow> substitution" where
  "with_row_entry k r = \<lparr>solutions = [], row_solutions = [(k, r)], tuple_row_solutions = []\<rparr>"

text \<open>
  The loop that chases a tail through the row solutions: the fields it meets, in order, and the
  tail that is left.
\<close>

partial_function (option) row_chain ::
    "(nat \<times> 'k row_sol) list \<Rightarrow> nat option \<Rightarrow> (('k \<times> ty) list \<times> nat option) option" where
  "row_chain rows rest =
     (case rest of
        None \<Rightarrow> Some ([], None)
      | Some r \<Rightarrow>
          (case map_of rows r of
             None \<Rightarrow> Some ([], Some r)
           | Some sol \<Rightarrow>
               Option.bind (row_chain rows (row_tail sol)) (\<lambda>p.
                 Some (row_fields sol @ fst p, snd p))))"

declare row_chain.simps [code]

partial_function (option) apply_to_type :: "substitution \<Rightarrow> ty \<Rightarrow> ty option" where
  "apply_to_type s t =
     (case t of
        TVar v \<Rightarrow> Some (case map_of (solutions s) v of Some u \<Rightarrow> u | None \<Rightarrow> TVar v)
      | TEnum n ts \<Rightarrow> Option.bind (mapm (\<lambda>u. apply_to_type s u) ts) (\<lambda>us. Some (TEnum n us))
      | TFun ts r \<Rightarrow>
          Option.bind (mapm (\<lambda>u. apply_to_type s u) ts) (\<lambda>us.
            Option.bind (apply_to_type s r) (\<lambda>r'. Some (TFun us r')))
      | TPartialTuple fs rest \<Rightarrow>
          Option.bind (row_chain (tuple_row_solutions s) rest) (\<lambda>p.
            Option.bind (mapm_snd (\<lambda>u. apply_to_type s u) (fs @ fst p)) (\<lambda>gs.
              Some (partial_tuple gs (snd p))))
      | TTuple ts \<Rightarrow> Option.bind (mapm (\<lambda>u. apply_to_type s u) ts) (\<lambda>us. Some (TTuple us))
      | TRecord fs rest \<Rightarrow>
          Option.bind (row_chain (row_solutions s) rest) (\<lambda>p.
            Option.bind (mapm_snd (\<lambda>u. apply_to_type s u) (fs @ fst p)) (\<lambda>gs.
              Some (TRecord gs (snd p))))
      | TList u \<Rightarrow> Option.bind (apply_to_type s u) (\<lambda>u'. Some (TList u'))
      | TDict k u \<Rightarrow>
          Option.bind (apply_to_type s k) (\<lambda>k'.
            Option.bind (apply_to_type s u) (\<lambda>u'. Some (TDict k' u')))
      | TRef u \<Rightarrow> Option.bind (apply_to_type s u) (\<lambda>u'. Some (TRef u'))
      | _ \<Rightarrow> Some t)"

declare apply_to_type.simps [code]

fun apply_to_constraint :: "substitution \<Rightarrow> tconstraint \<Rightarrow> tconstraint option" where
  "apply_to_constraint s (CEq a b r) =
     Option.bind (apply_to_type s a) (\<lambda>a'. Option.bind (apply_to_type s b) (\<lambda>b'. Some (CEq a' b' r)))"
| "apply_to_constraint s (CGen sc t) = Option.bind (apply_to_type s t) (\<lambda>t'. Some (CGen sc t'))"
| "apply_to_constraint s (CInst v t sink r) = Option.bind (apply_to_type s t) (\<lambda>t'. Some (CInst v t' sink r))"
| "apply_to_constraint s (CClass c) =
     Option.bind (apply_to_type s (class_ty c)) (\<lambda>t'. Some (CClass (c\<lparr>class_ty := t'\<rparr>)))"

definition apply_to_constraints :: "substitution \<Rightarrow> tconstraint list \<Rightarrow> tconstraint list option" where
  "apply_to_constraints s cs = mapm (apply_to_constraint s) cs"

section \<open>Composition\<close>

text \<open>\<open>entry(k).or_insert(v)\<close>\<close>

definition or_insert :: "nat \<Rightarrow> 'v \<Rightarrow> (nat \<times> 'v) list \<Rightarrow> (nat \<times> 'v) list" where
  "or_insert k v m = (if map_of m k = None then m @ [(k, v)] else m)"

text \<open>One entry of the row solutions: the tail is looked up in \<open>other\<close> once.\<close>

definition compose_row ::
    "substitution \<Rightarrow> (nat \<times> 'k row_sol) list \<Rightarrow> 'k row_sol \<Rightarrow> 'k row_sol option" where
  "compose_row other rows sol =
     Option.bind (mapm_snd (apply_to_type other) (row_fields sol)) (\<lambda>fs.
       case Option.bind (row_tail sol) (map_of rows) of
         Some o_sol \<Rightarrow>
           Option.bind (mapm_snd (apply_to_type other) (row_fields o_sol)) (\<lambda>gs.
             Some (\<lparr>row_fields = fs @ gs, row_tail = row_tail o_sol\<rparr>))
       | None \<Rightarrow> Some (\<lparr>row_fields = fs, row_tail = row_tail sol\<rparr>))"

definition compose :: "substitution \<Rightarrow> substitution \<Rightarrow> substitution option" where
  "compose s other =
     Option.bind (mapm_snd (apply_to_type other) (solutions s)) (\<lambda>sols.
       Option.bind (mapm_snd (compose_row other (row_solutions other)) (row_solutions s)) (\<lambda>rows.
         Option.bind (mapm_snd (compose_row other (tuple_row_solutions other)) (tuple_row_solutions s)) (\<lambda>trows.
           Some (\<lparr>solutions = fold (\<lambda>p. AList.update (fst p) (snd p)) (solutions other) sols,
             row_solutions = fold (\<lambda>p. or_insert (fst p) (snd p)) (row_solutions other) rows,
             tuple_row_solutions = fold (\<lambda>p. or_insert (fst p) (snd p)) (tuple_row_solutions other) trows\<rparr>))))"


section \<open>The substitution between two congruent types\<close>

definition insert_solution :: "nat \<Rightarrow> ty \<Rightarrow> substitution \<Rightarrow> substitution" where
  "insert_solution v t s = s\<lparr>solutions := or_insert v t (solutions s)\<rparr>"

definition insert_row :: "nat \<Rightarrow> row_solution \<Rightarrow> substitution \<Rightarrow> substitution" where
  "insert_row r sol s = s\<lparr>row_solutions := or_insert r sol (row_solutions s)\<rparr>"

definition insert_tuple_row :: "nat \<Rightarrow> tuple_row_solution \<Rightarrow> substitution \<Rightarrow> substitution" where
  "insert_tuple_row r sol s = s\<lparr>tuple_row_solutions := or_insert r sol (tuple_row_solutions s)\<rparr>"

text \<open>The fields of a concrete type that the generic one does not name.\<close>

definition extra_fields :: "('k \<times> ty) list \<Rightarrow> ('k \<times> ty) list \<Rightarrow> ('k \<times> ty) list" where
  "extra_fields gf cf = filter (\<lambda>p. fst p \<notin> fst ` set gf) cf"

function (sequential) diff_into :: "ty \<Rightarrow> ty \<Rightarrow> substitution \<Rightarrow> substitution"
  and diff_list :: "ty list \<Rightarrow> ty list \<Rightarrow> substitution \<Rightarrow> substitution"
  and diff_fields :: "(string \<times> ty) list \<Rightarrow> (string \<times> ty) list \<Rightarrow> substitution \<Rightarrow> substitution"
  and diff_slots :: "(nat \<times> ty) list \<Rightarrow> (nat \<times> ty) list \<Rightarrow> substitution \<Rightarrow> substitution" where
  "diff_into (TVar v) c s = insert_solution v c s"
| "diff_into (TFun gp gr) c s =
     (case c of TFun cp cr \<Rightarrow> diff_into gr cr (diff_list gp cp s) | _ \<Rightarrow> s)"
| "diff_into (TList g) c s = (case c of TList u \<Rightarrow> diff_into g u s | _ \<Rightarrow> s)"
| "diff_into (TDict gk gv) c s =
     (case c of TDict ck cv \<Rightarrow> diff_into gv cv (diff_into gk ck s) | _ \<Rightarrow> s)"
| "diff_into (TRef g) c s = (case c of TRef u \<Rightarrow> diff_into g u s | _ \<Rightarrow> s)"
| "diff_into (TTuple gs) c s = (case c of TTuple cs \<Rightarrow> diff_list gs cs s | _ \<Rightarrow> s)"
| "diff_into (TEnum n gs) c s = (case c of TEnum m cs \<Rightarrow> diff_list gs cs s | _ \<Rightarrow> s)"
| "diff_into (TRecord gf rest) c s =
     (case c of
        TRecord cf ctail \<Rightarrow>
          let s1 = diff_fields gf cf s
          in (case rest of
                None \<Rightarrow> s1
              | Some r \<Rightarrow> insert_row r \<lparr>row_fields = extra_fields gf cf, row_tail = ctail\<rparr> s1)
      | _ \<Rightarrow> s)"
| "diff_into (TPartialTuple gf rest) c s =
     (case c of
        TTuple cs \<Rightarrow>
          let cf = enumerate 0 cs; s1 = diff_slots gf cf s
          in (case rest of
                None \<Rightarrow> s1
              | Some r \<Rightarrow> insert_tuple_row r \<lparr>row_fields = extra_fields gf cf, row_tail = None\<rparr> s1)
      | TPartialTuple cf ctail \<Rightarrow> diff_slots gf cf s
      | _ \<Rightarrow> s)"
| "diff_into TUnknown c s = s"
| "diff_into TBool c s = s"
| "diff_into TInt c s = s"
| "diff_into TFloat c s = s"
| "diff_into TInstant c s = s"
| "diff_into TDuration c s = s"
| "diff_into TString c s = s"
| "diff_into TBytes c s = s"
| "diff_into TNothing c s = s"
| "diff_list [] cs s = s"
| "diff_list (g # gs) cs s = (case cs of [] \<Rightarrow> s | c # cs' \<Rightarrow> diff_list gs cs' (diff_into g c s))"
| "diff_fields [] cf s = s"
| "diff_fields ((n, g) # gf) cf s =
     diff_fields gf cf (case map_of cf n of Some c \<Rightarrow> diff_into g c s | None \<Rightarrow> s)"
| "diff_slots [] cf s = s"
| "diff_slots ((i, g) # gf) cf s =
     diff_slots gf cf (case map_of cf i of Some c \<Rightarrow> diff_into g c s | None \<Rightarrow> s)"
  by pat_completeness auto
termination
  by (relation "measure (case_sum (case_sum (\<lambda>p. size (fst p)) (\<lambda>p. size_list size (fst p)))
      (case_sum (\<lambda>p. size_list (size_prod (\<lambda>_. 0) size) (fst p)) (\<lambda>p. size_list (size_prod (\<lambda>_. 0) size) (fst p))))")
    auto

definition congruent_diff :: "ty \<Rightarrow> ty \<Rightarrow> substitution" where
  "congruent_diff g c = diff_into g c empty_subst"

end
