(* ===== verification/TypeSem.thy ===== *)
theory TypeSem
  imports Substitution "HOL-Library.Finite_Map"
begin

text \<open>
  What a type means, as a specification for substitutions and unification: a valuation gives
  every type variable a ground type and every row variable a finite map from labels to ground
  types. A record is the map of its fields, the later of two fields with one label counting,
  extended by the row of its tail; a tuple is a map from indices, so that a partial tuple and a
  tuple can be compared. Nothing here is code of the repository.
\<close>

section \<open>Ground types and valuations\<close>

datatype gty =
    GBase ty
  | GTuple "(nat, gty) fmap"
  | GRecord "(string, gty) fmap"
  | GFun "gty list" gty
  | GEnum string "gty list"
  | GList gty
  | GDict gty gty
  | GRef gty

record valuation =
  ty_val :: "nat \<Rightarrow> gty"
  row_val :: "nat \<Rightarrow> (string, gty) fmap"
  trow_val :: "nat \<Rightarrow> (nat, gty) fmap"

definition field_map :: "('k \<times> 'v) list \<Rightarrow> ('k, 'v) fmap" where
  "field_map fs = fmap_of_list (rev fs)"

definition tail_map :: "(nat \<Rightarrow> ('k, gty) fmap) \<Rightarrow> nat option \<Rightarrow> ('k, gty) fmap" where
  "tail_map rv rest = (case rest of None \<Rightarrow> fmempty | Some r \<Rightarrow> rv r)"

fun eval :: "valuation \<Rightarrow> ty \<Rightarrow> gty" where
  "eval v (TVar n) = ty_val v n"
| "eval v (TTuple ts) = GTuple (field_map (enumerate 0 (map (eval v) ts)))"
| "eval v (TPartialTuple fs rest) =
     GTuple (field_map (map (\<lambda>p. (fst p, eval v (snd p))) fs) ++\<^sub>f tail_map (trow_val v) rest)"
| "eval v (TRecord fs rest) =
     GRecord (field_map (map (\<lambda>p. (fst p, eval v (snd p))) fs) ++\<^sub>f tail_map (row_val v) rest)"
| "eval v (TFun ts t) = GFun (map (eval v) ts) (eval v t)"
| "eval v (TEnum n ts) = GEnum n (map (eval v) ts)"
| "eval v (TList t) = GList (eval v t)"
| "eval v (TDict k t) = GDict (eval v k) (eval v t)"
| "eval v (TRef t) = GRef (eval v t)"
| "eval v t = GBase t"

definition eval_fields :: "valuation \<Rightarrow> ('k \<times> ty) list \<Rightarrow> ('k, gty) fmap" where
  "eval_fields v fs = field_map (map (apsnd (eval v)) fs)"

lemma eval_fields_eq [simp]: "field_map (map (apsnd (eval v)) fs) = eval_fields v fs"
  by (simp add: eval_fields_def)

lemma map_of_apsnd: "map_of (map (apsnd f) xs) k = map_option f (map_of xs k)"
  by (induction xs) auto

lemma field_map_append: "field_map (xs @ ys) = field_map xs ++\<^sub>f field_map ys"
  by (rule fmap_ext) (simp add: field_map_def fmlookup_of_list map_add_def split: option.split)

lemma eval_fields_append: "eval_fields v (fs @ gs) = eval_fields v fs ++\<^sub>f eval_fields v gs"
  by (simp add: eval_fields_def field_map_append del: eval_fields_eq)

lemma eval_fields_Nil [simp]: "eval_fields v [] = fmempty"
  by (simp add: eval_fields_def field_map_def del: eval_fields_eq)

lemma eval_fields_rel:
  "list_all2 (\<lambda>p q. fst p = fst q \<and> eval v (snd p) = eval v (snd q)) fs gs \<Longrightarrow> eval_fields v fs = eval_fields v gs"
proof -
  assume "list_all2 (\<lambda>p q. fst p = fst q \<and> eval v (snd p) = eval v (snd q)) fs gs"
  then have "map (apsnd (eval v)) fs = map (apsnd (eval v)) gs"
    by (induction rule: list_all2_induct) (auto simp: prod_eq_iff)
  then show ?thesis by (simp add: eval_fields_def del: eval_fields_eq)
qed

text \<open>Sorting the indices of a partial tuple, and closing it to a tuple, keeps its meaning.\<close>

lemma map_of_filter: "map_of xs k = map_of (filter (\<lambda>p. fst p = k) xs) k"
  by (induction xs) auto

lemma map_of_rev_sort: "map_of (rev (sort_key fst fs)) k = map_of (rev fs) k"
proof -
  have "filter (\<lambda>p. fst p = k) (rev (sort_key fst fs)) = filter (\<lambda>p. fst p = k) (rev fs)"
    by (simp add: rev_filter [symmetric] sort_key_stable)
  then show ?thesis using map_of_filter [of "rev (sort_key fst fs)" k] map_of_filter [of "rev fs" k] by simp
qed

lemma fmlookup_eval_fields: "fmlookup (eval_fields v fs) k = map_option (eval v) (map_of (rev fs) k)"
  by (simp add: eval_fields_def field_map_def fmlookup_of_list rev_map map_of_apsnd del: eval_fields_eq)

lemma eval_fields_sort: "eval_fields v (sort_key fst fs) = eval_fields v fs"
  by (rule fmap_ext) (simp add: fmlookup_eval_fields map_of_rev_sort)

lemma enumerate_snd: "map fst gs = [n..<n + length gs] \<Longrightarrow> enumerate n (map snd gs) = gs"
  by (metis enumerate_eq_zip length_map zip_map_fst_snd)

lemma eval_enumerate [simp]: "field_map (enumerate n (map (eval v) ts)) = eval_fields v (enumerate n ts)"
proof -
  have "enumerate n (map (eval v) ts) = map (apsnd (eval v)) (enumerate n ts)"
    by (induction ts arbitrary: n) auto
  then show ?thesis by simp
qed

lemma eval_partial_tuple [simp]: "eval v (partial_tuple fs rest) = eval v (TPartialTuple fs rest)"
proof (cases "rest = None \<and> fs \<noteq> []")
  case True
  let ?gs = "sort_key fst fs"
  show ?thesis
  proof (cases "map fst ?gs = [0..<length ?gs]")
    case tuple: True
    then have "enumerate 0 (map snd ?gs) = ?gs" by (intro enumerate_snd) simp
    then have "eval v (TTuple (map snd ?gs)) = GTuple (eval_fields v fs)"
      by (simp only: eval.simps eval_enumerate eval_fields_sort)
    with True tuple show ?thesis by (simp add: partial_tuple_def Let_def tail_map_def del: map_map)
  next
    case False
    with True show ?thesis by (simp add: partial_tuple_def Let_def eval_fields_sort)
  qed
qed (auto simp: partial_tuple_def)

section \<open>Valuations that satisfy a substitution\<close>

definition solves_row :: "(('k \<times> ty) list \<Rightarrow> ('k, gty) fmap) \<Rightarrow> (nat \<Rightarrow> ('k, gty) fmap) \<Rightarrow> (nat \<times> 'k row_sol) list \<Rightarrow> bool" where
  "solves_row ev rv rows \<longleftrightarrow> (\<forall>r sol. map_of rows r = Some sol \<longrightarrow>
     rv r = ev (row_fields sol) ++\<^sub>f tail_map rv (row_tail sol))"

definition solves :: "valuation \<Rightarrow> substitution \<Rightarrow> bool" where
  "solves v s \<longleftrightarrow>
     (\<forall>n t. map_of (solutions s) n = Some t \<longrightarrow> ty_val v n = eval v t)
     \<and> solves_row (eval_fields v) (row_val v) (row_solutions s)
     \<and> solves_row (eval_fields v) (trow_val v) (tuple_row_solutions s)"

text \<open>Chasing a tail does not change what it stands for.\<close>

lemma row_chain_eval:
  "row_chain rows rest = Some p \<Longrightarrow> solves_row (eval_fields v) rv rows \<Longrightarrow>
     eval_fields v (fst p) ++\<^sub>f tail_map rv (snd p) = tail_map rv rest"
proof (induction rule: row_chain.raw_induct [rotated, consumes 1, case_names step])
  case (step chain rows rest p)
  show ?case
  proof (cases "Option.bind rest (map_of rows)")
    case None
    with step(2) show ?thesis by (auto split: option.splits)
  next
    case (Some sol)
    then obtain r where r: "rest = Some r" "map_of rows r = Some sol" by (auto simp: bind_eq_Some_conv)
    with step(2) obtain q where q: "chain rows (row_tail sol) = Some q" and p: "p = (row_fields sol @ fst q, snd q)"
      by (auto simp: bind_eq_Some_conv)
    from step(1) [OF q step(3)] step(3) r p show ?thesis
      by (simp add: eval_fields_append solves_row_def tail_map_def) (metis fmadd_assoc)
  qed
qed

text \<open>A valuation that satisfies a substitution does not tell a type from its image.\<close>

lemma mapm_snd_eval:
  assumes "mapm_snd f fs = Some gs" and "\<And>t u. f t = Some u \<Longrightarrow> eval v u = eval v t"
  shows "eval_fields v gs = eval_fields v fs"
proof -
  from assms(1) have "list_all2 (\<lambda>x y. fst x = fst y \<and> f (snd x) = Some (snd y)) fs gs" by (simp add: mapm_snd_Some)
  then have "list_all2 (\<lambda>p q. fst p = fst q \<and> eval v (snd p) = eval v (snd q)) fs gs"
    by (rule list_all2_mono) (use assms(2) in auto)
  then show ?thesis by (rule eval_fields_rel [symmetric])
qed

lemma mapm_eval:
  assumes "mapm f ts = Some us" and "\<And>t u. f t = Some u \<Longrightarrow> eval v u = eval v t"
  shows "map (eval v) us = map (eval v) ts"
  using assms(1) unfolding mapm_Some by (induction rule: list_all2_induct) (auto simp: assms(2))

lemma eval_enumerate_map: "map (eval v) us = map (eval v) ts \<Longrightarrow> eval v (TTuple us) = eval v (TTuple ts)"
  by (simp add: eval.simps(2))

lemma apply_eval:
  "apply_to_type s t = Some u \<Longrightarrow> solves v s \<Longrightarrow> eval v u = eval v t"
proof (induction rule: apply_to_type.raw_induct [rotated, consumes 1, case_names step])
  case (step ap s t u)
  note IH = step(1) [OF _ step(3)]
  have rows: "solves_row (eval_fields v) (row_val v) (row_solutions s)"
    "solves_row (eval_fields v) (trow_val v) (tuple_row_solutions s)" using step(3) by (simp_all add: solves_def)
  have list: "map (eval v) us = map (eval v) ts" if "mapm (\<lambda>u. ap s u) ts = Some us" for us ts
    using mapm_eval [OF that] IH by blast
  have fields: "eval_fields v gs = eval_fields v fs" if "mapm_snd (\<lambda>u. ap s u) fs = Some gs" for gs fs :: "('k \<times> ty) list"
    using mapm_snd_eval [OF that] IH by blast
  show ?case
  proof (cases t)
    case (TVar n)
    with step(2,3) show ?thesis by (auto simp: solves_def split: option.splits)
  next
    case (TTuple ts)
    with step(2) list eval_enumerate_map show ?thesis by (auto simp: bind_eq_Some_conv)
  next
    case (TPartialTuple fs rest)
    with step(2) obtain p gs where p: "row_chain (tuple_row_solutions s) rest = Some p"
      and g: "mapm_snd (\<lambda>u. ap s u) (fs @ fst p) = Some gs" and u: "u = partial_tuple gs (snd p)"
      by (auto simp: bind_eq_Some_conv)
    from fields [OF g] row_chain_eval [OF p rows(2)] u TPartialTuple show ?thesis
      by (simp add: eval_fields_append) (metis fmadd_assoc)
  next
    case (TRecord fs rest)
    with step(2) obtain p gs where p: "row_chain (row_solutions s) rest = Some p"
      and g: "mapm_snd (\<lambda>u. ap s u) (fs @ fst p) = Some gs" and u: "u = TRecord gs (snd p)"
      by (auto simp: bind_eq_Some_conv)
    from fields [OF g] row_chain_eval [OF p rows(1)] u TRecord show ?thesis
      by (simp add: eval_fields_append) (metis fmadd_assoc)
  qed (use step(2) IH list in \<open>auto simp: bind_eq_Some_conv\<close>)
qed


section \<open>Composition\<close>

definition keyed :: "substitution \<Rightarrow> bool" where
  "keyed s \<longleftrightarrow> distinct (map fst (solutions s)) \<and> distinct (map fst (row_solutions s))
     \<and> distinct (map fst (tuple_row_solutions s))"

definition disjoint_keys :: "substitution \<Rightarrow> substitution \<Rightarrow> bool" where
  "disjoint_keys s u \<longleftrightarrow> fst ` set (solutions s) \<inter> fst ` set (solutions u) = {}
     \<and> fst ` set (row_solutions s) \<inter> fst ` set (row_solutions u) = {}
     \<and> fst ` set (tuple_row_solutions s) \<inter> fst ` set (tuple_row_solutions u) = {}"

lemma map_of_updates:
  "distinct (map fst xs) \<Longrightarrow>
     map_of (fold (\<lambda>p. AList.update (fst p) (snd p)) xs ys) = map_of ys ++ map_of xs"
proof (induction xs arbitrary: ys)
  case (Cons x xs)
  have "(map_of ys)(fst x \<mapsto> snd x) ++ map_of xs = map_of ys ++ map_of (x # xs)"
  proof (rule ext)
    fix k
    have "map_of xs (fst x) = None" using Cons(2) by (simp add: map_of_eq_None_iff)
    then show "((map_of ys)(fst x \<mapsto> snd x) ++ map_of xs) k = (map_of ys ++ map_of (x # xs)) k"
      by (cases x) (simp add: map_add_def split: option.split)
  qed
  with Cons(1) [of "AList.update (fst x) (snd x) ys"] Cons(2) show ?case
    by (simp only: fold.simps o_apply AList.update_conv' distinct.simps list.map simp_thms)
qed simp

lemma map_of_or_insert:
  "map_of (fold (\<lambda>p. or_insert (fst p) (snd p)) xs ys) = map_of xs ++ map_of ys"
proof (induction xs arbitrary: ys)
  case (Cons x xs)
  have "map_of xs ++ map_of (or_insert (fst x) (snd x) ys) = map_of (x # xs) ++ map_of ys"
    by (auto simp: or_insert_def map_add_def fun_eq_iff split: option.split)
  with Cons show ?case by (simp only: fold.simps o_apply)
qed simp

lemma mapm_snd_lookup:
  "mapm_snd f xs = Some ys \<Longrightarrow> (map_of xs k = None \<and> map_of ys k = None)
     \<or> (\<exists>a b. map_of xs k = Some a \<and> map_of ys k = Some b \<and> f a = Some b)"
  unfolding mapm_snd_Some by (induction rule: list_all2_induct) auto

lemma mapm_snd_keys: "mapm_snd f xs = Some ys \<Longrightarrow> map fst ys = map fst xs"
  unfolding mapm_snd_Some by (induction rule: list_all2_induct) auto

text \<open>Under a solution of \<open>other\<close>, a row and its composition say the same.\<close>

lemma compose_row_eval:
  assumes "compose_row other rows sol = Some sol'" and "solves v other"
    and "solves_row (eval_fields v) rv rows"
  shows "eval_fields v (row_fields sol') ++\<^sub>f tail_map rv (row_tail sol')
    = eval_fields v (row_fields sol) ++\<^sub>f tail_map rv (row_tail sol)"
proof -
  note ev = mapm_snd_eval [OF _ apply_eval [OF _ assms(2)]]
  obtain fs where f: "mapm_snd (apply_to_type other) (row_fields sol) = Some fs"
    using assms(1) by (auto simp: compose_row_def bind_eq_Some_conv)
  show ?thesis
  proof (cases "Option.bind (row_tail sol) (map_of rows)")
    case None
    with assms(1) f ev [OF f] show ?thesis by (auto simp: compose_row_def)
  next
    case (Some osol)
    then obtain r where r: "row_tail sol = Some r" "map_of rows r = Some osol" by (auto simp: bind_eq_Some_conv)
    from assms(1) f Some obtain gs where g: "mapm_snd (apply_to_type other) (row_fields osol) = Some gs"
      and sol': "sol' = \<lparr>row_fields = fs @ gs, row_tail = row_tail osol\<rparr>"
      by (auto simp: compose_row_def bind_eq_Some_conv)
    from assms(3) r(2) have "rv r = eval_fields v (row_fields osol) ++\<^sub>f tail_map rv (row_tail osol)"
      by (auto simp: solves_row_def)
    with ev [OF f] ev [OF g] sol' r(1) show ?thesis
      by (simp add: eval_fields_append tail_map_def)
  qed
qed

lemma compose_rows_solves:
  assumes "mapm_snd (compose_row other rows) xs = Some ys" and "solves v other"
    and "solves_row (eval_fields v) rv rows"
  shows "solves_row (eval_fields v) rv ys \<longleftrightarrow> solves_row (eval_fields v) rv xs"
proof -
  note look = mapm_snd_lookup [OF assms(1)] and row = compose_row_eval [OF _ assms(2,3)]
  show ?thesis
  proof
    assume ys: "solves_row (eval_fields v) rv ys"
    show "solves_row (eval_fields v) rv xs"
      unfolding solves_row_def
    proof (intro allI impI)
      fix r sol assume "map_of xs r = Some sol"
      with look [of r] obtain b where "map_of ys r = Some b" "compose_row other rows sol = Some b" by auto
      with row ys show "rv r = eval_fields v (row_fields sol) ++\<^sub>f tail_map rv (row_tail sol)"
        by (auto simp: solves_row_def)
    qed
  next
    assume xs: "solves_row (eval_fields v) rv xs"
    show "solves_row (eval_fields v) rv ys"
      unfolding solves_row_def
    proof (intro allI impI)
      fix r sol assume "map_of ys r = Some sol"
      with look [of r] obtain a where "map_of xs r = Some a" "compose_row other rows a = Some sol" by auto
      with row xs show "rv r = eval_fields v (row_fields sol) ++\<^sub>f tail_map rv (row_tail sol)"
        by (auto simp: solves_row_def)
    qed
  qed
qed

lemma solves_row_add:
  assumes "fst ` set xs \<inter> fst ` set ys = {}"
  shows "(\<forall>r sol. (map_of xs ++ map_of ys) r = Some sol \<longrightarrow> P r sol)
    \<longleftrightarrow> (\<forall>r sol. map_of xs r = Some sol \<longrightarrow> P r sol) \<and> (\<forall>r sol. map_of ys r = Some sol \<longrightarrow> P r sol)"
proof -
  have "(map_of xs ++ map_of ys) r = Some sol \<longleftrightarrow> map_of xs r = Some sol \<or> map_of ys r = Some sol" for r sol
  proof -
    have "map_of xs r = None \<or> map_of ys r = None"
      using assms by (simp add: map_of_eq_None_iff disjoint_iff)
    then show ?thesis by (auto simp: map_add_def split: option.split)
  qed
  then show ?thesis by blast
qed

text \<open>
  Composition is conjunction: for substitutions with no variable in common, the valuations
  that satisfy \<open>compose s other\<close> are exactly those that satisfy both.
\<close>

theorem compose_solves:
  assumes "compose s other = Some u" and "keyed other" and "disjoint_keys s other"
  shows "solves v u \<longleftrightarrow> solves v s \<and> solves v other"
proof -
  from assms(1) obtain sols rows trows where
    sols: "mapm_snd (apply_to_type other) (solutions s) = Some sols"
    and rows: "mapm_snd (compose_row other (row_solutions other)) (row_solutions s) = Some rows"
    and trows: "mapm_snd (compose_row other (tuple_row_solutions other)) (tuple_row_solutions s) = Some trows"
    and u: "u = \<lparr>solutions = fold (\<lambda>p. AList.update (fst p) (snd p)) (solutions other) sols,
        row_solutions = fold (\<lambda>p. or_insert (fst p) (snd p)) (row_solutions other) rows,
        tuple_row_solutions = fold (\<lambda>p. or_insert (fst p) (snd p)) (tuple_row_solutions other) trows\<rparr>"
    by (auto simp: compose_def bind_eq_Some_conv)
  have set_keys: "fst ` set ys = fst ` set xs" if "map fst ys = map fst xs" for xs :: "('k \<times> 'a) list" and ys :: "('k \<times> 'b) list"
    using that by (metis list.set_map)
  have dis: "fst ` set sols \<inter> fst ` set (solutions other) = {}"
    "fst ` set (row_solutions other) \<inter> fst ` set rows = {}"
    "fst ` set (tuple_row_solutions other) \<inter> fst ` set trows = {}"
    using assms(3) set_keys [OF mapm_snd_keys [OF sols]] set_keys [OF mapm_snd_keys [OF rows]]
      set_keys [OF mapm_snd_keys [OF trows]] by (auto simp: disjoint_keys_def)
  have keys: "distinct (map fst (solutions other))" using assms(2) by (simp add: keyed_def)
  let ?ty = "\<lambda>n t. ty_val v n = eval v t"
  have split: "solves v u \<longleftrightarrow> (\<forall>n t. map_of sols n = Some t \<longrightarrow> ?ty n t)
      \<and> solves_row (eval_fields v) (row_val v) rows \<and> solves_row (eval_fields v) (trow_val v) trows \<and> solves v other"
    unfolding solves_def solves_row_def u substitution.simps map_of_updates [OF keys] map_of_or_insert
      solves_row_add [OF dis(1)] solves_row_add [OF dis(2)] solves_row_add [OF dis(3)]
    by (rule iffI; elim conjE; intro conjI; assumption)
  have sols_iff: "(\<forall>n t. map_of sols n = Some t \<longrightarrow> ?ty n t) \<longleftrightarrow> (\<forall>n t. map_of (solutions s) n = Some t \<longrightarrow> ?ty n t)"
    if other: "solves v other"
  proof (intro iffI allI impI)
    fix n t assume h: "\<forall>n t. map_of sols n = Some t \<longrightarrow> ?ty n t" and "map_of (solutions s) n = Some t"
    with mapm_snd_lookup [OF sols, of n] obtain b where "map_of sols n = Some b" "apply_to_type other t = Some b" by auto
    with h apply_eval [OF _ other] show "?ty n t" by simp
  next
    fix n t assume h: "\<forall>n t. map_of (solutions s) n = Some t \<longrightarrow> ?ty n t" and "map_of sols n = Some t"
    with mapm_snd_lookup [OF sols, of n] obtain a where "map_of (solutions s) n = Some a" "apply_to_type other a = Some t" by auto
    with h apply_eval [OF _ other] show "?ty n t" by simp
  qed
  show ?thesis
  proof (cases "solves v other")
    case True
    then have "solves_row (eval_fields v) (row_val v) (row_solutions other)"
      and "solves_row (eval_fields v) (trow_val v) (tuple_row_solutions other)" by (simp_all add: solves_def)
    note compose_rows_solves [OF rows True this(1)] compose_rows_solves [OF trows True this(2)]
    with split sols_iff [OF True] True show ?thesis by (simp only: solves_def [of v s] simp_thms)
  qed (simp add: split)
qed

text \<open>A substitution that gives \<open>0\<close> a list of \<open>1\<close>, composed with one that gives \<open>1\<close> an integer.\<close>

theorem compose_solves_witness:
  "\<forall>v. solves v \<lparr>solutions = [(0, TList TInt), (1, TInt)], row_solutions = [], tuple_row_solutions = []\<rparr>
     \<longleftrightarrow> solves v (with_entry 0 (TList (TVar 1))) \<and> solves v (with_entry 1 TInt)"
  by (rule allI, rule compose_solves; code_simp)

end
