(* ===== verification/Congruent.thy ===== *)
theory Congruent
  imports Substitution
begin

text \<open>
  \<open>Substitution::congruent_diff\<close> recovers a substitution from a generic type and one of its
  instances: a round trip with \<open>apply_to_type\<close>.
\<close>

section \<open>Application, constructor by constructor\<close>

lemma apply_simps [simp]:
  "apply_to_type s (TVar v) = Some (case map_of (solutions s) v of Some u \<Rightarrow> u | None \<Rightarrow> TVar v)"
  "apply_to_type s (TEnum n ts) = Option.bind (mapm (apply_to_type s) ts) (\<lambda>us. Some (TEnum n us))"
  "apply_to_type s (TFun ts r) = Option.bind (mapm (apply_to_type s) ts) (\<lambda>us.
     Option.bind (apply_to_type s r) (\<lambda>r'. Some (TFun us r')))"
  "apply_to_type s (TPartialTuple fs rest) = Option.bind (row_chain (tuple_row_solutions s) rest) (\<lambda>p.
     Option.bind (mapm_snd (apply_to_type s) (fs @ fst p)) (\<lambda>gs. Some (partial_tuple gs (snd p))))"
  "apply_to_type s (TTuple ts) = Option.bind (mapm (apply_to_type s) ts) (\<lambda>us. Some (TTuple us))"
  "apply_to_type s (TRecord ls rest) = Option.bind (row_chain (row_solutions s) rest) (\<lambda>p.
     Option.bind (mapm_snd (apply_to_type s) (ls @ fst p)) (\<lambda>gs. Some (TRecord gs (snd p))))"
  "apply_to_type s (TList u) = Option.bind (apply_to_type s u) (\<lambda>u'. Some (TList u'))"
  "apply_to_type s (TDict k u) = Option.bind (apply_to_type s k) (\<lambda>k'.
     Option.bind (apply_to_type s u) (\<lambda>u'. Some (TDict k' u')))"
  "apply_to_type s (TRef u) = Option.bind (apply_to_type s u) (\<lambda>u'. Some (TRef u'))"
  "apply_to_type s TUnknown = Some TUnknown" "apply_to_type s TBool = Some TBool" "apply_to_type s TInt = Some TInt"
  "apply_to_type s TFloat = Some TFloat" "apply_to_type s TInstant = Some TInstant"
  "apply_to_type s TDuration = Some TDuration" "apply_to_type s TString = Some TString"
  "apply_to_type s TBytes = Some TBytes" "apply_to_type s TNothing = Some TNothing"
  by (subst apply_to_type.simps; simp)+

lemma row_chain_simps [simp]:
  "row_chain rows None = Some ([], None)"
  "map_of rows r = None \<Longrightarrow> row_chain rows (Some r) = Some ([], Some r)"
  "map_of rows r = Some sol \<Longrightarrow> row_chain rows (Some r) =
     Option.bind (row_chain rows (row_tail sol)) (\<lambda>p. Some (row_fields sol @ fst p, snd p))"
  by (subst row_chain.simps; simp)+

section \<open>Instances with every tuple known\<close>

text \<open>A type without partial tuples, and with no label twice in a record.\<close>

fun plain :: "ty \<Rightarrow> bool" where
  "plain (TPartialTuple fs rest) \<longleftrightarrow> False"
| "plain (TEnum n ts) \<longleftrightarrow> (\<forall>t \<in> set ts. plain t)"
| "plain (TList t) \<longleftrightarrow> plain t"
| "plain (TDict k t) \<longleftrightarrow> plain k \<and> plain t"
| "plain (TRef t) \<longleftrightarrow> plain t"
| "plain (TTuple ts) \<longleftrightarrow> (\<forall>t \<in> set ts. plain t)"
| "plain (TRecord fs rest) \<longleftrightarrow> distinct (map fst fs) \<and> (\<forall>p \<in> set fs. plain (snd p))"
| "plain (TFun ts t) \<longleftrightarrow> (\<forall>t \<in> set ts. plain t) \<and> plain t"
| "plain t \<longleftrightarrow> True"

text \<open>The substitution has an entry for every variable of the type.\<close>

fun covers :: "substitution \<Rightarrow> ty \<Rightarrow> bool" where
  "covers s (TVar n) \<longleftrightarrow> map_of (solutions s) n \<noteq> None"
| "covers s (TPartialTuple fs rest) \<longleftrightarrow> (\<forall>p \<in> set fs. covers s (snd p))
     \<and> (\<forall>r. rest = Some r \<longrightarrow> map_of (tuple_row_solutions s) r \<noteq> None)"
| "covers s (TEnum n ts) \<longleftrightarrow> (\<forall>t \<in> set ts. covers s t)"
| "covers s (TList t) \<longleftrightarrow> covers s t"
| "covers s (TDict k t) \<longleftrightarrow> covers s k \<and> covers s t"
| "covers s (TRef t) \<longleftrightarrow> covers s t"
| "covers s (TTuple ts) \<longleftrightarrow> (\<forall>t \<in> set ts. covers s t)"
| "covers s (TRecord fs rest) \<longleftrightarrow> (\<forall>p \<in> set fs. covers s (snd p))
     \<and> (\<forall>r. rest = Some r \<longrightarrow> map_of (row_solutions s) r \<noteq> None)"
| "covers s (TFun ts t) \<longleftrightarrow> (\<forall>t \<in> set ts. covers s t) \<and> covers s t"
| "covers s t \<longleftrightarrow> True"

definition grows :: "substitution \<Rightarrow> substitution \<Rightarrow> bool" where
  "grows s u \<longleftrightarrow> dom (map_of (solutions s)) \<subseteq> dom (map_of (solutions u))
     \<and> dom (map_of (row_solutions s)) \<subseteq> dom (map_of (row_solutions u))
     \<and> dom (map_of (tuple_row_solutions s)) \<subseteq> dom (map_of (tuple_row_solutions u))"

lemma grows_refl [simp]: "grows s s" by (simp add: grows_def)

lemma grows_trans [trans]: "grows s u \<Longrightarrow> grows u w \<Longrightarrow> grows s w"
  unfolding grows_def by (elim conjE, intro conjI; erule (1) order_trans)

lemma covers_grows: "covers s t \<Longrightarrow> grows s u \<Longrightarrow> covers u t"
proof (induction s t rule: covers.induct)
  case (1 s n)
  then show ?case by (auto simp: grows_def dom_def)
next
  case (2 s fs rest)
  then show ?case by (auto simp: grows_def dom_def)
next
  case (8 s fs rest)
  then show ?case by (auto simp: grows_def dom_def)
qed auto

lemma map_of_or_insert1: "map_of (or_insert k t m) = (case map_of m k of None \<Rightarrow> (map_of m)(k \<mapsto> t) | Some _ \<Rightarrow> map_of m)"
  by (auto simp: or_insert_def map_add_def fun_eq_iff split: option.split)

lemma insert_grows [simp]:
  "grows s (insert_solution v t s)" "grows s (insert_row r sol s)" "grows s (insert_tuple_row r tsol s)"
  by (auto simp: grows_def insert_solution_def insert_row_def insert_tuple_row_def map_of_or_insert1 split: option.splits)

section \<open>Entries that agree with the substitution that made the instance\<close>

definition agrees :: "substitution \<Rightarrow> substitution \<Rightarrow> bool" where
  "agrees s a \<longleftrightarrow>
     (\<forall>v t. map_of (solutions a) v = Some t \<longrightarrow> apply_to_type s (TVar v) = Some t)
     \<and> (\<forall>r sol. map_of (row_solutions a) r = Some sol \<longrightarrow>
          (\<exists>p fs. row_chain (row_solutions s) (Some r) = Some p \<and> mapm_snd (apply_to_type s) (fst p) = Some fs
             \<and> sol = \<lparr>row_fields = fs, row_tail = snd p\<rparr>))
     \<and> (\<forall>r sol. map_of (tuple_row_solutions a) r = Some sol \<longrightarrow>
          (\<exists>p fs. row_chain (tuple_row_solutions s) (Some r) = Some p \<and> mapm_snd (apply_to_type s) (fst p) = Some fs
             \<and> sol = \<lparr>row_fields = sort_key fst fs, row_tail = snd p\<rparr>))"

lemma agrees_empty: "agrees s empty_subst"
  by (simp add: agrees_def empty_subst_def)

lemma agrees_insert_solution:
  assumes "agrees s a" and "apply_to_type s (TVar v) = Some t"
  shows "agrees s (insert_solution v t a)"
  using assms by (auto simp: agrees_def insert_solution_def map_of_or_insert1 split: option.splits)

lemma agrees_insert_row:
  assumes "agrees s a" and "row_chain (row_solutions s) (Some r) = Some p"
    and "mapm_snd (apply_to_type s) (fst p) = Some fs"
  shows "agrees s (insert_row r \<lparr>row_fields = fs, row_tail = snd p\<rparr> a)"
  using assms by (cases p) (auto simp: agrees_def insert_row_def map_of_or_insert1 simp del: apply_simps split: option.splits)

lemma agrees_insert_tuple_row:
  assumes "agrees s a" and "row_chain (tuple_row_solutions s) (Some r) = Some p"
    and "mapm_snd (apply_to_type s) (fst p) = Some fs"
  shows "agrees s (insert_tuple_row r \<lparr>row_fields = sort_key fst fs, row_tail = snd p\<rparr> a)"
  using assms by (cases p) (auto simp: agrees_def insert_tuple_row_def map_of_or_insert1 simp del: apply_simps split: option.splits)

lemma agrees_row:
  assumes "agrees s a" and "map_of (row_solutions a) r = Some sol"
    and "row_chain (row_solutions s) (Some r) = Some p" and "mapm_snd (apply_to_type s) (fst p) = Some fs"
  shows "sol = \<lparr>row_fields = fs, row_tail = snd p\<rparr>"
  using assms unfolding agrees_def by fastforce

lemma agrees_tuple_row:
  assumes "agrees s a" and "map_of (tuple_row_solutions a) r = Some sol"
    and "row_chain (tuple_row_solutions s) (Some r) = Some p" and "mapm_snd (apply_to_type s) (fst p) = Some fs"
  shows "sol = \<lparr>row_fields = sort_key fst fs, row_tail = snd p\<rparr>"
  using assms unfolding agrees_def by fastforce

text \<open>Splitting what a chase has appended.\<close>

lemma mapm_snd_append: "mapm_snd f (xs @ ys) = Some zs \<longleftrightarrow>
    (\<exists>as bs. mapm_snd f xs = Some as \<and> mapm_snd f ys = Some bs \<and> zs = as @ bs)"
  unfolding mapm_snd_def by (induction xs arbitrary: zs) (auto simp: bind_eq_Some_conv)

lemma mapm_snd_fst: "mapm_snd f xs = Some ys \<Longrightarrow> map fst ys = map fst xs"
  unfolding mapm_snd_Some by (induction rule: list_all2_induct) auto

lemma extra_fields_append:
  assumes "map fst as = map fst gf" and "distinct (map fst (as @ bs))"
  shows "extra_fields gf (as @ bs) = bs"
proof -
  have "fst ` set as = fst ` set gf" using assms(1) by (metis list.set_map)
  then have "filter (\<lambda>p. fst p \<notin> fst ` set gf) as = []" by (auto simp: filter_empty_conv)
  moreover have "filter (\<lambda>p. fst p \<notin> fst ` set gf) bs = bs"
    using assms(2) \<open>fst ` set as = fst ` set gf\<close> by (auto simp: filter_id_conv)
  ultimately show ?thesis by (simp add: extra_fields_def)
qed

lemma mapm_snd_lookups:
  assumes "mapm_snd f gf = Some as" and "distinct (map fst cf)" and "set as \<subseteq> set cf"
  shows "\<forall>p \<in> set gf. \<exists>c. map_of cf (fst p) = Some c \<and> f (snd p) = Some c"
proof
  fix p assume "p \<in> set gf"
  with assms(1) obtain q where "q \<in> set as" "fst p = fst q" "f (snd p) = Some (snd q)"
    unfolding mapm_snd_Some list_all2_conv_all_nth in_set_conv_nth by metis
  with assms(2,3) show "\<exists>c. map_of cf (fst p) = Some c \<and> f (snd p) = Some c"
    by (intro exI [of _ "snd q"]) (metis map_of_is_SomeI prod.collapse subsetD)
qed

lemma partial_tuple_tuple:
  assumes "partial_tuple gs tail = TTuple cs"
  shows "tail = None" "sort_key fst gs = enumerate 0 cs" "map fst (sort_key fst gs) = [0..<length gs]"
proof -
  from assms have h: "tail = None" "map fst (sort_key fst gs) = [0..<length gs]" "cs = map snd (sort_key fst gs)"
    by (auto simp: partial_tuple_def Let_def split: if_splits)
  from h(1) show "tail = None" .
  from h(2) show "map fst (sort_key fst gs) = [0..<length gs]" .
  from h(2) have "enumerate 0 (map snd (sort_key fst gs)) = sort_key fst gs"
    by (metis enumerate_eq_zip length_map length_sort zip_map_fst_snd add_0)
  with h(3) show "sort_key fst gs = enumerate 0 cs" by simp
qed

section \<open>The walk over the two types\<close>

text \<open>What a step of the walk keeps and adds.\<close>

definition walked :: "substitution \<Rightarrow> substitution \<Rightarrow> substitution \<Rightarrow> bool" where
  "walked s a b \<longleftrightarrow> agrees s b \<and> grows a b"

definition matched :: "substitution \<Rightarrow> ('k \<times> ty) list \<Rightarrow> ('k \<times> ty) list \<Rightarrow> bool" where
  "matched s gf cf \<longleftrightarrow> (\<forall>p \<in> set gf. \<exists>c. map_of cf (fst p) = Some c \<and> apply_to_type s (snd p) = Some c \<and> plain c)"

lemma matchedI:
  assumes "mapm_snd (apply_to_type s) gf = Some as" and "distinct (map fst cf)" and "set as \<subseteq> set cf"
    and "\<forall>q \<in> set cf. plain (snd q)"
  shows "matched s gf cf"
  unfolding matched_def
proof
  fix q assume "q \<in> set gf"
  with mapm_snd_lookups [OF assms(1-3)] obtain u where "map_of cf (fst q) = Some u" "apply_to_type s (snd q) = Some u"
    by blast
  with assms(4) map_of_SomeD [of cf "fst q" u]
  show "\<exists>c. map_of cf (fst q) = Some c \<and> apply_to_type s (snd q) = Some c \<and> plain c" by auto
qed

lemma walked_row:
  assumes "walked s a b" and "row_chain (row_solutions s) (Some r) = Some p" and "mapm_snd (apply_to_type s) (fst p) = Some fs"
  shows "walked s a (insert_row r \<lparr>row_fields = fs, row_tail = snd p\<rparr> b)"
  using assms agrees_insert_row [OF _ assms(2,3)] by (auto simp: walked_def intro: grows_trans)

lemma walked_tuple_row:
  assumes "walked s a b" and "row_chain (tuple_row_solutions s) (Some r) = Some p" and "mapm_snd (apply_to_type s) (fst p) = Some fs"
  shows "walked s a (insert_tuple_row r \<lparr>row_fields = sort_key fst fs, row_tail = snd p\<rparr> b)"
  using assms agrees_insert_tuple_row [OF _ assms(2,3)] by (auto simp: walked_def intro: grows_trans)

lemma insert_solution_has: "map_of (solutions (insert_solution v t a)) v \<noteq> None"
  and insert_row_has: "map_of (row_solutions (insert_row r sol a)) r \<noteq> None"
  and insert_tuple_row_has: "map_of (tuple_row_solutions (insert_tuple_row r tsol a)) r \<noteq> None"
  by (auto simp: insert_solution_def insert_row_def insert_tuple_row_def map_of_or_insert1 split: option.splits)

lemma diff_agrees:
  "apply_to_type s g = Some c \<Longrightarrow> plain c \<Longrightarrow> agrees s a \<Longrightarrow>
     walked s a (diff_into g c a) \<and> covers (diff_into g c a) g"
  "list_all2 (\<lambda>g c. apply_to_type s g = Some c \<and> plain c) gs cs \<Longrightarrow> agrees s a \<Longrightarrow>
     walked s a (diff_list gs cs a) \<and> (\<forall>g \<in> set gs. covers (diff_list gs cs a) g)"
  "matched s lf lc \<Longrightarrow> agrees s a \<Longrightarrow>
     walked s a (diff_fields lf lc a) \<and> (\<forall>p \<in> set lf. covers (diff_fields lf lc a) (snd p))"
  "matched s tf tc \<Longrightarrow> agrees s a \<Longrightarrow>
     walked s a (diff_slots tf tc a) \<and> (\<forall>p \<in> set tf. covers (diff_slots tf tc a) (snd p))"
proof (induction g c a and gs cs a and lf lc a and tf tc a rule: diff_into_diff_list_diff_fields_diff_slots.induct)
  case (1 v c a)
  then show ?case using agrees_insert_solution [OF 1(3,1)] insert_solution_has [of v c a]
    by (simp add: walked_def)
next
  case (2 gp gr c a)
  from 2(3) obtain cp cr where c: "c = TFun cp cr" "mapm (apply_to_type s) gp = Some cp" "apply_to_type s gr = Some cr"
    by (auto simp: bind_eq_Some_conv)
  let ?m = "diff_list gp cp a"
  from c(2) 2(4) have l: "list_all2 (\<lambda>g c. apply_to_type s g = Some c \<and> plain c) gp cp"
    unfolding mapm_Some c(1) by (auto simp: list_all2_conv_all_nth)
  from 2(1) [OF c(1) l 2(5)] have m: "walked s a ?m" "\<forall>g \<in> set gp. covers ?m g" by auto
  from 2(2) [OF c(1) c(3)] 2(4) m c(1) have "walked s ?m (diff_into gr cr ?m)" "covers (diff_into gr cr ?m) gr"
    by (auto simp: walked_def)
  with m c(1) show ?case by (auto simp: walked_def intro: grows_trans covers_grows)
next
  case (3 g c a)
  then show ?case by (auto simp: bind_eq_Some_conv)
next
  case (4 gk gv c a)
  from 4(3) obtain ck cv where c: "c = TDict ck cv" "apply_to_type s gk = Some ck" "apply_to_type s gv = Some cv"
    by (auto simp: bind_eq_Some_conv)
  let ?m = "diff_into gk ck a"
  from 4(1) [OF c(1) c(2)] 4(4,5) c(1) have m: "walked s a ?m" "covers ?m gk" by auto
  from 4(2) [OF c(1) c(3)] 4(4) m c(1) have "walked s ?m (diff_into gv cv ?m)" "covers (diff_into gv cv ?m) gv"
    by (auto simp: walked_def)
  with m c(1) show ?case by (auto simp: walked_def intro: grows_trans covers_grows)
next
  case (5 g c a)
  then show ?case by (auto simp: bind_eq_Some_conv)
next
  case (6 gs c a)
  from 6(2) obtain cs where c: "c = TTuple cs" "mapm (apply_to_type s) gs = Some cs" by (auto simp: bind_eq_Some_conv)
  from c(2) 6(3) have l: "list_all2 (\<lambda>g c. apply_to_type s g = Some c \<and> plain c) gs cs"
    unfolding mapm_Some c(1) by (auto simp: list_all2_conv_all_nth)
  from 6(1) [OF c(1) l 6(4)] c(1) show ?case by simp
next
  case (7 n gs c a)
  from 7(2) obtain cs where c: "c = TEnum n cs" "mapm (apply_to_type s) gs = Some cs" by (auto simp: bind_eq_Some_conv)
  from c(2) 7(3) have l: "list_all2 (\<lambda>g c. apply_to_type s g = Some c \<and> plain c) gs cs"
    unfolding mapm_Some c(1) by (auto simp: list_all2_conv_all_nth)
  from 7(1) [OF c(1) l 7(4)] c(1) show ?case by simp
next
  case (8 gf rest c a)
  from 8(2) obtain p fs where p: "row_chain (row_solutions s) rest = Some p"
    and fs: "mapm_snd (apply_to_type s) (gf @ fst p) = Some fs" and c: "c = TRecord fs (snd p)"
    by (auto simp: bind_eq_Some_conv)
  from fs obtain as bs where as: "mapm_snd (apply_to_type s) gf = Some as"
    and bs: "mapm_snd (apply_to_type s) (fst p) = Some bs" and fsc: "fs = as @ bs" by (auto simp: mapm_snd_append)
  from 8(3) c have pl: "distinct (map fst fs)" "\<forall>q \<in> set fs. plain (snd q)" by simp_all
  have "matched s gf fs" by (rule matchedI [OF as pl(1) _ pl(2)]) (simp add: fsc)
  from 8(1) [OF c this 8(4)] have m: "walked s a (diff_fields gf fs a)" "\<forall>q \<in> set gf. covers (diff_fields gf fs a) (snd q)" by auto
  show ?case
  proof (cases rest)
    case None
    with m c show ?thesis by simp
  next
    case (Some r)
    have ex: "extra_fields gf fs = bs"
      unfolding fsc by (rule extra_fields_append [OF mapm_snd_fst [OF as]]) (use pl(1) fsc in simp)
    from walked_row [OF m(1) _ bs, of r] p Some
    have "walked s a (insert_row r \<lparr>row_fields = bs, row_tail = snd p\<rparr> (diff_fields gf fs a))" by simp
    with m c Some ex show ?thesis using insert_row_has
      by (auto intro: covers_grows [OF _ insert_grows(2)])
  qed
next
  case (9 gf rest c a)
  from 9(3) obtain p fs where p: "row_chain (tuple_row_solutions s) rest = Some p"
    and fs: "mapm_snd (apply_to_type s) (gf @ fst p) = Some fs" and c: "c = partial_tuple fs (snd p)"
    by (auto simp: bind_eq_Some_conv)
  from fs obtain as bs where as: "mapm_snd (apply_to_type s) gf = Some as"
    and bs: "mapm_snd (apply_to_type s) (fst p) = Some bs" and fsc: "fs = as @ bs" by (auto simp: mapm_snd_append)
  from c 9(4) obtain cs where cs: "c = TTuple cs" by (auto simp: partial_tuple_def Let_def split: if_splits)
  let ?cf = "enumerate 0 cs"
  from c cs partial_tuple_tuple [of fs "snd p" cs] have t: "snd p = None" "sort_key fst fs = ?cf"
    "map fst (sort_key fst fs) = [0..<length fs]" by auto
  have dist: "distinct (map fst (sort_key fst fs))" unfolding t(3) by simp
  then have dist': "distinct (map fst fs)" by (simp add: distinct_map)
  have pl: "\<forall>q \<in> set ?cf. plain (snd q)" using 9(4) cs by (auto simp: in_set_enumerate_eq)
  have sub: "set as \<subseteq> set ?cf" unfolding t(2) [symmetric] by (simp add: fsc)
  have "matched s gf ?cf" by (rule matchedI [OF as _ sub pl]) (use dist t(2) in simp)
  from 9(1) [OF cs _ this 9(5)] have m: "walked s a (diff_slots gf ?cf a)" "\<forall>q \<in> set gf. covers (diff_slots gf ?cf a) (snd q)" by auto
  show ?case
  proof (cases rest)
    case None
    with m cs show ?thesis by simp
  next
    case (Some r)
    have "extra_fields gf fs = bs"
      unfolding fsc by (rule extra_fields_append [OF mapm_snd_fst [OF as]]) (use dist' fsc in simp)
    then have ex: "extra_fields gf ?cf = sort_key fst bs"
      unfolding t(2) [symmetric] extra_fields_def filter_sort by simp
    from walked_tuple_row [OF m(1) _ bs, of r] p Some t(1)
    have "walked s a (insert_tuple_row r \<lparr>row_fields = sort_key fst bs, row_tail = None\<rparr> (diff_slots gf ?cf a))" by simp
    with m cs Some ex show ?thesis using insert_tuple_row_has
      by (auto simp: Let_def intro: covers_grows [OF _ insert_grows(3)])
  qed
next
  case (22 n g gf cf a)
  from 22(3) obtain c where c: "map_of cf n = Some c" "apply_to_type s g = Some c" "plain c" and rest: "matched s gf cf"
    by (auto simp: matched_def)
  let ?m = "diff_into g c a"
  from 22(1) [OF c 22(4)] have m: "walked s a ?m" "covers ?m g" by auto
  from m(1) have "agrees s ?m" by (simp add: walked_def)
  with 22(2) [OF rest] c(1) have r: "walked s ?m (diff_fields gf cf ?m)" "\<forall>p \<in> set gf. covers (diff_fields gf cf ?m) (snd p)"
    by simp_all
  with m c(1) show ?case by (simp add: walked_def) (meson covers_grows grows_trans)
next
  case (24 n g gf cf a)
  from 24(3) obtain c where c: "map_of cf n = Some c" "apply_to_type s g = Some c" "plain c" and rest: "matched s gf cf"
    by (auto simp: matched_def)
  let ?m = "diff_into g c a"
  from 24(1) [OF c 24(4)] have m: "walked s a ?m" "covers ?m g" by auto
  from m(1) have "agrees s ?m" by (simp add: walked_def)
  with 24(2) [OF rest] c(1) have r: "walked s ?m (diff_slots gf cf ?m)" "\<forall>p \<in> set gf. covers (diff_slots gf cf ?m) (snd p)"
    by simp_all
  with m c(1) show ?case by (simp add: walked_def) (meson covers_grows grows_trans)
qed (auto simp: walked_def matched_def list_all2_Cons1 split: list.splits intro: grows_trans covers_grows)

section \<open>Applying what was recovered\<close>

text \<open>A substitution leaves a plain type alone that has none of its variables.\<close>

definition untouched :: "substitution \<Rightarrow> ty \<Rightarrow> bool" where
  "untouched a t \<longleftrightarrow> dom (map_of (solutions a)) \<inter> free_vars t = {}
     \<and> dom (map_of (row_solutions a)) \<inter> free_row_vars t = {}"

lemma untouched_simps [simp]:
  "untouched a (TVar n) \<longleftrightarrow> map_of (solutions a) n = None"
  "untouched a (TEnum e ts) \<longleftrightarrow> (\<forall>t \<in> set ts. untouched a t)"
  "untouched a (TTuple ts) \<longleftrightarrow> (\<forall>t \<in> set ts. untouched a t)"
  "untouched a (TFun ts t) \<longleftrightarrow> (\<forall>t \<in> set ts. untouched a t) \<and> untouched a t"
  "untouched a (TList t) \<longleftrightarrow> untouched a t"
  "untouched a (TRef t) \<longleftrightarrow> untouched a t"
  "untouched a (TDict k t) \<longleftrightarrow> untouched a k \<and> untouched a t"
  unfolding untouched_def free_vars.simps free_row_vars.simps by (simp add: domIff, blast+)

lemma untouched_record [simp]:
  "untouched a (TRecord fs rest) \<longleftrightarrow> (\<forall>p \<in> set fs. untouched a (snd p))
     \<and> (\<forall>r. rest = Some r \<longrightarrow> map_of (row_solutions a) r = None)"
proof -
  have "dom (map_of (row_solutions a)) \<inter> set_option rest = {}
      \<longleftrightarrow> (\<forall>r. rest = Some r \<longrightarrow> map_of (row_solutions a) r = None)" by (cases rest) auto
  then show ?thesis unfolding untouched_def free_vars.simps free_row_vars.simps by blast
qed

lemma mapm_id: "(\<And>t. t \<in> set ts \<Longrightarrow> f t = Some t) \<Longrightarrow> mapm f ts = Some ts"
  unfolding mapm_Some by (simp add: list_all2_same)

lemma mapm_snd_id: "(\<And>p. p \<in> set fs \<Longrightarrow> f (snd p) = Some (snd p)) \<Longrightarrow> mapm_snd f fs = Some fs"
  unfolding mapm_snd_Some by (simp add: list_all2_same)

lemma apply_untouched: "plain t \<Longrightarrow> untouched a t \<Longrightarrow> apply_to_type a t = Some t"
proof (induction t rule: plain.induct)
  case (7 fs rest)
  then have "row_chain (row_solutions a) rest = Some ([], rest)" by (cases rest) auto
  moreover have "mapm_snd (apply_to_type a) fs = Some fs" by (rule mapm_snd_id) (use 7 in auto)
  ultimately show ?case by simp
next
  case (2 n ts)
  then have "mapm (apply_to_type a) ts = Some ts" by (intro mapm_id) auto
  then show ?case by simp
next
  case (6 ts)
  then have "mapm (apply_to_type a) ts = Some ts" by (intro mapm_id) auto
  then show ?case by simp
next
  case (8 ts t)
  then have "mapm (apply_to_type a) ts = Some ts" by (intro mapm_id) auto
  with 8 show ?case by auto
qed auto

lemma mapm_transfer:
  assumes "mapm f ts = Some us" and "\<And>t u. t \<in> set ts \<Longrightarrow> u \<in> set us \<Longrightarrow> f t = Some u \<Longrightarrow> g t = Some u"
  shows "mapm g ts = Some us"
  using assms(1) unfolding mapm_Some by (rule list.rel_mono_strong) (rule assms(2))

lemma mapm_snd_transfer:
  assumes "mapm_snd f fs = Some gs"
    and "\<And>p q. p \<in> set fs \<Longrightarrow> q \<in> set gs \<Longrightarrow> f (snd p) = Some (snd q) \<Longrightarrow> g (snd p) = Some (snd q)"
  shows "mapm_snd g fs = Some gs"
  using assms(1) unfolding mapm_snd_Some by (rule list.rel_mono_strong) (use assms(2) in blast)

lemma sort_key_append_sort: "distinct (map k (xs @ ys)) \<Longrightarrow> sort_key k (xs @ sort_key k ys) = sort_key k (xs @ ys)"
  by (rule sort_key_eq_sort_key) (simp, simp only: mset_append mset_sort set_append set_sort distinct_map map_append [symmetric])

lemma apply_agrees:
  "apply_to_type s g = Some c \<Longrightarrow> agrees s a \<Longrightarrow> covers a g \<Longrightarrow> plain c \<Longrightarrow> untouched a c \<Longrightarrow>
     apply_to_type a g = Some c"
proof (induction a g arbitrary: c rule: covers.induct)
  case (1 a n)
  then obtain t where "map_of (solutions a) n = Some t" by auto
  with 1 show ?case by (auto simp: agrees_def)
next
  case (2 a gf rest)
  from 2(2) obtain p fs where p: "row_chain (tuple_row_solutions s) rest = Some p"
    and fs: "mapm_snd (apply_to_type s) (gf @ fst p) = Some fs" and c: "c = partial_tuple fs (snd p)"
    by (auto simp: bind_eq_Some_conv)
  from fs obtain as bs where as: "mapm_snd (apply_to_type s) gf = Some as"
    and bs: "mapm_snd (apply_to_type s) (fst p) = Some bs" and fsc: "fs = as @ bs" by (auto simp: mapm_snd_append)
  from c 2(5) obtain cs where cs: "c = TTuple cs" by (auto simp: partial_tuple_def Let_def split: if_splits)
  from c cs partial_tuple_tuple [of fs "snd p" cs] have t: "snd p = None" "sort_key fst fs = enumerate 0 cs"
    "map fst (sort_key fst fs) = [0..<length fs]" by auto
  have dist: "distinct (map fst fs)"
    using t(3) by (metis distinct_map distinct_sort distinct_upt set_sort)
  have "set fs \<subseteq> set (enumerate 0 cs)" unfolding t(2) [symmetric] by simp
  then have part: "snd q \<in> set cs" if "q \<in> set as \<or> q \<in> set bs" for q
    using that fsc by (cases q) (auto simp: in_set_enumerate_eq)
  have old: "mapm_snd (apply_to_type a) gf = Some as"
  proof (rule mapm_snd_transfer [OF as])
    fix p q assume h: "p \<in> set gf" "q \<in> set as" "apply_to_type s (snd p) = Some (snd q)"
    with 2(4-6) cs part [of q] show "apply_to_type a (snd p) = Some (snd q)" by (intro 2(1) [OF h(1,3) 2(3)]) auto
  qed
  show ?case
  proof (cases rest)
    case None
    with old p bs c fsc show ?thesis by (auto simp: mapm_snd_def)
  next
    case (Some r)
    with 2(4) obtain sol where sol: "map_of (tuple_row_solutions a) r = Some sol" by auto
    have se: "sol = \<lparr>row_fields = sort_key fst bs, row_tail = None\<rparr>"
      by (rule agrees_tuple_row [OF 2(3) sol _ bs, unfolded t(1)]) (use p Some in simp)
    with sol have ch: "row_chain (tuple_row_solutions a) rest = Some (sort_key fst bs, None)" by (simp add: Some)
    have "mapm_snd (apply_to_type a) (sort_key fst bs) = Some (sort_key fst bs)"
      by (rule mapm_snd_id) (use 2(5,6) cs part in \<open>auto intro!: apply_untouched\<close>)
    with old have "mapm_snd (apply_to_type a) (gf @ sort_key fst bs) = Some (as @ sort_key fst bs)" by (auto simp: mapm_snd_append)
    with ch have "apply_to_type a (TPartialTuple gf rest) = Some (partial_tuple (as @ sort_key fst bs) None)" by simp
    also have "partial_tuple (as @ sort_key fst bs) None = partial_tuple fs None"
    proof -
      have "as @ sort_key fst bs = [] \<longleftrightarrow> fs = []" by (simp add: fsc flip: length_0_conv)
      then show ?thesis using sort_key_append_sort [of fst as bs] dist by (simp add: partial_tuple_def fsc)
    qed
    finally show ?thesis using c t(1) by simp
  qed
next
  case (8 a gf rest)
  from 8(2) obtain p fs where p: "row_chain (row_solutions s) rest = Some p"
    and fs: "mapm_snd (apply_to_type s) (gf @ fst p) = Some fs" and c: "c = TRecord fs (snd p)"
    by (auto simp: bind_eq_Some_conv)
  from fs obtain as bs where as: "mapm_snd (apply_to_type s) gf = Some as"
    and bs: "mapm_snd (apply_to_type s) (fst p) = Some bs" and fsc: "fs = as @ bs" by (auto simp: mapm_snd_append)
  have old: "mapm_snd (apply_to_type a) gf = Some as"
    by (rule mapm_snd_transfer [OF as]) (use 8 c fsc in auto)
  show ?case
  proof (cases rest)
    case None
    with old p bs c fsc show ?thesis by (auto simp: mapm_snd_def)
  next
    case (Some r)
    with 8(4) obtain sol where sol: "map_of (row_solutions a) r = Some sol" by auto
    have se: "sol = \<lparr>row_fields = bs, row_tail = snd p\<rparr>"
      by (rule agrees_row [OF 8(3) sol _ bs]) (use p Some in simp)
    have "row_chain (row_solutions a) (snd p) = Some ([], snd p)"
      using 8(6) c by (cases "snd p") auto
    with sol se have ch: "row_chain (row_solutions a) rest = Some (bs, snd p)" by (simp add: Some)
    have "mapm_snd (apply_to_type a) bs = Some bs"
      by (rule mapm_snd_id) (use 8(5,6) c fsc in \<open>auto intro: apply_untouched\<close>)
    with old have "mapm_snd (apply_to_type a) (gf @ bs) = Some fs" by (auto simp: mapm_snd_append fsc)
    with ch c show ?thesis by simp
  qed
next
  case (3 a n ts)
  from 3(2) obtain us where c: "c = TEnum n us" "mapm (apply_to_type s) ts = Some us" by (auto simp: bind_eq_Some_conv)
  have "mapm (apply_to_type a) ts = Some us" by (rule mapm_transfer [OF c(2)]) (use 3 c(1) in auto)
  with c show ?case by simp
next
  case (7 a ts)
  from 7(2) obtain us where c: "c = TTuple us" "mapm (apply_to_type s) ts = Some us" by (auto simp: bind_eq_Some_conv)
  have "mapm (apply_to_type a) ts = Some us" by (rule mapm_transfer [OF c(2)]) (use 7 c(1) in auto)
  with c show ?case by simp
next
  case (9 a ts t)
  from 9(3) obtain us u where c: "c = TFun us u" "mapm (apply_to_type s) ts = Some us" "apply_to_type s t = Some u"
    by (auto simp: bind_eq_Some_conv)
  have "mapm (apply_to_type a) ts = Some us" by (rule mapm_transfer [OF c(2)]) (use 9 c(1) in auto)
  moreover have "apply_to_type a t = Some u" by (rule 9) (use 9 c in auto)
  ultimately show ?case using c by simp
qed (auto simp: bind_eq_Some_conv)

text \<open>The entries recovered are for variables of the generic type.\<close>

definition within :: "nat set \<Rightarrow> nat set \<Rightarrow> substitution \<Rightarrow> bool" where
  "within V R a \<longleftrightarrow> dom (map_of (solutions a)) \<subseteq> V \<and> dom (map_of (row_solutions a)) \<subseteq> R"

lemma within_insert:
  "within V R a \<Longrightarrow> v \<in> V \<Longrightarrow> within V R (insert_solution v t a)"
  "within V R a \<Longrightarrow> r \<in> R \<Longrightarrow> within V R (insert_row r sol a)"
  "within V R a \<Longrightarrow> within V R (insert_tuple_row r tsol a)"
  by (auto simp: within_def insert_solution_def insert_row_def insert_tuple_row_def map_of_or_insert1 split: option.splits if_splits)

lemma free_all_subset: "free_all ts \<subseteq> V \<longleftrightarrow> (\<forall>t \<in> set ts. free_vars t \<subseteq> V)"
  by (auto simp: free_all_def simp del: free_all_simps)

lemma diff_within:
  "within V R a \<Longrightarrow> free_vars g \<subseteq> V \<Longrightarrow> free_row_vars g \<subseteq> R \<Longrightarrow> within V R (diff_into g c a)"
  "within V R a \<Longrightarrow> \<forall>g \<in> set gs. free_vars g \<subseteq> V \<and> free_row_vars g \<subseteq> R \<Longrightarrow> within V R (diff_list gs cs a)"
  "within V R a \<Longrightarrow> \<forall>p \<in> set lf. free_vars (snd p) \<subseteq> V \<and> free_row_vars (snd p) \<subseteq> R \<Longrightarrow> within V R (diff_fields lf lc a)"
  "within V R a \<Longrightarrow> \<forall>p \<in> set tf. free_vars (snd p) \<subseteq> V \<and> free_row_vars (snd p) \<subseteq> R \<Longrightarrow> within V R (diff_slots tf tc a)"
proof (induction g c a and gs cs a and lf lc a and tf tc a rule: diff_into_diff_list_diff_fields_diff_slots.induct)
  case (8 gf rest c a)
  show ?case
  proof (cases c)
    case (TRecord cf tail)
    from 8 TRecord have "within V R (diff_fields gf cf a)" by (auto simp: free_all_subset)
    with TRecord 8(4) show ?thesis by (cases rest) (auto simp: Let_def intro!: within_insert)
  qed (use 8(2) in simp_all)
next
  case (9 gf rest c a)
  show ?case
  proof (cases c)
    case (TTuple cs)
    have "within V R (diff_slots gf (enumerate 0 cs) a)"
      by (rule 9(1) [OF TTuple refl 9(3)]) (use 9(4,5) in \<open>auto simp: free_all_subset\<close>)
    with TTuple show ?thesis by (cases rest) (auto simp: Let_def intro!: within_insert)
  next
    case (TPartialTuple cf tail)
    with 9 show ?thesis by (auto simp: free_all_subset)
  qed (use 9(3) in simp_all)
qed (auto simp: free_all_subset UN_subset_iff split: ty.splits list.splits option.splits intro: within_insert)

text \<open>
  C12. Round trip of the substitution between two congruent types: when a type \<open>c\<close> is an instance
  of \<open>g\<close> under any substitution, has no variable of \<open>g\<close>, knows all its tuples and repeats no
  record label, applying \<open>congruent_diff g c\<close> to \<open>g\<close> gives \<open>c\<close> back. Record and tuple tails
  included: monomorphization re-lowers a body under exactly this substitution.
\<close>

theorem congruent_diff_roundtrip:
  assumes "apply_to_type s g = Some c" and "plain c"
    and "free_vars c \<inter> free_vars g = {}" and "free_row_vars c \<inter> free_row_vars g = {}"
  shows "apply_to_type (congruent_diff g c) g = Some c"
proof -
  have d: "agrees s (congruent_diff g c)" "covers (congruent_diff g c) g"
    using diff_agrees(1) [OF assms(1,2) agrees_empty] by (simp_all add: congruent_diff_def walked_def)
  have "within (free_vars g) (free_row_vars g) (congruent_diff g c)"
    unfolding congruent_diff_def by (rule diff_within) (simp_all add: within_def empty_subst_def)
  with assms(3,4) have "untouched (congruent_diff g c) c" by (auto simp: untouched_def within_def)
  with apply_agrees [OF assms(1) d assms(2)] show ?thesis .
qed

text \<open>A generic pair of an open record and an open tuple, recovered from an instance.\<close>

theorem congruent_diff_roundtrip_witness:
  "let g = TFun [TRecord [(''x'', TVar 0)] (Some 1)] (TPartialTuple [(1, TVar 0)] (Some 2));
       c = TFun [TRecord [(''x'', TInt), (''y'', TBool)] (Some 7)] (TTuple [TString, TInt])
   in apply_to_type (congruent_diff g c) g = Some c"
proof -
  let ?g = "TFun [TRecord [(''x'', TVar 0)] (Some 1)] (TPartialTuple [(1, TVar 0)] (Some 2))"
  let ?c = "TFun [TRecord [(''x'', TInt), (''y'', TBool)] (Some 7)] (TTuple [TString, TInt])"
  let ?s = "\<lparr>solutions = [(0, TInt)], row_solutions = [(1, \<lparr>row_fields = [(''y'', TBool)], row_tail = Some 7\<rparr>)],
      tuple_row_solutions = [(2, \<lparr>row_fields = [(0, TString)], row_tail = None\<rparr>)]\<rparr>"
  have "apply_to_type ?s ?g = Some ?c" by code_simp
  from congruent_diff_roundtrip [OF this] show ?thesis by simp
qed

text \<open>
  An open tuple whose instance is open too is not recovered: the tail of the generic tuple gets
  no entry, although the record case beside it gives one.
\<close>

lemma open_tuple_not_recovered:
  "let g = TPartialTuple [(1, TVar 0)] (Some 2); c = TPartialTuple [(1, TInt), (0, TString)] (Some 7);
       s = \<lparr>solutions = [(0, TInt)], row_solutions = [],
         tuple_row_solutions = [(2, \<lparr>row_fields = [(0, TString)], row_tail = Some 7\<rparr>)]\<rparr>
   in apply_to_type s g = Some c \<and> apply_to_type (congruent_diff g c) g \<noteq> Some c"
  by code_simp

end
