(* ===== verification/Unify.thy ===== *)
theory Unify
  imports Substitution
begin

text \<open>
  The solver of equality constraints: \<open>unify_eq_constraints\<close> and its helpers in
  compiler/src/analyzer.rs. The three maps the code mutates (\<open>bindings\<close>, \<open>rows\<close>, \<open>tuple_rows\<close>)
  are chained: an entry may mention variables bound by other entries. They are kept as one
  \<open>substitution\<close>. The worklist is a stack, its top the head of the list.

  A walk through chained entries may run forever, as may the worklist loop: they are partial
  functions, and \<open>None\<close> is a run that gives no result.
\<close>

section \<open>Chained maps\<close>

partial_function (option) resolve_head :: "(nat \<times> ty) list \<Rightarrow> ty \<Rightarrow> ty option" where
  "resolve_head bs t =
     (case t of
        TVar n \<Rightarrow> (case map_of bs n of Some u \<Rightarrow> resolve_head bs u | None \<Rightarrow> Some (TVar n))
      | _ \<Rightarrow> Some t)"

declare resolve_head.simps [code]

text \<open>\<open>iter().any\<close> over calls that may not return.\<close>

fun anym :: "('a \<Rightarrow> bool option) \<Rightarrow> 'a list \<Rightarrow> bool option" where
  "anym f [] = Some False"
| "anym f (x # xs) = Option.bind (f x) (\<lambda>b. if b then Some True else anym f xs)"

lemma anym_mono [partial_function_mono]:
  assumes "\<And>x. mono_option (\<lambda>f. g f x)"
  shows "mono_option (\<lambda>f. anym (g f) xs)"
proof (induction xs)
  case Nil show ?case by (simp add: option.const_mono)
next
  case (Cons x xs)
  show ?case unfolding anym.simps by (intro bind_mono assms Cons option.const_mono if_mono)
qed

partial_function (option) occurs_in :: "(nat \<times> ty) list \<Rightarrow> nat \<Rightarrow> ty \<Rightarrow> bool option" where
  "occurs_in bs v t =
     Option.bind (resolve_head bs t) (\<lambda>head.
       case head of
         TVar n \<Rightarrow> Some (n = v)
       | TFun ps r \<Rightarrow> Option.bind (anym (\<lambda>p. occurs_in bs v p) ps) (\<lambda>b. if b then Some True else occurs_in bs v r)
       | TList e \<Rightarrow> occurs_in bs v e
       | TRef e \<Rightarrow> occurs_in bs v e
       | TDict k u \<Rightarrow> Option.bind (occurs_in bs v k) (\<lambda>b. if b then Some True else occurs_in bs v u)
       | TTuple es \<Rightarrow> anym (\<lambda>e. occurs_in bs v e) es
       | TEnum n es \<Rightarrow> anym (\<lambda>e. occurs_in bs v e) es
       | TPartialTuple fs rest \<Rightarrow> anym (\<lambda>p. occurs_in bs v (snd p)) fs
       | TRecord fs rest \<Rightarrow> anym (\<lambda>p. occurs_in bs v (snd p)) fs
       | _ \<Rightarrow> Some False)"

declare occurs_in.simps [code]

partial_function (option) deep_resolve :: "substitution \<Rightarrow> ty \<Rightarrow> ty option" where
  "deep_resolve s t =
     (case t of
        TVar n \<Rightarrow> (case map_of (solutions s) n of Some u \<Rightarrow> deep_resolve s u | None \<Rightarrow> Some (TVar n))
      | TEnum n ts \<Rightarrow> Option.bind (mapm (\<lambda>u. deep_resolve s u) ts) (\<lambda>us. Some (TEnum n us))
      | TFun ts r \<Rightarrow>
          Option.bind (mapm (\<lambda>u. deep_resolve s u) ts) (\<lambda>us.
            Option.bind (deep_resolve s r) (\<lambda>r'. Some (TFun us r')))
      | TPartialTuple fs rest \<Rightarrow>
          Option.bind (row_chain (tuple_row_solutions s) rest) (\<lambda>p.
            Option.bind (mapm_snd (\<lambda>u. deep_resolve s u) (fs @ fst p)) (\<lambda>gs.
              Some (partial_tuple gs (snd p))))
      | TTuple ts \<Rightarrow> Option.bind (mapm (\<lambda>u. deep_resolve s u) ts) (\<lambda>us. Some (TTuple us))
      | TList u \<Rightarrow> Option.bind (deep_resolve s u) (\<lambda>u'. Some (TList u'))
      | TDict k u \<Rightarrow>
          Option.bind (deep_resolve s k) (\<lambda>k'.
            Option.bind (deep_resolve s u) (\<lambda>u'. Some (TDict k' u')))
      | TRef u \<Rightarrow> Option.bind (deep_resolve s u) (\<lambda>u'. Some (TRef u'))
      | TRecord fs rest \<Rightarrow>
          Option.bind (row_chain (row_solutions s) rest) (\<lambda>p.
            Option.bind (mapm_snd (\<lambda>u. deep_resolve s u) (fs @ fst p)) (\<lambda>gs.
              Some (TRecord gs (snd p))))
      | _ \<Rightarrow> Some t)"

declare deep_resolve.simps [code]

section \<open>The state of the solver\<close>

text \<open>The kinds of \<open>AnalysisErrorKind\<close> the solver reports.\<close>

datatype unify_error =
    TypeMismatch (expected: ty) (found: ty)
  | RecursiveUnification ty
  | ParamCountMismatch nat nat
  | TupleSizeMismatch nat nat
  | TupleIndexNotPresent nat ty
  | RecordFieldNotPresent string ty

type_synonym work_item = "ty \<times> ty \<times> range"

text \<open>
  \<open>turn\<close> counts the steps of the loop. It stands for nothing in the code: the order in which a
  \<open>HashMap\<close> hands out its keys may differ each time one is built, so it is a parameter that may
  look at \<open>turn\<close>.
\<close>

record solver =
  chained :: substitution
  work :: "work_item list"
  next_var :: nat
  diags :: "(range \<times> unify_error) list"
  turn :: nat

record hash_orders =
  label_order :: "nat \<Rightarrow> string list \<Rightarrow> string list"
  index_order :: "nat \<Rightarrow> nat list \<Rightarrow> nat list"

definition permutes_keys :: "hash_orders \<Rightarrow> bool" where
  "permutes_keys h \<longleftrightarrow> (\<forall>n ks. mset (label_order h n ks) = mset ks) \<and> (\<forall>n ks. mset (index_order h n ks) = mset ks)"

lemma permutes_keysD:
  assumes "permutes_keys h"
  shows "set (label_order h n ks) = set ks" "set (index_order h n is) = set is"
    "distinct ks \<Longrightarrow> distinct (label_order h n ks)" "distinct is \<Longrightarrow> distinct (index_order h n is)"
  using assms mset_eq_setD mset_eq_imp_distinct_iff unfolding permutes_keys_def by blast+

definition error_at :: "range \<Rightarrow> unify_error \<Rightarrow> solver \<Rightarrow> solver" where
  "error_at r e st = st\<lparr>diags := diags st @ [(r, e)]\<rparr>"

text \<open>Pushing several items, the last one on top.\<close>

definition push_all :: "work_item list \<Rightarrow> solver \<Rightarrow> solver" where
  "push_all xs st = st\<lparr>work := rev xs @ work st\<rparr>"

definition bind_var :: "nat \<Rightarrow> ty \<Rightarrow> solver \<Rightarrow> solver" where
  "bind_var n t st = st\<lparr>chained := (chained st)\<lparr>solutions := AList.update n t (solutions (chained st))\<rparr>\<rparr>"

definition bind_row :: "nat \<Rightarrow> row_solution \<Rightarrow> solver \<Rightarrow> solver" where
  "bind_row r sol st = st\<lparr>chained := (chained st)\<lparr>row_solutions := AList.update r sol (row_solutions (chained st))\<rparr>\<rparr>"

definition bind_tuple_row :: "nat \<Rightarrow> tuple_row_solution \<Rightarrow> solver \<Rightarrow> solver" where
  "bind_tuple_row r sol st =
     st\<lparr>chained := (chained st)\<lparr>tuple_row_solutions := AList.update r sol (tuple_row_solutions (chained st))\<rparr>\<rparr>"

definition new_row_var :: "solver \<Rightarrow> nat \<times> solver" where
  "new_row_var st = (next_var st, st\<lparr>next_var := next_var st + 1\<rparr>)"

section \<open>Rows\<close>

text \<open>
  The fields both sides have, by the last field of each name (\<open>map_1\<close> and \<open>map_2\<close> keep the last
  index), in the order the first map hands its keys out.
\<close>

definition last_field :: "('k \<times> ty) list \<Rightarrow> 'k \<Rightarrow> ty" where
  "last_field fs k = the (map_of (rev fs) k)"

definition shared_fields :: "('k list \<Rightarrow> 'k list) \<Rightarrow> ('k \<times> ty) list \<Rightarrow> ('k \<times> ty) list \<Rightarrow> (ty \<times> ty) list" where
  "shared_fields ord f1 f2 =
     map (\<lambda>k. (last_field f1 k, last_field f2 k)) (filter (\<lambda>k. k \<in> fst ` set f2) (ord (remdups (map fst f1))))"

definition push_shared :: "range \<Rightarrow> (ty \<times> ty) list \<Rightarrow> solver \<Rightarrow> solver" where
  "push_shared r ps = push_all (map (\<lambda>(a, b). (a, b, r)) ps)"

definition report_missing :: "range \<Rightarrow> ty \<Rightarrow> (string \<times> ty) list \<Rightarrow> solver \<Rightarrow> solver" where
  "report_missing r t = fold (\<lambda>p. error_at r (RecordFieldNotPresent (fst p) t))"

definition unify_records_worklist ::
    "hash_orders \<Rightarrow> (string \<times> ty) list \<Rightarrow> nat option \<Rightarrow> (string \<times> ty) list \<Rightarrow> nat option \<Rightarrow> range \<Rightarrow> solver \<Rightarrow> solver" where
  "unify_records_worklist h f1 t1 f2 t2 rng st =
     (let shared = shared_fields (label_order h (turn st)) f1 f2;
          only1 = extra_fields f2 f1;
          only2 = extra_fields f1 f2
      in case t1 of
           None \<Rightarrow>
             (case t2 of
                None \<Rightarrow>
                  if only1 = [] \<and> only2 = [] then push_shared rng shared st
                  else report_missing rng (TRecord f1 None) only2 (report_missing rng (TRecord f2 None) only1 st)
              | Some r2 \<Rightarrow>
                  if only2 = []
                  then bind_row r2 \<lparr>row_fields = only1, row_tail = None\<rparr> (push_shared rng shared st)
                  else report_missing rng (TRecord f1 None) only2 st)
         | Some r1 \<Rightarrow>
             (case t2 of
                None \<Rightarrow>
                  if only1 = []
                  then bind_row r1 \<lparr>row_fields = only2, row_tail = None\<rparr> (push_shared rng shared st)
                  else report_missing rng (TRecord f2 None) only1 st
              | Some r2 \<Rightarrow>
                  if r1 = r2
                  then (if only1 \<noteq> [] \<or> only2 \<noteq> []
                        then error_at rng (TypeMismatch (TRecord f2 (Some r2)) (TRecord f1 (Some r1))) st
                        else push_shared rng shared st)
                  else (case new_row_var st of (fresh, st1) \<Rightarrow>
                    bind_row r2 \<lparr>row_fields = only1, row_tail = Some fresh\<rparr>
                      (bind_row r1 \<lparr>row_fields = only2, row_tail = Some fresh\<rparr> (push_shared rng shared st1)))))"

definition unify_tuples_worklist ::
    "hash_orders \<Rightarrow> (nat \<times> ty) list \<Rightarrow> nat option \<Rightarrow> (nat \<times> ty) list \<Rightarrow> nat option \<Rightarrow> range \<Rightarrow> solver \<Rightarrow> solver" where
  "unify_tuples_worklist h f1 t1 f2 t2 rng st =
     (let shared = shared_fields (index_order h (turn st)) f1 f2;
          only1 = extra_fields f2 f1;
          only2 = extra_fields f1 f2;
          mismatch = error_at rng (TypeMismatch (TPartialTuple f2 t2) (TPartialTuple f1 t1))
      in case t1 of
           None \<Rightarrow>
             (case t2 of
                None \<Rightarrow> if only1 \<noteq> [] \<or> only2 \<noteq> [] then mismatch st else push_shared rng shared st
              | Some r2 \<Rightarrow>
                  if only2 \<noteq> [] then mismatch st
                  else bind_tuple_row r2 \<lparr>row_fields = only1, row_tail = None\<rparr> (push_shared rng shared st))
         | Some r1 \<Rightarrow>
             (case t2 of
                None \<Rightarrow>
                  if only1 \<noteq> [] then mismatch st
                  else bind_tuple_row r1 \<lparr>row_fields = only2, row_tail = None\<rparr> (push_shared rng shared st)
              | Some r2 \<Rightarrow>
                  if r1 = r2
                  then (if only1 \<noteq> [] \<or> only2 \<noteq> [] then mismatch st else push_shared rng shared st)
                  else (case new_row_var st of (fresh, st1) \<Rightarrow>
                    bind_tuple_row r2 \<lparr>row_fields = only1, row_tail = Some fresh\<rparr>
                      (bind_tuple_row r1 \<lparr>row_fields = only2, row_tail = Some fresh\<rparr> (push_shared rng shared st1)))))"

section \<open>One constraint\<close>

definition inner :: range where
  "inner = collapsed 0 0"

definition push_pairs :: "range \<Rightarrow> ty list \<Rightarrow> ty list \<Rightarrow> solver \<Rightarrow> solver" where
  "push_pairs r xs ys = push_all (rev (map (\<lambda>(x, y). (x, y, r)) (zip xs ys)))"

definition unify_elements :: "ty list \<Rightarrow> ty list \<Rightarrow> range \<Rightarrow> solver \<Rightarrow> solver" where
  "unify_elements e1 e2 rng st =
     (if length e1 \<noteq> length e2 then error_at rng (TupleSizeMismatch (length e2) (length e1)) st
      else push_pairs inner e1 e2 st)"

text \<open>A tuple against an open partial tuple: the known indices, then the tail.\<close>

definition known_index :: "ty list \<Rightarrow> range \<Rightarrow> nat \<times> ty \<Rightarrow> solver \<Rightarrow> solver" where
  "known_index es rng p st =
     (if length es \<le> fst p then error_at rng (TupleIndexNotPresent (fst p) (TTuple es)) st
      else push_all [(es ! fst p, snd p, inner)] st)"

definition close_partial :: "ty list \<Rightarrow> (nat \<times> ty) list \<Rightarrow> nat option \<Rightarrow> range \<Rightarrow> solver \<Rightarrow> solver" where
  "close_partial es fs rest rng st =
     (let st1 = fold (known_index es rng) fs st;
          out_of_bounds = (\<exists>p \<in> set fs. length es \<le> fst p)
      in case rest of
           None \<Rightarrow> st1
         | Some r \<Rightarrow>
             if out_of_bounds then st1
             else bind_tuple_row r \<lparr>row_fields = extra_fields fs (enumerate 0 es), row_tail = None\<rparr> st1)"

text \<open>Anything else than the two tuple shapes is \<open>unreachable!\<close> here.\<close>

definition unify_resolved_tuples :: "hash_orders \<Rightarrow> ty \<Rightarrow> ty \<Rightarrow> range \<Rightarrow> solver \<Rightarrow> solver option" where
  "unify_resolved_tuples h a b rng st =
     (case a of
        TTuple e1 \<Rightarrow>
          (case b of
             TTuple e2 \<Rightarrow> Some (unify_elements e1 e2 rng st)
           | TPartialTuple fs rest \<Rightarrow> Some (close_partial e1 fs rest rng st)
           | _ \<Rightarrow> None)
      | TPartialTuple f1 t1 \<Rightarrow>
          (case b of
             TTuple e2 \<Rightarrow> Some (close_partial e2 f1 t1 rng st)
           | TPartialTuple f2 t2 \<Rightarrow> Some (unify_tuples_worklist h f1 t1 f2 t2 rng st)
           | _ \<Rightarrow> None)
      | _ \<Rightarrow> None)"

definition unify_partial :: "hash_orders \<Rightarrow> ty \<Rightarrow> ty \<Rightarrow> range \<Rightarrow> solver \<Rightarrow> solver option" where
  "unify_partial h a b rng st =
     Option.bind (deep_resolve (chained st) a) (\<lambda>ra.
       Option.bind (deep_resolve (chained st) b) (\<lambda>rb. unify_resolved_tuples h ra rb rng st))"

definition unify_records :: "hash_orders \<Rightarrow> ty \<Rightarrow> ty \<Rightarrow> range \<Rightarrow> solver \<Rightarrow> solver option" where
  "unify_records h a b rng st =
     Option.bind (deep_resolve (chained st) a) (\<lambda>ra.
       Option.bind (deep_resolve (chained st) b) (\<lambda>rb.
         case ra of
           TRecord f1 t1 \<Rightarrow>
             (case rb of TRecord f2 t2 \<Rightarrow> Some (unify_records_worklist h f1 t1 f2 t2 rng st) | _ \<Rightarrow> None)
         | _ \<Rightarrow> None))"

definition bind_checked :: "nat \<Rightarrow> ty \<Rightarrow> range \<Rightarrow> solver \<Rightarrow> solver option" where
  "bind_checked n t rng st =
     Option.bind (occurs_in (solutions (chained st)) n t) (\<lambda>occurs.
       if occurs
       then Option.bind (deep_resolve (chained st) t) (\<lambda>u. Some (error_at rng (RecursiveUnification u) st))
       else Some (bind_var n t st))"

definition mismatch :: "ty \<Rightarrow> ty \<Rightarrow> range \<Rightarrow> solver \<Rightarrow> solver option" where
  "mismatch a b rng st =
     Option.bind (deep_resolve (chained st) b) (\<lambda>e.
       Option.bind (deep_resolve (chained st) a) (\<lambda>f. Some (error_at rng (TypeMismatch e f) st)))"

text \<open>
  Two types with resolved heads: neither is a variable, the first is not, any. In a release
  build the lengths of two enum argument lists are not compared.
\<close>

definition unify_shapes :: "hash_orders \<Rightarrow> ty \<Rightarrow> ty \<Rightarrow> range \<Rightarrow> solver \<Rightarrow> solver option" where
  "unify_shapes h a b rng st =
     (case a of
        TFun p1 r1 \<Rightarrow>
          (case b of
             TFun p2 r2 \<Rightarrow>
               Some (if length p1 \<noteq> length p2 then error_at rng (ParamCountMismatch (length p2) (length p1)) st
                     else push_pairs rng p1 p2 (push_all [(r1, r2, rng)] st))
           | _ \<Rightarrow> mismatch a b rng st)
      | TList x \<Rightarrow> (case b of TList y \<Rightarrow> Some (push_all [(x, y, inner)] st) | _ \<Rightarrow> mismatch a b rng st)
      | TRef x \<Rightarrow> (case b of TRef y \<Rightarrow> Some (push_all [(x, y, inner)] st) | _ \<Rightarrow> mismatch a b rng st)
      | TDict k1 v1 \<Rightarrow>
          (case b of
             TDict k2 v2 \<Rightarrow> Some (push_all [(v1, v2, inner), (k1, k2, inner)] st)
           | _ \<Rightarrow> mismatch a b rng st)
      | TTuple e1 \<Rightarrow>
          (case b of
             TTuple e2 \<Rightarrow> Some (unify_elements e1 e2 rng st)
           | TPartialTuple f2 t2 \<Rightarrow> unify_partial h a b rng st
           | _ \<Rightarrow> mismatch a b rng st)
      | TPartialTuple f1 t1 \<Rightarrow>
          (case b of
             TTuple e2 \<Rightarrow> unify_partial h a b rng st
           | TPartialTuple f2 t2 \<Rightarrow> unify_partial h a b rng st
           | _ \<Rightarrow> mismatch a b rng st)
      | TRecord f1 t1 \<Rightarrow>
          (case b of TRecord f2 t2 \<Rightarrow> unify_records h a b rng st | _ \<Rightarrow> mismatch a b rng st)
      | TEnum n1 as \<Rightarrow>
          (case b of
             TEnum n2 bs \<Rightarrow> if n1 = n2 then Some (push_pairs inner as bs st) else mismatch a b rng st
           | _ \<Rightarrow> mismatch a b rng st)
      | _ \<Rightarrow> if a = b then Some st else mismatch a b rng st)"

definition unify_right :: "hash_orders \<Rightarrow> ty \<Rightarrow> ty \<Rightarrow> range \<Rightarrow> solver \<Rightarrow> solver option" where
  "unify_right h a b rng st = (case b of TVar m \<Rightarrow> bind_checked m a rng st | _ \<Rightarrow> unify_shapes h a b rng st)"

definition unify_heads :: "hash_orders \<Rightarrow> ty \<Rightarrow> ty \<Rightarrow> range \<Rightarrow> solver \<Rightarrow> solver option" where
  "unify_heads h a b rng st =
     (case a of
        TVar n \<Rightarrow> if b = TVar n then Some st else bind_checked n b rng st
      | _ \<Rightarrow> unify_right h a b rng st)"

section \<open>The worklist\<close>

definition unify_step :: "hash_orders \<Rightarrow> work_item \<Rightarrow> solver \<Rightarrow> solver option" where
  "unify_step h w st =
     (case w of (a, b, rng) \<Rightarrow>
        Option.bind (resolve_head (solutions (chained st)) a) (\<lambda>a'.
          Option.bind (resolve_head (solutions (chained st)) b) (\<lambda>b'. unify_heads h a' b' rng st)))"

partial_function (option) unify_loop :: "hash_orders \<Rightarrow> solver \<Rightarrow> solver option" where
  "unify_loop h st =
     (case work st of
        [] \<Rightarrow> Some st
      | w # ws \<Rightarrow> Option.bind (unify_step h w (st\<lparr>work := ws, turn := turn st + 1\<rparr>)) (unify_loop h))"

declare unify_loop.simps [code]

text \<open>The chained maps as an idempotent substitution.\<close>

definition normal_row :: "substitution \<Rightarrow> 'k row_sol \<Rightarrow> 'k row_sol option" where
  "normal_row s sol =
     Option.bind (mapm_snd (deep_resolve s) (row_fields sol)) (\<lambda>fs. Some \<lparr>row_fields = fs, row_tail = row_tail sol\<rparr>)"

definition normal_form :: "substitution \<Rightarrow> substitution option" where
  "normal_form s =
     Option.bind (mapm_snd (deep_resolve s) (solutions s)) (\<lambda>sols.
       Option.bind (mapm_snd (normal_row s) (row_solutions s)) (\<lambda>rows.
         Option.bind (mapm_snd (normal_row s) (tuple_row_solutions s)) (\<lambda>trows.
           Some \<lparr>solutions = sols, row_solutions = rows, tuple_row_solutions = trows\<rparr>)))"

fun eq_item :: "tconstraint \<Rightarrow> work_item option" where
  "eq_item (CEq a b reason) = Some (a, b, reason_range reason)"
| "eq_item (CGen sc t) = None"
| "eq_item (CInst v t sink r) = None"
| "eq_item (CClass c) = None"

text \<open>
  The whole solver. Of the analyzer it uses and changes the counter of fresh variables and the
  diagnostics. A constraint that is no equality is \<open>unreachable!\<close>.
\<close>

definition unify_eq_constraints ::
    "hash_orders \<Rightarrow> tconstraint list \<Rightarrow> nat \<Rightarrow> (range \<times> unify_error) list \<Rightarrow> (substitution \<times> solver) option" where
  "unify_eq_constraints h cs next ds =
     Option.bind (mapm eq_item cs) (\<lambda>ws.
       Option.bind (unify_loop h \<lparr>chained = empty_subst, work = ws, next_var = next, diags = ds, turn = 0\<rparr>) (\<lambda>st.
         Option.bind (normal_form (chained st)) (\<lambda>s. Some (s, st))))"

end
