(* ===== verification/Kinds.thy ===== *)
theory Kinds
  imports Unify TypeSem Congruent
begin

text \<open>
  Kinds, a specification for the solver: an enum takes a fixed number of arguments, a row
  variable stands for fields other than a fixed set of labels (or indices), those named beside
  it wherever it is a tail. A row variable without an entry has not been handed out yet. This is a hypothesis on
  the constraints, not a fact about inference: a record or tuple access has a row variable of its own, but
  a record pattern with a named rest puts its row variable beside no field as well as beside
  the pattern's fields. Nothing here is code of the repository.
\<close>

section \<open>Kinds of types\<close>

record kinds =
  arity :: "string \<Rightarrow> nat"
  labels :: "nat \<Rightarrow> string set option"
  indices :: "nat \<Rightarrow> nat set option"

definition open_ok :: "('k set \<Rightarrow> bool) \<Rightarrow> (nat \<Rightarrow> 'k set option) \<Rightarrow> 'k set \<Rightarrow> nat option \<Rightarrow> bool" where
  "open_ok closed L K rest \<longleftrightarrow> (case rest of None \<Rightarrow> closed K | Some r \<Rightarrow> L r = Some K)"

definition fields_ok :: "('k set \<Rightarrow> bool) \<Rightarrow> (nat \<Rightarrow> 'k set option) \<Rightarrow> ('k \<times> ty) list \<Rightarrow> nat option \<Rightarrow> bool" where
  "fields_ok closed L fs rest \<longleftrightarrow> distinct (map fst fs) \<and> open_ok closed L (fst ` set fs) rest"

definition any_set :: "string set \<Rightarrow> bool" where
  "any_set K \<longleftrightarrow> True"

definition initial_set :: "nat set \<Rightarrow> bool" where
  "initial_set K \<longleftrightarrow> K = {..<card K}"

fun wk :: "kinds \<Rightarrow> ty \<Rightarrow> bool" where
  "wk K (TTuple ts) \<longleftrightarrow> (\<forall>t \<in> set ts. wk K t)"
| "wk K (TPartialTuple fs rest) \<longleftrightarrow> fs \<noteq> [] \<and> fields_ok initial_set (indices K) fs rest \<and> (\<forall>p \<in> set fs. wk K (snd p))"
| "wk K (TRecord fs rest) \<longleftrightarrow> fields_ok any_set (labels K) fs rest \<and> (\<forall>p \<in> set fs. wk K (snd p))"
| "wk K (TFun ts t) \<longleftrightarrow> (\<forall>t \<in> set ts. wk K t) \<and> wk K t"
| "wk K (TEnum n ts) \<longleftrightarrow> length ts = arity K n \<and> (\<forall>t \<in> set ts. wk K t)"
| "wk K (TList t) \<longleftrightarrow> wk K t"
| "wk K (TDict k t) \<longleftrightarrow> wk K k \<and> wk K t"
| "wk K (TRef t) \<longleftrightarrow> wk K t"
| "wk K t \<longleftrightarrow> True"

text \<open>A row solution adds fields to those its variable is beside; its tail is a later variable.\<close>

definition wk_row :: "('k set \<Rightarrow> bool) \<Rightarrow> (nat \<Rightarrow> 'k set option) \<Rightarrow> (ty \<Rightarrow> bool) \<Rightarrow> nat \<Rightarrow> 'k row_sol \<Rightarrow> bool" where
  "wk_row closed L W r sol \<longleftrightarrow>
     distinct (map fst (row_fields sol)) \<and> (\<forall>p \<in> set (row_fields sol). W (snd p))
     \<and> (\<exists>A. L r = Some A \<and> fst ` set (row_fields sol) \<inter> A = {}
          \<and> open_ok closed L (A \<union> fst ` set (row_fields sol)) (row_tail sol))
     \<and> (\<forall>t. row_tail sol = Some t \<longrightarrow> r < t)"

definition wk_rows :: "('k set \<Rightarrow> bool) \<Rightarrow> (nat \<Rightarrow> 'k set option) \<Rightarrow> (ty \<Rightarrow> bool) \<Rightarrow> (nat \<times> 'k row_sol) list \<Rightarrow> bool" where
  "wk_rows closed L W rows \<longleftrightarrow> (\<forall>r sol. map_of rows r = Some sol \<longrightarrow> wk_row closed L W r sol)"

definition wk_subst :: "kinds \<Rightarrow> substitution \<Rightarrow> bool" where
  "wk_subst K s \<longleftrightarrow> (\<forall>n t. map_of (solutions s) n = Some t \<longrightarrow> wk K t)
     \<and> wk_rows any_set (labels K) (wk K) (row_solutions s)
     \<and> wk_rows initial_set (indices K) (wk K) (tuple_row_solutions s)"

lemma row_chain_kind:
  "row_chain rows rest = Some p \<Longrightarrow> open_ok closed L K rest \<Longrightarrow> wk_rows closed L W rows \<Longrightarrow>
     distinct (map fst (fst p)) \<and> fst ` set (fst p) \<inter> K = {} \<and> (\<forall>q \<in> set (fst p). W (snd q))
     \<and> open_ok closed L (K \<union> fst ` set (fst p)) (snd p) \<and> (\<forall>r. snd p = Some r \<longrightarrow> map_of rows r = None)"
proof (induction arbitrary: K rule: row_chain.raw_induct [rotated, consumes 1, case_names step])
  case (step chain rows rest p)
  show ?case
  proof (cases "Option.bind rest (map_of rows)")
    case None
    with step(2,3) show ?thesis by (auto split: option.splits)
  next
    case (Some sol)
    then obtain r where r: "rest = Some r" "map_of rows r = Some sol" by (auto simp: bind_eq_Some_conv)
    with step(2) obtain q where q: "chain rows (row_tail sol) = Some q" and p: "p = (row_fields sol @ fst q, snd q)"
      by (auto simp: bind_eq_Some_conv)
    from step(4) r(2) have s: "wk_row closed L W r sol" by (auto simp: wk_rows_def)
    from step(3) r(1) have L: "L r = Some K" by (simp add: open_ok_def)
    have "open_ok closed L (K \<union> fst ` set (row_fields sol)) (row_tail sol)" using s L by (simp add: wk_row_def)
    from step(1) [OF q this step(4)] s L p show ?thesis
      by (auto simp: wk_row_def Un_assoc image_Un disjoint_iff)
  qed
qed

lemma fields_ok_chain:
  assumes "row_chain rows rest = Some p" and "wk_rows closed L W rows" and "fields_ok closed L fs rest"
    and "\<forall>p \<in> set fs. W (snd p)"
  shows "fields_ok closed L (fs @ fst p) (snd p)" and "\<forall>q \<in> set (fs @ fst p). W (snd q)"
    and "\<And>r. snd p = Some r \<Longrightarrow> map_of rows r = None"
  using row_chain_kind [OF assms(1) _ assms(2), of "fst ` set fs"] assms(3,4)
  by (auto simp: fields_ok_def image_Un disjoint_iff)

lemma fields_ok_keys: "map fst gs = map fst fs \<Longrightarrow> fields_ok closed L gs rest = fields_ok closed L fs rest"
  by (metis fields_ok_def list.set_map)

section \<open>Resolving a type\<close>

lemma deep_simps [simp]:
  "deep_resolve s (TVar v) = (case map_of (solutions s) v of Some u \<Rightarrow> deep_resolve s u | None \<Rightarrow> Some (TVar v))"
  "deep_resolve s (TEnum n ts) = Option.bind (mapm (deep_resolve s) ts) (\<lambda>us. Some (TEnum n us))"
  "deep_resolve s (TFun ts r) = Option.bind (mapm (deep_resolve s) ts) (\<lambda>us.
     Option.bind (deep_resolve s r) (\<lambda>r'. Some (TFun us r')))"
  "deep_resolve s (TPartialTuple is rest) = Option.bind (row_chain (tuple_row_solutions s) rest) (\<lambda>p.
     Option.bind (mapm_snd (deep_resolve s) (is @ fst p)) (\<lambda>gs. Some (partial_tuple gs (snd p))))"
  "deep_resolve s (TTuple ts) = Option.bind (mapm (deep_resolve s) ts) (\<lambda>us. Some (TTuple us))"
  "deep_resolve s (TRecord ls rest) = Option.bind (row_chain (row_solutions s) rest) (\<lambda>p.
     Option.bind (mapm_snd (deep_resolve s) (ls @ fst p)) (\<lambda>gs. Some (TRecord gs (snd p))))"
  "deep_resolve s (TList u) = Option.bind (deep_resolve s u) (\<lambda>u'. Some (TList u'))"
  "deep_resolve s (TDict k u) = Option.bind (deep_resolve s k) (\<lambda>k'.
     Option.bind (deep_resolve s u) (\<lambda>u'. Some (TDict k' u')))"
  "deep_resolve s (TRef u) = Option.bind (deep_resolve s u) (\<lambda>u'. Some (TRef u'))"
  "deep_resolve s TUnknown = Some TUnknown" "deep_resolve s TBool = Some TBool" "deep_resolve s TInt = Some TInt"
  "deep_resolve s TFloat = Some TFloat" "deep_resolve s TInstant = Some TInstant"
  "deep_resolve s TDuration = Some TDuration" "deep_resolve s TString = Some TString"
  "deep_resolve s TBytes = Some TBytes" "deep_resolve s TNothing = Some TNothing"
  by (subst deep_resolve.simps; simp)+

lemma mapm_all: "mapm f ts = Some us \<Longrightarrow> (\<And>t u. t \<in> set ts \<Longrightarrow> f t = Some u \<Longrightarrow> P u) \<Longrightarrow> \<forall>u \<in> set us. P u"
  unfolding mapm_Some by (induction rule: list_all2_induct) auto

lemma mapm_snd_all:
  "mapm_snd f fs = Some gs \<Longrightarrow> (\<And>p u. p \<in> set fs \<Longrightarrow> f (snd p) = Some u \<Longrightarrow> P u) \<Longrightarrow> \<forall>q \<in> set gs. P (snd q)"
  unfolding mapm_snd_Some by (induction rule: list_all2_induct) auto

lemma initial_sorted:
  assumes "distinct (map fst fs)" and "initial_set (fst ` set fs)"
  shows "map fst (sort_key fst fs) = [0..<length fs]"
proof -
  have d: "distinct (map fst (sort_key fst fs))" using assms(1) by (simp add: distinct_map)
  have c: "card (fst ` set fs) = length fs" using distinct_card [OF assms(1)] by simp
  with assms(2) have s: "set (map fst (sort_key fst fs)) = {..<length fs}" by (simp add: initial_set_def)
  show ?thesis by (rule sorted_distinct_set_unique) (use d s in \<open>auto simp: sorted_sort_key atLeast0LessThan\<close>)
qed

lemma partial_tuple_closed:
  assumes "fields_ok initial_set L fs None" and "fs \<noteq> []"
  shows "partial_tuple fs None = TTuple (map snd (sort_key fst fs))"
  using initial_sorted [of fs] assms by (auto simp: partial_tuple_def fields_ok_def open_ok_def Let_def)

lemma deep_resolve_kind:
  "deep_resolve s t = Some u \<Longrightarrow> wk K t \<Longrightarrow> wk_subst K s \<Longrightarrow> wk K u"
proof (induction rule: deep_resolve.raw_induct [rotated, consumes 1, case_names step])
  case (step dr s t u)
  note IH = step(1) [OF _ _ step(4)]
  have rows: "wk_rows any_set (labels K) (wk K) (row_solutions s)"
    "wk_rows initial_set (indices K) (wk K) (tuple_row_solutions s)" using step(4) by (simp_all add: wk_subst_def)
  have list: "\<forall>u \<in> set us. wk K u" if "mapm (\<lambda>u. dr s u) ts = Some us" "\<forall>t \<in> set ts. wk K t" for us ts
    by (rule mapm_all [OF that(1)]) (use IH that(2) in blast)
  have fields: "\<forall>q \<in> set gs. wk K (snd q)" if "mapm_snd (\<lambda>u. dr s u) fs = Some gs" "\<forall>p \<in> set fs. wk K (snd p)"
    for gs fs :: "('k \<times> ty) list"
    by (rule mapm_snd_all [OF that(1)]) (use IH that(2) in blast)
  show ?case
  proof (cases t)
    case (TVar n)
    with step show ?thesis by (auto simp: wk_subst_def split: option.splits)
  next
    case (TPartialTuple fs rest)
    with step(2) obtain p gs where p: "row_chain (tuple_row_solutions s) rest = Some p"
      and g: "mapm_snd (\<lambda>u. dr s u) (fs @ fst p) = Some gs" and u: "u = partial_tuple gs (snd p)"
      by (auto simp: bind_eq_Some_conv)
    from step(3) TPartialTuple have w: "fs \<noteq> []" "fields_ok initial_set (indices K) fs rest" "\<forall>p \<in> set fs. wk K (snd p)" by auto
    note c = fields_ok_chain [OF p rows(2) w(2,3)]
    have gk: "map fst gs = map fst (fs @ fst p)" by (rule mapm_snd_fst [OF g])
    have ok: "fields_ok initial_set (indices K) gs (snd p)" "gs \<noteq> []" "\<forall>q \<in> set gs. wk K (snd q)"
      using c(1) fields_ok_keys [OF gk] gk w(1) fields [OF g c(2)] by auto
    show ?thesis
    proof (cases "snd p")
      case None
      with ok u partial_tuple_closed [of "indices K" gs] show ?thesis by auto
    next
      case (Some r)
      with ok u show ?thesis by (simp add: partial_tuple_def)
    qed
  next
    case (TRecord fs rest)
    with step(2) obtain p gs where p: "row_chain (row_solutions s) rest = Some p"
      and g: "mapm_snd (\<lambda>u. dr s u) (fs @ fst p) = Some gs" and u: "u = TRecord gs (snd p)"
      by (auto simp: bind_eq_Some_conv)
    from step(3) TRecord have w: "fields_ok any_set (labels K) fs rest" "\<forall>p \<in> set fs. wk K (snd p)" by auto
    note c = fields_ok_chain [OF p rows(1) w]
    show ?thesis using u c(1) fields_ok_keys [OF mapm_snd_fst [OF g]] fields [OF g c(2)] by simp
  next
    case (TEnum n ts)
    with step(2) obtain us where us: "mapm (\<lambda>u. dr s u) ts = Some us" "u = TEnum n us" by (auto simp: bind_eq_Some_conv)
    with step(3) TEnum list [OF us(1)] show ?thesis by (auto simp: mapm_Some dest: list_all2_lengthD)
  qed (use step(2,3) IH list in \<open>auto simp: bind_eq_Some_conv\<close>)
qed

lemma deep_resolve_partial:
  assumes "deep_resolve s (TPartialTuple fs rest) = Some u" and "wk K (TPartialTuple fs rest)" and "wk_subst K s"
  shows "(\<exists>es. u = TTuple es) \<or> (\<exists>gs r. u = TPartialTuple gs (Some r) \<and> map_of (tuple_row_solutions s) r = None)"
proof -
  from assms(1) obtain p gs where p: "row_chain (tuple_row_solutions s) rest = Some p"
    and g: "mapm_snd (deep_resolve s) (fs @ fst p) = Some gs" and u: "u = partial_tuple gs (snd p)"
    by (auto simp: bind_eq_Some_conv)
  have rows: "wk_rows initial_set (indices K) (wk K) (tuple_row_solutions s)" using assms(3) by (simp add: wk_subst_def)
  have w: "fs \<noteq> []" "fields_ok initial_set (indices K) fs rest" "\<forall>p \<in> set fs. wk K (snd p)" using assms(2) by auto
  note c = fields_ok_chain [OF p rows w(2,3)]
  have gk: "map fst gs = map fst (fs @ fst p)" by (rule mapm_snd_fst [OF g])
  have ok: "fields_ok initial_set (indices K) gs (snd p)" "gs \<noteq> []" using c(1) fields_ok_keys [OF gk] gk w(1) by auto
  show ?thesis
  proof (cases "snd p")
    case None
    with ok u partial_tuple_closed [of "indices K" gs] show ?thesis by auto
  next
    case (Some r)
    with u c(3) show ?thesis by (simp add: partial_tuple_def)
  qed
qed

lemma deep_resolve_record:
  assumes "deep_resolve s (TRecord fs rest) = Some u" and "wk K (TRecord fs rest)" and "wk_subst K s"
  shows "\<exists>gs tail. u = TRecord gs tail \<and> (\<forall>r. tail = Some r \<longrightarrow> map_of (row_solutions s) r = None)"
proof -
  from assms(1) obtain p gs where p: "row_chain (row_solutions s) rest = Some p" and u: "u = TRecord gs (snd p)"
    by (auto simp: bind_eq_Some_conv)
  have rows: "wk_rows any_set (labels K) (wk K) (row_solutions s)" using assms(3) by (simp add: wk_subst_def)
  show ?thesis using u fields_ok_chain(3) [OF p rows, of fs] assms(2) by auto
qed

lemma deep_resolve_tuple: "deep_resolve s (TTuple ts) = Some u \<Longrightarrow> \<exists>us. u = TTuple us"
  by (auto simp: bind_eq_Some_conv)

section \<open>New row variables\<close>

definition grown :: "kinds \<Rightarrow> kinds \<Rightarrow> bool" where
  "grown K L \<longleftrightarrow> arity L = arity K \<and> labels K \<subseteq>\<^sub>m labels L \<and> indices K \<subseteq>\<^sub>m indices L"

lemma grown_refl [simp]: "grown K K" by (simp add: grown_def)

lemma grown_trans: "grown K L \<Longrightarrow> grown L M \<Longrightarrow> grown K M"
  by (auto simp: grown_def intro: map_le_trans)

lemma open_ok_grown: "open_ok closed L A rest \<Longrightarrow> L \<subseteq>\<^sub>m M \<Longrightarrow> open_ok closed M A rest"
  by (auto simp: open_ok_def map_le_def dom_def split: option.splits)

lemma fields_ok_grown: "fields_ok closed L fs rest \<Longrightarrow> L \<subseteq>\<^sub>m M \<Longrightarrow> fields_ok closed M fs rest"
  by (auto simp: fields_ok_def intro: open_ok_grown)

lemma wk_grown: "wk K t \<Longrightarrow> grown K L \<Longrightarrow> wk L t"
  by (induction K t rule: wk.induct) (auto simp: grown_def intro: fields_ok_grown)

lemma wk_rows_grown:
  assumes "wk_rows closed L W rows" and "L \<subseteq>\<^sub>m M" and "\<And>t. W t \<Longrightarrow> W' t"
  shows "wk_rows closed M W' rows"
proof -
  have "wk_row closed M W' r sol" if "wk_row closed L W r sol" for r and sol :: "'a row_sol"
  proof -
    from that obtain A where "L r = Some A" "fst ` set (row_fields sol) \<inter> A = {}"
      "open_ok closed L (A \<union> fst ` set (row_fields sol)) (row_tail sol)" by (auto simp: wk_row_def)
    moreover from this(1) assms(2) have "M r = Some A" by (auto simp: map_le_def dom_def)
    ultimately show ?thesis using that assms(2,3) by (auto simp: wk_row_def intro: open_ok_grown)
  qed
  with assms(1) show ?thesis by (simp add: wk_rows_def)
qed

lemma wk_subst_grown:
  assumes "wk_subst K s" and "grown K L"
  shows "wk_subst L s"
proof -
  have m: "labels K \<subseteq>\<^sub>m labels L" "indices K \<subseteq>\<^sub>m indices L" using assms(2) by (simp_all add: grown_def)
  have r0: "wk_rows any_set (labels K) (wk K) (row_solutions s)"
    and t0: "wk_rows initial_set (indices K) (wk K) (tuple_row_solutions s)"
    using assms(1) by (simp_all add: wk_subst_def)
  have r: "wk_rows any_set (labels L) (wk L) (row_solutions s)"
    by (rule wk_rows_grown [OF r0 m(1)]) (rule wk_grown [OF _ assms(2)])
  have t: "wk_rows initial_set (indices L) (wk L) (tuple_row_solutions s)"
    by (rule wk_rows_grown [OF t0 m(2)]) (rule wk_grown [OF _ assms(2)])
  show ?thesis
    unfolding wk_subst_def using r t assms(1) wk_grown [OF _ assms(2)] by (auto simp: wk_subst_def)
qed

end
