(* ===== verification/UnifyState.thy ===== *)
theory UnifyState
  imports Kinds
begin

text \<open>
  The states of the solver: which are well-kinded (\<open>state_ok\<close>), which valuations satisfy one
  (\<open>sat\<close>), and how each operation on the state changes both.
\<close>

section \<open>Resolution and meaning\<close>

lemma head_var [simp]:
  "resolve_head bs (TVar n) = (case map_of bs n of Some u \<Rightarrow> resolve_head bs u | None \<Rightarrow> Some (TVar n))"
  by (subst resolve_head.simps) simp

lemma head_other: "(\<And>n. t \<noteq> TVar n) \<Longrightarrow> resolve_head bs t = Some t"
  by (subst resolve_head.simps) (simp split: ty.split)

lemma resolve_head_unbound: "resolve_head bs t = Some h \<Longrightarrow> h = TVar n \<Longrightarrow> map_of bs n = None"
proof (induction rule: resolve_head.raw_induct [rotated, consumes 1, case_names step])
  case (step rh bs t h)
  then show ?case by (cases t) (auto split: option.splits)
qed

lemma resolve_head_prop:
  "resolve_head bs t = Some h \<Longrightarrow> (\<forall>n u. map_of bs n = Some u \<longrightarrow> P (TVar n) = P u) \<Longrightarrow> P h = P t"
proof (induction rule: resolve_head.raw_induct [rotated, consumes 1, case_names step])
  case (step rh bs t h)
  show ?case
  proof (cases t)
    case (TVar n)
    show ?thesis
    proof (cases "map_of bs n")
      case None with step(2) TVar show ?thesis by simp
    next
      case (Some u)
      with step(1) [of bs u h] step(2,3) TVar show ?thesis by simp
    qed
  qed (use step(2) in auto)
qed

lemma resolve_head_eval:
  "resolve_head (solutions s) t = Some h \<Longrightarrow> solves v s \<Longrightarrow> eval v h = eval v t"
  using resolve_head_prop [of "solutions s" t h "\<lambda>u. eval v u = eval v t"] by (simp add: solves_def)

lemma resolve_head_kind:
  "resolve_head bs t = Some h \<Longrightarrow> (\<forall>n u. map_of bs n = Some u \<longrightarrow> wk K u) \<Longrightarrow> wk K t \<Longrightarrow> wk K h"
  using resolve_head_prop [of bs t h "wk K"] by simp

lemma deep_eval:
  "deep_resolve s t = Some u \<Longrightarrow> solves v s \<Longrightarrow> eval v u = eval v t"
proof (induction rule: deep_resolve.raw_induct [rotated, consumes 1, case_names step])
  case (step dr s t u)
  note IH = step(1) [OF _ step(3)]
  have rows: "solves_row (eval_fields v) (row_val v) (row_solutions s)"
    "solves_row (eval_fields v) (trow_val v) (tuple_row_solutions s)" using step(3) by (simp_all add: solves_def)
  have list: "map (eval v) us = map (eval v) ts" if "mapm (\<lambda>u. dr s u) ts = Some us" for us ts
    using mapm_eval [OF that] IH by blast
  have fields: "eval_fields v gs = eval_fields v fs" if "mapm_snd (\<lambda>u. dr s u) fs = Some gs" for gs fs :: "('k \<times> ty) list"
    using mapm_snd_eval [OF that] IH by blast
  show ?case
  proof (cases t)
    case (TVar n)
    with step(2,3) IH show ?thesis by (auto simp: solves_def split: option.splits)
  next
    case (TTuple ts)
    with step(2) list eval_enumerate_map show ?thesis by (auto simp: bind_eq_Some_conv)
  next
    case (TPartialTuple fs rest)
    with step(2) obtain p gs where p: "row_chain (tuple_row_solutions s) rest = Some p"
      and g: "mapm_snd (\<lambda>u. dr s u) (fs @ fst p) = Some gs" and u: "u = partial_tuple gs (snd p)"
      by (auto simp: bind_eq_Some_conv)
    from fields [OF g] row_chain_eval [OF p rows(2)] u TPartialTuple show ?thesis
      by (simp add: eval_fields_append) (metis fmadd_assoc)
  next
    case (TRecord fs rest)
    with step(2) obtain p gs where p: "row_chain (row_solutions s) rest = Some p"
      and g: "mapm_snd (\<lambda>u. dr s u) (fs @ fst p) = Some gs" and u: "u = TRecord gs (snd p)"
      by (auto simp: bind_eq_Some_conv)
    from fields [OF g] row_chain_eval [OF p rows(1)] u TRecord show ?thesis
      by (simp add: eval_fields_append) (metis fmadd_assoc)
  qed (use step(2) IH list in \<open>auto simp: bind_eq_Some_conv\<close>)
qed

section \<open>Well-kinded states and their solutions\<close>

definition items_ok :: "(ty \<Rightarrow> bool) \<Rightarrow> work_item list \<Rightarrow> bool" where
  "items_ok W xs \<longleftrightarrow> (\<forall>w \<in> set xs. W (fst w) \<and> W (fst (snd w)))"

definition agree :: "valuation \<Rightarrow> work_item list \<Rightarrow> bool" where
  "agree v xs \<longleftrightarrow> (\<forall>w \<in> set xs. eval v (fst w) = eval v (fst (snd w)))"

definition state_ok :: "kinds \<Rightarrow> solver \<Rightarrow> bool" where
  "state_ok K st \<longleftrightarrow> wk_subst K (chained st) \<and> items_ok (wk K) (work st)
     \<and> dom (labels K) \<subseteq> {..<next_var st} \<and> dom (indices K) \<subseteq> {..<next_var st}"

definition sat :: "valuation \<Rightarrow> solver \<Rightarrow> bool" where
  "sat v st \<longleftrightarrow> solves v (chained st) \<and> agree v (work st)"

lemma items_ok_simps [simp]:
  "items_ok W []" "items_ok W (w # xs) \<longleftrightarrow> W (fst w) \<and> W (fst (snd w)) \<and> items_ok W xs"
  "items_ok W (xs @ ys) \<longleftrightarrow> items_ok W xs \<and> items_ok W ys" "items_ok W (rev xs) \<longleftrightarrow> items_ok W xs"
  by (auto simp: items_ok_def)

lemma agree_simps [simp]:
  "agree v []" "agree v (w # xs) \<longleftrightarrow> eval v (fst w) = eval v (fst (snd w)) \<and> agree v xs"
  "agree v (xs @ ys) \<longleftrightarrow> agree v xs \<and> agree v ys" "agree v (rev xs) \<longleftrightarrow> agree v xs"
  by (auto simp: agree_def)

lemma items_ok_grown: "items_ok (wk K) xs \<Longrightarrow> grown K L \<Longrightarrow> items_ok (wk L) xs"
  by (auto simp: items_ok_def intro: wk_grown)

lemma diags_simps [simp]:
  "diags (push_all xs st) = diags st" "diags (bind_var n t st) = diags st"
  "diags (bind_row r sol st) = diags st" "diags (bind_tuple_row r tsol st) = diags st"
  "diags (error_at rng e st) = diags st @ [(rng, e)]"
  "diags (push_shared rng ps st) = diags st" "diags (push_pairs rng ts us st) = diags st"
  by (simp_all add: push_all_def bind_var_def bind_row_def bind_tuple_row_def error_at_def push_shared_def push_pairs_def)

lemma sat_push [simp]: "sat v (push_all xs st) \<longleftrightarrow> sat v st \<and> agree v xs"
  by (auto simp: sat_def push_all_def)

lemma inv_push: "state_ok K st \<Longrightarrow> items_ok (wk K) xs \<Longrightarrow> state_ok K (push_all xs st)"
  by (simp add: state_ok_def push_all_def)

lemma map_of_update [simp]: "map_of (AList.update k v al) = (map_of al)(k \<mapsto> v)"
  by (simp add: update_conv')

lemma sat_bind_var:
  "map_of (solutions (chained st)) n = None \<Longrightarrow> sat v (bind_var n t st) \<longleftrightarrow> sat v st \<and> ty_val v n = eval v t"
  by (auto simp: sat_def bind_var_def solves_def)

lemma inv_bind_var: "state_ok K st \<Longrightarrow> wk K t \<Longrightarrow> state_ok K (bind_var n t st)"
  by (auto simp: state_ok_def bind_var_def wk_subst_def)

lemma solves_row_update:
  "map_of rows r = None \<Longrightarrow> solves_row ev rv (AList.update r sol rows)
     \<longleftrightarrow> solves_row ev rv rows \<and> rv r = ev (row_fields sol) ++\<^sub>f tail_map rv (row_tail sol)"
  by (auto simp: solves_row_def)

lemma sat_bind_row:
  "map_of (row_solutions (chained st)) r = None \<Longrightarrow> sat v (bind_row r sol st)
     \<longleftrightarrow> sat v st \<and> row_val v r = eval_fields v (row_fields sol) ++\<^sub>f tail_map (row_val v) (row_tail sol)"
  by (auto simp: sat_def bind_row_def solves_def solves_row_update)

lemma sat_bind_tuple_row:
  "map_of (tuple_row_solutions (chained st)) r = None \<Longrightarrow> sat v (bind_tuple_row r sol st)
     \<longleftrightarrow> sat v st \<and> trow_val v r = eval_fields v (row_fields sol) ++\<^sub>f tail_map (trow_val v) (row_tail sol)"
  by (auto simp: sat_def bind_tuple_row_def solves_def solves_row_update)

lemma inv_bind_row:
  "state_ok K st \<Longrightarrow> wk_row any_set (labels K) (wk K) r sol \<Longrightarrow> state_ok K (bind_row r sol st)"
  by (auto simp: state_ok_def bind_row_def wk_subst_def wk_rows_def)

lemma inv_bind_tuple_row:
  "state_ok K st \<Longrightarrow> wk_row initial_set (indices K) (wk K) r sol \<Longrightarrow> state_ok K (bind_tuple_row r sol st)"
  by (auto simp: state_ok_def bind_tuple_row_def wk_subst_def wk_rows_def)

lemma sat_new_row [simp]: "sat v (snd (new_row_var st)) \<longleftrightarrow> sat v st"
  by (simp add: new_row_var_def sat_def)

text \<open>The kinds after a fresh row variable has been given a set of labels, or of indices.\<close>

lemma inv_new_row:
  assumes "state_ok K st"
  shows "grown K (K\<lparr>labels := (labels K)(next_var st \<mapsto> A)\<rparr>)"
    and "state_ok (K\<lparr>labels := (labels K)(next_var st \<mapsto> A)\<rparr>) (snd (new_row_var st))"
    and "grown K (K\<lparr>indices := (indices K)(next_var st \<mapsto> B)\<rparr>)"
    and "state_ok (K\<lparr>indices := (indices K)(next_var st \<mapsto> B)\<rparr>) (snd (new_row_var st))"
proof -
  have d: "labels K (next_var st) = None" "indices K (next_var st) = None"
    using assms by (auto simp: state_ok_def dom_def)
  show g: "grown K (K\<lparr>labels := (labels K)(next_var st \<mapsto> A)\<rparr>)" using d(1)
    by (auto simp: grown_def map_le_def dom_def)
  show h: "grown K (K\<lparr>indices := (indices K)(next_var st \<mapsto> B)\<rparr>)" using d(2)
    by (auto simp: grown_def map_le_def dom_def)
  show "state_ok (K\<lparr>labels := (labels K)(next_var st \<mapsto> A)\<rparr>) (snd (new_row_var st))"
    using assms wk_subst_grown [OF _ g] items_ok_grown [OF _ g] by (auto simp: state_ok_def new_row_var_def)
  show "state_ok (K\<lparr>indices := (indices K)(next_var st \<mapsto> B)\<rparr>) (snd (new_row_var st))"
    using assms wk_subst_grown [OF _ h] items_ok_grown [OF _ h] by (auto simp: state_ok_def new_row_var_def)
qed

end
