(* ===== verification/Normalize.thy ===== *)
theory Normalize
  imports UnifyState
begin

text \<open>
  The last part of the solver: the chained maps turned into a substitution on which
  \<open>apply_to_type\<close> does what \<open>deep_resolve\<close> did on the chained maps.
\<close>

section \<open>Chains end\<close>

lemma row_chain_end: "row_chain rows rest = Some p \<Longrightarrow> snd p = Some r \<Longrightarrow> map_of rows r = None"
proof (induction rule: row_chain.raw_induct [rotated, consumes 1, case_names step])
  case (step chain rows rest p)
  show ?case
  proof (cases "Option.bind rest (map_of rows)")
    case None
    with step(2,3) show ?thesis by (auto split: option.splits)
  next
    case (Some sol)
    then obtain r' where r: "rest = Some r'" "map_of rows r' = Some sol" by (auto simp: bind_eq_Some_conv)
    with step(2) obtain q where "chain rows (row_tail sol) = Some q" "p = (row_fields sol @ fst q, snd q)"
      by (auto simp: bind_eq_Some_conv)
    with step(1) [of rows "row_tail sol" q] step(3) show ?thesis by simp
  qed
qed

text \<open>The tail of a solved row is a later variable, so a chase ends.\<close>

definition rising :: "(nat \<times> 'k row_sol) list \<Rightarrow> bool" where
  "rising rows \<longleftrightarrow> (\<forall>r sol t. map_of rows r = Some sol \<longrightarrow> row_tail sol = Some t \<longrightarrow> r < t)"

lemma wk_rows_rising: "wk_rows closed L W rows \<Longrightarrow> rising rows"
  by (simp add: wk_rows_def wk_row_def rising_def)

lemma row_chain_total: "rising rows \<Longrightarrow> \<exists>p. row_chain rows rest = Some p"
proof (induction "case rest of None \<Rightarrow> 0 | Some r \<Rightarrow> Suc (Max (insert 0 (fst ` set rows))) - r" arbitrary: rest rule: less_induct)
  case less
  show ?case
  proof (cases rest)
    case (Some r)
    show ?thesis
    proof (cases "map_of rows r")
      case (Some sol)
      have "r \<in> insert 0 (fst ` set rows)" using map_of_SomeD [OF Some] by force
      then have le: "r \<le> Max (insert 0 (fst ` set rows))" by (intro Max_ge) auto
      have lt: "\<And>t. row_tail sol = Some t \<Longrightarrow> r < t" using less(2) Some by (auto simp: rising_def)
      have "\<exists>p. row_chain rows (row_tail sol) = Some p"
      proof (rule less(1) [OF _ less(2)])
        show "(case row_tail sol of None \<Rightarrow> 0 | Some r \<Rightarrow> Suc (Max (insert 0 (fst ` set rows))) - r)
            < (case rest of None \<Rightarrow> 0 | Some r \<Rightarrow> Suc (Max (insert 0 (fst ` set rows))) - r)"
          using lt le \<open>rest = Some r\<close> by (auto intro!: diff_less_mono2 split: option.split)
      qed
      with Some \<open>rest = Some r\<close> show ?thesis by auto
    qed (use Some in auto)
  qed simp
qed

section \<open>The normal form\<close>

definition fields_of :: "substitution \<Rightarrow> ('k \<times> ty) list \<Rightarrow> ('k \<times> ty) list" where
  "fields_of s fs = the (mapm_snd (deep_resolve s) fs)"

text \<open>A type without a variable that the maps bind, and with no partial tuple to collapse.\<close>

fun resolved :: "substitution \<Rightarrow> ty \<Rightarrow> bool" where
  "resolved s (TVar n) \<longleftrightarrow> map_of (solutions s) n = None"
| "resolved s (TPartialTuple fs rest) \<longleftrightarrow> (\<forall>p \<in> set fs. resolved s (snd p))
     \<and> (\<forall>r. rest = Some r \<longrightarrow> map_of (tuple_row_solutions s) r = None) \<and> partial_tuple fs rest = TPartialTuple fs rest"
| "resolved s (TRecord fs rest) \<longleftrightarrow> (\<forall>p \<in> set fs. resolved s (snd p))
     \<and> (\<forall>r. rest = Some r \<longrightarrow> map_of (row_solutions s) r = None)"
| "resolved s (TEnum n ts) \<longleftrightarrow> (\<forall>t \<in> set ts. resolved s t)"
| "resolved s (TList t) \<longleftrightarrow> resolved s t"
| "resolved s (TDict k t) \<longleftrightarrow> resolved s k \<and> resolved s t"
| "resolved s (TRef t) \<longleftrightarrow> resolved s t"
| "resolved s (TTuple ts) \<longleftrightarrow> (\<forall>t \<in> set ts. resolved s t)"
| "resolved s (TFun ts t) \<longleftrightarrow> (\<forall>t \<in> set ts. resolved s t) \<and> resolved s t"
| "resolved s t \<longleftrightarrow> True"

lemma partial_tuple_cases:
  obtains (tuple) "partial_tuple fs rest = TTuple (map snd (sort_key fst fs))"
  | (partial) gs where "partial_tuple fs rest = TPartialTuple gs rest" "set gs = set fs"
      "partial_tuple gs rest = TPartialTuple gs rest"
proof (cases "rest = None \<and> fs \<noteq> []")
  case True
  then show thesis
    using that by (cases "map fst (sort_key fst fs) = [0..<length fs]") (auto simp: partial_tuple_def Let_def sort_key_id_if_sorted)
next
  case False
  then show thesis using that(2) [of fs] by (auto simp: partial_tuple_def)
qed

lemma deep_resolved: "deep_resolve s t = Some u \<Longrightarrow> resolved s u"
proof (induction rule: deep_resolve.raw_induct [rotated, consumes 1, case_names step])
  case (step dr s t u)
  have list: "\<forall>u \<in> set us. resolved s u" if "mapm (\<lambda>u. dr s u) ts = Some us" for us ts
    by (rule mapm_all [OF that]) (rule step(1))
  have fields: "\<forall>q \<in> set gs. resolved s (snd q)" if "mapm_snd (\<lambda>u. dr s u) fs = Some gs" for gs fs :: "('k \<times> ty) list"
    by (rule mapm_snd_all [OF that]) (rule step(1))
  show ?case
  proof (cases t)
    case (TVar n)
    with step show ?thesis by (auto split: option.splits)
  next
    case (TPartialTuple fs rest)
    with step(2) obtain p gs where p: "row_chain (tuple_row_solutions s) rest = Some p"
      and g: "mapm_snd (\<lambda>u. dr s u) (fs @ fst p) = Some gs" and u: "u = partial_tuple gs (snd p)"
      by (auto simp: bind_eq_Some_conv)
    from partial_tuple_cases [of gs "snd p"] show ?thesis
      by cases (use fields [OF g] row_chain_end [OF p] u in auto)
  next
    case (TRecord fs rest)
    with step(2) obtain p gs where p: "row_chain (row_solutions s) rest = Some p"
      and g: "mapm_snd (\<lambda>u. dr s u) (fs @ fst p) = Some gs" and u: "u = TRecord gs (snd p)"
      by (auto simp: bind_eq_Some_conv)
    show ?thesis using fields [OF g] row_chain_end [OF p] u by auto
  qed (use step list in \<open>auto simp: bind_eq_Some_conv\<close>)
qed

text \<open>The normal form binds the variables the maps bind.\<close>

definition same_domain :: "substitution \<Rightarrow> substitution \<Rightarrow> bool" where
  "same_domain s u \<longleftrightarrow> (\<forall>n. map_of (solutions s) n = None \<longleftrightarrow> map_of (solutions u) n = None)
     \<and> (\<forall>r. map_of (row_solutions s) r = None \<longleftrightarrow> map_of (row_solutions u) r = None)
     \<and> (\<forall>r. map_of (tuple_row_solutions s) r = None \<longleftrightarrow> map_of (tuple_row_solutions u) r = None)"

lemma normal_formE:
  assumes "normal_form s = Some u"
  obtains "mapm_snd (deep_resolve s) (solutions s) = Some (solutions u)"
    "mapm_snd (normal_row s) (row_solutions s) = Some (row_solutions u)"
    "mapm_snd (normal_row s) (tuple_row_solutions s) = Some (tuple_row_solutions u)"
  using assms by (auto simp: normal_form_def bind_eq_Some_conv)

lemma normal_form_domain: "normal_form s = Some u \<Longrightarrow> same_domain s u"
  unfolding same_domain_def
  by (erule normal_formE) (metis mapm_snd_lookup option.distinct(1))

lemma resolved_apply: "resolved s t \<Longrightarrow> same_domain s u \<Longrightarrow> apply_to_type u t = Some t"
proof (induction s t rule: resolved.induct)
  case (2 s fs rest)
  then have "row_chain (tuple_row_solutions u) rest = Some ([], rest)"
    by (cases rest) (auto simp: same_domain_def)
  moreover have "mapm_snd (apply_to_type u) fs = Some fs" by (rule mapm_snd_id) (use 2 in auto)
  ultimately show ?case using 2 by simp
next
  case (3 s fs rest)
  then have "row_chain (row_solutions u) rest = Some ([], rest)"
    by (cases rest) (auto simp: same_domain_def)
  moreover have "mapm_snd (apply_to_type u) fs = Some fs" by (rule mapm_snd_id) (use 3 in auto)
  ultimately show ?case by simp
next
  case (4 s n ts)
  then have "mapm (apply_to_type u) ts = Some ts" by (intro mapm_id) auto
  then show ?case by simp
next
  case (8 s ts)
  then have "mapm (apply_to_type u) ts = Some ts" by (intro mapm_id) auto
  then show ?case by simp
next
  case (9 s ts t)
  then have "mapm (apply_to_type u) ts = Some ts" by (intro mapm_id) auto
  with 9 show ?case by auto
qed (auto simp: same_domain_def split: option.splits)

section \<open>Application after normalization\<close>

lemma normal_chain:
  "row_chain rows rest = Some p \<Longrightarrow> mapm_snd (normal_row s) rows = Some rows' \<Longrightarrow>
     \<exists>fs. row_chain rows' rest = Some (fs, snd p) \<and> mapm_snd (deep_resolve s) (fst p) = Some fs"
proof (induction rule: row_chain.raw_induct [rotated, consumes 1, case_names step])
  case (step chain rows rest p)
  show ?case
  proof (cases "Option.bind rest (map_of rows)")
    case None
    show ?thesis
    proof (cases rest)
      case (Some r)
      with None have "map_of rows r = None" by simp
      moreover from this mapm_snd_lookup [OF step(3), of r] have "map_of rows' r = None" by auto
      ultimately show ?thesis using step(2) Some by (auto simp: mapm_snd_def)
    qed (use step(2) in \<open>auto simp: mapm_snd_def\<close>)
  next
    case (Some sol)
    then obtain r where r: "rest = Some r" "map_of rows r = Some sol" by (auto simp: bind_eq_Some_conv)
    with step(2) obtain q where q: "chain rows (row_tail sol) = Some q" and p: "p = (row_fields sol @ fst q, snd q)"
      by (auto simp: bind_eq_Some_conv)
    from mapm_snd_lookup [OF step(3), of r] r obtain sol' where s': "map_of rows' r = Some sol'" "normal_row s sol = Some sol'" by auto
    then obtain gs where gs: "mapm_snd (deep_resolve s) (row_fields sol) = Some gs" "sol' = \<lparr>row_fields = gs, row_tail = row_tail sol\<rparr>"
      by (auto simp: normal_row_def bind_eq_Some_conv)
    from step(1) [OF q step(3)] obtain fs where "row_chain rows' (row_tail sol) = Some (fs, snd q)"
      "mapm_snd (deep_resolve s) (fst q) = Some fs" by auto
    with gs s'(1) r(1) p show ?thesis by (simp add: mapm_snd_append)
  qed
qed

lemma mapm_cong': "(\<And>t. t \<in> set ts \<Longrightarrow> f t = g t) \<Longrightarrow> mapm f ts = mapm g ts"
  by (induction ts) auto

lemma mapm_snd_cong': "(\<And>p. p \<in> set fs \<Longrightarrow> f (snd p) = g (snd p)) \<Longrightarrow> mapm_snd f fs = mapm_snd g fs"
  unfolding mapm_snd_def by (rule mapm_cong') auto

lemma mapm_snd_bind_append:
  "mapm_snd f (xs @ ys) = Option.bind (mapm_snd f xs) (\<lambda>as. Option.bind (mapm_snd f ys) (\<lambda>bs. Some (as @ bs)))"
  unfolding mapm_snd_def by (induction xs) (auto split: bind_splits)

lemma fields_resolved:
  assumes "mapm_snd (deep_resolve s) fs = Some gs" and "same_domain s u"
  shows "mapm_snd (apply_to_type u) gs = Some gs"
proof -
  have "\<forall>q \<in> set gs. resolved s (snd q)" by (rule mapm_snd_all [OF assms(1)]) (rule deep_resolved)
  then show ?thesis using resolved_apply [OF _ assms(2)] by (intro mapm_snd_id) auto
qed

lemma apply_chain:
  assumes "mapm_snd (normal_row s) rows = Some rows'" and "rising rows" and "same_domain s u"
    and "\<And>p. p \<in> set fs \<Longrightarrow> apply_to_type u (snd p) = deep_resolve s (snd p)"
  obtains p q where "row_chain rows rest = Some p" and "row_chain rows' rest = Some q" and "snd q = snd p"
    and "mapm_snd (apply_to_type u) (fs @ fst q) = mapm_snd (deep_resolve s) (fs @ fst p)"
proof -
  from row_chain_total [OF assms(2)] obtain p where p: "row_chain rows rest = Some p" by blast
  from normal_chain [OF p assms(1)] obtain gs where g: "row_chain rows' rest = Some (gs, snd p)"
    "mapm_snd (deep_resolve s) (fst p) = Some gs" by auto
  have "mapm_snd (apply_to_type u) (fs @ gs) = mapm_snd (deep_resolve s) (fs @ fst p)"
    unfolding mapm_snd_bind_append fields_resolved [OF g(2) assms(3)] g(2)
    by (rule arg_cong2 [of _ _ _ _ Option.bind]) (auto intro: mapm_snd_cong' assms(4))
  with p g that show thesis by fastforce
qed

definition rising_rows :: "substitution \<Rightarrow> bool" where
  "rising_rows s \<longleftrightarrow> rising (row_solutions s) \<and> rising (tuple_row_solutions s)"

lemma apply_normal_eq:
  assumes "normal_form s = Some u" and "rising_rows s"
  shows "apply_to_type u t = deep_resolve s t"
proof -
  from assms(1) have n: "mapm_snd (deep_resolve s) (solutions s) = Some (solutions u)"
    "mapm_snd (normal_row s) (row_solutions s) = Some (row_solutions u)"
    "mapm_snd (normal_row s) (tuple_row_solutions s) = Some (tuple_row_solutions u)" by (auto elim: normal_formE)
  have r: "rising (row_solutions s)" "rising (tuple_row_solutions s)" using assms(2) by (simp_all add: rising_rows_def)
  note d = normal_form_domain [OF assms(1)]
  show ?thesis
  proof (induction t)
    case (TVar n)
    show ?case using mapm_snd_lookup [OF n(1), of n] by (auto split: option.split)
  next
    case (TPartialTuple fs rest)
    from apply_chain [OF n(3) r(2) d, of fs rest] obtain p q where "row_chain (tuple_row_solutions s) rest = Some p"
      "row_chain (tuple_row_solutions u) rest = Some q" "snd q = snd p"
      "mapm_snd (apply_to_type u) (fs @ fst q) = mapm_snd (deep_resolve s) (fs @ fst p)"
      using TPartialTuple by (auto simp: snds.simps) blast
    then show ?case by simp
  next
    case (TRecord fs rest)
    from apply_chain [OF n(2) r(1) d, of fs rest] obtain p q where "row_chain (row_solutions s) rest = Some p"
      "row_chain (row_solutions u) rest = Some q" "snd q = snd p"
      "mapm_snd (apply_to_type u) (fs @ fst q) = mapm_snd (deep_resolve s) (fs @ fst p)"
      using TRecord by (auto simp: snds.simps) blast
    then show ?case by simp
  next
    case (TTuple ts)
    then have "mapm (apply_to_type u) ts = mapm (deep_resolve s) ts" by (intro mapm_cong') auto
    then show ?case by simp
  next
    case (TFun ts t)
    then have "mapm (apply_to_type u) ts = mapm (deep_resolve s) ts" by (intro mapm_cong') auto
    with TFun show ?case by simp
  next
    case (TEnum n ts)
    then have "mapm (apply_to_type u) ts = mapm (deep_resolve s) ts" by (intro mapm_cong') auto
    then show ?case by simp
  qed auto
qed

text \<open>Resolution is total where normalization is defined.\<close>

lemma mapm_total: "(\<And>t. t \<in> set ts \<Longrightarrow> \<exists>u. f t = Some u) \<Longrightarrow> \<exists>us. mapm f ts = Some us"
  by (induction ts) fastforce+

lemma mapm_snd_total: "(\<And>p. p \<in> set fs \<Longrightarrow> \<exists>u. f (snd p) = Some u) \<Longrightarrow> \<exists>gs. mapm_snd f fs = Some gs"
  unfolding mapm_snd_def by (rule mapm_total) fastforce

lemma fields_total:
  assumes "mapm_snd (normal_row s) rows = Some rows'" and "rising rows"
    and "\<And>p. p \<in> set fs \<Longrightarrow> \<exists>u. deep_resolve s (snd p) = Some u"
  obtains p as bs where "row_chain rows rest = Some p" and "mapm_snd (deep_resolve s) fs = Some as"
    and "mapm_snd (deep_resolve s) (fst p) = Some bs"
proof -
  from row_chain_total [OF assms(2)] obtain p where p: "row_chain rows rest = Some p" by blast
  have "\<exists>as. mapm_snd (deep_resolve s) fs = Some as" by (rule mapm_snd_total) (rule assms(3))
  with normal_chain [OF p assms(1)] p that show thesis by blast
qed

lemma deep_total:
  assumes "normal_form s = Some u" and "rising_rows s"
  shows "\<exists>w. deep_resolve s t = Some w"
proof -
  from assms(1) have n: "mapm_snd (deep_resolve s) (solutions s) = Some (solutions u)"
    "mapm_snd (normal_row s) (row_solutions s) = Some (row_solutions u)"
    "mapm_snd (normal_row s) (tuple_row_solutions s) = Some (tuple_row_solutions u)" by (auto elim: normal_formE)
  have r: "rising (row_solutions s)" "rising (tuple_row_solutions s)" using assms(2) by (simp_all add: rising_rows_def)
  show ?thesis
  proof (induction t)
    case (TVar n)
    show ?case using mapm_snd_lookup [OF n(1), of n] by (auto split: option.split)
  next
    case (TPartialTuple fs rest)
    from fields_total [OF n(3) r(2), of fs rest] obtain p as bs where "row_chain (tuple_row_solutions s) rest = Some p"
      "mapm_snd (deep_resolve s) fs = Some as" "mapm_snd (deep_resolve s) (fst p) = Some bs"
      using TPartialTuple by (auto simp: snds.simps) blast
    then show ?case by (simp add: mapm_snd_bind_append)
  next
    case (TRecord fs rest)
    from fields_total [OF n(2) r(1), of fs rest] obtain p as bs where "row_chain (row_solutions s) rest = Some p"
      "mapm_snd (deep_resolve s) fs = Some as" "mapm_snd (deep_resolve s) (fst p) = Some bs"
      using TRecord by (auto simp: snds.simps) blast
    then show ?case by (simp add: mapm_snd_bind_append)
  next
    case (TTuple ts)
    then have "\<exists>us. mapm (deep_resolve s) ts = Some us" by (intro mapm_total) auto
    then show ?case by auto
  next
    case (TFun ts t)
    then have "\<exists>us. mapm (deep_resolve s) ts = Some us" by (intro mapm_total) auto
    with TFun show ?case by auto
  next
    case (TEnum n ts)
    then have "\<exists>us. mapm (deep_resolve s) ts = Some us" by (intro mapm_total) auto
    then show ?case by auto
  qed auto
qed

section \<open>A valuation after a substitution\<close>

text \<open>Reading a type through the maps, then through \<open>v\<close>, is reading it through one valuation that satisfies them.\<close>

definition row_after :: "valuation \<Rightarrow> (nat \<Rightarrow> ('k, gty) fmap) \<Rightarrow> substitution \<Rightarrow> (nat \<times> 'k row_sol) list \<Rightarrow> nat option \<Rightarrow> ('k, gty) fmap" where
  "row_after v rv s rows rest =
     (case the (row_chain rows rest) of (fs, tail) \<Rightarrow> eval_fields v (the (mapm_snd (deep_resolve s) fs)) ++\<^sub>f tail_map rv tail)"

definition after :: "valuation \<Rightarrow> substitution \<Rightarrow> valuation" where
  "after v s = \<lparr>ty_val = (\<lambda>n. eval v (the (deep_resolve s (TVar n)))),
     row_val = (\<lambda>r. row_after v (row_val v) s (row_solutions s) (Some r)),
     trow_val = (\<lambda>r. row_after v (trow_val v) s (tuple_row_solutions s) (Some r))\<rparr>"

lemma row_after_None [simp]: "row_after v rv s rows None = fmempty"
  by (simp add: row_after_def mapm_snd_def tail_map_def)

lemma eval_fields_after:
  assumes "mapm_snd f fs = Some gs" and "\<And>p u. p \<in> set fs \<Longrightarrow> f (snd p) = Some u \<Longrightarrow> eval w (snd p) = eval v u"
  shows "eval_fields w fs = eval_fields v gs"
proof -
  have "map (apsnd (eval w)) fs = map (apsnd (eval v)) gs"
    using assms unfolding mapm_snd_Some by (induction rule: list_all2_induct) (auto simp: prod_eq_iff)
  then show ?thesis by (simp add: eval_fields_def del: eval_fields_eq)
qed

lemma mapm_after:
  assumes "mapm f ts = Some us" and "\<And>t u. t \<in> set ts \<Longrightarrow> f t = Some u \<Longrightarrow> eval w t = eval v u"
  shows "map (eval w) ts = map (eval v) us"
  using assms unfolding mapm_Some by (induction rule: list_all2_induct) auto

lemma tail_after:
  "tail_map (row_val (after v s)) rest = row_after v (row_val v) s (row_solutions s) rest"
  "tail_map (trow_val (after v s)) rest = row_after v (trow_val v) s (tuple_row_solutions s) rest"
  by (cases rest; simp add: tail_map_def after_def)+

lemma after_eval:
  assumes "normal_form s = Some u" and "rising_rows s"
  shows "deep_resolve s t = Some w \<Longrightarrow> eval (after v s) t = eval v w"
proof -
  from assms(1) have n: "mapm_snd (normal_row s) (row_solutions s) = Some (row_solutions u)"
    "mapm_snd (normal_row s) (tuple_row_solutions s) = Some (tuple_row_solutions u)" by (auto elim: normal_formE)
  show "deep_resolve s t = Some w \<Longrightarrow> eval (after v s) t = eval v w"
  proof (induction t arbitrary: w)
    case (TVar n)
    then show ?case by (simp add: after_def)
  next
    case (TPartialTuple fs rest)
    from TPartialTuple(2) obtain p as bs where p: "row_chain (tuple_row_solutions s) rest = Some p"
      and g: "mapm_snd (deep_resolve s) fs = Some as" "mapm_snd (deep_resolve s) (fst p) = Some bs"
      and w: "w = partial_tuple (as @ bs) (snd p)"
      by (auto simp: bind_eq_Some_conv mapm_snd_append)
    have "eval_fields (after v s) fs = eval_fields v as"
      by (rule eval_fields_after [OF g(1)]) (use TPartialTuple(1) in \<open>auto simp: snds.simps\<close>)
    with p g w show ?case by (cases p) (simp add: tail_after row_after_def field_map_append)
  next
    case (TRecord fs rest)
    from TRecord(2) obtain p as bs where p: "row_chain (row_solutions s) rest = Some p"
      and g: "mapm_snd (deep_resolve s) fs = Some as" "mapm_snd (deep_resolve s) (fst p) = Some bs"
      and w: "w = TRecord (as @ bs) (snd p)"
      by (auto simp: bind_eq_Some_conv mapm_snd_append)
    have "eval_fields (after v s) fs = eval_fields v as"
      by (rule eval_fields_after [OF g(1)]) (use TRecord(1) in \<open>auto simp: snds.simps\<close>)
    with p g w show ?case by (cases p) (simp add: tail_after row_after_def field_map_append)
  next
    case (TTuple ts)
    from TTuple(2) obtain us where us: "mapm (deep_resolve s) ts = Some us" "w = TTuple us" by (auto simp: bind_eq_Some_conv)
    have "map (eval (after v s)) ts = map (eval v) us" by (rule mapm_after [OF us(1)]) (rule TTuple(1))
    then show ?case by (simp add: us(2) del: eval_enumerate)
  next
    case (TFun ts t)
    from TFun(3) obtain us r where us: "mapm (deep_resolve s) ts = Some us" "deep_resolve s t = Some r" "w = TFun us r"
      by (auto simp: bind_eq_Some_conv)
    have "map (eval (after v s)) ts = map (eval v) us" by (rule mapm_after [OF us(1)]) (rule TFun(1))
    with TFun(2) us show ?case by simp
  next
    case (TEnum n ts)
    from TEnum(2) obtain us where us: "mapm (deep_resolve s) ts = Some us" "w = TEnum n us" by (auto simp: bind_eq_Some_conv)
    have "map (eval (after v s)) ts = map (eval v) us" by (rule mapm_after [OF us(1)]) (rule TEnum(1))
    then show ?case by (simp add: us(2))
  qed (auto simp: bind_eq_Some_conv)
qed

lemma after_row:
  assumes "map_of rows r = Some sol" and "mapm_snd (normal_row s) rows = Some rows'" and "rising rows"
    and "\<And>t w. deep_resolve s t = Some w \<Longrightarrow> eval (after v s) t = eval v w"
  shows "row_after v rv s rows (Some r) = eval_fields (after v s) (row_fields sol) ++\<^sub>f row_after v rv s rows (row_tail sol)"
proof -
  from row_chain_total [OF assms(3)] obtain p where p: "row_chain rows (row_tail sol) = Some p" by blast
  with assms(1) have q: "row_chain rows (Some r) = Some (row_fields sol @ fst p, snd p)" by simp
  from normal_chain [OF q assms(2)] obtain as bs where ab: "mapm_snd (deep_resolve s) (row_fields sol) = Some as"
    "mapm_snd (deep_resolve s) (fst p) = Some bs" by (auto simp: mapm_snd_append)
  have "eval_fields (after v s) (row_fields sol) = eval_fields v as"
    by (rule eval_fields_after [OF ab(1)]) (rule assms(4))
  moreover have "mapm_snd (deep_resolve s) (row_fields sol @ fst p) = Some (as @ bs)" using ab by (simp add: mapm_snd_append)
  ultimately show ?thesis using p q ab by (cases p) (simp add: row_after_def eval_fields_append)
qed

lemma after_solves:
  assumes "normal_form s = Some u" and "rising_rows s"
  shows "solves (after v s) s"
proof -
  from assms(1) have n: "mapm_snd (deep_resolve s) (solutions s) = Some (solutions u)"
    "mapm_snd (normal_row s) (row_solutions s) = Some (row_solutions u)"
    "mapm_snd (normal_row s) (tuple_row_solutions s) = Some (tuple_row_solutions u)" by (auto elim: normal_formE)
  have r: "rising (row_solutions s)" "rising (tuple_row_solutions s)" using assms(2) by (simp_all add: rising_rows_def)
  note ev = after_eval [OF assms, where v = v]
  have "ty_val (after v s) k = eval (after v s) t" if "map_of (solutions s) k = Some t" for k t
  proof -
    from deep_total [OF assms] obtain w where w: "deep_resolve s t = Some w" by blast
    with that ev [OF w] show ?thesis by (simp add: after_def)
  qed
  moreover have "solves_row (eval_fields (after v s)) (row_val (after v s)) (row_solutions s)"
    unfolding solves_row_def using after_row [OF _ n(2) r(1) ev] by (simp add: tail_after) (simp add: after_def)
  moreover have "solves_row (eval_fields (after v s)) (trow_val (after v s)) (tuple_row_solutions s)"
    unfolding solves_row_def using after_row [OF _ n(3) r(2) ev] by (simp add: tail_after) (simp add: after_def)
  ultimately show ?thesis by (simp add: solves_def)
qed

end
