(* ===== verification/Compose.thy ===== *)
theory Compose
  imports Normalize
begin

text \<open>
  \<open>Substitution::compose\<close> is composition: applying \<open>compose s other\<close> to a type is applying \<open>s\<close>
  and then \<open>other\<close>.
\<close>

section \<open>Types a substitution leaves alone\<close>

text \<open>No type of \<open>s\<close> mentions a variable that \<open>k\<close> binds.\<close>

definition rows_resolved :: "substitution \<Rightarrow> (nat \<times> 'k row_sol) list \<Rightarrow> (nat \<times> 'k row_sol) list \<Rightarrow> bool" where
  "rows_resolved k krows rows \<longleftrightarrow>
     (\<forall>r sol. map_of rows r = Some sol \<longrightarrow> (\<forall>p \<in> set (row_fields sol). resolved k (snd p))
        \<and> (\<forall>t. row_tail sol = Some t \<longrightarrow> map_of krows t = None))"

definition resolved_by :: "substitution \<Rightarrow> substitution \<Rightarrow> bool" where
  "resolved_by k s \<longleftrightarrow> (\<forall>n t. map_of (solutions s) n = Some t \<longrightarrow> resolved k t)
     \<and> rows_resolved k (row_solutions k) (row_solutions s)
     \<and> rows_resolved k (tuple_row_solutions k) (tuple_row_solutions s)"

lemma resolved_byD:
  assumes "resolved_by k s"
  shows "map_of (solutions s) n = Some t \<Longrightarrow> resolved k t"
    and "rows_resolved k (row_solutions k) (row_solutions s)"
    and "rows_resolved k (tuple_row_solutions k) (tuple_row_solutions s)"
  using assms by (auto simp: resolved_by_def)

lemma rows_resolvedD:
  assumes "rows_resolved k krows rows" and "map_of rows r = Some sol"
  shows "p \<in> set (row_fields sol) \<Longrightarrow> resolved k (snd p)" and "row_tail sol = Some t \<Longrightarrow> map_of krows t = None"
  using assms unfolding rows_resolved_def by blast+

lemma resolved_id: "resolved s t \<Longrightarrow> apply_to_type s t = Some t"
  by (erule resolved_apply [where s = s]) (simp add: same_domain_def)

lemma resolved_ids: "\<forall>p \<in> set fs. resolved s (snd p) \<Longrightarrow> mapm_snd (apply_to_type s) fs = Some fs"
  by (rule mapm_snd_id) (simp add: resolved_id)

text \<open>Then a chase takes one step at most.\<close>

definition tail_step :: "(nat \<times> 'k row_sol) list \<Rightarrow> nat option \<Rightarrow> ('k \<times> ty) list \<times> nat option" where
  "tail_step rows rest =
     (case Option.bind rest (map_of rows) of None \<Rightarrow> ([], rest) | Some sol \<Rightarrow> (row_fields sol, row_tail sol))"

lemma chain_step: "rows_resolved k rows rows \<Longrightarrow> row_chain rows rest = Some (tail_step rows rest)"
proof (cases "Option.bind rest (map_of rows)")
  case None
  then show ?thesis by (cases rest) (auto simp: tail_step_def)
next
  case (Some sol)
  assume r: "rows_resolved k rows rows"
  from Some obtain t where t: "rest = Some t" "map_of rows t = Some sol" by (auto simp: bind_eq_Some_conv)
  have "row_chain rows (row_tail sol) = Some ([], row_tail sol)"
    using rows_resolvedD(2) [OF r t(2)] by (cases "row_tail sol") auto
  with t show ?thesis by (simp add: tail_step_def)
qed

lemma tail_step_resolved: "rows_resolved k krows rows \<Longrightarrow> \<forall>p \<in> set (fst (tail_step rows rest)). resolved k (snd p)"
  by (auto simp: tail_step_def bind_eq_Some_conv dest: rows_resolvedD split: option.split)

lemma tail_step_end:
  assumes "rows_resolved k krows rows" and "\<And>t. rest = Some t \<Longrightarrow> map_of rows t = None \<Longrightarrow> map_of krows t = None"
    and "snd (tail_step rows rest) = Some t"
  shows "map_of krows t = None"
proof (cases "Option.bind rest (map_of rows)")
  case None
  with assms(3) have "rest = Some t" by (simp add: tail_step_def)
  with None assms(2) show ?thesis by simp
next
  case (Some sol)
  then obtain r where "map_of rows r = Some sol" by (auto simp: bind_eq_Some_conv)
  with Some assms(3) rows_resolvedD(2) [OF assms(1)] show ?thesis by (simp add: tail_step_def)
qed

section \<open>Application is total\<close>

definition apply_ty :: "substitution \<Rightarrow> ty \<Rightarrow> ty" where
  "apply_ty s t = the (apply_to_type s t)"

lemma mapm_these: "\<forall>t \<in> set ts. f t = Some (g t) \<Longrightarrow> mapm f ts = Some (map g ts)"
  by (induction ts) auto

lemma mapm_snd_these: "\<forall>p \<in> set fs. f (snd p) = Some (g (snd p)) \<Longrightarrow> mapm_snd f fs = Some (map (apsnd g) fs)"
  unfolding mapm_snd_def by (subst mapm_these [where g = "apsnd g"]) (auto simp: apsnd_def map_prod_def split: prod.splits)

lemma apply_total:
  assumes s: "resolved_by s s"
  shows "apply_to_type s t = Some (apply_ty s t)"
proof -
  have "\<exists>u. apply_to_type s t = Some u"
  proof (induction t)
    case (TPartialTuple fs rest)
    have "mapm_snd (apply_to_type s) fs = Some (map (apsnd (apply_ty s)) fs)"
      by (rule mapm_snd_these) (use TPartialTuple in \<open>fastforce simp: apply_ty_def snds.simps\<close>)
    with resolved_ids [OF tail_step_resolved [OF resolved_byD(3) [OF s]], of rest] show ?case
      by (simp add: chain_step [OF resolved_byD(3) [OF s]] mapm_snd_bind_append)
  next
    case (TRecord fs rest)
    have "mapm_snd (apply_to_type s) fs = Some (map (apsnd (apply_ty s)) fs)"
      by (rule mapm_snd_these) (use TRecord in \<open>fastforce simp: apply_ty_def snds.simps\<close>)
    with resolved_ids [OF tail_step_resolved [OF resolved_byD(2) [OF s]], of rest] show ?case
      by (simp add: chain_step [OF resolved_byD(2) [OF s]] mapm_snd_bind_append)
  next
    case (TTuple ts)
    then have "mapm (apply_to_type s) ts = Some (map (apply_ty s) ts)" by (intro mapm_these) (auto simp: apply_ty_def)
    then show ?case by simp
  next
    case (TFun ts t)
    then have "mapm (apply_to_type s) ts = Some (map (apply_ty s) ts)" by (intro mapm_these) (auto simp: apply_ty_def)
    with TFun show ?case by auto
  next
    case (TEnum n ts)
    then have "mapm (apply_to_type s) ts = Some (map (apply_ty s) ts)" by (intro mapm_these) (auto simp: apply_ty_def)
    then show ?case by simp
  qed auto
  then show ?thesis by (auto simp: apply_ty_def)
qed

lemma apply_fields:
  "resolved_by s s \<Longrightarrow> mapm_snd (apply_to_type s) fs = Some (map (apsnd (apply_ty s)) fs)"
  by (rule mapm_snd_these) (simp add: apply_total)

lemma apply_list: "resolved_by s s \<Longrightarrow> mapm (apply_to_type s) ts = Some (map (apply_ty s) ts)"
  by (rule mapm_these) (simp add: apply_total)

lemma apply_ty_id: "resolved s t \<Longrightarrow> apply_ty s t = t"
  by (simp add: apply_ty_def resolved_id)

lemma apply_ty_ids: "\<forall>p \<in> set fs. resolved s (snd p) \<Longrightarrow> map (apsnd (apply_ty s)) fs = fs"
  by (rule map_idI) (auto simp: apply_ty_id)

lemma apply_ty_simps:
  assumes s: "resolved_by s s"
  shows "apply_ty s (TEnum n ts) = TEnum n (map (apply_ty s) ts)"
    and "apply_ty s (TTuple ts) = TTuple (map (apply_ty s) ts)"
    and "apply_ty s (TFun ts t) = TFun (map (apply_ty s) ts) (apply_ty s t)"
    and "apply_ty s (TList t) = TList (apply_ty s t)"
    and "apply_ty s (TRef t) = TRef (apply_ty s t)"
    and "apply_ty s (TDict k t) = TDict (apply_ty s k) (apply_ty s t)"
    and "apply_ty s (TRecord fs rest) =
      TRecord (map (apsnd (apply_ty s)) fs @ fst (tail_step (row_solutions s) rest)) (snd (tail_step (row_solutions s) rest))"
    and "apply_ty s (TPartialTuple is rest) =
      partial_tuple (map (apsnd (apply_ty s)) is @ fst (tail_step (tuple_row_solutions s) rest))
        (snd (tail_step (tuple_row_solutions s) rest))"
  using resolved_byD(2,3) [OF s, THEN tail_step_resolved, THEN apply_ty_ids]
  by (simp_all add: apply_ty_def [of s "TEnum n ts"] apply_ty_def [of s "TTuple ts"] apply_ty_def [of s "TFun ts t"]
      apply_ty_def [of s "TList t"] apply_ty_def [of s "TRef t"] apply_ty_def [of s "TDict k t"]
      apply_ty_def [of s "TRecord fs rest"] apply_ty_def [of s "TPartialTuple is rest"] apply_list [OF s] apply_total [OF s]
      apply_fields [OF s] chain_step [OF resolved_byD(2) [OF s]] chain_step [OF resolved_byD(3) [OF s]])

lemma apply_ty_bases:
  "apply_ty s TUnknown = TUnknown" "apply_ty s TBool = TBool" "apply_ty s TInt = TInt" "apply_ty s TFloat = TFloat"
  "apply_ty s TInstant = TInstant" "apply_ty s TDuration = TDuration" "apply_ty s TString = TString"
  "apply_ty s TBytes = TBytes" "apply_ty s TNothing = TNothing"
  by (simp_all add: apply_ty_def)

lemma apply_partial:
  assumes s: "resolved_by s s"
  shows "apply_ty s (partial_tuple gs rest) = apply_ty s (TPartialTuple gs rest)"
proof (cases "rest = None \<and> gs \<noteq> []")
  case True
  then show ?thesis
    by (simp add: partial_tuple_def Let_def apply_ty_simps [OF s] tail_step_def sort_key_map_apsnd sort_key_id_if_sorted)
next
  case False
  then have "partial_tuple gs rest = TPartialTuple gs rest" by (auto simp: partial_tuple_def)
  then show ?thesis by simp
qed

section \<open>What is left is resolved\<close>

lemma resolved_partial:
  assumes "\<forall>p \<in> set fs. resolved k (snd p)" and "\<And>t. rest = Some t \<Longrightarrow> map_of (tuple_row_solutions k) t = None"
  shows "resolved k (partial_tuple fs rest)"
  by (rule partial_tuple_cases [of fs rest]) (use assms in auto)

lemma apply_resolved:
  assumes s: "resolved_by s s" and k: "resolved_by k s"
  shows "k = s \<or> resolved k t \<Longrightarrow> resolved k (apply_ty s t)"
proof (induction t)
  case (TVar n)
  then show ?case using resolved_byD(1) [OF k, of n] by (auto simp: apply_ty_def split: option.split)
next
  case (TPartialTuple fs rest)
  have "resolved k (apply_ty s (snd p))" if "p \<in> set fs" for p
    using TPartialTuple that by (cases p) (fastforce simp: snds.simps)
  moreover have "map_of (tuple_row_solutions k) t = None" if "snd (tail_step (tuple_row_solutions s) rest) = Some t" for t
    by (rule tail_step_end [OF resolved_byD(3) [OF k] _ that]) (use TPartialTuple.prems in auto)
  ultimately show ?case using tail_step_resolved [OF resolved_byD(3) [OF k], of rest]
    unfolding apply_ty_simps [OF s] by (intro resolved_partial) (simp_all add: ball_Un)
next
  case (TRecord fs rest)
  have "resolved k (apply_ty s (snd p))" if "p \<in> set fs" for p
    using TRecord that by (cases p) (fastforce simp: snds.simps)
  moreover have "map_of (row_solutions k) t = None" if "snd (tail_step (row_solutions s) rest) = Some t" for t
    by (rule tail_step_end [OF resolved_byD(2) [OF k] _ that]) (use TRecord.prems in auto)
  ultimately show ?case using tail_step_resolved [OF resolved_byD(2) [OF k], of rest]
    unfolding apply_ty_simps [OF s] by (simp add: ball_Un)
qed (auto simp: apply_ty_simps [OF s] apply_ty_bases)

section \<open>The composition\<close>

text \<open>What the three maps of \<open>compose s other\<close> give.\<close>

definition composed_row :: "substitution \<Rightarrow> (nat \<times> 'k row_sol) list \<Rightarrow> 'k row_sol \<Rightarrow> 'k row_sol" where
  "composed_row other rows sol =
     \<lparr>row_fields = map (apsnd (apply_ty other)) (row_fields sol) @ fst (tail_step rows (row_tail sol)),
      row_tail = snd (tail_step rows (row_tail sol))\<rparr>"

lemma compose_row_composed:
  assumes "resolved_by other other" and "rows_resolved other rows rows"
  shows "compose_row other rows sol = Some (composed_row other rows sol)"
proof (cases "Option.bind (row_tail sol) (map_of rows)")
  case None
  then show ?thesis by (simp add: compose_row_def composed_row_def tail_step_def apply_fields [OF assms(1)])
next
  case (Some osol)
  then obtain r where r: "map_of rows r = Some osol" by (auto simp: bind_eq_Some_conv)
  have "map (apsnd (apply_ty other)) (row_fields osol) = row_fields osol"
    by (rule apply_ty_ids) (use rows_resolvedD(1) [OF assms(2) r] in blast)
  with Some show ?thesis by (simp add: compose_row_def composed_row_def tail_step_def apply_fields [OF assms(1)])
qed

definition union_rows :: "('a \<Rightarrow> 'b) \<Rightarrow> (nat \<times> 'a) list \<Rightarrow> (nat \<times> 'b) list \<Rightarrow> nat \<Rightarrow> 'b option" where
  "union_rows g xs ys r = (case map_of xs r of Some sol \<Rightarrow> Some (g sol) | None \<Rightarrow> map_of ys r)"

lemma compose_defined:
  assumes o: "resolved_by other other" and k: "keyed other" and d: "disjoint_keys s other"
  obtains u where "compose s other = Some u"
    and "\<And>n. map_of (solutions u) n = union_rows (apply_ty other) (solutions s) (solutions other) n"
    and "\<And>r. map_of (row_solutions u) r
      = union_rows (composed_row other (row_solutions other)) (row_solutions s) (row_solutions other) r"
    and "\<And>r. map_of (tuple_row_solutions u) r
      = union_rows (composed_row other (tuple_row_solutions other)) (tuple_row_solutions s) (tuple_row_solutions other) r"
proof
  let ?row = "\<lambda>rows. map (apsnd (composed_row other rows))"
  let ?u = "\<lparr>solutions = fold (\<lambda>p. AList.update (fst p) (snd p)) (solutions other) (map (apsnd (apply_ty other)) (solutions s)),
    row_solutions = fold (\<lambda>p. or_insert (fst p) (snd p)) (row_solutions other)
      (map (apsnd (composed_row other (row_solutions other))) (row_solutions s)),
    tuple_row_solutions = fold (\<lambda>p. or_insert (fst p) (snd p)) (tuple_row_solutions other)
      (map (apsnd (composed_row other (tuple_row_solutions other))) (tuple_row_solutions s))\<rparr>"
  have r: "mapm_snd (compose_row other (row_solutions other)) (row_solutions s)
      = Some (map (apsnd (composed_row other (row_solutions other))) (row_solutions s))"
    by (rule mapm_snd_these) (simp add: compose_row_composed [OF o resolved_byD(2) [OF o]])
  have t: "mapm_snd (compose_row other (tuple_row_solutions other)) (tuple_row_solutions s)
      = Some (map (apsnd (composed_row other (tuple_row_solutions other))) (tuple_row_solutions s))"
    by (rule mapm_snd_these) (simp add: compose_row_composed [OF o resolved_byD(3) [OF o]])
  show "compose s other = Some ?u" by (simp add: compose_def apply_fields [OF o] r t)
  have dn: "map_of (solutions s) n = None \<or> map_of (solutions other) n = None" for n
    using d by (auto simp: disjoint_keys_def map_of_eq_None_iff)
  have "distinct (map fst (solutions other))" using k by (simp add: keyed_def)
  note m = map_of_updates [OF this]
  show "map_of (solutions ?u) n = union_rows (apply_ty other) (solutions s) (solutions other) n" for n
    using dn [of n] by (auto simp: m union_rows_def map_of_apsnd map_add_def split: option.split)
  show "map_of (row_solutions ?u) r
      = union_rows (composed_row other (row_solutions other)) (row_solutions s) (row_solutions other) r" for r
    by (auto simp: map_of_or_insert union_rows_def map_of_apsnd map_add_def split: option.split)
  show "map_of (tuple_row_solutions ?u) r
      = union_rows (composed_row other (tuple_row_solutions other)) (tuple_row_solutions s) (tuple_row_solutions other) r" for r
    by (auto simp: map_of_or_insert union_rows_def map_of_apsnd map_add_def split: option.split)
qed

text \<open>A step through the composed rows is a step through the rows of \<open>s\<close>, then one through those of \<open>other\<close>.\<close>

lemma tail_step_composed:
  assumes "\<And>r. map_of urows r = union_rows (composed_row other orows) srows orows r"
  shows "tail_step urows rest =
    (map (apsnd (apply_ty other)) (fst (tail_step srows rest)) @ fst (tail_step orows (snd (tail_step srows rest))),
     snd (tail_step orows (snd (tail_step srows rest))))"
proof (cases rest)
  case (Some r)
  then show ?thesis
    by (cases "map_of srows r") (auto simp: tail_step_def assms union_rows_def composed_row_def split: option.split)
qed (simp add: tail_step_def)

definition union_domain :: "substitution \<Rightarrow> substitution \<Rightarrow> substitution \<Rightarrow> bool" where
  "union_domain u s k \<longleftrightarrow>
     (\<forall>n. map_of (solutions s) n = None \<longrightarrow> map_of (solutions k) n = None \<longrightarrow> map_of (solutions u) n = None)
     \<and> (\<forall>r. map_of (row_solutions s) r = None \<longrightarrow> map_of (row_solutions k) r = None \<longrightarrow> map_of (row_solutions u) r = None)
     \<and> (\<forall>r. map_of (tuple_row_solutions s) r = None \<longrightarrow> map_of (tuple_row_solutions k) r = None
          \<longrightarrow> map_of (tuple_row_solutions u) r = None)"

lemma resolved_union: "resolved s t \<Longrightarrow> resolved k t \<Longrightarrow> union_domain u s k \<Longrightarrow> resolved u t"
  by (induction s t rule: resolved.induct) (auto simp: union_domain_def)

lemma composed_rows_resolved:
  assumes s: "rows_resolved s srows srows" and o: "rows_resolved other orows orows" and so: "rows_resolved s srows orows"
    and after: "\<And>t. resolved s t \<Longrightarrow> resolved u (apply_ty other t)"
    and both: "\<And>t. resolved s t \<Longrightarrow> resolved other t \<Longrightarrow> resolved u t"
    and u: "\<And>r. map_of urows r = union_rows (composed_row other orows) srows orows r"
  shows "rows_resolved u urows urows"
  unfolding rows_resolved_def
proof (intro allI impI)
  have free: "map_of srows t = None \<Longrightarrow> map_of orows t = None \<Longrightarrow> map_of urows t = None" for t
    by (simp add: u union_rows_def)
  fix r sol assume sol: "map_of urows r = Some sol"
  show "(\<forall>p \<in> set (row_fields sol). resolved u (snd p)) \<and> (\<forall>t. row_tail sol = Some t \<longrightarrow> map_of urows t = None)"
  proof (cases "map_of srows r")
    case None
    with sol have ro: "map_of orows r = Some sol" by (simp add: u union_rows_def)
    show ?thesis
      using rows_resolvedD [OF o ro] rows_resolvedD [OF so ro] by (blast intro: both free)
  next
    case (Some sol0)
    with sol have c: "sol = composed_row other orows sol0" by (simp add: u union_rows_def)
    note r0 = rows_resolvedD [OF s Some]
    have "map_of srows t = None" "map_of orows t = None" if "snd (tail_step orows (row_tail sol0)) = Some t" for t
      by (rule tail_step_end [OF so _ that], erule r0(2)) (rule tail_step_end [OF o _ that])
    then have "\<forall>t. row_tail sol = Some t \<longrightarrow> map_of urows t = None" by (simp add: c composed_row_def free)
    moreover have "\<forall>p \<in> set (fst (tail_step orows (row_tail sol0))). resolved u (snd p)"
      using tail_step_resolved [OF so] tail_step_resolved [OF o] both by blast
    ultimately show ?thesis by (simp add: c composed_row_def ball_Un after r0(1))
  qed
qed

text \<open>
  C33. Composition is sequential application. Let no type of \<open>s\<close> or of \<open>other\<close> mention a variable that
  \<open>s\<close> binds, no type of \<open>other\<close> one that \<open>other\<close> binds, let the two bind different variables, each
  entry of \<open>other\<close> having its own key, and let no partial tuple in their types be a closed tuple.
  Then \<open>compose s other\<close> is defined, and applying it to any type gives what applying \<open>s\<close> and then
  \<open>other\<close> gives; all three applications return.
\<close>

theorem compose_applies:
  assumes "keyed other" and "disjoint_keys s other" and s: "resolved_by s s" and o: "resolved_by other other"
    and so: "resolved_by s other"
  shows "\<exists>u. compose s other = Some u \<and>
    (\<forall>t. \<exists>t1 t2. apply_to_type s t = Some t1 \<and> apply_to_type other t1 = Some t2 \<and> apply_to_type u t = Some t2)"
proof -
  from compose_defined [OF o assms(1,2)] obtain u where u: "compose s other = Some u"
    and n: "\<And>n. map_of (solutions u) n = union_rows (apply_ty other) (solutions s) (solutions other) n"
    and r: "\<And>r. map_of (row_solutions u) r
      = union_rows (composed_row other (row_solutions other)) (row_solutions s) (row_solutions other) r"
    and t: "\<And>r. map_of (tuple_row_solutions u) r
      = union_rows (composed_row other (tuple_row_solutions other)) (tuple_row_solutions s) (tuple_row_solutions other) r"
    by blast
  have dom: "union_domain u s other" by (simp add: union_domain_def union_rows_def n r t)
  have both: "resolved s w \<Longrightarrow> resolved other w \<Longrightarrow> resolved u w" for w using dom by (blast intro: resolved_union)
  have after: "resolved s w \<Longrightarrow> resolved u (apply_ty other w)" for w
    by (rule both) (simp_all add: apply_resolved [OF o so] apply_resolved [OF o o])
  have "resolved u w" if "map_of (solutions u) m = Some w" for m w
    using that resolved_byD(1) [OF s, of m] resolved_byD(1) [OF o, of m] resolved_byD(1) [OF so, of m]
    by (auto simp: n union_rows_def after both split: option.splits)
  then have uu: "resolved_by u u"
    unfolding resolved_by_def
    using composed_rows_resolved [OF resolved_byD(2) [OF s] resolved_byD(2) [OF o] resolved_byD(2) [OF so] after both r]
      composed_rows_resolved [OF resolved_byD(3) [OF s] resolved_byD(3) [OF o] resolved_byD(3) [OF so] after both t] by blast
  note app = apply_ty_simps [OF s] apply_ty_simps [OF o] apply_ty_simps [OF uu] apply_partial [OF o] apply_ty_bases
  have "apply_ty u w = apply_ty other (apply_ty s w)" for w
  proof (induction w)
    case (TVar m)
    show ?case using assms(2) by (auto simp: apply_ty_def n union_rows_def split: option.split)
  next
    case (TPartialTuple fs rest)
    then have "map (apsnd (apply_ty u)) fs = map (apsnd (apply_ty other)) (map (apsnd (apply_ty s)) fs)"
      by (fastforce simp: snds.simps)
    then show ?case by (simp add: app tail_step_composed [OF t] cong: map_cong)
  next
    case (TRecord fs rest)
    then have "map (apsnd (apply_ty u)) fs = map (apsnd (apply_ty other)) (map (apsnd (apply_ty s)) fs)"
      by (fastforce simp: snds.simps)
    then show ?case by (simp add: app tail_step_composed [OF r])
  qed (simp_all add: app)
  with u show ?thesis by (auto simp: apply_total [OF s] apply_total [OF o] apply_total [OF uu])
qed

text \<open>A substitution that gives \<open>0\<close> a list of \<open>1\<close>, composed with one that gives \<open>1\<close> an integer.\<close>

theorem compose_applies_witness:
  "\<exists>u. compose (with_entry 0 (TList (TVar 1))) (with_entry 1 TInt) = Some u \<and> apply_to_type u (TVar 0) = Some (TList TInt)"
proof -
  have "keyed (with_entry 1 TInt)" "disjoint_keys (with_entry 0 (TList (TVar 1))) (with_entry 1 TInt)" by code_simp+
  moreover have "resolved_by (with_entry 0 (TList (TVar 1))) (with_entry 0 (TList (TVar 1)))"
    "resolved_by (with_entry 1 TInt) (with_entry 1 TInt)" "resolved_by (with_entry 0 (TList (TVar 1))) (with_entry 1 TInt)"
    by (simp_all add: resolved_by_def rows_resolved_def with_entry_def)
  ultimately obtain u where u: "compose (with_entry 0 (TList (TVar 1))) (with_entry 1 TInt) = Some u"
    and "\<forall>t. \<exists>t1 t2. apply_to_type (with_entry 0 (TList (TVar 1))) t = Some t1 \<and> apply_to_type (with_entry 1 TInt) t1 = Some t2
      \<and> apply_to_type u t = Some t2"
    using compose_applies [of "with_entry 1 TInt" "with_entry 0 (TList (TVar 1))"] by blast
  from this(2) [rule_format, of "TVar 0"] u show ?thesis by (simp add: with_entry_def)
qed

end
