(* ===== verification/UnifyRows.thy ===== *)
theory UnifyRows
  imports UnifyState
begin

text \<open>
  Unification of rows: what two field lists with a row each have in common, for records and for
  partial tuples alike.
\<close>

section \<open>The fields of two rows\<close>

lemma map_of_filter_keys: "map_of (filter (\<lambda>p. fst p \<notin> S) xs) k = (if k \<in> S then None else map_of xs k)"
  by (induction xs) auto

lemma fmlookup_extra:
  "fmlookup (eval_fields v (extra_fields f1 f2)) k = (if k \<in> fst ` set f1 then None else fmlookup (eval_fields v f2) k)"
  by (simp add: fmlookup_eval_fields extra_fields_def rev_filter map_of_filter_keys)

lemma last_field_in:
  assumes "k \<in> fst ` set fs"
  shows "map_of (rev fs) k = Some (last_field fs k)" and "(k, last_field fs k) \<in> set fs"
proof -
  from assms have "map_of (rev fs) k \<noteq> None" by (simp add: map_of_eq_None_iff)
  then show "map_of (rev fs) k = Some (last_field fs k)" by (auto simp: last_field_def)
  then show "(k, last_field fs k) \<in> set fs" using map_of_SomeD by fastforce
qed

lemma fmlookup_last: "k \<in> fst ` set fs \<Longrightarrow> fmlookup (eval_fields v fs) k = Some (eval v (last_field fs k))"
  by (simp add: fmlookup_eval_fields last_field_in(1))

lemma fmlookup_no_field: "k \<notin> fst ` set fs \<Longrightarrow> fmlookup (eval_fields v fs) k = None"
  by (simp add: fmlookup_eval_fields map_of_eq_None_iff)

definition shared_agree :: "valuation \<Rightarrow> ('k \<times> ty) list \<Rightarrow> ('k \<times> ty) list \<Rightarrow> bool" where
  "shared_agree v f1 f2 \<longleftrightarrow>
     (\<forall>k \<in> fst ` set f1 \<inter> fst ` set f2. eval v (last_field f1 k) = eval v (last_field f2 k))"

definition shared_items :: "range \<Rightarrow> (ty \<times> ty) list \<Rightarrow> work_item list" where
  "shared_items r ps = map (\<lambda>(a, b). (a, b, r)) ps"

lemma push_shared_items: "push_shared r ps = push_all (shared_items r ps)"
  by (simp add: push_shared_def shared_items_def)

lemma agree_shared:
  "(\<And>ks. set (ord ks) = set ks) \<Longrightarrow> agree v (shared_items r (shared_fields ord f1 f2)) \<longleftrightarrow> shared_agree v f1 f2"
  by (auto simp: agree_def shared_items_def shared_fields_def shared_agree_def)

lemma items_shared:
  assumes "\<And>ks. set (ord ks) = set ks" and "\<forall>p \<in> set f1. W (snd p)" and "\<forall>p \<in> set f2. W (snd p)"
  shows "items_ok W (shared_items r (shared_fields ord f1 f2))"
proof -
  have "W (last_field f1 k) \<and> W (last_field f2 k)" if "k \<in> fst ` set f1" "k \<in> fst ` set f2" for k
    using assms(2,3) last_field_in(2) [OF that(1)] last_field_in(2) [OF that(2)] by fastforce
  then show ?thesis by (simp add: items_ok_def shared_items_def shared_fields_def assms(1))
qed

lemma add_lookup: "fmlookup (m ++\<^sub>f n) k = (case fmlookup n k of None \<Rightarrow> fmlookup m k | Some x \<Rightarrow> Some x)"
  by (simp add: fmadd.rep_eq map_add_def)

lemma rows_meet:
  assumes "shared_agree v f1 f2"
  shows "eval_fields v f1 ++\<^sub>f eval_fields v (extra_fields f1 f2) = eval_fields v f2 ++\<^sub>f eval_fields v (extra_fields f2 f1)"
proof (rule fmap_ext)
  fix k
  show "fmlookup (eval_fields v f1 ++\<^sub>f eval_fields v (extra_fields f1 f2)) k
      = fmlookup (eval_fields v f2 ++\<^sub>f eval_fields v (extra_fields f2 f1)) k"
    using assms by (cases "k \<in> fst ` set f1"; cases "k \<in> fst ` set f2")
      (simp_all add: add_lookup fmlookup_extra shared_agree_def fmlookup_last fmlookup_no_field del: fmlookup_add)
qed

lemma extra_fields_keys: "fst ` set (extra_fields f1 f2) = fst ` set f2 - fst ` set f1"
  by (auto simp: extra_fields_def)

lemma extra_fields_sub: "set (extra_fields f1 f2) \<subseteq> set f2"
  by (auto simp: extra_fields_def)

lemma extra_fields_distinct: "distinct (map fst f2) \<Longrightarrow> distinct (map fst (extra_fields f1 f2))"
  by (simp add: extra_fields_def distinct_map_filter)

lemma extra_fields_Nil: "extra_fields f1 f2 = [] \<longleftrightarrow> fst ` set f2 \<subseteq> fst ` set f1"
  by (auto simp: extra_fields_def filter_empty_conv)

text \<open>A row solved by the fields its side lacks is well-kinded.\<close>

lemma wk_row_extra:
  assumes "L r = Some (fst ` set f1)" and "distinct (map fst f2)" and "\<forall>p \<in> set f2. W (snd p)"
    and "open_ok closed L (fst ` set f1 \<union> fst ` set f2) rest" and "\<And>t. rest = Some t \<Longrightarrow> r < t"
  shows "wk_row closed L W r \<lparr>row_fields = extra_fields f1 f2, row_tail = rest\<rparr>"
  using assms extra_fields_sub [of f1 f2]
  by (auto simp: wk_row_def extra_fields_keys intro: extra_fields_distinct)

section \<open>Solving two rows\<close>

text \<open>
  The common part of the two worklist functions for rows: when they report nothing, and what
  they do then.
\<close>

definition rows_fit :: "('k \<times> ty) list \<Rightarrow> nat option \<Rightarrow> ('k \<times> ty) list \<Rightarrow> nat option \<Rightarrow> bool" where
  "rows_fit f1 t1 f2 t2 \<longleftrightarrow>
     (t1 = None \<or> t1 = t2 \<longrightarrow> extra_fields f1 f2 = []) \<and> (t2 = None \<or> t1 = t2 \<longrightarrow> extra_fields f2 f1 = [])"

definition solve_rows ::
    "(nat \<Rightarrow> 'k row_sol \<Rightarrow> solver \<Rightarrow> solver) \<Rightarrow> work_item list \<Rightarrow> ('k \<times> ty) list \<Rightarrow> nat option
     \<Rightarrow> ('k \<times> ty) list \<Rightarrow> nat option \<Rightarrow> solver \<Rightarrow> solver" where
  "solve_rows bindf items f1 t1 f2 t2 st =
     (if t1 = t2 then push_all items st
      else case t1 of
        None \<Rightarrow> bindf (the t2) \<lparr>row_fields = extra_fields f2 f1, row_tail = None\<rparr> (push_all items st)
      | Some r1 \<Rightarrow>
          (case t2 of
             None \<Rightarrow> bindf r1 \<lparr>row_fields = extra_fields f1 f2, row_tail = None\<rparr> (push_all items st)
           | Some r2 \<Rightarrow>
               bindf r2 \<lparr>row_fields = extra_fields f2 f1, row_tail = Some (next_var st)\<rparr>
                 (bindf r1 \<lparr>row_fields = extra_fields f1 f2, row_tail = Some (next_var st)\<rparr>
                   (push_all items (snd (new_row_var st))))))"

lemma diags_report: "diags (report_missing r t fs st) = diags st @ map (\<lambda>p. (r, RecordFieldNotPresent (fst p) t)) fs"
  unfolding report_missing_def by (induction fs arbitrary: st) auto

lemma records_worklist:
  "diags (unify_records_worklist h f1 t1 f2 t2 rng st) = diags st \<longleftrightarrow> rows_fit f1 t1 f2 t2"
  "rows_fit f1 t1 f2 t2 \<Longrightarrow> unify_records_worklist h f1 t1 f2 t2 rng st =
     solve_rows bind_row (shared_items rng (shared_fields (label_order h (turn st)) f1 f2)) f1 t1 f2 t2 st"
  by (auto simp: unify_records_worklist_def Let_def rows_fit_def solve_rows_def diags_report new_row_var_def
      push_shared_items split: option.splits if_splits)

lemma tuples_worklist:
  "diags (unify_tuples_worklist h f1 t1 f2 t2 rng st) = diags st \<longleftrightarrow> rows_fit f1 t1 f2 t2"
  "rows_fit f1 t1 f2 t2 \<Longrightarrow> unify_tuples_worklist h f1 t1 f2 t2 rng st =
     solve_rows bind_tuple_row (shared_items rng (shared_fields (index_order h (turn st)) f1 f2)) f1 t1 f2 t2 st"
  by (auto simp: unify_tuples_worklist_def Let_def rows_fit_def solve_rows_def new_row_var_def
      push_shared_items split: option.splits if_splits)

text \<open>
  The step from one state to another keeps the kinds, and every valuation that satisfies the new
  state satisfies the old one and the equation that was taken off the worklist.
\<close>

definition good :: "kinds \<Rightarrow> solver \<Rightarrow> solver \<Rightarrow> (valuation \<Rightarrow> bool) \<Rightarrow> bool" where
  "good K st st' P \<longleftrightarrow> (\<exists>L. grown K L \<and> state_ok L st') \<and> (\<forall>v. sat v st' \<longrightarrow> sat v st \<and> P v)"

lemma goodI: "state_ok K st' \<Longrightarrow> (\<And>v. sat v st' \<Longrightarrow> sat v st \<and> P v) \<Longrightarrow> good K st st' P"
  unfolding good_def using grown_refl by blast

lemma goodI_grown: "grown K L \<Longrightarrow> state_ok L st' \<Longrightarrow> (\<And>v. sat v st' \<Longrightarrow> sat v st \<and> P v) \<Longrightarrow> good K st st' P"
  unfolding good_def by blast

lemma bound_simps [simp]:
  "diags (snd (new_row_var st)) = diags st" "chained (snd (new_row_var st)) = chained st"
  "chained (push_all xs st) = chained st" "next_var (push_all xs st) = next_var st"
  by (simp_all add: new_row_var_def push_all_def)

text \<open>One sort of rows: the labels of records or the indices of partial tuples.\<close>

locale row_sort =
  fixes closed :: "'k set \<Rightarrow> bool"
    and kind_of :: "kinds \<Rightarrow> nat \<Rightarrow> 'k set option"
    and with_kind :: "kinds \<Rightarrow> nat \<Rightarrow> 'k set \<Rightarrow> kinds"
    and rows_of :: "substitution \<Rightarrow> (nat \<times> 'k row_sol) list"
    and bindf :: "nat \<Rightarrow> 'k row_sol \<Rightarrow> solver \<Rightarrow> solver"
    and val :: "valuation \<Rightarrow> nat \<Rightarrow> ('k, gty) fmap"
  assumes bind_sat: "map_of (rows_of (chained st)) r = None \<Longrightarrow>
      sat v (bindf r sol st) \<longleftrightarrow> sat v st \<and> val v r = eval_fields v (row_fields sol) ++\<^sub>f tail_map (val v) (row_tail sol)"
    and bind_inv: "state_ok K st \<Longrightarrow> wk_row closed (kind_of K) (wk K) r sol \<Longrightarrow> state_ok K (bindf r sol st)"
    and bind_rows: "map_of (rows_of (chained (bindf r sol st))) = (map_of (rows_of (chained st)))(r \<mapsto> sol)"
    and below: "state_ok K st \<Longrightarrow> kind_of K r = Some A \<Longrightarrow> r < next_var st"
    and new_kind: "state_ok K st \<Longrightarrow> grown K (with_kind K (next_var st) A) \<and> state_ok (with_kind K (next_var st) A) (snd (new_row_var st))"
    and kind_with: "kind_of (with_kind K r A) = (kind_of K)(r \<mapsto> A)"
begin

lemma solve_fresh_inv:
  assumes "state_ok K st" and "items_ok (wk K) items" and "distinct (map fst f1)" and "distinct (map fst f2)"
    and "\<forall>p \<in> set f1. wk K (snd p)" and "\<forall>p \<in> set f2. wk K (snd p)"
    and "kind_of K r1 = Some (fst ` set f1)" and "kind_of K r2 = Some (fst ` set f2)" and "r1 \<noteq> r2"
  shows "state_ok (with_kind K (next_var st) (fst ` set f1 \<union> fst ` set f2)) (solve_rows bindf items f1 (Some r1) f2 (Some r2) st)"
proof -
  let ?f = "next_var st"
  let ?L = "with_kind K ?f (fst ` set f1 \<union> fst ` set f2)"
  have new: "grown K ?L" "state_ok ?L (snd (new_row_var st))" using new_kind [OF assms(1)] by auto
  have lt: "r1 < ?f" "r2 < ?f" using below [OF assms(1)] assms(7,8) by auto
  have W: "wk ?L t" if "wk K t" for t using wk_grown [OF that new(1)] .
  have k: "wk_row closed (kind_of ?L) (wk ?L) r1 \<lparr>row_fields = extra_fields f1 f2, row_tail = Some ?f\<rparr>"
    "wk_row closed (kind_of ?L) (wk ?L) r2 \<lparr>row_fields = extra_fields f2 f1, row_tail = Some ?f\<rparr>"
    by (rule wk_row_extra; use assms(3-8) lt W in \<open>auto simp: open_ok_def kind_with\<close>)+
  have "state_ok ?L (push_all items (snd (new_row_var st)))"
    by (rule inv_push [OF new(2) items_ok_grown [OF assms(2) new(1)]])
  from bind_inv [OF bind_inv [OF this k(1)] k(2)] show ?thesis using assms(9) by (simp add: solve_rows_def)
qed

lemma solve_same_inv:
  assumes "state_ok K st" and "items_ok (wk K) items" and "fields_ok closed (kind_of K) f1 t1" and "fields_ok closed (kind_of K) f2 t2"
    and "\<forall>p \<in> set f1. wk K (snd p)" and "\<forall>p \<in> set f2. wk K (snd p)" and "rows_fit f1 t1 f2 t2"
    and "t1 = None \<or> t2 = None \<or> t1 = t2"
  shows "state_ok K (solve_rows bindf items f1 t1 f2 t2 st)"
proof -
  have ip: "state_ok K (push_all items st)" by (rule inv_push [OF assms(1,2)])
  have d: "distinct (map fst f1)" "distinct (map fst f2)" using assms(3,4) by (simp_all add: fields_ok_def)
  have 1: "wk_row closed (kind_of K) (wk K) r \<lparr>row_fields = extra_fields f2 f1, row_tail = None\<rparr>" if "t2 = Some r" "t1 = None" for r
    by (rule wk_row_extra) (use assms(3-7) d that in \<open>auto simp: fields_ok_def open_ok_def rows_fit_def extra_fields_Nil Un_absorb1\<close>)
  have 2: "wk_row closed (kind_of K) (wk K) r \<lparr>row_fields = extra_fields f1 f2, row_tail = None\<rparr>" if "t1 = Some r" "t2 = None" for r
    by (rule wk_row_extra) (use assms(3-7) d that in \<open>auto simp: fields_ok_def open_ok_def rows_fit_def extra_fields_Nil Un_absorb1\<close>)
  show ?thesis using assms(8) ip bind_inv [OF ip 1] bind_inv [OF ip 2] by (auto simp: solve_rows_def split: option.split)
qed

lemma solve_inv:
  assumes "state_ok K st" and "items_ok (wk K) items" and "fields_ok closed (kind_of K) f1 t1" and "fields_ok closed (kind_of K) f2 t2"
    and "\<forall>p \<in> set f1. wk K (snd p)" and "\<forall>p \<in> set f2. wk K (snd p)" and "rows_fit f1 t1 f2 t2"
  shows "\<exists>L. grown K L \<and> state_ok L (solve_rows bindf items f1 t1 f2 t2 st)"
proof (cases "t1 = None \<or> t2 = None \<or> t1 = t2")
  case True
  from solve_same_inv [OF assms True] show ?thesis using grown_refl by blast
next
  case False
  then obtain r1 r2 where r: "t1 = Some r1" "t2 = Some r2" "r1 \<noteq> r2" by auto
  from solve_fresh_inv [OF assms(1,2) _ _ assms(5,6) _ _ r(3)] assms(3,4) new_kind [OF assms(1)] r(1,2)
  show ?thesis by (auto simp: fields_ok_def open_ok_def)
qed

text \<open>What a solved pair of rows says of a valuation.\<close>

lemma solve_sat:
  assumes "\<forall>r. t1 = Some r \<longrightarrow> map_of (rows_of (chained st)) r = None"
    and "\<forall>r. t2 = Some r \<longrightarrow> map_of (rows_of (chained st)) r = None"
  shows "sat v (solve_rows bindf items f1 t1 f2 t2 st) \<longleftrightarrow> sat v st \<and> agree v items
    \<and> (t1 = t2 \<or> (\<exists>rest. (t1 \<noteq> None \<and> t2 \<noteq> None \<longrightarrow> rest = Some (next_var st)) \<and> (t1 = None \<or> t2 = None \<longrightarrow> rest = None)
       \<and> (\<forall>r. t1 = Some r \<longrightarrow> val v r = eval_fields v (extra_fields f1 f2) ++\<^sub>f tail_map (val v) rest)
       \<and> (\<forall>r. t2 = Some r \<longrightarrow> val v r = eval_fields v (extra_fields f2 f1) ++\<^sub>f tail_map (val v) rest)))"
  using assms by (auto simp: solve_rows_def bind_sat bind_rows split: option.split)

lemma solve_good:
  assumes "state_ok K st" and "items_ok (wk K) items" and "fields_ok closed (kind_of K) f1 t1" and "fields_ok closed (kind_of K) f2 t2"
    and "\<forall>p \<in> set f1. wk K (snd p)" and "\<forall>p \<in> set f2. wk K (snd p)" and fit: "rows_fit f1 t1 f2 t2"
    and "\<forall>r. t1 = Some r \<longrightarrow> map_of (rows_of (chained st)) r = None"
    and "\<forall>r. t2 = Some r \<longrightarrow> map_of (rows_of (chained st)) r = None"
    and items: "\<And>v. agree v items \<longleftrightarrow> shared_agree v f1 f2"
  shows "good K st (solve_rows bindf items f1 t1 f2 t2 st)
    (\<lambda>v. eval_fields v f1 ++\<^sub>f tail_map (val v) t1 = eval_fields v f2 ++\<^sub>f tail_map (val v) t2)"
  unfolding good_def
proof (intro conjI allI impI)
  show "\<exists>L. grown K L \<and> state_ok L (solve_rows bindf items f1 t1 f2 t2 st)" by (rule solve_inv [OF assms(1-7)])
  fix v assume "sat v (solve_rows bindf items f1 t1 f2 t2 st)"
  note v = this [unfolded solve_sat [OF assms(8,9)]]
  from v show "sat v st" by blast
  from v items have "shared_agree v f1 f2" by blast
  note meet = rows_meet [OF this]
  show "eval_fields v f1 ++\<^sub>f tail_map (val v) t1 = eval_fields v f2 ++\<^sub>f tail_map (val v) t2"
  proof (cases "t1 = t2")
    case True
    with fit meet show ?thesis by (simp add: rows_fit_def)
  next
    case False
    with v obtain rest where r: "t1 = None \<or> t2 = None \<longrightarrow> rest = None"
      "\<forall>r. t1 = Some r \<longrightarrow> val v r = eval_fields v (extra_fields f1 f2) ++\<^sub>f tail_map (val v) rest"
      "\<forall>r. t2 = Some r \<longrightarrow> val v r = eval_fields v (extra_fields f2 f1) ++\<^sub>f tail_map (val v) rest" by auto
    have "tail_map (val v) t1 = eval_fields v (extra_fields f1 f2) ++\<^sub>f tail_map (val v) rest"
      using r(1,2) fit by (cases t1) (auto simp: tail_map_def rows_fit_def)
    moreover have "tail_map (val v) t2 = eval_fields v (extra_fields f2 f1) ++\<^sub>f tail_map (val v) rest"
      using r(1,3) fit by (cases t2) (auto simp: tail_map_def rows_fit_def)
    ultimately show ?thesis using meet by (metis fmadd_assoc)
  qed
qed

end

lemma inv_below:
  "state_ok K st \<Longrightarrow> labels K r = Some A \<Longrightarrow> r < next_var st" "state_ok K st \<Longrightarrow> indices K r = Some B \<Longrightarrow> r < next_var st"
  by (auto simp: state_ok_def)

lemma bind_row_rows:
  "map_of (row_solutions (chained (bind_row r sol st))) = (map_of (row_solutions (chained st)))(r \<mapsto> sol)"
  "map_of (tuple_row_solutions (chained (bind_tuple_row r tsol st))) = (map_of (tuple_row_solutions (chained st)))(r \<mapsto> tsol)"
  by (simp_all add: bind_row_def bind_tuple_row_def)

interpretation records: row_sort any_set labels "\<lambda>K r A. K\<lparr>labels := (labels K)(r \<mapsto> A)\<rparr>" row_solutions bind_row row_val
  by unfold_locales (simp_all add: sat_bind_row inv_bind_row bind_row_rows inv_new_row inv_below)

interpretation tuples: row_sort initial_set indices "\<lambda>K r A. K\<lparr>indices := (indices K)(r \<mapsto> A)\<rparr>" tuple_row_solutions bind_tuple_row trow_val
  by unfold_locales (simp_all add: sat_bind_tuple_row inv_bind_tuple_row bind_row_rows inv_new_row inv_below)

end
