(* ===== verification/UnifyRules.thy ===== *)
theory UnifyRules
  imports UnifyRows
begin

text \<open>
  One step of the solver as rules over the heads of the two types, and the diagnostics: no
  operation takes one back.
\<close>

section \<open>Reports\<close>

definition reports :: "solver \<Rightarrow> solver \<Rightarrow> bool" where
  "reports st st' \<longleftrightarrow> (\<exists>ds. diags st' = diags st @ ds)"

lemma reportsI [intro]: "diags st' = diags st @ ds \<Longrightarrow> reports st st'"
  by (auto simp: reports_def)

lemma reports_same: "diags st' = diags st \<Longrightarrow> reports st st'"
  by (simp add: reports_def)

lemma reports_trans: "reports st st' \<Longrightarrow> reports st' st'' \<Longrightarrow> reports st st''"
  by (auto simp: reports_def)

lemma mismatch_diags: "mismatch a b rng st = Some st' \<Longrightarrow> \<exists>e. diags st' = diags st @ [e]"
  by (auto simp: mismatch_def bind_eq_Some_conv)

lemma bind_checked_diags: "bind_checked n t rng st = Some st' \<Longrightarrow> reports st st'"
  by (auto simp: bind_checked_def bind_eq_Some_conv reports_def split: if_splits)

lemma elements_diags: "reports st (unify_elements e1 e2 rng st)"
  by (auto simp: unify_elements_def reports_def)

lemma known_diags:
  "diags (fold (known_index es rng) fs st)
     = diags st @ map (\<lambda>p. (rng, TupleIndexNotPresent (fst p) (TTuple es))) (filter (\<lambda>p. length es \<le> fst p) fs)"
  by (induction fs arbitrary: st) (auto simp: known_index_def)

lemma known_in_bounds:
  "\<forall>p \<in> set fs. fst p < length es \<Longrightarrow>
     fold (known_index es rng) fs st = push_all (map (\<lambda>p. (es ! fst p, snd p, inner)) fs) st"
  by (induction fs arbitrary: st) (auto simp: known_index_def push_all_def)

lemma close_diags: "diags (close_partial es fs rest rng st) = diags (fold (known_index es rng) fs st)"
  by (auto simp: close_partial_def Let_def split: option.split)

lemma records_diags: "reports st (unify_records_worklist h f1 t1 f2 t2 rng st)"
  by (auto simp: reports_def unify_records_worklist_def Let_def diags_report new_row_var_def split: option.split)

lemma tuples_diags: "reports st (unify_tuples_worklist h f1 t1 f2 t2 rng st)"
  by (auto simp: reports_def unify_tuples_worklist_def Let_def new_row_var_def split: option.split)

lemma resolved_diags: "unify_resolved_tuples h a b rng st = Some st' \<Longrightarrow> reports st st'"
  using elements_diags tuples_diags
  by (auto simp: unify_resolved_tuples_def close_diags known_diags reports_def split: ty.splits)

section \<open>The rules for two heads\<close>

text \<open>The head constructor of a type; the two shapes of tuples are one.\<close>

fun head_of :: "ty \<Rightarrow> ty" where
  "head_of (TFun ts t) = TFun [] TUnknown"
| "head_of (TTuple ts) = TTuple []"
| "head_of (TPartialTuple fs rest) = TTuple []"
| "head_of (TRecord fs rest) = TRecord [] None"
| "head_of (TEnum n ts) = TEnum n []"
| "head_of (TList t) = TList TUnknown"
| "head_of (TDict k t) = TDict TUnknown TUnknown"
| "head_of (TRef t) = TRef TUnknown"
| "head_of t = t"

definition is_var :: "ty \<Rightarrow> bool" where
  "is_var t \<longleftrightarrow> (\<exists>n. t = TVar n)"

inductive head_rule :: "hash_orders \<Rightarrow> range \<Rightarrow> solver \<Rightarrow> ty \<Rightarrow> ty \<Rightarrow> solver option \<Rightarrow> bool"
  for h rng st where
  same: "base_type a \<or> is_var a \<Longrightarrow> head_rule h rng st a a (Some st)"
| left: "b \<noteq> TVar n \<Longrightarrow> head_rule h rng st (TVar n) b (bind_checked n b rng st)"
| right: "\<not> is_var a \<Longrightarrow> head_rule h rng st a (TVar m) (bind_checked m a rng st)"
| param_count: "length p1 \<noteq> length p2 \<Longrightarrow>
    head_rule h rng st (TFun p1 r1) (TFun p2 r2) (Some (error_at rng (ParamCountMismatch (length p2) (length p1)) st))"
| funs: "length p1 = length p2 \<Longrightarrow>
    head_rule h rng st (TFun p1 r1) (TFun p2 r2) (Some (push_pairs rng p1 p2 (push_all [(r1, r2, rng)] st)))"
| lists: "head_rule h rng st (TList x) (TList y) (Some (push_all [(x, y, inner)] st))"
| refs: "head_rule h rng st (TRef x) (TRef y) (Some (push_all [(x, y, inner)] st))"
| dicts: "head_rule h rng st (TDict k1 v1) (TDict k2 v2) (Some (push_all [(v1, v2, inner), (k1, k2, inner)] st))"
| tuples: "head_rule h rng st (TTuple e1) (TTuple e2) (Some (unify_elements e1 e2 rng st))"
| partial: "head_of a = TTuple [] \<Longrightarrow> head_of b = TTuple [] \<Longrightarrow> head_rule h rng st a b (unify_partial h a b rng st)"
| records: "head_rule h rng st (TRecord f1 t1) (TRecord f2 t2) (unify_records h (TRecord f1 t1) (TRecord f2 t2) rng st)"
| enums: "head_rule h rng st (TEnum n as) (TEnum n bs) (Some (push_pairs inner as bs st))"
| clash: "head_of a \<noteq> head_of b \<Longrightarrow> \<not> is_var a \<Longrightarrow> \<not> is_var b \<Longrightarrow> head_rule h rng st a b (mismatch a b rng st)"

lemma unify_shapes_rule: "\<not> is_var a \<Longrightarrow> \<not> is_var b \<Longrightarrow> head_rule h rng st a b (unify_shapes h a b rng st)"
  by (cases a; cases b) (auto simp: unify_shapes_def is_var_def base_type_def intro: head_rule.intros)

lemma unify_right_rule: "\<not> is_var a \<Longrightarrow> head_rule h rng st a b (unify_right h a b rng st)"
  using unify_shapes_rule [of a b h rng st]
  by (cases b) (auto simp: unify_right_def is_var_def intro: head_rule.right)

lemma unify_heads_rule: "head_rule h rng st a b (unify_heads h a b rng st)"
  using unify_right_rule [of a h rng st b]
  by (cases a) (auto simp: unify_heads_def is_var_def intro: head_rule.left head_rule.same)

lemma heads_diags:
  assumes "unify_heads h a b rng st = Some st'"
  shows "reports st st'"
  using unify_heads_rule [where h = h and a = a and b = b and rng = rng and st = st] unfolding assms
proof (cases rule: head_rule.cases)
  case clash
  from mismatch_diags [OF clash(1) [symmetric]] show ?thesis by (auto simp: reports_def)
next
  case partial
  then show ?thesis by (auto simp: unify_partial_def bind_eq_Some_conv resolved_diags dest!: sym [of "Some st'"])
next
  case (records f1 t1 f2 t2)
  then show ?thesis using records_diags
    by (auto simp: unify_records_def bind_eq_Some_conv split: ty.splits dest!: sym [of "Some st'"])
qed (auto simp: bind_checked_diags elements_diags reports_same dest!: sym [of "Some st'"])

end
