(* ===== verification/UnifyWeight.thy ===== *)
theory UnifyWeight
  imports UnifyRules Normalize
begin

text \<open>
  Why the solver's walks end when the constraints have a solution: under a valuation that
  satisfies the chained maps, the parts of a type stand for smaller ground types.
\<close>

section \<open>The size of a ground type\<close>

definition total :: "('k, nat) fmap \<Rightarrow> nat" where
  "total m = (\<Sum>k \<in> fset (fmdom m). the (fmlookup m k))"

primrec gweight :: "gty \<Rightarrow> nat" where
  "gweight (GBase t) = 1"
| "gweight (GTuple m) = Suc (total (fmmap gweight m))"
| "gweight (GRecord m) = Suc (total (fmmap gweight m))"
| "gweight (GFun ts t) = Suc (sum_list (map gweight ts) + gweight t)"
| "gweight (GEnum n ts) = Suc (sum_list (map gweight ts))"
| "gweight (GList t) = Suc (gweight t)"
| "gweight (GDict k t) = Suc (gweight k + gweight t)"
| "gweight (GRef t) = Suc (gweight t)"

lemma gweight_pos: "0 < gweight t"
  by (cases t) auto

definition fweight :: "('k, gty) fmap \<Rightarrow> nat" where
  "fweight m = total (fmmap gweight m)"

lemma gweight_maps [simp]: "gweight (GTuple m) = Suc (fweight m)" "gweight (GRecord n) = Suc (fweight n)"
  by (simp_all add: fweight_def)

declare gweight.simps(2,3) [simp del]

lemma fweight_alt: "fweight m = (\<Sum>k \<in> fset (fmdom m). gweight (the (fmlookup m k)))"
  unfolding fweight_def total_def
proof (rule sum.cong)
  fix k assume "k \<in> fset (fmdom m)"
  then obtain t where "fmlookup m k = Some t" by (auto simp: fmlookup_dom_iff)
  then show "the (fmlookup (fmmap gweight m) k) = gweight (the (fmlookup m k))" by simp
qed simp

lemma fweight_empty [simp]: "fweight fmempty = 0"
  by (simp add: fweight_alt)

lemma fweight_add:
  assumes "fset (fmdom m) \<inter> fset (fmdom n) = {}"
  shows "fweight (m ++\<^sub>f n) = fweight m + fweight n"
proof -
  have "fweight (m ++\<^sub>f n) = (\<Sum>k \<in> fset (fmdom m) \<union> fset (fmdom n). gweight (the (fmlookup (m ++\<^sub>f n) k)))"
    by (simp add: fweight_alt)
  also have "\<dots> = (\<Sum>k \<in> fset (fmdom m). gweight (the (fmlookup (m ++\<^sub>f n) k)))
      + (\<Sum>k \<in> fset (fmdom n). gweight (the (fmlookup (m ++\<^sub>f n) k)))"
    by (rule sum.union_disjoint) (use assms in auto)
  also have "(\<Sum>k \<in> fset (fmdom m). gweight (the (fmlookup (m ++\<^sub>f n) k))) = fweight m"
    unfolding fweight_alt by (rule sum.cong) (use assms in auto)
  also have "(\<Sum>k \<in> fset (fmdom n). gweight (the (fmlookup (m ++\<^sub>f n) k))) = fweight n"
    unfolding fweight_alt by (rule sum.cong) auto
  finally show ?thesis .
qed

definition lweight :: "valuation \<Rightarrow> ('k \<times> ty) list \<Rightarrow> nat" where
  "lweight v fs = (\<Sum>p\<leftarrow>fs. gweight (eval v (snd p)))"

lemma fmdom_eval_fields [simp]: "fset (fmdom (eval_fields v fs)) = fst ` set fs"
proof -
  have "k \<in> fset (fmdom (eval_fields v fs)) \<longleftrightarrow> k \<in> fst ` set fs" for k
    by (simp add: fmlookup_dom_iff fmlookup_eval_fields) (metis map_of_eq_None_iff not_None_eq set_rev list.set_map)
  then show ?thesis by blast
qed

lemma fweight_fields: "distinct (map fst fs) \<Longrightarrow> fweight (eval_fields v fs) = lweight v fs"
proof (induction fs)
  case Nil
  then show ?case by (simp add: lweight_def)
next
  case (Cons p fs)
  have "eval_fields v (p # fs) = eval_fields v [p] ++\<^sub>f eval_fields v fs"
    using eval_fields_append [of v "[p]" fs] by simp
  moreover have "fweight (eval_fields v [p]) = gweight (eval v (snd p))"
    by (simp add: fweight_alt fmlookup_eval_fields) 
  ultimately show ?case using Cons by (simp add: fweight_add lweight_def)
qed

section \<open>Valuations that respect the kinds\<close>

definition obeys_rows :: "(nat \<Rightarrow> 'k set option) \<Rightarrow> (nat \<Rightarrow> ('k, gty) fmap) \<Rightarrow> bool" where
  "obeys_rows L rv \<longleftrightarrow> (\<forall>r A. L r = Some A \<longrightarrow> fset (fmdom (rv r)) \<inter> A = {})"

definition obeys :: "kinds \<Rightarrow> valuation \<Rightarrow> bool" where
  "obeys K v \<longleftrightarrow> obeys_rows (labels K) (row_val v) \<and> obeys_rows (indices K) (trow_val v)"

lemma row_disjoint:
  assumes "obeys_rows L rv" and "fields_ok closed L fs rest"
  shows "fst ` set fs \<inter> fset (fmdom (tail_map rv rest)) = {}"
  using assms by (cases rest) (auto simp: obeys_rows_def fields_ok_def open_ok_def tail_map_def)

lemma row_weight:
  assumes "obeys_rows L rv" and "fields_ok closed L fs rest"
  shows "fweight (eval_fields v fs ++\<^sub>f tail_map rv rest) = lweight v fs + fweight (tail_map rv rest)"
  using row_disjoint [OF assms] assms(2) by (simp add: fweight_add fweight_fields fields_ok_def)

lemma weight_rows:
  assumes "obeys K v"
  shows "wk K (TRecord ls rest) \<Longrightarrow> gweight (eval v (TRecord ls rest)) = Suc (lweight v ls + fweight (tail_map (row_val v) rest))"
    and "wk K (TPartialTuple is rest) \<Longrightarrow>
      gweight (eval v (TPartialTuple is rest)) = Suc (lweight v is + fweight (tail_map (trow_val v) rest))"
  using assms row_weight [of "labels K" "row_val v" any_set ls rest v]
    row_weight [of "indices K" "trow_val v" initial_set "is" rest v]
  by (simp_all add: obeys_def)

lemma enumerate_weight: "lweight v (enumerate n ts) = (\<Sum>t\<leftarrow>ts. gweight (eval v t))"
  by (induction ts arbitrary: n) (auto simp: lweight_def)

lemma weight_tuple: "gweight (eval v (TTuple ts)) = Suc (\<Sum>t\<leftarrow>ts. gweight (eval v t))"
  by (simp add: fweight_fields enumerate_weight)

lemma lweight_append [simp]: "lweight v (fs @ gs) = lweight v fs + lweight v gs"
  by (simp add: lweight_def)

lemma lweight_part: "p \<in> set fs \<Longrightarrow> gweight (eval v (snd p)) \<le> lweight v fs"
  unfolding lweight_def by (rule member_le_sum_list) auto

lemma tweight_part: "t \<in> set ts \<Longrightarrow> gweight (eval v t) \<le> (\<Sum>t\<leftarrow>ts. gweight (eval v t))"
  by (rule member_le_sum_list) auto

section \<open>Heads\<close>

definition heads_end :: "(nat \<times> ty) list \<Rightarrow> bool" where
  "heads_end bs \<longleftrightarrow> (\<forall>t. \<exists>h. resolve_head bs t = Some h)"

lemma heads_end_Nil: "heads_end []"
proof -
  have "\<exists>h. resolve_head [] t = Some h" for t by (cases t) (auto simp: head_other)
  then show ?thesis by (simp add: heads_end_def)
qed

lemma resolve_head_head: "resolve_head bs t = Some h \<Longrightarrow> resolve_head bs h = Some h"
proof (cases h)
  case (TVar n)
  assume "resolve_head bs t = Some h"
  from resolve_head_unbound [OF this TVar] TVar show ?thesis by simp
qed (auto simp: head_other)

text \<open>Binding an unbound variable to a resolved head that is not the variable.\<close>

lemma resolve_head_update:
  "resolve_head bs t = Some h \<Longrightarrow> resolve_head bs u = Some u \<Longrightarrow> u \<noteq> TVar n \<Longrightarrow> map_of bs n = None \<Longrightarrow>
     resolve_head (AList.update n u bs) t = Some (if h = TVar n then u else h)"
proof (induction rule: resolve_head.raw_induct [rotated, consumes 1, case_names step])
  case (step rh bs t h)
  have u: "resolve_head (AList.update n u bs) u = Some u"
  proof (cases u)
    case (TVar m)
    with step(3,4) resolve_head_unbound [OF step(3), of m] show ?thesis by simp
  qed (auto simp: head_other)
  show ?case
  proof (cases t)
    case (TVar m)
    show ?thesis
    proof (cases "map_of bs m")
      case None
      with step(2) TVar have "h = TVar m" by simp
      with None TVar u show ?thesis by (cases "m = n") simp_all
    next
      case (Some w)
      with step(1) [OF _ step(3-5), of w h] step(2,5) TVar show ?thesis by auto
    qed
  qed (use step(2) in \<open>auto simp: head_other\<close>)
qed

lemma heads_end_update:
  assumes "heads_end bs" and "resolve_head bs u = Some u" and "u \<noteq> TVar n" and "map_of bs n = None"
  shows "heads_end (AList.update n u bs)"
  using assms resolve_head_update [OF _ assms(2-4)] unfolding heads_end_def by blast

section \<open>The occurs check\<close>

lemma anym_total:
  "(\<And>x. x \<in> set xs \<Longrightarrow> \<exists>b. f x = Some b \<and> (b \<longrightarrow> P x)) \<Longrightarrow> \<exists>b. anym f xs = Some b \<and> (b \<longrightarrow> (\<exists>x \<in> set xs. P x))"
proof (induction xs)
  case (Cons x xs)
  from Cons(2) [of x] obtain b where b: "f x = Some b" "b \<longrightarrow> P x" by auto
  from Cons obtain c where "anym f xs = Some c" "c \<longrightarrow> (\<exists>x \<in> set xs. P x)" by auto
  with b show ?case by (cases b) auto
qed (auto intro: exI [of _ False])

definition context_ok :: "kinds \<Rightarrow> valuation \<Rightarrow> substitution \<Rightarrow> bool" where
  "context_ok K v s \<longleftrightarrow> obeys K v \<and> wk_subst K s \<and> solves v s \<and> heads_end (solutions s)"

lemma context_head:
  assumes "context_ok K v s" and "wk K t"
  obtains h where "resolve_head (solutions s) t = Some h" and "eval v h = eval v t" and "wk K h"
    and "\<And>n. h = TVar n \<Longrightarrow> map_of (solutions s) n = None"
proof -
  from assms(1) obtain h where h: "resolve_head (solutions s) t = Some h" by (auto simp: context_ok_def heads_end_def)
  have "eval v h = eval v t" using resolve_head_eval [OF h] assms(1) by (simp add: context_ok_def)
  moreover have "wk K h" by (rule resolve_head_kind [OF h _ assms(2)]) (use assms(1) in \<open>auto simp: context_ok_def wk_subst_def\<close>)
  ultimately show thesis using that [OF h] resolve_head_unbound [OF h] by blast
qed

text \<open>The parts of a type: what the occurs check and the resolution of a head look at.\<close>

fun parts :: "ty \<Rightarrow> ty list" where
  "parts (TFun ts t) = ts @ [t]"
| "parts (TTuple ts) = ts"
| "parts (TEnum n ts) = ts"
| "parts (TPartialTuple fs rest) = map snd fs"
| "parts (TRecord fs rest) = map snd fs"
| "parts (TList t) = [t]"
| "parts (TDict k t) = [k, t]"
| "parts (TRef t) = [t]"
| "parts t = []"

lemma wk_parts: "wk K t \<Longrightarrow> u \<in> set (parts t) \<Longrightarrow> wk K u"
  by (cases t) auto

lemma weight_parts:
  assumes "obeys K v" and "wk K t" and "u \<in> set (parts t)"
  shows "gweight (eval v u) < gweight (eval v t)"
proof (cases t)
  case (TTuple ts)
  with assms tweight_part [of u ts v] show ?thesis unfolding TTuple weight_tuple by simp
next
  case (TPartialTuple fs rest)
  then obtain p where "p \<in> set fs" "u = snd p" using assms(3) by auto
  with lweight_part [of p fs v] weight_rows(2) [OF assms(1), of fs rest] assms(2) TPartialTuple show ?thesis by simp
next
  case (TRecord fs rest)
  then obtain p where "p \<in> set fs" "u = snd p" using assms(3) by auto
  with lweight_part [of p fs v] weight_rows(1) [OF assms(1), of fs rest] assms(2) TRecord show ?thesis by simp
next
  case (TFun ts t)
  with assms tweight_part [of u ts v] show ?thesis by (auto simp: o_def)
next
  case (TEnum n ts)
  with assms tweight_part [of u ts v] show ?thesis by (auto simp: o_def)
qed (use assms in auto)

lemma occurs_parts:
  assumes "resolve_head bs t = Some h" and "\<not> is_var h"
  shows "occurs_in bs n t = anym (occurs_in bs n) (parts h)"
proof -
  have s: "anym f (xs @ ys) = Option.bind (anym f xs) (\<lambda>b. if b then Some True else anym f ys)" for f :: "ty \<Rightarrow> bool option" and xs ys
    by (induction xs) (auto intro!: arg_cong2 [of _ _ _ _ Option.bind])
  have m: "anym f (map snd fs) = anym (\<lambda>p. f (snd p)) fs" for f :: "ty \<Rightarrow> bool option" and fs :: "('k \<times> ty) list"
    by (induction fs) (simp_all only: list.map anym.simps)
  have o: "Option.bind x (\<lambda>b. if b then Some True else Some False) = x" for x by (cases x) auto
  show ?thesis
    by (subst occurs_in.simps) (use assms in \<open>cases h; simp add: s m o is_var_def cong: if_cong\<close>)
qed

lemma occurs_total:
  assumes "context_ok K v s" and "wk K t"
  shows "\<exists>b. occurs_in (solutions s) n t = Some b
    \<and> (b \<longrightarrow> resolve_head (solutions s) t = Some (TVar n) \<or> gweight (ty_val v n) < gweight (eval v t))"
  using assms(2)
proof (induction "gweight (eval v t)" arbitrary: t rule: less_induct)
  case less
  from context_head [OF assms(1) less(2)] obtain h where h: "resolve_head (solutions s) t = Some h" "eval v h = eval v t" "wk K h" by blast
  show ?case
  proof (cases "is_var h")
    case True
    then obtain m where m: "h = TVar m" by (auto simp: is_var_def)
    with h have "occurs_in (solutions s) n t = Some (m = n)" by (subst occurs_in.simps) simp
    with m h show ?thesis by auto
  next
    case False
    have "\<exists>b. anym (occurs_in (solutions s) n) (parts h) = Some b
        \<and> (b \<longrightarrow> (\<exists>u \<in> set (parts h). gweight (ty_val v n) \<le> gweight (eval v u)))"
    proof (rule anym_total)
      fix u assume u: "u \<in> set (parts h)"
      have ok: "obeys K v" using assms(1) by (simp add: context_ok_def)
      from less(1) [of u] weight_parts [OF ok h(3) u] wk_parts [OF h(3) u] h(2) obtain b where
        b: "occurs_in (solutions s) n u = Some b"
          "b \<longrightarrow> resolve_head (solutions s) u = Some (TVar n) \<or> gweight (ty_val v n) < gweight (eval v u)" by auto
      have "gweight (ty_val v n) = gweight (eval v u)" if "resolve_head (solutions s) u = Some (TVar n)"
        using resolve_head_eval [OF that, of v] assms(1) by (simp add: context_ok_def)
      with b show "\<exists>b. occurs_in (solutions s) n u = Some b \<and> (b \<longrightarrow> gweight (ty_val v n) \<le> gweight (eval v u))" by force
    qed
    then show ?thesis
      unfolding occurs_parts [OF h(1) False] using weight_parts [of K v h] assms(1) h(2,3)
      by (auto simp: context_ok_def intro: le_less_trans)
  qed
qed

section \<open>Resolution\<close>

lemma deep_head: "resolve_head (solutions s) t = Some h \<Longrightarrow> deep_resolve s t = deep_resolve s h"
  using resolve_head_prop [of "solutions s" t h "\<lambda>u. deep_resolve s u = deep_resolve s t"] by simp

lemma deep_ends:
  assumes "context_ok K v s" and "wk K t"
  shows "\<exists>u. deep_resolve s t = Some u"
  using assms(2)
proof (induction "gweight (eval v t)" arbitrary: t rule: less_induct)
  case less
  have ok: "obeys K v" "solves_row (eval_fields v) (row_val v) (row_solutions s)"
    "solves_row (eval_fields v) (trow_val v) (tuple_row_solutions s)"
    "wk_rows any_set (labels K) (wk K) (row_solutions s)" "wk_rows initial_set (indices K) (wk K) (tuple_row_solutions s)"
    using assms(1) by (simp_all add: context_ok_def solves_def wk_subst_def)
  from context_head [OF assms(1) less(2)] obtain h where h: "resolve_head (solutions s) t = Some h" "eval v h = eval v t" "wk K h"
    and unb: "\<And>n. h = TVar n \<Longrightarrow> map_of (solutions s) n = None" by blast
  have small: "\<exists>w. deep_resolve s u = Some w" if "gweight (eval v h') = gweight (eval v t)" "wk K h'" "u \<in> set (parts h')" for h' u
    using less(1) [of u] weight_parts [OF ok(1) that(2,3)] wk_parts [OF that(2,3)] that(1) by simp
  have "\<exists>u. deep_resolve s h = Some u"
  proof (cases h)
    case (TVar n)
    with unb show ?thesis by simp
  next
    case (TPartialTuple fs rest)
    from row_chain_total [OF wk_rows_rising [OF ok(5)]] obtain p where p: "row_chain (tuple_row_solutions s) rest = Some p" by blast
    from h(3) TPartialTuple have w: "fs \<noteq> []" "fields_ok initial_set (indices K) fs rest" "\<forall>p \<in> set fs. wk K (snd p)" by auto
    let ?h' = "TPartialTuple (fs @ fst p) (snd p)"
    have "eval v ?h' = eval v h"
      using row_chain_eval [OF p ok(3)] TPartialTuple by (simp add: field_map_append) (metis fmadd_assoc)
    moreover have "wk K ?h'" using fields_ok_chain [OF p ok(5) w(2,3)] w(1) by auto
    ultimately have "\<exists>gs. mapm_snd (deep_resolve s) (fs @ fst p) = Some gs"
      by (intro mapm_snd_total small [of ?h']) (use h(2) in auto)
    with p TPartialTuple show ?thesis by auto
  next
    case (TRecord fs rest)
    from row_chain_total [OF wk_rows_rising [OF ok(4)]] obtain p where p: "row_chain (row_solutions s) rest = Some p" by blast
    from h(3) TRecord have w: "fields_ok any_set (labels K) fs rest" "\<forall>p \<in> set fs. wk K (snd p)" by auto
    let ?h' = "TRecord (fs @ fst p) (snd p)"
    have "eval v ?h' = eval v h"
      using row_chain_eval [OF p ok(2)] TRecord by (simp add: field_map_append) (metis fmadd_assoc)
    moreover have "wk K ?h'" using fields_ok_chain [OF p ok(4) w] by auto
    ultimately have "\<exists>gs. mapm_snd (deep_resolve s) (fs @ fst p) = Some gs"
      by (intro mapm_snd_total small [of ?h']) (use h(2) in auto)
    with p TRecord show ?thesis by auto
  next
    case (TTuple ts)
    have "\<exists>us. mapm (deep_resolve s) ts = Some us" by (rule mapm_total, rule small [of h]) (use h TTuple in auto)
    with TTuple show ?thesis by auto
  next
    case (TFun ts r)
    have "\<exists>us. mapm (deep_resolve s) ts = Some us" by (rule mapm_total, rule small [of h]) (use h TFun in auto)
    moreover have "\<exists>w. deep_resolve s r = Some w" by (rule small [of h]) (use h TFun in auto)
    ultimately show ?thesis using TFun by auto
  next
    case (TEnum n ts)
    have "\<exists>us. mapm (deep_resolve s) ts = Some us" by (rule mapm_total, rule small [of h]) (use h TEnum in auto)
    with TEnum show ?thesis by auto
  next
    case (TDict k r)
    have "\<exists>w. deep_resolve s k = Some w" "\<exists>w. deep_resolve s r = Some w" by (rule small [of h]; use h TDict in simp)+
    with TDict show ?thesis by auto
  next
    case (TList r)
    have "\<exists>w. deep_resolve s r = Some w" by (rule small [of h]) (use h TList in auto)
    with TList show ?thesis by auto
  next
    case (TRef r)
    have "\<exists>w. deep_resolve s r = Some w" by (rule small [of h]) (use h TRef in auto)
    with TRef show ?thesis by auto
  qed auto
  with deep_head [OF h(1)] show ?case by simp
qed

end
