(* ===== verification/Canon.thy ===== *)
theory Canon
  imports UnifyWeight
begin

text \<open>
  Equality of types up to the order in which fields are listed, and how a valuation tells two
  types apart: one that gives every variable a ground type of its own. Specification only.
\<close>

section \<open>The same type up to the order of fields\<close>

fun canon :: "ty \<Rightarrow> ty" where
  "canon (TTuple ts) = TTuple (map canon ts)"
| "canon (TPartialTuple fs rest) = TPartialTuple (sort_key fst (map (\<lambda>p. (fst p, canon (snd p))) fs)) rest"
| "canon (TRecord fs rest) = TRecord (sort_key fst (map (\<lambda>p. (fst p, canon (snd p))) fs)) rest"
| "canon (TFun ts t) = TFun (map canon ts) (canon t)"
| "canon (TEnum n ts) = TEnum n (map canon ts)"
| "canon (TList t) = TList (canon t)"
| "canon (TDict k t) = TDict (canon k) (canon t)"
| "canon (TRef t) = TRef (canon t)"
| "canon t = t"

lemma sort_fields_unique:
  assumes "distinct (map fst xs)" and "distinct (map fst ys)" and "map_of xs = map_of ys"
  shows "sort_key fst xs = sort_key fst ys"
proof -
  have s: "set xs = set ys" using map_of_inject_set [OF assms(1,2)] assms(3) by simp
  show ?thesis
  proof (rule map_sorted_distinct_set_unique [where f = fst])
    have "inj_on fst (set xs)" using assms(1) by (simp add: distinct_map)
    then show "inj_on fst (set (sort_key fst xs) \<union> set (sort_key fst ys))" using s by simp
    have "distinct xs" "distinct ys" "inj_on fst (set xs)" "inj_on fst (set ys)" using assms(1,2) by (simp_all add: distinct_map)
    then show "distinct (map fst (sort_key fst xs))" "distinct (map fst (sort_key fst ys))" by (simp_all add: distinct_map)
  qed (use s in \<open>simp_all add: sorted_sort_key\<close>)
qed

lemma map_of_canon: "map_of (map (\<lambda>p. (fst p, f (snd p))) fs) k = map_option f (map_of fs k)"
  by (induction fs) auto

lemma map_of_rev_distinct: "distinct (map fst fs) \<Longrightarrow> map_of (rev fs) = map_of fs"
  by (rule map_of_inject_set [THEN iffD2]) (auto simp: rev_map [symmetric])

lemma sort_canon:
  assumes "distinct (map fst fs)" and "distinct (map fst gs)"
    and "\<And>k. map_option canon (map_of fs k) = map_option canon (map_of gs k)"
  shows "sort_key fst (map (\<lambda>p. (fst p, canon (snd p))) fs) = sort_key fst (map (\<lambda>p. (fst p, canon (snd p))) gs)"
  by (rule sort_fields_unique) (use assms in \<open>auto simp: o_def map_of_canon map_of_apsnd fun_eq_iff\<close>)

section \<open>A valuation that tells types apart\<close>

text \<open>Every row is one field of its own, with a label (an index) that the types do not use.\<close>

definition row_mark :: "nat \<Rightarrow> gty" where
  "row_mark r = GBase (TList (TVar r))"

definition mark :: "string \<Rightarrow> nat \<Rightarrow> valuation" where
  "mark m N = \<lparr>ty_val = (\<lambda>n. GBase (TVar n)), row_val = (\<lambda>r. fmupd m (row_mark r) fmempty),
     trow_val = (\<lambda>r. fmupd N (row_mark r) fmempty)\<rparr>"

lemma mark_simps [simp]:
  "ty_val (mark m N) n = GBase (TVar n)" "row_val (mark m N) r = fmupd m (row_mark r) fmempty"
  "trow_val (mark m N) r = fmupd N (row_mark r) fmempty"
  by (simp_all add: mark_def)

lemma row_mark_inj [simp]: "row_mark r = row_mark q \<longleftrightarrow> r = q"
  by (simp add: row_mark_def)

lemma mark_no_row [simp]: "eval (mark m N) t \<noteq> row_mark r" "row_mark r \<noteq> eval (mark m N) t"
  by (cases t; simp add: row_mark_def)+

lemma marked_rows:
  assumes "distinct (map fst fs)" and "distinct (map fst gs)" and "m \<notin> fst ` set fs" and "m \<notin> fst ` set gs"
    and "\<And>r. rv r = fmupd m (row_mark r) fmempty"
    and eq: "eval_fields v fs ++\<^sub>f tail_map rv t1 = eval_fields v gs ++\<^sub>f tail_map rv t2"
  shows "t1 = t2" and "k \<noteq> m \<Longrightarrow> map_option (eval v) (map_of fs k) = map_option (eval v) (map_of gs k)"
proof -
  have tail: "fmlookup (tail_map rv t) j = (if j = m then map_option row_mark t else None)" for t j
    by (cases t) (auto simp: tail_map_def assms(5))
  have fields: "fmlookup (eval_fields v hs ++\<^sub>f tail_map rv t) j
      = (if j = m \<and> t \<noteq> None then map_option row_mark t else map_option (eval v) (map_of hs j))" if "distinct (map fst hs)" for hs t j
    by (cases t) (auto simp: add_lookup tail fmlookup_eval_fields map_of_rev_distinct [OF that] split: option.split)
  have no: "map_of fs m = None" "map_of gs m = None" using assms(3,4) by (auto simp: map_of_eq_None_iff)
  show "t1 = t2"
    using arg_cong [OF eq, of "\<lambda>f. fmlookup f m"] fields [OF assms(1), of t1 m] fields [OF assms(2), of t2 m] no
    by (cases t1; cases t2) auto
  show "map_option (eval v) (map_of fs k) = map_option (eval v) (map_of gs k)" if "k \<noteq> m"
    using arg_cong [OF eq, of "\<lambda>f. fmlookup f k"] fields [OF assms(1), of t1 k] fields [OF assms(2), of t2 k] that by simp
qed

text \<open>Two types that no such valuation tells apart, except for finitely many labels and indices.\<close>

definition alike :: "string set \<Rightarrow> nat set \<Rightarrow> ty \<Rightarrow> ty \<Rightarrow> bool" where
  "alike F G a b \<longleftrightarrow> finite F \<and> finite G \<and> (\<forall>m N. m \<notin> F \<longrightarrow> N \<notin> G \<longrightarrow> eval (mark m N) a = eval (mark m N) b)"

lemma alike_one: "alike F G a b \<Longrightarrow> \<exists>m N. m \<notin> F \<and> N \<notin> G \<and> eval (mark m N) a = eval (mark m N) b"
proof -
  assume a: "alike F G a b"
  have "infinite (UNIV :: string set)" by (rule infinite_UNIV_listI)
  then obtain m N where "m \<notin> F" "N \<notin> G"
    using a ex_new_if_finite [of F] ex_new_if_finite [of G] by (auto simp: alike_def)
  with a show ?thesis unfolding alike_def by blast
qed

lemma alike_map:
  assumes "finite F" and "finite G" and "\<And>m N. m \<notin> F \<Longrightarrow> N \<notin> G \<Longrightarrow> map (eval (mark m N)) ts = map (eval (mark m N)) us"
    and "\<And>t u. t \<in> set ts \<Longrightarrow> u \<in> set us \<Longrightarrow> alike F G t u \<Longrightarrow> canon t = canon u"
  shows "map canon ts = map canon us"
proof -
  have "alike F G (TTuple []) (TTuple [])" using assms(1,2) by (simp add: alike_def)
  from alike_one [OF this] obtain m N where "m \<notin> F" "N \<notin> G" by blast
  from assms(3) [OF this] have l: "length ts = length us" by (rule map_eq_imp_length_eq)
  show ?thesis
  proof (rule nth_equalityI)
    fix i assume "i < length (map canon ts)"
    then have i: "i < length ts" "i < length us" using l by simp_all
    have "alike F G (ts ! i) (us ! i)"
      unfolding alike_def
    proof (intro conjI allI impI)
      fix m N assume "m \<notin> F" "N \<notin> G"
      from arg_cong [OF assms(3) [OF this], of "\<lambda>xs. xs ! i"] i
      show "eval (mark m N) (ts ! i) = eval (mark m N) (us ! i)" by simp
    qed (use assms(1,2) in auto)
    with assms(4) i show "map canon ts ! i = map canon us ! i" by simp
  qed (use l in simp)
qed

lemma alike_fields:
  assumes "distinct (map fst fs)" and "distinct (map fst gs)" and "finite F" and "finite G"
    and eq: "\<And>m N k. m \<notin> F \<Longrightarrow> N \<notin> G \<Longrightarrow> map_option (eval (mark m N)) (map_of fs k) = map_option (eval (mark m N)) (map_of gs k)"
    and "\<And>p q. p \<in> set fs \<Longrightarrow> q \<in> set gs \<Longrightarrow> alike F G (snd p) (snd q) \<Longrightarrow> canon (snd p) = canon (snd q)"
  shows "sort_key fst (map (\<lambda>p. (fst p, canon (snd p))) fs) = sort_key fst (map (\<lambda>p. (fst p, canon (snd p))) gs)"
proof (rule sort_canon [OF assms(1,2)])
  fix k
  have "alike F G (TTuple []) (TTuple [])" using assms(3,4) by (simp add: alike_def)
  from alike_one [OF this] obtain m N where mN: "m \<notin> F" "N \<notin> G" by blast
  show "map_option canon (map_of fs k) = map_option canon (map_of gs k)"
  proof (cases "map_of fs k")
    case None
    with eq [OF mN, of k] show ?thesis by (cases "map_of gs k") auto
  next
    case (Some t)
    with eq [OF mN, of k] obtain u where u: "map_of gs k = Some u" by (cases "map_of gs k") auto
    have "alike F G t u" using eq [of _ _ k] Some u assms(3,4) by (auto simp: alike_def)
    with assms(6) [of "(k, t)" "(k, u)"] Some u show ?thesis by (auto dest: map_of_SomeD)
  qed
qed

lemma last_enumerate: "k < length es \<Longrightarrow> last_field (enumerate 0 es) k = es ! k"
proof -
  assume "k < length es"
  then have "map_of (rev (enumerate 0 es)) k = Some (es ! k)"
    by (subst map_of_eq_Some_iff) (auto simp: rev_map [symmetric] in_set_enumerate_eq)
  then show ?thesis by (simp add: last_field_def)
qed

lemma enumerate_keys [simp]: "fst ` set (enumerate 0 es) = {..<length es}"
  by (auto simp: enumerate_eq_zip atLeast0LessThan simp flip: list.set_map)

lemma tuple_inj:
  assumes "eval v (TTuple e1) = eval v (TTuple e2)"
  shows "map (eval v) e1 = map (eval v) e2"
proof -
  have eq: "eval_fields v (enumerate 0 e1) = eval_fields v (enumerate 0 e2)" using assms by simp
  then have "fset (fmdom (eval_fields v (enumerate 0 e1))) = fset (fmdom (eval_fields v (enumerate 0 e2)))" by simp
  then have l: "length e1 = length e2" by simp
  have "eval v (e1 ! i) = eval v (e2 ! i)" if "i < length e1" for i
    using arg_cong [OF eq, of "\<lambda>m. fmlookup m i"] that l fmlookup_last [of i "enumerate 0 e1" v]
      fmlookup_last [of i "enumerate 0 e2" v] by (simp add: last_enumerate)
  with l show ?thesis by (simp add: list_eq_iff_nth_eq)
qed

text \<open>Well-kinded, resolved types that no mark tells apart are the same up to the order of fields.\<close>

lemma alike_sub: "alike F G a b \<Longrightarrow> (\<And>m N. eval (mark m N) a = eval (mark m N) b \<Longrightarrow> eval (mark m N) c = eval (mark m N) d) \<Longrightarrow> alike F G c d"
  by (simp add: alike_def)

lemma partial_open:
  assumes "resolved s (TPartialTuple fs rest)" and "wk K (TPartialTuple fs rest)"
  shows "rest \<noteq> None"
proof
  assume "rest = None"
  with assms partial_tuple_closed [of "indices K" fs] show False by simp
qed

lemma tuple_not_partial: "alike F G (TTuple ts) (TPartialTuple fs (Some r)) \<Longrightarrow> False"
proof -
  assume a: "alike F G (TTuple ts) (TPartialTuple fs (Some r))"
  then have "alike F (G \<union> fst ` set fs) (TTuple ts) (TPartialTuple fs (Some r))" by (auto simp: alike_def)
  from alike_one [OF this] obtain m N where "N \<notin> fst ` set fs"
    and eq: "eval_fields (mark m N) (enumerate 0 ts) = eval_fields (mark m N) fs ++\<^sub>f tail_map (trow_val (mark m N)) (Some r)" by auto
  then have "fmlookup (eval_fields (mark m N) (enumerate 0 ts)) N = Some (row_mark r)"
    using arg_cong [OF eq, of "\<lambda>f. fmlookup f N"] by (simp add: add_lookup tail_map_def)
  then show False by (auto simp: fmlookup_eval_fields)
qed

lemma alike_more: "alike F G a b \<Longrightarrow> finite A \<Longrightarrow> finite B \<Longrightarrow> alike (F \<union> A) (G \<union> B) a b"
  by (simp add: alike_def)

lemma canon_record:
  assumes "distinct (map fst fs)" and "distinct (map fst gs)" and "alike F G (TRecord fs t1) (TRecord gs t2)"
    and "\<And>p q F G. p \<in> set fs \<Longrightarrow> q \<in> set gs \<Longrightarrow> alike F G (snd p) (snd q) \<Longrightarrow> canon (snd p) = canon (snd q)"
  shows "canon (TRecord fs t1) = canon (TRecord gs t2)"
proof -
  let ?A = "fst ` set fs \<union> fst ` set gs"
  have rows: "t1 = t2" "k \<noteq> m \<Longrightarrow> map_option (eval (mark m N)) (map_of fs k) = map_option (eval (mark m N)) (map_of gs k)"
    if "m \<notin> F \<union> ?A" "N \<notin> G" for m N k
    using marked_rows [OF assms(1,2), where m = m and v = "mark m N" and rv = "row_val (mark m N)" and ?t1.0 = t1 and ?t2.0 = t2] assms(3) that
    by (auto simp: alike_def)
  have fin: "finite F" "finite G" using assms(3) by (simp_all add: alike_def)
  have "t1 = t2" using alike_one [OF alike_more [OF assms(3), of ?A "{}"]] rows(1) by auto
  moreover have "map_option (eval (mark m N)) (map_of fs k) = map_option (eval (mark m N)) (map_of gs k)"
    if "m \<notin> F \<union> ?A" "N \<notin> G" for m N k
    using rows(2) [OF that] that by (cases "k = m") (auto simp: map_of_eq_None_iff [THEN iffD2])
  ultimately show ?thesis
    using alike_fields [OF assms(1,2), of "F \<union> ?A" G] assms(4) fin by simp
qed

lemma canon_partial:
  assumes "distinct (map fst fs)" and "distinct (map fst gs)" and "alike F G (TPartialTuple fs t1) (TPartialTuple gs t2)"
    and "\<And>p q F G. p \<in> set fs \<Longrightarrow> q \<in> set gs \<Longrightarrow> alike F G (snd p) (snd q) \<Longrightarrow> canon (snd p) = canon (snd q)"
  shows "canon (TPartialTuple fs t1) = canon (TPartialTuple gs t2)"
proof -
  let ?A = "fst ` set fs \<union> fst ` set gs"
  have rows: "t1 = t2" "k \<noteq> N \<Longrightarrow> map_option (eval (mark m N)) (map_of fs k) = map_option (eval (mark m N)) (map_of gs k)"
    if "m \<notin> F" "N \<notin> G \<union> ?A" for m N k
    using marked_rows [OF assms(1,2), where m = N and v = "mark m N" and rv = "trow_val (mark m N)" and ?t1.0 = t1 and ?t2.0 = t2] assms(3) that
    by (auto simp: alike_def)
  have fin: "finite F" "finite G" using assms(3) by (simp_all add: alike_def)
  have "t1 = t2" using alike_one [OF alike_more [OF assms(3), of "{}" ?A]] rows(1) by auto
  moreover have "map_option (eval (mark m N)) (map_of fs k) = map_option (eval (mark m N)) (map_of gs k)"
    if "m \<notin> F" "N \<notin> G \<union> ?A" for m N k
    using rows(2) [OF that] that by (cases "k = N") (auto simp: map_of_eq_None_iff [THEN iffD2])
  ultimately show ?thesis
    using alike_fields [OF assms(1,2), of F "G \<union> ?A"] assms(4) fin by simp
qed

lemma leaf_canon:
  assumes "alike F G a b" and "\<And>m N. eval (mark m N) a = GBase a"
  shows "canon a = canon b"
proof -
  from alike_one [OF assms(1)] assms(2) obtain m N where "eval (mark m N) b = GBase a" by metis
  then have "b = a" by (cases b) auto
  then show ?thesis by simp
qed

lemma alike_canon:
  "wk K a \<Longrightarrow> resolved s a \<Longrightarrow> wk K b \<Longrightarrow> resolved s b \<Longrightarrow> alike F G a b \<Longrightarrow> canon a = canon b"
proof (induction a arbitrary: b F G)
  case (TTuple ts)
  from alike_one [OF TTuple.prems(5)] obtain us where b: "b = TTuple us"
    using TTuple.prems tuple_not_partial [of F G ts] partial_open by (cases b) (auto, blast)
  have "map canon ts = map canon us"
    by (rule alike_map [of F G]) (use TTuple b in \<open>auto simp: alike_def intro!: tuple_inj\<close>)
  then show ?case by (simp add: b)
next
  case (TPartialTuple fs rest)
  from partial_open [OF TPartialTuple.prems(2,1)] obtain r where r: "rest = Some r" by auto
  have flip: "alike F G b (TPartialTuple fs (Some r))" using TPartialTuple.prems(5) r by (auto simp: alike_def)
  from flip have "\<nexists>us. b = TTuple us" using tuple_not_partial by blast
  with alike_one [OF TPartialTuple.prems(5)] obtain gs t2 where b: "b = TPartialTuple gs t2" by (cases b) auto
  show ?case
    unfolding b by (rule canon_partial [where F = F and G = G]) (use TPartialTuple b in \<open>auto simp: fields_ok_def snds.simps\<close>)
next
  case (TRecord fs rest)
  from alike_one [OF TRecord.prems(5)] obtain gs t2 where b: "b = TRecord gs t2" by (cases b) auto
  show ?case
    unfolding b by (rule canon_record [where F = F and G = G]) (use TRecord b in \<open>auto simp: fields_ok_def snds.simps\<close>)
next
  case (TFun ts t)
  from alike_one [OF TFun.prems(5)] obtain us u where b: "b = TFun us u" by (cases b) auto
  have "map canon ts = map canon us"
    by (rule alike_map [of F G]) (use TFun b in \<open>auto simp: alike_def\<close>)
  moreover have "alike F G t u" by (rule alike_sub [OF TFun.prems(5)]) (simp add: b)
  ultimately show ?case using TFun b by simp
next
  case (TEnum n ts)
  from alike_one [OF TEnum.prems(5)] obtain us where b: "b = TEnum n us" by (cases b) auto
  have "map canon ts = map canon us"
    by (rule alike_map [of F G]) (use TEnum b in \<open>auto simp: alike_def\<close>)
  then show ?case by (simp add: b)
next
  case (TList t)
  from alike_one [OF TList.prems(5)] obtain u where b: "b = TList u" by (cases b) auto
  have "alike F G t u" by (rule alike_sub [OF TList.prems(5)]) (simp add: b)
  with TList b show ?case by simp
next
  case (TDict k t)
  from alike_one [OF TDict.prems(5)] obtain j u where b: "b = TDict j u" by (cases b) auto
  have "alike F G k j" "alike F G t u" by (rule alike_sub [OF TDict.prems(5)]; simp add: b)+
  with TDict b show ?case by simp
next
  case (TRef t)
  from alike_one [OF TRef.prems(5)] obtain u where b: "b = TRef u" by (cases b) auto
  have "alike F G t u" by (rule alike_sub [OF TRef.prems(5)]) (simp add: b)
  with TRef b show ?case by simp
qed (rule leaf_canon, assumption, simp)+

lemma eval_canon:
  assumes "wk K a" and "resolved s a" and "wk K b" and "resolved s b" and "\<And>v. eval v a = eval v b"
  shows "canon a = canon b"
  by (rule alike_canon [OF assms(1-4), of "{}" "{}"]) (simp add: alike_def assms(5))

end
