(* ===== verification/UnifySound.thy ===== *)
theory UnifySound
  imports Canon
begin

text \<open>
  Soundness of the solver: a run without a new diagnostic gives a unifier of its constraints.
\<close>

section \<open>One step\<close>

lemma goodD: "good K st st' P \<Longrightarrow> (\<And>v. sat v st \<Longrightarrow> P v \<Longrightarrow> Q v) \<Longrightarrow> good K st st' Q"
  by (auto simp: good_def)

definition pair_items :: "range \<Rightarrow> ty list \<Rightarrow> ty list \<Rightarrow> work_item list" where
  "pair_items r xs ys = map (\<lambda>(x, y). (x, y, r)) (zip xs ys)"

lemma push_pairs_items: "push_pairs r xs ys = push_all (rev (pair_items r xs ys))"
  by (simp add: push_pairs_def pair_items_def)

lemma pair_items:
  assumes "length xs = length ys"
  shows "agree v (pair_items r xs ys) \<longleftrightarrow> map (eval v) xs = map (eval v) ys"
    and "\<forall>x \<in> set xs. W x \<Longrightarrow> \<forall>y \<in> set ys. W y \<Longrightarrow> items_ok W (pair_items r xs ys)"
  using assms unfolding pair_items_def by (induction xs ys rule: list_induct2) auto

lemma pairs_good:
  assumes "state_ok K st" and "length xs = length ys" and "\<forall>x \<in> set xs. wk K x" and "\<forall>y \<in> set ys. wk K y"
  shows "good K st (push_pairs r xs ys st) (\<lambda>v. map (eval v) xs = map (eval v) ys)"
  unfolding push_pairs_items
  by (rule goodI) (use assms pair_items [OF assms(2)] in \<open>auto intro: inv_push\<close>)

lemma elements_good:
  assumes "state_ok K st" and "wk K (TTuple e1)" and "wk K (TTuple e2)" and "diags (unify_elements e1 e2 rng st) = diags st"
  shows "good K st (unify_elements e1 e2 rng st) (\<lambda>v. eval v (TTuple e1) = eval v (TTuple e2))"
proof -
  have l: "length e1 = length e2" using assms(4) by (auto simp: unify_elements_def split: if_splits)
  have "good K st (push_pairs inner e1 e2 st) (\<lambda>v. map (eval v) e1 = map (eval v) e2)"
    by (rule pairs_good) (use assms l in auto)
  from goodD [OF this eval_enumerate_map] show ?thesis using l by (simp add: unify_elements_def)
qed

lemma bind_checked_good:
  assumes "state_ok K st" and "wk K t" and "map_of (solutions (chained st)) n = None"
    and "bind_checked n t rng st = Some st'" and "diags st' = diags st"
  shows "good K st st' (\<lambda>v. ty_val v n = eval v t)"
proof -
  have "st' = bind_var n t st"
    using assms(4,5) by (auto simp: bind_checked_def bind_eq_Some_conv split: if_splits)
  then show ?thesis using inv_bind_var [OF assms(1,2)] sat_bind_var [OF assms(3)] by (auto intro: goodI)
qed

text \<open>A tuple and an open partial tuple.\<close>

lemma last_field_eq:
  assumes "distinct (map fst fs)" and "p \<in> set fs"
  shows "last_field fs (fst p) = snd p"
proof -
  have "map_of (rev fs) (fst p) = Some (snd p)" by (rule map_of_is_SomeI) (simp_all add: rev_map [symmetric] assms)
  then show ?thesis by (simp add: last_field_def)
qed

text \<open>It is two rows: the known indices with their tail, and the elements, closed.\<close>

definition close_items :: "ty list \<Rightarrow> (nat \<times> ty) list \<Rightarrow> work_item list" where
  "close_items es fs = map (\<lambda>p. (es ! fst p, snd p, inner)) fs"

lemma close_rows:
  "\<forall>p \<in> set fs. fst p < length es \<Longrightarrow> close_partial es fs (Some r) rng st
     = solve_rows bind_tuple_row (close_items es fs) fs (Some r) (enumerate 0 es) None st"
  by (auto simp: close_partial_def Let_def known_in_bounds not_less solve_rows_def close_items_def)

lemma agree_close:
  assumes "\<forall>p \<in> set fs. fst p < length es" and "distinct (map fst fs)"
  shows "agree v (close_items es fs) \<longleftrightarrow> shared_agree v fs (enumerate 0 es)"
proof -
  have "shared_agree v fs (enumerate 0 es) \<longleftrightarrow> (\<forall>p \<in> set fs. eval v (last_field fs (fst p)) = eval v (es ! fst p))"
    using assms(1) by (auto simp: shared_agree_def last_enumerate)
  also have "\<dots> \<longleftrightarrow> (\<forall>p \<in> set fs. eval v (snd p) = eval v (es ! fst p))"
    by (simp add: last_field_eq [OF assms(2)])
  finally show ?thesis by (auto simp: agree_def close_items_def)
qed

lemma items_close:
  "\<forall>p \<in> set fs. fst p < length es \<and> W (snd p) \<Longrightarrow> \<forall>e \<in> set es. W e \<Longrightarrow> items_ok W (close_items es fs)"
  by (auto simp: items_ok_def close_items_def)

lemma tuple_fields: "fields_ok initial_set L (enumerate 0 es) None" "\<forall>e \<in> set es. W e \<Longrightarrow> \<forall>p \<in> set (enumerate 0 es). W (snd p)"
  by (auto simp: fields_ok_def open_ok_def initial_set_def in_set_enumerate_eq)

lemma close_good:
  assumes "state_ok K st" and "wk K (TTuple es)" and "wk K (TPartialTuple fs (Some r))"
    and "map_of (tuple_row_solutions (chained st)) r = None" and "diags (close_partial es fs (Some r) rng st) = diags st"
  shows "good K st (close_partial es fs (Some r) rng st) (\<lambda>v. eval v (TTuple es) = eval v (TPartialTuple fs (Some r)))"
proof -
  have bd: "\<forall>p \<in> set fs. fst p < length es"
    using assms(5) by (auto simp: close_diags known_diags filter_empty_conv not_le)
  have w: "fields_ok initial_set (indices K) fs (Some r)" "\<forall>p \<in> set fs. wk K (snd p)" "\<forall>e \<in> set es. wk K e"
    using assms(2,3) by auto
  have fit: "rows_fit fs (Some r) (enumerate 0 es) None" using bd by (auto simp: rows_fit_def extra_fields_Nil)
  have "good K st (close_partial es fs (Some r) rng st)
      (\<lambda>v. eval_fields v fs ++\<^sub>f tail_map (trow_val v) (Some r) = eval_fields v (enumerate 0 es) ++\<^sub>f tail_map (trow_val v) None)"
    unfolding close_rows [OF bd]
    by (rule tuples.solve_good [OF assms(1) _ w(1) tuple_fields(1) w(2) tuple_fields(2) fit])
      (use w bd assms(4) in \<open>auto simp: fields_ok_def agree_close intro: items_close\<close>)
  then show ?thesis by (rule goodD) (simp add: tail_map_def)
qed

lemma resolved_good:
  assumes "state_ok K st" and "wk K a" and "wk K b" and "permutes_keys h"
    and "\<forall>fs rest. a = TPartialTuple fs rest \<longrightarrow> (\<exists>r. rest = Some r \<and> map_of (tuple_row_solutions (chained st)) r = None)"
    and "\<forall>fs rest. b = TPartialTuple fs rest \<longrightarrow> (\<exists>r. rest = Some r \<and> map_of (tuple_row_solutions (chained st)) r = None)"
    and "unify_resolved_tuples h a b rng st = Some st'" and "diags st' = diags st"
  shows "good K st st' (\<lambda>v. eval v a = eval v b)"
proof -
  consider (tt) e1 e2 where "a = TTuple e1" "b = TTuple e2"
    | (tp) e1 fs r where "a = TTuple e1" "b = TPartialTuple fs (Some r)"
    | (pt) fs r e2 where "a = TPartialTuple fs (Some r)" "b = TTuple e2"
    | (pp) f1 r1 f2 r2 where "a = TPartialTuple f1 (Some r1)" "b = TPartialTuple f2 (Some r2)"
    using assms(5-7) unfolding unify_resolved_tuples_def by (cases a; cases b) auto
  then show ?thesis
  proof cases
    case tt
    from assms(7) tt have "st' = unify_elements e1 e2 rng st" by (simp add: unify_resolved_tuples_def)
    with elements_good [OF assms(1), of e1 e2 rng] assms(2,3,8) tt show ?thesis by simp
  next
    case tp
    from assms(7) tp have "st' = close_partial e1 fs (Some r) rng st" by (simp add: unify_resolved_tuples_def)
    with close_good [OF assms(1), of e1 fs r rng] assms(2,3,6,8) tp show ?thesis by simp
  next
    case pt
    from assms(7) pt have "st' = close_partial e2 fs (Some r) rng st" by (simp add: unify_resolved_tuples_def)
    with close_good [OF assms(1), of e2 fs r rng] assms(2,3,5,8) pt have "good K st st' (\<lambda>v. eval v b = eval v a)" by simp
    then show ?thesis by (rule goodD) simp
  next
    case pp
    let ?items = "shared_items rng (shared_fields (index_order h (turn st)) f1 f2)"
    from assms(7) pp have st': "st' = unify_tuples_worklist h f1 (Some r1) f2 (Some r2) rng st" by (simp add: unify_resolved_tuples_def)
    with assms(8) have fit: "rows_fit f1 (Some r1) f2 (Some r2)" by (simp add: tuples_worklist(1))
    have ord: "\<And>ks. set (index_order h (turn st) ks) = set ks" using permutes_keysD [OF assms(4)] by simp
    have "good K st st' (\<lambda>v. eval_fields v f1 ++\<^sub>f tail_map (trow_val v) (Some r1) = eval_fields v f2 ++\<^sub>f tail_map (trow_val v) (Some r2))"
      unfolding st' tuples_worklist(2) [OF fit]
      by (rule tuples.solve_good [OF assms(1)]) (use assms(2-6) pp fit ord in \<open>auto intro: items_shared simp: agree_shared\<close>)
    then show ?thesis by (rule goodD) (simp add: pp)
  qed
qed

lemma partial_good:
  assumes "state_ok K st" and "wk K a" and "wk K b" and "permutes_keys h" and "head_of a = TTuple []" and "head_of b = TTuple []"
    and "unify_partial h a b rng st = Some st'" and "diags st' = diags st"
  shows "good K st st' (\<lambda>v. eval v a = eval v b)"
proof -
  obtain ra rb where r: "deep_resolve (chained st) a = Some ra" "deep_resolve (chained st) b = Some rb"
    "unify_resolved_tuples h ra rb rng st = Some st'" using assms(7) by (auto simp: unify_partial_def bind_eq_Some_conv)
  have s: "wk_subst K (chained st)" using assms(1) by (simp add: state_ok_def)
  have open1: "\<exists>r. rest = Some r \<and> map_of (tuple_row_solutions (chained st)) r = None"
    if "deep_resolve (chained st) t = Some (TPartialTuple fs rest)" "head_of t = TTuple []" "wk K t" for t fs rest
  proof (cases t)
    case (TPartialTuple gs tail)
    with deep_resolve_partial [of "chained st" gs tail, OF _ _ s] that show ?thesis by auto
  next
    case (TTuple ts)
    with deep_resolve_tuple [of "chained st" ts] that show ?thesis by auto
  qed (use that(2) in auto)
  have "good K st st' (\<lambda>v. eval v ra = eval v rb)"
    by (rule resolved_good [OF assms(1) _ _ assms(4) _ _ r(3) assms(8)])
      (use r assms(2,3,5,6) open1 deep_resolve_kind [OF _ _ s] in auto)
  moreover have "eval v ra = eval v a \<and> eval v rb = eval v b" if "sat v st" for v
    using deep_eval [OF r(1)] deep_eval [OF r(2)] that by (simp add: sat_def)
  ultimately show ?thesis by (auto elim!: goodD)
qed

lemma records_good:
  assumes "state_ok K st" and "wk K (TRecord f1 t1)" and "wk K (TRecord f2 t2)" and "permutes_keys h"
    and "unify_records h (TRecord f1 t1) (TRecord f2 t2) rng st = Some st'" and "diags st' = diags st"
  shows "good K st st' (\<lambda>v. eval v (TRecord f1 t1) = eval v (TRecord f2 t2))"
proof -
  have s: "wk_subst K (chained st)" using assms(1) by (simp add: state_ok_def)
  obtain ra rb where r: "deep_resolve (chained st) (TRecord f1 t1) = Some ra" "deep_resolve (chained st) (TRecord f2 t2) = Some rb"
    using assms(5) by (auto simp: unify_records_def bind_eq_Some_conv)
  from deep_resolve_record [OF r(1) assms(2) s] obtain g1 u1 where ra: "ra = TRecord g1 u1"
    "\<forall>r. u1 = Some r \<longrightarrow> map_of (row_solutions (chained st)) r = None" by auto
  from deep_resolve_record [OF r(2) assms(3) s] obtain g2 u2 where rb: "rb = TRecord g2 u2"
    "\<forall>r. u2 = Some r \<longrightarrow> map_of (row_solutions (chained st)) r = None" by auto
  have w: "wk K (TRecord g1 u1)" "wk K (TRecord g2 u2)"
    using deep_resolve_kind [OF r(1) assms(2) s] deep_resolve_kind [OF r(2) assms(3) s] ra rb by simp_all
  have st': "st' = unify_records_worklist h g1 u1 g2 u2 rng st"
    using assms(5) unfolding unify_records_def r ra(1) rb(1) by simp
  with assms(6) have fit: "rows_fit g1 u1 g2 u2" by (simp add: records_worklist(1))
  have ord: "\<And>ks. set (label_order h (turn st) ks) = set ks" using permutes_keysD [OF assms(4)] by simp
  have "good K st st' (\<lambda>v. eval_fields v g1 ++\<^sub>f tail_map (row_val v) u1 = eval_fields v g2 ++\<^sub>f tail_map (row_val v) u2)"
    unfolding st' records_worklist(2) [OF fit]
    by (rule records.solve_good [OF assms(1)]) (use w ra rb fit ord in \<open>auto intro: items_shared simp: agree_shared\<close>)
  moreover have "eval v (TRecord f1 t1) = eval v (TRecord f2 t2)"
    if "sat v st" "eval_fields v g1 ++\<^sub>f tail_map (row_val v) u1 = eval_fields v g2 ++\<^sub>f tail_map (row_val v) u2" for v
    using deep_eval [OF r(1), of v] deep_eval [OF r(2), of v] that ra(1) rb(1) by (simp add: sat_def)
  ultimately show ?thesis by (rule goodD)
qed

lemma heads_good:
  assumes "state_ok K st" and "wk K a" and "wk K b" and "permutes_keys h"
    and "\<And>n. a = TVar n \<Longrightarrow> map_of (solutions (chained st)) n = None"
    and "\<And>n. b = TVar n \<Longrightarrow> map_of (solutions (chained st)) n = None"
    and "unify_heads h a b rng st = Some st'" and "diags st' = diags st"
  shows "good K st st' (\<lambda>v. eval v a = eval v b)"
  using unify_heads_rule [where h = h and a = a and b = b and rng = rng and st = st] unfolding assms(7)
proof (cases rule: head_rule.cases)
  case same
  then show ?thesis using assms(1) by (auto intro: goodI)
next
  case (left n)
  with bind_checked_good [OF assms(1,3) _ _ assms(8), of n rng] assms(5) show ?thesis by simp
next
  case (right m)
  with bind_checked_good [OF assms(1,2) _ _ assms(8), of m rng] assms(6) have "good K st st' (\<lambda>v. ty_val v m = eval v a)" by simp
  then show ?thesis by (rule goodD) (simp add: right)
next
  case (funs p1 p2 r1 r2)
  have ip: "state_ok K (push_all [(r1, r2, rng)] st)" by (rule inv_push) (use assms(1-3) funs in auto)
  have "good K (push_all [(r1, r2, rng)] st) st' (\<lambda>v. map (eval v) p1 = map (eval v) p2)"
    unfolding funs(1) option.inject
    using pairs_good [OF ip funs(4), of rng] assms(2,3) funs by simp
  then show ?thesis by (auto simp: good_def funs)
next
  case (lists x y)
  then show ?thesis using assms(1-3) by (auto intro!: goodI inv_push)
next
  case (refs x y)
  then show ?thesis using assms(1-3) by (auto intro!: goodI inv_push)
next
  case (dicts k1 v1 k2 v2)
  then show ?thesis using assms(1-3) by (auto intro!: goodI inv_push)
next
  case (tuples e1 e2)
  then show ?thesis using elements_good [OF assms(1), of e1 e2 rng] assms(2,3,8) by simp
next
  case partial
  then show ?thesis using partial_good [OF assms(1-4) _ _ _ assms(8)] by simp
next
  case (records f1 t1 f2 t2)
  then show ?thesis using records_good [OF assms(1) _ _ assms(4) _ assms(8), of f1 t1 f2 t2 rng] assms(2,3) by simp
next
  case (enums n as bs)
  have "good K st st' (\<lambda>v. map (eval v) as = map (eval v) bs)"
    using pairs_good [OF assms(1), of as bs inner] assms(2,3) enums by simp
  then show ?thesis by (rule goodD) (simp add: enums)
next
  case clash
  then show ?thesis using mismatch_diags [of a b rng st st'] assms(8) by auto
qed (use assms(8) in auto)

lemma step_good:
  assumes "state_ok K st" and "wk K a" and "wk K b" and "permutes_keys h"
    and "unify_step h (a, b, rng) st = Some st'" and "diags st' = diags st"
  shows "good K st st' (\<lambda>v. eval v a = eval v b)"
proof -
  let ?bs = "solutions (chained st)"
  from assms(5) obtain a' b' where r: "resolve_head ?bs a = Some a'" "resolve_head ?bs b = Some b'"
    "unify_heads h a' b' rng st = Some st'" by (auto simp: unify_step_def bind_eq_Some_conv)
  have k: "\<forall>n u. map_of ?bs n = Some u \<longrightarrow> wk K u" using assms(1) by (simp add: state_ok_def wk_subst_def)
  have "good K st st' (\<lambda>v. eval v a' = eval v b')"
    by (rule heads_good [OF assms(1) resolve_head_kind [OF r(1) k assms(2)] resolve_head_kind [OF r(2) k assms(3)] assms(4) _ _ r(3) assms(6)])
      (auto intro: resolve_head_unbound [OF r(1)] resolve_head_unbound [OF r(2)])
  then show ?thesis
    by (rule goodD) (use resolve_head_eval [OF r(1)] resolve_head_eval [OF r(2)] in \<open>auto simp: sat_def\<close>)
qed

section \<open>The loop\<close>

lemma loop_sound:
  "unify_loop h st = Some st' \<Longrightarrow> reports st st' \<and> (permutes_keys h \<longrightarrow> state_ok K st \<longrightarrow> diags st' = diags st \<longrightarrow>
     work st' = [] \<and> (\<exists>L. grown K L \<and> state_ok L st') \<and> (\<forall>v. sat v st' \<longrightarrow> sat v st))"
proof (induction arbitrary: K rule: unify_loop.raw_induct [rotated, consumes 1, case_names step])
  case (step loop h st st')
  show ?case
  proof (cases "work st")
    case Nil
    with step(2) have "st' = st" by simp
    with Nil show ?thesis by (auto simp: reports_def intro: exI [of _ K])
  next
    case (Cons w ws)
    obtain a b rng where w: "w = (a, b, rng)" by (cases w)
    let ?st0 = "st\<lparr>work := ws, turn := turn st + 1\<rparr>"
    from step(2) Cons obtain st1 where s1: "unify_step h w ?st0 = Some st1" and l: "loop h st1 = Some st'"
      by (auto simp: bind_eq_Some_conv)
    note IH = step(1) [OF l]
    from s1 w have r1: "reports ?st0 st1"
      by (auto simp: unify_step_def bind_eq_Some_conv dest: heads_diags)
    have r2: "reports st1 st'" using IH by blast
    from r1 obtain ds1 where ds1: "diags st1 = diags st @ ds1" by (auto simp: reports_def)
    from r2 obtain ds2 where ds2: "diags st' = diags st1 @ ds2" by (auto simp: reports_def)
    from ds1 ds2 have rep: "reports st st'" by (simp add: reports_def)
    moreover have "work st' = [] \<and> (\<exists>L. grown K L \<and> state_ok L st') \<and> (\<forall>v. sat v st' \<longrightarrow> sat v st)"
      if h: "permutes_keys h" and i: "state_ok K st" and d: "diags st' = diags st"
    proof -
      have d1: "diags st1 = diags ?st0" "diags st' = diags st1" using d ds1 ds2 by simp_all
      have i0: "state_ok K ?st0" "wk K a" "wk K b" using i Cons w by (auto simp: state_ok_def)
      from step_good [OF i0 h] s1 w d1(1) have g: "good K ?st0 st1 (\<lambda>v. eval v a = eval v b)" by simp
      then obtain L where L: "grown K L" "state_ok L st1" by (auto simp: good_def)
      from IH h L(2) d1(2) have st': "work st' = []" "\<forall>v. sat v st' \<longrightarrow> sat v st1" and "\<exists>M. grown L M \<and> state_ok M st'" by auto
      moreover have "sat v st" if "sat v st1" for v
        using g that Cons w by (auto simp: good_def sat_def)
      ultimately show ?thesis using L(1) grown_trans by blast
    qed
    ultimately show ?thesis by blast
  qed
qed

section \<open>The result\<close>

text \<open>Equalities between well-kinded types whose row variables have been handed out.\<close>

definition kinded :: "kinds \<Rightarrow> nat \<Rightarrow> tconstraint list \<Rightarrow> bool" where
  "kinded K next cs \<longleftrightarrow> (\<forall>c \<in> set cs. \<exists>a b reason. c = CEq a b reason \<and> wk K a \<and> wk K b)
     \<and> dom (labels K) \<subseteq> {..<next} \<and> dom (indices K) \<subseteq> {..<next}"

lemma kinded_items:
  assumes "kinded K next cs" and "mapm eq_item cs = Some ws"
  shows "items_ok (wk K) ws"
  using assms(2,1) unfolding mapm_Some by (induction rule: list_all2_induct) (auto simp: kinded_def)

lemma item_in: "mapm eq_item cs = Some ws \<Longrightarrow> CEq a b reason \<in> set cs \<Longrightarrow> (a, b, reason_range reason) \<in> set ws"
  unfolding mapm_Some by (induction rule: list_all2_induct) auto

lemma state_ok_start:
  assumes "kinded K next cs" and "mapm eq_item cs = Some ws"
  shows "state_ok K \<lparr>chained = empty_subst, work = ws, next_var = next, diags = ds, turn = 0\<rparr>"
  using assms kinded_items [OF assms] by (auto simp: state_ok_def wk_subst_def wk_rows_def empty_subst_def kinded_def)

lemma state_ok_rising: "state_ok K st \<Longrightarrow> rising_rows (chained st)"
  by (auto simp: state_ok_def wk_subst_def rising_rows_def intro: wk_rows_rising)

lemma unify_eq_run:
  assumes "permutes_keys h" and "kinded K next cs" and "unify_eq_constraints h cs next ds = Some (s, st)" and "diags st = ds"
  obtains ws where "mapm eq_item cs = Some ws" and "normal_form (chained st) = Some s" and "work st = []"
    and "rising_rows (chained st)" and "\<And>v. solves v (chained st) \<Longrightarrow> agree v ws"
    and "\<exists>L. grown K L \<and> state_ok L st"
proof -
  from assms(3) obtain ws where ws: "mapm eq_item cs = Some ws"
    and l: "unify_loop h \<lparr>chained = empty_subst, work = ws, next_var = next, diags = ds, turn = 0\<rparr> = Some st"
    and n: "normal_form (chained st) = Some s"
    by (auto simp: unify_eq_constraints_def bind_eq_Some_conv)
  from loop_sound [OF l, of K] state_ok_start [OF assms(2) ws, of ds] assms(1,4)
  have r: "work st = []" "\<exists>L. grown K L \<and> state_ok L st"
    "\<And>v. sat v st \<Longrightarrow> sat v \<lparr>chained = empty_subst, work = ws, next_var = next, diags = ds, turn = 0\<rparr>" by auto
  have "agree v ws" if "solves v (chained st)" for v
    using r(3) [of v] that r(1) by (simp add: sat_def)
  with that [OF ws n r(1)] r(2) state_ok_rising show thesis by blast
qed

text \<open>
  C1. On well-kinded constraints (an enum has a fixed number of arguments, a row variable always
  stands beside the same labels or indices, no label comes twice) the solver's substitution
  unifies: when a run returns and reports nothing new, applying the substitution to the two
  sides of a constraint returns, and gives the same type up to the order of the fields of its
  records and open tuples. Rows, the occurs check and any order in which hash maps are read included. The
  rest of a record pattern makes constraints that are not well-kinded: see
  \<open>named_rest_accepted\<close>.
\<close>

theorem unify_eq_sound:
  assumes "permutes_keys h" and "kinded K next cs" and "unify_eq_constraints h cs next ds = Some (s, st)" and "diags st = ds"
    and "CEq a b reason \<in> set cs"
  shows "\<exists>a' b'. apply_to_type s a = Some a' \<and> apply_to_type s b = Some b' \<and> canon a' = canon b'"
proof -
  from unify_eq_run [OF assms(1-4)] obtain ws L where ws: "mapm eq_item cs = Some ws"
    and n: "normal_form (chained st) = Some s" and r: "rising_rows (chained st)"
    and sat: "\<And>v. solves v (chained st) \<Longrightarrow> agree v ws" and L: "grown K L" "state_ok L st" by blast
  from deep_total [OF n r] obtain a' b' where d: "deep_resolve (chained st) a = Some a'" "deep_resolve (chained st) b = Some b'" by blast
  have same: "eval v a' = eval v b'" for v
  proof -
    from sat [OF after_solves [OF n r]] item_in [OF ws assms(5)]
    have "eval (after v (chained st)) a = eval (after v (chained st)) b" by (fastforce simp: agree_def)
    then show ?thesis using after_eval [OF n r d(1)] after_eval [OF n r d(2)] by simp
  qed
  have k: "wk L a" "wk L b" "wk_subst L (chained st)"
    using assms(2,5) L wk_grown [OF _ L(1)] by (fastforce simp: kinded_def, fastforce simp: kinded_def, simp add: state_ok_def)
  have "canon a' = canon b'"
    by (rule eval_canon [OF deep_resolve_kind [OF d(1) k(1,3)] deep_resolved [OF d(1)]
        deep_resolve_kind [OF d(2) k(2,3)] deep_resolved [OF d(2)] same])
  with d show ?thesis by (simp add: apply_normal_eq [OF n r])
qed

text \<open>
  C14. On well-kinded constraints solved without a new report, the result is an idempotent
  substitution in lockstep with the chained maps: for every type
  \<open>apply_to_type\<close> returns what \<open>deep_resolve\<close> returned on the chained maps, and applying it
  again changes nothing.
\<close>

theorem unify_eq_idempotent:
  assumes "permutes_keys h" and "kinded K next cs" and "unify_eq_constraints h cs next ds = Some (s, st)" and "diags st = ds"
  shows "\<exists>u. apply_to_type s t = Some u \<and> deep_resolve (chained st) t = Some u \<and> apply_to_type s u = Some u"
proof -
  from unify_eq_run [OF assms] obtain ws where n: "normal_form (chained st) = Some s" and r: "rising_rows (chained st)" by blast
  from deep_total [OF n r] obtain u where u: "deep_resolve (chained st) t = Some u" by blast
  with apply_normal_eq [OF n r] resolved_apply [OF deep_resolved [OF u] normal_form_domain [OF n]] show ?thesis by auto
qed

section \<open>Inconsistent constraints\<close>

text \<open>Rows without a field keep clear of the names beside them; reading through the maps keeps that.\<close>

definition least_valuation :: "kinds \<Rightarrow> valuation" where
  "least_valuation K = \<lparr>ty_val = (\<lambda>n. GBase TUnknown), row_val = (\<lambda>r. fmempty), trow_val = (\<lambda>r. fmempty)\<rparr>"

lemma least_obeys: "obeys K (least_valuation K)"
  by (simp add: obeys_def obeys_rows_def least_valuation_def)

lemma row_after_dom:
  assumes "wk_rows closed L W rows" and "rising rows" and "mapm_snd (normal_row s) rows = Some rows'"
    and "obeys_rows L rv" and "L r = Some A"
  shows "fset (fmdom (row_after v rv s rows (Some r))) \<inter> A = {}"
proof -
  from row_chain_total [OF assms(2)] obtain p where p: "row_chain rows (Some r) = Some p" by blast
  from normal_chain [OF p assms(3)] obtain gs where gs: "mapm_snd (deep_resolve s) (fst p) = Some gs" by blast
  have "open_ok closed L A (Some r)" using assms(5) by (simp add: open_ok_def)
  from row_chain_kind [OF p this assms(1)] have k: "fst ` set (fst p) \<inter> A = {}"
    "\<And>t. snd p = Some t \<Longrightarrow> L t = Some (A \<union> fst ` set (fst p))" by (auto simp: open_ok_def)
  have "fset (fmdom (tail_map rv (snd p))) \<inter> A = {}"
    using k(2) assms(4) by (cases "snd p") (auto simp: tail_map_def obeys_rows_def)
  moreover have "fset (fmdom (eval_fields v gs)) = fst ` set (fst p)"
    using arg_cong [OF mapm_snd_fst [OF gs], of set] by simp
  ultimately show ?thesis using p gs k(1) by (cases p) (auto simp: row_after_def)
qed

lemma after_obeys:
  assumes "normal_form s = Some u" and "rising_rows s" and "wk_subst L s" and "obeys L v" and "grown K L"
  shows "obeys K (after v s)"
proof -
  from assms(1) have n: "mapm_snd (normal_row s) (row_solutions s) = Some (row_solutions u)"
    "mapm_snd (normal_row s) (tuple_row_solutions s) = Some (tuple_row_solutions u)" by (auto elim: normal_formE)
  have r: "rising (row_solutions s)" "rising (tuple_row_solutions s)" using assms(2) by (simp_all add: rising_rows_def)
  have w: "wk_rows any_set (labels L) (wk L) (row_solutions s)" "wk_rows initial_set (indices L) (wk L) (tuple_row_solutions s)"
    using assms(3) by (simp_all add: wk_subst_def)
  have o: "obeys_rows (labels L) (row_val v)" "obeys_rows (indices L) (trow_val v)" using assms(4) by (simp_all add: obeys_def)
  have m: "\<And>r A. labels K r = Some A \<Longrightarrow> labels L r = Some A" "\<And>r A. indices K r = Some A \<Longrightarrow> indices L r = Some A"
    using assms(5) by (auto simp: grown_def map_le_def dom_def)
  show ?thesis
    using row_after_dom [OF w(1) r(1) n(1) o(1) m(1)] row_after_dom [OF w(2) r(2) n(2) o(2) m(2)]
    unfolding obeys_def obeys_rows_def after_def by simp
qed

text \<open>
  C13. Inconsistent constraints are never accepted in silence: when no assignment of types to
  type variables, and to row variables of fields other than those named beside them, makes the
  two sides of every one of the well-kinded constraints equal, every run of the solver that
  returns has reported something more.
\<close>

theorem unify_eq_rejects:
  assumes "permutes_keys h" and "kinded K next cs" and "unify_eq_constraints h cs next ds = Some (s, st)"
    and "\<nexists>v. obeys K v \<and> (\<forall>c \<in> set cs. \<forall>a b reason. c = CEq a b reason \<longrightarrow> eval v a = eval v b)"
  shows "\<exists>e es. diags st = ds @ e # es"
proof -
  from assms(3) obtain ws where ws: "mapm eq_item cs = Some ws"
    and l: "unify_loop h \<lparr>chained = empty_subst, work = ws, next_var = next, diags = ds, turn = 0\<rparr> = Some st"
    by (auto simp: unify_eq_constraints_def bind_eq_Some_conv)
  from loop_sound [OF l] obtain es where es: "diags st = ds @ es" by (auto simp: reports_def)
  have "es \<noteq> []"
  proof
    assume "es = []"
    with es have "diags st = ds" by simp
    from unify_eq_run [OF assms(1-3) this] obtain ws' L where w: "mapm eq_item cs = Some ws'"
      and n: "normal_form (chained st) = Some s" and r: "rising_rows (chained st)"
      and sat: "\<And>v. solves v (chained st) \<Longrightarrow> agree v ws'" and L: "grown K L" "state_ok L st" by blast
    let ?v = "after (least_valuation L) (chained st)"
    have "agree ?v ws'" by (rule sat [OF after_solves [OF n r]])
    then have "\<forall>c \<in> set cs. \<forall>a b reason. c = CEq a b reason \<longrightarrow> eval ?v a = eval ?v b"
      using item_in [OF w] by (fastforce simp: agree_def)
    moreover have "obeys K ?v"
      by (rule after_obeys [OF n r _ least_obeys L(1)]) (use L(2) in \<open>simp add: state_ok_def\<close>)
    ultimately show False using assms(4) by blast
  qed
  with es show ?thesis by (cases es) auto
qed

section \<open>Examples\<close>

text \<open>
  A function applied to an open record, whose result is the same record seen through another
  field; and a pair whose second component is an integer.
\<close>

definition plain_orders :: hash_orders where
  "plain_orders = \<lparr>label_order = (\<lambda>n ks. ks), index_order = (\<lambda>n ks. ks)\<rparr>"

definition sample_kinds :: kinds where
  "sample_kinds = \<lparr>arity = (\<lambda>n. 0), labels = [1 \<mapsto> {''x''}, 2 \<mapsto> {''y''}], indices = [3 \<mapsto> {1}]\<rparr>"

definition sample_fun :: "ty \<times> ty" where
  "sample_fun = (TFun [TVar 0] (TRecord [(''x'', TInt)] (Some 1)), TFun [TRecord [(''y'', TVar 4)] (Some 2)] (TVar 0))"

definition sample_constraints :: "tconstraint list" where
  "sample_constraints = [CEq (fst sample_fun) (snd sample_fun) \<lparr>reason_range = inner\<rparr>,
     CEq (TPartialTuple [(1, TVar 4)] (Some 3)) (TTuple [TString, TBool]) \<lparr>reason_range = inner\<rparr>]"

definition sample_result :: "substitution" where
  "sample_result = \<lparr>solutions = [(0, TRecord [(''y'', TBool), (''x'', TInt)] (Some 5)), (4, TBool)],
     row_solutions = [(1, \<lparr>row_fields = [(''y'', TBool)], row_tail = Some 5\<rparr>),
       (2, \<lparr>row_fields = [(''x'', TInt)], row_tail = Some 5\<rparr>)],
     tuple_row_solutions = [(3, \<lparr>row_fields = [(0, TString)], row_tail = None\<rparr>)]\<rparr>"

definition sample_state :: solver where
  "sample_state = \<lparr>chained = \<lparr>solutions = [(0, TRecord [(''y'', TVar 4)] (Some 2)), (4, TBool)],
       row_solutions = [(1, \<lparr>row_fields = [(''y'', TVar 4)], row_tail = Some 5\<rparr>),
         (2, \<lparr>row_fields = [(''x'', TInt)], row_tail = Some 5\<rparr>)],
       tuple_row_solutions = [(3, \<lparr>row_fields = [(0, TString)], row_tail = None\<rparr>)]\<rparr>,
     work = [], next_var = 6, diags = [], turn = 5\<rparr>"

lemma plain_permutes: "permutes_keys plain_orders"
  by (simp add: permutes_keys_def plain_orders_def)

lemma sample_kinded: "kinded sample_kinds 5 sample_constraints"
  by (auto simp: kinded_def sample_constraints_def sample_fun_def sample_kinds_def fields_ok_def open_ok_def any_set_def)

lemma sample_run: "unify_eq_constraints plain_orders sample_constraints 5 [] = Some (sample_result, sample_state)"
  by code_simp

theorem unify_eq_sound_witness:
  "\<exists>a b. apply_to_type sample_result (fst sample_fun) = Some a \<and> apply_to_type sample_result (snd sample_fun) = Some b
     \<and> canon a = canon b"
  by (rule unify_eq_sound [OF plain_permutes sample_kinded sample_run, where reason = "\<lparr>reason_range = inner\<rparr>"])
    (simp_all add: sample_state_def sample_constraints_def)

theorem unify_eq_idempotent_witness:
  "\<exists>u. apply_to_type sample_result (TRecord [(''x'', TInt)] (Some 1)) = Some u
     \<and> deep_resolve (chained sample_state) (TRecord [(''x'', TInt)] (Some 1)) = Some u \<and> apply_to_type sample_result u = Some u"
  by (rule unify_eq_idempotent [OF plain_permutes sample_kinded sample_run]) (simp add: sample_state_def)

text \<open>An open record with a string in a field and a closed one with an integer there have no solution.\<close>

definition clash_constraints :: "tconstraint list" where
  "clash_constraints = [CEq (TRecord [(''x'', TString)] (Some 0)) (TRecord [(''x'', TInt)] None) \<lparr>reason_range = inner\<rparr>]"

theorem unify_eq_rejects_witness:
  "\<exists>e es. diags (snd (the (unify_eq_constraints plain_orders clash_constraints 1 []))) = [] @ e # es"
proof -
  let ?K = "\<lparr>arity = (\<lambda>n. 0), labels = [0 \<mapsto> {''x''}], indices = Map.empty\<rparr>"
  have k: "kinded ?K 1 clash_constraints"
    by (simp add: kinded_def clash_constraints_def fields_ok_def open_ok_def any_set_def)
  have "unify_eq_constraints plain_orders clash_constraints 1 [] \<noteq> None" by code_simp
  then obtain s st where r: "unify_eq_constraints plain_orders clash_constraints 1 [] = Some (s, st)" by auto
  have "False" if "obeys ?K v" and e: "eval v (TRecord [(''x'', TString)] (Some 0)) = eval v (TRecord [(''x'', TInt)] None)" for v
  proof -
    from that(1) have "fset (fmdom (row_val v 0)) \<inter> {''x''} = {}" by (auto simp: obeys_def obeys_rows_def)
    then have "fmlookup (row_val v 0) ''x'' = None" by (auto intro: fmdom_notD)
    with arg_cong [OF e [unfolded eval.simps gty.inject], of "\<lambda>m. fmlookup m ''x''"] show False
      by (simp add: field_map_def tail_map_def fmlookup_of_list fmupd_lookup split: if_splits)
  qed
  then have no: "\<nexists>v. obeys ?K v \<and> (\<forall>c \<in> set clash_constraints. \<forall>a b reason. c = CEq a b reason \<longrightarrow> eval v a = eval v b)"
    by (auto simp: clash_constraints_def)
  from unify_eq_rejects [OF plain_permutes k r no] show ?thesis unfolding r option.sel snd_conv .
qed

section \<open>The rest of a record pattern\<close>

text \<open>
  The constraints of a record pattern with a named rest (analyzer.rs, \<open>Pattern::Record\<close>) put one
  row variable beside the named fields and beside none, so they are not well-kinded. Here a
  subject (variable 9) is taken apart into its field \<open>x\<close> and the rest, \<open>x\<close> is read from the rest
  again, the first one is used as a string, and the subject is a record with an integer \<open>x\<close>: nothing is
  reported, and the subject ends as a record that has the label twice.
\<close>

definition named_rest :: "tconstraint list" where
  "named_rest = map (\<lambda>p. CEq (fst p) (snd p) \<lparr>reason_range = inner\<rparr>)
     [(TVar 9, TRecord [(''x'', TVar 0)] (Some 1)), (TRecord [] (Some 1), TRecord [(''x'', TVar 2)] (Some 3)),
      (TVar 0, TString), (TVar 9, TRecord [(''x'', TInt)] None)]"

lemma named_rest_accepted:
  "case unify_eq_constraints plain_orders named_rest 10 [] of None \<Rightarrow> False | Some (s, st) \<Rightarrow>
     diags st = [] \<and> apply_to_type s (TVar 9) = Some (TRecord [(''x'', TString), (''x'', TInt)] None)
     \<and> apply_to_type s (TRecord [(''x'', TInt)] None) = Some (TRecord [(''x'', TInt)] None)"
  by code_simp

end
