(* ===== verification/UnifyProgress.thy ===== *)
theory UnifyProgress
  imports UnifyWeight UnifySound
begin

text \<open>
  Completeness of the solver, for two rows: when a valuation satisfies the constraints, rows are
  solved without a diagnostic, and the valuation, extended to the fresh variable, satisfies the
  new state, which has less left to do.
\<close>

section \<open>Extending a valuation to new row variables\<close>

definition extends :: "kinds \<Rightarrow> valuation \<Rightarrow> valuation \<Rightarrow> bool" where
  "extends K v w \<longleftrightarrow> ty_val w = ty_val v \<and> (\<forall>r A. labels K r = Some A \<longrightarrow> row_val w r = row_val v r)
     \<and> (\<forall>r A. indices K r = Some A \<longrightarrow> trow_val w r = trow_val v r)"

lemma extends_refl [simp]: "extends K v v"
  by (simp add: extends_def)

lemma extends_trans: "extends K u v \<Longrightarrow> extends L v w \<Longrightarrow> grown K L \<Longrightarrow> extends K u w"
  by (auto simp: extends_def grown_def map_le_def dom_def)

lemma eval_fields_cong: "(\<And>p. p \<in> set fs \<Longrightarrow> eval w (snd p) = eval v (snd p)) \<Longrightarrow> eval_fields w fs = eval_fields v fs"
  by (simp add: eval_fields_def apsnd_def map_prod_def prod.case_eq_if cong: map_cong del: eval_fields_eq)

lemma eval_extends: "wk K t \<Longrightarrow> extends K v w \<Longrightarrow> eval w t = eval v t"
proof (induction K t rule: wk.induct)
  case (1 K ts)
  then have "map (eval w) ts = map (eval v) ts" by simp
  then show ?case by (simp only: eval.simps)
next
  case (2 K fs rest)
  then have "eval_fields w fs = eval_fields v fs" by (intro eval_fields_cong) auto
  moreover have "tail_map (trow_val w) rest = tail_map (trow_val v) rest"
    using 2(2,3) by (cases rest) (auto simp: tail_map_def extends_def fields_ok_def open_ok_def)
  ultimately show ?case by simp
next
  case (3 K fs rest)
  then have "eval_fields w fs = eval_fields v fs" by (intro eval_fields_cong) auto
  moreover have "tail_map (row_val w) rest = tail_map (row_val v) rest"
    using 3(2,3) by (cases rest) (auto simp: tail_map_def extends_def fields_ok_def open_ok_def)
  ultimately show ?case by simp
qed (auto simp: extends_def)

lemma fields_extends: "\<forall>p \<in> set fs. wk K (snd p) \<Longrightarrow> extends K v w \<Longrightarrow> eval_fields w fs = eval_fields v fs"
  by (rule eval_fields_cong) (auto intro: eval_extends)

lemma solves_row_extends:
  assumes "wk_rows closed L (wk K) rows" and "extends K v w" and "\<And>r A. L r = Some A \<Longrightarrow> rw r = rv r"
    and "solves_row (eval_fields v) rv rows"
  shows "solves_row (eval_fields w) rw rows"
  unfolding solves_row_def
proof (intro allI impI)
  fix r sol assume r: "map_of rows r = Some sol"
  with assms(1) have k: "wk_row closed L (wk K) r sol" by (simp add: wk_rows_def)
  then have "rw r = rv r" using assms(3) by (auto simp: wk_row_def)
  moreover have "tail_map rw (row_tail sol) = tail_map rv (row_tail sol)"
    using k assms(3) by (cases "row_tail sol") (auto simp: tail_map_def wk_row_def open_ok_def)
  moreover have "eval_fields w (row_fields sol) = eval_fields v (row_fields sol)"
    by (rule fields_extends [OF _ assms(2)]) (use k in \<open>simp add: wk_row_def\<close>)
  ultimately show "rw r = eval_fields w (row_fields sol) ++\<^sub>f tail_map rw (row_tail sol)"
    using assms(4) r by (simp add: solves_row_def)
qed

lemma solves_extends:
  assumes "wk_subst K s" and "extends K v w" and "solves v s"
  shows "solves w s"
proof -
  have "solves_row (eval_fields w) (row_val w) (row_solutions s)"
    by (rule solves_row_extends [OF _ assms(2), where rv = "row_val v" and L = "labels K" and closed = any_set]) (use assms in \<open>auto simp: wk_subst_def extends_def solves_def\<close>)
  moreover have "solves_row (eval_fields w) (trow_val w) (tuple_row_solutions s)"
    by (rule solves_row_extends [OF _ assms(2), where rv = "trow_val v" and L = "indices K" and closed = initial_set]) (use assms in \<open>auto simp: wk_subst_def extends_def solves_def\<close>)
  moreover have "ty_val w n = eval w t" if "map_of (solutions s) n = Some t" for n t
    using that assms eval_extends [OF _ assms(2), of t] by (simp add: wk_subst_def solves_def extends_def)
  ultimately show ?thesis by (simp add: solves_def)
qed

lemma agree_extends: "items_ok (wk K) xs \<Longrightarrow> extends K v w \<Longrightarrow> agree v xs \<Longrightarrow> agree w xs"
  by (induction xs) (auto simp: eval_extends)

lemma sat_extends: "state_ok K st \<Longrightarrow> extends K v w \<Longrightarrow> sat v st \<Longrightarrow> sat w st"
  by (auto simp: sat_def state_ok_def intro: solves_extends agree_extends)

section \<open>What is left to do\<close>

definition load :: "valuation \<Rightarrow> work_item list \<Rightarrow> nat" where
  "load v xs = (\<Sum>w\<leftarrow>xs. gweight (eval v (fst w)))"

lemma load_simps [simp]:
  "load v [] = 0" "load v (w # xs) = gweight (eval v (fst w)) + load v xs"
  "load v (xs @ ys) = load v xs + load v ys" "load v (rev xs) = load v xs"
  by (simp_all add: load_def sum_list_rev flip: rev_map)

lemma load_extends: "items_ok (wk K) xs \<Longrightarrow> extends K v w \<Longrightarrow> load w xs = load v xs"
  by (induction xs) (auto simp: eval_extends)

definition ready :: "kinds \<Rightarrow> valuation \<Rightarrow> solver \<Rightarrow> bool" where
  "ready K v st \<longleftrightarrow> state_ok K st \<and> obeys K v \<and> sat v st \<and> heads_end (solutions (chained st)) \<and> keyed (chained st)"

definition progress :: "kinds \<Rightarrow> valuation \<Rightarrow> solver \<Rightarrow> solver \<Rightarrow> nat \<Rightarrow> bool" where
  "progress K v st st' n \<longleftrightarrow> diags st' = diags st
     \<and> (\<exists>L w. grown K L \<and> extends K v w \<and> ready L w st' \<and> load w (work st') < load v (work st) + n)"

lemma progressI:
  "diags st' = diags st \<Longrightarrow> ready K v st' \<Longrightarrow> load v (work st') < load v (work st) + n \<Longrightarrow> progress K v st st' n"
  unfolding progress_def using grown_refl extends_refl by blast

lemma work_push [simp]: "work (push_all xs st) = rev xs @ work st"
  by (simp add: push_all_def)

lemma progress_push:
  assumes "ready K v st" and "items_ok (wk K) xs" and "agree v xs" and "load v xs < n"
  shows "progress K v st (push_all xs st) n"
  using assms by (auto simp: ready_def intro!: progressI inv_push)

section \<open>Two rows\<close>

lemma rows_split:
  assumes "eval_fields v f1 ++\<^sub>f r1 = eval_fields v f2 ++\<^sub>f r2"
    and "fst ` set f1 \<inter> fset (fmdom r1) = {}" and "fst ` set f2 \<inter> fset (fmdom r2) = {}"
  shows "shared_agree v f1 f2"
    and "r1 = eval_fields v (extra_fields f1 f2) ++\<^sub>f fmfilter (\<lambda>k. k \<notin> fst ` set f2) r1"
    and "r2 = eval_fields v (extra_fields f2 f1) ++\<^sub>f fmfilter (\<lambda>k. k \<notin> fst ` set f2) r1"
proof -
  have look: "fmlookup (eval_fields v f1 ++\<^sub>f r1) k = fmlookup (eval_fields v f2 ++\<^sub>f r2) k" for k using assms(1) by simp
  have n1: "fmlookup r1 k = None" if "k \<in> fst ` set f1" for k using assms(2) that by (auto simp: fmdom_notD)
  have n2: "fmlookup r2 k = None" if "k \<in> fst ` set f2" for k using assms(3) that by (auto simp: fmdom_notD)
  show "shared_agree v f1 f2"
    unfolding shared_agree_def
  proof
    fix k assume k: "k \<in> fst ` set f1 \<inter> fst ` set f2"
    then have k1: "k \<in> fst ` set f1" and k2: "k \<in> fst ` set f2" by auto
    from look [of k] n1 [OF k1] n2 [OF k2] fmlookup_last [OF k1, of v] fmlookup_last [OF k2, of v]
    show "eval v (last_field f1 k) = eval v (last_field f2 k)" by (simp add: add_lookup del: fmlookup_add)
  qed
  show "r1 = eval_fields v (extra_fields f1 f2) ++\<^sub>f fmfilter (\<lambda>k. k \<notin> fst ` set f2) r1"
  proof (rule fmap_ext)
    fix k
    from look [of k] n1 [of k] n2 [of k] fmlookup_no_field [of k f1 v] fmlookup_no_field [of k f2 v]
    show "fmlookup r1 k = fmlookup (eval_fields v (extra_fields f1 f2) ++\<^sub>f fmfilter (\<lambda>k. k \<notin> fst ` set f2) r1) k"
      by (cases "k \<in> fst ` set f1"; cases "k \<in> fst ` set f2"; cases "fmlookup r1 k"; cases "fmlookup r2 k")
        (simp_all add: add_lookup fmlookup_extra del: fmlookup_add)
  qed
  show "r2 = eval_fields v (extra_fields f2 f1) ++\<^sub>f fmfilter (\<lambda>k. k \<notin> fst ` set f2) r1"
  proof (rule fmap_ext)
    fix k
    from look [of k] n1 [of k] n2 [of k] fmlookup_no_field [of k f1 v] fmlookup_no_field [of k f2 v]
    show "fmlookup r2 k = fmlookup (eval_fields v (extra_fields f2 f1) ++\<^sub>f fmfilter (\<lambda>k. k \<notin> fst ` set f2) r1) k"
      by (cases "k \<in> fst ` set f1"; cases "k \<in> fst ` set f2"; cases "fmlookup r1 k"; cases "fmlookup r2 k")
        (simp_all add: add_lookup fmlookup_extra del: fmlookup_add)
  qed
qed

text \<open>A sort of rows whose values can be changed at one variable.\<close>

locale row_values = row_sort closed kind_of with_kind rows_of bindf val
  for closed :: "'k set \<Rightarrow> bool"
    and kind_of :: "kinds \<Rightarrow> nat \<Rightarrow> 'k set option"
    and with_kind :: "kinds \<Rightarrow> nat \<Rightarrow> 'k set \<Rightarrow> kinds"
    and rows_of :: "substitution \<Rightarrow> (nat \<times> 'k row_sol) list"
    and bindf :: "nat \<Rightarrow> 'k row_sol \<Rightarrow> solver \<Rightarrow> solver"
    and val :: "valuation \<Rightarrow> nat \<Rightarrow> ('k, gty) fmap" +
  fixes with_val :: "valuation \<Rightarrow> nat \<Rightarrow> ('k, gty) fmap \<Rightarrow> valuation"
  assumes val_with: "val (with_val v r m) = (val v)(r := m)"
    and extends_with: "kind_of K r = None \<Longrightarrow> extends K v (with_val v r m)"
    and obeys_val: "obeys K v \<Longrightarrow> obeys_rows (kind_of K) (val v)"
    and obeys_with: "obeys K v \<Longrightarrow> fset (fmdom m) \<inter> A = {} \<Longrightarrow> obeys (with_kind K r A) (with_val v r m)"
    and bind_keeps: "diags (bindf r sol st) = diags st" "work (bindf r sol st) = work st"
      "solutions (chained (bindf r sol st)) = solutions (chained st)"
      "keyed (chained st) \<Longrightarrow> keyed (chained (bindf r sol st))"
begin

lemma solve_keeps:
  "diags (solve_rows bindf items f1 t1 f2 t2 st) = diags st"
  "work (solve_rows bindf items f1 t1 f2 t2 st) = rev items @ work st"
  "solutions (chained (solve_rows bindf items f1 t1 f2 t2 st)) = solutions (chained st)"
  "keyed (chained st) \<Longrightarrow> keyed (chained (solve_rows bindf items f1 t1 f2 t2 st))"
  by (auto simp: solve_rows_def bind_keeps new_row_var_def push_all_def split: option.split)

lemma fits:
  assumes "obeys K v" and "fields_ok closed (kind_of K) f1 t1" and "fields_ok closed (kind_of K) f2 t2"
    and "eval_fields v f1 ++\<^sub>f tail_map (val v) t1 = eval_fields v f2 ++\<^sub>f tail_map (val v) t2"
  shows "rows_fit f1 t1 f2 t2"
proof -
  let ?D1 = "fset (fmdom (tail_map (val v) t1))" and ?D2 = "fset (fmdom (tail_map (val v) t2))"
  have "fset (fmdom (eval_fields v f1 ++\<^sub>f tail_map (val v) t1)) = fset (fmdom (eval_fields v f2 ++\<^sub>f tail_map (val v) t2))"
    using assms(4) by simp
  then have dom: "fst ` set f1 \<union> ?D1 = fst ` set f2 \<union> ?D2" by simp
  have sub: "B \<subseteq> A" if "A \<union> D = B \<union> E" "A \<inter> D = {}" "B \<inter> E = {}" "D = {} \<or> D = E" for A B D E :: "'k set"
    using that by blast
  have e: "t1 = None \<Longrightarrow> ?D1 = {}" "t2 = None \<Longrightarrow> ?D2 = {}" "t1 = t2 \<Longrightarrow> ?D1 = ?D2" by (auto simp: tail_map_def)
  note d1 = row_disjoint [OF obeys_val [OF assms(1)] assms(2)] and d2 = row_disjoint [OF obeys_val [OF assms(1)] assms(3)]
  show ?thesis
    unfolding rows_fit_def extra_fields_Nil
  proof (intro conjI impI)
    assume "t1 = None \<or> t1 = t2"
    with e have "?D1 = {} \<or> ?D1 = ?D2" by blast
    from sub [OF dom d1 d2 this] show "fst ` set f2 \<subseteq> fst ` set f1" .
  next
    assume "t2 = None \<or> t1 = t2"
    with e have "?D2 = {} \<or> ?D2 = ?D1" by blast
    from sub [OF dom [symmetric] d2 d1 this] show "fst ` set f1 \<subseteq> fst ` set f2" .
  qed
qed

lemma solve_progress:
  assumes "ready K v st" and "items_ok (wk K) items" and "fields_ok closed (kind_of K) f1 t1" and "fields_ok closed (kind_of K) f2 t2"
    and "\<forall>p \<in> set f1. wk K (snd p)" and "\<forall>p \<in> set f2. wk K (snd p)"
    and un: "\<forall>r. t1 = Some r \<longrightarrow> map_of (rows_of (chained st)) r = None" "\<forall>r. t2 = Some r \<longrightarrow> map_of (rows_of (chained st)) r = None"
    and eq: "eval_fields v f1 ++\<^sub>f tail_map (val v) t1 = eval_fields v f2 ++\<^sub>f tail_map (val v) t2"
    and "agree v items \<longleftrightarrow> shared_agree v f1 f2" and "load v items < n"
  shows "progress K v st (solve_rows bindf items f1 t1 f2 t2 st) n"
proof -
  have r: "state_ok K st" "obeys K v" "sat v st" "heads_end (solutions (chained st))" "keyed (chained st)"
    using assms(1) by (simp_all add: ready_def)
  note fit = fits [OF r(2) assms(3,4) eq]
  note sp = rows_split [OF eq row_disjoint [OF obeys_val [OF r(2)] assms(3)] row_disjoint [OF obeys_val [OF r(2)] assms(4)]]
  let ?R = "fmfilter (\<lambda>k. k \<notin> fst ` set f2) (tail_map (val v) t1)"
  have ag: "agree v items" using sp(1) assms(10) by simp
  have d: "distinct (map fst f1)" "distinct (map fst f2)" using assms(3,4) by (simp_all add: fields_ok_def)
  show ?thesis
  proof (cases "t1 = None \<or> t2 = None \<or> t1 = t2")
    case True
    have R: "?R = fmempty" if "t1 = None \<or> t2 = None"
    proof (cases "t1 = None")
      case False
      with that have "eval_fields v (extra_fields f2 f1) ++\<^sub>f ?R = fmempty" using sp(3) by (simp add: tail_map_def)
      then have e: "fmlookup (eval_fields v (extra_fields f2 f1) ++\<^sub>f ?R) k = None" for k by simp
      have "fmlookup ?R k = None" for k
        using e [of k] unfolding add_lookup by (simp split: option.splits if_splits)
      then show ?thesis by (intro fmap_ext) simp
    next
      case True
      then show ?thesis by (intro fmap_ext) (simp add: tail_map_def)
    qed
    have "state_ok K (solve_rows bindf items f1 t1 f2 t2 st)"
      by (rule solve_same_inv [OF r(1) assms(2-6) fit True])
    moreover have "sat v (solve_rows bindf items f1 t1 f2 t2 st)"
      unfolding solve_sat [OF un] using r(3) ag True R sp(2,3)
      by (cases t1; cases t2) (auto simp: tail_map_def)
    ultimately show ?thesis
      using r assms(11) by (intro progressI) (auto simp: ready_def solve_keeps)
  next
    case False
    then obtain r1 r2 where t: "t1 = Some r1" "t2 = Some r2" "r1 \<noteq> r2" by auto
    let ?f = "next_var st" and ?A = "fst ` set f1 \<union> fst ` set f2"
    let ?L = "with_kind K ?f ?A" and ?w = "with_val v ?f ?R"
    have k: "kind_of K r1 = Some (fst ` set f1)" "kind_of K r2 = Some (fst ` set f2)"
      using assms(3,4) t by (simp_all add: fields_ok_def open_ok_def)
    have lt: "r1 < ?f" "r2 < ?f" "kind_of K ?f = None" using below [OF r(1)] k by fastforce+
    have L: "grown K ?L" using new_kind [OF r(1)] by simp
    have ex: "extends K v ?w" by (rule extends_with [OF lt(3)])
    have "state_ok ?L (solve_rows bindf items f1 t1 f2 t2 st)"
      unfolding t(1,2) by (rule solve_fresh_inv [OF r(1) assms(2) d assms(5,6) k t(3)])
    moreover have "obeys ?L ?w"
      by (rule obeys_with [OF r(2)]) (use row_disjoint [OF obeys_val [OF r(2)] assms(3)] in auto)
    moreover have "sat ?w (solve_rows bindf items f1 t1 f2 t2 st)"
    proof -
      have e: "eval_fields ?w (extra_fields f1 f2) = eval_fields v (extra_fields f1 f2)"
        "eval_fields ?w (extra_fields f2 f1) = eval_fields v (extra_fields f2 f1)"
        by (rule fields_extends [OF _ ex]; use assms(5,6) extra_fields_sub in blast)+
      have "val v r1 = eval_fields v (extra_fields f1 f2) ++\<^sub>f ?R" "val v r2 = eval_fields v (extra_fields f2 f1) ++\<^sub>f ?R"
        using sp(2,3) by (simp_all add: t tail_map_def)
      with lt have "val ?w r1 = eval_fields ?w (extra_fields f1 f2) ++\<^sub>f tail_map (val ?w) (Some ?f)"
        "val ?w r2 = eval_fields ?w (extra_fields f2 f1) ++\<^sub>f tail_map (val ?w) (Some ?f)"
        by (simp_all add: e val_with tail_map_def)
      with agree_extends [OF assms(2) ex ag] sat_extends [OF r(1) ex r(3)] show ?thesis
        unfolding solve_sat [OF un] by (auto simp: t)
    qed
    moreover have "load ?w (work (solve_rows bindf items f1 t1 f2 t2 st)) < load v (work st) + n"
      using assms(11) load_extends [OF _ ex] assms(2) r(1) by (simp add: solve_keeps state_ok_def)
    ultimately show ?thesis
      unfolding progress_def ready_def using r(4,5) L ex by (auto simp: solve_keeps)
  qed
qed

end

lemma obeys_rows_upd:
  "obeys_rows L rv \<Longrightarrow> fset (fmdom m) \<inter> A = {} \<Longrightarrow> obeys_rows (L(r \<mapsto> A)) (rv(r := m))"
  by (auto simp: obeys_rows_def)

lemma keyed_bind:
  "keyed (chained st) \<Longrightarrow> keyed (chained (bind_var n t st))"
  "keyed (chained st) \<Longrightarrow> keyed (chained (bind_row r sol st))"
  "keyed (chained st) \<Longrightarrow> keyed (chained (bind_tuple_row r tsol st))"
  by (simp_all add: keyed_def bind_var_def bind_row_def bind_tuple_row_def distinct_update)

interpretation records: row_values any_set labels "\<lambda>K r A. K\<lparr>labels := (labels K)(r \<mapsto> A)\<rparr>" row_solutions bind_row row_val
    "\<lambda>v r m. v\<lparr>row_val := (row_val v)(r := m)\<rparr>"
  by unfold_locales (auto simp: extends_def obeys_def obeys_rows_upd keyed_bind, simp_all add: bind_row_def)

interpretation tuples: row_values initial_set indices "\<lambda>K r A. K\<lparr>indices := (indices K)(r \<mapsto> A)\<rparr>" tuple_row_solutions bind_tuple_row trow_val
    "\<lambda>v r m. v\<lparr>trow_val := (trow_val v)(r := m)\<rparr>"
  by unfold_locales (auto simp: extends_def obeys_def obeys_rows_upd keyed_bind, simp_all add: bind_tuple_row_def)

end
