(* ===== verification/UnifyComplete.thy ===== *)
theory UnifyComplete
  imports UnifyProgress
begin

text \<open>
  Completeness of the solver: on constraints that some valuation satisfies it returns, without a
  diagnostic, and loses no solution.
\<close>

section \<open>One step\<close>

text \<open>Ground types of different heads differ.\<close>

fun ghead :: "gty \<Rightarrow> ty" where
  "ghead (GBase t) = t"
| "ghead (GTuple m) = TTuple []"
| "ghead (GRecord m) = TRecord [] None"
| "ghead (GFun ts t) = TFun [] TUnknown"
| "ghead (GEnum n ts) = TEnum n []"
| "ghead (GList t) = TList TUnknown"
| "ghead (GDict k t) = TDict TUnknown TUnknown"
| "ghead (GRef t) = TRef TUnknown"

lemma ghead_eval: "\<not> is_var t \<Longrightarrow> ghead (eval v t) = head_of t"
  by (cases t) (auto simp: is_var_def)

lemma load_pairs: "length xs = length ys \<Longrightarrow> load v (pair_items r xs ys) = (\<Sum>t\<leftarrow>xs. gweight (eval v t))"
  unfolding pair_items_def by (induction xs ys rule: list_induct2) auto

lemma progress_pairs:
  assumes "ready K v st" and "map (eval v) xs = map (eval v) ys" and "\<forall>x \<in> set xs. wk K x" and "\<forall>y \<in> set ys. wk K y"
    and "(\<Sum>t\<leftarrow>xs. gweight (eval v t)) < n"
  shows "progress K v st (push_pairs r xs ys st) n"
proof -
  have l: "length xs = length ys" using assms(2) map_eq_imp_length_eq by blast
  show ?thesis
    unfolding push_pairs_items
    by (rule progress_push) (use assms l in \<open>auto simp: pair_items load_pairs\<close>)
qed

lemma progress_elements:
  assumes "ready K v st" and "wk K (TTuple e1)" and "wk K (TTuple e2)" and "eval v (TTuple e1) = eval v (TTuple e2)"
  shows "progress K v st (unify_elements e1 e2 rng st) (gweight (eval v (TTuple e1)))"
proof -
  note m = tuple_inj [OF assms(4)]
  have "length e1 = length e2" using m map_eq_imp_length_eq by blast
  moreover have "progress K v st (push_pairs inner e1 e2 st) (gweight (eval v (TTuple e1)))"
    by (rule progress_pairs [OF assms(1) m]) (use assms(2,3) weight_tuple [of v e1] in auto)
  ultimately show ?thesis by (simp add: unify_elements_def)
qed

text \<open>The shared fields weigh no more than all the fields of one side.\<close>

lemma load_shared:
  assumes "\<And>ks. set (ord ks) = set ks" and "\<And>ks. distinct ks \<Longrightarrow> distinct (ord ks)" and "distinct (map fst f1)"
  shows "load v (shared_items r (shared_fields ord f1 f2)) \<le> lweight v f1"
proof -
  let ?ks = "filter (\<lambda>k. k \<in> fst ` set f2) (ord (remdups (map fst f1)))"
  let ?w = "\<lambda>k. gweight (eval v (last_field f1 k))"
  have "load v (shared_items r (shared_fields ord f1 f2)) = (\<Sum>k\<leftarrow>?ks. ?w k)"
    by (simp add: load_def shared_items_def shared_fields_def o_def)
  also have "\<dots> = (\<Sum>k \<in> set ?ks. ?w k)"
    by (rule sum_list_distinct_conv_sum_set) (simp add: assms(2))
  also have "\<dots> \<le> (\<Sum>k \<in> fst ` set f1. ?w k)"
    by (rule sum_mono2) (use assms(1) in auto)
  also have "\<dots> = (\<Sum>p \<in> set f1. ?w (fst p))"
    by (rule sum.reindex [unfolded o_def]) (use assms(3) in \<open>simp add: distinct_map\<close>)
  also have "\<dots> = (\<Sum>p \<in> set f1. gweight (eval v (snd p)))"
    by (rule sum.cong) (simp_all add: last_field_eq [OF assms(3)])
  also have "\<dots> = lweight v f1"
    unfolding lweight_def by (rule sum_list_distinct_conv_sum_set [symmetric]) (use assms(3) in \<open>simp add: distinct_map\<close>)
  finally show ?thesis .
qed

lemma ready_context: "ready K v st \<Longrightarrow> context_ok K v (chained st)"
  by (simp add: ready_def context_ok_def state_ok_def sat_def)

lemma load_close:
  assumes "agree v (close_items es fs)"
  shows "load v (close_items es fs) = lweight v fs"
  using assms unfolding close_items_def by (induction fs) (auto simp: lweight_def)

lemma progress_close:
  assumes "ready K v st" and "wk K (TTuple es)" and "wk K (TPartialTuple fs (Some r))"
    and un: "map_of (tuple_row_solutions (chained st)) r = None"
    and eq: "eval v (TTuple es) = eval v (TPartialTuple fs (Some r))"
  shows "progress K v st (close_partial es fs (Some r) rng st) (gweight (eval v (TTuple es)))"
proof -
  have ob: "obeys K v" using assms(1) by (simp add: ready_def)
  have w: "fields_ok initial_set (indices K) fs (Some r)" "\<forall>p \<in> set fs. wk K (snd p)" "\<forall>e \<in> set es. wk K e"
    using assms(2,3) by auto
  have e: "eval_fields v fs ++\<^sub>f tail_map (trow_val v) (Some r) = eval_fields v (enumerate 0 es) ++\<^sub>f tail_map (trow_val v) None"
    using eq by (simp add: tail_map_def)
  have "fst ` set fs \<union> fset (fmdom (tail_map (trow_val v) (Some r))) = {..<length es}"
    using arg_cong [OF e, of "\<lambda>m. fset (fmdom m)"] by (simp add: tail_map_def)
  then have bd: "\<forall>p \<in> set fs. fst p < length es" by auto
  have d: "distinct (map fst fs)" using w(1) by (simp add: fields_ok_def)
  have ag: "agree v (close_items es fs)"
    unfolding agree_close [OF bd d]
    by (rule rows_split(1) [OF e]) (use row_disjoint [OF _ w(1)] ob in \<open>auto simp: obeys_def tail_map_def\<close>)
  have "load v (close_items es fs) < gweight (eval v (TTuple es))"
    using load_close [OF ag] weight_rows(2) [OF ob assms(3)] eq by simp
  then show ?thesis
    unfolding close_rows [OF bd]
    by (intro tuples.solve_progress [OF assms(1) _ w(1) tuple_fields(1) w(2) tuple_fields(2) _ _ e])
      (use w bd un d in \<open>auto intro: items_close simp: agree_close\<close>)
qed

lemma progress_resolved:
  assumes "ready K v st" and "wk K a" and "wk K b" and "permutes_keys h"
    and "head_of a = TTuple []" and "head_of b = TTuple []"
    and "\<forall>fs rest. a = TPartialTuple fs rest \<longrightarrow> (\<exists>r. rest = Some r \<and> map_of (tuple_row_solutions (chained st)) r = None)"
    and "\<forall>fs rest. b = TPartialTuple fs rest \<longrightarrow> (\<exists>r. rest = Some r \<and> map_of (tuple_row_solutions (chained st)) r = None)"
    and eq: "eval v a = eval v b"
  shows "\<exists>st'. unify_resolved_tuples h a b rng st = Some st' \<and> progress K v st st' (gweight (eval v a))"
proof -
  have ob: "obeys K v" using assms(1) by (simp add: ready_def)
  consider (tt) e1 e2 where "a = TTuple e1" "b = TTuple e2"
    | (tp) e1 fs r where "a = TTuple e1" "b = TPartialTuple fs (Some r)"
    | (pt) fs r e2 where "a = TPartialTuple fs (Some r)" "b = TTuple e2"
    | (pp) f1 r1 f2 r2 where "a = TPartialTuple f1 (Some r1)" "b = TPartialTuple f2 (Some r2)"
    using assms(5-8) by (cases a; cases b) auto
  then show ?thesis
  proof cases
    case tt
    with progress_elements [OF assms(1), of e1 e2 rng] assms(2,3,9) show ?thesis by (simp add: unify_resolved_tuples_def)
  next
    case tp
    with progress_close [OF assms(1), of e1 fs r rng] assms(2,3,8,9) show ?thesis by (simp add: unify_resolved_tuples_def)
  next
    case pt
    with progress_close [OF assms(1), of e2 fs r rng] assms(2,3,7,9) show ?thesis by (simp add: unify_resolved_tuples_def)
  next
    case pp
    note perm = permutes_keysD [OF assms(4)]
    let ?items = "shared_items rng (shared_fields (index_order h (turn st)) f1 f2)"
    have w: "fields_ok initial_set (indices K) f1 (Some r1)" "\<forall>p \<in> set f1. wk K (snd p)"
      "fields_ok initial_set (indices K) f2 (Some r2)" "\<forall>p \<in> set f2. wk K (snd p)" using assms(2,3) pp by auto
    have e: "eval_fields v f1 ++\<^sub>f tail_map (trow_val v) (Some r1) = eval_fields v f2 ++\<^sub>f tail_map (trow_val v) (Some r2)"
      using eq pp by simp
    have fit: "rows_fit f1 (Some r1) f2 (Some r2)" by (rule tuples.fits [OF ob w(1,3) e])
    have "load v ?items \<le> lweight v f1" by (rule load_shared) (use perm w(1) in \<open>auto simp: fields_ok_def\<close>)
    then have l: "load v ?items < gweight (eval v a)" using weight_rows(2) [OF ob, of f1 "Some r1"] assms(2) pp by simp
    have "progress K v st (solve_rows bind_tuple_row ?items f1 (Some r1) f2 (Some r2) st) (gweight (eval v a))"
      by (rule tuples.solve_progress [OF assms(1) _ w(1,3,2,4) _ _ e _ l])
        (use assms(7,8) pp perm(2) w in \<open>auto intro: items_shared simp: agree_shared\<close>)
    with pp tuples_worklist(2) [OF fit] show ?thesis by (simp add: unify_resolved_tuples_def)
  qed
qed

lemma resolved_head_shape:
  assumes "deep_resolve s t = Some u" and "head_of t = TTuple []" and "wk K t" and "wk_subst K s"
  shows "head_of u = TTuple []"
    and "\<forall>fs rest. u = TPartialTuple fs rest \<longrightarrow> (\<exists>r. rest = Some r \<and> map_of (tuple_row_solutions s) r = None)"
proof -
  have "(\<exists>es. u = TTuple es) \<or> (\<exists>gs r. u = TPartialTuple gs (Some r) \<and> map_of (tuple_row_solutions s) r = None)"
    using assms(2)
  proof (cases t)
    case (TPartialTuple gs tail)
    with deep_resolve_partial [of s gs tail, OF _ _ assms(4)] assms(1,3) show ?thesis by simp
  next
    case (TTuple ts)
    with deep_resolve_tuple [of s ts] assms(1) show ?thesis by auto
  qed auto
  then show "head_of u = TTuple []"
    and "\<forall>fs rest. u = TPartialTuple fs rest \<longrightarrow> (\<exists>r. rest = Some r \<and> map_of (tuple_row_solutions s) r = None)" by auto
qed

lemma progress_partial:
  assumes "ready K v st" and "wk K a" and "wk K b" and "permutes_keys h"
    and "head_of a = TTuple []" and "head_of b = TTuple []" and "eval v a = eval v b"
  shows "\<exists>st'. unify_partial h a b rng st = Some st' \<and> progress K v st st' (gweight (eval v a))"
proof -
  note c = ready_context [OF assms(1)]
  have s: "wk_subst K (chained st)" "solves v (chained st)" using c by (simp_all add: context_ok_def)
  from deep_ends [OF c assms(2)] deep_ends [OF c assms(3)] obtain ra rb where
    r: "deep_resolve (chained st) a = Some ra" "deep_resolve (chained st) b = Some rb" by blast
  note ev = deep_eval [OF r(1) s(2)] deep_eval [OF r(2) s(2)]
  from progress_resolved [OF assms(1) deep_resolve_kind [OF r(1) assms(2) s(1)] deep_resolve_kind [OF r(2) assms(3) s(1)]
      assms(4) resolved_head_shape(1) [OF r(1) assms(5,2) s(1)] resolved_head_shape(1) [OF r(2) assms(6,3) s(1)]
      resolved_head_shape(2) [OF r(1) assms(5,2) s(1)] resolved_head_shape(2) [OF r(2) assms(6,3) s(1)], of rng]
  show ?thesis using r ev assms(7) by (simp add: unify_partial_def)
qed

lemma progress_records:
  assumes "ready K v st" and "wk K (TRecord f1 t1)" and "wk K (TRecord f2 t2)" and "permutes_keys h"
    and "eval v (TRecord f1 t1) = eval v (TRecord f2 t2)"
  shows "\<exists>st'. unify_records h (TRecord f1 t1) (TRecord f2 t2) rng st = Some st'
    \<and> progress K v st st' (gweight (eval v (TRecord f1 t1)))"
proof -
  note c = ready_context [OF assms(1)]
  have s: "wk_subst K (chained st)" "solves v (chained st)" "obeys K v" using c by (simp_all add: context_ok_def)
  from deep_ends [OF c assms(2)] deep_ends [OF c assms(3)] obtain ra rb where
    r: "deep_resolve (chained st) (TRecord f1 t1) = Some ra" "deep_resolve (chained st) (TRecord f2 t2) = Some rb" by blast
  from deep_resolve_record [OF r(1) assms(2) s(1)] obtain g1 u1 where ra: "ra = TRecord g1 u1"
    "\<forall>r. u1 = Some r \<longrightarrow> map_of (row_solutions (chained st)) r = None" by auto
  from deep_resolve_record [OF r(2) assms(3) s(1)] obtain g2 u2 where rb: "rb = TRecord g2 u2"
    "\<forall>r. u2 = Some r \<longrightarrow> map_of (row_solutions (chained st)) r = None" by auto
  have w: "wk K (TRecord g1 u1)" "wk K (TRecord g2 u2)"
    using deep_resolve_kind [OF r(1) assms(2) s(1)] deep_resolve_kind [OF r(2) assms(3) s(1)] ra rb by simp_all
  have ev: "eval v (TRecord g1 u1) = eval v (TRecord f1 t1)" "eval v (TRecord g2 u2) = eval v (TRecord f2 t2)"
    using deep_eval [OF r(1) s(2)] deep_eval [OF r(2) s(2)] ra rb by simp_all
  then have e: "eval_fields v g1 ++\<^sub>f tail_map (row_val v) u1 = eval_fields v g2 ++\<^sub>f tail_map (row_val v) u2"
    using assms(5) by simp
  note perm = permutes_keysD [OF assms(4)]
  let ?items = "shared_items rng (shared_fields (label_order h (turn st)) g1 g2)"
  have fk: "fields_ok any_set (labels K) g1 u1" "fields_ok any_set (labels K) g2 u2" using w by simp_all
  have fit: "rows_fit g1 u1 g2 u2" by (rule records.fits [OF s(3) fk e])
  have "load v ?items \<le> lweight v g1" by (rule load_shared) (use perm fk(1) in \<open>auto simp: fields_ok_def\<close>)
  then have l: "load v ?items < gweight (eval v (TRecord f1 t1))" using weight_rows(1) [OF s(3) w(1)] ev(1) by simp
  have p: "progress K v st (solve_rows bind_row ?items g1 u1 g2 u2 st) (gweight (eval v (TRecord f1 t1)))"
    by (rule records.solve_progress [OF assms(1) _ fk _ _ _ _ e _ l])
      (use ra(2) rb(2) perm(1) w in \<open>auto intro: items_shared simp: agree_shared\<close>)
  have "unify_records h (TRecord f1 t1) (TRecord f2 t2) rng st = Some (unify_records_worklist h g1 u1 g2 u2 rng st)"
    unfolding unify_records_def r ra(1) rb(1) by simp
  with p records_worklist(2) [OF fit] show ?thesis by simp
qed

lemma progress_bind:
  assumes "ready K v st" and "wk K t" and "map_of (solutions (chained st)) n = None" and "t \<noteq> TVar n"
    and "resolve_head (solutions (chained st)) t = Some t" and "ty_val v n = eval v t"
  shows "\<exists>st'. bind_checked n t rng st = Some st' \<and> progress K v st st' (gweight (eval v t))"
proof -
  have r: "state_ok K st" "obeys K v" "sat v st" "heads_end (solutions (chained st))" "keyed (chained st)"
    using assms(1) by (simp_all add: ready_def)
  from occurs_total [OF ready_context [OF assms(1)] assms(2), of n] assms(4-6)
  have "occurs_in (solutions (chained st)) n t = Some False" by auto
  then have eq: "bind_checked n t rng st = Some (bind_var n t st)" by (simp add: bind_checked_def)
  have "ready K v (bind_var n t st)"
    using r inv_bind_var [OF r(1) assms(2)] sat_bind_var [OF assms(3)] assms(6) keyed_bind(1) [OF r(5)]
      heads_end_update [OF r(4) assms(5,4,3)] by (simp add: ready_def) (simp add: bind_var_def)
  then have "progress K v st (bind_var n t st) (gweight (eval v t))"
    by (intro progressI) (use gweight_pos in \<open>auto simp: bind_var_def\<close>)
  with eq show ?thesis by simp
qed

lemma push_push: "push_all xs (push_all ys st) = push_all (ys @ xs) st"
  by (simp add: push_all_def)

lemma heads_progress:
  assumes "ready K v st" and "wk K a" and "wk K b" and "permutes_keys h"
    and ha: "resolve_head (solutions (chained st)) a = Some a" and hb: "resolve_head (solutions (chained st)) b = Some b"
    and eq: "eval v a = eval v b"
  shows "\<exists>st'. unify_heads h a b rng st = Some st' \<and> progress K v st st' (gweight (eval v a))"
  using unify_heads_rule [where h = h and a = a and b = b and rng = rng and st = st]
proof (cases rule: head_rule.cases)
  case same
  have "progress K v st st (gweight (eval v a))"
    by (rule progressI) (use assms(1) gweight_pos in auto)
  with same show ?thesis by simp
next
  case (left n)
  have un: "map_of (solutions (chained st)) n = None" by (rule resolve_head_unbound [OF ha]) (use left in simp)
  from progress_bind [OF assms(1,3) un left(3) hb, of rng] eq left show ?thesis by simp
next
  case (right m)
  have un: "map_of (solutions (chained st)) m = None" by (rule resolve_head_unbound [OF hb]) (use right in simp)
  have "a \<noteq> TVar m" using right(3) by (simp add: is_var_def)
  from progress_bind [OF assms(1,2) un this ha, of rng] eq right show ?thesis by simp
next
  case (param_count p1 p2 r1 r2)
  have "map (eval v) p1 = map (eval v) p2" using eq param_count by simp
  with param_count show ?thesis using map_eq_imp_length_eq by blast
next
  case (funs p1 p2 r1 r2)
  have e: "map (eval v) p1 = map (eval v) p2" "eval v r1 = eval v r2" using eq funs by simp_all
  have e': "(\<Sum>t\<leftarrow>p1. gweight (eval v t)) = (\<Sum>t\<leftarrow>p2. gweight (eval v t))"
    using arg_cong [OF e(1), of "\<lambda>xs. sum_list (map gweight xs)"] by (simp add: o_def)
  have "progress K v st (push_all ([(r1, r2, rng)] @ rev (pair_items rng p1 p2)) st) (gweight (eval v a))"
    by (rule progress_push) (use assms(1-3) funs e e' pair_items [OF funs(4)] load_pairs [OF funs(4)] in \<open>auto simp: o_def\<close>)
  with funs show ?thesis by (simp add: push_pairs_items push_push)
next
  case (lists x y)
  have "progress K v st (push_all [(x, y, inner)] st) (gweight (eval v a))"
    by (rule progress_push) (use assms(1-3) eq lists in auto)
  with lists show ?thesis by simp
next
  case (refs x y)
  have "progress K v st (push_all [(x, y, inner)] st) (gweight (eval v a))"
    by (rule progress_push) (use assms(1-3) eq refs in auto)
  with refs show ?thesis by simp
next
  case (dicts k1 v1 k2 v2)
  have "progress K v st (push_all [(v1, v2, inner), (k1, k2, inner)] st) (gweight (eval v a))"
    by (rule progress_push) (use assms(1-3) eq dicts in auto)
  with dicts show ?thesis by simp
next
  case (tuples e1 e2)
  with progress_elements [OF assms(1), of e1 e2 rng] assms(2,3) eq show ?thesis by simp
next
  case partial
  with progress_partial [OF assms(1-4) partial(2,3) eq, of rng] show ?thesis by simp
next
  case (records f1 t1 f2 t2)
  with progress_records [OF assms(1) _ _ assms(4), of f1 t1 f2 t2 rng] assms(2,3) eq show ?thesis by simp
next
  case (enums n as bs)
  have e: "map (eval v) as = map (eval v) bs" using eq enums by simp
  have "progress K v st (push_pairs inner as bs st) (gweight (eval v a))"
    by (rule progress_pairs [OF assms(1) e]) (use assms(2,3) enums in \<open>auto simp: o_def\<close>)
  with enums show ?thesis by simp
next
  case clash
  with ghead_eval [of a v] ghead_eval [of b v] eq show ?thesis by simp
qed

lemma step_progress:
  assumes "ready K v st" and "wk K a" and "wk K b" and "permutes_keys h" and "eval v a = eval v b"
  shows "\<exists>st'. unify_step h (a, b, rng) st = Some st' \<and> progress K v st st' (gweight (eval v a))"
proof -
  note c = ready_context [OF assms(1)]
  from context_head [OF c assms(2)] obtain a' where a: "resolve_head (solutions (chained st)) a = Some a'" "eval v a' = eval v a" "wk K a'" by blast
  from context_head [OF c assms(3)] obtain b' where b: "resolve_head (solutions (chained st)) b = Some b'" "eval v b' = eval v b" "wk K b'" by blast
  from heads_progress [OF assms(1) a(3) b(3) assms(4) resolve_head_head [OF a(1)] resolve_head_head [OF b(1)], of rng] a b assms(5)
  show ?thesis by (simp add: unify_step_def)
qed

section \<open>The loop\<close>

lemma loop_complete:
  assumes "permutes_keys h"
  shows "ready K v st \<Longrightarrow> \<exists>st' L w. unify_loop h st = Some st' \<and> diags st' = diags st \<and> grown K L
    \<and> extends K v w \<and> ready L w st' \<and> work st' = []"
proof (induction "load v (work st)" arbitrary: K v st rule: less_induct)
  case less
  show ?case
  proof (cases "work st")
    case Nil
    then have "unify_loop h st = Some st" by (subst unify_loop.simps) simp
    with less(2) Nil show ?thesis using grown_refl extends_refl by blast
  next
    case (Cons x ws)
    obtain a b rng where x: "x = (a, b, rng)" by (cases x)
    let ?st0 = "st\<lparr>work := ws, turn := turn st + 1\<rparr>"
    have r0: "ready K v ?st0" and w: "wk K a" "wk K b" "eval v a = eval v b"
      using less(2) Cons x by (auto simp: ready_def state_ok_def sat_def)
    from step_progress [OF r0 w(1,2) assms w(3), of rng] obtain st1 where
      s1: "unify_step h (a, b, rng) ?st0 = Some st1" and p: "progress K v ?st0 st1 (gweight (eval v a))" by blast
    from p obtain L w1 where L: "diags st1 = diags st" "grown K L" "extends K v w1" "ready L w1 st1"
      "load w1 (work st1) < load v (work st)" using Cons x by (auto simp: progress_def)
    from less(1) [OF L(5,4)] obtain st' M u where M: "unify_loop h st1 = Some st'" "diags st' = diags st1" "grown L M"
      "extends L w1 u" "ready M u st'" "work st' = []" by blast
    have "unify_loop h st = Some st'" using s1 M(1) by (subst unify_loop.simps) (simp add: Cons x)
    moreover have "grown K M" by (rule grown_trans [OF L(2) M(3)])
    moreover have "extends K v u" by (rule extends_trans [OF L(3) M(4) L(2)])
    ultimately show ?thesis using M L(1) by auto
  qed
qed

section \<open>The result\<close>

lemma normal_form_ends:
  assumes "context_ok K v s" and "keyed s"
  obtains u where "normal_form s = Some u"
proof -
  have wk: "wk_subst K s" using assms(1) by (simp add: context_ok_def)
  have sols: "\<exists>w. deep_resolve s (snd p) = Some w" if "p \<in> set (solutions s)" for p
  proof -
    have "map_of (solutions s) (fst p) = Some (snd p)"
      by (rule map_of_is_SomeI) (use assms(2) that in \<open>auto simp: keyed_def\<close>)
    with wk show ?thesis by (intro deep_ends [OF assms(1)]) (auto simp: wk_subst_def)
  qed
  have rows: "\<exists>w. normal_row s sol = Some w" if "\<forall>q \<in> set (row_fields sol). wk K (snd q)" for sol :: "'k row_sol"
  proof -
    have "\<exists>gs. mapm_snd (deep_resolve s) (row_fields sol) = Some gs"
      by (rule mapm_snd_total) (use that deep_ends [OF assms(1)] in blast)
    then show ?thesis by (auto simp: normal_row_def)
  qed
  have "\<exists>x. mapm_snd (deep_resolve s) (solutions s) = Some x" by (rule mapm_snd_total) (rule sols)
  moreover have "\<exists>x. mapm_snd (normal_row s) (row_solutions s) = Some x"
  proof (rule mapm_snd_total)
    fix p assume "p \<in> set (row_solutions s)"
    then have "map_of (row_solutions s) (fst p) = Some (snd p)"
      by (intro map_of_is_SomeI) (use assms(2) in \<open>auto simp: keyed_def\<close>)
    with wk show "\<exists>u. normal_row s (snd p) = Some u" by (intro rows) (auto simp: wk_subst_def wk_rows_def wk_row_def)
  qed
  moreover have "\<exists>x. mapm_snd (normal_row s) (tuple_row_solutions s) = Some x"
  proof (rule mapm_snd_total)
    fix p assume "p \<in> set (tuple_row_solutions s)"
    then have "map_of (tuple_row_solutions s) (fst p) = Some (snd p)"
      by (intro map_of_is_SomeI) (use assms(2) in \<open>auto simp: keyed_def\<close>)
    with wk show "\<exists>u. normal_row s (snd p) = Some u" by (intro rows) (auto simp: wk_subst_def wk_rows_def wk_row_def)
  qed
  ultimately show thesis using that by (auto simp: normal_form_def)
qed

lemma normal_row_eval:
  assumes "normal_row s sol = Some sol'" and "solves v s"
  shows "eval_fields v (row_fields sol') = eval_fields v (row_fields sol)" and "row_tail sol' = row_tail sol"
  using assms mapm_snd_eval [OF _ deep_eval [OF _ assms(2)]] by (auto simp: normal_row_def bind_eq_Some_conv)

lemma normal_rows_solve:
  assumes "mapm_snd (normal_row s) rows = Some rows'" and "solves v s" and "solves_row (eval_fields v) rv rows"
  shows "solves_row (eval_fields v) rv rows'"
  unfolding solves_row_def
proof (intro allI impI)
  fix r sol assume "map_of rows' r = Some sol"
  with mapm_snd_lookup [OF assms(1), of r] obtain old where o: "map_of rows r = Some old" "normal_row s old = Some sol" by auto
  from assms(3) o(1) normal_row_eval [OF o(2) assms(2)] show "rv r = eval_fields v (row_fields sol) ++\<^sub>f tail_map rv (row_tail sol)"
    by (simp add: solves_row_def)
qed

lemma normal_form_solves:
  assumes "normal_form s = Some u" and "solves v s"
  shows "solves v u"
proof -
  from assms(1) have n: "mapm_snd (deep_resolve s) (solutions s) = Some (solutions u)"
    "mapm_snd (normal_row s) (row_solutions s) = Some (row_solutions u)"
    "mapm_snd (normal_row s) (tuple_row_solutions s) = Some (tuple_row_solutions u)" by (auto elim: normal_formE)
  have "ty_val v k = eval v t" if "map_of (solutions u) k = Some t" for k t
    using mapm_snd_lookup [OF n(1), of k] that assms(2) deep_eval [OF _ assms(2)] by (auto simp: solves_def)
  with normal_rows_solve [OF n(2) assms(2)] normal_rows_solve [OF n(3) assms(2)] assms(2) show ?thesis
    by (simp add: solves_def)
qed

text \<open>
  C2. The solver returns and is complete: on well-kinded constraints that a valuation \<open>v\<close>
  satisfies, it stops without a new diagnostic, and \<open>v\<close>, extended to the row variables it has
  handed out, satisfies the resulting substitution. With soundness: the result is a most general
  unifier.
\<close>

theorem unify_eq_complete:
  assumes "permutes_keys h" and "kinded K next cs" and "obeys K v"
    and "\<And>a b reason. CEq a b reason \<in> set cs \<Longrightarrow> eval v a = eval v b"
  shows "\<exists>s st w. unify_eq_constraints h cs next ds = Some (s, st) \<and> diags st = ds \<and> extends K v w \<and> solves w s"
proof -
  have "\<exists>ws. mapm eq_item cs = Some ws" by (rule mapm_total) (use assms(2) in \<open>fastforce simp: kinded_def\<close>)
  then obtain ws where ws: "mapm eq_item cs = Some ws" by blast
  let ?st = "\<lparr>chained = empty_subst, work = ws, next_var = next, diags = ds, turn = 0\<rparr>"
  have "agree v ws"
    unfolding agree_def
  proof (rule mapm_all [OF ws])
    fix c w assume c: "c \<in> set cs" "eq_item c = Some w"
    show "eval v (fst w) = eval v (fst (snd w))" by (cases c) (use c in \<open>auto intro: assms(4)\<close>)
  qed
  then have "ready K v ?st"
    using state_ok_start [OF assms(2) ws, of ds] assms(3) heads_end_Nil
    by (auto simp: ready_def sat_def empty_subst_def solves_def solves_row_def keyed_def)
  from loop_complete [OF assms(1) this] obtain st L w where l: "unify_loop h ?st = Some st" "diags st = ds"
    "extends K v w" "ready L w st" by auto
  from normal_form_ends [OF ready_context [OF l(4)]] l(4) obtain s where s: "normal_form (chained st) = Some s"
    by (auto simp: ready_def)
  have "solves w s" by (rule normal_form_solves [OF s]) (use l(4) in \<open>simp add: ready_def sat_def\<close>)
  with ws l s show ?thesis by (auto simp: unify_eq_constraints_def)
qed

definition sample_valuation :: valuation where
  "sample_valuation = \<lparr>
     ty_val = (\<lambda>n. if n = 0 then GRecord (fmap_of_list [(''x'', GBase TInt), (''y'', GBase TBool)]) else GBase TBool),
     row_val = (\<lambda>r. if r = 1 then fmap_of_list [(''y'', GBase TBool)] else if r = 2 then fmap_of_list [(''x'', GBase TInt)] else fmempty),
     trow_val = (\<lambda>r. fmap_of_list [(0, GBase TString)])\<rparr>"

lemma sample_obeys: "obeys sample_kinds sample_valuation"
  by (auto simp: obeys_def obeys_rows_def sample_kinds_def sample_valuation_def split: if_splits)

lemma sample_satisfied: "CEq a b reason \<in> set sample_constraints \<Longrightarrow> eval sample_valuation a = eval sample_valuation b"
  by (auto simp: sample_constraints_def sample_fun_def sample_valuation_def eval_fields_def field_map_def tail_map_def
      intro!: fmap_ext simp del: eval_fields_eq)

theorem unify_eq_complete_witness:
  "\<exists>s st w. unify_eq_constraints plain_orders sample_constraints 5 [] = Some (s, st) \<and> diags st = []
     \<and> extends sample_kinds sample_valuation w \<and> solves w s"
  by (rule unify_eq_complete [OF plain_permutes sample_kinded sample_obeys sample_satisfied])

section \<open>A row that contains itself\<close>

text \<open>
  The occurs check looks at type variables only. A row variable may be bound to fields that
  mention it, and resolving it then never ends: equating a record with an open record that is
  one of its fields, as a list of the two does, keeps the solver from returning.
\<close>

lemma list_all2_member: "list_all2 P xs ys \<Longrightarrow> x \<in> set xs \<Longrightarrow> \<exists>y \<in> set ys. P x y"
  by (induction rule: list_all2_induct) auto

lemma deep_cycle:
  "deep_resolve s t = Some u \<Longrightarrow> map_of (row_solutions s) r = Some sol \<Longrightarrow>
     (k, TRecord fs (Some r)) \<in> set (row_fields sol) \<Longrightarrow> t \<noteq> TRecord fs (Some r)"
proof (induction rule: deep_resolve.raw_induct [rotated, consumes 1, case_names step])
  case (step dr s t u)
  show ?case
  proof
    assume t: "t = TRecord fs (Some r)"
    with step(2,3) obtain q gs where q: "row_chain (row_solutions s) (row_tail sol) = Some q"
      and g: "mapm_snd (\<lambda>u. dr s u) (fs @ row_fields sol @ fst q) = Some gs" by (auto simp: bind_eq_Some_conv)
    from g have l: "list_all2 (\<lambda>x y. fst x = fst y \<and> dr s (snd x) = Some (snd y)) (fs @ row_fields sol @ fst q) gs"
      by (simp add: mapm_snd_Some)
    have "(k, TRecord fs (Some r)) \<in> set (fs @ row_fields sol @ fst q)" using step(4) by simp
    from list_all2_member [OF l this] obtain w where "dr s (TRecord fs (Some r)) = Some w" by auto
    from step(1) [OF this step(3,4)] show False by simp
  qed
qed

lemma row_cycle_diverges:
  "unify_eq_constraints plain_orders
     [CEq (TRecord [(''x'', TInt), (''y'', TRecord [(''x'', TVar 0)] (Some 1))] None) (TRecord [(''x'', TVar 0)] (Some 1))
        \<lparr>reason_range = inner\<rparr>] 5 [] = None"
proof -
  let ?ws = "[(TRecord [(''x'', TInt), (''y'', TRecord [(''x'', TVar 0)] (Some 1))] None, TRecord [(''x'', TVar 0)] (Some 1), inner)]"
  let ?s = "\<lparr>solutions = [(0, TInt)], row_solutions = [(1, \<lparr>row_fields = [(''y'', TRecord [(''x'', TVar 0)] (Some 1))], row_tail = None\<rparr>)],
      tuple_row_solutions = []\<rparr>"
  have l: "unify_loop plain_orders \<lparr>chained = empty_subst, work = ?ws, next_var = 5, diags = [], turn = 0\<rparr>
      = Some \<lparr>chained = ?s, work = [], next_var = 5, diags = [], turn = 2\<rparr>" by code_simp
  let ?t = "TRecord [(''x'', TVar 0)] (Some 1)"
  let ?sol = "\<lparr>row_fields = [(''y'', ?t)], row_tail = None\<rparr>"
  have "map_of (row_solutions ?s) 1 = Some ?sol" "(''y'', ?t) \<in> set (row_fields ?sol)" by simp_all
  from deep_cycle [OF _ this, of ?t] have "deep_resolve ?s ?t = None" by (cases "deep_resolve ?s ?t") (simp_all del: deep_simps One_nat_def)
  then have "normal_form ?s = None"
    by (simp add: normal_form_def normal_row_def mapm_snd_def del: deep_simps(6))
  with l show ?thesis by (simp add: unify_eq_constraints_def)
qed

end
