(* ===== verification/Traverse.thy ===== *)
theory Traverse
  imports IrRuns
begin

text \<open>
  What the rewriting passes of the IR share: the traversals of a function body, in each
  pass of ir/src/resolve.rs and wasm/src/mono.rs a recursive function over blocks of its own.
\<close>

section \<open>Traversals\<close>

text \<open>Replacing every rvalue of a \<open>Let\<close> or \<open>Discard\<close>.\<close>

fun map_block :: "(rvalue \<Rightarrow> rvalue) \<Rightarrow> block \<Rightarrow> block"
  and map_stmt :: "(rvalue \<Rightarrow> rvalue) \<Rightarrow> stmt_kind \<Rightarrow> stmt_kind"
  and map_cases :: "(rvalue \<Rightarrow> rvalue) \<Rightarrow> (i64 \<times> block) list \<Rightarrow> (i64 \<times> block) list"
  and map_arms :: "(rvalue \<Rightarrow> rvalue) \<Rightarrow> match_arm list \<Rightarrow> match_arm list" where
  "map_block g [] = []"
| "map_block g (Stmt k r # ss) = Stmt (map_stmt g k) r # map_block g ss"
| "map_stmt g (Let v rv) = Let v (g rv)"
| "map_stmt g (Discard rv) = Discard (g rv)"
| "map_stmt g (If c t e) = If c (map_block g t) (map_block g e)"
| "map_stmt g (Switch c arms dflt) = Switch c (map_cases g arms) (map_block g dflt)"
| "map_stmt g (Match c arms) = Match c (map_arms g arms)"
| "map_stmt g (Loop b) = Loop (map_block g b)"
| "map_stmt g k = k"
| "map_cases g [] = []"
| "map_cases g ((i, b) # arms) = (i, map_block g b) # map_cases g arms"
| "map_arms g [] = []"
| "map_arms g (MatchArm p b # arms) = MatchArm p (map_block g b) # map_arms g arms"

text \<open>The \<open>Let\<close> bindings, in the order of the walk.\<close>

fun block_lets :: "block \<Rightarrow> (var_id \<times> rvalue) list"
  and stmt_lets :: "stmt_kind \<Rightarrow> (var_id \<times> rvalue) list"
  and cases_lets :: "(i64 \<times> block) list \<Rightarrow> (var_id \<times> rvalue) list"
  and arms_lets :: "match_arm list \<Rightarrow> (var_id \<times> rvalue) list" where
  "block_lets [] = []"
| "block_lets (Stmt k r # ss) = stmt_lets k @ block_lets ss"
| "stmt_lets (Let v rv) = [(v, rv)]"
| "stmt_lets (If c t e) = block_lets t @ block_lets e"
| "stmt_lets (Switch c arms dflt) = cases_lets arms @ block_lets dflt"
| "stmt_lets (Match c arms) = arms_lets arms"
| "stmt_lets (Loop b) = block_lets b"
| "stmt_lets k = []"
| "cases_lets [] = []"
| "cases_lets ((i, b) # arms) = block_lets b @ cases_lets arms"
| "arms_lets [] = []"
| "arms_lets (MatchArm p b # arms) = block_lets b @ arms_lets arms"

text \<open>The rvalues of the \<open>Let\<close> and \<open>Discard\<close> statements, in the order of the walk.\<close>

fun block_rvs :: "block \<Rightarrow> rvalue list"
  and stmt_rvs :: "stmt_kind \<Rightarrow> rvalue list"
  and cases_rvs :: "(i64 \<times> block) list \<Rightarrow> rvalue list"
  and arms_rvs :: "match_arm list \<Rightarrow> rvalue list" where
  "block_rvs [] = []"
| "block_rvs (Stmt k r # ss) = stmt_rvs k @ block_rvs ss"
| "stmt_rvs (Let v rv) = [rv]"
| "stmt_rvs (Discard rv) = [rv]"
| "stmt_rvs (If c t e) = block_rvs t @ block_rvs e"
| "stmt_rvs (Switch c arms dflt) = cases_rvs arms @ block_rvs dflt"
| "stmt_rvs (Match c arms) = arms_rvs arms"
| "stmt_rvs (Loop b) = block_rvs b"
| "stmt_rvs k = []"
| "cases_rvs [] = []"
| "cases_rvs ((i, b) # arms) = block_rvs b @ cases_rvs arms"
| "arms_rvs [] = []"
| "arms_rvs (MatchArm p b # arms) = block_rvs b @ arms_rvs arms"

text \<open>Dropping statements, here and in every nested block.\<close>

fun retain_block :: "(stmt_kind \<Rightarrow> bool) \<Rightarrow> block \<Rightarrow> block"
  and retain_stmt :: "(stmt_kind \<Rightarrow> bool) \<Rightarrow> stmt_kind \<Rightarrow> stmt_kind"
  and retain_cases :: "(stmt_kind \<Rightarrow> bool) \<Rightarrow> (i64 \<times> block) list \<Rightarrow> (i64 \<times> block) list"
  and retain_arms :: "(stmt_kind \<Rightarrow> bool) \<Rightarrow> match_arm list \<Rightarrow> match_arm list" where
  "retain_block K [] = []"
| "retain_block K (Stmt k r # ss) =
     (if K k then Stmt (retain_stmt K k) r # retain_block K ss else retain_block K ss)"
| "retain_stmt K (If c t e) = If c (retain_block K t) (retain_block K e)"
| "retain_stmt K (Switch c arms dflt) = Switch c (retain_cases K arms) (retain_block K dflt)"
| "retain_stmt K (Match c arms) = Match c (retain_arms K arms)"
| "retain_stmt K (Loop b) = Loop (retain_block K b)"
| "retain_stmt K k = k"
| "retain_cases K [] = []"
| "retain_cases K ((i, b) # arms) = (i, retain_block K b) # retain_cases K arms"
| "retain_arms K [] = []"
| "retain_arms K (MatchArm p b # arms) = MatchArm p (retain_block K b) # retain_arms K arms"

text \<open>The atoms read anywhere, in the order of the walk.\<close>

fun block_atoms :: "block \<Rightarrow> atom list"
  and stmt_atoms :: "stmt_kind \<Rightarrow> atom list"
  and cases_atoms :: "(i64 \<times> block) list \<Rightarrow> atom list"
  and arms_atoms :: "match_arm list \<Rightarrow> atom list" where
  "block_atoms [] = []"
| "block_atoms (Stmt k r # ss) = stmt_atoms k @ block_atoms ss"
| "stmt_atoms (Let v rv) = operands rv"
| "stmt_atoms (Discard rv) = operands rv"
| "stmt_atoms (Return a) = [a]"
| "stmt_atoms (PushDefer a) = [a]"
| "stmt_atoms (If c t e) = c # block_atoms t @ block_atoms e"
| "stmt_atoms (Switch c arms dflt) = c # cases_atoms arms @ block_atoms dflt"
| "stmt_atoms (Match c arms) = c # arms_atoms arms"
| "stmt_atoms (Loop b) = block_atoms b"
| "stmt_atoms k = []"
| "cases_atoms [] = []"
| "cases_atoms ((i, b) # arms) = block_atoms b @ cases_atoms arms"
| "arms_atoms [] = []"
| "arms_atoms (MatchArm p b # arms) = block_atoms b @ arms_atoms arms"

text \<open>The variables the patterns bind.\<close>

fun pattern_binders :: "pattern \<Rightarrow> var_id list" where
  "pattern_binders (PBind v) = [v]"
| "pattern_binders (PVariant _ _ ps) = concat (map pattern_binders ps)"
| "pattern_binders (PTuple ps) = concat (map pattern_binders ps)"
| "pattern_binders (PList ps rest) =
     concat (map pattern_binders ps) @ (case rest of Some (ListRest_Bind v) \<Rightarrow> [v] | _ \<Rightarrow> [])"
| "pattern_binders (PRecord fs rest _) =
     concat (map (\<lambda>f. pattern_binders (snd f)) fs) @ (case rest of RecordRest_Bind v \<Rightarrow> [v] | _ \<Rightarrow> [])"
| "pattern_binders PWildcard = []"
| "pattern_binders (PLiteral _) = []"

fun block_binders :: "block \<Rightarrow> var_id list"
  and stmt_binders :: "stmt_kind \<Rightarrow> var_id list"
  and cases_binders :: "(i64 \<times> block) list \<Rightarrow> var_id list"
  and arms_binders :: "match_arm list \<Rightarrow> var_id list" where
  "block_binders [] = []"
| "block_binders (Stmt k r # ss) = stmt_binders k @ block_binders ss"
| "stmt_binders (If c t e) = block_binders t @ block_binders e"
| "stmt_binders (Switch c arms dflt) = cases_binders arms @ block_binders dflt"
| "stmt_binders (Match c arms) = arms_binders arms"
| "stmt_binders (Loop b) = block_binders b"
| "stmt_binders k = []"
| "cases_binders [] = []"
| "cases_binders ((i, b) # arms) = block_binders b @ cases_binders arms"
| "arms_binders [] = []"
| "arms_binders (MatchArm p b # arms) = pattern_binders p @ block_binders b @ arms_binders arms"

lemmas traversal_induct = map_block_map_stmt_map_cases_map_arms.induct

lemma block_Cons [simp]:
  "map_block g (s # ss) = Stmt (map_stmt g (kind s)) (stmt_range s) # map_block g ss"
  "block_lets (s # ss) = stmt_lets (kind s) @ block_lets ss"
  "block_atoms (s # ss) = stmt_atoms (kind s) @ block_atoms ss"
  "block_binders (s # ss) = stmt_binders (kind s) @ block_binders ss"
  "retain_block K (s # ss) =
     (if K (kind s) then Stmt (retain_stmt K (kind s)) (stmt_range s) # retain_block K ss else retain_block K ss)"
  by (cases s; simp)+

section \<open>Arms taken\<close>

lemma switch_arm_map: "switch_arm (map_cases g arms) (map_block g d) k = map_block g (switch_arm arms d k)"
  by (induction arms d k rule: switch_arm.induct) auto

lemma switch_arm_retain: "switch_arm (retain_cases K arms) (retain_block K d) k = retain_block K (switch_arm arms d k)"
  by (induction arms d k rule: switch_arm.induct) auto

lemma switch_arm_parts:
  "set (block_lets (switch_arm arms d k)) \<subseteq> set (cases_lets arms) \<union> set (block_lets d)"
  "set (block_atoms (switch_arm arms d k)) \<subseteq> set (cases_atoms arms) \<union> set (block_atoms d)"
  "set (block_binders (switch_arm arms d k)) \<subseteq> set (cases_binders arms) \<union> set (block_binders d)"
  by (induction arms d k rule: switch_arm.induct) auto

lemma and_then_Binds: "and_then m f = Binds bs \<longleftrightarrow> (\<exists>bs'. m = Binds bs' \<and> f bs' = Binds bs)"
  by (cases m) auto

text \<open>A match binds variables of its pattern only.\<close>

lemma match_binders:
  "match_pat p v = Binds bs \<Longrightarrow> fst ` set bs \<subseteq> set (pattern_binders p)"
  "match_all ps vs = Binds bs \<Longrightarrow> fst ` set bs \<subseteq> (\<Union>p \<in> set ps. set (pattern_binders p))"
  "match_fields fs us = Binds bs \<Longrightarrow> fst ` set bs \<subseteq> (\<Union>p \<in> set fs. set (pattern_binders (snd p)))"
proof (induction p v and ps vs and fs us arbitrary: bs and bs and bs rule: match_pat_match_all_match_fields.induct)
  case (6 ps rest v)
  from "6.prems" obtain vs where v: "v = VList vs" by (auto split: val.splits)
  show ?case
  proof (cases rest)
    case None
    with 6 v show ?thesis by (auto split: if_splits)
  next
    case (Some r)
    with "6.prems" v obtain bs' where l: "\<not> length vs < length ps"
      and b: "match_all ps (take (length ps) vs) = Binds bs'"
        "(case r of ListRest_Anon \<Rightarrow> Binds bs' | ListRest_Bind x \<Rightarrow> Binds (bs' @ [(x, VList (drop (length ps) vs))])) = Binds bs"
      by (auto simp: and_then_Binds split: if_splits)
    from "6.IH"(2) [OF v Some l b(1)] b(2) Some show ?thesis by (cases r) (auto simp: image_subset_iff)
  qed
next
  case (7 fs rest sh v)
  from "7.prems" obtain vs where v: "v = VRecord vs" by (auto split: val.splits)
  show ?case
  proof (cases rest)
    case (RecordRest_Bind x)
    with "7.prems" v obtain bs' where b: "match_fields fs vs = Binds bs'"
      "bs = (x, VRecord (filter (\<lambda>p. fst p \<notin> fst ` set fs) vs)) # bs'" by (auto simp: and_then_Binds)
    from "7.IH"(3) [OF v RecordRest_Bind b(1)] b(2) RecordRest_Bind show ?thesis by (auto simp: image_subset_iff)
  qed (use 7 v in \<open>auto split: if_splits\<close>)
next
  case (9 p ps vs)
  from "9.prems" obtain v vs' bs1 bs2 where v: "vs = v # vs'" and b: "match_pat p v = Binds bs1" "match_all ps vs' = Binds bs2"
    "bs = bs1 @ bs2" by (auto simp: and_then_Binds split: list.splits)
  from "9.IH"(1) [OF v b(1)] "9.IH"(2) [OF v b(1,2)] b(3) show ?case by auto
next
  case (11 n p fs vs)
  from "11.prems" obtain v bs1 bs2 where v: "map_of vs n = Some v" and b: "match_pat p v = Binds bs1" "match_fields fs vs = Binds bs2"
    "bs = bs1 @ bs2" by (auto simp: and_then_Binds split: option.splits)
  from "11.IH"(1) [OF v b(1)] "11.IH"(2) [OF v b(1,2)] b(3) show ?case by auto
qed (auto split: val.splits option.splits bool.splits if_splits)

lemma match_arms_binders:
  "match_arms arms v = Done (Some (bs, b)) \<Longrightarrow> fst ` set bs \<subseteq> set (arms_binders arms)"
  by (induction arms v rule: match_arms.induct) (auto split: matched.splits dest!: match_binders(1))

lemma bind_all_other: "x \<notin> fst ` set bs \<Longrightarrow> bind_all e bs x = e x"
proof -
  assume "x \<notin> fst ` set bs"
  then have "map_of (rev bs) x = None" by (simp add: map_of_eq_None_iff)
  then show ?thesis by (simp add: bind_all_def map_add_def)
qed

lemma match_arms_map:
  "match_arms (map_arms g arms) v =
     (case match_arms arms v of Done (Some (bs, b)) \<Rightarrow> Done (Some (bs, map_block g b)) | r \<Rightarrow> r)"
  by (induction arms v rule: match_arms.induct) (auto split: matched.splits)

lemma match_arms_retain:
  "match_arms (retain_arms K arms) v =
     (case match_arms arms v of Done (Some (bs, b)) \<Rightarrow> Done (Some (bs, retain_block K b)) | r \<Rightarrow> r)"
  by (induction arms v rule: match_arms.induct) (auto split: matched.splits)

lemma match_arms_parts:
  "match_arms arms v = Done (Some (bs, b)) \<Longrightarrow>
     set (block_lets b) \<subseteq> set (arms_lets arms) \<and> set (block_atoms b) \<subseteq> set (arms_atoms arms)
       \<and> set (block_binders b) \<subseteq> set (arms_binders arms)"
  by (induction arms v rule: match_arms.induct) (auto split: matched.splits)


section \<open>Traversals composed\<close>

lemma lets_map:
  "block_lets (map_block g b) = map (map_prod id g) (block_lets b)"
  "stmt_lets (map_stmt g k) = map (map_prod id g) (stmt_lets k)"
  "cases_lets (map_cases g cs) = map (map_prod id g) (cases_lets cs)"
  "arms_lets (map_arms g arms) = map (map_prod id g) (arms_lets arms)"
  by (induction g b and g k and g cs and g arms rule: traversal_induct) auto

lemma rvs_map:
  "block_rvs (map_block g b) = map g (block_rvs b)"
  "stmt_rvs (map_stmt g k) = map g (stmt_rvs k)"
  "cases_rvs (map_cases g cs) = map g (cases_rvs cs)"
  "arms_rvs (map_arms g arms) = map g (arms_rvs arms)"
  by (induction g b and g k and g cs and g arms rule: traversal_induct) auto

lemma binders_map [simp]:
  "block_binders (map_block g b) = block_binders b"
  "stmt_binders (map_stmt g k) = stmt_binders k"
  "cases_binders (map_cases g cs) = cases_binders cs"
  "arms_binders (map_arms g arms) = arms_binders arms"
  by (induction g b and g k and g cs and g arms rule: traversal_induct) auto

lemma map_block_id:
  "\<forall>rv \<in> set (block_rvs b). g rv = rv \<Longrightarrow> map_block g b = b"
  "\<forall>rv \<in> set (stmt_rvs k). g rv = rv \<Longrightarrow> map_stmt g k = k"
  "\<forall>rv \<in> set (cases_rvs cs). g rv = rv \<Longrightarrow> map_cases g cs = cs"
  "\<forall>rv \<in> set (arms_rvs arms). g rv = rv \<Longrightarrow> map_arms g arms = arms"
  by (induction g b and g k and g cs and g arms rule: traversal_induct) auto

lemma rvs_atoms:
  "rv \<in> set (block_rvs b) \<Longrightarrow> set (operands rv) \<subseteq> set (block_atoms b)"
  "rv \<in> set (stmt_rvs k) \<Longrightarrow> set (operands rv) \<subseteq> set (stmt_atoms k)"
  "rv \<in> set (cases_rvs cs) \<Longrightarrow> set (operands rv) \<subseteq> set (cases_atoms cs)"
  "rv \<in> set (arms_rvs arms) \<Longrightarrow> set (operands rv) \<subseteq> set (arms_atoms arms)"
  by (induction b and k and cs and arms rule: block_rvs_stmt_rvs_cases_rvs_arms_rvs.induct) auto

lemma lets_retain:
  assumes "\<And>k. \<not> K k \<Longrightarrow> \<exists>v rv. k = Let v rv"
  shows "block_lets (retain_block K b) = filter (\<lambda>(v, rv). K (Let v rv)) (block_lets b)"
    and "K k \<Longrightarrow> stmt_lets (retain_stmt K k) = filter (\<lambda>(v, rv). K (Let v rv)) (stmt_lets k)"
    and "cases_lets (retain_cases K cs) = filter (\<lambda>(v, rv). K (Let v rv)) (cases_lets cs)"
    and "arms_lets (retain_arms K arms) = filter (\<lambda>(v, rv). K (Let v rv)) (arms_lets arms)"
  using assms
  by (induction K b and K k and K cs and K arms rule: retain_block_retain_stmt_retain_cases_retain_arms.induct) fastforce+

lemma atoms_retain:
  assumes "\<And>k. \<not> K k \<Longrightarrow> stmt_atoms k = []"
  shows "block_atoms (retain_block K b) = block_atoms b"
    and "stmt_atoms (retain_stmt K k) = stmt_atoms k"
    and "cases_atoms (retain_cases K cs) = cases_atoms cs"
    and "arms_atoms (retain_arms K arms) = arms_atoms arms"
  using assms
  by (induction K b and K k and K cs and K arms rule: retain_block_retain_stmt_retain_cases_retain_arms.induct) auto

lemma rvs_retain:
  "set (block_rvs (retain_block K b)) \<subseteq> set (block_rvs b)"
  "set (stmt_rvs (retain_stmt K k)) \<subseteq> set (stmt_rvs k)"
  "set (cases_rvs (retain_cases K cs)) \<subseteq> set (cases_rvs cs)"
  "set (arms_rvs (retain_arms K arms)) \<subseteq> set (arms_rvs arms)"
  by (induction K b and K k and K cs and K arms rule: retain_block_retain_stmt_retain_cases_retain_arms.induct) auto

lemma binders_retain:
  "set (block_binders (retain_block K b)) \<subseteq> set (block_binders b)"
  "set (stmt_binders (retain_stmt K k)) \<subseteq> set (stmt_binders k)"
  "set (cases_binders (retain_cases K cs)) \<subseteq> set (cases_binders cs)"
  "set (arms_binders (retain_arms K arms)) \<subseteq> set (arms_binders arms)"
  by (induction K b and K k and K cs and K arms rule: retain_block_retain_stmt_retain_cases_retain_arms.induct) auto

lemma retain_twice:
  assumes "\<And>k. K (retain_stmt K k) = K k"
  shows "retain_block K (retain_block K b) = retain_block K b"
    and "retain_stmt K (retain_stmt K k) = retain_stmt K k"
    and "retain_cases K (retain_cases K cs) = retain_cases K cs"
    and "retain_arms K (retain_arms K arms) = retain_arms K arms"
  using assms
  by (induction K b and K k and K cs and K arms rule: retain_block_retain_stmt_retain_cases_retain_arms.induct) auto

section \<open>Statements and operands by themselves\<close>

text \<open>
  What the properties say of a body does not go through a walk: a statement stands in a block when
  it is one of its statements or stands in a block of one.
\<close>

definition blocks_of :: "stmt_kind \<Rightarrow> block set" where
  "blocks_of k =
     (case k of
        If c t e \<Rightarrow> {t, e}
      | Switch c arms dflt \<Rightarrow> insert dflt (snd ` set arms)
      | Match c arms \<Rightarrow> arm_body ` set arms
      | Loop b \<Rightarrow> {b}
      | _ \<Rightarrow> {})"

inductive stmt_in :: "stmt_kind \<Rightarrow> block \<Rightarrow> bool" where
  stmt_here: "Stmt k r \<in> set b \<Longrightarrow> stmt_in k b"
| stmt_inside: "Stmt k' r \<in> set b \<Longrightarrow> b' \<in> blocks_of k' \<Longrightarrow> stmt_in k b' \<Longrightarrow> stmt_in k b"

definition computes :: "block \<Rightarrow> rvalue \<Rightarrow> bool" where
  "computes b rv \<longleftrightarrow> stmt_in (Discard rv) b \<or> (\<exists>v. stmt_in (Let v rv) b)"

lemma rvs_here: "Stmt k r \<in> set b \<Longrightarrow> set (stmt_rvs k) \<subseteq> set (block_rvs b)"
proof (induction b)
  case (Cons s b)
  then show ?case by (cases s) auto
qed simp

lemma cases_rvs_set: "set (cases_rvs arms) = (\<Union>ib \<in> set arms. set (block_rvs (snd ib)))"
  by (induction arms) auto

lemma arms_rvs_set: "set (arms_rvs arms) = (\<Union>a \<in> set arms. set (block_rvs (arm_body a)))"
proof (induction arms)
  case (Cons a arms)
  then show ?case by (cases a) simp
qed simp

lemma rvs_inside: "b \<in> blocks_of k \<Longrightarrow> set (block_rvs b) \<subseteq> set (stmt_rvs k)"
  by (cases k) (auto simp: blocks_of_def cases_rvs_set arms_rvs_set)

lemma stmt_in_rvs: "stmt_in k b \<Longrightarrow> set (stmt_rvs k) \<subseteq> set (block_rvs b)"
proof (induction rule: stmt_in.induct)
  case (stmt_inside k' r b b' k)
  then show ?case using rvs_here [OF stmt_inside.hyps(1)] rvs_inside [OF stmt_inside.hyps(2)] by blast
qed (rule rvs_here)

lemma computes_inside: "computes b' rv \<Longrightarrow> b' \<in> blocks_of k \<Longrightarrow> Stmt k r \<in> set b \<Longrightarrow> computes b rv"
  by (auto simp: computes_def intro: stmt_inside)

definition stmt_computes :: "stmt_kind \<Rightarrow> rvalue \<Rightarrow> bool" where
  "stmt_computes k rv \<longleftrightarrow> k = Discard rv \<or> (\<exists>v. k = Let v rv) \<or> (\<exists>b \<in> blocks_of k. computes b rv)"

lemma stmt_computes: "stmt_computes k rv \<Longrightarrow> Stmt k r \<in> set b \<Longrightarrow> computes b rv"
  by (auto simp: stmt_computes_def computes_def intro: stmt_here stmt_inside)

lemma stmt_in_Cons: "stmt_in k ss \<Longrightarrow> stmt_in k (s # ss)"
  by (erule stmt_in.cases) (auto intro: stmt_here stmt_inside)

lemma computes_Cons: "computes ss rv \<Longrightarrow> computes (s # ss) rv"
  by (auto simp: computes_def intro: stmt_in_Cons)

lemma rvs_computed:
  "rv \<in> set (block_rvs b) \<Longrightarrow> computes b rv"
  "rv \<in> set (stmt_rvs k) \<Longrightarrow> stmt_computes k rv"
  "rv \<in> set (cases_rvs arms) \<Longrightarrow> \<exists>ib \<in> set arms. computes (snd ib) rv"
  "rv \<in> set (arms_rvs marms) \<Longrightarrow> \<exists>a \<in> set marms. computes (arm_body a) rv"
proof (induction b and k and arms and marms rule: block_rvs_stmt_rvs_cases_rvs_arms_rvs.induct)
  case (2 k r ss)
  then show ?case by (auto intro: computes_Cons stmt_computes [where r = r])
qed (auto simp: stmt_computes_def blocks_of_def)

lemma computes_rvs: "computes b rv \<longleftrightarrow> rv \<in> set (block_rvs b)"
  using rvs_computed(1) by (auto simp: computes_def dest: stmt_in_rvs)

text \<open>The operands an rvalue reads, by its form.\<close>

inductive reads_atom :: "rvalue \<Rightarrow> atom \<Rightarrow> bool" where
  "reads_atom (Use a) a"
| "reads_atom (Bin op a b) a"
| "reads_atom (Bin op a b) b"
| "reads_atom (Not a) a"
| "a \<in> set args \<Longrightarrow> reads_atom (Call c args) a"
| "reads_atom (CallClosure a args) a"
| "a \<in> set args \<Longrightarrow> reads_atom (CallClosure c args) a"
| "reads_atom (TailCall a args) a"
| "a \<in> set args \<Longrightarrow> reads_atom (TailCall c args) a"
| "a \<in> set args \<Longrightarrow> reads_atom (TailCallDirect f args) a"
| "reads_atom (GetDictMethod a i) a"
| "a \<in> set args \<Longrightarrow> reads_atom (MakeDict args) a"
| "a \<in> set args \<Longrightarrow> reads_atom (MakeClosure f args) a"
| "(n, a) \<in> set fs \<Longrightarrow> reads_atom (MakeRecord fs sh) a"
| "reads_atom (RecordUpdate a fs sh) a"
| "(n, a) \<in> set fs \<Longrightarrow> reads_atom (RecordUpdate b fs sh) a"
| "reads_atom (GetField a n sh) a"
| "reads_atom (GetElement a i) a"
| "a \<in> set args \<Longrightarrow> reads_atom (MakeVariant n t args) a"
| "a \<in> set args \<Longrightarrow> reads_atom (Interpolate args) a"
| "reads_atom (GetTag a) a"
| "reads_atom (GetPayload a i) a"
| "Elem a \<in> set items \<Longrightarrow> reads_atom (MakeList items) a"
| "Spread a \<in> set items \<Longrightarrow> reads_atom (MakeList items) a"
| "a \<in> set args \<Longrightarrow> reads_atom (MakeTuple args) a"
| "reads_atom (Await a) a"
| "reads_atom (Box a) a"
| "reads_atom (Unbox a r) a"

lemma reads_operands: "reads_atom rv a \<Longrightarrow> a \<in> set (operands rv)"
  by (induction rule: reads_atom.induct) force+

end
