(* ===== verification/Passes.thy ===== *)
theory Passes
  imports Traverse "HOL-Library.AList"
begin

text \<open>
  The contracts of the passes that rewrite functions one by one and keep every run that is not
  stuck: \<open>improving_pass\<close> for any such pass, \<open>call_rewrite\<close> for one that rewrites calls through
  variables whose loaded value is known, \<open>dead_pruning\<close> for one that drops pure bindings of
  unused variables. The last two are instances of the first.
\<close>

section \<open>Keeping the runs that are not stuck\<close>

definition kept :: "'a res \<Rightarrow> 'a res \<Rightarrow> bool" where
  "kept r r' \<longleftrightarrow> (r \<noteq> Stuck \<longrightarrow> r' = r)"

lemma kept_refl [simp]: "kept r r" and kept_Stuck [simp]: "kept Stuck r"
  by (simp_all add: kept_def)

lemma kept_trans: "kept r r' \<Longrightarrow> kept r' r'' \<Longrightarrow> kept r r''"
  by (auto simp: kept_def)

lemma kept_bind:
  "kept r r' \<Longrightarrow> (\<And>x. r = Done x \<Longrightarrow> kept (f x) (g x)) \<Longrightarrow> kept (bind_res r f) (bind_res r' g)"
  by (cases r) (auto simp: kept_def)

definition calls_kept :: "ir_function list \<Rightarrow> ir_function list \<Rightarrow> 'w prim \<Rightarrow> nat \<Rightarrow> bool" where
  "calls_kept P P' pr N \<longleftrightarrow>
     (\<forall>k \<le> N. \<forall>w g args caps. kept (call P pr k w g args caps) (call P' pr k w g args caps))"

lemma calls_keptD: "calls_kept P P' pr N \<Longrightarrow> k \<le> N \<Longrightarrow> kept (call P pr k w g args caps) (call P' pr k w g args caps)"
  by (simp add: calls_kept_def)

lemma run_rv_kept: "calls_kept P P' pr N \<Longrightarrow> n \<le> N \<Longrightarrow> kept (run_rv P pr n e w rv) (run_rv P' pr n e w rv)"
  by (auto simp: run_rv.simps dest: calls_keptD split: option.splits callsite.splits)

lemma run_defers_kept: "calls_kept P P' pr N \<Longrightarrow> n \<le> N \<Longrightarrow> kept (run_defers P pr n w ds) (run_defers P' pr n w ds)"
proof (induction ds arbitrary: w)
  case (Cons d ds)
  then show ?case by (cases d) (auto intro!: kept_bind dest: calls_keptD)
qed simp

text \<open>What a call makes of the outcome of its body.\<close>

definition body_exit :: "(outcome \<times> 'w) res \<Rightarrow> (val \<times> 'w) res" where
  "body_exit r = bind_res r (\<lambda>(o', w). case o' of Ret v \<Rightarrow> Done (v, w) | _ \<Rightarrow> Stuck)"

locale improving_pass =
  fixes tr :: "'x \<Rightarrow> ir_function \<Rightarrow> ir_function"
    and ok :: "'x \<Rightarrow> ir_function list \<Rightarrow> 'w prim \<Rightarrow> ir_function \<Rightarrow> bool"
  assumes same_params: "params (tr x f) = params f"
    and same_captures: "captures (tr x f) = captures f"
    and kept_body: "ok x P pr f \<Longrightarrow> frame f args caps = Some e \<Longrightarrow> calls_kept P P' pr n \<Longrightarrow>
      kept (body_exit (exec_block P pr n e [] w (body f))) (body_exit (exec_block P' pr n e [] w (body (tr x f))))"
begin

lemma same_frame: "frame (tr x f) args caps = frame f args caps"
  by (simp add: frame_def same_params same_captures)

lemma kept_call:
  assumes "\<forall>f \<in> set P. ok x P pr f"
  shows "kept (call P pr n w g args caps) (call (map (tr x) P) pr n w g args caps)"
proof (induction n arbitrary: w g args caps rule: less_induct)
  case (less n)
  show ?case
  proof (cases n)
    case (Suc m)
    have c: "calls_kept P (map (tr x) P) pr m" unfolding calls_kept_def using less.IH Suc by (simp add: less_Suc_eq_le)
    show ?thesis
    proof (cases "g < length P \<and> frame (P ! g) args caps \<noteq> None")
      case True
      then obtain e where e: "frame (P ! g) args caps = Some e" by blast
      from kept_body [OF _ e c, of x w] assms True
      show ?thesis by (simp add: Suc call.simps [of _ _ "Suc m"] same_frame e body_exit_def)
    qed (auto simp: Suc call.simps)
  qed (simp add: call.simps)
qed

lemma kept_returns:
  "\<forall>f \<in> set P. ok x P pr f \<Longrightarrow> returns P pr g args caps w v w' \<Longrightarrow> returns (map (tr x) P) pr g args caps w v w'"
  unfolding returns_def using kept_call by (metis kept_def res.distinct(5))

end

section \<open>Outcomes compared\<close>

text \<open>Same end, same cleanup stack, and environments that agree on \<open>V\<close> where the first is defined.\<close>

fun same_end :: "var_id set \<Rightarrow> outcome \<Rightarrow> outcome \<Rightarrow> bool" where
  "same_end V (Norm e ds) r \<longleftrightarrow> (\<exists>e'. r = Norm e' ds \<and> env_le V e e')"
| "same_end V (Brk e ds) r \<longleftrightarrow> (\<exists>e'. r = Brk e' ds \<and> env_le V e e')"
| "same_end V (Cont e ds) r \<longleftrightarrow> (\<exists>e'. r = Cont e' ds \<and> env_le V e e')"
| "same_end V (Ret v) r \<longleftrightarrow> r = Ret v"

fun kept_upto :: "var_id set \<Rightarrow> (outcome \<times> 'w) res \<Rightarrow> (outcome \<times> 'w) res \<Rightarrow> bool" where
  "kept_upto V Stuck r' \<longleftrightarrow> True"
| "kept_upto V Timeout r' \<longleftrightarrow> r' = Timeout"
| "kept_upto V (Done (o1, w)) r' \<longleftrightarrow> (\<exists>o2. r' = Done (o2, w) \<and> same_end V o1 o2)"

lemma same_end_refl: "same_end V r r"
  by (cases r) auto

lemma kept_upto_exit: "kept_upto V r r' \<Longrightarrow> kept (body_exit r) (body_exit r')"
  by (cases "(V, r, r')" rule: kept_upto.cases) (auto simp: body_exit_def kept_def elim!: same_end.elims)

lemma kept_upto_refl: "kept_upto V r r"
  by (cases r) (auto simp: same_end_refl)


section \<open>Rewriting calls through loaded variables\<close>

text \<open>
  The variables bound to a load (\<open>load\<close> reads what is loaded off the rvalue), as the code
  collects them: the last one wins. A function is in order when that is no loss, every such
  variable being bound by its load only.
\<close>

definition note_load :: "(rvalue \<Rightarrow> 'k option) \<Rightarrow> var_id \<times> rvalue \<Rightarrow> (var_id \<times> 'k) list \<Rightarrow> (var_id \<times> 'k) list" where
  "note_load load p m = (case load (snd p) of Some k \<Rightarrow> AList.update (fst p) k m | None \<Rightarrow> m)"

definition collect_loads :: "(rvalue \<Rightarrow> 'k option) \<Rightarrow> ir_function \<Rightarrow> (var_id \<times> 'k) list" where
  "collect_loads load f = fold (note_load load) (block_lets (body f)) []"

definition lets_fixed :: "(rvalue \<Rightarrow> 'k option) \<Rightarrow> (var_id \<times> 'k) list \<Rightarrow> (var_id \<times> rvalue) list \<Rightarrow> bool" where
  "lets_fixed load vg ls \<longleftrightarrow> list_all (\<lambda>(v, rv). map_of vg v = None \<or> load rv = map_of vg v) ls"

definition loads_fixed :: "(rvalue \<Rightarrow> 'k option) \<Rightarrow> ir_function \<Rightarrow> bool" where
  "loads_fixed load f \<longleftrightarrow>
     (let vg = collect_loads load f
      in lets_fixed load vg (block_lets (body f))
         \<and> list_all (\<lambda>v. map_of vg v = None) (params f @ captures f @ block_binders (body f)))"

locale call_rewrite =
  fixes load :: "rvalue \<Rightarrow> 'k option"
    and rewrite :: "'x \<Rightarrow> (var_id \<times> 'k) list \<Rightarrow> rvalue \<Rightarrow> rvalue"
    and means :: "'x \<Rightarrow> 'w prim \<Rightarrow> 'k \<Rightarrow> val \<Rightarrow> bool"
    and laws :: "'x \<Rightarrow> ir_function list \<Rightarrow> 'w prim \<Rightarrow> bool"
  assumes loaded: "laws x P pr \<Longrightarrow> load rv = Some k \<Longrightarrow> run_rv P pr n e w rv = Done (u, w') \<Longrightarrow> means x pr k u"
    and rewritten: "laws x P pr \<Longrightarrow> (\<And>v k u. map_of vg v = Some k \<Longrightarrow> e v = Some u \<Longrightarrow> means x pr k u) \<Longrightarrow>
      kept (run_rv P pr n e w rv) (run_rv P pr n e w (rewrite x vg rv))"
begin

definition known :: "'x \<Rightarrow> 'w prim \<Rightarrow> (var_id \<times> 'k) list \<Rightarrow> env \<Rightarrow> bool" where
  "known x pr vg e \<longleftrightarrow> (\<forall>v k u. map_of vg v = Some k \<longrightarrow> e v = Some u \<longrightarrow> means x pr k u)"

definition known_after :: "'x \<Rightarrow> 'w prim \<Rightarrow> (var_id \<times> 'k) list \<Rightarrow> outcome \<Rightarrow> bool" where
  "known_after x pr vg r \<longleftrightarrow>
     (case r of Norm e ds \<Rightarrow> known x pr vg e | Brk e ds \<Rightarrow> known x pr vg e | Cont e ds \<Rightarrow> known x pr vg e | Ret v \<Rightarrow> True)"

lemma known_after_simps [simp]:
  "known_after x pr vg (Norm e ds) = known x pr vg e" "known_after x pr vg (Brk e ds) = known x pr vg e"
  "known_after x pr vg (Cont e ds) = known x pr vg e" "known_after x pr vg (Ret v)"
  by (simp_all add: known_after_def)

definition fixed :: "(var_id \<times> 'k) list \<Rightarrow> (var_id \<times> rvalue) list \<Rightarrow> var_id list \<Rightarrow> bool" where
  "fixed vg ls bs \<longleftrightarrow> (\<forall>(v, rv) \<in> set ls. map_of vg v = None \<or> load rv = map_of vg v) \<and> (\<forall>v \<in> set bs. map_of vg v = None)"

lemma fixed_append [simp]: "fixed vg (ls @ ls') (bs @ bs') \<longleftrightarrow> fixed vg ls bs \<and> fixed vg ls' bs'"
  by (auto simp: fixed_def)

lemma fixed_mono: "fixed vg ls bs \<Longrightarrow> set ls' \<subseteq> set ls \<Longrightarrow> set bs' \<subseteq> set bs \<Longrightarrow> fixed vg ls' bs'"
  by (auto simp: fixed_def)

lemma known_bind: "known x pr vg e \<Longrightarrow> \<forall>v \<in> fst ` set bs. map_of vg v = None \<Longrightarrow> known x pr vg (bind_all e bs)"
  unfolding known_def by (metis bind_all_other option.distinct(1))

lemma run_rv_rewrite:
  "calls_kept P P' pr N \<Longrightarrow> n \<le> N \<Longrightarrow> laws x P pr \<Longrightarrow> known x pr vg e \<Longrightarrow>
   kept (run_rv P pr n e w rv) (run_rv P' pr n e w (rewrite x vg rv))"
  by (rule kept_trans [OF rewritten run_rv_kept]) (auto simp: known_def)

lemma rewrite_block:
  assumes c: "calls_kept P P' pr N" and l: "laws x P pr"
  shows "n \<le> N \<Longrightarrow> fixed vg (block_lets b) (block_binders b) \<Longrightarrow> known x pr vg e \<Longrightarrow>
      kept (exec_block P pr n e ds w b) (exec_block P' pr n e ds w (map_block (rewrite x vg) b))
      \<and> (\<forall>r w'. exec_block P pr n e ds w b = Done (r, w') \<longrightarrow> known_after x pr vg r)"
    and "n \<le> N \<Longrightarrow> fixed vg (stmt_lets k) (stmt_binders k) \<Longrightarrow> known x pr vg e \<Longrightarrow>
      kept (exec P pr n e ds w k) (exec P' pr n e ds w (map_stmt (rewrite x vg) k))
      \<and> (\<forall>r w'. exec P pr n e ds w k = Done (r, w') \<longrightarrow> known_after x pr vg r)"
proof (induction n e ds w b and n e ds w k rule: exec_pair_induct [where P = P and pr = pr])
  case (Cons n e ds w s ss)
  from Cons.prems have s: "kept (exec P pr n e ds w (kind s)) (exec P' pr n e ds w (map_stmt (rewrite x vg) (kind s)))"
    "\<And>r w'. exec P pr n e ds w (kind s) = Done (r, w') \<Longrightarrow> known_after x pr vg r"
    using Cons.IH(1) by auto
  have ss: "kept (exec_block P pr n e' ds' w' ss) (exec_block P' pr n e' ds' w' (map_block (rewrite x vg) ss))"
    "exec_block P pr n e' ds' w' ss = Done (r, w'') \<Longrightarrow> known_after x pr vg r"
    if "exec P pr n e ds w (kind s) = Done (Norm e' ds', w')" for e' ds' w' r w''
    using Cons.IH(2) [OF that] s(2) [OF that] Cons.prems by auto
  show ?case
  proof (intro conjI allI impI)
    show "kept (exec_block P pr n e ds w (s # ss)) (exec_block P' pr n e ds w (map_block (rewrite x vg) (s # ss)))"
      by (auto intro!: kept_bind [OF s(1)] ss(1) split: outcome.splits)
    fix r w' assume "exec_block P pr n e ds w (s # ss) = Done (r, w')"
    then obtain r1 w1 where "exec P pr n e ds w (kind s) = Done (r1, w1)"
      "(case r1 of Norm e' ds' \<Rightarrow> exec_block P pr n e' ds' w1 ss | _ \<Rightarrow> Done (r1, w1)) = Done (r, w')" by (auto simp: bind_res_Done)
    then show "known_after x pr vg r" by (cases r1) (auto dest: s(2) ss(2))
  qed
next
  case (Let n e ds w v rv)
  from Let.prems have "map_of vg v = None \<or> load rv = map_of vg v" by (simp add: fixed_def)
  moreover have "means x pr k u" if "load rv = Some k" "run_rv P pr n e w rv = Done (u, w')" for k u w'
    by (rule loaded [OF l that])
  ultimately show ?case using Let.prems
    by (auto intro!: kept_bind run_rv_rewrite [OF c _ l] simp: bind_res_Done known_def)
next
  case (Discard n e ds w rv)
  then show ?case by (auto intro!: kept_bind run_rv_rewrite [OF c _ l] simp: bind_res_Done)
next
  case (If n e ds w c t f)
  show ?case
  proof (cases "\<exists>b. eval_atom e c = Some (VBool b)")
    case True
    then obtain b where "eval_atom e c = Some (VBool b)" by blast
    with If show ?thesis by (cases b) auto
  qed (auto split: option.splits val.splits)
next
  case (Switch n e ds w c arms d)
  show ?case
  proof (cases "\<exists>k. eval_atom e c = Some (VInt k)")
    case True
    then obtain k where k: "eval_atom e c = Some (VInt k)" by blast
    have "fixed vg (block_lets (switch_arm arms d k)) (block_binders (switch_arm arms d k))"
      by (rule fixed_mono [OF Switch.prems(2)]) (use switch_arm_parts in auto)
    from Switch.IH [OF k Switch.prems(1) this Switch.prems(3)] k show ?thesis by (simp add: switch_arm_map)
  qed (auto split: option.splits val.splits)
next
  case (Match n e ds w c arms)
  show ?case
  proof (cases "\<exists>u bs b. eval_atom e c = Some u \<and> match_arms arms u = Done (Some (bs, b))")
    case True
    then obtain u bs b where u: "eval_atom e c = Some u" "match_arms arms u = Done (Some (bs, b))" by blast
    have "fixed vg (block_lets b) (block_binders b)"
      by (rule fixed_mono [OF Match.prems(2)]) (use match_arms_parts [OF u(2)] in auto)
    moreover have "known x pr vg (bind_all e bs)"
      using Match.prems(2,3) match_arms_binders [OF u(2)] by (intro known_bind) (auto simp: fixed_def)
    ultimately show ?thesis using Match.IH [OF u Match.prems(1)] u by (simp add: match_arms_map)
  next
    case False
    with Match.prems show ?thesis by (auto simp: match_arms_map split: option.splits res.splits)
  qed
next
  case (Loop n e ds w b)
  show ?case
  proof (cases n)
    case (Suc m)
    from Loop.prems Suc have b: "kept (exec_block P pr m e ds w b) (exec_block P' pr m e ds w (map_block (rewrite x vg) b))"
      "\<And>r w'. exec_block P pr m e ds w b = Done (r, w') \<Longrightarrow> known_after x pr vg r"
      using Loop.IH(1) [OF Suc] by auto
    have again: "kept (exec P pr m e' ds' w' (Loop b)) (exec P' pr m e' ds' w' (Loop (map_block (rewrite x vg) b)))"
      "exec P pr m e' ds' w' (Loop b) = Done (r', w'') \<Longrightarrow> known_after x pr vg r'"
      if "exec_block P pr m e ds w b = Done (r, w')" "r = Norm e' ds' \<or> r = Cont e' ds'" for r e' ds' w' r' w''
      using Loop.IH(2) [OF Suc that] b(2) [OF that(1)] that(2) Loop.prems Suc by auto
    show ?thesis
    proof (intro conjI allI impI)
      show "kept (exec P pr n e ds w (Loop b)) (exec P' pr n e ds w (map_stmt (rewrite x vg) (Loop b)))"
        by (auto simp: Suc exec_Loop [of _ _ "Suc m" e ds w] intro!: kept_bind [OF b(1)] again(1) split: outcome.splits)
      fix r w' assume "exec P pr n e ds w (Loop b) = Done (r, w')"
      then obtain r1 w1 where "exec_block P pr m e ds w b = Done (r1, w1)"
        "(case r1 of Norm e' ds' \<Rightarrow> exec P pr m e' ds' w1 (Loop b) | Cont e' ds' \<Rightarrow> exec P pr m e' ds' w1 (Loop b)
            | Brk e' ds' \<Rightarrow> Done (Norm e' ds', w1) | Ret v \<Rightarrow> Done (Ret v, w1)) = Done (r, w')"
        by (auto simp: Suc exec_Loop [of _ _ "Suc m" e ds w] bind_res_Done)
      then show "known_after x pr vg r" by (cases r1) (auto dest: b(2) again(2))
    qed
  qed (simp add: exec_Loop)
next
  case (Return n e ds w a)
  then show ?case by (auto intro!: kept_bind run_defers_kept [OF c] simp: bind_res_Done split: option.splits)
qed (auto split: option.splits)

definition rewrite_fn :: "'x \<Rightarrow> ir_function \<Rightarrow> ir_function" where
  "rewrite_fn x f = f\<lparr>body := map_block (rewrite x (collect_loads load f)) (body f)\<rparr>"

definition ready :: "'x \<Rightarrow> ir_function list \<Rightarrow> 'w prim \<Rightarrow> ir_function \<Rightarrow> bool" where
  "ready x P pr f \<longleftrightarrow> laws x P pr \<and> loads_fixed load f"

lemma known_frame:
  assumes "loads_fixed load f" and "frame f args caps = Some e"
  shows "known x pr (collect_loads load f) e"
proof -
  from assms(2) have "e v = None" if "v \<notin> set (params f)" "v \<notin> set (captures f)" for v
    using that by (auto simp: frame_def map_add_def map_of_zip_is_None split: if_splits option.splits)
  then have "map_of (collect_loads load f) v = None" if "e v = Some u" for v u
    using assms(1) that by (cases "v \<in> set (params f) \<union> set (captures f)") (auto simp: loads_fixed_def Let_def list_all_iff)
  then show ?thesis by (auto simp: known_def)
qed

lemma fixed_body: "loads_fixed load f \<Longrightarrow> fixed (collect_loads load f) (block_lets (body f)) (block_binders (body f))"
  by (auto simp: loads_fixed_def lets_fixed_def fixed_def Let_def list_all_iff)

end

sublocale call_rewrite \<subseteq> improving_pass rewrite_fn ready
proof
  fix x and pr :: "'w prim" and f args caps e P P' n w
  assume "ready x P pr f" "frame f args caps = Some e" "calls_kept P P' pr n"
  then show "kept (body_exit (exec_block P pr n e [] w (body f))) (body_exit (exec_block P' pr n e [] w (body (rewrite_fn x f))))"
    using rewrite_block(1) [of P P' pr n x n "collect_loads load f" "body f" e "[]" w]
    by (auto simp: ready_def rewrite_fn_def body_exit_def known_frame fixed_body intro!: kept_bind)
qed (simp_all add: rewrite_fn_def)


section \<open>Dropping bindings of unused variables\<close>

fun atom_vars :: "atom \<Rightarrow> var_id list" where
  "atom_vars (AVar v) = [v]"
| "atom_vars (AConst c) = []"

definition used_vars :: "ir_function \<Rightarrow> var_id list" where
  "used_vars f = concat (map atom_vars (block_atoms (body f)))"

definition orphaned :: "(rvalue \<Rightarrow> bool) \<Rightarrow> var_id list \<Rightarrow> stmt_kind \<Rightarrow> bool" where
  "orphaned dead used k = (case k of Let v rv \<Rightarrow> dead rv \<and> v \<notin> set used | _ \<Rightarrow> False)"

definition prune :: "(rvalue \<Rightarrow> bool) \<Rightarrow> ir_function \<Rightarrow> ir_function" where
  "prune dead f = f\<lparr>body := retain_block (\<lambda>k. \<not> orphaned dead (used_vars f) k) (body f)\<rparr>"

text \<open>\<open>env_le\<close> on the variables an atom or an rvalue reads.\<close>

lemma env_le_eval: "env_le V e e' \<Longrightarrow> set (atom_vars a) \<subseteq> V \<Longrightarrow> eval_atom e a = Some v \<Longrightarrow> eval_atom e' a = Some v"
  by (cases a) (auto simp: env_le_def)

lemma env_le_evals:
  "env_le V e e' \<Longrightarrow> \<forall>a \<in> set as. set (atom_vars a) \<subseteq> V \<Longrightarrow> eval_atoms e as = Some vs \<Longrightarrow> eval_atoms e' as = Some vs"
  by (induction as arbitrary: vs) (auto simp: bind_Some_iff dest: env_le_eval)

lemma run_rv_env_le:
  assumes "calls_kept P P' pr N" and "n \<le> N" and "env_le V e e'" and "\<forall>a \<in> set (operands rv). set (atom_vars a) \<subseteq> V"
  shows "kept (run_rv P pr n e w rv) (run_rv P' pr n e' w rv)"
proof (cases "eval_atoms e (operands rv)")
  case (Some vs)
  with env_le_evals [OF assms(3,4)] have "run_rv P' pr n e' w rv = run_rv P' pr n e w rv" by (simp add: run_rv.simps)
  with run_rv_kept [OF assms(1,2)] show ?thesis by simp
qed (simp add: run_rv.simps)

lemma kept_upto_bind:
  assumes "kept r r'" and "\<And>x. r = Done x \<Longrightarrow> kept_upto V (f x) (g x)"
  shows "kept_upto V (bind_res r f) (bind_res r' g)"
  using assms by (cases r) (auto simp: kept_def)

lemma kept_upto_seq:
  assumes "kept_upto V r r'" and "\<And>o1 o2 w. r = Done (o1, w) \<Longrightarrow> r' = Done (o2, w) \<Longrightarrow> same_end V o1 o2 \<Longrightarrow> kept_upto V (f (o1, w)) (g (o2, w))"
  shows "kept_upto V (bind_res r f) (bind_res r' g)"
  using assms by (cases "(V, r, r')" rule: kept_upto.cases) auto

locale dead_pruning =
  fixes dead :: "rvalue \<Rightarrow> bool"
    and laws :: "'w prim \<Rightarrow> bool"
  assumes pure: "laws pr \<Longrightarrow> dead rv \<Longrightarrow> run_rv P pr n e w rv = Stuck \<or> (\<exists>u. run_rv P pr n e w rv = Done (u, w))"
begin

definition prune_fn :: "unit \<Rightarrow> ir_function \<Rightarrow> ir_function" where
  "prune_fn x f = prune dead f"

definition prunable :: "unit \<Rightarrow> ir_function list \<Rightarrow> 'w prim \<Rightarrow> ir_function \<Rightarrow> bool" where
  "prunable x P pr f \<longleftrightarrow> laws pr"

lemma prune_block:
  fixes used :: "var_id list"
  assumes c: "calls_kept P P' pr N" and l: "laws pr"
  defines "K \<equiv> \<lambda>k. \<not> orphaned dead used k"
  shows "n \<le> N \<Longrightarrow> \<forall>a \<in> set (block_atoms b). set (atom_vars a) \<subseteq> set used \<Longrightarrow> env_le (set used) e e' \<Longrightarrow>
      kept_upto (set used) (exec_block P pr n e ds w b) (exec_block P' pr n e' ds w (retain_block K b))"
    and "n \<le> N \<Longrightarrow> \<forall>a \<in> set (stmt_atoms k). set (atom_vars a) \<subseteq> set used \<Longrightarrow> env_le (set used) e e' \<Longrightarrow>
      kept_upto (set used) (exec P pr n e ds w k) (exec P' pr n e' ds w (retain_stmt K k))"
proof (induction n e ds w b and n e ds w k arbitrary: e' and e' rule: exec_pair_induct [where P = P and pr = pr])
  case (Cons n e ds w s ss)
  have ss: "kept_upto (set used) (exec_block P pr n e1 ds1 w1 ss) (exec_block P' pr n e2 ds1 w1 (retain_block K ss))"
    if "exec P pr n e ds w (kind s) = Done (Norm e1 ds1, w1)" "env_le (set used) e1 e2" for e1 ds1 w1 e2
    using Cons.IH(2) [OF that(1) _ _ that(2)] Cons.prems by simp
  show ?case
  proof (cases "K (kind s)")
    case True
    from Cons.prems have "kept_upto (set used) (exec P pr n e ds w (kind s)) (exec P' pr n e' ds w (retain_stmt K (kind s)))"
      by (intro Cons.IH(1)) auto
    then have "kept_upto (set used) (exec_block P pr n e ds w (s # ss))
        (exec_block P' pr n e' ds w (Stmt (retain_stmt K (kind s)) (stmt_range s) # retain_block K ss))"
      by (auto intro!: kept_upto_seq ss elim!: same_end.elims)
    with True show ?thesis by simp
  next
    case False
    then obtain v rv where k: "kind s = Let v rv" "dead rv" "v \<notin> set used" by (auto simp: K_def orphaned_def split: stmt_kind.splits)
    from pure [OF l k(2)] consider "run_rv P pr n e w rv = Stuck" | u where "run_rv P pr n e w rv = Done (u, w)" by blast
    then show ?thesis
    proof cases
      case 2
      then have s: "exec P pr n e ds w (kind s) = Done (Norm (e(v \<mapsto> u)) ds, w)" by (simp add: k(1))
      from Cons.prems(3) k(3) have "env_le (set used) (e(v \<mapsto> u)) e'" by (auto simp: env_le_def)
      from ss [OF s this] False s show ?thesis by simp
    qed (use k(1) in simp)
  qed
next
  case (Let n e ds w v rv)
  then show ?case by (auto intro!: kept_upto_bind run_rv_env_le [OF c] env_le_upd)
next
  case (Discard n e ds w rv)
  then show ?case by (auto intro!: kept_upto_bind run_rv_env_le [OF c])
next
  case (If n e ds w c t f)
  show ?case
  proof (cases "\<exists>b. eval_atom e c = Some (VBool b)")
    case True
    then obtain b where b: "eval_atom e c = Some (VBool b)" by blast
    with If.prems have "eval_atom e' c = Some (VBool b)" by (auto dest: env_le_eval)
    with b If show ?thesis by (cases b) auto
  qed (auto split: option.splits val.splits)
next
  case (Switch n e ds w c arms d)
  show ?case
  proof (cases "\<exists>k. eval_atom e c = Some (VInt k)")
    case True
    then obtain k where k: "eval_atom e c = Some (VInt k)" by blast
    with Switch.prems have k': "eval_atom e' c = Some (VInt k)" by (auto dest: env_le_eval)
    have "\<forall>a \<in> set (block_atoms (switch_arm arms d k)). set (atom_vars a) \<subseteq> set used"
      using Switch.prems(2) switch_arm_parts(2) [of arms d k] by auto
    from Switch.IH [OF k Switch.prems(1) this Switch.prems(3)] k k' show ?thesis by (simp add: switch_arm_retain)
  qed (auto split: option.splits val.splits)
next
  case (Match n e ds w c arms)
  show ?case
  proof (cases "eval_atom e c")
    case (Some u)
    with Match.prems have u: "eval_atom e' c = Some u" by (auto dest: env_le_eval)
    show ?thesis
    proof (cases "\<exists>bs b. match_arms arms u = Done (Some (bs, b))")
      case True
      then obtain bs b where b: "match_arms arms u = Done (Some (bs, b))" by blast
      have "\<forall>a \<in> set (block_atoms b). set (atom_vars a) \<subseteq> set used"
        using Match.prems(2) match_arms_parts [OF b] by auto
      from Match.IH [OF Some b Match.prems(1) this env_le_bind_all [OF Match.prems(3)]] Some u b
      show ?thesis by (simp add: match_arms_retain)
    qed (use Some u Match.prems in \<open>auto simp: match_arms_retain split: option.splits res.splits\<close>)
  qed simp
next
  case (Loop n e ds w b)
  show ?case
  proof (cases n)
    case (Suc m)
    from Loop.prems Suc have "kept_upto (set used) (exec_block P pr m e ds w b) (exec_block P' pr m e' ds w (retain_block K b))"
      by (intro Loop.IH(1)) auto
    moreover have "kept_upto (set used) (exec P pr m e1 ds1 w1 (Loop b)) (exec P' pr m e2 ds1 w1 (Loop (retain_block K b)))"
      if "exec_block P pr m e ds w b = Done (r, w1)" "r = Norm e1 ds1 \<or> r = Cont e1 ds1" "env_le (set used) e1 e2" for r e1 ds1 w1 e2
      using Loop.IH(2) [OF Suc that(1,2) _ _ that(3)] Loop.prems Suc by simp
    ultimately show ?thesis
      by (auto simp: Suc exec_Loop [of _ _ "Suc m"] intro!: kept_upto_seq elim!: same_end.elims)
  qed (simp add: exec_Loop)
next
  case (Return n e ds w a)
  show ?case
  proof (cases "eval_atom e a")
    case (Some v)
    with Return.prems have "eval_atom e' a = Some v" by (auto dest: env_le_eval)
    with Some Return.prems(1) show ?thesis by (auto intro!: kept_upto_bind run_defers_kept [OF c])
  qed simp
next
  case (PushDefer n e ds w a)
  show ?case
  proof (cases "eval_atom e a")
    case (Some v)
    with PushDefer.prems have "eval_atom e' a = Some v" by (auto dest: env_le_eval)
    with Some PushDefer.prems(3) show ?thesis by simp
  qed simp
qed auto

end

sublocale dead_pruning \<subseteq> improving_pass prune_fn prunable
proof
  fix x and pr :: "'w prim" and f args caps e P P' n w
  assume p: "prunable x P pr f" and c: "calls_kept P P' pr n"
  have "\<forall>a \<in> set (block_atoms (body f)). set (atom_vars a) \<subseteq> set (used_vars f)" by (auto simp: used_vars_def)
  from prune_block(1) [OF c _ order_refl this env_le_refl] p
  show "kept (body_exit (exec_block P pr n e [] w (body f))) (body_exit (exec_block P' pr n e [] w (body (prune_fn x f))))"
    by (auto simp: prunable_def prune_fn_def prune_def intro!: kept_upto_exit)
qed (simp_all add: prune_fn_def prune_def)


section \<open>Rewriting and pruning twice\<close>

lemma note_load_lookup: "map_of (note_load load p m) v = (if fst p = v \<and> load (snd p) \<noteq> None then load (snd p) else map_of m v)"
  by (auto simp: note_load_def update_conv' split: option.splits)

lemma collect_cong: "map (map_prod id load) ls = map (map_prod id load) ls' \<Longrightarrow> fold (note_load load) ls m = fold (note_load load) ls' m"
proof (induction ls arbitrary: ls' m)
  case (Cons p ls)
  then obtain q qs where l: "ls' = q # qs" "fst p = fst q" "load (snd p) = load (snd q)"
    "map (map_prod id load) ls = map (map_prod id load) qs" by (cases ls') (auto simp: map_prod_def split: prod.splits)
  from l(2,3) have "note_load load p m = note_load load q m" by (simp add: note_load_def split: option.splits)
  with Cons.IH [OF l(4)] l(1) show ?case by simp
qed simp

lemma collect_filter:
  assumes "\<And>v rv. v \<in> U \<Longrightarrow> Q (v, rv)" and "v \<in> U" and "map_of m' v = map_of m v"
  shows "map_of (fold (note_load load) (filter Q ls) m') v = map_of (fold (note_load load) ls m) v"
  using assms(3)
proof (induction ls arbitrary: m m')
  case (Cons p ls)
  show ?case
  proof (cases "Q p")
    case True
    have "map_of (note_load load p m') v = map_of (note_load load p m) v" by (auto simp: note_load_lookup Cons.prems)
    from Cons.IH [OF this] True show ?thesis by simp
  next
    case False
    with assms(1,2) have "fst p \<noteq> v" by (cases p) auto
    then have "map_of m' v = map_of (note_load load p m) v" by (simp add: note_load_lookup Cons.prems)
    from Cons.IH [OF this] False show ?thesis by simp
  qed
qed simp

text \<open>
  The syntactic contract of a resolution: it changes no load, an rvalue it produced stays as it
  is, and what it does to an rvalue depends on the variables read there.
\<close>

locale resolution =
  fixes load :: "rvalue \<Rightarrow> 'k option"
    and rewrite :: "'x \<Rightarrow> (var_id \<times> 'k) list \<Rightarrow> rvalue \<Rightarrow> rvalue"
    and dead :: "rvalue \<Rightarrow> bool"
  assumes dead_iff: "dead rv \<longleftrightarrow> load rv \<noteq> None"
    and no_operands: "dead rv \<Longrightarrow> operands rv = []"
    and load_rewrite: "load (rewrite x vg rv) = load rv"
    and rewrite_rewrite: "rewrite x vg (rewrite x vg rv) = rewrite x vg rv"
    and rewrite_local: "(\<And>v. AVar v \<in> set (operands rv) \<Longrightarrow> map_of vg v = map_of vg' v) \<Longrightarrow> rewrite x vg rv = rewrite x vg' rv"
begin

definition resolve_fn :: "'x \<Rightarrow> ir_function \<Rightarrow> ir_function" where
  "resolve_fn x f = prune dead (f\<lparr>body := map_block (rewrite x (collect_loads load f)) (body f)\<rparr>)"

lemma collect_mapped: "collect_loads load (f\<lparr>body := map_block (rewrite x vg) (body f)\<rparr>) = collect_loads load f"
  by (auto simp: collect_loads_def lets_map load_rewrite intro!: collect_cong)

lemma used_pruned: "used_vars (prune dead f) = used_vars f"
proof -
  have "block_atoms (retain_block (\<lambda>k. \<not> orphaned dead (used_vars f) k) (body f)) = block_atoms (body f)"
    by (rule atoms_retain(1)) (auto simp: orphaned_def no_operands split: stmt_kind.splits)
  then show ?thesis by (simp add: used_vars_def prune_def)
qed

lemma collect_pruned:
  assumes "v \<in> set (used_vars f)"
  shows "map_of (collect_loads load (prune dead f)) v = map_of (collect_loads load f) v"
proof -
  let ?K = "\<lambda>k. \<not> orphaned dead (used_vars f) k"
  have "block_lets (retain_block ?K (body f)) = filter (\<lambda>(v, rv). ?K (Let v rv)) (block_lets (body f))"
    by (rule lets_retain) (auto simp: orphaned_def split: stmt_kind.splits)
  then show ?thesis unfolding collect_loads_def prune_def
    by (simp, intro collect_filter [OF _ assms]) (auto simp: orphaned_def)
qed

lemma prune_twice: "prune dead (prune dead f) = prune dead f"
proof -
  let ?K = "\<lambda>k. \<not> orphaned dead (used_vars f) k"
  have "?K (retain_stmt ?K k) = ?K k" for k by (cases k) (simp_all add: orphaned_def)
  then have "retain_block ?K (retain_block ?K (body f)) = retain_block ?K (body f)" by (rule retain_twice)
  moreover have "prune dead (prune dead f) = prune dead f\<lparr>body := retain_block ?K (retain_block ?K (body f))\<rparr>"
    unfolding prune_def [of dead "prune dead f"] used_pruned by (simp add: prune_def)
  ultimately show ?thesis by (simp add: prune_def)
qed

lemma resolve_twice: "resolve_fn x (resolve_fn x f) = resolve_fn x f"
proof -
  let ?vg = "collect_loads load f"
  let ?g = "f\<lparr>body := map_block (rewrite x ?vg) (body f)\<rparr>"
  let ?h = "prune dead ?g"
  have "rewrite x (collect_loads load ?h) rv = rv" if rv: "rv \<in> set (block_rvs (body ?h))" for rv
  proof -
    from rv have "rv \<in> set (block_rvs (body ?g))" using rvs_retain(1) by (auto simp: prune_def)
    then obtain rv0 where r: "rv = rewrite x ?vg rv0" by (auto simp: rvs_map)
    have "map_of (collect_loads load ?h) v = map_of ?vg v" if "AVar v \<in> set (operands rv)" for v
    proof -
      from rvs_atoms(1) [OF rv] that have "v \<in> set (used_vars ?h)" by (force simp: used_vars_def)
      then show ?thesis using collect_pruned [of v ?g] by (simp add: used_pruned collect_mapped)
    qed
    then have "rewrite x (collect_loads load ?h) rv = rewrite x ?vg rv" by (rule rewrite_local)
    then show ?thesis by (simp add: r rewrite_rewrite)
  qed
  then have "map_block (rewrite x (collect_loads load ?h)) (body ?h) = body ?h" by (intro map_block_id(1)) blast
  then have "resolve_fn x ?h = prune dead ?h" by (simp add: resolve_fn_def)
  then show ?thesis by (simp add: resolve_fn_def prune_twice)
qed

end

end
