(* ===== verification/Resolve.thy ===== *)
theory Resolve
  imports Passes Simplify
begin

text \<open>
  Direct-call resolution, ir/src/resolve.rs: calls through a global that holds a closure of a
  known function, or a builtin, become direct calls, calls of a variant constructor become
  constructions, and the loads this leaves unused are dropped. A \<open>HashMap\<close> keyed by variable or
  global is an association list in which an insertion replaces.
\<close>

section \<open>Calls through globals\<close>

definition as_global :: "rvalue \<Rightarrow> nat option" where
  "as_global rv = (case rv of GlobalRef g \<Rightarrow> Some g | _ \<Rightarrow> None)"

definition collect_var_globals :: "ir_function \<Rightarrow> (var_id \<times> nat) list" where
  "collect_var_globals f = collect_loads as_global f"

definition is_global_ref :: "rvalue \<Rightarrow> bool" where
  "is_global_ref rv \<longleftrightarrow> (case rv of GlobalRef g \<Rightarrow> True | _ \<Rightarrow> False)"

definition prune_dead_global_refs :: "ir_function \<Rightarrow> ir_function" where
  "prune_dead_global_refs f = prune is_global_ref f"

text \<open>A capture-free closure bound by a statement, and the variable a statement returns.\<close>

definition closed_closure :: "rvalue \<Rightarrow> func_id option" where
  "closed_closure rv = (case rv of MakeClosure fid caps \<Rightarrow> if caps = [] then Some fid else None | _ \<Rightarrow> None)"

definition bound_closure :: "stmt_kind \<Rightarrow> (var_id \<times> func_id) option" where
  "bound_closure k = (case k of Let v rv \<Rightarrow> map_option (Pair v) (closed_closure rv) | _ \<Rightarrow> None)"

definition returned_atom :: "stmt_kind \<Rightarrow> atom option" where
  "returned_atom k = (case k of Return a \<Rightarrow> Some a | _ \<Rightarrow> None)"

definition closure_returned_by :: "ir_function \<Rightarrow> func_id option" where
  "closure_returned_by f =
     (case body f of
        [s1, s2] \<Rightarrow>
          (case bound_closure (kind s1) of
             Some (bound, fid) \<Rightarrow> if returned_atom (kind s2) = Some (AVar bound) then Some fid else None
           | None \<Rightarrow> None)
      | _ \<Rightarrow> None)"

definition direct_target :: "ir_program \<Rightarrow> nat \<times> global_init \<Rightarrow> (nat \<times> func_id) option" where
  "direct_target p gi =
     (case snd gi of
        Thunk t \<Rightarrow>
          if t < length (prog_functions p)
          then map_option (Pair (fst gi)) (closure_returned_by (prog_functions p ! t)) else None
      | PreEvaluated pe \<Rightarrow> None)"

definition direct_call_targets :: "ir_program \<Rightarrow> (nat \<times> func_id) list" where
  "direct_call_targets p = List.map_filter (direct_target p) (enumerate 0 (globals p))"

text \<open>What a called atom resolves to, by the loads of the function and a table of globals.\<close>

definition via_global :: "(var_id \<times> nat) list \<Rightarrow> (nat \<times> 'a) list \<Rightarrow> atom \<Rightarrow> 'a option" where
  "via_global vg targets c = (case c of AVar v \<Rightarrow> Option.bind (map_of vg v) (map_of targets) | AConst k \<Rightarrow> None)"

definition rewrite_rvalue :: "(nat \<times> func_id) list \<Rightarrow> (var_id \<times> nat) list \<Rightarrow> rvalue \<Rightarrow> rvalue" where
  "rewrite_rvalue targets vg rv =
     (case rv of
        CallClosure c args \<Rightarrow>
          (case via_global vg targets c of Some fid \<Rightarrow> Call (Callee_Function fid) args | None \<Rightarrow> rv)
      | TailCall c args \<Rightarrow>
          (case via_global vg targets c of Some fid \<Rightarrow> TailCallDirect fid args | None \<Rightarrow> rv)
      | _ \<Rightarrow> rv)"

definition rewrite_block :: "(var_id \<times> nat) list \<Rightarrow> (nat \<times> func_id) list \<Rightarrow> block \<Rightarrow> block" where
  "rewrite_block vg targets = map_block (rewrite_rvalue targets vg)"

definition resolve_direct_fn :: "(nat \<times> func_id) list \<Rightarrow> ir_function \<Rightarrow> ir_function" where
  "resolve_direct_fn targets f =
     prune_dead_global_refs (f\<lparr>body := rewrite_block (collect_var_globals f) targets (body f)\<rparr>)"

definition resolve_direct_calls :: "ir_program \<Rightarrow> ir_program" where
  "resolve_direct_calls p =
     (let targets = direct_call_targets p
      in if targets = [] then p else p\<lparr>prog_functions := map (resolve_direct_fn targets) (prog_functions p)\<rparr>)"

section \<open>Builtins\<close>

definition builtin_target :: "nat \<times> global_init \<Rightarrow> (nat \<times> string \<times> repr) option" where
  "builtin_target gi =
     (case snd gi of
        PreEvaluated pe \<Rightarrow> (case pe of PreBuiltin tag ret \<Rightarrow> Some (fst gi, tag, ret) | _ \<Rightarrow> None)
      | Thunk t \<Rightarrow> None)"

definition builtin_call_targets :: "ir_program \<Rightarrow> (nat \<times> string \<times> repr) list" where
  "builtin_call_targets p = List.map_filter builtin_target (enumerate 0 (globals p))"

definition rewrite_builtin_rvalue :: "(nat \<times> string \<times> repr) list \<Rightarrow> (var_id \<times> nat) list \<Rightarrow> rvalue \<Rightarrow> rvalue" where
  "rewrite_builtin_rvalue builtins vg rv =
     (case rv of
        CallClosure c args \<Rightarrow>
          (case via_global vg builtins c of Some (tag, ret) \<Rightarrow> Call (Callee_Builtin tag ret) args | None \<Rightarrow> rv)
      | TailCall c args \<Rightarrow>
          (case via_global vg builtins c of Some (tag, ret) \<Rightarrow> Call (Callee_Builtin tag ret) args | None \<Rightarrow> rv)
      | _ \<Rightarrow> rv)"

definition rewrite_builtins_block :: "(var_id \<times> nat) list \<Rightarrow> (nat \<times> string \<times> repr) list \<Rightarrow> block \<Rightarrow> block" where
  "rewrite_builtins_block vg builtins = map_block (rewrite_builtin_rvalue builtins vg)"

definition resolve_builtin_fn :: "(nat \<times> string \<times> repr) list \<Rightarrow> ir_function \<Rightarrow> ir_function" where
  "resolve_builtin_fn builtins f =
     prune_dead_global_refs (f\<lparr>body := rewrite_builtins_block (collect_var_globals f) builtins (body f)\<rparr>)"

definition resolve_builtins :: "ir_program \<Rightarrow> ir_program" where
  "resolve_builtins p =
     (let builtins = builtin_call_targets p
      in if builtins = [] then p else p\<lparr>prog_functions := map (resolve_builtin_fn builtins) (prog_functions p)\<rparr>)"

section \<open>Constructors\<close>

definition as_ctor :: "rvalue \<Rightarrow> (string \<times> nat) option" where
  "as_ctor rv = (case rv of MakeVariantCtor enum_name tag \<Rightarrow> Some (enum_name, tag) | _ \<Rightarrow> None)"

definition collect_var_ctors :: "ir_function \<Rightarrow> (var_id \<times> string \<times> nat) list" where
  "collect_var_ctors f = collect_loads as_ctor f"

definition called_ctor :: "(var_id \<times> string \<times> nat) list \<Rightarrow> atom \<Rightarrow> (string \<times> nat) option" where
  "called_ctor ctors c = (case c of AVar v \<Rightarrow> map_of ctors v | AConst k \<Rightarrow> None)"

definition fold_rvalue :: "(var_id \<times> string \<times> nat) list \<Rightarrow> rvalue \<Rightarrow> rvalue" where
  "fold_rvalue ctors rv =
     (case rv of
        CallClosure c args \<Rightarrow>
          (case called_ctor ctors c of Some (enum_name, tag) \<Rightarrow> MakeVariant enum_name tag args | None \<Rightarrow> rv)
      | TailCall c args \<Rightarrow>
          (case called_ctor ctors c of Some (enum_name, tag) \<Rightarrow> MakeVariant enum_name tag args | None \<Rightarrow> rv)
      | _ \<Rightarrow> rv)"

definition fold_ctor_block :: "(var_id \<times> string \<times> nat) list \<Rightarrow> block \<Rightarrow> block" where
  "fold_ctor_block ctors = map_block (fold_rvalue ctors)"

definition is_ctor_ref :: "rvalue \<Rightarrow> bool" where
  "is_ctor_ref rv \<longleftrightarrow> (case rv of MakeVariantCtor enum_name tag \<Rightarrow> True | _ \<Rightarrow> False)"

definition prune_dead_ctor_refs :: "ir_function \<Rightarrow> ir_function" where
  "prune_dead_ctor_refs f = prune is_ctor_ref f"

definition fold_ctor_fn :: "ir_function \<Rightarrow> ir_function" where
  "fold_ctor_fn f =
     (let ctors = collect_var_ctors f
      in if ctors = [] then f else prune_dead_ctor_refs (f\<lparr>body := fold_ctor_block ctors (body f)\<rparr>))"

definition fold_variant_ctor_calls :: "ir_program \<Rightarrow> ir_program" where
  "fold_variant_ctor_calls p = p\<lparr>prog_functions := map fold_ctor_fn (prog_functions p)\<rparr>"

section \<open>What the passes rely on\<close>

text \<open>
  Of the operations the semantics leaves open: loading a global changes nothing; a thunk's
  global holds what a run of the thunk returned, a builtin's global a value that called does
  what the builtin does; so does a constructor's value with the construction.
\<close>

definition calls_as :: "'w prim \<Rightarrow> val \<Rightarrow> (atom list \<Rightarrow> rvalue) \<Rightarrow> bool" where
  "calls_as pr u direct \<longleftrightarrow> (\<forall>fid caps. u \<noteq> VClosure fid caps)
     \<and> (\<forall>c args vs w r. pr (CallClosure c args) (u # vs) w = Some r \<longrightarrow> pr (direct args) vs w = Some r)
     \<and> (\<forall>c args vs w r. pr (TailCall c args) (u # vs) w = Some r \<longrightarrow> pr (direct args) vs w = Some r)"

definition holds_global :: "ir_program \<Rightarrow> 'w prim \<Rightarrow> global_init \<Rightarrow> val \<Rightarrow> bool" where
  "holds_global p pr gi u =
     (case gi of
        Thunk t \<Rightarrow> (\<exists>w0 w1. returns (prog_functions p) pr t [] [] w0 u w1)
      | PreEvaluated pe \<Rightarrow>
          (case pe of PreBuiltin tag ret \<Rightarrow> calls_as pr u (Call (Callee_Builtin tag ret)) | _ \<Rightarrow> True))"

definition globals_loaded :: "ir_program \<Rightarrow> 'w prim \<Rightarrow> bool" where
  "globals_loaded p pr \<longleftrightarrow>
     (\<forall>g w u w'. pr (GlobalRef g) [] w = Some (u, w') \<longrightarrow>
        w' = w \<and> (g < length (globals p) \<longrightarrow> holds_global p pr (globals p ! g) u))"

definition ctors_applied :: "'w prim \<Rightarrow> bool" where
  "ctors_applied pr \<longleftrightarrow>
     (\<forall>enum_name tag w u w'. pr (MakeVariantCtor enum_name tag) [] w = Some (u, w') \<longrightarrow>
        w' = w \<and> calls_as pr u (MakeVariant enum_name tag))"

end
