(* ===== verification/ResolveCorrect.thy ===== *)
theory ResolveCorrect
  imports Resolve
begin

text \<open>
  The passes of ir/src/resolve.rs keep every run that is not stuck, and a second run of them
  changes nothing: the contracts of \<open>Passes\<close> for each pass, and the properties.
\<close>

section \<open>Called atoms\<close>

lemma as_global_Some: "as_global rv = Some g \<longleftrightarrow> rv = GlobalRef g"
  by (cases rv) (auto simp: as_global_def)

lemma as_ctor_Some: "as_ctor rv = Some c \<longleftrightarrow> rv = MakeVariantCtor (fst c) (snd c)"
  by (cases rv) (auto simp: as_ctor_def)

lemma is_global_ref_iff: "is_global_ref rv \<longleftrightarrow> (\<exists>g. rv = GlobalRef g)"
  by (cases rv) (auto simp: is_global_ref_def)

lemma is_ctor_ref_iff: "is_ctor_ref rv \<longleftrightarrow> (\<exists>n t. rv = MakeVariantCtor n t)"
  by (cases rv) (auto simp: is_ctor_ref_def)

lemma run_rv_GlobalRef: "run_rv P pr n e w (GlobalRef g) = or_stuck (pr (GlobalRef g) [] w)"
  and run_rv_MakeVariantCtor: "run_rv P pr n e w (MakeVariantCtor nm t) = or_stuck (pr (MakeVariantCtor nm t) [] w)"
  by (simp_all add: run_rv.simps dispatch_rv_def eval_prim_def)

lemma or_stuck_Done: "or_stuck m = Done x \<longleftrightarrow> m = Some x"
  by (cases m) auto

lemma call_known_closure:
  assumes "e v = Some (VClosure fid [])"
  shows "run_rv P pr n e w (Call (Callee_Function fid) args) = run_rv P pr n e w (CallClosure (AVar v) args)"
    and "run_rv P pr n e w (TailCallDirect fid args) = run_rv P pr n e w (TailCall (AVar v) args)"
  using assms by (auto simp: run_rv.simps dispatch_rv_def split: option.splits)

lemma call_unbound:
  assumes "e v = None"
  shows "run_rv P pr n e w (CallClosure (AVar v) args) = Stuck" and "run_rv P pr n e w (TailCall (AVar v) args) = Stuck"
  using assms by (simp_all add: run_rv.simps)

lemma eval_prim_call:
  "eval_prim pr (CallClosure a args) vs w = pr (CallClosure a args) vs w"
  "eval_prim pr (TailCall a args) vs w = pr (TailCall a args) vs w"
  by (simp_all add: eval_prim_def)

lemma call_as:
  assumes u: "e v = Some u" "calls_as pr u direct" and d: "\<And>vs. dispatch_rv (direct args) vs = Primitive vs"
    "\<And>vs w. eval_prim pr (direct args) vs w = pr (direct args) vs w" "operands (direct args) = args"
  shows "kept (run_rv P pr n e w (CallClosure (AVar v) args)) (run_rv P pr n e w (direct args))"
    and "kept (run_rv P pr n e w (TailCall (AVar v) args)) (run_rv P pr n e w (direct args))"
proof -
  have c: "dispatch_rv (CallClosure a args) (u # vs) = Primitive (u # vs)"
    "dispatch_rv (TailCall a args) (u # vs) = Primitive (u # vs)" for a vs
    using u(2) by (cases u; simp add: calls_as_def dispatch_rv_def)+
  have k: "kept (or_stuck (pr (CallClosure a args) (u # vs) w)) (or_stuck (pr (direct args) vs w))"
    "kept (or_stuck (pr (TailCall a args) (u # vs) w)) (or_stuck (pr (direct args) vs w))" for a vs
    using u(2) by (cases "pr (CallClosure a args) (u # vs) w"; cases "pr (TailCall a args) (u # vs) w"; auto simp: calls_as_def)+
  show "kept (run_rv P pr n e w (CallClosure (AVar v) args)) (run_rv P pr n e w (direct args))"
    and "kept (run_rv P pr n e w (TailCall (AVar v) args)) (run_rv P pr n e w (direct args))"
    using u(1) k by (auto simp: run_rv.simps c d eval_prim_call split: option.splits)
qed

section \<open>The contracts\<close>

definition direct_means :: "(nat \<times> func_id) list \<Rightarrow> 'w prim \<Rightarrow> nat \<Rightarrow> val \<Rightarrow> bool" where
  "direct_means targets pr g u \<longleftrightarrow> (\<forall>fid. map_of targets g = Some fid \<longrightarrow> u = VClosure fid [])"

definition direct_laws :: "(nat \<times> func_id) list \<Rightarrow> 'w prim \<Rightarrow> bool" where
  "direct_laws targets pr \<longleftrightarrow>
     (\<forall>g w u w'. pr (GlobalRef g) [] w = Some (u, w') \<longrightarrow> direct_means targets pr g u)"

lemma via_global_Some:
  "via_global vg targets c = Some t \<longleftrightarrow> (\<exists>v g. c = AVar v \<and> map_of vg v = Some g \<and> map_of targets g = Some t)"
  by (cases c) (auto simp: via_global_def bind_Some_iff)

lemma rewrite_rvalue_kept:
  assumes "\<And>v k u. map_of vg v = Some k \<Longrightarrow> e v = Some u \<Longrightarrow> direct_means targets pr k u"
  shows "kept (run_rv P pr n e w rv) (run_rv P pr n e w (rewrite_rvalue targets vg rv))"
proof -
  have "e v = None \<or> e v = Some (VClosure fid [])" if "via_global vg targets (AVar v) = Some fid" for v fid
    using assms that by (cases "e v") (auto simp: via_global_Some direct_means_def)
  then have "kept (run_rv P pr n e w (CallClosure c args)) (run_rv P pr n e w (Call (Callee_Function fid) args))"
    "kept (run_rv P pr n e w (TailCall c args)) (run_rv P pr n e w (TailCallDirect fid args))"
    if "via_global vg targets c = Some fid" for c args fid
    using that by (cases c; fastforce simp: call_known_closure call_unbound via_global_def)+
  then show ?thesis by (cases rv) (auto simp: rewrite_rvalue_def split: option.splits)
qed

interpretation direct: call_rewrite as_global rewrite_rvalue direct_means "\<lambda>t P. direct_laws t"
proof
  fix x rv k P n e u and pr :: "'a prim" and w w'
  assume "direct_laws x pr" "as_global rv = Some k" "run_rv P pr n e w rv = Done (u, w')"
  then show "direct_means x pr k u" by (auto simp: as_global_Some run_rv_GlobalRef or_stuck_Done direct_laws_def)
qed (rule rewrite_rvalue_kept)

definition builtin_means :: "(nat \<times> string \<times> repr) list \<Rightarrow> 'w prim \<Rightarrow> nat \<Rightarrow> val \<Rightarrow> bool" where
  "builtin_means builtins pr g u \<longleftrightarrow>
     (\<forall>tag ret. map_of builtins g = Some (tag, ret) \<longrightarrow> calls_as pr u (Call (Callee_Builtin tag ret)))"

definition builtin_laws :: "(nat \<times> string \<times> repr) list \<Rightarrow> 'w prim \<Rightarrow> bool" where
  "builtin_laws builtins pr \<longleftrightarrow>
     (\<forall>g w u w'. pr (GlobalRef g) [] w = Some (u, w') \<longrightarrow> builtin_means builtins pr g u)"

lemma rewrite_builtin_kept:
  assumes "\<And>v k u. map_of vg v = Some k \<Longrightarrow> e v = Some u \<Longrightarrow> builtin_means builtins pr k u"
  shows "kept (run_rv P pr n e w rv) (run_rv P pr n e w (rewrite_builtin_rvalue builtins vg rv))"
proof -
  have "kept (run_rv P pr n e w (CallClosure c args)) (run_rv P pr n e w (Call (Callee_Builtin tag ret) args))"
    "kept (run_rv P pr n e w (TailCall c args)) (run_rv P pr n e w (Call (Callee_Builtin tag ret) args))"
    if t: "via_global vg builtins c = Some (tag, ret)" for c args tag ret
  proof -
    from t obtain v g where v: "c = AVar v" "map_of vg v = Some g" "map_of builtins g = Some (tag, ret)"
      by (auto simp: via_global_Some)
    have "e v = None \<or> (\<exists>u. e v = Some u \<and> calls_as pr u (Call (Callee_Builtin tag ret)))"
      using assms v(2,3) by (cases "e v") (auto simp: builtin_means_def)
    then show "kept (run_rv P pr n e w (CallClosure c args)) (run_rv P pr n e w (Call (Callee_Builtin tag ret) args))"
      "kept (run_rv P pr n e w (TailCall c args)) (run_rv P pr n e w (Call (Callee_Builtin tag ret) args))"
      unfolding v(1) by (auto simp: call_unbound dispatch_rv_def eval_prim_def
        intro: call_as [where direct = "Call (Callee_Builtin tag ret)"])
  qed
  then show ?thesis by (cases rv) (auto simp: rewrite_builtin_rvalue_def split: option.splits)
qed

interpretation builtin: call_rewrite as_global rewrite_builtin_rvalue builtin_means "\<lambda>t P. builtin_laws t"
proof
  fix x rv k P n e u and pr :: "'a prim" and w w'
  assume "builtin_laws x pr" "as_global rv = Some k" "run_rv P pr n e w rv = Done (u, w')"
  then show "builtin_means x pr k u" by (auto simp: as_global_Some run_rv_GlobalRef or_stuck_Done builtin_laws_def)
qed (rule rewrite_builtin_kept)

definition ctor_means :: "unit \<Rightarrow> 'w prim \<Rightarrow> string \<times> nat \<Rightarrow> val \<Rightarrow> bool" where
  "ctor_means x pr c u \<longleftrightarrow> calls_as pr u (MakeVariant (fst c) (snd c))"

definition fold_rv :: "unit \<Rightarrow> (var_id \<times> string \<times> nat) list \<Rightarrow> rvalue \<Rightarrow> rvalue" where
  "fold_rv x = fold_rvalue"

lemma fold_rvalue_kept:
  assumes "\<And>v k u. map_of ctors v = Some k \<Longrightarrow> e v = Some u \<Longrightarrow> ctor_means x pr k u"
  shows "kept (run_rv P pr n e w rv) (run_rv P pr n e w (fold_rvalue ctors rv))"
proof -
  have "kept (run_rv P pr n e w (CallClosure c args)) (run_rv P pr n e w (MakeVariant nm t args))"
    "kept (run_rv P pr n e w (TailCall c args)) (run_rv P pr n e w (MakeVariant nm t args))"
    if t: "called_ctor ctors c = Some (nm, t)" for c args nm t
  proof -
    from t obtain v where v: "c = AVar v" "map_of ctors v = Some (nm, t)" by (cases c) (auto simp: called_ctor_def)
    have "e v = None \<or> (\<exists>u. e v = Some u \<and> calls_as pr u (MakeVariant nm t))"
      using assms v(2) by (cases "e v") (auto simp: ctor_means_def)
    then show "kept (run_rv P pr n e w (CallClosure c args)) (run_rv P pr n e w (MakeVariant nm t args))"
      "kept (run_rv P pr n e w (TailCall c args)) (run_rv P pr n e w (MakeVariant nm t args))"
      unfolding v(1) by (auto simp: call_unbound dispatch_rv_def eval_prim_def intro: call_as [where direct = "MakeVariant nm t"])
  qed
  then show ?thesis by (cases rv) (auto simp: fold_rvalue_def split: option.splits)
qed

interpretation ctor: call_rewrite as_ctor fold_rv ctor_means "\<lambda>x P. ctors_applied"
proof
  fix x rv k P n e u and pr :: "'a prim" and w w'
  assume "ctors_applied pr" "as_ctor rv = Some k" "run_rv P pr n e w rv = Done (u, w')"
  then show "ctor_means x pr k u"
    by (auto simp: as_ctor_Some run_rv_MakeVariantCtor or_stuck_Done ctors_applied_def ctor_means_def)
qed (simp add: fold_rv_def fold_rvalue_kept)

definition global_loads_pure :: "'w prim \<Rightarrow> bool" where
  "global_loads_pure pr \<longleftrightarrow> (\<forall>g w u w'. pr (GlobalRef g) [] w = Some (u, w') \<longrightarrow> w' = w)"

interpretation global_refs: dead_pruning is_global_ref global_loads_pure
proof
  fix pr :: "'a prim" and rv P n e w
  assume "global_loads_pure pr" "is_global_ref rv"
  then obtain g where "rv = GlobalRef g" "\<And>u w'. pr (GlobalRef g) [] w = Some (u, w') \<Longrightarrow> w' = w"
    by (auto simp: is_global_ref_iff global_loads_pure_def)
  then show "run_rv P pr n e w rv = Stuck \<or> (\<exists>u. run_rv P pr n e w rv = Done (u, w))"
    by (cases "pr (GlobalRef g) [] w") (auto simp: run_rv_GlobalRef)
qed

interpretation ctor_refs: dead_pruning is_ctor_ref ctors_applied
proof
  fix pr :: "'a prim" and rv P n e w
  assume "ctors_applied pr" "is_ctor_ref rv"
  then obtain nm t where "rv = MakeVariantCtor nm t" "\<And>u w'. pr (MakeVariantCtor nm t) [] w = Some (u, w') \<Longrightarrow> w' = w"
    by (auto simp: is_ctor_ref_iff ctors_applied_def)
  then show "run_rv P pr n e w rv = Stuck \<or> (\<exists>u. run_rv P pr n e w rv = Done (u, w))"
    by (cases "pr (MakeVariantCtor nm t) [] w") (auto simp: run_rv_MakeVariantCtor)
qed


section \<open>One run of a pass is enough\<close>

lemma via_global_cong:
  "(\<And>v. c = AVar v \<Longrightarrow> map_of vg v = map_of vg' v) \<Longrightarrow> via_global vg targets c = via_global vg' targets c"
  by (cases c) (auto simp: via_global_def)

interpretation direct_once: resolution as_global rewrite_rvalue is_global_ref
proof
  fix x vg vg' rv
  show "is_global_ref rv = (as_global rv \<noteq> None)" by (cases rv) (auto simp: is_global_ref_def as_global_def)
  show "is_global_ref rv \<Longrightarrow> operands rv = []" by (auto simp: is_global_ref_iff)
  show "as_global (rewrite_rvalue x vg rv) = as_global rv"
    by (cases rv) (auto simp: rewrite_rvalue_def as_global_def split: option.splits)
  show "rewrite_rvalue x vg (rewrite_rvalue x vg rv) = rewrite_rvalue x vg rv"
    by (cases rv) (auto simp: rewrite_rvalue_def split: option.splits)
  assume "\<And>v. AVar v \<in> set (operands rv) \<Longrightarrow> map_of vg v = map_of vg' v"
  then show "rewrite_rvalue x vg rv = rewrite_rvalue x vg' rv"
    by (cases rv) (auto simp: rewrite_rvalue_def cong: via_global_cong)
qed

interpretation builtin_once: resolution as_global rewrite_builtin_rvalue is_global_ref
proof
  fix x vg vg' rv
  show "is_global_ref rv = (as_global rv \<noteq> None)" by (rule direct_once.dead_iff)
  show "is_global_ref rv \<Longrightarrow> operands rv = []" by (rule direct_once.no_operands)
  show "as_global (rewrite_builtin_rvalue x vg rv) = as_global rv"
    by (cases rv) (auto simp: rewrite_builtin_rvalue_def as_global_def split: option.splits)
  show "rewrite_builtin_rvalue x vg (rewrite_builtin_rvalue x vg rv) = rewrite_builtin_rvalue x vg rv"
    by (cases rv) (auto simp: rewrite_builtin_rvalue_def split: option.splits)
  assume "\<And>v. AVar v \<in> set (operands rv) \<Longrightarrow> map_of vg v = map_of vg' v"
  then show "rewrite_builtin_rvalue x vg rv = rewrite_builtin_rvalue x vg' rv"
    by (cases rv) (auto simp: rewrite_builtin_rvalue_def cong: via_global_cong)
qed

lemma called_ctor_cong:
  "(\<And>v. c = AVar v \<Longrightarrow> map_of vg v = map_of vg' v) \<Longrightarrow> called_ctor vg c = called_ctor vg' c"
  by (cases c) (auto simp: called_ctor_def)

interpretation ctor_once: resolution as_ctor fold_rv is_ctor_ref
proof
  fix x vg vg' rv
  show "is_ctor_ref rv = (as_ctor rv \<noteq> None)" by (cases rv) (auto simp: is_ctor_ref_def as_ctor_def)
  show "is_ctor_ref rv \<Longrightarrow> operands rv = []" by (auto simp: is_ctor_ref_iff)
  show "as_ctor (fold_rv x vg rv) = as_ctor rv"
    by (cases rv) (auto simp: fold_rv_def fold_rvalue_def as_ctor_def split: option.splits)
  show "fold_rv x vg (fold_rv x vg rv) = fold_rv x vg rv"
    by (cases rv) (auto simp: fold_rv_def fold_rvalue_def split: option.splits)
  assume "\<And>v. AVar v \<in> set (operands rv) \<Longrightarrow> map_of vg v = map_of vg' v"
  then show "fold_rv x vg rv = fold_rv x vg' rv"
    by (cases rv) (auto simp: fold_rv_def fold_rvalue_def cong: called_ctor_cong)
qed

lemma resolve_direct_fn_parts: "resolve_direct_fn t f = global_refs.prune_fn () (direct.rewrite_fn t f)"
  and resolve_direct_fn_once: "resolve_direct_fn t f = direct_once.resolve_fn t f"
  by (simp_all add: resolve_direct_fn_def prune_dead_global_refs_def rewrite_block_def collect_var_globals_def
      global_refs.prune_fn_def direct.rewrite_fn_def direct_once.resolve_fn_def)

lemma resolve_builtin_fn_parts: "resolve_builtin_fn t f = global_refs.prune_fn () (builtin.rewrite_fn t f)"
  and resolve_builtin_fn_once: "resolve_builtin_fn t f = builtin_once.resolve_fn t f"
  by (simp_all add: resolve_builtin_fn_def prune_dead_global_refs_def rewrite_builtins_block_def collect_var_globals_def
      global_refs.prune_fn_def builtin.rewrite_fn_def builtin_once.resolve_fn_def)

text \<open>Without a constructor load the pass has nothing to do.\<close>

lemma fold_rvalue_Nil: "fold_rvalue [] rv = rv"
  by (cases rv) (auto simp: fold_rvalue_def called_ctor_def split: atom.splits)

lemma collect_Nil: "collect_loads load f = [] \<Longrightarrow> (v, rv) \<in> set (block_lets (body f)) \<Longrightarrow> load rv = None"
proof -
  assume c: "collect_loads load f = []" and p: "(v, rv) \<in> set (block_lets (body f))"
  have keep: "m \<noteq> [] \<Longrightarrow> fold (note_load load) ls m \<noteq> []" for ls m
  proof (induction ls arbitrary: m)
    case (Cons q ls)
    have "note_load load q m \<noteq> []" using Cons.prems by (cases m) (auto simp: note_load_def split: option.splits)
    then show ?case by (simp add: Cons.IH)
  qed simp
  have "p \<in> set ls \<Longrightarrow> load (snd p) = Some k \<Longrightarrow> fold (note_load load) ls m \<noteq> []" for p ls k m
  proof (induction ls arbitrary: m)
    case (Cons q ls)
    have "note_load load p m \<noteq> []" using Cons.prems(2) by (cases m) (auto simp: note_load_def)
    with Cons keep show ?case by auto
  qed simp
  from this [OF p] c show "load rv = None" by (cases "load rv") (auto simp: collect_loads_def)
qed

lemma retain_all:
  "\<forall>p \<in> set (block_lets b). K (Let (fst p) (snd p)) \<Longrightarrow> \<forall>k. K k \<or> (\<exists>v rv. k = Let v rv) \<Longrightarrow> retain_block K b = b"
  "\<forall>p \<in> set (stmt_lets k). K (Let (fst p) (snd p)) \<Longrightarrow> \<forall>k. K k \<or> (\<exists>v rv. k = Let v rv) \<Longrightarrow> K k \<and> retain_stmt K k = k"
  "\<forall>p \<in> set (cases_lets cs). K (Let (fst p) (snd p)) \<Longrightarrow> \<forall>k. K k \<or> (\<exists>v rv. k = Let v rv) \<Longrightarrow> retain_cases K cs = cs"
  "\<forall>p \<in> set (arms_lets arms). K (Let (fst p) (snd p)) \<Longrightarrow> \<forall>k. K k \<or> (\<exists>v rv. k = Let v rv) \<Longrightarrow> retain_arms K arms = arms"
  by (induction b and k and cs and arms rule: block_lets_stmt_lets_cases_lets_arms_lets.induct) auto

lemma fold_ctor_fn_once: "fold_ctor_fn f = ctor_once.resolve_fn () f"
proof (cases "collect_loads as_ctor f = []")
  case True
  have "map_block (fold_rv () []) (body f) = body f"
    by (rule map_block_id(1)) (simp add: fold_rv_def fold_rvalue_Nil)
  moreover have "retain_block (\<lambda>k. \<not> orphaned is_ctor_ref (used_vars f) k) (body f) = body f"
    using collect_Nil [OF True] ctor_once.dead_iff
    by (intro retain_all(1)) (auto simp: orphaned_def split: stmt_kind.splits)
  ultimately show ?thesis
    by (simp add: fold_ctor_fn_def collect_var_ctors_def True ctor_once.resolve_fn_def prune_def)
next
  case False
  then show ?thesis
    by (simp add: fold_ctor_fn_def collect_var_ctors_def ctor_once.resolve_fn_def prune_dead_ctor_refs_def
        fold_ctor_block_def fold_rv_def)
qed

lemma fold_ctor_fn_parts: "fold_ctor_fn f = ctor_refs.prune_fn () (ctor.rewrite_fn () f)"
  by (simp add: fold_ctor_fn_once ctor_once.resolve_fn_def ctor_refs.prune_fn_def ctor.rewrite_fn_def)

end
