(* ===== verification/ResolveSafe.thy ===== *)
theory ResolveSafe
  imports ResolveCorrect
begin

text \<open>
  The properties of ir/src/resolve.rs on whole programs.
\<close>

section \<open>Direct targets\<close>

lemma closure_returned_by_runs:
  assumes "closure_returned_by f = Some fid" and "exec_block P pr n e [] w (body f) = Done (Ret u, w')"
  shows "u = VClosure fid []"
proof -
  from assms(1) obtain s1 s2 v where b: "body f = [s1, s2]" "bound_closure (kind s1) = Some (v, fid)"
    "returned_atom (kind s2) = Some (AVar v)"
    by (auto simp: closure_returned_by_def split: list.splits option.splits if_splits)
  from b(2) have 1: "kind s1 = Let v (MakeClosure fid [])"
    by (auto simp: bound_closure_def closed_closure_def split: stmt_kind.splits rvalue.splits if_splits)
  from b(3) have 2: "kind s2 = Return (AVar v)" by (auto simp: returned_atom_def split: stmt_kind.splits)
  from assms(2) show ?thesis by (simp add: b(1) 1 2 run_rv.simps dispatch_rv_def eval_prim_def)
qed

lemma map_filter_member: "x \<in> set (List.map_filter f xs) \<longleftrightarrow> (\<exists>y \<in> set xs. f y = Some x)"
  by (induction xs) (auto simp: List.map_filter_simps split: option.splits)

lemma direct_target_Some:
  "direct_target p (i, gi) = Some (g, fid) \<Longrightarrow>
     \<exists>t. g = i \<and> gi = Thunk t \<and> t < length (prog_functions p) \<and> closure_returned_by (prog_functions p ! t) = Some fid"
  by (cases gi) (auto simp: direct_target_def split: if_splits)

lemma builtin_target_Some: "builtin_target (i, gi) = Some (g, tag, ret) \<Longrightarrow> g = i \<and> gi = PreEvaluated (PreBuiltin tag ret)"
  by (cases gi) (auto simp: builtin_target_def split: pre_eval.splits)

lemma direct_call_targets_sound:
  assumes "map_of (direct_call_targets p) g = Some fid"
  shows "\<exists>t. g < length (globals p) \<and> globals p ! g = Thunk t \<and> t < length (prog_functions p)
    \<and> closure_returned_by (prog_functions p ! t) = Some fid"
  using map_of_SomeD [OF assms]
  by (fastforce simp: direct_call_targets_def map_filter_member in_set_enumerate_eq dest: direct_target_Some)

lemma builtin_call_targets_sound:
  assumes "map_of (builtin_call_targets p) g = Some (tag, ret)"
  shows "g < length (globals p) \<and> globals p ! g = PreEvaluated (PreBuiltin tag ret)"
  using map_of_SomeD [OF assms]
  by (fastforce simp: builtin_call_targets_def map_filter_member in_set_enumerate_eq dest: builtin_target_Some)

lemma globals_loadedD:
  assumes "globals_loaded p pr" and "pr (GlobalRef g) [] w = Some (u, w')"
  shows "w' = w" and "g < length (globals p) \<Longrightarrow> holds_global p pr (globals p ! g) u"
  using assms unfolding globals_loaded_def by blast+

lemma direct_laws_targets: "globals_loaded p pr \<Longrightarrow> direct_laws (direct_call_targets p) pr"
  unfolding direct_laws_def direct_means_def
proof (intro allI impI)
  fix g w u w' fid
  assume l: "globals_loaded p pr" "pr (GlobalRef g) [] w = Some (u, w')" and "map_of (direct_call_targets p) g = Some fid"
  from direct_call_targets_sound [OF this(3)] obtain t where t: "g < length (globals p)" "globals p ! g = Thunk t"
    "t < length (prog_functions p)" "closure_returned_by (prog_functions p ! t) = Some fid" by blast
  from globals_loadedD(2) [OF l t(1)] obtain w0 w1 where "returns (prog_functions p) pr t [] [] w0 u w1"
    by (auto simp: holds_global_def t(2))
  then obtain n where "call (prog_functions p) pr n w0 t [] [] = Done (u, w1)" by (auto simp: returns_def)
  then show "u = VClosure fid []" by (rule call_DoneE) (rule closure_returned_by_runs [OF t(4)])
qed

lemma builtin_laws_targets: "globals_loaded p pr \<Longrightarrow> builtin_laws (builtin_call_targets p) pr"
  unfolding builtin_laws_def builtin_means_def
  using builtin_call_targets_sound globals_loadedD(2) by (fastforce simp: holds_global_def)

lemma global_loads_pureI: "globals_loaded p pr \<Longrightarrow> global_loads_pure pr"
  by (auto simp: global_loads_pure_def dest: globals_loadedD)

section \<open>Runs kept by each pass\<close>

lemma resolve_direct_kept:
  assumes "globals_loaded p pr" and "\<forall>f \<in> set (prog_functions p). loads_fixed as_global f"
  shows "kept (call (prog_functions p) pr n w g args caps) (call (prog_functions (resolve_direct_calls p)) pr n w g args caps)"
proof (cases "direct_call_targets p = []")
  case False
  let ?t = "direct_call_targets p"
  let ?P = "map (direct.rewrite_fn ?t) (prog_functions p)"
  have "kept (call (prog_functions p) pr n w g args caps) (call ?P pr n w g args caps)"
    by (rule direct.kept_call) (use assms in \<open>simp add: direct.ready_def direct_laws_targets\<close>)
  moreover have "kept (call ?P pr n w g args caps) (call (map (global_refs.prune_fn ()) ?P) pr n w g args caps)"
    by (rule global_refs.kept_call) (simp add: global_refs.prunable_def global_loads_pureI [OF assms(1)])
  ultimately have "kept (call (prog_functions p) pr n w g args caps) (call (map (global_refs.prune_fn ()) ?P) pr n w g args caps)"
    by (rule kept_trans)
  moreover have e: "map (global_refs.prune_fn ()) ?P = map (resolve_direct_fn ?t) (prog_functions p)"
    by (simp add: resolve_direct_fn_parts)
  ultimately show ?thesis unfolding e by (simp add: resolve_direct_calls_def False)
qed (simp add: resolve_direct_calls_def)

lemma resolve_builtins_kept:
  assumes "globals_loaded p pr" and "\<forall>f \<in> set (prog_functions p). loads_fixed as_global f"
  shows "kept (call (prog_functions p) pr n w g args caps) (call (prog_functions (resolve_builtins p)) pr n w g args caps)"
proof (cases "builtin_call_targets p = []")
  case False
  let ?t = "builtin_call_targets p"
  let ?P = "map (builtin.rewrite_fn ?t) (prog_functions p)"
  have "kept (call (prog_functions p) pr n w g args caps) (call ?P pr n w g args caps)"
    by (rule builtin.kept_call) (use assms in \<open>simp add: builtin.ready_def builtin_laws_targets\<close>)
  moreover have "kept (call ?P pr n w g args caps) (call (map (global_refs.prune_fn ()) ?P) pr n w g args caps)"
    by (rule global_refs.kept_call) (simp add: global_refs.prunable_def global_loads_pureI [OF assms(1)])
  ultimately have "kept (call (prog_functions p) pr n w g args caps) (call (map (global_refs.prune_fn ()) ?P) pr n w g args caps)"
    by (rule kept_trans)
  moreover have e: "map (global_refs.prune_fn ()) ?P = map (resolve_builtin_fn ?t) (prog_functions p)"
    by (simp add: resolve_builtin_fn_parts)
  ultimately show ?thesis unfolding e by (simp add: resolve_builtins_def False)
qed (simp add: resolve_builtins_def)

lemma fold_ctors_kept:
  assumes "ctors_applied pr" and "\<forall>f \<in> set (prog_functions p). loads_fixed as_ctor f"
  shows "kept (call (prog_functions p) pr n w g args caps) (call (prog_functions (fold_variant_ctor_calls p)) pr n w g args caps)"
proof -
  let ?P = "map (ctor.rewrite_fn ()) (prog_functions p)"
  have "kept (call (prog_functions p) pr n w g args caps) (call ?P pr n w g args caps)"
    by (rule ctor.kept_call) (use assms in \<open>simp add: ctor.ready_def\<close>)
  moreover have "kept (call ?P pr n w g args caps) (call (map (ctor_refs.prune_fn ()) ?P) pr n w g args caps)"
    by (rule ctor_refs.kept_call) (simp add: ctor_refs.prunable_def assms(1))
  ultimately have "kept (call (prog_functions p) pr n w g args caps) (call (map (ctor_refs.prune_fn ()) ?P) pr n w g args caps)"
    by (rule kept_trans)
  moreover have e: "map (ctor_refs.prune_fn ()) ?P = map fold_ctor_fn (prog_functions p)" by (simp add: fold_ctor_fn_parts)
  ultimately show ?thesis unfolding e by (simp add: fold_variant_ctor_calls_def)
qed

text \<open>What a pass keeps of the globals: a thunk that returned still returns its value.\<close>

lemma globals_loaded_kept:
  assumes "globals_loaded p pr" and "globals q = globals p"
    and "\<And>t w u w'. returns (prog_functions p) pr t [] [] w u w' \<Longrightarrow> returns (prog_functions q) pr t [] [] w u w'"
  shows "globals_loaded q pr"
proof -
  have "holds_global q pr gi u" if "holds_global p pr gi u" for gi u
    using that assms(3) by (cases gi) (fastforce simp: holds_global_def)+
  with assms(1) show ?thesis unfolding globals_loaded_def assms(2) by blast
qed

lemma kept_returns_all:
  "(\<And>n. kept (call P pr n w g args caps) (call P' pr n w g args caps)) \<Longrightarrow>
   returns P pr g args caps w v w' \<Longrightarrow> returns P' pr g args caps w v w'"
  unfolding returns_def kept_def by (metis res.distinct(5))

section \<open>Examples\<close>

text \<open>
  A program of an identity function, its thunk, and a caller that calls it and then a builtin
  through globals; with a world in which both globals are loaded.
\<close>

definition plain_fn :: "string \<Rightarrow> var_id list \<Rightarrow> stmt_kind list \<Rightarrow> ir_function" where
  "plain_fn nm ps ks =
     \<lparr>fn_name = nm, fn_module = ''m'', params = ps, captures = [], is_async = False, poll_fn = None,
      body = map synthetic ks, var_reprs = [], param_reprs = [], ret_repr = Boxed\<rparr>"

definition sample_caller :: ir_function where
  "sample_caller = plain_fn ''caller'' [0]
     [Let 1 (GlobalRef 0), Let 2 (CallClosure (AVar 1) [AVar 0]),
      Let 3 (GlobalRef 1), Let 4 (TailCall (AVar 3) [AVar 2]), Return (AVar 4)]"

definition sample_program :: ir_program where
  "sample_program =
     \<lparr>prog_functions =
        [plain_fn ''id'' [0] [Return (AVar 0)],
         plain_fn ''thunk'' [] [Let 0 (MakeClosure 0 []), Return (AVar 0)], sample_caller],
      globals = [Thunk 1, PreEvaluated (PreBuiltin ''show'' Boxed)], enums = [], entry = 2, test_suites = [],
      param_shapes = Map.empty, extra_nominal = Map.empty\<rparr>"

definition sample_prim :: "unit prim" where
  "sample_prim rv vs w =
     (case rv of
        GlobalRef g \<Rightarrow>
          if g = 0 then Some (VClosure 0 [], w) else if g = 1 then Some (VOther 1, w) else None
      | CallClosure c args \<Rightarrow> (case vs of [VOther n, v] \<Rightarrow> Some (VTuple [v], w) | _ \<Rightarrow> None)
      | TailCall c args \<Rightarrow> (case vs of [VOther n, v] \<Rightarrow> Some (VTuple [v], w) | _ \<Rightarrow> None)
      | Call c args \<Rightarrow> (case vs of [v] \<Rightarrow> Some (VTuple [v], w) | _ \<Rightarrow> None)
      | MakeVariantCtor n t \<Rightarrow> Some (VOther 2, w)
      | MakeVariant n t args \<Rightarrow> (case vs of [v] \<Rightarrow> Some (VTuple [v], w) | _ \<Rightarrow> None)
      | _ \<Rightarrow> None)"

lemma sample_calls_as:
  "calls_as sample_prim (VOther n) (Call c)" "calls_as sample_prim (VOther n) (MakeVariant nm t)"
  by (auto simp: calls_as_def sample_prim_def split: list.splits val.splits)

lemma sample_loaded: "globals_loaded sample_program sample_prim"
proof -
  have "call (prog_functions sample_program) sample_prim 2 () 1 [] [] = Done (VClosure 0 [], ())" by code_simp
  then have "returns (prog_functions sample_program) sample_prim 1 [] [] () (VClosure 0 []) ()" unfolding returns_def by blast
  then show ?thesis
    by (auto simp: globals_loaded_def sample_prim_def holds_global_def sample_program_def sample_calls_as [unfolded sample_prim_def]
        split: if_splits intro: sample_calls_as)
qed

lemma sample_fixed: "\<forall>f \<in> set (prog_functions sample_program). loads_fixed as_global f"
  by code_simp

lemma sample_ctors: "ctors_applied sample_prim"
  by (auto simp: ctors_applied_def intro: sample_calls_as) (auto simp: sample_prim_def intro: sample_calls_as)


section \<open>Properties\<close>





text \<open>
  Folding applied constructors keeps every call that does not get stuck, when a constructor's
  value, called, builds what the constructor builds.
\<close>

lemma fold_variant_ctor_calls_correct:
  assumes "ctors_applied pr" and "\<forall>f \<in> set (prog_functions p). loads_fixed as_ctor f"
    and "call (prog_functions p) pr n w g args caps \<noteq> Stuck"
  shows "call (prog_functions (fold_variant_ctor_calls p)) pr n w g args caps = call (prog_functions p) pr n w g args caps"
  using fold_ctors_kept [OF assms(1,2)] assms(3) by (simp add: kept_def)

definition ctor_program :: ir_program where
  "ctor_program = sample_program\<lparr>prog_functions :=
     [plain_fn ''build'' [0] [Let 1 (MakeVariantCtor ''m.tree'' 1), Let 2 (TailCall (AVar 1) [AVar 0]), Return (AVar 2)]]\<rparr>"

lemma fold_ctor_example:
  "map kind (body (prog_functions (fold_variant_ctor_calls ctor_program) ! 0)) =
       [Let 2 (MakeVariant ''m.tree'' 1 [AVar 0]), Return (AVar 2)]
     \<and> call (prog_functions (fold_variant_ctor_calls ctor_program)) sample_prim 1 () 0 [VInt 5] [] = Done (VTuple [VInt 5], ())"
proof -
  have c: "call (prog_functions ctor_program) sample_prim 1 () 0 [VInt 5] [] = Done (VTuple [VInt 5], ())" by code_simp
  have f: "\<forall>f \<in> set (prog_functions ctor_program). loads_fixed as_ctor f" by code_simp
  have "map kind (body (prog_functions (fold_variant_ctor_calls ctor_program) ! 0)) =
       [Let 2 (MakeVariant ''m.tree'' 1 [AVar 0]), Return (AVar 2)]" by code_simp
  with fold_variant_ctor_calls_correct [OF sample_ctors f, of 1 "()" 0 "[VInt 5]" "[]"] c show ?thesis by simp
qed

text \<open>
  Builtin resolution and constructor folding are idempotent, on every program.
\<close>

lemma resolution_idempotent:
  "resolve_builtins (resolve_builtins p) = resolve_builtins p
     \<and> fold_variant_ctor_calls (fold_variant_ctor_calls p) = fold_variant_ctor_calls p"
proof
  have "builtin_call_targets (resolve_builtins p) = builtin_call_targets p"
    by (simp add: resolve_builtins_def builtin_call_targets_def Let_def)
  then show "resolve_builtins (resolve_builtins p) = resolve_builtins p"
    by (simp add: resolve_builtins_def [of "resolve_builtins p"]) (simp add: resolve_builtins_def Let_def resolve_builtin_fn_once builtin_once.resolve_twice)
  show "fold_variant_ctor_calls (fold_variant_ctor_calls p) = fold_variant_ctor_calls p"
    by (simp add: fold_variant_ctor_calls_def fold_ctor_fn_once ctor_once.resolve_twice)
qed

text \<open>
  Direct-call resolution is idempotent for a fixed table of targets; but pruning a dead load can
  turn a thunk into a direct target, so that a second run resolves more.
\<close>

lemma resolve_direct_fn_idempotent: "resolve_direct_fn t (resolve_direct_fn t f) = resolve_direct_fn t f"
  by (simp add: resolve_direct_fn_once direct_once.resolve_twice)

lemma resolve_direct_calls_twice:
  "direct_call_targets (resolve_direct_calls p) = direct_call_targets p \<Longrightarrow>
   resolve_direct_calls (resolve_direct_calls p) = resolve_direct_calls p"
  by (simp add: resolve_direct_calls_def [of "resolve_direct_calls p"])
    (simp add: resolve_direct_calls_def Let_def resolve_direct_fn_idempotent)

definition late_target :: ir_program where
  "late_target = sample_program\<lparr>
     prog_functions := prog_functions sample_program @
       [plain_fn ''thunk2'' [] [Let 0 (GlobalRef 0), Let 1 (MakeClosure 0 []), Return (AVar 1)]],
     globals := [Thunk 1, Thunk 3]\<rparr>"

lemma resolve_direct_not_idempotent:
  "resolve_direct_calls (resolve_direct_calls late_target) \<noteq> resolve_direct_calls late_target"
proof
  assume e: "resolve_direct_calls (resolve_direct_calls late_target) = resolve_direct_calls late_target"
  have "length (body (prog_functions (resolve_direct_calls (resolve_direct_calls late_target)) ! 2)) = 3"
    and "length (body (prog_functions (resolve_direct_calls late_target) ! 2)) = 4" by code_simp+
  then show False unfolding e by simp
qed

end
