(* ===== verification/Mono.thy ===== *)
theory Mono
  imports Passes
begin

text \<open>
  Record-shape monomorphization, wasm/src/mono.rs: a function that reads a parameter as a record
  is cloned for the record shapes its direct calls pass, and those calls go to the clone.
\<close>

type_synonym spec_key = "func_id \<times> record_shape option list"

definition MAX_CLONES_PER_FN :: nat where
  "MAX_CLONES_PER_FN = 8"

section \<open>Candidates\<close>

definition field_receiver :: "rvalue \<Rightarrow> var_id list" where
  "field_receiver rv = (case rv of GetField a n sh \<Rightarrow> atom_vars a | _ \<Rightarrow> [])"

definition is_record_pattern :: "pattern \<Rightarrow> bool" where
  "is_record_pattern p \<longleftrightarrow> (case p of PRecord fs rest sh \<Rightarrow> True | _ \<Rightarrow> False)"

fun record_reads :: "block \<Rightarrow> var_id list"
  and stmt_reads :: "stmt_kind \<Rightarrow> var_id list"
  and cases_reads :: "(i64 \<times> block) list \<Rightarrow> var_id list"
  and arms_reads :: "match_arm list \<Rightarrow> var_id list" where
  "record_reads [] = []"
| "record_reads (Stmt k r # ss) = stmt_reads k @ record_reads ss"
| "stmt_reads (Let v rv) = field_receiver rv"
| "stmt_reads (Discard rv) = field_receiver rv"
| "stmt_reads (If c t e) = record_reads t @ record_reads e"
| "stmt_reads (Switch c arms dflt) = cases_reads arms @ record_reads dflt"
| "stmt_reads (Match c arms) =
     (if \<exists>a \<in> set arms. is_record_pattern (arm_pattern a) then atom_vars c else []) @ arms_reads arms"
| "stmt_reads (Loop b) = record_reads b"
| "stmt_reads k = []"
| "cases_reads [] = []"
| "cases_reads ((i, b) # arms) = record_reads b @ cases_reads arms"
| "arms_reads [] = []"
| "arms_reads (MatchArm p b # arms) = record_reads b @ arms_reads arms"

definition candidate_params :: "ir_function \<Rightarrow> bool list" where
  "candidate_params f = map (\<lambda>v. v \<in> set (record_reads (body f))) (params f)"

definition candidate_entry :: "nat \<times> ir_function \<Rightarrow> (func_id \<times> bool list) option" where
  "candidate_entry fi =
     (let flags = candidate_params (snd fi) in if True \<in> set flags then Some (fst fi, flags) else None)"

definition spec_candidates :: "ir_program \<Rightarrow> (func_id \<times> bool list) list" where
  "spec_candidates p = List.map_filter candidate_entry (enumerate 0 (prog_functions p))"

section \<open>The shapes of the arguments\<close>

definition as_record :: "rvalue \<Rightarrow> record_shape option" where
  "as_record rv =
     (case rv of
        MakeRecord fs shape \<Rightarrow> Some (case shape of Some s \<Rightarrow> s | None \<Rightarrow> boxed_from_names (map fst fs))
      | _ \<Rightarrow> None)"

definition makerecord_shapes :: "ir_function \<Rightarrow> (var_id \<times> record_shape) list" where
  "makerecord_shapes f = collect_loads as_record f"

definition arg_shape :: "(var_id \<times> record_shape) list \<Rightarrow> atom list \<Rightarrow> nat \<times> bool \<Rightarrow> record_shape option" where
  "arg_shape mr args iw =
     (if snd iw \<and> fst iw < length args
      then (case args ! fst iw of AVar v \<Rightarrow> map_of mr v | AConst c \<Rightarrow> None) else None)"

definition key_for_call ::
    "func_id \<Rightarrow> atom list \<Rightarrow> (func_id \<times> bool list) list \<Rightarrow> (var_id \<times> record_shape) list \<Rightarrow> spec_key option" where
  "key_for_call callee args cands mr =
     (case map_of cands callee of
        None \<Rightarrow> None
      | Some flags \<Rightarrow>
          (let shapes = map (arg_shape mr args) (enumerate 0 flags)
           in if \<exists>s \<in> set shapes. s \<noteq> None then Some (callee, shapes) else None))"

text \<open>The function a direct call names, and its arguments.\<close>

definition direct_call :: "rvalue \<Rightarrow> (func_id \<times> atom list) option" where
  "direct_call rv =
     (case rv of
        Call c args \<Rightarrow> (case c of Callee_Function fid \<Rightarrow> Some (fid, args) | _ \<Rightarrow> None)
      | TailCallDirect fid args \<Rightarrow> Some (fid, args)
      | _ \<Rightarrow> None)"

definition call_key :: "(func_id \<times> bool list) list \<Rightarrow> (var_id \<times> record_shape) list \<Rightarrow> rvalue \<Rightarrow> spec_key option" where
  "call_key cands mr rv =
     (case direct_call rv of Some (fid, args) \<Rightarrow> key_for_call fid args cands mr | None \<Rightarrow> None)"

section \<open>Discovery\<close>

record discovery =
  spec_clones :: "(spec_key \<times> func_id) list"
  spec_list :: "spec_key list"
  per_src :: "(func_id \<times> nat) list"

definition count_of :: "(func_id \<times> nat) list \<Rightarrow> func_id \<Rightarrow> nat" where
  "count_of m src = (case map_of m src of Some n \<Rightarrow> n | None \<Rightarrow> 0)"

definition discover :: "nat \<Rightarrow> spec_key \<Rightarrow> discovery \<Rightarrow> discovery" where
  "discover n0 key d =
     (if map_of (spec_clones d) key \<noteq> None then d
      else let cnt = count_of (per_src d) (fst key)
        in if cnt \<ge> MAX_CLONES_PER_FN then d\<lparr>per_src := AList.update (fst key) cnt (per_src d)\<rparr>
           else d\<lparr>spec_clones := AList.update key (n0 + length (spec_list d)) (spec_clones d),
                  spec_list := spec_list d @ [key],
                  per_src := AList.update (fst key) (cnt + 1) (per_src d)\<rparr>)"

definition collect_keys ::
    "nat \<Rightarrow> (func_id \<times> bool list) list \<Rightarrow> (var_id \<times> record_shape) list \<Rightarrow> block \<Rightarrow> discovery \<Rightarrow> discovery" where
  "collect_keys n0 cands mr b = fold (discover n0) (List.map_filter (call_key cands mr) (block_rvs b))"

definition discover_all :: "ir_program \<Rightarrow> (func_id \<times> bool list) list \<Rightarrow> discovery" where
  "discover_all p cands =
     fold (\<lambda>f. collect_keys (length (prog_functions p)) cands (makerecord_shapes f) (body f)) (prog_functions p)
       \<lparr>spec_clones = [], spec_list = [], per_src = []\<rparr>"

section \<open>Cloning and rewriting\<close>

definition make_clone :: "ir_program \<Rightarrow> nat \<times> spec_key \<Rightarrow> ir_function" where
  "make_clone p ik =
     (let f = prog_functions p ! fst (snd ik)
      in f\<lparr>fn_name := fn_name f @ ''$shape'' @ decimal (length (prog_functions p) + fst ik)\<rparr>)"

definition rewrite_call ::
    "(func_id \<times> bool list) list \<Rightarrow> (spec_key \<times> func_id) list \<Rightarrow> (var_id \<times> record_shape) list \<Rightarrow> rvalue \<Rightarrow> rvalue" where
  "rewrite_call cands clones mr rv =
     (case Option.bind (call_key cands mr rv) (map_of clones) of
        None \<Rightarrow> rv
      | Some c \<Rightarrow>
          (case rv of Call f args \<Rightarrow> Call (Callee_Function c) args
           | TailCallDirect f args \<Rightarrow> TailCallDirect c args
           | _ \<Rightarrow> rv))"

definition rewrite_calls_fn ::
    "(func_id \<times> bool list) list \<Rightarrow> (spec_key \<times> func_id) list \<Rightarrow> ir_function \<Rightarrow> ir_function" where
  "rewrite_calls_fn cands clones f = f\<lparr>body := map_block (rewrite_call cands clones (makerecord_shapes f)) (body f)\<rparr>"

definition with_clones :: "ir_program \<Rightarrow> discovery \<Rightarrow> ir_function list" where
  "with_clones p d = prog_functions p @ map (make_clone p) (enumerate 0 (spec_list d))"

definition clone_shapes :: "nat \<Rightarrow> discovery \<Rightarrow> (func_id \<times> record_shape option list) list" where
  "clone_shapes n0 d = map (\<lambda>(i, k). (n0 + i, snd k)) (enumerate 0 (spec_list d))"

definition specialize_record_shapes :: "ir_program \<Rightarrow> ir_program \<times> (func_id \<times> record_shape option list) list" where
  "specialize_record_shapes p =
     (let cands = spec_candidates p
      in if cands = [] then (p, [])
         else let d = discover_all p cands
           in if spec_list d = [] then (p, [])
              else (p\<lparr>prog_functions := map (rewrite_calls_fn cands (spec_clones d)) (with_clones p d)\<rparr>,
                    clone_shapes (length (prog_functions p)) d))"

end
