(* ===== verification/Scan.thy ===== *)
theory Scan
  imports Mono
begin

text \<open>
  The scans before emission, wasm/src/scan.rs: the pool of string and byte constants, the tags of
  builtins and constructors that variables hold, the vars whose records are nominal, and small
  predicates on bodies. A string is the list of the bytes of its UTF-8 text, a character each.
\<close>

section \<open>The constant pool\<close>

record str_pool =
  pool_bytes :: "8 word list"
  at_str :: "(string \<times> nat \<times> nat) list"
  at_bytes :: "(8 word list \<times> nat \<times> nat) list"

definition string_bytes :: "string \<Rightarrow> 8 word list" where
  "string_bytes s = map of_char s"

text \<open>Offsets and lengths are cast to \<open>u32\<close>.\<close>

definition as_u32 :: "nat \<Rightarrow> nat" where
  "as_u32 n = n mod 2 ^ 32"

definition intern_str :: "string \<Rightarrow> str_pool \<Rightarrow> str_pool" where
  "intern_str s pool =
     (case map_of (at_str pool) s of
        Some p \<Rightarrow> pool
      | None \<Rightarrow> pool\<lparr>pool_bytes := pool_bytes pool @ string_bytes s,
                   at_str := AList.update s (as_u32 (length (pool_bytes pool)), as_u32 (length (string_bytes s))) (at_str pool)\<rparr>)"

definition intern_bytes :: "8 word list \<Rightarrow> str_pool \<Rightarrow> str_pool" where
  "intern_bytes b pool =
     (case map_of (at_bytes pool) b of
        Some p \<Rightarrow> pool
      | None \<Rightarrow> pool\<lparr>pool_bytes := pool_bytes pool @ b,
                   at_bytes := AList.update b (as_u32 (length (pool_bytes pool)), as_u32 (length b)) (at_bytes pool)\<rparr>)"

definition scan_atom_string :: "atom \<Rightarrow> str_pool \<Rightarrow> str_pool" where
  "scan_atom_string a pool =
     (case a of
        AConst c \<Rightarrow>
          (case c of CStr s \<Rightarrow> intern_str s pool | CBytes b \<Rightarrow> intern_bytes b pool | _ \<Rightarrow> pool)
      | AVar v \<Rightarrow> pool)"

text \<open>\<open>for_each_atom\<close> visits the operands, left to right.\<close>

definition for_each_atom :: "rvalue \<Rightarrow> (atom \<Rightarrow> 's \<Rightarrow> 's) \<Rightarrow> 's \<Rightarrow> 's" where
  "for_each_atom rv f = fold f (operands rv)"

text \<open>The name after the last dot.\<close>

definition bare_enum :: "string \<Rightarrow> string" where
  "bare_enum s = rev (takeWhile (\<lambda>c. c \<noteq> CHR ''.'') (rev s))"

definition variant_display :: "string \<Rightarrow> nat \<Rightarrow> enum_table \<Rightarrow> string" where
  "variant_display enum_name tag es =
     (let variant = (case map_of es enum_name of
            Some vs \<Rightarrow> if tag < length vs then fst (vs ! tag) else ''?''
          | None \<Rightarrow> ''?'')
      in bare_enum enum_name @ ''.'' @ variant)"

text \<open>The names an rvalue needs besides its operands.\<close>

definition rvalue_names :: "enum_table \<Rightarrow> rvalue \<Rightarrow> string list" where
  "rvalue_names es rv =
     (case rv of
        MakeVariant enum_name tag args \<Rightarrow> [variant_display enum_name tag es]
      | MakeVariantCtor enum_name tag \<Rightarrow> [variant_display enum_name tag es]
      | MakeRecord fs shape \<Rightarrow> map fst fs
      | RecordUpdate b fs shape \<Rightarrow> map fst fs
      | GetField a n shape \<Rightarrow> [n]
      | _ \<Rightarrow> [])"

definition scan_rvalue_strings :: "enum_table \<Rightarrow> rvalue \<Rightarrow> str_pool \<Rightarrow> str_pool" where
  "scan_rvalue_strings es rv pool = fold intern_str (rvalue_names es rv) (for_each_atom rv scan_atom_string pool)"

fun scan_pattern_names :: "pattern \<Rightarrow> str_pool \<Rightarrow> str_pool" where
  "scan_pattern_names (PRecord fs rest shape) pool =
     fold (\<lambda>p pl. scan_pattern_names (snd p) (intern_str (fst p) pl)) fs pool"
| "scan_pattern_names (PVariant nm tag ps) pool = fold scan_pattern_names ps pool"
| "scan_pattern_names (PTuple ps) pool = fold scan_pattern_names ps pool"
| "scan_pattern_names (PList ps rest) pool = fold scan_pattern_names ps pool"
| "scan_pattern_names (PLiteral c) pool =
     (case c of CStr s \<Rightarrow> intern_str s pool | CBytes b \<Rightarrow> intern_bytes b pool | _ \<Rightarrow> pool)"
| "scan_pattern_names PWildcard pool = pool"
| "scan_pattern_names (PBind v) pool = pool"

fun scan_strings :: "enum_table \<Rightarrow> block \<Rightarrow> str_pool \<Rightarrow> str_pool"
  and scan_stmt_strings :: "enum_table \<Rightarrow> stmt_kind \<Rightarrow> str_pool \<Rightarrow> str_pool"
  and scan_cases_strings :: "enum_table \<Rightarrow> (i64 \<times> block) list \<Rightarrow> str_pool \<Rightarrow> str_pool"
  and scan_arms_strings :: "enum_table \<Rightarrow> match_arm list \<Rightarrow> str_pool \<Rightarrow> str_pool" where
  "scan_strings es [] pool = pool"
| "scan_strings es (Stmt k r # ss) pool = scan_strings es ss (scan_stmt_strings es k pool)"
| "scan_stmt_strings es (Let v rv) pool = scan_rvalue_strings es rv pool"
| "scan_stmt_strings es (Discard rv) pool = scan_rvalue_strings es rv pool"
| "scan_stmt_strings es (Return a) pool = scan_atom_string a pool"
| "scan_stmt_strings es (PushDefer a) pool = scan_atom_string a pool"
| "scan_stmt_strings es (If c t e) pool = scan_strings es e (scan_strings es t pool)"
| "scan_stmt_strings es (Switch c arms dflt) pool = scan_strings es dflt (scan_cases_strings es arms pool)"
| "scan_stmt_strings es (Match c arms) pool = scan_arms_strings es arms pool"
| "scan_stmt_strings es (Loop b) pool = scan_strings es b pool"
| "scan_stmt_strings es k pool = pool"
| "scan_cases_strings es [] pool = pool"
| "scan_cases_strings es ((i, b) # arms) pool = scan_cases_strings es arms (scan_strings es b pool)"
| "scan_arms_strings es [] pool = pool"
| "scan_arms_strings es (MatchArm p b # arms) pool =
     scan_arms_strings es arms (scan_strings es b (scan_pattern_names p pool))"

section \<open>Tags of variables\<close>

definition note_builtin :: "(nat \<times> string) list \<Rightarrow> rvalue \<Rightarrow> string option" where
  "note_builtin builtin_g rv = (case rv of GlobalRef g \<Rightarrow> map_of builtin_g g | _ \<Rightarrow> None)"

definition builtin_var_tags :: "(nat \<times> string) list \<Rightarrow> block \<Rightarrow> (var_id \<times> string) list" where
  "builtin_var_tags builtin_g b = fold (note_load (note_builtin builtin_g)) (block_lets b) []"

definition note_ctor :: "rvalue \<Rightarrow> (string \<times> nat) option" where
  "note_ctor rv = (case rv of MakeVariantCtor enum_name tag \<Rightarrow> Some (enum_name, tag) | _ \<Rightarrow> None)"

definition ctor_var_tags :: "block \<Rightarrow> (var_id \<times> string \<times> nat) list" where
  "ctor_var_tags b = fold (note_load note_ctor) (block_lets b) []"

definition called_tag :: "(var_id \<times> string) list \<Rightarrow> atom \<Rightarrow> string option" where
  "called_tag var_tags c = (case c of AVar v \<Rightarrow> map_of var_tags v | AConst k \<Rightarrow> None)"

definition callee_builtin_tag :: "(var_id \<times> string) list \<Rightarrow> rvalue \<Rightarrow> string option" where
  "callee_builtin_tag var_tags rv =
     (case rv of
        Call c args \<Rightarrow> (case c of Callee_Builtin tag ret \<Rightarrow> Some tag | _ \<Rightarrow> None)
      | CallClosure c args \<Rightarrow> called_tag var_tags c
      | TailCall c args \<Rightarrow> called_tag var_tags c
      | _ \<Rightarrow> None)"

text \<open>The tags \<open>f\<close> is called with, in order.\<close>

definition collect_host_calls :: "(nat \<times> string) list \<Rightarrow> block \<Rightarrow> string list" where
  "collect_host_calls builtin_g b = List.map_filter (callee_builtin_tag (builtin_var_tags builtin_g b)) (block_rvs b)"

section \<open>Nominal records\<close>

type_synonym nominal_map = "(var_id \<times> record_shape) list"

text \<open>The arguments at a callee's nominal parameters.\<close>

definition nominal_arg :: "atom list \<Rightarrow> nat \<times> record_shape option \<Rightarrow> var_id list" where
  "nominal_arg args ish =
     (if snd ish \<noteq> None \<and> fst ish < length args then atom_vars (args ! fst ish) else [])"

definition nominal_args :: "(func_id \<times> record_shape option list) list \<Rightarrow> rvalue \<Rightarrow> var_id list" where
  "nominal_args shapes rv =
     (case direct_call rv of
        None \<Rightarrow> []
      | Some (fid, args) \<Rightarrow>
          (case map_of shapes fid of None \<Rightarrow> [] | Some shs \<Rightarrow> concat (map (nominal_arg args) (enumerate 0 shs))))"

definition collect_nominal_param_args :: "(func_id \<times> record_shape option list) list \<Rightarrow> block \<Rightarrow> var_id list" where
  "collect_nominal_param_args shapes b = concat (map (nominal_args shapes) (block_rvs b))"

definition note_nominal :: "var_id list \<Rightarrow> var_id \<times> rvalue \<Rightarrow> nominal_map \<Rightarrow> nominal_map" where
  "note_nominal read p out =
     (case snd p of
        MakeRecord fs shape \<Rightarrow>
          (case shape of
             Some s \<Rightarrow> AList.update (fst p) s out
           | None \<Rightarrow> if fst p \<in> set read then AList.update (fst p) (boxed_from_names (map fst fs)) out else out)
      | RecordUpdate base fs shape \<Rightarrow>
          (case base of
             AVar b \<Rightarrow> (case map_of out b of Some s \<Rightarrow> AList.update (fst p) s out | None \<Rightarrow> out)
           | AConst c \<Rightarrow> out)
      | _ \<Rightarrow> out)"

definition collect_nominal_records :: "var_id list \<Rightarrow> block \<Rightarrow> nominal_map \<Rightarrow> nominal_map" where
  "collect_nominal_records read b = fold (note_nominal read) (block_lets b)"

definition nominal_param :: "var_id list \<Rightarrow> nat \<times> record_shape option \<Rightarrow> nominal_map \<Rightarrow> nominal_map" where
  "nominal_param ps ish out =
     (case snd ish of
        Some sh \<Rightarrow> if fst ish < length ps then AList.update (ps ! fst ish) sh out else out
      | None \<Rightarrow> out)"

definition compute_nominal ::
    "ir_function \<Rightarrow> func_id \<Rightarrow> (func_id \<times> record_shape option list) list
       \<Rightarrow> (func_id \<times> (var_id \<times> record_shape) list) list \<Rightarrow> nominal_map" where
  "compute_nominal f fid shapes extra =
     (let own = (case map_of shapes fid of
            Some shs \<Rightarrow> fold (nominal_param (params f)) (enumerate 0 shs) []
          | None \<Rightarrow> []);
          extras = (case map_of extra fid of
            Some es \<Rightarrow> fold (\<lambda>(v, sh). AList.update v sh) es own
          | None \<Rightarrow> own)
      in collect_nominal_records (collect_nominal_param_args shapes (body f)) (body f) extras)"

section \<open>Closures without parameters, defers\<close>

text \<open>\<open>p.functions[fid]\<close> panics out of range.\<close>

definition zero_arg_target :: "ir_program \<Rightarrow> rvalue \<Rightarrow> func_id list option" where
  "zero_arg_target p rv =
     (case rv of
        MakeClosure fid args \<Rightarrow>
          Option.bind (vec_get (prog_functions p) fid) (\<lambda>f. Some (if params f = [] then [fid] else []))
      | _ \<Rightarrow> Some [])"

definition collect_zero_arg_closures :: "ir_program \<Rightarrow> block \<Rightarrow> func_id list \<Rightarrow> func_id list option" where
  "collect_zero_arg_closures p b out =
     fold_opt (\<lambda>acc rv. map_option ((@) acc) (zero_arg_target p rv)) out (block_rvs b)"

fun block_has_pushdefer :: "block \<Rightarrow> bool"
  and stmt_has_pushdefer :: "stmt_kind \<Rightarrow> bool"
  and cases_have_pushdefer :: "(i64 \<times> block) list \<Rightarrow> bool"
  and arms_have_pushdefer :: "match_arm list \<Rightarrow> bool" where
  "block_has_pushdefer [] = False"
| "block_has_pushdefer (Stmt k r # ss) = (stmt_has_pushdefer k \<or> block_has_pushdefer ss)"
| "stmt_has_pushdefer (PushDefer a) = True"
| "stmt_has_pushdefer (If c t e) = (block_has_pushdefer t \<or> block_has_pushdefer e)"
| "stmt_has_pushdefer (Switch c arms dflt) = (cases_have_pushdefer arms \<or> block_has_pushdefer dflt)"
| "stmt_has_pushdefer (Match c arms) = arms_have_pushdefer arms"
| "stmt_has_pushdefer (Loop b) = block_has_pushdefer b"
| "stmt_has_pushdefer k = False"
| "cases_have_pushdefer [] = False"
| "cases_have_pushdefer ((i, b) # arms) = (block_has_pushdefer b \<or> cases_have_pushdefer arms)"
| "arms_have_pushdefer [] = False"
| "arms_have_pushdefer (MatchArm p b # arms) = (block_has_pushdefer b \<or> arms_have_pushdefer arms)"

end
