(* ===== verification/MonoCorrect.thy ===== *)
theory MonoCorrect
  imports Mono
begin

text \<open>
  Record-shape monomorphization keeps every run, adds a bounded number of clones, and directs to
  a clone only calls that pass records of its shapes.
\<close>

section \<open>Rewriting rvalues anywhere\<close>

definition rv_kept :: "(rvalue \<Rightarrow> rvalue) \<Rightarrow> ir_function list \<Rightarrow> 'w prim \<Rightarrow> bool" where
  "rv_kept g P pr \<longleftrightarrow> (\<forall>n e w rv. kept (run_rv P pr n e w rv) (run_rv P pr n e w (g rv)))"

interpretation anywhere: call_rewrite "\<lambda>rv. None :: unit option" "\<lambda>g vg. g" "\<lambda>g pr k u. True" rv_kept
  by unfold_locales (auto simp: rv_kept_def)

lemma map_block_kept:
  assumes "calls_kept P P' pr n" and "rv_kept g P pr"
  shows "kept (exec_block P pr n e ds w b) (exec_block P' pr n e ds w (map_block g b))"
  using anywhere.rewrite_block(1) [OF assms order_refl, of "[]" b e ds w]
  by (simp add: anywhere.fixed_def anywhere.known_def)

definition map_fn :: "(ir_function \<Rightarrow> rvalue \<Rightarrow> rvalue) \<Rightarrow> ir_function \<Rightarrow> ir_function" where
  "map_fn g f = f\<lparr>body := map_block (g f) (body f)\<rparr>"

interpretation rv_pass: improving_pass map_fn "\<lambda>g P pr f. rv_kept (g f) P pr"
  by unfold_locales (auto simp: map_fn_def body_exit_def intro!: kept_bind map_block_kept)

text \<open>Functions added at the end change no call.\<close>

lemma exec_block_kept: "calls_kept P P' pr n \<Longrightarrow> kept (exec_block P pr n e ds w b) (exec_block P' pr n e ds w b)"
  using map_block_kept [of P P' pr n id e ds w b] by (simp add: rv_kept_def map_block_id(1))

lemma append_kept: "kept (call P pr n w g args caps) (call (P @ R) pr n w g args caps)"
proof (induction n arbitrary: w g args caps rule: less_induct)
  case (less n)
  show ?case
  proof (cases n)
    case (Suc m)
    have "calls_kept P (P @ R) pr m" unfolding calls_kept_def using less.IH Suc by (simp add: less_Suc_eq_le)
    then show ?thesis
      by (auto simp: Suc call.simps [of _ _ "Suc m"] nth_append split: option.splits intro!: kept_bind exec_block_kept)
  qed (simp add: call.simps)
qed

text \<open>A function with the same parameters, captures and body runs alike.\<close>

lemma call_alike:
  assumes "f < length Q" "g < length Q" "params (Q ! g) = params (Q ! f)" "captures (Q ! g) = captures (Q ! f)"
    "body (Q ! g) = body (Q ! f)"
  shows "call Q pr n w g args caps = call Q pr n w f args caps"
  using assms by (simp add: call.simps frame_def split: nat.splits)

section \<open>Discovery\<close>

definition disc_ok :: "nat \<Rightarrow> (func_id \<times> bool list) list \<Rightarrow> discovery \<Rightarrow> bool" where
  "disc_ok n0 cands d \<longleftrightarrow>
     (\<forall>k c. map_of (spec_clones d) k = Some c \<longleftrightarrow> (\<exists>i < length (spec_list d). spec_list d ! i = k \<and> c = n0 + i)) \<and>
     (\<forall>src. count_of (per_src d) src = length (filter (\<lambda>k. fst k = src) (spec_list d))) \<and>
     (\<forall>src. length (filter (\<lambda>k. fst k = src) (spec_list d)) \<le> MAX_CLONES_PER_FN) \<and>
     (\<forall>k \<in> set (spec_list d). fst k \<in> fst ` set cands)"

lemma disc_ok_clones:
  "disc_ok n0 cands d \<Longrightarrow> map_of (spec_clones d) k = Some c \<longleftrightarrow> (\<exists>i < length (spec_list d). spec_list d ! i = k \<and> c = n0 + i)"
  unfolding disc_ok_def by blast

lemma disc_ok_counts:
  assumes "disc_ok n0 cands d"
  shows "count_of (per_src d) src = length (filter (\<lambda>k. fst k = src) (spec_list d))"
    and "length (filter (\<lambda>k. fst k = src) (spec_list d)) \<le> MAX_CLONES_PER_FN"
    and "fst ` set (spec_list d) \<subseteq> fst ` set cands"
  using assms unfolding disc_ok_def by blast+

lemma count_of_update: "count_of (AList.update k n m) s = (if s = k then n else count_of m s)"
  by (simp add: count_of_def update_conv')

lemma disc_ok_discover:
  assumes "disc_ok n0 cands d" and "fst key \<in> fst ` set cands"
  shows "disc_ok n0 cands (discover n0 key d)"
proof (cases "map_of (spec_clones d) key = None \<and> count_of (per_src d) (fst key) < MAX_CLONES_PER_FN")
  case True
  let ?n = "length (spec_list d)"
  have new: "discover n0 key d = d\<lparr>spec_clones := AList.update key (n0 + ?n) (spec_clones d), spec_list := spec_list d @ [key],
      per_src := AList.update (fst key) (count_of (per_src d) (fst key) + 1) (per_src d)\<rparr>"
    using True by (auto simp: discover_def Let_def)
  from assms(1) True have fresh: "i < ?n \<Longrightarrow> spec_list d ! i \<noteq> key" for i
    using disc_ok_clones by (metis option.distinct(1))
  have "(if k = key then Some (n0 + ?n) else map_of (spec_clones d) k) = Some c
      \<longleftrightarrow> (\<exists>i < Suc ?n. (spec_list d @ [key]) ! i = k \<and> c = n0 + i)" for k c
  proof (cases "k = key")
    case True
    have "(spec_list d @ [key]) ! i = key \<longleftrightarrow> i = ?n" if "i < Suc ?n" for i
      using that fresh by (auto simp: nth_append)
    with True show ?thesis by auto
  next
    case False
    have "(\<exists>i < Suc ?n. (spec_list d @ [key]) ! i = k \<and> c = n0 + i) \<longleftrightarrow> (\<exists>i < ?n. spec_list d ! i = k \<and> c = n0 + i)"
      using False by (auto simp: nth_append less_Suc_eq)
    with False disc_ok_clones [OF assms(1), of k c] show ?thesis by simp
  qed
  moreover have "Suc (length (filter (\<lambda>k. fst k = fst key) (spec_list d))) \<le> MAX_CLONES_PER_FN"
    using True by (simp add: disc_ok_counts(1) [OF assms(1)])
  moreover have "\<forall>k \<in> set (spec_list d @ [key]). fst k \<in> fst ` set cands"
    using disc_ok_counts(3) [OF assms(1)] assms(2) by auto
  ultimately show ?thesis unfolding disc_ok_def new
    by (simp add: update_conv' count_of_update disc_ok_counts(1,2) [OF assms(1)])
next
  case False
  then have "discover n0 key d = d \<or> discover n0 key d = d\<lparr>per_src := AList.update (fst key) (count_of (per_src d) (fst key)) (per_src d)\<rparr>"
    by (auto simp: discover_def Let_def)
  moreover have "count_of (AList.update (fst key) (count_of (per_src d) (fst key)) (per_src d)) src = count_of (per_src d) src" for src
    by (simp add: count_of_update)
  ultimately show ?thesis using assms(1) by (elim disjE) (simp_all add: disc_ok_def)
qed

lemma disc_ok_fold:
  "disc_ok n0 cands d \<Longrightarrow> \<forall>k \<in> set ks. fst k \<in> fst ` set cands \<Longrightarrow> disc_ok n0 cands (fold (discover n0) ks d)"
  by (induction ks arbitrary: d) (auto intro: disc_ok_discover)

lemma key_for_call_Some:
  assumes "key_for_call callee args cands mr = Some k"
  shows "\<exists>flags. map_of cands callee = Some flags \<and> k = (callee, map (arg_shape mr args) (enumerate 0 flags))"
  using assms by (auto simp: key_for_call_def Let_def split: option.splits if_splits)

lemma call_key_fst: "call_key cands mr rv = Some k \<Longrightarrow> fst k \<in> fst ` set cands"
  by (force simp: call_key_def split: option.splits dest!: key_for_call_Some dest: map_of_SomeD)

lemma collect_keys_ok: "disc_ok n0 cands d \<Longrightarrow> disc_ok n0 cands (collect_keys n0 cands mr b d)"
proof -
  assume "disc_ok n0 cands d"
  moreover have "\<forall>k \<in> set (List.map_filter (call_key cands mr) rvs). fst k \<in> fst ` set cands" for rvs
    by (induction rvs) (auto simp: List.map_filter_simps call_key_fst split: option.splits)
  ultimately show ?thesis unfolding collect_keys_def by (rule disc_ok_fold)
qed

lemma discover_all_ok: "disc_ok (length (prog_functions p)) cands (discover_all p cands)"
proof -
  have "disc_ok n0 cands d \<Longrightarrow> disc_ok n0 cands (fold (\<lambda>f. collect_keys n0 cands (makerecord_shapes f) (body f)) fs d)" for n0 fs d
    by (induction fs arbitrary: d) (auto intro: collect_keys_ok)
  moreover have "disc_ok (length (prog_functions p)) cands \<lparr>spec_clones = [], spec_list = [], per_src = []\<rparr>"
    by (simp add: disc_ok_def count_of_def MAX_CLONES_PER_FN_def)
  ultimately show ?thesis by (simp add: discover_all_def)
qed

lemma spec_candidates_range: "fst ` set (spec_candidates p) \<subseteq> {..<length (prog_functions p)}"
proof -
  have "x \<in> set (List.map_filter candidate_entry xs) \<Longrightarrow> \<exists>y \<in> set xs. fst x = fst y" for x xs
    by (induction xs) (auto simp: List.map_filter_simps candidate_entry_def Let_def split: if_splits)
  then show ?thesis by (fastforce simp: spec_candidates_def in_set_enumerate_eq)
qed

text \<open>A clone is its source under another name.\<close>

lemma with_clones_nth:
  assumes "disc_ok (length (prog_functions p)) cands d" and "fst ` set cands \<subseteq> {..<length (prog_functions p)}"
    and "map_of (spec_clones d) (src, shs) = Some c"
  shows "src < length (prog_functions p)" and "c < length (with_clones p d)" and "length (prog_functions p) \<le> c"
    and "with_clones p d ! c = (prog_functions p ! src)\<lparr>fn_name := fn_name (prog_functions p ! src) @ ''$shape'' @ decimal c\<rparr>"
    and "with_clones p d ! src = prog_functions p ! src"
proof -
  from assms(1,3) obtain i where i: "i < length (spec_list d)" "spec_list d ! i = (src, shs)" "c = length (prog_functions p) + i"
    unfolding disc_ok_def by blast
  then have "(src, shs) \<in> set (spec_list d)" by (metis nth_mem)
  with assms(1,2) show src: "src < length (prog_functions p)" by (fastforce simp: disc_ok_def)
  from i show "c < length (with_clones p d)" "length (prog_functions p) \<le> c" by (simp_all add: with_clones_def)
  from i show "with_clones p d ! c = (prog_functions p ! src)\<lparr>fn_name := fn_name (prog_functions p ! src) @ ''$shape'' @ decimal c\<rparr>"
    by (simp add: with_clones_def nth_append nth_enumerate_eq make_clone_def Let_def)
  from src show "with_clones p d ! src = prog_functions p ! src" by (simp add: with_clones_def nth_append)
qed

section \<open>Calls of clones\<close>

lemma run_rv_direct:
  assumes "direct_call rv = Some (f, args)"
  shows "run_rv Q pr n e w rv = (case eval_atoms e args of None \<Rightarrow> Stuck | Some vs \<Rightarrow> call Q pr n w f vs [])"
  using assms
  by (cases rv) (auto simp: direct_call_def run_rv.simps dispatch_rv_def split: callee.splits option.splits)

lemma rewrite_call_cases:
  obtains "rewrite_call cands clones mr rv = rv"
  | f args c k where "direct_call rv = Some (f, args)" "key_for_call f args cands mr = Some k" "map_of clones k = Some c"
      "direct_call (rewrite_call cands clones mr rv) = Some (c, args)"
proof (cases "Option.bind (call_key cands mr rv) (map_of clones)")
  case (Some c)
  then obtain k where k: "call_key cands mr rv = Some k" "map_of clones k = Some c" by (auto simp: bind_Some_iff)
  from k(1) obtain f args where f: "direct_call rv = Some (f, args)" "key_for_call f args cands mr = Some k"
    by (auto simp: call_key_def split: option.splits)
  moreover from f(1) Some have "direct_call (rewrite_call cands clones mr rv) = Some (c, args)"
    by (cases rv) (auto simp: direct_call_def rewrite_call_def split: callee.splits)
  ultimately show ?thesis using that(2) k(2) by blast
qed (use that(1) in \<open>simp add: rewrite_call_def\<close>)

lemma rewrite_call_kept:
  assumes "disc_ok (length (prog_functions p)) cands d" and "fst ` set cands \<subseteq> {..<length (prog_functions p)}"
  shows "rv_kept (rewrite_call cands (spec_clones d) mr) (with_clones p d) pr"
  unfolding rv_kept_def
proof (intro allI)
  fix n e w rv
  let ?Q = "with_clones p d"
  show "kept (run_rv ?Q pr n e w rv) (run_rv ?Q pr n e w (rewrite_call cands (spec_clones d) mr rv))"
  proof (cases rule: rewrite_call_cases [of cands "spec_clones d" mr rv])
    case (2 f args c k)
    from key_for_call_Some [OF 2(2)] obtain shs where k: "k = (f, shs)" by blast
    note s = with_clones_nth [OF assms 2(3) [unfolded k]]
    have "call ?Q pr n w c vs [] = call ?Q pr n w f vs []" for vs
      by (rule call_alike) (use s in \<open>simp_all add: with_clones_def\<close>)
    then have "run_rv ?Q pr n e w (rewrite_call cands (spec_clones d) mr rv) = run_rv ?Q pr n e w rv"
      by (simp add: run_rv_direct [OF 2(1)] run_rv_direct [OF 2(4)] cong: option.case_cong)
    then show ?thesis by simp
  qed simp
qed

lemma specialize_kept:
  "kept (call (prog_functions p) pr n w g args caps) (call (prog_functions (fst (specialize_record_shapes p))) pr n w g args caps)"
proof -
  let ?c = "spec_candidates p" let ?d = "discover_all p ?c"
  let ?g = "\<lambda>f. rewrite_call ?c (spec_clones ?d) (makerecord_shapes f)"
  have "kept (call (prog_functions p) pr n w g args caps) (call (with_clones p ?d) pr n w g args caps)"
    unfolding with_clones_def by (rule append_kept)
  moreover have "kept (call (with_clones p ?d) pr n w g args caps) (call (map (map_fn ?g) (with_clones p ?d)) pr n w g args caps)"
    by (rule rv_pass.kept_call) (use rewrite_call_kept [OF discover_all_ok spec_candidates_range] in blast)
  ultimately have "kept (call (prog_functions p) pr n w g args caps) (call (map (map_fn ?g) (with_clones p ?d)) pr n w g args caps)"
    by (rule kept_trans)
  moreover have "map (map_fn ?g) (with_clones p ?d) = map (rewrite_calls_fn ?c (spec_clones ?d)) (with_clones p ?d)"
    by (simp add: map_fn_def rewrite_calls_fn_def)
  ultimately show ?thesis by (simp add: specialize_record_shapes_def Let_def)
qed


section \<open>Properties\<close>

text \<open>
  C11. Record-shape monomorphization changes no run: a call of a function of the program that
  does not get stuck has the same result, or exhausts the same fuel, in the program with clones.
\<close>

theorem specialize_correct:
  assumes "call (prog_functions p) pr n w g args caps \<noteq> Stuck"
  shows "call (prog_functions (fst (specialize_record_shapes p))) pr n w g args caps = call (prog_functions p) pr n w g args caps"
  using specialize_kept [of p pr n w g args caps] assms by (simp add: kept_def)

lemma length_by_fst:
  "fst ` set ks \<subseteq> {..<n} \<Longrightarrow> \<forall>src. length (filter (\<lambda>k. fst k = src) ks) \<le> m \<Longrightarrow> length ks \<le> m * n"
proof (induction n arbitrary: ks)
  case (Suc n)
  have "length ks = length (filter (\<lambda>k. fst k = n) ks) + length (filter (\<lambda>k. fst k \<noteq> n) ks)"
    by (simp add: sum_length_filter_compl)
  moreover have "length (filter (\<lambda>k. fst k \<noteq> n) ks) \<le> m * n"
  proof (rule Suc.IH)
    show "fst ` set (filter (\<lambda>k. fst k \<noteq> n) ks) \<subseteq> {..<n}" using Suc.prems(1) by (auto simp: less_Suc_eq image_subset_iff)
    have "length (filter (\<lambda>k. fst k = src) (filter (\<lambda>k. fst k \<noteq> n) ks)) \<le> length (filter (\<lambda>k. fst k = src) ks)" for src
      by (induction ks) auto
    with Suc.prems(2) show "\<forall>src. length (filter (\<lambda>k. fst k = src) (filter (\<lambda>k. fst k \<noteq> n) ks)) \<le> m"
      using le_trans by blast
  qed
  moreover have "length (filter (\<lambda>k. fst k = n) ks) \<le> m" using Suc.prems(2) by blast
  ultimately show ?case by simp
qed simp

text \<open>
  The function at \<open>c\<close> of the output is a clone of the one at \<open>src\<close>: the same in everything, its calls
  rewritten alike, but the name.
\<close>

definition clone_of :: "ir_program \<Rightarrow> ir_program \<Rightarrow> func_id \<Rightarrow> func_id \<Rightarrow> bool" where
  "clone_of p q c src \<longleftrightarrow> src < length (prog_functions p)
     \<and> prog_functions q ! c =
         (prog_functions q ! src)\<lparr>fn_name := fn_name (prog_functions p ! src) @ ''$shape'' @ decimal c\<rparr>"

lemma makerecord_shapes_body: "body g = body f \<Longrightarrow> makerecord_shapes g = makerecord_shapes f"
  by (simp add: makerecord_shapes_def collect_loads_def)

lemma clones_at:
  assumes "i < length (spec_list d)" and "fst (spec_list d ! i) < length (prog_functions p)"
  shows "clone_of p (p\<lparr>prog_functions := map (rewrite_calls_fn cands cl) (with_clones p d)\<rparr>)
      (length (prog_functions p) + i) (fst (spec_list d ! i))"
proof -
  let ?f = "prog_functions p ! fst (spec_list d ! i)"
  have "makerecord_shapes (?f\<lparr>fn_name := nm\<rparr>) = makerecord_shapes ?f" for nm
    by (rule makerecord_shapes_body) simp
  with assms show ?thesis
    by (simp add: clone_of_def with_clones_def nth_append make_clone_def nth_enumerate_eq rewrite_calls_fn_def Let_def)
qed

lemma clones_counted:
  "card {c \<in> {n..<n + length ks}. fst (ks ! (c - n)) = src} = length (filter (\<lambda>k. fst k = src) ks)"
proof -
  have "{c \<in> {n..<n + length ks}. fst (ks ! (c - n)) = src} = (+) n ` {i. i < length ks \<and> fst (ks ! i) = src}"
    (is "?A = ?B")
  proof
    show "?A \<subseteq> ?B"
    proof
      fix c assume "c \<in> ?A"
      then show "c \<in> ?B" by (intro image_eqI [of _ _ "c - n"]) auto
    qed
  qed auto
  then show ?thesis by (simp add: card_image length_filter_conv_card)
qed

lemma clone_shapes_ids: "fst ` set (clone_shapes n d) = {n..<n + length (spec_list d)}"
proof -
  have "map fst (clone_shapes n d) = map ((+) n) [0..<length (spec_list d)]"
    by (rule nth_equalityI) (simp_all add: clone_shapes_def nth_enumerate_eq)
  then have "fst ` set (clone_shapes n d) = (+) n ` {0..<length (spec_list d)}" by (metis list.set_map set_upt)
  then show ?thesis by (simp add: add.commute)
qed

text \<open>
  C39. The code-size bound: every function the pass adds is a clone of one function of the program,
  of the same parameters, captures, signature and body but for its name, and each function has at
  most eight clones, whatever calls it; so there are at most nine times as many functions. The
  shapes handed to the emitter are those of the clones, no more.
\<close>

theorem specialize_bound:
  fixes p :: ir_program
  defines "n \<equiv> length (prog_functions p)" and "q \<equiv> fst (specialize_record_shapes p)"
  shows "\<exists>orig. (\<forall>c \<in> {n..<length (prog_functions q)}. clone_of p q c (orig c))
     \<and> (\<forall>src. card {c \<in> {n..<length (prog_functions q)}. orig c = src} \<le> 8)
     \<and> length (prog_functions q) \<le> 9 * n
     \<and> fst ` set (snd (specialize_record_shapes p)) = {n..<length (prog_functions q)}"
proof (cases "spec_candidates p = [] \<or> spec_list (discover_all p (spec_candidates p)) = []")
  case True
  then have "specialize_record_shapes p = (p, [])" by (auto simp: specialize_record_shapes_def Let_def)
  then show ?thesis by (simp add: n_def q_def)
next
  case False
  let ?c = "spec_candidates p" let ?d = "discover_all p ?c" let ?ks = "spec_list ?d"
  let ?orig = "\<lambda>c. fst (?ks ! (c - n))"
  note ok = discover_all_ok [of p ?c]
  have q: "q = p\<lparr>prog_functions := map (rewrite_calls_fn ?c (spec_clones ?d)) (with_clones p ?d)\<rparr>"
    and s: "snd (specialize_record_shapes p) = clone_shapes n ?d"
    using False by (simp_all add: specialize_record_shapes_def Let_def n_def q_def)
  then have m: "length (prog_functions q) = n + length ?ks" by (simp add: with_clones_def n_def)
  have r: "fst ` set ?ks \<subseteq> {..<n}"
    using disc_ok_counts(3) [OF ok] spec_candidates_range [of p] unfolding n_def by blast
  have "clone_of p q c (?orig c)" if "c \<in> {n..<length (prog_functions q)}" for c
  proof -
    from that m have i: "c - n < length ?ks" "n + (c - n) = c" by auto
    then have "?orig c < n" using r nth_mem by blast
    with clones_at [of "c - n" ?d p ?c "spec_clones ?d"] i show ?thesis by (simp add: q n_def)
  qed
  moreover have "card {c \<in> {n..<length (prog_functions q)}. ?orig c = src} \<le> 8" for src
    using disc_ok_counts(2) [OF ok, of src] unfolding m clones_counted MAX_CLONES_PER_FN_def .
  moreover have "length (prog_functions q) \<le> 9 * n"
    using length_by_fst [OF r, of 8] disc_ok_counts(2) [OF ok] by (simp add: m MAX_CLONES_PER_FN_def)
  ultimately show ?thesis by (intro exI [of _ ?orig]) (simp add: s m clone_shapes_ids)
qed

text \<open>
  What the emitter relies on: a call of a clone passes, for each parameter with a shape, a
  variable the caller binds to a record of that shape.
\<close>

lemma as_record_rewrite: "as_record (rewrite_call cands clones mr rv) = as_record rv"
  by (cases rv) (auto simp: rewrite_call_def as_record_def call_key_def direct_call_def split: option.splits)

lemma makerecord_shapes_rewrite: "makerecord_shapes (rewrite_calls_fn cands clones f) = makerecord_shapes f"
  by (auto simp: makerecord_shapes_def collect_loads_def rewrite_calls_fn_def lets_map as_record_rewrite intro!: collect_cong)

lemma clone_shapes_lookup:
  assumes "disc_ok n0 cands d" and "map_of (spec_clones d) k = Some c" and "map_of (clone_shapes n0 d) c = Some shs"
  shows "shs = snd k"
proof -
  from assms(1,2) obtain i where i: "i < length (spec_list d)" "spec_list d ! i = k" "c = n0 + i"
    by (auto simp: disc_ok_clones)
  from map_of_SomeD [OF assms(3)] obtain j where "j < length (spec_list d)" "c = n0 + j" "shs = snd (spec_list d ! j)"
    by (auto simp: clone_shapes_def in_set_enumerate_eq)
  with i show ?thesis by simp
qed

lemma with_clones_body: "f \<in> set (with_clones p d) \<Longrightarrow> disc_ok (length (prog_functions p)) cands d \<Longrightarrow>
    fst ` set cands \<subseteq> {..<length (prog_functions p)} \<Longrightarrow> \<exists>f0 \<in> set (prog_functions p). body f = body f0"
proof -
  assume f: "f \<in> set (with_clones p d)" and d: "disc_ok (length (prog_functions p)) cands d"
    "fst ` set cands \<subseteq> {..<length (prog_functions p)}"
  consider "f \<in> set (prog_functions p)" | ik where "ik \<in> set (enumerate 0 (spec_list d))" "f = make_clone p ik"
    using f by (auto simp: with_clones_def)
  then show ?thesis
  proof cases
    case 2
    then have "snd ik \<in> set (spec_list d)" by (metis image_eqI list.set_map map_snd_enumerate)
    with d have "fst (snd ik) < length (prog_functions p)" by (fastforce simp: disc_ok_def)
    with 2(2) show ?thesis by (intro bexI [of _ "prog_functions p ! fst (snd ik)"]) (simp_all add: make_clone_def Let_def)
  qed blast
qed

definition calls_in_range :: "ir_program \<Rightarrow> bool" where
  "calls_in_range p \<longleftrightarrow>
     (\<forall>f \<in> set (prog_functions p). \<forall>rv \<in> set (block_rvs (body f)).
        case direct_call rv of Some (c, args) \<Rightarrow> c < length (prog_functions p) | None \<Rightarrow> True)"

lemma calls_in_rangeD:
  "calls_in_range p \<Longrightarrow> f \<in> set (prog_functions p) \<Longrightarrow> rv \<in> set (block_rvs (body f)) \<Longrightarrow>
     direct_call rv = Some (c, args) \<Longrightarrow> c < length (prog_functions p)"
  by (fastforce simp: calls_in_range_def)

text \<open>
  After monomorphization a direct call of a clone passes, at every parameter for which the clone
  expects a shape, a variable that the caller binds to a record construction of that shape.
\<close>

lemma specialize_contract:
  assumes "calls_in_range p" and "f \<in> set (prog_functions (fst (specialize_record_shapes p)))"
    and "rv \<in> set (block_rvs (body f))" and "direct_call rv = Some (c, args)"
    and "map_of (snd (specialize_record_shapes p)) c = Some shs" and "i < length shs" and "shs ! i = Some sh"
  shows "\<exists>v. i < length args \<and> args ! i = AVar v \<and> map_of (makerecord_shapes f) v = Some sh"
proof -
  let ?n = "length (prog_functions p)" let ?c = "spec_candidates p" let ?d = "discover_all p ?c"
  note ok = discover_all_ok [of p ?c] spec_candidates_range [of p]
  from assms(5) have s: "specialize_record_shapes p
      = (p\<lparr>prog_functions := map (rewrite_calls_fn ?c (spec_clones ?d)) (with_clones p ?d)\<rparr>, clone_shapes ?n ?d)"
    by (auto simp: specialize_record_shapes_def Let_def split: if_splits)
  from assms(2) obtain f0 where f0: "f0 \<in> set (with_clones p ?d)" "f = rewrite_calls_fn ?c (spec_clones ?d) f0" by (auto simp: s)
  let ?mr = "makerecord_shapes f0"
  from assms(3) f0(2) obtain rv0 where rv0: "rv0 \<in> set (block_rvs (body f0))" "rv = rewrite_call ?c (spec_clones ?d) ?mr rv0"
    by (auto simp: rewrite_calls_fn_def rvs_map)
  show ?thesis
  proof (cases rule: rewrite_call_cases [of ?c "spec_clones ?d" ?mr rv0])
    case 1
    from with_clones_body [OF f0(1) ok] obtain f1 where "f1 \<in> set (prog_functions p)" "body f0 = body f1" by blast
    with calls_in_rangeD [OF assms(1), of f1 rv c args] assms(4) rv0 1 have "c < ?n" by simp
    moreover from assms(5) have "c \<in> fst ` set (clone_shapes ?n ?d)" by (force simp: s dest: map_of_SomeD)
    ultimately show ?thesis by (auto simp: clone_shapes_def)
  next
    case (2 g as c' k)
    with assms(4) rv0(2) have c: "c' = c" "as = args" by simp_all
    from clone_shapes_lookup [OF ok(1) 2(3) [unfolded c(1)]] assms(5) have "shs = snd k" by (simp add: s)
    with key_for_call_Some [OF 2(2)] obtain flags where "shs = map (arg_shape ?mr args) (enumerate 0 flags)" by (auto simp: c)
    with assms(6,7) have "arg_shape ?mr args (i, flags ! i) = Some sh" by (simp add: nth_enumerate_eq)
    then show ?thesis
      by (auto simp: arg_shape_def f0(2) makerecord_shapes_rewrite split: if_splits atom.splits)
  qed
qed

section \<open>An example\<close>

text \<open>A function that reads a field of its parameter, called with a record.\<close>

definition record_program :: ir_program where
  "record_program =
     \<lparr>prog_functions =
        [\<lparr>fn_name = ''get'', fn_module = ''m'', params = [0], captures = [], is_async = False, poll_fn = None,
          body = map synthetic [Let 1 (GetField (AVar 0) ''x'' None), Return (AVar 1)],
          var_reprs = [], param_reprs = [], ret_repr = Boxed\<rparr>,
         \<lparr>fn_name = ''main'', fn_module = ''m'', params = [], captures = [], is_async = False, poll_fn = None,
          body = map synthetic
            [Let 0 (MakeRecord [(''y'', AConst CUnit), (''x'', AConst (CInt 7))] None),
             Let 1 (Call (Callee_Function 0) [AVar 0]), Return (AVar 1)],
          var_reprs = [], param_reprs = [], ret_repr = Boxed\<rparr>],
      globals = [], enums = [], entry = 1, test_suites = [], param_shapes = Map.empty, extra_nominal = Map.empty\<rparr>"

definition record_prim :: "unit prim" where
  "record_prim rv vs w =
     (case rv of
        MakeRecord fs sh \<Rightarrow> Some (VRecord (zip (map fst fs) vs), w)
      | GetField a x sh \<Rightarrow>
          (case vs of [v] \<Rightarrow> (case v of VRecord fs \<Rightarrow> map_option (\<lambda>u. (u, w)) (map_of fs x) | _ \<Rightarrow> None) | _ \<Rightarrow> None)
      | _ \<Rightarrow> None)"

theorem specialize_correct_witness:
  "length (prog_functions (fst (specialize_record_shapes record_program))) = 3
     \<and> call (prog_functions (fst (specialize_record_shapes record_program))) record_prim 2 () 1 [] [] = Done (VInt 7, ())"
proof -
  have c: "call (prog_functions record_program) record_prim 2 () 1 [] [] = Done (VInt 7, ())" by code_simp
  have "length (prog_functions (fst (specialize_record_shapes record_program))) = 3" by code_simp
  with specialize_correct [of record_program record_prim 2 "()" 1 "[]" "[]"] c show ?thesis by simp
qed

theorem specialize_bound_witness:
  "clone_of record_program (fst (specialize_record_shapes record_program)) 2 0
     \<and> snd (specialize_record_shapes record_program) \<noteq> []"
proof -
  have l: "length (prog_functions record_program) = 2" "length (prog_functions (fst (specialize_record_shapes record_program))) = 3"
    "fn_name (prog_functions (fst (specialize_record_shapes record_program)) ! 2) \<noteq> fn_name (prog_functions record_program ! 1) @ ''$shape'' @ decimal 2"
    by code_simp+
  from specialize_bound [of record_program, unfolded l(1,2)] obtain orig :: "nat \<Rightarrow> nat"
    where "\<forall>c \<in> {2..<3}. clone_of record_program (fst (specialize_record_shapes record_program)) c (orig c)"
      and s: "fst ` set (snd (specialize_record_shapes record_program)) = {2..<3}" by blast
  then have o: "clone_of record_program (fst (specialize_record_shapes record_program)) 2 (orig 2)" by simp
  then have "orig 2 < 2" by (simp add: clone_of_def l(1))
  with o l(3) have "orig 2 = 0" by (auto simp: clone_of_def numeral_2_eq_2 less_Suc_eq)
  with o s show ?thesis by auto
qed

end
