(* ===== verification/ScanCorrect.thy ===== *)
theory ScanCorrect
  imports Scan MonoCorrect
begin

text \<open>
  The constant pool reads back every constant it was given, and the nominal map of a caller
  covers the records it passes to clones.
\<close>

section \<open>The pool\<close>

datatype pool_const = StrConst string | BytesConst "8 word list"

fun intern_const :: "pool_const \<Rightarrow> str_pool \<Rightarrow> str_pool" where
  "intern_const (StrConst s) = intern_str s"
| "intern_const (BytesConst b) = intern_bytes b"

definition const_slot :: "str_pool \<Rightarrow> pool_const \<Rightarrow> (nat \<times> nat) option" where
  "const_slot pool c = (case c of StrConst s \<Rightarrow> map_of (at_str pool) s | BytesConst b \<Rightarrow> map_of (at_bytes pool) b)"

definition const_bytes :: "pool_const \<Rightarrow> 8 word list" where
  "const_bytes c = (case c of StrConst s \<Rightarrow> string_bytes s | BytesConst b \<Rightarrow> b)"

text \<open>What the emitter makes of a slot: the bytes of the data segment there.\<close>

definition read_slot :: "str_pool \<Rightarrow> nat \<times> nat \<Rightarrow> 8 word list" where
  "read_slot pool ol = take (snd ol) (drop (fst ol) (pool_bytes pool))"

definition pool_ok :: "str_pool \<Rightarrow> bool" where
  "pool_ok pool \<longleftrightarrow>
     (\<forall>c ol. const_slot pool c = Some ol \<longrightarrow>
        fst ol + snd ol \<le> length (pool_bytes pool) \<and> read_slot pool ol = const_bytes c)"

lemma const_slot_intern:
  "const_slot (intern_const c pool) d =
     (if d = c then (case const_slot pool c of Some ol \<Rightarrow> Some ol
        | None \<Rightarrow> Some (as_u32 (length (pool_bytes pool)), as_u32 (length (const_bytes c))))
      else const_slot pool d)"
  by (cases c; cases d)
    (auto simp: const_slot_def const_bytes_def intern_str_def intern_bytes_def update_conv' split: option.splits)

lemma pool_bytes_intern:
  "pool_bytes (intern_const c pool) = pool_bytes pool @ (if const_slot pool c = None then const_bytes c else [])"
  by (cases c) (auto simp: const_slot_def const_bytes_def intern_str_def intern_bytes_def split: option.splits)

lemma read_slot_append: "fst ol + snd ol \<le> length (pool_bytes pool) \<Longrightarrow> pool_bytes pool' = pool_bytes pool @ xs \<Longrightarrow>
    read_slot pool' ol = read_slot pool ol"
  by (auto simp: read_slot_def)

lemma pool_ok_intern:
  assumes "pool_ok pool" and "length (pool_bytes (intern_const c pool)) < 2 ^ 32"
  shows "pool_ok (intern_const c pool)"
  unfolding pool_ok_def
proof (intro allI impI)
  fix d ol assume d: "const_slot (intern_const c pool) d = Some ol"
  let ?new = "(as_u32 (length (pool_bytes pool)), as_u32 (length (const_bytes c)))"
  show "fst ol + snd ol \<le> length (pool_bytes (intern_const c pool)) \<and> read_slot (intern_const c pool) ol = const_bytes d"
  proof (cases "const_slot pool d")
    case (Some ol')
    with d have "ol' = ol" by (auto simp: const_slot_intern split: if_splits option.splits)
    with Some assms(1) have "fst ol + snd ol \<le> length (pool_bytes pool)" "read_slot pool ol = const_bytes d"
      unfolding pool_ok_def by blast+
    with read_slot_append [OF this(1) pool_bytes_intern] show ?thesis by (simp add: pool_bytes_intern)
  next
    case None
    with d have c: "d = c" "ol = ?new" by (auto simp: const_slot_intern split: if_splits option.splits)
    with None have b: "pool_bytes (intern_const c pool) = pool_bytes pool @ const_bytes c" by (simp add: pool_bytes_intern)
    with assms(2) have "ol = (length (pool_bytes pool), length (const_bytes c))" by (simp add: c(2) as_u32_def)
    then show ?thesis by (simp add: read_slot_def b c(1))
  qed
qed

lemma intern_all:
  assumes "pool_ok pool" and "length (pool_bytes (fold intern_const cs pool)) < 2 ^ 32"
  shows "pool_ok (fold intern_const cs pool)
    \<and> (\<forall>c \<in> set cs. const_slot (fold intern_const cs pool) c \<noteq> None)
    \<and> (\<forall>c ol. const_slot pool c = Some ol \<longrightarrow> const_slot (fold intern_const cs pool) c = Some ol)"
  using assms
proof (induction cs arbitrary: pool)
  case (Cons c cs)
  have "length (pool_bytes pl) \<le> length (pool_bytes (fold intern_const ds pl))" for ds pl
  proof (induction ds arbitrary: pl)
    case (Cons d ds)
    have "length (pool_bytes pl) \<le> length (pool_bytes (intern_const d pl))" by (simp add: pool_bytes_intern)
    also have "\<dots> \<le> length (pool_bytes (fold intern_const (d # ds) pl))" using Cons.IH by simp
    finally show ?case .
  qed simp
  from order_le_less_trans [OF this] Cons.prems have "pool_ok (intern_const c pool)" by (intro pool_ok_intern) auto
  from Cons.IH [OF this] Cons.prems(2) have ih: "pool_ok (fold intern_const cs (intern_const c pool))"
    "\<forall>d \<in> set cs. const_slot (fold intern_const cs (intern_const c pool)) d \<noteq> None"
    "\<And>d ol. const_slot (intern_const c pool) d = Some ol \<Longrightarrow> const_slot (fold intern_const cs (intern_const c pool)) d = Some ol"
    by auto
  have new: "const_slot (intern_const c pool) c \<noteq> None" by (auto simp: const_slot_intern split: option.splits)
  have old: "const_slot pool d = Some ol \<Longrightarrow> const_slot (intern_const c pool) d = Some ol" for d ol
    by (auto simp: const_slot_intern)
  from new ih(3) have "const_slot (fold intern_const cs (intern_const c pool)) c \<noteq> None" by blast
  with ih old show ?case by simp
qed simp

text \<open>The constants a scan interns, in order.\<close>

definition atom_consts :: "atom \<Rightarrow> pool_const list" where
  "atom_consts a =
     (case a of AConst c \<Rightarrow> (case c of CStr s \<Rightarrow> [StrConst s] | CBytes b \<Rightarrow> [BytesConst b] | _ \<Rightarrow> []) | AVar v \<Rightarrow> [])"

definition rvalue_consts :: "enum_table \<Rightarrow> rvalue \<Rightarrow> pool_const list" where
  "rvalue_consts es rv = concat (map atom_consts (operands rv)) @ map StrConst (rvalue_names es rv)"

fun pattern_consts :: "pattern \<Rightarrow> pool_const list" where
  "pattern_consts (PRecord fs rest shape) = concat (map (\<lambda>p. StrConst (fst p) # pattern_consts (snd p)) fs)"
| "pattern_consts (PVariant nm tag ps) = concat (map pattern_consts ps)"
| "pattern_consts (PTuple ps) = concat (map pattern_consts ps)"
| "pattern_consts (PList ps rest) = concat (map pattern_consts ps)"
| "pattern_consts (PLiteral c) = atom_consts (AConst c)"
| "pattern_consts PWildcard = []"
| "pattern_consts (PBind v) = []"

fun block_consts :: "enum_table \<Rightarrow> block \<Rightarrow> pool_const list"
  and stmt_consts :: "enum_table \<Rightarrow> stmt_kind \<Rightarrow> pool_const list"
  and cases_consts :: "enum_table \<Rightarrow> (i64 \<times> block) list \<Rightarrow> pool_const list"
  and arms_consts :: "enum_table \<Rightarrow> match_arm list \<Rightarrow> pool_const list" where
  "block_consts es [] = []"
| "block_consts es (Stmt k r # ss) = stmt_consts es k @ block_consts es ss"
| "stmt_consts es (Let v rv) = rvalue_consts es rv"
| "stmt_consts es (Discard rv) = rvalue_consts es rv"
| "stmt_consts es (Return a) = atom_consts a"
| "stmt_consts es (PushDefer a) = atom_consts a"
| "stmt_consts es (If c t e) = block_consts es t @ block_consts es e"
| "stmt_consts es (Switch c arms dflt) = cases_consts es arms @ block_consts es dflt"
| "stmt_consts es (Match c arms) = arms_consts es arms"
| "stmt_consts es (Loop b) = block_consts es b"
| "stmt_consts es k = []"
| "cases_consts es [] = []"
| "cases_consts es ((i, b) # arms) = block_consts es b @ cases_consts es arms"
| "arms_consts es [] = []"
| "arms_consts es (MatchArm p b # arms) = pattern_consts p @ block_consts es b @ arms_consts es arms"

lemma scan_atom_fold: "scan_atom_string a pool = fold intern_const (atom_consts a) pool"
  by (auto simp: scan_atom_string_def atom_consts_def split: atom.splits const.splits)

lemma fold_concat_map: "(\<And>x s. x \<in> set xs \<Longrightarrow> f x s = fold g (h x) s) \<Longrightarrow> fold f xs s = fold g (concat (map h xs)) s"
  by (induction xs arbitrary: s) auto

lemma scan_rvalue_fold: "scan_rvalue_strings es rv pool = fold intern_const (rvalue_consts es rv) pool"
proof -
  have "fold intern_str ns pl = fold intern_const (map StrConst ns) pl" for ns pl by (induction ns arbitrary: pl) auto
  moreover have "for_each_atom rv scan_atom_string pool = fold intern_const (concat (map atom_consts (operands rv))) pool"
    unfolding for_each_atom_def by (rule fold_concat_map) (rule scan_atom_fold)
  ultimately show ?thesis by (simp add: scan_rvalue_strings_def rvalue_consts_def)
qed

lemma scan_pattern_fold: "scan_pattern_names p pool = fold intern_const (pattern_consts p) pool"
proof (induction p pool rule: scan_pattern_names.induct)
  case (1 fs rest shape pool)
  have "fold (\<lambda>p pl. scan_pattern_names (snd p) (intern_str (fst p) pl)) fs pool
      = fold intern_const (concat (map (\<lambda>p. StrConst (fst p) # pattern_consts (snd p)) fs)) pool"
    by (rule fold_concat_map) (simp add: 1)
  then show ?case by simp
qed (auto simp: atom_consts_def intro!: fold_concat_map split: const.splits)

lemma scan_fold:
  "scan_strings es b pool = fold intern_const (block_consts es b) pool"
  "scan_stmt_strings es k pool = fold intern_const (stmt_consts es k) pool"
  "scan_cases_strings es cs pool = fold intern_const (cases_consts es cs) pool"
  "scan_arms_strings es arms pool = fold intern_const (arms_consts es arms) pool"
  by (induction es b pool and es k pool and es cs pool and es arms pool
      rule: scan_strings_scan_stmt_strings_scan_cases_strings_scan_arms_strings.induct)
    (auto simp: scan_rvalue_fold scan_atom_fold scan_pattern_fold)

text \<open>
  What the emitter pushes as a constant, independently of the scan: the string or bytes of a
  constant read by an rvalue, returned or pushed as a cleanup, the display name of a variant that is
  built, the names of the fields a record construction, update or access spells, and in a pattern
  the literals and the names of the fields.
\<close>

inductive spells :: "atom \<Rightarrow> pool_const \<Rightarrow> bool" where
  "spells (AConst (CStr s)) (StrConst s)"
| "spells (AConst (CBytes b)) (BytesConst b)"

inductive pattern_needs :: "pattern \<Rightarrow> pool_const \<Rightarrow> bool" where
  "spells (AConst k) c \<Longrightarrow> pattern_needs (PLiteral k) c"
| "(n, q) \<in> set fs \<Longrightarrow> pattern_needs (PRecord fs rest sh) (StrConst n)"
| "(n, q) \<in> set fs \<Longrightarrow> pattern_needs q c \<Longrightarrow> pattern_needs (PRecord fs rest sh) c"
| "q \<in> set qs \<Longrightarrow> pattern_needs q c \<Longrightarrow> pattern_needs (PVariant n t qs) c"
| "q \<in> set qs \<Longrightarrow> pattern_needs q c \<Longrightarrow> pattern_needs (PTuple qs) c"
| "q \<in> set qs \<Longrightarrow> pattern_needs q c \<Longrightarrow> pattern_needs (PList qs lrest) c"

inductive rvalue_needs :: "enum_table \<Rightarrow> rvalue \<Rightarrow> pool_const \<Rightarrow> bool" for es where
  "reads_atom rv a \<Longrightarrow> spells a c \<Longrightarrow> rvalue_needs es rv c"
| "rvalue_needs es (MakeVariant n t args) (StrConst (variant_display n t es))"
| "rvalue_needs es (MakeVariantCtor n t) (StrConst (variant_display n t es))"
| "(n, a) \<in> set fs \<Longrightarrow> rvalue_needs es (MakeRecord fs sh) (StrConst n)"
| "(n, a) \<in> set fs \<Longrightarrow> rvalue_needs es (RecordUpdate base fs sh) (StrConst n)"
| "rvalue_needs es (GetField a n sh) (StrConst n)"

inductive needs_const :: "enum_table \<Rightarrow> block \<Rightarrow> pool_const \<Rightarrow> bool" for es b where
  "computes b rv \<Longrightarrow> rvalue_needs es rv c \<Longrightarrow> needs_const es b c"
| "stmt_in (Return a) b \<Longrightarrow> spells a c \<Longrightarrow> needs_const es b c"
| "stmt_in (PushDefer a) b \<Longrightarrow> spells a c \<Longrightarrow> needs_const es b c"
| "stmt_in (Match a arms) b \<Longrightarrow> arm \<in> set arms \<Longrightarrow> pattern_needs (arm_pattern arm) c \<Longrightarrow> needs_const es b c"

lemma spells_consts: "spells a c \<Longrightarrow> c \<in> set (atom_consts a)"
  by (induction rule: spells.induct) (simp_all add: atom_consts_def)

lemma pattern_needs_consts: "pattern_needs p c \<Longrightarrow> c \<in> set (pattern_consts p)"
  by (induction rule: pattern_needs.induct) (force intro: spells_consts)+

lemma rvalue_needs_consts: "rvalue_needs es rv c \<Longrightarrow> c \<in> set (rvalue_consts es rv)"
proof (induction rule: rvalue_needs.induct)
  case (1 rv a c)
  then show ?case using reads_operands spells_consts by (fastforce simp: rvalue_consts_def)
qed (force simp: rvalue_consts_def rvalue_names_def)+

lemma consts_here: "Stmt k r \<in> set b \<Longrightarrow> set (stmt_consts es k) \<subseteq> set (block_consts es b)"
proof (induction b)
  case (Cons s b)
  then show ?case by (cases s) auto
qed simp

lemma cases_consts_set: "set (cases_consts es arms) = (\<Union>ib \<in> set arms. set (block_consts es (snd ib)))"
  by (induction arms) auto

lemma arms_consts_set:
  "set (arms_consts es arms) = (\<Union>a \<in> set arms. set (pattern_consts (arm_pattern a)) \<union> set (block_consts es (arm_body a)))"
proof (induction arms)
  case (Cons a arms)
  then show ?case by (cases a) auto
qed simp

lemma consts_inside: "b \<in> blocks_of k \<Longrightarrow> set (block_consts es b) \<subseteq> set (stmt_consts es k)"
  by (cases k) (auto simp: blocks_of_def cases_consts_set arms_consts_set)

lemma stmt_in_consts: "stmt_in k b \<Longrightarrow> set (stmt_consts es k) \<subseteq> set (block_consts es b)"
proof (induction rule: stmt_in.induct)
  case (stmt_inside k' r b b' k)
  then show ?case using consts_here [OF stmt_inside.hyps(1)] consts_inside [OF stmt_inside.hyps(2)] by blast
qed (rule consts_here)

lemma needs_consts: "needs_const es b c \<Longrightarrow> c \<in> set (block_consts es b)"
proof (induction rule: needs_const.induct)
  case (1 rv c)
  then show ?case using stmt_in_consts rvalue_needs_consts unfolding computes_def by fastforce
next
  case (4 a arms arm c)
  then have "c \<in> set (stmt_consts es (Match a arms))" using pattern_needs_consts by (auto simp: arms_consts_set)
  with stmt_in_consts [OF 4(1)] show ?case by blast
qed (use stmt_in_consts spells_consts in fastforce)+

text \<open>
  C38. The constant pool is right: after scanning a body into a pool in order, with the data
  segment below 2 ^ 32 bytes, every string or byte constant the body needs has a slot: those read by
  an rvalue, returned or pushed as a cleanup, the names of the variants and of the fields it builds
  or reads, and the literals and field names of its patterns, at any depth. The slot reads back
  exactly its bytes, and no earlier constant has moved. The one exception is an atom that is itself
  what a match, a conditional or a switch tests: the scan does not look at it (see
  \<open>matched_constant_missing\<close> below).
\<close>

theorem scan_strings_reads_back:
  assumes "pool_ok pool" and "length (pool_bytes (scan_strings es b pool)) < 2 ^ 32" and "needs_const es b c"
  shows "\<exists>ol. const_slot (scan_strings es b pool) c = Some ol \<and> read_slot (scan_strings es b pool) ol = const_bytes c
    \<and> (\<forall>d old. const_slot pool d = Some old \<longrightarrow> const_slot (scan_strings es b pool) d = Some old)"
proof -
  from assms(3) have "c \<in> set (block_consts es b)" by (rule needs_consts)
  with intern_all [OF assms(1) assms(2) [unfolded scan_fold(1)]] show ?thesis
    unfolding scan_fold(1) pool_ok_def by blast
qed

definition empty_pool :: str_pool where
  "empty_pool = \<lparr>pool_bytes = [], at_str = [], at_bytes = []\<rparr>"

lemma empty_pool_ok: "pool_ok empty_pool"
  by (auto simp: pool_ok_def empty_pool_def const_slot_def split: pool_const.splits)

definition pool_block :: block where
  "pool_block = map synthetic
     [Let 0 (MakeRecord [(''name'', AConst (CStr ''abc''))] None), Let 1 (Use (AConst (CBytes [1, 2]))), Return (AVar 0)]"

theorem scan_strings_reads_back_witness:
  "\<exists>ol. const_slot (scan_strings [] pool_block empty_pool) (StrConst ''name'') = Some ol
     \<and> read_slot (scan_strings [] pool_block empty_pool) ol = string_bytes ''name''"
proof -
  have "length (pool_bytes (scan_strings [] pool_block empty_pool)) = 9"
    by (simp add: pool_block_def empty_pool_def synthetic_def scan_rvalue_strings_def for_each_atom_def scan_atom_string_def
        rvalue_names_def intern_str_def intern_bytes_def string_bytes_def)
  then have l: "length (pool_bytes (scan_strings [] pool_block empty_pool)) < 2 ^ 32" by (rule ssubst) simp
  have "stmt_in (Let 0 (MakeRecord [(''name'', AConst (CStr ''abc''))] None)) pool_block"
    by (rule stmt_here [where r = "collapsed 0 0"]) (simp add: pool_block_def synthetic_def)
  moreover have "rvalue_needs [] (MakeRecord [(''name'', AConst (CStr ''abc''))] None) (StrConst ''name'')"
    by (rule rvalue_needs.intros(4) [where a = "AConst (CStr ''abc'')"]) simp
  ultimately have m: "needs_const [] pool_block (StrConst ''name'')"
    unfolding computes_def by (intro needs_const.intros(1)) (auto simp: computes_def)
  from scan_strings_reads_back [OF empty_pool_ok l m] obtain ol where
    "const_slot (scan_strings [] pool_block empty_pool) (StrConst ''name'') = Some ol"
    "read_slot (scan_strings [] pool_block empty_pool) ol = const_bytes (StrConst ''name'')" by blast
  then show ?thesis unfolding const_bytes_def pool_const.case by blast
qed

text \<open>
  The scan does not look at the atom a \<open>Match\<close>, an \<open>If\<close> or a \<open>Switch\<close> tests: a string constant
  matched on directly is not in the pool when the emitter pushes it.
\<close>

lemma matched_constant_missing:
  "const_slot (scan_strings [] [synthetic (Match (AConst (CStr ''abc'')) [MatchArm (PBind 0) [synthetic (Return (AVar 0))]])] empty_pool)
     (StrConst ''abc'') = None"
  by code_simp


section \<open>Nominal arguments\<close>

lemma note_nominal_other: "fst q \<noteq> v \<Longrightarrow> map_of (note_nominal read q m) v = map_of m v"
  by (auto simp: note_nominal_def update_conv' split: rvalue.splits option.splits atom.splits)

lemma note_nominal_record:
  "fst q = v \<Longrightarrow> as_record (snd q) = Some sh \<Longrightarrow> v \<in> set read \<Longrightarrow> map_of (note_nominal read q m) v = Some sh"
  by (cases "snd q") (auto simp: note_nominal_def as_record_def update_conv' split: option.splits)

lemma collect_nominal_lookup:
  assumes "v \<in> set read" and "\<forall>q \<in> set ls. fst q = v \<longrightarrow> as_record (snd q) = Some sh"
  shows "map_of (fold (note_nominal read) ls m) v = (if v \<in> fst ` set ls then Some sh else map_of m v)"
  using assms(2)
proof (induction ls arbitrary: m)
  case (Cons q ls)
  show ?case
  proof (cases "fst q = v")
    case True
    with Cons.prems assms(1) have "map_of (note_nominal read q m) v = Some sh" by (intro note_nominal_record) auto
    with Cons True show ?thesis by auto
  next
    case False
    with Cons show ?thesis by (auto simp: note_nominal_other)
  qed
qed simp

lemma collect_loads_bound:
  assumes "map_of (fold (note_load load) ls m) v = Some k" and "map_of m v = None"
  shows "v \<in> fst ` set ls"
  using assms
proof (induction ls arbitrary: m)
  case (Cons q ls)
  show ?case
  proof (cases "fst q = v")
    case False
    with Cons.prems(2) have "map_of (note_load load q m) v = None" by (simp add: note_load_lookup)
    with Cons show ?thesis by auto
  qed simp
qed simp

lemma nominal_args_member:
  assumes "direct_call rv = Some (c, args)" and "map_of shapes c = Some shs" and "i < length shs" and "shs ! i \<noteq> None"
    and "i < length args" and "args ! i = AVar v" and "rv \<in> set (block_rvs b)"
  shows "v \<in> set (collect_nominal_param_args shapes b)"
proof -
  have "(i, shs ! i) \<in> set (enumerate 0 shs)" using assms(3) by (simp add: in_set_enumerate_eq)
  moreover have "v \<in> set (nominal_arg args (i, shs ! i))" using assms(4-6) by (simp add: nominal_arg_def)
  ultimately have "v \<in> set (nominal_args shapes rv)" using assms(1,2) by (auto simp: nominal_args_def)
  with assms(7) show ?thesis by (auto simp: collect_nominal_param_args_def)
qed



section \<open>A parameter the loop reassigns\<close>

text \<open>
  The contract is about calls only. A self-recursive function has been turned into a loop before:
  the clone's parameter is then reassigned with values of any origin, while the nominal map
  gives it the shape of the call from outside. Here the loop replaces \<open>r\<close> by what function 1
  returns, which no scan knows to have the shape.
\<close>

definition loop_program :: ir_program where
  "loop_program = record_program\<lparr>prog_functions :=
     [\<lparr>fn_name = ''go'', fn_module = ''m'', params = [0, 1], captures = [], is_async = False, poll_fn = None,
       body = map synthetic
         [Loop (map synthetic
            [Match (AVar 1) [MatchArm (PLiteral (CInt 0)) (map synthetic [Let 2 (GetField (AVar 0) ''x'' None), Let 5 (Use (AVar 2)), Break_stmt])],
             Let 3 (Call (Callee_Function 1) [AVar 0]), Let 4 (Bin SubInt (AVar 1) (AConst (CInt 1))),
             Let 6 (Use (AVar 3)), Let 7 (Use (AVar 4)), Let 0 (Use (AVar 6)), Let 1 (Use (AVar 7))]),
          Return (AVar 5)],
       var_reprs = [], param_reprs = [], ret_repr = Boxed\<rparr>,
      \<lparr>fn_name = ''bump'', fn_module = ''m'', params = [0], captures = [], is_async = False, poll_fn = None,
       body = map synthetic [Let 1 (RecordUpdate (AVar 0) [(''x'', AConst (CInt 1))] None), Return (AVar 1)],
       var_reprs = [], param_reprs = [], ret_repr = Boxed\<rparr>,
      \<lparr>fn_name = ''main'', fn_module = ''m'', params = [], captures = [], is_async = False, poll_fn = None,
       body = map synthetic
         [Let 0 (MakeRecord [(''x'', AConst (CInt 7))] None), Let 1 (Call (Callee_Function 0) [AVar 0, AConst (CInt 3)]), Return (AVar 1)],
       var_reprs = [], param_reprs = [], ret_repr = Boxed\<rparr>]\<rparr>"

lemma loop_param_nominal:
  "let (p', shapes) = specialize_record_shapes loop_program; clone = prog_functions p' ! 3; nom = compute_nominal clone 3 shapes []
   in map_of nom 0 = Some (boxed_from_names [''x'']) \<and> (0, Use (AVar 6)) \<in> set (block_lets (body clone)) \<and> map_of nom 6 = None
      \<and> map_of nom 3 = None"
  by code_simp

end
