(* ===== verification/Reach.thy ===== *)
theory Reach
  imports Passes
begin

text \<open>
  What wasm/src/lib.rs computes of a program before emission: the functions and globals reachable
  from the entry (\<open>Reach::compute\<close>), and the signatures an indirect call may rely on
  (\<open>monomorphize_signatures\<close>). A stack is a list with its top first; an index out of range, a
  panic there, is \<open>None\<close>.
\<close>

section \<open>The reachability scan\<close>

definition fn_refs :: "rvalue \<Rightarrow> func_id list" where
  "fn_refs rv =
     (case rv of
        Call c args \<Rightarrow> (case c of Callee_Function f \<Rightarrow> [f] | _ \<Rightarrow> [])
      | TailCallDirect f args \<Rightarrow> [f]
      | MakeClosure f args \<Rightarrow> [f]
      | _ \<Rightarrow> [])"

definition global_refs_of :: "rvalue \<Rightarrow> nat list" where
  "global_refs_of rv =
     (case rv of
        Call c args \<Rightarrow> (case c of Callee_Global g \<Rightarrow> [g] | _ \<Rightarrow> [])
      | GlobalRef g \<Rightarrow> [g]
      | _ \<Rightarrow> [])"

definition block_fns :: "block \<Rightarrow> func_id list" where
  "block_fns b = concat (map fn_refs (block_rvs b))"

definition block_globals :: "block \<Rightarrow> nat list" where
  "block_globals b = concat (map global_refs_of (block_rvs b))"

record reach =
  reach_globals :: "nat list"
  reach_order :: "func_id list"

text \<open>The inner loop: the pending globals, the globals seen and the functions pending.\<close>

fun drain_globals :: "global_init list \<Rightarrow> nat list \<Rightarrow> nat list \<Rightarrow> func_id list \<Rightarrow> (nat list \<times> func_id list) option" where
  "drain_globals gis [] seen stack = Some (seen, stack)"
| "drain_globals gis (g # gs) seen stack =
     (if g \<in> set seen then drain_globals gis gs seen stack
      else if g < length gis
      then (case gis ! g of
              Thunk f \<Rightarrow> drain_globals gis gs (seen @ [g]) (f # stack)
            | PreEvaluated pe \<Rightarrow> drain_globals gis gs (seen @ [g]) stack)
      else None)"

function (sequential) reach_loop :: "ir_program \<Rightarrow> reach \<Rightarrow> func_id list \<Rightarrow> reach option" where
  "reach_loop p r [] = Some r"
| "reach_loop p r (f # stack) =
     (if f \<in> set (reach_order r) then reach_loop p r stack
      else if f < length (prog_functions p)
      then (let b = body (prog_functions p ! f)
            in case drain_globals (globals p) (rev (block_globals b)) (reach_globals r) (rev (block_fns b) @ stack) of
                 None \<Rightarrow> None
               | Some (seen, stack') \<Rightarrow>
                   reach_loop p (r\<lparr>reach_globals := seen, reach_order := reach_order r @ [f]\<rparr>) stack')
      else None)"
  by pat_completeness auto
termination
proof (relation "inv_image (less_than <*lex*> less_than)
    (\<lambda>(p, r, stack). (card ({..<length (prog_functions p)} - set (reach_order r)), length stack))", goal_cases)
  case (3 p r f stack b x seen stack')
  have "card ({..<length (prog_functions p)} - insert f (set (reach_order r))) < card ({..<length (prog_functions p)} - set (reach_order r))"
    by (rule psubset_card_mono) (use 3(1,2) in auto)
  then show ?case by simp
qed (auto intro: wf_inv_image wf_lex_prod)

definition compute_reach :: "ir_program \<Rightarrow> reach option" where
  "compute_reach p = reach_loop p \<lparr>reach_globals = [], reach_order = []\<rparr> [entry p]"

section \<open>Signatures\<close>

definition closure_target :: "rvalue \<Rightarrow> func_id list" where
  "closure_target rv = (case rv of MakeClosure f args \<Rightarrow> [f] | _ \<Rightarrow> [])"

definition collect_closure_targets :: "block \<Rightarrow> func_id list" where
  "collect_closure_targets b = concat (map closure_target (block_rvs b))"

definition boxed_signature :: "ir_function \<Rightarrow> ir_function" where
  "boxed_signature f = f\<lparr>param_reprs := replicate (length (params f)) Boxed, ret_repr := Boxed\<rparr>"

definition filter_signature :: "func_id \<Rightarrow> func_id list \<Rightarrow> nat \<times> ir_function \<Rightarrow> ir_function" where
  "filter_signature ent escaped fi =
     (if fst fi \<noteq> ent \<and> fst fi \<notin> set escaped then snd fi else boxed_signature (snd fi))"

definition escaped_fns :: "ir_program \<Rightarrow> reach \<Rightarrow> func_id list" where
  "escaped_fns p r = concat (map (\<lambda>f. collect_closure_targets (body (prog_functions p ! f))) (reach_order r))"

definition monomorphize_signatures :: "ir_program \<Rightarrow> ir_program option" where
  "monomorphize_signatures p =
     map_option (\<lambda>r. p\<lparr>prog_functions := map (filter_signature (entry p) (escaped_fns p r)) (enumerate 0 (prog_functions p))\<rparr>)
       (compute_reach p)"

definition builtin_globals :: "ir_program \<Rightarrow> (nat \<times> string) list" where
  "builtin_globals p =
     List.map_filter (\<lambda>(i, gi). case gi of
         PreEvaluated pe \<Rightarrow> (case pe of PreBuiltin tag ret \<Rightarrow> Some (i, tag) | _ \<Rightarrow> None)
       | Thunk f \<Rightarrow> None) (enumerate 0 (globals p))"

section \<open>What is reachable\<close>

inductive reach_fn :: "ir_program \<Rightarrow> func_id \<Rightarrow> bool" and reach_global :: "ir_program \<Rightarrow> nat \<Rightarrow> bool" for p where
  reach_entry: "reach_fn p (entry p)"
| reach_call: "reach_fn p f \<Longrightarrow> h \<in> set (block_fns (body (prog_functions p ! f))) \<Longrightarrow> reach_fn p h"
| reach_load: "reach_fn p f \<Longrightarrow> g \<in> set (block_globals (body (prog_functions p ! f))) \<Longrightarrow> reach_global p g"
| reach_thunk: "reach_global p g \<Longrightarrow> globals p ! g = Thunk t \<Longrightarrow> reach_fn p t"

definition refs_in_range :: "ir_program \<Rightarrow> bool" where
  "refs_in_range p \<longleftrightarrow> entry p < length (prog_functions p)
     \<and> (\<forall>f \<in> set (prog_functions p). list_all (\<lambda>h. h < length (prog_functions p)) (block_fns (body f))
          \<and> list_all (\<lambda>g. g < length (globals p)) (block_globals (body f)))
     \<and> list_all (\<lambda>gi. case gi of Thunk t \<Rightarrow> t < length (prog_functions p) | _ \<Rightarrow> True) (globals p)"

lemma refs_in_rangeD:
  assumes "refs_in_range p"
  shows "entry p < length (prog_functions p)"
    and "f < length (prog_functions p) \<Longrightarrow> h \<in> set (block_fns (body (prog_functions p ! f))) \<Longrightarrow> h < length (prog_functions p)"
    and "f < length (prog_functions p) \<Longrightarrow> g \<in> set (block_globals (body (prog_functions p ! f))) \<Longrightarrow> g < length (globals p)"
    and "g < length (globals p) \<Longrightarrow> globals p ! g = Thunk t \<Longrightarrow> t < length (prog_functions p)"
  using assms by (auto simp: refs_in_range_def list_all_iff dest!: nth_mem split: global_init.splits)

text \<open>
  The invariant of the scan, on the functions \<open>F\<close> visited or pending and the globals \<open>G\<close> seen or
  pending: they are reachable and in range, and what the visited ones refer to is among them.
\<close>

definition all_reachable :: "ir_program \<Rightarrow> func_id set \<Rightarrow> nat set \<Rightarrow> bool" where
  "all_reachable p F G \<longleftrightarrow> (\<forall>f \<in> F. f < length (prog_functions p) \<and> reach_fn p f)
     \<and> (\<forall>g \<in> G. g < length (globals p) \<and> reach_global p g)"

definition all_followed :: "ir_program \<Rightarrow> func_id set \<Rightarrow> nat set \<Rightarrow> func_id set \<Rightarrow> nat set \<Rightarrow> bool" where
  "all_followed p order seen F G \<longleftrightarrow> entry p \<in> F
     \<and> (\<forall>f \<in> order. set (block_fns (body (prog_functions p ! f))) \<subseteq> F \<and> set (block_globals (body (prog_functions p ! f))) \<subseteq> G)
     \<and> (\<forall>g \<in> seen. \<forall>t. globals p ! g = Thunk t \<longrightarrow> t \<in> F)"

definition scan_ok :: "ir_program \<Rightarrow> func_id list \<Rightarrow> nat list \<Rightarrow> nat list \<Rightarrow> func_id list \<Rightarrow> bool" where
  "scan_ok p order seen gs stack \<longleftrightarrow>
     all_reachable p (set order \<union> set stack) (set seen \<union> set gs)
     \<and> all_followed p (set order) (set seen) (set order \<union> set stack) (set seen \<union> set gs)
     \<and> distinct order \<and> distinct seen"

lemma all_followed_mono:
  "all_followed p A B F G \<Longrightarrow> F \<subseteq> F' \<Longrightarrow> G \<subseteq> G' \<Longrightarrow> all_followed p A B F' G'"
  unfolding all_followed_def by blast

lemma all_followed_see:
  "all_followed p A B F G \<Longrightarrow> (\<And>t. globals p ! g = Thunk t \<Longrightarrow> t \<in> F) \<Longrightarrow> all_followed p A (insert g B) F G"
  by (simp add: all_followed_def)

lemma drain_ok:
  assumes "refs_in_range p" and "scan_ok p order seen gs stack"
  shows "\<exists>seen' stack'. drain_globals (globals p) gs seen stack = Some (seen', stack') \<and> scan_ok p order seen' [] stack'"
  using assms(2)
proof (induction gs arbitrary: seen stack)
  case (Cons g gs)
  from Cons.prems have g: "g < length (globals p)" "reach_global p g" by (auto simp: scan_ok_def all_reachable_def)
  have G: "set seen \<union> set (g # gs) = set (seen @ [g]) \<union> set gs" by auto
  show ?case
  proof (cases "g \<in> set seen")
    case True
    then have "set seen \<union> set (g # gs) = set seen \<union> set gs" by auto
    with Cons.prems have "scan_ok p order seen gs stack" by (simp add: scan_ok_def)
    from Cons.IH [OF this] True show ?thesis by simp
  next
    case False
    show ?thesis
    proof (cases "globals p ! g")
      case (Thunk t)
      from g Thunk have t: "reach_fn p t" "t < length (prog_functions p)"
        by (auto intro: reach_thunk refs_in_rangeD(4) [OF assms(1)])
      have "all_followed p (set order) (set (seen @ [g])) (set order \<union> set (t # stack)) (set (seen @ [g]) \<union> set gs)"
      proof -
        have "all_followed p (set order) (set seen) (set order \<union> set (t # stack)) (set (seen @ [g]) \<union> set gs)"
          by (rule all_followed_mono [where F = "set order \<union> set stack" and G = "set seen \<union> set (g # gs)"])
            (use Cons.prems in \<open>auto simp: scan_ok_def\<close>)
        from all_followed_see [OF this, of g] Thunk show ?thesis by simp
      qed
      moreover have "all_reachable p (set order \<union> set (t # stack)) (set (seen @ [g]) \<union> set gs)"
        using Cons.prems t unfolding scan_ok_def G by (simp add: all_reachable_def)
      ultimately have "scan_ok p order (seen @ [g]) gs (t # stack)"
        using Cons.prems False by (simp add: scan_ok_def)
      from Cons.IH [OF this] False Thunk g show ?thesis by simp
    next
      case (PreEvaluated pe)
      have "all_followed p (set order) (set (seen @ [g])) (set order \<union> set stack) (set (seen @ [g]) \<union> set gs)"
        using Cons.prems PreEvaluated all_followed_see [of p "set order" "set seen" _ _ g] unfolding scan_ok_def G by simp
      with Cons.prems False have "scan_ok p order (seen @ [g]) gs stack" unfolding scan_ok_def G by simp
      from Cons.IH [OF this] False PreEvaluated g show ?thesis by simp
    qed
  qed
qed simp

lemma visit_ok:
  assumes "refs_in_range p" and "scan_ok p order seen [] (f # stack)" and "f \<notin> set order"
  defines "b \<equiv> body (prog_functions p ! f)"
  shows "scan_ok p (order @ [f]) seen (rev (block_globals b)) (rev (block_fns b) @ stack)"
proof -
  from assms(2) have f: "f < length (prog_functions p)" "reach_fn p f" by (auto simp: scan_ok_def all_reachable_def)
  let ?F = "set (order @ [f]) \<union> set (rev (block_fns b) @ stack)" let ?G = "set seen \<union> set (rev (block_globals b))"
  have "all_reachable p ?F ?G"
    using assms(2) f refs_in_rangeD(2,3) [OF assms(1) f(1)] reach_call [OF f(2)] reach_load [OF f(2)]
    unfolding scan_ok_def all_reachable_def b_def by auto
  moreover have "all_followed p (set order) (set seen) ?F ?G"
    by (rule all_followed_mono [where F = "set order \<union> set (f # stack)" and G = "set seen \<union> set []"])
      (use assms(2) in \<open>auto simp: scan_ok_def\<close>)
  then have "all_followed p (set (order @ [f])) (set seen) ?F ?G" by (auto simp: all_followed_def b_def)
  ultimately show ?thesis using assms(2,3) by (simp add: scan_ok_def)
qed

lemma reach_loop_ok:
  assumes "refs_in_range p" and "scan_ok p (reach_order r) (reach_globals r) [] stack"
  shows "\<exists>r'. reach_loop p r stack = Some r' \<and> scan_ok p (reach_order r') (reach_globals r') [] []"
  using assms
proof (induction p r stack rule: reach_loop.induct)
  case (2 p r f stack)
  show ?case
  proof (cases "f \<in> set (reach_order r)")
    case True
    then have "set (reach_order r) \<union> set (f # stack) = set (reach_order r) \<union> set stack" by auto
    with "2.prems"(2) have "scan_ok p (reach_order r) (reach_globals r) [] stack" by (simp add: scan_ok_def)
    with "2.IH"(1) [OF True "2.prems"(1)] True show ?thesis by simp
  next
    case False
    let ?b = "body (prog_functions p ! f)"
    from "2.prems"(2) have f: "f < length (prog_functions p)" by (auto simp: scan_ok_def all_reachable_def)
    from drain_ok [OF "2.prems"(1) visit_ok [OF "2.prems" False]] obtain seen' stack' where
      d: "drain_globals (globals p) (rev (block_globals ?b)) (reach_globals r) (rev (block_fns ?b) @ stack) = Some (seen', stack')"
        "scan_ok p (reach_order r @ [f]) seen' [] stack'" by blast
    from "2.IH"(2) [OF False f refl d(1) refl "2.prems"(1)] d(2) have
      "\<exists>r'. reach_loop p (r\<lparr>reach_globals := seen', reach_order := reach_order r @ [f]\<rparr>) stack' = Some r'
         \<and> scan_ok p (reach_order r') (reach_globals r') [] []" by simp
    with False f d(1) show ?thesis by (simp add: Let_def)
  qed
qed auto

lemma compute_reach_ends:
  assumes "refs_in_range p"
  shows "\<exists>r. compute_reach p = Some r \<and> distinct (reach_order r) \<and> set (reach_order r) = {f. reach_fn p f}
    \<and> set (reach_globals r) = {g. reach_global p g}"
proof -
  have "scan_ok p [] [] [] [entry p]"
    by (simp add: scan_ok_def all_reachable_def all_followed_def reach_entry refs_in_rangeD(1) [OF assms])
  then have "scan_ok p (reach_order \<lparr>reach_globals = [], reach_order = []\<rparr>) (reach_globals \<lparr>reach_globals = [], reach_order = []\<rparr>)
      [] [entry p]" by simp
  from reach_loop_ok [OF assms this] obtain r where r: "compute_reach p = Some r" "scan_ok p (reach_order r) (reach_globals r) [] []"
    by (auto simp: compute_reach_def)
  have "reach_fn p f \<Longrightarrow> f \<in> set (reach_order r)" and "reach_global p g \<Longrightarrow> g \<in> set (reach_globals r)" for f g
    by (induction rule: reach_fn_reach_global.inducts) (use r(2) in \<open>auto simp: scan_ok_def all_followed_def\<close>)
  with r show ?thesis by (auto simp: scan_ok_def all_reachable_def)
qed


lemma closure_escapes:
  "g \<in> set (collect_closure_targets b) \<longleftrightarrow> (\<exists>args. computes b (MakeClosure g args))"
proof -
  have "g \<in> set (closure_target rv) \<longleftrightarrow> (\<exists>args. rv = MakeClosure g args)" for rv
    by (cases rv) (auto simp: closure_target_def)
  then show ?thesis by (auto simp: collect_closure_targets_def computes_rvs)
qed

text \<open>
  A function may be called through an indirect call: it is the entry, or a \<open>MakeClosure\<close> of it
  stands anywhere in the body of a reachable function.
\<close>

definition called_indirectly :: "ir_program \<Rightarrow> func_id \<Rightarrow> bool" where
  "called_indirectly p g \<longleftrightarrow>
     g = entry p \<or> (\<exists>f args. reach_fn p f \<and> computes (body (prog_functions p ! f)) (MakeClosure g args))"

text \<open>
  C37. The signatures an indirect call relies on: after \<open>monomorphize_signatures\<close> the entry and
  every function whose closure is built by a statement, however deeply nested, of a reachable
  function's body have the uniform boxed signature; nothing else of any function changes, and
  every other function keeps its signature.
\<close>

theorem monomorphize_signatures_safe:
  assumes "refs_in_range p"
  shows "\<exists>p'. monomorphize_signatures p = Some p' \<and> length (prog_functions p') = length (prog_functions p)
    \<and> (\<forall>g < length (prog_functions p).
         (called_indirectly p g \<longrightarrow> prog_functions p' ! g = boxed_signature (prog_functions p ! g))
         \<and> (\<not> called_indirectly p g \<longrightarrow> prog_functions p' ! g = prog_functions p ! g))"
proof -
  from compute_reach_ends [OF assms] obtain r where r: "compute_reach p = Some r" "set (reach_order r) = {f. reach_fn p f}" by blast
  have "g = entry p \<or> g \<in> set (escaped_fns p r) \<longleftrightarrow> called_indirectly p g" for g
    using r(2) by (auto simp: escaped_fns_def closure_escapes called_indirectly_def)
  with r(1) show ?thesis
    by (auto simp: monomorphize_signatures_def filter_signature_def nth_enumerate_eq)
qed

section \<open>An example\<close>

text \<open>
  The entry calls function 1 directly and loads global 0, whose thunk 2 closes over function 3;
  function 4 and global 1 are dead.
\<close>

definition reach_example :: ir_program where
  "reach_example =
     (let fn = (\<lambda>nm ks. \<lparr>fn_name = nm, fn_module = ''m'', params = [], captures = [], is_async = False, poll_fn = None,
                  body = map synthetic ks, var_reprs = [], param_reprs = [], ret_repr = I64\<rparr>)
      in \<lparr>prog_functions =
            [fn ''main'' [Let 0 (Call (Callee_Function 1) []), Let 1 (GlobalRef 0), Return (AVar 0)],
             fn ''one'' [Return (AConst (CInt 1))],
             fn ''thunk'' [Let 0 (MakeClosure 3 []), Return (AVar 0)],
             fn ''two'' [Return (AConst (CInt 2))],
             fn ''dead'' [Let 0 (GlobalRef 1), Let 1 (MakeClosure 1 []), Return (AVar 0)]],
          globals = [Thunk 2, Thunk 4], enums = [], entry = 0, test_suites = [],
          param_shapes = Map.empty, extra_nominal = Map.empty\<rparr>)"

lemma reach_example_range: "refs_in_range reach_example"
  by code_simp


theorem monomorphize_signatures_safe_witness:
  "\<exists>p'. monomorphize_signatures reach_example = Some p' \<and> ret_repr (prog_functions p' ! 0) = Boxed
     \<and> ret_repr (prog_functions p' ! 3) = Boxed"
proof -
  have n: "length (prog_functions reach_example) = 5" by code_simp
  from monomorphize_signatures_safe [OF reach_example_range] obtain p' where p': "monomorphize_signatures reach_example = Some p'"
    and s: "\<And>g. g < 5 \<Longrightarrow> called_indirectly reach_example g \<Longrightarrow>
        prog_functions p' ! g = boxed_signature (prog_functions reach_example ! g)"
    unfolding n by blast
  have "reach_fn reach_example 0" using reach_entry [of reach_example] by (simp add: reach_example_def Let_def)
  then have "reach_global reach_example 0" by (rule reach_load) code_simp
  then have r: "reach_fn reach_example 2" by (rule reach_thunk) code_simp
  have "stmt_in (Let 0 (MakeClosure 3 [])) (body (prog_functions reach_example ! 2))"
    by (rule stmt_here [where r = "collapsed 0 0"]) (simp add: reach_example_def Let_def synthetic_def)
  with r have "called_indirectly reach_example 3" unfolding called_indirectly_def computes_def by blast
  moreover have "called_indirectly reach_example 0" by (simp add: called_indirectly_def reach_example_def Let_def)
  ultimately show ?thesis using s [of 3] s [of 0] p' by (auto simp: boxed_signature_def)
qed

end
