(* ===== verification/Syntax.thy ===== *)
theory Syntax
  imports IrTypes
begin

text \<open>
  The part of the syntax trees of compiler/src/ast the analyzer's pattern checks and the lowering
  of patterns work on: identifiers, literals and patterns. The expressions inside an interpolated
  string pattern are the parameter \<open>'e\<close>: neither of the two looks into them.
\<close>

record identifier_node =
  ident_name :: string
  ident_range :: range

text \<open>
  \<open>f64\<close> and \<open>usize\<close> literals are 64-bit words; the flag of a string literal says whether it
  was written with triple quotes.
\<close>

datatype literal_kind =
    Lit_Bool bool
  | Lit_FloatDecimal "64 word"
  | Lit_Duration i64
  | Lit_IntDecimal "64 word"
  | Lit_IntOctal "64 word"
  | Lit_IntHex "64 word"
  | Lit_IntBinary "64 word"
  | Lit_String string bool
  | Lit_Bytes "8 word list"

record literal_node =
  lit_kind :: literal_kind
  lit_range :: range

record constructor_head =
  head_range :: range
  head_module :: "identifier_node option"
  head_enum :: "identifier_node option"
  head_variant :: identifier_node

definition is_bare :: "constructor_head \<Rightarrow> bool" where
  "is_bare h \<longleftrightarrow> head_enum h = None"

text \<open>The trailing rest of a list or of a record pattern, \<open>...\<close> or \<open>...name\<close>.\<close>

record rest_pattern =
  rest_range :: range
  rest_binding :: "identifier_node option"

datatype 'e pattern_node = PatternNode (pat_range: range) (pat_kind: "'e pattern_kind")
  and 'e pattern_kind =
    Pat_Identifier identifier_node
  | Pat_Constructor constructor_head "'e pattern_node list"
  | Pat_Tuple "'e pattern_node list"
  | Pat_Record "(identifier_node \<times> 'e pattern_node) list" "rest_pattern option"
  | Pat_List "'e pattern_node list" "rest_pattern option"
  | Pat_Underscore
  | Pat_Literal literal_node
  | Pat_Interpolation "'e list"

text \<open>The source form of a constructor head, its parts joined with dots.\<close>

definition dotted :: "constructor_head \<Rightarrow> string" where
  "dotted h =
     (let prefix = (\<lambda>m. case m of None \<Rightarrow> '''' | Some i \<Rightarrow> ident_name i @ ''.'')
      in prefix (head_module h) @ prefix (head_enum h) @ ident_name (head_variant h))"

end
