(* ===== verification/Exhaustive.thy ===== *)
theory Exhaustive
  imports Substitution Syntax
begin

text \<open>
  The exhaustiveness check of \<open>when\<close> in compiler/src/analyzer.rs. The enum definitions the
  analyzer knows are an association list of qualified names; a check returns the cases it reports
  as missing, the empty list when it reports nothing.
\<close>

section \<open>Enum definitions\<close>

record enum_def =
  param_vars :: "nat list"
  variants :: "(string \<times> ty list) list"

type_synonym enum_defs = "(string \<times> enum_def) list"

definition is_bare_prelude_variant :: "string \<Rightarrow> string \<Rightarrow> bool" where
  "is_bare_prelude_variant q v \<longleftrightarrow>
     q = ''__prelude__.option'' \<and> (v = ''some'' \<or> v = ''none'')
     \<or> q = ''__prelude__.result'' \<and> (v = ''ok'' \<or> v = ''err'')"

definition find_variant_in_enum :: "enum_defs \<Rightarrow> string \<Rightarrow> string \<Rightarrow> ty list option" where
  "find_variant_in_enum E n v = Option.bind (map_of E n) (\<lambda>d. map_of (variants d) v)"

definition find_variant_globally :: "enum_defs \<Rightarrow> string \<Rightarrow> (string \<times> ty list) list" where
  "find_variant_globally E v =
     concat (map (\<lambda>(n, d). map (\<lambda>(w, ps). (n, ps)) (filter (\<lambda>(w, ps). w = v) (variants d))) E)"

text \<open>
  The substitution of an enum's parameters by its arguments. It has no row solutions, so it
  always returns.
\<close>

definition payload_subst :: "enum_defs \<Rightarrow> string \<Rightarrow> ty list \<Rightarrow> substitution" where
  "payload_subst E n targs =
     \<lparr>solutions = fold (\<lambda>(v, t). AList.update v t)
        (zip (case map_of E n of None \<Rightarrow> [] | Some d \<Rightarrow> param_vars d) targs) [],
      row_solutions = [], tuple_row_solutions = []\<rparr>"

section \<open>Catch-all patterns\<close>

fun pattern_is_catch_all :: "enum_defs \<Rightarrow> 'e pattern_node \<Rightarrow> bool" where
  "pattern_is_catch_all E (PatternNode r k) =
     (case k of
        Pat_Underscore \<Rightarrow> True
      | Pat_Identifier x \<Rightarrow>
          list_all (\<lambda>(q, ps). ps \<noteq> [])
            (filter (\<lambda>(q, ps). is_bare_prelude_variant q (ident_name x)) (find_variant_globally E (ident_name x)))
      | Pat_Tuple ps \<Rightarrow> list_all (pattern_is_catch_all E) ps
      | Pat_Record fs rest \<Rightarrow> list_all (\<lambda>(n, p). pattern_is_catch_all E p) fs
      | Pat_List items rest \<Rightarrow> items = [] \<and> rest \<noteq> None
      | _ \<Rightarrow> False)"

section \<open>Nested coverage\<close>

text \<open>The arguments of an arm that is headed by the variant.\<close>

definition variant_arm :: "string \<Rightarrow> nat \<Rightarrow> string \<Rightarrow> 'e pattern_node \<Rightarrow> 'e pattern_node list option" where
  "variant_arm enum arity vname p =
     (case pat_kind p of
        Pat_Constructor h args \<Rightarrow> if ident_name (head_variant h) = vname then Some args else None
      | Pat_Identifier x \<Rightarrow>
          if arity = 0 \<and> ident_name x = vname \<and> is_bare_prelude_variant enum (ident_name x) then Some [] else None
      | _ \<Rightarrow> None)"

definition first_arg :: "'a list \<Rightarrow> 'a option" where
  "first_arg args = (case args of [] \<Rightarrow> None | p # ps \<Rightarrow> Some p)"

definition has_bool_literal :: "bool \<Rightarrow> 'e pattern_node list \<Rightarrow> bool" where
  "has_bool_literal want pats \<longleftrightarrow>
     list_ex (\<lambda>p. case pat_kind p of Pat_Literal l \<Rightarrow> lit_kind l = Lit_Bool want | _ \<Rightarrow> False) pats"

lemma size_variant_arm: "variant_arm n k v p = Some args \<Longrightarrow> size_list size args < size p"
  by (cases p) (auto simp: variant_arm_def split: pattern_kind.splits if_splits)

lemma size_arms:
  "size_list size (List.map_filter first_arg (List.map_filter (variant_arm n k v) pats)) \<le> size_list size pats"
  "List.map_filter first_arg (List.map_filter (variant_arm n k v) pats) \<noteq> [] \<Longrightarrow>
     size_list size (List.map_filter first_arg (List.map_filter (variant_arm n k v) pats)) < size_list size pats"
proof (induction pats)
  case (Cons p ps)
  {
    case 1
    then show ?case using Cons
      by (auto simp: first_arg_def dest!: size_variant_arm split: option.splits list.splits)
  next
    case 2
    then show ?case using Cons
      by (auto simp: first_arg_def dest!: size_variant_arm split: option.splits list.splits)
  }
qed simp_all

function (sequential) patterns_cover :: "enum_defs \<Rightarrow> ty \<Rightarrow> 'e pattern_node list \<Rightarrow> bool"
  and variant_args_covered :: "enum_defs \<Rightarrow> string \<Rightarrow> ty list \<Rightarrow> string \<Rightarrow> 'e pattern_node list \<Rightarrow> bool" where
  "patterns_cover E t pats \<longleftrightarrow>
     list_ex (pattern_is_catch_all E) pats
     \<or> (case t of
          TBool \<Rightarrow> has_bool_literal True pats \<and> has_bool_literal False pats
        | TEnum n targs \<Rightarrow>
            (case map_of E n of
               Some d \<Rightarrow> list_all (\<lambda>v. variant_args_covered E n targs (fst v) pats) (variants d)
             | None \<Rightarrow> False)
        | _ \<Rightarrow> False)"
| "variant_args_covered E n targs v pats \<longleftrightarrow>
     (case find_variant_in_enum E n v of
        None \<Rightarrow> False
      | Some ps \<Rightarrow>
          (let arms = List.map_filter (variant_arm n (length ps) v) pats
           in if length ps = 0 then arms \<noteq> []
              else if length ps = 1
              then (let sub = List.map_filter first_arg arms
                    in if sub = [] then False
                       else case apply_to_type (payload_subst E n targs) (ps ! 0) of
                              Some payload \<Rightarrow> patterns_cover E payload sub
                            | None \<Rightarrow> False)
              else list_ex (list_all (pattern_is_catch_all E)) arms))"
  by pat_completeness auto
termination
  by (relation "measures [\<lambda>x. case x of Inl (E, t, pats) \<Rightarrow> size_list size pats | Inr (E, n, ts, v, pats) \<Rightarrow> size_list size pats,
        \<lambda>x. case x of Inl y \<Rightarrow> 1 | Inr y \<Rightarrow> 0]")
    (auto intro: size_arms(2))

declare patterns_cover.simps [simp del] variant_args_covered.simps [simp del]

section \<open>The check of a \<open>when\<close>\<close>

definition bool_name :: "bool \<Rightarrow> string" where
  "bool_name b = (if b then ''true'' else ''false'')"

text \<open>What one case covers: everything (\<open>None\<close>, the check returns), or these variants.\<close>

definition case_covers :: "enum_defs \<Rightarrow> ty \<Rightarrow> 'e pattern_node \<Rightarrow> string list option" where
  "case_covers E t p =
     (case pat_kind p of
        Pat_Underscore \<Rightarrow> None
      | Pat_Identifier x \<Rightarrow>
          (let nullary = (case t of
               TEnum n targs \<Rightarrow> is_bare_prelude_variant n (ident_name x) \<and> find_variant_in_enum E n (ident_name x) = Some []
             | _ \<Rightarrow> False)
           in if nullary then Some [ident_name x] else None)
      | Pat_Constructor h args \<Rightarrow>
          Some (if list_all (pattern_is_catch_all E) args then [ident_name (head_variant h)] else [])
      | Pat_Literal l \<Rightarrow>
          Some (if t = TBool then (case lit_kind l of Lit_Bool b \<Rightarrow> [bool_name b] | _ \<Rightarrow> []) else [])
      | _ \<Rightarrow> Some [])"

fun covered_names :: "enum_defs \<Rightarrow> ty \<Rightarrow> 'e pattern_node list \<Rightarrow> string list option" where
  "covered_names E t [] = Some []"
| "covered_names E t (p # ps) =
     (case case_covers E t p of
        None \<Rightarrow> None
      | Some names \<Rightarrow> map_option ((@) names) (covered_names E t ps))"

fun list_cases :: "enum_defs \<Rightarrow> 'e pattern_node list \<Rightarrow> (bool \<times> bool) option" where
  "list_cases E [] = Some (False, False)"
| "list_cases E (p # ps) =
     (case pat_kind p of
        Pat_Underscore \<Rightarrow> None
      | Pat_Identifier x \<Rightarrow> None
      | Pat_List items rest \<Rightarrow>
          (if items = [] \<and> rest \<noteq> None then None
           else map_option (\<lambda>(covers_empty, covers_non_empty).
                  (covers_empty \<or> items = [], covers_non_empty \<or> items \<noteq> [] \<and> rest \<noteq> None \<and> list_all (pattern_is_catch_all E) items))
                (list_cases E ps))
      | _ \<Rightarrow> list_cases E ps)"

definition check_when_list_exhaustive :: "enum_defs \<Rightarrow> 'e pattern_node list \<Rightarrow> string list" where
  "check_when_list_exhaustive E cases =
     (case list_cases E cases of
        None \<Rightarrow> []
      | Some (covers_empty, covers_non_empty) \<Rightarrow>
          (if covers_empty then [] else [''[]'']) @ (if covers_non_empty then [] else [''[_, ...]'']))"

definition record_case_covers :: "enum_defs \<Rightarrow> 'e pattern_node \<Rightarrow> bool" where
  "record_case_covers E p =
     (case pat_kind p of
        Pat_Underscore \<Rightarrow> True
      | Pat_Identifier x \<Rightarrow> True
      | Pat_Record fs rest \<Rightarrow> list_all (\<lambda>(n, q). pattern_is_catch_all E q) fs
      | _ \<Rightarrow> False)"

definition check_when_record_exhaustive :: "enum_defs \<Rightarrow> 'e pattern_node list \<Rightarrow> string list" where
  "check_when_record_exhaustive E cases =
     (if list_ex (record_case_covers E) cases then [] else [''else''])"

definition required_cases :: "enum_defs \<Rightarrow> ty \<Rightarrow> string list option" where
  "required_cases E t =
     (case t of
        TBool \<Rightarrow> Some [''true'', ''false'']
      | TEnum n targs \<Rightarrow> map_option (\<lambda>d. map fst (variants d)) (map_of E n)
      | _ \<Rightarrow> Some [])"

definition check_when_exhaustive :: "enum_defs \<Rightarrow> ty \<Rightarrow> 'e pattern_node list \<Rightarrow> string list" where
  "check_when_exhaustive E t cases =
     (case t of
        TList e \<Rightarrow> check_when_list_exhaustive E cases
      | TRecord fs rest \<Rightarrow> check_when_record_exhaustive E cases
      | _ \<Rightarrow>
          (case required_cases E t of
             None \<Rightarrow> []
           | Some required \<Rightarrow>
               (case covered_names E t cases of
                  None \<Rightarrow> []
                | Some covered \<Rightarrow>
                    (let missing = filter (\<lambda>v. v \<notin> set covered) required
                     in case t of
                          TEnum n targs \<Rightarrow> filter (\<lambda>v. \<not> variant_args_covered E n targs v cases) missing
                        | _ \<Rightarrow> missing))))"

end
