(* ===== verification/LowerPattern.thy ===== *)
theory LowerPattern
  imports Substitution Syntax
begin

text \<open>
  The lowering of patterns, ir/src/lower.rs: a source pattern becomes an IR pattern, its names
  become fresh variables in the scope of the function. Of the lowering state only what patterns
  touch is here: the enum table, the imports, the module and the active substitution, and of the
  current function its next variable and its locals. A failed lowering is an error of the user's
  program; its message is the value \<open>lower_error\<close>.
\<close>

datatype lower_error =
    Unknown_variant string string
  | Not_imported string
  | Variant_not_found string string
  | Not_prelude_variant string
  | Interpolation_pattern

record lower_ctx =
  ctx_enums :: enum_table
  ctx_imports :: "(string \<times> string) list"
  current_module :: string
  mono_subst :: substitution

record fn_scope =
  locals :: "(string \<times> var_id) list"
  next_fresh :: var_id

definition alloc_var :: "fn_scope \<Rightarrow> var_id \<times> fn_scope" where
  "alloc_var s = (next_fresh s, s\<lparr>next_fresh := next_fresh s + 1\<rparr>)"

definition push_local :: "string \<Rightarrow> var_id \<Rightarrow> fn_scope \<Rightarrow> fn_scope" where
  "push_local n v s = s\<lparr>locals := locals s @ [(n, v)]\<rparr>"

section \<open>Variants and shapes\<close>

definition variant_tag :: "lower_ctx \<Rightarrow> string \<Rightarrow> string \<Rightarrow> nat option" where
  "variant_tag c n v = Option.bind (map_of (ctx_enums c) n) (\<lambda>vs. position v (map fst vs))"

definition pattern_variant_tag :: "lower_ctx \<Rightarrow> string \<Rightarrow> string \<Rightarrow> lower_error + nat" where
  "pattern_variant_tag c n v = (case variant_tag c n v of None \<Rightarrow> Inl (Unknown_variant v n) | Some t \<Rightarrow> Inr t)"

text \<open>The segment of a module path after its last slash.\<close>

definition eponym :: "string \<Rightarrow> string" where
  "eponym m = rev (takeWhile (\<lambda>c. c \<noteq> CHR 0x2F) (rev m))"

definition enum_candidates :: "lower_ctx \<Rightarrow> string \<Rightarrow> string list" where
  "enum_candidates c e =
     [current_module c @ ''.'' @ e, ''__prelude__.'' @ e]
     @ (case map_of (ctx_imports c) e of None \<Rightarrow> [] | Some m \<Rightarrow> [m @ ''.'' @ eponym m])"

definition resolve_variant_enum :: "lower_ctx \<Rightarrow> constructor_head \<Rightarrow> ty \<Rightarrow> lower_error + string" where
  "resolve_variant_enum c h t =
     (let v = ident_name (head_variant h)
      in case t of
           TEnum q targs \<Rightarrow> Inr q
         | _ \<Rightarrow>
             (case head_enum h of
                Some e \<Rightarrow>
                  (case head_module h of
                     Some m \<Rightarrow>
                       (case map_of (ctx_imports c) (ident_name m) of
                          None \<Rightarrow> Inl (Not_imported (ident_name m))
                        | Some qm \<Rightarrow> Inr (qm @ ''.'' @ ident_name e))
                   | None \<Rightarrow>
                       (case List.find (\<lambda>q. variant_tag c q v \<noteq> None) (enum_candidates c (ident_name e)) of
                          None \<Rightarrow> Inl (Variant_not_found v (ident_name e))
                        | Some q \<Rightarrow> Inr q))
              | None \<Rightarrow>
                  (case List.find (\<lambda>q. variant_tag c q v \<noteq> None)
                          (filter (\<lambda>q. take 12 q = ''__prelude__.'') (map fst (ctx_enums c))) of
                     None \<Rightarrow> Inl (Not_prelude_variant v)
                   | Some q \<Rightarrow> Inr q)))"

definition record_shape_of :: "ty \<Rightarrow> record_shape option" where
  "record_shape_of t =
     (case t of
        TRecord fs None \<Rightarrow>
          (let sorted = sort_key fst fs
           in Some \<lparr>shape_fields = map fst sorted,
                    field_reprs = map (\<lambda>f. if snd f = TFloat then F64 else Boxed) sorted\<rparr>)
      | _ \<Rightarrow> None)"

text \<open>A cyclic substitution would not return; the shape is then \<open>None\<close> as well.\<close>

definition shape_of :: "lower_ctx \<Rightarrow> ty \<Rightarrow> record_shape option" where
  "shape_of c t =
     (if solutions (mono_subst c) = [] \<and> row_solutions (mono_subst c) = [] \<and> tuple_row_solutions (mono_subst c) = []
      then record_shape_of t
      else Option.bind (apply_to_type (mono_subst c) t) record_shape_of)"

fun literal_to_const :: "literal_kind \<Rightarrow> const" where
  "literal_to_const (Lit_Bool b) = CBool b"
| "literal_to_const (Lit_String s triple) = CStr s"
| "literal_to_const (Lit_Bytes b) = CBytes b"
| "literal_to_const (Lit_FloatDecimal x) = CFloat x"
| "literal_to_const (Lit_IntDecimal n) = CInt n"
| "literal_to_const (Lit_IntHex n) = CInt n"
| "literal_to_const (Lit_IntOctal n) = CInt n"
| "literal_to_const (Lit_IntBinary n) = CInt n"
| "literal_to_const (Lit_Duration n) = CDuration n"

section \<open>Patterns\<close>

definition lower_rest_binding :: "identifier_node option \<Rightarrow> 'r \<Rightarrow> (var_id \<Rightarrow> 'r) \<Rightarrow> fn_scope \<Rightarrow> 'r \<times> fn_scope" where
  "lower_rest_binding b anon mk s =
     (case b of
        None \<Rightarrow> (anon, s)
      | Some x \<Rightarrow> (case alloc_var s of (v, s') \<Rightarrow> (mk v, push_local (ident_name x) v s')))"

definition lower_rest :: "rest_pattern option \<Rightarrow> 'r \<Rightarrow> 'r \<Rightarrow> (var_id \<Rightarrow> 'r) \<Rightarrow> fn_scope \<Rightarrow> 'r \<times> fn_scope" where
  "lower_rest rest none anon mk s =
     (case rest of None \<Rightarrow> (none, s) | Some rp \<Rightarrow> lower_rest_binding (rest_binding rp) anon mk s)"

text \<open>A bare name that is a nullary variant of the subject's enum.\<close>

definition names_nullary :: "lower_ctx \<Rightarrow> ty \<Rightarrow> string \<Rightarrow> string option" where
  "names_nullary c t x =
     (case t of
        TEnum q targs \<Rightarrow>
          (case map_of (ctx_enums c) q of
             Some vs \<Rightarrow> if list_ex (\<lambda>(n, a). n = x \<and> a = 0) vs then Some q else None
           | None \<Rightarrow> None)
      | _ \<Rightarrow> None)"

definition lower_identifier :: "lower_ctx \<Rightarrow> ty \<Rightarrow> string \<Rightarrow> fn_scope \<Rightarrow> lower_error + pattern \<times> fn_scope" where
  "lower_identifier c t x s =
     (case names_nullary c t x of
        Some q \<Rightarrow>
          (case pattern_variant_tag c q x of Inl e \<Rightarrow> Inl e | Inr tag \<Rightarrow> Inr (PVariant x tag [], s))
      | None \<Rightarrow>
          (if t = TBool \<and> (x = ''true'' \<or> x = ''false'') then Inr (PLiteral (CBool (x = ''true'')), s)
           else case alloc_var s of (v, s') \<Rightarrow> Inr (PBind v, push_local x v s')))"

fun lower_pattern :: "lower_ctx \<Rightarrow> ty \<Rightarrow> 'e pattern_node \<Rightarrow> fn_scope \<Rightarrow> lower_error + pattern \<times> fn_scope"
  and lower_kind :: "lower_ctx \<Rightarrow> ty \<Rightarrow> 'e pattern_kind \<Rightarrow> fn_scope \<Rightarrow> lower_error + pattern \<times> fn_scope"
  and lower_sub_patterns :: "lower_ctx \<Rightarrow> 'e pattern_node list \<Rightarrow> fn_scope \<Rightarrow> lower_error + pattern list \<times> fn_scope"
  and lower_fields :: "lower_ctx \<Rightarrow> (identifier_node \<times> 'e pattern_node) list \<Rightarrow> fn_scope
        \<Rightarrow> lower_error + (string \<times> pattern) list \<times> fn_scope" where
  "lower_pattern c t (PatternNode r k) s = lower_kind c t k s"
| "lower_kind c t Pat_Underscore s = Inr (PWildcard, s)"
| "lower_kind c t (Pat_Identifier x) s = lower_identifier c t (ident_name x) s"
| "lower_kind c t (Pat_Literal l) s = Inr (PLiteral (literal_to_const (lit_kind l)), s)"
| "lower_kind c t (Pat_Constructor h subs) s =
     (case resolve_variant_enum c h t of
        Inl e \<Rightarrow> Inl e
      | Inr q \<Rightarrow>
          (case pattern_variant_tag c q (ident_name (head_variant h)) of
             Inl e \<Rightarrow> Inl e
           | Inr tag \<Rightarrow>
               (case lower_sub_patterns c subs s of
                  Inl e \<Rightarrow> Inl e
                | Inr (ps, s') \<Rightarrow> Inr (PVariant (ident_name (head_variant h)) tag ps, s'))))"
| "lower_kind c t (Pat_Tuple elems) s =
     (case lower_sub_patterns c elems s of Inl e \<Rightarrow> Inl e | Inr (ps, s') \<Rightarrow> Inr (PTuple ps, s'))"
| "lower_kind c t (Pat_List items rest) s =
     (case lower_sub_patterns c items s of
        Inl e \<Rightarrow> Inl e
      | Inr (ps, s') \<Rightarrow>
          (case lower_rest rest None (Some ListRest_Anon) (\<lambda>v. Some (ListRest_Bind v)) s' of
             (r, s'') \<Rightarrow> Inr (PList ps r, s'')))"
| "lower_kind c t (Pat_Record fs rest) s =
     (case lower_fields c fs s of
        Inl e \<Rightarrow> Inl e
      | Inr (ps, s') \<Rightarrow>
          (case lower_rest rest Exact Open RecordRest_Bind s' of
             (r, s'') \<Rightarrow> Inr (PRecord ps r (shape_of c t), s'')))"
| "lower_kind c t (Pat_Interpolation es) s = Inl Interpolation_pattern"
| "lower_sub_patterns c [] s = Inr ([], s)"
| "lower_sub_patterns c (p # ps) s =
     (case lower_pattern c TUnknown p s of
        Inl e \<Rightarrow> Inl e
      | Inr (q, s') \<Rightarrow>
          (case lower_sub_patterns c ps s' of Inl e \<Rightarrow> Inl e | Inr (qs, s'') \<Rightarrow> Inr (q # qs, s'')))"
| "lower_fields c [] s = Inr ([], s)"
| "lower_fields c ((n, p) # fs) s =
     (case lower_pattern c TUnknown p s of
        Inl e \<Rightarrow> Inl e
      | Inr (q, s') \<Rightarrow>
          (case lower_fields c fs s' of Inl e \<Rightarrow> Inl e | Inr (qs, s'') \<Rightarrow> Inr ((ident_name n, q) # qs, s'')))"

text \<open>
  The arms of a \<open>when\<close>: each pattern is lowered against the subject's type, its body with the
  names the pattern bound (\<open>lower_body\<close>, the lowering of a block, is the parameter), and the
  locals are cut back to where they were.
\<close>

fun lower_arms :: "lower_ctx \<Rightarrow> ty \<Rightarrow> ('b \<Rightarrow> fn_scope \<Rightarrow> lower_error + block \<times> fn_scope) \<Rightarrow>
    ('e pattern_node \<times> 'b) list \<Rightarrow> fn_scope \<Rightarrow> lower_error + match_arm list \<times> fn_scope" where
  "lower_arms c t lower_body [] s = Inr ([], s)"
| "lower_arms c t lower_body ((p, b) # cases) s =
     (case lower_pattern c t p s of
        Inl e \<Rightarrow> Inl e
      | Inr (q, s1) \<Rightarrow>
          (case lower_body b s1 of
             Inl e \<Rightarrow> Inl e
           | Inr (blk, s2) \<Rightarrow>
               (case lower_arms c t lower_body cases (s2\<lparr>locals := take (length (locals s)) (locals s2)\<rparr>) of
                  Inl e \<Rightarrow> Inl e
                | Inr (arms, s3) \<Rightarrow> Inr (MatchArm q blk # arms, s3))))"

end
