(* ===== verification/PatternSem.thy ===== *)
theory PatternSem
  imports IrSem Exhaustive LowerPattern
begin

text \<open>
  What source patterns mean: the specification the analyzer's exhaustiveness check and the
  lowering of patterns are proved against. It is no code of the repository. \<open>has_type\<close> says which
  runtime values a type has, \<open>pat_ok\<close> which patterns the analyzer accepts for a type, and
  \<open>src_match\<close> what a pattern binds when it matches a value.
\<close>

section \<open>Typed values\<close>

definition instantiate :: "enum_defs \<Rightarrow> string \<Rightarrow> ty list \<Rightarrow> ty list \<Rightarrow> ty list" where
  "instantiate E n targs ps = map (\<lambda>p. the (apply_to_type (payload_subst E n targs) p)) ps"

definition variant_index :: "enum_defs \<Rightarrow> string \<Rightarrow> string \<Rightarrow> nat option" where
  "variant_index E n v = Option.bind (map_of E n) (\<lambda>d. position v (map fst (variants d)))"

text \<open>The parts of a type and of a value of the shape a pattern asks for.\<close>

definition enum_view :: "ty \<Rightarrow> (string \<times> ty list) option" where
  "enum_view t = (case t of TEnum n targs \<Rightarrow> Some (n, targs) | _ \<Rightarrow> None)"

definition tuple_view :: "ty \<Rightarrow> ty list option" where
  "tuple_view t = (case t of TTuple ts \<Rightarrow> Some ts | _ \<Rightarrow> None)"

definition record_view :: "ty \<Rightarrow> ((string \<times> ty) list \<times> nat option) option" where
  "record_view t = (case t of TRecord fs tail \<Rightarrow> Some (fs, tail) | _ \<Rightarrow> None)"

definition list_view :: "ty \<Rightarrow> ty option" where
  "list_view t = (case t of TList u \<Rightarrow> Some u | _ \<Rightarrow> None)"

definition variant_value :: "val \<Rightarrow> (nat \<times> val list) option" where
  "variant_value v = (case v of VVariant tag vs \<Rightarrow> Some (tag, vs) | _ \<Rightarrow> None)"

definition tuple_value :: "val \<Rightarrow> val list option" where
  "tuple_value v = (case v of VTuple vs \<Rightarrow> Some vs | _ \<Rightarrow> None)"

definition record_value :: "val \<Rightarrow> (string \<times> val) list option" where
  "record_value v = (case v of VRecord vs \<Rightarrow> Some vs | _ \<Rightarrow> None)"

definition list_value :: "val \<Rightarrow> val list option" where
  "list_value v = (case v of VList vs \<Rightarrow> Some vs | _ \<Rightarrow> None)"

lemmas views = enum_view_def tuple_view_def record_view_def list_view_def
  variant_value_def tuple_value_def record_value_def list_value_def

lemma size_views:
  "variant_value v = Some (tag, vs) \<Longrightarrow> size_list size vs < size v"
  "tuple_value v = Some vs \<Longrightarrow> size_list size vs < size v"
  "list_value v = Some vs \<Longrightarrow> size_list size vs < size v"
  "record_value v = Some rs \<Longrightarrow> size_list (size_prod (\<lambda>x. 0) size) rs < size v"
  by (auto simp: views split: val.splits)

text \<open>The types without parts: dictionaries, references and functions have values of any shape.\<close>

definition scalar_type :: "val \<Rightarrow> ty option" where
  "scalar_type v =
     (case v of
        VBool b \<Rightarrow> Some TBool
      | VInt i \<Rightarrow> Some TInt
      | VFloat x \<Rightarrow> Some TFloat
      | VDuration d \<Rightarrow> Some TDuration
      | VStr s \<Rightarrow> Some TString
      | VBytes b \<Rightarrow> Some TBytes
      | VUnit \<Rightarrow> Some TNothing
      | _ \<Rightarrow> None)"

definition base_has :: "ty \<Rightarrow> val \<Rightarrow> bool" where
  "base_has t v \<longleftrightarrow>
     t \<in> set [TBool, TInt, TFloat, TDuration, TString, TBytes, TNothing] \<longrightarrow> scalar_type v = Some t"

definition record_labels_ok :: "(string \<times> ty) list \<Rightarrow> nat option \<Rightarrow> (string \<times> val) list \<Rightarrow> bool" where
  "record_labels_ok fs rest vs \<longleftrightarrow> distinct (map fst vs) \<and> fst ` set fs \<subseteq> fst ` set vs
     \<and> (rest = None \<longrightarrow> fst ` set vs \<subseteq> fst ` set fs)"

function (sequential) has_type :: "enum_defs \<Rightarrow> val \<Rightarrow> ty \<Rightarrow> bool"
  and has_types :: "enum_defs \<Rightarrow> val list \<Rightarrow> ty list \<Rightarrow> bool"
  and has_fields :: "enum_defs \<Rightarrow> (string \<times> val) list \<Rightarrow> (string \<times> ty) list \<Rightarrow> bool"
  and all_have :: "enum_defs \<Rightarrow> val list \<Rightarrow> ty \<Rightarrow> bool" where
  "has_type E v t =
     (case tuple_view t of
        Some ts \<Rightarrow> (case tuple_value v of Some vs \<Rightarrow> has_types E vs ts | None \<Rightarrow> False)
      | None \<Rightarrow>
     (case list_view t of
        Some u \<Rightarrow> (case list_value v of Some vs \<Rightarrow> all_have E vs u | None \<Rightarrow> False)
      | None \<Rightarrow>
     (case enum_view t of
        Some (n, targs) \<Rightarrow>
          (case variant_value v of
             Some (tag, vs) \<Rightarrow>
               (case map_of E n of
                  None \<Rightarrow> True
                | Some d \<Rightarrow> tag < length (variants d) \<and> has_types E vs (instantiate E n targs (snd (variants d ! tag))))
           | None \<Rightarrow> False)
      | None \<Rightarrow>
     (case record_view t of
        Some (fs, rest) \<Rightarrow>
          (case record_value v of
             Some vs \<Rightarrow> record_labels_ok fs rest vs \<and> has_fields E vs fs
           | None \<Rightarrow> False)
      | None \<Rightarrow> base_has t v))))"
| "has_types E [] ts = (ts = [])"
| "has_types E (v # vs) ts = (case ts of [] \<Rightarrow> False | t # ts' \<Rightarrow> has_type E v t \<and> has_types E vs ts')"
| "has_fields E [] fs = True"
| "has_fields E ((n, v) # vs) fs =
     ((case map_of fs n of None \<Rightarrow> True | Some t \<Rightarrow> has_type E v t) \<and> has_fields E vs fs)"
| "all_have E [] t = True"
| "all_have E (v # vs) t = (has_type E v t \<and> all_have E vs t)"
  by pat_completeness auto
termination
  by (relation "measure (\<lambda>x. case x of Inl (Inl (E, v, t)) \<Rightarrow> size v | Inl (Inr (E, vs, ts)) \<Rightarrow> size_list size vs
        | Inr (Inl (E, rs, fs)) \<Rightarrow> size_list (size_prod (\<lambda>x. 0) size) rs | Inr (Inr (E, vs, t)) \<Rightarrow> size_list size vs)")
    (auto dest: size_views)

declare has_type.simps [simp del]

lemma has_type_simps:
  "has_type E v (TTuple ts) \<longleftrightarrow> (\<exists>vs. v = VTuple vs \<and> has_types E vs ts)"
  "has_type E v (TList u) \<longleftrightarrow> (\<exists>vs. v = VList vs \<and> all_have E vs u)"
  "has_type E v (TEnum n targs) \<longleftrightarrow> (\<exists>tag vs. v = VVariant tag vs \<and>
     (case map_of E n of None \<Rightarrow> True
      | Some d \<Rightarrow> tag < length (variants d) \<and> has_types E vs (instantiate E n targs (snd (variants d ! tag)))))"
  "has_type E v (TRecord fs rest) \<longleftrightarrow> (\<exists>vs. v = VRecord vs \<and> record_labels_ok fs rest vs \<and> has_fields E vs fs)"
  "has_type E v TBool \<longleftrightarrow> (\<exists>b. v = VBool b)" "has_type E v TInt \<longleftrightarrow> (\<exists>i. v = VInt i)"
  "has_type E v TFloat \<longleftrightarrow> (\<exists>x. v = VFloat x)" "has_type E v TDuration \<longleftrightarrow> (\<exists>d. v = VDuration d)"
  "has_type E v TString \<longleftrightarrow> (\<exists>s. v = VStr s)" "has_type E v TBytes \<longleftrightarrow> (\<exists>b. v = VBytes b)"
  "has_type E v TNothing \<longleftrightarrow> v = VUnit"
  by (subst has_type.simps, cases v; simp add: views base_has_def scalar_type_def)+

lemma has_types_list: "has_types E vs ts \<longleftrightarrow> list_all2 (has_type E) vs ts"
  by (induction vs arbitrary: ts) (auto split: list.splits)

lemma all_have_list: "all_have E vs t \<longleftrightarrow> list_all (\<lambda>v. has_type E v t) vs"
  by (induction vs) auto

lemma has_fields_list:
  "has_fields E vs fs \<longleftrightarrow> (\<forall>(n, v) \<in> set vs. \<forall>t. map_of fs n = Some t \<longrightarrow> has_type E v t)"
  by (induction vs) (auto split: option.splits)

section \<open>Typed patterns\<close>

text \<open>A bare name stands for a variant where it is a nullary variant of a prelude enum.\<close>

definition nullary_at :: "enum_defs \<Rightarrow> ty \<Rightarrow> string \<Rightarrow> bool" where
  "nullary_at E t x \<longleftrightarrow>
     (case t of TEnum n targs \<Rightarrow> is_bare_prelude_variant n x \<and> find_variant_in_enum E n x = Some [] | _ \<Rightarrow> False)"

fun literal_type :: "literal_kind \<Rightarrow> ty" where
  "literal_type (Lit_Bool b) = TBool"
| "literal_type (Lit_String s triple) = TString"
| "literal_type (Lit_Bytes b) = TBytes"
| "literal_type (Lit_Duration d) = TDuration"
| "literal_type (Lit_FloatDecimal x) = TFloat"
| "literal_type k = TInt"

fun pat_ok :: "enum_defs \<Rightarrow> ty \<Rightarrow> 'e pattern_node \<Rightarrow> bool"
  and kind_ok :: "enum_defs \<Rightarrow> ty \<Rightarrow> 'e pattern_kind \<Rightarrow> bool"
  and pats_ok :: "enum_defs \<Rightarrow> ty list \<Rightarrow> 'e pattern_node list \<Rightarrow> bool"
  and items_ok :: "enum_defs \<Rightarrow> ty \<Rightarrow> 'e pattern_node list \<Rightarrow> bool"
  and fields_ok :: "enum_defs \<Rightarrow> (string \<times> ty) list \<Rightarrow> (identifier_node \<times> 'e pattern_node) list \<Rightarrow> bool" where
  "pat_ok E t (PatternNode r k) = kind_ok E t k"
| "kind_ok E t Pat_Underscore = True"
| "kind_ok E t (Pat_Identifier x) = True"
| "kind_ok E t (Pat_Literal l) = (t = literal_type (lit_kind l))"
| "kind_ok E t (Pat_Constructor h args) =
     (case t of
        TEnum n targs \<Rightarrow>
          (case find_variant_in_enum E n (ident_name (head_variant h)) of
             None \<Rightarrow> False
           | Some ps \<Rightarrow> pats_ok E (instantiate E n targs ps) args)
      | _ \<Rightarrow> False)"
| "kind_ok E t (Pat_Tuple elems) = (case t of TTuple ts \<Rightarrow> pats_ok E ts elems | _ \<Rightarrow> False)"
| "kind_ok E t (Pat_Record fs rest) =
     (case t of
        TRecord tfs tail \<Rightarrow>
          distinct (map (ident_name \<circ> fst) fs)
          \<and> (rest = None \<longrightarrow> tail = None \<and> fst ` set tfs \<subseteq> (ident_name \<circ> fst) ` set fs)
          \<and> fields_ok E tfs fs
      | _ \<Rightarrow> False)"
| "kind_ok E t (Pat_List items rest) = (case t of TList u \<Rightarrow> items_ok E u items | _ \<Rightarrow> False)"
| "kind_ok E t (Pat_Interpolation es) = True"
| "pats_ok E ts [] = (ts = [])"
| "pats_ok E ts (p # ps) = (case ts of [] \<Rightarrow> False | t # ts' \<Rightarrow> pat_ok E t p \<and> pats_ok E ts' ps)"
| "items_ok E t [] = True"
| "items_ok E t (p # ps) = (pat_ok E t p \<and> items_ok E t ps)"
| "fields_ok E tfs [] = True"
| "fields_ok E tfs ((n, p) # fs) =
     ((case map_of tfs (ident_name n) of None \<Rightarrow> False | Some t \<Rightarrow> pat_ok E t p) \<and> fields_ok E tfs fs)"

section \<open>Matching\<close>

definition rest_bindings :: "rest_pattern option \<Rightarrow> val \<Rightarrow> (string \<times> val) list" where
  "rest_bindings rest v =
     (case rest of
        None \<Rightarrow> []
      | Some rp \<Rightarrow> (case rest_binding rp of None \<Rightarrow> [] | Some x \<Rightarrow> [(ident_name x, v)]))"

definition src_nullary :: "enum_defs \<Rightarrow> ty \<Rightarrow> string \<Rightarrow> val \<Rightarrow> bool" where
  "src_nullary E t x v =
     (case enum_view t of
        Some (n, targs) \<Rightarrow>
          (case variant_value v of Some (tag, vs) \<Rightarrow> variant_index E n x = Some tag | None \<Rightarrow> False)
      | None \<Rightarrow> False)"

function (sequential) src_match :: "enum_defs \<Rightarrow> ty \<Rightarrow> 'e pattern_node \<Rightarrow> val \<Rightarrow> (string \<times> val) list option"
  and src_kind :: "enum_defs \<Rightarrow> ty \<Rightarrow> 'e pattern_kind \<Rightarrow> val \<Rightarrow> (string \<times> val) list option"
  and src_list :: "enum_defs \<Rightarrow> ty list \<Rightarrow> 'e pattern_node list \<Rightarrow> val list \<Rightarrow> (string \<times> val) list option"
  and src_items :: "enum_defs \<Rightarrow> ty \<Rightarrow> 'e pattern_node list \<Rightarrow> val list \<Rightarrow> (string \<times> val) list option"
  and src_fields :: "enum_defs \<Rightarrow> (string \<times> ty) list \<Rightarrow> (identifier_node \<times> 'e pattern_node) list \<Rightarrow> (string \<times> val) list
        \<Rightarrow> (string \<times> val) list option" where
  "src_match E t (PatternNode r k) v = src_kind E t k v"
| "src_kind E t Pat_Underscore v = Some []"
| "src_kind E t (Pat_Identifier x) v =
     (if nullary_at E t (ident_name x)
      then (if src_nullary E t (ident_name x) v then Some [] else None)
      else Some [(ident_name x, v)])"
| "src_kind E t (Pat_Literal l) v =
     (if lit_matches (literal_to_const (lit_kind l)) v = Some True then Some [] else None)"
| "src_kind E t (Pat_Constructor h args) v =
     (case enum_view t of
        None \<Rightarrow> None
      | Some (n, targs) \<Rightarrow>
          (case variant_value v of
             None \<Rightarrow> None
           | Some (tag, vs) \<Rightarrow>
               (if variant_index E n (ident_name (head_variant h)) = Some tag
                then src_list E (instantiate E n targs (the (find_variant_in_enum E n (ident_name (head_variant h))))) args vs
                else None)))"
| "src_kind E t (Pat_Tuple elems) v =
     (case tuple_view t of
        None \<Rightarrow> None
      | Some ts \<Rightarrow> (case tuple_value v of None \<Rightarrow> None | Some vs \<Rightarrow> src_list E ts elems vs))"
| "src_kind E t (Pat_Record fs rest) v =
     (case record_view t of
        None \<Rightarrow> None
      | Some (tfs, tail) \<Rightarrow>
          (case record_value v of
             None \<Rightarrow> None
           | Some vs \<Rightarrow>
               (case src_fields E tfs fs vs of
                  None \<Rightarrow> None
                | Some bs \<Rightarrow>
                    Some (bs @ rest_bindings rest
                      (VRecord (filter (\<lambda>f. fst f \<notin> (ident_name \<circ> fst) ` set fs) vs))))))"
| "src_kind E t (Pat_List items rest) v =
     (case list_view t of
        None \<Rightarrow> None
      | Some u \<Rightarrow>
          (case list_value v of
             None \<Rightarrow> None
           | Some vs \<Rightarrow>
               (if length vs < length items \<or> rest = None \<and> length vs \<noteq> length items then None
                else case src_items E u items vs of
                       None \<Rightarrow> None
                     | Some bs \<Rightarrow> Some (bs @ rest_bindings rest (VList (drop (length items) vs))))))"
| "src_kind E t (Pat_Interpolation es) v = None"
| "src_list E ts [] vs = Some []"
| "src_list E ts (p # ps) vs =
     (case ts of
        [] \<Rightarrow> None
      | t # ts' \<Rightarrow>
          (case vs of
             [] \<Rightarrow> None
           | v # vs' \<Rightarrow>
               (case src_match E t p v of
                  None \<Rightarrow> None
                | Some bs \<Rightarrow> (case src_list E ts' ps vs' of None \<Rightarrow> None | Some bs' \<Rightarrow> Some (bs @ bs')))))"
| "src_items E t [] vs = Some []"
| "src_items E t (p # ps) vs =
     (case vs of
        v # vs' \<Rightarrow>
          (case src_match E t p v of
             None \<Rightarrow> None
           | Some bs \<Rightarrow> (case src_items E t ps vs' of None \<Rightarrow> None | Some bs' \<Rightarrow> Some (bs @ bs')))
      | _ \<Rightarrow> None)"
| "src_fields E tfs [] vs = Some []"
| "src_fields E tfs ((n, p) # fs) vs =
     (case map_of tfs (ident_name n) of
        None \<Rightarrow> None
      | Some t \<Rightarrow>
          (case map_of vs (ident_name n) of
             None \<Rightarrow> None
           | Some v \<Rightarrow>
               (case src_match E t p v of
                  None \<Rightarrow> None
                | Some bs \<Rightarrow> (case src_fields E tfs fs vs of None \<Rightarrow> None | Some bs' \<Rightarrow> Some (bs @ bs')))))"
  by pat_completeness auto
termination
  by (relation "measure (\<lambda>x. case x of Inl (Inl (E, t, p, v)) \<Rightarrow> size p | Inl (Inr (E, t, k, v)) \<Rightarrow> size k
        | Inr (Inl (E, ts, ps, vs)) \<Rightarrow> size_list size ps
        | Inr (Inr (Inl (E, t, ps, vs))) \<Rightarrow> size_list size ps
        | Inr (Inr (Inr (E, ts, fs, vs))) \<Rightarrow> size_list (size_prod (\<lambda>x. 0) size) fs)") auto

definition matches :: "enum_defs \<Rightarrow> ty \<Rightarrow> 'e pattern_node \<Rightarrow> val \<Rightarrow> bool" where
  "matches E t p v \<longleftrightarrow> src_match E t p v \<noteq> None"

section \<open>Substituting an enum's parameters always returns\<close>

lemma mapm_returns: "(\<And>x. x \<in> set xs \<Longrightarrow> \<exists>y. f x = Some y) \<Longrightarrow> \<exists>ys. mapm f xs = Some ys"
  by (induction xs) fastforce+

lemma mapm_snd_returns:
  "(\<And>x. x \<in> set xs \<Longrightarrow> \<exists>y. f (snd x) = Some y) \<Longrightarrow> \<exists>ys. mapm_snd f xs = Some ys"
  unfolding mapm_snd_def by (rule mapm_returns) fastforce

lemma apply_rowless_total:
  assumes "row_solutions s = []" and "tuple_row_solutions s = []"
  shows "\<exists>u. apply_to_type s t = Some u"
proof (induction t)
  case (TPartialTuple fs rest)
  have c: "row_chain (tuple_row_solutions s) rest = Some ([], rest)"
    by (subst row_chain.simps) (simp add: assms split: option.splits)
  have "\<exists>gs. mapm_snd (apply_to_type s) fs = Some gs"
    by (rule mapm_snd_returns) (use TPartialTuple in \<open>metis prod.collapse snds.intros\<close>)
  then show ?case by (subst apply_to_type.simps) (auto simp: c)
next
  case (TRecord fs rest)
  have c: "row_chain (row_solutions s) rest = Some ([], rest)"
    by (subst row_chain.simps) (simp add: assms split: option.splits)
  have "\<exists>gs. mapm_snd (apply_to_type s) fs = Some gs"
    by (rule mapm_snd_returns) (use TRecord in \<open>metis prod.collapse snds.intros\<close>)
  then show ?case by (subst apply_to_type.simps) (auto simp: c)
next
  case (TEnum n ts)
  have "\<exists>us. mapm (apply_to_type s) ts = Some us" by (rule mapm_returns) (use TEnum in auto)
  then show ?case by (subst apply_to_type.simps) auto
next
  case (TTuple ts)
  have "\<exists>us. mapm (apply_to_type s) ts = Some us" by (rule mapm_returns) (use TTuple in auto)
  then show ?case by (subst apply_to_type.simps) auto
next
  case (TFun ts t)
  have "\<exists>us. mapm (apply_to_type s) ts = Some us" by (rule mapm_returns) (use TFun in auto)
  then show ?case using TFun by (subst apply_to_type.simps) auto
qed (subst apply_to_type.simps; auto)+

lemma apply_payload: "apply_to_type (payload_subst E n targs) t = Some (the (apply_to_type (payload_subst E n targs) t))"
  using apply_rowless_total [of "payload_subst E n targs" t] by (auto simp: payload_subst_def)

lemma length_instantiate [simp]: "length (instantiate E n targs ps) = length ps"
  by (simp add: instantiate_def)

end
