(* ===== verification/ExhaustiveSound.thy ===== *)
theory ExhaustiveSound
  imports PatternSem
begin

text \<open>
  The exhaustiveness check is sound: when it reports nothing, every value of the subject's type
  is matched by some case. The exceptions are stated as counterexamples: a list pattern with two
  or more heads and a rest, and the types with no finite set of cases.
\<close>

section \<open>Catch-all patterns match every value\<close>

lemma kind_ok_simps:
  "pat_ok E t p = kind_ok E t (pat_kind p)"
  "src_match E t p v = src_kind E t (pat_kind p) v"
  by (cases p; simp)+

lemma has_type_views:
  "tuple_view t = Some ts \<Longrightarrow> t = TTuple ts" "list_view t = Some u \<Longrightarrow> t = TList u"
  "enum_view t = Some (n, targs) \<Longrightarrow> t = TEnum n targs" "record_view t = Some (fs, tail) \<Longrightarrow> t = TRecord fs tail"
  by (auto simp: views split: ty.splits)

lemma views_simps [simp]:
  "tuple_view (TTuple ts) = Some ts" "list_view (TList u) = Some u"
  "enum_view (TEnum n targs) = Some (n, targs)" "record_view (TRecord fs tail) = Some (fs, tail)"
  "tuple_value (VTuple vs) = Some vs" "list_value (VList vs) = Some vs"
  "variant_value (VVariant tag vs) = Some (tag, vs)" "record_value (VRecord rs) = Some rs"
  by (simp_all add: views)

definition covers_all :: "enum_defs \<Rightarrow> 'e pattern_node \<Rightarrow> bool" where
  "covers_all E p \<longleftrightarrow> (\<forall>t v. pat_ok E t p \<longrightarrow> has_type E v t \<longrightarrow> src_match E t p v \<noteq> None)"

lemma src_list_total:
  "list_all (covers_all E) ps \<Longrightarrow> pats_ok E ts ps \<Longrightarrow> has_types E vs ts \<Longrightarrow> \<exists>bs. src_list E ts ps vs = Some bs"
proof (induction ps arbitrary: ts vs)
  case (Cons p ps)
  then obtain t ts' v vs' where "ts = t # ts'" "vs = v # vs'"
    by (cases ts; cases vs) auto
  moreover from this Cons.prems obtain bs where "src_match E t p v = Some bs" by (auto simp: covers_all_def)
  moreover from calculation Cons obtain bs' where "src_list E ts' ps vs' = Some bs'" by fastforce
  ultimately show ?case by simp
qed simp

lemma src_fields_total:
  assumes "list_all (\<lambda>(n, p). covers_all E p) fs" "fields_ok E tfs fs" "has_fields E vs tfs" "fst ` set tfs \<subseteq> fst ` set vs"
  shows "\<exists>bs. src_fields E tfs fs vs = Some bs"
  using assms(1,2)
proof (induction fs)
  case (Cons f fs)
  obtain n p where f: "f = (n, p)" by (cases f)
  from Cons.prems f obtain t where t: "map_of tfs (ident_name n) = Some t" "pat_ok E t p"
    by (auto split: option.splits)
  then have "ident_name n \<in> fst ` set vs" using assms(4) by (force dest: map_of_SomeD)
  then obtain v where v: "map_of vs (ident_name n) = Some v" by (metis map_of_eq_None_iff not_Some_eq)
  then have "has_type E v t" using assms(3) t by (fastforce simp: has_fields_list dest: map_of_SomeD)
  with Cons.prems f t obtain bs where "src_match E t p v = Some bs" by (auto simp: covers_all_def)
  moreover from Cons f obtain bs' where "src_fields E tfs fs vs = Some bs'" by (auto split: option.splits)
  ultimately show ?case using f t v by simp
qed simp

lemma find_variant_globally_here:
  "find_variant_in_enum E n v = Some ps \<Longrightarrow> (n, ps) \<in> set (find_variant_globally E v)"
  by (force simp: find_variant_in_enum_def find_variant_globally_def bind_Some_iff dest: map_of_SomeD)

lemma catch_all_matches: "pattern_is_catch_all E p \<Longrightarrow> covers_all E p"
proof (induction E p rule: pattern_is_catch_all.induct)
  case (1 E r k)
  show ?case
  proof (cases k)
    case (Pat_Identifier x)
    with 1(3) have "\<not> nullary_at E t (ident_name x)" for t
      by (force simp: nullary_at_def list_all_iff split: ty.splits dest: find_variant_globally_here)
    with Pat_Identifier show ?thesis by (simp add: covers_all_def)
  next
    case (Pat_Tuple ps)
    with 1 have "list_all (covers_all E) ps" by (auto simp: list_all_iff)
    from src_list_total [OF this] Pat_Tuple show ?thesis
      unfolding covers_all_def [of E "PatternNode r k"] by (auto simp: has_type_simps split: ty.splits)
  next
    case (Pat_Record fs rest)
    with 1 have "list_all (\<lambda>(n, p). covers_all E p) fs" by (fastforce simp: list_all_iff)
    then have fs: "fields_ok E tfs fs \<Longrightarrow> has_fields E vs tfs \<Longrightarrow> fst ` set tfs \<subseteq> fst ` set vs \<Longrightarrow>
        \<exists>bs. src_fields E tfs fs vs = Some bs" for tfs vs by (rule src_fields_total)
    show ?thesis
      unfolding covers_all_def
    proof (intro allI impI)
      fix t v
      assume ok: "pat_ok E t (PatternNode r k)" and ty: "has_type E v t"
      from ok Pat_Record obtain tfs tail where t: "t = TRecord tfs tail" "fields_ok E tfs fs" by (auto split: ty.splits)
      with ty obtain vs where v: "v = VRecord vs" "has_fields E vs tfs" "fst ` set tfs \<subseteq> fst ` set vs"
        by (auto simp: has_type_simps record_labels_ok_def)
      from fs [OF t(2) v(2,3)] show "src_match E t (PatternNode r k) v \<noteq> None" using Pat_Record t v by auto
    qed
  next
    case (Pat_List items rest)
    with 1(3) show ?thesis by (auto simp: covers_all_def has_type_simps split: ty.splits)
  qed (use 1(3) in \<open>simp_all add: covers_all_def\<close>)
qed

section \<open>Sets of nested patterns\<close>

lemma has_bool_literal_iff:
  "has_bool_literal b pats \<longleftrightarrow> (\<exists>p \<in> set pats. \<exists>l. pat_kind p = Pat_Literal l \<and> lit_kind l = Lit_Bool b)"
proof -
  have "(case k of Pat_Literal l \<Rightarrow> lit_kind l = Lit_Bool b | _ \<Rightarrow> False)
      \<longleftrightarrow> (\<exists>l. k = Pat_Literal l \<and> lit_kind l = Lit_Bool b)" for k :: "'a pattern_kind"
    by (cases k) auto
  then show ?thesis by (simp add: has_bool_literal_def list_ex_iff)
qed

definition distinct_variants :: "enum_defs \<Rightarrow> bool" where
  "distinct_variants E \<longleftrightarrow> list_all (\<lambda>(n, d). distinct (map fst (variants d))) E"

lemma position_nth: "distinct xs \<Longrightarrow> i < length xs \<Longrightarrow> position (xs ! i) xs = Some i"
proof (induction xs arbitrary: i)
  case (Cons x xs)
  then show ?case by (cases i) auto
qed simp

lemma variant_of_tag:
  assumes "distinct_variants E" and "map_of E n = Some d" and "tag < length (variants d)"
  shows "find_variant_in_enum E n (fst (variants d ! tag)) = Some (snd (variants d ! tag))"
    and "variant_index E n (fst (variants d ! tag)) = Some tag"
proof -
  from assms(1,2) have d: "distinct (map fst (variants d))"
    by (auto simp: distinct_variants_def list_all_iff dest!: map_of_SomeD)
  with assms(3) have "map_of (variants d) (fst (variants d ! tag)) = Some (snd (variants d ! tag))"
    by (simp add: map_of_eq_Some_iff)
  then show "find_variant_in_enum E n (fst (variants d ! tag)) = Some (snd (variants d ! tag))"
    using assms(2) by (simp add: find_variant_in_enum_def)
  show "variant_index E n (fst (variants d ! tag)) = Some tag"
    using position_nth [OF d, of tag] assms(2,3) by (simp add: variant_index_def)
qed

text \<open>An arm the check counts for a variant matches the variant's values when its arguments do.\<close>

lemma variant_arm_matches:
  assumes "variant_arm n (length ps) vname p = Some args" and "pat_ok E (TEnum n targs) p"
    and "find_variant_in_enum E n vname = Some ps" and "variant_index E n vname = Some tag"
  shows "pats_ok E (instantiate E n targs ps) args"
    and "src_list E (instantiate E n targs ps) args vs = Some bs \<Longrightarrow> matches E (TEnum n targs) p (VVariant tag vs)"
  using assms
  by (auto simp: variant_arm_def kind_ok_simps matches_def nullary_at_def src_nullary_def instantiate_def
      split: pattern_kind.splits if_splits)

lemma pats_ok_Nil [simp]: "pats_ok E [] ps \<longleftrightarrow> ps = []"
  by (cases ps) auto

lemma in_arms: "args \<in> set (List.map_filter f ps) \<longleftrightarrow> (\<exists>p \<in> set ps. f p = Some args)"
  by (auto simp: map_filter_def) force

lemma payload_instance:
  assumes "length ps = 1"
  shows "instantiate E n targs ps = [the (apply_to_type (payload_subst E n targs) (ps ! 0))]"
  using assms by (cases ps) (auto simp: instantiate_def)

lemma covered_matches:
  "distinct_variants E \<Longrightarrow> patterns_cover E t pats \<Longrightarrow> \<forall>p \<in> set pats. pat_ok E t p \<Longrightarrow> has_type E v t \<Longrightarrow>
     \<exists>p \<in> set pats. matches E t p v"
  "distinct_variants E \<Longrightarrow> variant_args_covered E n targs vname pats \<Longrightarrow> \<forall>p \<in> set pats. pat_ok E (TEnum n targs) p \<Longrightarrow>
     find_variant_in_enum E n vname = Some ps \<Longrightarrow> variant_index E n vname = Some tag \<Longrightarrow>
     has_types E vs (instantiate E n targs ps) \<Longrightarrow> \<exists>p \<in> set pats. matches E (TEnum n targs) p (VVariant tag vs)"
proof (induction E t pats and E n targs vname pats arbitrary: v and ps tag vs
    rule: patterns_cover_variant_args_covered.induct)
  case (1 E t pats)
  show ?case
  proof (cases "list_ex (pattern_is_catch_all E) pats")
    case True
    then obtain p where "p \<in> set pats" "covers_all E p" by (auto simp: list_ex_iff dest: catch_all_matches)
    with "1.prems" show ?thesis by (intro bexI [of _ p]) (auto simp: covers_all_def matches_def)
  next
    case False
    with "1.prems"(2) consider
        (b) "t = TBool" "has_bool_literal True pats" "has_bool_literal False pats"
      | (e) n targs d where "t = TEnum n targs" "map_of E n = Some d"
          "list_all (\<lambda>v. variant_args_covered E n targs (fst v) pats) (variants d)"
      by (subst (asm) patterns_cover.simps) (auto split: ty.splits option.splits)
    then show ?thesis
    proof cases
      case b
      then obtain x where v: "v = VBool x" using "1.prems"(4) by (auto simp: has_type_simps)
      with b have "has_bool_literal x pats" by (cases x) auto
      then obtain p l where "p \<in> set pats" "pat_kind p = Pat_Literal l" "lit_kind l = Lit_Bool x"
        by (auto simp: has_bool_literal_iff)
      then show ?thesis using v by (intro bexI [of _ p]) (auto simp: matches_def kind_ok_simps)
    next
      case e
      with "1.prems"(4) obtain tag vs where v: "v = VVariant tag vs" "tag < length (variants d)"
          "has_types E vs (instantiate E n targs (snd (variants d ! tag)))"
        by (auto simp: has_type_simps)
      note vt = variant_of_tag [OF "1.prems"(1) e(2) v(2)]
      have "variant_args_covered E n targs (fst (variants d ! tag)) pats"
        using e(3) v(2) by (auto simp: list_all_length)
      from "1.IH" [OF e(1,2) _ "1.prems"(1) this _ vt v(3)] v(2) "1.prems"(3) e(1)
      show ?thesis unfolding e(1) v(1) by auto
    qed
  qed
next
  case (2 E n targs vname pats)
  note arm = variant_arm_matches [OF _ _ "2.prems"(4,5)]
  let ?arms = "List.map_filter (variant_arm n (length ps) vname) pats"
  have ok: "args \<in> set ?arms \<Longrightarrow> pats_ok E (instantiate E n targs ps) args" for args
    using arm(1) "2.prems"(3) by (auto simp: in_arms)
  have hit: "\<exists>p \<in> set pats. matches E (TEnum n targs) p (VVariant tag vs)"
    if "args \<in> set ?arms" "src_list E (instantiate E n targs ps) args vs = Some bs" for args bs
    using that arm(2) "2.prems"(3) unfolding in_arms by blast
  consider (none) "length ps = 0" "?arms \<noteq> []"
    | (one) "length ps = 1" "List.map_filter first_arg ?arms \<noteq> []"
        "patterns_cover E (the (apply_to_type (payload_subst E n targs) (ps ! 0))) (List.map_filter first_arg ?arms)"
    | (many) args where "args \<in> set ?arms" "list_all (pattern_is_catch_all E) args"
    using "2.prems"(2,4) apply_payload [of E n targs "ps ! 0"]
    by (subst (asm) variant_args_covered.simps) (auto simp: Let_def list_ex_iff split: if_splits option.splits)
  then show ?case
  proof cases
    case none
    then obtain args where "args \<in> set ?arms" using list.set_sel(1) by blast
    with ok [OF this] hit [OF this] none show ?thesis
      using "2.prems"(6) by (cases args) (auto simp: instantiate_def)
  next
    case one
    let ?t = "the (apply_to_type (payload_subst E n targs) (ps ! 0))"
    note inst = payload_instance [OF one(1), of E n targs]
    from "2.prems"(6) obtain v where vs: "vs = [v]" "has_type E v ?t"
      unfolding inst by (auto simp: has_types_list list_all2_Cons2)
    have sub: "\<exists>args \<in> set ?arms. first_arg args = Some q" if "q \<in> set (List.map_filter first_arg ?arms)" for q
      using that unfolding in_arms [of q first_arg] .
    have single: "args = [q] \<and> pat_ok E ?t q" if "args \<in> set ?arms" "first_arg args = Some q" for args q
      using ok [OF that(1)] that(2) unfolding inst first_arg_def by (auto split: list.splits)
    then have "\<forall>q \<in> set (List.map_filter first_arg ?arms). pat_ok E ?t q" using sub by blast
    from "2.IH" [OF "2.prems"(4) refl _ _ refl _ apply_payload "2.prems"(1) one(3) this vs(2)] one(1,2)
    obtain q where q: "q \<in> set (List.map_filter first_arg ?arms)" "matches E ?t q v" by auto
    then obtain args where a: "args \<in> set ?arms" "first_arg args = Some q" using sub by blast
    with single have "args = [q]" by blast
    with q(2) hit [OF a(1)] show ?thesis unfolding inst vs(1) by (auto simp: matches_def)
  next
    case many
    then have "list_all (covers_all E) args" by (auto simp: list_all_iff dest: catch_all_matches)
    from src_list_total [OF this ok [OF many(1)] "2.prems"(6)] hit [OF many(1)] show ?thesis by auto
  qed
qed

section \<open>The check of a \<open>when\<close>\<close>

text \<open>The subjects whose values the check splits into cases.\<close>

definition checked_type :: "enum_defs \<Rightarrow> ty \<Rightarrow> bool" where
  "checked_type E t \<longleftrightarrow>
     (case t of TBool \<Rightarrow> True | TEnum n targs \<Rightarrow> map_of E n \<noteq> None | TList u \<Rightarrow> True | TRecord fs tail \<Rightarrow> True | _ \<Rightarrow> False)"

text \<open>A list pattern of two or more heads and a rest leaves out the shorter lists.\<close>

definition one_head :: "'e pattern_node \<Rightarrow> bool" where
  "one_head p \<longleftrightarrow> (case pat_kind p of Pat_List items rest \<Rightarrow> rest \<noteq> None \<longrightarrow> length items \<le> 1 | _ \<Rightarrow> True)"

lemma bare_case_matches:
  "pat_kind p = Pat_Underscore \<Longrightarrow> matches E t p v"
  "pat_kind p = Pat_Identifier x \<Longrightarrow> \<not> nullary_at E t (ident_name x) \<Longrightarrow> matches E t p v"
  by (simp_all add: matches_def kind_ok_simps)

lemma list_cases_None:
  assumes "list_cases E cases = None" "\<forall>p \<in> set cases. pat_ok E (TList u) p"
  shows "\<exists>p \<in> set cases. matches E (TList u) p (VList vs)"
  using assms
proof (induction cases)
  case (Cons p cases)
  show ?case
  proof (cases "list_cases E cases = None")
    case True
    with Cons show ?thesis by auto
  next
    case False
    with Cons.prems(1) have "matches E (TList u) p (VList vs)"
      by (cases "pat_kind p") (auto simp: matches_def kind_ok_simps nullary_at_def split: if_splits)
    then show ?thesis by simp
  qed
qed simp

lemma list_cases_Some:
  "list_cases E cases = Some c \<Longrightarrow> fst c \<Longrightarrow> \<exists>p \<in> set cases. \<exists>rest. pat_kind p = Pat_List [] rest"
  "list_cases E cases = Some c \<Longrightarrow> snd c \<Longrightarrow> \<exists>p \<in> set cases. \<exists>items rest. pat_kind p = Pat_List items rest
     \<and> items \<noteq> [] \<and> rest \<noteq> None \<and> list_all (pattern_is_catch_all E) items"
proof (induction cases arbitrary: c)
  case (Cons p cases)
  {
    case 1
    then show ?case
      using Cons.IH(1) [of "the (list_cases E cases)"] by (cases "pat_kind p") (auto split: if_splits)
  next
    case 2
    then show ?case
      using Cons.IH(2) [of "the (list_cases E cases)"] by (cases "pat_kind p") (auto split: if_splits)
  }
qed simp_all

lemma list_sound:
  assumes "check_when_list_exhaustive E cases = []" "\<forall>p \<in> set cases. pat_ok E (TList u) p"
    and "\<forall>p \<in> set cases. one_head p" and "has_type E v (TList u)"
  shows "\<exists>p \<in> set cases. matches E (TList u) p v"
proof -
  from assms(4) obtain vs where v: "v = VList vs" "all_have E vs u" by (auto simp: has_type_simps)
  show ?thesis
  proof (cases "list_cases E cases")
    case None
    from list_cases_None [OF this assms(2)] v show ?thesis by blast
  next
    case (Some c)
    with assms(1) have c: "list_cases E cases = Some (True, True)"
      by (cases c) (auto simp: check_when_list_exhaustive_def split: if_splits)
    show ?thesis
    proof (cases vs)
      case Nil
      from list_cases_Some(1) [OF c, simplified] obtain p rest where p: "p \<in> set cases" "pat_kind p = Pat_List [] rest" by blast
      then show ?thesis using Nil v by (intro bexI [of _ p]) (auto simp: matches_def kind_ok_simps)
    next
      case (Cons x xs)
      from list_cases_Some(2) [OF c, simplified] obtain p items rest where p: "p \<in> set cases" "pat_kind p = Pat_List items rest"
          "items \<noteq> []" "rest \<noteq> None" "list_all (pattern_is_catch_all E) items" by blast
      with assms(3) obtain q where q: "items = [q]" by (cases items) (auto simp: one_head_def)
      then have "covers_all E q" using p(5) catch_all_matches by auto
      moreover have "pat_ok E u q" using assms(2) p(1,2) q by (auto simp: kind_ok_simps)
      ultimately obtain bs where "src_match E u q x = Some bs" using v Cons by (auto simp: covers_all_def)
      then show ?thesis using v Cons p q by (intro bexI [of _ p]) (auto simp: matches_def kind_ok_simps)
    qed
  qed
qed

lemma record_sound:
  assumes "check_when_record_exhaustive E cases = []" "\<forall>p \<in> set cases. pat_ok E (TRecord fs tail) p"
    and "has_type E v (TRecord fs tail)"
  shows "\<exists>p \<in> set cases. matches E (TRecord fs tail) p v"
proof -
  from assms(1) obtain p where p: "p \<in> set cases" "record_case_covers E p"
    by (auto simp: check_when_record_exhaustive_def list_ex_iff split: if_splits)
  have "matches E (TRecord fs tail) p v"
  proof (cases "pat_kind p")
    case (Pat_Record fps rest)
    with p(2) have "pattern_is_catch_all E p" by (cases p) (simp add: record_case_covers_def)
    then show ?thesis using assms(2,3) p(1) by (auto dest!: catch_all_matches simp: covers_all_def matches_def)
  qed (use p(2) in \<open>auto simp: record_case_covers_def nullary_at_def bare_case_matches\<close>)
  with p(1) show ?thesis by blast
qed

lemma covered_names_None:
  assumes "covered_names E t cases = None"
  shows "\<exists>p \<in> set cases. matches E t p v"
  using assms
proof (induction cases)
  case (Cons p cases)
  show ?case
  proof (cases "case_covers E t p")
    case None
    then have "matches E t p v"
      by (auto simp: case_covers_def Let_def nullary_at_def split: pattern_kind.splits if_splits ty.splits intro: bare_case_matches)
    then show ?thesis by simp
  qed (use Cons in auto)
qed simp

lemma covered_names_Some:
  assumes "covered_names E t cases = Some names" "x \<in> set names"
  shows "\<exists>p \<in> set cases. \<exists>xs. case_covers E t p = Some xs \<and> x \<in> set xs"
  using assms by (induction cases arbitrary: names) (auto split: option.splits)

lemma enum_case_matches:
  assumes "case_covers E (TEnum n targs) p = Some xs" "vname \<in> set xs" "pat_ok E (TEnum n targs) p"
    and "find_variant_in_enum E n vname = Some ps" "variant_index E n vname = Some tag" "has_types E vs (instantiate E n targs ps)"
  shows "matches E (TEnum n targs) p (VVariant tag vs)"
proof (cases "pat_kind p")
  case (Pat_Constructor h args)
  with assms(1,2) have h: "ident_name (head_variant h) = vname" "list_all (covers_all E) args"
    by (auto simp: case_covers_def list_all_iff dest: catch_all_matches split: if_splits)
  with assms(3,4) Pat_Constructor have "pats_ok E (instantiate E n targs ps) args" by (simp add: kind_ok_simps)
  from src_list_total [OF h(2) this assms(6)] show ?thesis
    using Pat_Constructor h(1) assms(4,5) by (auto simp: matches_def kind_ok_simps)
qed (use assms in \<open>auto simp: case_covers_def Let_def matches_def kind_ok_simps nullary_at_def src_nullary_def split: if_splits\<close>)

lemma bool_case_matches:
  assumes "case_covers E TBool p = Some xs" "bool_name b \<in> set xs" "pat_ok E TBool p"
  shows "matches E TBool p (VBool b)"
  using assms
  by (auto simp: case_covers_def Let_def matches_def kind_ok_simps nullary_at_def bool_name_def
      split: pattern_kind.splits literal_kind.splits if_splits)

lemma enum_sound:
  assumes "check_when_exhaustive E (TEnum n targs) cases = []" "map_of E n = Some d" "distinct_variants E"
    and ok: "\<forall>p \<in> set cases. pat_ok E (TEnum n targs) p" and "has_type E v (TEnum n targs)"
  shows "\<exists>p \<in> set cases. matches E (TEnum n targs) p v"
proof (cases "covered_names E (TEnum n targs) cases")
  case None
  then show ?thesis by (rule covered_names_None)
next
  case (Some covered)
  from assms(2,5) obtain tag vs where v: "v = VVariant tag vs" "tag < length (variants d)"
      "has_types E vs (instantiate E n targs (snd (variants d ! tag)))" by (auto simp: has_type_simps)
  let ?name = "fst (variants d ! tag)"
  note vt = variant_of_tag [OF assms(3,2) v(2)]
  have "?name \<in> fst ` set (variants d)" using v(2) by auto
  with assms(1,2) Some consider "?name \<in> set covered" | "variant_args_covered E n targs ?name cases"
    by (auto simp: check_when_exhaustive_def required_cases_def Let_def filter_empty_conv)
  then show ?thesis
  proof cases
    case 1
    from covered_names_Some [OF Some 1] obtain p xs where "p \<in> set cases" "case_covers E (TEnum n targs) p = Some xs" "?name \<in> set xs"
      by blast
    with enum_case_matches [OF _ _ _ vt v(3)] ok v(1) show ?thesis by blast
  next
    case 2
    from covered_matches(2) [OF assms(3) 2 ok vt v(3)] v(1) show ?thesis by simp
  qed
qed

lemma bool_sound:
  assumes "check_when_exhaustive E TBool cases = []" "has_type E v TBool" "\<forall>p \<in> set cases. pat_ok E TBool p"
  shows "\<exists>p \<in> set cases. matches E TBool p v"
proof (cases "covered_names E TBool cases")
  case None
  then show ?thesis by (rule covered_names_None)
next
  case (Some covered)
  from assms(2) obtain b where v: "v = VBool b" by (auto simp: has_type_simps)
  have "bool_name b \<in> set covered"
    using assms(1) Some by (auto simp: check_when_exhaustive_def required_cases_def bool_name_def split: if_splits)
  from covered_names_Some [OF Some this] show ?thesis using bool_case_matches v assms(3) by blast
qed

lemma exhaustive_matches:
  assumes "check_when_exhaustive E t cases = []" and "checked_type E t" and "distinct_variants E"
    and "\<forall>p \<in> set cases. pat_ok E t p" and "\<forall>p \<in> set cases. one_head p"
    and "has_type E v t"
  shows "\<exists>p \<in> set cases. matches E t p v"
proof (cases t)
  case (TEnum n targs)
  with assms(2) obtain d where "map_of E n = Some d" by (auto simp: checked_type_def)
  with enum_sound assms TEnum show ?thesis by blast
next
  case (TList w)
  then show ?thesis using assms list_sound [of E cases w v] by (simp add: check_when_exhaustive_def)
next
  case (TRecord fs tail)
  then show ?thesis using assms record_sound [of E cases fs tail v] by (simp add: check_when_exhaustive_def)
qed (use assms bool_sound [of E cases v] in \<open>simp_all add: checked_type_def\<close>)

text \<open>
  C6. The exhaustiveness check is sound on what it checks: let the subject be a boolean, a known
  enum, a list or a record, let the variants of each enum have distinct names, let the patterns be
  typed by the subject's type, and let every list pattern with a rest have at most one head. When
  the check then reports nothing, every value of the subject's type is matched by one of the
  cases, however deep their patterns nest. (Without the second and the last condition it is not
  sound: see \<open>open_universe_accepted\<close> and \<open>two_heads_accepted\<close> below.)
\<close>

theorem exhaustive_sound:
  assumes "check_when_exhaustive E t cases = []" and "checked_type E t" and "distinct_variants E"
    and "\<forall>p \<in> set cases. pat_ok E t p" and "\<forall>p \<in> set cases. one_head p"
    and "has_type E v t"
  shows "\<exists>p \<in> set cases. matches E t p v"
  using assms by (rule exhaustive_matches)

section \<open>A concrete check and what it leaves out\<close>

text \<open>\<open>when r is ok v ... is err color.red ... is err color.green\<close> over \<open>result int color\<close>.\<close>

definition name_node :: "string \<Rightarrow> identifier_node" where
  "name_node n = \<lparr>ident_name = n, ident_range = collapsed 0 0\<rparr>"

definition pat :: "unit pattern_kind \<Rightarrow> unit pattern_node" where
  "pat k = PatternNode (collapsed 0 0) k"

definition variant_pat :: "string option \<Rightarrow> string \<Rightarrow> unit pattern_node list \<Rightarrow> unit pattern_node" where
  "variant_pat e v args = pat (Pat_Constructor
     \<lparr>head_range = collapsed 0 0, head_module = None, head_enum = map_option name_node e, head_variant = name_node v\<rparr> args)"

definition rest_node :: rest_pattern where
  "rest_node = \<lparr>rest_range = collapsed 0 0, rest_binding = None\<rparr>"

definition int_pat :: "64 word \<Rightarrow> unit pattern_node" where
  "int_pat i = pat (Pat_Literal \<lparr>lit_kind = Lit_IntDecimal i, lit_range = collapsed 0 0\<rparr>)"

definition example_enums :: enum_defs where
  "example_enums =
     [(''__prelude__.result'', \<lparr>param_vars = [0, 1], variants = [(''ok'', [TVar 0]), (''err'', [TVar 1])]\<rparr>),
      (''__prelude__.option'', \<lparr>param_vars = [2], variants = [(''some'', [TVar 2]), (''none'', [])]\<rparr>),
      (''m.color'', \<lparr>param_vars = [], variants = [(''red'', []), (''green'', [])]\<rparr>)]"

definition example_subject :: ty where
  "example_subject = TEnum ''__prelude__.result'' [TInt, TEnum ''m.color'' []]"

definition example_cases :: "unit pattern_node list" where
  "example_cases =
     [variant_pat None ''ok'' [pat (Pat_Identifier (name_node ''v''))],
      variant_pat None ''err'' [variant_pat (Some ''color'') ''red'' []],
      variant_pat None ''err'' [variant_pat (Some ''color'') ''green'' []]]"

theorem exhaustive_sound_witness:
  "check_when_exhaustive example_enums example_subject example_cases = []
     \<and> has_type example_enums (VVariant 1 [VVariant 1 []]) example_subject
     \<and> (\<exists>p \<in> set example_cases. matches example_enums example_subject p (VVariant 1 [VVariant 1 []]))"
proof -
  have c: "check_when_exhaustive example_enums example_subject example_cases = []" by code_simp
  have ty: "checked_type example_enums example_subject" by code_simp
  have d: "distinct_variants example_enums" by code_simp
  have ok: "\<forall>p \<in> set example_cases. pat_ok example_enums example_subject p" by code_simp
  have h: "\<forall>p \<in> set example_cases. one_head p" by code_simp
  have v: "has_type example_enums (VVariant 1 [VVariant 1 []]) example_subject" by code_simp
  from exhaustive_sound [OF c ty d ok h v] c v show ?thesis by blast
qed

lemma missing_variant_reported:
  "check_when_exhaustive example_enums example_subject (butlast example_cases) = [''err'']"
  by code_simp

text \<open>
  Two heads and a rest cover the non-empty lists in the check, and no list of one element in a
  run; and of an open universe such as the integers nothing is required at all.
\<close>

definition short_list_cases :: "unit pattern_node list" where
  "short_list_cases =
     [pat (Pat_List [] None), pat (Pat_List [pat Pat_Underscore, pat Pat_Underscore] (Some rest_node))]"

lemma two_heads_accepted:
  "check_when_exhaustive E (TList TInt) short_list_cases = []
     \<and> (\<forall>p \<in> set short_list_cases. pat_ok E (TList TInt) p \<and> \<not> matches E (TList TInt) p (VList [VInt 1]))"
  by (simp add: check_when_exhaustive_def check_when_list_exhaustive_def short_list_cases_def pat_def rest_node_def
      matches_def)

lemma open_universe_accepted:
  "check_when_exhaustive E TInt [int_pat 1] = [] \<and> pat_ok E TInt (int_pat 1) \<and> \<not> matches E TInt (int_pat 1) (VInt 2)"
  by (simp add: check_when_exhaustive_def required_cases_def case_covers_def int_pat_def pat_def matches_def)

end
