(* ===== verification/LowerPatternCorrect.thy ===== *)
theory LowerPatternCorrect
  imports ExhaustiveSound
begin

text \<open>
  Lowered patterns match as the source patterns do, and bind the same values to the variables
  their names are lowered to. Composed with the exhaustiveness check: the match a checked \<open>when\<close>
  is lowered to never falls through.
\<close>

section \<open>Where lowering sees what the analyzer saw\<close>

text \<open>
  The two tables of enums agree: qualified names, and per enum the variants in order with the
  number of their fields.
\<close>

definition enums_agree :: "lower_ctx \<Rightarrow> enum_defs \<Rightarrow> bool" where
  "enums_agree c E \<longleftrightarrow>
     (\<forall>n d. map_of E n = Some d \<longrightarrow> map_of (ctx_enums c) n = Some (map (\<lambda>(v, ps). (v, length ps)) (variants d)))"

text \<open>
  Lowering knows the subject's type at the top of a pattern only, and none below. So a pattern is
  readable when each of its names can be told from what is written. Below the top, the head of a
  constructor has to be written for the enum \<open>n\<close> of its type: \<open>m.e.v\<close> where \<open>n\<close> is \<open>e\<close> of the
  module imported as \<open>m\<close>; \<open>e.v\<close> where \<open>n\<close> is \<open>e\<close> of this module, of the prelude, or the enum a
  module imported as \<open>e\<close> is named after; \<open>v\<close> where \<open>n\<close> is in the prelude. No other enum that could
  be meant may have the variant.
\<close>

definition written_for :: "lower_ctx \<Rightarrow> constructor_head \<Rightarrow> string \<Rightarrow> bool" where
  "written_for c h n \<longleftrightarrow>
     (case head_enum h of
        Some e \<Rightarrow>
          (case head_module h of
             Some m \<Rightarrow> map_option (\<lambda>q. q @ ''.'' @ ident_name e) (map_of (ctx_imports c) (ident_name m)) = Some n
           | None \<Rightarrow> n = current_module c @ ''.'' @ ident_name e \<or> n = ''__prelude__.'' @ ident_name e
               \<or> map_option (\<lambda>q. q @ ''.'' @ eponym q) (map_of (ctx_imports c) (ident_name e)) = Some n)
      | None \<Rightarrow> \<exists>e \<in> {drop 12 n}. n = ''__prelude__.'' @ e)"

definition declares :: "lower_ctx \<Rightarrow> string \<Rightarrow> string \<Rightarrow> bool" where
  "declares c n v \<longleftrightarrow> (case map_of (ctx_enums c) n of None \<Rightarrow> False | Some vs \<Rightarrow> v \<in> fst ` set vs)"

definition head_readable :: "lower_ctx \<Rightarrow> constructor_head \<Rightarrow> string \<Rightarrow> bool" where
  "head_readable c h n \<longleftrightarrow> written_for c h n
     \<and> (\<forall>m \<in> fst ` set (ctx_enums c). written_for c h m \<and> declares c m (ident_name (head_variant h)) \<longrightarrow> m = n)"

text \<open>
  A name that is a nullary variant for the analyzer stands at the top; one that is a binding is,
  at the top, not also a nullary variant of the subject's enum, nor \<open>true\<close> or \<open>false\<close> of a boolean.
\<close>

definition name_readable :: "lower_ctx \<Rightarrow> enum_defs \<Rightarrow> bool \<Rightarrow> ty \<Rightarrow> string \<Rightarrow> bool" where
  "name_readable c E outer t x \<longleftrightarrow>
     (if nullary_at E t x then outer
      else outer \<longrightarrow> (case t of
          TEnum n targs \<Rightarrow> (case map_of (ctx_enums c) n of None \<Rightarrow> True | Some vs \<Rightarrow> (x, 0) \<notin> set vs)
        | TBool \<Rightarrow> x \<noteq> ''true'' \<and> x \<noteq> ''false''
        | _ \<Rightarrow> True))"

fun readable :: "lower_ctx \<Rightarrow> enum_defs \<Rightarrow> bool \<Rightarrow> ty \<Rightarrow> 'e pattern_node \<Rightarrow> bool"
  and readable_kind :: "lower_ctx \<Rightarrow> enum_defs \<Rightarrow> bool \<Rightarrow> ty \<Rightarrow> 'e pattern_kind \<Rightarrow> bool"
  and readable_list :: "lower_ctx \<Rightarrow> enum_defs \<Rightarrow> ty list \<Rightarrow> 'e pattern_node list \<Rightarrow> bool"
  and readable_items :: "lower_ctx \<Rightarrow> enum_defs \<Rightarrow> ty \<Rightarrow> 'e pattern_node list \<Rightarrow> bool"
  and readable_fields :: "lower_ctx \<Rightarrow> enum_defs \<Rightarrow> (string \<times> ty) list \<Rightarrow> (identifier_node \<times> 'e pattern_node) list \<Rightarrow> bool" where
  "readable c E outer t (PatternNode r k) = readable_kind c E outer t k"
| "readable_kind c E outer t (Pat_Identifier x) = name_readable c E outer t (ident_name x)"
| "readable_kind c E outer t (Pat_Constructor h args) =
     (case enum_view t of
        None \<Rightarrow> False
      | Some (n, targs) \<Rightarrow>
          (outer \<or> head_readable c h n)
          \<and> (case find_variant_in_enum E n (ident_name (head_variant h)) of
               None \<Rightarrow> False
             | Some ps \<Rightarrow> readable_list c E (instantiate E n targs ps) args))"
| "readable_kind c E outer t (Pat_Tuple ps) = (case tuple_view t of None \<Rightarrow> False | Some ts \<Rightarrow> readable_list c E ts ps)"
| "readable_kind c E outer t (Pat_Record fs rest) =
     (case record_view t of None \<Rightarrow> False | Some (tfs, tail) \<Rightarrow> readable_fields c E tfs fs)"
| "readable_kind c E outer t (Pat_List items rest) = (case list_view t of None \<Rightarrow> False | Some u \<Rightarrow> readable_items c E u items)"
| "readable_kind c E outer t k = True"
| "readable_list c E ts [] = True"
| "readable_list c E ts (p # ps) = (case ts of [] \<Rightarrow> False | t # ts' \<Rightarrow> readable c E False t p \<and> readable_list c E ts' ps)"
| "readable_items c E t [] = True"
| "readable_items c E t (p # ps) = (readable c E False t p \<and> readable_items c E t ps)"
| "readable_fields c E tfs [] = True"
| "readable_fields c E tfs ((n, p) # fs) =
     ((case map_of tfs (ident_name n) of None \<Rightarrow> False | Some t \<Rightarrow> readable c E False t p) \<and> readable_fields c E tfs fs)"

text \<open>
  For the proofs: what lowering makes of the names with the type \<open>lt\<close> it has is what they are for
  the type \<open>t\<close>. That a readable pattern is read like this is \<open>readable_seen\<close>.
\<close>

definition name_seen :: "lower_ctx \<Rightarrow> enum_defs \<Rightarrow> ty \<Rightarrow> ty \<Rightarrow> string \<Rightarrow> bool" where
  "name_seen c E lt t x \<longleftrightarrow>
     names_nullary c lt x = (if nullary_at E t x then map_option fst (enum_view t) else None)
     \<and> \<not> (lt = TBool \<and> (x = ''true'' \<or> x = ''false''))"

fun seen :: "lower_ctx \<Rightarrow> enum_defs \<Rightarrow> ty \<Rightarrow> ty \<Rightarrow> 'e pattern_node \<Rightarrow> bool"
  and seen_kind :: "lower_ctx \<Rightarrow> enum_defs \<Rightarrow> ty \<Rightarrow> ty \<Rightarrow> 'e pattern_kind \<Rightarrow> bool"
  and seen_list :: "lower_ctx \<Rightarrow> enum_defs \<Rightarrow> ty list \<Rightarrow> 'e pattern_node list \<Rightarrow> bool"
  and seen_items :: "lower_ctx \<Rightarrow> enum_defs \<Rightarrow> ty \<Rightarrow> 'e pattern_node list \<Rightarrow> bool"
  and seen_fields :: "lower_ctx \<Rightarrow> enum_defs \<Rightarrow> (string \<times> ty) list \<Rightarrow> (identifier_node \<times> 'e pattern_node) list \<Rightarrow> bool" where
  "seen c E lt t (PatternNode r k) = seen_kind c E lt t k"
| "seen_kind c E lt t (Pat_Identifier x) = name_seen c E lt t (ident_name x)"
| "seen_kind c E lt t (Pat_Constructor h args) =
     (case enum_view t of
        None \<Rightarrow> False
      | Some (n, targs) \<Rightarrow>
          resolve_variant_enum c h lt = Inr n
          \<and> seen_list c E (instantiate E n targs (the (find_variant_in_enum E n (ident_name (head_variant h))))) args)"
| "seen_kind c E lt t (Pat_Tuple ps) = (case tuple_view t of None \<Rightarrow> False | Some ts \<Rightarrow> seen_list c E ts ps)"
| "seen_kind c E lt t (Pat_Record fs rest) =
     (case record_view t of None \<Rightarrow> False | Some (tfs, tail) \<Rightarrow> seen_fields c E tfs fs)"
| "seen_kind c E lt t (Pat_List items rest) = (case list_view t of None \<Rightarrow> False | Some u \<Rightarrow> seen_items c E u items)"
| "seen_kind c E lt t k = True"
| "seen_list c E ts [] = True"
| "seen_list c E ts (p # ps) = (case ts of [] \<Rightarrow> False | t # ts' \<Rightarrow> seen c E TUnknown t p \<and> seen_list c E ts' ps)"
| "seen_items c E t [] = True"
| "seen_items c E t (p # ps) = (seen c E TUnknown t p \<and> seen_items c E t ps)"
| "seen_fields c E tfs [] = True"
| "seen_fields c E tfs ((n, p) # fs) =
     ((case map_of tfs (ident_name n) of None \<Rightarrow> False | Some t \<Rightarrow> seen c E TUnknown t p) \<and> seen_fields c E tfs fs)"

lemma variant_tag_declares: "variant_tag c n v \<noteq> None \<longleftrightarrow> declares c n v"
proof (cases "map_of (ctx_enums c) n")
  case (Some vs)
  then have "variant_tag c n v = position v (map fst vs)" by (simp add: variant_tag_def)
  with Some position_None [of v "map fst vs"] show ?thesis by (simp add: declares_def)
qed (simp add: variant_tag_def declares_def)

lemma declared: "enums_agree c E \<Longrightarrow> find_variant_in_enum E n v = Some ps \<Longrightarrow> declares c n v"
  by (force simp: enums_agree_def declares_def find_variant_in_enum_def bind_Some_iff dest: map_of_SomeD)

lemma candidates_written:
  "head_enum h = Some e \<Longrightarrow> head_module h = None \<Longrightarrow> q \<in> set (enum_candidates c (ident_name e)) \<longleftrightarrow> written_for c h q"
  by (cases "map_of (ctx_imports c) (ident_name e)") (auto simp: written_for_def enum_candidates_def)

lemma find_only:
  assumes "n \<in> set qs" and "P n" and "\<And>q. q \<in> set qs \<Longrightarrow> P q \<Longrightarrow> q = n"
  shows "List.find P qs = Some n"
proof (cases "List.find P qs")
  case None
  with assms(1,2) show ?thesis by (auto simp: find_None_iff)
next
  case (Some q)
  then have "q \<in> set qs" "P q" by (auto simp: find_Some_iff)
  with assms(3) Some show ?thesis by simp
qed

lemma resolve_readable:
  assumes "head_readable c h n" and "declares c n (ident_name (head_variant h))"
  shows "resolve_variant_enum c h TUnknown = Inr n"
proof -
  let ?v = "ident_name (head_variant h)"
  have w: "written_for c h n" using assms(1) by (simp add: head_readable_def)
  have only: "q = n" if "written_for c h q" "declares c q ?v" for q
  proof -
    have "q \<in> fst ` set (ctx_enums c)" using that(2) by (force simp: declares_def dest: map_of_SomeD split: option.splits)
    with that assms(1) show ?thesis unfolding head_readable_def by blast
  qed
  show ?thesis
  proof (cases "head_enum h")
    case None
    let ?qs = "filter (\<lambda>q. take 12 q = ''__prelude__.'') (map fst (ctx_enums c))"
    have pre: "take 12 q = ''__prelude__.'' \<longleftrightarrow> written_for c h q" for q
    proof -
      have "take 12 (''__prelude__.'' @ drop 12 q) = ''__prelude__.''" by simp
      then have "take 12 q = ''__prelude__.'' \<longleftrightarrow> q = ''__prelude__.'' @ drop 12 q" by (metis append_take_drop_id)
      with None show ?thesis by (simp add: written_for_def)
    qed
    have "n \<in> fst ` set (ctx_enums c)" using assms(2) by (force simp: declares_def dest: map_of_SomeD split: option.splits)
    then have "List.find (\<lambda>q. variant_tag c q ?v \<noteq> None) ?qs = Some n"
      using w assms(2) by (intro find_only only) (simp_all add: pre variant_tag_declares del: not_None_eq)
    with None show ?thesis by (simp add: resolve_variant_enum_def)
  next
    case (Some e)
    show ?thesis
    proof (cases "head_module h")
      case None
      have "List.find (\<lambda>q. variant_tag c q ?v \<noteq> None) (enum_candidates c (ident_name e)) = Some n"
        using w assms(2) by (intro find_only only) (simp_all add: candidates_written [OF Some None] variant_tag_declares del: not_None_eq)
      with Some None show ?thesis by (simp add: resolve_variant_enum_def)
    next
      case m: (Some m)
      with w Some show ?thesis by (auto simp: written_for_def resolve_variant_enum_def)
    qed
  qed
qed

lemma name_readable_seen:
  assumes "enums_agree c E" and "name_readable c E outer t x"
  shows "name_seen c E (if outer then t else TUnknown) t x"
proof (cases "nullary_at E t x")
  case True
  with assms(2) have outer by (simp add: name_readable_def)
  from True obtain n targs d where t: "t = TEnum n targs" "map_of E n = Some d" "map_of (variants d) x = Some []"
    by (auto simp: nullary_at_def find_variant_in_enum_def bind_Some_iff split: ty.splits)
  then have "map_of (ctx_enums c) n = Some (map (\<lambda>(v, ps). (v, length ps)) (variants d))" using assms(1) by (simp add: enums_agree_def)
  moreover have "(x, 0) \<in> set (map (\<lambda>(v, ps). (v, length ps)) (variants d))" using map_of_SomeD [OF t(3)] by force
  ultimately have "names_nullary c t x = Some n" by (auto simp: names_nullary_def t(1) list_ex_iff simp del: set_map)
  with True \<open>outer\<close> t(1) show ?thesis by (simp add: name_seen_def enum_view_def)
next
  case False
  show ?thesis
  proof (cases outer)
    case True
    with False assms(2) show ?thesis
      by (auto simp: name_readable_def name_seen_def names_nullary_def list_ex_iff split: ty.splits option.splits)
  qed (use False in \<open>simp add: name_seen_def names_nullary_def\<close>)
qed

lemma readable_seen_parts:
  fixes p :: "'e pattern_node" and k :: "'e pattern_kind" and ps :: "'e pattern_node list" and ts :: "ty list"
    and fs :: "(identifier_node \<times> 'e pattern_node) list"
  shows "enums_agree c E \<Longrightarrow> readable c E outer t p \<Longrightarrow> seen c E (if outer then t else TUnknown) t p"
    and "enums_agree c E \<Longrightarrow> readable_kind c E outer t k \<Longrightarrow> seen_kind c E (if outer then t else TUnknown) t k"
    and "enums_agree c E \<Longrightarrow> readable_list c E ts ps \<Longrightarrow> seen_list c E ts ps"
    and "enums_agree c E \<Longrightarrow> readable_items c E t ps \<Longrightarrow> seen_items c E t ps"
    and "enums_agree c E \<Longrightarrow> readable_fields c E tfs fs \<Longrightarrow> seen_fields c E tfs fs"
proof (induction c E outer t p and c E outer t k and c E ts ps and c E t ps and c E tfs fs
    rule: readable_readable_kind_readable_list_readable_items_readable_fields.induct)
  case (2 c E outer t x)
  then show ?case using name_readable_seen by simp
next
  case (3 c E outer t h args)
  from 3(3) obtain n targs ps where t: "t = TEnum n targs" "find_variant_in_enum E n (ident_name (head_variant h)) = Some ps"
    "outer \<or> head_readable c h n" "readable_list c E (instantiate E n targs ps) args"
    by (auto simp: enum_view_def split: ty.splits option.splits)
  have "resolve_variant_enum c h (if outer then t else TUnknown) = Inr n"
    using t resolve_readable [of c h n] declared [OF 3(2) t(2)] by (cases outer) (auto simp: resolve_variant_enum_def)
  moreover have "seen_list c E (instantiate E n targs ps) args"
    using 3(1) [OF _ _ t(2) 3(2) t(4)] t(1) by (simp add: enum_view_def)
  ultimately show ?case using t(1,2) by (simp add: enum_view_def)
qed (auto split: option.splits list.splits)

lemma readable_seen:
  "enums_agree c E \<Longrightarrow> readable c E outer t p \<Longrightarrow> seen c E (if outer then t else TUnknown) t p"
  by (rule readable_seen_parts(1))

section \<open>Scopes and bindings\<close>

text \<open>The names become the next variables, in order.\<close>

definition allots :: "fn_scope \<Rightarrow> fn_scope \<Rightarrow> string list \<Rightarrow> bool" where
  "allots s s' names \<longleftrightarrow> next_fresh s' = next_fresh s + length names
     \<and> locals s' = locals s @ zip names [next_fresh s..<next_fresh s + length names]"

text \<open>A match binds to the variables from \<open>n\<close> on what the source pattern binds to the names.\<close>

definition agrees :: "matched \<Rightarrow> (string \<times> val) list option \<Rightarrow> string list \<Rightarrow> var_id \<Rightarrow> bool" where
  "agrees m src names n \<longleftrightarrow>
     (case src of
        None \<Rightarrow> m = Mismatch
      | Some bs \<Rightarrow> map fst bs = names
          \<and> (\<exists>bs'. m = Binds bs' \<and> mset bs' = mset (zip [n..<n + length names] (map snd bs))))"

definition lowered_ok :: "fn_scope \<Rightarrow> fn_scope \<Rightarrow> ('v \<Rightarrow> bool) \<Rightarrow> ('v \<Rightarrow> matched) \<Rightarrow> ('v \<Rightarrow> (string \<times> val) list option) \<Rightarrow> bool" where
  "lowered_ok s s' typed m src \<longleftrightarrow>
     (\<exists>names. allots s s' names \<and> (\<forall>v. typed v \<longrightarrow> agrees (m v) (src v) names (next_fresh s)))"

lemma lowered_okI:
  "allots s s' names \<Longrightarrow> (\<And>v. typed v \<Longrightarrow> agrees (m v) (src v) names (next_fresh s)) \<Longrightarrow> lowered_ok s s' typed m src"
  by (auto simp: lowered_ok_def)

lemma lowered_okE:
  assumes "lowered_ok s s' typed m src"
  obtains names where "allots s s' names" and "\<And>v. typed v \<Longrightarrow> agrees (m v) (src v) names (next_fresh s)"
  using assms by (auto simp: lowered_ok_def)

lemma allots_trans:
  assumes "allots s s' names" "allots s' s'' names'"
  shows "allots s s'' (names @ names')"
proof -
  let ?n = "next_fresh s" and ?k = "length names"
  have "[?n..<?n + (?k + length names')] = [?n..<?n + ?k] @ [?n + ?k..<?n + ?k + length names']"
    using upt_add_eq_append [of ?n "?n + ?k" "length names'"] by (simp add: add.assoc)
  with assms show ?thesis by (simp add: allots_def add.assoc zip_append)
qed

lemma allots_refl [simp]: "allots s s []"
  by (simp add: allots_def)

lemma agrees_seq:
  assumes "agrees m src names n" and "agrees m' src' names' (n + length names)"
  shows "agrees (and_then m (\<lambda>bs. and_then m' (\<lambda>bs'. Binds (bs @ bs'))))
      (case src of None \<Rightarrow> None | Some bs \<Rightarrow> (case src' of None \<Rightarrow> None | Some bs' \<Rightarrow> Some (bs @ bs')))
      (names @ names') n"
proof (cases src)
  case (Some bs)
  show ?thesis
  proof (cases src')
    case (Some bs')
    let ?A = "[n..<n + length names]" and ?B = "[n + length names..<n + length names + length names']"
    from assms(1) \<open>src = Some bs\<close> obtain b1 where
      b1: "map fst bs = names" "m = Binds b1" "mset b1 = mset (zip ?A (map snd bs))" by (auto simp: agrees_def)
    from assms(2) Some obtain b2 where
      b2: "map fst bs' = names'" "m' = Binds b2" "mset b2 = mset (zip ?B (map snd bs'))" by (auto simp: agrees_def)
    have "length ?A = length (map snd bs)" using b1(1) by auto
    then have "zip (?A @ ?B) (map snd bs @ map snd bs') = zip ?A (map snd bs) @ zip ?B (map snd bs')" by (rule zip_append)
    moreover have "[n..<n + length (names @ names')] = ?A @ ?B"
      using upt_add_eq_append [of n "n + length names" "length names'"] by (simp add: add.assoc)
    ultimately show ?thesis using \<open>src = Some bs\<close> Some b1 b2 by (simp add: agrees_def)
  qed (use assms Some in \<open>auto simp: agrees_def\<close>)
qed (use assms in \<open>auto simp: agrees_def\<close>)

lemma agrees_nothing [simp]: "agrees (Binds []) (Some []) [] n"
  by (simp add: agrees_def)

lemma lower_rest_ok:
  assumes "lower_rest rest none anon mk s = (r, s')"
  shows "allots s s' (map fst (rest_bindings rest v))"
    and "length (rest_bindings rest v) \<le> 1"
    and "rest_bindings rest v = [(x, v)] \<Longrightarrow> r = mk (next_fresh s)"
    and "rest = None \<Longrightarrow> r = none"
    and "rest \<noteq> None \<Longrightarrow> rest_bindings rest v = [] \<Longrightarrow> r = anon"
  using assms
  by (auto simp: lower_rest_def lower_rest_binding_def rest_bindings_def alloc_var_def push_local_def allots_def
      split: option.splits)

section \<open>Single patterns\<close>

lemma position_map_of: "position x (map fst xs) = Some i \<Longrightarrow> map_of xs x = Some (snd (xs ! i)) \<and> i < length xs"
  by (induction xs arbitrary: i) (auto split: if_splits)

lemma variant_tag_agrees:
  assumes "enums_agree c E" and "find_variant_in_enum E n v = Some ps"
  shows "variant_tag c n v = variant_index E n v"
proof -
  from assms(2) obtain d where d: "map_of E n = Some d" by (auto simp: find_variant_in_enum_def bind_Some_iff)
  have "fst \<circ> (\<lambda>(v, ps). (v, length ps)) = (fst :: string \<times> ty list \<Rightarrow> string)" by auto
  with assms(1) d show ?thesis by (simp add: enums_agree_def variant_tag_def variant_index_def)
qed

lemma payload_of_index:
  assumes "variant_index E n v = Some tag" and "find_variant_in_enum E n v = Some ps"
    and "has_type E (VVariant tag vs) (TEnum n targs)"
  shows "has_types E vs (instantiate E n targs ps)"
  using assms position_map_of
  by (fastforce simp: variant_index_def find_variant_in_enum_def bind_Some_iff has_type_simps)

lemma literal_typed: "has_type E v (literal_type k) \<Longrightarrow> lit_matches (literal_to_const k) v \<noteq> None"
  by (cases k) (auto simp: has_type_simps)

lemma names_nullary_Some: "names_nullary c lt x = Some q \<Longrightarrow> \<exists>targs. lt = TEnum q targs"
  by (auto simp: names_nullary_def split: ty.splits option.splits if_splits)

lemma identifier_ok:
  assumes "lower_identifier c lt (ident_name x) s = Inr (q, s')" and "name_seen c E lt t (ident_name x)" and "enums_agree c E"
  shows "lowered_ok s s' (\<lambda>v. has_type E v t) (match_pat q) (src_kind E t (Pat_Identifier x))"
proof (cases "nullary_at E t (ident_name x)")
  case True
  then obtain n targs where t: "t = TEnum n targs" "find_variant_in_enum E n (ident_name x) = Some []"
    by (auto simp: nullary_at_def split: ty.splits)
  with True assms(2) have "names_nullary c lt (ident_name x) = Some n" by (simp add: name_seen_def)
  with assms(1) obtain tag where q: "variant_tag c n (ident_name x) = Some tag" "q = PVariant (ident_name x) tag []" "s' = s"
    by (auto simp: lower_identifier_def pattern_variant_tag_def split: option.splits)
  have "variant_index E n (ident_name x) = Some tag" using variant_tag_agrees [OF assms(3) t(2)] q(1) by simp
  moreover have "has_types E vs []" if "has_type E (VVariant tag vs) t" for vs
    using payload_of_index [OF calculation t(2)] that t(1) by (simp add: instantiate_def)
  ultimately have "agrees (match_pat q v) (src_kind E t (Pat_Identifier x) v) [] (next_fresh s)"
    if "has_type E v t" for v
    using that True t q(2) unfolding has_type_simps t(1)
    by (auto simp: src_nullary_def agrees_def has_types_list)
  then show ?thesis using q(3) by (intro lowered_okI [of s s' "[]"]) simp_all
next
  case False
  with assms(1,2) have "q = PBind (next_fresh s)" "s' = push_local (ident_name x) (next_fresh s) (s\<lparr>next_fresh := next_fresh s + 1\<rparr>)"
    by (auto simp: name_seen_def lower_identifier_def alloc_var_def split: if_splits)
  with False show ?thesis
    by (intro lowered_okI [of s s' "[ident_name x]"]) (auto simp: allots_def push_local_def agrees_def)
qed

lemma constructor_ok:
  assumes "resolve_variant_enum c h lt = Inr n" and "pattern_variant_tag c n (ident_name (head_variant h)) = Inr tag"
    and "enums_agree c E" and "find_variant_in_enum E n (ident_name (head_variant h)) = Some ps"
    and "lowered_ok s s' (\<lambda>vs. has_types E vs (instantiate E n targs ps)) (match_all qs) (src_list E (instantiate E n targs ps) args)"
  shows "lowered_ok s s' (\<lambda>v. has_type E v (TEnum n targs)) (match_pat (PVariant nm tag qs))
      (src_kind E (TEnum n targs) (Pat_Constructor h args))"
proof -
  let ?v = "ident_name (head_variant h)"
  have i: "variant_index E n ?v = Some tag"
    using variant_tag_agrees [OF assms(3,4)] assms(2) by (auto simp: pattern_variant_tag_def split: option.splits)
  from assms(5) obtain names where names: "allots s s' names"
      "\<And>vs. has_types E vs (instantiate E n targs ps) \<Longrightarrow>
         agrees (match_all qs vs) (src_list E (instantiate E n targs ps) args vs) names (next_fresh s)"
    by (auto simp: lowered_ok_def)
  have "agrees (match_pat (PVariant nm tag qs) v) (src_kind E (TEnum n targs) (Pat_Constructor h args) v) names (next_fresh s)"
    if ty: "has_type E v (TEnum n targs)" for v
  proof -
    from ty obtain tag' vs where v: "v = VVariant tag' vs" by (auto simp: has_type_simps)
    show ?thesis
    proof (cases "tag' = tag")
      case True
      with names(2) [OF payload_of_index [OF i assms(4)]] ty v i assms(4) show ?thesis by simp
    next
      case False
      with v i show ?thesis by (simp add: agrees_def)
    qed
  qed
  with names(1) show ?thesis by (auto simp: lowered_ok_def)
qed

lemma agrees_rest:
  assumes "agrees m src names n" and "lower_rest rest none anon mk s = (r, s')" and "next_fresh s = n + length names"
  shows "rest = None \<Longrightarrow> agrees m (map_option (\<lambda>bs. bs @ rest_bindings rest w) src) (names @ map fst (rest_bindings rest w)) n"
    and "rest \<noteq> None \<Longrightarrow> rest_bindings rest w = [] \<Longrightarrow>
      agrees m (map_option (\<lambda>bs. bs @ rest_bindings rest w) src) (names @ map fst (rest_bindings rest w)) n"
    and "rest_bindings rest w = [(x, w)] \<Longrightarrow>
      agrees (and_then m (\<lambda>bs. Binds ((next_fresh s, w) # bs)))
        (map_option (\<lambda>bs. bs @ rest_bindings rest w) src) (names @ map fst (rest_bindings rest w)) n"
    and "rest_bindings rest w = [(x, w)] \<Longrightarrow>
      agrees (and_then m (\<lambda>bs. Binds (bs @ [(next_fresh s, w)])))
        (map_option (\<lambda>bs. bs @ rest_bindings rest w) src) (names @ map fst (rest_bindings rest w)) n"
proof -
  show "rest = None \<Longrightarrow> agrees m (map_option (\<lambda>bs. bs @ rest_bindings rest w) src) (names @ map fst (rest_bindings rest w)) n"
    using assms(1) by (cases src) (auto simp: rest_bindings_def agrees_def)
  show "rest \<noteq> None \<Longrightarrow> rest_bindings rest w = [] \<Longrightarrow>
      agrees m (map_option (\<lambda>bs. bs @ rest_bindings rest w) src) (names @ map fst (rest_bindings rest w)) n"
    using assms(1) by (cases src) (auto simp: agrees_def)
  have one: "agrees (Binds [(n + length names, w)]) (Some [(x, w)]) [x] (n + length names)"
    by (simp add: agrees_def)
  assume rb: "rest_bindings rest w = [(x, w)]"
  from agrees_seq [OF assms(1) one]
  show snoc: "agrees (and_then m (\<lambda>bs. Binds (bs @ [(next_fresh s, w)])))
        (map_option (\<lambda>bs. bs @ rest_bindings rest w) src) (names @ map fst (rest_bindings rest w)) n"
    using rb assms(3) by (cases src; cases m) auto
  then show "agrees (and_then m (\<lambda>bs. Binds ((next_fresh s, w) # bs)))
        (map_option (\<lambda>bs. bs @ rest_bindings rest w) src) (names @ map fst (rest_bindings rest w)) n"
    by (cases m) (auto simp: agrees_def split: option.splits)
qed

lemma rest_bindings_cases:
  obtains (none) "rest = None" | (anon) "rest \<noteq> None" "rest_bindings rest w = []" | (bound) x where "rest \<noteq> None" "rest_bindings rest w = [(x, w)]"
  by (cases rest; cases "rest_binding (the rest)") (auto simp: rest_bindings_def)

lemma rest_allots: "lower_rest rest none anon mk s = (r, s') \<Longrightarrow> allots s s' (map fst (rest_bindings rest v))"
  by (rule lower_rest_ok(1))

lemma rest_names: "map fst (rest_bindings rest v) = map fst (rest_bindings rest w)"
  by (auto simp: rest_bindings_def split: option.splits)

lemma list_ok:
  assumes "lowered_ok s s' (\<lambda>vs. all_have E vs u \<and> length items \<le> length vs)
      (\<lambda>vs. match_all qs (take (length items) vs)) (src_items E u items)"
    and "length qs = length items"
    and r: "lower_rest rest None (Some ListRest_Anon) (\<lambda>v. Some (ListRest_Bind v)) s' = (r, s'')"
  shows "lowered_ok s s'' (\<lambda>v. has_type E v (TList u)) (match_pat (PList qs r)) (src_kind E (TList u) (Pat_List items rest))"
proof -
  from assms(1) obtain names where names: "allots s s' names" and
    ag: "\<And>vs. all_have E vs u \<Longrightarrow> length items \<le> length vs \<Longrightarrow>
      agrees (match_all qs (take (length items) vs)) (src_items E u items vs) names (next_fresh s)"
    by (auto elim!: lowered_okE)
  have n: "next_fresh s' = next_fresh s + length names" using names by (simp add: allots_def)
  show ?thesis
  proof (rule lowered_okI [OF allots_trans [OF names rest_allots [OF r, of VUnit]]])
    fix v
    assume "has_type E v (TList u)"
    then obtain vs where v: "v = VList vs" "all_have E vs u" by (auto simp: has_type_simps)
    let ?w = "VList (drop (length items) vs)"
    let ?names = "names @ map fst (rest_bindings rest VUnit)"
    show "agrees (match_pat (PList qs r) v) (src_kind E (TList u) (Pat_List items rest) v) ?names (next_fresh s)"
    proof (cases "length vs < length items \<or> rest = None \<and> length vs \<noteq> length items")
      case True
      then have "match_pat (PList qs r) v = Mismatch"
        using v(1) assms(2) lower_rest_ok(4) [OF r] by (auto split: option.splits)
      with True v(1) show ?thesis by (simp add: agrees_def)
    next
      case False
      then have le: "length items \<le> length vs" by simp
      have src: "src_kind E (TList u) (Pat_List items rest) v = map_option (\<lambda>bs. bs @ rest_bindings rest ?w) (src_items E u items vs)"
        using False v(1) by (auto split: option.splits)
      note rest = agrees_rest [OF ag [OF v(2) le] r n, of ?w]
      show ?thesis
        unfolding src rest_names [of rest VUnit ?w]
      proof (cases rule: rest_bindings_cases [where rest = rest and w = ?w])
        case none
        with False rest(1) lower_rest_ok(4) [OF r none] v(1) assms(2)
        show "agrees (match_pat (PList qs r) v) (map_option (\<lambda>bs. bs @ rest_bindings rest ?w) (src_items E u items vs))
            (names @ map fst (rest_bindings rest ?w)) (next_fresh s)" by simp
      next
        case anon
        then have "match_pat (PList qs r) v = match_all qs (take (length items) vs)"
          using lower_rest_ok(5) [OF r anon] v(1) le assms(2) by (cases "match_all qs (take (length items) vs)") auto
        with rest(2) [OF anon]
        show "agrees (match_pat (PList qs r) v) (map_option (\<lambda>bs. bs @ rest_bindings rest ?w) (src_items E u items vs))
            (names @ map fst (rest_bindings rest ?w)) (next_fresh s)" by simp
      next
        case (bound x)
        with rest(4) [OF bound(2)] lower_rest_ok(3) [OF r bound(2)] v(1) le assms(2)
        show "agrees (match_pat (PList qs r) v) (map_option (\<lambda>bs. bs @ rest_bindings rest ?w) (src_items E u items vs))
            (names @ map fst (rest_bindings rest ?w)) (next_fresh s)" by simp
      qed
    qed
  qed
qed

lemma record_lengths:
  assumes "distinct (map (ident_name \<circ> fst) fs)" "fst ` set tfs \<subseteq> (ident_name \<circ> fst) ` set fs" "fields_ok E tfs fs"
    and "record_labels_ok tfs None vs"
  shows "length vs = length fs"
proof -
  have "(ident_name \<circ> fst) ` set fs \<subseteq> fst ` set tfs"
    using assms(3)
  proof (induction fs)
    case (Cons f fs)
    then have "map_of tfs (ident_name (fst f)) \<noteq> None" by (cases f) (auto split: option.splits)
    moreover have "fields_ok E tfs fs" using Cons.prems by (cases f) simp
    ultimately show ?case using Cons.IH by (simp add: map_of_eq_None_iff)
  qed simp
  then have "(ident_name \<circ> fst) ` set fs = fst ` set tfs" using assms(2) by (rule subset_antisym)
  moreover have "fst ` set tfs = fst ` set vs" using assms(4) by (simp add: record_labels_ok_def subset_antisym)
  ultimately have "set (map (ident_name \<circ> fst) fs) = set (map fst vs)" by simp
  with assms(1,4) have "length (map (ident_name \<circ> fst) fs) = length (map fst vs)"
    unfolding record_labels_ok_def by (metis distinct_card)
  then show ?thesis by simp
qed

lemma record_ok:
  assumes "lowered_ok s s' (\<lambda>vs. has_fields E vs tfs \<and> fst ` set tfs \<subseteq> fst ` set vs) (match_fields qs) (src_fields E tfs fs)"
    and qs: "map fst qs = map (ident_name \<circ> fst) fs"
    and ok: "kind_ok E (TRecord tfs tail) (Pat_Record fs rest)"
    and r: "lower_rest rest Exact Open RecordRest_Bind s' = (r, s'')"
  shows "lowered_ok s s'' (\<lambda>v. has_type E v (TRecord tfs tail)) (match_pat (PRecord qs r sh))
      (src_kind E (TRecord tfs tail) (Pat_Record fs rest))"
proof -
  from assms(1) obtain names where names: "allots s s' names" and
    ag: "\<And>vs. has_fields E vs tfs \<Longrightarrow> fst ` set tfs \<subseteq> fst ` set vs \<Longrightarrow>
      agrees (match_fields qs vs) (src_fields E tfs fs vs) names (next_fresh s)"
    by (auto elim!: lowered_okE)
  have n: "next_fresh s' = next_fresh s + length names" using names by (simp add: allots_def)
  have labels: "fst ` set qs = (ident_name \<circ> fst) ` set fs" using arg_cong [OF qs, of set] by simp
  have len: "length qs = length fs" using arg_cong [OF qs, of length] by simp
  show ?thesis
  proof (rule lowered_okI [OF allots_trans [OF names rest_allots [OF r, of VUnit]]])
    fix v
    assume "has_type E v (TRecord tfs tail)"
    then obtain vs where v: "v = VRecord vs" "record_labels_ok tfs tail vs" "has_fields E vs tfs" by (auto simp: has_type_simps)
    let ?w = "VRecord (filter (\<lambda>f. fst f \<notin> (ident_name \<circ> fst) ` set fs) vs)"
    have src: "src_kind E (TRecord tfs tail) (Pat_Record fs rest) v = map_option (\<lambda>bs. bs @ rest_bindings rest ?w) (src_fields E tfs fs vs)"
      using v(1) by (auto split: option.splits)
    have "fst ` set tfs \<subseteq> fst ` set vs" using v(2) by (simp add: record_labels_ok_def)
    note rest = agrees_rest [OF ag [OF v(3) this] r n, of ?w]
    show "agrees (match_pat (PRecord qs r sh) v) (src_kind E (TRecord tfs tail) (Pat_Record fs rest) v)
        (names @ map fst (rest_bindings rest VUnit)) (next_fresh s)"
      unfolding src rest_names [of rest VUnit ?w]
    proof (cases rule: rest_bindings_cases [where rest = rest and w = ?w])
      case none
      with ok have "length vs = length fs" using record_lengths [of fs tfs E vs] v(2) by auto
      with none rest(1) lower_rest_ok(4) [OF r none] v(1) len
      show "agrees (match_pat (PRecord qs r sh) v) (map_option (\<lambda>bs. bs @ rest_bindings rest ?w) (src_fields E tfs fs vs))
          (names @ map fst (rest_bindings rest ?w)) (next_fresh s)" by simp
    next
      case anon
      with rest(2) lower_rest_ok(5) [OF r anon] v(1)
      show "agrees (match_pat (PRecord qs r sh) v) (map_option (\<lambda>bs. bs @ rest_bindings rest ?w) (src_fields E tfs fs vs))
          (names @ map fst (rest_bindings rest ?w)) (next_fresh s)" by simp
    next
      case (bound x)
      with rest(3) [OF bound(2)] lower_rest_ok(3) [OF r bound(2)] v(1) labels
      show "agrees (match_pat (PRecord qs r sh) v) (map_option (\<lambda>bs. bs @ rest_bindings rest ?w) (src_fields E tfs fs vs))
          (names @ map fst (rest_bindings rest ?w)) (next_fresh s)" by simp
    qed
  qed
qed

section \<open>Whole patterns\<close>

lemma lowered_ok_Cons:
  assumes "lowered_ok s s1 typed m src" and "lowered_ok s1 s2 typed' m' src'"
    and "\<And>v. typed'' v \<Longrightarrow> typed (f v) \<and> typed' (g v)
      \<and> m'' v = and_then (m (f v)) (\<lambda>bs. and_then (m' (g v)) (\<lambda>bs'. Binds (bs @ bs')))
      \<and> src'' v = (case src (f v) of None \<Rightarrow> None | Some bs \<Rightarrow> (case src' (g v) of None \<Rightarrow> None | Some bs' \<Rightarrow> Some (bs @ bs')))"
  shows "lowered_ok s s2 typed'' m'' src''"
proof -
  from assms(1) obtain names where 1: "allots s s1 names" "\<And>v. typed v \<Longrightarrow> agrees (m v) (src v) names (next_fresh s)"
    by (auto elim!: lowered_okE)
  from assms(2) obtain names' where 2: "allots s1 s2 names'" "\<And>v. typed' v \<Longrightarrow> agrees (m' v) (src' v) names' (next_fresh s1)"
    by (auto elim!: lowered_okE)
  have n: "next_fresh s1 = next_fresh s + length names" using 1(1) by (simp add: allots_def)
  show ?thesis
    using assms(3) 1(2) 2(2) by (intro lowered_okI [OF allots_trans [OF 1(1) 2(1)]]) (simp add: agrees_seq n)
qed

definition sub_ok :: "enum_defs \<Rightarrow> lower_ctx \<Rightarrow> fn_scope \<Rightarrow> fn_scope \<Rightarrow> 'e pattern_node list \<Rightarrow> pattern list \<Rightarrow> bool" where
  "sub_ok E c s s' ps qs \<longleftrightarrow> length qs = length ps
     \<and> (\<forall>ts. pats_ok E ts ps \<longrightarrow> seen_list c E ts ps \<longrightarrow>
          lowered_ok s s' (\<lambda>vs. has_types E vs ts) (match_all qs) (src_list E ts ps))
     \<and> (\<forall>u. items_ok E u ps \<longrightarrow> seen_items c E u ps \<longrightarrow>
          lowered_ok s s' (\<lambda>vs. all_have E vs u \<and> length ps \<le> length vs)
            (\<lambda>vs. match_all qs (take (length ps) vs)) (src_items E u ps))"

definition fields_lowered :: "enum_defs \<Rightarrow> lower_ctx \<Rightarrow> fn_scope \<Rightarrow> fn_scope \<Rightarrow>
    (identifier_node \<times> 'e pattern_node) list \<Rightarrow> (string \<times> pattern) list \<Rightarrow> bool" where
  "fields_lowered E c s s' fs qs \<longleftrightarrow> map fst qs = map (ident_name \<circ> fst) fs
     \<and> (\<forall>tfs. fields_ok E tfs fs \<longrightarrow> seen_fields c E tfs fs \<longrightarrow>
          lowered_ok s s' (\<lambda>vs. has_fields E vs tfs \<and> fst ` set tfs \<subseteq> fst ` set vs) (match_fields qs) (src_fields E tfs fs))"

definition pat_lowered :: "enum_defs \<Rightarrow> lower_ctx \<Rightarrow> ty \<Rightarrow> fn_scope \<Rightarrow> fn_scope \<Rightarrow> 'e pattern_kind \<Rightarrow> pattern \<Rightarrow> bool" where
  "pat_lowered E c lt s s' k q \<longleftrightarrow>
     (\<forall>t. kind_ok E t k \<longrightarrow> seen_kind c E lt t k \<longrightarrow> lowered_ok s s' (\<lambda>v. has_type E v t) (match_pat q) (src_kind E t k))"

lemma take_Suc_le: "Suc n \<le> length vs \<Longrightarrow> \<exists>v vs'. vs = v # vs' \<and> n \<le> length vs'"
  by (cases vs) auto

lemma sub_ok_Cons:
  assumes "pat_lowered E c TUnknown s s1 (pat_kind p) q" and "sub_ok E c s1 s2 ps qs"
  shows "sub_ok E c s s2 (p # ps) (q # qs)"
proof -
  have one: "lowered_ok s s1 (\<lambda>v. has_type E v t) (match_pat q) (src_kind E t (pat_kind p))"
    if "pat_ok E t p" "seen c E TUnknown t p" for t
    using assms(1) that by (cases p) (simp add: pat_lowered_def)
  have "lowered_ok s s2 (\<lambda>vs. has_types E vs ts) (match_all (q # qs)) (src_list E ts (p # ps))"
    if ok: "pats_ok E ts (p # ps)" "seen_list c E ts (p # ps)" for ts
  proof -
    from ok obtain t ts' where ts: "ts = t # ts'" "pat_ok E t p" "pats_ok E ts' ps" "seen c E TUnknown t p" "seen_list c E ts' ps"
      by (cases ts) auto
    with assms(2) have "lowered_ok s1 s2 (\<lambda>vs. has_types E vs ts') (match_all qs) (src_list E ts' ps)" by (simp add: sub_ok_def)
    from one [OF ts(2,4)] this show ?thesis
      by (rule lowered_ok_Cons [where f = hd and g = tl]) (auto simp: has_types_list list_all2_Cons2 ts(1) kind_ok_simps split: option.splits)
  qed
  moreover have "lowered_ok s s2 (\<lambda>vs. all_have E vs u \<and> length (p # ps) \<le> length vs)
      (\<lambda>vs. match_all (q # qs) (take (length (p # ps)) vs)) (src_items E u (p # ps))"
    if ok: "items_ok E u (p # ps)" "seen_items c E u (p # ps)" for u
  proof -
    from ok assms(2) have "lowered_ok s1 s2 (\<lambda>vs. all_have E vs u \<and> length ps \<le> length vs)
      (\<lambda>vs. match_all qs (take (length ps) vs)) (src_items E u ps)" by (simp add: sub_ok_def)
    from one this show ?thesis
      by (rule lowered_ok_Cons [where f = hd and g = tl]) (use ok in \<open>auto simp: kind_ok_simps split: option.splits dest!: take_Suc_le\<close>)
  qed
  ultimately show ?thesis using assms(2) by (simp add: sub_ok_def)
qed

lemma fields_lowered_Cons:
  assumes "pat_lowered E c TUnknown s s1 (pat_kind p) q" and "fields_lowered E c s1 s2 fs qs"
  shows "fields_lowered E c s s2 ((n, p) # fs) ((ident_name n, q) # qs)"
proof -
  have "lowered_ok s s2 (\<lambda>vs. has_fields E vs tfs \<and> fst ` set tfs \<subseteq> fst ` set vs) (match_fields ((ident_name n, q) # qs))
      (src_fields E tfs ((n, p) # fs))"
    if ok: "fields_ok E tfs ((n, p) # fs)" "seen_fields c E tfs ((n, p) # fs)" for tfs
  proof -
    from ok obtain t where t: "map_of tfs (ident_name n) = Some t" "pat_ok E t p" "seen c E TUnknown t p"
        "fields_ok E tfs fs" "seen_fields c E tfs fs" by (auto split: option.splits)
    then have one: "lowered_ok s s1 (\<lambda>v. has_type E v t) (match_pat q) (src_kind E t (pat_kind p))"
      using assms(1) by (cases p) (simp add: pat_lowered_def)
    from t(4,5) assms(2) have two: "lowered_ok s1 s2 (\<lambda>vs. has_fields E vs tfs \<and> fst ` set tfs \<subseteq> fst ` set vs)
        (match_fields qs) (src_fields E tfs fs)" by (simp add: fields_lowered_def)
    have there: "\<exists>v. map_of vs (ident_name n) = Some v \<and> has_type E v t"
      if "has_fields E vs tfs" "fst ` set tfs \<subseteq> fst ` set vs" for vs
    proof -
      from t(1) that(2) have "ident_name n \<in> fst ` set vs" by (force dest: map_of_SomeD)
      then obtain v where "map_of vs (ident_name n) = Some v" by (metis map_of_eq_None_iff not_Some_eq)
      with that(1) t(1) show ?thesis by (fastforce simp: has_fields_list dest: map_of_SomeD)
    qed
    from one two show ?thesis
    proof (rule lowered_ok_Cons [where f = "\<lambda>vs. the (map_of vs (ident_name n))" and g = "\<lambda>vs. vs"])
      fix vs
      assume typed: "has_fields E vs tfs \<and> fst ` set tfs \<subseteq> fst ` set vs"
      with there obtain v where "map_of vs (ident_name n) = Some v" "has_type E v t" by blast
      with typed t(1) show "has_type E (the (map_of vs (ident_name n))) t \<and> (has_fields E vs tfs \<and> fst ` set tfs \<subseteq> fst ` set vs)
          \<and> match_fields ((ident_name n, q) # qs) vs
            = and_then (match_pat q (the (map_of vs (ident_name n)))) (\<lambda>bs. and_then (match_fields qs vs) (\<lambda>bs'. Binds (bs @ bs')))
          \<and> src_fields E tfs ((n, p) # fs) vs
            = (case src_kind E t (pat_kind p) (the (map_of vs (ident_name n))) of None \<Rightarrow> None
               | Some bs \<Rightarrow> (case src_fields E tfs fs vs of None \<Rightarrow> None | Some bs' \<Rightarrow> Some (bs @ bs')))"
        by (simp add: kind_ok_simps)
    qed
  qed
  then show ?thesis using assms(2) by (simp add: fields_lowered_def)
qed

lemma lowered_ok_same: "(\<And>v. typed v \<Longrightarrow> agrees (m v) (src v) [] (next_fresh s)) \<Longrightarrow> lowered_ok s s typed m src"
  by (rule lowered_okI [of s s "[]"]) auto

lemma lowered_shape:
  fixes p :: "'e pattern_node" and k :: "'e pattern_kind" and ps :: "'e pattern_node list"
    and fs :: "(identifier_node \<times> 'e pattern_node) list"
  shows "enums_agree c E \<Longrightarrow> lower_pattern c lt p s = Inr (q, s') \<Longrightarrow> pat_lowered E c lt s s' (pat_kind p) q"
    and "enums_agree c E \<Longrightarrow> lower_kind c lt k s = Inr (q, s') \<Longrightarrow> pat_lowered E c lt s s' k q"
    and "enums_agree c E \<Longrightarrow> lower_sub_patterns c ps s = Inr (qs, s') \<Longrightarrow> sub_ok E c s s' ps qs"
    and "enums_agree c E \<Longrightarrow> lower_fields c fs s = Inr (fqs, s') \<Longrightarrow> fields_lowered E c s s' fs fqs"
proof (induction c lt p s and c lt k s and c ps s and c fs s arbitrary: q s' and q s' and qs s' and fqs s'
    rule: lower_pattern_lower_kind_lower_sub_patterns_lower_fields.induct)
  case (2 c t s)
  then show ?case by (auto simp: pat_lowered_def intro!: lowered_ok_same)
next
  case (3 c t x s)
  then show ?case by (auto simp: pat_lowered_def intro: identifier_ok)
next
  case (4 c t l s)
  have "agrees (match_pat q v) (src_kind E ty (Pat_Literal l) v) [] (next_fresh s)"
    if "kind_ok E ty (Pat_Literal l)" "has_type E v ty" for ty v
    using 4 that literal_typed [of E v "lit_kind l"] by (auto simp: agrees_def split: option.splits bool.splits)
  with 4 show ?case by (auto simp: pat_lowered_def intro!: lowered_ok_same)
next
  case (5 c t h subs s)
  then obtain n tag qs where l: "resolve_variant_enum c h t = Inr n"
      "pattern_variant_tag c n (ident_name (head_variant h)) = Inr tag" "lower_sub_patterns c subs s = Inr (qs, s')"
      "q = PVariant (ident_name (head_variant h)) tag qs" by (auto split: sum.splits)
  note sub = "5.IH" [OF l(1,2) "5.prems"(1) l(3)]
  have "lowered_ok s s' (\<lambda>v. has_type E v ty) (match_pat q) (src_kind E ty (Pat_Constructor h subs))"
    if ok: "kind_ok E ty (Pat_Constructor h subs)" "seen_kind c E t ty (Pat_Constructor h subs)" for ty
  proof -
    from ok(1) obtain m targs ps where ty: "ty = TEnum m targs"
        "find_variant_in_enum E m (ident_name (head_variant h)) = Some ps" "pats_ok E (instantiate E m targs ps) subs"
      by (auto split: ty.splits option.splits)
    with ok(2) l(1) have m: "m = n" "seen_list c E (instantiate E n targs ps) subs" by auto
    from sub ty(3) m have "lowered_ok s s' (\<lambda>vs. has_types E vs (instantiate E n targs ps)) (match_all qs)
        (src_list E (instantiate E n targs ps) subs)" by (simp add: sub_ok_def)
    from constructor_ok [OF l(1,2) "5.prems"(1) ty(2) [unfolded m(1)] this] show ?thesis unfolding ty(1) m(1) l(4) .
  qed
  then show ?case by (simp add: pat_lowered_def)
next
  case (6 c t elems s)
  then obtain qs where l: "lower_sub_patterns c elems s = Inr (qs, s')" "q = PTuple qs" by (auto split: sum.splits)
  note sub = "6.IH" [OF "6.prems"(1) l(1)]
  have "lowered_ok s s' (\<lambda>v. has_type E v ty) (match_pat q) (src_kind E ty (Pat_Tuple elems))"
    if ok: "kind_ok E ty (Pat_Tuple elems)" "seen_kind c E t ty (Pat_Tuple elems)" for ty
  proof -
    from ok obtain ts where ts: "ty = TTuple ts" "pats_ok E ts elems" "seen_list c E ts elems" by (auto split: ty.splits)
    with sub have "lowered_ok s s' (\<lambda>vs. has_types E vs ts) (match_all qs) (src_list E ts elems)" by (simp add: sub_ok_def)
    then show ?thesis by (elim lowered_okE, intro lowered_okI) (auto simp: ts(1) l(2) has_type_simps)
  qed
  then show ?case by (simp add: pat_lowered_def)
next
  case (7 c t items rest s)
  then obtain qs s1 r where l: "lower_sub_patterns c items s = Inr (qs, s1)"
      "lower_rest rest None (Some ListRest_Anon) (\<lambda>v. Some (ListRest_Bind v)) s1 = (r, s')" "q = PList qs r"
    by (auto split: sum.splits prod.splits)
  note sub = "7.IH" [OF "7.prems"(1) l(1)]
  have "lowered_ok s s' (\<lambda>v. has_type E v ty) (match_pat q) (src_kind E ty (Pat_List items rest))"
    if ok: "kind_ok E ty (Pat_List items rest)" "seen_kind c E t ty (Pat_List items rest)" for ty
  proof -
    from ok obtain u where u: "ty = TList u" "items_ok E u items" "seen_items c E u items" by (auto split: ty.splits)
    with sub have "lowered_ok s s1 (\<lambda>vs. all_have E vs u \<and> length items \<le> length vs)
        (\<lambda>vs. match_all qs (take (length items) vs)) (src_items E u items)" "length qs = length items" by (simp_all add: sub_ok_def)
    from list_ok [OF this l(2)] show ?thesis unfolding u(1) l(3) .
  qed
  then show ?case by (simp add: pat_lowered_def)
next
  case (8 c t fs rest s)
  then obtain qs s1 r where l: "lower_fields c fs s = Inr (qs, s1)"
      "lower_rest rest Exact Open RecordRest_Bind s1 = (r, s')" "q = PRecord qs r (shape_of c t)"
    by (auto split: sum.splits prod.splits)
  note sub = "8.IH" [OF "8.prems"(1) l(1)]
  have "lowered_ok s s' (\<lambda>v. has_type E v ty) (match_pat q) (src_kind E ty (Pat_Record fs rest))"
    if ok: "kind_ok E ty (Pat_Record fs rest)" "seen_kind c E t ty (Pat_Record fs rest)" for ty
  proof -
    from ok obtain tfs tail where u: "ty = TRecord tfs tail" "fields_ok E tfs fs" "seen_fields c E tfs fs" by (auto split: ty.splits)
    with sub have "lowered_ok s s1 (\<lambda>vs. has_fields E vs tfs \<and> fst ` set tfs \<subseteq> fst ` set vs) (match_fields qs) (src_fields E tfs fs)"
      "map fst qs = map (ident_name \<circ> fst) fs" by (simp_all add: fields_lowered_def)
    from record_ok [OF this ok(1) [unfolded u(1)] l(2)] show ?thesis unfolding u(1) l(3) .
  qed
  then show ?case by (simp add: pat_lowered_def)
next
  case (10 c s)
  then show ?case by (auto simp: sub_ok_def has_types_list intro!: lowered_ok_same)
next
  case (11 c p ps s)
  then obtain q1 s1 qs1 where l: "lower_pattern c TUnknown p s = Inr (q1, s1)" "lower_sub_patterns c ps s1 = Inr (qs1, s')"
      "qs = q1 # qs1" by (auto split: sum.splits)
  from sub_ok_Cons [OF "11.IH"(1) [OF "11.prems"(1) l(1)] "11.IH"(2) [OF l(1) refl "11.prems"(1) l(2)]] show ?case unfolding l(3) .
next
  case (12 c s)
  then show ?case by (auto simp: fields_lowered_def intro!: lowered_ok_same)
next
  case (13 c n p fs s)
  then obtain q1 s1 qs1 where l: "lower_pattern c TUnknown p s = Inr (q1, s1)" "lower_fields c fs s1 = Inr (qs1, s')"
      "fqs = (ident_name n, q1) # qs1" by (auto split: sum.splits)
  from fields_lowered_Cons [OF "13.IH"(1) [OF "13.prems"(1) l(1)] "13.IH"(2) [OF l(1) refl "13.prems"(1) l(2)]] show ?case unfolding l(3) .
qed simp_all

text \<open>
  C7. A lowered pattern means what the source pattern means, for a well-typed pattern whose
  names are readable: below the top no bare name is a nullary variant (\<open>nested_none_binds\<close> shows
  what becomes of one) and every constructor is written for the enum of its type and no other;
  at the top no bare name that the analyzer takes for a binding is a nullary variant of the
  subject's enum (\<open>bare_variant_tested\<close>). It is lowered with the subject's type, or with none
  when it is read as below the top. Then on every value of the pattern's type
  the IR match does not trap; it is a mismatch exactly where the source pattern does not match;
  and where it matches, the names of the pattern, pushed to the scope's locals as the next
  variables in order, are bound to the values the source pattern gives them.
\<close>

theorem lower_pattern_correct:
  assumes "enums_agree c E" and "pat_ok E t p" and "readable c E outer t p"
    and "lower_pattern c (if outer then t else TUnknown) p s = Inr (q, s')"
  shows "\<exists>names. allots s s' names \<and> (\<forall>v. has_type E v t \<longrightarrow> agrees (match_pat q v) (src_match E t p v) names (next_fresh s))"
proof -
  from lowered_shape(1) [OF assms(1,4)] assms(2) readable_seen [OF assms(1,3)]
  have "lowered_ok s s' (\<lambda>v. has_type E v t) (match_pat q) (src_kind E t (pat_kind p))"
    by (cases p) (simp add: pat_lowered_def)
  then show ?thesis by (simp add: lowered_ok_def kind_ok_simps(2))
qed

text \<open>The same of the arms of a \<open>when\<close>, the first that matches.\<close>

lemma lowered_pattern_iff:
  assumes "enums_agree c E" "pat_ok E t p" "readable c E True t p" "lower_pattern c t p s = Inr (q, s')" "has_type E v t"
  shows "if matches E t p v then \<exists>bs. match_pat q v = Binds bs else match_pat q v = Mismatch"
proof -
  have "lowered_ok s s' (\<lambda>v. has_type E v t) (match_pat q) (src_kind E t (pat_kind p))"
    using lowered_shape(1) [OF assms(1,4)] assms(2) readable_seen [OF assms(1,3)] by (cases p) (simp add: pat_lowered_def)
  then obtain names where "agrees (match_pat q v) (src_match E t p v) names (next_fresh s)"
    using assms(5) by (auto elim!: lowered_okE simp: kind_ok_simps(2))
  then show ?thesis by (cases "src_match E t p v") (auto simp: agrees_def matches_def)
qed

lemma length_lower_arms: "lower_arms c t lower_body cases s = Inr (arms, s') \<Longrightarrow> length arms = length cases"
  by (induction cases arbitrary: s arms) (auto split: sum.splits)

lemma lower_arms_select:
  assumes "enums_agree c E" "has_type E v t"
    and "\<forall>p \<in> set (map fst cases). pat_ok E t p \<and> readable c E True t p" "lower_arms c t lower_body cases s = Inr (arms, s')"
    and "\<exists>p \<in> set (map fst cases). matches E t p v"
  shows "\<exists>i bs. i < length cases \<and> length arms = length cases \<and> match_arms arms v = Done (Some (bs, arm_body (arms ! i)))
    \<and> matches E t (fst (cases ! i)) v \<and> (\<forall>j < i. \<not> matches E t (fst (cases ! j)) v)"
  using assms(3-)
proof (induction cases arbitrary: s arms)
  case (Cons cs cases)
  obtain p b where cs: "cs = (p, b)" by (cases cs)
  from Cons.prems(2) cs obtain q s1 blk s2 arms' where
    l: "lower_pattern c t p s = Inr (q, s1)" "arms = MatchArm q blk # arms'"
      "lower_arms c t lower_body cases (s2\<lparr>locals := take (length (locals s)) (locals s2)\<rparr>) = Inr (arms', s')"
    by (auto split: sum.splits)
  have iff: "if matches E t p v then \<exists>bs. match_pat q v = Binds bs else match_pat q v = Mismatch"
    using lowered_pattern_iff [OF assms(1) _ _ l(1) assms(2)] Cons.prems(1) cs by simp
  have len: "length arms' = length cases" using l(3) by (rule length_lower_arms)
  show ?case
  proof (cases "matches E t p v")
    case True
    with iff l(2) cs len show ?thesis by (intro exI [of _ 0]) auto
  next
    case False
    with Cons.prems cs have "\<exists>p \<in> set (map fst cases). matches E t p v" by auto
    with Cons.IH [OF _ l(3)] Cons.prems(1) obtain i bs where i: "i < length cases"
        "match_arms arms' v = Done (Some (bs, arm_body (arms' ! i)))" "matches E t (fst (cases ! i)) v"
        "\<forall>j < i. \<not> matches E t (fst (cases ! j)) v" by auto
    with False iff l(2) cs len show ?thesis
      by (intro exI [of _ "Suc i"] exI [of _ bs]) (auto simp: less_Suc_eq_0_disj)
  qed
qed simp

text \<open>
  C3. The analyzer and the lowering together: a \<open>when\<close> that passes the exhaustiveness check never
  falls through. It holds for a subject whose type is a boolean, a record, a list or a
  declared enum (\<open>checked_type\<close>; of other types the check requires nothing), and for well-typed
  patterns whose names are readable and whose list patterns name one head only (\<open>one_head\<close>;
  \<open>two_heads_accepted\<close>, \<open>nested_none_binds\<close> and \<open>bare_variant_tested\<close> show what happens outside).
  The match it is lowered to selects an arm for every value of the subject's
  type, and the arm it selects is the first whose source pattern matches.
\<close>

theorem checked_when_selects:
  assumes "check_when_exhaustive E t (map fst cases) = []" and "checked_type E t" and "distinct_variants E"
    and "\<forall>p \<in> set (map fst cases). pat_ok E t p \<and> one_head p \<and> readable c E True t p" and "enums_agree c E"
    and "lower_arms c t lower_body cases s = Inr (arms, s')" and "has_type E v t"
  shows "\<exists>i bs. i < length cases \<and> match_arms arms v = Done (Some (bs, arm_body (arms ! i)))
    \<and> matches E t (fst (cases ! i)) v \<and> (\<forall>j < i. \<not> matches E t (fst (cases ! j)) v)"
proof -
  have "\<exists>p \<in> set (map fst cases). matches E t p v"
    using exhaustive_matches [OF assms(1-3) _ _ assms(7)] assms(4) by blast
  with lower_arms_select [OF assms(5,7) _ assms(6)] assms(4) show ?thesis by blast
qed

section \<open>A concrete \<open>when\<close>, and names that lowering reads differently\<close>

definition example_ctx :: lower_ctx where
  "example_ctx =
     \<lparr>ctx_enums = map (\<lambda>(n, d). (n, map (\<lambda>(v, ps). (v, length ps)) (variants d))) example_enums,
      ctx_imports = [], current_module = ''m'', mono_subst = empty_subst\<rparr>"

lemma example_agrees: "enums_agree example_ctx example_enums"
  by (auto simp: enums_agree_def example_ctx_def example_enums_def split: if_splits)

definition empty_scope :: fn_scope where
  "empty_scope = \<lparr>locals = [], next_fresh = 4\<rparr>"

definition unit_body :: "unit \<Rightarrow> fn_scope \<Rightarrow> lower_error + block \<times> fn_scope" where
  "unit_body b s = Inr ([], s)"

theorem lower_pattern_correct_witness:
  "\<exists>names. allots empty_scope (empty_scope\<lparr>locals := [(''v'', 4)], next_fresh := 5\<rparr>) names
     \<and> (\<forall>v. has_type example_enums v example_subject \<longrightarrow>
          agrees (match_pat (PVariant ''ok'' 0 [PBind 4]) v) (src_match example_enums example_subject (hd example_cases) v) names 4)"
proof -
  have ok: "pat_ok example_enums example_subject (hd example_cases)" by code_simp
  have sn: "readable example_ctx example_enums True example_subject (hd example_cases)" by code_simp
  have low: "lower_pattern example_ctx (if True then example_subject else TUnknown) (hd example_cases) empty_scope
      = Inr (PVariant ''ok'' 0 [PBind 4], empty_scope\<lparr>locals := [(''v'', 4)], next_fresh := 5\<rparr>)" by code_simp
  have n: "next_fresh empty_scope = 4" by (simp add: empty_scope_def)
  show ?thesis using lower_pattern_correct [OF example_agrees ok sn low] unfolding n .
qed

theorem checked_when_selects_witness:
  "\<exists>arms s'. lower_arms example_ctx example_subject unit_body (map (\<lambda>p. (p, ())) example_cases) empty_scope = Inr (arms, s')
     \<and> (\<exists>i bs. i < 3 \<and> match_arms arms (VVariant 1 [VVariant 1 []]) = Done (Some (bs, arm_body (arms ! i))))"
proof -
  let ?cases = "map (\<lambda>p. (p, ())) example_cases" and ?v = "VVariant 1 [VVariant 1 []]"
  have c: "check_when_exhaustive example_enums example_subject (map fst ?cases) = []" by code_simp
  have ty: "checked_type example_enums example_subject" by code_simp
  have d: "distinct_variants example_enums" by code_simp
  have ok: "\<forall>p \<in> set (map fst ?cases). pat_ok example_enums example_subject p \<and> one_head p
      \<and> readable example_ctx example_enums True example_subject p" by code_simp
  have v: "has_type example_enums ?v example_subject" by code_simp
  have "\<not> isl (lower_arms example_ctx example_subject unit_body ?cases empty_scope)" by code_simp
  then obtain arms s' where l: "lower_arms example_ctx example_subject unit_body ?cases empty_scope = Inr (arms, s')"
    by (cases "lower_arms example_ctx example_subject unit_body ?cases empty_scope") auto
  have "length ?cases = 3" by (simp add: example_cases_def)
  then show ?thesis using checked_when_selects [OF c ty d ok example_agrees l v] l by (metis (no_types, lifting))
qed

text \<open>
  Below the top of a pattern lowering does not know the type, and takes a bare \<open>none\<close> for a
  binding. So \<open>is some none\<close> is lowered to an arm that takes \<open>some (some 7)\<close> as well.
\<close>

definition nested_none :: "unit pattern_node" where
  "nested_none = variant_pat None ''some'' [pat (Pat_Identifier (name_node ''none''))]"

definition option_option :: ty where
  "option_option = TEnum ''__prelude__.option'' [TEnum ''__prelude__.option'' [TInt]]"

lemma nested_none_binds:
  "pat_ok example_enums option_option nested_none
     \<and> \<not> matches example_enums option_option nested_none (VVariant 0 [VVariant 0 [VInt 7]])
     \<and> (case lower_pattern example_ctx option_option nested_none empty_scope of
          Inr (q, s') \<Rightarrow> match_pat q (VVariant 0 [VVariant 0 [VInt 7]]) = Binds [(4, VVariant 0 [VInt 7])]
        | Inl e \<Rightarrow> False)"
  by code_simp

text \<open>
  At the top it takes a bare name for a variant in every enum that has it, where the analyzer
  does so for the enums of the prelude: \<open>when c is red\<close>, whose \<open>red\<close> is a binding when the type
  of \<open>c\<close> was not yet known, passes the check and matches \<open>color.red\<close> only.
\<close>

lemma bare_variant_tested:
  "check_when_exhaustive example_enums (TEnum ''m.color'' []) [pat (Pat_Identifier (name_node ''red''))] = []
     \<and> (case lower_pattern example_ctx (TEnum ''m.color'' []) (pat (Pat_Identifier (name_node ''red''))) empty_scope of
          Inr (q, s') \<Rightarrow> match_pat q (VVariant 1 []) = Mismatch
        | Inl e \<Rightarrow> False)"
  by code_simp

end
