(* ===== verification/Cps.thy ===== *)
theory Cps
  imports IrRuns
begin

text \<open>
  The async transform of \<open>ir/src/cps.rs\<close> and its caller \<open>wasm/src/async_lower.rs\<close>. A function
  with \<open>Await\<close>s is flattened into basic blocks, split at each \<open>Await\<close>; the blocks become
  the arms of a dispatch loop, the \<^emph>\<open>poll function\<close>, which returns \<open>ready\<close> or \<open>pending\<close> with
  the variables live at the point of suspension packed in a record; and the function itself
  becomes the constructor of a task over the poll function.

  A \<open>HashSet\<close> of variables is a set; a panic is \<open>None\<close>. A block id is an index into the
  vector of blocks, which the lemmas of \<open>CpsGraph\<close> show to be in range.
\<close>

section \<open>Names shared with the driver\<close>

definition TAG_FIELD :: string where
  "TAG_FIELD = ''__tag''"

definition var_field :: "var_id \<Rightarrow> string" where
  "var_field v = ''__v'' @ decimal v"

definition arg_field :: "nat \<Rightarrow> string" where
  "arg_field i = ''__a'' @ decimal i"

definition DEFERS_FIELD :: string where
  "DEFERS_FIELD = ''__defers''"

definition POLL_ENUM :: string where
  "POLL_ENUM = ''__poll''"

definition READY_TAG :: nat where
  "READY_TAG = 0"

definition PENDING_TAG :: nat where
  "PENDING_TAG = 1"

definition poll_enum_entry :: "string \<times> (string \<times> nat) list" where
  "poll_enum_entry = (POLL_ENUM, [(''ready'', 1), (''pending'', 2)])"

section \<open>Eligibility\<close>

fun await_task :: "rvalue \<Rightarrow> atom option" where
  "await_task (Await a) = Some a"
| "await_task _ = None"

fun block_has_await :: "block \<Rightarrow> bool"
  and stmt_has_await :: "stmt_kind \<Rightarrow> bool"
  and cases_have_await :: "(i64 \<times> block) list \<Rightarrow> bool"
  and arms_have_await :: "match_arm list \<Rightarrow> bool" where
  "block_has_await [] = False"
| "block_has_await (Stmt k r # ss) = (stmt_has_await k \<or> block_has_await ss)"
| "stmt_has_await (Let v rv) = (await_task rv \<noteq> None)"
| "stmt_has_await (Discard rv) = (await_task rv \<noteq> None)"
| "stmt_has_await (If c t e) = (block_has_await t \<or> block_has_await e)"
| "stmt_has_await (Switch c arms dflt) = (cases_have_await arms \<or> block_has_await dflt)"
| "stmt_has_await (Match c arms) = arms_have_await arms"
| "stmt_has_await (Loop b) = block_has_await b"
| "stmt_has_await k = False"
| "cases_have_await [] = False"
| "cases_have_await ((i, b) # arms) = (block_has_await b \<or> cases_have_await arms)"
| "arms_have_await [] = False"
| "arms_have_await (MatchArm p b # arms) = (block_has_await b \<or> arms_have_await arms)"

fun block_has_defer :: "block \<Rightarrow> bool"
  and stmt_has_defer :: "stmt_kind \<Rightarrow> bool"
  and cases_have_defer :: "(i64 \<times> block) list \<Rightarrow> bool"
  and arms_have_defer :: "match_arm list \<Rightarrow> bool" where
  "block_has_defer [] = False"
| "block_has_defer (Stmt k r # ss) = (stmt_has_defer k \<or> block_has_defer ss)"
| "stmt_has_defer (PushDefer a) = True"
| "stmt_has_defer (RunDefer d) = True"
| "stmt_has_defer (If c t e) = (block_has_defer t \<or> block_has_defer e)"
| "stmt_has_defer (Switch c arms dflt) = (cases_have_defer arms \<or> block_has_defer dflt)"
| "stmt_has_defer (Match c arms) = arms_have_defer arms"
| "stmt_has_defer (Loop b) = block_has_defer b"
| "stmt_has_defer k = False"
| "cases_have_defer [] = False"
| "cases_have_defer ((i, b) # arms) = (block_has_defer b \<or> cases_have_defer arms)"
| "arms_have_defer [] = False"
| "arms_have_defer (MatchArm p b # arms) = (block_has_defer b \<or> arms_have_defer arms)"

definition eligible :: "ir_function \<Rightarrow> bool" where
  "eligible f \<longleftrightarrow> (if \<not> is_async f \<or> poll_fn f \<noteq> None then False else block_has_await (body f))"

section \<open>The control-flow graph\<close>

type_synonym bid = nat

datatype bterm =
    Jump bid
  | Branch atom bid bid
  | SwitchT atom "(i64 \<times> bid) list" bid
  | MatchT atom "(pattern \<times> bid) list"
  | ReturnT atom
  | Suspend atom "var_id option" bid

record basic_block =
  bb_stmts :: block
  bb_term :: bterm
  resume_bind :: "var_id option option"

text \<open>The stack of loop targets has the innermost loop first.\<close>

record cfg =
  blocks :: "basic_block list"
  loop_ctx :: "(bid \<times> bid) list"

definition new_block :: "block \<Rightarrow> bterm \<Rightarrow> cfg \<Rightarrow> bid \<times> cfg" where
  "new_block ss t g =
     (length (blocks g), g\<lparr>blocks := blocks g @ [\<lparr>bb_stmts = ss, bb_term = t, resume_bind = None\<rparr>]\<rparr>)"

definition set_resume :: "bid \<Rightarrow> var_id option \<Rightarrow> cfg \<Rightarrow> cfg" where
  "set_resume b rb g = g\<lparr>blocks := (blocks g)[b := (blocks g ! b)\<lparr>resume_bind := Some rb\<rparr>]\<rparr>"

definition set_term :: "bid \<Rightarrow> bterm \<Rightarrow> cfg \<Rightarrow> cfg" where
  "set_term b t g = g\<lparr>blocks := (blocks g)[b := (blocks g ! b)\<lparr>bb_term := t\<rparr>]\<rparr>"

definition push_loop :: "bid \<Rightarrow> bid \<Rightarrow> cfg \<Rightarrow> cfg" where
  "push_loop h x g = g\<lparr>loop_ctx := (h, x) # loop_ctx g\<rparr>"

definition pop_loop :: "cfg \<Rightarrow> cfg" where
  "pop_loop g = g\<lparr>loop_ctx := tl (loop_ctx g)\<rparr>"

text \<open>
  \<open>build simple ss nxt g\<close> is the code's \<open>build\<close> on \<open>ss\<close>, once the statements \<open>simple\<close> have been
  collected in front. The rest of the block is built first, then the arms in order, then the
  block itself.
\<close>

function (sequential) build :: "block \<Rightarrow> block \<Rightarrow> bid \<Rightarrow> cfg \<Rightarrow> (bid \<times> cfg) option"
  and build_cases :: "(i64 \<times> block) list \<Rightarrow> bid \<Rightarrow> cfg \<Rightarrow> ((i64 \<times> bid) list \<times> cfg) option"
  and build_arms :: "match_arm list \<Rightarrow> bid \<Rightarrow> cfg \<Rightarrow> ((pattern \<times> bid) list \<times> cfg) option" where
  "build simple [] nxt g = Some (new_block simple (Jump nxt) g)"
| "build simple (Stmt (Let v rv) r # rest) nxt g =
     (case await_task rv of
        None \<Rightarrow> build (simple @ [Stmt (Let v rv) r]) rest nxt g
      | Some task \<Rightarrow>
          do { (resume, g) \<leftarrow> build [] rest nxt g;
               Some (new_block simple (Suspend task (Some v) resume) (set_resume resume (Some v) g)) })"
| "build simple (Stmt (Discard rv) r # rest) nxt g =
     (case await_task rv of
        None \<Rightarrow> build (simple @ [Stmt (Discard rv) r]) rest nxt g
      | Some task \<Rightarrow>
          do { (resume, g) \<leftarrow> build [] rest nxt g;
               Some (new_block simple (Suspend task None resume) (set_resume resume None g)) })"
| "build simple (Stmt (PushDefer a) r # rest) nxt g =
     build (simple @ [Stmt (PushDefer a) r]) rest nxt g"
| "build simple (Stmt (Return a) r # rest) nxt g = Some (new_block simple (ReturnT a) g)"
| "build simple (Stmt (If c t e) r # rest) nxt g =
     do { (join, g) \<leftarrow> build [] rest nxt g;
          (bt, g) \<leftarrow> build [] t join g;
          (be, g) \<leftarrow> build [] e join g;
          Some (new_block simple (Branch c bt be) g) }"
| "build simple (Stmt (Switch c arms dflt) r # rest) nxt g =
     do { (join, g) \<leftarrow> build [] rest nxt g;
          (tgts, g) \<leftarrow> build_cases arms join g;
          (bd, g) \<leftarrow> build [] dflt join g;
          Some (new_block simple (SwitchT c tgts bd) g) }"
| "build simple (Stmt (Match c arms) r # rest) nxt g =
     do { (join, g) \<leftarrow> build [] rest nxt g;
          (tgts, g) \<leftarrow> build_arms arms join g;
          Some (new_block simple (MatchT c tgts) g) }"
| "build simple (Stmt (Loop lb) r # rest) nxt g =
     do { (exit, g) \<leftarrow> build [] rest nxt g;
          (header, g) \<leftarrow> Some (new_block [] (Jump exit) g);
          (body_entry, g) \<leftarrow> build [] lb header (push_loop header exit g);
          Some (new_block simple (Jump header) (set_term header (Jump body_entry) (pop_loop g))) }"
| "build simple (Stmt Break_stmt r # rest) nxt g =
     (case loop_ctx g of [] \<Rightarrow> None | (header, exit) # _ \<Rightarrow> Some (new_block simple (Jump exit) g))"
| "build simple (Stmt Continue_stmt r # rest) nxt g =
     (case loop_ctx g of [] \<Rightarrow> None | (header, exit) # _ \<Rightarrow> Some (new_block simple (Jump header) g))"
| "build simple (Stmt (RunDefer d) r # rest) nxt g = None"
| "build_cases [] nxt g = Some ([], g)"
| "build_cases ((k, b) # arms) nxt g =
     do { (t, g) \<leftarrow> build [] b nxt g; (ts, g) \<leftarrow> build_cases arms nxt g; Some ((k, t) # ts, g) }"
| "build_arms [] nxt g = Some ([], g)"
| "build_arms (MatchArm p b # arms) nxt g =
     do { (t, g) \<leftarrow> build [] b nxt g; (ts, g) \<leftarrow> build_arms arms nxt g; Some ((p, t) # ts, g) }"
  by pat_completeness auto
termination
  by (relation "measure (\<lambda>x. case x of
       Inl (simple, ss, _) \<Rightarrow> size_list size ss
     | Inr (Inl (arms, _)) \<Rightarrow> size_list (size_prod (\<lambda>_. 0) (size_list size)) arms
     | Inr (Inr (arms, _)) \<Rightarrow> size_list size arms)") auto

fun term_successors :: "bterm \<Rightarrow> bid list" where
  "term_successors (Jump b) = [b]"
| "term_successors (Suspend _ _ resume) = [resume]"
| "term_successors (Branch _ t e) = [t, e]"
| "term_successors (SwitchT _ arms dflt) = map snd arms @ [dflt]"
| "term_successors (MatchT _ arms) = map snd arms"
| "term_successors (ReturnT _) = []"

text \<open>The lookup \<open>m[b]\<close> panics on a block that the map lacks.\<close>

fun remap_term :: "(bid \<rightharpoonup> bid) \<Rightarrow> bterm \<Rightarrow> bterm" where
  "remap_term m (Jump b) = Jump (the (m b))"
| "remap_term m (Branch c t e) = Branch c (the (m t)) (the (m e))"
| "remap_term m (SwitchT c arms dflt) = SwitchT c (map (\<lambda>(k, b). (k, the (m b))) arms) (the (m dflt))"
| "remap_term m (MatchT c arms) = MatchT c (map (\<lambda>(p, b). (p, the (m b))) arms)"
| "remap_term m (ReturnT a) = ReturnT a"
| "remap_term m (Suspend t v b) = Suspend t v (the (m b))"

lemma unvisited_shrinks:
  "m b = None \<Longrightarrow> b < (n :: nat) \<Longrightarrow> card ({..<n} - insert b (dom m)) < card ({..<n} - dom m)"
  by (intro psubset_card_mono) (auto simp: dom_def)

text \<open>
  The depth-first walk: the stack has its top first, \<open>order\<close> lists the blocks found, and \<open>m\<close>
  maps each to its position.
\<close>

function renumber_loop :: "basic_block list \<Rightarrow> bid list \<Rightarrow> (bid \<rightharpoonup> bid) \<Rightarrow> bid list \<Rightarrow> ((bid \<rightharpoonup> bid) \<times> bid list) option"
where
  "renumber_loop bs [] m order = Some (m, order)"
| "renumber_loop bs (b # stack) m order =
     (if m b \<noteq> None then renumber_loop bs stack m order
      else if b < length bs
      then renumber_loop bs (rev (term_successors (bb_term (bs ! b))) @ stack)
             (m(b \<mapsto> length order)) (order @ [b])
      else None)"
  by pat_completeness auto

termination
  by (relation "inv_image (less_than <*lex*> less_than)
       (\<lambda>(bs, stack, m, order). (card ({..<length bs} - dom m), length stack))")
     (auto simp: unvisited_shrinks wf_inv_image wf_lex_prod)

definition renumber :: "basic_block list \<Rightarrow> bid \<Rightarrow> basic_block list option" where
  "renumber bs ent =
     do { (m, order) \<leftarrow> renumber_loop bs [ent] Map.empty [];
          Some (map (\<lambda>old. (bs ! old)\<lparr>bb_term := remap_term m (bb_term (bs ! old))\<rparr>) order) }"

section \<open>Reads and binds\<close>

fun collect_atom :: "atom \<Rightarrow> var_id set" where
  "collect_atom (AVar v) = {v}"
| "collect_atom (AConst c) = {}"

definition collect_atoms :: "atom list \<Rightarrow> var_id set" where
  "collect_atoms as = \<Union>(set (map collect_atom as))"

fun collect_rvalue_reads :: "rvalue \<Rightarrow> var_id set" where
  "collect_rvalue_reads (Use a) = collect_atom a"
| "collect_rvalue_reads (Not a) = collect_atom a"
| "collect_rvalue_reads (Box a) = collect_atom a"
| "collect_rvalue_reads (Unbox a _) = collect_atom a"
| "collect_rvalue_reads (GetDictMethod a _) = collect_atom a"
| "collect_rvalue_reads (GetField a _ _) = collect_atom a"
| "collect_rvalue_reads (GetElement a _) = collect_atom a"
| "collect_rvalue_reads (Await a) = collect_atom a"
| "collect_rvalue_reads (GetTag a) = collect_atom a"
| "collect_rvalue_reads (GetPayload a _) = collect_atom a"
| "collect_rvalue_reads (Bin _ a b) = collect_atom a \<union> collect_atom b"
| "collect_rvalue_reads (Call _ args) = collect_atoms args"
| "collect_rvalue_reads (TailCallDirect _ args) = collect_atoms args"
| "collect_rvalue_reads (CallClosure c args) = collect_atom c \<union> collect_atoms args"
| "collect_rvalue_reads (TailCall c args) = collect_atom c \<union> collect_atoms args"
| "collect_rvalue_reads (MakeDict xs) = collect_atoms xs"
| "collect_rvalue_reads (MakeTuple xs) = collect_atoms xs"
| "collect_rvalue_reads (Interpolate xs) = collect_atoms xs"
| "collect_rvalue_reads (MakeClosure _ caps) = collect_atoms caps"
| "collect_rvalue_reads (MakeRecord fs _) = collect_atoms (map snd fs)"
| "collect_rvalue_reads (RecordUpdate b fs _) = collect_atom b \<union> collect_atoms (map snd fs)"
| "collect_rvalue_reads (MakeVariant _ _ payload) = collect_atoms payload"
| "collect_rvalue_reads (MakeList items) = collect_atoms (map item_atom items)"
| "collect_rvalue_reads (GlobalRef _) = {}"
| "collect_rvalue_reads (Builtin _) = {}"
| "collect_rvalue_reads (MakeVariantCtor _ _) = {}"

fun collect_block_reads :: "block \<Rightarrow> var_id set"
  and collect_stmt_reads :: "stmt_kind \<Rightarrow> var_id set"
  and collect_cases_reads :: "(i64 \<times> block) list \<Rightarrow> var_id set"
  and collect_arms_reads :: "match_arm list \<Rightarrow> var_id set" where
  "collect_block_reads [] = {}"
| "collect_block_reads (Stmt k r # ss) = collect_stmt_reads k \<union> collect_block_reads ss"
| "collect_stmt_reads (Let v rv) = collect_rvalue_reads rv"
| "collect_stmt_reads (Discard rv) = collect_rvalue_reads rv"
| "collect_stmt_reads (Return a) = collect_atom a"
| "collect_stmt_reads (PushDefer a) = collect_atom a"
| "collect_stmt_reads (If c t e) = collect_atom c \<union> collect_block_reads t \<union> collect_block_reads e"
| "collect_stmt_reads (Switch c arms dflt) =
     collect_atom c \<union> collect_cases_reads arms \<union> collect_block_reads dflt"
| "collect_stmt_reads (Match c arms) = collect_atom c \<union> collect_arms_reads arms"
| "collect_stmt_reads (Loop b) = collect_block_reads b"
| "collect_stmt_reads Break_stmt = {}"
| "collect_stmt_reads Continue_stmt = {}"
| "collect_stmt_reads (RunDefer d) = {}"
| "collect_cases_reads [] = {}"
| "collect_cases_reads ((i, b) # arms) = collect_block_reads b \<union> collect_cases_reads arms"
| "collect_arms_reads [] = {}"
| "collect_arms_reads (MatchArm p b # arms) = collect_block_reads b \<union> collect_arms_reads arms"

fun collect_pattern_binds :: "pattern \<Rightarrow> var_id set" where
  "collect_pattern_binds PWildcard = {}"
| "collect_pattern_binds (PLiteral _) = {}"
| "collect_pattern_binds (PBind v) = {v}"
| "collect_pattern_binds (PVariant _ _ ps) = \<Union>(set (map collect_pattern_binds ps))"
| "collect_pattern_binds (PTuple ps) = \<Union>(set (map collect_pattern_binds ps))"
| "collect_pattern_binds (PList ps rest) =
     \<Union>(set (map collect_pattern_binds ps)) \<union> (case rest of Some (ListRest_Bind v) \<Rightarrow> {v} | _ \<Rightarrow> {})"
| "collect_pattern_binds (PRecord fs rest _) =
     \<Union>(set (map (\<lambda>f. collect_pattern_binds (snd f)) fs)) \<union> (case rest of RecordRest_Bind v \<Rightarrow> {v} | _ \<Rightarrow> {})"

fun collect_block_binds :: "block \<Rightarrow> var_id set"
  and collect_stmt_binds :: "stmt_kind \<Rightarrow> var_id set"
  and collect_cases_binds :: "(i64 \<times> block) list \<Rightarrow> var_id set"
  and collect_arms_binds :: "match_arm list \<Rightarrow> var_id set" where
  "collect_block_binds [] = {}"
| "collect_block_binds (Stmt k r # ss) = collect_stmt_binds k \<union> collect_block_binds ss"
| "collect_stmt_binds (Let v rv) = {v}"
| "collect_stmt_binds (If c t e) = collect_block_binds t \<union> collect_block_binds e"
| "collect_stmt_binds (Switch c arms dflt) = collect_cases_binds arms \<union> collect_block_binds dflt"
| "collect_stmt_binds (Match c arms) = collect_arms_binds arms"
| "collect_stmt_binds (Loop b) = collect_block_binds b"
| "collect_stmt_binds k = {}"
| "collect_cases_binds [] = {}"
| "collect_cases_binds ((i, b) # arms) = collect_block_binds b \<union> collect_cases_binds arms"
| "collect_arms_binds [] = {}"
| "collect_arms_binds (MatchArm p b # arms) =
     collect_pattern_binds p \<union> collect_block_binds b \<union> collect_arms_binds arms"

definition max_var :: "ir_function \<Rightarrow> nat" where
  "max_var f = Max (insert 0 (set (params f) \<union> set (captures f)
     \<union> collect_block_reads (body f) \<union> collect_block_binds (body f)))"

section \<open>Liveness\<close>

text \<open>Reads that are exposed: neither bound in the block before nor captured.\<close>

definition expose :: "var_id set \<Rightarrow> var_id set \<Rightarrow> var_id set \<times> var_id set \<Rightarrow> var_id set \<times> var_id set" where
  "expose caps rds kg = (fst kg, snd kg \<union> (rds - fst kg - caps))"

fun gen_kill_stmt :: "var_id set \<Rightarrow> stmt_kind \<Rightarrow> var_id set \<times> var_id set \<Rightarrow> var_id set \<times> var_id set" where
  "gen_kill_stmt caps (Let v rv) kg =
     (let kg' = expose caps (collect_rvalue_reads rv) kg in (insert v (fst kg'), snd kg'))"
| "gen_kill_stmt caps (Discard rv) kg = expose caps (collect_rvalue_reads rv) kg"
| "gen_kill_stmt caps (PushDefer a) kg = expose caps (collect_atom a) kg"
| "gen_kill_stmt caps k kg = kg"

fun term_reads :: "bterm \<Rightarrow> var_id set" where
  "term_reads (Jump _) = {}"
| "term_reads (ReturnT a) = collect_atom a"
| "term_reads (Branch c _ _) = collect_atom c"
| "term_reads (SwitchT c _ _) = collect_atom c"
| "term_reads (MatchT c _) = collect_atom c"
| "term_reads (Suspend task _ _) = collect_atom task"

fun term_binds :: "bterm \<Rightarrow> var_id set" where
  "term_binds (MatchT c arms) = \<Union>(set (map (\<lambda>a. collect_pattern_binds (fst a)) arms))"
| "term_binds _ = {}"

definition resume_binds :: "basic_block \<Rightarrow> var_id set" where
  "resume_binds bb = (case resume_bind bb of Some (Some v) \<Rightarrow> {v} | _ \<Rightarrow> {})"

text \<open>The pair of the \<open>kill\<close> and \<open>gen\<close> sets of a block.\<close>

definition kill_gen :: "var_id set \<Rightarrow> basic_block \<Rightarrow> var_id set \<times> var_id set" where
  "kill_gen caps bb =
     (let kg = fold (\<lambda>s. gen_kill_stmt caps (kind s)) (bb_stmts bb) (resume_binds bb, {});
          kg' = expose caps (term_reads (bb_term bb)) kg
      in (fst kg' \<union> term_binds (bb_term bb), snd kg'))"

definition live_at :: "var_id set \<Rightarrow> basic_block list \<Rightarrow> var_id set list \<Rightarrow> bid \<Rightarrow> var_id set" where
  "live_at caps bs live b =
     (let out = \<Union>(set (map (\<lambda>s. live ! s) (term_successors (bb_term (bs ! b)))))
      in snd (kill_gen caps (bs ! b)) \<union> (out - fst (kill_gen caps (bs ! b))))"

definition live_update :: "var_id set \<Rightarrow> basic_block list \<Rightarrow> bid \<Rightarrow> var_id set list \<times> bool \<Rightarrow> var_id set list \<times> bool" where
  "live_update caps bs b st =
     (if live_at caps bs (fst st) b \<noteq> fst st ! b
      then ((fst st)[b := live_at caps bs (fst st) b], True) else st)"

definition live_sweep :: "var_id set \<Rightarrow> basic_block list \<Rightarrow> var_id set list \<Rightarrow> var_id set list \<times> bool" where
  "live_sweep caps bs live = fold (live_update caps bs) (rev [0..<length bs]) (live, False)"

partial_function (option) live_loop :: "var_id set \<Rightarrow> basic_block list \<Rightarrow> var_id set list \<Rightarrow> var_id set list option" where
  "live_loop caps bs live =
     (if snd (live_sweep caps bs live) then live_loop caps bs (fst (live_sweep caps bs live))
      else Some (fst (live_sweep caps bs live)))"

declare live_loop.simps [code]

definition liveness :: "basic_block list \<Rightarrow> var_id set \<Rightarrow> var_id list list option" where
  "liveness bs caps =
     map_option (map sorted_list_of_set) (live_loop caps bs (replicate (length bs) {}))"

section \<open>The poll function\<close>

text \<open>Block ids and \<open>pc\<close> values are \<open>as i64\<close> of the index.\<close>

definition bid_const :: "bid \<Rightarrow> const" where
  "bid_const b = CInt (of_nat b)"

definition set_pc :: "var_id \<Rightarrow> bid \<Rightarrow> stmt" where
  "set_pc pc target = synthetic (Let pc (Use (AConst (bid_const target))))"

text \<open>The variables of the poll function that are not of the body.\<close>

record poll_vars =
  state_var :: var_id
  resume_var :: var_id
  pc_var :: var_id
  defers_var :: "var_id option"

definition defer_atoms :: "poll_vars \<Rightarrow> atom list" where
  "defer_atoms pv = (case defers_var pv of None \<Rightarrow> [] | Some dv \<Rightarrow> [AVar dv])"

definition load_field :: "poll_vars \<Rightarrow> var_id \<Rightarrow> string \<Rightarrow> stmt" where
  "load_field pv v n = synthetic (Let v (GetField (AVar (state_var pv)) n None))"

text \<open>What a block does first: the entry block takes the parameters, a resume block reloads.\<close>

definition entry_prologue :: "poll_vars \<Rightarrow> var_id list \<Rightarrow> block" where
  "entry_prologue pv ps =
     map (\<lambda>(i, p). load_field pv p (arg_field i)) (enumerate 0 ps)
     @ (case defers_var pv of None \<Rightarrow> [] | Some dv \<Rightarrow> [synthetic (Let dv (MakeList []))])"

definition resume_prologue :: "poll_vars \<Rightarrow> var_id list \<Rightarrow> var_id option \<Rightarrow> block" where
  "resume_prologue pv live rb =
     (case rb of None \<Rightarrow> [] | Some v \<Rightarrow> [synthetic (Let v (Use (AVar (resume_var pv))))])
     @ map (\<lambda>v. load_field pv v (var_field v)) live
     @ (case defers_var pv of None \<Rightarrow> [] | Some dv \<Rightarrow> [load_field pv dv DEFERS_FIELD])"

definition prologue :: "poll_vars \<Rightarrow> var_id list \<Rightarrow> var_id list \<Rightarrow> bid \<Rightarrow> basic_block \<Rightarrow> block" where
  "prologue pv ps live b bb =
     (if b = 0 then entry_prologue pv ps
      else case resume_bind bb of Some rb \<Rightarrow> resume_prologue pv live rb | None \<Rightarrow> [])"

fun detco :: "rvalue \<Rightarrow> rvalue option" where
  "detco (TailCall callee args) = Some (CallClosure callee args)"
| "detco (TailCallDirect f args) = Some (Call (Callee_Function f) args)"
| "detco _ = None"

fun copy_kind :: "var_id option \<Rightarrow> stmt_kind \<Rightarrow> stmt_kind" where
  "copy_kind dv (Let v rv) = (case detco rv of Some rv' \<Rightarrow> Let v rv' | None \<Rightarrow> Let v rv)"
| "copy_kind (Some dv) (PushDefer c) = Let dv (MakeList [Spread (AVar dv), Elem c])"
| "copy_kind _ k = k"

definition copy_stmt :: "var_id option \<Rightarrow> stmt \<Rightarrow> stmt" where
  "copy_stmt dv s = Stmt (copy_kind dv (kind s)) (stmt_range s)"

text \<open>The end of a block; the last argument is the next fresh variable.\<close>

fun emit_term :: "poll_vars \<Rightarrow> var_id list list \<Rightarrow> bterm \<Rightarrow> var_id \<Rightarrow> block \<times> var_id" where
  "emit_term pv live (ReturnT a) fresh_var =
     ([synthetic (Let fresh_var (MakeVariant POLL_ENUM READY_TAG (a # defer_atoms pv))),
       synthetic (Return (AVar fresh_var))], fresh_var + 1)"
| "emit_term pv live (Suspend task rb resume) fresh_var =
     (let flds = (TAG_FIELD, AConst (bid_const resume))
            # map (\<lambda>v. (var_field v, AVar v)) (filter (\<lambda>v. Some v \<noteq> rb) (live ! resume))
            @ map (\<lambda>a. (DEFERS_FIELD, a)) (defer_atoms pv);
          st = fresh_var; pend = fresh_var + 1
      in ([synthetic (Let st (MakeRecord flds None)),
           synthetic (Let pend (MakeVariant POLL_ENUM PENDING_TAG [task, AVar st])),
           synthetic (Return (AVar pend))], fresh_var + 2))"
| "emit_term pv live (Jump t) fresh_var = ([set_pc (pc_var pv) t], fresh_var)"
| "emit_term pv live (Branch c t e) fresh_var =
     ([synthetic (If c [set_pc (pc_var pv) t] [set_pc (pc_var pv) e])], fresh_var)"
| "emit_term pv live (SwitchT c arms dflt) fresh_var =
     ([synthetic (Switch c (map (\<lambda>(k, t). (k, [set_pc (pc_var pv) t])) arms) [set_pc (pc_var pv) dflt])],
      fresh_var)"
| "emit_term pv live (MatchT c arms) fresh_var =
     ([synthetic (Match c (map (\<lambda>(p, t). MatchArm p [set_pc (pc_var pv) t]) arms))], fresh_var)"

fun emit_arms :: "poll_vars \<Rightarrow> var_id list \<Rightarrow> var_id list list \<Rightarrow> nat \<Rightarrow> (nat \<times> basic_block) list \<Rightarrow> var_id \<Rightarrow> match_arm list" where
  "emit_arms pv ps live n [] fresh_var = []"
| "emit_arms pv ps live n ((b, bb) # rest) fresh_var =
     (let (out, fresh_var') = emit_term pv live (bb_term bb) fresh_var
      in MatchArm (if b + 1 = n then PWildcard else PLiteral (bid_const b))
           (prologue pv ps (live ! b) b bb @ map (copy_stmt (defers_var pv)) (bb_stmts bb) @ out)
         # emit_arms pv ps live n rest fresh_var')"

definition poll_blocks :: "ir_function \<Rightarrow> basic_block list option" where
  "poll_blocks f =
     (let (trap, g) = new_block [] (ReturnT (AConst CUnit)) \<lparr>blocks = [], loop_ctx = []\<rparr>
      in do { (ent, g) \<leftarrow> build [] (body f) trap g; renumber (blocks g) ent })"

definition poll_vars_of :: "ir_function \<Rightarrow> poll_vars" where
  "poll_vars_of f =
     (let c = max_var f + 1
      in \<lparr>state_var = c, resume_var = c + 1, pc_var = c + 2,
          defers_var = (if block_has_defer (body f) then Some (c + 3) else None)\<rparr>)"

definition first_fresh :: "ir_function \<Rightarrow> var_id" where
  "first_fresh f = max_var f + 4 + (if block_has_defer (body f) then 1 else 0)"

definition poll_body :: "poll_vars \<Rightarrow> match_arm list \<Rightarrow> block" where
  "poll_body pv arms =
     [load_field pv (pc_var pv) TAG_FIELD,
      synthetic (Loop [synthetic (Match (AVar (pc_var pv)) arms)]),
      synthetic (Return (AConst CUnit))]"

text \<open>The outer option is a panic, the inner one is the \<open>Option\<close> of the code.\<close>

definition build_poll_fn :: "ir_function \<Rightarrow> ir_function option option" where
  "build_poll_fn f =
     (if \<not> block_has_await (body f) then Some None
      else do {
        bs \<leftarrow> poll_blocks f;
        live \<leftarrow> liveness bs (set (captures f));
        let pv = poll_vars_of f;
        let arms = emit_arms pv (params f) live (length bs) (enumerate 0 bs) (first_fresh f);
        Some (Some
          \<lparr>fn_name = fn_name f @ ''@poll'', fn_module = fn_module f,
           params = [state_var pv, resume_var pv], captures = captures f,
           is_async = False, poll_fn = None, body = poll_body pv arms,
           var_reprs = [], param_reprs = [Boxed, Boxed], ret_repr = Boxed\<rparr>) })"

section \<open>The pass\<close>

definition cps_step :: "nat \<Rightarrow> ir_function list \<times> ir_function list \<Rightarrow> nat \<Rightarrow> (ir_function list \<times> ir_function list) option" where
  "cps_step base st i =
     (if \<not> eligible (fst st ! i) then Some st
      else do {
        poll \<leftarrow> build_poll_fn (fst st ! i);
        case poll of
          None \<Rightarrow> Some st
        | Some pf \<Rightarrow>
            Some ((fst st)[i := (fst st ! i)\<lparr>poll_fn := Some (base + length (snd st))\<rparr>], snd st @ [pf]) })"

definition or_insert :: "string \<times> 'v \<Rightarrow> (string \<times> 'v) list \<Rightarrow> (string \<times> 'v) list" where
  "or_insert kv m = (if map_of m (fst kv) = None then m @ [kv] else m)"

definition cps_transform :: "ir_program \<Rightarrow> ir_program option" where
  "cps_transform p =
     (let base = length (prog_functions p)
      in do {
        (fs, new_funcs) \<leftarrow> fold_opt (cps_step base) (prog_functions p, []) [0..<base];
        Some (if new_funcs = [] then p\<lparr>prog_functions := fs\<rparr>
              else p\<lparr>prog_functions := fs @ new_funcs, enums := or_insert poll_enum_entry (enums p)\<rparr>) })"

section \<open>The task constructor\<close>

definition TASK_ENUM :: string where
  "TASK_ENUM = ''__task''"

definition task_kind_async :: nat where
  "task_kind_async = 8"

definition task_body :: "ir_function \<Rightarrow> func_id \<Rightarrow> block" where
  "task_body f poll =
     (let m = fold max (params f @ captures f) 0;
          pc = m + 1; st = m + 2; t = m + 3;
          flds = (''__tag'', AConst (CInt 0)) # map (\<lambda>(i, p). (arg_field i, AVar p)) (enumerate 0 (params f))
      in [synthetic (Let pc (MakeClosure poll (map AVar (captures f)))),
          synthetic (Let st (MakeRecord flds None)),
          synthetic (Let t (MakeVariant TASK_ENUM task_kind_async [AVar pc, AVar st])),
          synthetic (Return (AVar t))])"

definition lower_function :: "ir_function \<Rightarrow> ir_function" where
  "lower_function f =
     (case poll_fn f of
        None \<Rightarrow> f
      | Some poll \<Rightarrow> f\<lparr>body := task_body f poll, is_async := False, poll_fn := None\<rparr>)"

definition lower_async :: "ir_program \<Rightarrow> ir_program option" where
  "lower_async p =
     map_option (\<lambda>p. p\<lparr>prog_functions := map lower_function (prog_functions p)\<rparr>) (cps_transform p)"

end
