(* ===== verification/CpsGraph.thy ===== *)
theory CpsGraph
  imports Cps
begin

text \<open>
  The control-flow graph of a function. \<open>built\<close> restates \<open>build\<close> as a relation, whose rule
  induction the lemmas use: a build keeps the blocks before it, its result is the last
  block it makes and no edge leads there, and an edge leads to a resume block exactly when it is
  a suspension. Renumbering keeps the blocks reached from the entry, up to their names.
\<close>

section \<open>Building as a relation\<close>

definition add_block :: "block \<Rightarrow> bterm \<Rightarrow> cfg \<Rightarrow> cfg" where
  "add_block ss t g = snd (new_block ss t g)"

lemma new_block_add: "new_block ss t g = (length (blocks g), add_block ss t g)"
  by (simp add: new_block_def add_block_def)

fun simple_kind :: "stmt_kind \<Rightarrow> bool" where
  "simple_kind (Let v rv) = (await_task rv = None)"
| "simple_kind (Discard rv) = (await_task rv = None)"
| "simple_kind (PushDefer a) = True"
| "simple_kind _ = False"

inductive awaits :: "stmt_kind \<Rightarrow> atom \<Rightarrow> var_id option \<Rightarrow> bool" where
  "awaits (Let v (Await task)) task (Some v)"
| "awaits (Discard (Await task)) task None"

inductive_cases awaitsE: "awaits k task rb"

lemma await_task_Some: "await_task rv = Some task \<longleftrightarrow> rv = Await task"
  by (cases rv) auto

inductive built :: "block \<Rightarrow> block \<Rightarrow> bid \<Rightarrow> cfg \<Rightarrow> bid \<Rightarrow> cfg \<Rightarrow> bool"
  and built_cases :: "(i64 \<times> block) list \<Rightarrow> bid \<Rightarrow> cfg \<Rightarrow> (i64 \<times> bid) list \<Rightarrow> cfg \<Rightarrow> bool"
  and built_arms :: "match_arm list \<Rightarrow> bid \<Rightarrow> cfg \<Rightarrow> (pattern \<times> bid) list \<Rightarrow> cfg \<Rightarrow> bool" where
  End: "built simple [] nxt g (length (blocks g)) (add_block simple (Jump nxt) g)"
| Simple: "simple_kind k \<Longrightarrow> built (simple @ [Stmt k r]) rest nxt g b g' \<Longrightarrow>
    built simple (Stmt k r # rest) nxt g b g'"
| Awaiting: "awaits k task rb \<Longrightarrow> built [] rest nxt g resume g1 \<Longrightarrow>
    built simple (Stmt k r # rest) nxt g (length (blocks g1))
      (add_block simple (Suspend task rb resume) (set_resume resume rb g1))"
| Returning: "built simple (Stmt (Return a) r # rest) nxt g (length (blocks g)) (add_block simple (ReturnT a) g)"
| Branching: "built [] rest nxt g join g1 \<Longrightarrow> built [] t join g1 bt g2 \<Longrightarrow> built [] e join g2 be g3 \<Longrightarrow>
    built simple (Stmt (If c t e) r # rest) nxt g (length (blocks g3)) (add_block simple (Branch c bt be) g3)"
| Switching: "built [] rest nxt g join g1 \<Longrightarrow> built_cases arms join g1 ts g2 \<Longrightarrow> built [] d join g2 bd g3 \<Longrightarrow>
    built simple (Stmt (Switch c arms d) r # rest) nxt g (length (blocks g3)) (add_block simple (SwitchT c ts bd) g3)"
| Matching: "built [] rest nxt g join g1 \<Longrightarrow> built_arms arms join g1 ts g2 \<Longrightarrow>
    built simple (Stmt (Match c arms) r # rest) nxt g (length (blocks g2)) (add_block simple (MatchT c ts) g2)"
| Looping: "built [] rest nxt g exit g1 \<Longrightarrow> header = length (blocks g1) \<Longrightarrow>
    built [] lb header (push_loop header exit (add_block [] (Jump exit) g1)) be g2 \<Longrightarrow>
    built simple (Stmt (Loop lb) r # rest) nxt g (length (blocks g2))
      (add_block simple (Jump header) (set_term header (Jump be) (pop_loop g2)))"
| Breaking: "loop_ctx g = (header, exit) # ctx \<Longrightarrow>
    built simple (Stmt Break_stmt r # rest) nxt g (length (blocks g)) (add_block simple (Jump exit) g)"
| Continuing: "loop_ctx g = (header, exit) # ctx \<Longrightarrow>
    built simple (Stmt Continue_stmt r # rest) nxt g (length (blocks g)) (add_block simple (Jump header) g)"
| No_cases: "built_cases [] nxt g [] g"
| Cases: "built [] b nxt g t g1 \<Longrightarrow> built_cases arms nxt g1 ts g2 \<Longrightarrow>
    built_cases ((k, b) # arms) nxt g ((k, t) # ts) g2"
| No_arms: "built_arms [] nxt g [] g"
| Arms: "built [] b nxt g t g1 \<Longrightarrow> built_arms arms nxt g1 ts g2 \<Longrightarrow>
    built_arms (MatchArm p b # arms) nxt g ((p, t) # ts) g2"

lemma blocks_simps [simp]:
  "blocks (add_block ss t g) = blocks g @ [\<lparr>bb_stmts = ss, bb_term = t, resume_bind = None\<rparr>]"
  "loop_ctx (add_block ss t g) = loop_ctx g"
  "blocks (set_resume b rb g) = (blocks g)[b := (blocks g ! b)\<lparr>resume_bind := Some rb\<rparr>]"
  "loop_ctx (set_resume b rb g) = loop_ctx g"
  "blocks (set_term b t g) = (blocks g)[b := (blocks g ! b)\<lparr>bb_term := t\<rparr>]"
  "loop_ctx (set_term b t g) = loop_ctx g"
  "blocks (push_loop h x g) = blocks g"
  "loop_ctx (push_loop h x g) = (h, x) # loop_ctx g"
  "blocks (pop_loop g) = blocks g"
  "loop_ctx (pop_loop g) = tl (loop_ctx g)"
  by (simp_all add: add_block_def new_block_def set_resume_def set_term_def push_loop_def pop_loop_def)

lemma updated_fields [simp]:
  "bb_term (bs[b := (bs ! b)\<lparr>resume_bind := rb\<rparr>] ! i) = bb_term (bs ! i)"
  "bb_stmts (bs[b := (bs ! b)\<lparr>resume_bind := rb\<rparr>] ! i) = bb_stmts (bs ! i)"
  "resume_bind (bs[b := (bs ! b)\<lparr>bb_term := u\<rparr>] ! i) = resume_bind (bs ! i)"
  "bb_stmts (bs[b := (bs ! b)\<lparr>bb_term := u\<rparr>] ! i) = bb_stmts (bs ! i)"
  by (cases "b < length bs"; simp add: nth_list_update list_update_beyond)+

lemma build_built:
  "build simple ss nxt g = Some (b, g') \<Longrightarrow> built simple ss nxt g b g'"
  "build_cases cs nxt g = Some (ts, g') \<Longrightarrow> built_cases cs nxt g ts g'"
  "build_arms as nxt g = Some (us, g') \<Longrightarrow> built_arms as nxt g us g'"
proof (induction simple ss nxt g and cs nxt g and as nxt g arbitrary: b g' and ts g' and us g'
    rule: build_build_cases_build_arms.induct)
  case (2 simple v rv r rest nxt g)
  show ?case
  proof (cases "await_task rv")
    case None
    with 2 show ?thesis by (auto intro!: Simple)
  next
    case (Some task)
    with 2 show ?thesis by (fastforce simp: bind_Some_iff new_block_add await_task_Some intro: Awaiting awaits.intros)
  qed
next
  case (3 simple rv r rest nxt g)
  show ?case
  proof (cases "await_task rv")
    case None
    with 3 show ?thesis by (auto intro!: Simple)
  next
    case (Some task)
    with 3 show ?thesis by (fastforce simp: bind_Some_iff new_block_add await_task_Some intro: Awaiting awaits.intros)
  qed
next
  case (6 simple c t e r rest nxt g)
  then show ?case by (fastforce simp: bind_Some_iff new_block_add intro: Branching)
next
  case (7 simple c arms d r rest nxt g)
  then show ?case by (fastforce simp: bind_Some_iff new_block_add intro: Switching)
qed (auto 4 4 simp: bind_Some_iff new_block_add split: list.splits
    intro: built_built_cases_built_arms.intros)

section \<open>What a build leaves alone\<close>

definition extends_to :: "cfg \<Rightarrow> cfg \<Rightarrow> bool" where
  "extends_to g g' \<longleftrightarrow> loop_ctx g' = loop_ctx g \<and> length (blocks g) \<le> length (blocks g')
     \<and> (\<forall>i < length (blocks g). blocks g' ! i = blocks g ! i)"

lemma extends_to_refl [simp]: "extends_to g g"
  by (simp add: extends_to_def)

lemma extends_to_trans: "extends_to g1 g2 \<Longrightarrow> extends_to g2 g3 \<Longrightarrow> extends_to g1 g3"
  by (auto simp: extends_to_def)

lemma extends_to_add [simp]: "extends_to g (add_block ss t g)"
  by (simp add: extends_to_def nth_append)

lemma extends_to_set_resume: "extends_to g g' \<Longrightarrow> length (blocks g) \<le> b \<Longrightarrow> extends_to g (set_resume b rb g')"
  by (auto simp: extends_to_def)

lemma built_extends:
  "built simple ss nxt g b g' \<Longrightarrow> extends_to g g' \<and> length (blocks g') = Suc b \<and> length (blocks g) \<le> b"
  "built_cases cs nxt g ts g' \<Longrightarrow> extends_to g g'"
  "built_arms as nxt g us g' \<Longrightarrow> extends_to g g'"
proof (induction rule: built_built_cases_built_arms.inducts)
  case (Awaiting k task rb rest nxt g resume g1 simple r)
  then show ?case by (auto intro: extends_to_trans [OF _ extends_to_add] extends_to_set_resume)
next
  case (Looping rest nxt g exit g1 header lb be g2 simple r)
  then show ?case by (auto simp: extends_to_def nth_append nth_list_update)
qed (auto intro: extends_to_trans extends_to_add simp: extends_to_def nth_append)

lemmas built_induct = built_built_cases_built_arms.inducts

lemma built_bounds:
  "built simple ss nxt g b g' \<Longrightarrow> length (blocks g') = Suc b"
  "built simple ss nxt g b g' \<Longrightarrow> length (blocks g) \<le> b"
  "built simple ss nxt g b g' \<Longrightarrow> loop_ctx g' = loop_ctx g"
  "built simple ss nxt g b g' \<Longrightarrow> i < length (blocks g) \<Longrightarrow> blocks g' ! i = blocks g ! i"
  "built_cases cs nxt g ts g' \<Longrightarrow> length (blocks g) \<le> length (blocks g')"
  "built_cases cs nxt g ts g' \<Longrightarrow> loop_ctx g' = loop_ctx g"
  "built_cases cs nxt g ts g' \<Longrightarrow> i < length (blocks g) \<Longrightarrow> blocks g' ! i = blocks g ! i"
  "built_arms as nxt g us g' \<Longrightarrow> length (blocks g) \<le> length (blocks g')"
  "built_arms as nxt g us g' \<Longrightarrow> loop_ctx g' = loop_ctx g"
  "built_arms as nxt g us g' \<Longrightarrow> i < length (blocks g) \<Longrightarrow> blocks g' ! i = blocks g ! i"
  using built_extends by (auto simp: extends_to_def)

section \<open>Edges\<close>

text \<open>
  An edge of the built blocks leads to the continuation, to a target of the innermost loop, or to
  a block built earlier in the same build; suspensions, and only they, lead to resume blocks.
\<close>

definition outer_targets :: "bid \<Rightarrow> cfg \<Rightarrow> bid set" where
  "outer_targets nxt g = insert nxt (case loop_ctx g of [] \<Rightarrow> {} | (h, x) # _ \<Rightarrow> {h, x})"

definition inner_target :: "nat \<Rightarrow> bid \<Rightarrow> basic_block list \<Rightarrow> var_id option option \<Rightarrow> bid \<Rightarrow> bool" where
  "inner_target n m bs rb t \<longleftrightarrow> n \<le> t \<and> t < m \<and> resume_bind (bs ! t) = rb"

fun term_edges :: "(var_id option option \<Rightarrow> bid \<Rightarrow> bool) \<Rightarrow> bterm \<Rightarrow> bool" where
  "term_edges Q (Suspend task rb t) = Q (Some rb) t"
| "term_edges Q u = (\<forall>t \<in> set (term_successors u). Q None t)"

lemma term_edges_mono: "term_edges Q t \<Longrightarrow> (\<And>rb b. b \<in> set (term_successors t) \<Longrightarrow> Q rb b \<Longrightarrow> Q' rb b) \<Longrightarrow> term_edges Q' t"
  by (cases t) auto

definition edges_ok :: "bid set \<Rightarrow> nat \<Rightarrow> bid \<Rightarrow> basic_block list \<Rightarrow> bool" where
  "edges_ok out n m bs \<longleftrightarrow> (\<forall>i. n \<le> i \<and> i < length bs \<longrightarrow>
     term_edges (\<lambda>rb t. rb = None \<and> t \<in> out \<or> inner_target n m bs rb t) (bb_term (bs ! i)))"

abbreviation edge_in :: "bid set \<Rightarrow> nat \<Rightarrow> bid \<Rightarrow> basic_block list \<Rightarrow> bid \<Rightarrow> bool" where
  "edge_in out n m bs i \<equiv>
     term_edges (\<lambda>rb t. rb = None \<and> t \<in> out \<or> inner_target n m bs rb t) (bb_term (bs ! i))"

lemma edges_later:
  assumes e: "edges_ok out n m bs" and i: "n \<le> i" "i < length bs"
    and t: "bb_term (cs ! i) = bb_term (bs ! i)"
    and out: "\<And>t. t \<in> out \<Longrightarrow> t \<in> out' \<or> inner_target n' m' cs None t"
    and nm: "n' \<le> n" "m \<le> m'"
    and inner: "\<And>t. n \<le> t \<Longrightarrow> t < m \<Longrightarrow> resume_bind (cs ! t) = resume_bind (bs ! t)"
  shows "edge_in out' n' m' cs i"
proof -
  from e i have "edge_in out n m bs i" by (auto simp: edges_ok_def)
  then show ?thesis
    unfolding t by (rule term_edges_mono) (use out inner nm in \<open>auto simp: inner_target_def\<close>)
qed

text \<open>Two consecutive regions make one, and a block is added at the end.\<close>

lemma edges_ok_join:
  assumes e: "edges_ok out1 n m1 bs" "edges_ok out2 (length bs) m2 cs"
    and pre: "\<And>i. i < length bs \<Longrightarrow> cs ! i = bs ! i" and n: "n \<le> length bs"
    and m: "m1 \<le> length bs" "length bs \<le> length cs" "m1 \<le> m'" "m2 \<le> m'"
    and out: "out1 \<subseteq> out'" "\<And>t. t \<in> out2 \<Longrightarrow> t \<in> out' \<or> inner_target n m' cs None t"
  shows "edges_ok out' n m' cs"
  unfolding edges_ok_def
proof (intro allI impI)
  fix i assume i: "n \<le> i \<and> i < length cs"
  show "edge_in out' n m' cs i"
  proof (cases "i < length bs")
    case True
    show ?thesis by (rule edges_later [OF e(1) conjunct1 [OF i] True]) (use True i m out pre in auto)
  next
    case False
    then have "length bs \<le> i" by simp
    then show ?thesis
      by (rule edges_later [OF e(2) _ conjunct2 [OF i]]) (use n m out in auto)
  qed
qed

lemma edges_ok_add:
  assumes e: "edges_ok out n m bs" and m: "m \<le> length bs"
    and t: "term_edges (\<lambda>rb t. rb = None \<and> t \<in> out \<or> inner_target n (length bs) bs rb t) u"
  shows "edges_ok out n (length bs) (bs @ [\<lparr>bb_stmts = ss, bb_term = u, resume_bind = None\<rparr>])"
  unfolding edges_ok_def
proof (intro allI impI)
  let ?bs = "bs @ [\<lparr>bb_stmts = ss, bb_term = u, resume_bind = None\<rparr>]"
  fix i assume i: "n \<le> i \<and> i < length ?bs"
  show "edge_in out n (length bs) ?bs i"
  proof (cases "i < length bs")
    case True
    show ?thesis by (rule edges_later [OF e conjunct1 [OF i] True]) (use True i m in \<open>auto simp: nth_append\<close>)
  next
    case False
    have "term_edges (\<lambda>rb t. rb = None \<and> t \<in> out \<or> inner_target n (length bs) ?bs rb t) u"
      using t by (rule term_edges_mono) (auto simp: inner_target_def nth_append)
    with False i show ?thesis by (simp add: nth_append)
  qed
qed

lemma edges_ok_update:
  assumes e: "edges_ok out n m bs" and b: "b < n \<or> m \<le> b"
  shows "edges_ok out n m (bs[b := (bs ! b)\<lparr>resume_bind := rb\<rparr>])"
  unfolding edges_ok_def
proof (intro allI impI)
  let ?bs = "bs[b := (bs ! b)\<lparr>resume_bind := rb\<rparr>]"
  fix i assume i: "n \<le> i \<and> i < length ?bs"
  then have i': "i < length bs" by simp
  show "edge_in out n m ?bs i"
    by (rule edges_later [OF e conjunct1 [OF i] i']) (use i b in \<open>auto simp: nth_list_update\<close>)
qed

lemma edges_ok_retarget:
  assumes e: "edges_ok out n m bs" and b: "n \<le> b" "b < length bs"
    and u: "term_edges (\<lambda>rb t. rb = None \<and> t \<in> out \<or> inner_target n m bs rb t) u"
  shows "edges_ok out n m (bs[b := (bs ! b)\<lparr>bb_term := u\<rparr>])"
  unfolding edges_ok_def
proof (intro allI impI)
  let ?bs = "bs[b := (bs ! b)\<lparr>bb_term := u\<rparr>]"
  fix i assume i: "n \<le> i \<and> i < length ?bs"
  then have i': "i < length bs" by simp
  have same: "inner_target n m ?bs = inner_target n m bs"
    by (cases "b < length bs") (auto simp: inner_target_def nth_list_update fun_eq_iff)
  show "edge_in out n m ?bs i"
  proof (cases "i = b")
    case True
    with u i' same show ?thesis by simp
  next
    case False
    show ?thesis
      by (rule edges_later [OF e conjunct1 [OF i] i']) (use False b in \<open>auto simp: nth_list_update\<close>)
  qed
qed

lemma outer_targets_join: "loop_ctx g = loop_ctx g1 \<Longrightarrow> t \<in> outer_targets join g1 \<Longrightarrow> t = join \<or> t \<in> outer_targets nxt g"
  by (auto simp: outer_targets_def)

lemma built_edges:
  "built simple ss nxt g b g' \<Longrightarrow>
     resume_bind (blocks g' ! b) = None \<and> edges_ok (outer_targets nxt g) (length (blocks g)) b (blocks g')"
  "built_cases cs nxt g ts g' \<Longrightarrow>
     edges_ok (outer_targets nxt g) (length (blocks g)) (length (blocks g')) (blocks g')
       \<and> (\<forall>t \<in> set (map snd ts). inner_target (length (blocks g)) (length (blocks g')) (blocks g') None t)"
  "built_arms as nxt g us g' \<Longrightarrow>
     edges_ok (outer_targets nxt g) (length (blocks g)) (length (blocks g')) (blocks g')
       \<and> (\<forall>t \<in> set (map snd us). inner_target (length (blocks g)) (length (blocks g')) (blocks g') None t)"
proof (induction rule: built_induct)
  case (Awaiting k task rb rest nxt g resume g1 simple r)
  note b = built_bounds(1-4) [OF Awaiting.hyps(2)]
  have "edges_ok (outer_targets nxt g) (length (blocks g)) resume (blocks (set_resume resume rb g1))"
    using edges_ok_update [OF conjunct2 [OF Awaiting.IH]] by simp
  from edges_ok_add [OF this] b show ?case by (auto simp: inner_target_def nth_append)
next
  case (Branching rest nxt g join g1 t bt g2 e be g3 simple c r)
  note b1 = built_bounds(1-4) [OF Branching.hyps(1)] and b2 = built_bounds(1-4) [OF Branching.hyps(2)]
    and b3 = built_bounds(1-4) [OF Branching.hyps(3)]
  let ?n = "length (blocks g)" and ?out = "outer_targets nxt g"
  have "edges_ok ?out ?n (length (blocks g2)) (blocks g2)"
    by (rule edges_ok_join [OF conjunct2 [OF Branching.IH(1)] conjunct2 [OF Branching.IH(2)]])
      (use b1 b2 Branching.IH(1) in \<open>auto dest!: outer_targets_join [where nxt = nxt and g = g, rotated] simp: inner_target_def\<close>)
  then have "edges_ok ?out ?n (length (blocks g3)) (blocks g3)"
    by (rule edges_ok_join [OF _ conjunct2 [OF Branching.IH(3)]])
      (use b1 b2 b3 Branching.IH(1) in \<open>auto dest!: outer_targets_join [where nxt = nxt and g = g, rotated] simp: inner_target_def\<close>)
  from edges_ok_add [OF this] Branching.IH b1 b2 b3 show ?case by (auto simp: inner_target_def nth_append)
next
  case (Switching rest nxt g join g1 arms ts g2 d bd g3 simple c r)
  note b1 = built_bounds(1-4) [OF Switching.hyps(1)] and b2 = built_bounds(5-7) [OF Switching.hyps(2)]
    and b3 = built_bounds(1-4) [OF Switching.hyps(3)]
  let ?n = "length (blocks g)" and ?out = "outer_targets nxt g"
  have "edges_ok ?out ?n (length (blocks g2)) (blocks g2)"
    by (rule edges_ok_join [OF conjunct2 [OF Switching.IH(1)] conjunct1 [OF Switching.IH(2)]])
      (use b1 b2 Switching.IH(1) in \<open>auto dest!: outer_targets_join [where nxt = nxt and g = g, rotated] simp: inner_target_def\<close>)
  then have "edges_ok ?out ?n (length (blocks g3)) (blocks g3)"
    by (rule edges_ok_join [OF _ conjunct2 [OF Switching.IH(3)]])
      (use b1 b2 b3 Switching.IH(1) in \<open>auto dest!: outer_targets_join [where nxt = nxt and g = g, rotated] simp: inner_target_def\<close>)
  then have "edges_ok ?out ?n (length (blocks g3)) (blocks (add_block simple (SwitchT c ts bd) g3))"
    unfolding blocks_simps
    by (rule edges_ok_add) (use Switching.IH b1 b2 b3 in \<open>auto simp: inner_target_def\<close>)
  then show ?case by (simp add: nth_append)
next
  case (Matching rest nxt g join g1 arms ts g2 simple c r)
  note b1 = built_bounds(1-4) [OF Matching.hyps(1)] and b2 = built_bounds(8-10) [OF Matching.hyps(2)]
  let ?n = "length (blocks g)" and ?out = "outer_targets nxt g"
  have "edges_ok ?out ?n (length (blocks g2)) (blocks g2)"
    by (rule edges_ok_join [OF conjunct2 [OF Matching.IH(1)] conjunct1 [OF Matching.IH(2)]])
      (use b1 b2 Matching.IH(1) in \<open>auto dest!: outer_targets_join [where nxt = nxt and g = g, rotated] simp: inner_target_def\<close>)
  then have "edges_ok ?out ?n (length (blocks g2)) (blocks (add_block simple (MatchT c ts) g2))"
    unfolding blocks_simps
    by (rule edges_ok_add) (use Matching.IH b1 b2 in \<open>auto simp: inner_target_def\<close>)
  then show ?case by (simp add: nth_append)
next
  case (Looping rest nxt g exit g1 header lb be g2 simple r)
  note b1 = built_bounds(1-4) [OF Looping.hyps(1)] and b2 = built_bounds(1-4) [OF Looping.hyps(3), simplified]
  note h = Looping.hyps(2)
  let ?n = "length (blocks g)" and ?out = "outer_targets nxt g"
  have hb: "blocks g2 ! header = \<lparr>bb_stmts = [], bb_term = Jump exit, resume_bind = None\<rparr>"
    using b2(4) [of header] h by (simp add: nth_append)
  have "edges_ok ?out ?n (length (blocks g1)) (blocks (add_block [] (Jump exit) g1))"
    using edges_ok_add [OF conjunct2 [OF Looping.IH(1)]] Looping.IH(1) b1 by (simp add: inner_target_def)
  then have "edges_ok ?out ?n (length (blocks g2)) (blocks g2)"
    by (rule edges_ok_join [where bs = "blocks (add_block [] (Jump exit) g1)" and ?m2.0 = be
          and ?out2.0 = "outer_targets header (push_loop header exit (add_block [] (Jump exit) g1))"])
      (use b1 b2 Looping.IH hb h in \<open>auto simp: inner_target_def outer_targets_def nth_append\<close>)
  then have "edges_ok ?out ?n (length (blocks g2)) (blocks (set_term header (Jump be) (pop_loop g2)))"
    using edges_ok_retarget [of ?out ?n "length (blocks g2)" "blocks g2" header "Jump be"] b1 b2 h Looping.IH(2)
    by (auto simp: inner_target_def)
  from edges_ok_add [OF this] b1 b2 h hb show ?case by (auto simp: inner_target_def nth_append)
next
  case (Cases b nxt g t g1 arms ts g2 k)
  note b1 = built_bounds(1-4) [OF Cases.hyps(1)] and b2 = built_bounds(5-7) [OF Cases.hyps(2)]
  have "edges_ok (outer_targets nxt g) (length (blocks g)) (length (blocks g2)) (blocks g2)"
    by (rule edges_ok_join [OF conjunct2 [OF Cases.IH(1)] conjunct1 [OF Cases.IH(2)]])
      (use b1 b2 in \<open>auto simp: outer_targets_def\<close>)
  with Cases.IH b1 b2 show ?case by (auto simp: inner_target_def)
next
  case (Arms b nxt g t g1 arms ts g2 p)
  note b1 = built_bounds(1-4) [OF Arms.hyps(1)] and b2 = built_bounds(8-10) [OF Arms.hyps(2)]
  have "edges_ok (outer_targets nxt g) (length (blocks g)) (length (blocks g2)) (blocks g2)"
    by (rule edges_ok_join [OF conjunct2 [OF Arms.IH(1)] conjunct1 [OF Arms.IH(2)]])
      (use b1 b2 in \<open>auto simp: outer_targets_def\<close>)
  with Arms.IH b1 b2 show ?case by (auto simp: inner_target_def)
qed (auto simp: edges_ok_def nth_append outer_targets_def split: list.splits)

end
