(* ===== verification/CpsLive.thy ===== *)
theory CpsLive
  imports CpsGraph
begin

text \<open>
  Liveness in \<open>ir/src/cps.rs\<close>: the sweeps over the blocks stop, and what they stop with is the
  least solution of the equations \<open>live_at\<close>.
\<close>

section \<open>Finite sets of variables\<close>

lemma finite_collect_atom [simp]: "finite (collect_atom a)"
  by (cases a) auto

lemma finite_collect_atoms [simp]: "finite (collect_atoms as)"
  by (auto simp: collect_atoms_def)

lemma finite_collect_rvalue [simp]: "finite (collect_rvalue_reads rv)"
  by (cases rv) auto

lemma snd_expose [simp]: "snd (expose caps r kg) = snd kg \<union> (r - fst kg - caps)"
  and fst_expose [simp]: "fst (expose caps r kg) = fst kg"
  by (simp_all add: expose_def)

lemma finite_gen_kill_stmt: "finite (snd kg) \<Longrightarrow> finite (snd (gen_kill_stmt caps k kg))"
  by (cases k) (auto simp: Let_def)

lemma finite_gen: "finite (snd (kill_gen caps bb))"
proof -
  have "finite (snd (fold (\<lambda>s. gen_kill_stmt caps (kind s)) ss kg))" if "finite (snd kg)" for ss kg
    using that by (induction ss arbitrary: kg) (auto simp: finite_gen_kill_stmt)
  moreover have "finite (term_reads t)" for t by (cases t) auto
  ultimately show ?thesis by (simp add: kill_gen_def Let_def)
qed

section \<open>One sweep\<close>

definition in_range :: "basic_block list \<Rightarrow> bool" where
  "in_range bs \<longleftrightarrow> (\<forall>bb \<in> set bs. \<forall>t \<in> set (term_successors (bb_term bb)). t < length bs)"

text \<open>Liveness sets compared block by block.\<close>

definition live_le :: "var_id set list \<Rightarrow> var_id set list \<Rightarrow> bool" where
  "live_le L M \<longleftrightarrow> length L = length M \<and> (\<forall>b < length L. L ! b \<subseteq> M ! b)"

lemma live_le_refl [simp]: "live_le L L"
  by (simp add: live_le_def)

lemma live_le_trans: "live_le L M \<Longrightarrow> live_le M N \<Longrightarrow> live_le L N"
  unfolding live_le_def by (metis subset_trans)

lemma live_le_update: "live_le L X \<Longrightarrow> v \<subseteq> X ! b \<Longrightarrow> live_le (L[b := v]) X"
  unfolding live_le_def by (metis length_list_update nth_list_update_eq nth_list_update_neq)

lemma live_at_mono:
  assumes "in_range bs" "length L = length bs" "live_le L M" "b < length bs"
  shows "live_at caps bs L b \<subseteq> live_at caps bs M b"
proof -
  have "L ! s \<subseteq> M ! s" if "s \<in> set (term_successors (bb_term (bs ! b)))" for s
    using assms that by (fastforce simp: in_range_def live_le_def)
  then show ?thesis by (fastforce simp: live_at_def Let_def)
qed

definition rising :: "var_id set \<Rightarrow> basic_block list \<Rightarrow> var_id set list \<Rightarrow> bool" where
  "rising caps bs L \<longleftrightarrow> length L = length bs \<and> (\<forall>b < length bs. L ! b \<subseteq> live_at caps bs L b)"

definition live_closed :: "var_id set \<Rightarrow> basic_block list \<Rightarrow> var_id set list \<Rightarrow> bool" where
  "live_closed caps bs L \<longleftrightarrow> length L = length bs \<and> (\<forall>b < length bs. live_at caps bs L b \<subseteq> L ! b)"

lemma live_update_step:
  fixes c :: bool
  assumes r: "in_range bs" and L: "rising caps bs L" and b: "b < length bs"
  defines "st \<equiv> live_update caps bs b (L, c)"
  shows "rising caps bs (fst st)" and "live_le L (fst st)"
    and "live_closed caps bs X \<Longrightarrow> live_le L X \<Longrightarrow> live_le (fst st) X"
    and "snd st \<longleftrightarrow> c \<or> live_at caps bs L b \<noteq> L ! b"
    and "\<not> snd st \<Longrightarrow> fst st = L"
    and "c \<longleftrightarrow> L \<noteq> L0 \<Longrightarrow> live_le L0 L \<Longrightarrow> snd st \<longleftrightarrow> fst st \<noteq> L0"
proof -
  let ?L = "L[b := live_at caps bs L b]"
  have len: "length L = length bs" using L by (simp add: rising_def)
  have le: "live_le L ?L" using L b by (auto simp: live_le_def rising_def nth_list_update)
  have up: "rising caps bs ?L"
    unfolding rising_def
  proof (intro conjI allI impI)
    fix i assume i: "i < length bs"
    have "?L ! i \<subseteq> live_at caps bs L i" using L i len by (cases "i = b") (auto simp: rising_def)
    also have "\<dots> \<subseteq> live_at caps bs ?L i" by (rule live_at_mono [OF r len le i])
    finally show "?L ! i \<subseteq> live_at caps bs ?L i" .
  qed (simp add: len)
  show "rising caps bs (fst st)" "live_le L (fst st)"
    using up le L by (auto simp: st_def live_update_def)
  show "snd st \<longleftrightarrow> c \<or> live_at caps bs L b \<noteq> L ! b" "\<not> snd st \<Longrightarrow> fst st = L"
    by (auto simp: st_def live_update_def split: if_splits)
  {
    assume X: "live_closed caps bs X" and lX: "live_le L X"
    have "live_at caps bs L b \<subseteq> X ! b"
      using live_at_mono [OF r len lX b] X b by (auto simp: live_closed_def)
    then show "live_le (fst st) X"
      using lX by (simp add: st_def live_update_def live_le_update)
  }
  {
    assume c: "c \<longleftrightarrow> L \<noteq> L0" and L0: "live_le L0 L"
    have "?L \<noteq> L0" if "live_at caps bs L b \<noteq> L ! b"
    proof
      assume "?L = L0"
      with L0 b len have "live_at caps bs L b \<subseteq> L ! b" by (metis live_le_def length_list_update nth_list_update_eq)
      with L b that show False by (auto simp: rising_def)
    qed
    then show "snd st \<longleftrightarrow> fst st \<noteq> L0" using c by (auto simp: st_def live_update_def)
  }
qed

lemma live_sweep_fold:
  fixes c :: bool
  assumes r: "in_range bs" and "rising caps bs L" and "\<forall>b \<in> set is. b < length bs"
  defines "st \<equiv> fold (live_update caps bs) is (L, c)"
  shows "rising caps bs (fst st) \<and> live_le L (fst st)
    \<and> (live_closed caps bs X \<longrightarrow> live_le L X \<longrightarrow> live_le (fst st) X)
    \<and> (\<not> snd st \<longrightarrow> \<not> c \<and> fst st = L \<and> (\<forall>b \<in> set is. live_at caps bs L b = L ! b))
    \<and> ((c \<longleftrightarrow> L \<noteq> L0) \<longrightarrow> live_le L0 L \<longrightarrow> (snd st \<longleftrightarrow> fst st \<noteq> L0))"
  using assms(2,3) unfolding st_def
proof (induction "is" arbitrary: L c)
  case (Cons b "is")
  let ?s = "live_update caps bs b (L, c)"
  have b: "b < length bs" using Cons.prems by simp
  note step = live_update_step [OF r Cons.prems(1) b, where c = c]
  have "\<forall>b \<in> set is. b < length bs" using Cons.prems by simp
  note IH = Cons.IH [OF step(1) this, of "snd ?s", unfolded prod.collapse]
  show ?case
    unfolding fold_Cons comp_apply
  proof (intro conjI impI)
    let ?r = "fold (live_update caps bs) is ?s"
    show "rising caps bs (fst ?r)" using IH by blast
    show "live_le L (fst ?r)" using IH step(2) live_le_trans by blast
    show "live_le (fst ?r) X" if "live_closed caps bs X" "live_le L X" using IH step(3) [OF that] that(1) by blast
    {
      assume s: "\<not> snd ?r"
      then have s': "\<not> snd ?s" using IH by blast
      then show "\<not> c" "fst ?r = L" using IH s step(4,5) by auto
      show "\<forall>i \<in> set (b # is). live_at caps bs L i = L ! i"
        using IH s s' step(4) step(5) [OF s'] by auto
    }
    show "snd ?r \<longleftrightarrow> fst ?r \<noteq> L0" if "c \<longleftrightarrow> L \<noteq> L0" "live_le L0 L"
      using IH step(6) [OF that] live_le_trans [OF that(2) step(2)] by blast
  qed
qed simp

lemma live_sweep_step:
  assumes "in_range bs" and "rising caps bs L"
  shows "rising caps bs (fst (live_sweep caps bs L))" and "live_le L (fst (live_sweep caps bs L))"
    and "live_closed caps bs X \<Longrightarrow> live_le L X \<Longrightarrow> live_le (fst (live_sweep caps bs L)) X"
    and "\<not> snd (live_sweep caps bs L) \<Longrightarrow> fst (live_sweep caps bs L) = L \<and> live_closed caps bs L"
    and "snd (live_sweep caps bs L) \<Longrightarrow> fst (live_sweep caps bs L) \<noteq> L"
proof -
  have i: "\<forall>b \<in> set (rev [0..<length bs]). b < length bs" by simp
  note f = live_sweep_fold [OF assms i, where c = False, folded live_sweep_def]
  show "rising caps bs (fst (live_sweep caps bs L))" "live_le L (fst (live_sweep caps bs L))"
    "live_closed caps bs X \<Longrightarrow> live_le L X \<Longrightarrow> live_le (fst (live_sweep caps bs L)) X"
    "snd (live_sweep caps bs L) \<Longrightarrow> fst (live_sweep caps bs L) \<noteq> L"
    using f [of X L] by simp_all
  show "fst (live_sweep caps bs L) = L \<and> live_closed caps bs L" if "\<not> snd (live_sweep caps bs L)"
    using f [of X L] that assms(2) by (auto simp: live_closed_def rising_def)
qed

section \<open>The loop\<close>

text \<open>The variables any solution may hold: those some block generates.\<close>

definition all_gens :: "var_id set \<Rightarrow> basic_block list \<Rightarrow> var_id set" where
  "all_gens caps bs = (\<Union>bb \<in> set bs. snd (kill_gen caps bb))"

lemma finite_all_gens [simp]: "finite (all_gens caps bs)"
  by (simp add: all_gens_def finite_gen)

lemma closed_all_gens: "in_range bs \<Longrightarrow> live_closed caps bs (replicate (length bs) (all_gens caps bs))"
  by (fastforce simp: live_closed_def live_at_def Let_def in_range_def all_gens_def)

definition room :: "var_id set \<Rightarrow> basic_block list \<Rightarrow> var_id set list \<Rightarrow> nat" where
  "room caps bs L = (\<Sum>b < length bs. card (all_gens caps bs - L ! b))"

lemma room_less:
  assumes "live_le L M" "L \<noteq> M" "length L = length bs" "live_le M (replicate (length bs) (all_gens caps bs))"
  shows "room caps bs M < room caps bs L"
proof -
  let ?U = "all_gens caps bs"
  have le: "L ! i \<subseteq> M ! i" and U: "M ! i \<subseteq> ?U" if "i < length bs" for i
    using assms that by (auto simp: live_le_def)
  obtain b where b: "b < length bs" "L ! b \<noteq> M ! b"
    using assms by (metis live_le_def nth_equalityI)
  show ?thesis
    unfolding room_def
  proof (rule sum_strict_mono_ex1)
    show "\<forall>i \<in> {..<length bs}. card (?U - M ! i) \<le> card (?U - L ! i)"
      using le by (auto intro!: card_mono)
    have "?U - M ! b \<subset> ?U - L ! b" using le [of b] U [of b] b by auto
    then show "\<exists>i \<in> {..<length bs}. card (?U - M ! i) < card (?U - L ! i)"
      using b(1) by (meson finite_all_gens finite_Diff lessThan_iff psubset_card_mono)
  qed simp
qed

lemma live_loop_result:
  assumes r: "in_range bs" and "rising caps bs L" and "live_le L (replicate (length bs) (all_gens caps bs))"
  shows "\<exists>M. live_loop caps bs L = Some M \<and> rising caps bs M \<and> live_closed caps bs M
    \<and> live_le M (replicate (length bs) (all_gens caps bs))
    \<and> (\<forall>X. live_closed caps bs X \<longrightarrow> live_le L X \<longrightarrow> live_le M X)"
  using assms(2,3)
proof (induction "room caps bs L" arbitrary: L rule: less_induct)
  case less
  let ?s = "live_sweep caps bs L"
  note step = live_sweep_step [OF r less.prems(1)]
  have U: "live_le (fst ?s) (replicate (length bs) (all_gens caps bs))"
    using step(3) closed_all_gens [OF r] less.prems(2) by blast
  show ?case
  proof (cases "snd ?s")
    case False
    with step(4) less.prems show ?thesis by (auto simp: live_loop.simps [of caps bs L])
  next
    case True
    have "room caps bs (fst ?s) < room caps bs L"
      by (rule room_less [OF step(2) _ _ U]) (use step(5) True less.prems(1) in \<open>auto simp: rising_def\<close>)
    from less.hyps [OF this step(1) U] obtain M where M: "live_loop caps bs (fst ?s) = Some M"
      "rising caps bs M" "live_closed caps bs M" "live_le M (replicate (length bs) (all_gens caps bs))"
      "\<forall>X. live_closed caps bs X \<longrightarrow> live_le (fst ?s) X \<longrightarrow> live_le M X" by blast
    with True step(3) show ?thesis by (auto simp: live_loop.simps [of caps bs L])
  qed
qed

definition live_sets :: "var_id list list \<Rightarrow> var_id set list" where
  "live_sets = map set"

lemma liveness_result:
  assumes r: "in_range bs"
  obtains L where "liveness bs caps = Some L" and "length L = length bs"
    and "\<And>b. b < length bs \<Longrightarrow> sorted (L ! b) \<and> distinct (L ! b)"
    and "\<And>b. b < length bs \<Longrightarrow> set (L ! b) = live_at caps bs (live_sets L) b"
    and "\<And>X. live_closed caps bs X \<Longrightarrow> live_le (live_sets L) X"
proof -
  let ?L0 = "replicate (length bs) ({} :: var_id set)"
  have "rising caps bs ?L0" "live_le ?L0 (replicate (length bs) (all_gens caps bs))"
    by (auto simp: rising_def live_le_def)
  from live_loop_result [OF r this] obtain M where M: "live_loop caps bs ?L0 = Some M"
    "rising caps bs M" "live_closed caps bs M" "live_le M (replicate (length bs) (all_gens caps bs))"
    "\<And>X. live_closed caps bs X \<Longrightarrow> live_le ?L0 X \<Longrightarrow> live_le M X" by blast
  let ?L = "map sorted_list_of_set M"
  have len: "length M = length bs" using M(2) by (simp add: rising_def)
  have fin: "finite (M ! b)" if "b < length bs" for b
    using M(4) that len by (auto simp: live_le_def intro: finite_subset [OF _ finite_all_gens])
  have sets: "live_sets ?L = M" by (rule nth_equalityI) (use len fin in \<open>auto simp: live_sets_def\<close>)
  show thesis
  proof (rule that [of ?L])
    show "liveness bs caps = Some ?L" using M(1) by (simp add: liveness_def)
    show "set (?L ! b) = live_at caps bs (live_sets ?L) b" if "b < length bs" for b
      using M(2,3) that len fin by (auto simp: sets rising_def live_closed_def)
    show "live_le (live_sets ?L) X" if "live_closed caps bs X" for X
      using M(5) [OF that] that by (auto simp: sets live_le_def live_closed_def)
  qed (use len fin in auto)
qed

end
