(* ===== verification/CpsNumber.thy ===== *)
theory CpsNumber
  imports CpsLive
begin

text \<open>
  Renumbering in \<open>ir/src/cps.rs\<close>: the walk never leaves the blocks, its map is the position in
  the order of discovery, the entry comes first, and the blocks found are closed under edges.
\<close>

definition numbering :: "(bid \<rightharpoonup> bid) \<Rightarrow> bid list \<Rightarrow> bool" where
  "numbering m order \<longleftrightarrow> (\<forall>b i. m b = Some i \<longleftrightarrow> i < length order \<and> order ! i = b)"

lemma numberingD: "numbering m order \<Longrightarrow> i < length order \<Longrightarrow> m (order ! i) = Some i"
  by (simp add: numbering_def)

lemma numbering_None: "numbering m order \<Longrightarrow> m b = None \<longleftrightarrow> b \<notin> set order"
proof
  assume n: "numbering m order" and "m b = None"
  then show "b \<notin> set order" by (metis in_set_conv_nth numberingD option.distinct(1))
next
  assume n: "numbering m order" and b: "b \<notin> set order"
  show "m b = None"
  proof (rule ccontr)
    assume "m b \<noteq> None"
    then obtain i where "m b = Some i" by auto
    with n have "i < length order" "order ! i = b" by (simp_all add: numbering_def)
    with b show False by auto
  qed
qed

lemma numbering_distinct: "numbering m order \<Longrightarrow> distinct order"
  unfolding distinct_conv_nth by (metis numberingD option.inject)

lemma numbering_snoc:
  assumes "numbering m order" and "m b = None"
  shows "numbering (m(b \<mapsto> length order)) (order @ [b])"
proof -
  have "b \<notin> set order" using assms by (simp add: numbering_None)
  with assms(1) show ?thesis by (auto simp: numbering_def nth_append less_Suc_eq)
qed

definition succs_of :: "basic_block list \<Rightarrow> bid \<Rightarrow> bid set" where
  "succs_of bs b = set (term_successors (bb_term (bs ! b)))"

lemma in_range_succs: "in_range bs \<Longrightarrow> b < length bs \<Longrightarrow> t \<in> succs_of bs b \<Longrightarrow> t < length bs"
  by (auto simp: in_range_def succs_of_def)

lemma renumber_loop_result:
  assumes "in_range bs" and "numbering m order" and "set order \<subseteq> {..<length bs}" and "set stack \<subseteq> {..<length bs}"
    and "\<forall>b \<in> set order. succs_of bs b \<subseteq> set order \<union> set stack"
    and "hd (order @ stack) = ent" "order @ stack \<noteq> []"
  shows "\<exists>m' order'. renumber_loop bs stack m order = Some (m', order') \<and> numbering m' order'
    \<and> set order' \<subseteq> {..<length bs} \<and> (\<forall>b \<in> set order'. succs_of bs b \<subseteq> set order')
    \<and> order' \<noteq> [] \<and> hd order' = ent"
  using assms
proof (induction bs stack m order rule: renumber_loop.induct)
  case (2 bs b stack m order)
  show ?case
  proof (cases "m b = None")
    case True
    have b: "b < length bs" using "2.prems" by simp
    have "succs_of bs b \<subseteq> {..<length bs}" using in_range_succs [OF "2.prems"(1) b] by auto
    then have "\<exists>m' order'. renumber_loop bs (rev (term_successors (bb_term (bs ! b))) @ stack)
        (m(b \<mapsto> length order)) (order @ [b]) = Some (m', order') \<and> numbering m' order'
      \<and> set order' \<subseteq> {..<length bs} \<and> (\<forall>b \<in> set order'. succs_of bs b \<subseteq> set order')
      \<and> order' \<noteq> [] \<and> hd order' = ent"
      using "2.prems" True b
      by (intro "2.IH"(2)) (auto simp: numbering_snoc [unfolded fun_upd_def] succs_of_def hd_append)
    with True b show ?thesis by simp
  next
    case False
    then have "b \<in> set order" using numbering_None [OF "2.prems"(2)] by simp
    then have "\<exists>m' order'. renumber_loop bs stack m order = Some (m', order') \<and> numbering m' order'
      \<and> set order' \<subseteq> {..<length bs} \<and> (\<forall>b \<in> set order'. succs_of bs b \<subseteq> set order')
      \<and> order' \<noteq> [] \<and> hd order' = ent"
      using "2.prems" False by (intro "2.IH"(1)) (auto simp: hd_append)
    with False show ?thesis by simp
  qed
qed auto

lemma renumber_result:
  assumes r: "in_range bs" and e: "ent < length bs"
  obtains m order where "renumber bs ent = Some (map (\<lambda>b. (bs ! b)\<lparr>bb_term := remap_term m (bb_term (bs ! b))\<rparr>) order)"
    and "numbering m order" and "order \<noteq> []" "order ! 0 = ent" and "set order \<subseteq> {..<length bs}"
    and "\<And>b. b \<in> set order \<Longrightarrow> succs_of bs b \<subseteq> set order"
proof -
  have "numbering Map.empty []" by (simp add: numbering_def)
  from renumber_loop_result [OF r this, of "[ent]" ent] e obtain m order
    where o: "renumber_loop bs [ent] Map.empty [] = Some (m, order)" "numbering m order"
      "set order \<subseteq> {..<length bs}" "\<forall>b \<in> set order. succs_of bs b \<subseteq> set order" "order \<noteq> []" "hd order = ent"
    by auto
  show thesis
    by (rule that [OF _ o(2,5)]) (use o in \<open>auto simp: renumber_def hd_conv_nth\<close>)
qed

lemma term_successors_remap:
  "term_successors (remap_term m t) = map (\<lambda>b. the (m b)) (term_successors t)"
  by (cases t) auto

lemma term_binds_remap [simp]: "term_binds (remap_term m t) = term_binds t"
  and term_reads_remap [simp]: "term_reads (remap_term m t) = term_reads t"
  by (cases t; force)+

end
