(* ===== verification/CpsSem.thy ===== *)
theory CpsSem
  imports CpsNumber Traverse
begin

text \<open>
  What the async transform is to keep: the runs of a body in which an \<open>Await\<close> is the primitive
  that yields the awaited value and every match selects an arm (\<open>arun\<close>), definite assignment
  (\<open>da\<close>), the runs of a control-flow graph (\<open>reaches\<close>), and the driver that calls a poll function
  until it is ready (\<open>settles\<close>). These are specifications; the driver is emitted as instructions
  by \<open>wasm/src/helpers/task.rs\<close>.
\<close>

section \<open>Runs that select an arm at every match\<close>

inductive arun :: "ir_function list \<Rightarrow> 'w prim \<Rightarrow> env \<Rightarrow> val list \<Rightarrow> 'w \<Rightarrow> block \<Rightarrow> outcome \<Rightarrow> 'w \<Rightarrow> bool"
  and athen :: "ir_function list \<Rightarrow> 'w prim \<Rightarrow> outcome \<Rightarrow> 'w \<Rightarrow> block \<Rightarrow> outcome \<Rightarrow> 'w \<Rightarrow> bool"
  for P :: "ir_function list" and pr :: "'w prim" where
  arun_Nil: "arun P pr e ds w [] (Norm e ds) w"
| arun_Let: "evals P pr e w rv v w1 \<Longrightarrow> arun P pr (e(x \<mapsto> v)) ds w1 ss r w2 \<Longrightarrow>
    arun P pr e ds w (Stmt (Let x rv) l # ss) r w2"
| arun_Discard: "evals P pr e w rv v w1 \<Longrightarrow> arun P pr e ds w1 ss r w2 \<Longrightarrow>
    arun P pr e ds w (Stmt (Discard rv) l # ss) r w2"
| arun_PushDefer: "eval_atom e a = Some d \<Longrightarrow> arun P pr e (d # ds) w ss r w2 \<Longrightarrow>
    arun P pr e ds w (Stmt (PushDefer a) l # ss) r w2"
| arun_Return: "eval_atom e a = Some v \<Longrightarrow> runs_defers P pr w ds w2 \<Longrightarrow>
    arun P pr e ds w (Stmt (Return a) l # ss) (Ret v) w2"
| arun_If: "eval_atom e c = Some (VBool b) \<Longrightarrow> arun P pr e ds w (if b then t else f) r1 w1 \<Longrightarrow>
    athen P pr r1 w1 ss r w2 \<Longrightarrow> arun P pr e ds w (Stmt (If c t f) l # ss) r w2"
| arun_Switch: "eval_atom e c = Some (VInt k) \<Longrightarrow> arun P pr e ds w (switch_arm arms d k) r1 w1 \<Longrightarrow>
    athen P pr r1 w1 ss r w2 \<Longrightarrow> arun P pr e ds w (Stmt (Switch c arms d) l # ss) r w2"
| arun_Match: "eval_atom e c = Some v \<Longrightarrow> match_arms arms v = Done (Some (bs, b)) \<Longrightarrow>
    arun P pr (bind_all e bs) ds w b r1 w1 \<Longrightarrow> athen P pr r1 w1 ss r w2 \<Longrightarrow>
    arun P pr e ds w (Stmt (Match c arms) l # ss) r w2"
| arun_Loop_next: "arun P pr e ds w lb r1 w1 \<Longrightarrow> r1 = Norm e1 ds1 \<or> r1 = Cont e1 ds1 \<Longrightarrow>
    arun P pr e1 ds1 w1 (Stmt (Loop lb) l # ss) r w2 \<Longrightarrow> arun P pr e ds w (Stmt (Loop lb) l # ss) r w2"
| arun_Loop_break: "arun P pr e ds w lb (Brk e1 ds1) w1 \<Longrightarrow> arun P pr e1 ds1 w1 ss r w2 \<Longrightarrow>
    arun P pr e ds w (Stmt (Loop lb) l # ss) r w2"
| arun_Loop_return: "arun P pr e ds w lb (Ret v) w1 \<Longrightarrow> arun P pr e ds w (Stmt (Loop lb) l # ss) (Ret v) w1"
| arun_Break: "arun P pr e ds w (Stmt Break_stmt l # ss) (Brk e ds) w"
| arun_Continue: "arun P pr e ds w (Stmt Continue_stmt l # ss) (Cont e ds) w"
| athen_Norm: "arun P pr e ds w ss r w2 \<Longrightarrow> athen P pr (Norm e ds) w ss r w2"
| athen_leaves: "leaves r \<Longrightarrow> athen P pr r w ss r w"

lemma runs_stmt: "runs P pr e ds w k (Norm e1 ds1) w1 \<Longrightarrow> runs_block P pr e1 ds1 w1 ss r w2 \<Longrightarrow>
    runs_block P pr e ds w (Stmt k l # ss) r w2"
  by (rule runs_block_Cons) simp

lemma runs_stmt_exit: "runs P pr e ds w k r w1 \<Longrightarrow> leaves r \<Longrightarrow> runs_block P pr e ds w (Stmt k l # ss) r w1"
  by (rule runs_block_exit) simp_all

text \<open>They are runs of the reference semantics.\<close>

lemma arun_runs:
  "arun P pr e ds w b r w' \<Longrightarrow> runs_block P pr e ds w b r w'"
  "athen P pr r1 w1 ss r w2 \<Longrightarrow> leaves r1 \<and> r = r1 \<and> w2 = w1
     \<or> (\<exists>e ds. r1 = Norm e ds \<and> runs_block P pr e ds w1 ss r w2)"
proof (induction rule: arun_athen.inducts)
  case (arun_If e c b ds w t f r1 w1 ss r w2 l)
  from arun_If.hyps(1) arun_If.IH(2) have "runs P pr e ds w (If c t f) r1 w1" by (rule runs_If)
  with arun_If.IH(4) show ?case by (auto intro: runs_stmt runs_stmt_exit)
next
  case (arun_Switch e c k ds w arms d r1 w1 ss r w2 l)
  from arun_Switch.hyps(1) arun_Switch.IH(2) have "runs P pr e ds w (Switch c arms d) r1 w1" by (rule runs_Switch)
  with arun_Switch.IH(4) show ?case by (auto intro: runs_stmt runs_stmt_exit)
next
  case (arun_Match e c v arms bs b ds w r1 w1 ss r w2 l)
  from arun_Match.hyps(1,2) arun_Match.IH(2) have "runs P pr e ds w (Match c arms) r1 w1" by (rule runs_Match_some)
  with arun_Match.IH(4) show ?case by (auto intro: runs_stmt runs_stmt_exit)
next
  case (arun_Loop_next e ds w lb r1 w1 e1 ds1 l ss r w2)
  from arun_Loop_next.IH(4) obtain n where n: "exec_block P pr n e1 ds1 w1 (Stmt (Loop lb) l # ss) = Done (r, w2)"
    by (auto simp: runs_block_def)
  then obtain r3 w3 where x: "exec P pr n e1 ds1 w1 (Loop lb) = Done (r3, w3)"
    and y: "(case r3 of Norm e' ds' \<Rightarrow> exec_block P pr n e' ds' w3 ss | _ \<Rightarrow> Done (r3, w3)) = Done (r, w2)"
    by (auto simp: bind_res_Done)
  from x have "runs P pr e1 ds1 w1 (Loop lb) r3 w3" by (auto simp: runs_def)
  with arun_Loop_next have l: "runs P pr e ds w (Loop lb) r3 w3" by (blast intro: runs_Loop_next)
  show ?case
  proof (cases r3)
    case (Norm e3 ds3)
    with y have "runs_block P pr e3 ds3 w3 ss r w2" by (auto simp: runs_block_def)
    with l Norm show ?thesis by (auto intro: runs_stmt)
  qed (use l y in \<open>auto intro: runs_stmt_exit\<close>)
next
  case (arun_Loop_break e ds w lb e1 ds1 w1 ss r w2 l)
  then have "runs P pr e ds w (Loop lb) (Norm e1 ds1) w1" by (blast intro: runs_Loop_exit)
  with arun_Loop_break.IH(4) show ?case by (auto intro: runs_stmt)
next
  case (arun_Loop_return e ds w lb v w1 l ss)
  then have "runs P pr e ds w (Loop lb) (Ret v) w1" by (blast intro: runs_Loop_exit)
  then show ?case by (auto intro: runs_stmt_exit)
qed (blast intro: runs_block_Nil runs_stmt runs_stmt_exit leaves_simps runs_Let runs_Discard runs_PushDefer
    runs_Return runs_Break runs_Continue)+

section \<open>Definite assignment\<close>

text \<open>
  \<open>da A ss N B K\<close>: with the variables \<open>A\<close> assigned, \<open>ss\<close> reads assigned variables only, and those
  of \<open>N\<close>, \<open>B\<close> and \<open>K\<close> are assigned where it ends, breaks and continues. The variables of the
  patterns of a match are new, and no two patterns share one.
\<close>

definition apart :: "'a set list \<Rightarrow> bool" where
  "apart Xs \<longleftrightarrow> (\<forall>i < length Xs. \<forall>j < length Xs. i \<noteq> j \<longrightarrow> Xs ! i \<inter> Xs ! j = {})"

inductive da :: "var_id set \<Rightarrow> block \<Rightarrow> var_id set \<Rightarrow> var_id set \<Rightarrow> var_id set \<Rightarrow> bool" where
  da_Nil: "N \<subseteq> A \<Longrightarrow> da A [] N B K"
| da_Let: "collect_rvalue_reads rv \<subseteq> A \<Longrightarrow> da (insert x A) ss N B K \<Longrightarrow> da A (Stmt (Let x rv) l # ss) N B K"
| da_Discard: "collect_rvalue_reads rv \<subseteq> A \<Longrightarrow> da A ss N B K \<Longrightarrow> da A (Stmt (Discard rv) l # ss) N B K"
| da_PushDefer: "collect_atom a \<subseteq> A \<Longrightarrow> da A ss N B K \<Longrightarrow> da A (Stmt (PushDefer a) l # ss) N B K"
| da_Return: "collect_atom a \<subseteq> A \<Longrightarrow> da A (Stmt (Return a) l # ss) N B K"
| da_If: "collect_atom c \<subseteq> A \<Longrightarrow> da A t J B K \<Longrightarrow> da A f J B K \<Longrightarrow> da J ss N B K \<Longrightarrow>
    da A (Stmt (If c t f) l # ss) N B K"
| da_Switch: "collect_atom c \<subseteq> A \<Longrightarrow> \<forall>arm \<in> set arms. da A (snd arm) J B K \<Longrightarrow> da A d J B K \<Longrightarrow> da J ss N B K \<Longrightarrow>
    da A (Stmt (Switch c arms d) l # ss) N B K"
| da_Match: "collect_atom c \<subseteq> A \<Longrightarrow>
    \<forall>arm \<in> set arms. A \<inter> collect_pattern_binds (arm_pattern arm) = {}
      \<and> da (A \<union> collect_pattern_binds (arm_pattern arm)) (arm_body arm) J B K \<Longrightarrow>
    apart (map (\<lambda>arm. collect_pattern_binds (arm_pattern arm)) arms) \<Longrightarrow> da J ss N B K \<Longrightarrow>
    da A (Stmt (Match c arms) l # ss) N B K"
| da_Loop: "H \<subseteq> A \<Longrightarrow> da H lb H X H \<Longrightarrow> da X ss N B K \<Longrightarrow> da A (Stmt (Loop lb) l # ss) N B K"
| da_Break: "B \<subseteq> A \<Longrightarrow> da A (Stmt Break_stmt l # ss) N B K"
| da_Continue: "K \<subseteq> A \<Longrightarrow> da A (Stmt Continue_stmt l # ss) N B K"

inductive_cases da_NilE: "da A [] N B K"
  and da_LetE: "da A (Stmt (Let x rv) l # ss) N B K"
  and da_DiscardE: "da A (Stmt (Discard rv) l # ss) N B K"
  and da_PushDeferE: "da A (Stmt (PushDefer a) l # ss) N B K"
  and da_ReturnE: "da A (Stmt (Return a) l # ss) N B K"
  and da_IfE: "da A (Stmt (If c t f) l # ss) N B K"
  and da_SwitchE: "da A (Stmt (Switch c arms d) l # ss) N B K"
  and da_MatchE: "da A (Stmt (Match c arms) l # ss) N B K"
  and da_LoopE: "da A (Stmt (Loop lb) l # ss) N B K"
  and da_BreakE: "da A (Stmt Break_stmt l # ss) N B K"
  and da_ContinueE: "da A (Stmt Continue_stmt l # ss) N B K"

section \<open>Runs of a control-flow graph\<close>

fun switch_target :: "(i64 \<times> bid) list \<Rightarrow> bid \<Rightarrow> i64 \<Rightarrow> bid" where
  "switch_target [] d k = d"
| "switch_target ((i, b) # arms) d k = (if i = k then b else switch_target arms d k)"

fun match_target :: "(pattern \<times> bid) list \<Rightarrow> val \<Rightarrow> (bindings \<times> bid) option" where
  "match_target [] v = None"
| "match_target ((p, b) # arms) v =
     (case match_pat p v of Trap \<Rightarrow> None | Binds bs \<Rightarrow> Some (bs, b) | Mismatch \<Rightarrow> match_target arms v)"

text \<open>The block a terminator leads to, with the environment and the world there.\<close>

fun term_step :: "'w prim \<Rightarrow> env \<Rightarrow> 'w \<Rightarrow> bterm \<Rightarrow> (bid \<times> env \<times> 'w) option" where
  "term_step pr e w (Jump t) = Some (t, e, w)"
| "term_step pr e w (Branch c t f) =
     (case eval_atom e c of Some (VBool b) \<Rightarrow> Some (if b then t else f, e, w) | _ \<Rightarrow> None)"
| "term_step pr e w (SwitchT c arms d) =
     (case eval_atom e c of Some (VInt k) \<Rightarrow> Some (switch_target arms d k, e, w) | _ \<Rightarrow> None)"
| "term_step pr e w (MatchT c arms) =
     (case eval_atom e c of None \<Rightarrow> None
      | Some v \<Rightarrow> (case match_target arms v of None \<Rightarrow> None | Some (bs, t) \<Rightarrow> Some (t, bind_all e bs, w)))"
| "term_step pr e w (ReturnT a) = None"
| "term_step pr e w (Suspend task rb t) =
     (case eval_atom e task of None \<Rightarrow> None
      | Some tv \<Rightarrow>
          (case pr (Await task) [tv] w of None \<Rightarrow> None
           | Some (v, w1) \<Rightarrow> Some (t, case rb of None \<Rightarrow> e | Some x \<Rightarrow> e(x \<mapsto> v), w1)))"

inductive reaches :: "ir_function list \<Rightarrow> 'w prim \<Rightarrow> basic_block list \<Rightarrow> bid \<Rightarrow> env \<Rightarrow> val list \<Rightarrow> 'w \<Rightarrow> val \<Rightarrow> 'w \<Rightarrow> bool"
  for P :: "ir_function list" and pr :: "'w prim" and C :: "basic_block list" where
  reach_ret: "b < length C \<Longrightarrow> runs_block P pr e ds w (bb_stmts (C ! b)) (Norm e1 ds1) w1 \<Longrightarrow>
    bb_term (C ! b) = ReturnT a \<Longrightarrow> eval_atom e1 a = Some v \<Longrightarrow> runs_defers P pr w1 ds1 w2 \<Longrightarrow>
    reaches P pr C b e ds w v w2"
| reach_step: "b < length C \<Longrightarrow> runs_block P pr e ds w (bb_stmts (C ! b)) (Norm e1 ds1) w1 \<Longrightarrow>
    term_step pr e1 w1 (bb_term (C ! b)) = Some (t, e2, w2) \<Longrightarrow> reaches P pr C t e2 ds1 w2 v w3 \<Longrightarrow>
    reaches P pr C b e ds w v w3"

section \<open>The driver\<close>

text \<open>
  \<open>settles R pr aw pf caps pv w v w'\<close>: from the result \<open>pv\<close> of a poll in the world \<open>w\<close>, the task
  completes with \<open>v\<close> in \<open>w'\<close>. A ready result ends it, after the carried cleanups have run from the
  last to the first; a pending one is awaited, and the poll function is called again with the
  state and the awaited value.
\<close>

inductive settles :: "ir_function list \<Rightarrow> 'w prim \<Rightarrow> (val \<Rightarrow> 'w \<Rightarrow> (val \<times> 'w) option) \<Rightarrow> func_id \<Rightarrow> val list \<Rightarrow>
    val \<Rightarrow> 'w \<Rightarrow> val \<Rightarrow> 'w \<Rightarrow> bool"
  for R :: "ir_function list" and pr :: "'w prim" and aw and pf :: func_id and caps :: "val list" where
  ready: "settles R pr aw pf caps (VVariant READY_TAG [v]) w v w"
| ready_defers: "runs_defers R pr w (rev ds) w' \<Longrightarrow>
    settles R pr aw pf caps (VVariant READY_TAG [v, VList ds]) w v w'"
| pending: "aw task w = Some (x, w1) \<Longrightarrow> returns R pr pf [st, x] caps w1 pv w2 \<Longrightarrow>
    settles R pr aw pf caps pv w2 v w' \<Longrightarrow> settles R pr aw pf caps (VVariant PENDING_TAG [task, st]) w v w'"

end
