(* ===== verification/CpsBuild.thy ===== *)
theory CpsBuild
  imports CpsSem
begin

text \<open>
  The graph that \<open>build\<close> makes of a body has the runs of the body: by rule induction over the runs,
  with the continuation of the code around it as the block it leads to.
\<close>

section \<open>Parts of a graph\<close>

text \<open>The graph \<open>C\<close> has the blocks of \<open>g\<close> from \<open>n\<close> on, whatever it says of resumption.\<close>

definition graph_of :: "basic_block list \<Rightarrow> nat \<Rightarrow> cfg \<Rightarrow> bool" where
  "graph_of C n g \<longleftrightarrow> length (blocks g) \<le> length C \<and> (\<forall>i. n \<le> i \<and> i < length (blocks g) \<longrightarrow>
     bb_stmts (C ! i) = bb_stmts (blocks g ! i) \<and> bb_term (C ! i) = bb_term (blocks g ! i))"

lemma graph_of_part:
  assumes "graph_of C n g" and "n \<le> n'" and "length (blocks g') \<le> length (blocks g)"
    and "\<And>i. n' \<le> i \<Longrightarrow> i < length (blocks g') \<Longrightarrow>
      bb_stmts (blocks g ! i) = bb_stmts (blocks g' ! i) \<and> bb_term (blocks g ! i) = bb_term (blocks g' ! i)"
  shows "graph_of C n' g'"
  using assms by (auto simp: graph_of_def)

lemma graph_of_last:
  assumes "graph_of C n (add_block ss t g)" and "n \<le> length (blocks g)"
  shows "length (blocks g) < length C" and "bb_stmts (C ! length (blocks g)) = ss"
    and "bb_term (C ! length (blocks g)) = t"
  using assms by (auto simp: graph_of_def nth_append)

definition part_of :: "cfg \<Rightarrow> cfg \<Rightarrow> cfg \<Rightarrow> cfg \<Rightarrow> bool" where
  "part_of g ga gb g' \<longleftrightarrow> length (blocks g) \<le> length (blocks ga) \<and> loop_ctx ga = loop_ctx g
     \<and> length (blocks gb) \<le> length (blocks g') \<and> (\<forall>i < length (blocks gb). blocks g' ! i = blocks gb ! i)"

lemma part_of_graph: "graph_of C n g' \<Longrightarrow> n \<le> length (blocks g) \<Longrightarrow> part_of g ga gb g' \<Longrightarrow> graph_of C (length (blocks ga)) gb"
  by (erule graph_of_part) (auto simp: part_of_def)

lemma part_of_later: "part_of g1 ga gb g' \<Longrightarrow> length (blocks g) \<le> length (blocks g1) \<Longrightarrow> loop_ctx g1 = loop_ctx g \<Longrightarrow> part_of g ga gb g'"
  by (simp add: part_of_def)

lemma part_of_first: "length (blocks g1) \<le> length (blocks g') \<Longrightarrow>
    (\<And>i. i < length (blocks g1) \<Longrightarrow> blocks g' ! i = blocks g1 ! i) \<Longrightarrow> part_of g g g1 g'"
  by (simp add: part_of_def)

lemma cases_arm:
  "built_cases arms nxt g ts g' \<Longrightarrow>
     switch_arm arms d k = d \<and> switch_target ts bd k = bd
     \<or> (\<exists>ga gb. built [] (switch_arm arms d k) nxt ga (switch_target ts bd k) gb \<and> part_of g ga gb g')"
proof (induction arms arbitrary: g ts)
  case Nil
  then show ?case by (auto elim: built_cases.cases)
next
  case (Cons arm arms)
  from Cons.prems obtain i b t g1 ts' where arm: "arm = (i, b)" "ts = (i, t) # ts'"
    and b: "built [] b nxt g t g1" and bs: "built_cases arms nxt g1 ts' g'"
    by (auto elim: built_cases.cases)
  note b1 = built_bounds(1-4) [OF b] and b2 = built_bounds(5-7) [OF bs]
  have first: "part_of g g g1 g'" using b2 by (intro part_of_first) auto
  have later: "part_of g ga gb g'" if "part_of g1 ga gb g'" for ga gb
    using that by (rule part_of_later) (use b1 in auto)
  show ?case
  proof (cases "i = k")
    case True
    with arm b first show ?thesis by auto
  next
    case False
    with arm Cons.IH [OF bs] later show ?thesis by auto
  qed
qed

lemma arms_arm:
  "built_arms arms nxt g us g' \<Longrightarrow> match_arms arms v = Done (Some (bs, b)) \<Longrightarrow>
     \<exists>t ga gb. match_target us v = Some (bs, t) \<and> built [] b nxt ga t gb \<and> part_of g ga gb g'"
proof (induction arms arbitrary: g us)
  case (Cons arm arms)
  from Cons.prems(1) obtain p b' t g1 us' where arm: "arm = MatchArm p b'" "us = (p, t) # us'"
    and b: "built [] b' nxt g t g1" and bs: "built_arms arms nxt g1 us' g'"
    by (auto elim: built_arms.cases)
  note b1 = built_bounds(1-4) [OF b] and b2 = built_bounds(8-10) [OF bs]
  have first: "part_of g g g1 g'" using b2 by (intro part_of_first) auto
  have later: "part_of g ga gb g'" if "part_of g1 ga gb g'" for ga gb
    using that by (rule part_of_later) (use b1 in auto)
  show ?case
  proof (cases "match_pat p v")
    case Trap
    with Cons.prems arm show ?thesis by simp
  next
    case Mismatch
    with Cons.prems arm have "match_arms arms v = Done (Some (bs, b))" by simp
    from Cons.IH [OF bs this] obtain t' ga gb where "match_target us' v = Some (bs, t')"
      "built [] b nxt ga t' gb" "part_of g1 ga gb g'" by blast
    with Mismatch arm later [of ga gb] show ?thesis by auto
  next
    case (Binds bs')
    with Cons.prems arm b first show ?thesis by auto
  qed
qed simp

section \<open>The runs of a body are runs of its graph\<close>

fun exits :: "ir_function list \<Rightarrow> 'w prim \<Rightarrow> basic_block list \<Rightarrow> (bid \<times> bid) list \<Rightarrow> bid \<Rightarrow> outcome \<Rightarrow> 'w \<Rightarrow> val \<Rightarrow> 'w \<Rightarrow> bool"
where
  "exits P pr C ctx nxt (Norm e ds) w v wn = reaches P pr C nxt e ds w v wn"
| "exits P pr C ctx nxt (Brk e ds) w v wn = (\<exists>h x c. ctx = (h, x) # c \<and> reaches P pr C x e ds w v wn)"
| "exits P pr C ctx nxt (Cont e ds) w v wn = (\<exists>h x c. ctx = (h, x) # c \<and> reaches P pr C h e ds w v wn)"
| "exits P pr C ctx nxt (Ret u) w v wn = (u = v \<and> w = wn)"

lemma exits_leaves: "leaves r \<Longrightarrow> exits P pr C ctx nxt r w v wn \<Longrightarrow> exits P pr C ctx b r w v wn"
  by (cases r) auto

text \<open>The graph of a loop, up to the block that jumps to its header.\<close>

definition loop_graph :: "basic_block list \<Rightarrow> block \<Rightarrow> block \<Rightarrow> bid \<Rightarrow> (bid \<times> bid) list \<Rightarrow> bid \<Rightarrow> bool" where
  "loop_graph C lb ss nxt ctx header \<longleftrightarrow>
     (\<exists>g exit g1 be g2. built [] ss nxt g exit g1 \<and> graph_of C (length (blocks g)) g1 \<and> loop_ctx g = ctx
        \<and> built [] lb header (push_loop header exit (add_block [] (Jump exit) g1)) be g2
        \<and> graph_of C (Suc (length (blocks g1))) g2
        \<and> header < length C \<and> bb_stmts (C ! header) = [] \<and> bb_term (C ! header) = Jump be)"

lemma loop_built:
  assumes "built simple (Stmt (Loop lb) l # ss) nxt g b g'" and "graph_of C (length (blocks g)) g'"
  obtains header where "loop_graph C lb ss nxt (loop_ctx g) header" "b < length C" "bb_stmts (C ! b) = simple"
    "bb_term (C ! b) = Jump header"
  using assms(1)
proof cases
  case (Simple)
  then show ?thesis by simp
next
  case (Awaiting task rb resume g1)
  then show ?thesis by (auto elim: awaitsE)
next
  case (Looping exit g1 header be g2)
  note b1 = built_bounds(1-4) [OF Looping(3)] and b2 = built_bounds(1-4) [OF Looping(5), simplified]
  note G = assms(2) [unfolded Looping(2)]
  have g1: "graph_of C (length (blocks g)) g1"
  proof (rule graph_of_part [OF G])
    fix i assume "length (blocks g) \<le> i" "i < length (blocks g1)"
    then show "bb_stmts (blocks (add_block simple (Jump header) (set_term header (Jump be) (pop_loop g2))) ! i) = bb_stmts (blocks g1 ! i)
        \<and> bb_term (blocks (add_block simple (Jump header) (set_term header (Jump be) (pop_loop g2))) ! i) = bb_term (blocks g1 ! i)"
      using b2 Looping(4) by (auto simp: nth_append)
  qed (use b1 b2 in auto)
  have g2: "graph_of C (Suc (length (blocks g1))) g2"
  proof (rule graph_of_part [OF G])
    fix i assume "Suc (length (blocks g1)) \<le> i" "i < length (blocks g2)"
    then show "bb_stmts (blocks (add_block simple (Jump header) (set_term header (Jump be) (pop_loop g2))) ! i) = bb_stmts (blocks g2 ! i)
        \<and> bb_term (blocks (add_block simple (Jump header) (set_term header (Jump be) (pop_loop g2))) ! i) = bb_term (blocks g2 ! i)"
      using b2 Looping(4) by (auto simp: nth_append)
  qed (use b1 b2 in auto)
  have h: "header < length C" "bb_stmts (C ! header) = []" "bb_term (C ! header) = Jump be"
    using G b1 b2 b2(4) [of header] Looping(4) by (auto simp: graph_of_def nth_append)
  have "loop_graph C lb ss nxt (loop_ctx g) header"
    unfolding loop_graph_def using Looping(3,5) g1 g2 h by blast
  then show ?thesis
    by (rule that) (use Looping b1 b2 graph_of_last [OF G] in auto)
qed

inductive_cases built_NilE: "built simple [] nxt g b g'"
  and built_LetE: "built simple (Stmt (Let x rv) l # ss) nxt g b g'"
  and built_DiscardE: "built simple (Stmt (Discard rv) l # ss) nxt g b g'"
  and built_PushDeferE: "built simple (Stmt (PushDefer a) l # ss) nxt g b g'"
  and built_ReturnE: "built simple (Stmt (Return a) l # ss) nxt g b g'"
  and built_IfE: "built simple (Stmt (If c t f) l # ss) nxt g b g'"
  and built_SwitchE: "built simple (Stmt (Switch c arms d) l # ss) nxt g b g'"
  and built_MatchE: "built simple (Stmt (Match c arms) l # ss) nxt g b g'"
  and built_LoopE: "built simple (Stmt (Loop lb) l # ss) nxt g b g'"
  and built_BreakE: "built simple (Stmt Break_stmt l # ss) nxt g b g'"
  and built_ContinueE: "built simple (Stmt Continue_stmt l # ss) nxt g b g'"

inductive_simps awaits_simps [simp]: "awaits (If c t f) task rb" "awaits (Switch c arms d) task rb"
  "awaits (Match c as) task rb" "awaits (Loop lb) task rb" "awaits Break_stmt task rb" "awaits Continue_stmt task rb"
  "awaits (Return a) task rb" "awaits (PushDefer a) task rb"

text \<open>
  \<open>simulated\<close>: wherever the block \<open>ss\<close> is built after statements \<open>simple\<close>, and the code around it
  goes on from its outcome, the graph goes on from the block built. \<open>resumed\<close>: the same from an
  outcome of the code before.
\<close>

definition simulated where
  "simulated P pr C e ds w ss r w1 \<longleftrightarrow>
     (\<forall>simple nxt g b g' e0 ds0 w0 v wn. built simple ss nxt g b g' \<longrightarrow> graph_of C (length (blocks g)) g' \<longrightarrow>
        runs_block P pr e0 ds0 w0 simple (Norm e ds) w \<longrightarrow> exits P pr C (loop_ctx g) nxt r w1 v wn \<longrightarrow>
        reaches P pr C b e0 ds0 w0 v wn)"

definition resumed where
  "resumed P pr C r1 w1 ss r w2 \<longleftrightarrow>
     (\<forall>nxt g b g' v wn. built [] ss nxt g b g' \<longrightarrow> graph_of C (length (blocks g)) g' \<longrightarrow>
        exits P pr C (loop_ctx g) nxt r w2 v wn \<longrightarrow> exits P pr C (loop_ctx g) b r1 w1 v wn)"

definition looping where
  "looping P pr C e ds w ss r w1 \<longleftrightarrow>
     (\<forall>lb l rest nxt ctx h v wn. ss = Stmt (Loop lb) l # rest \<longrightarrow> loop_graph C lb rest nxt ctx h \<longrightarrow>
        exits P pr C ctx nxt r w1 v wn \<longrightarrow> reaches P pr C h e ds w v wn)"

lemma simulatedD:
  "simulated P pr C e ds w ss r w1 \<Longrightarrow> built simple ss nxt g b g' \<Longrightarrow> graph_of C (length (blocks g)) g' \<Longrightarrow>
   runs_block P pr e0 ds0 w0 simple (Norm e ds) w \<Longrightarrow> exits P pr C (loop_ctx g) nxt r w1 v wn \<Longrightarrow>
   reaches P pr C b e0 ds0 w0 v wn"
  unfolding simulated_def by blast

lemma simulated_start:
  "simulated P pr C e ds w ss r w1 \<Longrightarrow> built [] ss nxt g b g' \<Longrightarrow> graph_of C (length (blocks g)) g' \<Longrightarrow>
   exits P pr C (loop_ctx g) nxt r w1 v wn \<Longrightarrow> reaches P pr C b e ds w v wn"
  by (rule simulatedD) auto

lemma resumedD:
  "resumed P pr C r1 w1 ss r w2 \<Longrightarrow> built [] ss nxt g b g' \<Longrightarrow> graph_of C (length (blocks g)) g' \<Longrightarrow>
   exits P pr C (loop_ctx g) nxt r w2 v wn \<Longrightarrow> exits P pr C (loop_ctx g) b r1 w1 v wn"
  unfolding resumed_def by blast

lemma loopingD:
  "looping P pr C e ds w (Stmt (Loop lb) l # rest) r w1 \<Longrightarrow> loop_graph C lb rest nxt ctx h \<Longrightarrow>
   exits P pr C ctx nxt r w1 v wn \<Longrightarrow> reaches P pr C h e ds w v wn"
  unfolding looping_def by blast

lemma evals_Await:
  "evals P pr e w (Await task) v w1 \<longleftrightarrow>
     (\<exists>tv. eval_atom e task = Some tv \<and> pr (Await task) [tv] w = Some (v, w1))"
  by (cases "eval_atom e task"; cases "pr (Await task) [the (eval_atom e task)] w")
    (auto simp: evals_def run_rv.simps dispatch_rv_def eval_prim_def)

text \<open>A statement that is collected, and one that suspends.\<close>

lemma simulated_simple:
  assumes b: "built (simple @ [Stmt k l]) ss nxt g b g'" and C: "graph_of C (length (blocks g)) g'"
    and p: "runs_block P pr e0 ds0 w0 simple (Norm e ds) w" and s: "runs P pr e ds w k (Norm e1 ds1) w1"
    and IH: "simulated P pr C e1 ds1 w1 ss r w2" and x: "exits P pr C (loop_ctx g) nxt r w2 v wn"
  shows "reaches P pr C b e0 ds0 w0 v wn"
proof -
  have "runs_block P pr e ds w [Stmt k l] (Norm e1 ds1) w1" using s by (intro runs_block_single) simp
  with p have "runs_block P pr e0 ds0 w0 (simple @ [Stmt k l]) (Norm e1 ds1) w1" by (rule runs_block_append)
  from simulatedD [OF IH b C this x] show ?thesis .
qed

lemma simulated_await:
  assumes b: "built [] ss nxt g resume g1"
    and C: "graph_of C (length (blocks g)) (add_block simple (Suspend task rb resume) (set_resume resume rb g1))"
    and p: "runs_block P pr e0 ds0 w0 simple (Norm e ds) w" and s: "evals P pr e w (Await task) v1 w1"
    and IH: "simulated P pr C (case rb of None \<Rightarrow> e | Some x \<Rightarrow> e(x \<mapsto> v1)) ds w1 ss r w2"
    and x: "exits P pr C (loop_ctx g) nxt r w2 v wn"
  shows "reaches P pr C (length (blocks g1)) e0 ds0 w0 v wn"
proof -
  note bd = built_bounds(1-4) [OF b]
  have g1: "graph_of C (length (blocks g)) g1"
    by (rule graph_of_part [OF C]) (auto simp: nth_append)
  have last: "length (blocks g1) < length C" "bb_stmts (C ! length (blocks g1)) = simple"
    "bb_term (C ! length (blocks g1)) = Suspend task rb resume"
    using graph_of_last [OF C] bd by auto
  from s have "term_step pr e w (Suspend task rb resume)
      = Some (resume, case rb of None \<Rightarrow> e | Some x \<Rightarrow> e(x \<mapsto> v1), w1)"
    by (auto simp: evals_Await)
  with last p simulated_start [OF IH b g1 x] show ?thesis by (auto intro: reach_step)
qed

text \<open>The block that branches, once the arm taken and its part of the graph are known.\<close>

lemma simulated_arm:
  assumes last: "b < length C" "bb_stmts (C ! b) = simple" "term_step pr e w (bb_term (C ! b)) = Some (t, e', w)"
    and p: "runs_block P pr e0 ds0 w0 simple (Norm e ds) w"
    and arm: "built [] bo join ga t gb" "graph_of C (length (blocks ga)) gb" "loop_ctx ga = loop_ctx g"
    and IH: "simulated P pr C e' ds w bo r1 w1" "resumed P pr C r1 w1 ss r w2"
    and rest: "built [] ss nxt g join g1" "graph_of C (length (blocks g)) g1"
    and x: "exits P pr C (loop_ctx g) nxt r w2 v wn"
  shows "reaches P pr C b e0 ds0 w0 v wn"
proof -
  have "exits P pr C (loop_ctx g) join r1 w1 v wn" by (rule resumedD [OF IH(2) rest x])
  then have "reaches P pr C t e' ds w v wn"
    using simulated_start [OF IH(1) arm(1,2)] arm(3) by simp
  with last p show ?thesis by (auto intro: reach_step)
qed

lemma simulated_If:
  assumes c: "eval_atom e c = Some (VBool b)"
    and IH: "simulated P pr C e ds w (if b then t else f) r1 w1" "resumed P pr C r1 w1 ss r w2"
  shows "simulated P pr C e ds w (Stmt (If c t f) l # ss) r w2"
  unfolding simulated_def
proof (intro allI impI, erule built_IfE)
  fix simple nxt g b0 g' e0 ds0 w0 v wn join g1 bt g2 be g3
  assume C: "graph_of C (length (blocks g)) g'" and p: "runs_block P pr e0 ds0 w0 simple (Norm e ds) w"
    and x: "exits P pr C (loop_ctx g) nxt r w2 v wn"
    and g': "b0 = length (blocks g3)" "g' = add_block simple (Branch c bt be) g3"
    and b: "built [] ss nxt g join g1" "built [] t join g1 bt g2" "built [] f join g2 be g3"
  note b1 = built_bounds(1-4) [OF b(1)] and b2 = built_bounds(1-4) [OF b(2)] and b3 = built_bounds(1-4) [OF b(3)]
  have C1: "graph_of C (length (blocks g)) g1" and C2: "graph_of C (length (blocks g1)) g2"
    and C3: "graph_of C (length (blocks g2)) g3"
    by (rule graph_of_part [OF C]; use g' b1 b2 b3 in \<open>auto simp: nth_append\<close>)+
  have last: "b0 < length C" "bb_stmts (C ! b0) = simple" "term_step pr e w (bb_term (C ! b0)) = Some (if b then bt else be, e, w)"
    using graph_of_last [OF C [unfolded g'(2)]] b1 b2 b3 c by (auto simp: g'(1))
  show "reaches P pr C b0 e0 ds0 w0 v wn"
  proof (cases b)
    case True
    with IH last show ?thesis
      by (intro simulated_arm [OF _ _ _ p b(2) C2 _ _ _ b(1) C1 x]) (use b1 in auto)
  next
    case False
    with IH last show ?thesis
      by (intro simulated_arm [OF _ _ _ p b(3) C3 _ _ _ b(1) C1 x]) (use b1 b2 in auto)
  qed
qed auto

lemma simulated_Switch:
  assumes c: "eval_atom e c = Some (VInt k)"
    and IH: "simulated P pr C e ds w (switch_arm arms d k) r1 w1" "resumed P pr C r1 w1 ss r w2"
  shows "simulated P pr C e ds w (Stmt (Switch c arms d) l # ss) r w2"
  unfolding simulated_def
proof (intro allI impI, erule built_SwitchE)
  fix simple nxt g b0 g' e0 ds0 w0 v wn join g1 ts g2 bd g3
  assume C: "graph_of C (length (blocks g)) g'" and p: "runs_block P pr e0 ds0 w0 simple (Norm e ds) w"
    and x: "exits P pr C (loop_ctx g) nxt r w2 v wn"
    and g': "b0 = length (blocks g3)" "g' = add_block simple (SwitchT c ts bd) g3"
    and b: "built [] ss nxt g join g1" "built_cases arms join g1 ts g2" "built [] d join g2 bd g3"
  note b1 = built_bounds(1-4) [OF b(1)] and b2 = built_bounds(5-7) [OF b(2)] and b3 = built_bounds(1-4) [OF b(3)]
  have C1: "graph_of C (length (blocks g)) g1" and C2: "graph_of C (length (blocks g1)) g2"
    and C3: "graph_of C (length (blocks g2)) g3"
    by (rule graph_of_part [OF C]; use g' b1 b2 b3 in \<open>auto simp: nth_append\<close>)+
  have last: "b0 < length C" "bb_stmts (C ! b0) = simple"
    "term_step pr e w (bb_term (C ! b0)) = Some (switch_target ts bd k, e, w)"
    using graph_of_last [OF C [unfolded g'(2)]] b1 b2 b3 c by (auto simp: g'(1))
  from cases_arm [OF b(2), of d k bd] show "reaches P pr C b0 e0 ds0 w0 v wn"
  proof
    assume "switch_arm arms d k = d \<and> switch_target ts bd k = bd"
    with IH last show ?thesis
      by (intro simulated_arm [OF _ _ _ p b(3) C3 _ _ _ b(1) C1 x]) (use b1 b2 in auto)
  next
    assume "\<exists>ga gb. built [] (switch_arm arms d k) join ga (switch_target ts bd k) gb \<and> part_of g1 ga gb g2"
    then obtain ga gb where a: "built [] (switch_arm arms d k) join ga (switch_target ts bd k) gb" "part_of g1 ga gb g2"
      by blast
    have "graph_of C (length (blocks ga)) gb" by (rule part_of_graph [OF C2 _ a(2)]) simp
    from simulated_arm [OF last p a(1) this _ IH b(1) C1 x] a(2) b1 show ?thesis by (simp add: part_of_def)
  qed
qed auto

lemma simulated_Match:
  assumes c: "eval_atom e c = Some v0" "match_arms arms v0 = Done (Some (bs, b))"
    and IH: "simulated P pr C (bind_all e bs) ds w b r1 w1" "resumed P pr C r1 w1 ss r w2"
  shows "simulated P pr C e ds w (Stmt (Match c arms) l # ss) r w2"
  unfolding simulated_def
proof (intro allI impI, erule built_MatchE)
  fix simple nxt g b0 g' e0 ds0 w0 v wn join g1 ts g2
  assume C: "graph_of C (length (blocks g)) g'" and p: "runs_block P pr e0 ds0 w0 simple (Norm e ds) w"
    and x: "exits P pr C (loop_ctx g) nxt r w2 v wn"
    and g': "b0 = length (blocks g2)" "g' = add_block simple (MatchT c ts) g2"
    and b: "built [] ss nxt g join g1" "built_arms arms join g1 ts g2"
  note b1 = built_bounds(1-4) [OF b(1)] and b2 = built_bounds(8-10) [OF b(2)]
  have C1: "graph_of C (length (blocks g)) g1" and C2: "graph_of C (length (blocks g1)) g2"
    by (rule graph_of_part [OF C]; use g' b1 b2 in \<open>auto simp: nth_append\<close>)+
  from arms_arm [OF b(2) c(2)] obtain t ga gb where a: "match_target ts v0 = Some (bs, t)"
    "built [] b join ga t gb" "part_of g1 ga gb g2" by blast
  have last: "b0 < length C" "bb_stmts (C ! b0) = simple"
    "term_step pr e w (bb_term (C ! b0)) = Some (t, bind_all e bs, w)"
    using graph_of_last [OF C [unfolded g'(2)]] b1 b2 c(1) a(1) by (auto simp: g'(1))
  have "graph_of C (length (blocks ga)) gb" by (rule part_of_graph [OF C2 _ a(3)]) simp
  from simulated_arm [OF last p a(2) this _ IH b(1) C1 x] a(3) b1 show "reaches P pr C b0 e0 ds0 w0 v wn"
    by (simp add: part_of_def)
qed auto

lemma simulated_Loop:
  assumes "looping P pr C e ds w (Stmt (Loop lb) l # ss) r w2"
  shows "simulated P pr C e ds w (Stmt (Loop lb) l # ss) r w2"
  unfolding simulated_def
proof (intro allI impI)
  fix simple nxt g b g' e0 ds0 w0 v wn
  assume b: "built simple (Stmt (Loop lb) l # ss) nxt g b g'" and C: "graph_of C (length (blocks g)) g'"
    and p: "runs_block P pr e0 ds0 w0 simple (Norm e ds) w" and x: "exits P pr C (loop_ctx g) nxt r w2 v wn"
  from loop_built [OF b C] obtain h where h: "loop_graph C lb ss nxt (loop_ctx g) h"
    "b < length C" "bb_stmts (C ! b) = simple" "bb_term (C ! b) = Jump h" .
  from loopingD [OF assms h(1) x] h p show "reaches P pr C b e0 ds0 w0 v wn" by (auto intro: reach_step)
qed

lemma looping_step:
  assumes lb: "simulated P pr C e ds w lb r1 w1"
    and next_round: "\<And>e1 ds1. r1 = Norm e1 ds1 \<or> r1 = Cont e1 ds1 \<Longrightarrow>
      looping P pr C e1 ds1 w1 (Stmt (Loop lb) l # ss) r w2"
    and after: "\<And>e1 ds1. r1 = Brk e1 ds1 \<Longrightarrow> simulated P pr C e1 ds1 w1 ss r w2"
    and ret: "\<And>v. r1 = Ret v \<Longrightarrow> r = Ret v \<and> w2 = w1"
  shows "looping P pr C e ds w (Stmt (Loop lb) l # ss) r w2"
  unfolding looping_def
proof (intro allI impI)
  fix lb' l' rest nxt ctx h v wn
  assume eq: "Stmt (Loop lb) l # ss = Stmt (Loop lb') l' # rest" and G: "loop_graph C lb' rest nxt ctx h"
    and x: "exits P pr C ctx nxt r w2 v wn"
  from eq have eq: "lb' = lb" "rest = ss" by auto
  from G obtain g exit g1 be g2 where g: "built [] ss nxt g exit g1" "graph_of C (length (blocks g)) g1" "loop_ctx g = ctx"
    "built [] lb h (push_loop h exit (add_block [] (Jump exit) g1)) be g2" "graph_of C (Suc (length (blocks g1))) g2"
    and h: "h < length C" "bb_stmts (C ! h) = []" "bb_term (C ! h) = Jump be"
    by (auto simp: loop_graph_def eq)
  note b1 = built_bounds(1-4) [OF g(1)]
  have "exits P pr C ((h, exit) # loop_ctx g1) h r1 w1 v wn"
  proof (cases r1)
    case (Norm e1 ds1)
    with loopingD [OF next_round G [unfolded eq] x] show ?thesis by simp
  next
    case (Cont e1 ds1)
    with loopingD [OF next_round G [unfolded eq] x] show ?thesis by simp
  next
    case (Brk e1 ds1)
    with simulated_start [OF after g(1,2)] x g(3) show ?thesis by simp
  next
    case (Ret v1)
    with ret x show ?thesis by simp
  qed
  then have "reaches P pr C be e ds w v wn" using simulated_start [OF lb g(4)] g(5) by simp
  with h show "reaches P pr C h e ds w v wn" by (auto intro!: reach_step [of h])
qed

lemma reach_last:
  assumes "graph_of C (length (blocks g)) (add_block simple u g)"
    and "runs_block P pr e0 ds0 w0 simple (Norm e ds) w" and "term_step pr e w u = Some (t, e2, w2)"
    and "reaches P pr C t e2 ds w2 v wn"
  shows "reaches P pr C (length (blocks g)) e0 ds0 w0 v wn"
proof -
  note l = graph_of_last [OF assms(1) order_refl]
  show ?thesis by (rule reach_step [OF l(1) _ _ assms(4)]) (use l assms in auto)
qed

lemma return_last:
  assumes "graph_of C (length (blocks g)) (add_block simple (ReturnT a) g)"
    and "runs_block P pr e0 ds0 w0 simple (Norm e ds) w" and "eval_atom e a = Some v" "runs_defers P pr w ds wn"
  shows "reaches P pr C (length (blocks g)) e0 ds0 w0 v wn"
proof -
  note l = graph_of_last [OF assms(1) order_refl]
  show ?thesis by (rule reach_ret [OF l(1) _ l(3) assms(3,4)]) (use l assms in auto)
qed

lemma build_reaches:
  "arun P pr e ds w ss r w1 \<Longrightarrow> simulated P pr C e ds w ss r w1 \<and> looping P pr C e ds w ss r w1"
  "athen P pr r1 w1 ss r w2 \<Longrightarrow> resumed P pr C r1 w1 ss r w2"
proof (induction rule: arun_athen.inducts)
  case (arun_Nil e ds w)
  have "simulated P pr C e ds w [] (Norm e ds) w"
    unfolding simulated_def
    by (auto elim!: built_NilE intro: reach_last)
  then show ?case by (simp add: looping_def)
next
  case (arun_Let e w rv v1 w1 x ds ss r w2 l)
  then have IH: "simulated P pr C (e(x \<mapsto> v1)) ds w1 ss r w2" by blast
  have "simulated P pr C e ds w (Stmt (Let x rv) l # ss) r w2"
    unfolding simulated_def
  proof (intro allI impI, erule built_LetE, goal_cases)
    case (1 simple nxt g b g' e0 ds0 w0 v wn)
    from simulated_simple [OF 1(5,1,2) runs_Let [OF arun_Let(1)] IH 1(3)] show ?case .
  next
    case (2 simple nxt g b g' e0 ds0 w0 v wn task rb resume g1)
    then have a: "rv = Await task" "rb = Some x" by (auto elim: awaitsE)
    from simulated_await [OF 2(7) 2(1) [unfolded 2(5)] 2(2) arun_Let(1) [unfolded a(1)] _ 2(3)] IH a 2(4)
    show ?case by simp
  qed
  then show ?case by (simp add: looping_def)
next
  case (arun_Discard e w rv v1 w1 ds ss r w2 l)
  then have IH: "simulated P pr C e ds w1 ss r w2" by simp
  have "simulated P pr C e ds w (Stmt (Discard rv) l # ss) r w2"
    unfolding simulated_def
  proof (intro allI impI, erule built_DiscardE, goal_cases)
    case (1 simple nxt g b g' e0 ds0 w0 v wn)
    from simulated_simple [OF 1(5,1,2) runs_Discard [OF arun_Discard(1)] IH 1(3)] show ?case .
  next
    case (2 simple nxt g b g' e0 ds0 w0 v wn task rb resume g1)
    then have a: "rv = Await task" "rb = None" by (auto elim: awaitsE)
    from simulated_await [OF 2(7) 2(1) [unfolded 2(5)] 2(2) arun_Discard(1) [unfolded a(1)] _ 2(3)] IH a 2(4)
    show ?case by simp
  qed
  then show ?case by (simp add: looping_def)
next
  case (arun_PushDefer e a d ds w ss r w2 l)
  then have IH: "simulated P pr C e (d # ds) w ss r w2" by simp
  have "simulated P pr C e ds w (Stmt (PushDefer a) l # ss) r w2"
    unfolding simulated_def
  proof (intro allI impI, erule built_PushDeferE, goal_cases)
    case (1 simple nxt g b g' e0 ds0 w0 v wn)
    from simulated_simple [OF 1(5,1,2) runs_PushDefer [OF arun_PushDefer(1)] IH 1(3)] show ?case .
  qed (auto elim: awaitsE)
  then show ?case by (simp add: looping_def)
next
  case (arun_Return e a v w ds w2 l ss)
  then have "simulated P pr C e ds w (Stmt (Return a) l # ss) (Ret v) w2"
    unfolding simulated_def
    by (auto elim!: built_ReturnE intro: return_last)
  then show ?case by (simp add: looping_def)
next
  case (arun_Break e ds w l ss)
  have "simulated P pr C e ds w (Stmt Break_stmt l # ss) (Brk e ds) w"
    unfolding simulated_def
    by (auto elim!: built_BreakE intro: reach_last)
  then show ?case by (simp add: looping_def)
next
  case (arun_Continue e ds w l ss)
  have "simulated P pr C e ds w (Stmt Continue_stmt l # ss) (Cont e ds) w"
    unfolding simulated_def
    by (auto elim!: built_ContinueE intro: reach_last)
  then show ?case by (simp add: looping_def)
next
  case (arun_Loop_next e ds w lb r1 w1 e1 ds1 l ss r w2)
  then have IH: "simulated P pr C e ds w lb r1 w1" "looping P pr C e1 ds1 w1 (Stmt (Loop lb) l # ss) r w2"
    and r1: "r1 = Norm e1 ds1 \<or> r1 = Cont e1 ds1" by blast+
  have "looping P pr C e ds w (Stmt (Loop lb) l # ss) r w2"
    by (rule looping_step [OF IH(1)]) (use r1 IH(2) in auto)
  then show ?case by (simp add: simulated_Loop)
next
  case (arun_Loop_break e ds w lb e1 ds1 w1 ss r w2 l)
  then have IH: "simulated P pr C e ds w lb (Brk e1 ds1) w1" "simulated P pr C e1 ds1 w1 ss r w2" by blast+
  have "looping P pr C e ds w (Stmt (Loop lb) l # ss) r w2" by (rule looping_step [OF IH(1)]) (use IH(2) in auto)
  then show ?case by (simp add: simulated_Loop)
next
  case (arun_Loop_return e ds w lb v w1 l ss)
  then have IH: "simulated P pr C e ds w lb (Ret v) w1" by blast
  have "looping P pr C e ds w (Stmt (Loop lb) l # ss) (Ret v) w1" by (rule looping_step [OF IH]) auto
  then show ?case by (simp add: simulated_Loop)
next
  case (athen_Norm e ds w ss r w2)
  then show ?case by (auto simp: resumed_def intro: simulated_start)
next
  case (athen_leaves r w ss)
  then show ?case by (auto simp: resumed_def intro: exits_leaves)
qed (auto simp: looping_def intro: simulated_If simulated_Switch simulated_Match)

end
