(* ===== verification/CpsFlow.thy ===== *)
theory CpsFlow
  imports CpsBuild
begin

text \<open>
  What holds of every block of the graph of a body: its variables are those of the body, and,
  where the body is definitely assigned, sets of assigned variables that every edge respects.
\<close>

section \<open>Regions of blocks\<close>

definition region :: "(basic_block \<Rightarrow> bool) \<Rightarrow> nat \<Rightarrow> basic_block list \<Rightarrow> bool" where
  "region Q n bs \<longleftrightarrow> (\<forall>i. n \<le> i \<and> i < length bs \<longrightarrow> Q (bs ! i))"

lemma region_join:
  assumes "region Q n bs" and "region Q (length bs) cs" and "\<And>i. i < length bs \<Longrightarrow> cs ! i = bs ! i"
  shows "region Q n cs"
  unfolding region_def
proof (intro allI impI)
  fix i assume "n \<le> i \<and> i < length cs"
  with assms show "Q (cs ! i)" by (cases "i < length bs") (auto simp: region_def)
qed

lemma region_add: "region Q n bs \<Longrightarrow> Q bb \<Longrightarrow> region Q n (bs @ [bb])"
  by (auto simp: region_def nth_append less_Suc_eq)

lemma region_update: "region Q n bs \<Longrightarrow> Q bb \<Longrightarrow> region Q n (bs[b := bb])"
  by (cases "b < length bs") (auto simp: region_def nth_list_update list_update_beyond)

lemma region_empty [simp]: "region Q (length bs) bs"
  by (auto simp: region_def)

section \<open>Variables\<close>

text \<open>A block that reads variables of \<open>V\<close>, binds variables of \<open>B\<close>, and pushes cleanups only if \<open>D\<close>.\<close>

definition stmt_within :: "var_id set \<Rightarrow> var_id set \<Rightarrow> bool \<Rightarrow> stmt \<Rightarrow> bool" where
  "stmt_within V B D s \<longleftrightarrow> simple_kind (kind s) \<and> collect_stmt_reads (kind s) \<subseteq> V
     \<and> collect_stmt_binds (kind s) \<subseteq> B \<and> (stmt_has_defer (kind s) \<longrightarrow> D)"

fun edge_binds :: "bterm \<Rightarrow> var_id set" where
  "edge_binds (Suspend task (Some v) t) = {v}"
| "edge_binds t = term_binds t"

definition block_within :: "var_id set \<Rightarrow> var_id set \<Rightarrow> bool \<Rightarrow> basic_block \<Rightarrow> bool" where
  "block_within V B D bb \<longleftrightarrow> (\<forall>s \<in> set (bb_stmts bb). stmt_within V B D s)
     \<and> term_reads (bb_term bb) \<subseteq> V \<and> edge_binds (bb_term bb) \<subseteq> B \<and> resume_binds bb \<subseteq> B"

lemma block_within_add:
  "\<forall>s \<in> set ss. stmt_within V B D s \<Longrightarrow> term_reads t \<subseteq> V \<Longrightarrow> edge_binds t \<subseteq> B \<Longrightarrow>
   block_within V B D \<lparr>bb_stmts = ss, bb_term = t, resume_bind = None\<rparr>"
  by (simp add: block_within_def resume_binds_def)

lemma arms_binds_within:
  "built_arms as nxt g us g' \<Longrightarrow> collect_arms_binds as \<subseteq> B \<Longrightarrow> (p, t) \<in> set us \<Longrightarrow> collect_pattern_binds p \<subseteq> B"
proof (induction as arbitrary: g us)
  case Nil
  then show ?case by (auto elim: built_arms.cases)
next
  case (Cons arm as)
  from Cons.prems(1) obtain q b u g1 us' where "arm = MatchArm q b" "us = (q, u) # us'" "built_arms as nxt g1 us' g'"
    by (auto elim: built_arms.cases)
  with Cons show ?case by auto
qed

lemma awaits_reads: "awaits k task rb \<Longrightarrow> collect_stmt_reads k = collect_atom task \<and> collect_stmt_binds k = set_option rb"
  by (auto elim!: awaitsE)

lemma built_within:
  "built simple ss nxt g b g' \<Longrightarrow> \<forall>s \<in> set simple. stmt_within V B D s \<Longrightarrow> collect_block_reads ss \<subseteq> V \<Longrightarrow>
     collect_block_binds ss \<subseteq> B \<Longrightarrow> block_has_defer ss \<longrightarrow> D \<Longrightarrow>
     region (block_within V B D) (length (blocks g)) (blocks g')"
  "built_cases cs nxt g ts g' \<Longrightarrow> collect_cases_reads cs \<subseteq> V \<Longrightarrow> collect_cases_binds cs \<subseteq> B \<Longrightarrow>
     cases_have_defer cs \<longrightarrow> D \<Longrightarrow> region (block_within V B D) (length (blocks g)) (blocks g')"
  "built_arms as nxt g us g' \<Longrightarrow> collect_arms_reads as \<subseteq> V \<Longrightarrow> collect_arms_binds as \<subseteq> B \<Longrightarrow>
     arms_have_defer as \<longrightarrow> D \<Longrightarrow> region (block_within V B D) (length (blocks g)) (blocks g')"
proof (induction rule: built_induct)
  case (Simple k simple r rest nxt g b g')
  then show ?case by (auto simp: stmt_within_def)
next
  case (Awaiting k task rb rest nxt g resume g1 simple r)
  note a = awaits_reads [OF Awaiting.hyps(1)] and b = built_bounds(1-4) [OF Awaiting.hyps(2)]
  have IH: "region (block_within V B D) (length (blocks g)) (blocks g1)" using Awaiting by simp
  then have "block_within V B D (blocks g1 ! resume)" using b by (simp add: region_def)
  then have "block_within V B D ((blocks g1 ! resume)\<lparr>resume_bind := Some rb\<rparr>)"
    using a Awaiting.prems by (cases rb) (auto simp: block_within_def resume_binds_def)
  with IH a Awaiting.prems show ?case
    by (cases rb) (auto intro!: region_add region_update block_within_add)
next
  case (Branching rest nxt g join g1 t bt g2 e be g3 simple c r)
  note b2 = built_bounds(1-4) [OF Branching.hyps(2)] and b3 = built_bounds(1-4) [OF Branching.hyps(3)]
  have r: "region (block_within V B D) (length (blocks g)) (blocks g1)"
    "region (block_within V B D) (length (blocks g1)) (blocks g2)"
    "region (block_within V B D) (length (blocks g2)) (blocks g3)"
    using Branching.IH Branching.prems by simp_all
  have "region (block_within V B D) (length (blocks g)) (blocks g3)"
    by (rule region_join [OF region_join [OF r(1,2) b2(4)] r(3) b3(4)])
  with Branching.prems show ?case by (auto intro!: region_add block_within_add)
next
  case (Switching rest nxt g join g1 arms ts g2 d bd g3 simple c r)
  note b2 = built_bounds(5-7) [OF Switching.hyps(2)] and b3 = built_bounds(1-4) [OF Switching.hyps(3)]
  have r: "region (block_within V B D) (length (blocks g)) (blocks g1)"
    "region (block_within V B D) (length (blocks g1)) (blocks g2)"
    "region (block_within V B D) (length (blocks g2)) (blocks g3)"
    using Switching.IH Switching.prems by simp_all
  have "region (block_within V B D) (length (blocks g)) (blocks g3)"
    by (rule region_join [OF region_join [OF r(1,2) b2(3)] r(3) b3(4)])
  with Switching.prems show ?case by (auto intro!: region_add block_within_add)
next
  case (Matching rest nxt g join g1 arms ts g2 simple c r)
  note b2 = built_bounds(8-10) [OF Matching.hyps(2)]
  have r: "region (block_within V B D) (length (blocks g)) (blocks g1)"
    "region (block_within V B D) (length (blocks g1)) (blocks g2)"
    using Matching.IH Matching.prems by simp_all
  have "region (block_within V B D) (length (blocks g)) (blocks g2)"
    by (rule region_join [OF r b2(3)])
  moreover have "edge_binds (MatchT c ts) \<subseteq> B"
    using arms_binds_within [OF Matching.hyps(2)] Matching.prems by fastforce
  ultimately show ?case using Matching.prems by (auto intro!: region_add block_within_add)
next
  case (Looping rest nxt g exit g1 header lb be g2 simple r)
  have w: "block_within V B D \<lparr>bb_stmts = [], bb_term = u, resume_bind = None\<rparr>" if "term_reads u = {}" "edge_binds u = {}" for u
    using that by (intro block_within_add) auto
  note b2 = built_bounds(1-4) [OF Looping.hyps(3), simplified]
  have hb: "blocks g2 ! header = \<lparr>bb_stmts = [], bb_term = Jump exit, resume_bind = None\<rparr>"
    using b2(4) [of header] Looping.hyps(2) by (simp add: nth_append)
  have "region (block_within V B D) (length (blocks g)) (blocks (add_block [] (Jump exit) g1))"
    using Looping w by (auto intro!: region_add)
  then have "region (block_within V B D) (length (blocks g)) (blocks g2)"
    by (rule region_join) (use Looping b2 in auto)
  with Looping.prems w [of "Jump be"] hb show ?case by (auto intro!: region_add region_update block_within_add)
next
  case (Cases b nxt g t g1 arms ts g2 k)
  have r: "region (block_within V B D) (length (blocks g)) (blocks g1)"
    "region (block_within V B D) (length (blocks g1)) (blocks g2)"
    using Cases.IH Cases.prems by simp_all
  show ?case by (rule region_join [OF r built_bounds(7) [OF Cases.hyps(2)]])
next
  case (Arms b nxt g t g1 arms ts g2 p)
  have r: "region (block_within V B D) (length (blocks g)) (blocks g1)"
    "region (block_within V B D) (length (blocks g1)) (blocks g2)"
    using Arms.IH Arms.prems by simp_all
  show ?case by (rule region_join [OF r built_bounds(10) [OF Arms.hyps(2)]])
qed (auto intro!: region_add block_within_add)

section \<open>Assigned variables\<close>

text \<open>The variables bound by \<open>Let\<close> in a list of simple statements, and the reads there.\<close>

definition lets :: "block \<Rightarrow> var_id set" where
  "lets ss = (\<Union>s \<in> set ss. collect_stmt_binds (kind s))"

fun reads_ok :: "var_id set \<Rightarrow> block \<Rightarrow> bool" where
  "reads_ok A [] = True"
| "reads_ok A (s # ss) = (collect_stmt_reads (kind s) \<subseteq> A \<and> reads_ok (A \<union> collect_stmt_binds (kind s)) ss)"

lemma lets_simps [simp]: "lets [] = {}" "lets (s # ss) = collect_stmt_binds (kind s) \<union> lets ss"
  "lets (xs @ ys) = lets xs \<union> lets ys"
  by (auto simp: lets_def)

lemma reads_ok_snoc: "reads_ok A (ss @ [s]) \<longleftrightarrow> reads_ok A ss \<and> collect_stmt_reads (kind s) \<subseteq> A \<union> lets ss"
  by (induction ss arbitrary: A) (auto simp: Un_assoc)

fun term_flow :: "(bid \<Rightarrow> var_id set) \<Rightarrow> var_id set \<Rightarrow> bterm \<Rightarrow> bool" where
  "term_flow T A (MatchT c arms) \<longleftrightarrow> collect_atom c \<subseteq> A \<and> apart (map (\<lambda>a. collect_pattern_binds (fst a)) arms)
     \<and> (\<forall>a \<in> set arms. A \<inter> collect_pattern_binds (fst a) = {} \<and> T (snd a) \<subseteq> A \<union> collect_pattern_binds (fst a))"
| "term_flow T A (Suspend task rb t) \<longleftrightarrow> collect_atom task \<subseteq> A \<and> T t \<subseteq> A \<union> set_option rb"
| "term_flow T A u \<longleftrightarrow> term_reads u \<subseteq> A \<and> (\<forall>t \<in> set (term_successors u). T t \<subseteq> A)"

definition flow_ok :: "(bid \<Rightarrow> var_id set) \<Rightarrow> var_id set \<Rightarrow> basic_block \<Rightarrow> bool" where
  "flow_ok T A bb \<longleftrightarrow> reads_ok A (bb_stmts bb) \<and> term_flow T (A \<union> lets (bb_stmts bb)) (bb_term bb)"

lemma term_flow_cong: "(\<And>t. t \<in> set (term_successors u) \<Longrightarrow> T t = T' t) \<Longrightarrow> term_flow T A u = term_flow T' A u"
  by (cases u) auto

text \<open>A certificate for the blocks from \<open>n\<close> on, and how one is extended.\<close>

definition certified :: "(bid \<Rightarrow> var_id set) \<Rightarrow> nat \<Rightarrow> basic_block list \<Rightarrow> bool" where
  "certified T n bs \<longleftrightarrow> (\<forall>i. n \<le> i \<and> i < length bs \<longrightarrow>
     flow_ok T (T i) (bs ! i) \<and> (\<forall>t \<in> set (term_successors (bb_term (bs ! i))). t < length bs))"

lemma certified_join:
  assumes "certified T n bs" and "certified T' (length bs) cs" and "\<And>i. i < length bs \<Longrightarrow> cs ! i = bs ! i"
    and "\<And>i. i < length bs \<Longrightarrow> T' i = T i" and "length bs \<le> length cs"
  shows "certified T' n cs"
  unfolding certified_def
proof (intro allI impI)
  fix i assume i: "n \<le> i \<and> i < length cs"
  show "flow_ok T' (T' i) (cs ! i) \<and> (\<forall>t \<in> set (term_successors (bb_term (cs ! i))). t < length cs)"
  proof (cases "i < length bs")
    case True
    with assms(1) i have f: "flow_ok T (T i) (bs ! i)" "\<forall>t \<in> set (term_successors (bb_term (bs ! i))). t < length bs"
      by (auto simp: certified_def)
    with assms(4) have "term_flow T' A (bb_term (bs ! i)) = term_flow T A (bb_term (bs ! i))" for A
      by (intro term_flow_cong) auto
    with f True assms(3-5) show ?thesis by (auto simp: flow_ok_def intro: less_le_trans)
  next
    case False
    then have "length bs \<le> i" by simp
    with assms(2) i show ?thesis unfolding certified_def by blast
  qed
qed

lemma certified_add:
  assumes c: "certified T n bs" and f: "reads_ok A ss" "term_flow T (A \<union> lets ss) u"
    and t: "\<And>t. t \<in> set (term_successors u) \<Longrightarrow> t < length bs"
  shows "certified (T(length bs := A)) n (bs @ [\<lparr>bb_stmts = ss, bb_term = u, resume_bind = None\<rparr>])"
proof (rule certified_join [OF c])
  have "term_flow (T(length bs := A)) (A \<union> lets ss) u = term_flow T (A \<union> lets ss) u"
    using t by (intro term_flow_cong) fastforce
  with f t show "certified (T(length bs := A)) (length bs) (bs @ [\<lparr>bb_stmts = ss, bb_term = u, resume_bind = None\<rparr>])"
    by (fastforce simp: certified_def flow_ok_def nth_append less_Suc_eq)
qed (auto simp: nth_append)

lemma certified_resume: "certified T n bs \<Longrightarrow> certified T n (bs[b := (bs ! b)\<lparr>resume_bind := rb\<rparr>])"
  by (simp add: certified_def flow_ok_def)

definition targets_ok :: "(bid \<Rightarrow> var_id set) \<Rightarrow> bid \<Rightarrow> cfg \<Rightarrow> var_id set \<Rightarrow> var_id set \<Rightarrow> var_id set \<Rightarrow> bool" where
  "targets_ok T nxt g N B K \<longleftrightarrow> T nxt \<subseteq> N \<and> nxt < length (blocks g)
     \<and> (\<forall>h x c. loop_ctx g = (h, x) # c \<longrightarrow> T h \<subseteq> K \<and> T x \<subseteq> B \<and> h < length (blocks g) \<and> x < length (blocks g))"

lemma targets_ok_later:
  assumes "targets_ok T nxt g N B K" and "length (blocks g) \<le> length (blocks g1)" and "loop_ctx g1 = loop_ctx g"
    and "\<And>i. i < length (blocks g) \<Longrightarrow> T1 i = T i" and "T1 join \<subseteq> J" and "join < length (blocks g1)"
  shows "targets_ok T1 join g1 J B K"
  using assms by (fastforce simp: targets_ok_def)

definition certifies :: "(bid \<Rightarrow> var_id set) \<Rightarrow> cfg \<Rightarrow> (bid \<Rightarrow> var_id set) \<Rightarrow> cfg \<Rightarrow> bool" where
  "certifies T g T' g' \<longleftrightarrow> (\<forall>i < length (blocks g). T' i = T i) \<and> certified T' (length (blocks g)) (blocks g')"

lemma certifies_join:
  assumes "certifies T g T1 g1" and "certifies T1 g1 T2 g2"
    and "\<And>i. i < length (blocks g1) \<Longrightarrow> blocks g2 ! i = blocks g1 ! i"
    and "length (blocks g) \<le> length (blocks g1)" "length (blocks g1) \<le> length (blocks g2)"
  shows "certifies T g T2 g2"
  using assms certified_join [of T1 "length (blocks g)" "blocks g1" T2 "blocks g2"]
  by (auto simp: certifies_def)

lemma certifies_add:
  assumes "certifies T g T1 g1" and "length (blocks g) \<le> length (blocks g1)" and "reads_ok A ss"
    and "term_flow T1 (A \<union> lets ss) u" and "\<And>t. t \<in> set (term_successors u) \<Longrightarrow> t < length (blocks g1)"
  shows "certifies T g (T1(length (blocks g1) := A)) (add_block ss u g1)"
  using assms certified_add [of T1 "length (blocks g)" "blocks g1" A ss u] by (auto simp: certifies_def)

definition arms_certified :: "(bid \<Rightarrow> var_id set) \<Rightarrow> var_id set \<Rightarrow> match_arm list \<Rightarrow> (pattern \<times> bid) list \<Rightarrow> bool" where
  "arms_certified T A as us \<longleftrightarrow>
     list_all2 (\<lambda>a u. fst u = arm_pattern a \<and> T (snd u) = A \<union> collect_pattern_binds (fst u)) as us"

lemma arms_certified_flow:
  assumes "arms_certified T A as us"
    and "\<forall>a \<in> set as. A \<inter> collect_pattern_binds (arm_pattern a) = {}"
    and "apart (map (\<lambda>a. collect_pattern_binds (arm_pattern a)) as)" and "collect_atom c \<subseteq> A"
  shows "term_flow T A (MatchT c us)"
proof -
  have l: "length us = length as" using assms(1) by (simp add: arms_certified_def list_all2_lengthD)
  have u: "fst (us ! i) = arm_pattern (as ! i)" "T (snd (us ! i)) = A \<union> collect_pattern_binds (fst (us ! i))"
    if "i < length as" for i
    using assms(1) that by (auto simp: arms_certified_def list_all2_conv_all_nth)
  then have m: "map (\<lambda>a. collect_pattern_binds (fst a)) us = map (\<lambda>a. collect_pattern_binds (arm_pattern a)) as"
    using l by (auto intro: nth_equalityI)
  have "A \<inter> collect_pattern_binds (fst a) = {} \<and> T (snd a) \<subseteq> A \<union> collect_pattern_binds (fst a)" if "a \<in> set us" for a
  proof -
    from that obtain i where i: "i < length as" "a = us ! i" using l by (auto simp: in_set_conv_nth)
    with assms(2) have "A \<inter> collect_pattern_binds (arm_pattern (as ! i)) = {}" by simp
    with i u show ?thesis by auto
  qed
  with m assms(3,4) show ?thesis by simp
qed

lemma built_certified:
  "built simple ss nxt g b g' \<Longrightarrow> reads_ok A0 simple \<Longrightarrow> da (A0 \<union> lets simple) ss N B K \<Longrightarrow>
     targets_ok T nxt g N B K \<Longrightarrow> \<exists>T'. certifies T g T' g' \<and> T' b = A0"
  "built_cases cs nxt g ts g' \<Longrightarrow> \<forall>arm \<in> set cs. da A1 (snd arm) N B K \<Longrightarrow> targets_ok T nxt g N B K \<Longrightarrow>
     \<exists>T'. certifies T g T' g' \<and> (\<forall>t \<in> snd ` set ts. T' t = A1 \<and> t < length (blocks g'))"
  "built_arms as nxt g us g' \<Longrightarrow>
     \<forall>arm \<in> set as. da (A1 \<union> collect_pattern_binds (arm_pattern arm)) (arm_body arm) N B K \<Longrightarrow>
     targets_ok T nxt g N B K \<Longrightarrow>
     \<exists>T'. certifies T g T' g' \<and> arms_certified T' A1 as us \<and> (\<forall>t \<in> snd ` set us. t < length (blocks g'))"
proof (induction arbitrary: A0 N B K T and A1 N B K T and A1 N B K T rule: built_induct)
  case (End simple nxt g)
  then have "N \<subseteq> A0 \<union> lets simple" by (auto elim: da_NilE)
  with End have "certifies T g (T(length (blocks g) := A0)) (add_block simple (Jump nxt) g)"
    by (intro certifies_add) (auto simp: certifies_def certified_def targets_ok_def)
  then show ?case by (metis fun_upd_same)
next
  case (Simple k simple r rest nxt g b g')
  have d: "collect_stmt_reads k \<subseteq> A0 \<union> lets simple" "da (A0 \<union> lets simple \<union> collect_stmt_binds k) rest N B K"
    using Simple.prems(2) Simple.hyps(1)
    by (cases k; auto elim!: da_LetE da_DiscardE da_PushDeferE)+
  then show ?case
    using Simple.prems by (intro Simple.IH) (auto simp: reads_ok_snoc Un_assoc)
next
  case (Awaiting k task rb rest nxt g resume g1 simple r)
  have d: "collect_atom task \<subseteq> A0 \<union> lets simple" "da (A0 \<union> lets simple \<union> set_option rb) rest N B K"
    using Awaiting.prems(2) Awaiting.hyps(1) by (auto elim!: awaitsE da_LetE da_DiscardE)
  from Awaiting.IH [of "A0 \<union> lets simple \<union> set_option rb" N B K T] d Awaiting.prems
  obtain T' where T': "certifies T g T' g1" "T' resume = A0 \<union> lets simple \<union> set_option rb" by auto
  note b1 = built_bounds(1-4) [OF Awaiting.hyps(2)]
  have "certifies T g T' (set_resume resume rb g1)"
    using T'(1) by (simp add: certifies_def certified_resume)
  then have "certifies T g (T'(length (blocks g1) := A0)) (add_block simple (Suspend task rb resume) (set_resume resume rb g1))"
    using certifies_add [of T g T' "set_resume resume rb g1" A0 simple "Suspend task rb resume"] T'(2) d(1) b1 Awaiting.prems(1)
    by simp
  then show ?case by (metis fun_upd_same)
next
  case (Returning simple a r rest nxt g)
  then have "collect_atom a \<subseteq> A0 \<union> lets simple" by (auto elim: da_ReturnE)
  with Returning have "certifies T g (T(length (blocks g) := A0)) (add_block simple (ReturnT a) g)"
    by (intro certifies_add) (auto simp: certifies_def certified_def)
  then show ?case by (metis fun_upd_same)
next
  case (Breaking g header exit ctx simple r rest nxt)
  then have "B \<subseteq> A0 \<union> lets simple" by (auto elim: da_BreakE)
  with Breaking have "certifies T g (T(length (blocks g) := A0)) (add_block simple (Jump exit) g)"
    by (intro certifies_add) (auto simp: certifies_def certified_def targets_ok_def)
  then show ?case by (metis fun_upd_same)
next
  case (Continuing g header exit ctx simple r rest nxt)
  then have "K \<subseteq> A0 \<union> lets simple" by (auto elim: da_ContinueE)
  with Continuing have "certifies T g (T(length (blocks g) := A0)) (add_block simple (Jump header) g)"
    by (intro certifies_add) (auto simp: certifies_def certified_def targets_ok_def)
  then show ?case by (metis fun_upd_same)
next
  case (Branching rest nxt g join g1 t bt g2 e be g3 simple c r)
  let ?A = "A0 \<union> lets simple"
  from Branching.prems(2) obtain J where d: "collect_atom c \<subseteq> ?A" "da ?A t J B K" "da ?A e J B K" "da J rest N B K"
    by (auto elim: da_IfE)
  note b1 = built_bounds(1-4) [OF Branching.hyps(1)] and b2 = built_bounds(1-4) [OF Branching.hyps(2)]
    and b3 = built_bounds(1-4) [OF Branching.hyps(3)]
  from Branching.IH(1) [of J N B K T] d Branching.prems obtain T1 where T1: "certifies T g T1 g1" "T1 join = J" by auto
  have t1: "targets_ok T1 join g1 J B K"
    by (rule targets_ok_later [OF Branching.prems(3)]) (use T1 b1 in \<open>auto simp: certifies_def\<close>)
  from Branching.IH(2) [of ?A J B K T1] d t1 obtain T2 where T2: "certifies T1 g1 T2 g2" "T2 bt = ?A" by auto
  have t2: "targets_ok T2 join g2 J B K"
    by (rule targets_ok_later [OF t1]) (use T1 T2 b1 b2 in \<open>auto simp: certifies_def\<close>)
  from Branching.IH(3) [of ?A J B K T2] d t2 obtain T3 where T3: "certifies T2 g2 T3 g3" "T3 be = ?A" by auto
  have "certifies T g T3 g3"
    by (rule certifies_join [OF certifies_join [OF T1(1) T2(1)] T3(1)]) (use b1 b2 b3 in auto)
  moreover have "T3 bt = ?A" using T2 T3 b2 by (auto simp: certifies_def)
  ultimately have "certifies T g (T3(length (blocks g3) := A0)) (add_block simple (Branch c bt be) g3)"
    using Branching.prems(1) d T3 b1 b2 b3 by (intro certifies_add) auto
  then show ?case by (metis fun_upd_same)
next
  case (Switching rest nxt g join g1 arms ts g2 d bd g3 simple c r)
  let ?A = "A0 \<union> lets simple"
  from Switching.prems(2) obtain J where d: "collect_atom c \<subseteq> ?A" "\<forall>arm \<in> set arms. da ?A (snd arm) J B K" "da ?A d J B K"
      "da J rest N B K"
    by (auto elim: da_SwitchE)
  note b1 = built_bounds(1-4) [OF Switching.hyps(1)] and b2 = built_bounds(5-7) [OF Switching.hyps(2)]
    and b3 = built_bounds(1-4) [OF Switching.hyps(3)]
  from Switching.IH(1) [of J N B K T] d Switching.prems obtain T1 where T1: "certifies T g T1 g1" "T1 join = J" by auto
  have t1: "targets_ok T1 join g1 J B K"
    by (rule targets_ok_later [OF Switching.prems(3)]) (use T1 b1 in \<open>auto simp: certifies_def\<close>)
  from Switching.IH(2) [OF d(2) t1] obtain T2 where T2: "certifies T1 g1 T2 g2"
    "\<forall>t \<in> snd ` set ts. T2 t = ?A \<and> t < length (blocks g2)" by auto
  have t2: "targets_ok T2 join g2 J B K"
    by (rule targets_ok_later [OF t1]) (use T1 T2 b1 b2 in \<open>auto simp: certifies_def\<close>)
  from Switching.IH(3) [of ?A J B K T2] d t2 obtain T3 where T3: "certifies T2 g2 T3 g3" "T3 bd = ?A" by auto
  have "certifies T g T3 g3"
    by (rule certifies_join [OF certifies_join [OF T1(1) T2(1)] T3(1)]) (use b1 b2 b3 in auto)
  moreover have "\<forall>t \<in> snd ` set ts. T3 t = ?A \<and> t < length (blocks g3)"
    using T2 T3 b3 by (fastforce simp: certifies_def)
  ultimately have "certifies T g (T3(length (blocks g3) := A0)) (add_block simple (SwitchT c ts bd) g3)"
    using Switching.prems(1) d T3 b1 b2 b3 by (intro certifies_add) auto
  then show ?case by (metis fun_upd_same)
next
  case (Matching rest nxt g join g1 arms us g2 simple c r)
  let ?A = "A0 \<union> lets simple"
  from Matching.prems(2) obtain J where d: "collect_atom c \<subseteq> ?A" "da J rest N B K"
      "\<forall>arm \<in> set arms. ?A \<inter> collect_pattern_binds (arm_pattern arm) = {}
        \<and> da (?A \<union> collect_pattern_binds (arm_pattern arm)) (arm_body arm) J B K"
      "apart (map (\<lambda>arm. collect_pattern_binds (arm_pattern arm)) arms)"
    by (rule da_MatchE)
  note b1 = built_bounds(1-4) [OF Matching.hyps(1)] and b2 = built_bounds(8-10) [OF Matching.hyps(2)]
  from Matching.IH(1) [of J N B K T] d Matching.prems obtain T1 where T1: "certifies T g T1 g1" "T1 join = J" by auto
  have t1: "targets_ok T1 join g1 J B K"
    by (rule targets_ok_later [OF Matching.prems(3)]) (use T1 b1 in \<open>auto simp: certifies_def\<close>)
  from Matching.IH(2) [OF _ t1, of ?A] d(3) obtain T2 where T2: "certifies T1 g1 T2 g2" "arms_certified T2 ?A arms us"
    "\<forall>t \<in> snd ` set us. t < length (blocks g2)" by auto
  have "certifies T g T2 g2" by (rule certifies_join [OF T1(1) T2(1)]) (use b1 b2 in auto)
  then have "certifies T g (T2(length (blocks g2) := A0)) (add_block simple (MatchT c us) g2)"
    using Matching.prems(1) d T2 b1 b2 arms_certified_flow [OF T2(2)] by (intro certifies_add) auto
  then show ?case by (metis fun_upd_same)
next
  case (Looping rest nxt g exit g1 header lb be g2 simple r)
  let ?A = "A0 \<union> lets simple" and ?g1 = "add_block [] (Jump exit) g1"
  from Looping.prems(2) obtain H X where d: "H \<subseteq> ?A" "da H lb H X H" "da X rest N B K" by (auto elim: da_LoopE)
  note b1 = built_bounds(1-4) [OF Looping.hyps(1)] and b2 = built_bounds(1-4) [OF Looping.hyps(3), simplified]
  from Looping.IH(1) [of X N B K T] d Looping.prems obtain T1 where T1: "certifies T g T1 g1" "T1 exit = X" by auto
  let ?T1 = "T1(header := H)"
  have t: "targets_ok ?T1 header (push_loop header exit ?g1) H X H"
    using T1 b1 Looping.hyps(2) by (auto simp: targets_ok_def)
  have "\<exists>T2. certifies ?T1 (push_loop header exit ?g1) T2 g2 \<and> T2 be = H"
    by (rule Looping.IH(2) [OF _ _ t]) (simp_all add: d(2))
  then obtain T2 where T2: "certifies ?T1 (push_loop header exit ?g1) T2 g2" "T2 be = H" by blast
  have T2': "T2 i = ?T1 i" if "i \<le> header" for i using T2(1) that Looping.hyps(2) by (simp add: certifies_def)
  have "certified T1 (length (blocks g)) (blocks g1)" using T1(1) by (simp add: certifies_def)
  then have "certified T2 (length (blocks g)) (blocks (set_term header (Jump be) (pop_loop g2)))"
  proof (rule certified_join)
    show "certified T2 (length (blocks g1)) (blocks (set_term header (Jump be) (pop_loop g2)))"
      unfolding certified_def
    proof (intro allI impI)
      fix i assume i: "length (blocks g1) \<le> i \<and> i < length (blocks (set_term header (Jump be) (pop_loop g2)))"
      let ?bb = "blocks (set_term header (Jump be) (pop_loop g2)) ! i"
      show "flow_ok T2 (T2 i) ?bb \<and>
          (\<forall>t \<in> set (term_successors (bb_term ?bb)). t < length (blocks (set_term header (Jump be) (pop_loop g2))))"
      proof (cases "i = header")
        case True
        have "bb_stmts (blocks g2 ! header) = []"
          using b2(4) [of header] Looping.hyps(2) by (simp add: nth_append)
        with True i T2(2) T2' b2 show ?thesis by (simp add: flow_ok_def)
      next
        case False
        with i Looping.hyps(2) have "Suc (length (blocks g1)) \<le> i \<and> i < length (blocks g2)" by simp
        moreover have "certified T2 (Suc (length (blocks g1))) (blocks g2)" using T2(1) by (simp add: certifies_def)
        ultimately have "flow_ok T2 (T2 i) (blocks g2 ! i)"
            "\<forall>t \<in> set (term_successors (bb_term (blocks g2 ! i))). t < length (blocks g2)"
          unfolding certified_def by blast+
        with False i show ?thesis by simp
      qed
    qed
    show "T2 i = T1 i" if "i < length (blocks g1)" for i using T2' [of i] that Looping.hyps(2) by simp
  qed (use b1 b2 Looping.hyps(2) in \<open>auto simp: nth_append\<close>)
  then have "certifies T g T2 (set_term header (Jump be) (pop_loop g2))"
    using T1(1) T2' b1 Looping.hyps(2) by (auto simp: certifies_def)
  then have "certifies T g (T2(length (blocks g2) := A0)) (add_block simple (Jump header) (set_term header (Jump be) (pop_loop g2)))"
    using certifies_add [of T g T2 "set_term header (Jump be) (pop_loop g2)" A0 simple "Jump header"]
      Looping.prems(1) d(1) T2' [of header] b1 b2 Looping.hyps(2) by simp
  then show ?case by (metis fun_upd_same)
next
  case (No_cases nxt g)
  show ?case by (rule exI [of _ T]) (auto simp: certifies_def certified_def)
next
  case (Cases b nxt g t g1 arms ts g2 k)
  note b1 = built_bounds(1-4) [OF Cases.hyps(1)] and b2 = built_bounds(5-7) [OF Cases.hyps(2)]
  from Cases.IH(1) [of A1 N B K T] Cases.prems obtain T1 where T1: "certifies T g T1 g1" "T1 t = A1" by auto
  have "targets_ok T1 nxt g1 N B K"
    by (rule targets_ok_later [OF Cases.prems(2)])
      (use T1 b1 Cases.prems(2) in \<open>auto simp: certifies_def targets_ok_def\<close>)
  with Cases.IH(2) Cases.prems obtain T2 where T2: "certifies T1 g1 T2 g2"
    "\<forall>u \<in> snd ` set ts. T2 u = A1 \<and> u < length (blocks g2)" by (metis list.set_intros(2))
  have "certifies T g T2 g2" by (rule certifies_join [OF T1(1) T2(1)]) (use b1 b2 in auto)
  moreover have "T2 t = A1" "t < length (blocks g2)" using T1 T2 b1 b2 by (auto simp: certifies_def)
  ultimately show ?case using T2(2) by auto
next
  case (No_arms nxt g)
  show ?case by (rule exI [of _ T]) (auto simp: certifies_def certified_def arms_certified_def)
next
  case (Arms b nxt g t g1 arms ts g2 p)
  note b1 = built_bounds(1-4) [OF Arms.hyps(1)] and b2 = built_bounds(8-10) [OF Arms.hyps(2)]
  from Arms.IH(1) [of "A1 \<union> collect_pattern_binds p" N B K T] Arms.prems
  obtain T1 where T1: "certifies T g T1 g1" "T1 t = A1 \<union> collect_pattern_binds p" by auto
  have "targets_ok T1 nxt g1 N B K"
    by (rule targets_ok_later [OF Arms.prems(2)])
      (use T1 b1 Arms.prems(2) in \<open>auto simp: certifies_def targets_ok_def\<close>)
  with Arms.IH(2) Arms.prems obtain T2 where T2: "certifies T1 g1 T2 g2" "arms_certified T2 A1 arms ts"
    "\<forall>u \<in> snd ` set ts. u < length (blocks g2)" by (metis list.set_intros(2))
  have "certifies T g T2 g2" by (rule certifies_join [OF T1(1) T2(1)]) (use b1 b2 in auto)
  moreover have "T2 t = A1 \<union> collect_pattern_binds p" "t < length (blocks g2)"
    using T1 T2 b1 b2 by (auto simp: certifies_def)
  ultimately show ?case using T2(2,3) by (auto simp: arms_certified_def)
qed

end
