(* ===== verification/CpsShape.thy ===== *)
theory CpsShape
  imports CpsFlow
begin

text \<open>
  The blocks a poll function is made of: the graph of the body, renumbered. The entry is block 0
  and no edge leads back to it; the suspensions are the edges to resume blocks; variables are
  those of the body; assigned sets are respected; and the runs of the body are there.
\<close>

section \<open>Renamed blocks\<close>

lemma term_edges_remap:
  "term_edges Q u \<Longrightarrow> (\<And>rb t. t \<in> set (term_successors u) \<Longrightarrow> Q rb t \<Longrightarrow> Q' rb (the (m t))) \<Longrightarrow>
   term_edges Q' (remap_term m u)"
  by (cases u) (auto, (metis image_eqI snd_conv)+)

lemma edge_binds_remap [simp]: "edge_binds (remap_term m u) = edge_binds u"
proof (cases u)
  case (Suspend task rb t)
  then show ?thesis by (cases rb) auto
next
  case (MatchT c arms)
  then show ?thesis by force
qed auto

lemma term_flow_remap:
  "term_flow T A u \<Longrightarrow> (\<And>t. t \<in> set (term_successors u) \<Longrightarrow> T' (the (m t)) = T t) \<Longrightarrow> term_flow T' A (remap_term m u)"
proof (cases u)
  case (MatchT c arms)
  assume f: "term_flow T A u" and t: "\<And>t. t \<in> set (term_successors u) \<Longrightarrow> T' (the (m t)) = T t"
  have eq: "map ((\<lambda>a. collect_pattern_binds (fst a)) \<circ> (\<lambda>(p, b). (p, the (m b)))) arms
      = map (\<lambda>a. collect_pattern_binds (fst a)) arms"
    by auto
  have "apart (map ((\<lambda>a. collect_pattern_binds (fst a)) \<circ> (\<lambda>(p, b). (p, the (m b)))) arms)"
    unfolding eq using f MatchT by simp
  with f t MatchT show ?thesis by (auto simp: split_beta)
qed (auto simp: split_beta)

lemma switch_target_remap:
  "switch_target (map (\<lambda>(k, b). (k, h b)) arms) (h d) k = h (switch_target arms d k)"
  by (induction arms d k rule: switch_target.induct) auto

lemma switch_target_in: "switch_target arms d k \<in> insert d (snd ` set arms)"
  by (induction arms d k rule: switch_target.induct) auto

lemma match_target_remap:
  "match_target (map (\<lambda>(p, b). (p, h b)) arms) v = map_option (map_prod id h) (match_target arms v)"
  by (induction arms v rule: match_target.induct) (auto split: matched.splits)

lemma match_target_in: "match_target arms v = Some (bs, t) \<Longrightarrow> \<exists>p. (p, t) \<in> set arms \<and> match_pat p v = Binds bs"
  by (induction arms v rule: match_target.induct) (auto split: matched.splits)

lemma term_step_in:
  "term_step pr e w u = Some (t, e2, w2) \<Longrightarrow> t \<in> set (term_successors u)"
proof (cases u)
  case (SwitchT c arms d)
  assume "term_step pr e w u = Some (t, e2, w2)"
  with SwitchT obtain k where "t = switch_target arms d k" by (auto split: option.splits val.splits)
  with SwitchT switch_target_in [of arms d k] show ?thesis by auto
next
  case (MatchT c arms)
  assume "term_step pr e w u = Some (t, e2, w2)"
  with MatchT obtain v bs where "match_target arms v = Some (bs, t)" by (auto split: option.splits)
  from match_target_in [OF this] MatchT show ?thesis by force
qed (auto split: option.splits val.splits prod.splits)

lemma term_step_remap:
  "term_step pr e w u = Some (t, e2, w2) \<Longrightarrow> term_step pr e w (remap_term m u) = Some (the (m t), e2, w2)"
  by (cases u) (auto split: option.splits val.splits prod.splits
      simp: switch_target_remap [of "\<lambda>b. the (m b)"] match_target_remap [of "\<lambda>b. the (m b)"])

lemma reaches_remap:
  assumes n: "numbering m order" and cl: "\<And>b. b \<in> set order \<Longrightarrow> succs_of C b \<subseteq> set order"
  shows "reaches P pr C b e ds w v w' \<Longrightarrow> b \<in> set order \<Longrightarrow>
    reaches P pr (map (\<lambda>b. (C ! b)\<lparr>bb_term := remap_term m (bb_term (C ! b))\<rparr>) order) (the (m b)) e ds w v w'"
proof (induction rule: reaches.induct)
  case (reach_ret b e ds w e1 ds1 w1 a v w2)
  then obtain i where i: "i < length order" "order ! i = b" by (auto simp: in_set_conv_nth)
  show ?case
    by (rule reaches.reach_ret [OF _ _ _ reach_ret.hyps(4,5)]) (use i numberingD [OF n, of i] reach_ret.hyps in auto)
next
  case (reach_step b e ds w e1 ds1 w1 t e2 w2 v w3)
  then obtain i where i: "i < length order" "order ! i = b" by (auto simp: in_set_conv_nth)
  have t: "t \<in> set order"
    using term_step_in [OF reach_step.hyps(3)] cl [OF reach_step.prems] by (auto simp: succs_of_def)
  show ?case
    by (rule reaches.reach_step [OF _ _ _ reach_step.IH [OF t]])
      (use i numberingD [OF n, of i] reach_step.hyps(2) term_step_remap [OF reach_step.hyps(3), of m] in auto)
qed

section \<open>The blocks of a poll function\<close>

definition shaped :: "ir_function \<Rightarrow> basic_block list \<Rightarrow> bool" where
  "shaped f bs \<longleftrightarrow> 0 < length bs \<and> resume_bind (bs ! 0) = None
     \<and> (\<forall>bb \<in> set bs. term_edges (\<lambda>rb t. 0 < t \<and> t < length bs \<and> resume_bind (bs ! t) = rb) (bb_term bb)
          \<and> block_within (collect_block_reads (body f)) (collect_block_binds (body f)) (block_has_defer (body f)) bb)"

lemma shaped_in_range: "shaped f bs \<Longrightarrow> in_range bs"
  unfolding shaped_def in_range_def
proof (intro ballI)
  fix bb t
  assume s: "0 < length bs \<and> resume_bind (bs ! 0) = None
     \<and> (\<forall>bb \<in> set bs. term_edges (\<lambda>rb t. 0 < t \<and> t < length bs \<and> resume_bind (bs ! t) = rb) (bb_term bb)
          \<and> block_within (collect_block_reads (body f)) (collect_block_binds (body f)) (block_has_defer (body f)) bb)"
    and "bb \<in> set bs" "t \<in> set (term_successors (bb_term bb))"
  then show "t < length bs" by (cases "bb_term bb") (auto dest!: bspec)
qed

definition flows :: "ir_function \<Rightarrow> basic_block list \<Rightarrow> (bid \<Rightarrow> var_id set) \<Rightarrow> bool" where
  "flows f bs T \<longleftrightarrow> T 0 = set (params f) \<union> set (captures f) \<and> (\<forall>i < length bs. flow_ok T (T i) (bs ! i))"

definition assigned_fn :: "ir_function \<Rightarrow> bool" where
  "assigned_fn f \<longleftrightarrow> da (set (params f) \<union> set (captures f)) (body f) {} {} {}"

abbreviation trap_block :: basic_block where
  "trap_block \<equiv> \<lparr>bb_stmts = [], bb_term = ReturnT (AConst CUnit), resume_bind = None\<rparr>"

text \<open>The graph of a body, built after the trap block: its edges stay below the entry.\<close>

lemma body_graph:
  assumes "build [] ss 0 \<lparr>blocks = [trap_block], loop_ctx = []\<rparr> = Some (ent, g)"
  shows "i < length (blocks g) \<Longrightarrow> term_edges (\<lambda>rb t. t < ent \<and> resume_bind (blocks g ! t) = rb) (bb_term (blocks g ! i))"
    and "in_range (blocks g)" and "ent < length (blocks g)"
proof -
  let ?g0 = "\<lparr>blocks = [trap_block], loop_ctx = []\<rparr>"
  note b = build_built(1) [OF assms] and bound = built_bounds(1-4) [OF build_built(1) [OF assms]]
  have trap: "blocks g ! 0 = trap_block" using bound(4) [of 0] by simp
  show edges: "term_edges (\<lambda>rb t. t < ent \<and> resume_bind (blocks g ! t) = rb) (bb_term (blocks g ! i))"
    if "i < length (blocks g)" for i
  proof (cases "i = 0")
    case False
    with that have "edge_in (outer_targets 0 ?g0) 1 ent (blocks g) i"
      using built_edges(1) [OF b] by (auto simp: edges_ok_def)
    then show ?thesis
      by (rule term_edges_mono) (use bound(2) trap in \<open>auto simp: inner_target_def outer_targets_def\<close>)
  qed (simp add: trap)
  show "in_range (blocks g)"
    unfolding in_range_def
  proof (intro ballI)
    fix bb t assume bb: "bb \<in> set (blocks g)" and t: "t \<in> set (term_successors (bb_term bb))"
    from bb obtain i where "i < length (blocks g)" "bb = blocks g ! i" by (auto simp: in_set_conv_nth)
    with edges [of i] t bound show "t < length (blocks g)" by (cases "bb_term bb") auto
  qed
  show "ent < length (blocks g)" using bound by simp
qed

lemma poll_blocks_shape:
  assumes "poll_blocks f = Some bs"
  shows "shaped f bs" and "assigned_fn f \<Longrightarrow> \<exists>T. flows f bs T"
    and "arun P pr e [] w (body f) (Ret v) w' \<Longrightarrow> reaches P pr bs 0 e [] w v w'"
proof -
  let ?g0 = "\<lparr>blocks = [trap_block], loop_ctx = []\<rparr>"
  let ?V = "collect_block_reads (body f)" and ?B = "collect_block_binds (body f)" and ?D = "block_has_defer (body f)"
  from assms obtain ent g where bld: "build [] (body f) 0 ?g0 = Some (ent, g)" and r: "renumber (blocks g) ent = Some bs"
    by (auto simp: poll_blocks_def new_block_def bind_Some_iff)
  note b = build_built(1) [OF bld] and bound = built_bounds(1-4) [OF build_built(1) [OF bld]]
  have trap: "blocks g ! 0 = trap_block" using bound(4) [of 0] by simp
  have within: "block_within ?V ?B ?D (blocks g ! i)" if "i < length (blocks g)" for i
  proof (cases "i = 0")
    case False
    have "region (block_within ?V ?B ?D) 1 (blocks g)" using built_within(1) [OF b] by simp
    with False that show ?thesis by (auto simp: region_def)
  qed (simp add: trap block_within_def resume_binds_def)
  note edges = body_graph(1) [OF bld]
  from renumber_result [OF body_graph(2,3) [OF bld]] r obtain m order
    where bs: "bs = map (\<lambda>b. (blocks g ! b)\<lparr>bb_term := remap_term m (bb_term (blocks g ! b))\<rparr>) order"
      and n: "numbering m order" and o: "order \<noteq> []" "order ! 0 = ent" "set order \<subseteq> {..<length (blocks g)}"
      and cl: "\<And>b. b \<in> set order \<Longrightarrow> succs_of (blocks g) b \<subseteq> set order"
    by auto
  have m: "\<exists>j < length order. m t = Some j \<and> order ! j = t" if "t \<in> set order" for t
    using that numberingD [OF n] by (auto simp: in_set_conv_nth)
  have m0: "m ent = Some 0" using numberingD [OF n, of 0] o by simp
  have succ: "t \<in> set order" if "i < length order" "t \<in> set (term_successors (bb_term (blocks g ! (order ! i))))" for i t
    using cl [of "order ! i"] that by (auto simp: succs_of_def)
  show "shaped f bs"
    unfolding shaped_def
  proof (intro conjI ballI)
    show "resume_bind (bs ! 0) = None" using o built_edges(1) [OF b] by (simp add: bs)
  next
    fix bb assume "bb \<in> set bs"
    then obtain i where i: "i < length order"
      and bb: "bb = (blocks g ! (order ! i))\<lparr>bb_term := remap_term m (bb_term (blocks g ! (order ! i)))\<rparr>"
      by (auto simp: bs in_set_conv_nth)
    have oi: "order ! i < length (blocks g)" using o(3) nth_mem [OF i] by blast
    have tm: "bb_term bb = remap_term m (bb_term (blocks g ! (order ! i)))" by (simp add: bb)
    show "term_edges (\<lambda>rb t. 0 < t \<and> t < length bs \<and> resume_bind (bs ! t) = rb) (bb_term bb)"
      unfolding tm
    proof (rule term_edges_remap [OF edges [OF oi]])
      fix rb t assume t: "t \<in> set (term_successors (bb_term (blocks g ! (order ! i))))"
        and q: "t < ent \<and> resume_bind (blocks g ! t) = rb"
      from m [OF succ [OF i t]] obtain j where j: "j < length order" "m t = Some j" "order ! j = t" by blast
      with q o(2) have "j \<noteq> 0" by (intro notI) simp
      with j q show "0 < the (m t) \<and> the (m t) < length bs \<and> resume_bind (bs ! the (m t)) = rb" by (simp add: bs)
    qed
    show "block_within ?V ?B ?D bb" using within [OF oi] by (simp add: bb block_within_def resume_binds_def)
  qed (use o in \<open>simp add: bs\<close>)
  show "\<exists>T. flows f bs T" if a: "assigned_fn f"
  proof -
    have "targets_ok (\<lambda>_. {}) 0 ?g0 {} {} {}" by (simp add: targets_ok_def)
    from built_certified(1) [OF b _ _ this, of "set (params f) \<union> set (captures f)"] a
    obtain T where T: "certifies (\<lambda>_. {}) ?g0 T g" "T ent = set (params f) \<union> set (captures f)"
      by (auto simp: assigned_fn_def)
    have fl: "flow_ok T (T i) (blocks g ! i)" if "i < length (blocks g)" for i
    proof (cases "i = 0")
      case False
      with T(1) that show ?thesis by (simp add: certifies_def certified_def)
    qed (simp add: trap flow_ok_def)
    have "flow_ok (\<lambda>i. T (order ! i)) (T (order ! i)) (bs ! i)" if i: "i < length bs" for i
    proof -
      have i: "i < length order" using i by (simp add: bs)
      have "order ! i < length (blocks g)" using o(3) nth_mem [OF i] by blast
      then have "flow_ok T (T (order ! i)) (blocks g ! (order ! i))" by (rule fl)
      moreover have "T (order ! the (m t)) = T t" if "t \<in> set (term_successors (bb_term (blocks g ! (order ! i))))" for t
        using m [OF succ [OF i that]] by auto
      ultimately show ?thesis using i by (auto simp: bs flow_ok_def intro: term_flow_remap)
    qed
    with T(2) o show ?thesis by (intro exI [of _ "\<lambda>i. T (order ! i)"]) (simp add: flows_def)
  qed
  show "reaches P pr bs 0 e [] w v w'" if a: "arun P pr e [] w (body f) (Ret v) w'"
  proof -
    have "graph_of (blocks g) (length (blocks ?g0)) g" by (simp add: graph_of_def)
    with build_reaches(1) [OF a, of "blocks g"] have "reaches P pr (blocks g) ent e [] w v w'"
      by (auto intro: simulated_start [OF _ b])
    from reaches_remap [OF n cl this] o m0 show ?thesis by (auto simp: bs dest: nth_mem [of 0])
  qed
qed

end
