(* ===== verification/CpsEmit.thy ===== *)
theory CpsEmit
  imports CpsShape
begin

text \<open>
  The pieces of a poll function: what the copied statements, the loads of a prologue and the
  dispatch on \<open>pc\<close> do, in a frame that agrees with the original one on the variables that matter.
\<close>

section \<open>Primitives of the state and the result of a poll\<close>

text \<open>
  The documented behaviour of the operations a poll function is built from: records and variants
  are built and read back, lists are extended, a call in tail position is a call, and an awaited
  task gives what the scheduler \<open>aw\<close> says.
\<close>

definition poll_prims :: "'w prim \<Rightarrow> (val \<Rightarrow> 'w \<Rightarrow> (val \<times> 'w) option) \<Rightarrow> bool" where
  "poll_prims pr aw \<longleftrightarrow>
     (\<forall>a t w. pr (Await a) [t] w = aw t w)
   \<and> (\<forall>fs vs w. distinct (map fst fs) \<longrightarrow> length vs = length fs \<longrightarrow>
        (\<exists>r. pr (MakeRecord fs None) vs w = Some (VRecord r, w) \<and> map_of r = map_of (zip (map fst fs) vs)))
   \<and> (\<forall>a n r v w. map_of r n = Some v \<longrightarrow> pr (GetField a n None) [VRecord r] w = Some (v, w))
   \<and> (\<forall>en t as vs w. pr (MakeVariant en t as) vs w = Some (VVariant t vs, w))
   \<and> (\<forall>w. pr (MakeList []) [] w = Some (VList [], w))
   \<and> (\<forall>x y xs v w. pr (MakeList [Spread x, Elem y]) [VList xs, v] w = Some (VList (xs @ [v]), w))
   \<and> (\<forall>c as vs w. pr (TailCall c as) vs w = pr (CallClosure c as) vs w)"

lemma poll_primsD:
  assumes "poll_prims pr aw"
  shows "pr (Await a) [t] w = aw t w"
    and "distinct (map fst fs) \<Longrightarrow> length vs = length fs \<Longrightarrow>
      \<exists>r. pr (MakeRecord fs None) vs w = Some (VRecord r, w) \<and> map_of r = map_of (zip (map fst fs) vs)"
    and "map_of r n = Some v \<Longrightarrow> pr (GetField a n None) [VRecord r] w = Some (v, w)"
    and "pr (MakeVariant en tag as) vs w = Some (VVariant tag vs, w)"
    and "pr (MakeList []) [] w = Some (VList [], w)"
    and "pr (MakeList [Spread x, Elem y]) [VList xs, v] w = Some (VList (xs @ [v]), w)"
    and "pr (TailCall c as) vs w = pr (CallClosure c as) vs w"
  using assms unfolding poll_prims_def by simp_all

section \<open>Operations in an agreeing frame\<close>

lemma rvalue_reads: "collect_rvalue_reads rv = \<Union>(collect_atom ` set (operands rv))"
  by (cases rv) (auto simp: collect_atoms_def)

lemma env_le_collect:
  "env_le S e E \<Longrightarrow> collect_atom a \<subseteq> S \<Longrightarrow> eval_atom e a = Some v \<Longrightarrow> eval_atom E a = Some v"
  by (erule env_le_atom) auto

lemma eval_atoms_collect:
  "env_le S e E \<Longrightarrow> \<Union>(collect_atom ` set as) \<subseteq> S \<Longrightarrow> eval_atoms e as = Some vs \<Longrightarrow> eval_atoms E as = Some vs"
  by (induction as arbitrary: vs) (auto simp: bind_Some_iff dest: env_le_collect)

lemma evals_agree:
  assumes "evals P pr e w rv v w1" and "env_le S e E" and "collect_rvalue_reads rv \<subseteq> S"
  shows "evals P pr E w rv v w1"
proof -
  from assms(1) obtain n vs where n: "run_rv P pr n e w rv = Done (v, w1)" and vs: "eval_atoms e (operands rv) = Some vs"
    by (auto simp: evals_def run_rv.simps split: option.splits)
  have "eval_atoms E (operands rv) = Some vs"
    using eval_atoms_collect [OF assms(2) _ vs] assms(3) by (simp add: rvalue_reads)
  with n vs have "run_rv P pr n E w rv = Done (v, w1)" by (simp add: run_rv.simps)
  then show ?thesis by (auto simp: evals_def)
qed

lemma detco_Some: "detco rv = Some rv' \<longleftrightarrow>
    (\<exists>c as. rv = TailCall c as \<and> rv' = CallClosure c as) \<or> (\<exists>f as. rv = TailCallDirect f as \<and> rv' = Call (Callee_Function f) as)"
  by (cases rv) auto

lemma evals_detco:
  assumes p: "poll_prims pr aw" and d: "detco rv = Some rv'"
  shows "evals P pr E w rv' v w1 \<longleftrightarrow> evals P pr E w rv v w1"
proof -
  have "run_rv P pr n E w (CallClosure c as) = run_rv P pr n E w (TailCall c as)" for n c as
  proof -
    have "dispatch_rv (CallClosure c as) vs = dispatch_rv (TailCall c as) vs" for vs by (simp add: dispatch_rv_def)
    moreover have "eval_prim pr (CallClosure c as) vs w = eval_prim pr (TailCall c as) vs w" for vs
      using poll_primsD(7) [OF p] by (simp add: eval_prim_def)
    ultimately show ?thesis by (auto simp: run_rv.simps split: option.split callsite.split)
  qed
  moreover have "run_rv P pr n E w (Call (Callee_Function f) as) = run_rv P pr n E w (TailCallDirect f as)" for n f as
  proof -
    have "dispatch_rv (Call (Callee_Function f) as) vs = Known f vs []" "dispatch_rv (TailCallDirect f as) vs = Known f vs []"
      for vs by (simp_all add: dispatch_rv_def)
    then show ?thesis by (auto simp: run_rv.simps split: option.split callsite.split)
  qed
  ultimately show ?thesis using d by (auto simp: detco_Some evals_def)
qed

lemma evals_prim1:
  assumes "eval_atom E a = Some u" and "operands rv = [a]" and "dispatch_rv rv [u] = Primitive [u]"
    and "eval_prim pr rv [u] w = Some (v, w1)"
  shows "evals P pr E w rv v w1"
  using assms by (intro evals_primitive [where us = "[u]"]) auto

lemma runs_load:
  assumes p: "poll_prims pr aw" and "E (state_var pv) = Some (VRecord r)" and "map_of r n = Some v"
  shows "runs P pr E ds w (kind (load_field pv x n)) (Norm (E(x \<mapsto> v)) ds) w"
  unfolding load_field_def synthetic_def stmt.sel
  by (rule runs_Let, rule evals_prim1 [where u = "VRecord r"])
    (use assms poll_primsD(3) [OF p] in \<open>auto simp: dispatch_rv_def eval_prim_def\<close>)

text \<open>The carried list holds the cleanups in the order they were pushed.\<close>

definition carried :: "poll_vars \<Rightarrow> env \<Rightarrow> val list \<Rightarrow> bool" where
  "carried pv E ds \<longleftrightarrow> (case defers_var pv of None \<Rightarrow> ds = [] | Some dv \<Rightarrow> E dv = Some (VList (rev ds)))"

lemma carried_upd: "carried pv E ds \<Longrightarrow> defers_var pv \<noteq> Some x \<Longrightarrow> carried pv (E(x \<mapsto> v)) ds"
  by (auto simp: carried_def split: option.splits)

lemma carried_cong: "carried pv E ds \<Longrightarrow> (\<And>dv. defers_var pv = Some dv \<Longrightarrow> E' dv = E dv) \<Longrightarrow> carried pv E' ds"
  by (auto simp: carried_def split: option.splits)

section \<open>Copied statements\<close>

lemma runs_stmtE:
  assumes "runs_block P pr e ds w (Stmt k l # ss) (Norm e1 ds1) w1"
  obtains e2 ds2 w2 where "runs P pr e ds w k (Norm e2 ds2) w2" and "runs_block P pr e2 ds2 w2 ss (Norm e1 ds1) w1"
proof -
  from assms obtain n r w2 where x: "exec P pr n e ds w k = Done (r, w2)"
    and y: "(case r of Norm e' ds' \<Rightarrow> exec_block P pr n e' ds' w2 ss | _ \<Rightarrow> Done (r, w2)) = Done (Norm e1 ds1, w1)"
    by (auto simp: runs_block_def bind_res_Done)
  from y obtain e2 ds2 where "r = Norm e2 ds2" by (cases r) auto
  with x y that show thesis by (auto simp: runs_def runs_block_def)
qed

lemma runs_LetE:
  assumes "runs P pr e ds w (Let x rv) (Norm e2 ds2) w2"
  obtains v where "evals P pr e w rv v w2" and "e2 = e(x \<mapsto> v)" and "ds2 = ds"
  using assms by (auto simp: runs_def evals_def bind_res_Done)

lemma runs_DiscardE:
  assumes "runs P pr e ds w (Discard rv) (Norm e2 ds2) w2"
  obtains v where "evals P pr e w rv v w2" and "e2 = e" and "ds2 = ds"
proof -
  from assms obtain n where n: "exec P pr n e ds w (Discard rv) = Done (Norm e2 ds2, w2)"
    unfolding runs_def by blast
  then obtain v where "run_rv P pr n e w rv = Done (v, w2)" "e2 = e" "ds2 = ds"
    by (cases "run_rv P pr n e w rv") auto
  with that show thesis unfolding evals_def by blast
qed

lemma runs_PushDeferE:
  assumes "runs P pr e ds w (PushDefer a) (Norm e2 ds2) w2"
  obtains d where "eval_atom e a = Some d" and "e2 = e" and "ds2 = d # ds" and "w2 = w"
proof -
  from assms obtain n where n: "exec P pr n e ds w (PushDefer a) = Done (Norm e2 ds2, w2)"
    unfolding runs_def by blast
  then obtain d where "eval_atom e a = Some d" "e2 = e" "ds2 = d # ds" "w2 = w"
    by (cases "eval_atom e a") auto
  with that show thesis by blast
qed

lemma copy_runs:
  assumes p: "poll_prims pr aw"
  shows "runs_block P pr e ds w ss (Norm e1 ds1) w1 \<Longrightarrow> \<forall>s \<in> set ss. stmt_within V B (defers_var pv \<noteq> None) s \<Longrightarrow>
    reads_ok S ss \<Longrightarrow> env_le S e E \<Longrightarrow> carried pv E ds \<Longrightarrow> B \<subseteq> {..m} \<Longrightarrow> S \<subseteq> {..m} \<Longrightarrow>
    (\<And>dv. defers_var pv = Some dv \<Longrightarrow> m < dv) \<Longrightarrow>
    \<exists>E1. runs_block P pr E [] w (map (copy_stmt (defers_var pv)) ss) (Norm E1 []) w1
      \<and> env_le (S \<union> lets ss) e1 E1 \<and> carried pv E1 ds1 \<and> dom e \<union> lets ss \<subseteq> dom e1
      \<and> (\<forall>x. x \<notin> B \<longrightarrow> e1 x = e x) \<and> (\<forall>x. m < x \<longrightarrow> defers_var pv \<noteq> Some x \<longrightarrow> E1 x = E x)"
proof (induction ss arbitrary: e ds w S E)
  case Nil
  then show ?case by (auto simp: runs_block_Nil_iff)
next
  case (Cons s ss)
  obtain k l where s: "s = Stmt k l" by (cases s)
  from Cons.prems(1) obtain e2 ds2 w2 where k: "runs P pr e ds w k (Norm e2 ds2) w2"
    and rest: "runs_block P pr e2 ds2 w2 ss (Norm e1 ds1) w1"
    unfolding s by (rule runs_stmtE)
  have win: "stmt_within V B (defers_var pv \<noteq> None) s" "collect_stmt_reads k \<subseteq> S"
    using Cons.prems by (simp_all add: s)
  obtain E2 where E2: "runs P pr E [] w (copy_kind (defers_var pv) k) (Norm E2 []) w2"
    "env_le (S \<union> collect_stmt_binds k) e2 E2" "carried pv E2 ds2" "dom e \<union> collect_stmt_binds k \<subseteq> dom e2"
    "\<forall>x. x \<notin> B \<longrightarrow> e2 x = e x" "\<forall>x. m < x \<longrightarrow> defers_var pv \<noteq> Some x \<longrightarrow> E2 x = E x"
  proof (cases k)
    case (Let x rv)
    from k [unfolded Let] obtain v where v: "evals P pr e w rv v w2" "e2 = e(x \<mapsto> v)" "ds2 = ds" by (rule runs_LetE)
    have ev: "evals P pr E w rv v w2" by (rule evals_agree [OF v(1) Cons.prems(4)]) (use win Let in auto)
    have x: "x \<in> B" "x \<le> m" using win Let Cons.prems(6) by (auto simp: s stmt_within_def)
    have dv: "defers_var pv \<noteq> Some x" using Cons.prems(8) [of x] x(2) by auto
    show thesis
    proof (rule that [of "E(x \<mapsto> v)"])
      show "runs P pr E [] w (copy_kind (defers_var pv) k) (Norm (E(x \<mapsto> v)) []) w2"
        using ev Let by (cases "detco rv") (simp_all add: runs_Let evals_detco [OF p])
      show "env_le (S \<union> collect_stmt_binds k) e2 (E(x \<mapsto> v))"
        using Cons.prems(4) v(2) Let by (simp add: env_le_def)
      show "carried pv (E(x \<mapsto> v)) ds2" unfolding v(3) by (rule carried_upd [OF Cons.prems(5) dv])
      show "\<forall>y. m < y \<longrightarrow> defers_var pv \<noteq> Some y \<longrightarrow> (E(x \<mapsto> v)) y = E y" using x(2) by simp
    qed (use v(2) x(1) Let in auto)
  next
    case (Discard rv)
    from k [unfolded Discard] obtain v where v: "evals P pr e w rv v w2" "e2 = e" "ds2 = ds" by (rule runs_DiscardE)
    have ev: "evals P pr E w rv v w2" by (rule evals_agree [OF v(1) Cons.prems(4)]) (use win Discard in auto)
    show thesis
      by (rule that [of E]) (use ev v Discard Cons.prems(4,5) in \<open>simp_all add: runs_Discard\<close>)
  next
    case (PushDefer a)
    from k [unfolded PushDefer] obtain d where d: "eval_atom e a = Some d" "e2 = e" "ds2 = d # ds" "w2 = w"
      by (rule runs_PushDeferE)
    from win PushDefer obtain dv where dv: "defers_var pv = Some dv" by (auto simp: s stmt_within_def)
    have a: "eval_atom E a = Some d" by (rule env_le_collect [OF Cons.prems(4) _ d(1)]) (use win PushDefer in auto)
    have l: "E dv = Some (VList (rev ds))" using Cons.prems(5) dv by (simp add: carried_def)
    have "evals P pr E w (MakeList [Spread (AVar dv), Elem a]) (VList (rev ds @ [d])) w"
      by (rule evals_primitive [where us = "[VList (rev ds), d]"])
        (use a l poll_primsD(6) [OF p] in \<open>auto simp: dispatch_rv_def eval_prim_def\<close>)
    note r = runs_Let [OF this, of "[]" dv]
    have S: "dv \<notin> S" using Cons.prems(7) Cons.prems(8) [OF dv] by auto
    show thesis
      by (rule that [of "E(dv \<mapsto> VList (rev ds @ [d]))"])
        (use r d dv PushDefer Cons.prems(4) S in \<open>simp_all add: carried_def env_le_fresh\<close>)
  qed (use win in \<open>simp_all add: s stmt_within_def\<close>)
  have B: "S \<union> collect_stmt_binds k \<subseteq> {..m}" using win Cons.prems(6,7) by (auto simp: s stmt_within_def)
  have "\<exists>E1. runs_block P pr E2 [] w2 (map (copy_stmt (defers_var pv)) ss) (Norm E1 []) w1
      \<and> env_le (S \<union> collect_stmt_binds k \<union> lets ss) e1 E1 \<and> carried pv E1 ds1 \<and> dom e2 \<union> lets ss \<subseteq> dom e1
      \<and> (\<forall>x. x \<notin> B \<longrightarrow> e1 x = e2 x) \<and> (\<forall>x. m < x \<longrightarrow> defers_var pv \<noteq> Some x \<longrightarrow> E1 x = E2 x)"
    by (rule Cons.IH [OF rest _ _ E2(2,3) Cons.prems(6) B Cons.prems(8)]) (use Cons.prems in \<open>auto simp: s\<close>)
  then obtain E1 where E1: "runs_block P pr E2 [] w2 (map (copy_stmt (defers_var pv)) ss) (Norm E1 []) w1"
    "env_le (S \<union> collect_stmt_binds k \<union> lets ss) e1 E1" "carried pv E1 ds1" "dom e2 \<union> lets ss \<subseteq> dom e1"
    "\<forall>x. x \<notin> B \<longrightarrow> e1 x = e2 x" "\<forall>x. m < x \<longrightarrow> defers_var pv \<noteq> Some x \<longrightarrow> E1 x = E2 x" by blast
  have "runs_block P pr E [] w (map (copy_stmt (defers_var pv)) (s # ss)) (Norm E1 []) w1"
    using E2(1) E1(1) by (auto simp: s copy_stmt_def intro: runs_stmt)
  moreover have "dom e \<union> lets (s # ss) \<subseteq> dom e1" using E1(4) E2(4) by (simp add: s) (metis subset_trans)
  ultimately show ?case using E1(2,3,5,6) E2(5,6) by (intro exI [of _ E1]) (simp add: s Un_assoc)
qed

text \<open>What a block generates is read in an order the live and the bound variables cover.\<close>

lemma gen_mono: "snd kg \<subseteq> snd (fold (\<lambda>s. gen_kill_stmt caps (kind s)) ss kg)"
proof (induction ss arbitrary: kg)
  case (Cons s ss)
  have "snd kg \<subseteq> snd (gen_kill_stmt caps (kind s) kg)" by (cases "kind s") (auto simp: Let_def)
  also have "\<dots> \<subseteq> snd (fold (\<lambda>s. gen_kill_stmt caps (kind s)) ss (gen_kill_stmt caps (kind s) kg))" by (rule Cons.IH)
  finally show ?case by simp
qed simp

lemma gen_reads:
  fixes K G caps :: "var_id set"
  assumes "\<forall>s \<in> set ss. simple_kind (kind s)"
  defines "kg \<equiv> fold (\<lambda>s. gen_kill_stmt caps (kind s)) ss (K, G)"
  shows "fst kg = K \<union> lets ss" and "snd kg \<subseteq> X \<Longrightarrow> reads_ok (X \<union> caps \<union> K) ss"
    and "reads_ok A ss \<Longrightarrow> snd kg \<subseteq> G \<union> (A - K - caps)"
proof -
  have "fst (fold (\<lambda>s. gen_kill_stmt caps (kind s)) ss (K, G)) = K \<union> lets ss
    \<and> (snd (fold (\<lambda>s. gen_kill_stmt caps (kind s)) ss (K, G)) \<subseteq> X \<longrightarrow> reads_ok (X \<union> caps \<union> K) ss)
    \<and> (reads_ok A ss \<longrightarrow> snd (fold (\<lambda>s. gen_kill_stmt caps (kind s)) ss (K, G)) \<subseteq> G \<union> (A - K - caps))"
    using assms(1)
  proof (induction ss arbitrary: K G A)
    case (Cons s ss)
    let ?kg = "gen_kill_stmt caps (kind s) (K, G)"
    have k: "?kg = (K \<union> collect_stmt_binds (kind s), G \<union> (collect_stmt_reads (kind s) - K - caps))"
      using Cons.prems by (cases "kind s") (auto simp: expose_def Let_def)
    have IH: "fst (fold (\<lambda>s. gen_kill_stmt caps (kind s)) ss ?kg) = fst ?kg \<union> lets ss"
      "snd (fold (\<lambda>s. gen_kill_stmt caps (kind s)) ss ?kg) \<subseteq> X \<Longrightarrow> reads_ok (X \<union> caps \<union> fst ?kg) ss"
      "reads_ok (A \<union> collect_stmt_binds (kind s)) ss \<Longrightarrow>
        snd (fold (\<lambda>s. gen_kill_stmt caps (kind s)) ss ?kg) \<subseteq> snd ?kg \<union> (A \<union> collect_stmt_binds (kind s) - fst ?kg - caps)"
      using Cons.IH [of "fst ?kg" "snd ?kg" "A \<union> collect_stmt_binds (kind s)"] Cons.prems by auto
    have g: "snd ?kg \<subseteq> snd (fold (\<lambda>s. gen_kill_stmt caps (kind s)) ss ?kg)" by (rule gen_mono)
    have "reads_ok (X \<union> caps \<union> K) (s # ss)" if "snd (fold (\<lambda>s. gen_kill_stmt caps (kind s)) ss ?kg) \<subseteq> X"
      using IH(2) [OF that] g that k by (auto simp: Un_assoc)
    moreover have "snd (fold (\<lambda>s. gen_kill_stmt caps (kind s)) ss ?kg) \<subseteq> G \<union> (A - K - caps)" if "reads_ok A (s # ss)"
      using IH(3) that k by auto
    ultimately show ?case using IH(1) k by auto
  qed simp
  then show "fst kg = K \<union> lets ss" "snd kg \<subseteq> X \<Longrightarrow> reads_ok (X \<union> caps \<union> K) ss"
    "reads_ok A ss \<Longrightarrow> snd kg \<subseteq> G \<union> (A - K - caps)"
    by (auto simp: kg_def)
qed

section \<open>The dispatch\<close>

definition arm_code :: "poll_vars \<Rightarrow> var_id list \<Rightarrow> var_id list list \<Rightarrow> bid \<Rightarrow> basic_block \<Rightarrow> var_id \<Rightarrow> block" where
  "arm_code pv ps live b bb c =
     prologue pv ps (live ! b) b bb @ map (copy_stmt (defers_var pv)) (bb_stmts bb) @ fst (emit_term pv live (bb_term bb) c)"

lemma emit_term_fresh: "c \<le> snd (emit_term pv live u c)"
  by (cases u) (auto simp: Let_def)

lemma bid_const_inj: "i < 2 ^ 64 \<Longrightarrow> j < 2 ^ 64 \<Longrightarrow> (of_nat i :: i64) = of_nat j \<longleftrightarrow> i = j"
proof -
  assume "i < 2 ^ 64" "j < 2 ^ 64"
  then have "unat (of_nat i :: i64) = i" "unat (of_nat j :: i64) = j"
    by (simp_all add: unat_of_nat take_bit_nat_eq_self)
  then show ?thesis by metis
qed

lemma dispatch_arm:
  assumes "k \<le> b" "b < k + length xs" "k + length xs = n" "n \<le> 2 ^ 64"
  shows "\<exists>c'. c \<le> c' \<and> match_arms (emit_arms pv ps live n (enumerate k xs) c) (VInt (of_nat b))
    = Done (Some ([], arm_code pv ps live b (xs ! (b - k)) c'))"
  using assms
proof (induction xs arbitrary: k c)
  case (Cons x xs)
  let ?c = "snd (emit_term pv live (bb_term x) c)"
  have e: "emit_arms pv ps live n (enumerate k (x # xs)) c =
      MatchArm (if k + 1 = n then PWildcard else PLiteral (bid_const k)) (arm_code pv ps live k x c)
      # emit_arms pv ps live n (enumerate (Suc k) xs) ?c"
    by (simp add: arm_code_def split_beta)
  show ?case
  proof (cases "b = k")
    case True
    then show ?thesis
      unfolding e by (intro exI [of _ c]) (simp add: bid_const_def)
  next
    case False
    with Cons.prems have b: "Suc k \<le> b" "b < Suc k + length xs" "Suc k + length xs = n" by auto
    from Cons.IH [OF b Cons.prems(4), of ?c] obtain c' where c': "?c \<le> c'"
      "match_arms (emit_arms pv ps live n (enumerate (Suc k) xs) ?c) (VInt (of_nat b))
        = Done (Some ([], arm_code pv ps live b (xs ! (b - Suc k)) c'))" by blast
    have "(of_nat k :: i64) \<noteq> of_nat b" using bid_const_inj [of k b] False b Cons.prems(4) by simp
    moreover have "k + 1 \<noteq> n" using b by simp
    moreover have "(x # xs) ! (b - k) = xs ! (b - Suc k)" using b by (simp add: nth_Cons')
    ultimately show ?thesis
      unfolding e using c' emit_term_fresh [of c pv live "bb_term x"]
      by (intro exI [of _ c']) (simp add: bid_const_def)
  qed
qed simp

text \<open>A poll from a given point of an arm: it returns there, or the loop goes on and does.\<close>

definition poll_loop :: "poll_vars \<Rightarrow> match_arm list \<Rightarrow> stmt_kind" where
  "poll_loop pv arms = Loop [synthetic (Match (AVar (pc_var pv)) arms)]"

definition arm_polls :: "ir_function list \<Rightarrow> 'w prim \<Rightarrow> poll_vars \<Rightarrow> match_arm list \<Rightarrow> env \<Rightarrow> 'w \<Rightarrow> block \<Rightarrow> val \<Rightarrow> 'w \<Rightarrow> bool"
where
  "arm_polls R pr pv arms E w ss u w1 \<longleftrightarrow> runs_block R pr E [] w ss (Ret u) w1
     \<or> (\<exists>E' w'. runs_block R pr E [] w ss (Norm E' []) w' \<and> runs R pr E' [] w' (poll_loop pv arms) (Ret u) w1)"

lemma arm_polls_append:
  "runs_block R pr E [] w xs (Norm E1 []) w1 \<Longrightarrow> arm_polls R pr pv arms E1 w1 ys u w2 \<Longrightarrow>
   arm_polls R pr pv arms E w (xs @ ys) u w2"
  unfolding arm_polls_def by (blast intro: runs_block_append)

lemma arm_polls_loop:
  assumes "E (pc_var pv) = Some v" and "match_arms arms v = Done (Some ([], ss))"
    and "arm_polls R pr pv arms E w ss u w1"
  shows "runs R pr E [] w (poll_loop pv arms) (Ret u) w1"
proof -
  have m: "runs R pr E [] w (Match (AVar (pc_var pv)) arms) r w'" if "runs_block R pr E [] w ss r w'" for r w'
    by (rule runs_Match_some [OF _ assms(2)]) (use assms(1) that in \<open>simp_all add: bind_all_def\<close>)
  have l: "runs_block R pr E [] w [synthetic (Match (AVar (pc_var pv)) arms)] r w'" if "runs_block R pr E [] w ss r w'" for r w'
    by (rule runs_block_single) (simp add: synthetic_def m [OF that])
  from assms(3) show ?thesis
    unfolding arm_polls_def poll_loop_def
  proof
    assume "runs_block R pr E [] w ss (Ret u) w1"
    from l [OF this] show "runs R pr E [] w (Loop [synthetic (Match (AVar (pc_var pv)) arms)]) (Ret u) w1"
      by (rule runs_Loop_exit) simp
  next
    assume "\<exists>E' w'. runs_block R pr E [] w ss (Norm E' []) w'
      \<and> runs R pr E' [] w' (Loop [synthetic (Match (AVar (pc_var pv)) arms)]) (Ret u) w1"
    then obtain E' w' where n: "runs_block R pr E [] w ss (Norm E' []) w'"
      "runs R pr E' [] w' (Loop [synthetic (Match (AVar (pc_var pv)) arms)]) (Ret u) w1" by blast
    from runs_Loop_next [OF l [OF n(1)] _ n(2)] show "runs R pr E [] w (Loop [synthetic (Match (AVar (pc_var pv)) arms)]) (Ret u) w1"
      by simp
  qed
qed

lemma runs_set_pc: "runs_block R pr E [] w [set_pc pc t] (Norm (E(pc \<mapsto> VInt (of_nat t))) []) w"
  by (rule runs_block_single) (simp add: set_pc_def synthetic_def bid_const_def runs_Let_Use)

end
