(* ===== verification/CpsPoll.thy ===== *)
theory CpsPoll
  imports CpsEmit
begin

text \<open>
  A poll function and its driver against the graph it is emitted from: each run of the graph is
  driven to the same value and world.
\<close>

section \<open>Variables of a function\<close>

lemma finite_collect_pattern [simp]: "finite (collect_pattern_binds p)"
  by (induction p) (auto split: option.splits list_rest.splits record_rest.splits)

lemma finite_collect [simp]:
  "finite (collect_block_reads b)" "finite (collect_stmt_reads k)" "finite (collect_cases_reads cs)" "finite (collect_arms_reads as)"
  by (induction b and k and cs and as rule: collect_block_reads_collect_stmt_reads_collect_cases_reads_collect_arms_reads.induct) auto

lemma finite_collect_binds [simp]:
  "finite (collect_block_binds b)" "finite (collect_stmt_binds k)" "finite (collect_cases_binds cs)" "finite (collect_arms_binds as)"
  by (induction b and k and cs and as rule: collect_block_binds_collect_stmt_binds_collect_cases_binds_collect_arms_binds.induct) auto

lemma max_var_bound:
  "set (params f) \<subseteq> {..max_var f}" "set (captures f) \<subseteq> {..max_var f}"
  "collect_block_reads (body f) \<subseteq> {..max_var f}" "collect_block_binds (body f) \<subseteq> {..max_var f}"
  unfolding max_var_def by (auto intro!: Max_ge)

lemma poll_vars_fresh:
  "state_var (poll_vars_of f) = max_var f + 1" "resume_var (poll_vars_of f) = max_var f + 2"
  "pc_var (poll_vars_of f) = max_var f + 3"
  "defers_var (poll_vars_of f) = (if block_has_defer (body f) then Some (max_var f + 4) else None)"
  by (simp_all add: poll_vars_of_def Let_def)

lemma first_fresh_above:
  "max_var f + 3 < first_fresh f" "defers_var (poll_vars_of f) = Some dv \<Longrightarrow> dv < first_fresh f"
  by (auto simp: first_fresh_def poll_vars_fresh split: if_splits)

section \<open>Liveness and assignment together\<close>

definition live_solution :: "var_id set \<Rightarrow> basic_block list \<Rightarrow> var_id list list \<Rightarrow> bool" where
  "live_solution caps bs live \<longleftrightarrow> length live = length bs
     \<and> (\<forall>b < length bs. distinct (live ! b) \<and> set (live ! b) = live_at caps bs (live_sets live) b)
     \<and> (\<forall>X. live_closed caps bs X \<longrightarrow> live_le (live_sets live) X)"

lemma liveness_solution: "in_range bs \<Longrightarrow> \<exists>live. liveness bs caps = Some live \<and> live_solution caps bs live"
  by (rule liveness_result [of bs caps]) (auto simp: live_solution_def)

lemma kill_gen_parts:
  assumes "block_within V B D bb"
  shows "fst (kill_gen caps bb) = resume_binds bb \<union> lets (bb_stmts bb) \<union> term_binds (bb_term bb)"
    and "snd (kill_gen caps bb) \<subseteq> X \<Longrightarrow> reads_ok (X \<union> caps \<union> resume_binds bb) (bb_stmts bb)
      \<and> term_reads (bb_term bb) \<subseteq> X \<union> caps \<union> resume_binds bb \<union> lets (bb_stmts bb)"
    and "flow_ok T A bb \<Longrightarrow> snd (kill_gen caps bb) \<subseteq> A - caps - resume_binds bb"
proof -
  let ?kg = "fold (\<lambda>s. gen_kill_stmt caps (kind s)) (bb_stmts bb) (resume_binds bb, {})"
  have s: "\<forall>s \<in> set (bb_stmts bb). simple_kind (kind s)" using assms by (auto simp: block_within_def stmt_within_def)
  note g = gen_reads [OF s, where caps = caps and K = "resume_binds bb" and G = "{}"]
  show "fst (kill_gen caps bb) = resume_binds bb \<union> lets (bb_stmts bb) \<union> term_binds (bb_term bb)"
    using g(1) by (simp add: kill_gen_def Let_def)
  have snd: "snd (kill_gen caps bb) = snd ?kg \<union> (term_reads (bb_term bb) - fst ?kg - caps)"
    by (simp add: kill_gen_def Let_def)
  show "reads_ok (X \<union> caps \<union> resume_binds bb) (bb_stmts bb)
      \<and> term_reads (bb_term bb) \<subseteq> X \<union> caps \<union> resume_binds bb \<union> lets (bb_stmts bb)" if "snd (kill_gen caps bb) \<subseteq> X"
    using g(1,2) that snd by auto
  show "snd (kill_gen caps bb) \<subseteq> A - caps - resume_binds bb" if f: "flow_ok T A bb"
  proof -
    have "term_reads (bb_term bb) \<subseteq> A \<union> lets (bb_stmts bb)" using f by (cases "bb_term bb") (auto simp: flow_ok_def)
    moreover have "snd ?kg \<subseteq> A - resume_binds bb - caps" using f g(3) [where A = A] by (simp add: flow_ok_def)
    ultimately show ?thesis using g(1) snd by auto
  qed
qed

text \<open>Where a successor's assigned variables come from, and what the edge binds.\<close>

lemma flow_edge:
  assumes "flow_ok T A bb" and "term_edges (\<lambda>rb t. resume_bind (bs ! t) = rb) (bb_term bb)" and "t \<in> set (term_successors (bb_term bb))"
  shows "T t - resume_binds (bs ! t) \<subseteq> A \<union> lets (bb_stmts bb) \<union> term_binds (bb_term bb)"
  using assms by (cases "bb_term bb") (force simp: flow_ok_def resume_binds_def split: option.splits)+

lemma live_assigned:
  assumes sh: "shaped f bs" and fl: "flows f bs T" and L: "live_solution caps bs live" and b: "b < length bs"
  shows "set (live ! b) \<subseteq> T b - caps - resume_binds (bs ! b)"
proof -
  let ?X = "map (\<lambda>i. T i - caps - resume_binds (bs ! i)) [0..<length bs]"
  have "live_at caps bs ?X i \<subseteq> ?X ! i" if i: "i < length bs" for i
  proof -
    have w: "block_within (collect_block_reads (body f)) (collect_block_binds (body f)) (block_has_defer (body f)) (bs ! i)"
      and e: "term_edges (\<lambda>rb t. 0 < t \<and> t < length bs \<and> resume_bind (bs ! t) = rb) (bb_term (bs ! i))"
      using sh i by (auto simp: shaped_def)
    have fo: "flow_ok T (T i) (bs ! i)" using fl i by (simp add: flows_def)
    have succ: "?X ! t - fst (kill_gen caps (bs ! i)) \<subseteq> ?X ! i" if t: "t \<in> set (term_successors (bb_term (bs ! i)))" for t
    proof -
      have "t < length bs" using shaped_in_range [OF sh] i t by (auto simp: in_range_def)
      moreover have "T t - resume_binds (bs ! t) \<subseteq> T i \<union> lets (bb_stmts (bs ! i)) \<union> term_binds (bb_term (bs ! i))"
        by (rule flow_edge [OF fo term_edges_mono [OF e] t]) simp
      ultimately show ?thesis using i kill_gen_parts(1) [OF w, of caps] by auto
    qed
    then show ?thesis
      using kill_gen_parts(3) [OF w fo, of caps] i by (fastforce simp: live_at_def Let_def)
  qed
  then have "live_closed caps bs ?X" by (simp add: live_closed_def)
  with L have "live_le (live_sets live) ?X" by (auto simp: live_solution_def)
  with b L show ?thesis by (auto simp: live_le_def live_sets_def live_solution_def)
qed

lemma live_edge:
  assumes sh: "shaped f bs" and L: "live_solution caps bs live" and b: "b < length bs"
    and t: "t \<in> set (term_successors (bb_term (bs ! b)))"
  shows "set (live ! t) \<subseteq> set (live ! b) \<union> resume_binds (bs ! b) \<union> lets (bb_stmts (bs ! b)) \<union> term_binds (bb_term (bs ! b))"
proof -
  have w: "block_within (collect_block_reads (body f)) (collect_block_binds (body f)) (block_has_defer (body f)) (bs ! b)"
    using sh b by (auto simp: shaped_def)
  have "t < length bs" using shaped_in_range [OF sh] b t by (auto simp: in_range_def)
  then have lt: "live_sets live ! t = set (live ! t)" using L by (simp add: live_sets_def live_solution_def)
  have "set (live ! b) = live_at caps bs (live_sets live) b" using L b by (simp add: live_solution_def)
  then have "live_sets live ! t - fst (kill_gen caps (bs ! b)) \<subseteq> set (live ! b)"
    using t by (auto simp: live_at_def Let_def)
  then show ?thesis unfolding lt kill_gen_parts(1) [OF w] by auto
qed

lemma live_reads:
  assumes sh: "shaped f bs" and L: "live_solution caps bs live" and b: "b < length bs"
  shows "reads_ok (set (live ! b) \<union> caps \<union> resume_binds (bs ! b)) (bb_stmts (bs ! b))"
    and "term_reads (bb_term (bs ! b)) \<subseteq> set (live ! b) \<union> caps \<union> resume_binds (bs ! b) \<union> lets (bb_stmts (bs ! b))"
proof -
  have w: "block_within (collect_block_reads (body f)) (collect_block_binds (body f)) (block_has_defer (body f)) (bs ! b)"
    using sh b by (auto simp: shaped_def)
  have "set (live ! b) = live_at caps bs (live_sets live) b" using L b by (simp add: live_solution_def)
  then have "snd (kill_gen caps (bs ! b)) \<subseteq> set (live ! b)" by (auto simp: live_at_def Let_def)
  from kill_gen_parts(2) [OF w this]
  show "reads_ok (set (live ! b) \<union> caps \<union> resume_binds (bs ! b)) (bb_stmts (bs ! b))"
    "term_reads (bb_term (bs ! b)) \<subseteq> set (live ! b) \<union> caps \<union> resume_binds (bs ! b) \<union> lets (bb_stmts (bs ! b))"
    by blast+
qed

lemma gen_within:
  assumes "block_within V B D bb"
  shows "snd (kill_gen caps bb) \<subseteq> V"
proof -
  have "snd (fold (\<lambda>s. gen_kill_stmt caps (kind s)) ss kg) \<subseteq> snd kg \<union> V"
    if "\<forall>s \<in> set ss. stmt_within V B D s" for ss kg
    using that
  proof (induction ss arbitrary: kg)
    case (Cons s ss)
    have "snd (gen_kill_stmt caps (kind s) kg) \<subseteq> snd kg \<union> V"
      using Cons.prems by (cases "kind s") (auto simp: stmt_within_def Let_def)
    with Cons.IH [of "gen_kill_stmt caps (kind s) kg"] Cons.prems show ?case by auto
  qed simp
  from this [of "bb_stmts bb" "(resume_binds bb, {})"] assms show ?thesis
    by (auto simp: block_within_def kill_gen_def Let_def)
qed

lemma live_within:
  assumes sh: "shaped f bs" and L: "live_solution caps bs live" and b: "b < length bs"
  shows "set (live ! b) \<subseteq> collect_block_reads (body f)"
proof -
  have "live_closed caps bs (replicate (length bs) (all_gens caps bs))"
    by (rule closed_all_gens [OF shaped_in_range [OF sh]])
  with L have "live_le (live_sets live) (replicate (length bs) (all_gens caps bs))"
    by (auto simp: live_solution_def)
  with b L have "set (live ! b) \<subseteq> all_gens caps bs" by (auto simp: live_le_def live_sets_def live_solution_def)
  also have "\<dots> \<subseteq> collect_block_reads (body f)"
    using sh gen_within unfolding all_gens_def shaped_def by blast
  finally show ?thesis .
qed

section \<open>Patterns bind their variables\<close>

lemma match_binds:
  "match_pat p v = Binds bs \<Longrightarrow> fst ` set bs = collect_pattern_binds p"
  "match_all ps vs = Binds bs \<Longrightarrow> fst ` set bs = (\<Union>p \<in> set ps. collect_pattern_binds p)"
  "match_fields fs us = Binds bs \<Longrightarrow> fst ` set bs = (\<Union>p \<in> set fs. collect_pattern_binds (snd p))"
proof (induction p v and ps vs and fs us arbitrary: bs and bs and bs rule: match_pat_match_all_match_fields.induct)
  case (6 ps rest v)
  from "6.prems" obtain vs where v: "v = VList vs" by (auto split: val.splits)
  show ?case
  proof (cases rest)
    case None
    with 6 v show ?thesis by (auto split: if_splits)
  next
    case (Some r)
    with "6.prems" v obtain bs' where l: "\<not> length vs < length ps"
      and b: "match_all ps (take (length ps) vs) = Binds bs'"
        "(case r of ListRest_Anon \<Rightarrow> Binds bs' | ListRest_Bind x \<Rightarrow> Binds (bs' @ [(x, VList (drop (length ps) vs))])) = Binds bs"
      by (auto simp: and_then_Binds split: if_splits)
    note IH = "6.IH"(2) [OF v Some l b(1)]
    show ?thesis
    proof (cases r)
      case ListRest_Anon
      with IH b(2) Some show ?thesis by simp
    next
      case (ListRest_Bind x)
      with b(2) have "bs = bs' @ [(x, VList (drop (length ps) vs))]" by simp
      with IH Some ListRest_Bind show ?thesis by simp
    qed
  qed
next
  case (7 fs rest sh v)
  from "7.prems" obtain vs where v: "v = VRecord vs" by (auto split: val.splits)
  show ?case
  proof (cases rest)
    case (RecordRest_Bind x)
    with "7.prems" v obtain bs' where b: "match_fields fs vs = Binds bs'"
      "bs = (x, VRecord (filter (\<lambda>p. fst p \<notin> fst ` set fs) vs)) # bs'" by (auto simp: and_then_Binds)
    from "7.IH"(3) [OF v RecordRest_Bind b(1)] b(2) RecordRest_Bind show ?thesis by auto
  qed (use 7 v in \<open>auto split: if_splits\<close>)
next
  case (9 p ps vs)
  from "9.prems" obtain v vs' bs1 bs2 where v: "vs = v # vs'" and b: "match_pat p v = Binds bs1" "match_all ps vs' = Binds bs2"
    "bs = bs1 @ bs2" by (auto simp: and_then_Binds split: list.splits)
  from "9.IH"(1) [OF v b(1)] "9.IH"(2) [OF v b(1,2)] b(3) show ?case by (simp add: image_Un)
next
  case (11 n p fs vs)
  from "11.prems" obtain v bs1 bs2 where v: "map_of vs n = Some v" and b: "match_pat p v = Binds bs1" "match_fields fs vs = Binds bs2"
    "bs = bs1 @ bs2" by (auto simp: and_then_Binds split: option.splits)
  from "11.IH"(1) [OF v b(1)] "11.IH"(2) [OF v b(1,2)] b(3) show ?case by (simp add: image_Un)
qed (auto split: val.splits option.splits bool.splits if_splits)

lemma bind_all_dom: "dom (bind_all e bs) = dom e \<union> fst ` set bs"
  by (auto simp: bind_all_def dom_map_of_conv_image_fst)

lemma bind_all_bound: "x \<in> fst ` set bs \<Longrightarrow> bind_all e bs x = bind_all e' bs x"
proof -
  assume "x \<in> fst ` set bs"
  then obtain v where "map_of (rev bs) x = Some v" by (metis map_of_eq_None_iff not_None_eq set_rev)
  then show ?thesis by (simp add: bind_all_def map_add_def)
qed

end
