(* ===== verification/CpsDrive.thy ===== *)
theory CpsDrive
  imports CpsPoll
begin

text \<open>
  The simulation: a frame of the poll function that agrees with the frame of the body on the live
  variables, the captures and the carried cleanups, block by block and poll by poll.
\<close>

section \<open>The setting\<close>

definition poll_arms :: "ir_function \<Rightarrow> basic_block list \<Rightarrow> var_id list list \<Rightarrow> match_arm list" where
  "poll_arms f bs live = emit_arms (poll_vars_of f) (params f) live (length bs) (enumerate 0 bs) (first_fresh f)"

definition polls_as :: "ir_function list \<Rightarrow> func_id \<Rightarrow> ir_function \<Rightarrow> basic_block list \<Rightarrow> var_id list list \<Rightarrow> bool" where
  "polls_as R pf f bs live \<longleftrightarrow> pf < length R
     \<and> params (R ! pf) = [state_var (poll_vars_of f), resume_var (poll_vars_of f)] \<and> captures (R ! pf) = captures f
     \<and> body (R ! pf) = poll_body (poll_vars_of f) (poll_arms f bs live)"

definition poll_setup where
  "poll_setup R pr aw pf f bs live T capv \<longleftrightarrow> polls_as R pf f bs live \<and> shaped f bs \<and> flows f bs T
     \<and> live_solution (set (captures f)) bs live \<and> length bs \<le> 2 ^ 64 \<and> poll_prims pr aw
     \<and> length capv = length (captures f) \<and> distinct (params f @ captures f)
     \<and> collect_block_binds (body f) \<inter> set (captures f) = {}"

lemma poll_setupD:
  assumes "poll_setup R pr aw pf f bs live T capv"
  shows "polls_as R pf f bs live" "shaped f bs" "flows f bs T" "live_solution (set (captures f)) bs live"
    "length bs \<le> 2 ^ 64" "poll_prims pr aw" "length capv = length (captures f)" "distinct (params f @ captures f)"
    "collect_block_binds (body f) \<inter> set (captures f) = {}"
  using assms by (simp_all add: poll_setup_def)

text \<open>The two frames at the start of a block.\<close>

definition holds where
  "holds f bs live T capv b e ds E \<longleftrightarrow> T b \<subseteq> dom e
     \<and> (\<forall>x \<in> set (captures f). e x = map_of (zip (captures f) capv) x)
     \<and> env_le (set (live ! b) \<union> set (captures f) \<union> resume_binds (bs ! b)) e E \<and> carried (poll_vars_of f) E ds"

definition polled where
  "polled R pr aw pf f bs live T capv b e ds w v wn \<longleftrightarrow>
     (\<forall>E c. first_fresh f \<le> c \<longrightarrow> holds f bs live T capv b e ds E \<longrightarrow>
        (\<exists>u w1. arm_polls R pr (poll_vars_of f) (poll_arms f bs live) E w
             (map (copy_stmt (defers_var (poll_vars_of f))) (bb_stmts (bs ! b))
                @ fst (emit_term (poll_vars_of f) live (bb_term (bs ! b)) c)) u w1
           \<and> settles R pr aw pf capv u w1 v wn))"

section \<open>The statements of a block\<close>

definition covered where
  "covered f bs live b = set (live ! b) \<union> set (captures f) \<union> resume_binds (bs ! b) \<union> lets (bb_stmts (bs ! b))"

lemma block_end:
  assumes S: "poll_setup R pr aw pf f bs live T capv" and b: "b < length bs" and h: "holds f bs live T capv b e ds E"
    and r: "runs_block R pr e ds w (bb_stmts (bs ! b)) (Norm e1 ds1) w1"
  obtains E1 where
    "runs_block R pr E [] w (map (copy_stmt (defers_var (poll_vars_of f))) (bb_stmts (bs ! b))) (Norm E1 []) w1"
    and "env_le (covered f bs live b) e1 E1" and "carried (poll_vars_of f) E1 ds1"
    and "T b \<union> lets (bb_stmts (bs ! b)) \<subseteq> dom e1"
    and "\<forall>x \<in> set (captures f). e1 x = map_of (zip (captures f) capv) x"
proof -
  note D = poll_setupD [OF S]
  let ?V = "collect_block_reads (body f)" and ?B = "collect_block_binds (body f)" and ?m = "max_var f"
  let ?S = "set (live ! b) \<union> set (captures f) \<union> resume_binds (bs ! b)"
  have w: "block_within ?V ?B (block_has_defer (body f)) (bs ! b)" using D(2) b by (auto simp: shaped_def)
  then have s: "\<forall>s \<in> set (bb_stmts (bs ! b)). stmt_within ?V ?B (defers_var (poll_vars_of f) \<noteq> None) s"
    by (auto simp: block_within_def stmt_within_def poll_vars_fresh)
  have res: "resume_binds (bs ! b) \<subseteq> ?B" using w by (simp add: block_within_def)
  have Sm: "?S \<subseteq> {..?m}"
    using live_within [OF D(2,4) b] max_var_bound [of f] res by auto
  have dv: "?m < dv" if "defers_var (poll_vars_of f) = Some dv" for dv
    using that by (auto simp: poll_vars_fresh split: if_splits)
  have reads: "reads_ok ?S (bb_stmts (bs ! b))" using live_reads(1) [OF D(2,4) b] by simp
  from copy_runs [OF D(6) r s reads _ _ max_var_bound(4) Sm dv] h
  obtain E1 where E1: "runs_block R pr E [] w (map (copy_stmt (defers_var (poll_vars_of f))) (bb_stmts (bs ! b))) (Norm E1 []) w1"
    "env_le (?S \<union> lets (bb_stmts (bs ! b))) e1 E1" "carried (poll_vars_of f) E1 ds1"
    "dom e \<union> lets (bb_stmts (bs ! b)) \<subseteq> dom e1" "\<forall>x. x \<notin> ?B \<longrightarrow> e1 x = e x"
    unfolding holds_def by blast
  have "\<forall>x \<in> set (captures f). e1 x = map_of (zip (captures f) capv) x"
    using E1(5) D(9) h by (auto simp: holds_def)
  moreover have "T b \<subseteq> dom e" using h by (simp add: holds_def)
  with E1(4) have "T b \<union> lets (bb_stmts (bs ! b)) \<subseteq> dom e1" by (meson Un_mono le_sup_iff subset_trans)
  ultimately show thesis using that E1(1-3) by (simp add: covered_def)
qed

section \<open>The edges within a poll\<close>

lemma switch_arm_target:
  "switch_arm (map (\<lambda>(k, t). (k, [set_pc pc t])) arms) [set_pc pc d] k = [set_pc pc (switch_target arms d k)]"
  by (induction arms d k rule: switch_target.induct) auto

lemma match_arms_target:
  "match_target arms v = Some (bs, t) \<Longrightarrow>
   match_arms (map (\<lambda>(p, t). MatchArm p [set_pc pc t]) arms) v = Done (Some (bs, [set_pc pc t]))"
  by (induction arms v rule: match_target.induct) (auto split: matched.splits)

lemma goto_runs:
  assumes t: "term_step pr e1 w1 u = Some (t, e2, w2)" and u: "\<And>task rb t. u \<noteq> Suspend task rb t"
    and le: "env_le S e1 E1" and rd: "term_reads u \<subseteq> S"
  obtains as where "w2 = w1" and "e2 = bind_all e1 as"
    and "runs_block R pr E1 [] w1 (fst (emit_term pv live u c)) (Norm ((bind_all E1 as)(pc_var pv \<mapsto> VInt (of_nat t))) []) w1"
    and "as = [] \<and> (\<forall>a arms. u \<noteq> MatchT a arms)
      \<or> (\<exists>a arms p. u = MatchT a arms \<and> (p, t) \<in> set arms \<and> fst ` set as = collect_pattern_binds p)"
proof (cases u)
  case (Jump t')
  with t that [of "[]"] runs_set_pc [of R pr E1 w1 "pc_var pv" t] show thesis by (simp add: bind_all_def)
next
  case (Branch c' bt bf)
  with t obtain b where b: "eval_atom e1 c' = Some (VBool b)" "t = (if b then bt else bf)" "e2 = e1" "w2 = w1"
    by (auto split: option.splits val.splits)
  have "eval_atom E1 c' = Some (VBool b)" by (rule env_le_collect [OF le _ b(1)]) (use rd Branch in simp)
  from runs_If [OF this, of R pr "[]" w1] b(2) runs_set_pc [of R pr E1 w1 "pc_var pv" t]
  have "runs R pr E1 [] w1 (If c' [set_pc (pc_var pv) bt] [set_pc (pc_var pv) bf])
      (Norm (E1(pc_var pv \<mapsto> VInt (of_nat t))) []) w1" by (cases b) auto
  with b Branch that [of "[]"] show thesis by (simp add: bind_all_def runs_block_single synthetic_def)
next
  case (SwitchT c' arms d)
  with t obtain k where k: "eval_atom e1 c' = Some (VInt k)" "t = switch_target arms d k" "e2 = e1" "w2 = w1"
    by (auto split: option.splits val.splits)
  have "eval_atom E1 c' = Some (VInt k)" by (rule env_le_collect [OF le _ k(1)]) (use rd SwitchT in simp)
  from runs_Switch [OF this, of R pr "[]" w1] k(2) runs_set_pc [of R pr E1 w1 "pc_var pv" t]
  have "runs R pr E1 [] w1 (Switch c' (map (\<lambda>(k, t). (k, [set_pc (pc_var pv) t])) arms) [set_pc (pc_var pv) d])
      (Norm (E1(pc_var pv \<mapsto> VInt (of_nat t))) []) w1" by (simp add: switch_arm_target)
  with k SwitchT that [of "[]"] show thesis by (simp add: bind_all_def runs_block_single synthetic_def)
next
  case (MatchT c' arms)
  with t obtain v as where v: "eval_atom e1 c' = Some v" "match_target arms v = Some (as, t)" "e2 = bind_all e1 as" "w2 = w1"
    by (auto split: option.splits)
  have "eval_atom E1 c' = Some v" by (rule env_le_collect [OF le _ v(1)]) (use rd MatchT in simp)
  from runs_Match_some [OF this match_arms_target [OF v(2)] runs_set_pc]
  have "runs R pr E1 [] w1 (Match c' (map (\<lambda>(p, t). MatchArm p [set_pc (pc_var pv) t]) arms))
      (Norm ((bind_all E1 as)(pc_var pv \<mapsto> VInt (of_nat t))) []) w1" .
  moreover obtain p where "(p, t) \<in> set arms" "match_pat p v = Binds as" using match_target_in [OF v(2)] by blast
  ultimately show thesis
    using v MatchT that [of as] match_binds(1) by (simp add: runs_block_single synthetic_def) blast
qed (use t u in auto)

section \<open>Along an edge\<close>

lemma plain_edge:
  "term_edges Q u \<Longrightarrow> t \<in> set (term_successors u) \<Longrightarrow> (\<And>task rb t. u \<noteq> Suspend task rb t) \<Longrightarrow> Q None t"
  by (cases u) auto

lemma plain_flow:
  assumes "term_flow T A u" and "t \<in> set (term_successors u)" and "\<And>task rb t. u \<noteq> Suspend task rb t"
    and "as = [] \<and> (\<forall>a arms. u \<noteq> MatchT a arms)
      \<or> (\<exists>a arms p. u = MatchT a arms \<and> (p, t) \<in> set arms \<and> fst ` set as = collect_pattern_binds p)"
  shows "T t \<subseteq> A \<union> fst ` set as" and "fst ` set as \<subseteq> term_binds u" and "A \<inter> term_binds u = {}"
proof -
  have "T t \<subseteq> A \<union> fst ` set as \<and> fst ` set as \<subseteq> term_binds u \<and> A \<inter> term_binds u = {}"
  proof (cases "\<exists>a arms. u = MatchT a arms")
    case True
    with assms(4) obtain a arms p where u: "u = MatchT a arms" "(p, t) \<in> set arms" "fst ` set as = collect_pattern_binds p"
      by blast
    have arm: "\<forall>a \<in> set arms. A \<inter> collect_pattern_binds (fst a) = {} \<and> T (snd a) \<subseteq> A \<union> collect_pattern_binds (fst a)"
      using assms(1) u(1) by simp
    from bspec [OF arm u(2)] have "T t \<subseteq> A \<union> fst ` set as" by (simp add: u(3))
    moreover have "collect_pattern_binds p \<subseteq> term_binds (MatchT a arms)" using u(2) by force
    then have "fst ` set as \<subseteq> term_binds u" by (simp only: u(1,3))
    moreover have "A \<inter> term_binds u = {}" using arm by (auto simp: u(1))
    ultimately show ?thesis by blast
  next
    case False
    with assms(4) have as: "as = []" by blast
    have "T t \<subseteq> A \<and> term_binds u = {}" using assms(1-3) False by (cases u) auto
    with as show ?thesis by simp
  qed
  then show "T t \<subseteq> A \<union> fst ` set as" "fst ` set as \<subseteq> term_binds u" "A \<inter> term_binds u = {}" by blast+
qed

lemma block_parts:
  assumes S: "poll_setup R pr aw pf f bs live T capv" and b: "b < length bs"
  shows "term_edges (\<lambda>rb t. 0 < t \<and> t < length bs \<and> resume_bind (bs ! t) = rb) (bb_term (bs ! b))"
    and "edge_binds (bb_term (bs ! b)) \<subseteq> collect_block_binds (body f)"
    and "term_flow T (T b \<union> lets (bb_stmts (bs ! b))) (bb_term (bs ! b))"
    and "term_reads (bb_term (bs ! b)) \<subseteq> covered f bs live b"
proof -
  note D = poll_setupD [OF S]
  show "term_edges (\<lambda>rb t. 0 < t \<and> t < length bs \<and> resume_bind (bs ! t) = rb) (bb_term (bs ! b))"
    "edge_binds (bb_term (bs ! b)) \<subseteq> collect_block_binds (body f)"
    using D(2) b by (auto simp: shaped_def block_within_def)
  show "term_flow T (T b \<union> lets (bb_stmts (bs ! b))) (bb_term (bs ! b))"
    using D(3) b by (simp add: flows_def flow_ok_def)
  show "term_reads (bb_term (bs ! b)) \<subseteq> covered f bs live b"
    using live_reads(2) [OF D(2,4) b] by (simp add: covered_def)
qed

lemma var_bounds:
  assumes S: "poll_setup R pr aw pf f bs live T capv" and t: "t < length bs"
  shows "set (live ! t) \<union> set (captures f) \<union> collect_block_binds (body f) \<subseteq> {..max_var f}"
  using live_within [OF poll_setupD(2) [OF S] poll_setupD(4) [OF S] t] max_var_bound [of f] by auto

lemma edge_holds:
  assumes S: "poll_setup R pr aw pf f bs live T capv" and b: "b < length bs"
    and le: "env_le (covered f bs live b) e1 E1" and ca: "carried (poll_vars_of f) E1 ds1"
    and dm: "T b \<union> lets (bb_stmts (bs ! b)) \<subseteq> dom e1"
    and cp: "\<forall>x \<in> set (captures f). e1 x = map_of (zip (captures f) capv) x"
    and t: "t \<in> set (term_successors (bb_term (bs ! b)))" and n: "\<And>task rb t. bb_term (bs ! b) \<noteq> Suspend task rb t"
    and as: "as = [] \<and> (\<forall>a arms. bb_term (bs ! b) \<noteq> MatchT a arms)
      \<or> (\<exists>a arms p. bb_term (bs ! b) = MatchT a arms \<and> (p, t) \<in> set arms \<and> fst ` set as = collect_pattern_binds p)"
  shows "resume_bind (bs ! t) = None" and "0 < t" and "t < length bs"
    and "holds f bs live T capv t (bind_all e1 as) ds1 ((bind_all E1 as)(pc_var (poll_vars_of f) \<mapsto> VInt (of_nat t)))"
proof -
  note D = poll_setupD [OF S] and P = block_parts [OF S b]
  let ?A = "T b \<union> lets (bb_stmts (bs ! b))" and ?pc = "pc_var (poll_vars_of f)"
  show r: "resume_bind (bs ! t) = None" and t0: "0 < t" and tl: "t < length bs"
    using plain_edge [OF P(1) t n] by simp_all
  note F = plain_flow [OF P(3) t n as]
  have tb: "term_binds (bb_term (bs ! b)) \<subseteq> collect_block_binds (body f)"
    using P(2) n by (cases "bb_term (bs ! b)") auto
  have lv: "set (live ! t) \<subseteq> T t - set (captures f)" using live_assigned [OF D(2-4) tl] by blast
  have le1: "env_le (set (live ! t) \<union> set (captures f)) (bind_all e1 as) (bind_all E1 as)"
    unfolding env_le_def
  proof (intro ballI impI)
    fix x assume x: "x \<in> set (live ! t) \<union> set (captures f)" and d: "bind_all e1 as x \<noteq> None"
    show "bind_all E1 as x = bind_all e1 as x"
    proof (cases "x \<in> fst ` set as")
      case True
      then show ?thesis by (rule bind_all_bound)
    next
      case False
      have "x \<in> covered f bs live b"
      proof (cases "x \<in> set (captures f)")
        case False
        with x have xl: "x \<in> set (live ! t)" by simp
        with lv F(1) \<open>x \<notin> fst ` set as\<close> have "x \<in> ?A" by blast
        with F(3) have "x \<notin> term_binds (bb_term (bs ! b))" by blast
        with live_edge [OF D(2,4) b t] xl show ?thesis by (auto simp: covered_def)
      qed (simp add: covered_def)
      with le d False show ?thesis by (simp add: env_le_def bind_all_other)
    qed
  qed
  have pc: "?pc \<notin> set (live ! t) \<union> set (captures f)" using var_bounds [OF S tl] by (auto simp: poll_vars_fresh)
  show "holds f bs live T capv t (bind_all e1 as) ds1 ((bind_all E1 as)(?pc \<mapsto> VInt (of_nat t)))"
    unfolding holds_def
  proof (intro conjI)
    show "T t \<subseteq> dom (bind_all e1 as)" using F(1) dm by (auto simp: bind_all_dom)
    show "\<forall>x \<in> set (captures f). bind_all e1 as x = map_of (zip (captures f) capv) x"
    proof
      fix x assume "x \<in> set (captures f)"
      moreover from this have "x \<notin> fst ` set as" using D(9) F(2) tb by auto
      ultimately show "bind_all e1 as x = map_of (zip (captures f) capv) x" using cp by (simp add: bind_all_other)
    qed
    show "env_le (set (live ! t) \<union> set (captures f) \<union> resume_binds (bs ! t)) (bind_all e1 as)
        ((bind_all E1 as)(?pc \<mapsto> VInt (of_nat t)))"
      using env_le_fresh [OF le1 pc] r by (simp add: resume_binds_def)
    have "(bind_all E1 as) dv = E1 dv" if "defers_var (poll_vars_of f) = Some dv" for dv
    proof -
      have "fst ` set as \<subseteq> {..max_var f}" using F(2) tb max_var_bound(4) [of f] by blast
      moreover have "max_var f < dv" using that by (auto simp: poll_vars_fresh split: if_splits)
      ultimately have "dv \<notin> fst ` set as" by auto
      then show ?thesis by (rule bind_all_other)
    qed
    with carried_cong [OF ca] have "carried (poll_vars_of f) (bind_all E1 as) ds1" by blast
    then show "carried (poll_vars_of f) ((bind_all E1 as)(?pc \<mapsto> VInt (of_nat t))) ds1"
      by (rule carried_upd) (auto simp: poll_vars_fresh)
  qed
qed

lemma runs_then:
  "evals P pr E w rv v w1 \<Longrightarrow> runs_block P pr (E(x \<mapsto> v)) ds w1 ss r w2 \<Longrightarrow>
   runs_block P pr E ds w (synthetic (Let x rv) # ss) r w2"
  unfolding synthetic_def by (blast intro: runs_stmt runs_Let)

lemma runs_return_var: "E x = Some v \<Longrightarrow> runs_block P pr E [] w (synthetic (Return (AVar x)) # ss) (Ret v) w"
  unfolding synthetic_def by (rule runs_stmt_exit [OF runs_Return]) simp_all

lemma next_arm:
  assumes S: "poll_setup R pr aw pf f bs live T capv" and t: "t < length bs"
  obtains c where "first_fresh f \<le> c" and "match_arms (poll_arms f bs live) (VInt (of_nat t)) = Done (Some ([],
    prologue (poll_vars_of f) (params f) (live ! t) t (bs ! t) @ map (copy_stmt (defers_var (poll_vars_of f))) (bb_stmts (bs ! t))
      @ fst (emit_term (poll_vars_of f) live (bb_term (bs ! t)) c)))"
  using dispatch_arm [of 0 t bs "length bs" "first_fresh f" "poll_vars_of f" "params f" live] t poll_setupD(5) [OF S]
  by (auto simp: poll_arms_def arm_code_def)

lemma polled_step:
  assumes S: "poll_setup R pr aw pf f bs live T capv" and b: "b < length bs"
    and r: "runs_block R pr e ds w (bb_stmts (bs ! b)) (Norm e1 ds1) w1"
    and st: "term_step pr e1 w1 (bb_term (bs ! b)) = Some (t, e2, w2)" and n: "\<And>task rb t. bb_term (bs ! b) \<noteq> Suspend task rb t"
    and IH: "polled R pr aw pf f bs live T capv t e2 ds1 w2 v wn"
  shows "polled R pr aw pf f bs live T capv b e ds w v wn"
  unfolding polled_def
proof (intro allI impI)
  fix E c assume "first_fresh f \<le> c" and h: "holds f bs live T capv b e ds E"
  let ?pv = "poll_vars_of f" and ?arms = "poll_arms f bs live"
  from block_end [OF S b h r] obtain E1
    where E1: "runs_block R pr E [] w (map (copy_stmt (defers_var ?pv)) (bb_stmts (bs ! b))) (Norm E1 []) w1"
      "env_le (covered f bs live b) e1 E1" "carried ?pv E1 ds1" "T b \<union> lets (bb_stmts (bs ! b)) \<subseteq> dom e1"
      "\<forall>x \<in> set (captures f). e1 x = map_of (zip (captures f) capv) x" .
  from goto_runs [OF st n E1(2) block_parts(4) [OF S b], where c = c and pv = ?pv and live = live and R = R] obtain as
    where as: "w2 = w1" "e2 = bind_all e1 as" "runs_block R pr E1 [] w1 (fst (emit_term ?pv live (bb_term (bs ! b)) c))
        (Norm ((bind_all E1 as)(pc_var ?pv \<mapsto> VInt (of_nat t))) []) w1"
      "as = [] \<and> (\<forall>a arms. bb_term (bs ! b) \<noteq> MatchT a arms)
        \<or> (\<exists>a arms p. bb_term (bs ! b) = MatchT a arms \<and> (p, t) \<in> set arms \<and> fst ` set as = collect_pattern_binds p)" .
  note ed = edge_holds [OF S b E1(2-5) term_step_in [OF st] n as(4)]
  let ?E2 = "(bind_all E1 as)(pc_var ?pv \<mapsto> VInt (of_nat t))"
  from next_arm [OF S ed(3)] obtain c' where c': "first_fresh f \<le> c'"
    "match_arms ?arms (VInt (of_nat t)) = Done (Some ([], prologue ?pv (params f) (live ! t) t (bs ! t)
       @ map (copy_stmt (defers_var ?pv)) (bb_stmts (bs ! t)) @ fst (emit_term ?pv live (bb_term (bs ! t)) c')))" .
  have p: "prologue ?pv (params f) (live ! t) t (bs ! t) = []" using ed(1,2) by (simp add: prologue_def)
  from IH c'(1) ed(4) obtain u w3 where u: "arm_polls R pr ?pv ?arms ?E2 w1
      (map (copy_stmt (defers_var ?pv)) (bb_stmts (bs ! t)) @ fst (emit_term ?pv live (bb_term (bs ! t)) c')) u w3"
    and s: "settles R pr aw pf capv u w3 v wn"
    unfolding polled_def as(1,2) by blast
  from arm_polls_loop [OF _ c'(2), where E = ?E2 and R = R and pr = pr and w = w1 and u = u and ?w1.0 = w3 and pv = ?pv] u p
  have l: "runs R pr ?E2 [] w1 (poll_loop ?pv ?arms) (Ret u) w3" by simp
  have "arm_polls R pr ?pv ?arms E1 w1 (fst (emit_term ?pv live (bb_term (bs ! b)) c)) u w3"
    unfolding arm_polls_def using as(3) l by blast
  from arm_polls_append [OF E1(1) this] s
  show "\<exists>u w1. arm_polls R pr ?pv ?arms E w (map (copy_stmt (defers_var ?pv)) (bb_stmts (bs ! b))
      @ fst (emit_term ?pv live (bb_term (bs ! b)) c)) u w1 \<and> settles R pr aw pf capv u w1 v wn"
    by blast
qed

lemma polled_return:
  assumes S: "poll_setup R pr aw pf f bs live T capv" and b: "b < length bs"
    and r: "runs_block R pr e ds w (bb_stmts (bs ! b)) (Norm e1 ds1) w1"
    and u: "bb_term (bs ! b) = ReturnT a" and a: "eval_atom e1 a = Some v" and d: "runs_defers R pr w1 ds1 w2"
  shows "polled R pr aw pf f bs live T capv b e ds w v w2"
  unfolding polled_def
proof (intro allI impI)
  fix E c assume c: "first_fresh f \<le> c" and h: "holds f bs live T capv b e ds E"
  let ?pv = "poll_vars_of f" and ?arms = "poll_arms f bs live"
  from block_end [OF S b h r] obtain E1
    where E1: "runs_block R pr E [] w (map (copy_stmt (defers_var ?pv)) (bb_stmts (bs ! b))) (Norm E1 []) w1"
      "env_le (covered f bs live b) e1 E1" "carried ?pv E1 ds1" .
  let ?x = "VVariant READY_TAG (v # (case defers_var ?pv of None \<Rightarrow> [] | Some dv \<Rightarrow> [VList (rev ds1)]))"
  have av: "eval_atom E1 a = Some v"
    by (rule env_le_collect [OF E1(2) _ a]) (use block_parts(4) [OF S b] u in simp)
  then have "eval_atoms E1 (a # defer_atoms ?pv)
      = Some (v # (case defers_var ?pv of None \<Rightarrow> [] | Some dv \<Rightarrow> [VList (rev ds1)]))"
    using E1(3) by (auto simp: defer_atoms_def carried_def split: option.splits)
  then have "evals R pr E1 w1 (MakeVariant POLL_ENUM READY_TAG (a # defer_atoms ?pv)) ?x w1"
    by (intro evals_primitive) (auto simp: dispatch_rv_def eval_prim_def poll_primsD(4) [OF poll_setupD(6) [OF S]])
  from runs_then [OF this runs_return_var, of c]
  have "runs_block R pr E1 [] w1 (fst (emit_term ?pv live (ReturnT a) c)) (Ret ?x) w1" by simp
  from runs_block_append [OF E1(1) this]
  have "arm_polls R pr ?pv ?arms E w (map (copy_stmt (defers_var ?pv)) (bb_stmts (bs ! b))
      @ fst (emit_term ?pv live (bb_term (bs ! b)) c)) ?x w1"
    by (simp add: arm_polls_def u)
  moreover have "settles R pr aw pf capv ?x w1 v w2"
  proof (cases "defers_var ?pv")
    case None
    with E1(3) d have "w2 = w1" by (simp add: carried_def)
    with None show ?thesis by (simp add: settles.ready)
  next
    case (Some dv)
    then show ?thesis using settles.ready_defers [of R pr w1 "rev ds1" w2 aw pf capv v] d by simp
  qed
  ultimately show "\<exists>u w1. arm_polls R pr ?pv ?arms E w (map (copy_stmt (defers_var ?pv)) (bb_stmts (bs ! b))
      @ fst (emit_term ?pv live (bb_term (bs ! b)) c)) u w1 \<and> settles R pr aw pf capv u w1 v w2"
    by blast
qed

section \<open>Suspension and resumption\<close>

text \<open>The state record has a field for the block, for each live variable and for the cleanups.\<close>

definition state_fields :: "poll_vars \<Rightarrow> bid \<Rightarrow> var_id list \<Rightarrow> (string \<times> atom) list" where
  "state_fields pv t lv = (TAG_FIELD, AConst (bid_const t)) # map (\<lambda>v. (var_field v, AVar v)) lv
     @ map (\<lambda>a. (DEFERS_FIELD, a)) (defer_atoms pv)"

definition saved :: "poll_vars \<Rightarrow> bid \<Rightarrow> var_id list \<Rightarrow> env \<Rightarrow> val list \<Rightarrow> (string \<times> val) list \<Rightarrow> bool" where
  "saved pv t lv e ds r \<longleftrightarrow> map_of r TAG_FIELD = Some (VInt (of_nat t))
     \<and> (\<forall>x \<in> set lv. map_of r (var_field x) = e x)
     \<and> (case defers_var pv of None \<Rightarrow> ds = [] | Some d \<Rightarrow> map_of r DEFERS_FIELD = Some (VList (rev ds)))"

lemma field_names:
  "var_field x = var_field y \<longleftrightarrow> x = y" "TAG_FIELD \<noteq> var_field x" "DEFERS_FIELD \<noteq> var_field x" "TAG_FIELD \<noteq> DEFERS_FIELD"
  "var_field x \<noteq> TAG_FIELD" "var_field x \<noteq> DEFERS_FIELD"
  by (auto simp: var_field_def TAG_FIELD_def DEFERS_FIELD_def decimal_inj)

lemma map_of_vars:
  "length vs = length xs \<Longrightarrow> x \<in> set xs \<Longrightarrow> eval_atoms E (map AVar xs) = Some vs \<Longrightarrow>
   map_of (zip (map var_field xs) vs) (var_field x) = E x"
proof (induction xs arbitrary: vs)
  case (Cons y ys)
  then show ?case by (cases vs) (auto simp: bind_Some_iff field_names)
qed simp

lemma eval_vars: "(\<And>x. x \<in> set xs \<Longrightarrow> E x \<noteq> None) \<Longrightarrow> eval_atoms E (map AVar xs) = Some (map (the \<circ> E) xs)"
proof (induction xs)
  case (Cons x xs)
  from Cons.prems [of x] obtain v where "E x = Some v" by auto
  with Cons show ?case by simp
qed simp

lemma eval_atoms_append: "eval_atoms E xs = Some us \<Longrightarrow> eval_atoms E ys = Some vs \<Longrightarrow> eval_atoms E (xs @ ys) = Some (us @ vs)"
  by (simp add: eval_atoms_Some list_all2_appendI)

lemma save_runs:
  assumes p: "poll_prims pr aw" and d: "distinct lv" and ca: "carried pv E ds"
    and x: "\<And>x. x \<in> set lv \<Longrightarrow> e x \<noteq> None \<and> E x = e x"
  obtains r where "evals P pr E w (MakeRecord (state_fields pv t lv) None) (VRecord r) w" and "saved pv t lv e ds r"
proof -
  let ?dv = "case defers_var pv of None \<Rightarrow> [] | Some dv \<Rightarrow> [VList (rev ds)]"
  have "eval_atoms E (map AVar lv) = Some (map (the \<circ> E) lv)" by (rule eval_vars) (use x in auto)
  then obtain vs where vs: "eval_atoms E (map AVar lv) = Some vs" "length vs = length lv" by auto
  have dv: "eval_atoms E (defer_atoms pv) = Some ?dv"
    using ca by (auto simp: defer_atoms_def carried_def split: option.splits)
  have ev: "eval_atoms E (map snd (state_fields pv t lv)) = Some (VInt (of_nat t) # vs @ ?dv)"
    using eval_atoms_append [OF vs(1) dv] by (simp add: state_fields_def comp_def bid_const_def)
  have names: "map fst (state_fields pv t lv) = TAG_FIELD # map var_field lv @ map (\<lambda>a. DEFERS_FIELD) (defer_atoms pv)"
    by (simp add: state_fields_def comp_def)
  have "distinct (map fst (state_fields pv t lv))"
    unfolding names using d
    by (auto simp: field_names distinct_map inj_on_def defer_atoms_def split: option.splits)
  moreover have "length (VInt (of_nat t) # vs @ ?dv) = length (state_fields pv t lv)"
    using vs by (simp add: state_fields_def defer_atoms_def split: option.splits)
  ultimately obtain r where r: "pr (MakeRecord (state_fields pv t lv) None) (VInt (of_nat t) # vs @ ?dv) w = Some (VRecord r, w)"
    "map_of r = map_of (zip (map fst (state_fields pv t lv)) (VInt (of_nat t) # vs @ ?dv))"
    using poll_primsD(2) [OF p, of "state_fields pv t lv" "VInt (of_nat t) # vs @ ?dv"] by blast
  show thesis
  proof (rule that [of r])
    show "evals P pr E w (MakeRecord (state_fields pv t lv) None) (VRecord r) w"
      using ev r(1) by (intro evals_primitive) (auto simp: dispatch_rv_def eval_prim_def)
    have L: "map_of (zip (map var_field lv) vs) (var_field x) = E x" if "x \<in> set lv" for x
      by (rule map_of_vars [OF vs(2) that vs(1)])
    have D: "map_of (zip (map var_field lv) vs) DEFERS_FIELD = None"
      using vs(2) by (auto simp: map_of_eq_None_iff field_names dest!: set_zip_leftD)
    have z: "zip (map var_field lv @ ys) (vs @ zs) = zip (map var_field lv) vs @ zip ys zs" for ys :: "string list" and zs
      using vs(2) by simp
    have rest: "map_of r n = (map_of (zip (map (\<lambda>a. DEFERS_FIELD) (defer_atoms pv)) ?dv) ++ map_of (zip (map var_field lv) vs)) n"
      if "n \<noteq> TAG_FIELD" for n
      using that by (simp add: r(2) names z)
    show "saved pv t lv e ds r"
      unfolding saved_def
    proof (intro conjI ballI impI)
      show "map_of r TAG_FIELD = Some (VInt (of_nat t))" by (simp add: r(2) names)
    next
      fix y assume y: "y \<in> set lv"
      with x obtain v where "e y = Some v" "E y = Some v" by fastforce
      with rest [of "var_field y"] field_names(2) L [OF y] show "map_of r (var_field y) = e y"
        by (simp add: map_add_def not_sym [OF field_names(2)])
    next
      show "case defers_var pv of None \<Rightarrow> ds = [] | Some d \<Rightarrow> map_of r DEFERS_FIELD = Some (VList (rev ds))"
        using ca rest [of DEFERS_FIELD] field_names(4) D
        by (cases "defers_var pv") (auto simp: map_add_def defer_atoms_def carried_def)
    qed
  qed
qed

text \<open>The prologue of a resume block restores them.\<close>

lemma loads_run:
  assumes p: "poll_prims pr aw" and "E (state_var pv) = Some (VRecord r)" and "state_var pv \<notin> fst ` set xs"
    and "\<And>x n. (x, n) \<in> set xs \<Longrightarrow> map_of r n = V x \<and> V x \<noteq> None"
  shows "\<exists>E'. runs_block R pr E [] w (map (\<lambda>(x, n). load_field pv x n) xs) (Norm E' []) w
    \<and> (\<forall>x. E' x = (if x \<in> fst ` set xs then V x else E x))"
  using assms(2-4)
proof (induction xs arbitrary: E)
  case Nil
  show ?case by (rule exI [of _ E]) simp
next
  case (Cons yn ys)
  obtain y n where yn: "yn = (y, n)" by fastforce
  from Cons.prems(3) [of y n] obtain v where v: "map_of r n = Some v" "V y = Some v" by (auto simp: yn)
  have "\<exists>E'. runs_block R pr (E(y \<mapsto> v)) [] w (map (\<lambda>(x, n). load_field pv x n) ys) (Norm E' []) w
    \<and> (\<forall>x. E' x = (if x \<in> fst ` set ys then V x else (E(y \<mapsto> v)) x))"
    by (rule Cons.IH) (use Cons.prems in \<open>auto simp: yn\<close>)
  then obtain E' where E': "runs_block R pr (E(y \<mapsto> v)) [] w (map (\<lambda>(x, n). load_field pv x n) ys) (Norm E' []) w"
    "\<forall>x. E' x = (if x \<in> fst ` set ys then V x else (E(y \<mapsto> v)) x)" by blast
  have "runs_block R pr E [] w (map (\<lambda>(x, n). load_field pv x n) (yn # ys)) (Norm E' []) w"
    using runs_block_Cons [OF runs_load [where pv = pv and E = E and x = y, OF p Cons.prems(1) v(1)] E'(1)]
    by (simp add: yn)
  moreover have "E' x = (if x \<in> fst ` set (yn # ys) then V x else E x)" for x
    using E'(2) v(2) by (simp add: yn)
  ultimately show ?case by blast
qed

lemma resume_runs:
  assumes p: "poll_prims pr aw" and s: "E (state_var pv) = Some (VRecord r)" and x: "E (resume_var pv) = Some x"
    and sv: "saved pv t lv e ds r" and lv: "\<And>y. y \<in> set lv \<Longrightarrow> e y \<noteq> None"
    and new: "state_var pv \<notin> set lv" "rb \<noteq> Some (state_var pv)" "set_option rb \<inter> set lv = {}"
    and dv: "\<And>d. defers_var pv = Some d \<Longrightarrow> d \<notin> set lv \<and> rb \<noteq> Some d"
  obtains E' where "runs_block R pr E [] w (resume_prologue pv lv rb) (Norm E' []) w"
    and "\<And>y. y \<in> set lv \<Longrightarrow> E' y = e y" and "\<And>y. rb = Some y \<Longrightarrow> E' y = Some x"
    and "\<And>y. y \<notin> set lv \<Longrightarrow> rb \<noteq> Some y \<Longrightarrow> defers_var pv \<noteq> Some y \<Longrightarrow> E' y = E y" and "carried pv E' ds"
proof -
  let ?E1 = "case rb of None \<Rightarrow> E | Some y \<Rightarrow> E(y \<mapsto> x)"
  have 1: "runs_block R pr E [] w (case rb of None \<Rightarrow> [] | Some y \<Rightarrow> [synthetic (Let y (Use (AVar (resume_var pv))))]) (Norm ?E1 []) w"
    using x by (auto simp: synthetic_def intro!: runs_block_single runs_Let_Use split: option.split)
  have "\<exists>E2. runs_block R pr ?E1 [] w (map (\<lambda>(x, n). load_field pv x n) (map (\<lambda>v. (v, var_field v)) lv)) (Norm E2 []) w
    \<and> (\<forall>y. E2 y = (if y \<in> fst ` set (map (\<lambda>v. (v, var_field v)) lv) then e y else ?E1 y))"
    by (rule loads_run [OF p]) (use s sv lv new(1,2) in \<open>auto simp: saved_def split: option.split\<close>)
  then obtain E2 where 2: "runs_block R pr ?E1 [] w (map (\<lambda>v. load_field pv v (var_field v)) lv) (Norm E2 []) w"
    "\<And>y. E2 y = (if y \<in> set lv then e y else ?E1 y)" by (auto simp: comp_def image_image)
  let ?E3 = "case defers_var pv of None \<Rightarrow> E2 | Some d \<Rightarrow> E2(d \<mapsto> VList (rev ds))"
  have st: "E2 (state_var pv) = Some (VRecord r)" using 2(2) s new(1,2) by (simp split: option.split)
  have 3: "runs_block R pr E2 [] w (case defers_var pv of None \<Rightarrow> [] | Some d \<Rightarrow> [load_field pv d DEFERS_FIELD]) (Norm ?E3 []) w"
  proof (cases "defers_var pv")
    case (Some d)
    with sv have "map_of r DEFERS_FIELD = Some (VList (rev ds))" by (simp add: saved_def)
    from runs_block_single [OF runs_load [where pv = pv and E = E2, OF p st this]] Some show ?thesis by simp
  qed simp
  show thesis
  proof (rule that [of ?E3])
    show "runs_block R pr E [] w (resume_prologue pv lv rb) (Norm ?E3 []) w"
      unfolding resume_prologue_def by (rule runs_block_append [OF runs_block_append [OF 1 2(1)] 3, simplified])
    show "?E3 y = e y" if "y \<in> set lv" for y
      using that sv dv by (auto simp: 2(2) saved_def split: option.split)
    show "?E3 y = Some x" if "rb = Some y" for y
      using that dv new(3) by (auto simp: 2(2) split: option.split)
    show "?E3 y = E y" if "y \<notin> set lv" "rb \<noteq> Some y" "defers_var pv \<noteq> Some y" for y
      using that by (auto simp: 2(2) split: option.split)
    show "carried pv ?E3 ds"
      using sv by (auto simp: carried_def saved_def split: option.split)
  qed
qed

lemma covered_bound:
  assumes S: "poll_setup R pr aw pf f bs live T capv" and b: "b < length bs"
  shows "covered f bs live b \<subseteq> {..max_var f}"
proof -
  have w: "block_within (collect_block_reads (body f)) (collect_block_binds (body f)) (block_has_defer (body f)) (bs ! b)"
    using poll_setupD(2) [OF S] b by (simp add: shaped_def)
  then have "lets (bb_stmts (bs ! b)) \<union> resume_binds (bs ! b) \<subseteq> collect_block_binds (body f)"
    by (auto simp: block_within_def stmt_within_def lets_def)
  with var_bounds [OF S b] show ?thesis by (auto simp: covered_def)
qed

definition poll_frame :: "ir_function \<Rightarrow> val list \<Rightarrow> val \<Rightarrow> val \<Rightarrow> env" where
  "poll_frame f capv st x =
     map_of (zip [state_var (poll_vars_of f), resume_var (poll_vars_of f)] [st, x]) ++ map_of (zip (captures f) capv)"

lemma poll_frame_vars:
  "poll_frame f capv st x (state_var (poll_vars_of f)) = Some st" "poll_frame f capv st x (resume_var (poll_vars_of f)) = Some x"
  "y \<in> set (captures f) \<Longrightarrow> length capv = length (captures f) \<Longrightarrow> poll_frame f capv st x y = map_of (zip (captures f) capv) y"
proof -
  have n: "map_of (zip (captures f) capv) v = None" if "max_var f < v" for v
    using that max_var_bound(2) [of f] by (auto simp: map_of_eq_None_iff dest!: set_zip_leftD)
  show "poll_frame f capv st x (state_var (poll_vars_of f)) = Some st" "poll_frame f capv st x (resume_var (poll_vars_of f)) = Some x"
    using n by (simp_all add: poll_frame_def poll_vars_fresh map_add_def)
  show "poll_frame f capv st x y = map_of (zip (captures f) capv) y"
    if y: "y \<in> set (captures f)" "length capv = length (captures f)"
  proof -
    from y obtain v where "map_of (zip (captures f) capv) y = Some v"
      by (metis map_of_zip_is_None not_None_eq)
    then show ?thesis by (simp add: poll_frame_def map_add_def)
  qed
qed

text \<open>A call of the poll function with a state that names a block, once its prologue has run.\<close>

lemma poll_enters:
  assumes S: "poll_setup R pr aw pf f bs live T capv" and t: "t < length bs"
    and tag: "map_of rec TAG_FIELD = Some (VInt (of_nat t))"
    and pro: "runs_block R pr ((poll_frame f capv (VRecord rec) x)(pc_var (poll_vars_of f) \<mapsto> VInt (of_nat t))) [] w
      (prologue (poll_vars_of f) (params f) (live ! t) t (bs ! t)) (Norm E []) w"
    and h: "holds f bs live T capv t e ds E" and p: "polled R pr aw pf f bs live T capv t e ds w v wn"
  shows "\<exists>u w1. returns R pr pf [VRecord rec, x] capv w u w1 \<and> settles R pr aw pf capv u w1 v wn"
proof -
  let ?pv = "poll_vars_of f" and ?arms = "poll_arms f bs live" and ?E = "poll_frame f capv (VRecord rec) x"
  let ?E1 = "?E(pc_var ?pv \<mapsto> VInt (of_nat t))"
  note D = poll_setupD [OF S]
  from next_arm [OF S t] obtain c where c: "first_fresh f \<le> c"
    "match_arms ?arms (VInt (of_nat t)) = Done (Some ([], prologue ?pv (params f) (live ! t) t (bs ! t)
       @ map (copy_stmt (defers_var ?pv)) (bb_stmts (bs ! t)) @ fst (emit_term ?pv live (bb_term (bs ! t)) c)))" .
  from p c(1) h obtain u w1 where u: "arm_polls R pr ?pv ?arms E w
      (map (copy_stmt (defers_var ?pv)) (bb_stmts (bs ! t)) @ fst (emit_term ?pv live (bb_term (bs ! t)) c)) u w1"
    and s: "settles R pr aw pf capv u w1 v wn"
    unfolding polled_def by blast
  have "runs R pr ?E1 [] w (poll_loop ?pv ?arms) (Ret u) w1"
    by (rule arm_polls_loop [OF _ c(2) arm_polls_append [OF pro u]]) simp
  then have "runs_block R pr ?E1 [] w [synthetic (poll_loop ?pv ?arms), synthetic (Return (AConst CUnit))] (Ret u) w1"
    unfolding synthetic_def by (rule runs_stmt_exit) simp
  then have "runs_block R pr ?E [] w (poll_body ?pv ?arms) (Ret u) w1"
    unfolding poll_body_def poll_loop_def
    by (rule runs_block_Cons [OF runs_load [where pv = ?pv and E = ?E, OF D(6) poll_frame_vars(1) tag]])
  then have "returns R pr pf [VRecord rec, x] capv w u w1"
    using D(1,7) by (intro returnsI [where e = ?E]) (simp_all add: polls_as_def frame_def poll_frame_def)
  with s show ?thesis by blast
qed

lemma polled_suspend:
  assumes S: "poll_setup R pr aw pf f bs live T capv" and b: "b < length bs"
    and r: "runs_block R pr e ds w (bb_stmts (bs ! b)) (Norm e1 ds1) w1"
    and u: "bb_term (bs ! b) = Suspend task rb t" and st: "term_step pr e1 w1 (Suspend task rb t) = Some (t, e2, w2)"
    and IH: "polled R pr aw pf f bs live T capv t e2 ds1 w2 v wn"
  shows "polled R pr aw pf f bs live T capv b e ds w v wn"
  unfolding polled_def
proof (intro allI impI)
  fix E c assume c: "first_fresh f \<le> c" and h: "holds f bs live T capv b e ds E"
  let ?pv = "poll_vars_of f" and ?arms = "poll_arms f bs live" and ?lv = "live ! t"
  note D = poll_setupD [OF S] and P = block_parts [OF S b, unfolded u]
  from st obtain tv x where tv: "eval_atom e1 task = Some tv" and x: "pr (Await task) [tv] w1 = Some (x, w2)"
    and e2: "e2 = (case rb of None \<Rightarrow> e1 | Some y \<Rightarrow> e1(y \<mapsto> x))"
    by (auto split: option.splits)
  have aw: "aw tv w1 = Some (x, w2)" using x poll_primsD(1) [OF D(6)] by simp
  have t: "0 < t" "t < length bs" "resume_bind (bs ! t) = Some rb" using P(1) by simp_all
  have rbs: "resume_binds (bs ! t) = set_option rb" using t(3) by (cases rb) (simp_all add: resume_binds_def)
  from block_end [OF S b h r] obtain E1
    where E1: "runs_block R pr E [] w (map (copy_stmt (defers_var ?pv)) (bb_stmts (bs ! b))) (Norm E1 []) w1"
      "env_le (covered f bs live b) e1 E1" "carried ?pv E1 ds1" "T b \<union> lets (bb_stmts (bs ! b)) \<subseteq> dom e1"
      "\<forall>x \<in> set (captures f). e1 x = map_of (zip (captures f) capv) x" .
  have lv: "set ?lv \<subseteq> T t - set (captures f) - set_option rb" using live_assigned [OF D(2-4) t(2)] by (simp add: rbs)
  have lvT: "set ?lv \<subseteq> T b \<union> lets (bb_stmts (bs ! b))" using P(3) lv by auto
  have lvc: "set ?lv \<subseteq> covered f bs live b"
    using live_edge [OF D(2,4) b, of t] u by (auto simp: covered_def)
  have keep: "e1 y \<noteq> None \<and> E1 y = e1 y" if "y \<in> set ?lv" for y
  proof -
    have "y \<in> dom e1" using that lvT E1(4) by blast
    with that lvc E1(2) show ?thesis by (auto simp: env_le_def)
  qed
  have "distinct ?lv" using D(4) t(2) by (simp add: live_solution_def)
  from save_runs [OF D(6) this E1(3) keep, where t = t and P = R and w = w1] obtain rec where
    rec: "evals R pr E1 w1 (MakeRecord (state_fields ?pv t ?lv) None) (VRecord rec) w1" "saved ?pv t ?lv e1 ds1 rec" .
  have flt: "filter (\<lambda>v. Some v \<noteq> rb) ?lv = ?lv" using lv by (auto intro!: filter_True)
  have cf: "c \<notin> covered f bs live b"
    using covered_bound [OF S b] c first_fresh_above(1) [of f] by auto
  have tv': "eval_atom (E1(c \<mapsto> VRecord rec)) task = Some tv"
    by (rule env_le_collect [OF env_le_fresh [OF E1(2) cf] _ tv]) (use P(4) in simp)
  let ?x = "VVariant PENDING_TAG [tv, VRecord rec]"
  have "evals R pr (E1(c \<mapsto> VRecord rec)) w1 (MakeVariant POLL_ENUM PENDING_TAG [task, AVar c]) ?x w1"
    using tv' by (intro evals_primitive [where us = "[tv, VRecord rec]"])
      (auto simp: dispatch_rv_def eval_prim_def poll_primsD(4) [OF D(6)])
  from runs_then [OF rec(1) runs_then [OF this runs_return_var]]
  have "runs_block R pr E1 [] w1 (fst (emit_term ?pv live (Suspend task rb t) c)) (Ret ?x) w1"
    by (simp add: Let_def flt state_fields_def)
  from runs_block_append [OF E1(1) this]
  have now: "arm_polls R pr ?pv ?arms E w (map (copy_stmt (defers_var ?pv)) (bb_stmts (bs ! b))
      @ fst (emit_term ?pv live (bb_term (bs ! b)) c)) ?x w1"
    by (simp add: arm_polls_def u)
  have small: "set ?lv \<union> set (captures f) \<union> collect_block_binds (body f) \<subseteq> {..max_var f}" by (rule var_bounds [OF S t(2)])
  have rbB: "set_option rb \<subseteq> collect_block_binds (body f)" using P(2) by (cases rb) simp_all
  let ?E = "(poll_frame f capv (VRecord rec) x)(pc_var ?pv \<mapsto> VInt (of_nat t))"
  have fr: "?E (state_var ?pv) = Some (VRecord rec)" "?E (resume_var ?pv) = Some x"
    "\<And>y. y \<in> set (captures f) \<Longrightarrow> ?E y = map_of (zip (captures f) capv) y"
    using poll_frame_vars [where f = f and capv = capv and st = "VRecord rec" and x = x] D(7) small by (auto simp: poll_vars_fresh)
  have big: "y \<notin> set ?lv \<and> rb \<noteq> Some y" if "max_var f < y" for y using that small rbB by (cases rb) auto
  have sv: "state_var ?pv \<notin> set ?lv" "rb \<noteq> Some (state_var ?pv)" "set_option rb \<inter> set ?lv = {}"
    using big [of "state_var ?pv"] lv by (auto simp: poll_vars_fresh)
  have dv: "d \<notin> set ?lv \<and> rb \<noteq> Some d" if "defers_var ?pv = Some d" for d
    using that by (intro big) (auto simp: poll_vars_fresh split: if_splits)
  have some: "e1 y \<noteq> None" if "y \<in> set ?lv" for y using keep that by blast
  from resume_runs [where R = R and w = w2, OF D(6) fr(1,2) rec(2) some sv dv] obtain E2
    where E2: "runs_block R pr ?E [] w2 (resume_prologue ?pv ?lv rb) (Norm E2 []) w2" "\<And>y. y \<in> set ?lv \<Longrightarrow> E2 y = e1 y"
      "\<And>y. rb = Some y \<Longrightarrow> E2 y = Some x" "\<And>y. y \<notin> set ?lv \<Longrightarrow> rb \<noteq> Some y \<Longrightarrow> defers_var ?pv \<noteq> Some y \<Longrightarrow> E2 y = ?E y"
      "carried ?pv E2 ds1" by metis
  have caps: "e2 y = map_of (zip (captures f) capv) y" "E2 y = e2 y" if y: "y \<in> set (captures f)" for y
  proof -
    have "rb \<noteq> Some y" using y rbB D(9) by (cases rb) auto
    with E1(5) y show 1: "e2 y = map_of (zip (captures f) capv) y" by (simp add: e2 split: option.split)
    have "defers_var ?pv \<noteq> Some y" using y small by (auto simp: poll_vars_fresh)
    moreover have "y \<notin> set ?lv" using lv y by blast
    ultimately show "E2 y = e2 y" using E2(4) [of y] fr(3) [OF y] 1 \<open>rb \<noteq> Some y\<close> by simp
  qed
  have "holds f bs live T capv t e2 ds1 E2"
    unfolding holds_def
  proof (intro conjI)
    show "T t \<subseteq> dom e2" using P(3) E1(4) by (auto simp: e2 split: option.splits)
    show "env_le (set ?lv \<union> set (captures f) \<union> resume_binds (bs ! t)) e2 E2"
      unfolding env_le_def rbs using E2(2,3) caps(2) lv by (auto simp: e2 split: option.splits)
  qed (use caps(1) E2(5) in simp_all)
  from poll_enters [OF S t(2) _ _ this IH, of rec x] E2(1) rec(2) t obtain u' w3 where
    "returns R pr pf [VRecord rec, x] capv w2 u' w3" "settles R pr aw pf capv u' w3 v wn"
    by (auto simp: saved_def prologue_def)
  from settles.pending [OF aw this] now
  show "\<exists>u w1. arm_polls R pr ?pv ?arms E w (map (copy_stmt (defers_var ?pv)) (bb_stmts (bs ! b))
      @ fst (emit_term ?pv live (bb_term (bs ! b)) c)) u w1 \<and> settles R pr aw pf capv u w1 v wn"
    by blast
qed

text \<open>Every run of the graph is driven to the same value.\<close>

lemma reaches_polled:
  assumes S: "poll_setup R pr aw pf f bs live T capv"
  shows "reaches R pr bs b e ds w v w' \<Longrightarrow> polled R pr aw pf f bs live T capv b e ds w v w'"
proof (induction rule: reaches.induct)
  case (reach_ret b e ds w e1 ds1 w1 a v w2)
  then show ?case by (intro polled_return [OF S])
next
  case (reach_step b e ds w e1 ds1 w1 t e2 w2 v w3)
  show ?case
  proof (cases "\<exists>task rb t'. bb_term (bs ! b) = Suspend task rb t'")
    case True
    then obtain task rb t' where u: "bb_term (bs ! b) = Suspend task rb t'" by blast
    with reach_step.hyps(3) have "t' = t" by (auto split: option.splits)
    with polled_suspend [OF S reach_step.hyps(1,2), of task rb t e2 w2 v w3] u reach_step show ?thesis by simp
  next
    case False
    then have "bb_term (bs ! b) \<noteq> Suspend task rb t'" for task rb t' by blast
    from polled_step [OF S reach_step.hyps(1-3) this reach_step.IH] show ?thesis .
  qed
qed

end
