(* ===== verification/CpsTotal.thy ===== *)
theory CpsTotal
  imports CpsPoll
begin

text \<open>
  The async pass never panics: flattening finds a loop for each \<open>break\<close> and \<open>continue\<close>,
  renumbering stays in range, liveness stops.
\<close>

section \<open>Bodies the builder accepts\<close>

text \<open>\<open>break\<close> and \<open>continue\<close> stand in loops, and there is no \<open>RunDefer\<close>, which only emission makes.\<close>

fun block_flattens :: "bool \<Rightarrow> block \<Rightarrow> bool"
  and stmt_flattens :: "bool \<Rightarrow> stmt_kind \<Rightarrow> bool"
  and cases_flatten :: "bool \<Rightarrow> (i64 \<times> block) list \<Rightarrow> bool"
  and arms_flatten :: "bool \<Rightarrow> match_arm list \<Rightarrow> bool" where
  "block_flattens l [] = True"
| "block_flattens l (Stmt k r # ss) = (stmt_flattens l k \<and> block_flattens l ss)"
| "stmt_flattens l (If c t e) = (block_flattens l t \<and> block_flattens l e)"
| "stmt_flattens l (Switch c arms d) = (cases_flatten l arms \<and> block_flattens l d)"
| "stmt_flattens l (Match c arms) = arms_flatten l arms"
| "stmt_flattens l (Loop b) = block_flattens True b"
| "stmt_flattens l Break_stmt = l"
| "stmt_flattens l Continue_stmt = l"
| "stmt_flattens l (RunDefer d) = False"
| "stmt_flattens l k = True"
| "cases_flatten l [] = True"
| "cases_flatten l ((i, b) # arms) = (block_flattens l b \<and> cases_flatten l arms)"
| "arms_flatten l [] = True"
| "arms_flatten l (MatchArm p b # arms) = (block_flattens l b \<and> arms_flatten l arms)"

lemma build_ctx:
  "build simple ss nxt g = Some (b, g') \<Longrightarrow> loop_ctx g' = loop_ctx g"
  "build_cases cs nxt g = Some (ts, g') \<Longrightarrow> loop_ctx g' = loop_ctx g"
  "build_arms as nxt g = Some (us, g') \<Longrightarrow> loop_ctx g' = loop_ctx g"
  by (rule built_bounds(3) [OF build_built(1)], assumption) (rule built_bounds(6) [OF build_built(2)], assumption,
      rule built_bounds(9) [OF build_built(3)], assumption)

definition builds :: "bool \<Rightarrow> block \<Rightarrow> bool" where
  "builds l ss \<longleftrightarrow> (\<forall>simple nxt g. l = (loop_ctx g \<noteq> []) \<longrightarrow>
     (\<exists>b g'. build simple ss nxt g = Some (b, g') \<and> loop_ctx g' = loop_ctx g))"

definition builds_cases :: "bool \<Rightarrow> (i64 \<times> block) list \<Rightarrow> bool" where
  "builds_cases l cs \<longleftrightarrow> (\<forall>nxt g. l = (loop_ctx g \<noteq> []) \<longrightarrow>
     (\<exists>ts g'. build_cases cs nxt g = Some (ts, g') \<and> loop_ctx g' = loop_ctx g))"

definition builds_arms :: "bool \<Rightarrow> match_arm list \<Rightarrow> bool" where
  "builds_arms l as \<longleftrightarrow> (\<forall>nxt g. l = (loop_ctx g \<noteq> []) \<longrightarrow>
     (\<exists>us g'. build_arms as nxt g = Some (us, g') \<and> loop_ctx g' = loop_ctx g))"

lemma buildsE:
  assumes "builds l ss" and "l = (loop_ctx g \<noteq> [])"
  obtains b g' where "build simple ss nxt g = Some (b, g')" and "loop_ctx g' = loop_ctx g"
  using assms unfolding builds_def by blast

lemma builds_casesE:
  assumes "builds_cases l cs" and "l = (loop_ctx g \<noteq> [])"
  obtains ts g' where "build_cases cs nxt g = Some (ts, g')" and "loop_ctx g' = loop_ctx g"
  using assms unfolding builds_cases_def by blast

lemma builds_armsE:
  assumes "builds_arms l as" and "l = (loop_ctx g \<noteq> [])"
  obtains us g' where "build_arms as nxt g = Some (us, g')" and "loop_ctx g' = loop_ctx g"
  using assms unfolding builds_arms_def by blast

lemma buildsI:
  assumes "\<And>simple nxt g. l = (loop_ctx g \<noteq> []) \<Longrightarrow> \<exists>b g'. build simple ss nxt g = Some (b, g')"
  shows "builds l ss"
  unfolding builds_def using assms build_ctx(1) by blast

text \<open>Statement by statement: the rest of the block is built first.\<close>

lemma builds_simple:
  "(\<And>simple nxt g. build simple (Stmt k r # ss) nxt g = build (simple @ [Stmt k r]) ss nxt g) \<Longrightarrow> builds l ss \<Longrightarrow>
   builds l (Stmt k r # ss)"
proof (rule buildsI)
  fix simple nxt and g :: cfg
  assume eq: "\<And>simple nxt g. build simple (Stmt k r # ss) nxt g = build (simple @ [Stmt k r]) ss nxt g"
    and b: "builds l ss" and l: "l = (loop_ctx g \<noteq> [])"
  from buildsE [OF b l, of "simple @ [Stmt k r]" nxt] obtain b g' where "build (simple @ [Stmt k r]) ss nxt g = Some (b, g')" .
  with eq show "\<exists>b g'. build simple (Stmt k r # ss) nxt g = Some (b, g')" by simp
qed

lemma builds_PushDefer: "builds l ss \<Longrightarrow> builds l (Stmt (PushDefer a) r # ss)"
  by (rule builds_simple) simp_all

lemma builds_Return: "builds l (Stmt (Return a) r # ss)"
  by (rule buildsI) (simp add: new_block_add)

lemma builds_If:
  assumes "builds l t" "builds l e" "builds l ss"
  shows "builds l (Stmt (If c t e) r # ss)"
proof (rule buildsI)
  fix simple nxt and g :: cfg assume l: "l = (loop_ctx g \<noteq> [])"
  from buildsE [OF assms(3) l] obtain j g1 where 1: "build [] ss nxt g = Some (j, g1)" "loop_ctx g1 = loop_ctx g" .
  have l1: "l = (loop_ctx g1 \<noteq> [])" using l 1(2) by simp
  from buildsE [OF assms(1) l1] obtain bt g2 where 2: "build [] t j g1 = Some (bt, g2)" "loop_ctx g2 = loop_ctx g1" .
  have l2: "l = (loop_ctx g2 \<noteq> [])" using l1 2(2) by simp
  from buildsE [OF assms(2) l2] obtain be g3 where "build [] e j g2 = Some (be, g3)" .
  with 1 2 show "\<exists>b g'. build simple (Stmt (If c t e) r # ss) nxt g = Some (b, g')" by (simp add: new_block_add)
qed

lemma builds_Switch:
  assumes "builds_cases l arms" "builds l d" "builds l ss"
  shows "builds l (Stmt (Switch c arms d) r # ss)"
proof (rule buildsI)
  fix simple nxt and g :: cfg assume l: "l = (loop_ctx g \<noteq> [])"
  from buildsE [OF assms(3) l] obtain j g1 where 1: "build [] ss nxt g = Some (j, g1)" "loop_ctx g1 = loop_ctx g" .
  have l1: "l = (loop_ctx g1 \<noteq> [])" using l 1(2) by simp
  from builds_casesE [OF assms(1) l1] obtain ts g2 where 2: "build_cases arms j g1 = Some (ts, g2)" "loop_ctx g2 = loop_ctx g1" .
  have l2: "l = (loop_ctx g2 \<noteq> [])" using l1 2(2) by simp
  from buildsE [OF assms(2) l2] obtain bd g3 where "build [] d j g2 = Some (bd, g3)" .
  with 1 2 show "\<exists>b g'. build simple (Stmt (Switch c arms d) r # ss) nxt g = Some (b, g')" by (simp add: new_block_add)
qed

lemma builds_Match:
  assumes "builds_arms l arms" "builds l ss"
  shows "builds l (Stmt (Match c arms) r # ss)"
proof (rule buildsI)
  fix simple nxt and g :: cfg assume l: "l = (loop_ctx g \<noteq> [])"
  from buildsE [OF assms(2) l] obtain j g1 where 1: "build [] ss nxt g = Some (j, g1)" "loop_ctx g1 = loop_ctx g" .
  have l1: "l = (loop_ctx g1 \<noteq> [])" using l 1(2) by simp
  from builds_armsE [OF assms(1) l1] obtain ts g2 where "build_arms arms j g1 = Some (ts, g2)" .
  with 1 show "\<exists>b g'. build simple (Stmt (Match c arms) r # ss) nxt g = Some (b, g')" by (simp add: new_block_add)
qed

lemma builds_Loop:
  assumes "builds True lb" "builds l ss"
  shows "builds l (Stmt (Loop lb) r # ss)"
proof (rule buildsI)
  fix simple nxt and g :: cfg assume l: "l = (loop_ctx g \<noteq> [])"
  from buildsE [OF assms(2) l] obtain x g1 where 1: "build [] ss nxt g = Some (x, g1)" .
  let ?g2 = "push_loop (length (blocks g1)) x (add_block [] (Jump x) g1)"
  have l2: "True = (loop_ctx ?g2 \<noteq> [])" by simp
  from buildsE [OF assms(1) l2] obtain be g3 where "build [] lb (length (blocks g1)) ?g2 = Some (be, g3)" .
  with 1 show "\<exists>b g'. build simple (Stmt (Loop lb) r # ss) nxt g = Some (b, g')" by (simp add: new_block_add)
qed

lemma builds_await:
  assumes "builds l ss" and "k = Let v rv \<or> k = Discard rv"
  shows "builds l (Stmt k r # ss)"
proof (cases "await_task rv")
  case None
  with assms show ?thesis by (auto intro!: builds_simple)
next
  case (Some task)
  show ?thesis
  proof (rule buildsI)
    fix simple nxt and g :: cfg assume l: "l = (loop_ctx g \<noteq> [])"
    from buildsE [OF assms(1) l] obtain x g1 where "build [] ss nxt g = Some (x, g1)" .
    with assms(2) Some show "\<exists>b g'. build simple (Stmt k r # ss) nxt g = Some (b, g')"
      by (auto simp: new_block_add)
  qed
qed

lemma builds_all:
  "block_flattens l ss \<Longrightarrow> builds l ss"
  "stmt_flattens l k \<Longrightarrow> builds l ss' \<Longrightarrow> builds l (Stmt k r # ss')"
  "cases_flatten l cs \<Longrightarrow> builds_cases l cs"
  "arms_flatten l as \<Longrightarrow> builds_arms l as"
proof (induction l ss and l k and l cs and l as arbitrary: and ss' r
    rule: block_flattens_stmt_flattens_cases_flatten_arms_flatten.induct)
  case (1 l)
  show ?case by (rule buildsI) (simp add: new_block_add)
next
  case (7 l)
  then show ?case by (intro buildsI) (auto simp: new_block_add neq_Nil_conv)
next
  case (8 l)
  then show ?case by (intro buildsI) (auto simp: new_block_add neq_Nil_conv)
next
  case (12 l i b arms)
  then have IH: "builds l b" "builds_cases l arms" by simp_all
  show ?case
    unfolding builds_cases_def
  proof (intro allI impI)
    fix nxt and g :: cfg assume l: "l = (loop_ctx g \<noteq> [])"
    from buildsE [OF IH(1) l] obtain t g1 where 1: "build [] b nxt g = Some (t, g1)" "loop_ctx g1 = loop_ctx g" .
    have l1: "l = (loop_ctx g1 \<noteq> [])" using l 1(2) by simp
    from builds_casesE [OF IH(2) l1] obtain ts g2 where "build_cases arms nxt g1 = Some (ts, g2)" "loop_ctx g2 = loop_ctx g1" .
    with 1 show "\<exists>ts g'. build_cases ((i, b) # arms) nxt g = Some (ts, g') \<and> loop_ctx g' = loop_ctx g" by simp
  qed
next
  case (14 l p b arms)
  then have IH: "builds l b" "builds_arms l arms" by simp_all
  show ?case
    unfolding builds_arms_def
  proof (intro allI impI)
    fix nxt and g :: cfg assume l: "l = (loop_ctx g \<noteq> [])"
    from buildsE [OF IH(1) l] obtain t g1 where 1: "build [] b nxt g = Some (t, g1)" "loop_ctx g1 = loop_ctx g" .
    have l1: "l = (loop_ctx g1 \<noteq> [])" using l 1(2) by simp
    from builds_armsE [OF IH(2) l1] obtain ts g2 where "build_arms arms nxt g1 = Some (ts, g2)" "loop_ctx g2 = loop_ctx g1" .
    with 1 show "\<exists>ts g'. build_arms (MatchArm p b # arms) nxt g = Some (ts, g') \<and> loop_ctx g' = loop_ctx g" by simp
  qed
qed (auto intro: builds_If builds_Switch builds_Match builds_Loop builds_PushDefer builds_Return
    builds_await simp: builds_cases_def builds_arms_def)

section \<open>Where the poll functions are\<close>

definition lowered_upto :: "ir_function list \<Rightarrow> nat \<Rightarrow> ir_function list \<times> ir_function list \<Rightarrow> bool" where
  "lowered_upto fs k st \<longleftrightarrow> length (fst st) = length fs
     \<and> (\<forall>j < length fs. if j < k \<and> eligible (fs ! j)
          then \<exists>n < length (snd st). build_poll_fn (fs ! j) = Some (Some (snd st ! n))
                 \<and> fst st ! j = (fs ! j)\<lparr>poll_fn := Some (length fs + n)\<rparr>
          else fst st ! j = fs ! j)
     \<and> (\<forall>g \<in> set (snd st). poll_fn g = None \<and> (\<exists>f. build_poll_fn f = Some (Some g)))
     \<and> length (snd st) = length (filter eligible (take k fs))"

lemma lowered_uptoD:
  assumes "lowered_upto fs k st" and "j < length fs"
  shows "j < k \<Longrightarrow> eligible (fs ! j) \<Longrightarrow> \<exists>n < length (snd st). build_poll_fn (fs ! j) = Some (Some (snd st ! n))
      \<and> fst st ! j = (fs ! j)\<lparr>poll_fn := Some (length fs + n)\<rparr>"
    and "\<not> (j < k \<and> eligible (fs ! j)) \<Longrightarrow> fst st ! j = fs ! j"
proof -
  have "if j < k \<and> eligible (fs ! j)
      then \<exists>n < length (snd st). build_poll_fn (fs ! j) = Some (Some (snd st ! n))
             \<and> fst st ! j = (fs ! j)\<lparr>poll_fn := Some (length fs + n)\<rparr>
      else fst st ! j = fs ! j"
    using assms unfolding lowered_upto_def by blast
  then show "j < k \<Longrightarrow> eligible (fs ! j) \<Longrightarrow> \<exists>n < length (snd st). build_poll_fn (fs ! j) = Some (Some (snd st ! n))
      \<and> fst st ! j = (fs ! j)\<lparr>poll_fn := Some (length fs + n)\<rparr>"
    "\<not> (j < k \<and> eligible (fs ! j)) \<Longrightarrow> fst st ! j = fs ! j"
    by (simp_all split: if_splits)
qed

lemma build_poll_fn_awaits: "build_poll_fn f = Some x \<Longrightarrow> eligible f \<Longrightarrow> \<exists>g. x = Some g \<and> poll_fn g = None"
  by (auto simp: build_poll_fn_def eligible_def bind_Some_iff Let_def split: if_splits)

lemma cps_step_upto:
  assumes st: "lowered_upto fs k st" and k: "k < length fs" and s: "cps_step (length fs) st k = Some st'"
  shows "lowered_upto fs (Suc k) st'"
proof -
  have fk: "fst st ! k = fs ! k" using st k by (simp add: lowered_upto_def)
  show ?thesis
  proof (cases "eligible (fs ! k)")
    case False
    with s fk have "st' = st" by (simp add: cps_step_def)
    with st False k show ?thesis by (auto simp: lowered_upto_def less_Suc_eq take_Suc_conv_app_nth)
  next
    case True
    with s fk obtain x where x: "build_poll_fn (fs ! k) = Some x" by (auto simp: cps_step_def bind_Some_iff)
    with build_poll_fn_awaits True obtain g where g: "x = Some g" "poll_fn g = None" by blast
    with s fk x True have st': "st' = ((fst st)[k := (fs ! k)\<lparr>poll_fn := Some (length fs + length (snd st))\<rparr>], snd st @ [g])"
      by (simp add: cps_step_def)
    show ?thesis
      unfolding lowered_upto_def
    proof (intro conjI allI impI)
      show "length (fst st') = length fs" using st by (simp add: st' lowered_upto_def)
      show "\<forall>g \<in> set (snd st'). poll_fn g = None \<and> (\<exists>f. build_poll_fn f = Some (Some g))"
        using st g x by (auto simp: st' lowered_upto_def)
      show "length (snd st') = length (filter eligible (take (Suc k) fs))"
        using st k True by (simp add: st' lowered_upto_def take_Suc_conv_app_nth)
      fix j assume j: "j < length fs"
      show "if j < Suc k \<and> eligible (fs ! j)
          then \<exists>n < length (snd st'). build_poll_fn (fs ! j) = Some (Some (snd st' ! n))
                 \<and> fst st' ! j = (fs ! j)\<lparr>poll_fn := Some (length fs + n)\<rparr>
          else fst st' ! j = fs ! j"
      proof (cases "j = k")
        case True
        have "length (fst st) = length fs" using st by (simp add: lowered_upto_def)
        with True x g \<open>eligible (fs ! k)\<close> k show ?thesis
          by (auto simp: st' intro!: exI [of _ "length (snd st)"])
      next
        case False
        show ?thesis
        proof (cases "j < k \<and> eligible (fs ! j)")
          case True
          with lowered_uptoD(1) [OF st j] obtain n where "n < length (snd st)"
            "build_poll_fn (fs ! j) = Some (Some (snd st ! n))" "fst st ! j = (fs ! j)\<lparr>poll_fn := Some (length fs + n)\<rparr>"
            by blast
          with True False show ?thesis by (auto simp: st' nth_append intro!: exI [of _ n])
        next
          case False
          with lowered_uptoD(2) [OF st j] \<open>j \<noteq> k\<close> show ?thesis
            by (auto simp: st' less_Suc_eq)
        qed
      qed
    qed
  qed
qed

lemma fold_cps_upto:
  "lowered_upto fs k st \<Longrightarrow> k + n = length fs \<Longrightarrow> fold_opt (cps_step (length fs)) st [k..<k + n] = Some st' \<Longrightarrow>
   lowered_upto fs (length fs) st'"
proof (induction n arbitrary: k st)
  case (Suc n)
  have l: "[k..<k + Suc n] = k # [Suc k..<Suc k + n]" by (simp add: upt_conv_Cons)
  from Suc.prems(3) obtain st1 where s: "cps_step (length fs) st k = Some st1"
    and r: "fold_opt (cps_step (length fs)) st1 [Suc k..<Suc k + n] = Some st'"
    unfolding l by (auto simp: bind_Some_iff)
  have "lowered_upto fs (Suc k) st1" by (rule cps_step_upto [OF Suc.prems(1) _ s]) (use Suc.prems(2) in simp)
  from Suc.IH [OF this _ r] Suc.prems(2) show ?case by simp
qed simp

text \<open>The lowered program: the rewritten functions, with the poll functions behind them.\<close>

lemma lower_async_parts:
  assumes "lower_async p = Some q"
  obtains fs new where "prog_functions q = map lower_function (fs @ new)"
    and "lowered_upto (prog_functions p) (length (prog_functions p)) (fs, new)"
proof -
  let ?fs = "prog_functions p"
  from assms(1) obtain p' where p': "cps_transform p = Some p'" and q: "prog_functions q = map lower_function (prog_functions p')"
    by (auto simp: lower_async_def)
  from p' obtain fs new where fo: "fold_opt (cps_step (length ?fs)) (?fs, []) [0..<length ?fs] = Some (fs, new)"
    and "p' = (if new = [] then p\<lparr>prog_functions := fs\<rparr>
          else p\<lparr>prog_functions := fs @ new, enums := or_insert poll_enum_entry (enums p)\<rparr>)"
  proof -
    from p' obtain st where st: "fold_opt (cps_step (length ?fs)) (?fs, []) [0..<length ?fs] = Some st"
      and c: "(case st of (fs, new) \<Rightarrow> Some (if new = [] then p\<lparr>prog_functions := fs\<rparr>
          else p\<lparr>prog_functions := fs @ new, enums := or_insert poll_enum_entry (enums p)\<rparr>)) = Some p'"
      unfolding cps_transform_def Let_def bind_Some_iff by blast
    obtain fs new where "st = (fs, new)" by (cases st)
    with st c that [of fs new] show thesis by simp
  qed
  then have pfs: "prog_functions p' = fs @ new" by (cases "new = []") simp_all
  have "lowered_upto ?fs 0 (?fs, [])" by (simp add: lowered_upto_def)
  from fold_cps_upto [OF this _ , of "length ?fs" "(fs, new)"] fo have u: "lowered_upto ?fs (length ?fs) (fs, new)" by simp
  with that pfs q show thesis by simp
qed

text \<open>An eligible function becomes a task constructor over its poll function.\<close>

lemma lower_async_at:
  assumes "lower_async p = Some q" and i: "i < length (prog_functions p)" and el: "eligible (prog_functions p ! i)"
  obtains pf g where "build_poll_fn (prog_functions p ! i) = Some (Some g)" and "pf < length (prog_functions q)"
    and "prog_functions q ! pf = g" and "i < length (prog_functions q)"
    and "prog_functions q ! i = (prog_functions p ! i)\<lparr>body := task_body (prog_functions p ! i) pf, is_async := False, poll_fn := None\<rparr>"
proof -
  let ?fs = "prog_functions p"
  from lower_async_parts [OF assms(1)] obtain fs new where q: "prog_functions q = map lower_function (fs @ new)"
    and u: "lowered_upto ?fs (length ?fs) (fs, new)" .
  from u have len: "length fs = length ?fs" by (simp add: lowered_upto_def)
  from lowered_uptoD(1) [OF u i i el] obtain n where n: "n < length new" "build_poll_fn (?fs ! i) = Some (Some (new ! n))"
    "fs ! i = (?fs ! i)\<lparr>poll_fn := Some (length ?fs + n)\<rparr>" by auto
  have "poll_fn (new ! n) = None" using u n(1) by (simp add: lowered_upto_def)
  then have at: "prog_functions q ! (length ?fs + n) = new ! n"
    using n(1) len by (simp add: q nth_append lower_function_def)
  have "task_body (fs ! i) (length ?fs + n) = task_body (?fs ! i) (length ?fs + n)" by (simp add: n(3) task_body_def)
  then have "prog_functions q ! i = (?fs ! i)\<lparr>body := task_body (?fs ! i) (length ?fs + n), is_async := False, poll_fn := None\<rparr>"
    using i len n(3) by (simp add: q nth_append lower_function_def)
  with that [OF n(2) _ at] n(1) i len show thesis by (simp add: q)
qed

section \<open>The pass is total\<close>

lemma poll_blocks_total:
  assumes "block_flattens False (body f)"
  shows "\<exists>bs. poll_blocks f = Some bs"
proof -
  from builds_all(1) [OF assms] have b: "builds False (body f)" .
  have c: "False = (loop_ctx \<lparr>blocks = [trap_block], loop_ctx = []\<rparr> \<noteq> [])" by simp
  from buildsE [OF b c] obtain ent g
    where bld: "build [] (body f) 0 \<lparr>blocks = [trap_block], loop_ctx = []\<rparr> = Some (ent, g)" .
  from renumber_result [OF body_graph(2,3) [OF bld]] obtain bs where "renumber (blocks g) ent = Some bs" by metis
  with bld show ?thesis by (simp add: poll_blocks_def new_block_def)
qed

lemma build_poll_fn_total: "block_flattens False (body f) \<Longrightarrow> \<exists>x. build_poll_fn f = Some x"
proof -
  assume "block_flattens False (body f)"
  from poll_blocks_total [OF this] obtain bs where bs: "poll_blocks f = Some bs" by blast
  from liveness_solution [OF shaped_in_range [OF poll_blocks_shape(1) [OF bs]]] obtain live
    where "liveness bs (set (captures f)) = Some live" by blast
  with bs show ?thesis by (simp add: build_poll_fn_def Let_def)
qed

definition example_async :: ir_function where
  "example_async = \<lparr>fn_name = ''twice'', fn_module = ''m'', params = [0], captures = [], is_async = True, poll_fn = None,
     body = [synthetic (Loop [synthetic (Let 1 (Await (AVar 0))), synthetic Break_stmt]),
             synthetic (Let 2 (Await (AVar 1))), synthetic (Return (AVar 2))],
     var_reprs = [], param_reprs = [Boxed], ret_repr = Boxed\<rparr>"

definition example_program :: ir_program where
  "example_program = \<lparr>prog_functions = [example_async], globals = [], enums = [], entry = 0, test_suites = [],
     param_shapes = Map.empty, extra_nominal = Map.empty\<rparr>"

lemma lower_async_some:
  assumes "\<forall>f \<in> set (prog_functions p). eligible f \<longrightarrow> block_flattens False (body f)"
  shows "\<exists>q. lower_async p = Some q"
proof -
  let ?fs = "prog_functions p"
  let ?I = "\<lambda>st :: ir_function list \<times> ir_function list. length (fst st) = length ?fs
    \<and> (\<forall>f \<in> set (fst st). eligible f \<longrightarrow> block_flattens False (body f))"
  have step: "\<exists>st'. cps_step (length ?fs) st k = Some st' \<and> ?I st'" if I: "?I st" and k: "k \<in> set [0..<length ?fs]" for st k
  proof (cases "eligible (fst st ! k)")
    case False
    with I show ?thesis by (simp add: cps_step_def)
  next
    case True
    have m: "fst st ! k \<in> set (fst st)" using I k by simp
    with I True build_poll_fn_total [of "fst st ! k"] obtain x where x: "build_poll_fn (fst st ! k) = Some x" by blast
    from build_poll_fn_awaits [OF x True] obtain g where g: "x = Some g" by blast
    have e: "eligible f \<longrightarrow> block_flattens False (body f)"
      if "f \<in> set ((fst st)[k := (fst st ! k)\<lparr>poll_fn := Some (length ?fs + length (snd st))\<rparr>])" for f
    proof -
      from that have "f = (fst st ! k)\<lparr>poll_fn := Some (length ?fs + length (snd st))\<rparr> \<or> f \<in> set (fst st)"
        using set_update_subset_insert [of "fst st" k] by blast
      with I show ?thesis by (auto simp: eligible_def)
    qed
    from x g True have "cps_step (length ?fs) st k
        = Some ((fst st)[k := (fst st ! k)\<lparr>poll_fn := Some (length ?fs + length (snd st))\<rparr>], snd st @ [g])"
      by (simp add: cps_step_def)
    with I e show ?thesis by auto
  qed
  have "\<exists>st. fold_opt (cps_step (length ?fs)) (?fs, []) [0..<length ?fs] = Some st \<and> ?I st"
    by (rule fold_opt_total [where I = ?I, OF step]) (use assms in simp_all)
  then obtain st where "fold_opt (cps_step (length ?fs)) (?fs, []) [0..<length ?fs] = Some st" by blast
  then show ?thesis by (simp add: lower_async_def cps_transform_def Let_def split_beta)
qed

section \<open>No await is left\<close>

lemma task_body_awaits: "\<not> block_has_await (task_body f pf)"
  by (simp add: task_body_def Let_def synthetic_def)

lemma has_await_append: "block_has_await (xs @ ys) \<longleftrightarrow> block_has_await xs \<or> block_has_await ys"
proof (induction xs)
  case (Cons s xs)
  then show ?case by (cases s) auto
qed simp

lemma has_await_list: "(\<And>s. s \<in> set ss \<Longrightarrow> \<not> stmt_has_await (kind s)) \<Longrightarrow> \<not> block_has_await ss"
proof (induction ss)
  case (Cons s ss)
  then have "\<not> stmt_has_await (kind s)" "\<not> block_has_await ss" by simp_all
  then show ?case by (cases s) simp
qed simp

lemma prologue_awaits: "\<not> block_has_await (prologue pv ps live b bb)"
  by (rule has_await_list)
    (auto simp: prologue_def entry_prologue_def resume_prologue_def load_field_def synthetic_def split: option.splits if_splits)

lemma copy_awaits: "simple_kind (kind s) \<Longrightarrow> \<not> stmt_has_await (kind (copy_stmt dv s))"
proof -
  have d: "detco rv = Some rv' \<Longrightarrow> await_task rv' = None" for rv rv' by (cases rv) auto
  then show "simple_kind (kind s) \<Longrightarrow> \<not> stmt_has_await (kind (copy_stmt dv s))"
    unfolding copy_stmt_def by (cases "kind s"; cases dv) (auto split: option.splits)
qed

lemma emit_awaits: "\<not> block_has_await (fst (emit_term pv live u c))"
proof -
  have 1: "\<not> cases_have_await (map (\<lambda>(k, t). (k, [set_pc pc t])) arms)" for pc arms
    by (induction arms) (auto simp: set_pc_def synthetic_def)
  have 2: "\<not> arms_have_await (map (\<lambda>(p, t). MatchArm p [set_pc pc t]) arms)" for pc arms
    by (induction arms) (auto simp: set_pc_def synthetic_def)
  show ?thesis by (cases u) (use 1 2 in \<open>auto simp: Let_def set_pc_def synthetic_def\<close>)
qed

lemma arms_awaits:
  "\<forall>(b, bb) \<in> set xs. \<forall>s \<in> set (bb_stmts bb). simple_kind (kind s) \<Longrightarrow> \<not> arms_have_await (emit_arms pv ps live n xs c)"
proof (induction xs arbitrary: c)
  case (Cons x xs)
  obtain b bb where x: "x = (b, bb)" by fastforce
  have "\<not> block_has_await (map (copy_stmt (defers_var pv)) (bb_stmts bb))"
    by (rule has_await_list) (use Cons.prems x copy_awaits in auto)
  with Cons show ?case by (simp add: x split_beta has_await_append prologue_awaits emit_awaits)
qed simp

lemma poll_fn_awaits:
  assumes "build_poll_fn f = Some (Some g)"
  shows "\<not> is_async g \<and> \<not> block_has_await (body g)"
proof -
  from assms obtain bs live where bs: "poll_blocks f = Some bs" and g: "is_async g = False"
    "body g = poll_body (poll_vars_of f) (emit_arms (poll_vars_of f) (params f) live (length bs) (enumerate 0 bs) (first_fresh f))"
    by (auto simp: build_poll_fn_def bind_Some_iff Let_def split: if_splits)
  have "\<forall>(b, bb) \<in> set (enumerate 0 bs). \<forall>s \<in> set (bb_stmts bb). simple_kind (kind s)"
    using poll_blocks_shape(1) [OF bs]
    by (auto simp: shaped_def block_within_def stmt_within_def in_set_enumerate_eq dest!: bspec)
  from arms_awaits [OF this] g show ?thesis by (simp add: poll_body_def load_field_def synthetic_def)
qed

section \<open>Liveness along paths\<close>

text \<open>
  The reference: \<open>v\<close> is read from block \<open>b\<close> on when a path of edges leads from it to a block
  that reads \<open>v\<close> before binding it, through blocks that do not bind it.
\<close>

inductive reads_later :: "var_id set \<Rightarrow> basic_block list \<Rightarrow> var_id \<Rightarrow> bid \<Rightarrow> bool"
  for caps :: "var_id set" and bs :: "basic_block list" and v :: var_id where
  here: "b < length bs \<Longrightarrow> v \<in> snd (kill_gen caps (bs ! b)) \<Longrightarrow> reads_later caps bs v b"
| later: "b < length bs \<Longrightarrow> v \<notin> fst (kill_gen caps (bs ! b)) \<Longrightarrow> t \<in> set (term_successors (bb_term (bs ! b))) \<Longrightarrow>
    reads_later caps bs v t \<Longrightarrow> reads_later caps bs v b"

lemma live_at_iff:
  "v \<in> live_at caps bs live b \<longleftrightarrow> v \<in> snd (kill_gen caps (bs ! b))
     \<or> (v \<notin> fst (kill_gen caps (bs ! b)) \<and> (\<exists>t \<in> set (term_successors (bb_term (bs ! b))). v \<in> live ! t))"
  by (auto simp: live_at_def Let_def)

lemma reads_later_live:
  assumes L: "live_solution caps bs live" and r: "in_range bs"
  shows "reads_later caps bs v b \<Longrightarrow> v \<in> set (live ! b)"
proof (induction rule: reads_later.induct)
  case (here b)
  with L show ?case by (simp add: live_solution_def live_at_iff)
next
  case (later b t)
  have "t < length bs" using r later.hyps by (auto simp: in_range_def)
  then have "v \<in> live_sets live ! t" using later.IH L by (simp add: live_sets_def live_solution_def)
  with later.hyps have "v \<in> live_at caps bs (live_sets live) b" by (auto simp: live_at_iff)
  with L later.hyps(1) show ?case by (simp add: live_solution_def)
qed

lemma live_reads_later:
  assumes L: "live_solution caps bs live" and r: "in_range bs" and b: "b < length bs" and v: "v \<in> set (live ! b)"
  shows "reads_later caps bs v b"
proof -
  let ?X = "map (\<lambda>b. {v. reads_later caps bs v b}) [0..<length bs]"
  have "live_at caps bs ?X i \<subseteq> ?X ! i" if i: "i < length bs" for i
  proof
    fix x assume "x \<in> live_at caps bs ?X i"
    moreover have "t < length bs" if "t \<in> set (term_successors (bb_term (bs ! i)))" for t
      using r i that by (auto simp: in_range_def)
    ultimately show "x \<in> ?X ! i" using i by (auto simp: live_at_iff intro: reads_later.intros)
  qed
  then have "live_le (live_sets live) ?X" using L by (simp add: live_solution_def live_closed_def)
  with b v L show ?thesis by (auto simp: live_le_def live_sets_def live_solution_def)
qed

text \<open>
  C15. Liveness is exact: on the blocks of any function the iteration stops, with a list of
  variables without repetition for each block; a variable is in it exactly when a path from that
  block reads it before binding it. So a suspended state carries what will be read, and no more.
\<close>

theorem liveness_exact:
  assumes "poll_blocks f = Some bs"
  shows "\<exists>live. liveness bs caps = Some live \<and> length live = length bs
     \<and> (\<forall>b < length bs. distinct (live ! b) \<and> (\<forall>v. v \<in> set (live ! b) \<longleftrightarrow> reads_later caps bs v b))"
proof -
  have r: "in_range bs" by (rule shaped_in_range [OF poll_blocks_shape(1) [OF assms]])
  from liveness_solution [OF r] obtain live where l: "liveness bs caps = Some live" "live_solution caps bs live" by blast
  have "\<forall>b < length bs. distinct (live ! b) \<and> (\<forall>v. v \<in> set (live ! b) \<longleftrightarrow> reads_later caps bs v b)"
  proof (intro allI impI conjI)
    fix b assume "b < length bs"
    with l(2) show "distinct (live ! b)" by (simp add: live_solution_def)
  next
    fix b v assume "b < length bs"
    then show "v \<in> set (live ! b) \<longleftrightarrow> reads_later caps bs v b"
      using reads_later_live [OF l(2) r] live_reads_later [OF l(2) r] by blast
  qed
  with l show ?thesis by (auto simp: live_solution_def)
qed

text \<open>In the example the entry of the loop needs the argument.\<close>

theorem liveness_exact_witness:
  "\<exists>bs live. poll_blocks example_async = Some bs \<and> liveness bs {} = Some live \<and> live ! 0 = [0] \<and> reads_later {} bs 0 0"
proof -
  have c: "(case poll_blocks example_async of None \<Rightarrow> False
      | Some bs \<Rightarrow> 0 < length bs \<and> (case liveness bs {} of None \<Rightarrow> False | Some live \<Rightarrow> live ! 0 = [0]))"
    by code_simp
  then obtain bs live where bs: "poll_blocks example_async = Some bs" "liveness bs {} = Some live" "0 < length bs" "live ! 0 = [0]"
    by (auto split: option.splits)
  from liveness_exact [OF bs(1), of "{}"] bs(2)
  have "\<forall>b < length bs. \<forall>v. v \<in> set (live ! b) \<longleftrightarrow> reads_later {} bs v b" by auto
  with bs(3) have "0 \<in> set (live ! 0) \<longleftrightarrow> reads_later {} bs 0 0" by blast
  with bs(4) have "reads_later {} bs 0 0" by simp
  with bs show ?thesis by blast
qed

text \<open>
  C16. The async pass never panics: on a program in whose eligible functions each \<open>break\<close> and
  \<open>continue\<close> is in a loop and no \<open>RunDefer\<close> stands, it returns a program. That has the functions
  there were, at the indices they had, with no awaits left in the ones that were eligible, and
  behind them one poll function, not async itself, for each of those.
\<close>

theorem lower_async_total:
  assumes "\<forall>f \<in> set (prog_functions p). eligible f \<longrightarrow> block_flattens False (body f)"
  shows "\<exists>q. lower_async p = Some q
     \<and> length (prog_functions q) = length (prog_functions p) + length (filter eligible (prog_functions p))
     \<and> (\<forall>i < length (prog_functions p). if eligible (prog_functions p ! i)
          then \<not> is_async (prog_functions q ! i) \<and> \<not> block_has_await (body (prog_functions q ! i))
          else prog_functions q ! i = lower_function (prog_functions p ! i))
     \<and> (\<forall>i. length (prog_functions p) \<le> i \<and> i < length (prog_functions q) \<longrightarrow>
          \<not> is_async (prog_functions q ! i) \<and> \<not> block_has_await (body (prog_functions q ! i)))"
proof -
  let ?fs = "prog_functions p"
  from lower_async_some [OF assms] obtain q where q: "lower_async p = Some q" by blast
  from lower_async_parts [OF q] obtain fs new where qf: "prog_functions q = map lower_function (fs @ new)"
    and u: "lowered_upto ?fs (length ?fs) (fs, new)" .
  have len: "length fs = length ?fs" "length new = length (filter eligible ?fs)" using u by (simp_all add: lowered_upto_def)
  have old: "if eligible (?fs ! i) then \<not> is_async (prog_functions q ! i) \<and> \<not> block_has_await (body (prog_functions q ! i))
      else prog_functions q ! i = lower_function (?fs ! i)" if i: "i < length ?fs" for i
  proof (cases "eligible (?fs ! i)")
    case True
    from lower_async_at [OF q i True] obtain pf
      where "prog_functions q ! i = (?fs ! i)\<lparr>body := task_body (?fs ! i) pf, is_async := False, poll_fn := None\<rparr>" .
    with True show ?thesis by (simp add: task_body_awaits)
  next
    case False
    with lowered_uptoD(2) [OF u i] have "fs ! i = ?fs ! i" by simp
    with False i len show ?thesis by (simp add: qf nth_append)
  qed
  have new: "\<not> is_async (prog_functions q ! i) \<and> \<not> block_has_await (body (prog_functions q ! i))"
    if i: "length ?fs \<le> i" "i < length (prog_functions q)" for i
  proof -
    have n: "i - length ?fs < length new" using i len by (auto simp: qf)
    then have "new ! (i - length ?fs) \<in> set new" by simp
    with u obtain f where "build_poll_fn f = Some (Some (new ! (i - length ?fs)))" and "poll_fn (new ! (i - length ?fs)) = None"
      by (auto simp: lowered_upto_def)
    moreover from this have "prog_functions q ! i = new ! (i - length ?fs)"
      using i len n by (simp add: qf nth_append lower_function_def)
    ultimately show ?thesis using poll_fn_awaits by metis
  qed
  have "length (prog_functions q) = length ?fs + length (filter eligible ?fs)" using len by (simp add: qf)
  with q old new show ?thesis by blast
qed

text \<open>It lowers the example.\<close>

theorem lower_async_total_witness:
  "\<exists>q. lower_async example_program = Some q \<and> length (prog_functions q) = 2
     \<and> \<not> block_has_await (body (prog_functions q ! 0)) \<and> \<not> block_has_await (body (prog_functions q ! 1))"
proof -
  have p: "prog_functions example_program = [example_async]" by (simp add: example_program_def)
  have e: "eligible example_async" "block_flattens False (body example_async)"
    by (simp_all add: example_async_def eligible_def synthetic_def)
  from lower_async_total [of example_program] e obtain q where q: "lower_async example_program = Some q"
    "length (prog_functions q) = 2" "\<not> block_has_await (body (prog_functions q ! 0))"
    "\<forall>i. 1 \<le> i \<and> i < length (prog_functions q) \<longrightarrow> \<not> block_has_await (body (prog_functions q ! i))"
    by (auto simp: p)
  then show ?thesis by auto
qed


end
