(* ===== verification/CpsCorrect.thy ===== *)
theory CpsCorrect
  imports CpsDrive CpsTotal
begin

text \<open>
  The async pass on a whole program: which functions get a poll function and where it is, what the
  task constructor returns, and that driving the task gives what the body returns.
\<close>

section \<open>The task\<close>

text \<open>What the driver does with a task: it polls with the state of the task, and goes on from there.\<close>

definition drives :: "ir_function list \<Rightarrow> 'w prim \<Rightarrow> (val \<Rightarrow> 'w \<Rightarrow> (val \<times> 'w) option) \<Rightarrow> val \<Rightarrow> 'w \<Rightarrow> val \<Rightarrow> 'w \<Rightarrow> bool" where
  "drives R pr aw task w v w' \<longleftrightarrow>
     (\<exists>pf caps st. task = VVariant task_kind_async [VClosure pf caps, st]
        \<and> (\<forall>x. \<exists>u w1. returns R pr pf [st, x] caps w u w1 \<and> settles R pr aw pf caps u w1 v w'))"

lemma fold_max_above: "x \<in> set xs \<Longrightarrow> x \<le> fold max xs (m :: nat)"
proof -
  have ge: "m \<le> fold max xs m" for xs and m :: nat
  proof (induction xs arbitrary: m)
    case (Cons y ys)
    from Cons.IH [of "max y m"] show ?case by simp
  qed simp
  show "x \<in> set xs \<Longrightarrow> x \<le> fold max xs m"
  proof (induction xs arbitrary: m)
    case (Cons y ys)
    then show ?case using ge [of "max y m" ys] by auto
  qed simp
qed

lemma arg_field_names: "arg_field i = arg_field j \<longleftrightarrow> i = j" "TAG_FIELD \<noteq> arg_field i" "arg_field i \<noteq> TAG_FIELD"
  by (auto simp: arg_field_def TAG_FIELD_def decimal_inj)

lemma frame_at:
  assumes "frame f args caps = Some e" and "distinct (params f @ captures f)"
  shows "length args = length (params f)" and "length caps = length (captures f)"
    and "i < length args \<Longrightarrow> e (params f ! i) = Some (args ! i)" and "i < length caps \<Longrightarrow> e (captures f ! i) = Some (caps ! i)"
    and "dom e = set (params f) \<union> set (captures f)"
    and "x \<in> set (captures f) \<Longrightarrow> e x = map_of (zip (captures f) caps) x"
proof -
  from assms(1) have l: "length args = length (params f)" "length caps = length (captures f)"
    and e: "e = map_of (zip (params f) args) ++ map_of (zip (captures f) caps)"
    by (auto simp: frame_def split: if_splits)
  then show "length args = length (params f)" "length caps = length (captures f)" by simp_all
  have c: "map_of (zip (captures f) caps) x = None \<longleftrightarrow> x \<notin> set (captures f)" for x
    using l by (simp add: map_of_zip_is_None)
  show "e (params f ! i) = Some (args ! i)" if "i < length args"
  proof -
    have "params f ! i \<notin> set (captures f)" using that l assms(2) by (metis disjoint_iff distinct_append nth_mem)
    moreover have "map_of (zip (params f) args) (params f ! i) = Some (args ! i)"
      using that l assms(2) by (intro map_of_zip_nth) simp_all
    moreover have "map_of (zip (captures f) caps) (params f ! i) = None"
      using calculation(1) c by blast
    ultimately show ?thesis by (simp add: e map_add_def)
  qed
  show "e (captures f ! i) = Some (caps ! i)" if "i < length caps"
  proof -
    have "map_of (zip (captures f) caps) (captures f ! i) = Some (caps ! i)"
      using that l assms(2) by (intro map_of_zip_nth) simp_all
    then show ?thesis by (simp add: e map_add_def)
  qed
  show "dom e = set (params f) \<union> set (captures f)" using l by (auto simp: e)
  show "e x = map_of (zip (captures f) caps) x" if "x \<in> set (captures f)"
    using c [of x] that by (auto simp: e map_add_def)
qed

definition task_fields :: "ir_function \<Rightarrow> (string \<times> atom) list" where
  "task_fields f = (''__tag'', AConst (CInt 0)) # map (\<lambda>(i, p). (arg_field i, AVar p)) (enumerate 0 (params f))"

lemma task_fields_eval:
  assumes fr: "frame f args caps = Some e" and d: "distinct (params f @ captures f)"
    and E: "\<And>x. x \<in> set (params f) \<Longrightarrow> E x = e x"
  shows "eval_atoms E (map snd (task_fields f)) = Some (VInt 0 # args)"
proof -
  have "eval_atoms E (map AVar (params f)) = Some args"
    unfolding eval_atoms_Some list_all2_conv_all_nth
    using frame_at(1,3) [OF fr d] E by (auto simp: nth_mem)
  moreover have "map snd (map (\<lambda>(i, p). (arg_field i, AVar p)) (enumerate 0 (params f))) = map AVar (params f)"
    by (rule nth_equalityI) (simp_all add: split_beta nth_enumerate_eq)
  ultimately show ?thesis by (simp only: task_fields_def list.map snd_conv) simp
qed

lemma task_field_names: "map fst (task_fields f) = TAG_FIELD # map arg_field [0..<length (params f)]"
  by (auto simp: task_fields_def TAG_FIELD_def split_beta nth_enumerate_eq intro!: nth_equalityI)

lemma map_of_args:
  "i < length args \<Longrightarrow> map_of (zip (map arg_field [0..<length args]) args) (arg_field i) = Some (args ! i)"
  using map_of_zip_nth [of "map arg_field [0..<length args]" args i]
  by (simp add: distinct_map inj_on_def arg_field_names)

lemma constructs:
  assumes p: "poll_prims pr aw" and fr: "frame f args caps = Some e" and d: "distinct (params f @ captures f)"
  obtains r where "runs_block R pr e [] w (task_body f pf) (Ret (VVariant task_kind_async [VClosure pf caps, VRecord r])) w"
    and "map_of r TAG_FIELD = Some (VInt 0)" and "\<And>i. i < length args \<Longrightarrow> map_of r (arg_field i) = Some (args ! i)"
proof -
  note F = frame_at [OF fr d]
  let ?m = "fold max (params f @ captures f) 0"
  have small: "x \<le> ?m" if "x \<in> set (params f) \<union> set (captures f)" for x
    using that fold_max_above [of x "params f @ captures f" 0] by simp
  let ?e1 = "e(?m + 1 \<mapsto> VClosure pf caps)"
  have "eval_atoms e (map AVar (captures f)) = Some caps"
    unfolding eval_atoms_Some list_all2_conv_all_nth using F(2,4) by auto
  then have 1: "evals R pr e w (MakeClosure pf (map AVar (captures f))) (VClosure pf caps) w"
    by (intro evals_primitive) (auto simp: dispatch_rv_def eval_prim_def)
  have names: "distinct (map fst (task_fields f))" "length (VInt 0 # args) = length (task_fields f)"
    using F(1) by (simp_all add: task_field_names distinct_map inj_on_def arg_field_names image_iff) (simp add: task_fields_def)
  from poll_primsD(2) [OF p names] obtain r where r: "pr (MakeRecord (task_fields f) None) (VInt 0 # args) w = Some (VRecord r, w)"
    "map_of r = map_of (zip (map fst (task_fields f)) (VInt 0 # args))" by blast
  have "eval_atoms ?e1 (map snd (task_fields f)) = Some (VInt 0 # args)"
    by (rule task_fields_eval [OF fr d]) (use small in force)
  then have 2: "evals R pr ?e1 w (MakeRecord (task_fields f) None) (VRecord r) w"
    using r(1) by (intro evals_primitive) (auto simp: dispatch_rv_def eval_prim_def)
  let ?x = "VVariant task_kind_async [VClosure pf caps, VRecord r]"
  have 3: "evals R pr (?e1(?m + 2 \<mapsto> VRecord r)) w (MakeVariant TASK_ENUM task_kind_async [AVar (?m + 1), AVar (?m + 2)]) ?x w"
    by (rule evals_primitive [where us = "[VClosure pf caps, VRecord r]"])
      (auto simp: dispatch_rv_def eval_prim_def poll_primsD(4) [OF p])
  show thesis
  proof (rule that [of r])
    show "runs_block R pr e [] w (task_body f pf) (Ret ?x) w"
      unfolding task_body_def Let_def task_fields_def [symmetric]
      by (rule runs_then [OF 1 runs_then [OF 2 runs_then [OF 3 runs_return_var]]]) simp
    show "map_of r TAG_FIELD = Some (VInt 0)" by (simp add: r(2) task_field_names)
    show "map_of r (arg_field i) = Some (args ! i)" if "i < length args" for i
      using map_of_args [OF that] F(1) by (simp add: r(2) task_field_names arg_field_names)
  qed
qed

lemma entry_runs:
  assumes p: "poll_prims pr aw" and s: "E (state_var pv) = Some (VRecord r)"
    and ps: "\<And>i. i < length ps \<Longrightarrow> map_of r (arg_field i) = e (ps ! i) \<and> e (ps ! i) \<noteq> None"
    and new: "state_var pv \<notin> set ps" "\<And>dv. defers_var pv = Some dv \<Longrightarrow> dv \<notin> set ps"
  obtains E' where "runs_block R pr E [] w (entry_prologue pv ps) (Norm E' []) w"
    and "\<And>y. y \<in> set ps \<Longrightarrow> E' y = e y" and "\<And>y. y \<notin> set ps \<Longrightarrow> defers_var pv \<noteq> Some y \<Longrightarrow> E' y = E y"
    and "carried pv E' []"
proof -
  let ?xs = "map (\<lambda>(i, p). (p, arg_field i)) (enumerate 0 ps)"
  have xs: "fst ` set ?xs = set ps"
  proof -
    have "map fst ?xs = map snd (enumerate 0 ps)" by (simp add: split_beta comp_def)
    then have "map fst ?xs = ps" by simp
    then show ?thesis by (metis list.set_map)
  qed
  have "\<exists>E1. runs_block R pr E [] w (map (\<lambda>(x, n). load_field pv x n) ?xs) (Norm E1 []) w
    \<and> (\<forall>y. E1 y = (if y \<in> fst ` set ?xs then e y else E y))"
    by (rule loads_run [where pv = pv and E = E, OF p s]) (use ps new(1) xs in \<open>auto simp: in_set_enumerate_eq\<close>)
  then obtain E1 where 1: "runs_block R pr E [] w (map (\<lambda>(x, n). load_field pv x n) ?xs) (Norm E1 []) w"
    "\<And>y. E1 y = (if y \<in> set ps then e y else E y)" unfolding xs by blast
  have m: "map (\<lambda>(x, n). load_field pv x n) ?xs = map (\<lambda>(i, p). load_field pv p (arg_field i)) (enumerate 0 ps)"
    by (simp add: split_beta comp_def)
  let ?E2 = "case defers_var pv of None \<Rightarrow> E1 | Some d \<Rightarrow> E1(d \<mapsto> VList [])"
  have 2: "runs_block R pr E1 [] w (case defers_var pv of None \<Rightarrow> [] | Some d \<Rightarrow> [synthetic (Let d (MakeList []))]) (Norm ?E2 []) w"
  proof (cases "defers_var pv")
    case (Some d)
    have "evals R pr E1 w (MakeList []) (VList []) w"
      by (rule evals_primitive [where us = "[]"]) (auto simp: dispatch_rv_def eval_prim_def poll_primsD(5) [OF p])
    from runs_then [OF this runs_block_Nil] Some show ?thesis by simp
  qed simp
  show thesis
  proof (rule that [of ?E2])
    show "runs_block R pr E [] w (entry_prologue pv ps) (Norm ?E2 []) w"
      unfolding entry_prologue_def by (rule runs_block_append [OF 1(1) [unfolded m] 2])
    show "?E2 y = e y" if "y \<in> set ps" for y using that new(2) by (auto simp: 1(2) split: option.split)
    show "?E2 y = E y" if "y \<notin> set ps" "defers_var pv \<noteq> Some y" for y
      using that by (auto simp: 1(2) split: option.split)
    show "carried pv ?E2 []" by (auto simp: carried_def split: option.split)
  qed
qed

section \<open>The pass is correct\<close>

lemma poll_fn_setup:
  assumes b: "build_poll_fn f = Some (Some g)" and g: "pf < length R" "R ! pf = g" and af: "assigned_fn f"
    and d: "distinct (params f @ captures f)" and bc: "collect_block_binds (body f) \<inter> set (captures f) = {}"
    and n: "\<forall>bs. poll_blocks f = Some bs \<longrightarrow> length bs \<le> 2 ^ 64" and p: "poll_prims pr aw"
    and c: "length capv = length (captures f)"
  obtains bs live T where "poll_blocks f = Some bs" and "poll_setup R pr aw pf f bs live T capv"
    and "T 0 = set (params f) \<union> set (captures f)"
proof -
  from b obtain bs live where bs: "poll_blocks f = Some bs" and live: "liveness bs (set (captures f)) = Some live"
    and geq: "params g = [state_var (poll_vars_of f), resume_var (poll_vars_of f)]" "captures g = captures f"
      "body g = poll_body (poll_vars_of f) (poll_arms f bs live)"
    by (auto simp: build_poll_fn_def bind_Some_iff Let_def poll_arms_def split: if_splits)
  from poll_blocks_shape(2) [OF bs af] obtain T where T: "flows f bs T" by blast
  have sh: "shaped f bs" by (rule poll_blocks_shape(1) [OF bs])
  have "live_solution (set (captures f)) bs live"
    using liveness_solution [OF shaped_in_range [OF sh], of "set (captures f)"] live by auto
  with T sh geq g d bc n p c bs have "poll_setup R pr aw pf f bs live T capv"
    by (simp add: poll_setup_def polls_as_def)
  moreover have "T 0 = set (params f) \<union> set (captures f)" using T by (simp add: flows_def)
  ultimately show thesis using that bs by blast
qed

lemma task_driven:
  assumes S: "poll_setup R pr aw pf f bs live T capv" and T0: "T 0 = set (params f) \<union> set (captures f)"
    and fr: "frame f args capv = Some e" and tag: "map_of r TAG_FIELD = Some (VInt 0)"
    and ar: "\<And>i. i < length args \<Longrightarrow> map_of r (arg_field i) = Some (args ! i)"
    and re: "reaches R pr bs 0 e [] w v w'"
  shows "\<exists>u w1. returns R pr pf [VRecord r, x] capv w u w1 \<and> settles R pr aw pf capv u w1 v w'"
proof -
  let ?pv = "poll_vars_of f" and ?E = "(poll_frame f capv (VRecord r) x)(pc_var (poll_vars_of f) \<mapsto> VInt (of_nat 0))"
  note D = poll_setupD [OF S] and F = frame_at [OF fr D(8)]
  have 0: "0 < length bs" "resume_bind (bs ! 0) = None" using D(2) by (simp_all add: shaped_def)
  have fs: "?E (state_var ?pv) = Some (VRecord r)"
    using poll_frame_vars(1) by (simp add: poll_vars_fresh)
  have ps: "map_of r (arg_field i) = e (params f ! i) \<and> e (params f ! i) \<noteq> None" if "i < length (params f)" for i
    using that ar F(1,3) by simp
  have big: "y \<notin> set (params f) \<and> y \<notin> set (captures f)" if "max_var f < y" for y
    using that max_var_bound(1,2) [of f] by auto
  have new: "state_var ?pv \<notin> set (params f)" "dv \<notin> set (params f)" if "defers_var ?pv = Some dv" for dv
    using that big by (auto simp: poll_vars_fresh split: if_splits)
  have sv: "state_var ?pv \<notin> set (params f)" using big [of "state_var ?pv"] by (simp add: poll_vars_fresh)
  from entry_runs [where R = R and w = w and pv = ?pv and E = ?E, OF D(6) fs ps sv new(2)] obtain E2
    where E2: "runs_block R pr ?E [] w (entry_prologue ?pv (params f)) (Norm E2 []) w" "\<And>y. y \<in> set (params f) \<Longrightarrow> E2 y = e y"
      "\<And>y. y \<notin> set (params f) \<Longrightarrow> defers_var ?pv \<noteq> Some y \<Longrightarrow> E2 y = ?E y" "carried ?pv E2 []" by metis
  have caps: "e y = map_of (zip (captures f) capv) y" "E2 y = e y" if y: "y \<in> set (captures f)" for y
  proof -
    show 1: "e y = map_of (zip (captures f) capv) y" by (rule F(6) [OF y])
    have "y \<notin> set (params f)" using y D(8) by auto
    moreover have "\<not> max_var f < y" using big y by blast
    ultimately have "E2 y = ?E y" by (intro E2(3)) (auto simp: poll_vars_fresh split: if_splits)
    also have "\<dots> = poll_frame f capv (VRecord r) x y" using \<open>\<not> max_var f < y\<close> by (auto simp: poll_vars_fresh)
    also have "\<dots> = e y" using poll_frame_vars(3) [OF y] D(7) 1 by simp
    finally show "E2 y = e y" .
  qed
  have "holds f bs live T capv 0 e [] E2"
    unfolding holds_def
  proof (intro conjI)
    show "T 0 \<subseteq> dom e" using F(5) T0 by simp
    have "set (live ! 0) \<subseteq> set (params f)" using live_assigned [OF D(2-4) 0(1)] T0 by blast
    then show "env_le (set (live ! 0) \<union> set (captures f) \<union> resume_binds (bs ! 0)) e E2"
      using E2(2) caps(2) 0(2) by (auto simp: env_le_def resume_binds_def)
  qed (use caps(1) E2(4) in simp_all)
  from poll_enters [OF S 0(1) _ _ this reaches_polled [OF S re], of r x] E2(1) tag show ?thesis
    by (simp add: prologue_def)
qed

text \<open>
  C4. The async lowering pass is correct on runs that return. Take a function with awaits whose
  variables are assigned before they are read, whose parameters and captures are distinct, which
  does not bind a capture again, and whose poll function has at most 2^64 blocks; and a run of
  its body that returns a value, in which awaiting a task gives what the scheduler says and every
  match that is run selects an arm (a match that selects none, as an else-less conditional on a
  pattern may, is no run here: the lowered function would repeat it for ever). In the lowered
  program a call of the function returns a task and does nothing else; and driving that task, by
  polling it and, each time it is pending, awaiting the task it names and polling again with the
  state it left, completes with the same value in the same world, the cleanups included.
\<close>

theorem lower_async_correct:
  assumes l: "lower_async p = Some q" and i: "i < length (prog_functions p)" and f: "f = prog_functions p ! i"
    and el: "eligible f" and af: "assigned_fn f"
    and d: "distinct (params f @ captures f)" and bc: "collect_block_binds (body f) \<inter> set (captures f) = {}"
    and n: "\<forall>bs. poll_blocks f = Some bs \<longrightarrow> length bs \<le> 2 ^ 64"
    and p: "poll_prims pr aw" and fr: "frame f args caps = Some e"
    and run: "arun (prog_functions q) pr e [] w (body f) (Ret v) w'"
  shows "\<exists>task. returns (prog_functions q) pr i args caps w task w \<and> drives (prog_functions q) pr aw task w v w'"
proof -
  let ?R = "prog_functions q"
  from lower_async_at [OF l i el [unfolded f]] obtain pf g where g: "build_poll_fn f = Some (Some g)" "pf < length ?R" "?R ! pf = g"
    and qi: "i < length ?R" "?R ! i = f\<lparr>body := task_body f pf, is_async := False, poll_fn := None\<rparr>"
    unfolding f by blast
  from frame_at(2) [OF fr d] have c: "length caps = length (captures f)" .
  from poll_fn_setup [OF g af d bc n p c] obtain bs live T where bs: "poll_blocks f = Some bs"
    and S: "poll_setup ?R pr aw pf f bs live T caps" and T0: "T 0 = set (params f) \<union> set (captures f)" .
  from constructs [OF p fr d, where R = ?R and w = w and pf = pf] obtain r
    where r: "runs_block ?R pr e [] w (task_body f pf) (Ret (VVariant task_kind_async [VClosure pf caps, VRecord r])) w"
      "map_of r TAG_FIELD = Some (VInt 0)" "\<And>i. i < length args \<Longrightarrow> map_of r (arg_field i) = Some (args ! i)" by blast
  have "returns ?R pr i args caps w (VVariant task_kind_async [VClosure pf caps, VRecord r]) w"
  proof (rule returnsI [OF qi(1)])
    show "frame (?R ! i) args caps = Some e" using fr by (simp add: qi(2) frame_def split: if_splits)
  qed (simp add: qi(2) r(1))
  moreover have "drives ?R pr aw (VVariant task_kind_async [VClosure pf caps, VRecord r]) w v w'"
    unfolding drives_def using task_driven [OF S T0 fr r(2,3) poll_blocks_shape(3) [OF bs run]] by blast
  ultimately show ?thesis by blast
qed

section \<open>An example\<close>

text \<open>
  The world counts the awaits; a task is an integer, and awaiting it gives the next one. The
  function awaits its argument in a loop that it leaves at once, awaits the result and returns
  what that gives.
\<close>

fun example_await :: "val \<Rightarrow> nat \<Rightarrow> (val \<times> nat) option" where
  "example_await (VInt k) w = Some (VInt (k + 1), Suc w)"
| "example_await _ w = None"

fun list_items :: "list_item list \<Rightarrow> val list \<Rightarrow> val list" where
  "list_items (Elem a # is) (v # vs) = v # list_items is vs"
| "list_items (Spread a # is) (VList us # vs) = us @ list_items is vs"
| "list_items _ _ = []"

fun example_prim :: "nat prim" where
  "example_prim (Await a) [t] w = example_await t w"
| "example_prim (MakeRecord fs None) vs w = Some (VRecord (zip (map fst fs) vs), w)"
| "example_prim (GetField a n None) [VRecord r] w = map_option (\<lambda>v. (v, w)) (map_of r n)"
| "example_prim (MakeVariant en t as) vs w = Some (VVariant t vs, w)"
| "example_prim (MakeList is) vs w = Some (VList (list_items is vs), w)"
| "example_prim _ vs w = None"

lemma example_prims: "poll_prims example_prim example_await"
  by (simp add: poll_prims_def)

lemma example_lowers: "\<not> Option.is_none (lower_async example_program)"
  by code_simp

lemma example_blocks: "map_option length (poll_blocks example_async) = Some 6"
  by code_simp

lemma example_assigned: "assigned_fn example_async"
proof -
  have "da {0} [Stmt (Loop [Stmt (Let 1 (Await (AVar 0))) l, Stmt Break_stmt l]) l,
      Stmt (Let 2 (Await (AVar 1))) l, Stmt (Return (AVar 2)) l] {} {} {}" for l
  proof (rule da_Loop)
    show "da {0} [Stmt (Let 1 (Await (AVar 0))) l, Stmt Break_stmt l] {0} {0, 1} {0}"
      by (auto intro!: da_Let da_Break)
    show "da {0, 1} [Stmt (Let 2 (Await (AVar 1))) l, Stmt (Return (AVar 2)) l] {} {} {}"
      by (auto intro!: da_Let da_Return)
  qed simp
  then show ?thesis by (simp add: assigned_fn_def example_async_def synthetic_def)
qed

lemma example_await_evals:
  "e x = Some (VInt k) \<Longrightarrow> evals P example_prim e w (Await (AVar x)) (VInt (k + 1)) (Suc w)"
  by (rule evals_primitive [where us = "[VInt k]"]) (simp_all add: dispatch_rv_def eval_prim_def)

lemma example_runs:
  "arun P example_prim [0 \<mapsto> VInt 3] [] 0 (body example_async) (Ret (VInt 5)) 2"
proof -
  let ?e = "[0 \<mapsto> VInt 3, 1 \<mapsto> VInt 4]"
  have 1: "evals P example_prim [0 \<mapsto> VInt 3] 0 (Await (AVar 0)) (VInt 4) 1"
    using example_await_evals [of "[0 \<mapsto> VInt 3]" 0 3 P 0] by simp
  have 2: "evals P example_prim ?e 1 (Await (AVar 1)) (VInt 5) 2"
    using example_await_evals [of ?e 1 4 P 1] by (simp add: numeral_2_eq_2)
  have "arun P example_prim [0 \<mapsto> VInt 3] [] 0 [synthetic (Let 1 (Await (AVar 0))), synthetic Break_stmt] (Brk ?e []) 1"
    unfolding synthetic_def by (rule arun_Let [OF 1 arun_Break])
  moreover have "arun P example_prim ?e [] 1 [synthetic (Let 2 (Await (AVar 1))), synthetic (Return (AVar 2))] (Ret (VInt 5)) 2"
    unfolding synthetic_def by (rule arun_Let [OF 2 arun_Return]) simp_all
  ultimately show ?thesis
    by (simp add: example_async_def synthetic_def arun_Loop_break)
qed

text \<open>The example awaits its argument, then what that gave.\<close>

theorem lower_async_correct_witness:
  "\<exists>q task. lower_async example_program = Some q
     \<and> returns (prog_functions q) example_prim 0 [VInt 3] [] 0 task 0
     \<and> drives (prog_functions q) example_prim example_await task 0 (VInt 5) 2"
proof -
  from example_lowers obtain q where q: "lower_async example_program = Some q" by (cases "lower_async example_program") auto
  have "\<exists>task. returns (prog_functions q) example_prim 0 [VInt 3] [] 0 task 0
     \<and> drives (prog_functions q) example_prim example_await task 0 (VInt 5) 2"
  proof (rule lower_async_correct [OF q _ _ _ example_assigned _ _ _ example_prims _ example_runs])
    show "\<forall>bs. poll_blocks example_async = Some bs \<longrightarrow> length bs \<le> 2 ^ 64" using example_blocks by auto
    show "frame example_async [VInt 3] [] = Some [0 \<mapsto> VInt 3]" by (simp add: frame_def example_async_def)
  qed (simp_all add: example_program_def example_async_def eligible_def synthetic_def)
  with q show ?thesis by blast
qed

end
