(* ===== verification/Spec2Isabelle.thy ===== *)
theory Spec2Isabelle
  imports Suggest Doc TokenizerLines Simplify LoopifyCorrect ReprCoerce TypeSem Congruent Compose UnifyComplete ResolveSafe ScanCorrect Reach LowerPatternCorrect CpsCorrect
begin

text \<open>
  A verification development for the pluma compiler: a statically typed functional language,
  compiled through an A-normal-form intermediate representation (IR) to WebAssembly.

  A source module goes through the tokenizer, the parser and the analyzer (compiler/src), is
  lowered to the IR (ir/src/lower.rs), rewritten by the IR passes and emitted by the wasm crate.
  The formatter prints syntax trees through a document algebra (formatter/src/doc.rs); the
  analyzer's diagnostics use the name suggestions of compiler/src/suggest.rs.

  Theories, and the code each models:

    \<^item> Prelude: vector indexing that may panic, folds that may fail, the collections.
    \<^item> Location: compiler/src/location.rs, points and ranges.
    \<^item> Suggest: compiler/src/suggest.rs, the rolling-row edit distance and the choice of the
      closest candidate; a Rust string is the list of its scalar values.
    \<^item> Doc: formatter/src/doc.rs, documents, the look-ahead \<open>fits\<close> and the renderer with its
      stack of items.
    \<^item> IrTypes: ir/src/types.rs, the IR (values, operations, patterns, statements, functions,
      programs) and the global constructor numbering.
    \<^item> IrSem and IrRuns: a reference semantics of the IR, which is no code of the repository: the
      specification against which the passes are proved. It runs a program with fuel; a
      primitive operation (arithmetic, allocation, a builtin of the runtime) is the parameter
      \<open>prim\<close>, which reads and updates an abstract world. \<open>IrRuns\<close> has its derived rules:
      fuel monotonicity, determinism and the runs of blocks.
    \<^item> Simplify: ir/src/simplify.rs, folding of boolean matches into conditionals. The locale
      \<open>exact_pass\<close> is the interface of a pass that rewrites functions one by one and keeps every
      run; it is interpreted on the pass.
    \<^item> Loopify and LoopifyCorrect: ir/src/loopify.rs, self-tail-recursion turned into loops.
    \<^item> Repr: ir/src/repr.rs, representation inference, join detection, coercion insertion and the
      readiness checker. A slot of a record shape without a representation is a panic of the
      code (types.rs indexes the vector) and \<open>None\<close> here. ReprInfer and ReprCoerce hold the properties.

    \<^item> Tokens and Tokenizer: compiler/src/tokens.rs, compiler/src/errors/parse_error.rs and the
      lexer compiler/src/tokenizer.rs over the bytes of a file; every field of \<open>Tokenizer\<close> is a
      field of the record \<open>tokenizer\<close>, \<open>lex_step\<close> is one turn of the loop of \<open>next\<close>, and
      \<open>tokenize\<close> is \<open>Module::tokenize\<close>. TokenizerCorrect and TokenizerLines hold the properties.
    \<^item> Types and Substitution: compiler/src/types, the types of the language with their display,
      schemes and constraints, and substitutions with rows. TypeSem gives types a meaning (ground
      types under a valuation of the variables, records as finite maps); Congruent is about
      \<open>congruent_diff\<close>, the instance of a generic type, and Compose about \<open>compose\<close>, applied as
      one substitution after the other.
    \<^item> Unify: the equality solver of compiler/src/analyzer.rs (\<open>unify_eq_constraints\<close>), a
      worklist over three chained maps. Kinds, UnifyState, UnifyRows, UnifyRules and Normalize
      hold its well-kindedness discipline and what a step keeps; Canon is equality of types up to
      the order of fields; UnifySound holds its soundness,
      UnifyWeight, UnifyProgress and UnifyComplete its termination and completeness.

    \<^item> Traverse: the three recursions the passes share, over the operations, the right-hand sides
      and the atoms of a body, each with the lemmas that a rewrite done everywhere preserves.
    \<^item> Passes: the contracts of the remaining passes as locales. \<open>kept\<close> says that a rewritten
      program gives every run of the original that is not stuck; \<open>improving_pass\<close> is a pass
      that rewrites one block at a time, \<open>call_rewrite\<close> one that rewrites single operations,
      \<open>dead_pruning\<close> the removal of unused global loads, \<open>resolution\<close> the two together.
    \<^item> Resolve, ResolveCorrect and ResolveSafe: ir/src/resolve.rs, the resolution of closure
      calls into direct calls, builtin operations and constructor allocations. The semantics does
      not know what a global load returns, so the lemmas are stated over a world where it returns
      what the program defines: \<open>globals_loaded\<close>, \<open>loads_fixed\<close> and \<open>ctors_applied\<close>.
    \<^item> Mono and MonoCorrect: wasm/src/mono.rs, the specialization of functions on record shapes;
      \<open>clone_of\<close> says which functions of the result are clones of one of the program.
    \<^item> Scan and ScanCorrect: wasm/src/scan.rs, the pools of string and number constants and
      the nominal argument types; \<open>needs_const\<close> says which constants a program needs, without the
      code's recursion.
    \<^item> Reach: wasm/src/lib.rs, the functions and globals that \<open>main\<close> reaches, and the parameter
      representations of the functions the emitter may monomorphize; \<open>called_indirectly\<close> says
      which functions may be called through a closure, by occurrence in the bodies.

    \<^item> Syntax: patterns, literals and identifiers of compiler/src/ast. Exhaustive: the exhaustiveness
      check of \<open>when\<close> in compiler/src/analyzer.rs, and LowerPattern: the lowering of patterns and
      arms in ir/src/lower.rs. PatternSem is their specification (typed values, typed patterns
      and what a source pattern binds); ExhaustiveSound and LowerPatternCorrect hold the
      properties.

    \<^item> Cps: ir/src/cps.rs and wasm/src/async_lower.rs, the async pass: flattening a body into basic
      blocks, renumbering, liveness, the poll function and the task constructor. CpsGraph, CpsLive
      and CpsNumber are about the graph; CpsSem is the specification (runs that select an arm,
      definite assignment, runs of a graph, the driver); CpsBuild and CpsFlow relate a body to its
      graph and CpsShape puts them together; CpsEmit, CpsPoll and CpsDrive relate the graph to the
      poll function. CpsTotal and CpsCorrect hold the properties.

  What the lemmas show. The IR passes are semantics-preserving: \<open>Simplify\<close> exactly (equal runs
  at every fuel), loopification for every result returned. The
  passes never panic (an out-of-range index of a \<open>Vec\<close> is \<open>None\<close> in the model), reach their
  fixed point in one run, and leave what the next stage expects: no self-tail-call in a
  rewritten function, and after coercion insertion every operand in the representation its
  consumer needs. The renderer lays a group out flat exactly when it fits, and prints the same
  ink for every width. Suggestions are the least candidates of the documented order.

  The tokenizer returns on every well-formed input, with tokens in order and spelt as their kind
  says. On well-kinded constraints the equality solver computes most general unifiers: a run without a diagnostic unifies
  every constraint, satisfiable constraints are solved without a diagnostic, and the result is an
  idempotent substitution. Well-kinded constraints are those where each row variable stands
  beside one set of labels only (\<open>kinded\<close>). That is a hypothesis: the named rest of a record
  pattern breaks it, and \<open>named_rest_accepted\<close> shows a wrong solution then; the order in which hash maps hand out their keys is
  the parameter \<open>hash_orders\<close>. Where a walk through chained maps may run forever the model
  gives \<open>None\<close>, and \<open>row_cycle_diverges\<close> shows such a run.

  A \<open>when\<close> that passes the exhaustiveness check selects an arm for every value of its subject's
  type, after lowering too, and the arm is the first whose source pattern matches. This holds
  where lowering can read the names of the pattern (\<open>readable\<close>) and list patterns with a rest have one
  head; the lemmas \<open>nested_none_binds\<close>, \<open>bare_variant_tested\<close>, \<open>two_heads_accepted\<close> and
  \<open>open_universe_accepted\<close> are what the code does elsewhere.

  An async function runs as its body does: driving the task it returns gives the value the body
  returns when an awaited task gives what the scheduler says (\<open>lower_async_correct\<close>). The driver
  is instructions of wasm/src/helpers/task.rs and \<open>settles\<close> its specification; what the poll
  function needs of records, variants and lists is \<open>poll_prims\<close>. The body must assign variables
  before it reads them (\<open>assigned_fn\<close>), and the run select an arm at each match: a match that
  selects none leaves \<open>pc\<close> as it is in the poll function, whose loop then never ends.

  Fuel appears in the reference semantics only. \<open>returns\<close> says that some fuel gives the result;
  results do not depend on the fuel once it is enough (IrRuns). The passes and the renderer are
  total functions with termination proofs.

  Widths. Variable, function and global ids are \<open>u32\<close> in the code and \<open>nat\<close> here: the passes
  only compare them and add one to the largest, and a function of \<open>2 ^ 32\<close> variables is outside
  the model. Columns and budgets of the renderer are \<open>usize\<close> and \<open>i64\<close> there, \<open>nat\<close> and
  \<open>int\<close> here, for documents shorter than \<open>2 ^ 63\<close>. Int constants are 64-bit words; float
  constants are their bit patterns, compared in the reference semantics as IEEE equality does.

  Hash maps and hash sets are maps and sets. Where the code iterates over one the order does
  not reach the result.

  Not modelled yet: the parser, inference and name resolution in the analyzer, the lowering of
  expressions, the reuse pass, the WASM emitter, the linter. Not to be modelled: the host, the
  command line and the language server (operating-system and protocol glue), message texts.
\<close>

end
